(* ===== verification/Prelude.thy ===== *)
theory Prelude
  imports Main "HOL-Library.Word" "HOL-Library.Monad_Syntax"
begin

text \<open>
  The vocabulary the component theories share: the collections of rewrite rules that
  carry their proofs, arithmetic of machine words read as natural numbers, and the
  little-endian value of a vector of words (the reading of every limb, digit and byte
  vector of the program).
\<close>

unbundle bit_operations_syntax

named_theorems word_nat \<open>words read as natural numbers: additions, products and halves that do not wrap\<close>
named_theorems vec_val \<open>values and lengths of the results of the vector operations\<close>

subsection \<open>Words as natural numbers\<close>

lemma unat_lt: "unat (x :: 'l::len word) < 2 ^ LENGTH('l)"
  by (rule unsigned_less)

text \<open>The carry out of an addition and the borrow out of a subtraction, as C tests them.\<close>

lemma unat_plus_carry:
  fixes a b :: "'l::len word"
  shows "unat (a + b) + 2 ^ LENGTH('l) * of_bool (a + b < b) = unat a + unat b"
proof (cases "unat a + unat b < 2 ^ LENGTH('l)")
  case True
  then have "unat (a + b) = unat a + unat b" by (simp add: unat_word_ariths)
  then show ?thesis by (simp add: word_less_nat_alt)
next
  case False
  have "unat a < 2 ^ LENGTH('l)" "unat b < 2 ^ LENGTH('l)"
    by (rule unsigned_less)+
  with False have "unat a + unat b - 2 ^ LENGTH('l) < 2 ^ LENGTH('l)" by linarith
  with False have "unat (a + b) = unat a + unat b - 2 ^ LENGTH('l)"
    by (simp add: unat_word_ariths le_mod_geq)
  with False \<open>unat a < 2 ^ LENGTH('l)\<close> show ?thesis
    by (simp add: word_less_nat_alt less_diff_conv2)
qed

lemma unat_plus_carry':
  fixes a b :: "'l::len word"
  shows "unat (a + b) + 2 ^ LENGTH('l) * of_bool (a + b < a) = unat a + unat b"
  using unat_plus_carry [of b a] by (simp add: add.commute)

lemma unat_minus_borrow:
  fixes a b :: "'l::len word"
  shows "unat (a - b) + unat b = unat a + 2 ^ LENGTH('l) * of_bool (a < b)"
proof (cases "a < b")
  case True
  then have "unat b = unat a + unat (b - a)" by (simp add: unat_sub word_less_nat_alt word_le_nat_alt)
  have "unat b < 2 ^ LENGTH('l)" by (rule unsigned_less)
  then have "unat b \<le> unat a + 2 ^ LENGTH('l)" by linarith
  with True show ?thesis
    by (simp add: unat_sub_if_size word_less_nat_alt word_le_nat_alt word_size)
next
  case False
  then have "b \<le> a" by simp
  with False show ?thesis by (simp add: unat_sub word_le_nat_alt)
qed

lemma unat_of_bool_word [simp]: "unat (of_bool p :: 'l::len word) = of_bool p"
  by simp

lemma word_le_1_cases: "unat (c::'l::len word) \<le> 1 \<Longrightarrow> c = 0 \<or> c = 1"
proof -
  assume "unat c \<le> 1"
  then have "unat c = 0 \<or> unat c = unat (1::'l word)" by auto
  then show ?thesis by (auto simp: unat_eq_zero intro: word_unat_eq_iff [THEN iffD2])
qed

subsection \<open>A word and its double: the C types \<open>liLimb\<close> and \<open>liDLimb\<close>\<close>

text \<open>
  A double word has twice the bits of a word (\<open>'l bit0\<close> has \<open>2 * LENGTH('l)\<close>).
  \<open>wide\<close> is the C cast to the double type, \<open>lo\<close> the cast back, \<open>hi\<close> the cast back
  after a shift by the width.
\<close>

definition wide :: "'l::len word \<Rightarrow> 'l bit0 word" where
  "wide a = ucast a"

definition lo :: "'l::len bit0 word \<Rightarrow> 'l word" where
  "lo t = ucast t"

definition hi :: "'l::len bit0 word \<Rightarrow> 'l word" where
  "hi t = ucast (drop_bit LENGTH('l) t)"

lemma unat_wide [simp, word_nat]: "unat (wide (a :: 'l::len word)) = unat a"
proof -
  have "unat a < 2 ^ LENGTH('l)" by simp
  also have "(2::nat) ^ LENGTH('l) \<le> 2 ^ (2 * LENGTH('l))" by simp
  finally show ?thesis by (simp add: wide_def unsigned_ucast_eq take_bit_nat_eq_self)
qed

lemma unat_double_lt: "unat (t :: 'l::len bit0 word) < 2 ^ LENGTH('l) * 2 ^ LENGTH('l)"
proof -
  have "unat t < 2 ^ LENGTH('l bit0)" by (rule unsigned_less)
  then show ?thesis by (simp flip: power_add add: mult_2)
qed

lemma unat_lo [word_nat]: "unat (lo (t :: 'l::len bit0 word)) = unat t mod 2 ^ LENGTH('l)"
  by (simp add: lo_def unsigned_ucast_eq take_bit_eq_mod)

lemma unat_hi [word_nat]: "unat (hi (t :: 'l::len bit0 word)) = unat t div 2 ^ LENGTH('l)"
proof -
  have "unat t div 2 ^ LENGTH('l) < 2 ^ LENGTH('l)"
    using unat_double_lt [of t] by (simp add: less_mult_imp_div_less)
  then show ?thesis
    unfolding hi_def unsigned_ucast_eq unat_drop_bit_eq
    by (simp add: drop_bit_eq_div take_bit_nat_eq_self)
qed

lemma unat_lo_hi: "unat (lo t) + 2 ^ LENGTH('l) * unat (hi (t :: 'l::len bit0 word)) = unat t"
  by (simp add: unat_lo unat_hi)

text \<open>A product plus up to two words fits the double word: \<open>(B - 1)\<^sup>2 + 2 (B - 1) = B\<^sup>2 - 1\<close>.\<close>

lemma fma_bound:
  fixes a b c d B :: nat
  assumes "a < B" "b < B" "c < B" "d < B"
  shows "a * b + c + d < B * B"
proof -
  obtain m where B: "B = Suc m" using assms by (cases B) auto
  have "a * b \<le> m * m" using assms B by (intro mult_le_mono) auto
  then show ?thesis using assms B by simp
qed

lemma pred_square_plus: "0 < B \<Longrightarrow> (B - 1) * (B - 1) + (B - 1) = B * (B - (1::nat))"
  by (cases B) simp_all

lemma unat_double_plus:
  fixes x y :: "'l::len bit0 word"
  assumes "unat x + unat y < 2 ^ LENGTH('l) * 2 ^ LENGTH('l)"
  shows "unat (x + y) = unat x + unat y"
  using assms by (simp add: unat_word_ariths mult_2 flip: power_add)

lemma unat_double_times:
  fixes x y :: "'l::len bit0 word"
  assumes "unat x * unat y < 2 ^ LENGTH('l) * 2 ^ LENGTH('l)"
  shows "unat (x * y) = unat x * unat y"
  using assms by (simp add: unat_word_ariths mult_2 flip: power_add)

lemma unat_wide_mult [word_nat]:
  "unat (wide a * wide (b :: 'l::len word)) = unat a * unat b"
proof -
  have "unat a * unat b < 2 ^ LENGTH('l) * 2 ^ LENGTH('l)"
    by (intro mult_strict_mono) simp_all
  then show ?thesis by (simp add: unat_double_times)
qed

lemma unat_fma [word_nat]:
  "unat (wide a * wide b + wide (c :: 'l::len word)) = unat a * unat b + unat c"
  using fma_bound [of "unat a" "2 ^ LENGTH('l)" "unat b" "unat c" 0]
  by (simp add: unat_double_plus unat_wide_mult)

lemma unat_fma2 [word_nat]:
  "unat (wide a * wide b + wide c + wide (d :: 'l::len word)) = unat a * unat b + unat c + unat d"
  using fma_bound [of "unat a" "2 ^ LENGTH('l)" "unat b" "unat c" "unat d"]
  by (simp add: unat_double_plus unat_fma)

lemma unat_wide_add3 [word_nat]:
  "unat (wide a + wide b + wide (c :: 'l::len word)) = unat a + unat b + unat c"
proof -
  have "unat a + unat b + unat c < 2 ^ LENGTH('l) * 2 ^ LENGTH('l)" if "1 < LENGTH('l)"
  proof -
    have "(4::nat) = 2 ^ 2" by simp
    also have "(2::nat) ^ 2 \<le> 2 ^ LENGTH('l)" using that by (intro power_increasing) auto
    finally have "4 * 2 ^ LENGTH('l) \<le> (2 ^ LENGTH('l) * 2 ^ LENGTH('l) :: nat)" by simp
    moreover have "unat a < 2 ^ LENGTH('l)" "unat b < 2 ^ LENGTH('l)" "unat c < 2 ^ LENGTH('l)"
      by simp_all
    ultimately show ?thesis by arith
  qed
  moreover have "unat a + unat b + unat c < 2 ^ LENGTH('l) * 2 ^ LENGTH('l)" if "LENGTH('l) = 1"
  proof -
    have "unat a < 2 ^ LENGTH('l)" "unat b < 2 ^ LENGTH('l)" "unat c < 2 ^ LENGTH('l)"
      by simp_all
    then show ?thesis using that by simp
  qed
  moreover have "1 < LENGTH('l) \<or> LENGTH('l) = 1" using len_gt_0 [where 'a='l] by linarith
  ultimately have *: "unat a + unat b + unat c < 2 ^ LENGTH('l) * 2 ^ LENGTH('l)" by blast
  then have "unat (wide a + wide b) = unat a + unat b" by (simp add: unat_double_plus)
  with * show ?thesis by (simp add: unat_double_plus)
qed

subsection \<open>The value of a vector of words, least significant first\<close>

fun val :: "'l::len word list \<Rightarrow> nat" where
  "val [] = 0"
| "val (x # xs) = unat x + 2 ^ LENGTH('l) * val xs"

lemma val_append [vec_val]:
  "val (xs @ ys) = val xs + 2 ^ (LENGTH('l) * length xs) * val (ys :: 'l::len word list)"
  by (induction xs) (simp_all add: algebra_simps power_add)

lemma val_lt: "val (xs :: 'l::len word list) < 2 ^ (LENGTH('l) * length xs)"
proof (induction xs)
  case Nil
  then show ?case by simp
next
  case (Cons x xs)
  have "unat x + 2 ^ LENGTH('l) * val xs < 2 ^ LENGTH('l) + 2 ^ LENGTH('l) * val xs" by simp
  also have "\<dots> = 2 ^ LENGTH('l) * Suc (val xs)" by simp
  also have "\<dots> \<le> 2 ^ LENGTH('l) * 2 ^ (LENGTH('l) * length xs)"
    using Cons.IH by (intro mult_le_mono2) simp
  finally show ?case by (simp add: power_add)
qed

lemma val_take_drop:
  "n \<le> length xs \<Longrightarrow>
   val xs = val (take n xs) + 2 ^ (LENGTH('l) * n) * val (drop n (xs :: 'l::len word list))"
  using val_append [of "take n xs" "drop n xs"] by simp

lemma val_replicate_0 [simp]: "val (replicate n 0) = 0"
  by (induction n) simp_all

lemma val_eq_0_iff: "val xs = 0 \<longleftrightarrow> (\<forall>x \<in> set xs. x = 0)"
  by (induction xs) (simp_all add: unat_eq_zero)

lemma val_inj:
  "length xs = length ys \<Longrightarrow> val xs = val ys \<Longrightarrow> xs = (ys :: 'l::len word list)"
proof (induction xs ys rule: list_induct2)
  case Nil
  then show ?case by simp
next
  case (Cons x xs y ys)
  let ?B = "2 ^ LENGTH('l) :: nat"
  have eq: "unat x + ?B * val xs = unat y + ?B * val ys" using Cons.prems by simp
  then have "(unat x + ?B * val xs) mod ?B = (unat y + ?B * val ys) mod ?B" by simp
  then have "unat x = unat y" by simp
  with eq have "val xs = val ys" by simp
  with \<open>unat x = unat y\<close> Cons.IH show ?case by (simp add: word_unat_eq_iff)
qed

lemma val_take: "val (take n xs) = val (xs :: 'l::len word list) mod 2 ^ (LENGTH('l) * n)"
proof (cases "n \<le> length xs")
  case True
  then have "val (take n xs) < 2 ^ (LENGTH('l) * n)" using val_lt [of "take n xs"] by simp
  with True show ?thesis using val_take_drop [of n xs] by simp
next
  case False
  have "val xs < 2 ^ (LENGTH('l) * n)"
    using val_lt [of xs] False
    by (meson less_le_trans linear mult_le_mono2 not_le one_le_numeral power_increasing)
  with False show ?thesis by simp
qed

lemma val_drop: "n \<le> length xs \<Longrightarrow>
  val (drop n xs) = val (xs :: 'l::len word list) div 2 ^ (LENGTH('l) * n)"
  using val_take_drop [of n xs] val_lt [of "take n xs"] by simp

lemma val_append_zeros: "val (xs @ replicate n 0) = val xs"
  by (simp add: val_append)

lemma val_eq_0_zeros: "val xs = 0 \<Longrightarrow> xs = replicate (length xs) 0"
  by (rule val_inj) simp_all

lemma val_take_0: "i \<le> length xs \<Longrightarrow> val (drop i xs) = 0 \<Longrightarrow> val (xs :: 'l::len word list) = val (take i xs)"
  by (subst val_take_drop [of i]) simp_all

end
