(* ===== verification/Limbs.thy ===== *)
theory Limbs
  imports Prelude
begin

text \<open>
  The limb vector primitives of \<open>plugins/LargeIntegers/src/common/LargeIntegersKernels.c\<close>.
  A limb is an \<open>'l word\<close>, so every definition is both builds of the file: \<open>LI_LIMB_BITS\<close> 64
  (\<open>'l = 64\<close>, the double type \<open>'l bit0\<close> has 128 bits) and 32 (\<open>'l = 32\<close>, 64 bits).

  A pointer into limb memory is the list of the limbs from it on: \<open>a + k\<close> is \<open>drop k a\<close>, and a
  routine told to read \<open>n\<close> limbs reads \<open>take n a\<close>. A routine answers the limbs it writes,
  with the carry it returns. Where the C passes a pointer twice (\<open>r\<close> may be \<open>a\<close>), each limb is
  read before it is written, so the answer is the same list.
\<close>

subsection \<open>Multiply by one limb\<close>

fun liMul1_loop :: "'l::len word list \<Rightarrow> 'l word \<Rightarrow> 'l word \<Rightarrow> 'l word list \<times> 'l word" where
  "liMul1_loop [] b carry = ([], carry)"
| "liMul1_loop (ai # a) b carry =
     (let t = wide ai * wide b + wide carry;
          (r, c) = liMul1_loop a b (hi t)
      in (lo t # r, c))"

definition liMul1 :: "'l::len word list \<Rightarrow> nat \<Rightarrow> 'l word \<Rightarrow> 'l word list \<times> 'l word" where
  "liMul1 a n b = liMul1_loop (take n a) b 0"

fun liAddMul1_loop ::
  "'l::len word list \<Rightarrow> 'l word list \<Rightarrow> 'l word \<Rightarrow> 'l word \<Rightarrow> 'l word list \<times> 'l word" where
  "liAddMul1_loop (ri # r) (ai # a) b carry =
     (let t = wide ai * wide b + wide ri + wide carry;
          (r', c) = liAddMul1_loop r a b (hi t)
      in (lo t # r', c))"
| "liAddMul1_loop r a b carry = ([], carry)"

definition liAddMul1 ::
  "'l::len word list \<Rightarrow> 'l word list \<Rightarrow> nat \<Rightarrow> 'l word \<Rightarrow> 'l word list \<times> 'l word" where
  "liAddMul1 r a n b = liAddMul1_loop (take n r) (take n a) b 0"

fun liSubMul1_loop ::
  "'l::len word list \<Rightarrow> 'l word list \<Rightarrow> 'l word \<Rightarrow> 'l word \<Rightarrow> 'l word list \<times> 'l word" where
  "liSubMul1_loop (ri # r) (ai # a) b carry =
     (let p = wide ai * wide b + wide carry;
          pl = lo p;
          (r', c) = liSubMul1_loop r a b (hi p + of_bool (ri < pl))
      in ((ri - pl) # r', c))"
| "liSubMul1_loop r a b carry = ([], carry)"

definition liSubMul1 ::
  "'l::len word list \<Rightarrow> 'l word list \<Rightarrow> nat \<Rightarrow> 'l word \<Rightarrow> 'l word list \<times> 'l word" where
  "liSubMul1 r a n b = liSubMul1_loop (take n r) (take n a) b 0"

subsection \<open>Add and subtract vectors\<close>

fun liAddN_loop ::
  "'l::len word list \<Rightarrow> 'l word list \<Rightarrow> 'l word \<Rightarrow> 'l word list \<times> 'l word" where
  "liAddN_loop (ai # a) (bi # b) c =
     (let s = ai + c;
          c1 = of_bool (s < c);
          t = s + bi;
          (r, c') = liAddN_loop a b (c1 + of_bool (t < s))
      in (t # r, c'))"
| "liAddN_loop a b c = ([], c)"

definition liAddN ::
  "'l::len word list \<Rightarrow> 'l word list \<Rightarrow> nat \<Rightarrow> 'l word list \<times> 'l word" where
  "liAddN a b n = liAddN_loop (take n a) (take n b) 0"

fun liSubN_loop ::
  "'l::len word list \<Rightarrow> 'l word list \<Rightarrow> 'l word \<Rightarrow> 'l word list \<times> 'l word" where
  "liSubN_loop (ai # a) (b0 # b) c =
     (let bi = b0 + c;
          c1 = of_bool (bi < c);
          (r, c') = liSubN_loop a b (c1 + of_bool (ai < bi))
      in ((ai - bi) # r, c'))"
| "liSubN_loop a b c = ([], c)"

definition liSubN ::
  "'l::len word list \<Rightarrow> 'l word list \<Rightarrow> nat \<Rightarrow> 'l word list \<times> 'l word" where
  "liSubN a b n = liSubN_loop (take n a) (take n b) 0"

fun liAdd1_loop :: "'l::len word list \<Rightarrow> 'l word \<Rightarrow> 'l word list \<times> 'l word" where
  "liAdd1_loop [] c = ([], c)"
| "liAdd1_loop (ai # a) c =
     (let ri = ai + c; (r, c') = liAdd1_loop a (of_bool (ri < c)) in (ri # r, c'))"

definition liAdd1 :: "'l::len word list \<Rightarrow> nat \<Rightarrow> 'l word \<Rightarrow> 'l word list \<times> 'l word" where
  "liAdd1 a n c = liAdd1_loop (take n a) c"

fun liSub1_loop :: "'l::len word list \<Rightarrow> 'l word \<Rightarrow> 'l word list \<times> 'l word" where
  "liSub1_loop [] c = ([], c)"
| "liSub1_loop (ai # a) c =
     (let (r, c') = liSub1_loop a (of_bool (ai < c)) in ((ai - c) # r, c'))"

definition liSub1 :: "'l::len word list \<Rightarrow> nat \<Rightarrow> 'l word \<Rightarrow> 'l word list \<times> 'l word" where
  "liSub1 a n c = liSub1_loop (take n a) c"

subsection \<open>Compare\<close>

text \<open>The loop runs from the top limb down; \<open>n\<close> counts the limbs still to compare.\<close>

fun liCmp :: "'l::len word list \<Rightarrow> 'l word list \<Rightarrow> nat \<Rightarrow> int" where
  "liCmp a b 0 = 0"
| "liCmp a b (Suc i) =
     (if a ! i \<noteq> b ! i then (if a ! i < b ! i then -1 else 1) else liCmp a b i)"

subsection \<open>What they compute\<close>

lemma liMul1_loop_val:
  "liMul1_loop a b c = (r, c') \<Longrightarrow>
   length r = length a \<and>
   val r + 2 ^ (LENGTH('l) * length a) * unat c' = val a * unat b + unat (c :: 'l::len word)"
proof (induction a b c arbitrary: r c' rule: liMul1_loop.induct)
  case (1 b carry)
  then show ?case by simp
next
  case (2 ai a b carry)
  define t where "t = wide ai * wide b + wide carry"
  have t: "unat (lo t) + 2 ^ LENGTH('l) * unat (hi t) = unat ai * unat b + unat carry"
    by (simp only: unat_lo_hi) (simp only: t_def unat_fma)
  from "2.prems" obtain r1 where rec: "liMul1_loop a b (hi t) = (r1, c')" and r: "r = lo t # r1"
    by (auto simp: Let_def t_def split: prod.splits)
  from "2.IH" [OF t_def rec] have
    IH: "val r1 + 2 ^ (LENGTH('l) * length a) * unat c' = val a * unat b + unat (hi t)"
    and len: "length r1 = length a" by auto
  have "val r + 2 ^ (LENGTH('l) * length (ai # a)) * unat c'
      = unat (lo t) + 2 ^ LENGTH('l) * (val r1 + 2 ^ (LENGTH('l) * length a) * unat c')"
    by (simp add: r power_add algebra_simps)
  also have "\<dots> = unat ai * unat b + unat carry + 2 ^ LENGTH('l) * (val a * unat b)"
    unfolding IH t [symmetric] by (simp add: algebra_simps)
  finally show ?case by (simp add: len r algebra_simps)
qed

lemma liMul1_val [vec_val]:
  assumes "liMul1 a n b = (r, c)" "n \<le> length (a :: 'l::len word list)"
  shows "length r = n" "val r + 2 ^ (LENGTH('l) * n) * unat c = val (take n a) * unat b"
  using liMul1_loop_val [of "take n a" b 0 r c] assms by (simp_all add: liMul1_def min.absorb2)

lemma liAddMul1_loop_val:
  "liAddMul1_loop r a b c = (r', c') \<Longrightarrow> length a = length r \<Longrightarrow>
   length r' = length r \<and>
   val r' + 2 ^ (LENGTH('l) * length r) * unat c'
     = val r + val a * unat b + unat (c :: 'l::len word)"
proof (induction r a b c arbitrary: r' c' rule: liAddMul1_loop.induct)
  case (1 ri r ai a b carry)
  define t where "t = wide ai * wide b + wide ri + wide carry"
  have t: "unat (lo t) + 2 ^ LENGTH('l) * unat (hi t) = unat ai * unat b + unat ri + unat carry"
    by (simp only: unat_lo_hi) (simp only: t_def unat_fma2)
  from "1.prems" obtain r1 where rec: "liAddMul1_loop r a b (hi t) = (r1, c')"
    and r: "r' = lo t # r1" by (auto simp: Let_def t_def split: prod.splits)
  have lena: "length a = length r" using 1 by simp
  from "1.IH" [OF t_def rec lena] have
    IH: "val r1 + 2 ^ (LENGTH('l) * length r) * unat c' = val r + val a * unat b + unat (hi t)"
    and len: "length r1 = length r" by auto
  have "val r' + 2 ^ (LENGTH('l) * length (ri # r)) * unat c'
      = unat (lo t) + 2 ^ LENGTH('l) * (val r1 + 2 ^ (LENGTH('l) * length r) * unat c')"
    by (simp add: r power_add algebra_simps)
  also have "\<dots> = unat ai * unat b + unat ri + unat carry + 2 ^ LENGTH('l) * (val r + val a * unat b)"
    unfolding IH t [symmetric] by (simp add: algebra_simps)
  finally show ?case by (simp add: len r algebra_simps)
qed auto

lemma liAddMul1_val [vec_val]:
  assumes "liAddMul1 r a n b = (r', c)" "n \<le> length (a :: 'l::len word list)" "n \<le> length r"
  shows "length r' = n"
    "val r' + 2 ^ (LENGTH('l) * n) * unat c = val (take n r) + val (take n a) * unat b"
  using liAddMul1_loop_val [of "take n r" "take n a" b 0 r' c] assms
  by (simp_all add: liAddMul1_def min.absorb2)

lemma hi_plus_borrow:
  fixes ai b c ri :: "'l::len word"
  defines "p \<equiv> wide ai * wide b + wide c"
  shows "unat (hi p + of_bool (ri < lo p)) = unat (hi p) + of_bool (ri < lo p)"
proof (cases "ri < lo p")
  case True
  let ?B = "2 ^ LENGTH('l) :: nat"
  have "unat (hi p) + 1 < ?B"
  proof (rule ccontr)
    assume "\<not> unat (hi p) + 1 < ?B"
    moreover have "unat (hi p) < ?B" "unat (lo p) < ?B" by (rule unsigned_less)+
    ultimately have h: "unat (hi p) = ?B - 1" by linarith
    have "unat ai \<le> ?B - 1" "unat b \<le> ?B - 1" "unat c \<le> ?B - 1"
      using unat_lt [of ai] unat_lt [of b] unat_lt [of c] by linarith+
    then have "unat p \<le> (?B - 1) * (?B - 1) + (?B - 1)"
      unfolding p_def unat_fma by (intro add_mono mult_le_mono)
    also have "\<dots> = ?B * (?B - 1)" by (rule pred_square_plus) simp
    finally have "unat (lo p) = 0" using unat_lo_hi [of p] h by simp
    with True show False by (simp add: unat_eq_zero)
  qed
  with True show ?thesis by (simp add: unat_word_ariths)
qed simp

lemma liSubMul1_loop_val:
  "liSubMul1_loop r a b c = (r', c') \<Longrightarrow> length a = length r \<Longrightarrow>
   length r' = length r \<and>
   val r' + val a * unat b + unat (c :: 'l::len word)
     = val r + 2 ^ (LENGTH('l) * length r) * unat c'"
proof (induction r a b c arbitrary: r' c' rule: liSubMul1_loop.induct)
  case (1 ri r ai a b carry)
  define p where "p = wide ai * wide b + wide carry"
  define c0 where "c0 = hi p + of_bool (ri < lo p)"
  have p: "unat (lo p) + 2 ^ LENGTH('l) * unat (hi p) = unat ai * unat b + unat carry"
    by (simp only: unat_lo_hi) (simp only: p_def unat_fma)
  have c0: "unat c0 = unat (hi p) + of_bool (ri < lo p)"
    unfolding c0_def p_def by (rule hi_plus_borrow)
  have sub: "unat (ri - lo p) + unat (lo p) = unat ri + 2 ^ LENGTH('l) * of_bool (ri < lo p)"
    by (rule unat_minus_borrow)
  from "1.prems" obtain r1 where rec: "liSubMul1_loop r a b c0 = (r1, c')"
    and r: "r' = (ri - lo p) # r1" by (auto simp: Let_def p_def c0_def split: prod.splits)
  have lena: "length a = length r" using 1 by simp
  from "1.IH" [OF p_def refl rec [unfolded c0_def] lena] have
    IH: "val r1 + val a * unat b + unat c0 = val r + 2 ^ (LENGTH('l) * length r) * unat c'"
    and len: "length r1 = length r" by (auto simp: c0_def)
  have "val r' + val (ai # a) * unat b + unat carry
      = unat (ri - lo p) + (unat ai * unat b + unat carry)
        + 2 ^ LENGTH('l) * (val r1 + val a * unat b)"
    by (simp add: r algebra_simps)
  also have "\<dots> = (unat (ri - lo p) + unat (lo p))
        + 2 ^ LENGTH('l) * (unat (hi p) + (val r1 + val a * unat b))"
    unfolding p [symmetric] by (simp add: algebra_simps)
  also have "\<dots> = unat ri + 2 ^ LENGTH('l) * (val r1 + val a * unat b + unat c0)"
    unfolding sub c0 by (simp add: algebra_simps)
  finally show ?case unfolding IH by (simp add: r len power_add algebra_simps)
qed auto

lemma liSubMul1_val [vec_val]:
  assumes "liSubMul1 r a n b = (r', c)" "n \<le> length (a :: 'l::len word list)" "n \<le> length r"
  shows "length r' = n"
    "val r' + val (take n a) * unat b = val (take n r) + 2 ^ (LENGTH('l) * n) * unat c"
  using liSubMul1_loop_val [of "take n r" "take n a" b 0 r' c] assms
  by (simp_all add: liSubMul1_def min.absorb2)

text \<open>
  One step of the addition loop: the two carries are never both set, so their sum is the carry of
  \<open>ai + bi + c\<close>; and the same for the borrows of the subtraction loop.
\<close>

lemma add_step:
  fixes ai bi c :: "'l::len word"
  assumes c: "unat c \<le> 1"
  defines "c1 \<equiv> of_bool (ai + c < c) + of_bool (ai + c + bi < ai + c) :: 'l word"
  shows "unat (ai + c + bi) + 2 ^ LENGTH('l) * unat c1 = unat ai + unat bi + unat c"
    and "unat c1 \<le> 1"
proof -
  let ?B = "2 ^ LENGTH('l) :: nat"
  let ?p = "ai + c < c" and ?q = "ai + c + bi < ai + c"
  have "unat (ai + c) + ?B * of_bool ?p = unat ai + unat c" by (rule unat_plus_carry)
  moreover have "unat (ai + c + bi) + ?B * of_bool ?q = unat (ai + c) + unat bi"
    by (rule unat_plus_carry')
  ultimately have sum: "unat (ai + c + bi) + ?B * (of_bool ?p + of_bool ?q) = unat ai + unat bi + unat c"
    by (simp add: algebra_simps)
  have "\<not> (?p \<and> ?q)"
  proof
    assume "?p \<and> ?q"
    with sum have "2 * ?B \<le> unat ai + unat bi + unat c" by simp
    with unat_lt [of ai] unat_lt [of bi] c show False by linarith
  qed
  then have c1: "unat c1 = of_bool ?p + of_bool ?q" by (auto simp: c1_def)
  with sum show "unat (ai + c + bi) + ?B * unat c1 = unat ai + unat bi + unat c" by simp
  show "unat c1 \<le> 1" using c1 \<open>\<not> (?p \<and> ?q)\<close> by auto
qed

lemma sub_step:
  fixes ai bi c :: "'l::len word"
  assumes c: "unat c \<le> 1"
  defines "c1 \<equiv> of_bool (bi + c < c) + of_bool (ai < bi + c) :: 'l word"
  shows "unat (ai - (bi + c)) + unat bi + unat c = unat ai + 2 ^ LENGTH('l) * unat c1"
    and "unat c1 \<le> 1"
proof -
  let ?B = "2 ^ LENGTH('l) :: nat"
  let ?p = "bi + c < c" and ?q = "ai < bi + c"
  have p: "unat (bi + c) + ?B * of_bool ?p = unat bi + unat c" by (rule unat_plus_carry)
  moreover have "unat (ai - (bi + c)) + unat (bi + c) = unat ai + ?B * of_bool ?q"
    by (rule unat_minus_borrow)
  ultimately have sum: "unat (ai - (bi + c)) + unat bi + unat c = unat ai + ?B * (of_bool ?p + of_bool ?q)"
    by (simp add: algebra_simps)
  have "\<not> (?p \<and> ?q)"
  proof
    assume pq: "?p \<and> ?q"
    with p have "unat (bi + c) + ?B = unat bi + unat c" by simp
    with unat_lt [of bi] c have "unat (bi + c) = 0" by linarith
    with pq show False by (simp add: word_less_nat_alt)
  qed
  then have c1: "unat c1 = of_bool ?p + of_bool ?q" by (auto simp: c1_def)
  with sum show "unat (ai - (bi + c)) + unat bi + unat c = unat ai + ?B * unat c1" by simp
  show "unat c1 \<le> 1" using c1 \<open>\<not> (?p \<and> ?q)\<close> by auto
qed

lemma liAddN_loop_val:
  "liAddN_loop a b c = (r, c') \<Longrightarrow> length b = length a \<Longrightarrow> unat c \<le> 1 \<Longrightarrow>
   length r = length a \<and> unat c' \<le> 1 \<and>
   val r + 2 ^ (LENGTH('l) * length a) * unat c' = val a + val b + unat (c :: 'l::len word)"
proof (induction a b c arbitrary: r c' rule: liAddN_loop.induct)
  case (1 ai a bi b c)
  define c1 :: "'l word" where "c1 = of_bool (ai + c < c) + of_bool (ai + c + bi < ai + c)"
  from "1.prems" obtain r1 where rec: "liAddN_loop a b c1 = (r1, c')" and r: "r = (ai + c + bi) # r1"
    by (auto simp: Let_def c1_def split: prod.splits)
  have step: "unat (ai + c + bi) + 2 ^ LENGTH('l) * unat c1 = unat ai + unat bi + unat c"
    "unat c1 \<le> 1"
    using add_step [OF "1.prems"(3)] by (auto simp: c1_def)
  from "1.IH" [OF refl refl refl rec [unfolded c1_def]] "1.prems" step
  have IH: "val r1 + 2 ^ (LENGTH('l) * length a) * unat c' = val a + val b + unat c1"
    and len: "length r1 = length a" "unat c' \<le> 1" by (auto simp: c1_def)
  have "val r + 2 ^ (LENGTH('l) * length (ai # a)) * unat c'
      = unat (ai + c + bi) + 2 ^ LENGTH('l) * (val r1 + 2 ^ (LENGTH('l) * length a) * unat c')"
    by (simp add: r power_add distrib_left)
  also have "\<dots> = unat (ai + c + bi) + 2 ^ LENGTH('l) * unat c1 + 2 ^ LENGTH('l) * (val a + val b)"
    unfolding IH by (simp add: distrib_left)
  finally show ?case unfolding step using len by (simp add: r distrib_left)
qed auto

lemma liAddN_val [vec_val]:
  assumes "liAddN a b n = (r, c)" "n \<le> length (a :: 'l::len word list)" "n \<le> length b"
  shows "length r = n" "unat c \<le> 1"
    "val r + 2 ^ (LENGTH('l) * n) * unat c = val (take n a) + val (take n b)"
  using liAddN_loop_val [of "take n a" "take n b" 0 r c] assms
  by (simp_all add: liAddN_def min.absorb2)

lemma liSubN_loop_val:
  "liSubN_loop a b c = (r, c') \<Longrightarrow> length b = length a \<Longrightarrow> unat c \<le> 1 \<Longrightarrow>
   length r = length a \<and> unat c' \<le> 1 \<and>
   val r + val b + unat (c :: 'l::len word) = val a + 2 ^ (LENGTH('l) * length a) * unat c'"
proof (induction a b c arbitrary: r c' rule: liSubN_loop.induct)
  case (1 ai a bi b c)
  define c1 :: "'l word" where "c1 = of_bool (bi + c < c) + of_bool (ai < bi + c)"
  from "1.prems" obtain r1 where rec: "liSubN_loop a b c1 = (r1, c')" and r: "r = (ai - (bi + c)) # r1"
    by (auto simp: Let_def c1_def split: prod.splits)
  have step: "unat (ai - (bi + c)) + unat bi + unat c = unat ai + 2 ^ LENGTH('l) * unat c1"
    "unat c1 \<le> 1"
    using sub_step [OF "1.prems"(3)] by (auto simp: c1_def)
  from "1.IH" [OF refl refl rec [unfolded c1_def]] "1.prems" step
  have IH: "val r1 + val b + unat c1 = val a + 2 ^ (LENGTH('l) * length a) * unat c'"
    and len: "length r1 = length a" "unat c' \<le> 1" by (auto simp: c1_def)
  have "val r + val (bi # b) + unat c
      = (unat (ai - (bi + c)) + unat bi + unat c) + 2 ^ LENGTH('l) * (val r1 + val b)"
    by (simp add: r distrib_left)
  also have "\<dots> = unat ai + 2 ^ LENGTH('l) * (val r1 + val b + unat c1)"
    unfolding step by (simp add: distrib_left)
  finally show ?case unfolding IH using len by (simp add: r power_add distrib_left)
qed auto

lemma liSubN_val [vec_val]:
  assumes "liSubN a b n = (r, c)" "n \<le> length (a :: 'l::len word list)" "n \<le> length b"
  shows "length r = n" "unat c \<le> 1"
    "val r + val (take n b) = val (take n a) + 2 ^ (LENGTH('l) * n) * unat c"
  using liSubN_loop_val [of "take n a" "take n b" 0 r c] assms
  by (simp_all add: liSubN_def min.absorb2)

lemma liAdd1_loop_val:
  "liAdd1_loop a c = (r, c') \<Longrightarrow>
   length r = length a \<and>
   val r + 2 ^ (LENGTH('l) * length a) * unat c' = val a + unat (c :: 'l::len word)"
proof (induction a c arbitrary: r c' rule: liAdd1_loop.induct)
  case (2 ai a c)
  define c1 :: "'l word" where "c1 = of_bool (ai + c < c)"
  from "2.prems" obtain r1 where rec: "liAdd1_loop a c1 = (r1, c')" and r: "r = (ai + c) # r1"
    by (auto simp: Let_def c1_def split: prod.splits)
  have step: "unat (ai + c) + 2 ^ LENGTH('l) * unat c1 = unat ai + unat c"
    using unat_plus_carry [of ai c] by (simp add: c1_def)
  from "2.IH" [OF refl rec [unfolded c1_def]] have
    IH: "val r1 + 2 ^ (LENGTH('l) * length a) * unat c' = val a + unat c1"
    and len: "length r1 = length a" by (auto simp: c1_def)
  have "val r + 2 ^ (LENGTH('l) * length (ai # a)) * unat c'
      = unat (ai + c) + 2 ^ LENGTH('l) * (val r1 + 2 ^ (LENGTH('l) * length a) * unat c')"
    by (simp add: r power_add distrib_left)
  also have "\<dots> = unat (ai + c) + 2 ^ LENGTH('l) * unat c1 + 2 ^ LENGTH('l) * val a"
    unfolding IH by (simp add: distrib_left)
  finally show ?case unfolding step by (simp add: r len)
qed auto

lemma liAdd1_val [vec_val]:
  assumes "liAdd1 a n c = (r, c')" "n \<le> length (a :: 'l::len word list)"
  shows "length r = n" "val r + 2 ^ (LENGTH('l) * n) * unat c' = val (take n a) + unat c"
  using liAdd1_loop_val [of "take n a" c r c'] assms by (simp_all add: liAdd1_def min.absorb2)

lemma liSub1_loop_val:
  "liSub1_loop a c = (r, c') \<Longrightarrow>
   length r = length a \<and>
   val r + unat (c :: 'l::len word) = val a + 2 ^ (LENGTH('l) * length a) * unat c'"
proof (induction a c arbitrary: r c' rule: liSub1_loop.induct)
  case (2 ai a c)
  define c1 :: "'l word" where "c1 = of_bool (ai < c)"
  from "2.prems" obtain r1 where rec: "liSub1_loop a c1 = (r1, c')" and r: "r = (ai - c) # r1"
    by (auto simp: Let_def c1_def split: prod.splits)
  have step: "unat (ai - c) + unat c = unat ai + 2 ^ LENGTH('l) * unat c1"
    using unat_minus_borrow [of ai c] by (simp add: c1_def)
  from "2.IH" [OF rec [unfolded c1_def]] have
    IH: "val r1 + unat c1 = val a + 2 ^ (LENGTH('l) * length a) * unat c'"
    and len: "length r1 = length a" by (auto simp: c1_def)
  have "val r + unat c = unat (ai - c) + unat c + 2 ^ LENGTH('l) * val r1" by (simp add: r)
  also have "\<dots> = unat ai + 2 ^ LENGTH('l) * (val r1 + unat c1)"
    unfolding step by (simp add: distrib_left)
  finally show ?case unfolding IH by (simp add: r len power_add distrib_left)
qed auto

lemma liSub1_val [vec_val]:
  assumes "liSub1 a n c = (r, c')" "n \<le> length (a :: 'l::len word list)"
  shows "length r = n" "val r + unat c = val (take n a) + 2 ^ (LENGTH('l) * n) * unat c'"
  using liSub1_loop_val [of "take n a" c r c'] assms by (simp_all add: liSub1_def min.absorb2)

lemma val_take_Suc:
  "n < length (xs :: 'l::len word list) \<Longrightarrow>
   val (take (Suc n) xs) = val (take n xs) + 2 ^ (LENGTH('l) * n) * unat (xs ! n)"
  by (simp add: take_Suc_conv_app_nth val_append min.absorb2)

lemma val_take_lt: "val (take n (xs :: 'l::len word list)) < 2 ^ (LENGTH('l) * n)"
  by (simp add: val_take)

text \<open>The top limbs that differ decide.\<close>

lemma top_limb_decides:
  fixes x y :: "'l::len word"
  assumes "a < 2 ^ m" "b < 2 ^ m" "x < y"
  shows "a + 2 ^ m * unat x < b + (2 ^ m * unat y :: nat)"
proof -
  have "unat x + 1 \<le> unat y" using assms(3) by (simp add: word_less_nat_alt)
  then have "2 ^ m * (unat x + 1) \<le> (2 ^ m * unat y :: nat)" by (rule mult_le_mono2)
  then show ?thesis using assms(1) by (simp add: distrib_left)
qed

lemma liCmp_val:
  assumes "n \<le> length (a :: 'l::len word list)" "n \<le> length b"
  shows "liCmp a b n = (if val (take n a) < val (take n b) then -1
    else if val (take n a) = val (take n b) then 0 else 1)"
  using assms
proof (induction n)
  case 0
  then show ?case by simp
next
  case (Suc i)
  have a: "val (take (Suc i) a) = val (take i a) + 2 ^ (LENGTH('l) * i) * unat (a ! i)"
    and b: "val (take (Suc i) b) = val (take i b) + 2 ^ (LENGTH('l) * i) * unat (b ! i)"
    using Suc.prems by (simp_all add: val_take_Suc)
  consider "a ! i = b ! i" | "a ! i < b ! i" | "b ! i < a ! i" by force
  then show ?case
  proof cases
    case 1
    with Suc show ?thesis unfolding a b by simp
  next
    case 2
    then have "val (take (Suc i) a) < val (take (Suc i) b)"
      unfolding a b by (intro top_limb_decides val_take_lt)
    with 2 show ?thesis by auto
  next
    case 3
    then have "val (take (Suc i) b) < val (take (Suc i) a)"
      unfolding a b by (intro top_limb_decides val_take_lt)
    with 3 show ?thesis by auto
  qed
qed

end
