(* ===== verification/LimbMul.thy ===== *)
theory LimbMul
  imports Limbs
begin

text \<open>
  Multiplication of limb vectors, from \<open>LargeIntegersKernels.c\<close>: schoolbook, Karatsuba, and the
  unbalanced product cut into pieces. A routine that
  works in scratch memory takes the number \<open>sc\<close> of limbs its scratch pointer may use and answers
  \<open>None\<close> when it would write past them, or when it is called outside the contract its comment
  states; the theorems of this file show that neither happens with the scratch that
  \<open>liMulScratch\<close> asks for.
\<close>

declare Option.bind_cong [fundef_cong]

subsection \<open>The thresholds\<close>

text \<open>
  The compile-time knobs of the file, which \<open>LI_TUNABLE\<close> makes variables. \<open>knobs_ok\<close> is what the
  \<open>#error\<close> lines require of them; \<open>knobs64\<close> and \<open>knobs32\<close> are the values of the two builds.
\<close>

record li_knobs =
  liKaratsubaLimbs :: nat
  liMulLoopDigitProduct :: nat
  liSqrBasecaseLimbs :: nat
  liSqrKaratsubaLimbs :: nat
  liDivLoopQuotientDigits :: nat
  liDivLoopDivisorDigits :: nat
  liBZLimbs :: nat
  liBZQuotientLimbs :: nat
  liMontLoopDigits :: nat
  liMontMulLimbs :: nat
  liMontSqrLimbs :: nat

definition knobs64 :: li_knobs where
  "knobs64 = \<lparr>liKaratsubaLimbs = 24, liMulLoopDigitProduct = 25, liSqrBasecaseLimbs = 3,
     liSqrKaratsubaLimbs = 44, liDivLoopQuotientDigits = 1, liDivLoopDivisorDigits = 24,
     liBZLimbs = 48, liBZQuotientLimbs = 24,
     liMontLoopDigits = 6, liMontMulLimbs = 36, liMontSqrLimbs = 10\<rparr>"

definition knobs32 :: li_knobs where
  "knobs32 = \<lparr>liKaratsubaLimbs = 32, liMulLoopDigitProduct = 25, liSqrBasecaseLimbs = 11,
     liSqrKaratsubaLimbs = 48, liDivLoopQuotientDigits = 2, liDivLoopDivisorDigits = 24,
     liBZLimbs = 32, liBZQuotientLimbs = 12,
     liMontLoopDigits = 12, liMontMulLimbs = 72, liMontSqrLimbs = 12\<rparr>"

definition knobs_ok :: "li_knobs \<Rightarrow> bool" where
  "knobs_ok kn \<longleftrightarrow> 2 \<le> liKaratsubaLimbs kn \<and> 2 \<le> liSqrKaratsubaLimbs kn \<and> 1 \<le> liSqrBasecaseLimbs kn
     \<and> 2 \<le> liBZLimbs kn \<and> 1 \<le> liBZQuotientLimbs kn
     \<and> 1 \<le> liMontLoopDigits kn \<and> 1 \<le> liMontMulLimbs kn \<and> 1 \<le> liMontSqrLimbs kn"

subsection \<open>Schoolbook multiplication\<close>

fun liMulBasecase_loop ::
  "'l::len word list \<Rightarrow> 'l word list \<Rightarrow> nat \<Rightarrow> 'l word list \<Rightarrow> nat \<Rightarrow> 'l word list" where
  "liMulBasecase_loop r a an [] i = r"
| "liMulBasecase_loop r a an (bi # b) i =
     (let (m, c) = liAddMul1 (drop i r) a an bi
      in liMulBasecase_loop (take i r @ m @ [c]) a an b (Suc i))"

definition liMulBasecase :: "'l::len word list \<Rightarrow> nat \<Rightarrow> 'l word list \<Rightarrow> nat \<Rightarrow> 'l word list" where
  "liMulBasecase a an b bn =
     (let (r, c) = liMul1 a an (b ! 0)
      in liMulBasecase_loop (r @ [c]) a an (drop 1 (take bn b)) 1)"

subsection \<open>The absolute difference of two vectors\<close>

text \<open>
  The two scans from the top, with the index shifted by one (\<open>n\<close> is the C \<open>i + 1\<close>): first over the
  zero limbs of \<open>x\<close> above \<open>yn\<close>, then over the equal limbs.
\<close>

fun liAbsDiff_zeros :: "'l::len word list \<Rightarrow> nat \<Rightarrow> nat \<Rightarrow> nat" where
  "liAbsDiff_zeros x yn 0 = 0"
| "liAbsDiff_zeros x yn (Suc i) = (if yn \<le> i \<and> x ! i = 0 then liAbsDiff_zeros x yn i else Suc i)"

fun liAbsDiff_equal :: "'l::len word list \<Rightarrow> 'l word list \<Rightarrow> nat \<Rightarrow> nat" where
  "liAbsDiff_equal x y 0 = 0"
| "liAbsDiff_equal x y (Suc i) = (if x ! i = y ! i then liAbsDiff_equal x y i else Suc i)"

definition liAbsDiff_less :: "'l::len word list \<Rightarrow> nat \<Rightarrow> 'l word list \<Rightarrow> nat \<Rightarrow> bool" where
  "liAbsDiff_less x xn y yn =
     (let n = liAbsDiff_zeros x yn xn
      in if yn < n then False
         else (let m = liAbsDiff_equal x y n in 0 < m \<and> x ! (m - 1) < y ! (m - 1)))"

definition liAbsDiff :: "'l::len word list \<Rightarrow> nat \<Rightarrow> 'l word list \<Rightarrow> nat \<Rightarrow> 'l word list \<times> bool" where
  "liAbsDiff x xn y yn =
     (let less = liAbsDiff_less x xn y yn
      in if less
         then (fst (liSubN y x yn) @ replicate (xn - yn) 0, less)
         else (let (d, c) = liSubN x y yn in (d @ fst (liSub1_loop (drop yn (take xn x)) c), less)))"

subsection \<open>Karatsuba and the unbalanced product\<close>

text \<open>
  What Karatsuba multiplication and Karatsuba squaring both do once their three products are
  there: \<open>r\<close> holds \<open>z0\<close> and, from limb \<open>2h\<close> on, \<open>z2\<close>; \<open>t\<close> becomes the middle coefficient, and is
  added into \<open>r\<close> from limb \<open>h\<close> on.
\<close>

definition liKaratsuba_middle ::
  "'l::len word list \<Rightarrow> 'l word list \<Rightarrow> bool \<Rightarrow> nat \<Rightarrow> nat \<Rightarrow> 'l word list" where
  "liKaratsuba_middle r zm sub h z2n =
     (let (t0, c) = liAddN r (drop (2 * h) r) z2n;
          (t1, top) = liAdd1 (drop z2n r) (2 * h - z2n) c
      in if sub
         then (let (t, bo) = liSubN (t0 @ t1) zm (2 * h) in t @ [top - bo])
         else (let (t, ca) = liAddN (t0 @ t1) zm (2 * h) in t @ [top + ca]))"

definition liKaratsuba_join :: "'l::len word list \<Rightarrow> 'l word list \<Rightarrow> nat \<Rightarrow> nat \<Rightarrow> 'l word list" where
  "liKaratsuba_join r t h rn =
     (let tn = (if rn - h < 2 * h + 1 then rn - h else 2 * h + 1);
          (m, c) = liAddN (drop h r) t tn
      in take h r @ m @ fst (liAdd1 (drop (h + tn) r) (rn - h - tn) c))"

text \<open>The scratch limbs \<open>liMul\<close> uses. Its C recursion ends because \<open>liKaratsubaLimbs\<close> is at least 2
  and \<open>an >= bn >= 1\<close>; on other arguments the model answers 0.\<close>

function liMulScratch :: "li_knobs \<Rightarrow> nat \<Rightarrow> nat \<Rightarrow> nat" where
  "liMulScratch kn an bn =
     (if bn < liKaratsubaLimbs kn \<or> liKaratsubaLimbs kn < 2 \<or> an < bn then 0
      else if bn \<le> (an + 1) div 2
      then (let need = liMulScratch kn bn bn
            in 2 * bn + (if an mod bn \<noteq> 0 \<and> liMulScratch kn bn (an mod bn) > need
                         then liMulScratch kn bn (an mod bn) else need))
      else (let h = (an + 1) div 2;
                need = liMulScratch kn h h;
                other = liMulScratch kn (an - h) (bn - h);
                need = (if other > need then other else need);
                need = (if 2 * h + 1 > need then 2 * h + 1 else need)
            in 4 * h + need))"
  by pat_completeness auto
termination
  by (relation "measure (\<lambda>(kn, an, bn). an + bn)") (auto intro: less_le_trans [OF mod_less_divisor])

declare liMulScratch.simps [simp del]

function
  liMul :: "li_knobs \<Rightarrow> 'l::len word list \<Rightarrow> nat \<Rightarrow> 'l word list \<Rightarrow> nat \<Rightarrow> nat \<Rightarrow> 'l word list option" and
  liMulKaratsuba :: "li_knobs \<Rightarrow> 'l word list \<Rightarrow> nat \<Rightarrow> 'l word list \<Rightarrow> nat \<Rightarrow> nat \<Rightarrow> 'l word list option" and
  liMulUnbalanced :: "li_knobs \<Rightarrow> 'l word list \<Rightarrow> nat \<Rightarrow> 'l word list \<Rightarrow> nat \<Rightarrow> nat \<Rightarrow> 'l word list option" and
  liMulUnbalanced_loop ::
    "li_knobs \<Rightarrow> 'l word list \<Rightarrow> 'l word list \<Rightarrow> nat \<Rightarrow> 'l word list \<Rightarrow> nat \<Rightarrow> nat \<Rightarrow> nat \<Rightarrow> 'l word list option"
where
  "liMul kn a an b bn sc =
     (if \<not> (2 \<le> liKaratsubaLimbs kn \<and> 1 \<le> bn \<and> bn \<le> an) then None
      else if bn < liKaratsubaLimbs kn then Some (liMulBasecase a an b bn)
      else if bn \<le> (an + 1) div 2 then liMulUnbalanced kn a an b bn sc
      else liMulKaratsuba kn a an b bn sc)"
| "liMulKaratsuba kn a an b bn sc =
     (let h = (an + 1) div 2; a1n = an - h; b1n = bn - h; z2n = a1n + b1n
      in if \<not> (h < bn \<and> bn \<le> an) \<or> sc < 6 * h + 1 then None
      else let (da, negA) = liAbsDiff a h (drop h a) a1n;
               (db, negB) = liAbsDiff b h (drop h b) b1n
      in do {
        zm \<leftarrow> liMul kn da h db h (sc - 4 * h);
        z0 \<leftarrow> liMul kn a h b h (sc - 4 * h);
        z2 \<leftarrow> liMul kn (drop h a) a1n (drop h b) b1n (sc - 4 * h);
        let r = z0 @ z2;
        let t = liKaratsuba_middle r zm (negA = negB) h z2n;
        Some (liKaratsuba_join r t h (an + bn))
      })"
| "liMulUnbalanced kn a an b bn sc =
     (if \<not> (1 \<le> bn \<and> bn < an) \<or> sc < 2 * bn then None
      else do {
        r \<leftarrow> liMul kn a bn b bn (sc - 2 * bn);
        liMulUnbalanced_loop kn r a an b bn sc bn
      })"
| "liMulUnbalanced_loop kn r a an b bn sc off =
     (if \<not> off < an then Some r
      else if bn = 0 then None
      else let cn = (if an - off < bn then an - off else bn)
      in do {
        t \<leftarrow> (if cn = bn then liMul kn (drop off a) bn b bn (sc - 2 * bn)
              else liMul kn b bn (drop off a) cn (sc - 2 * bn));
        let (m, c) = liAddN (drop off r) t bn;
        liMulUnbalanced_loop kn (take off r @ m @ fst (liAdd1 (drop bn t) cn c)) a an b bn sc (off + bn)
      })"
  by pat_completeness auto
termination
  apply (relation "measures
    [case_sum (case_sum (\<lambda>(kn, a, an, b, bn, sc). an + bn) (\<lambda>(kn, a, an, b, bn, sc). an + bn))
       (case_sum (\<lambda>(kn, a, an, b, bn, sc). an + bn) (\<lambda>(kn, r, a, an, b, bn, sc, off). 2 * bn)),
     case_sum (case_sum (\<lambda>_. 1) (\<lambda>_. 0)) (case_sum (\<lambda>_. 0) (\<lambda>_. 2)),
     case_sum (case_sum (\<lambda>_. 0) (\<lambda>_. 0)) (case_sum (\<lambda>_. 0) (\<lambda>(kn, r, a, an, b, bn, sc, off). an - off))]")
  by (auto split: if_splits)

declare liMul.simps [simp del] liMulKaratsuba.simps [simp del]
  liMulUnbalanced.simps [simp del] liMulUnbalanced_loop.simps [simp del]

subsection \<open>Schoolbook multiplication computes the product\<close>

lemma liMulBasecase_loop_val:
  assumes "an \<le> length (a :: 'l::len word list)" "length r = an + i"
  shows "length (liMulBasecase_loop r a an b i) = an + i + length b \<and>
    val (liMulBasecase_loop r a an b i) = val r + 2 ^ (LENGTH('l) * i) * (val (take an a) * val b)"
  using assms
proof (induction r a an b i rule: liMulBasecase_loop.induct)
  case (1 r a an i)
  then show ?case by simp
next
  case (2 r a an bi b i)
  obtain m c where mc: "liAddMul1 (drop i r) a an bi = (m, c)" by fastforce
  have m: "length m = an" "val m + 2 ^ (LENGTH('l) * an) * unat c = val (drop i r) + val (take an a) * unat bi"
    using liAddMul1_val [OF mc] 2 by simp_all
  let ?r = "take i r @ m @ [c]"
  have len: "length ?r = an + Suc i" using 2 m by simp
  have "val ?r = val (take i r) + 2 ^ (LENGTH('l) * i) * (val (drop i r) + val (take an a) * unat bi)"
    using 2 by (simp add: val_append m(1) min.absorb2 flip: m(2))
  also have "\<dots> = val r + 2 ^ (LENGTH('l) * i) * (val (take an a) * unat bi)"
    using val_take_drop [of i r] 2 by (simp add: distrib_left)
  finally have valr: "val ?r = \<dots>" .
  show ?case
    using "2.IH" [OF mc [symmetric] refl _ len] 2
    by (simp add: mc valr algebra_simps power_add)
qed

lemma liMulBasecase_val:
  assumes "an \<le> length (a :: 'l::len word list)" "bn \<le> length b" "1 \<le> bn"
  shows "length (liMulBasecase a an b bn) = an + bn"
    "val (liMulBasecase a an b bn) = val (take an a) * val (take bn b)"
proof -
  obtain b0 b' where b: "b = b0 # b'" using assms by (cases b) auto
  then have tk: "take bn b = b0 # take (bn - 1) b'" using assms by (cases bn) auto
  obtain r c where rc: "liMul1 a an b0 = (r, c)" by fastforce
  have r: "length r = an" "val r + 2 ^ (LENGTH('l) * an) * unat c = val (take an a) * unat b0"
    using liMul1_val [OF rc] assms by simp_all
  then have v: "val (r @ [c]) = val (take an a) * unat b0" by (simp add: val_append)
  have eq: "liMulBasecase a an b bn = liMulBasecase_loop (r @ [c]) a an (take (bn - 1) b') 1"
    using b tk by (simp add: liMulBasecase_def rc)
  have len: "length (take (bn - 1) b') = bn - 1" using assms b by simp
  note loop = liMulBasecase_loop_val [of an a "r @ [c]" 1 "take (bn - 1) b'"]
  show "length (liMulBasecase a an b bn) = an + bn"
    unfolding eq using loop assms r len by simp
  show "val (liMulBasecase a an b bn) = val (take an a) * val (take bn b)"
    unfolding eq tk using loop assms r v by (simp add: algebra_simps)
qed

subsection \<open>The absolute difference\<close>

lemma liAbsDiff_zeros_val:
  "yn \<le> n \<Longrightarrow> n \<le> length (x :: 'l::len word list) \<Longrightarrow>
   yn \<le> liAbsDiff_zeros x yn n \<and> liAbsDiff_zeros x yn n \<le> n \<and>
   val (take n x) = val (take (liAbsDiff_zeros x yn n) x) \<and>
   (yn < liAbsDiff_zeros x yn n \<longrightarrow> x ! (liAbsDiff_zeros x yn n - 1) \<noteq> 0)"
proof (induction n)
  case 0
  then show ?case by simp
next
  case (Suc i)
  show ?case
  proof (cases "yn \<le> i \<and> x ! i = 0")
    case True
    then have "val (take (Suc i) x) = val (take i x)" using Suc.prems by (simp add: val_take_Suc)
    with True Suc show ?thesis by auto
  next
    case False
    with Suc.prems show ?thesis by (auto simp: le_Suc_eq)
  qed
qed

lemma liAbsDiff_equal_val:
  "n \<le> length (x :: 'l::len word list) \<Longrightarrow> n \<le> length y \<Longrightarrow> m = liAbsDiff_equal x y n \<Longrightarrow>
   m \<le> n \<and>
   (0 < m \<longrightarrow> x ! (m - 1) \<noteq> y ! (m - 1)) \<and>
   (val (take n x) < val (take n y) \<longleftrightarrow> val (take m x) < val (take m y))"
proof (induction n arbitrary: m)
  case 0
  then show ?case by simp
next
  case (Suc i)
  show ?case
  proof (cases "x ! i = y ! i")
    case True
    with Suc show ?thesis by (auto simp: val_take_Suc)
  next
    case False
    with Suc.prems show ?thesis by simp
  qed
qed

lemma liAbsDiff_less_val:
  assumes "yn \<le> xn" "xn \<le> length (x :: 'l::len word list)" "yn \<le> length y"
  shows "liAbsDiff_less x xn y yn \<longleftrightarrow> val (take xn x) < val (take yn y)"
proof -
  define n where "n = liAbsDiff_zeros x yn xn"
  have n: "yn \<le> n" "n \<le> xn" "val (take xn x) = val (take n x)" "yn < n \<longrightarrow> x ! (n - 1) \<noteq> 0"
    using liAbsDiff_zeros_val [of yn xn x] assms by (auto simp: n_def)
  show ?thesis
  proof (cases "yn < n")
    case True
    then obtain k where k: "n = Suc k" "yn \<le> k" by (cases n) auto
    have "0 < unat (x ! k)" using n k by (simp add: unat_gt_0)
    then have "2 ^ (LENGTH('l) * k) \<le> val (take n x)"
      using k n assms by (simp add: val_take_Suc trans_le_add2)
    moreover have "val (take yn y) < 2 ^ (LENGTH('l) * yn)" by (rule val_take_lt)
    moreover have "(2::nat) ^ (LENGTH('l) * yn) \<le> 2 ^ (LENGTH('l) * k)" using k by simp
    ultimately have "\<not> val (take xn x) < val (take yn y)" using n by linarith
    with True show ?thesis by (simp add: liAbsDiff_less_def n_def)
  next
    case False
    with n have ny: "n = yn" by simp
    define m where "m = liAbsDiff_equal x y n"
    have m: "m \<le> n" "0 < m \<longrightarrow> x ! (m - 1) \<noteq> y ! (m - 1)"
      "val (take n x) < val (take n y) \<longleftrightarrow> val (take m x) < val (take m y)"
      using liAbsDiff_equal_val [of n x y m] assms ny by (auto simp: m_def)
    have "val (take m x) < val (take m y) \<longleftrightarrow> 0 < m \<and> x ! (m - 1) < y ! (m - 1)"
    proof (cases m)
      case 0
      then show ?thesis by simp
    next
      case (Suc k)
      have x: "val (take m x) = val (take k x) + 2 ^ (LENGTH('l) * k) * unat (x ! k)"
        and y: "val (take m y) = val (take k y) + 2 ^ (LENGTH('l) * k) * unat (y ! k)"
        using Suc m ny assms by (simp_all add: val_take_Suc)
      consider "x ! k < y ! k" | "y ! k < x ! k" using m Suc by force
      then show ?thesis
      proof cases
        case 1
        then have "val (take m x) < val (take m y)"
          unfolding x y by (intro top_limb_decides val_take_lt)
        with 1 Suc show ?thesis by simp
      next
        case 2
        then have "val (take m y) < val (take m x)"
          unfolding x y by (intro top_limb_decides val_take_lt)
        with 2 Suc show ?thesis by auto
      qed
    qed
    moreover have "liAbsDiff_less x xn y yn \<longleftrightarrow> 0 < m \<and> x ! (m - 1) < y ! (m - 1)"
      using False by (simp add: liAbsDiff_less_def Let_def flip: n_def m_def)
    ultimately show ?thesis using m n ny by simp
  qed
qed

lemma liAbsDiff_val:
  assumes eq: "liAbsDiff x xn y yn = (d, lt)"
    and "yn \<le> xn" "xn \<le> length (x :: 'l::len word list)" "yn \<le> length y"
  shows "length d = xn" "lt \<longleftrightarrow> val (take xn x) < val (take yn y)"
    "val d = (if lt then val (take yn y) - val (take xn x) else val (take xn x) - val (take yn y))"
proof -
  let ?W = "\<lambda>n. 2 ^ (LENGTH('l) * n) :: nat"
  have lt: "lt = liAbsDiff_less x xn y yn"
    using eq by (auto simp: liAbsDiff_def Let_def split: if_splits prod.splits)
  then show l: "lt \<longleftrightarrow> val (take xn x) < val (take yn y)" using liAbsDiff_less_val assms by blast
  obtain s c where sc: "liSubN x y yn = (s, c)" by fastforce
  have s: "length s = yn" "unat c \<le> 1" "val s + val (take yn y) = val (take yn x) + ?W yn * unat c"
    using liSubN_val [OF sc] assms by simp_all
  have x: "val (take xn x) = val (take yn x) + ?W yn * val (drop yn (take xn x))"
    using val_take_drop [of yn "take xn x"] assms by (simp add: min.absorb1)
  obtain s' c' where sc': "liSubN y x yn = (s', c')" by fastforce
  have s': "length s' = yn" "val s' + val (take yn x) = val (take yn y) + ?W yn * unat c'"
    using liSubN_val [OF sc'] assms by simp_all
  obtain u c2 where u: "liSub1_loop (drop yn (take xn x)) c = (u, c2)" by fastforce
  have lenu: "length u = xn - yn"
    "val u + unat c = val (drop yn (take xn x)) + ?W (xn - yn) * unat c2"
    using liSub1_loop_val [OF u] assms by (simp_all add: min.absorb2)
  have d: "d = (if lt then s' @ replicate (xn - yn) 0 else s @ u)"
    using eq by (auto simp: liAbsDiff_def Let_def sc sc' u lt split: if_splits)
  show "length d = xn" using d s s' lenu assms by (auto split: if_splits)
  show "val d = (if lt then val (take yn y) - val (take xn x) else val (take xn x) - val (take yn y))"
  proof (cases lt)
    case True
    have "val (take xn x) < ?W yn" using True l val_take_lt [of yn y] by linarith
    then have "val (drop yn (take xn x)) = 0" using x by (cases "val (drop yn (take xn x))") auto
    then have x0: "val (take xn x) = val (take yn x)" using x by simp
    moreover have "val s' = val (take yn y) - val (take yn x)"
    proof -
      have "val s' < ?W yn" using val_lt [of s'] s' by simp
      then have "unat c' = 0" using s' True l x0 by (cases "unat c'") auto
      with s' show ?thesis by simp
    qed
    ultimately show ?thesis using True d s' by (simp add: val_append)
  next
    case False
    have W: "?W xn = ?W yn * ?W (xn - yn)"
      using assms by (simp flip: power_add distrib_left)
    have lens: "length (s @ u) = xn" using s lenu assms by simp
    have "val (s @ u) + val (take yn y) = (val s + val (take yn y)) + ?W yn * val u"
      using s by (simp add: val_append)
    also have "\<dots> = val (take yn x) + ?W yn * (val u + unat c)"
      unfolding s by (simp add: distrib_left)
    also have "\<dots> = val (take xn x) + ?W xn * unat c2"
      unfolding lenu W x by (simp add: distrib_left)
    finally have "val (s @ u) + val (take yn y) = val (take xn x) + ?W xn * unat c2" .
    moreover have "val (s @ u) < ?W xn" using val_lt [of "s @ u"] lens by simp
    moreover have "val (take yn y) \<le> val (take xn x)" using False l by simp
    ultimately have "val (s @ u) = val (take xn x) - val (take yn y)"
      by (cases "unat c2") auto
    with False d show ?thesis by simp
  qed
qed

subsection \<open>Karatsuba's middle coefficient and its addition\<close>

lemma karatsuba_middle_nat:
  fixes a0 a1 b0 b1 :: nat
  defines "da \<equiv> if a0 < a1 then a1 - a0 else a0 - a1" and "db \<equiv> if b0 < b1 then b1 - b0 else b0 - b1"
  shows "(a0 < a1) = (b0 < b1) \<Longrightarrow> (a0 * b1 + a1 * b0) + da * db = a0 * b0 + a1 * b1"
    and "(a0 < a1) \<noteq> (b0 < b1) \<Longrightarrow> a0 * b1 + a1 * b0 = a0 * b0 + a1 * b1 + da * db"
proof -
  have A: "a0 < a1 \<and> a1 = a0 + da \<or> \<not> a0 < a1 \<and> a0 = a1 + da"
    by (auto simp: da_def)
  have B: "b0 < b1 \<and> b1 = b0 + db \<or> \<not> b0 < b1 \<and> b0 = b1 + db"
    by (auto simp: db_def)
  show "(a0 < a1) = (b0 < b1) \<Longrightarrow> (a0 * b1 + a1 * b0) + da * db = a0 * b0 + a1 * b1"
    using A B by (elim disjE conjE) (simp_all add: algebra_simps)
  show "(a0 < a1) \<noteq> (b0 < b1) \<Longrightarrow> a0 * b1 + a1 * b0 = a0 * b0 + a1 * b1 + da * db"
    using A B by (elim disjE conjE) (simp_all add: algebra_simps)
qed

lemma liKaratsuba_middle_val:
  fixes z0 z2 zm :: "'l::len word list"
  assumes len: "length z0 = 2 * h" "length z2 = z2n" "z2n \<le> 2 * h" "length zm = 2 * h"
    and sub: "sub \<Longrightarrow> M + val zm = val z0 + val z2"
    and add: "\<not> sub \<Longrightarrow> M = val z0 + val z2 + val zm"
    and M: "M < 2 * 2 ^ (LENGTH('l) * (2 * h))"
  shows "length (liKaratsuba_middle (z0 @ z2) zm sub h z2n) = 2 * h + 1"
    "val (liKaratsuba_middle (z0 @ z2) zm sub h z2n) = M"
proof -
  let ?W = "\<lambda>n. 2 ^ (LENGTH('l) * n) :: nat"
  obtain t0 c where t0: "liAddN (z0 @ z2) z2 z2n = (t0, c)" by fastforce
  obtain t1 top where t1: "liAdd1 (drop z2n z0 @ z2) (2 * h - z2n) c = (t1, top)" by fastforce
  have a: "length t0 = z2n" "val t0 + ?W z2n * unat c = val (take z2n z0) + val z2"
    using liAddN_val [OF t0] len by simp_all
  have b: "length t1 = 2 * h - z2n" "val t1 + ?W (2 * h - z2n) * unat top = val (drop z2n z0) + unat c"
    using liAdd1_val [OF t1] len by simp_all
  have z0: "val z0 = val (take z2n z0) + ?W z2n * val (drop z2n z0)"
    using val_take_drop [of z2n z0] len by simp
  have W: "?W (2 * h) = ?W z2n * ?W (2 * h - z2n)"
    using len by (simp flip: power_add distrib_left)
  have "val (t0 @ t1) + ?W (2 * h) * unat top
      = val t0 + ?W z2n * (val t1 + ?W (2 * h - z2n) * unat top)"
    using a by (simp add: val_append W distrib_left)
  also have "\<dots> = val t0 + ?W z2n * unat c + ?W z2n * val (drop z2n z0)"
    unfolding b by (simp add: distrib_left)
  also have "\<dots> = val z0 + val z2" unfolding a z0 by simp
  finally have s: "val (t0 @ t1) + ?W (2 * h) * unat top = val z0 + val z2" .
  have lens: "length (t0 @ t1) = 2 * h" using a b len by simp
  have vt: "val (t0 @ t1) < ?W (2 * h)" using val_lt [of "t0 @ t1"] lens by simp
  show "length (liKaratsuba_middle (z0 @ z2) zm sub h z2n) = 2 * h + 1"
    "val (liKaratsuba_middle (z0 @ z2) zm sub h z2n) = M"
  proof (atomize (full), cases sub)
    case True
    obtain t bo where t: "liSubN (t0 @ t1) zm (2 * h) = (t, bo)" by fastforce
    have t': "length t = 2 * h" "unat bo \<le> 1"
      "val t + val zm = val (t0 @ t1) + ?W (2 * h) * unat bo"
      using liSubN_val [OF t] lens len by simp_all
    have m: "M + ?W (2 * h) * unat bo = val t + ?W (2 * h) * unat top"
      using s t' sub [OF True] by linarith
    have "val t < ?W (2 * h)" using val_lt [of t] t' by simp
    have le: "unat bo \<le> unat top"
    proof (rule ccontr)
      assume "\<not> unat bo \<le> unat top"
      with t' have "unat bo = 1" "unat top = 0" by linarith+
      with m \<open>val t < ?W (2 * h)\<close> show False by simp
    qed
    then have "unat (top - bo) = unat top - unat bo" by (simp add: unat_sub word_le_nat_alt)
    moreover have "?W (2 * h) * unat top = ?W (2 * h) * (unat top - unat bo) + ?W (2 * h) * unat bo"
      using le by (simp flip: distrib_left)
    ultimately have "val (t @ [top - bo]) = M" using m t' by (simp add: val_append)
    with True t t' show "length (liKaratsuba_middle (z0 @ z2) zm sub h z2n) = 2 * h + 1 \<and>
      val (liKaratsuba_middle (z0 @ z2) zm sub h z2n) = M"
      using len by (simp add: liKaratsuba_middle_def t0 t1)
  next
    case False
    obtain t ca where t: "liAddN (t0 @ t1) zm (2 * h) = (t, ca)" by fastforce
    have t': "length t = 2 * h" "unat ca \<le> 1"
      "val t + ?W (2 * h) * unat ca = val (t0 @ t1) + val zm"
      using liAddN_val [OF t] lens len by simp_all
    have m: "M = val t + ?W (2 * h) * (unat top + unat ca)"
      using s t' add [OF False] by (simp add: distrib_left)
    then have "?W (2 * h) * (unat top + unat ca) < ?W (2 * h) * 2" using M by linarith
    then have "unat top + unat ca < 2" by simp
    also have "\<dots> \<le> 2 ^ LENGTH('l)" by (simp add: self_le_power)
    finally have "unat (top + ca) = unat top + unat ca" by (simp add: unat_word_ariths)
    then have "val (t @ [top + ca]) = M" using m t' by (simp add: val_append)
    with False t t' show "length (liKaratsuba_middle (z0 @ z2) zm sub h z2n) = 2 * h + 1 \<and>
      val (liKaratsuba_middle (z0 @ z2) zm sub h z2n) = M"
      using len by (simp add: liKaratsuba_middle_def t0 t1)
  qed
qed

lemma liKaratsuba_join_val:
  fixes r t :: "'l::len word list"
  assumes len: "length r = rn" "length t = 2 * h + 1" "3 * h \<le> rn"
    and fits: "val r + 2 ^ (LENGTH('l) * h) * val t < 2 ^ (LENGTH('l) * rn)"
  shows "length (liKaratsuba_join r t h rn) = rn"
    "val (liKaratsuba_join r t h rn) = val r + 2 ^ (LENGTH('l) * h) * val t"
proof -
  let ?W = "\<lambda>n. 2 ^ (LENGTH('l) * n) :: nat"
  define tn where "tn = (if rn - h < 2 * h + 1 then rn - h else 2 * h + 1)"
  have tn: "tn \<le> 2 * h + 1" "h + tn \<le> rn" "2 * h \<le> tn" using len by (auto simp: tn_def)
  obtain m c where m: "liAddN (drop h r) t tn = (m, c)" by fastforce
  obtain m2 c2 where m2: "liAdd1 (drop (h + tn) r) (rn - h - tn) c = (m2, c2)" by fastforce
  have vt: "val (take tn t) = val t"
  proof (cases "tn = 2 * h + 1")
    case True
    with len show ?thesis by simp
  next
    case False
    with tn len have "rn = 3 * h" "tn = 2 * h" by (auto simp: tn_def split: if_splits)
    have "?W (3 * h) = ?W h * ?W (2 * h)" by (simp add: algebra_simps flip: power_add)
    then have "?W h * val t < ?W h * ?W (2 * h)"
      using fits unfolding \<open>rn = 3 * h\<close> by linarith
    then have "val t < ?W (2 * h)" by simp
    with \<open>tn = 2 * h\<close> show ?thesis by (simp add: val_take)
  qed
  have a: "length m = tn" "val m + ?W tn * unat c = val (take tn (drop h r)) + val t"
    using liAddN_val [OF m] len tn vt by simp_all
  have b: "length m2 = rn - h - tn"
    "val m2 + ?W (rn - h - tn) * unat c2 = val (drop (h + tn) r) + unat c"
    using liAdd1_val [OF m2] len tn by simp_all
  have W: "?W (rn - h) = ?W tn * ?W (rn - h - tn)" "?W rn = ?W h * ?W (rn - h)"
    using tn by (simp_all flip: power_add distrib_left)
  have r: "val (drop h r) = val (take tn (drop h r)) + ?W tn * val (drop (h + tn) r)"
    using val_take_drop [of tn "drop h r"] len tn by (simp add: add.commute)
  have "val (m @ m2) + ?W (rn - h) * unat c2 = val m + ?W tn * (val m2 + ?W (rn - h - tn) * unat c2)"
    using a by (simp add: val_append W distrib_left)
  also have "\<dots> = (val m + ?W tn * unat c) + ?W tn * val (drop (h + tn) r)"
    unfolding b by (simp add: distrib_left)
  also have "\<dots> = val (drop h r) + val t" unfolding a r by simp
  finally have mm: "val (m @ m2) + ?W (rn - h) * unat c2 = val (drop h r) + val t" .
  let ?res = "take h r @ m @ m2"
  have "val ?res + ?W rn * unat c2 = val (take h r) + ?W h * (val (m @ m2) + ?W (rn - h) * unat c2)"
    using len tn by (simp add: val_append [of "take h r"] W distrib_left min.absorb2)
  also have "\<dots> = val r + ?W h * val t"
    unfolding mm using val_take_drop [of h r] len by (simp add: distrib_left)
  finally have v: "val ?res + ?W rn * unat c2 = val r + ?W h * val t" .
  with fits have "unat c2 = 0" by (cases "unat c2") auto
  with v have "val ?res = val r + ?W h * val t" by simp
  moreover have "liKaratsuba_join r t h rn = ?res"
    unfolding liKaratsuba_join_def tn_def [symmetric] by (simp only: Let_def m m2 prod.case fst_conv)
  ultimately show "length (liKaratsuba_join r t h rn) = rn"
    "val (liKaratsuba_join r t h rn) = val r + ?W h * val t"
    using a b len tn by simp_all
qed

subsection \<open>The product of every route\<close>

definition mul_spec ::
  "'l::len word list \<Rightarrow> 'l word list \<Rightarrow> nat \<Rightarrow> 'l word list \<Rightarrow> nat \<Rightarrow> bool" where
  "mul_spec r a an b bn \<longleftrightarrow> length r = an + bn \<and> val r = val (take an a) * val (take bn b)"

lemma mul_specI:
  "length r = an + bn \<Longrightarrow> val r = val (take an a) * val (take bn b) \<Longrightarrow> mul_spec r a an b bn"
  by (simp add: mul_spec_def)

lemma val_prod_lt:
  "val (take m (a :: 'l::len word list)) * val (take n (b :: 'l word list)) < 2 ^ (LENGTH('l) * (m + n))"
  using val_take_lt [of m a] val_take_lt [of n b]
  by (simp add: distrib_left power_add mult_strict_mono)

text \<open>One piece of the unbalanced product.\<close>

lemma liMulUnbalanced_step:
  fixes a b r t :: "'l::len word list"
  assumes len: "off + cn \<le> length a" "bn \<le> length b" "cn \<le> bn"
    and r: "mul_spec r a off b bn"
    and t: "length t = bn + cn" "val t = val (take cn (drop off a)) * val (take bn b)"
    and m: "liAddN (drop off r) t bn = (m, c)"
  shows "mul_spec (take off r @ m @ fst (liAdd1 (drop bn t) cn c)) a (off + cn) b bn"
proof -
  let ?W = "\<lambda>n. 2 ^ (LENGTH('l) * n) :: nat"
  obtain m2 c2 where m2: "liAdd1 (drop bn t) cn c = (m2, c2)" by fastforce
  have lr: "length r = off + bn" "val r = val (take off a) * val (take bn b)"
    using r by (simp_all add: mul_spec_def)
  have a: "length m = bn" "val m + ?W bn * unat c = val (drop off r) + val (take bn t)"
    using liAddN_val [OF m] lr t by simp_all
  have b: "length m2 = cn" "val m2 + ?W cn * unat c2 = val (drop bn t) + unat c"
    using liAdd1_val [OF m2] t by simp_all
  let ?res = "take off r @ m @ m2"
  have lres: "length ?res = off + cn + bn" using a b lr by simp
  have "val (m @ m2) + ?W (bn + cn) * unat c2 = val m + ?W bn * (val m2 + ?W cn * unat c2)"
    using a by (simp add: val_append distrib_left power_add)
  also have "\<dots> = (val m + ?W bn * unat c) + ?W bn * val (drop bn t)"
    unfolding b by (simp add: distrib_left)
  also have "\<dots> = val (drop off r) + val t"
    unfolding a using val_take_drop [of bn t] t by simp
  finally have mm: "val (m @ m2) + ?W (bn + cn) * unat c2 = val (drop off r) + val t" .
  have "val ?res + ?W (off + bn + cn) * unat c2
      = val (take off r) + ?W off * (val (m @ m2) + ?W (bn + cn) * unat c2)"
    using lr by (simp add: val_append [of "take off r"] distrib_left power_add)
  also have "\<dots> = val r + ?W off * val t"
    unfolding mm using val_take_drop [of off r] lr by (simp add: distrib_left)
  also have "\<dots> = (val (take off a) + ?W off * val (take cn (drop off a))) * val (take bn b)"
    unfolding lr t by (simp add: distrib_right)
  also have "\<dots> = val (take (off + cn) a) * val (take bn b)"
    using len by (simp add: take_add val_append min.absorb2)
  finally have v: "val ?res + ?W (off + bn + cn) * unat c2 = val (take (off + cn) a) * val (take bn b)" .
  have "val (take (off + cn) a) * val (take bn b) < ?W (off + bn + cn)"
    using val_prod_lt [of "off + cn" a bn b] by (simp add: add.commute add.left_commute)
  with v have "unat c2 = 0" by (cases "unat c2") auto
  with v lres show ?thesis by (simp add: mul_spec_def m2)
qed

text \<open>Karatsuba's three products put together.\<close>

lemma liMulKaratsuba_combine:
  fixes a b :: "'l::len word list"
  assumes h: "h = (an + 1) div 2" "h < bn" "bn \<le> an" "an \<le> length a" "bn \<le> length b"
    and da: "liAbsDiff a h (drop h a) (an - h) = (da, negA)"
    and db: "liAbsDiff b h (drop h b) (bn - h) = (db, negB)"
    and zm: "mul_spec zm da h db h"
    and z0: "mul_spec z0 a h b h"
    and z2: "mul_spec z2 (drop h a) (an - h) (drop h b) (bn - h)"
  shows "mul_spec (liKaratsuba_join (z0 @ z2)
      (liKaratsuba_middle (z0 @ z2) zm (negA = negB) h (an - h + (bn - h))) h (an + bn)) a an b bn"
proof -
  let ?W = "\<lambda>n. 2 ^ (LENGTH('l) * n) :: nat"
  define a0 a1 b0 b1 where "a0 = val (take h a)" and "a1 = val (take (an - h) (drop h a))"
    and "b0 = val (take h b)" and "b1 = val (take (bn - h) (drop h b))"
  have hn: "an - h \<le> h" "bn - h \<le> h" "h \<le> an" "an + bn - h \<ge> 2 * h" "3 * h \<le> an + bn"
    using h(1-3) by linarith+
  have la: "h \<le> length a" "an - h \<le> length (drop h a)" and lb: "h \<le> length b" "bn - h \<le> length (drop h b)"
    using hn h(2,4,5) by simp_all
  note A = liAbsDiff_val [OF da hn(1) la] and B = liAbsDiff_val [OF db hn(2) lb]
  have va: "length da = h" "negA \<longleftrightarrow> a0 < a1" "val da = (if a0 < a1 then a1 - a0 else a0 - a1)"
    using A by (simp_all add: a0_def a1_def)
  have vb: "length db = h" "negB \<longleftrightarrow> b0 < b1" "val db = (if b0 < b1 then b1 - b0 else b0 - b1)"
    using B by (simp_all add: b0_def b1_def)
  have z: "length zm = 2 * h" "val zm = val da * val db" "length z0 = 2 * h" "val z0 = a0 * b0"
    "length z2 = an - h + (bn - h)" "val z2 = a1 * b1"
    using zm z0 z2 va vb by (simp_all add: mul_spec_def a0_def a1_def b0_def b1_def)
  define M where "M = a0 * b1 + a1 * b0"
  let ?t = "liKaratsuba_middle (z0 @ z2) zm (negA = negB) h (an - h + (bn - h))"
  have lt: "a0 < ?W h" "a1 < ?W (an - h)" "b0 < ?W h" "b1 < ?W (bn - h)"
    unfolding a0_def a1_def b0_def b1_def by (rule val_take_lt)+
  have "?W (an - h) \<le> ?W h" "?W (bn - h) \<le> ?W h" using hn(1,2) by simp_all
  with lt have "a1 < ?W h" "b1 < ?W h" by linarith+
  with lt have "a0 * b1 < ?W h * ?W h" "a1 * b0 < ?W h * ?W h" by (auto intro!: mult_strict_mono)
  then have Mlt: "M < 2 * ?W (2 * h)" by (simp add: M_def mult_2 flip: power_add distrib_left)
  have mid: "negA = negB \<Longrightarrow> M + val zm = val z0 + val z2"
    "negA \<noteq> negB \<Longrightarrow> M = val z0 + val z2 + val zm"
    unfolding z M_def va vb using karatsuba_middle_nat [of a0 a1 b0 b1] by auto
  have z2n: "an - h + (bn - h) \<le> 2 * h" using hn by linarith
  have t: "length ?t = 2 * h + 1" "val ?t = M"
    by (rule liKaratsuba_middle_val [where sub = "negA = negB", OF z(3,5) z2n z(1) mid Mlt]; assumption)+
  have va2: "val (take an a) = a0 + ?W h * a1"
    using la hn(3) val_append [of "take h a" "take (an - h) (drop h a)"]
    by (simp add: a0_def a1_def min.absorb2 flip: take_add)
  have vb2: "val (take bn b) = b0 + ?W h * b1"
    using lb h(2) val_append [of "take h b" "take (bn - h) (drop h b)"]
    by (simp add: b0_def b1_def min.absorb2 flip: take_add)
  have r: "val (z0 @ z2) + ?W h * val ?t = val (take an a) * val (take bn b)"
  proof -
    have W2: "?W (2 * h) = ?W h * ?W h" by (simp add: mult_2 distrib_left flip: power_add)
    have "val (z0 @ z2) = a0 * b0 + ?W h * ?W h * (a1 * b1)" using z by (simp add: val_append flip: W2)
    then show ?thesis unfolding t va2 vb2 M_def by (simp add: algebra_simps)
  qed
  have lenr: "length (z0 @ z2) = an + bn" using z(3,5) hn(3) h(2) by simp
  have "val (take an a) * val (take bn b) < ?W (an + bn)" by (rule val_prod_lt)
  with liKaratsuba_join_val [OF lenr t(1) hn(5)] r show ?thesis by (simp add: mul_spec_def)
qed

text \<open>The scratch of the inner calls.\<close>

lemma liMulScratch_karatsuba:
  assumes "2 \<le> liKaratsubaLimbs kn" "liKaratsubaLimbs kn \<le> bn" "bn \<le> an" "h = (an + 1) div 2" "h < bn"
  shows "4 * h + liMulScratch kn h h \<le> liMulScratch kn an bn"
    "4 * h + liMulScratch kn (an - h) (bn - h) \<le> liMulScratch kn an bn"
    "6 * h + 1 \<le> liMulScratch kn an bn"
  using assms by (simp_all add: liMulScratch.simps [of kn an bn] Let_def)

lemma liMulScratch_unbalanced:
  assumes "2 \<le> liKaratsubaLimbs kn" "liKaratsubaLimbs kn \<le> bn" "bn \<le> (an + 1) div 2"
  shows "2 * bn + liMulScratch kn bn bn \<le> liMulScratch kn an bn"
    "an mod bn \<noteq> 0 \<Longrightarrow> 2 * bn + liMulScratch kn bn (an mod bn) \<le> liMulScratch kn an bn"
proof -
  have "\<not> an < bn" "\<not> bn < liKaratsubaLimbs kn" using assms by linarith+
  then show "2 * bn + liMulScratch kn bn bn \<le> liMulScratch kn an bn"
    "an mod bn \<noteq> 0 \<Longrightarrow> 2 * bn + liMulScratch kn bn (an mod bn) \<le> liMulScratch kn an bn"
    using assms by (simp_all add: liMulScratch.simps [of kn an bn] Let_def)
qed

text \<open>The last, short piece of \<open>a\<close> has \<open>an mod bn\<close> limbs.\<close>

lemma last_piece_mod:
  assumes "bn dvd off" "off < an" "an - off < (bn::nat)"
  shows "an - off = an mod bn"
proof -
  obtain k where "off = bn * k" using assms by (auto elim: dvdE)
  then have "an = (an - off) + bn * k" using assms by simp
  then have "an mod bn = (an - off) mod bn" by (metis mod_mult_self2)
  with assms show ?thesis by simp
qed

lemma liMul_routes:
  fixes a b :: "'l::len word list"
  shows "2 \<le> liKaratsubaLimbs kn \<Longrightarrow> 1 \<le> bn \<Longrightarrow> bn \<le> an \<Longrightarrow> an \<le> length a \<Longrightarrow> bn \<le> length b \<Longrightarrow>
      liMulScratch kn an bn \<le> sc \<Longrightarrow>
      \<exists>r. liMul kn a an b bn sc = Some r \<and> mul_spec r a an b bn"
    and "2 \<le> liKaratsubaLimbs kn \<Longrightarrow> liKaratsubaLimbs kn \<le> bn \<Longrightarrow> (an + 1) div 2 < bn \<Longrightarrow> bn \<le> an \<Longrightarrow>
      an \<le> length a \<Longrightarrow> bn \<le> length b \<Longrightarrow> liMulScratch kn an bn \<le> sc \<Longrightarrow>
      \<exists>r. liMulKaratsuba kn a an b bn sc = Some r \<and> mul_spec r a an b bn"
    and "2 \<le> liKaratsubaLimbs kn \<Longrightarrow> liKaratsubaLimbs kn \<le> bn \<Longrightarrow> bn \<le> (an + 1) div 2 \<Longrightarrow>
      an \<le> length a \<Longrightarrow> bn \<le> length b \<Longrightarrow> liMulScratch kn an bn \<le> sc \<Longrightarrow>
      \<exists>r. liMulUnbalanced kn a an b bn sc = Some r \<and> mul_spec r a an b bn"
    and "2 \<le> liKaratsubaLimbs kn \<Longrightarrow> liKaratsubaLimbs kn \<le> bn \<Longrightarrow> bn \<le> (an + 1) div 2 \<Longrightarrow>
      an \<le> length a \<Longrightarrow> bn \<le> length b \<Longrightarrow> liMulScratch kn an bn \<le> sc \<Longrightarrow> bn dvd off \<Longrightarrow>
      mul_spec r a (min off an) b bn \<Longrightarrow>
      \<exists>r'. liMulUnbalanced_loop kn r a an b bn sc off = Some r' \<and> mul_spec r' a an b bn"
proof (induction kn a an b bn sc and kn a an b bn sc and kn a an b bn sc and kn r a an b bn sc off
    rule: liMul_liMulKaratsuba_liMulUnbalanced_liMulUnbalanced_loop.induct)
  case (1 kn a an b bn sc)
  show ?case
  proof (cases "bn < liKaratsubaLimbs kn")
    case True
    then show ?thesis
      using "1.prems" liMulBasecase_val [of an a bn b] by (simp add: liMul.simps mul_spec_def)
  next
    case False
    then show ?thesis
      using "1.IH" "1.prems" by (cases "bn \<le> (an + 1) div 2") (simp_all add: liMul.simps)
  qed
next
  case (2 kn a an b bn sc)
  define h where "h = (an + 1) div 2"
  have h: "h < bn" "bn \<le> an" "h \<le> an" "1 \<le> h" "bn - h \<le> an - h" "1 \<le> bn - h" using "2.prems" by (auto simp: h_def)
  note S = liMulScratch_karatsuba [OF "2.prems"(1,2,4) h_def h(1)]
  have sc: "\<not> sc < 6 * h + 1" "liMulScratch kn h h \<le> sc - 4 * h"
    "liMulScratch kn (an - h) (bn - h) \<le> sc - 4 * h" using S "2.prems"(7) by linarith+
  obtain da negA where da: "liAbsDiff a h (drop h a) (an - h) = (da, negA)" by fastforce
  obtain db negB where db: "liAbsDiff b h (drop h b) (bn - h) = (db, negB)" by fastforce
  have hh: "an - h \<le> h" "bn - h \<le> h" "h \<le> length a" "an - h \<le> length (drop h a)"
    "h \<le> length b" "bn - h \<le> length (drop h b)"
  proof -
    show "an - h \<le> h" "bn - h \<le> h" using h unfolding h_def by linarith+
    show "h \<le> length a" "h \<le> length b" using h "2.prems"(5,6) by linarith+
    show "an - h \<le> length (drop h a)" "bn - h \<le> length (drop h b)" using "2.prems"(5,6) by simp_all
  qed
  have len: "length da = h" "length db = h"
    using liAbsDiff_val(1) [OF da hh(1,3,4)] liAbsDiff_val(1) [OF db hh(2,5,6)] by simp_all
  have g: "\<not> (\<not> (h < bn \<and> bn \<le> an) \<or> sc < 6 * h + 1)" using h sc by simp
  note args = h_def refl refl refl g [unfolded h_def]
  obtain zm where zm: "liMul kn da h db h (sc - 4 * h) = Some zm" "mul_spec zm da h db h"
    using "2.IH"(1) [OF h_def refl refl refl g da [symmetric] refl db [symmetric] refl] "2.prems"(1) h len sc by auto
  obtain z0 where z0: "liMul kn a h b h (sc - 4 * h) = Some z0" "mul_spec z0 a h b h"
    using "2.IH"(2) [OF h_def refl refl refl g da [symmetric] refl db [symmetric] refl zm(1)] "2.prems"(1) h hh sc by auto
  obtain z2 where z2: "liMul kn (drop h a) (an - h) (drop h b) (bn - h) (sc - 4 * h) = Some z2"
    "mul_spec z2 (drop h a) (an - h) (drop h b) (bn - h)"
    using "2.IH"(3) [OF h_def refl refl refl g da [symmetric] refl db [symmetric] refl zm(1) z0(1)]
      "2.prems"(1) h hh sc by auto
  show ?case
    using liMulKaratsuba_combine [OF h_def h(1,2) "2.prems"(5,6) da db zm(2) z0(2) z2(2)] g
    unfolding liMulKaratsuba.simps [of kn a an b bn sc] Let_def h_def [symmetric] da db
    by (simp add: zm z0 z2)
next
  case (3 kn a an b bn sc)
  have bn: "2 \<le> bn" "bn < an" using "3.prems" by linarith+
  note S = liMulScratch_unbalanced [OF "3.prems"(1-3)]
  have g: "\<not> (\<not> (1 \<le> bn \<and> bn < an) \<or> sc < 2 * bn)" using bn S "3.prems"(6) by simp
  obtain r where r: "liMul kn a bn b bn (sc - 2 * bn) = Some r" "mul_spec r a bn b bn"
  proof -
    have "liMulScratch kn bn bn \<le> sc - 2 * bn" using S(1) "3.prems"(6) by linarith
    then show ?thesis using "3.IH"(1) [OF g] bn "3.prems" that by auto
  qed
  have "mul_spec r a (min bn an) b bn" using r(2) bn by (simp add: min.absorb1)
  then show ?case
    using "3.IH"(2) [OF g r(1)] "3.prems" g by (simp add: liMulUnbalanced.simps r(1))
next
  case (4 kn r a an b bn sc off)
  show ?case
  proof (cases "off < an")
    case False
    with "4.prems" show ?thesis by (simp add: liMulUnbalanced_loop.simps min.absorb2)
  next
    case True
    define cn where "cn = (if an - off < bn then an - off else bn)"
    have bn: "2 \<le> bn" "bn \<noteq> 0" "bn < an" using "4.prems" by linarith+
    have cn: "1 \<le> cn" "cn \<le> bn" "off + cn \<le> an" "off + cn = min (off + bn) an"
      using True bn by (auto simp: cn_def)
    note S = liMulScratch_unbalanced [OF "4.prems"(1-3)]
    have lens: "off + cn \<le> length a" "bn \<le> length b" using cn "4.prems" by simp_all
    obtain t where t: "(if cn = bn then liMul kn (drop off a) bn b bn (sc - 2 * bn)
        else liMul kn b bn (drop off a) cn (sc - 2 * bn)) = Some t"
      and tv: "length t = bn + cn" "val t = val (take cn (drop off a)) * val (take bn b)"
    proof (cases "cn = bn")
      case eq: True
      have "\<exists>t. liMul kn (drop off a) bn b bn (sc - 2 * bn) = Some t \<and> mul_spec t (drop off a) bn b bn"
      proof -
        have "liMulScratch kn bn bn \<le> sc - 2 * bn" using S(1) "4.prems"(6) by linarith
        then show ?thesis using "4.IH"(1) [OF _ bn(2) cn_def eq] True bn "4.prems" lens eq by auto
      qed
      with that eq show ?thesis by (auto simp: mul_spec_def)
    next
      case ne: False
      then have "an - off < bn" "cn = an - off" using cn by (auto simp: cn_def split: if_splits)
      then have mod: "cn = an mod bn" using last_piece_mod [OF "4.prems"(7) True] by simp
      have "\<exists>t. liMul kn b bn (drop off a) cn (sc - 2 * bn) = Some t \<and> mul_spec t b bn (drop off a) cn"
      proof -
        have "liMulScratch kn bn cn \<le> sc - 2 * bn" using S(2) "4.prems"(6) cn mod by simp
        then show ?thesis using "4.IH"(2) [OF _ bn(2) cn_def ne] True bn "4.prems" lens cn by auto
      qed
      with that ne show ?thesis by (auto simp: mul_spec_def mult.commute)
    qed
    obtain m c where m: "liAddN (drop off r) t bn = (m, c)" by fastforce
    have r: "mul_spec r a off b bn" using "4.prems"(8) True by (simp add: min.absorb1)
    have step: "mul_spec (take off r @ m @ fst (liAdd1 (drop bn t) cn c)) a (min (off + bn) an) b bn"
      using liMulUnbalanced_step [OF lens cn(2) r tv m] cn(4) by simp
    have "bn dvd off + bn" using "4.prems"(7) by simp
    with step show ?thesis
      using "4.IH"(3) [OF _ bn(2) cn_def t refl m [symmetric]] True bn "4.prems"(1-6)
      unfolding liMulUnbalanced_loop.simps [of kn r a an b bn sc off] Let_def cn_def [symmetric]
      by (simp add: t m)
  qed
qed

lemma liMul_correct:
  fixes a b :: "'l::len word list"
  assumes "2 \<le> liKaratsubaLimbs kn" "1 \<le> bn" "bn \<le> an" "an \<le> length a" "bn \<le> length b"
    and "liMulScratch kn an bn \<le> sc"
  obtains r where "liMul kn a an b bn sc = Some r" "length r = an + bn"
    "val r = val (take an a) * val (take bn b)"
  using liMul_routes(1) [OF assms] by (auto simp: mul_spec_def)

text \<open>
  \<open>liMul\<close>, through all of its routes (schoolbook, Karatsuba at every level of the recursion, pieces
  of an unbalanced product), computes the product of its operands whenever it is given the scratch
  \<open>liMulScratch\<close> answers: it ends, never writes past its scratch, fills \<open>an + bn\<close> limbs, and their
  value is the product.
\<close>
theorem liMul_computes_product:
  fixes a b :: "'l::len word list"
  assumes "2 \<le> liKaratsubaLimbs kn" "1 \<le> bn" "bn \<le> an" "an \<le> length a" "bn \<le> length b"
    and "liMulScratch kn an bn \<le> sc"
  shows "\<exists>r. liMul kn a an b bn sc = Some r \<and> length r = an + bn \<and>
    val r = val (take an a) * val (take bn b)"
  by (rule liMul_correct [OF assms]) blast

text \<open>A product cut in two levels of Karatsuba, with a threshold of two limbs.\<close>
theorem liMul_computes_product_witness:
  "\<exists>r. liMul (knobs64\<lparr>liKaratsubaLimbs := 2\<rparr>) [1, 2, 3, 4, 5 :: 64 word] 5 [6, 7, 8, 9] 4
        (liMulScratch (knobs64\<lparr>liKaratsubaLimbs := 2\<rparr>) 5 4) = Some r \<and> length r = 5 + 4 \<and>
      val r = val (take 5 [1, 2, 3, 4, 5 :: 64 word]) * val (take 4 [6, 7, 8, 9 :: 64 word])"
  by (rule liMul_computes_product) simp_all

end
