(* ===== verification/LimbSqr.thy ===== *)
theory LimbSqr
  imports LimbMul
begin

text \<open>
  Squaring of limb vectors, from \<open>LargeIntegersKernels.c\<close>: schoolbook squaring, which takes each
  cross product once, and Karatsuba squaring. The conventions on scratch memory are those of
  \<open>LimbMul\<close>.
\<close>

subsection \<open>Squaring\<close>

text \<open>The scratch limbs \<open>liSqr\<close> uses.\<close>

function liSqrScratch :: "li_knobs \<Rightarrow> nat \<Rightarrow> nat" where
  "liSqrScratch kn n =
     (if n < liSqrKaratsubaLimbs kn \<or> liSqrKaratsubaLimbs kn < 2 then 0
      else let h = (n + 1) div 2;
               need = liSqrScratch kn h;
               other = liSqrScratch kn (n - h);
               need = (if other > need then other else need);
               need = (if 2 * h + 1 > need then 2 * h + 1 else need)
           in 3 * h + need)"
  by pat_completeness auto
termination
  by (relation "measure (\<lambda>(kn, n). n)") auto

declare liSqrScratch.simps [simp del]

text \<open>
  Schoolbook squaring. The loop over the rows adds \<open>a[i] * a[i + 1 .. n)\<close> from limb \<open>2i + 1\<close> on; the
  loop over the diagonal doubles two limbs at a time and adds a square.
\<close>

definition liSqrBasecase_row :: "'l::len word list \<Rightarrow> nat \<Rightarrow> 'l word list \<Rightarrow> nat \<Rightarrow> 'l word list" where
  "liSqrBasecase_row a n r i =
     (let (m, c) = liAddMul1 (drop (2 * i + 1) r) (drop (i + 1) a) (n - i - 1) (a ! i)
      in take (2 * i + 1) r @ m @ [c])"

fun liSqrBasecase_diag ::
  "'l::len word list \<Rightarrow> 'l word list \<Rightarrow> 'l word \<Rightarrow> 'l word \<Rightarrow> 'l word list" where
  "liSqrBasecase_diag (x0 # x1 # r) (ai # a) s c =
     (let p = wide ai * wide ai;
          t = wide (push_bit 1 x0 OR s) + wide (lo p) + wide c;
          t' = wide (push_bit 1 x1 OR drop_bit (LENGTH('l) - 1) x0) + wide (hi p) + wide (hi t)
      in lo t # lo t' # liSqrBasecase_diag r a (drop_bit (LENGTH('l) - 1) x1) (hi t'))"
| "liSqrBasecase_diag r a s c = []"

definition liSqrBasecase :: "'l::len word list \<Rightarrow> nat \<Rightarrow> 'l word list" where
  "liSqrBasecase a n =
     (let r = (if n > 1
               then (let (m, c) = liMul1 (drop 1 a) (n - 1) (a ! 0)
                     in foldl (liSqrBasecase_row a n) (0 # m @ [c]) [1..<n - 1])
               else [0])
      in liSqrBasecase_diag (r @ [0]) (take n a) 0 0)"

function
  liSqr :: "li_knobs \<Rightarrow> 'l::len word list \<Rightarrow> nat \<Rightarrow> nat \<Rightarrow> 'l word list option" and
  liSqrKaratsuba :: "li_knobs \<Rightarrow> 'l word list \<Rightarrow> nat \<Rightarrow> nat \<Rightarrow> 'l word list option"
where
  "liSqr kn a n sc =
     (if \<not> (2 \<le> liSqrKaratsubaLimbs kn \<and> 1 \<le> n) then None
      else if n < liSqrBasecaseLimbs kn then Some (liMulBasecase a n a n)
      else if n < liSqrKaratsubaLimbs kn then Some (liSqrBasecase a n)
      else liSqrKaratsuba kn a n sc)"
| "liSqrKaratsuba kn a n sc =
     (let h = (n + 1) div 2; a1n = n - h; z2n = 2 * a1n
      in if n < 2 \<or> sc < 5 * h + 1 then None
      else let (d, lt) = liAbsDiff a h (drop h a) a1n
      in do {
        zm \<leftarrow> liSqr kn d h (sc - 3 * h);
        z0 \<leftarrow> liSqr kn a h (sc - 3 * h);
        z2 \<leftarrow> liSqr kn (drop h a) a1n (sc - 3 * h);
        let r = z0 @ z2;
        let t = liKaratsuba_middle r zm True h z2n;
        Some (liKaratsuba_join r t h (2 * n))
      })"
  by pat_completeness auto
termination
  by (relation "measures [case_sum (\<lambda>(kn, a, n, sc). n) (\<lambda>(kn, a, n, sc). n),
      case_sum (\<lambda>_. 1) (\<lambda>_. 0)]") auto

declare liSqr.simps [simp del] liSqrKaratsuba.simps [simp del]

subsection \<open>The diagonal: doubling and adding the squares\<close>

lemma unat_shl1_or:
  fixes x s :: "'l::len word"
  assumes "unat s \<le> 1"
  shows "unat (push_bit 1 x OR s) + 2 ^ LENGTH('l) * unat (drop_bit (LENGTH('l) - 1) x) = 2 * unat x + unat s"
    and "unat (drop_bit (LENGTH('l) - 1) x) \<le> 1"
proof -
  obtain m where L: "LENGTH('l) = Suc m" using len_gt_0 [where 'a = 'l] by (cases "LENGTH('l)") auto
  have top: "unat (drop_bit (LENGTH('l) - 1) x) = unat x div 2 ^ m"
  proof -
    have "unat (drop_bit (LENGTH('l) - 1) x) = drop_bit (LENGTH('l) - 1) (unat x)"
      by (rule unat_drop_bit_eq)
    then show ?thesis by (simp add: drop_bit_eq_div L)
  qed
  have "unat x < 2 * 2 ^ m" using unat_lt [of x] L by simp
  then have "unat x div 2 ^ m < 2" by (simp add: less_mult_imp_div_less)
  with top show "unat (drop_bit (LENGTH('l) - 1) x) \<le> 1" by simp
  have sh: "unat (push_bit 1 x) = 2 * unat x mod 2 ^ LENGTH('l)"
    by (subst unsigned_push_bit_eq) (simp add: take_bit_eq_mod push_bit_eq_mult mult.commute)
  have "2 * unat x div 2 ^ LENGTH('l) = unat x div 2 ^ m" by (simp add: L)
  then have split: "2 * unat x = unat (push_bit 1 x) + 2 ^ LENGTH('l) * (unat x div 2 ^ m)"
    using sh by (metis mod_mult_div_eq)
  have or: "unat (push_bit 1 x OR s) = unat (push_bit 1 x) + unat s"
  proof (cases "s = 0")
    case True
    then show ?thesis by simp
  next
    case False
    with assms have s: "s = 1" using word_le_1_cases by blast
    have ev: "even (push_bit 1 x)" by (simp add: push_bit_eq_mult)
    have "even (unat (push_bit 1 x))" unfolding sh L by simp
    moreover have "unat (push_bit 1 x) < 2 ^ LENGTH('l)" by (rule unat_lt)
    moreover have "even ((2::nat) ^ LENGTH('l))" by (simp add: L)
    ultimately have "unat (push_bit 1 x) + 1 < 2 ^ LENGTH('l)" by presburger
    then have "unat (push_bit 1 x + 1) = unat (push_bit 1 x) + 1"
      by (simp add: unat_word_ariths)
    with ev s show ?thesis by (simp add: or_one_eq)
  qed
  show "unat (push_bit 1 x OR s) + 2 ^ LENGTH('l) * unat (drop_bit (LENGTH('l) - 1) x) = 2 * unat x + unat s"
    unfolding or top using split by simp
qed

text \<open>The sums over the diagonal and over the cross products, and the square they make.\<close>

fun squares :: "'l::len word list \<Rightarrow> nat" where
  "squares [] = 0"
| "squares (x # xs) = unat x * unat x + 2 ^ LENGTH('l) * 2 ^ LENGTH('l) * squares xs"

fun crosses :: "'l::len word list \<Rightarrow> nat" where
  "crosses [] = 0"
| "crosses (x # xs) = 2 ^ LENGTH('l) * (unat x * val xs) + 2 ^ LENGTH('l) * 2 ^ LENGTH('l) * crosses xs"

lemma squares_crosses: "2 * crosses a + squares a = val a * val a"
proof (induction a)
  case Nil
  then show ?case by simp
next
  case (Cons x xs)
  let ?B = "2 ^ LENGTH('a) :: nat"
  have "2 * crosses (x # xs) + squares (x # xs)
      = unat x * unat x + 2 * (?B * (unat x * val xs)) + ?B * ?B * (2 * crosses xs + squares xs)"
    by (simp add: algebra_simps)
  then show ?case unfolding Cons.IH by (simp add: algebra_simps)
qed

lemma diag_step:
  fixes x0 x1 ai s c :: "'l::len word"
  assumes s: "unat s \<le> 1"
  defines "p \<equiv> wide ai * wide ai"
  defines "t \<equiv> wide (push_bit 1 x0 OR s) + wide (lo p) + wide c"
  defines "t' \<equiv> wide (push_bit 1 x1 OR drop_bit (LENGTH('l) - 1) x0) + wide (hi p) + wide (hi t)"
  shows "unat (lo t) + 2 ^ LENGTH('l) * unat (lo t')
      + 2 ^ LENGTH('l) * 2 ^ LENGTH('l) * (unat (hi t') + unat (drop_bit (LENGTH('l) - 1) x1))
    = 2 * (unat x0 + 2 ^ LENGTH('l) * unat x1) + unat s + unat c + unat ai * unat ai"
proof -
  let ?B = "2 ^ LENGTH('l) :: nat"
  define w0 w1 s0 s1 where "w0 = unat (push_bit 1 x0 OR s)"
    and "w1 = unat (push_bit 1 x1 OR drop_bit (LENGTH('l) - 1) x0)"
    and "s0 = unat (drop_bit (LENGTH('l) - 1) x0)" and "s1 = unat (drop_bit (LENGTH('l) - 1) x1)"
  have p: "unat (lo p) + ?B * unat (hi p) = unat ai * unat ai"
    unfolding unat_lo_hi p_def by (rule unat_wide_mult)
  have t: "unat (lo t) + ?B * unat (hi t) = w0 + unat (lo p) + unat c"
    unfolding unat_lo_hi t_def w0_def by (rule unat_wide_add3)
  have t': "unat (lo t') + ?B * unat (hi t') = w1 + unat (hi p) + unat (hi t)"
    unfolding unat_lo_hi t'_def w1_def by (rule unat_wide_add3)
  have x0: "w0 + ?B * s0 = 2 * unat x0 + unat s"
    using unat_shl1_or(1) [OF s, of x0] by (simp add: w0_def s0_def)
  have x1: "w1 + ?B * s1 = 2 * unat x1 + s0"
    using unat_shl1_or(1) [OF unat_shl1_or(2) [OF s, of x0], of x1] by (simp add: w1_def s0_def s1_def)
  have "unat (lo t) + ?B * unat (lo t') + ?B * ?B * (unat (hi t') + s1)
      = unat (lo t) + ?B * (unat (lo t') + ?B * unat (hi t')) + ?B * ?B * s1"
    by (simp add: algebra_simps)
  also have "\<dots> = (unat (lo t) + ?B * unat (hi t)) + ?B * unat (hi p) + ?B * (w1 + ?B * s1)"
    unfolding t' by (simp add: algebra_simps)
  also have "\<dots> = (unat (lo p) + ?B * unat (hi p)) + unat c + (w0 + ?B * s0) + ?B * (2 * unat x1)"
    unfolding t x1 by (simp add: algebra_simps)
  finally show ?thesis unfolding p x0 by (simp add: s1_def algebra_simps)
qed

lemma liSqrBasecase_diag_val:
  "length r = 2 * length a \<Longrightarrow> unat s \<le> 1 \<Longrightarrow>
   length (liSqrBasecase_diag r a s c) = 2 * length a \<and>
   (\<exists>k. val (liSqrBasecase_diag r a s c) + 2 ^ (LENGTH('l) * (2 * length a)) * k
     = 2 * val r + unat s + unat (c :: 'l::len word) + squares a)"
proof (induction r a s c rule: liSqrBasecase_diag.induct)
  case (1 x0 x1 r ai a s c)
  let ?B = "2 ^ LENGTH('l) :: nat"
  define p where "p = wide ai * wide ai"
  define t where "t = wide (push_bit 1 x0 OR s) + wide (lo p) + wide c"
  define t' where "t' = wide (push_bit 1 x1 OR drop_bit (LENGTH('l) - 1) x0) + wide (hi p) + wide (hi t)"
  define s' where "s' = drop_bit (LENGTH('l) - 1) x1"
  define rec where "rec = liSqrBasecase_diag r a s' (hi t')"
  have s': "unat s' \<le> 1" unfolding s'_def by (rule unat_shl1_or(2) [OF "1.prems"(2)])
  have step: "unat (lo t) + ?B * unat (lo t') + ?B * ?B * (unat (hi t') + unat s')
    = 2 * (unat x0 + ?B * unat x1) + unat s + unat c + unat ai * unat ai"
    unfolding t'_def t_def p_def s'_def by (rule diag_step [OF "1.prems"(2)])
  have "length r = 2 * length a" using "1.prems"(1) by simp
  then obtain k where len: "length rec = 2 * length a" and
    k: "val rec + 2 ^ (LENGTH('l) * (2 * length a)) * k = 2 * val r + unat s' + unat (hi t') + squares a"
    using "1.IH" [OF p_def t_def t'_def] s' unfolding rec_def s'_def by blast
  have eq: "liSqrBasecase_diag (x0 # x1 # r) (ai # a) s c = lo t # lo t' # rec"
    by (simp add: Let_def rec_def s'_def t'_def t_def p_def)
  have "val (lo t # lo t' # rec) + ?B * ?B * (2 ^ (LENGTH('l) * (2 * length a)) * k)
      = unat (lo t) + ?B * unat (lo t') + ?B * ?B * (val rec + 2 ^ (LENGTH('l) * (2 * length a)) * k)"
    by (simp add: algebra_simps)
  also have "\<dots> = 2 * (unat x0 + ?B * unat x1) + unat s + unat c + unat ai * unat ai
      + ?B * ?B * (2 * val r + squares a)"
    unfolding k step [symmetric] by (simp add: algebra_simps)
  also have "\<dots> = 2 * val (x0 # x1 # r) + unat s + unat c + squares (ai # a)"
    by (simp add: algebra_simps)
  finally show ?case unfolding eq using len
    by (intro conjI exI [of _ k]) (simp_all add: power_add mult_2 mult.assoc)
qed auto

subsection \<open>The rows\<close>

text \<open>After row \<open>i - 1\<close> the first \<open>n + i\<close> limbs hold the cross products of the first \<open>i\<close> rows.\<close>

lemma crosses_row:
  assumes "i < length (a :: 'l::len word list)"
  shows "crosses (drop i a) = 2 ^ LENGTH('l) * (unat (a ! i) * val (drop (i + 1) a))
    + 2 ^ LENGTH('l) * 2 ^ LENGTH('l) * crosses (drop (i + 1) a)"
  using assms by (subst Cons_nth_drop_Suc [symmetric]) simp_all

definition rows :: "'l::len word list \<Rightarrow> nat \<Rightarrow> nat" where
  "rows a i = (\<Sum>m<i. 2 ^ (LENGTH('l) * (2 * m + 1)) * (unat (a ! m) * val (drop (m + 1) a)))"

lemma rows_crosses:
  "i \<le> length (a :: 'l::len word list) \<Longrightarrow>
   rows a i + 2 ^ (LENGTH('l) * (2 * i)) * crosses (drop i a) = crosses a"
proof (induction i)
  case 0
  then show ?case by (simp add: rows_def)
next
  case (Suc i)
  then have "rows a i + 2 ^ (LENGTH('l) * (2 * i)) * crosses (drop i a) = crosses a" by simp
  moreover have "i < length a" using Suc.prems by simp
  moreover have "(2::nat) ^ (LENGTH('l) * (2 * Suc i)) = 2 ^ LENGTH('l) * 2 ^ LENGTH('l) * 2 ^ (LENGTH('l) * (2 * i))"
    "(2::nat) ^ (LENGTH('l) * (2 * i + 1)) = 2 ^ LENGTH('l) * 2 ^ (LENGTH('l) * (2 * i))"
    by (simp_all add: algebra_simps flip: power_add)
  ultimately show ?case
    by (simp add: crosses_row rows_def algebra_simps)
qed

lemma liSqrBasecase_row_val:
  assumes "length (a :: 'l::len word list) = n" "i + 1 < n" "length r = n + i" "val r = rows a i" "1 \<le> i"
  shows "length (liSqrBasecase_row a n r i) = n + Suc i"
    "val (liSqrBasecase_row a n r i) = rows a (Suc i)"
proof -
  let ?W = "\<lambda>n. 2 ^ (LENGTH('l) * n) :: nat"
  obtain m c where m: "liAddMul1 (drop (2 * i + 1) r) (drop (i + 1) a) (n - i - 1) (a ! i) = (m, c)"
    by fastforce
  have len: "n - i - 1 \<le> length (drop (i + 1) a)" "n - i - 1 \<le> length (drop (2 * i + 1) r)"
    "length (drop (2 * i + 1) r) = n - i - 1" "length (drop (i + 1) a) = n - i - 1"
    using assms by simp_all
  have v: "length m = n - i - 1"
    "val m + ?W (n - i - 1) * unat c = val (drop (2 * i + 1) r) + val (drop (i + 1) a) * unat (a ! i)"
  proof -
    have t: "take (n - i - 1) (drop (2 * i + 1) r) = drop (2 * i + 1) r"
      "take (n - i - 1) (drop (i + 1) a) = drop (i + 1) a"
      using len(3,4) by (metis order_refl take_all)+
    show "length m = n - i - 1" by (rule liAddMul1_val(1) [OF m len(1,2)])
    show "val m + ?W (n - i - 1) * unat c = val (drop (2 * i + 1) r) + val (drop (i + 1) a) * unat (a ! i)"
      using liAddMul1_val(2) [OF m len(1,2)] unfolding t .
  qed
  have eq: "liSqrBasecase_row a n r i = take (2 * i + 1) r @ m @ [c]"
    unfolding liSqrBasecase_row_def m by simp
  have lt: "length (take (2 * i + 1) r) = 2 * i + 1" using assms by simp
  show "length (liSqrBasecase_row a n r i) = n + Suc i" unfolding eq using v lt assms by simp
  have "val (liSqrBasecase_row a n r i)
      = val (take (2 * i + 1) r) + ?W (2 * i + 1) * (val m + ?W (n - i - 1) * unat c)"
    unfolding eq val_append lt v(1) by simp
  also have "\<dots> = (val (take (2 * i + 1) r) + ?W (2 * i + 1) * val (drop (2 * i + 1) r))
      + ?W (2 * i + 1) * (unat (a ! i) * val (drop (i + 1) a))"
    unfolding v by (simp add: distrib_left mult.commute)
  also have "\<dots> = rows a (Suc i)"
    using val_take_drop [of "2 * i + 1" r] assms by (simp add: rows_def)
  finally show "val (liSqrBasecase_row a n r i) = rows a (Suc i)" .
qed

lemma liSqrBasecase_rows:
  assumes "length (a :: 'l::len word list) = n" "1 \<le> k" "k + 1 \<le> n"
    and "length r = n + 1" "val r = rows a 1"
  shows "length (foldl (liSqrBasecase_row a n) r [1..<k]) = n + k \<and>
    val (foldl (liSqrBasecase_row a n) r [1..<k]) = rows a k"
  using assms(2,3)
proof (induction k rule: nat_induct_at_least)
  case base
  then show ?case using assms by simp
next
  case (Suc k)
  then show ?case using liSqrBasecase_row_val [of a n k] assms(1) by simp
qed

lemma liSqrBasecase_val:
  assumes "n \<le> length (a :: 'l::len word list)" "1 \<le> n"
  shows "mul_spec (liSqrBasecase a n) a n a n"
proof -
  let ?W = "\<lambda>n. 2 ^ (LENGTH('l) * n) :: nat"
  have row_take: "liSqrBasecase_row a n r i = liSqrBasecase_row (take n a) n r i" if "i < n" for r i
    using that assms by (simp add: liSqrBasecase_row_def liAddMul1_def drop_take)
  define b where "b = take n a"
  have b: "length b = n" using assms by (simp add: b_def)
  obtain r where r: "liSqrBasecase a n = liSqrBasecase_diag (r @ [0]) b 0 0"
    and lenr: "length r + 1 = 2 * n" and valr: "val r = crosses b"
  proof (cases "n = 1")
    case True
    then obtain x where "b = [x]" using b by (cases b) auto
    with True that [of "[0]"] show ?thesis by (simp add: liSqrBasecase_def b_def)
  next
    case False
    with assms have n: "2 \<le> n" by simp
    obtain m c where m: "liMul1 (drop 1 a) (n - 1) (a ! 0) = (m, c)" by fastforce
    have v: "length m = n - 1" "val m + ?W (n - 1) * unat c = val (drop 1 b) * unat (b ! 0)"
      using liMul1_val [OF m] assms n by (simp_all add: b_def drop_take)
    let ?r0 = "0 # m @ [c]"
    have r0: "length ?r0 = n + 1" "val ?r0 = rows b 1"
      using v n by (simp_all add: rows_def val_append mult.commute)
    have fold: "foldl (liSqrBasecase_row a n) ?r0 [1..<n - 1] = foldl (liSqrBasecase_row b n) ?r0 [1..<n - 1]"
      by (intro foldl_cong) (auto simp: row_take b_def)
    have "length (foldl (liSqrBasecase_row b n) ?r0 [1..<n - 1]) = n + (n - 1)
      \<and> val (foldl (liSqrBasecase_row b n) ?r0 [1..<n - 1]) = rows b (n - 1)"
      using liSqrBasecase_rows [OF b _ _ r0, of "n - 1"] n by simp
    moreover have "rows b (n - 1) = crosses b"
    proof -
      have "drop (n - 1) b = [b ! (n - 1)]"
        using Cons_nth_drop_Suc [of "n - 1" b] b n by simp
      then show ?thesis using rows_crosses [of "n - 1" b] b by simp
    qed
    ultimately show ?thesis
      using that [of "foldl (liSqrBasecase_row a n) ?r0 [1..<n - 1]"] n fold m
      by (simp add: liSqrBasecase_def b_def)
  qed
  have len: "length (r @ [0]) = 2 * length b" using lenr b by simp
  obtain k where l: "length (liSqrBasecase a n) = 2 * n"
    and k: "val (liSqrBasecase a n) + ?W (2 * n) * k = 2 * val (r @ [0]) + squares b"
    using liSqrBasecase_diag_val [OF len, of 0 0] b by (auto simp: r)
  have "2 * val (r @ [0]) + squares b = val b * val b"
    using squares_crosses [of b] valr by (simp add: val_append)
  moreover have "val b * val b < ?W (2 * n)"
    using val_prod_lt [of n a n a] by (simp add: b_def mult_2)
  ultimately have "val (liSqrBasecase a n) = val b * val b" using k by (cases k) auto
  with l show ?thesis by (simp add: mul_spec_def b_def)
qed

subsection \<open>Every route computes the square\<close>

lemma liSqrScratch_karatsuba:
  assumes "2 \<le> liSqrKaratsubaLimbs kn" "liSqrKaratsubaLimbs kn \<le> n" "h = (n + 1) div 2"
  shows "3 * h + liSqrScratch kn h \<le> liSqrScratch kn n"
    "3 * h + liSqrScratch kn (n - h) \<le> liSqrScratch kn n"
    "5 * h + 1 \<le> liSqrScratch kn n"
  using assms by (simp_all add: liSqrScratch.simps [of kn n] Let_def)

lemma liSqrKaratsuba_combine:
  fixes a :: "'l::len word list"
  assumes h: "h = (n + 1) div 2" "2 \<le> n" "n \<le> length a"
    and d: "liAbsDiff a h (drop h a) (n - h) = (d, neg)"
    and zm: "mul_spec zm d h d h"
    and z0: "mul_spec z0 a h a h"
    and z2: "mul_spec z2 (drop h a) (n - h) (drop h a) (n - h)"
  shows "mul_spec (liKaratsuba_join (z0 @ z2)
      (liKaratsuba_middle (z0 @ z2) zm True h (2 * (n - h))) h (2 * n)) a n a n"
proof -
  have "h < n" using h by linarith
  then show ?thesis
    using liMulKaratsuba_combine [OF h(1) _ _ h(3,3) d d zm z0 z2] by (simp add: mult_2)
qed

lemma liSqr_routes:
  fixes a :: "'l::len word list"
  shows "2 \<le> liSqrKaratsubaLimbs kn \<Longrightarrow> 1 \<le> n \<Longrightarrow> n \<le> length a \<Longrightarrow> liSqrScratch kn n \<le> sc \<Longrightarrow>
      \<exists>r. liSqr kn a n sc = Some r \<and> mul_spec r a n a n"
    and "2 \<le> liSqrKaratsubaLimbs kn \<Longrightarrow> liSqrKaratsubaLimbs kn \<le> n \<Longrightarrow> n \<le> length a \<Longrightarrow>
      liSqrScratch kn n \<le> sc \<Longrightarrow>
      \<exists>r. liSqrKaratsuba kn a n sc = Some r \<and> mul_spec r a n a n"
proof (induction kn a n sc and kn a n sc rule: liSqr_liSqrKaratsuba.induct)
  case (1 kn a n sc)
  consider "n < liSqrBasecaseLimbs kn" | "\<not> n < liSqrBasecaseLimbs kn" "n < liSqrKaratsubaLimbs kn"
    | "\<not> n < liSqrBasecaseLimbs kn" "\<not> n < liSqrKaratsubaLimbs kn" by blast
  then show ?case
  proof cases
    case 1
    then show ?thesis
      using "1.prems" liMulBasecase_val [of n a n a] by (simp add: liSqr.simps mul_spec_def)
  next
    case 2
    then show ?thesis
      using "1.prems" liSqrBasecase_val [of n a] by (simp add: liSqr.simps)
  next
    case 3
    then show ?thesis using "1.IH" "1.prems" by (simp add: liSqr.simps)
  qed
next
  case (2 kn a n sc)
  define h where "h = (n + 1) div 2"
  have n: "2 \<le> n" using "2.prems" by linarith
  have h: "1 \<le> h" "h \<le> n" "1 \<le> n - h" using n by (auto simp: h_def)
  note S = liSqrScratch_karatsuba [OF "2.prems"(1,2) h_def]
  have sc: "\<not> sc < 5 * h + 1" "liSqrScratch kn h \<le> sc - 3 * h" "liSqrScratch kn (n - h) \<le> sc - 3 * h"
    using S "2.prems"(4) by linarith+
  obtain d neg where d: "liAbsDiff a h (drop h a) (n - h) = (d, neg)" by fastforce
  have "n - h \<le> h" unfolding h_def by linarith
  then have len: "length d = h" using liAbsDiff_val(1) [OF d] h "2.prems"(3) by simp
  have g: "\<not> (n < 2 \<or> sc < 5 * h + 1)" using n sc by simp
  obtain zm where zm: "liSqr kn d h (sc - 3 * h) = Some zm" "mul_spec zm d h d h"
    using "2.IH"(1) [OF h_def refl refl g d [symmetric] refl] "2.prems"(1) h len sc by auto
  obtain z0 where z0: "liSqr kn a h (sc - 3 * h) = Some z0" "mul_spec z0 a h a h"
    using "2.IH"(2) [OF h_def refl refl g d [symmetric] refl zm(1)] "2.prems"(1,3) h sc by auto
  obtain z2 where z2: "liSqr kn (drop h a) (n - h) (sc - 3 * h) = Some z2"
    "mul_spec z2 (drop h a) (n - h) (drop h a) (n - h)"
    using "2.IH"(3) [OF h_def refl refl g d [symmetric] refl zm(1) z0(1)] "2.prems"(1,3) h sc
      diff_le_mono [OF "2.prems"(3), of h] by auto
  show ?case
    using liSqrKaratsuba_combine [OF h_def n "2.prems"(3) d zm(2) z0(2) z2(2)] g
    unfolding liSqrKaratsuba.simps [of kn a n sc] Let_def h_def [symmetric] d
    by (simp add: zm z0 z2)
qed

lemma liSqr_correct:
  fixes a :: "'l::len word list"
  assumes "2 \<le> liSqrKaratsubaLimbs kn" "1 \<le> n" "n \<le> length a" "liSqrScratch kn n \<le> sc"
  obtains r where "liSqr kn a n sc = Some r" "length r = n + n"
    "val r = val (take n a) * val (take n a)"
  using liSqr_routes(1) [OF assms] by (auto simp: mul_spec_def)

text \<open>
  C28: \<open>liSqr\<close> computes the square of its operand on every route (schoolbook product, the basecase
  that adds each cross product once and doubles, Karatsuba squaring), within the scratch
  \<open>liSqrScratch\<close> answers.
\<close>
theorem liSqr_computes_square:
  fixes a :: "'l::len word list"
  assumes "2 \<le> liSqrKaratsubaLimbs kn" "1 \<le> n" "n \<le> length a" "liSqrScratch kn n \<le> sc"
  shows "\<exists>r. liSqr kn a n sc = Some r \<and> length r = n + n \<and> val r = val (take n a) * val (take n a)"
  by (rule liSqr_correct [OF assms]) blast

theorem liSqr_computes_square_witness:
  "\<exists>r. liSqr (knobs64\<lparr>liSqrBasecaseLimbs := 1, liSqrKaratsubaLimbs := 3\<rparr>) [7, 8, 9, -1, 1 :: 64 word] 5
        (liSqrScratch (knobs64\<lparr>liSqrBasecaseLimbs := 1, liSqrKaratsubaLimbs := 3\<rparr>) 5) = Some r \<and>
      length r = 5 + 5 \<and>
      val r = val (take 5 [7, 8, 9, -1, 1 :: 64 word]) * val (take 5 [7, 8, 9, -1, 1 :: 64 word])"
  by (rule liSqr_computes_square) simp_all

end
