(* ===== verification/DigitMul.thy ===== *)
theory DigitMul
  imports LimbSqr
begin

text \<open>
  The entry point of the product, \<open>liDigitMultiply\<close> of \<open>LargeIntegersKernels.c\<close>, over the plugin's
  32-bit digits: the conversion of digits to limbs and back, the scratch memory, the original
  32-bit loop, the one-limb stream and the dispatch between them.

  Digits are read through \<open>SQ_SWAP_4_BYTES_IF_BIGENDIAN\<close>, so a digit here is its value. The two
  builds of the file differ in the limb type and in the conversions; a build is a value of
  \<open>li_build\<close>, and what the callers rely on of its conversions is the locale \<open>digit_limbs\<close>.
\<close>

type_synonym digits = "32 word list"

subsection \<open>Digits to limbs and back\<close>

record (overloaded) 'l li_build =
  LI_DIGITS_PER_LIMB :: nat
  load :: "digits \<Rightarrow> nat \<Rightarrow> nat \<Rightarrow> 'l word list"
  store :: "nat \<Rightarrow> 'l word list \<Rightarrow> nat \<Rightarrow> nat \<Rightarrow> digits"

definition liLimbsFor :: "'l::len li_build \<Rightarrow> nat \<Rightarrow> nat" where
  "liLimbsFor bld digits = (digits + LI_DIGITS_PER_LIMB bld - 1) div LI_DIGITS_PER_LIMB bld"

text \<open>The loop of \<open>liLoad\<close> over pairs of digits, with the odd last digit after it.\<close>

definition pair :: "32 word \<Rightarrow> 32 word \<Rightarrow> 64 word" where
  "pair d0 d1 = ucast d0 OR push_bit 32 (ucast d1)"

fun liLoad_pairs :: "digits \<Rightarrow> 64 word list" where
  "liLoad_pairs (d0 # d1 # src) = pair d0 d1 # liLoad_pairs src"
| "liLoad_pairs [d] = [ucast d]"
| "liLoad_pairs [] = []"

definition liLoad64 :: "digits \<Rightarrow> nat \<Rightarrow> nat \<Rightarrow> 64 word list" where
  "liLoad64 src digits skip =
     (let n = skip + digits
      in if skip = 0 then liLoad_pairs (take n src)
         else (if n > 1 then push_bit 32 (ucast (src ! 0)) else 0) # liLoad_pairs (drop 1 (take digits src)))"

definition liLoad32 :: "digits \<Rightarrow> nat \<Rightarrow> nat \<Rightarrow> 32 word list" where
  "liLoad32 src digits skip = take digits src"

text \<open>The loop of \<open>liStore\<close>; the first argument counts the digits still to store.\<close>

fun liStore_pairs :: "nat \<Rightarrow> 64 word list \<Rightarrow> digits" where
  "liStore_pairs (Suc (Suc k)) (x # src) = ucast x # ucast (drop_bit 32 x) # liStore_pairs k src"
| "liStore_pairs (Suc 0) (x # src) = [ucast x]"
| "liStore_pairs k src = []"

definition liStore64 :: "nat \<Rightarrow> 64 word list \<Rightarrow> nat \<Rightarrow> nat \<Rightarrow> digits" where
  "liStore64 digits src srcLimbs skip =
     (let have0 = srcLimbs * 2 - skip;
          have1 = (if have0 > digits then digits else have0);
          d = (if skip = 0 then liStore_pairs have1 src
               else if have1 > 0 then ucast (drop_bit 32 (src ! 0)) # liStore_pairs (have1 - 1) (drop 1 src)
               else [])
      in d @ replicate (digits - have1) 0)"

definition liStore32 :: "nat \<Rightarrow> 32 word list \<Rightarrow> nat \<Rightarrow> nat \<Rightarrow> digits" where
  "liStore32 digits src srcLimbs skip =
     (let have0 = srcLimbs * 1 - skip;
          have1 = (if have0 > digits then digits else have0)
      in take have1 (drop skip src) @ replicate (digits - have1) 0)"

definition build64 :: "64 li_build" where
  "build64 = \<lparr>LI_DIGITS_PER_LIMB = 2, load = liLoad64, store = liStore64\<rparr>"

definition build32 :: "32 li_build" where
  "build32 = \<lparr>LI_DIGITS_PER_LIMB = 1, load = liLoad32, store = liStore32\<rparr>"

text \<open>
  What the kernels rely on: loading reads the digits as a number, \<open>skip\<close> digits higher, into the
  limbs they need; storing writes the low \<open>digits\<close> digits of a number, from digit \<open>skip\<close> on.
\<close>

locale digit_limbs =
  fixes bld :: "'l::len li_build"
  assumes limb_bits: "LENGTH('l) = 32 * LI_DIGITS_PER_LIMB bld"
    and length_load: "skip < LI_DIGITS_PER_LIMB bld \<Longrightarrow> n \<le> length src \<Longrightarrow>
      length (load bld src n skip) = liLimbsFor bld (skip + n)"
    and val_load: "skip < LI_DIGITS_PER_LIMB bld \<Longrightarrow> n \<le> length src \<Longrightarrow>
      val (load bld src n skip) = 2 ^ (32 * skip) * val (take n src)"
    and length_store: "skip < LI_DIGITS_PER_LIMB bld \<Longrightarrow> m \<le> length ls \<Longrightarrow>
      length (store bld n ls m skip) = n"
    and val_store: "skip < LI_DIGITS_PER_LIMB bld \<Longrightarrow> m \<le> length ls \<Longrightarrow>
      val (store bld n ls m skip) = val (take m ls) div 2 ^ (32 * skip) mod 2 ^ (32 * n)"
begin

lemma digits_pos: "0 < LI_DIGITS_PER_LIMB bld"
  using limb_bits len_gt_0 [where 'a = 'l] by (cases "LI_DIGITS_PER_LIMB bld") auto

lemma limbs_hold_digits: "32 * n \<le> LENGTH('l) * liLimbsFor bld n"
proof -
  let ?d = "LI_DIGITS_PER_LIMB bld"
  have "n \<le> ?d * ((n + ?d - 1) div ?d)"
    using digits_pos dividend_less_times_div [of ?d "n + ?d - 1"] by linarith
  then have "32 * n \<le> 32 * (?d * ((n + ?d - 1) div ?d))" by (rule mult_le_mono2)
  then show ?thesis by (simp add: liLimbsFor_def limb_bits mult.assoc)
qed

lemma liLimbsFor_pos: "0 < n \<Longrightarrow> 1 \<le> liLimbsFor bld n"
  using digits_pos by (simp add: liLimbsFor_def Suc_le_eq div_greater_zero_iff)

lemma liLimbsFor_mono: "m \<le> n \<Longrightarrow> liLimbsFor bld m \<le> liLimbsFor bld n"
  by (simp add: liLimbsFor_def div_le_mono)

lemma liLimbsFor_exact:
  assumes "LI_DIGITS_PER_LIMB bld dvd n"
  shows "LENGTH('l) * liLimbsFor bld n = 32 * n"
proof -
  obtain k where k: "n = LI_DIGITS_PER_LIMB bld * k" using assms by (auto simp: dvd_def)
  have "(n + LI_DIGITS_PER_LIMB bld - 1) div LI_DIGITS_PER_LIMB bld = k"
    using digits_pos by (intro div_nat_eqI) (simp_all add: k)
  then show ?thesis by (simp add: liLimbsFor_def limb_bits k)
qed

text \<open>Load, then store from the same position: the digits come back.\<close>

lemma store_load:
  assumes "skip < LI_DIGITS_PER_LIMB bld" "n \<le> length src"
  shows "store bld n (load bld src n skip) (liLimbsFor bld (skip + n)) skip = take n src"
proof (rule val_inj)
  note load = length_load [OF assms] val_load [OF assms]
  show "length (store bld n (load bld src n skip) (liLimbsFor bld (skip + n)) skip) = length (take n src)"
    using assms load by (simp add: length_store)
  have "val (take n src) < 2 ^ (32 * n)"
    using val_take_lt [of n src] by simp
  then show "val (store bld n (load bld src n skip) (liLimbsFor bld (skip + n)) skip) = val (take n src)"
    using assms load by (simp add: val_store)
qed

end

subsection \<open>Both builds satisfy the conversion laws\<close>

lemma unat_ucast_32_64: "unat (ucast (d :: 32 word) :: 64 word) = unat d"
  using unat_lt [of d] by (simp add: unsigned_ucast_eq take_bit_nat_eq_self)

lemma unat_push_32: "unat (push_bit 32 (ucast (d :: 32 word)) :: 64 word) = 2 ^ 32 * unat d"
proof -
  have "unat d < 2 ^ 32" using unat_lt [of d] by simp
  then have "2 ^ 32 * unat d < 2 ^ 32 * 2 ^ 32" by (intro mult_strict_left_mono) simp_all
  moreover have "unat (push_bit 32 (ucast d :: 64 word)) = take_bit 64 (2 ^ 32 * unat d)"
    by (subst unsigned_push_bit_eq) (simp only: unat_ucast_32_64 push_bit_eq_mult mult.commute, simp)
  ultimately show ?thesis by (simp add: take_bit_nat_eq_self)
qed

lemma unat_pair: "unat (pair d0 d1) = unat d0 + 2 ^ 32 * unat d1"
proof -
  have "(ucast d0 :: 64 word) AND push_bit 32 (ucast d1) = 0"
    by (rule bit_eqI) (auto simp: bit_and_iff bit_push_bit_iff bit_ucast_iff dest: bit_imp_le_length)
  then have "pair d0 d1 = ucast d0 + push_bit 32 (ucast d1)"
    using word_plus_and_or [of "ucast d0 :: 64 word" "push_bit 32 (ucast d1)"]
    by (simp add: pair_def)
  moreover have "unat (ucast d0 :: 64 word) + unat (push_bit 32 (ucast d1) :: 64 word) < 2 ^ 64"
    using unat_lt [of d0] unat_lt [of d1] by (simp only: unat_ucast_32_64 unat_push_32) simp
  ultimately show ?thesis
    by (simp add: unat_word_ariths unat_ucast_32_64 unat_push_32)
qed

lemma unat_low_32: "unat (ucast (x :: 64 word) :: 32 word) = unat x mod 2 ^ 32"
  by (simp add: unsigned_ucast_eq take_bit_eq_mod)

lemma unat_high_32: "unat (ucast (drop_bit 32 (x :: 64 word)) :: 32 word) = unat x div 2 ^ 32"
proof -
  have "unat x div 2 ^ 32 < 2 ^ 32" using unat_lt [of x] by (simp add: less_mult_imp_div_less)
  moreover have "unat (drop_bit 32 x) = unat x div 2 ^ 32"
    by (simp only: unat_drop_bit_eq) (simp only: drop_bit_eq_div)
  ultimately show ?thesis by (simp only: unat_low_32 mod_less)
qed

lemma unat_high_32': "unat (drop_bit 32 (x :: 64 word)) mod 2 ^ 32 = unat x div 2 ^ 32"
  using unat_high_32 [of x] by (simp only: unat_low_32)

lemma liLoad_pairs_length: "length (liLoad_pairs src) = (length src + 1) div 2"
  by (induction src rule: liLoad_pairs.induct) simp_all

lemma two_digits: "(a + B * b) + B * B * c = a + B * (b + B * (c::nat))"
  by (simp add: algebra_simps)

lemma two_64: "(2::nat) ^ 64 = 2 ^ 32 * 2 ^ 32"
  by simp

lemma val_64: "val (x # xs) = unat (x :: 64 word) + 2 ^ 64 * val xs"
  by simp

lemma val_32: "val (x # xs) = unat (x :: 32 word) + 2 ^ 32 * val xs"
  by simp

lemma liLoad_pairs_val: "val (liLoad_pairs src) = val src"
proof (induction src rule: liLoad_pairs.induct)
  case (1 d0 d1 src)
  then show ?case
    by (simp only: liLoad_pairs.simps val_64 val_32 unat_pair two_64 two_digits)
qed (simp_all add: unat_ucast_32_64)

lemma mod_two_digits: "x mod B + B * (x div B + B * y) = x + B * B * (y::nat)"
  by (metis mod_mult_div_eq two_digits)

lemma mod_mult_step:
  fixes x y :: nat
  assumes "x < B" "0 < C"
  shows "(x + B * y) mod (B * C) = x + B * (y mod C)"
proof -
  have "x + B * (y mod C) < B * C"
  proof -
    have "y mod C + 1 \<le> C" using \<open>0 < C\<close> by (simp add: Suc_leI)
    then have "B * (y mod C + 1) \<le> B * C" by (rule mult_le_mono2)
    with assms show ?thesis by (simp add: distrib_left)
  qed
  moreover have "x + B * y = (x + B * (y mod C)) + B * C * (y div C)"
  proof -
    have "B * y = B * (y mod C + C * (y div C))" by simp
    then show ?thesis by (simp only: distrib_left mult.assoc add.assoc)
  qed
  ultimately show ?thesis by (metis mod_less mod_mult_self2)
qed

lemma liStore_pairs_length: "length (liStore_pairs k src) = min k (2 * length src)"
  by (induction k src rule: liStore_pairs.induct) simp_all

lemma liStore_pairs_val: "val (liStore_pairs k src) = val src mod 2 ^ (32 * k)"
proof (induction k src rule: liStore_pairs.induct)
  case (1 k x src)
  have "unat x < 2 ^ 64" using unat_lt [of x] by simp
  then have "(unat x + 2 ^ 64 * val src) mod (2 ^ 64 * 2 ^ (32 * k))
      = unat x + 2 ^ 64 * (val src mod 2 ^ (32 * k))"
    by (rule mod_mult_step) simp
  moreover have "32 * Suc (Suc k) = 64 + 32 * k" by simp
  ultimately show ?case
    by (simp only: liStore_pairs.simps val_32 val_64 "1.IH" unat_low_32 unat_high_32' two_64
        mod_two_digits power_add)
next
  case (2 x src)
  have "(unat x + 2 ^ 64 * val src) mod 2 ^ 32 = unat x mod 2 ^ 32"
    by (simp only: two_64 mult.assoc mod_mult_self2)
  then show ?case by (simp add: unat_low_32)
qed auto

lemma liLoad64_laws:
  assumes "skip < 2" "n \<le> length src"
  shows "length (liLoad64 src n skip) = (skip + n + 1) div 2"
    and "val (liLoad64 src n skip) = 2 ^ (32 * skip) * val (take n src)"
proof -
  have skip: "skip = 0 \<or> skip = 1" using assms(1) by auto
  have one: "val (liLoad64 src n 1) = 2 ^ 32 * val (take n src) \<and> length (liLoad64 src n 1) = (n + 2) div 2"
  proof (cases n)
    case 0
    then show ?thesis by (simp add: liLoad64_def)
  next
    case (Suc k)
    then obtain d ds where src: "src = d # ds" using assms(2) by (cases src) auto
    have "val (liLoad64 src n 1) = 2 ^ 32 * unat d + 2 ^ 64 * val (take k ds)"
      by (simp only: liLoad64_def Let_def val_64 liLoad_pairs_val)
        (simp add: src Suc unat_push_32 liLoad_pairs_val del: push_bit_of_0)
    then have "val (liLoad64 src n 1) = 2 ^ 32 * val (take n src)"
      by (simp only: src Suc take_Suc_Cons val_32 two_64 distrib_left mult.assoc)
    moreover have "length (liLoad64 src n 1) = (n + 2) div 2"
      using assms(2) by (simp add: liLoad64_def liLoad_pairs_length Suc src)
    ultimately show ?thesis by blast
  qed
  from skip show "length (liLoad64 src n skip) = (skip + n + 1) div 2"
    using one assms(2) by (auto simp: liLoad64_def liLoad_pairs_length)
  from skip show "val (liLoad64 src n skip) = 2 ^ (32 * skip) * val (take n src)"
    using one by (auto simp: liLoad64_def liLoad_pairs_val)
qed

lemma liStore64_length:
  assumes "skip < 2" "m \<le> length ls"
  shows "length (liStore64 n ls m skip) = n"
  using assms by (cases "skip = 0") (auto simp: liStore64_def Let_def liStore_pairs_length)

lemma mod_small_exp: "(x::nat) < 2 ^ a \<Longrightarrow> a \<le> b \<Longrightarrow> x mod 2 ^ b = x"
  by (meson less_le_trans mod_less one_le_numeral power_increasing)

lemma liStore64_val:
  assumes "skip < 2" "m \<le> length ls"
  shows "val (liStore64 n ls m skip) = val (take m ls) div 2 ^ (32 * skip) mod 2 ^ (32 * n)"
proof -
  define k where "k = (if m * 2 - skip > n then n else m * 2 - skip)"
  have k: "k = min n (2 * m - skip)" by (auto simp: k_def mult.commute)
  have small: "val (take m ls) < 2 ^ (32 * (2 * m))"
    using val_take_lt [of m ls] by (simp add: mult.assoc)
  have pairs: "val (liStore_pairs j xs) = val (take i xs) mod 2 ^ (32 * j)"
    if "j \<le> 2 * i" for j i and xs :: "64 word list"
    using that by (simp add: liStore_pairs_val val_take mod_mod_cancel le_imp_power_dvd)
  show ?thesis
  proof (cases "skip = 0")
    case True
    have "val (liStore64 n ls m skip) = val (take m ls) mod 2 ^ (32 * k)"
      using True pairs [of k m ls] k
      by (auto simp: liStore64_def Let_def val_append_zeros k_def mult.commute)
    also have "\<dots> = val (take m ls) mod 2 ^ (32 * n)"
      using small k True by (cases "2 * m \<le> n") (simp_all add: mod_small_exp)
    finally show ?thesis using True by simp
  next
    case False
    then have skip: "skip = 1" using assms(1) by simp
    have unf: "liStore64 n ls m 1 =
        (if 0 < k then ucast (drop_bit 32 (ls ! 0)) # liStore_pairs (k - 1) (drop 1 ls) else [])
          @ replicate (n - k) 0"
      unfolding liStore64_def Let_def k_def skip by simp
    have "val (liStore64 n ls m 1) = val (take m ls) div 2 ^ 32 mod 2 ^ (32 * k)"
    proof (cases k)
      case 0
      then show ?thesis by (simp only: unf) simp
    next
      case (Suc j)
      then have m: "0 < m" "j \<le> 2 * (m - 1)" using k skip by auto
      then obtain x xs where ls: "ls = x # xs" using assms(2) by (cases ls) auto
      define y where "y = val (take (m - 1) xs)"
      have v: "val (take m ls) = unat x + 2 ^ 64 * y"
        using m by (cases m) (simp_all add: ls y_def)
      have "unat x div 2 ^ 32 < 2 ^ 32" using unat_lt [of x] by (simp add: less_mult_imp_div_less)
      then have "(unat x div 2 ^ 32 + 2 ^ 32 * y) mod (2 ^ 32 * 2 ^ (32 * j))
          = unat x div 2 ^ 32 + 2 ^ 32 * (y mod 2 ^ (32 * j))"
        by (rule mod_mult_step) simp
      moreover have "val (take m ls) div 2 ^ 32 = unat x div 2 ^ 32 + 2 ^ 32 * y"
        by (simp only: v two_64 mult.assoc) simp
      moreover have "val (liStore64 n ls m 1) = unat x div 2 ^ 32 + 2 ^ 32 * (y mod 2 ^ (32 * j))"
        using pairs [OF m(2), of xs]
        by (subst unf) (simp only: Suc val_append_zeros ls nth_Cons_0 drop_Suc_Cons One_nat_def drop_0 diff_Suc_Suc diff_zero
            zero_less_Suc if_True val_32 unat_high_32 y_def)
      ultimately show ?thesis by (simp only: Suc mult_Suc_right power_add)
    qed
    also have "\<dots> = val (take m ls) div 2 ^ 32 mod 2 ^ (32 * n)"
    proof -
      have "val (take m ls) div 2 ^ 32 < 2 ^ (32 * (2 * m - 1))"
      proof (cases m)
        case 0 then show ?thesis by simp
      next
        case (Suc i)
        then have "32 * (2 * m) = 32 * (2 * m - 1) + 32" by simp
        then have "(2::nat) ^ (32 * (2 * m)) = 2 ^ (32 * (2 * m - 1)) * 2 ^ 32"
          by (simp only: power_add)
        then show ?thesis using small by (simp only: less_mult_imp_div_less)
      qed
      then show ?thesis using k skip by (cases "2 * m - 1 \<le> n") (simp_all add: mod_small_exp)
    qed
    finally show ?thesis using skip by simp
  qed
qed

lemma liStore32_length: "m \<le> length ls \<Longrightarrow> length (liStore32 n ls m 0) = n"
  by (simp add: liStore32_def)

lemma liStore32_val:
  assumes "m \<le> length ls"
  shows "val (liStore32 n ls m 0) = val (take m ls) mod 2 ^ (32 * n)"
proof -
  have 1: "val (take n (take m ls)) = val (take m ls) mod 2 ^ (32 * n)"
    using val_take [of n "take m ls"] by simp
  show ?thesis
  proof (cases "n < m")
    case True
    then show ?thesis using 1 by (simp add: liStore32_def val_append_zeros)
  next
    case False
    then have "val (take m ls) < 2 ^ (32 * m)" "32 * m \<le> 32 * n"
      using val_take_lt [of m ls] by simp_all
    then show ?thesis using False by (simp add: liStore32_def val_append_zeros mod_small_exp)
  qed
qed

interpretation b64: digit_limbs build64
proof
  show "LENGTH(64) = 32 * LI_DIGITS_PER_LIMB build64" by (simp add: build64_def)
next
  fix skip n and src :: digits
  assume "skip < LI_DIGITS_PER_LIMB build64" "n \<le> length src"
  then show "length (load build64 src n skip) = liLimbsFor build64 (skip + n)"
    and "val (load build64 src n skip) = 2 ^ (32 * skip) * val (take n src)"
    using liLoad64_laws [of skip n src] by (simp_all add: build64_def liLimbsFor_def)
next
  fix skip m n and ls :: "64 word list"
  assume "skip < LI_DIGITS_PER_LIMB build64" "m \<le> length ls"
  then show "length (store build64 n ls m skip) = n"
    and "val (store build64 n ls m skip) = val (take m ls) div 2 ^ (32 * skip) mod 2 ^ (32 * n)"
    using liStore64_length [of skip m ls n] liStore64_val [of skip m ls n] by (simp_all add: build64_def)
qed

interpretation b32: digit_limbs build32
  by unfold_locales
    (auto simp: build32_def liLimbsFor_def liLoad32_def liStore32_val liStore32_length)

subsection \<open>Scratch memory\<close>

text \<open>
  \<open>malloc\<close> says whether a request of that many bytes succeeds; it is a parameter, so that the
  theorems hold whatever the allocator answers.
\<close>

record li_env =
  malloc :: "nat \<Rightarrow> bool"
  SIZE_MAX :: nat

definition LI_STACK_LIMBS :: "'l::len li_build \<Rightarrow> nat" where
  "LI_STACK_LIMBS bld = 4096 div LI_DIGITS_PER_LIMB bld div 4"

definition liScratch :: "'l::len li_build \<Rightarrow> li_env \<Rightarrow> nat \<Rightarrow> bool" where
  "liScratch bld env need =
     (if need \<le> LI_STACK_LIMBS bld then True
      else if need > SIZE_MAX env div (4 * LI_DIGITS_PER_LIMB bld) then False
      else malloc env (need * (4 * LI_DIGITS_PER_LIMB bld)))"

subsection \<open>The original 32-bit loop\<close>

text \<open>
  One row: the inner loop over the long operand, from result digit \<open>k\<close> on, and the carry written
  above it when the result reaches that far. \<open>None\<close> is a write past the result.
\<close>

fun liDigitMultiply32_row :: "digits \<Rightarrow> 32 word \<Rightarrow> 32 word \<Rightarrow> digits \<Rightarrow> digits option" where
  "liDigitMultiply32_row (d # long) digit carry (r # res) =
     (let ab = wide d * wide digit + wide carry + wide r
      in map_option ((#) (lo ab)) (liDigitMultiply32_row long digit (hi ab) res))"
| "liDigitMultiply32_row (d # long) digit carry [] = None"
| "liDigitMultiply32_row [] digit carry (r # res) = Some (carry # res)"
| "liDigitMultiply32_row [] digit carry [] = Some []"

fun liDigitMultiply32_rows :: "digits \<Rightarrow> nat \<Rightarrow> digits \<Rightarrow> digits \<Rightarrow> digits option" where
  "liDigitMultiply32_rows [] i long res = Some res"
| "liDigitMultiply32_rows (digit # short) i long res = do {
     res' \<leftarrow> (if digit \<noteq> 0
             then map_option ((@) (take i res)) (liDigitMultiply32_row long digit 0 (drop i res))
             else Some res);
     liDigitMultiply32_rows short (Suc i) long res'
   }"

definition liDigitMultiply32 :: "digits \<Rightarrow> digits \<Rightarrow> nat \<Rightarrow> digits option" where
  "liDigitMultiply32 short long resLen =
     (if length short = 1 \<and> short ! 0 = 0 then Some (replicate resLen 0)
      else if length long = 1 \<and> long ! 0 = 0 then Some (replicate resLen 0)
      else liDigitMultiply32_rows short 0 long (replicate resLen 0))"

subsection \<open>The product with one limb\<close>

fun liMulDigitsBy1_pairs :: "digits \<Rightarrow> 64 word \<Rightarrow> 64 word \<Rightarrow> digits \<times> 64 word" where
  "liMulDigitsBy1_pairs (d0 # d1 # a) m carry =
     (let x = pair d0 d1;
          t = wide x * wide m + wide carry;
          (r, c) = liMulDigitsBy1_pairs a m (hi t)
      in (ucast (lo t) # ucast (drop_bit 32 (lo t)) # r, c))"
| "liMulDigitsBy1_pairs [d] m carry =
     (let t = wide (ucast d) * wide m + wide carry in ([ucast (lo t)], ucast (drop_bit 32 t)))"
| "liMulDigitsBy1_pairs [] m carry = ([], carry)"

definition liMulDigitsBy1 :: "nat \<Rightarrow> digits \<Rightarrow> nat \<Rightarrow> 64 word \<Rightarrow> digits" where
  "liMulDigitsBy1 resLen pA aDigits m =
     (let n = (if aDigits < resLen then aDigits else resLen);
          (r, carry) = liMulDigitsBy1_pairs (take n pA) m 0
      in r @ take (resLen - n)
           (ucast carry # ucast (drop_bit 32 carry) # replicate (resLen - n - 2) 0))"

subsection \<open>The product over limbs and the dispatch\<close>

definition liMulDigits ::
  "'l::len li_build \<Rightarrow> li_knobs \<Rightarrow> li_env \<Rightarrow> digits \<Rightarrow> digits \<Rightarrow> nat \<Rightarrow> bool \<Rightarrow> digits option" where
  "liMulDigits bld kn env pA pB resLen square =
     (let an = liLimbsFor bld (length pA);
          bn = liLimbsFor bld (length pB);
          need = (if square then an + (an + an) + liSqrScratch kn an
                  else an + bn + (an + bn) + liMulScratch kn an bn)
      in if \<not> liScratch bld env need then liDigitMultiply32 pB pA resLen
         else let a = load bld pA (length pA) 0
              in if square then do {
                   r \<leftarrow> liSqr kn a an (need - (an + (an + an)));
                   Some (store bld resLen r (an + bn) 0)
                 } else do {
                   r \<leftarrow> liMul kn a an (load bld pB (length pB) 0) bn (need - (an + bn + (an + bn)));
                   Some (store bld resLen r (an + bn) 0)
                 })"

text \<open>
  Operands at one place have equal digits, so the test \<open>pA == pB || (pA[0] == pB[0] && memcmp ...)\<close>
  is equality of the digits.
\<close>

definition liDigitMultiply_square :: "'l::len li_build \<Rightarrow> li_knobs \<Rightarrow> digits \<Rightarrow> digits \<Rightarrow> bool" where
  "liDigitMultiply_square bld kn pA pB =
     (length pA = length pB \<and> liLimbsFor bld (length pA) \<ge> liSqrBasecaseLimbs kn \<and> pA = pB)"

definition liDigitMultiply_order :: "digits \<Rightarrow> digits \<Rightarrow> digits \<times> digits" where
  "liDigitMultiply_order short long =
     (if length short \<le> length long then (long, short) else (short, long))"

definition liDigitMultiply64 :: "li_knobs \<Rightarrow> li_env \<Rightarrow> digits \<Rightarrow> digits \<Rightarrow> nat \<Rightarrow> digits option" where
  "liDigitMultiply64 kn env short long resLen =
     (let (pA, pB) = liDigitMultiply_order short long
      in if length pB \<le> 2 then
           Some (liMulDigitsBy1 resLen pA (length pA)
             (if length pB = 0 then 0 else if length pB = 1 then ucast (pB ! 0) else pair (pB ! 0) (pB ! 1)))
         else if length pA * length pB \<le> liMulLoopDigitProduct kn then liDigitMultiply32 short long resLen
         else liMulDigits build64 kn env pA pB resLen (liDigitMultiply_square build64 kn pA pB))"

definition liDigitMultiply32Limbs :: "li_knobs \<Rightarrow> li_env \<Rightarrow> digits \<Rightarrow> digits \<Rightarrow> nat \<Rightarrow> digits option" where
  "liDigitMultiply32Limbs kn env short long resLen =
     (let (pA, pB) = liDigitMultiply_order short long;
          square = liDigitMultiply_square build32 kn pA pB
      in if \<not> square \<and> length pB < liKaratsubaLimbs kn then liDigitMultiply32 short long resLen
         else liMulDigits build32 kn env pA pB resLen square)"

subsection \<open>What they compute\<close>

lemma liDigitMultiply32_row_val:
  assumes "length long \<le> length res" "val (drop (length long) res) = 0"
  shows "\<exists>r. liDigitMultiply32_row long digit carry res = Some r \<and> length r = length res \<and>
    val r = (val res + unat digit * val long + unat carry) mod 2 ^ (32 * length res)"
  using assms
proof (induction long digit carry res rule: liDigitMultiply32_row.induct)
  case (1 d long digit carry r res)
  define ab where "ab = wide d * wide digit + wide carry + wide r"
  have ab: "unat (lo ab) + 2 ^ 32 * unat (hi ab) = unat d * unat digit + unat carry + unat r"
    using unat_lo_hi [of ab] by (simp only: ab_def unat_fma2 len_num0 len_bit0 len_num1) (simp add: unat_fma2)
  obtain r' where r': "liDigitMultiply32_row long digit (hi ab) res = Some r'" "length r' = length res"
    "val r' = (val res + unat digit * val long + unat (hi ab)) mod 2 ^ (32 * length res)"
    using "1.IH" [OF ab_def] "1.prems" by auto
  have "unat (lo ab) < 2 ^ 32" using unat_lt [of "lo ab"] by simp
  then have "unat (lo ab) + 2 ^ 32 * val r' =
      (unat (lo ab) + 2 ^ 32 * (val res + unat digit * val long + unat (hi ab)))
        mod (2 ^ 32 * 2 ^ (32 * length res))"
    by (subst r'(3)) (simp only: mod_mult_step zero_less_power zero_less_numeral)
  also have "unat (lo ab) + 2 ^ 32 * (val res + unat digit * val long + unat (hi ab))
      = unat r + 2 ^ 32 * val res + unat digit * (unat d + 2 ^ 32 * val long) + unat carry"
    using ab by (simp add: algebra_simps)
  finally show ?case
    using r' by (simp add: power_add flip: ab_def)
next
  case (3 digit carry r res)
  have "(2::nat) ^ 32 \<le> 2 ^ (32 * Suc (length res))" by (rule power_increasing) simp_all
  then have "unat carry < 2 ^ (32 * Suc (length res))" using unat_lt [of carry] by simp
  moreover have "val res = 0" "unat r = 0" using "3.prems" by auto
  ultimately show ?case by simp
qed simp_all

lemma liDigitMultiply32_step:
  fixes res :: digits
  assumes "i + length long \<le> length res" "val res < 2 ^ (32 * (i + length long))"
  shows "\<exists>r. map_option ((@) (take i res)) (liDigitMultiply32_row long digit 0 (drop i res)) = Some r
    \<and> length r = length res
    \<and> val r = (val res + 2 ^ (32 * i) * (unat digit * val long)) mod 2 ^ (32 * length res)"
proof -
  have i: "i \<le> length res" using assms(1) by simp
  have "val (drop (i + length long) res) = 0"
    using assms by (subst val_drop) simp_all
  then have "val (drop (length long) (drop i res)) = 0" by (simp add: add.commute)
  moreover have "length long \<le> length (drop i res)" using assms(1) by simp
  ultimately obtain r where r: "liDigitMultiply32_row long digit 0 (drop i res) = Some r"
    "length r = length (drop i res)"
    "val r = (val (drop i res) + unat digit * val long) mod 2 ^ (32 * (length res - i))"
    using liDigitMultiply32_row_val [of long "drop i res" digit 0] by (auto simp only: unsigned_0 add_0_right length_drop)
  have "val (take i res) < 2 ^ (32 * i)" using val_take_lt [of i res] by simp
  then have "val (take i res) + 2 ^ (32 * i) * val r =
      (val (take i res) + 2 ^ (32 * i) * (val (drop i res) + unat digit * val long))
        mod (2 ^ (32 * i) * 2 ^ (32 * (length res - i)))"
    by (subst r(3)) (simp only: mod_mult_step zero_less_power zero_less_numeral)
  also have "(2::nat) ^ (32 * i) * 2 ^ (32 * (length res - i)) = 2 ^ (32 * length res)"
    using i by (simp flip: power_add)
  also have "val (take i res) + 2 ^ (32 * i) * (val (drop i res) + unat digit * val long)
      = val res + 2 ^ (32 * i) * (unat digit * val long)"
    using val_take_drop [OF i] by (simp add: distrib_left)
  finally have "val (take i res @ r) = (val res + 2 ^ (32 * i) * (unat digit * val long)) mod 2 ^ (32 * length res)"
    using i by (simp add: val_append)
  with r i show ?thesis by simp
qed

lemma row_bound:
  fixes B :: nat
  assumes "v < B ^ (i + L)" "d < B" "w < B ^ L"
  shows "v + B ^ i * (d * w) < B ^ (Suc i + L)"
proof -
  have "d * w \<le> (B - 1) * B ^ L" using assms by (intro mult_le_mono) auto
  then have "B ^ i * (d * w) \<le> B ^ i * ((B - 1) * B ^ L)" by (rule mult_le_mono2)
  also have "B ^ i * ((B - 1) * B ^ L) + B ^ (i + L) = B ^ (Suc i + L)"
    using assms(2) by (cases B) (simp_all add: power_add algebra_simps)
  finally show ?thesis using assms(1) by linarith
qed

lemma liDigitMultiply32_rows_val:
  assumes "i + length short + length long \<le> Suc (length res)"
    and "val res < 2 ^ (32 * (i + length long))"
  shows "\<exists>r. liDigitMultiply32_rows short i long res = Some r \<and> length r = length res \<and>
    val r = (val res + 2 ^ (32 * i) * val short * val long) mod 2 ^ (32 * length res)"
  using assms
proof (induction short i long res rule: liDigitMultiply32_rows.induct)
  case (1 i long res)
  then show ?case using val_lt [of res] by simp
next
  case (2 digit short i long res)
  have L: "i + length long \<le> length res" using "2.prems"(1) by simp
  let ?M = "2 ^ (32 * length res) :: nat"
  define w where "w = val res + 2 ^ (32 * i) * (unat digit * val long)"
  have w: "w < 2 ^ (32 * (Suc i + length long))"
    unfolding w_def power_mult
    by (rule row_bound)
      (use "2.prems"(2) unat_lt [of digit] val_lt [of long] in \<open>simp_all only: power_mult len_num0 len_bit0 len_num1 mult_numeral_1 numeral_times_numeral, simp_all\<close>)
  obtain res' where res': "(if digit \<noteq> 0
      then map_option ((@) (take i res)) (liDigitMultiply32_row long digit 0 (drop i res))
      else Some res) = Some res'" "length res' = length res" "val res' = w mod ?M"
  proof (cases "digit = 0")
    case True
    then show ?thesis using that [of res] val_lt [of res] by (simp add: w_def)
  next
    case False
    then show ?thesis using liDigitMultiply32_step [OF L "2.prems"(2), of digit] that by (auto simp: w_def)
  qed
  have "val res' < 2 ^ (32 * (Suc i + length long))"
    unfolding res'(3) using w by (meson le_less_trans mod_less_eq_dividend)
  then obtain r where r: "liDigitMultiply32_rows short (Suc i) long res' = Some r" "length r = length res"
    "val r = (val res' + 2 ^ (32 * Suc i) * val short * val long) mod ?M"
    using "2.IH" [of res'] "2.prems"(1) res' by auto
  have "val r = (w + 2 ^ (32 * Suc i) * val short * val long) mod ?M"
    unfolding r(3) res'(3) by (rule mod_add_left_eq)
  also have "w + 2 ^ (32 * Suc i) * val short * val long
      = val res + 2 ^ (32 * i) * val (digit # short) * val long"
    unfolding w_def val_32 mult_Suc_right power_add by (simp only: distrib_left distrib_right ac_simps)
  finally show ?case using r res'(1) by simp
qed

lemma liDigitMultiply32_val:
  assumes "length short + length long \<le> Suc resLen"
  shows "\<exists>r. liDigitMultiply32 short long resLen = Some r \<and> length r = resLen \<and>
    val r = val short * val long mod 2 ^ (32 * resLen)"
proof -
  have one: "val xs = 0" if "length xs = 1" "xs ! 0 = 0" for xs :: digits
    using that by (cases xs) auto
  show ?thesis
    using liDigitMultiply32_rows_val [of 0 short long "replicate resLen 0"] assms
    by (auto simp: liDigitMultiply32_def one)
qed

lemma liMulDigitsBy1_pairs_val:
  "liMulDigitsBy1_pairs a m carry = (r, c) \<Longrightarrow> length r = length a \<and>
    val r + 2 ^ (32 * length a) * unat c = val a * unat m + unat carry"
proof (induction a m carry arbitrary: r c rule: liMulDigitsBy1_pairs.induct)
  case (1 d0 d1 a m carry)
  define x where "x = pair d0 d1"
  define t where "t = wide x * wide m + wide carry"
  have t: "unat (lo t) + 2 ^ 64 * unat (hi t) = unat x * unat m + unat carry"
    using unat_lo_hi [of t] by (simp add: t_def unat_fma)
  obtain r' where r': "liMulDigitsBy1_pairs a m (hi t) = (r', c)"
    "r = ucast (lo t) # ucast (drop_bit 32 (lo t)) # r'"
    using "1.prems" by (auto simp: Let_def x_def t_def split: prod.splits)
  have IH: "length r' = length a" "val r' + 2 ^ (32 * length a) * unat c = val a * unat m + unat (hi t)"
    using "1.IH" [OF x_def t_def r'(1)] by auto
  have "val r = unat (lo t) + 2 ^ 64 * val r'"
    unfolding r'(2) by (simp only: val_32 unat_low_32 unat_high_32' mod_two_digits two_64)
  moreover have "val (d0 # d1 # a) = unat x + 2 ^ 64 * val a"
    by (simp only: val_32 x_def unat_pair two_64 two_digits)
  moreover have "(2::nat) ^ (32 * length (d0 # d1 # a)) = 2 ^ 64 * 2 ^ (32 * length a)"
    by (simp add: power_add)
  ultimately have "val r + 2 ^ (32 * length (d0 # d1 # a)) * unat c
      = unat (lo t) + 2 ^ 64 * (val r' + 2 ^ (32 * length a) * unat c)"
    by (simp only: distrib_left mult.assoc add.assoc)
  also have "\<dots> = (unat (lo t) + 2 ^ 64 * unat (hi t)) + 2 ^ 64 * (val a * unat m)"
    unfolding IH(2) by (simp only: distrib_left distrib_right ac_simps)
  also have "\<dots> = val (d0 # d1 # a) * unat m + unat carry"
    unfolding t \<open>val (d0 # d1 # a) = _\<close> by (simp only: distrib_left distrib_right ac_simps)
  finally show ?case using IH(1) r'(2) by simp
next
  case (2 d m carry)
  define t where "t = wide (ucast d) * wide m + wide carry"
  have t: "unat t = unat d * unat m + unat carry"
    by (simp add: t_def unat_fma unat_ucast_32_64)
  have "unat d * unat m \<le> (2 ^ 32 - 1) * (2 ^ 64 - 1)"
    using unat_lt [of d] unat_lt [of m] by (intro mult_le_mono) simp_all
  then have "unat t < 2 ^ 64 * 2 ^ 32" using t unat_lt [of carry] by simp
  then have small: "unat t div 2 ^ 32 < 2 ^ 64" by (rule less_mult_imp_div_less)
  have c: "c = ucast (drop_bit 32 t)" and r: "r = [ucast (lo t)]"
    using "2.prems" by (auto simp: t_def Let_def)
  have "unat (drop_bit 32 t) = unat t div 2 ^ 32"
    by (simp only: unat_drop_bit_eq) (simp only: drop_bit_eq_div)
  then have "unat c = unat t div 2 ^ 32"
    unfolding c using small
    by (simp only: unsigned_ucast_eq len_num0 len_bit0 len_num1) (simp add: take_bit_nat_eq_self)
  moreover have "unat (ucast (lo t) :: 32 word) = unat t mod 2 ^ 32"
    by (simp only: unat_low_32 unat_lo) (simp add: mod_mod_cancel le_imp_power_dvd)
  ultimately have "val r + 2 ^ 32 * unat c = unat t"
    by (simp add: r)
  then show ?case by (simp add: r t)
qed simp_all

lemma liMulDigitsBy1_val:
  assumes "aDigits \<le> length pA"
  shows "length (liMulDigitsBy1 resLen pA aDigits m) = resLen"
    and "val (liMulDigitsBy1 resLen pA aDigits m) = val (take aDigits pA) * unat m mod 2 ^ (32 * resLen)"
proof -
  define n where "n = (if aDigits < resLen then aDigits else resLen)"
  obtain r c where rc: "liMulDigitsBy1_pairs (take n pA) m 0 = (r, c)" by fastforce
  have r: "length r = n" "val r + 2 ^ (32 * n) * unat c = val (take n pA) * unat m"
    using liMulDigitsBy1_pairs_val [OF rc] assms by (auto simp: n_def)
  define tl where "tl = ucast c # ucast (drop_bit 32 c) # replicate (resLen - n - 2) (0 :: 32 word)"
  have res: "liMulDigitsBy1 resLen pA aDigits m = r @ take (resLen - n) tl"
    using rc by (simp add: liMulDigitsBy1_def n_def tl_def)
  have n: "n \<le> resLen" by (simp add: n_def)
  then show "length (liMulDigitsBy1 resLen pA aDigits m) = resLen"
    using r(1) by (simp add: res tl_def)
  have "val tl = unat c"
    unfolding tl_def val_32 unat_low_32 unat_high_32'
    by (simp only: mod_two_digits val_replicate_0 mult_0_right add_0_right mod_mult_div_eq)
  then have "val (take (resLen - n) tl) = unat c mod 2 ^ (32 * (resLen - n))"
    by (simp add: val_take)
  then have "val (liMulDigitsBy1 resLen pA aDigits m)
      = val r + 2 ^ (32 * n) * (unat c mod 2 ^ (32 * (resLen - n)))"
    using r(1) by (simp add: res val_append)
  also have "\<dots> = (val r + 2 ^ (32 * n) * unat c) mod (2 ^ (32 * n) * 2 ^ (32 * (resLen - n)))"
    using val_lt [of r] r(1) by (intro mod_mult_step [symmetric]) simp_all
  also have "(2::nat) ^ (32 * n) * 2 ^ (32 * (resLen - n)) = 2 ^ (32 * resLen)"
    using n by (simp flip: power_add)
  also have "(val r + 2 ^ (32 * n) * unat c) mod 2 ^ (32 * resLen)
      = val (take aDigits pA) * unat m mod 2 ^ (32 * resLen)"
  proof (cases "aDigits < resLen")
    case True
    then show ?thesis using r(2) by (simp add: n_def)
  next
    case False
    then have "val (take n pA) = val (take aDigits pA) mod 2 ^ (32 * resLen)"
      using val_take [of resLen "take aDigits pA"] by (simp add: n_def min_def split: if_splits)
    then show ?thesis using r(2) by (simp only: mod_mult_left_eq)
  qed
  finally show "val (liMulDigitsBy1 resLen pA aDigits m)
      = val (take aDigits pA) * unat m mod 2 ^ (32 * resLen)" .
qed

definition product_digits :: "digits \<Rightarrow> digits \<Rightarrow> nat \<Rightarrow> digits option \<Rightarrow> bool" where
  "product_digits a b resLen out \<longleftrightarrow>
     (\<exists>r. out = Some r \<and> length r = resLen \<and> val r = val a * val b mod 2 ^ (32 * resLen))"

context digit_limbs
begin

text \<open>The product over limbs is the product of the digits, whether or not the scratch is there.\<close>

lemma liMulDigits_val:
  assumes kn: "knobs_ok kn" and len: "1 \<le> length pB" "length pB \<le> length pA"
    and res: "length pA + length pB \<le> Suc resLen" and sq: "square \<Longrightarrow> pA = pB"
  shows "product_digits pA pB resLen (liMulDigits bld kn env pA pB resLen square)"
proof -
  let ?an = "liLimbsFor bld (length pA)" and ?bn = "liLimbsFor bld (length pB)"
  let ?a = "load bld pA (length pA) 0" and ?b = "load bld pB (length pB) 0"
  have a: "length ?a = ?an" "val ?a = val pA" and b: "length ?b = ?bn" "val ?b = val pB"
    using length_load [OF digits_pos, of "length pA" pA] val_load [OF digits_pos, of "length pA" pA]
      length_load [OF digits_pos, of "length pB" pB] val_load [OF digits_pos, of "length pB" pB]
    by simp_all
  have n: "1 \<le> ?bn" "?bn \<le> ?an" using len liLimbsFor_pos [of "length pB"] liLimbsFor_mono
    by (simp_all del: length_greater_0_conv)
  have k: "2 \<le> liKaratsubaLimbs kn" "2 \<le> liSqrKaratsubaLimbs kn" using kn by (simp_all add: knobs_ok_def)
  have stored: "product_digits pA pB resLen (Some (store bld resLen r (?an + ?bn) 0))"
    if "length r = ?an + ?bn" "val r = val pA * val pB" for r
    using that length_store [OF digits_pos, of "?an + ?bn" r] val_store [OF digits_pos, of "?an + ?bn" r]
    by (simp add: product_digits_def)
  consider "\<not> liScratch bld env (if square then ?an + (?an + ?an) + liSqrScratch kn ?an
                  else ?an + ?bn + (?an + ?bn) + liMulScratch kn ?an ?bn)"
    | "liScratch bld env (?an + (?an + ?an) + liSqrScratch kn ?an)" "square"
    | "liScratch bld env (?an + ?bn + (?an + ?bn) + liMulScratch kn ?an ?bn)" "\<not> square"
    by (cases square) auto
  then show ?thesis
  proof cases
    case 1
    then show ?thesis
      using liDigitMultiply32_val [of pB pA resLen] res
      by (simp add: liMulDigits_def product_digits_def Let_def ac_simps)
  next
    case 2
    obtain r where "liSqr kn ?a ?an (liSqrScratch kn ?an) = Some r" "length r = ?an + ?an"
      "val r = val (take ?an ?a) * val (take ?an ?a)"
      by (rule liSqr_correct [OF k(2), of ?an ?a "liSqrScratch kn ?an"]) (use n a in simp_all)
    with 2 show ?thesis using sq a stored [of r]
      by (simp add: liMulDigits_def Let_def)
  next
    case 3
    obtain r where "liMul kn ?a ?an ?b ?bn (liMulScratch kn ?an ?bn) = Some r" "length r = ?an + ?bn"
      "val r = val (take ?an ?a) * val (take ?bn ?b)"
      by (rule liMul_correct [OF k(1), of ?bn ?an ?a ?b "liMulScratch kn ?an ?bn"]) (use n a b in simp_all)
    with 3 show ?thesis using a b stored [of r]
      by (simp add: liMulDigits_def Let_def)
  qed
qed

end

lemma product_digits_commute: "product_digits a b n out \<longleftrightarrow> product_digits b a n out"
  by (simp add: product_digits_def mult.commute)

lemma product_digits_order:
  "liDigitMultiply_order short long = (pA, pB) \<Longrightarrow> product_digits pA pB n out \<Longrightarrow> product_digits short long n out"
  by (auto simp: liDigitMultiply_order_def product_digits_commute split: if_splits)

lemma order_lengths:
  "liDigitMultiply_order short long = (pA, pB) \<Longrightarrow>
   length pB \<le> length pA \<and> length pA + length pB = length short + length long"
  by (auto simp: liDigitMultiply_order_def split: if_splits)

lemma product_digits_loop:
  "length short + length long \<le> Suc resLen \<Longrightarrow>
   product_digits short long resLen (liDigitMultiply32 short long resLen)"
  using liDigitMultiply32_val [of short long resLen] by (simp add: product_digits_def)

lemma short_operand:
  "length pB \<le> 2 \<Longrightarrow>
   unat (if length pB = 0 then 0 else if length pB = 1 then ucast (pB ! 0) else pair (pB ! 0) (pB ! 1)) = val pB"
  by (cases pB; cases "tl pB") (auto simp: unat_pair unat_ucast_32_64)

lemma liDigitMultiply64_product:
  assumes kn: "knobs_ok kn" and len: "length short + length long \<le> Suc resLen"
  shows "product_digits short long resLen (liDigitMultiply64 kn env short long resLen)"
proof -
  obtain pA pB where o: "liDigitMultiply_order short long = (pA, pB)" by fastforce
  note len' = order_lengths [OF o]
  consider "length pB \<le> 2"
    | "\<not> length pB \<le> 2" "length pA * length pB \<le> liMulLoopDigitProduct kn"
    | "\<not> length pB \<le> 2" "\<not> length pA * length pB \<le> liMulLoopDigitProduct kn" by blast
  then show ?thesis
  proof cases
    case 1
    then show ?thesis
      using short_operand [OF 1] liMulDigitsBy1_val [of "length pA" pA resLen]
      by (intro product_digits_order [OF o]) (simp add: liDigitMultiply64_def o product_digits_def)
  next
    case 2
    then show ?thesis using product_digits_loop [OF len] by (simp add: liDigitMultiply64_def o)
  next
    case 3
    have "product_digits pA pB resLen
        (liMulDigits build64 kn env pA pB resLen (liDigitMultiply_square build64 kn pA pB))"
      using kn len len' 3 by (intro b64.liMulDigits_val) (auto simp: liDigitMultiply_square_def)
    then show ?thesis using 3 product_digits_order [OF o] by (simp add: liDigitMultiply64_def o)
  qed
qed

lemma liDigitMultiply32Limbs_product:
  assumes kn: "knobs_ok kn" and len: "length short + length long \<le> Suc resLen"
  shows "product_digits short long resLen (liDigitMultiply32Limbs kn env short long resLen)"
proof -
  obtain pA pB where o: "liDigitMultiply_order short long = (pA, pB)" by fastforce
  note len' = order_lengths [OF o]
  let ?sq = "liDigitMultiply_square build32 kn pA pB"
  show ?thesis
  proof (cases "\<not> ?sq \<and> length pB < liKaratsubaLimbs kn")
    case True
    then show ?thesis using product_digits_loop [OF len] by (simp add: liDigitMultiply32Limbs_def o)
  next
    case False
    have "1 \<le> length pB"
    proof (cases "?sq")
      case True
      then have "1 \<le> liLimbsFor build32 (length pB)" using kn
        by (auto simp: liDigitMultiply_square_def knobs_ok_def)
      then show ?thesis by (simp add: liLimbsFor_def build32_def)
    next
      case False
      with \<open>\<not> (\<not> ?sq \<and> length pB < liKaratsubaLimbs kn)\<close> show ?thesis using kn
        by (simp add: knobs_ok_def)
    qed
    then have "product_digits pA pB resLen (liMulDigits build32 kn env pA pB resLen ?sq)"
      using kn len len' by (intro b32.liMulDigits_val) (auto simp: liDigitMultiply_square_def)
    then show ?thesis using False product_digits_order [OF o]
      by (auto simp: liDigitMultiply32Limbs_def o Let_def)
  qed
qed

subsection \<open>The entry point\<close>

lemma liDigitMultiply_loop_equal:
  assumes "product_digits short long resLen out" "product_digits short long resLen out'"
  shows "out = out'"
  using assms unfolding product_digits_def by (auto intro: val_inj)

text \<open>
  C5: \<open>liDigitMultiply\<close> of the 64-bit build answers the low \<open>resLen\<close> digits of the product of its operands when
  the result is at most one digit shorter than the operands together (\<open>length short + length long \<le> Suc resLen\<close>, as the
  primitive calls it), for any thresholds the \<open>#error\<close> lines admit and whatever the allocator
  answers: no route (the one-limb stream, the 32-bit loop, squaring, Karatsuba, the fallback without scratch)
  writes past the result or gives another value. For a shorter result that is not so, the lemma
  \<open>liDigitMultiply32_short_result\<close>.
\<close>
theorem liDigitMultiply64_correct:
  assumes "knobs_ok kn" "length short + length long \<le> Suc resLen"
  shows "\<exists>r. liDigitMultiply64 kn env short long resLen = Some r \<and> length r = resLen \<and>
    val r = val short * val long mod 2 ^ (32 * resLen)"
  using liDigitMultiply64_product [OF assms] by (simp add: product_digits_def)

theorem liDigitMultiply64_correct_witness:
  "\<exists>r. liDigitMultiply64 knobs64 \<lparr>malloc = (\<lambda>n. False), SIZE_MAX = 2 ^ 64 - 1\<rparr>
        [1, 2, 3, 4, 5, 6] [7, 8, 9, 10, 11] 11 = Some r \<and> length r = 11 \<and>
      val r = val [1, 2, 3, 4, 5, 6 :: 32 word] * val [7, 8, 9, 10, 11 :: 32 word] mod 2 ^ (32 * 11)"
  by (rule liDigitMultiply64_correct) (simp_all add: knobs_ok_def knobs64_def)

text \<open>The original loop bounds its carries by \<open>resLen\<close> only, not its products: it writes past a result that is two digits short.\<close>

lemma liDigitMultiply32_short_result:
  "liDigitMultiply32 [1, 2, 3] [4, 5, 6] 4 = None"
  "liDigitMultiply64 knobs64 env [1, 2, 3] [4, 5, 6] 4 = None"
  by code_simp+

text \<open>
  The two builds and the loop they replaced are the same function on the digits: on every shape the
  result has room for, the 64-bit build, the 32-bit build (each with its own thresholds and its own
  allocator) and \<open>liDigitMultiply32\<close> answer the same digits.
\<close>
theorem liDigitMultiply_builds_agree:
  assumes "knobs_ok kn" "knobs_ok kn'" "length short + length long \<le> Suc resLen"
  shows "liDigitMultiply64 kn env short long resLen = liDigitMultiply32 short long resLen \<and>
    liDigitMultiply32Limbs kn' env' short long resLen = liDigitMultiply32 short long resLen"
  using liDigitMultiply_loop_equal [OF _ product_digits_loop [OF assms(3)]]
    liDigitMultiply64_product [OF assms(1,3)] liDigitMultiply32Limbs_product [OF assms(2,3)]
  by blast

theorem liDigitMultiply_builds_agree_witness:
  "liDigitMultiply64 knobs64 \<lparr>malloc = (\<lambda>n. n < 100000), SIZE_MAX = 2 ^ 64 - 1\<rparr> [5, 6, 7, 8, 9, 1] [5, 6, 7, 8, 9, 1] 12 =
     liDigitMultiply32 [5, 6, 7, 8, 9, 1] [5, 6, 7, 8, 9, 1] 12 \<and>
   liDigitMultiply32Limbs knobs32 \<lparr>malloc = (\<lambda>n. n < 100000), SIZE_MAX = 2 ^ 64 - 1\<rparr> [5, 6, 7, 8, 9, 1] [5, 6, 7, 8, 9, 1] 12 =
     liDigitMultiply32 [5, 6, 7, 8, 9, 1] [5, 6, 7, 8, 9, 1] 12"
  by (rule liDigitMultiply_builds_agree) (simp_all add: knobs_ok_def knobs64_def knobs32_def)

end
