(* ===== verification/LimbRecip.thy ===== *)
theory LimbRecip
  imports Limbs
begin

text \<open>
  The reciprocals of \<open>LargeIntegersKernels.c\<close>: \<open>liReciprocal\<close> of both builds (the table and three Newton
  steps of the 64-bit one, the double-limb division of the 32-bit one) and the division of two limbs
  by one that multiplies by it, \<open>liDiv2by1\<close>. A normalized divisor has its top bit set.
\<close>

subsection \<open>Definitions\<close>

definition liReciprocalTable :: "64 word list" where
  "liReciprocalTable =
    [2045, 2037, 2029, 2021, 2013, 2005, 1998, 1990, 1983, 1975, 1968, 1960, 1953, 1946, 1938, 1931,
     1924, 1917, 1910, 1903, 1896, 1889, 1883, 1876, 1869, 1863, 1856, 1849, 1843, 1836, 1830, 1824,
     1817, 1811, 1805, 1799, 1792, 1786, 1780, 1774, 1768, 1762, 1756, 1750, 1745, 1739, 1733, 1727,
     1722, 1716, 1710, 1705, 1699, 1694, 1688, 1683, 1677, 1672, 1667, 1661, 1656, 1651, 1646, 1641,
     1636, 1630, 1625, 1620, 1615, 1610, 1605, 1600, 1596, 1591, 1586, 1581, 1576, 1572, 1567, 1562,
     1558, 1553, 1548, 1544, 1539, 1535, 1530, 1526, 1521, 1517, 1513, 1508, 1504, 1500, 1495, 1491,
     1487, 1483, 1478, 1474, 1470, 1466, 1462, 1458, 1454, 1450, 1446, 1442, 1438, 1434, 1430, 1426,
     1422, 1418, 1414, 1411, 1407, 1403, 1399, 1396, 1392, 1388, 1384, 1381, 1377, 1374, 1370, 1366,
     1363, 1359, 1356, 1352, 1349, 1345, 1342, 1338, 1335, 1332, 1328, 1325, 1322, 1318, 1315, 1312,
     1308, 1305, 1302, 1299, 1295, 1292, 1289, 1286, 1283, 1280, 1276, 1273, 1270, 1267, 1264, 1261,
     1258, 1255, 1252, 1249, 1246, 1243, 1240, 1237, 1234, 1231, 1228, 1226, 1223, 1220, 1217, 1214,
     1211, 1209, 1206, 1203, 1200, 1197, 1195, 1192, 1189, 1187, 1184, 1181, 1179, 1176, 1173, 1171,
     1168, 1165, 1163, 1160, 1158, 1155, 1153, 1150, 1148, 1145, 1143, 1140, 1138, 1135, 1133, 1130,
     1128, 1125, 1123, 1121, 1118, 1116, 1113, 1111, 1109, 1106, 1104, 1102, 1099, 1097, 1095, 1092,
     1090, 1088, 1086, 1083, 1081, 1079, 1077, 1074, 1072, 1070, 1068, 1066, 1064, 1061, 1059, 1057,
     1055, 1053, 1051, 1049, 1047, 1044, 1042, 1040, 1038, 1036, 1034, 1032, 1030, 1028, 1026, 1024]"

definition liReciprocal64 :: "64 word \<Rightarrow> 64 word" where
  "liReciprocal64 d =
     (let d0 = d AND 1;
          d40 = drop_bit 24 d + 1;
          d63 = drop_bit 1 d + d0;
          v0 = liReciprocalTable ! unat (drop_bit 55 d - 256);
          v1 = push_bit 11 v0 - drop_bit 40 (v0 * v0 * d40) - 1;
          v2 = push_bit 13 v1 + drop_bit 47 (v1 * (push_bit 60 1 - v1 * d40));
          e = (drop_bit 1 v2 AND (0 - d0)) - v2 * d63;
          v3 = push_bit 31 v2 + ucast (drop_bit 65 (wide v2 * wide e))
      in v3 - hi (wide v3 * wide d + wide d) - d)"

definition liReciprocal32 :: "32 word \<Rightarrow> 32 word" where
  "liReciprocal32 d = lo ((push_bit 32 (wide (NOT d)) OR wide (NOT 0)) div wide d)"

definition liDiv2by1 :: "'l::len word \<Rightarrow> 'l word \<Rightarrow> 'l word \<Rightarrow> 'l word \<Rightarrow> 'l word \<times> 'l word" where
  "liDiv2by1 nh nl d di =
     (let p = wide nh * wide di + (push_bit LENGTH('l) (wide nh) OR wide nl);
          q = hi p + 1;
          q0 = lo p;
          r = nl - q * d;
          (q, r) = (if r > q0 then (q - 1, r + d) else (q, r));
          (q, r) = (if r \<ge> d then (q + 1, r - d) else (q, r))
      in (q, r))"

subsection \<open>The contract of a reciprocal\<close>

text \<open>What \<open>liDiv2by1\<close> needs of the reciprocal it is given, for a divisor with its top bit set.\<close>

definition normalized :: "'l::len word \<Rightarrow> bool" where
  "normalized d \<longleftrightarrow> 2 ^ LENGTH('l) \<le> 2 * unat d"

definition is_reciprocal :: "'l::len word \<Rightarrow> 'l word \<Rightarrow> bool" where
  "is_reciprocal d di \<longleftrightarrow>
     (2 ^ LENGTH('l) + unat di) * unat d < 2 ^ LENGTH('l) * 2 ^ LENGTH('l) \<and>
     2 ^ LENGTH('l) * 2 ^ LENGTH('l) \<le> (2 ^ LENGTH('l) + unat di + 1) * unat d"

lemma is_reciprocal_unique:
  assumes "is_reciprocal d x" "is_reciprocal d (y :: 'l::len word)"
  shows "x = y"
proof -
  have "unat x < unat y + 1" if "is_reciprocal d x" "is_reciprocal d y" for x y :: "'l word"
  proof -
    have "(2 ^ LENGTH('l) + unat x) * unat d < (2 ^ LENGTH('l) + unat y + 1) * unat d"
      using that unfolding is_reciprocal_def by linarith
    then have "2 ^ LENGTH('l) + unat x < 2 ^ LENGTH('l) + unat y + 1" by (simp only: mult_less_cancel2)
    then show ?thesis by linarith
  qed
  from this [OF assms] this [OF assms(2,1)] have "unat x = unat y" by linarith
  then show ?thesis by (simp add: word_unat_eq_iff)
qed

subsection \<open>Division of two limbs by one\<close>

text \<open>
  Moller and Granlund's theorem over the integers. \<open>n = nh B + nl\<close> is divided by \<open>d\<close>, \<open>q1\<close> is the
  candidate quotient and \<open>q0\<close> the low limb of the product it came from.
\<close>

lemma div2by1_bounds:
  fixes B d v nh nl q1 q0 :: int
  assumes "B \<le> 2 * d" "d < B" "0 \<le> v" "(B + v) * d < B * B" "B * B \<le> (B + v + 1) * d"
    and "0 \<le> nh" "nh < d" "0 \<le> nl" "nl < B" "0 \<le> q0" "q0 < B"
    and p: "nh * (B + v) + nl = (q1 - 1) * B + q0"
  defines "r \<equiv> nh * B + nl - q1 * d"
  shows "- d \<le> r" "q0 - B < r" "r < max (B - d) q0"
proof -
  have B: "0 < B" using assms(10,11) by linarith
  define k where "k = B * B - (B + v) * d"
  have k: "1 \<le> k" "k \<le> d" using assms(4,5) by (simp_all add: k_def algebra_simps)
  have "B * r = nh * (B * B) + nl * B - d * (q1 * B)"
    by (simp add: r_def algebra_simps)
  also have "q1 * B = nh * (B + v) + nl - q0 + B" using p by (simp add: algebra_simps)
  finally have Br: "B * r = nh * k + nl * (B - d) + q0 * d - B * d"
    by (simp add: k_def algebra_simps)
  have nn: "0 \<le> nh * k" "0 \<le> nl * (B - d)" "0 \<le> q0 * d" using assms k by simp_all
  have "B * (- d) \<le> B * r" using Br nn by simp
  then show "- d \<le> r" using B by (rule mult_left_le_imp_le)
  have "B * (q0 - B) < B * r"
  proof -
    have "(B - q0) * d < (B - q0) * B" using assms by (intro mult_strict_left_mono) auto
    then show ?thesis using Br nn by (simp add: algebra_simps)
  qed
  then show "q0 - B < r" using B by (simp only: mult_less_cancel_left_pos)
  have "nh * k \<le> (d - 1) * d" using assms k by (intro mult_mono) auto
  moreover have "nl * (B - d) \<le> (B - 1) * (B - d)" using assms by (intro mult_right_mono) auto
  ultimately have "B * r < (B - d) * (B - d) + q0 * d"
    using Br assms by (simp add: algebra_simps)
  also have "\<dots> \<le> (B - d) * max (B - d) q0 + max (B - d) q0 * d"
    using assms by (intro add_mono mult_left_mono mult_right_mono) auto
  also have "\<dots> = B * max (B - d) q0" by (simp add: algebra_simps)
  finally show "r < max (B - d) q0" using B by (simp only: mult_less_cancel_left_pos)
qed

lemma unat_join:
  "unat (push_bit LENGTH('l) (wide a) OR wide (b :: 'l::len word)) = 2 ^ LENGTH('l) * unat a + unat b"
proof -
  have lt: "2 ^ LENGTH('l) * unat a + unat b < 2 ^ LENGTH('l) * 2 ^ LENGTH('l)"
  proof -
    have "2 ^ LENGTH('l) * (unat a + 1) \<le> 2 ^ LENGTH('l) * 2 ^ LENGTH('l)"
      using unat_lt [of a] by (intro mult_le_mono2) linarith
    then show ?thesis using unat_lt [of b] unfolding distrib_left by linarith
  qed
  then have "2 ^ LENGTH('l) * unat a < 2 ^ LENGTH('l) * 2 ^ LENGTH('l)" by linarith
  then have "unat (push_bit LENGTH('l) (wide a)) = 2 ^ LENGTH('l) * unat a"
    by (subst unsigned_push_bit_eq, subst take_bit_nat_eq_self)
      (simp_all only: unat_wide push_bit_eq_mult len_bit0 mult_2 power_add mult.commute [of "unat a"])
  moreover have "push_bit LENGTH('l) (wide a) AND wide b = 0"
    by (rule bit_eqI)
      (auto simp: bit_and_iff bit_push_bit_iff wide_def bit_ucast_iff dest: bit_imp_le_length)
  ultimately show ?thesis
    using word_plus_and_or [of "push_bit LENGTH('l) (wide a)" "wide b"] lt
    by (metis add_0 unat_double_plus unat_wide)
qed

lemma uint_of_int_range:
  "0 \<le> x \<Longrightarrow> x < 2 ^ LENGTH('l) \<Longrightarrow> uint (of_int x :: 'l::len word) = x"
  by (simp add: unsigned_of_int take_bit_int_eq_self)

lemma of_int_plus_power: "of_int (x + 2 ^ LENGTH('l)) = (of_int x :: 'l::len word)"
  by simp

lemma of_int_plus_powers: "of_int (x + 2 ^ LENGTH('l) * y) = (of_int x :: 'l::len word)"
  by simp

lemma uint_lt: "uint (x :: 'l::len word) < 2 ^ LENGTH('l)"
  by (rule unsigned_less)

lemma normalized_uint: "normalized (d :: 'l::len word) \<longleftrightarrow> 2 ^ LENGTH('l) \<le> 2 * uint d"
  unfolding normalized_def by (simp flip: uint_nat of_nat_le_iff [where 'a = int])

lemma is_reciprocal_uint:
  "is_reciprocal d di \<longleftrightarrow>
     (2 ^ LENGTH('l) + uint di) * uint d < 2 ^ LENGTH('l) * 2 ^ LENGTH('l) \<and>
     2 ^ LENGTH('l) * 2 ^ LENGTH('l) \<le> (2 ^ LENGTH('l) + uint di + 1) * uint (d :: 'l::len word)"
proof -
  have "int ((2 ^ LENGTH('l) + unat di) * unat d) = (2 ^ LENGTH('l) + uint di) * uint d"
    "int ((2 ^ LENGTH('l) + unat di + 1) * unat d) = (2 ^ LENGTH('l) + uint di + 1) * uint d"
    "int (2 ^ LENGTH('l) * 2 ^ LENGTH('l)) = 2 ^ LENGTH('l) * 2 ^ LENGTH('l)"
    by (simp_all add: distrib_right)
  then show ?thesis unfolding is_reciprocal_def 
    by (simp only: flip: of_nat_less_iff [where 'a = int] of_nat_le_iff [where 'a = int])
qed

lemma quotient_unique_word:
  fixes q r d :: "'l::len word"
  assumes "n = Q * uint d + R" "0 \<le> R" "R < uint d" "0 \<le> n" "n < 2 ^ LENGTH('l) * uint d"
    and "q = of_int Q" "r = of_int R"
  shows "n = uint q * uint d + uint r \<and> r < d"
proof -
  have "R < 2 ^ LENGTH('l)" using assms(3) uint_lt [of d] by linarith
  then have r: "uint r = R" using assms by (simp add: uint_of_int_range)
  have "0 \<le> Q"
  proof (rule ccontr)
    assume "\<not> 0 \<le> Q"
    then have "Q * uint d \<le> - 1 * uint d" by (intro mult_right_mono) auto
    then show False using assms by linarith
  qed
  have "Q * uint d < 2 ^ LENGTH('l) * uint d" using assms by linarith
  then have "Q < 2 ^ LENGTH('l)" using assms(2,3) by (simp add: mult_less_cancel_right)
  with \<open>0 \<le> Q\<close> have q: "uint q = Q" using assms by (simp add: uint_of_int_range)
  show ?thesis using assms(1,3) q r by (simp add: word_less_def)
qed

lemma liDiv2by1_uint:
  fixes nh nl d di :: "'l::len word"
  assumes nz: "normalized d" and di: "is_reciprocal d di" and nh: "nh < d"
    and res: "liDiv2by1 nh nl d di = (q, r)"
  shows "uint nh * 2 ^ LENGTH('l) + uint nl = uint q * uint d + uint r \<and> r < d"
proof -
  define B where "B = (2::int) ^ LENGTH('l)"
  define p where "p = wide nh * wide di + (push_bit LENGTH('l) (wide nh) OR wide nl)"
  define q1 where "q1 = uint (hi p) + 1"
  define q0 where "q0 = lo p"
  define R where "R = uint nh * B + uint nl - q1 * uint d"
  define r0 where "r0 = nl - (hi p + 1) * d"
  have lt: "uint x < B" for x :: "'l word" using uint_lt [of x] by (simp add: B_def)
  have norm: "B \<le> 2 * uint d" and rec: "(B + uint di) * uint d < B * B" "B * B \<le> (B + uint di + 1) * uint d"
    using nz di by (simp_all add: normalized_uint is_reciprocal_uint B_def)
  have nhd: "uint nh < uint d" using nh by (simp add: word_less_def)
  have small: "uint nh * (B + uint di) + uint nl < B * B"
  proof -
    have "(uint nh + 1) * (B + uint di) \<le> uint d * (B + uint di)"
      using nhd by (intro mult_right_mono) (auto simp: B_def)
    then show ?thesis using rec(1) lt [of nl] by (simp add: algebra_simps) (smt (verit) unsigned_greater_eq)
  qed
  have "unat p = unat nh * unat di + (2 ^ LENGTH('l) * unat nh + unat nl)"
  proof -
    have "int (unat nh * unat di + (2 ^ LENGTH('l) * unat nh + unat nl)) < int (2 ^ LENGTH('l) * 2 ^ LENGTH('l))"
      using small by (simp add: B_def algebra_simps)
    then have "unat (wide nh * wide di) + unat (push_bit LENGTH('l) (wide nh) OR wide nl)
        < 2 ^ LENGTH('l) * 2 ^ LENGTH('l)"
      by (simp only: unat_wide_mult unat_join of_nat_less_iff)
    then show ?thesis unfolding p_def by (simp only: unat_double_plus unat_wide_mult unat_join)
  qed
  then have "int (unat p) = int (unat nh * unat di + (2 ^ LENGTH('l) * unat nh + unat nl))" by simp
  moreover have "int (unat p) = int (unat (lo p) + 2 ^ LENGTH('l) * unat (hi p))"
    by (simp only: unat_lo_hi)
  ultimately have split: "uint nh * (B + uint di) + uint nl = (q1 - 1) * B + uint q0"
    by (simp add: q1_def q0_def B_def algebra_simps)
  have bounds: "- uint d \<le> R" "uint q0 - B < R" "R < max (B - uint d) (uint q0)"
    using div2by1_bounds [OF norm lt _ rec _ nhd _ lt _ lt split] by (simp_all add: R_def)
  have r0: "r0 = of_int R" and q: "hi p + 1 = of_int q1"
    by (simp_all add: r0_def R_def q1_def B_def)
  have n: "0 \<le> uint nh * B + uint nl" "uint nh * B + uint nl < B * uint d"
  proof -
    show "0 \<le> uint nh * B + uint nl" by (simp add: B_def)
    have "(uint nh + 1) * B \<le> uint d * B" using nhd by (intro mult_right_mono) (auto simp: B_def)
    then show "uint nh * B + uint nl < B * uint d"
      using lt [of nl] by (simp add: algebra_simps)
  qed
  have fin: "uint nh * B + uint nl = uint q * uint d + uint r \<and> r < d"
    if "q = of_int Q" "r = of_int R'" "uint nh * B + uint nl = Q * uint d + R'" "0 \<le> R'" "R' < uint d" for Q R'
    using quotient_unique_word [OF that(3,4,5) n(1)] n(2) that(1,2) by (simp add: B_def)
  have step: "liDiv2by1 nh nl d di = (let (q, r) = if q0 < r0 then (hi p + 1 - 1, r0 + d) else (hi p + 1, r0)
      in if d \<le> r then (q + 1, r - d) else (q, r))"
    unfolding liDiv2by1_def Let_def p_def [symmetric] q0_def r0_def by (simp only: prod.case_eq_if prod.collapse)
  note step = step [unfolded res]
  have dB: "uint d < B" by (rule lt)
  have "0 < B" by (simp add: B_def)
  show ?thesis unfolding B_def [symmetric]
  proof (cases "0 \<le> R")
    case True
    have "R < B" using bounds(3) lt [of q0] norm \<open>0 < B\<close> by linarith
    with True have u: "uint r0 = R" unfolding r0 by (simp add: uint_of_int_range B_def)
    show "uint nh * B + uint nl = uint q * uint d + uint r \<and> r < d"
    proof (cases "q0 < r0")
      case True
      then have "R < B - uint d" using bounds(3) u by (simp add: word_less_def)
      then have "R < uint d" "uint (r0 + d) = R + uint d"
        using norm \<open>0 \<le> R\<close> u by (auto simp: uint_word_ariths B_def)
      then have "q = hi p + 1" "r = r0"
        using step True \<open>0 \<le> R\<close> by (auto simp: word_le_def)
      then show ?thesis using \<open>R < uint d\<close> \<open>0 \<le> R\<close> by (intro fin [of q1 R]) (simp_all add: q r0 R_def)
    next
      case False
      show ?thesis
      proof (cases "d \<le> r0")
        case True
        then have "q = of_int (q1 + 1)" "r = of_int (R - uint d)"
          using step False q r0 by auto
        then show ?thesis using True u \<open>R < B\<close> norm
          by (intro fin [of "q1 + 1" "R - uint d"]) (simp_all add: R_def algebra_simps word_le_def)
      next
        case F: False
        then have "q = of_int q1" "r = of_int R" using step False q r0 by auto
        then show ?thesis using F u \<open>0 \<le> R\<close>
          by (intro fin [of q1 R]) (simp_all add: R_def word_le_def)
      qed
    qed
  next
    case False
    have "uint (of_int (R + B) :: 'l word) = R + B"
      by (rule uint_of_int_range; use False bounds(1) dB in \<open>unfold B_def, linarith\<close>)
    then have u: "uint r0 = R + B" unfolding r0 B_def by (simp only: of_int_plus_power)
    have "uint (of_int (R + uint d) :: 'l word) = R + uint d"
      by (rule uint_of_int_range; use False bounds(1) dB in \<open>unfold B_def, linarith\<close>)
    then have u': "uint (r0 + d) = R + uint d" unfolding r0 by simp
    have "q0 < r0" using u bounds(2) by (simp add: word_less_def)
    then have "q = hi p" "r = r0 + d"
      using step u' False by (auto simp: word_le_def split: if_splits)
    then show "uint nh * B + uint nl = uint q * uint d + uint r \<and> r < d"
      using False bounds(1) q r0 
      by (intro fin [of "q1 - 1" "R + uint d"]) (simp_all add: R_def q1_def algebra_simps)
  qed
qed

subsection \<open>The reciprocal of the 32-bit build\<close>

lemma is_reciprocal_div:
  fixes d :: "'l::len word"
  assumes "normalized d" "uint di = (2 ^ LENGTH('l) * 2 ^ LENGTH('l) - 1) div uint d - 2 ^ LENGTH('l)"
  shows "is_reciprocal d di"
proof -
  let ?N = "2 ^ LENGTH('l) * 2 ^ LENGTH('l) :: int"
  have "0 < uint d" using assms(1) unfolding normalized_uint by (smt (verit) zero_less_power)
  then have "(?N - 1) div uint d * uint d \<le> ?N - 1" "?N - 1 < ((?N - 1) div uint d + 1) * uint d"
    using pos_mod_bound [of "uint d" "?N - 1"] pos_mod_sign [of "uint d" "?N - 1"]
      div_mult_mod_eq [of "?N - 1" "uint d"] by (simp_all only: distrib_right; linarith)+
  then show ?thesis by (simp only: is_reciprocal_uint assms(2)) (simp add: algebra_simps)
qed

lemma liReciprocal32_correct:
  assumes "normalized d"
  shows "is_reciprocal d (liReciprocal32 d)"
proof (rule is_reciprocal_div [OF assms])
  define N where "N = push_bit 32 (wide (NOT d)) OR wide (NOT 0 :: 32 word)"
  have d: "2 ^ 32 \<le> 2 * uint d" "uint d < 2 ^ 32" using assms uint_lt [of d] by (simp_all add: normalized_uint)
  have "NOT d = of_int (2 ^ 32 - 1 - uint d)" by (simp add: not_eq_complement)
  then have not_d: "uint (NOT d) = 2 ^ 32 - 1 - uint d"
    using d by (simp only: ) (subst uint_of_int_range, simp_all)
  have "uint N = 2 ^ 32 * uint (NOT d) + uint (NOT 0 :: 32 word)"
    using arg_cong [OF unat_join [of "NOT d" "NOT 0"], of int]
    by (simp only: N_def len_num1 len_bit0 len_num0 uint_nat of_nat_add of_nat_mult of_nat_power of_nat_numeral)
      simp
  then have N: "uint N = 2 ^ 64 - 1 - 2 ^ 32 * uint d" using not_d
    by (simp add: unsigned_minus_1_eq_mask mask_eq_exp_minus_1)
  have "uint (wide d) = uint d" by (simp only: uint_nat unat_wide)
  then have "uint (N div wide d) = uint N div uint d" by (simp only: uint_div_distrib)
  also have "\<dots> = (2 ^ 64 - 1 - 2 ^ 32 * uint d) div uint d" by (simp only: N)
  also have "\<dots> = (2 ^ 64 - 1) div uint d - 2 ^ 32"
    using d div_mult_self1 [of "uint d" "2 ^ 64 - 1" "- (2 ^ 32)"] by simp
  finally have q: "uint (N div wide d) = (2 ^ 64 - 1) div uint d - 2 ^ 32" .
  have "2 ^ 32 \<le> (2 ^ 64 - 1) div uint d"
    using d zdiv_mono2 [of "2 ^ 64 - 1" "uint d" "2 ^ 32 - 1"] by simp
  moreover have "(2 ^ 64 - 1) div uint d < 2 * 2 ^ 32"
    using d zdiv_mono2 [of "2 ^ 64 - 1" "2 ^ 31" "uint d"] by simp
  ultimately have "0 \<le> uint (N div wide d)" "uint (N div wide d) < 2 ^ 32" using q by linarith+
  moreover have "uint (lo (N div wide d)) = uint (N div wide d) mod 2 ^ 32"
    using arg_cong [OF unat_lo [of "N div wide d"], of int] by (simp add: zmod_int)
  ultimately have "uint (lo (N div wide d)) = uint (N div wide d)" by (simp only: mod_pos_pos_trivial)
  then show "uint (liReciprocal32 d) = (2 ^ LENGTH(32) * 2 ^ LENGTH(32) - 1) div uint d - 2 ^ LENGTH(32)"
    using q by (simp add: liReciprocal32_def N_def)
qed

subsection \<open>The reciprocal of the 64-bit build\<close>

text \<open>The Newton steps over the integers; each step's error is the square of the last plus a rounding.\<close>

lemma newton_start:
  fixes d d9 d40 v0 :: int
  assumes d: "2 ^ 63 \<le> d" "d < 2 ^ 64"
    and d9: "d9 = d div 2 ^ 55" and d40: "d40 = d div 2 ^ 24 + 1" and v0: "v0 = (2 ^ 19 - 3 * 2 ^ 8) div d9"
  shows "2 ^ 39 < d40" "d40 \<le> 2 ^ 40" "0 \<le> v0" "v0 < 2 ^ 11"
    and "(2 ^ 50 - v0 * d40) * (2 ^ 50 - v0 * d40) \<le> 25 * 2 ^ 78"
proof -
  have d9b: "256 \<le> d9" "d9 \<le> 511" using d unfolding d9 by simp_all
  have d40b: "d9 * 2 ^ 31 + 1 \<le> d40" "d40 \<le> (d9 + 1) * 2 ^ 31" "2 ^ 39 < d40" "d40 \<le> 2 ^ 40"
    using d unfolding d40 d9 by simp_all
  show "2 ^ 39 < d40" "d40 \<le> 2 ^ 40" by fact+
  have v: "v0 * d9 \<le> 523520" "523520 - d9 < v0 * d9"
  proof -
    have "v0 * d9 + 523520 mod d9 = 523520" by (simp add: v0)
    moreover have "0 \<le> 523520 mod d9" "523520 mod d9 < d9" using d9b by simp_all
    ultimately show "v0 * d9 \<le> 523520" "523520 - d9 < v0 * d9" by linarith+
  qed
  show v0b: "0 \<le> v0" using d9b by (simp add: v0 pos_imp_zdiv_nonneg_iff)
  have "v0 * 256 \<le> v0 * d9" using d9b v0b by (intro mult_left_mono) auto
  then show v0c: "v0 < 2 ^ 11" using v by simp
  have v0': "v0 \<le> 2045" using \<open>v0 * 256 \<le> v0 * d9\<close> v by simp
  have "v0 * (d9 * 2 ^ 31) \<le> v0 * d40" "v0 * d40 \<le> v0 * ((d9 + 1) * 2 ^ 31)"
    using d40b v0b by (intro mult_left_mono; simp)+
  then have "- (5 * 2 ^ 39) \<le> 2 ^ 50 - v0 * d40" "2 ^ 50 - v0 * d40 \<le> 5 * 2 ^ 39"
    using v v0' d9b by (simp_all add: distrib_left)
  then have "\<bar>2 ^ 50 - v0 * d40\<bar> \<le> 5 * 2 ^ 39" by simp
  then have "\<bar>2 ^ 50 - v0 * d40\<bar>\<^sup>2 \<le> (5 * 2 ^ 39)\<^sup>2" by (intro power_mono) simp_all
  then show "(2 ^ 50 - v0 * d40) * (2 ^ 50 - v0 * d40) \<le> 25 * 2 ^ 78"
    by (simp add: power2_eq_square)
qed

lemma newton_first:
  fixes d40 v0 v1 :: int
  assumes "2 ^ 39 < d40" "d40 \<le> 2 ^ 40"
    and e0: "(2 ^ 50 - v0 * d40) * (2 ^ 50 - v0 * d40) \<le> 25 * 2 ^ 78"
    and v1: "v1 = 2 ^ 11 * v0 - v0 * v0 * d40 div 2 ^ 40 - 1"
  shows "0 < 2 ^ 60 - v1 * d40" "2 ^ 60 - v1 * d40 \<le> 29 * 2 ^ 38" "0 < v1" "v1 < 2 ^ 21"
proof -
  define t where "t = v0 * v0 * d40 mod 2 ^ 40"
  have t: "0 \<le> t" "t < 2 ^ 40" by (simp_all add: t_def)
  have m: "v0 * v0 * d40 div 2 ^ 40 * 2 ^ 40 = v0 * v0 * d40 - t" by (simp add: t_def minus_mod_eq_div_mult)
  have "2 ^ 40 * (2 ^ 60 - v1 * d40) = 2 ^ 100 - 2 ^ 51 * (v0 * d40)
      + (v0 * v0 * d40 div 2 ^ 40 * 2 ^ 40) * d40 + 2 ^ 40 * d40"
    by (simp add: v1 algebra_simps)
  also have "\<dots> = (2 ^ 50 - v0 * d40) * (2 ^ 50 - v0 * d40) + (2 ^ 40 - t) * d40"
    unfolding m by (simp add: algebra_simps)
  finally have e1: "2 ^ 40 * (2 ^ 60 - v1 * d40) =
      (2 ^ 50 - v0 * d40) * (2 ^ 50 - v0 * d40) + (2 ^ 40 - t) * d40" .
  have "0 < (2 ^ 40 - t) * d40" "(2 ^ 40 - t) * d40 \<le> 2 ^ 40 * 2 ^ 40"
    using t assms by (intro mult_pos_pos mult_mono; simp)+
  then have "0 < 2 ^ 40 * (2 ^ 60 - v1 * d40)" "2 ^ 40 * (2 ^ 60 - v1 * d40) \<le> 25 * 2 ^ 78 + 2 ^ 80"
    unfolding e1 using e0 by (simp_all add: add_nonneg_pos)
  note e1b' = this
  define X where "X = 2 ^ 60 - v1 * d40"
  show e1b: "0 < 2 ^ 60 - v1 * d40" by (rule zero_less_mult_pos [OF e1b'(1)]) simp
  show e1c: "2 ^ 60 - v1 * d40 \<le> 29 * 2 ^ 38" using e1b'(2) unfolding X_def [symmetric] by simp
  have "v1 * d40 = 2 ^ 60 - X" by (simp add: X_def)
  then have "0 < v1 * d40" using e1c [folded X_def] by simp
  then show "0 < v1" using assms by (simp add: zero_less_mult_iff)
  then have "v1 * 2 ^ 39 \<le> v1 * d40" using assms(1) by (intro mult_left_mono) simp_all
  then have "v1 * 2 ^ 39 < 2 ^ 60" using \<open>v1 * d40 = _\<close> e1b [folded X_def] by linarith
  then show "v1 < 2 ^ 21" by simp
qed

lemma newton_second:
  fixes d d40 v1 v2 e1 :: int
  assumes "2 ^ 39 < d40" "d40 \<le> 2 ^ 40" and d40: "d40 = d div 2 ^ 24 + 1" and "0 < d"
    and e1: "e1 = 2 ^ 60 - v1 * d40" "0 < e1" "e1 \<le> 29 * 2 ^ 38" and "0 < v1" "v1 < 2 ^ 21"
    and v2: "v2 = 2 ^ 13 * v1 + v1 * e1 div 2 ^ 47"
  shows "0 < 2 ^ 97 - v2 * d" "2 ^ 97 - v2 * d \<le> d + 874 * 2 ^ 53" "0 < v2" "v2 < 2 ^ 34"
proof -
  define t where "t = v1 * e1 mod 2 ^ 47"
  define f where "f = 2 ^ 73 - v2 * d40"
  have t: "0 \<le> t" "t < 2 ^ 47" by (simp_all add: t_def)
  have m: "v1 * e1 div 2 ^ 47 * 2 ^ 47 = v1 * e1 - t" by (simp add: t_def minus_mod_eq_div_mult)
  have vd: "v1 * d40 = 2 ^ 60 - e1" using e1 by simp
  have "2 ^ 47 * f = 2 ^ 120 - 2 ^ 60 * (v1 * d40) - (v1 * e1 div 2 ^ 47 * 2 ^ 47) * d40"
    by (simp add: f_def v2 algebra_simps)
  also have "\<dots> = 2 ^ 120 - 2 ^ 60 * (v1 * d40) - (v1 * d40) * e1 + t * d40"
    unfolding m by (simp add: algebra_simps)
  also have "\<dots> = e1 * e1 + t * d40" unfolding vd by (simp add: algebra_simps)
  finally have f: "2 ^ 47 * f = e1 * e1 + t * d40" .
  have "0 < e1 * e1" "e1 * e1 \<le> (29 * 2 ^ 38) * (29 * 2 ^ 38)"
    using e1 by (intro mult_pos_pos mult_mono; simp)+
  moreover have "0 \<le> t * d40" "t * d40 \<le> 2 ^ 47 * d40"
    using t assms by (intro mult_nonneg_nonneg mult_right_mono; simp)+
  ultimately have fb: "0 < f" "f \<le> 841 * 2 ^ 29 + d40" using f by simp_all
  then have "0 < v2 * d40" using assms(2) by (simp add: f_def)
  then show v2b: "0 < v2" using assms(1) by (simp add: zero_less_mult_iff)
  then have "v2 * 2 ^ 39 \<le> v2 * d40" using assms(1) by (intro mult_left_mono) simp_all
  then show v2c: "v2 < 2 ^ 34" using fb by (simp add: f_def)
  have dd: "0 < 2 ^ 24 * d40 - d" "2 ^ 24 * d40 - d \<le> 2 ^ 24"
  proof -
    have "d = 2 ^ 24 * (d div 2 ^ 24) + d mod 2 ^ 24" "0 \<le> d mod 2 ^ 24" "d mod 2 ^ 24 < 2 ^ 24" by simp_all
    then show "0 < 2 ^ 24 * d40 - d" "2 ^ 24 * d40 - d \<le> 2 ^ 24"
      unfolding d40 distrib_left by linarith+
  qed
  have "2 ^ 97 - v2 * d = 2 ^ 24 * f + v2 * (2 ^ 24 * d40 - d)"
    by (simp add: f_def algebra_simps)
  moreover have "0 < v2 * (2 ^ 24 * d40 - d)" "v2 * (2 ^ 24 * d40 - d) \<le> 2 ^ 34 * 2 ^ 24"
    using v2b v2c dd by (intro mult_pos_pos mult_mono; simp)+
  ultimately show "0 < 2 ^ 97 - v2 * d" "2 ^ 97 - v2 * d \<le> d + 874 * 2 ^ 53"
    using fb dd by simp_all
qed

lemma newton_third:
  fixes d v2 e2 :: int
  assumes d: "2 ^ 63 \<le> d" "d < 2 ^ 64" and e2: "e2 = 2 ^ 97 - v2 * d" "0 < e2" "e2 \<le> d + 874 * 2 ^ 53"
    and v2: "0 < v2" and V3: "V3 = 2 ^ 31 * v2 + v2 * (e2 div 2) div 2 ^ 65"
  shows "0 < 2 ^ 128 - V3 * d" "2 ^ 128 - V3 * d \<le> 2 * d" "2 ^ 64 \<le> V3" "V3 < 2 ^ 65"
proof -
  define e where "e = e2 div 2"
  define b where "b = e2 mod 2"
  have eb: "e2 = 2 * e + b" "0 \<le> b" "b < 2" by (simp_all add: e_def b_def)
  define t where "t = v2 * e mod 2 ^ 65"
  have t: "0 \<le> t" "t < 2 ^ 65" by (simp_all add: t_def)
  have m: "v2 * e div 2 ^ 65 * 2 ^ 65 = v2 * e - t" by (simp add: t_def minus_mod_eq_div_mult)
  have vd: "v2 * d = 2 ^ 97 - e2" using e2 by simp
  define E where "E = 2 ^ 128 - V3 * d"
  have "2 ^ 65 * E = 2 ^ 193 - 2 ^ 96 * (v2 * d) - (v2 * e div 2 ^ 65 * 2 ^ 65) * d"
    by (simp add: E_def V3 e_def algebra_simps)
  also have "\<dots> = 2 ^ 193 - 2 ^ 96 * (v2 * d) - (v2 * d) * e + t * d"
    unfolding m by (simp add: algebra_simps)
  also have "\<dots> = 2 ^ 96 * b + e * e2 + t * d" unfolding vd by (simp add: eb(1) algebra_simps)
  finally have E: "2 ^ 65 * E = 2 ^ 96 * b + e * e2 + t * d" .
  have td: "0 \<le> t * d" "t * d \<le> 2 ^ 65 * d"
    using t d by (intro mult_nonneg_nonneg mult_right_mono; simp)+
  have "0 < 2 ^ 96 * b + e * e2"
  proof (cases "b = 0")
    case True
    then show ?thesis using eb e2 by (simp add: zero_less_mult_iff)
  next
    case False
    then have "0 \<le> e * e2" using eb e2(2) by (simp add: zero_le_mult_iff)
    then show ?thesis using False eb by simp
  qed
  with E td show E0: "0 < 2 ^ 128 - V3 * d" unfolding E_def [symmetric] by simp
  have "e2 * e2 \<le> (d + 874 * 2 ^ 53) * (d + 874 * 2 ^ 53)"
    using e2 d by (intro mult_mono) simp_all
  also have "\<dots> = d * d + 874 * 2 ^ 54 * d + (874 * 2 ^ 53) * (874 * 2 ^ 53)"
    by (simp add: algebra_simps)
  finally have sq: "e2 * e2 \<le> d * d + 874 * 2 ^ 54 * d + (874 * 2 ^ 53) * (874 * 2 ^ 53)" .
  have "0 \<le> (d - 2 ^ 63) * (2 ^ 64 - d)" using d by (intro mult_nonneg_nonneg) simp_all
  then have "d * d \<le> 3 * 2 ^ 63 * d - 2 ^ 127" by (simp add: algebra_simps)
  with sq have "e2 * e2 + 2 ^ 98 \<le> 2 ^ 66 * d" using d by simp
  moreover have "2 * (e * e2) \<le> e2 * e2"
  proof -
    have "2 * e * e2 \<le> e2 * e2" using eb e2(2) by (intro mult_right_mono) simp_all
    then show ?thesis by (simp add: mult.assoc)
  qed
  ultimately have "2 ^ 65 * E \<le> 2 ^ 65 * d + 2 ^ 65 * d" using E td eb by simp
  then show E1: "2 ^ 128 - V3 * d \<le> 2 * d" by (simp add: E_def)
  show "2 ^ 64 \<le> V3"
  proof (rule ccontr)
    assume "\<not> 2 ^ 64 \<le> V3"
    then have "(V3 + 2) * d \<le> (2 ^ 64 + 1) * d" using d by (intro mult_right_mono) simp_all
    moreover have "(2 ^ 64 + 1) * d \<le> (2 ^ 64 + 1) * (2 ^ 64 - 1)" using d by (intro mult_left_mono) simp_all
    ultimately show False using E1 by (simp add: algebra_simps)
  qed
  show "V3 < 2 ^ 65"
  proof (rule ccontr)
    assume "\<not> V3 < 2 ^ 65"
    then have "2 ^ 65 * 2 ^ 63 \<le> V3 * d" using d by (intro mult_mono) simp_all
    then show False using E0 by simp
  qed
qed

lemma liReciprocalTable_entries:
  "map uint liReciprocalTable = map (\<lambda>d9. (2 ^ 19 - 3 * 2 ^ 8) div d9) [256..511]"
  unfolding liReciprocalTable_def by code_simp

lemma liReciprocalTable_nth:
  assumes "256 \<le> d9" "d9 \<le> 511"
  shows "uint (liReciprocalTable ! nat (d9 - 256)) = (2 ^ 19 - 3 * 2 ^ 8) div d9"
proof -
  have len: "length liReciprocalTable = 256"
    using arg_cong [OF liReciprocalTable_entries, of length] by simp
  have "map uint liReciprocalTable ! nat (d9 - 256) = (2 ^ 19 - 3 * 2 ^ 8) div ([256..511] ! nat (d9 - 256))"
    unfolding liReciprocalTable_entries by (rule nth_map) (use assms in \<open>simp only: length_upto\<close>)
  also have "[256..511] ! nat (d9 - 256) = 256 + int (nat (d9 - 256))"
    by (rule nth_upto) (use assms in simp)
  finally show ?thesis using assms len by simp
qed

lemma div_power_small: "0 \<le> x \<Longrightarrow> x < b \<Longrightarrow> x div 2 ^ k < (b :: int)"
  using zdiv_mono2 [of x 1 "2 ^ k"] by simp

lemma drop_bit_of_int:
  assumes "0 \<le> x" "x < 2 ^ LENGTH('l)"
  shows "drop_bit k (of_int x :: 'l::len word) = of_int (x div 2 ^ k)"
proof (rule word_uint_eqI)
  have "uint (drop_bit k (of_int x :: 'l word)) = x div 2 ^ k"
    using assms by (subst unsigned_drop_bit_eq) (simp add: uint_of_int_range drop_bit_eq_div take_bit_int_eq_self)
  moreover have "uint (of_int (x div 2 ^ k) :: 'l word) = x div 2 ^ k"
    using assms by (intro uint_of_int_range) (simp_all add: div_power_small pos_imp_zdiv_nonneg_iff)
  ultimately show "uint (drop_bit k (of_int x :: 'l word)) = uint (of_int (x div 2 ^ k) :: 'l word)" by simp
qed

lemma push_bit_of_int: "push_bit k (of_int x :: 'l::len word) = of_int (2 ^ k * x)"
  by (simp add: push_bit_eq_mult)

lemma liReciprocal64_correct:
  assumes "normalized d"
  shows "is_reciprocal d (liReciprocal64 d)"
proof -
  define D where "D = uint d"
  have D: "2 ^ 63 \<le> D" "D < 2 ^ 64" using assms uint_lt [of d] by (simp_all add: D_def normalized_uint)
  have d: "d = of_int D" by (simp add: D_def)
  define d9 where "d9 = D div 2 ^ 55"
  define d40 where "d40 = D div 2 ^ 24 + 1"
  define v0 where "v0 = (2 ^ 19 - 3 * 2 ^ 8) div d9"
  define v1 where "v1 = 2 ^ 11 * v0 - v0 * v0 * d40 div 2 ^ 40 - 1"
  define e1 where "e1 = 2 ^ 60 - v1 * d40"
  define v2 where "v2 = 2 ^ 13 * v1 + v1 * e1 div 2 ^ 47"
  define e2 where "e2 = 2 ^ 97 - v2 * D"
  define e where "e = e2 div 2"
  define V3 where "V3 = 2 ^ 31 * v2 + v2 * e div 2 ^ 65"
  note s0 = newton_start [OF D d9_def d40_def v0_def]
  note s1 = newton_first [OF s0(1,2,5) v1_def]
  have e1b: "0 < e1" "e1 \<le> 29 * 2 ^ 38" using s1 by (simp_all only: e1_def)
  have "0 < D" using D by simp
  note s2 = newton_second [OF s0(1,2) d40_def this e1_def e1b s1(3,4) v2_def]
  have e2b: "0 < e2" "e2 \<le> D + 874 * 2 ^ 53" using s2 by (simp_all only: e2_def)
  note s3 = newton_third [OF D e2_def e2b s2(3) V3_def [unfolded e_def]]
  have d9b: "256 \<le> d9" "d9 \<le> 511" using D unfolding d9_def by simp_all
  have w_table: "liReciprocalTable ! unat (drop_bit 55 d - 256) = of_int v0"
  proof -
    have "drop_bit 55 d = of_int d9" unfolding d d9_def using D by (intro drop_bit_of_int) simp_all
    then have "uint (drop_bit 55 d - 256) = d9 - 256"
      using d9b uint_of_int_range [of "d9 - 256", where 'l = 64] by simp
    then have "unat (drop_bit 55 d - 256) = nat (d9 - 256)" by (simp only: unat_eq_nat_uint)
    then show ?thesis
      using arg_cong [OF liReciprocalTable_nth [OF d9b], of "of_int :: int \<Rightarrow> 64 word"] by (simp add: v0_def)
  qed
  have w_d40: "drop_bit 24 d + 1 = of_int d40"
    using D by (simp add: d d40_def drop_bit_of_int del: of_int_div)
  have w_v1: "push_bit 11 (of_int v0) - drop_bit 40 (of_int v0 * of_int v0 * of_int d40) - 1 = (of_int v1 :: 64 word)"
  proof -
    have "0 \<le> v0 * v0 * d40" "v0 * v0 * d40 < 2 ^ 64"
    proof -
      show "0 \<le> v0 * v0 * d40" using s0 by simp
      have "v0 * v0 \<le> 2 ^ 11 * 2 ^ 11" using s0 by (intro mult_mono) simp_all
      then have "v0 * v0 * d40 \<le> 2 ^ 22 * 2 ^ 40" using s0 by (intro mult_mono) simp_all
      then show "v0 * v0 * d40 < 2 ^ 64" by simp
    qed
    then have "drop_bit 40 (of_int (v0 * v0 * d40)) = (of_int (v0 * v0 * d40 div 2 ^ 40) :: 64 word)"
      by (intro drop_bit_of_int) simp_all
    then show ?thesis by (simp only: push_bit_of_int v1_def of_int_mult of_int_diff of_int_1)
  qed
  have w_v2: "push_bit 13 (of_int v1) + drop_bit 47 (of_int v1 * (push_bit 60 1 - of_int v1 * of_int d40)) = (of_int v2 :: 64 word)"
  proof -
    have "0 \<le> v1 * e1" "v1 * e1 < 2 ^ 64"
    proof -
      show "0 \<le> v1 * e1" using s1 e1b by simp
      have "v1 * e1 \<le> 2 ^ 21 * (29 * 2 ^ 38)" using s1 e1b by (intro mult_mono) simp_all
      then show "v1 * e1 < 2 ^ 64" by simp
    qed
    then have "drop_bit 47 (of_int (v1 * e1)) = (of_int (v1 * e1 div 2 ^ 47) :: 64 word)"
      by (intro drop_bit_of_int) simp_all
    moreover have "of_int (v1 * e1) = (of_int v1 * (push_bit 60 1 - of_int v1 * of_int d40) :: 64 word)"
      using push_bit_of_int [of 60 1, where 'l = 64]
      by (simp only: e1_def of_int_mult of_int_diff of_int_1 mult_1_right)
    ultimately show ?thesis by (simp only: push_bit_of_int v2_def of_int_add of_int_mult)
  qed
  have v2s: "uint (of_int v2 :: 64 word) = v2" using s2 by (intro uint_of_int_range) simp_all
  have es: "0 \<le> e" "e < 2 ^ 64" using e2b D by (simp_all add: e_def)
  then have eu: "uint (of_int e :: 64 word) = e" by (intro uint_of_int_range) simp_all
  have wrap: "of_int (x + 2 ^ 64 * y) = (of_int x :: 64 word)" for x y
    using of_int_plus_powers [of x y, where 'l = 64] by (simp only: len_num1 len_bit0 len_num0) simp
  have w_e: "(drop_bit 1 (of_int v2) AND (0 - (d AND 1))) - of_int v2 * (drop_bit 1 d + (d AND 1)) = (of_int e :: 64 word)"
  proof -
    define k where "k = D div 2"
    have half: "drop_bit 1 d = of_int k" "drop_bit 1 (of_int v2 :: 64 word) = of_int (v2 div 2)"
      unfolding d k_def using drop_bit_of_int [of D 1, where 'l = 64] drop_bit_of_int [of v2 1, where 'l = 64] D s2
      by simp_all
    have "uint (d AND 1) = D mod 2" by (simp add: and_one_eq uint_mod_distrib D_def)
    then have d1: "d AND 1 = of_int (D mod 2)" by (metis word_of_int_uint)
    show ?thesis
    proof (cases "even D")
      case True
      then have "d AND 1 = 0" by (simp add: d1)
      moreover have "e = - v2 * k + 2 ^ 64 * 2 ^ 32"
      proof -
        have "D = 2 * k" using True by (simp add: k_def)
        then have "e2 = 2 * (- v2 * k + 2 ^ 96)" by (simp add: e2_def)
        then have "e2 div 2 = - v2 * k + 2 ^ 96" by simp
        then show ?thesis by (simp add: e_def)
      qed
      ultimately show ?thesis using half by (simp only: wrap) simp
    next
      case False
      then have "d AND 1 = 1" by (simp add: d1 odd_iff_mod_2_eq_one)
      moreover have "e = v2 div 2 - v2 * (k + 1) + 2 ^ 64 * 2 ^ 32"
      proof -
        have "D = 2 * k + 1" using False by (simp add: k_def)
        moreover have v2: "v2 = 2 * (v2 div 2) + v2 mod 2" by simp
        ultimately have "e2 = 2 * (2 ^ 96 - v2 * (k + 1) + v2 div 2) + v2 mod 2"
          unfolding e2_def by (simp add: algebra_simps) 
        then have "e2 div 2 = 2 ^ 96 - v2 * (k + 1) + v2 div 2" by simp
        then show ?thesis by (simp add: e_def)
      qed
      ultimately show ?thesis using half by (simp only: wrap) simp
    qed
  qed
  have w_V3: "push_bit 31 (of_int v2) + ucast (drop_bit 65 (wide (of_int v2 :: 64 word) * wide (of_int e))) = (of_int V3 :: 64 word)"
  proof -
    define t where "t = wide (of_int v2 :: 64 word) * wide (of_int e)"
    have "uint t = v2 * e"
      using arg_cong [OF unat_wide_mult [of "of_int v2" "of_int e :: 64 word"], of int] v2s eu
      by (simp add: t_def)
    moreover have "take_bit 128 (v2 * e) = v2 * e"
    proof (rule take_bit_int_eq_self)
      show "0 \<le> v2 * e" using s2(3) es by simp
      have "v2 * e \<le> 2 ^ 34 * 2 ^ 64" using s2 es by (intro mult_mono) simp_all
      then show "v2 * e < 2 ^ 128" by simp
    qed
    ultimately have "uint (drop_bit 65 t) = v2 * e div 2 ^ 65"
      by (subst unsigned_drop_bit_eq) (simp add: drop_bit_eq_div)
    then have "(ucast (drop_bit 65 t) :: 64 word) = of_int (v2 * e div 2 ^ 65)"
      by (simp only: ucast_eq)
    then show ?thesis by (simp only: t_def [symmetric] push_bit_of_int V3_def of_int_add of_int_mult)
  qed
  have r: "liReciprocal64 d = of_int V3 - hi (wide (of_int V3) * wide d + wide d) - d"
    unfolding liReciprocal64_def Let_def
    by (simp only: w_table w_d40 w_v1 w_v2 w_e w_V3)
  have "of_int V3 = (of_int ((V3 - 2 ^ 64) + 2 ^ 64 * 1) :: 64 word)" by (rule arg_cong) simp
  also have "\<dots> = of_int (V3 - 2 ^ 64)" by (rule wrap)
  finally have "uint (of_int V3 :: 64 word) = V3 - 2 ^ 64"
    using s3 by (simp only:) (subst uint_of_int_range; simp)
  then have "uint (hi (wide (of_int V3) * wide d + wide d)) = ((V3 - 2 ^ 64) * D + D) div 2 ^ 64"
    using arg_cong [OF unat_hi [of "wide (of_int V3) * wide d + wide d"], of int]
    by (simp add: unat_fma zdiv_int D_def)
  also have "\<dots> = (V3 + 1) * D div 2 ^ 64 - D"
    using div_mult_self1 [of "2 ^ 64" "(V3 + 1) * D" "- D"] by (simp add: algebra_simps)
  finally have h: "hi (wide (of_int V3) * wide d + wide d) = of_int ((V3 + 1) * D div 2 ^ 64 - D)"
    by (metis word_of_int_uint)
  have res: "liReciprocal64 d = of_int (V3 - (V3 + 1) * D div 2 ^ 64)"
    unfolding r h by (simp add: d)
  define E where "E = 2 ^ 128 - V3 * D"
  have VD: "V3 * D = 2 ^ 128 - E" by (simp add: E_def)
  have E: "0 < E" "E \<le> 2 * D" using s3 by (simp_all only: E_def)
  show ?thesis
  proof (cases "E \<le> D")
    case True
    have "(V3 + 1) * D = 2 ^ 128 + (D - E)" using VD by (simp add: algebra_simps)
    then have "(V3 + 1) * D div 2 ^ 64 = 2 ^ 64" using True E D by simp
    then have "uint (liReciprocal64 d) = V3 - 2 ^ 64"
      using res s3 by (simp only:) (subst uint_of_int_range; simp)
    then show ?thesis using VD True E by (simp add: is_reciprocal_uint D_def [symmetric] algebra_simps)
  next
    case False
    have V1: "(V3 + 1) * D = 2 ^ 128 - (E - D)" using VD by (simp add: algebra_simps)
    then have "(V3 + 1) * D div 2 ^ 64 = 2 ^ 64 - 1" using False E D by simp
    moreover have "V3 + 1 < 2 ^ 65"
    proof (rule ccontr)
      assume "\<not> V3 + 1 < 2 ^ 65"
      then have "2 ^ 65 * 2 ^ 63 \<le> (V3 + 1) * D" using D by (intro mult_mono) simp_all
      then show False using V1 False by simp
    qed
    ultimately have "uint (liReciprocal64 d) = V3 + 1 - 2 ^ 64"
      using res s3 by (simp only:) (subst uint_of_int_range; simp)
    then have q: "2 ^ LENGTH(64) + uint (liReciprocal64 d) = V3 + 1" by simp
    show ?thesis
      unfolding is_reciprocal_uint q D_def [symmetric]
      using V1 False E by (simp add: distrib_right)
  qed
qed

subsection \<open>The interface the divisions use\<close>

text \<open>
  The divisions take the reciprocal of their build as a parameter and rely on this law of it. It is
  interpreted on the two functions of the file.
\<close>

locale reciprocal =
  fixes rc :: "'l::len word \<Rightarrow> 'l word"
  assumes rc: "normalized d \<Longrightarrow> is_reciprocal d (rc d)"
begin

lemma div2by1:
  assumes "normalized d" "nh < d"
  obtains q r where "liDiv2by1 nh nl d (rc d) = (q, r)"
    "2 ^ LENGTH('l) * unat nh + unat nl = unat q * unat d + unat r" "r < d"
proof -
  obtain q r where qr: "liDiv2by1 nh nl d (rc d) = (q, r)" by fastforce
  have "uint nh * 2 ^ LENGTH('l) + uint nl = uint q * uint d + uint r \<and> r < d"
    by (rule liDiv2by1_uint [OF assms(1) rc [OF assms(1)] assms(2) qr])
  then have "int (2 ^ LENGTH('l) * unat nh + unat nl) = int (unat q * unat d + unat r)" "r < d"
    by (simp_all add: mult.commute)
  then show ?thesis using that qr by (simp only: of_nat_eq_iff)
qed

end

interpretation rc64: reciprocal liReciprocal64
  by unfold_locales (rule liReciprocal64_correct)

interpretation rc32: reciprocal liReciprocal32
  by unfold_locales (rule liReciprocal32_correct)

lemma is_reciprocal_floor:
  assumes "is_reciprocal d di" "normalized (d :: 'l::len word)"
  shows "unat di = (2 ^ LENGTH('l) * 2 ^ LENGTH('l) - 1) div unat d - 2 ^ LENGTH('l)"
proof -
  have "0 < unat d" using assms(2) by (cases "unat d = 0") (simp_all add: normalized_def)
  moreover from this have "(2 ^ LENGTH('l) + unat di) * unat d \<le> 2 ^ LENGTH('l) * 2 ^ LENGTH('l) - 1"
    "2 ^ LENGTH('l) * 2 ^ LENGTH('l) - 1 < Suc (2 ^ LENGTH('l) + unat di) * unat d"
    using assms(1) \<open>0 < unat d\<close> unfolding is_reciprocal_def Suc_eq_plus1 by linarith+
  ultimately have "(2 ^ LENGTH('l) * 2 ^ LENGTH('l) - 1) div unat d = 2 ^ LENGTH('l) + unat di"
    by (intro div_nat_eqI) (simp_all only: mult.commute)
  then show ?thesis by simp
qed

text \<open>
  C27: \<open>liReciprocal\<close> of the 64-bit build, a lookup and three Newton steps with every product kept in 64 or
  128 bits, is exactly \<open>floor((B\<^sup>2 - 1) / d) - B\<close> for every normalized divisor, as its comment says.
\<close>
theorem liReciprocal64_floor:
  assumes "normalized d"
  shows "unat (liReciprocal64 d) = (2 ^ 64 * 2 ^ 64 - 1) div unat d - 2 ^ 64"
  using is_reciprocal_floor [OF liReciprocal64_correct [OF assms] assms] by (simp only: len_num1 len_bit0 len_num0) simp

theorem liReciprocal64_floor_witness:
  "unat (liReciprocal64 (2 ^ 63 + 12345)) = (2 ^ 64 * 2 ^ 64 - 1) div unat (2 ^ 63 + 12345 :: 64 word) - 2 ^ 64"
  by (rule liReciprocal64_floor) (simp add: normalized_def)

lemma div_mod_unique: "n = q * b + r \<Longrightarrow> r < b \<Longrightarrow> n div b = q \<and> n mod b = (r :: nat)"
  by simp

text \<open>
  \<open>liDiv2by1\<close>, which multiplies by the reciprocal instead of dividing, answers the quotient and the
  remainder of two limbs by one, in both builds.
\<close>
theorem liDiv2by1_divides:
  fixes nh nl d :: "64 word" and nh' nl' d' :: "32 word"
  assumes "normalized d" "nh < d" "normalized d'" "nh' < d'"
  shows "map_prod unat unat (liDiv2by1 nh nl d (liReciprocal64 d)) =
      ((2 ^ 64 * unat nh + unat nl) div unat d, (2 ^ 64 * unat nh + unat nl) mod unat d) \<and>
    map_prod unat unat (liDiv2by1 nh' nl' d' (liReciprocal32 d')) =
      ((2 ^ 32 * unat nh' + unat nl') div unat d', (2 ^ 32 * unat nh' + unat nl') mod unat d')"
proof (rule conjI)
  show "map_prod unat unat (liDiv2by1 nh nl d (liReciprocal64 d)) =
      ((2 ^ 64 * unat nh + unat nl) div unat d, (2 ^ 64 * unat nh + unat nl) mod unat d)"
  proof (rule rc64.div2by1 [OF assms(1,2), of nl])
    fix q r
    assume "liDiv2by1 nh nl d (liReciprocal64 d) = (q, r)"
      "2 ^ LENGTH(64) * unat nh + unat nl = unat q * unat d + unat r" "r < d"
    then show ?thesis using div_mod_unique [of "2 ^ 64 * unat nh + unat nl" "unat q" "unat d" "unat r"]
      by (simp add: word_less_nat_alt)
  qed
next
  show "map_prod unat unat (liDiv2by1 nh' nl' d' (liReciprocal32 d')) =
      ((2 ^ 32 * unat nh' + unat nl') div unat d', (2 ^ 32 * unat nh' + unat nl') mod unat d')"
  proof (rule rc32.div2by1 [OF assms(3,4), of nl'])
    fix q r
    assume "liDiv2by1 nh' nl' d' (liReciprocal32 d') = (q, r)"
      "2 ^ LENGTH(32) * unat nh' + unat nl' = unat q * unat d' + unat r" "r < d'"
    then show ?thesis using div_mod_unique [of "2 ^ 32 * unat nh' + unat nl'" "unat q" "unat d'" "unat r"]
      by (simp add: word_less_nat_alt)
  qed
qed

theorem liDiv2by1_divides_witness:
  "map_prod unat unat (liDiv2by1 7 9 (2 ^ 63 + 5) (liReciprocal64 (2 ^ 63 + 5))) =
      ((2 ^ 64 * unat (7 :: 64 word) + unat (9 :: 64 word)) div unat (2 ^ 63 + 5 :: 64 word),
       (2 ^ 64 * unat (7 :: 64 word) + unat (9 :: 64 word)) mod unat (2 ^ 63 + 5 :: 64 word)) \<and>
   map_prod unat unat (liDiv2by1 3 8 (2 ^ 31) (liReciprocal32 (2 ^ 31))) =
      ((2 ^ 32 * unat (3 :: 32 word) + unat (8 :: 32 word)) div unat (2 ^ 31 :: 32 word),
       (2 ^ 32 * unat (3 :: 32 word) + unat (8 :: 32 word)) mod unat (2 ^ 31 :: 32 word))"
  by (rule liDiv2by1_divides) (simp_all add: normalized_def)

end
