(* ===== verification/LimbDiv.thy ===== *)
theory LimbDiv
  imports LimbMul LimbRecip
begin

text \<open>
  Knuth's algorithm D, \<open>liDivRem\<close> of \<open>LargeIntegersKernels.c\<close>. An operand passed with its count of limbs
  is the list of those limbs; the dividend is rewritten in place, so each step answers it changed.
  The reciprocal of the build is the parameter \<open>rc\<close>.
\<close>

subsection \<open>Definitions\<close>

text \<open>Knuth's test with the next divisor limb, the inner \<open>while\<close>.\<close>

function liDivRem_test ::
  "'l::len word \<Rightarrow> 'l word \<Rightarrow> 'l word \<Rightarrow> 'l word \<Rightarrow> 'l word \<Rightarrow> 'l word" where
  "liDivRem_test qhat rhat v1 v0 u0 =
     (if wide qhat * wide v0 > (push_bit LENGTH('l) (wide rhat) OR wide u0)
      then let qhat' = qhat - 1; rhat' = rhat + v1
           in if rhat' < v1 then qhat' else liDivRem_test qhat' rhat' v1 v0 u0
      else qhat)"
  by pat_completeness auto
termination
proof (relation "measure (\<lambda>(qhat, _). unat qhat)", goal_cases)
  case (2 qhat rhat v1 v0 u0 qhat' rhat')
  have "qhat \<noteq> 0"
  proof
    assume "qhat = 0"
    with 2 show False by (simp add: wide_def)
  qed
  with 2 show ?case by (simp add: unat_gt_0 measure_unat)
qed simp

declare liDivRem_test.simps [simp del]

definition liDivRem_qhat ::
  "('l::len word \<Rightarrow> 'l word) \<Rightarrow> 'l word list \<Rightarrow> nat \<Rightarrow> 'l word list \<Rightarrow> 'l word" where
  "liDivRem_qhat rc v vn w =
     (let v1 = v ! (vn - 1); v0 = v ! (vn - 2);
          u2 = w ! vn; u1 = w ! (vn - 1); u0 = w ! (vn - 2)
      in if u2 \<ge> v1 then NOT 0
         else let (qhat, rhat) = liDiv2by1 u2 u1 v1 (rc v1) in liDivRem_test qhat rhat v1 v0 u0)"

text \<open>One quotient limb: \<open>w\<close> is the dividend from \<open>u + j\<close> on.\<close>

definition liDivRem_step ::
  "('l::len word \<Rightarrow> 'l word) \<Rightarrow> 'l word list \<Rightarrow> nat \<Rightarrow> 'l word list \<Rightarrow> 'l word \<times> 'l word list" where
  "liDivRem_step rc v vn w =
     (let u2 = w ! vn;
          qhat = liDivRem_qhat rc v vn w;
          (r, borrow) = liSubMul1 w v vn qhat;
          (qhat, r) = (if u2 < borrow then (qhat - 1, fst (liAddN r v vn)) else (qhat, r))
      in (qhat, r @ [0] @ drop (vn + 1) w))"

fun liDivRem_loop ::
  "('l::len word \<Rightarrow> 'l word) \<Rightarrow> 'l word list \<Rightarrow> nat \<Rightarrow> 'l word list \<Rightarrow> nat \<Rightarrow> 'l word list \<Rightarrow>
   'l word list \<times> 'l word list" where
  "liDivRem_loop rc v vn u 0 q = (q, u)"
| "liDivRem_loop rc v vn u (Suc j) q =
     (let (qhat, w) = liDivRem_step rc v vn (drop j u)
      in liDivRem_loop rc v vn (take j u @ w) j (qhat # q))"

fun liDivRem_by1 ::
  "'l::len word \<Rightarrow> 'l word \<Rightarrow> 'l word \<Rightarrow> 'l word list \<Rightarrow> nat \<Rightarrow> 'l word list \<Rightarrow>
   'l word list \<times> 'l word \<times> 'l word list" where
  "liDivRem_by1 v1 di r u 0 q = (q, r, u)"
| "liDivRem_by1 v1 di r u (Suc j) q =
     (let (qj, r) = liDiv2by1 r (u ! j) v1 di
      in liDivRem_by1 v1 di r (u[j := 0]) j (qj # q))"

definition liDivRem ::
  "('l::len word \<Rightarrow> 'l word) \<Rightarrow> 'l word list \<Rightarrow> 'l word list \<Rightarrow> 'l word list \<times> 'l word list" where
  "liDivRem rc u v =
     (let un = length u; vn = length v; v1 = v ! (vn - 1); di = rc v1
      in if vn = 1 then
           (let r = u ! (un - 1);
                (q, r, u) = liDivRem_by1 v1 di r (u[un - 1 := 0]) (un - 1) []
            in (q, u[0 := r]))
         else liDivRem_loop rc v vn u (un - vn) [])"

subsection \<open>The estimate of a quotient limb\<close>

lemma quotient_of_tops:
  fixes V W :: nat
  assumes "V = V2 * P + V'" "V' < P" "W = U3 * P + U'" "U' < P"
    and "P * B \<le> V" "U3 div V2 < B" "0 < V2"
  shows "W div V \<le> U3 div V2" "U3 div V2 \<le> W div V + 1"
proof -
  have V: "0 < V" using assms by (metis gr0I mult_is_0 add_is_0 not_less0)
  have "W div V * V2 \<le> U3"
  proof -
    have "W div V * V2 * P \<le> W div V * V" using assms(1) by (simp add: distrib_left mult.assoc)
    also have "\<dots> \<le> W" by simp
    also have "\<dots> < (U3 + 1) * P" using assms by simp
    finally have "W div V * V2 < U3 + 1" by (simp only: mult_less_cancel2)
    then show ?thesis by simp
  qed
  then show "W div V \<le> U3 div V2" using assms(7) by (simp add: less_eq_div_iff_mult_less_eq)
  show "U3 div V2 \<le> W div V + 1"
  proof -
    let ?q = "U3 div V2"
    have "?q * V = ?q * V2 * P + ?q * V'" by (simp add: assms(1) distrib_left mult.assoc)
    also have "\<dots> \<le> U3 * P + B * P" using assms by (intro add_mono mult_le_mono) auto
    also have "\<dots> \<le> W + V" using assms by (simp add: mult.commute)
    finally have "(?q - 1) * V \<le> W" by (simp add: diff_mult_distrib)
    then have "?q - 1 \<le> W div V" using V by (simp add: less_eq_div_iff_mult_less_eq)
    then show ?thesis by simp
  qed
qed

lemma liDivRem_test_val:
  fixes qhat rhat v1 v0 u0 :: "'l::len word"
  assumes "unat qhat * unat v1 + unat rhat = N"
    and "(N * 2 ^ LENGTH('l) + unat u0) div (unat v1 * 2 ^ LENGTH('l) + unat v0) \<le> unat qhat"
    and "0 < unat v1"
  shows "unat (liDivRem_test qhat rhat v1 v0 u0) =
    (N * 2 ^ LENGTH('l) + unat u0) div (unat v1 * 2 ^ LENGTH('l) + unat v0)"
  using assms
proof (induction qhat rhat v1 v0 u0 rule: liDivRem_test.induct)
  case (1 qhat rhat v1 v0 u0)
  define B where "B = (2::nat) ^ LENGTH('l)"
  define V2 where "V2 = unat v1 * B + unat v0"
  define U3 where "U3 = N * B + unat u0"
  have V2: "0 < V2" using "1.prems"(3) by (simp add: V2_def B_def)
  have le: "U3 div V2 \<le> unat qhat" using "1.prems"(2) by (simp add: U3_def V2_def B_def)
  have split: "x * V2 = x * unat v1 * B + x * unat v0" for x by (simp add: V2_def distrib_left mult.assoc)
  have U3: "U3 = unat qhat * unat v1 * B + unat rhat * B + unat u0"
    unfolding U3_def "1.prems"(1) [symmetric] by (simp add: algebra_simps)
  have test: "wide qhat * wide v0 > (push_bit LENGTH('l) (wide rhat) OR wide u0) \<longleftrightarrow> U3 < unat qhat * V2"
    by (simp only: word_less_nat_alt unat_join unat_wide_mult U3 split B_def
        mult.commute [of "2 ^ LENGTH('l)"]) (simp add: add.assoc)
  have exact: "unat x = U3 div V2" if "U3 div V2 \<le> unat x" "unat x * V2 \<le> U3" for x :: "'l word"
    using that V2 by (simp add: le_antisym less_eq_div_iff_mult_less_eq)
  show ?case
  proof (cases "wide qhat * wide v0 > (push_bit LENGTH('l) (wide rhat) OR wide u0)")
    case False
    then have "unat qhat = U3 div V2" using le test by (intro exact) auto
    then show ?thesis using False
      by (subst liDivRem_test.simps) (simp add: U3_def V2_def B_def)
  next
    case True
    then have lt: "U3 < unat qhat * V2" using test by simp
    then have q0: "qhat \<noteq> 0" by auto
    then have q1: "unat (qhat - 1) = unat qhat - 1" by (simp add: unat_minus_one)
    have le': "U3 div V2 \<le> unat (qhat - 1)"
      using iffD2 [OF div_less_iff_less_mult [OF V2] lt] unfolding q1 by linarith
    show ?thesis
    proof (cases "rhat + v1 < v1")
      case wrap: True
      have sum: "unat (rhat + v1) + B = unat rhat + unat v1"
        using unat_plus_carry [of rhat v1] wrap by (simp add: B_def)
      have "unat qhat - 1 < B" using unat_lt [of qhat] unfolding B_def by linarith
      then have "(unat qhat - 1) * unat v0 \<le> B * B"
        using unat_lt [of v0] by (intro mult_le_mono) (simp_all add: B_def less_imp_le)
      also have "\<dots> \<le> (unat rhat + unat v1) * B" using sum by (intro mult_le_mono1) linarith
      finally have "(unat qhat - 1) * V2 \<le> ((unat qhat - 1) * unat v1 + unat v1) * B + unat rhat * B"
        by (simp add: split distrib_right)
      also have "(unat qhat - 1) * unat v1 + unat v1 = unat qhat * unat v1"
        using q0 by (cases "unat qhat") (simp_all add: unat_eq_zero)
      finally have "unat (qhat - 1) * V2 \<le> U3" by (simp add: q1 U3)
      then have "unat (qhat - 1) = U3 div V2" using le' by (intro exact)
      then show ?thesis using True wrap
        by (subst liDivRem_test.simps) (simp add: Let_def U3_def V2_def B_def)
    next
      case False
      have "unat (rhat + v1) = unat rhat + unat v1"
        using unat_plus_carry [of rhat v1] False by simp
      moreover have "(unat qhat - 1) * unat v1 + unat v1 = unat qhat * unat v1"
        using q0 by (cases "unat qhat") (simp_all add: unat_eq_zero)
      ultimately have N: "unat (qhat - 1) * unat v1 + unat (rhat + v1) = N"
        using "1.prems"(1) by (simp add: q1)
      have "unat (liDivRem_test (qhat - 1) (rhat + v1) v1 v0 u0) = U3 div V2"
        using "1.IH" [OF True refl refl False N] le' "1.prems"(3) by (simp add: U3_def V2_def B_def)
      then show ?thesis using True False
        by (subst liDivRem_test.simps) (simp add: Let_def U3_def V2_def B_def)
    qed
  qed
qed

text \<open>The top of a vector: its value is that of its two top limbs and what is below them.\<close>

lemma val_top1: "1 \<le> n \<Longrightarrow> n \<le> length (xs :: 'l::len word list) \<Longrightarrow>
  val (take n xs) = val (take (n - 1) xs) + 2 ^ (LENGTH('l) * (n - 1)) * unat (xs ! (n - 1))"
  using val_take_Suc [of "n - 1" xs] by simp

lemma val_top2:
  fixes xs :: "'l::len word list"
  assumes "2 \<le> n" "n \<le> length xs"
  shows "val (take n xs) =
    (unat (xs ! (n - 1)) * 2 ^ LENGTH('l) + unat (xs ! (n - 2))) * 2 ^ (LENGTH('l) * (n - 2)) + val (take (n - 2) xs)"
proof -
  obtain m where n: "n = Suc (Suc m)" using assms(1) by (auto simp: le_iff_add)
  show ?thesis
    using val_take_Suc [of "Suc m" xs] val_take_Suc [of m xs] assms(2)
    by (simp add: n power_add algebra_simps)
qed

lemma top_limb_le:
  fixes xs :: "'l::len word list"
  assumes "val (take n xs) < val (take n ys)" "1 \<le> n" "n \<le> length xs" "n \<le> length ys"
  shows "xs ! (n - 1) \<le> ys ! (n - 1)"
proof (rule ccontr)
  assume "\<not> xs ! (n - 1) \<le> ys ! (n - 1)"
  then have "ys ! (n - 1) < xs ! (n - 1)" by simp
  then have "val (take (n - 1) ys) + 2 ^ (LENGTH('l) * (n - 1)) * unat (ys ! (n - 1))
      < val (take (n - 1) xs) + 2 ^ (LENGTH('l) * (n - 1)) * unat (xs ! (n - 1))"
    by (intro top_limb_decides val_take_lt)
  then show False using assms val_top1 [of n xs] val_top1 [of n ys] by simp
qed

lemma mod_B_step:
  "(n * B + b) div (v * B + w) \<le> n div v" if "0 < v" "b < B" for n B b v w :: nat
proof -
  let ?x = "(n * B + b) div (v * B + w)"
  have "?x * (v * B) \<le> ?x * (v * B + w)" by simp
  also have "\<dots> \<le> n * B + b" by simp
  also have "\<dots> < (n + 1) * B" using that by simp
  finally have "?x * v * B < (n + 1) * B" by (simp only: mult.assoc)
  then have "?x * v < n + 1" by (simp only: mult_less_cancel2)
  then show ?thesis using that(1) by (simp add: less_eq_div_iff_mult_less_eq)
qed

text \<open>
  What the tops of the operands say of one quotient limb: \<open>v1\<close> and \<open>v0\<close> are the top limbs of the
  divisor, \<open>u2\<close>, \<open>u1\<close>, \<open>u0\<close> those of the window of the dividend.
\<close>

lemma knuth_estimate:
  fixes v w :: "'l::len word list"
  assumes vn: "2 \<le> vn" "length v = vn" "normalized (v ! (vn - 1))"
    and w: "vn < length w" "val (take vn (drop 1 w)) < val v"
  defines "B \<equiv> (2::nat) ^ LENGTH('l)"
  defines "W \<equiv> val (take (Suc vn) w)"
  defines "V2 \<equiv> unat (v ! (vn - 1)) * B + unat (v ! (vn - 2))"
  defines "N \<equiv> unat (w ! vn) * B + unat (w ! (vn - 1))"
  defines "U3 \<equiv> N * B + unat (w ! (vn - 2))"
  shows "0 < unat (v ! (vn - 1))"
    and "w ! vn < v ! (vn - 1) \<Longrightarrow>
      U3 div V2 \<le> N div unat (v ! (vn - 1)) \<and> W div val v \<le> U3 div V2 \<and> U3 div V2 \<le> W div val v + 1"
    and "\<not> w ! vn < v ! (vn - 1) \<Longrightarrow>
      w ! vn = v ! (vn - 1) \<and> W div val v \<le> B - 1 \<and> B - 1 \<le> W div val v + 1"
proof -
  define P where "P = (2::nat) ^ (LENGTH('l) * (vn - 2))"
  define v1 where "v1 = v ! (vn - 1)"
  define v0 where "v0 = v ! (vn - 2)"
  define u2 where "u2 = w ! vn"
  define u1 where "u1 = w ! (vn - 1)"
  define u0 where "u0 = w ! (vn - 2)"
  have V2: "V2 = unat v1 * B + unat v0" and N: "N = unat u2 * B + unat u1" and U3: "U3 = N * B + unat u0"
    by (simp_all only: V2_def N_def U3_def v1_def v0_def u2_def u1_def u0_def)
  have nz: "B \<le> 2 * unat v1" using vn(3) by (simp add: normalized_def v1_def B_def)
  have "1 \<le> LENGTH('l)" by (simp add: Suc_leI)
  then have B: "2 \<le> B" using power_increasing [of 1 "LENGTH('l)" "2::nat"] by (simp add: B_def)
  have v1: "0 < unat v1" using nz B by simp
  then show "0 < unat (v ! (vn - 1))" by (simp add: v1_def)
  have V: "val v = V2 * P + val (take (vn - 2) v)" "val (take (vn - 2) v) < P"
    using val_top2 [OF vn(1), of v] vn val_take_lt [of "vn - 2" v]
    by (simp_all add: V2 P_def B_def v1_def v0_def)
  have W: "W = U3 * P + val (take (vn - 2) w)" "val (take (vn - 2) w) < P"
  proof -
    have "W = val (take vn w) + 2 ^ (LENGTH('l) * vn) * unat u2"
      using val_take_Suc [OF w(1)] by (simp add: W_def u2_def)
    also have "(2::nat) ^ (LENGTH('l) * vn) = B * B * P"
    proof -
      have "LENGTH('l) * vn = LENGTH('l) + LENGTH('l) + LENGTH('l) * (vn - 2)"
        using vn(1) by (simp add: diff_mult_distrib2 add_mult_distrib2 flip: mult_2)
      then show ?thesis by (simp only: B_def P_def power_add)
    qed
    also have "val (take vn w) = (unat u1 * B + unat u0) * P + val (take (vn - 2) w)"
      using val_top2 [OF vn(1), of w] w(1) by (simp add: B_def P_def u1_def u0_def)
    finally show "W = U3 * P + val (take (vn - 2) w)"
      by (simp add: U3 N algebra_simps)
    show "val (take (vn - 2) w) < P" using val_take_lt [of "vn - 2" w] by (simp add: P_def)
  qed
  have WV: "W < val v * B"
  proof -
    have "W = unat (w ! 0) + B * val (take vn (drop 1 w))"
      using w(1) by (cases w) (simp_all add: W_def B_def)
    also have "\<dots> < B + B * val (take vn (drop 1 w))" using unat_lt [of "w ! 0"] by (simp add: B_def)
    also have "\<dots> = B * (val (take vn (drop 1 w)) + 1)" by simp
    also have "\<dots> \<le> B * val v" using w(2) by (intro mult_le_mono2) simp
    finally show ?thesis by (simp add: mult.commute)
  qed
  have "P * B \<le> unat v1 * B * P" using v1 by simp
  then have PB: "P * B \<le> val v" unfolding V V2 distrib_right by linarith
  have "0 < P * B" using B by (simp add: P_def)
  then have Vpos: "0 < val v" using PB by linarith
  have u2: "u2 \<le> v1"
    using top_limb_le [of vn "drop 1 w" v] vn w by (simp add: u2_def v1_def)
  show "U3 div V2 \<le> N div unat (v ! (vn - 1)) \<and> W div val v \<le> U3 div V2 \<and> U3 div V2 \<le> W div val v + 1"
    if "w ! vn < v ! (vn - 1)"
  proof -
    have le: "U3 div V2 \<le> N div unat v1"
      using mod_B_step [OF v1, of "unat u0" B N "unat v0"] unat_lt [of u0] by (simp add: U3 V2 B_def)
    have "N < unat v1 * B"
    proof -
      have "(unat u2 + 1) * B \<le> unat v1 * B"
        using that by (intro mult_le_mono1) (simp add: word_less_nat_alt u2_def v1_def)
      moreover have "N < (unat u2 + 1) * B" using unat_lt [of u1] by (simp add: N B_def)
      ultimately show ?thesis by linarith
    qed
    then have "N div unat v1 < B" by (intro less_mult_imp_div_less) (simp only: mult.commute)
    then have "U3 div V2 < B" using le by linarith
    moreover have "0 < V2" using v1 B by (simp add: V2)
    ultimately show ?thesis using quotient_of_tops [OF V W PB] le by (simp add: v1_def)
  qed
  show "w ! vn = v ! (vn - 1) \<and> W div val v \<le> B - 1 \<and> B - 1 \<le> W div val v + 1"
    if "\<not> w ! vn < v ! (vn - 1)"
  proof -
    have False': "\<not> u2 < v1" using that by (simp add: u2_def v1_def)
    have "W div val v < B" using WV by (intro less_mult_imp_div_less) (simp only: mult.commute)
    moreover have "B - 2 \<le> W div val v"
    proof -
      have "val v \<le> (unat v1 + 1) * B * P"
      proof -
        have "(V2 + 1) * P \<le> (unat v1 * B + B) * P"
          by (intro mult_le_mono1) (use unat_lt [of v0] in \<open>unfold V2 B_def, linarith\<close>)
        then show ?thesis using V by (simp add: algebra_simps)
      qed
      then have "(B - 2) * val v \<le> (B - 2) * ((unat v1 + 1) * B * P)" by (rule mult_le_mono2)
      also have "\<dots> = (B - 2) * (unat v1 + 1) * (B * P)" by (simp only: mult.assoc)
      also have "\<dots> \<le> unat v1 * B * (B * P)"
      proof (rule mult_le_mono1)
        obtain B' where "B = B' + 2" using B by (metis add.commute le_iff_add)
        then show "(B - 2) * (unat v1 + 1) \<le> unat v1 * B" using nz by (simp add: algebra_simps)
      qed
      also have "\<dots> \<le> W"
        using False' u2 unfolding W U3 N by (simp add: algebra_simps)
      finally show ?thesis using Vpos by (simp add: less_eq_div_iff_mult_less_eq)
    qed
    ultimately have "W div val v \<le> B - 1" "B - 1 \<le> W div val v + 1" by linarith+
    moreover have "u2 = v1" using False' u2 by simp
    ultimately show ?thesis by (simp add: u2_def v1_def)
  qed
qed

lemma mod_unique_add:
  "x < M \<Longrightarrow> y < M \<Longrightarrow> x + M * a = y + M * b \<Longrightarrow> x = (y :: nat)"
  by (metis mod_less mod_mult_self2)

context reciprocal
begin

lemma liDivRem_qhat_val:
  fixes v w :: "'l word list"
  assumes vn: "2 \<le> vn" "length v = vn" "normalized (v ! (vn - 1))"
    and w: "vn < length w" "val (take vn (drop 1 w)) < val v"
  defines "W \<equiv> val (take (Suc vn) w)"
  shows "W div val v \<le> unat (liDivRem_qhat rc v vn w)" "unat (liDivRem_qhat rc v vn w) \<le> W div val v + 1"
proof -
  let ?v1 = "v ! (vn - 1)" and ?v0 = "v ! (vn - 2)"
  let ?u2 = "w ! vn" and ?u1 = "w ! (vn - 1)" and ?u0 = "w ! (vn - 2)"
  let ?B = "2 ^ LENGTH('l) :: nat"
  note est = knuth_estimate [OF vn w, folded W_def]
  have "W div val v \<le> unat (liDivRem_qhat rc v vn w) \<and> unat (liDivRem_qhat rc v vn w) \<le> W div val v + 1"
  proof (cases "?u2 < ?v1")
    case False
    then have "?v1 \<le> ?u2" by simp
    then have "liDivRem_qhat rc v vn w = NOT 0"
      unfolding liDivRem_qhat_def Let_def by (simp only: if_True)
    then have "unat (liDivRem_qhat rc v vn w) = ?B - 1"
      by (simp add: unsigned_minus_1_eq_mask mask_eq_exp_minus_1)
    then show ?thesis using est(3) [OF False] by linarith
  next
    case True
    obtain q0 rhat where qr: "liDiv2by1 ?u2 ?u1 ?v1 (rc ?v1) = (q0, rhat)"
      "?B * unat ?u2 + unat ?u1 = unat q0 * unat ?v1 + unat rhat" "rhat < ?v1"
      by (rule div2by1 [OF vn(3) True])
    have N: "unat q0 * unat ?v1 + unat rhat = unat ?u2 * ?B + unat ?u1" using qr(2) by (simp add: mult.commute)
    then have "(unat ?u2 * ?B + unat ?u1) div unat ?v1 = unat q0"
      using qr(3) by (metis div_mod_unique word_less_nat_alt)
    then have "unat (liDivRem_test q0 rhat ?v1 ?v0 ?u0) =
        ((unat ?u2 * ?B + unat ?u1) * ?B + unat ?u0) div (unat ?v1 * ?B + unat ?v0)"
      using liDivRem_test_val [OF N _ est(1), of ?u0 ?v0] est(2) [OF True] by simp
    moreover have "\<not> ?v1 \<le> ?u2" using True by simp
    then have "liDivRem_qhat rc v vn w = liDivRem_test q0 rhat ?v1 ?v0 ?u0"
      using qr(1) unfolding liDivRem_qhat_def Let_def by (simp only: if_False prod.case)
    ultimately show ?thesis using est(2) [OF True] by simp
  qed
  then show "W div val v \<le> unat (liDivRem_qhat rc v vn w)" "unat (liDivRem_qhat rc v vn w) \<le> W div val v + 1"
    by simp_all
qed

lemma liDivRem_step_val:
  fixes v w :: "'l word list"
  assumes vn: "2 \<le> vn" "length v = vn" "normalized (v ! (vn - 1))"
    and w: "vn < length w" "val (take vn (drop 1 w)) < val v"
  defines "W \<equiv> val (take (Suc vn) w)"
  shows "\<exists>q r. liDivRem_step rc v vn w = (q, r @ [0] @ drop (vn + 1) w) \<and> length r = vn \<and>
    val r = W mod val v \<and> unat q = W div val v"
proof -
  define M where "M = (2::nat) ^ (LENGTH('l) * vn)"
  define Q where "Q = W div val v"
  define qhat where "qhat = liDivRem_qhat rc v vn w"
  define u2 where "u2 = w ! vn"
  obtain r b where rb: "liSubMul1 w v vn qhat = (r, b)" by fastforce
  have q: "Q \<le> unat qhat" "unat qhat \<le> Q + 1"
    using liDivRem_qhat_val [OF vn w] by (simp_all only: Q_def qhat_def W_def)
  have V: "val v < M" "0 < val v" using val_lt [of v] vn w(2) by (simp_all add: M_def)
  have W: "W = val (take vn w) + M * unat u2"
    using val_take_Suc [OF w(1)] by (simp add: W_def u2_def M_def)
  have r: "length r = vn" "val r + val v * unat qhat = val (take vn w) + M * unat b"
    using liSubMul1_val [OF rb] vn w by (simp_all add: M_def)
  then have rM: "val r < M" using val_lt [of r] by (simp add: M_def)
  have key: "val r + val v * unat qhat + M * unat u2 = W + M * unat b" using r(2) W by linarith
  have Wqr: "W = val v * Q + W mod val v" "W mod val v < val v" using V by (simp_all add: Q_def)
  show ?thesis
  proof (cases "u2 < b")
    case True
    then have "M * unat u2 + M \<le> M * unat b"
      using mult_le_mono2 [of "unat u2 + 1" "unat b" M] by (simp add: word_less_nat_alt)
    then have "W < val v * unat qhat" using key rM by linarith
    then have "unat qhat \<noteq> Q" using Wqr by auto
    then have qQ: "unat qhat = Q + 1" using q by linarith
    obtain r2 c where r2: "liAddN r v vn = (r2, c)" by fastforce
    have r2v: "length r2 = vn" "val r2 + M * unat c = val r + val v"
      using liAddN_val [OF r2] r(1) vn by (simp_all add: M_def)
    have "val v * unat qhat = val v * Q + val v" using qQ by simp
    then have "val r2 + M * unat c + M * unat u2 = W mod val v + M * unat b"
      using key r2v(2) Wqr(1) by linarith
    then have "val r2 + M * (unat c + unat u2) = W mod val v + M * unat b" by (simp add: distrib_left)
    moreover have "val r2 < M" using val_lt [of r2] r2v(1) by (simp add: M_def)
    ultimately have "val r2 = W mod val v" using Wqr(2) V(1) mod_unique_add by (metis less_trans)
    moreover have "unat (qhat - 1) = Q" using qQ by (simp add: unat_minus_one flip: unat_eq_zero)
    ultimately show ?thesis using True rb r2 r2v(1)
      by (simp add: liDivRem_step_def Let_def Q_def flip: qhat_def u2_def)
  next
    case False
    then have ub: "M * unat b \<le> M * unat u2" by (intro mult_le_mono2) (simp add: word_less_nat_alt)
    have "unat qhat \<noteq> Q + 1"
    proof
      assume "unat qhat = Q + 1"
      then have "val v * unat qhat = val v * Q + val v" by simp
      then show False using key ub Wqr by linarith
    qed
    then have qQ: "unat qhat = Q" using q by linarith
    then have "val r + M * unat u2 = W mod val v + M * unat b"
      using key Wqr(1) by simp
    then have "val r = W mod val v" using rM Wqr(2) V(1) mod_unique_add by (metis less_trans)
    then show ?thesis using False rb r(1) qQ
      by (simp add: liDivRem_step_def Let_def Q_def flip: qhat_def u2_def)
  qed
qed

lemma liDivRem_loop_val:
  fixes v u :: "'l word list"
  assumes vn: "2 \<le> vn" "length v = vn" "normalized (v ! (vn - 1))"
    and "j + vn \<le> length u" "val (drop (j + vn) u) = 0" "val (take vn (drop j u)) < val v"
  shows "\<exists>q' u'. liDivRem_loop rc v vn u j q = (q' @ q, u') \<and> length q' = j \<and> length u' = length u \<and>
    val u = val q' * val v + val u' \<and> val u' < val v"
  using assms(4,5,6)
proof (induction j arbitrary: u q)
  case 0
  have "val u = val (take vn u)" using val_take_0 [of vn u] 0 by simp
  then show ?case using 0 by simp
next
  case (Suc j)
  define w where "w = drop j u"
  have w: "vn < length w" "val (take vn (drop 1 w)) < val v"
    using Suc.prems by (simp_all add: w_def)
  obtain q1 r where st: "liDivRem_step rc v vn w = (q1, r @ [0] @ drop (vn + 1) w)" "length r = vn"
    "val r = val (take (Suc vn) w) mod val v" "unat q1 = val (take (Suc vn) w) div val v"
    using liDivRem_step_val [OF vn w] by blast
  define u1 where "u1 = take j u @ r @ [0] @ drop (vn + 1) w"
  have top: "drop (vn + 1) w = drop (Suc j + vn) u" by (simp add: w_def add.commute)
  have len: "length u1 = length u" using Suc.prems st(2) w(1) by (simp add: u1_def w_def)
  have "val (drop (j + vn) u1) = 0"
    using Suc.prems st(2) top by (simp add: u1_def)
  moreover have "val (take vn (drop j u1)) < val v"
    using Suc.prems st(2,3) w(2) by (simp add: u1_def)
  ultimately obtain q' u' where IH: "liDivRem_loop rc v vn u1 j (q1 # q) = (q' @ q1 # q, u')" "length q' = j"
    "length u' = length u" "val u1 = val q' * val v + val u'" "val u' < val v"
    using Suc.IH [of u1 "q1 # q"] Suc.prems len by auto
  have "val w = val (take (Suc vn) w)"
    using val_take_0 [of "Suc vn" w] w(1) top Suc.prems(2) by simp
  then have "val w = unat q1 * val v + val r" using st by simp
  moreover have "val u = val (take j u) + 2 ^ (LENGTH('l) * j) * val w"
    using val_take_drop [of j u] Suc.prems by (simp add: w_def)
  moreover have "val u1 = val (take j u) + 2 ^ (LENGTH('l) * j) * val r"
  proof -
    have "val (r @ [0] @ drop (vn + 1) w) = val r"
      using top Suc.prems(2) by (simp add: val_append)
    then show ?thesis using Suc.prems by (simp add: u1_def val_append)
  qed
  ultimately have "val u = val u1 + 2 ^ (LENGTH('l) * j) * (unat q1 * val v)"
    by (simp add: distrib_left)
  then have "val u = val (q' @ [q1]) * val v + val u'"
    using IH by (simp add: val_append algebra_simps)
  then show ?case using IH st(1) by (auto simp: u1_def simp flip: w_def)
qed

lemma liDivRem_by1_val:
  fixes u :: "'l word list"
  assumes "normalized d" "r < d" "j \<le> length u"
  shows "\<exists>q' r' u'. liDivRem_by1 d (rc d) r u j q = (q' @ q, r', u') \<and> length q' = j \<and> length u' = length u \<and>
    2 ^ (LENGTH('l) * j) * unat r + val (take j u) = val q' * unat d + unat r' \<and> r' < d \<and>
    u' = replicate j 0 @ drop j u"
  using assms(2,3)
proof (induction j arbitrary: r u q)
  case 0
  then show ?case by simp
next
  case (Suc j)
  obtain q1 r1 where qr: "liDiv2by1 r (u ! j) d (rc d) = (q1, r1)"
    "2 ^ LENGTH('l) * unat r + unat (u ! j) = unat q1 * unat d + unat r1" "r1 < d"
    by (rule div2by1 [OF assms(1) Suc.prems(1)])
  obtain q' r' u' where IH: "liDivRem_by1 d (rc d) r1 (u[j := 0]) j (q1 # q) = (q' @ q1 # q, r', u')"
    "length q' = j" "length u' = length u"
    "2 ^ (LENGTH('l) * j) * unat r1 + val (take j u) = val q' * unat d + unat r'" "r' < d"
    "u' = replicate j 0 @ drop j (u[j := 0])"
    using Suc.IH [OF qr(3), of "u[j := 0]" "q1 # q"] Suc.prems by auto
  have "2 ^ (LENGTH('l) * Suc j) * unat r + val (take (Suc j) u)
      = 2 ^ (LENGTH('l) * j) * (2 ^ LENGTH('l) * unat r + unat (u ! j)) + val (take j u)"
    using val_take_Suc [of j u] Suc.prems by (simp add: power_add algebra_simps)
  also have "\<dots> = val (q' @ [q1]) * unat d + unat r'"
    unfolding qr(2) using IH(2,4) by (simp add: val_append algebra_simps)
  finally show ?case
    using IH qr(1) Suc.prems
    by (simp add: Cons_nth_drop_Suc [symmetric] replicate_append_same flip: append_assoc)
qed

text \<open>Algorithm D under the contract of its comment.\<close>

lemma liDivRem_val:
  fixes v u :: "'l word list"
  assumes v: "v \<noteq> []" "normalized (last v)" and un: "length v < length u"
    and top: "val (drop (length u - length v) u) < val v"
  shows "\<exists>q r. liDivRem rc u v = (q, r @ replicate (length u - length v) 0) \<and>
    length q = length u - length v \<and> length r = length v \<and>
    val u = val q * val v + val r \<and> val r < val v"
proof (cases "length v = 1")
  case True
  then obtain d where v1: "v = [d]" by (cases v) auto
  have "2 \<le> length u" using un True by simp
  then obtain k where k: "length u = Suc (Suc k)" by (auto simp: le_iff_add)
  define r where "r = u ! Suc k"
  have dr: "drop (Suc k) u = [r]" using k by (simp add: r_def flip: Cons_nth_drop_Suc)
  then have "r < d" using top v1 k by (simp add: word_less_nat_alt)
  obtain q r' u' where by1: "liDivRem_by1 d (rc d) r (u[Suc k := 0]) (Suc k) [] = (q, r', u')" "length q = Suc k"
    "2 ^ (LENGTH('l) * Suc k) * unat r + val (take (Suc k) u) = val q * unat d + unat r'" "r' < d"
    "u' = replicate (Suc k) 0 @ [0]"
    using liDivRem_by1_val [OF _ \<open>r < d\<close>, of "Suc k" "u[Suc k := 0]" "[]"] v v1 k
    by (auto simp flip: Cons_nth_drop_Suc)
  have "liDivRem rc u v = (q, [r'] @ replicate (Suc k) 0)"
    using by1 k v1 by (simp add: liDivRem_def Let_def r_def replicate_append_same)
  moreover have "val u = val q * val v + val [r']"
    using val_take_Suc [of "Suc k" u] by1(3) k v1 by (simp add: r_def)
  ultimately show ?thesis using by1 k v1 by (auto simp: word_less_nat_alt)
next
  case False
  then have vn: "2 \<le> length v" using v(1) by (cases v; cases "tl v") auto
  have last: "last v = v ! (length v - 1)" using v(1) by (simp add: last_conv_nth)
  let ?j = "length u - length v"
  obtain q u' where loop: "liDivRem_loop rc v (length v) u ?j [] = (q, u')" "length q = ?j" "length u' = length u"
    "val u = val q * val v + val u'" "val u' < val v"
    using liDivRem_loop_val [OF vn refl, of ?j u "[]"] v(2) top un last by auto
  have "val u' < 2 ^ (LENGTH('l) * length v)" using loop(5) val_lt [of v] by linarith
  then have "val (drop (length v) u') = 0" using loop(3) un by (simp add: val_drop)
  then have "drop (length v) u' = replicate ?j 0"
    using val_eq_0_zeros [of "drop (length v) u'"] loop(3) by simp
  then have "u' = take (length v) u' @ replicate ?j 0" by (metis append_take_drop_id)
  moreover have "val (take (length v) u') = val u'"
    using \<open>val (drop (length v) u') = 0\<close> val_take_0 loop(3) un by (metis less_imp_le)
  ultimately show ?thesis using loop un False
    by (intro exI [of _ q] exI [of _ "take (length v) u'"]) (simp add: liDivRem_def Let_def)
qed

end

text \<open>
  C26: Knuth's algorithm D of the 64-bit build divides: under the contract of its comment (the divisor's top bit
  set, the top limbs of the dividend below it) it stores the quotient, leaves the remainder in the low limbs
  of the dividend and zeros above it. The one-limb divisor, the estimate of each quotient limb, the test
  with the next divisor limb and the add-back are all inside.
\<close>
theorem liDivRem_divides:
  fixes u v :: "64 word list"
  assumes "v \<noteq> []" "normalized (last v)" "length v < length u"
    and "val (drop (length u - length v) u) < val v"
  shows "\<exists>q r. liDivRem liReciprocal64 u v = (q, r @ replicate (length u - length v) 0) \<and>
    length q = length u - length v \<and> length r = length v \<and>
    val q = val u div val v \<and> val r = val u mod val v"
  using rc64.liDivRem_val [OF assms] div_mod_unique by metis

text \<open>A divisor whose first estimate is too large, and the largest quotient limb.\<close>
theorem liDivRem_divides_witness:
  "\<exists>q r. liDivRem liReciprocal64 [3, 0, 2 ^ 63, 2 ^ 63 :: 64 word] [- 1, 2 ^ 63 :: 64 word] =
      (q, r @ replicate (length [3, 0, 2 ^ 63, 2 ^ 63 :: 64 word] - length [- 1, 2 ^ 63 :: 64 word]) 0) \<and>
    length q = length [3, 0, 2 ^ 63, 2 ^ 63 :: 64 word] - length [- 1, 2 ^ 63 :: 64 word] \<and> length r = length [- 1, 2 ^ 63 :: 64 word] \<and>
    val q = val [3, 0, 2 ^ 63, 2 ^ 63 :: 64 word] div val [- 1, 2 ^ 63 :: 64 word] \<and> val r = val [3, 0, 2 ^ 63, 2 ^ 63 :: 64 word] mod val [- 1, 2 ^ 63 :: 64 word]"
  by (rule liDivRem_divides)
    (simp_all add: normalized_def unsigned_minus_1_eq_mask mask_eq_exp_minus_1)

end
