(* ===== verification/LimbBZ.thy ===== *)
theory LimbBZ
  imports LimbDiv
begin

text \<open>
  Burnikel and Ziegler's recursive division of \<open>LargeIntegersKernels.c\<close>: \<open>liDivRem2n\<close> (2n limbs by n) and
  \<open>liDivRemBZ\<close>, with their scratch sizes. Scratch is counted as in the multiplication theories: \<open>None\<close> is
  a write past it. The loops that add the divisor back have no bound in the code, so they are
  partial functions; that they end is part of the theorems.
\<close>

subsection \<open>Definitions\<close>

function liDivRem2nScratch :: "li_knobs \<Rightarrow> nat \<Rightarrow> nat" where
  "liDivRem2nScratch kn n =
     (let lo = n div 2; hi = n - lo
      in if n < liBZLimbs kn \<or> n < 2 then 0
         else let need = n + liMulScratch kn hi lo;
                  other = liDivRem2nScratch kn hi;
                  need = (if other > need then other else need);
                  other = liDivRem2nScratch kn lo
              in if other > need then other else need)"
  by pat_completeness auto
termination
  by (relation "measure snd") auto

declare liDivRem2nScratch.simps [simp del]

text \<open>\<open>qh\<close> is the limb above the quotient's \<open>n\<close> limbs \<open>q\<close>; \<open>cy\<close> counts the borrows out of \<open>u\<close>.\<close>

partial_function (option) liDivRem2n_addback ::
  "'l::len word \<Rightarrow> 'l word list \<Rightarrow> 'l word \<Rightarrow> 'l word list \<Rightarrow> 'l word list \<Rightarrow>
   ('l word \<times> 'l word list \<times> 'l word list) option" where
  "liDivRem2n_addback qh q cy u v =
     (if cy = 0 then Some (qh, q, u)
      else let (q', b) = liSub1 q (length q) 1;
               (u', c) = liAddN u v (length v)
           in liDivRem2n_addback (qh - b) q' (cy - c) u' v)"

text \<open>
  One D3n2n step after its estimate: \<open>u\<close> holds the remainder of the top limbs above the untouched low ones, the product
  \<open>t\<close> of the quotient block with the low \<open>m\<close> limbs of the divisor is subtracted, with \<open>qh\<close> of those
  limbs at \<open>k\<close> when the block reached \<open>B^k\<close>, and the divisor is added back.
\<close>

definition liDivRem2n_correct ::
  "'l::len word \<Rightarrow> 'l word list \<Rightarrow> 'l word list \<Rightarrow> 'l word list \<Rightarrow> 'l word list \<Rightarrow> nat \<Rightarrow>
   ('l word \<times> 'l word list \<times> 'l word list) option" where
  "liDivRem2n_correct qh q u t v m =
     (let n = length v; k = n - m;
          (u, cy) = liSubN u t n;
          (u, cy) = (if qh \<noteq> 0 then let (w, c) = liSubN (drop k u) v m in (take k u @ w, cy + c) else (u, cy))
      in liDivRem2n_addback qh q cy u v)"

function liDivRem2n ::
  "li_knobs \<Rightarrow> ('l::len word \<Rightarrow> 'l word) \<Rightarrow> 'l word list \<Rightarrow> 'l word list \<Rightarrow> nat \<Rightarrow> nat \<Rightarrow>
   ('l word list \<times> 'l word \<times> 'l word list) option" where
  "liDivRem2n kn rc u v n sc =
     (let lo = n div 2; hi = n - lo
      in if n < liBZLimbs kn then
           let qh = (if liCmp (drop n u) v n \<ge> 0 then 1 else 0);
               u = (if qh \<noteq> 0 then take n u @ fst (liSubN (drop n u) v n) else u);
               (q, u) = liDivRem rc u v
           in Some (q, qh, u)
         else if n < 2 \<or> sc < n then None
         else do {
           (q1, qh, x) \<leftarrow> liDivRem2n kn rc (drop (2 * lo) u) (drop lo v) hi sc;
           let u = take (2 * lo) u @ x;
           t \<leftarrow> liMul kn q1 hi v lo (sc - n);
           (qh, q1, w) \<leftarrow> liDivRem2n_correct qh q1 (take n (drop lo u)) t v lo;
           let u = take lo u @ w @ drop (lo + n) u;
           (q0, ql, x) \<leftarrow> liDivRem2n kn rc (take (2 * lo) (drop hi u)) (drop hi v) lo sc;
           let u = take hi u @ x @ drop (n + lo) u;
           t \<leftarrow> liMul kn v hi q0 lo (sc - n);
           (ql, q0, w) \<leftarrow> liDivRem2n_correct ql q0 (take n u) t v hi;
           Some (q0 @ q1, qh, w @ drop n u)
         })"
  by pat_completeness auto
termination
  by (relation "measure (\<lambda>(kn, rc, u, v, n, sc). n)")
    (rule wf_measure, simp_all only: in_measure prod.case de_Morgan_disj not_less, linarith+)

declare liDivRem2n.simps [simp del]

definition liDivRemBZScratch :: "li_knobs \<Rightarrow> nat \<Rightarrow> nat \<Rightarrow> nat" where
  "liDivRemBZScratch kn qn vn =
     (let qb = (if qn mod vn = 0 then vn else qn mod vn);
          need = liDivRem2nScratch kn qb;
          need = (if qb < vn then
                    let big = (if qb > vn - qb then qb else vn - qb);
                        other = vn + liMulScratch kn big (vn - big)
                    in if other > need then other else need
                  else need);
          other = liDivRem2nScratch kn vn
      in if qn > qb \<and> other > need then other else need)"

text \<open>The blocks below the top one; \<open>j\<close> limbs of quotient are still to come.\<close>

function liDivRemBZ_blocks ::
  "li_knobs \<Rightarrow> ('l::len word \<Rightarrow> 'l word) \<Rightarrow> 'l word list \<Rightarrow> 'l word list \<Rightarrow> nat \<Rightarrow> 'l word list \<Rightarrow> nat \<Rightarrow>
   ('l word list \<times> 'l word list) option" where
  "liDivRemBZ_blocks kn rc u v j q sc =
     (let vn = length v
      in if j < vn \<or> vn = 0 then Some (q, u)
         else do {
           let j = j - vn;
           (q1, qh, x) \<leftarrow> liDivRem2n kn rc (take (2 * vn) (drop j u)) v vn sc;
           liDivRemBZ_blocks kn rc (take j u @ x @ drop (j + 2 * vn) u) v j (q1 @ q) sc
         })"
  by pat_completeness auto
termination
proof (relation "measure (\<lambda>(kn, rc, u, v, j, q, sc). j)", goal_cases)
  case (2 kn rc u v j q sc)
  then show ?case by (cases v) simp_all
qed simp

declare liDivRemBZ_blocks.simps [simp del]

definition liDivRemBZ ::
  "li_knobs \<Rightarrow> ('l::len word \<Rightarrow> 'l word) \<Rightarrow> 'l word list \<Rightarrow> 'l word list \<Rightarrow> nat \<Rightarrow>
   ('l word list \<times> 'l word list) option" where
  "liDivRemBZ kn rc u v sc =
     (let un = length u; vn = length v; qn = un - vn;
          qb = (if qn mod vn = 0 then vn else qn mod vn);
          j = qn - qb;
          m = vn - qb
      in do {
        (q1, qh, x) \<leftarrow> liDivRem2n kn rc (drop (j + m) u) (drop m v) qb sc;
        let u = take (j + m) u @ x;
        (q1, u) \<leftarrow> (if qb < vn then
            if sc < vn then None
            else do {
              t \<leftarrow> (if qb \<ge> m then liMul kn q1 qb v m (sc - vn) else liMul kn v m q1 qb (sc - vn));
              (qh, q1, w) \<leftarrow> liDivRem2n_correct qh q1 (take vn (drop j u)) t v m;
              Some (q1, take j u @ w @ drop (j + vn) u)
            }
          else Some (q1, u));
        liDivRemBZ_blocks kn rc u v j q1 sc
      })"

subsection \<open>Adding the divisor back\<close>

lemma liDivRem2n_addback_val:
  fixes q u v :: "'l::len word list"
  assumes V: "0 < val v" and len: "length u = length v"
    and A: "(unat qh * 2 ^ (LENGTH('l) * length q) + val q) * val v + val u = A + unat cy * 2 ^ (LENGTH('l) * length v)"
    and R: "val u < val v + unat cy * 2 ^ (LENGTH('l) * length v)"
  shows "\<exists>qh' q' u'. liDivRem2n_addback qh q cy u v = Some (qh', q', u') \<and> length q' = length q \<and>
    length u' = length v \<and> (unat qh' * 2 ^ (LENGTH('l) * length q) + val q') * val v + val u' = A \<and> val u' < val v"
  using len A R
proof (induction "unat cy * 2 ^ (LENGTH('l) * length v) - val u" arbitrary: qh q cy u rule: less_induct)
  case less
  define M where "M = (2::nat) ^ (LENGTH('l) * length v)"
  define K where "K = (2::nat) ^ (LENGTH('l) * length q)"
  have uM: "val u < M" using val_lt [of u] less.prems(1) by (simp add: M_def)
  note A = less.prems(2) [folded M_def K_def]
  note R = less.prems(3) [folded M_def]
  show ?case
  proof (cases "cy = 0")
    case True
    then show ?thesis using less.prems
      by (subst liDivRem2n_addback.simps) simp
  next
    case False
    then have cy: "1 \<le> unat cy" by (simp add: Suc_leI unat_gt_0)
    obtain q' b where q': "liSub1 q (length q) 1 = (q', b)" by fastforce
    obtain u' c where u': "liAddN u v (length v) = (u', c)" by fastforce
    have qv: "length q' = length q" "val q' + 1 = val q + K * unat b"
      using liSub1_val [OF q'] by (simp_all add: K_def)
    have uv: "length u' = length v" "unat c \<le> 1" "val u' + M * unat c = val u + val v"
      using liAddN_val [OF u'] less.prems(1) by (simp_all add: M_def)
    have "val q' < K" using val_lt [of q'] qv(1) by (simp add: K_def)
    then have "K * unat b \<le> K * 1" using qv(2) by linarith
    moreover have "0 < K" by (simp add: K_def)
    ultimately have b: "unat b \<le> 1" by simp
    have cyM: "unat cy * M \<ge> M" using cy by simp
    have "0 < (unat qh * K + val q) * val v" using A uM cyM by linarith
    then have Q: "0 < unat qh * K + val q" by simp
    have bqh: "unat b \<le> unat qh"
    proof (rule ccontr)
      assume "\<not> unat b \<le> unat qh"
      then have "unat qh = 0" "unat b = 1" using b by linarith+
      then show False using Q qv(2) \<open>val q' < K\<close> by simp
    qed
    then have qhb: "unat (qh - b) = unat qh - unat b" by (simp add: unat_sub word_le_nat_alt)
    have Q': "unat (qh - b) * K + val q' + 1 = unat qh * K + val q"
    proof -
      have "unat (qh - b) * K + K * unat b = unat qh * K"
        using bqh by (simp add: qhb mult.commute flip: distrib_left)
      then show ?thesis using qv(2) by linarith
    qed
    have cyc: "unat (cy - c) = unat cy - unat c"
      using cy uv(2) by (intro unat_sub) (simp add: word_le_nat_alt)
    have cM: "unat (cy - c) * M + M * unat c = unat cy * M"
      using cy uv(2) by (simp add: cyc mult.commute flip: distrib_left)
    have "unat (cy - c) * M - val u' < unat cy * M - val u"
      using cM uv(3) V uM cyM by linarith
    moreover have "(unat (qh - b) * K + val q') * val v + val u' = A + unat (cy - c) * M"
    proof -
      have "(unat qh * K + val q) * val v = (unat (qh - b) * K + val q') * val v + val v"
        unfolding Q' [symmetric] by (simp add: distrib_right)
      then show ?thesis using A cM uv(3) by linarith
    qed
    moreover have "val u' < val v + unat (cy - c) * M" using cM uv(3) uM cyM by linarith
    ultimately show ?thesis
      using less.hyps [of "cy - c" u' "qh - b" q'] uv(1) qv(1) False q' u'
      by (subst liDivRem2n_addback.simps) (simp add: M_def K_def)
  qed
qed

subsection \<open>One D3n2n step\<close>

lemma val_split: "m \<le> length (xs :: 'l::len word list) \<Longrightarrow>
  val xs = val (drop m xs) * 2 ^ (LENGTH('l) * m) + val (take m xs)"
  using val_take_drop [of m xs] by simp

text \<open>The value of \<open>cy\<close> after both subtractions: it may be 2, so limbs of one bit are excluded.\<close>

lemma unat_plus_small:
  fixes a b :: "'l::len word"
  assumes "2 \<le> LENGTH('l)" "unat a \<le> 1" "unat b \<le> 1"
  shows "unat (a + b) = unat a + unat b"
proof -
  have "(2::nat) ^ 2 \<le> 2 ^ LENGTH('l)" using assms(1) by (intro power_increasing) simp_all
  then show ?thesis using assms(2,3) by (simp add: unat_word_ariths)
qed

lemma liDivRem2n_correct_val:
  fixes q u t v :: "'l::len word list"
  assumes L: "2 \<le> LENGTH('l)" and len: "length u = length v" "length t = length v" "m \<le> length v" "length q = length v - m"
    and qh: "unat qh \<le> 1" and t: "val t = val q * val (take m v)"
    and u: "val u < val v"
  defines "K \<equiv> 2 ^ (LENGTH('l) * length q)"
  shows "\<exists>qh' q' u'. liDivRem2n_correct qh q u t v m = Some (qh', q', u') \<and> length q' = length q \<and>
    length u' = length v \<and>
    (unat qh' * K + val q') * val v + val u' =
      (unat qh * K + val q) * (val (drop m v) * 2 ^ (LENGTH('l) * m)) + val u \<and> val u' < val v"
proof -
  define M where "M = (2::nat) ^ (LENGTH('l) * length v)"
  define V0 where "V0 = val (take m v)"
  define k where "k = length v - m"
  define A where "A = (unat qh * K + val q) * (val (drop m v) * 2 ^ (LENGTH('l) * m)) + val u"
  have V: "val v = val (drop m v) * 2 ^ (LENGTH('l) * m) + V0"
    using val_split [OF len(3)] by (simp add: V0_def)
  obtain u1 c1 where u1: "liSubN u t (length v) = (u1, c1)" by fastforce
  have u1v: "length u1 = length v" "unat c1 \<le> 1" "val u1 + val t = val u + M * unat c1"
    using liSubN_val [OF u1] len by (simp_all add: M_def)
  obtain w c2 where w: "liSubN (drop k u1) v m = (w, c2)" by fastforce
  have wv: "length w = m" "unat c2 \<le> 1" "val w + V0 = val (drop k u1) + 2 ^ (LENGTH('l) * m) * unat c2"
    using liSubN_val [OF w] u1v(1) len(3) by (simp_all add: k_def V0_def)
  obtain u2 cy where u2: "(if qh \<noteq> 0 then (take k u1 @ w, c1 + c2) else (u1, c1)) = (u2, cy)" by fastforce
  have KM: "K * 2 ^ (LENGTH('l) * m) = M"
    using len(3,4) by (simp add: K_def M_def flip: power_add distrib_left)
  have ub: "length u2 = length v \<and> val u2 + (val q + unat qh * K) * V0 = val u + M * unat cy"
  proof (cases "qh = 0")
    case True
    then show ?thesis using u2 u1v t by (auto simp: V0_def)
  next
    case False
    then have q1: "unat qh = 1" using qh by (metis One_nat_def le_Suc_eq le_zero_eq unat_eq_zero)
    have cy: "unat cy = unat c1 + unat c2" "u2 = take k u1 @ w"
      using u2 False unat_plus_small [OF L u1v(2) wv(2)] by auto
    have "val u2 + K * V0 = val (take k u1) + K * (val w + V0)"
      using u1v(1) len(4) by (simp add: cy(2) val_append k_def K_def distrib_left)
    also have "\<dots> = val u1 + M * unat c2"
      using val_take_drop [of k u1] u1v(1) len(4)
      by (simp add: wv(3) distrib_left k_def KM [symmetric] K_def mult.assoc)
    finally have "val u2 + K * V0 = val u1 + M * unat c2" .
    moreover have "length u2 = length v" using u1v(1) wv(1) len(3) by (simp add: cy(2) k_def)
    ultimately show ?thesis using u1v(3) t q1 by (simp add: cy(1) distrib_left distrib_right V0_def)
  qed
  have R: "(unat qh * K + val q) * val v + val u2 = A + unat cy * M"
  proof -
    have "(unat qh * K + val q) * val v =
        (unat qh * K + val q) * (val (drop m v) * 2 ^ (LENGTH('l) * m)) + (val q + unat qh * K) * V0"
      unfolding V by (simp add: distrib_left add.commute)
    then show ?thesis using ub unfolding A_def by (simp add: mult.commute)
  qed
  have "val u2 < val v + unat cy * M" using ub u by (metis add.commute add_lessD1 add_less_cancel_right mult.commute)
  then obtain qh' q' u' where ab: "liDivRem2n_addback qh q cy u2 v = Some (qh', q', u')" "length q' = length q"
    "length u' = length v" "(unat qh' * K + val q') * val v + val u' = A" "val u' < val v"
    using liDivRem2n_addback_val [of v u2 qh q A cy] R ub u by (auto simp: K_def M_def)
  have "liDivRem2n_correct qh q u t v m = liDivRem2n_addback qh q cy u2 v"
    using u1 w u2 by (auto simp: liDivRem2n_correct_def Let_def k_def split: if_splits)
  with ab show ?thesis by (simp add: A_def)
qed

text \<open>A normalized divisor is at least half of its power, so a quotient of twice its length has one bit more.\<close>

lemma normalized_val:
  fixes v :: "'l::len word list"
  assumes "v \<noteq> []" "normalized (last v)"
  shows "2 ^ (LENGTH('l) * length v) \<le> 2 * val v" "0 < val v"
proof -
  obtain n where n: "length v = Suc n" using assms(1) by (cases v) auto
  have "val v = val (take n v) + 2 ^ (LENGTH('l) * n) * unat (last v)"
    using val_take_Suc [of n v] assms(1) n by (simp add: last_conv_nth)
  moreover have "2 ^ (LENGTH('l) * n) * 2 ^ LENGTH('l) \<le> 2 ^ (LENGTH('l) * n) * (2 * unat (last v))"
    using assms(2) by (simp add: normalized_def)
  ultimately show le: "2 ^ (LENGTH('l) * length v) \<le> 2 * val v"
    unfolding n mult_Suc_right power_add mult.commute [of "2 ^ LENGTH('l)"] by linarith
  show "0 < val v" using le by (cases "val v") simp_all
qed

lemma normalized_drop: "m < length v \<Longrightarrow> normalized (last v) \<Longrightarrow> normalized (last (drop m v))"
  by simp

lemma top_bit_quotient:
  assumes "U < M * M" "M \<le> 2 * V" "(x * M + y) * V + r = (U::nat)"
  shows "x \<le> 1"
proof (rule ccontr)
  assume "\<not> x \<le> 1"
  then have "2 * M \<le> x * M" by (intro mult_le_mono1) simp
  then have "2 * M \<le> x * M + y" by linarith
  then have "2 * M * V \<le> (x * M + y) * V" by (rule mult_le_mono1)
  moreover have "M * M \<le> M * (2 * V)" using assms(2) by (rule mult_le_mono2)
  moreover have "2 * M * V = M * (2 * V)" by simp
  ultimately show False using assms(1,3) by linarith
qed

lemma below_divisor_shift:
  fixes l w v :: "'l::len word list"
  assumes "val w < val v"
  shows "val (l @ w) < 2 ^ (LENGTH('l) * length l) * val v"
proof -
  have "val (l @ w) < 2 ^ (LENGTH('l) * length l) * (val w + 1)"
    using val_lt [of l] by (simp add: val_append)
  also have "\<dots> \<le> 2 ^ (LENGTH('l) * length l) * val v" using assms by (intro mult_le_mono2) simp
  finally show ?thesis .
qed

text \<open>An interface for the division of a normalized divisor's double length.\<close>

definition div2n_spec ::
  "'l::len word list \<Rightarrow> 'l word list \<Rightarrow> ('l word list \<times> 'l word \<times> 'l word list) option \<Rightarrow> bool" where
  "div2n_spec u v out \<longleftrightarrow> (\<exists>q qh r. out = Some (q, qh, r @ replicate (length v) 0) \<and>
     length q = length v \<and> length r = length v \<and> unat qh \<le> 1 \<and>
     val u = (unat qh * 2 ^ (LENGTH('l) * length v) + val q) * val v + val r \<and> val r < val v)"

locale recursive_division = reciprocal rc
  for rc :: "'l::len word \<Rightarrow> 'l word" +
  assumes limb_width: "2 \<le> LENGTH('l)"
begin

lemma liDivRem2n_base:
  fixes u v :: "'l word list"
  assumes v: "v \<noteq> []" "normalized (last v)" and u: "length u = 2 * length v"
    and base: "length v < liBZLimbs kn"
  shows "div2n_spec u v (liDivRem2n kn rc u v (length v) sc)"
proof -
  let ?n = "length v"
  define M where "M = (2::nat) ^ (LENGTH('l) * ?n)"
  define qh :: "'l word" where "qh = (if liCmp (drop ?n u) v ?n \<ge> 0 then 1 else 0)"
  define u1 where "u1 = (if qh \<noteq> 0 then take ?n u @ fst (liSubN (drop ?n u) v ?n) else u)"
  have cmp: "qh \<noteq> 0 \<longleftrightarrow> val v \<le> val (drop ?n u)"
    using liCmp_val [of ?n "drop ?n u" v] u by (auto simp: qh_def)
  have uv: "val u = val (take ?n u) + M * val (drop ?n u)"
    using val_take_drop [of ?n u] u by (simp add: M_def)
  have V: "M \<le> 2 * val v" using normalized_val [OF v] by (simp add: M_def)
  have top: "val (drop ?n u) < M" using val_lt [of "drop ?n u"] u by (simp add: M_def)
  have u1: "length u1 = 2 * ?n \<and> val (drop ?n u1) < val v \<and> val u = unat qh * M * val v + val u1"
  proof (cases "qh = 0")
    case True
    then show ?thesis using cmp u by (simp add: u1_def)
  next
    case False
    then have q1: "unat qh = 1" by (simp add: qh_def split: if_splits)
    obtain w c where w: "liSubN (drop ?n u) v ?n = (w, c)" by fastforce
    have wv: "length w = ?n" "unat c \<le> 1" "val w + val v = val (drop ?n u) + M * unat c"
      using liSubN_val [OF w] u by (simp_all add: M_def)
    have "val w < M" using val_lt [of w] wv(1) by (simp add: M_def)
    then have "unat c = 0"
      using wv(2,3) cmp False top
      by (cases "unat c") auto
    then have D: "val (drop ?n u) = val w + val v" using wv(3) by simp
    moreover have "val u1 = val (take ?n u) + M * val w" "drop ?n u1 = w" "length u1 = 2 * ?n"
      using False w wv(1) u by (simp_all add: u1_def val_append M_def)
    moreover have "val w < val v" using D top V by linarith
    ultimately show ?thesis using uv by (simp add: q1 distrib_left)
  qed
  obtain q r where qr: "liDivRem rc u1 v = (q, r @ replicate ?n 0)" "length q = ?n" "length r = ?n"
    "val u1 = val q * val v + val r" "val r < val v"
    using liDivRem_val [OF v, of u1] u1 v(1) by auto
  have "liDivRem2n kn rc u v ?n sc = Some (q, qh, r @ replicate ?n 0)"
    using base qr(1) by (subst liDivRem2n.simps) (simp add: Let_def flip: qh_def u1_def)
  moreover have "unat qh \<le> 1" by (simp add: qh_def)
  ultimately show ?thesis using u1 qr unfolding div2n_spec_def
    by (intro exI [of _ q] exI [of _ qh] exI [of _ r]) (simp add: M_def distrib_right)
qed

text \<open>Both D3n2n steps of the recursion, given the two half divisions.\<close>

lemma div2n_step:
  fixes A v :: "'l word list"
  assumes v: "v \<noteq> []" "normalized (last v)" and m: "m < length v"
    and A: "length A = length v + (length v - m)"
    and half: "div2n_spec (drop m A) (drop m v) (Some (q, qh, x))"
    and t: "length t = length v" "val t = val q * val (take m v)"
  shows "\<exists>qh' q' w. liDivRem2n_correct qh q (take (length v) (take m A @ x)) t v m = Some (qh', q', w) \<and>
    length q' = length v - m \<and> length w = length v \<and>
    val A = (unat qh' * 2 ^ (LENGTH('l) * (length v - m)) + val q') * val v + val w \<and> val w < val v"
proof -
  let ?k = "length v - m"
  define K where "K = (2::nat) ^ (LENGTH('l) * ?k)"
  obtain r where x: "x = r @ replicate ?k 0" "length q = ?k" "length r = ?k" "unat qh \<le> 1"
    "val (drop m A) = (unat qh * K + val q) * val (drop m v) + val r" "val r < val (drop m v)"
    using half unfolding div2n_spec_def by (auto simp: K_def)
  define u where "u = take m A @ r"
  have u: "take (length v) (take m A @ x) = u" "length u = length v"
    using x m A by (simp_all add: u_def)
  have uv: "val u = val (take m A) + 2 ^ (LENGTH('l) * m) * val r"
    using m A by (simp add: u_def val_append)
  have "val u < val v"
  proof -
    have "val (take m A) < 2 ^ (LENGTH('l) * m)" by (rule val_take_lt)
    then have "val u < 2 ^ (LENGTH('l) * m) * (val r + 1)" by (simp add: uv)
    also have "\<dots> \<le> 2 ^ (LENGTH('l) * m) * val (drop m v)" using x(6) by (intro mult_le_mono2) simp
    also have "\<dots> \<le> val v" using val_split [of m v] m by simp
    finally show ?thesis .
  qed
  then obtain qh' q' w where c: "liDivRem2n_correct qh q u t v m = Some (qh', q', w)" "length q' = ?k"
    "length w = length v"
    "(unat qh' * K + val q') * val v + val w =
      (unat qh * K + val q) * (val (drop m v) * 2 ^ (LENGTH('l) * m)) + val u" "val w < val v"
    using liDivRem2n_correct_val [OF limb_width u(2) t(1) _ _ x(4) t(2)] m x(2) by (auto simp: K_def)
  have "val A = val (take m A) + 2 ^ (LENGTH('l) * m) * ((unat qh * K + val q) * val (drop m v) + val r)"
    using val_take_drop [of m A] m A x(5) by simp
  then have "val A = (unat qh' * K + val q') * val v + val w"
    unfolding c(4) uv by (simp add: algebra_simps)
  then show ?thesis using c u(1) by (simp add: K_def)
qed

lemma no_high_limb:
  assumes "(unat (qh :: 'l word) * K + q) * V + r < K * V" "0 < K"
  shows "unat qh = 0"
proof (rule ccontr)
  assume "unat qh \<noteq> 0"
  then have "1 * K \<le> unat qh * K" by (intro mult_le_mono1) simp
  then have "K \<le> unat qh * K + q" by linarith
  then have "K * V \<le> (unat qh * K + q) * V" by (rule mult_le_mono1)
  then show False using assms by linarith
qed

lemma liDivRem2n_val:
  fixes u v :: "'l word list"
  assumes kn: "2 \<le> liKaratsubaLimbs kn" "2 \<le> liBZLimbs kn"
    and "v \<noteq> []" "normalized (last v)" "length v = n" "length u = 2 * n" "liDivRem2nScratch kn n \<le> sc"
  shows "div2n_spec u v (liDivRem2n kn rc u v n sc)"
  using assms(3-)
proof (induction n arbitrary: u v rule: less_induct)
  case (less n)
  note v = less.prems(1,2) and n = less.prems(3) and u = less.prems(4)
  show ?case
  proof (cases "n < liBZLimbs kn")
    case True
    then show ?thesis using liDivRem2n_base [OF v, of u kn sc] u n by simp
  next
    case False
    define lo where "lo = n div 2"
    define hi where "hi = n - lo"
    have n2: "2 \<le> n" using False kn(2) by linarith
    have lh: "lo + hi = n" "1 \<le> lo" "lo \<le> hi" "hi < n" "lo < n" "2 * n - 2 * lo = 2 * hi" "n + lo - hi = 2 * lo"
    using n2 by (simp_all add: lo_def hi_def)
    have sc: "n + liMulScratch kn hi lo \<le> sc" "liDivRem2nScratch kn hi \<le> sc" "liDivRem2nScratch kn lo \<le> sc"
      using less.prems(5) False n2
      by (subst (asm) liDivRem2nScratch.simps; simp add: Let_def lo_def hi_def split: if_splits)+
    have k1: "div2n_spec (drop (2 * lo) u) (drop lo v) (liDivRem2n kn rc (drop (2 * lo) u) (drop lo v) hi sc)"
      using less.IH [OF lh(4), of "drop lo v" "drop (2 * lo) u"] v n u lh sc by simp
    then obtain q1 qh x where r1: "liDivRem2n kn rc (drop (2 * lo) u) (drop lo v) hi sc = Some (q1, qh, x)"
      "length q1 = hi" "length x = 2 * hi"
      using n lh unfolding div2n_spec_def by auto
    obtain t1 where t1: "liMul kn q1 hi v lo (sc - n) = Some t1" "length t1 = n" "val t1 = val q1 * val (take lo v)"
      by (rule liMul_correct [OF kn(1) lh(2,3), of q1 v "sc - n"]) (use r1(2) n lh sc in auto)
    define A where "A = drop lo u"
    have A: "length A = length v + (length v - lo)" "drop lo A = drop (2 * lo) u"
      using u n lh by (simp_all add: A_def mult_2)
    obtain qh1 q1' w where c1: "liDivRem2n_correct qh q1 (take n (take lo A @ x)) t1 v lo = Some (qh1, q1', w)"
      "length q1' = hi" "length w = n"
      "val A = (unat qh1 * 2 ^ (LENGTH('l) * hi) + val q1') * val v + val w" "val w < val v"
      using div2n_step [OF v _ A(1), of q1 qh x t1] k1 r1(1) t1 n lh A(2) by (auto simp: hi_def)
    obtain r1' where x: "x = r1' @ replicate hi 0" "length r1' = hi"
      using k1 r1(1) n unfolding div2n_spec_def by (auto simp: hi_def)
    define u1 where "u1 = take (2 * lo) u @ x"
    have "drop lo (take (2 * lo) u) = take lo A" by (simp add: A_def drop_take mult_2)
    then have u1: "take n (drop lo u1) = take n (take lo A @ x)" "take lo u1 = take lo u"
      "drop (lo + n) u1 = replicate hi 0"
      using u lh x by (simp_all add: u1_def)
    define L where "L = take lo u @ w"
    have L: "length L = length v + (length v - hi)" using u n lh c1(3) by (simp add: L_def)
    have e: "n - hi = lo" using lh(1) by linarith
    have k2: "div2n_spec (drop hi L) (drop hi v) (liDivRem2n kn rc (drop hi L) (drop hi v) lo sc)"
      using less.IH [OF lh(5), of "drop hi v" "drop hi L"] v n lh sc L by simp
    then obtain q0 ql y r0 where r2: "liDivRem2n kn rc (drop hi L) (drop hi v) lo sc = Some (q0, ql, y)"
      "length q0 = lo" "y = r0 @ replicate lo 0" "length r0 = lo"
      unfolding div2n_spec_def by (auto simp: n e)
    obtain t2 where t2: "liMul kn v hi q0 lo (sc - n) = Some t2" "length t2 = n" "val t2 = val (take hi v) * val q0"
      by (rule liMul_correct [OF kn(1) lh(2,3), of v q0 "sc - n"]) (use r2(2) n lh sc in auto)
    obtain qh2 q0' w2 where c2: "liDivRem2n_correct ql q0 (take n (take hi L @ y)) t2 v hi = Some (qh2, q0', w2)"
      "length q0' = lo" "length w2 = n"
      "val L = (unat qh2 * 2 ^ (LENGTH('l) * lo) + val q0') * val v + val w2" "val w2 < val v"
      using div2n_step [OF v _ L, of q0 ql y t2] k2 r2(1) t2 n lh by (auto simp: e)
    define u2 where "u2 = take lo u1 @ w @ drop (lo + n) u1"
    have u2: "u2 = L @ replicate hi 0" by (simp add: u2_def L_def u1)
    have d2: "take (2 * lo) (drop hi u2) = drop hi L" "take hi u2 = take hi L" "drop (n + lo) u2 = replicate hi 0"
      using L n lh by (simp_all add: u2)
    define u3 where "u3 = take hi u2 @ y @ drop (n + lo) u2"
    have u3: "take n u3 = take n (take hi L @ y)" "drop n u3 = replicate n 0"
      using L n lh r2(3,4) by (simp_all add: u3_def d2 replicate_add [symmetric])
    have "liDivRem2n kn rc u v n sc = Some (q0' @ q1', qh1, w2 @ drop n u3)"
    proof -
      have "\<not> (n < 2 \<or> sc < n)" using n2 sc by linarith
      then show ?thesis
        by (subst liDivRem2n.simps) (simp only: Let_def False if_False lo_def [symmetric] hi_def [symmetric]
          r1(1) u1_def [symmetric] t1(1) u1(1) c1(1) u2_def [symmetric] d2(1) r2(1) u3_def [symmetric]
          t2(1) u3(1) c2(1) Option.bind.simps prod.case)
    qed
    moreover have "val u = (unat qh1 * 2 ^ (LENGTH('l) * n) + val (q0' @ q1')) * val v + val w2"
    proof -
      define Q1 where "Q1 = unat qh1 * 2 ^ (LENGTH('l) * hi) + val q1'"
      have "val L < 2 ^ (LENGTH('l) * lo) * val v"
        using below_divisor_shift [OF c1(5), of "take lo u"] u lh by (simp add: L_def)
      then have "unat qh2 = 0" using no_high_limb [of qh2 "2 ^ (LENGTH('l) * lo)"] c2(4) by simp
      then have L': "val L = val q0' * val v + val w2" using c2(4) by simp
      have "val u = val (take lo u) + 2 ^ (LENGTH('l) * lo) * (Q1 * val v + val w)"
        using val_take_drop [of lo u] u lh c1(4) by (simp add: A_def Q1_def)
      also have "\<dots> = 2 ^ (LENGTH('l) * lo) * Q1 * val v + val L"
        using u lh by (simp add: L_def val_append algebra_simps)
      also have "2 ^ (LENGTH('l) * lo) * Q1 = unat qh1 * 2 ^ (LENGTH('l) * n) + 2 ^ (LENGTH('l) * lo) * val q1'"
      proof -
        have "2 ^ (LENGTH('l) * lo) * 2 ^ (LENGTH('l) * hi) = (2::nat) ^ (LENGTH('l) * n)"
          by (simp only: lh(1) flip: power_add distrib_left)
        then show ?thesis by (simp add: Q1_def distrib_left mult.left_commute)
      qed
      finally show ?thesis using c2(2) by (simp add: L' val_append algebra_simps)
    qed
    moreover have "unat qh1 \<le> 1"
    proof (rule top_bit_quotient)
      show "val u < 2 ^ (LENGTH('l) * n) * 2 ^ (LENGTH('l) * n)"
        using val_lt [of u] u by (simp add: mult_2 power_add distrib_left)
      show "2 ^ (LENGTH('l) * n) \<le> 2 * val v" using normalized_val(1) [OF v] n by simp
      show "(unat qh1 * 2 ^ (LENGTH('l) * n) + val (q0' @ q1')) * val v + val w2 = val u"
        using \<open>val u = _\<close> by simp
    qed
    ultimately show ?thesis using c1 c2 u3(2) n lh
      unfolding div2n_spec_def by auto
  qed
qed

subsection \<open>Quotients longer than the divisor\<close>

lemma liDivRemBZ_blocks_val:
  fixes v :: "'l word list"
  assumes kn: "2 \<le> liKaratsubaLimbs kn" "2 \<le> liBZLimbs kn"
    and v: "v \<noteq> []" "normalized (last v)" and sc: "0 < k \<Longrightarrow> liDivRem2nScratch kn (length v) \<le> sc"
    and u: "length l = k * length v" "length r = length v" "val r < val v"
  shows "\<exists>q' r'. liDivRemBZ_blocks kn rc (l @ r @ replicate z 0) v (k * length v) q sc
      = Some (q' @ q, r' @ replicate (k * length v + z) 0) \<and> length q' = k * length v \<and> length r' = length v \<and>
    val (l @ r) = val q' * val v + val r' \<and> val r' < val v"
  using sc u
proof (induction k arbitrary: l r z q)
  case 0
  then show ?case using v(1) by (subst liDivRemBZ_blocks.simps) simp
next
  case (Suc k)
  let ?n = "length v"
  have n: "0 < ?n" using v(1) by simp
  define j where "j = k * ?n"
  define l1 where "l1 = take j l"
  define l0 where "l0 = drop j l"
  have l: "l = l1 @ l0" "length l1 = j" "length l0 = ?n"
    using Suc.prems(2) by (simp_all add: l1_def l0_def j_def)
  have "div2n_spec (l0 @ r) v (liDivRem2n kn rc (l0 @ r) v ?n sc)"
    using liDivRem2n_val [OF kn v refl, of "l0 @ r" sc] Suc.prems l by simp
  then obtain q1 qh r1 where d: "liDivRem2n kn rc (l0 @ r) v ?n sc = Some (q1, qh, r1 @ replicate ?n 0)"
    "length q1 = ?n" "length r1 = ?n"
    "val (l0 @ r) = (unat qh * 2 ^ (LENGTH('l) * ?n) + val q1) * val v + val r1" "val r1 < val v"
    unfolding div2n_spec_def by auto
  have "unat qh = 0"
    using below_divisor_shift [OF Suc.prems(4), of l0] d(4) l(3)
      no_high_limb [of qh "2 ^ (LENGTH('l) * ?n)" "val q1" "val v" "val r1"] by simp
  then have d4: "val (l0 @ r) = val q1 * val v + val r1" using d(4) by simp
  have "0 < Suc k" by simp
  note sc = Suc.prems(1) [OF this]
  obtain q' r' where IH: "liDivRemBZ_blocks kn rc (l1 @ r1 @ replicate (?n + z) 0) v (k * ?n) (q1 @ q) sc
      = Some (q' @ q1 @ q, r' @ replicate (k * ?n + (?n + z)) 0)" "length q' = k * ?n" "length r' = ?n"
    "val (l1 @ r1) = val q' * val v + val r'" "val r' < val v"
    using Suc.IH [OF sc, of l1 r1 "?n + z" "q1 @ q"] l(2) d(3,5) by (auto simp: j_def)
  have "liDivRemBZ_blocks kn rc (l @ r @ replicate z 0) v (Suc k * ?n) q sc
      = liDivRemBZ_blocks kn rc (l1 @ r1 @ replicate (?n + z) 0) v (k * ?n) (q1 @ q) sc"
  proof -
    have 1: "Suc k * ?n - ?n = j" by (simp add: j_def)
    have 2: "take (2 * ?n) (drop j (l @ r @ replicate z 0)) = l0 @ r"
      "take j (l @ r @ replicate z 0) = l1" "drop (j + 2 * ?n) (l @ r @ replicate z 0) = replicate z 0"
      using l Suc.prems(3) by simp_all
    have 3: "(Suc k * ?n < ?n \<or> ?n = 0) = False" using n by simp
    show ?thesis
      by (subst liDivRemBZ_blocks.simps)
        (simp only: Let_def 1 2 3 if_False d(1) Option.bind.simps prod.case append_assoc replicate_add j_def [symmetric])
  qed
  moreover have "val (l @ r) = val (q' @ q1) * val v + val r'"
  proof -
    have "val (l @ r) = val l1 + 2 ^ (LENGTH('l) * j) * val (l0 @ r)"
      using l by (simp add: val_append)
    also have "\<dots> = val (l1 @ r1) + 2 ^ (LENGTH('l) * j) * val q1 * val v"
      unfolding d4 using l(2) by (simp add: val_append algebra_simps)
    also have "\<dots> = val (q' @ q1) * val v + val r'"
      using IH(2,4) by (simp add: val_append j_def algebra_simps)
    finally show ?thesis .
  qed
  ultimately show ?case using IH d(2) by (auto simp: add.commute add.left_commute)
qed

lemma liDivRemBZ_val:
  fixes u v :: "'l word list"
  assumes kn: "2 \<le> liKaratsubaLimbs kn" "2 \<le> liBZLimbs kn"
    and v: "v \<noteq> []" "normalized (last v)" and un: "length v < length u"
    and top: "val (drop (length u - length v) u) < val v"
    and sc: "liDivRemBZScratch kn (length u - length v) (length v) \<le> sc"
  shows "\<exists>q r. liDivRemBZ kn rc u v sc = Some (q, r @ replicate (length u - length v) 0) \<and>
    length q = length u - length v \<and> length r = length v \<and> val u = val q * val v + val r \<and> val r < val v"
proof -
  let ?n = "length v"
  define qn where "qn = length u - ?n"
  define qb where "qb = (if qn mod ?n = 0 then ?n else qn mod ?n)"
  define j where "j = qn - qb"
  define m where "m = ?n - qb"
  have n: "0 < ?n" using v(1) by simp
  have qn: "0 < qn" "length u = qn + ?n" using un by (simp_all add: qn_def)
  have qb: "0 < qb" "qb \<le> ?n" "qb \<le> qn"
  proof -
    show "0 < qb" using n by (simp add: qb_def)
    show "qb \<le> ?n" using n by (simp add: qb_def less_imp_le)
    show "qb \<le> qn"
    proof (cases "qn mod ?n = 0")
      case True
      then show ?thesis using qn(1) by (auto simp: qb_def intro: dvd_imp_le dvd_trans)
    qed (simp add: qb_def)
  qed
  have "(qn - qb) mod ?n = 0"
  proof (cases "qn mod ?n = 0")
    case True
    then show ?thesis using qb(3) by (simp add: qb_def mod_if le_mod_geq [symmetric])
  next
    case False
    then show ?thesis by (simp add: qb_def minus_mod_eq_mult_div)
  qed
  then have "?n dvd j" unfolding j_def by (rule mod_0_imp_dvd)
  then obtain k where k: "j = k * ?n" by (auto simp: dvd_def mult.commute)
  define A where "A = drop j u"
  have jm: "j + m + 2 * qb = length u" "m + qb = ?n" using qb qn by (simp_all add: j_def m_def)
  have e: "?n - m = qb" using jm(2) by linarith
  have lenA: "length A = ?n + qb" using jm by (simp add: A_def)
  have sc1: "liDivRem2nScratch kn qb \<le> sc"
    "qb < ?n \<Longrightarrow> ?n + liMulScratch kn (if qb > m then qb else m) (?n - (if qb > m then qb else m)) \<le> sc"
    "0 < k \<Longrightarrow> liDivRem2nScratch kn ?n \<le> sc"
    using sc k j_def n
    by (auto simp: liDivRemBZScratch_def Let_def m_def simp flip: qn_def qb_def split: if_splits)
  have half: "div2n_spec (drop m A) (drop m v) (liDivRem2n kn rc (drop m A) (drop m v) qb sc)"
    using liDivRem2n_val [OF kn, of "drop m v" qb "drop m A" sc] v qb jm lenA sc1(1) by simp
  then obtain q1 qh r1 where d: "liDivRem2n kn rc (drop m A) (drop m v) qb sc = Some (q1, qh, r1 @ replicate qb 0)"
    "length q1 = qb" "length r1 = qb" "unat qh \<le> 1"
    "val (drop m A) = (unat qh * 2 ^ (LENGTH('l) * qb) + val q1) * val (drop m v) + val r1" "val r1 < val (drop m v)"
    unfolding div2n_spec_def by (auto simp: e)
  define x where "x = r1 @ replicate qb 0"
  have Ax: "drop j (take (j + m) u @ x) = take m A @ x" "take j (take (j + m) u @ x) = take j u"
    "drop (j + ?n) (take (j + m) u @ x) = replicate qb 0"
    using jm d(3) by (simp_all add: A_def x_def drop_take)
  have topA: "val A < 2 ^ (LENGTH('l) * qb) * val v"
  proof -
    have "drop (length u - ?n) u = drop qb A" using qn qb by (simp add: A_def j_def)
    then have "val (drop qb A) < val v" using top by simp
    from below_divisor_shift [OF this, of "take qb A"] show ?thesis using lenA by simp
  qed
  define bs where "bs = (\<lambda>(q1, u). liDivRemBZ_blocks kn rc u v j q1 sc)"
  have unf: "liDivRemBZ kn rc u v sc = ((if qb < ?n then
            if sc < ?n then None
            else do {
              t \<leftarrow> (if qb \<ge> m then liMul kn q1 qb v m (sc - ?n) else liMul kn v m q1 qb (sc - ?n));
              (qh, q1, w) \<leftarrow> liDivRem2n_correct qh q1 (take ?n (take m A @ x)) t v m;
              Some (q1, take j u @ w @ replicate qb 0)
            }
          else Some (q1, take (j + m) u @ x)) \<bind> bs)"
  proof -
    have "drop (j + m) u = drop m A" by (simp add: A_def add.commute)
    then show ?thesis
      unfolding liDivRemBZ_def Let_def qn_def [symmetric] qb_def [symmetric] j_def [symmetric] m_def [symmetric]
      by (simp only: d(1) x_def [symmetric] Option.bind.simps prod.case Ax bs_def)
  qed
  have "\<exists>q1 w. liDivRemBZ kn rc u v sc = bs (q1, take j u @ w @ replicate qb 0) \<and> length q1 = qb \<and>
    length w = ?n \<and> val A = val q1 * val v + val w \<and> val w < val v"
  proof (cases "qb < ?n")
    case False
    then have eq: "qb = ?n" "m = 0" using qb by (simp_all add: m_def)
    have "unat qh = 0"
      using no_high_limb [of qh "2 ^ (LENGTH('l) * qb)" "val q1" "val v" "val r1"] d(5) topA eq by simp
    then show ?thesis using d eq
      by (intro exI [of _ q1] exI [of _ r1]) (simp add: unf x_def)
  next
    case True
    have sc2: "?n \<le> sc" using sc1(2) [OF True] by linarith
    have m1: "1 \<le> m" "m < ?n" using True qb jm(2) by (simp_all add: m_def)
    obtain t where t: "(if qb \<ge> m then liMul kn q1 qb v m (sc - ?n) else liMul kn v m q1 qb (sc - ?n)) = Some t"
      "length t = ?n" "val t = val q1 * val (take m v)"
    proof (cases "qb \<ge> m")
      case True
      then have "liMulScratch kn qb m \<le> sc - ?n" using sc1(2) [OF \<open>qb < ?n\<close>] e m_def [symmetric]
        by (cases "qb = m") auto
      from liMul_correct [OF kn(1) m1(1) True _ _ this, of q1 v] that show ?thesis
        using True d(2) m1(2) jm(2) by (auto simp: add.commute)
    next
      case False
      then have "liMulScratch kn m qb \<le> sc - ?n" using sc1(2) [OF \<open>qb < ?n\<close>] e by auto
      from liMul_correct [OF kn(1) _ _ _ _ this, of v q1] that show ?thesis
        using False d(2) m1(2) jm(2) qb(1) by (auto simp: Suc_le_eq mult.commute)
    qed
    have "div2n_spec (drop m A) (drop m v) (Some (q1, qh, x))" using half d(1) by (simp add: x_def)
    then obtain qh1 q1' w where c: "liDivRem2n_correct qh q1 (take ?n (take m A @ x)) t v m = Some (qh1, q1', w)"
      "length q1' = qb" "length w = ?n"
      "val A = (unat qh1 * 2 ^ (LENGTH('l) * qb) + val q1') * val v + val w" "val w < val v"
      using div2n_step [OF v m1(2), of A q1 qh x t] t(2,3) lenA by (auto simp: e)
    have "unat qh1 = 0"
      using no_high_limb [of qh1 "2 ^ (LENGTH('l) * qb)" "val q1'" "val v" "val w"] c(4) topA by simp
    then show ?thesis using True sc2 t(1) c by (intro exI [of _ q1'] exI [of _ w]) (simp add: unf)
  qed
  then obtain q1' w where top': "liDivRemBZ kn rc u v sc = bs (q1', take j u @ w @ replicate qb 0)" "length q1' = qb"
    "length w = ?n" "val A = val q1' * val v + val w" "val w < val v" by blast
  have lj: "length (take j u) = k * ?n" using jm k by simp
  obtain q' r' where b: "liDivRemBZ_blocks kn rc (take j u @ w @ replicate qb 0) v (k * ?n) q1' sc
      = Some (q' @ q1', r' @ replicate (k * ?n + qb) 0)" "length q' = k * ?n" "length r' = ?n"
    "val (take j u @ w) = val q' * val v + val r'" "val r' < val v"
    using liDivRemBZ_blocks_val [OF kn v sc1(3) lj top'(3,5), of qb q1'] by auto
  have "val u = val (take j u) + 2 ^ (LENGTH('l) * j) * val A"
    using val_take_drop [of j u] jm by (simp add: A_def)
  also have "\<dots> = val (take j u @ w) + 2 ^ (LENGTH('l) * j) * val q1' * val v"
    using lj k by (simp add: top'(4) val_append distrib_left)
  also have "\<dots> = val (q' @ q1') * val v + val r'"
    using b(2,4) k by (simp add: val_append distrib_right)
  finally have "val u = val (q' @ q1') * val v + val r'" .
  moreover have "k * ?n + qb = qn" using k qb by (simp add: j_def)
  ultimately show ?thesis using top'(1,2) b k
    by (intro exI [of _ "q' @ q1'"] exI [of _ r']) (simp add: bs_def qn_def)
qed

end

interpretation bz64: recursive_division liReciprocal64
  by unfold_locales simp

interpretation bz32: recursive_division liReciprocal32
  by unfold_locales simp

text \<open>
  C7: Burnikel and Ziegler's division, of both builds, for any thresholds the \<open>#error\<close> lines admit: given the scratch
  \<open>liDivRemBZScratch\<close> answers it ends (its add-back loops have no bound of their own), stays inside the
  scratch, and answers the quotient and the remainder, under the contract of \<open>liDivRem\<close>.
\<close>
theorem liDivRemBZ_divides:
  fixes u v :: "64 word list" and u' v' :: "32 word list"
  assumes "knobs_ok kn"
    and "v \<noteq> []" "normalized (last v)" "length v < length u" "val (drop (length u - length v) u) < val v"
    and "v' \<noteq> []" "normalized (last v')" "length v' < length u'" "val (drop (length u' - length v') u') < val v'"
  shows "(\<exists>q r. liDivRemBZ kn liReciprocal64 u v (liDivRemBZScratch kn (length u - length v) (length v)) =
        Some (q, r @ replicate (length u - length v) 0) \<and>
      length q = length u - length v \<and> length r = length v \<and> val q = val u div val v \<and> val r = val u mod val v) \<and>
    (\<exists>q r. liDivRemBZ kn liReciprocal32 u' v' (liDivRemBZScratch kn (length u' - length v') (length v')) =
        Some (q, r @ replicate (length u' - length v') 0) \<and>
      length q = length u' - length v' \<and> length r = length v' \<and> val q = val u' div val v' \<and> val r = val u' mod val v')"
proof (rule conjI)
  have kn: "2 \<le> liKaratsubaLimbs kn" "2 \<le> liBZLimbs kn" using assms(1) by (simp_all add: knobs_ok_def)
  show "\<exists>q r. liDivRemBZ kn liReciprocal64 u v (liDivRemBZScratch kn (length u - length v) (length v)) =
        Some (q, r @ replicate (length u - length v) 0) \<and>
      length q = length u - length v \<and> length r = length v \<and> val q = val u div val v \<and> val r = val u mod val v"
    using bz64.liDivRemBZ_val [OF kn assms(2-5) order.refl] div_mod_unique by metis
  show "\<exists>q r. liDivRemBZ kn liReciprocal32 u' v' (liDivRemBZScratch kn (length u' - length v') (length v')) =
        Some (q, r @ replicate (length u' - length v') 0) \<and>
      length q = length u' - length v' \<and> length r = length v' \<and> val q = val u' div val v' \<and> val r = val u' mod val v'"
    using bz32.liDivRemBZ_val [OF kn assms(6-9) order.refl] div_mod_unique by metis
qed

text \<open>Both recurse: the divisors are longer than the threshold of two limbs.\<close>
theorem liDivRemBZ_divides_witness:
  "(\<exists>q r. liDivRemBZ (knobs64\<lparr>liKaratsubaLimbs := 2, liBZLimbs := 2\<rparr>) liReciprocal64 [1, 2, 3, 4, 5, 2 ^ 62 :: 64 word] [9, 8, 2 ^ 63 :: 64 word]
        (liDivRemBZScratch (knobs64\<lparr>liKaratsubaLimbs := 2, liBZLimbs := 2\<rparr>) (length [1, 2, 3, 4, 5, 2 ^ 62 :: 64 word] - length [9, 8, 2 ^ 63 :: 64 word]) (length [9, 8, 2 ^ 63 :: 64 word])) =
        Some (q, r @ replicate (length [1, 2, 3, 4, 5, 2 ^ 62 :: 64 word] - length [9, 8, 2 ^ 63 :: 64 word]) 0) \<and>
      length q = length [1, 2, 3, 4, 5, 2 ^ 62 :: 64 word] - length [9, 8, 2 ^ 63 :: 64 word] \<and> length r = length [9, 8, 2 ^ 63 :: 64 word] \<and>
      val q = val [1, 2, 3, 4, 5, 2 ^ 62 :: 64 word] div val [9, 8, 2 ^ 63 :: 64 word] \<and> val r = val [1, 2, 3, 4, 5, 2 ^ 62 :: 64 word] mod val [9, 8, 2 ^ 63 :: 64 word]) \<and>
   (\<exists>q r. liDivRemBZ (knobs64\<lparr>liKaratsubaLimbs := 2, liBZLimbs := 2\<rparr>) liReciprocal32 [1, 2, 3, 4, 5, 6, 2 ^ 30 :: 32 word] [9, 2 ^ 31 :: 32 word]
        (liDivRemBZScratch (knobs64\<lparr>liKaratsubaLimbs := 2, liBZLimbs := 2\<rparr>) (length [1, 2, 3, 4, 5, 6, 2 ^ 30 :: 32 word] - length [9, 2 ^ 31 :: 32 word]) (length [9, 2 ^ 31 :: 32 word])) =
        Some (q, r @ replicate (length [1, 2, 3, 4, 5, 6, 2 ^ 30 :: 32 word] - length [9, 2 ^ 31 :: 32 word]) 0) \<and>
      length q = length [1, 2, 3, 4, 5, 6, 2 ^ 30 :: 32 word] - length [9, 2 ^ 31 :: 32 word] \<and> length r = length [9, 2 ^ 31 :: 32 word] \<and>
      val q = val [1, 2, 3, 4, 5, 6, 2 ^ 30 :: 32 word] div val [9, 2 ^ 31 :: 32 word] \<and> val r = val [1, 2, 3, 4, 5, 6, 2 ^ 30 :: 32 word] mod val [9, 2 ^ 31 :: 32 word])"
  by (rule liDivRemBZ_divides) (simp_all add: normalized_def knobs_ok_def knobs64_def)

end
