(* ===== verification/DigitDiv.thy ===== *)
theory DigitDiv
  imports DigitMul LimbBZ
begin

text \<open>
  The entry point of the division, \<open>liDigitDiv\<close> of \<open>LargeIntegersKernels.c\<close>, over 32-bit digits: the
  original loop \<open>liDigitDiv32\<close> and the dispatch to algorithm D and to Burnikel and Ziegler's division
  over limbs. \<open>None\<close> is undefined behaviour: an access outside an array, a division by zero, a loop
  that does not end.
\<close>

subsection \<open>The original 32-bit loop\<close>

text \<open>
  The inner \<open>while\<close>: \<open>mhi\<close> and \<open>mlo\<close> (\<open>hi\<close> and \<open>lo\<close> in the code) are the halves of \<open>q * dnh\<close>, kept as the code keeps them; instead of
  raising the remainder \<open>t\<close> by \<open>dh\<close> it lowers \<open>mhi\<close>.
\<close>

partial_function (option) liDigitDiv32_test ::
  "64 word \<Rightarrow> 64 word \<Rightarrow> 64 word \<Rightarrow> 64 word \<Rightarrow> 64 word \<Rightarrow> 64 word \<Rightarrow> 64 word \<Rightarrow> 64 word option" where
  "liDigitDiv32_test q mhi mlo t r3 dh dnh =
     (let (q, mhi, mlo, cond) =
        (if t < mhi \<or> (t = mhi \<and> r3 < mlo) then
           let q = q - 1
           in if mhi = 0 then (q, mhi, mlo, False)
              else let (mhi, mlo) = (if mlo < dnh then (mhi - 1, mlo + 0x100000000 - dnh) else (mhi, mlo - dnh))
                   in (q, mhi, mlo, mhi \<ge> dh)
         else (q, mhi, mlo, False))
      in if \<not> cond then Some q
         else liDigitDiv32_test q (mhi - dh) mlo t r3 dh dnh)"

definition liDigitDiv32_q :: "digits \<Rightarrow> nat \<Rightarrow> digits \<Rightarrow> nat \<Rightarrow> 64 word option" where
  "liDigitDiv32_q pDiv dl w j =
     (let dh = ucast (pDiv ! (dl - 1));
          dnh = (if dl = 1 then 0 else ucast (pDiv ! (dl - 2)))
      in if ucast (w ! dl) = dh then Some 0xFFFFFFFF
         else if dh = 0 then None
         else let r1r2 = ucast (w ! dl);
                  r1r2 = push_bit 32 r1r2 + ucast (w ! (dl - 1));
                  t = r1r2 mod dh;
                  q = r1r2 div dh;
                  mul = q * dnh;
                  hi = drop_bit 32 mul;
                  lo = mul AND 0xFFFFFFFF;
                  r3 = (if j < 3 then 0 else ucast (w ! (dl - 2)))
              in liDigitDiv32_test q hi lo t r3 dh dnh)"

text \<open>The multiply-and-subtract pass and the add-back pass over the window of the remainder.\<close>

fun liDigitDiv32_sub :: "digits \<Rightarrow> digits \<Rightarrow> 64 word \<Rightarrow> 64 word \<Rightarrow> digits \<times> 64 word" where
  "liDigitDiv32_sub (d # pDiv) (r # pRem) q a =
     (let hi = ucast d * drop_bit 32 q;
          lo = ucast d * (q AND 0xFFFFFFFF);
          b = (ucast r - a) - (lo AND 0xFFFFFFFF);
          b' = drop_bit 32 b OR ((0 - drop_bit 0x3F b) AND 0xFFFFFFFF00000000);
          (w, a') = liDigitDiv32_sub pDiv pRem q ((hi + drop_bit 32 lo) - b')
      in (ucast (b AND 0xFFFFFFFF) # w, a'))"
| "liDigitDiv32_sub pDiv pRem q a = ([], a)"

fun liDigitDiv32_add :: "digits \<Rightarrow> digits \<Rightarrow> 64 word \<Rightarrow> digits" where
  "liDigitDiv32_add (d # pDiv) (r # pRem) a =
     (let a = (drop_bit 32 a + ucast r) + ucast d
      in ucast (a AND 0xFFFFFFFF) # liDigitDiv32_add pDiv pRem a)"
| "liDigitDiv32_add pDiv pRem a = []"

text \<open>
  One quotient digit; \<open>w\<close> is the remainder from index \<open>l - 1 = j - dl - 1\<close> on, which the passes walk
  for \<open>divLen\<close> digits.
\<close>

definition liDigitDiv32_step :: "digits \<Rightarrow> nat \<Rightarrow> digits \<Rightarrow> (32 word \<times> digits) option" where
  "liDigitDiv32_step pDiv j w =
     (let divLen = length pDiv; dl = divLen - 1
      in if length w < divLen then None
         else do {
           q \<leftarrow> liDigitDiv32_q pDiv dl w j;
           let (r, a) = liDigitDiv32_sub pDiv (take divLen w) q 0;
           let (q, r) = (if a > 0 then (q - 1, liDigitDiv32_add pDiv r 0) else (q, r));
           Some (ucast q, r @ drop divLen w)
         })"

text \<open>The loop over \<open>k\<close>; the counter is the number of quotient digits left, \<open>j = left + dl\<close>.\<close>

fun liDigitDiv32_loop :: "digits \<Rightarrow> digits \<Rightarrow> nat \<Rightarrow> nat \<Rightarrow> digits \<Rightarrow> (digits \<times> digits) option" where
  "liDigitDiv32_loop pDiv pRem off 0 pQuo = Some (pQuo, pRem)"
| "liDigitDiv32_loop pDiv pRem off (Suc left) pQuo =
     (let j = off + Suc left; dl = length pDiv - 1
      in if j < dl + 1 then None
         else do {
           (q, w) \<leftarrow> liDigitDiv32_step pDiv j (drop (j - dl - 1) pRem);
           liDigitDiv32_loop pDiv (take (j - dl - 1) pRem @ w) off left (q # pQuo)
         })"

definition liDigitDiv32 :: "digits \<Rightarrow> digits \<Rightarrow> nat \<Rightarrow> (digits \<times> digits) option" where
  "liDigitDiv32 pDiv pRem quoLen =
     (if length pDiv < 2 \<or> length pRem < quoLen then None
      else liDigitDiv32_loop pDiv pRem (length pRem - quoLen) quoLen [])"

subsection \<open>The dispatch\<close>

definition liDigitDiv_shape :: "digits \<Rightarrow> digits \<Rightarrow> nat \<Rightarrow> bool" where
  "liDigitDiv_shape pDiv pRem quoLen \<longleftrightarrow>
     (let dl = length pDiv - 1
      in 1 \<le> dl \<and> 1 \<le> quoLen \<and> quoLen + length pDiv = length pRem + 1 \<and> pDiv ! dl = 0 \<and>
         pDiv ! (dl - 1) AND 0x80000000 \<noteq> 0 \<and> pRem ! (length pRem - 1) < pDiv ! (dl - 1))"

definition liDigitDiv_bz :: "li_knobs \<Rightarrow> nat \<Rightarrow> nat \<Rightarrow> bool" where
  "liDigitDiv_bz kn vn qn \<longleftrightarrow> vn \<ge> liBZLimbs kn \<and>
     (qn \<ge> liBZLimbs kn \<or> (qn \<ge> liBZQuotientLimbs kn \<and> vn \<ge> qn + liBZQuotientLimbs kn))"

definition liDigitDiv ::
  "'l::len li_build \<Rightarrow> ('l word \<Rightarrow> 'l word) \<Rightarrow> li_knobs \<Rightarrow> li_env \<Rightarrow> digits \<Rightarrow> digits \<Rightarrow> nat \<Rightarrow>
   (digits \<times> digits) option" where
  "liDigitDiv bld rc kn env pDiv pRem quoLen =
     (let dl = length pDiv - 1; remLen = length pRem
      in if \<not> liDigitDiv_shape pDiv pRem quoLen then liDigitDiv32 pDiv pRem quoLen
         else if quoLen \<le> liDivLoopQuotientDigits kn \<and> dl < liDivLoopDivisorDigits kn
         then liDigitDiv32 pDiv pRem quoLen
         else let skip = (if LI_DIGITS_PER_LIMB bld = 2 then dl mod 2 else 0);
                  vn = liLimbsFor bld (dl + skip);
                  un = liLimbsFor bld (remLen + skip);
                  need = vn + un + (un - vn);
                  bz = liDigitDiv_bz kn vn (un - vn);
                  need' = (if bz then need + liDivRemBZScratch kn (un - vn) vn else need)
              in if \<not> liScratch bld env need' then liDigitDiv32 pDiv pRem quoLen
                 else do {
                   let v = load bld pDiv dl skip;
                   let u = load bld pRem remLen skip;
                   (q, u) \<leftarrow> (if bz then liDivRemBZ kn rc u v (need' - need) else Some (liDivRem rc u v));
                   Some (store bld quoLen q (un - vn) 0, store bld remLen u vn skip)
                 })"

subsection \<open>The loop computes a quotient digit\<close>

lemma liDigitDiv32_test_stop:
  "\<not> (t < mhi \<or> (t = mhi \<and> r3 < mlo)) \<Longrightarrow> liDigitDiv32_test q mhi mlo t r3 dh dnh = Some q"
  by (subst liDigitDiv32_test.simps) (simp only: Let_def if_False prod.case, simp)

lemma liDigitDiv32_test_step:
  assumes "t < mhi \<or> (t = mhi \<and> r3 < mlo)"
  shows "liDigitDiv32_test q mhi mlo t r3 dh dnh =
    (if mhi = 0 then Some (q - 1)
     else let (h, l) = (if mlo < dnh then (mhi - 1, mlo + 0x100000000 - dnh) else (mhi, mlo - dnh))
          in if h < dh then Some (q - 1) else liDigitDiv32_test (q - 1) (h - dh) l t r3 dh dnh)"
  using assms by (subst liDigitDiv32_test.simps) (simp only: if_True Let_def split: prod.splits, auto simp: not_le)

lemma two_digit_less:
  "a < B \<Longrightarrow> b < B \<Longrightarrow> x * B + a < y * B + b \<longleftrightarrow> x < y \<or> (x = y \<and> a < (b :: nat))"
proof (cases x y rule: linorder_cases)
  case less
  assume ab: "a < B" "b < B"
  have "Suc x * B \<le> y * B" using less by (intro mult_le_mono1) simp
  then show ?thesis using less ab by simp
next
  case greater
  assume ab: "a < B" "b < B"
  have "Suc y * B \<le> x * B" using greater by (intro mult_le_mono1) simp
  then show ?thesis using greater ab by simp
qed simp

lemma liDigitDiv32_test_val:
  fixes q mhi mlo t r3 dh dnh :: "64 word"
  assumes inv: "unat q * unat dh + unat t + s * unat dh = N"
    "unat q * unat dnh = (unat mhi + s * unat dh) * 2 ^ 32 + unat mlo"
    and lt: "unat mlo < 2 ^ 32" "unat r3 < 2 ^ 32" "unat dnh < 2 ^ 32" "0 < unat dh"
    and est: "(N * 2 ^ 32 + unat r3) div (unat dh * 2 ^ 32 + unat dnh) \<le> unat q"
  shows "\<exists>q'. liDigitDiv32_test q mhi mlo t r3 dh dnh = Some q' \<and>
    unat q' = (N * 2 ^ 32 + unat r3) div (unat dh * 2 ^ 32 + unat dnh)"
  using inv lt(1) est
proof (induction "unat q" arbitrary: q mhi mlo s rule: less_induct)
  case less
  define B where "B = (2::nat) ^ 32"
  define V2 where "V2 = unat dh * B + unat dnh"
  define U3 where "U3 = N * B + unat r3"
  note inv = less.prems(1,2) [folded B_def] and mlo = less.prems(3) [folded B_def]
  have le: "U3 div V2 \<le> unat q" using less.prems(4) by (simp add: U3_def V2_def B_def)
  have lt': "unat r3 < B" "unat dnh < B" "0 < V2" using lt by (simp_all add: B_def V2_def)
  have qV: "unat q * V2 = unat q * unat dh * B + (unat mhi + s * unat dh) * B + unat mlo"
    using inv(2) by (simp add: V2_def distrib_left)
  have U3: "U3 = unat q * unat dh * B + (unat t + s * unat dh) * B + unat r3"
    unfolding U3_def inv(1) [symmetric] by (simp add: distrib_right)
  have exact: "x = U3 div V2" if "U3 div V2 \<le> x" "x * V2 \<le> U3" for x
    using that lt'(3) by (simp add: le_antisym less_eq_div_iff_mult_less_eq)
  define fails where "fails = (t < mhi \<or> (t = mhi \<and> r3 < mlo))"
  have "U3 < unat q * V2 \<longleftrightarrow> unat t * B + unat r3 < unat mhi * B + unat mlo"
    unfolding qV U3 by (simp add: distrib_right)
  then have fails: "fails \<longleftrightarrow> U3 < unat q * V2"
    using two_digit_less [OF lt'(1) mlo, of "unat t" "unat mhi"]
    by (simp add: fails_def word_less_nat_alt word_unat_eq_iff)
  show ?case
  proof (cases fails)
    case False
    then have "unat q = U3 div V2" using le fails by (intro exact) auto
    moreover have "liDigitDiv32_test q mhi mlo t r3 dh dnh = Some q"
      using False unfolding fails_def by (rule liDigitDiv32_test_stop)
    ultimately show ?thesis by (simp add: U3_def V2_def B_def)
  next
    case True
    then have ltU: "U3 < unat q * V2" using fails by simp
    then have q0: "0 < unat q" by (cases "unat q") auto
    then have q1: "unat (q - 1) = unat q - 1" by (simp add: unat_minus_one unat_gt_0)
    have le': "U3 div V2 \<le> unat (q - 1)"
      using iffD2 [OF div_less_iff_less_mult [OF lt'(3)] ltU] unfolding q1 by linarith
    have qd: "(unat q - 1) * y + y = unat q * y" for y using q0 by (cases "unat q") simp_all
    show ?thesis
    proof (cases "mhi = 0")
      case hz: True
      have "(unat q - 1) * V2 \<le> U3"
      proof -
        have "(unat q - 1) * unat dnh \<le> s * unat dh * B + unat mlo"
          using qd [of "unat dnh"] inv(2) hz by simp
        moreover have "1 * B \<le> unat dh * B" using lt(4) by (intro mult_le_mono1) simp
        moreover have "(unat q - 1) * V2 = (unat q - 1) * (unat dh * B) + (unat q - 1) * unat dnh"
          by (simp add: V2_def distrib_left)
        moreover have "U3 = (unat q - 1) * (unat dh * B) + unat dh * B + (unat t + s * unat dh) * B + unat r3"
          unfolding U3 using qd [of "unat dh * B"] by (simp add: mult.assoc)
        ultimately show ?thesis using mlo unfolding distrib_right by linarith
      qed
      then have "unat (q - 1) = U3 div V2" using le' q1 by (intro exact) simp_all
      moreover have "liDigitDiv32_test q mhi mlo t r3 dh dnh = Some (q - 1)"
        using liDigitDiv32_test_step [OF True [unfolded fails_def]] hz by simp
      ultimately show ?thesis by (simp add: U3_def V2_def B_def)
    next
      case False
      obtain h l where hl: "(if mlo < dnh then (mhi - 1, mlo + 0x100000000 - dnh) else (mhi, mlo - dnh)) = (h, l)"
        by fastforce
      have hl': "unat h * B + unat l + unat dnh = unat mhi * B + unat mlo" "unat l < B"
      proof -
        have "unat h * B + unat l + unat dnh = unat mhi * B + unat mlo \<and> unat l < B"
        proof (cases "mlo < dnh")
          case True
          then have "mlo + 0x100000000 - dnh = l" "h = mhi - 1" using hl by auto
          moreover have "unat (mlo + 0x100000000 - dnh) = unat mlo + B - unat dnh"
          proof -
            have "unat (mlo + 0x100000000) = unat mlo + B"
              using mlo by (simp add: unat_word_ariths B_def)
            then show ?thesis using lt'(2) by (subst unat_sub) (simp_all add: word_le_nat_alt)
          qed
          moreover have "unat (mhi - 1) * B + B = unat mhi * B"
            using False by (cases "unat mhi") (simp_all add: unat_minus_one unat_eq_zero)
          ultimately show ?thesis using True lt'(2) mlo by (auto simp: word_less_nat_alt)
        next
          case F: False
          then have "h = mhi" "l = mlo - dnh" using hl by auto
          then show ?thesis using F mlo by (simp add: unat_sub word_le_nat_alt word_less_nat_alt)
        qed
        then show "unat h * B + unat l + unat dnh = unat mhi * B + unat mlo" "unat l < B" by simp_all
      qed
      have step: "liDigitDiv32_test q mhi mlo t r3 dh dnh =
          (if h < dh then Some (q - 1) else liDigitDiv32_test (q - 1) (h - dh) l t r3 dh dnh)"
        using liDigitDiv32_test_step [OF True [unfolded fails_def], of q dh dnh] False hl by simp
      have q1dnh: "unat (q - 1) * unat dnh = (unat h + s * unat dh) * B + unat l"
        using qd [of "unat dnh"] inv(2) hl'(1) unfolding q1 by (simp add: distrib_right)
      show ?thesis
      proof (cases "h < dh")
        case True
        then have "unat h + 1 \<le> unat dh" by (simp add: word_less_nat_alt)
        then have "(unat h + 1 + s * unat dh) * B \<le> (unat t + (s + 1) * unat dh) * B" by (intro mult_le_mono1) simp
        then have "(unat h + s * unat dh) * B + unat l \<le> (unat t + (s + 1) * unat dh) * B"
          using hl'(2) by (simp add: distrib_right)
        moreover have "unat (q - 1) * V2 = (unat q - 1) * unat dh * B + ((unat h + s * unat dh) * B + unat l)"
          using q1dnh unfolding q1 V2_def by (simp add: distrib_left)
        moreover have "(unat q - 1) * unat dh * B + (unat t + (s + 1) * unat dh) * B + unat r3 = U3"
          unfolding U3 using qd [of "unat dh * B"] by (simp add: algebra_simps)
        ultimately have "unat (q - 1) * V2 \<le> U3" by linarith
        then have "unat (q - 1) = U3 div V2" using le' by (intro exact)
        then show ?thesis using step True by (simp add: U3_def V2_def B_def)
      next
        case False
        then have hd: "unat (h - dh) + unat dh = unat h" by (simp add: unat_sub not_less word_le_nat_alt)
        have "unat (q - 1) * unat dh + unat t + Suc s * unat dh = N"
          using inv(1) qd [of "unat dh"] unfolding q1 by simp
        moreover have "unat (q - 1) * unat dnh = (unat (h - dh) + Suc s * unat dh) * 2 ^ 32 + unat l"
          unfolding q1dnh hd [symmetric] by (simp add: B_def algebra_simps)
        ultimately show ?thesis
          using less.hyps [of "q - 1" "Suc s" "h - dh" l] q0 q1 hl'(2) le' step False
          by (simp add: B_def U3_def V2_def)
      qed
    qed
  qed
qed

lemma liDigitDiv32_test_zero: "liDigitDiv32_test q 0 0 t r3 dh dnh = Some q"
  by (subst liDigitDiv32_test.simps) simp

text \<open>The estimate, over the divisor's \<open>dl\<close> digits \<open>v\<close> and the window \<open>w\<close> of \<open>dl + 1\<close> digits and more.\<close>

lemma unat_ucast_join:
  "unat (push_bit 32 (ucast (x :: 32 word)) + ucast (y :: 32 word) :: 64 word) = unat x * 2 ^ 32 + unat y"
proof -
  have "unat x * 2 ^ 32 + unat y < 2 ^ 64" using unat_lt [of x] unat_lt [of y] by simp
  then show ?thesis by (simp add: unat_word_ariths unat_ucast_32_64 unat_push_32 mult.commute)
qed

lemma unat_times_small:
  fixes a b :: "64 word"
  shows "unat a < 2 ^ 32 \<Longrightarrow> unat b < 2 ^ 32 \<Longrightarrow> unat (a * b) = unat a * unat b"
  using mult_strict_mono [of "unat a" "2 ^ 32" "unat b" "2 ^ 32"] by (simp add: unat_word_ariths)

lemma unat_halves_64:
  "unat (drop_bit 32 (x :: 64 word)) = unat x div 2 ^ 32"
  "unat (x AND 0xFFFFFFFF) = unat x mod 2 ^ 32"
proof -
  show "unat (drop_bit 32 x) = unat x div 2 ^ 32"
    by (simp only: unat_drop_bit_eq) (simp only: drop_bit_eq_div)
  have "x AND 0xFFFFFFFF = take_bit 32 x"
    by (simp add: take_bit_eq_mask mask_eq_exp_minus_1)
  then show "unat (x AND 0xFFFFFFFF) = unat x mod 2 ^ 32"
    by (simp only: unsigned_take_bit_eq) (simp only: take_bit_eq_mod)
qed

lemma liDigitDiv32_q_val:
  assumes v: "v \<noteq> []" "normalized (last v)" and j: "length v < j"
    and w: "length v < length w" "val (take (length v) (drop 1 w)) < val v"
  defines "W \<equiv> val (take (Suc (length v)) w)"
  shows "\<exists>q. liDigitDiv32_q (v @ [0]) (length v) w j = Some q \<and> unat q < 2 ^ 32 \<and>
    W div val v \<le> unat q \<and> unat q \<le> W div val v + 1"
proof (cases "length v = 1")
  case True
  then obtain d where d: "v = [d]" by (cases v) auto
  obtain w0 w1 ws where ws: "w = w0 # w1 # ws" using w(1) True by (cases w; cases "tl w") auto
  have lt: "unat w1 < unat d" using w(2) ws d by simp
  have W: "W = unat w1 * 2 ^ 32 + unat w0" by (simp add: W_def ws d)
  have "(ucast w1 :: 64 word) \<noteq> ucast d" using lt by (metis less_irrefl unat_ucast_32_64)
  moreover have "(ucast d :: 64 word) \<noteq> 0" using lt by (metis not_less0 unat_0 unat_ucast_32_64)
  ultimately have "liDigitDiv32_q (v @ [0]) (length v) w j =
      Some ((push_bit 32 (ucast w1) + ucast w0) div ucast d)"
    by (simp add: liDigitDiv32_q_def d ws Let_def liDigitDiv32_test_zero)
  moreover have "unat ((push_bit 32 (ucast w1) + ucast w0) div ucast d :: 64 word) = W div unat d"
    by (simp only: unat_div_distrib unat_ucast_join unat_ucast_32_64 W)
  moreover have "W div unat d < 2 ^ 32"
  proof (rule less_mult_imp_div_less)
    have "(unat w1 + 1) * 2 ^ 32 \<le> unat d * 2 ^ 32" using lt by (intro mult_le_mono1) simp
    then show "W < 2 ^ 32 * unat d" using unat_lt [of w0] by (simp add: W)
  qed
  ultimately show ?thesis by (simp add: d)
next
  case False
  then have vn: "2 \<le> length v" using v(1) by (cases v; cases "tl v") auto
  let ?n = "length v"
  let ?v1 = "v ! (?n - 1)" and ?v0 = "v ! (?n - 2)"
  let ?u2 = "w ! ?n" and ?u1 = "w ! (?n - 1)" and ?u0 = "w ! (?n - 2)"
  have nv: "normalized ?v1" using v by (simp add: last_conv_nth)
  note est = knuth_estimate [OF vn refl nv w, folded W_def]
  define dh :: "64 word" where "dh = ucast ?v1"
  define dnh :: "64 word" where "dnh = ucast ?v0"
  define r1r2 :: "64 word" where "r1r2 = push_bit 32 (ucast ?u2) + ucast ?u1"
  have nth: "(v @ [0]) ! (?n - 1) = ?v1" "(v @ [0]) ! (?n - 2) = ?v0"
  proof -
    have "?n - 1 < ?n" "?n - 2 < ?n" using vn by linarith+
    then show "(v @ [0]) ! (?n - 1) = ?v1" "(v @ [0]) ! (?n - 2) = ?v0" by (simp_all only: nth_append if_True)
  qed
  have uv: "unat dh = unat ?v1" "unat dnh = unat ?v0" "unat (ucast ?u0 :: 64 word) = unat ?u0"
    by (simp_all only: dh_def dnh_def unat_ucast_32_64)
  have N: "unat r1r2 = unat ?u2 * 2 ^ 32 + unat ?u1" by (simp only: r1r2_def unat_ucast_join)
  have dh0: "dh \<noteq> 0" using est(1) uv(1) by auto
  have eq: "liDigitDiv32_q (v @ [0]) ?n w j =
      (if ucast ?u2 = dh then Some 0xFFFFFFFF
       else liDigitDiv32_test (r1r2 div dh) (drop_bit 32 (r1r2 div dh * dnh)) (r1r2 div dh * dnh AND 0xFFFFFFFF)
         (r1r2 mod dh) (ucast ?u0) dh dnh)"
    unfolding liDigitDiv32_q_def Let_def nth dh_def [symmetric] dnh_def [symmetric] r1r2_def [symmetric]
    using vn j dh0 by (simp add: dnh_def)
  show ?thesis
  proof (cases "?u2 < ?v1")
    case F: False
    then have "ucast ?u2 = dh" using est(3) [OF F] by (simp add: dh_def)
    then show ?thesis using est(3) [OF F] eq by simp
  next
    case T: True
    have ne: "ucast ?u2 \<noteq> dh"
      using T unfolding dh_def by (metis less_irrefl unat_ucast_32_64 word_less_nat_alt)
    define q where "q = r1r2 div dh"
    have qN: "unat q = (unat ?u2 * 2 ^ 32 + unat ?u1) div unat ?v1"
      by (simp only: q_def unat_div_distrib N uv)
    have q32: "unat q < 2 ^ 32"
      unfolding qN
    proof (rule less_mult_imp_div_less)
      have "(unat ?u2 + 1) * 2 ^ 32 \<le> unat ?v1 * 2 ^ 32"
        using T by (intro mult_le_mono1) (simp add: word_less_nat_alt)
      then show "unat ?u2 * 2 ^ 32 + unat ?u1 < 2 ^ 32 * unat ?v1"
        using unat_lt [of ?u1] by simp
    qed
    have mul: "unat (q * dnh) = unat q * unat dnh"
      using q32 unat_lt [of ?v0] uv(2) by (intro unat_times_small) simp_all
    have "\<exists>q'. liDigitDiv32_test q (drop_bit 32 (q * dnh)) (q * dnh AND 0xFFFFFFFF) (r1r2 mod dh) (ucast ?u0) dh dnh = Some q' \<and>
      unat q' = (unat r1r2 * 2 ^ 32 + unat (ucast ?u0 :: 64 word)) div (unat dh * 2 ^ 32 + unat dnh)"
    proof (rule liDigitDiv32_test_val [where s = 0])
      show "unat q * unat dh + unat (r1r2 mod dh) + 0 * unat dh = unat r1r2"
        by (simp add: q_def unat_div_distrib unat_mod_distrib)
      show "unat q * unat dnh = (unat (drop_bit 32 (q * dnh)) + 0 * unat dh) * 2 ^ 32 + unat (q * dnh AND 0xFFFFFFFF)"
        by (simp only: unat_halves_64 mul) simp
      show "unat (q * dnh AND 0xFFFFFFFF) < 2 ^ 32" by (simp only: unat_halves_64) simp
      show "unat (ucast ?u0 :: 64 word) < 2 ^ 32" "unat dnh < 2 ^ 32" "0 < unat dh"
        using unat_lt [of ?u0] unat_lt [of ?v0] est(1) by (simp_all only: uv) simp_all
      show "(unat r1r2 * 2 ^ 32 + unat (ucast ?u0 :: 64 word)) div (unat dh * 2 ^ 32 + unat dnh) \<le> unat q"
        using est(2) [OF T] by (simp only: N uv qN) simp
    qed
    then obtain q' where q': "liDigitDiv32_q (v @ [0]) ?n w j = Some q'"
      "unat q' = ((unat ?u2 * 2 ^ 32 + unat ?u1) * 2 ^ 32 + unat ?u0) div (unat ?v1 * 2 ^ 32 + unat ?v0)"
      using eq ne by (auto simp only: N uv q_def if_False)
    then show ?thesis using est(2) [OF T] q32 qN by auto
  qed
qed

subsection \<open>The passes over the window\<close>

lemma shift_keeping_sign:
  fixes X :: int
  assumes "- (2 ^ 33) < X" "X < 2 ^ 32"
  defines "b \<equiv> of_int X :: 64 word"
  shows "drop_bit 32 b OR ((0 - drop_bit 0x3F b) AND 0xFFFFFFFF00000000) = of_int (X div 2 ^ 32)"
proof (cases "0 \<le> X")
  case True
  then have "drop_bit 32 b = 0" "drop_bit 63 b = 0"
    using assms(2) drop_bit_of_int [of X 32, where 'l = 64] drop_bit_of_int [of X 63, where 'l = 64]
    by (simp_all add: b_def)
  then show ?thesis using True assms(2) by simp
next
  case False
  have "b = of_int (X + 2 ^ 64 * 1)"
    using of_int_plus_powers [of X 1, where 'l = 64] by (simp only: b_def len_num0 len_bit0 len_num1) simp
  then have d: "drop_bit 32 b = of_int ((X + 2 ^ 64) div 2 ^ 32)" "drop_bit 63 b = of_int ((X + 2 ^ 64) div 2 ^ 63)"
    using False assms(1) drop_bit_of_int [of "X + 2 ^ 64" 32, where 'l = 64]
      drop_bit_of_int [of "X + 2 ^ 64" 63, where 'l = 64] by simp_all
  have "(X + 2 ^ 64) div 2 ^ 63 = 1" using False assms(1) by simp
  moreover have "(X + 2 ^ 64) div 2 ^ 32 = X div 2 ^ 32 + 2 ^ 32" by simp
  moreover have "X div 2 ^ 32 = - 1 \<or> X div 2 ^ 32 = - 2" using False assms(1) by auto
  ultimately show ?thesis using d by auto
qed

lemma liDigitDiv32_sub_digit:
  fixes d r :: "32 word" and q a :: "64 word"
  assumes "unat q < 2 ^ 32" "unat a \<le> 2 ^ 32"
  defines "l \<equiv> ucast d * (q AND 0xFFFFFFFF)"
  defines "b \<equiv> (ucast r - a) - (l AND 0xFFFFFFFF)"
  defines "b' \<equiv> drop_bit 32 b OR ((0 - drop_bit 0x3F b) AND 0xFFFFFFFF00000000)"
  defines "a' \<equiv> (ucast d * drop_bit 32 q + drop_bit 32 l) - b'"
  shows "unat a' \<le> 2 ^ 32"
    and "unat (ucast (b AND 0xFFFFFFFF) :: 32 word) + unat q * unat d + unat a = unat r + 2 ^ 32 * unat a'"
proof -
  have q: "drop_bit 32 q = 0" "q AND 0xFFFFFFFF = q"
    using assms(1) by (simp_all add: word_unat_eq_iff unat_halves_64 del: unat_eq_zero)
  have l: "unat l = unat d * unat q"
    unfolding l_def q(2) using assms(1) unat_lt [of d] by (subst unat_times_small) (simp_all add: unat_ucast_32_64)
  define X where "X = int (unat r) - int (unat a) - int (unat l mod 2 ^ 32)"
  have Xb: "- (2 ^ 33) < X" "X < 2 ^ 32"
  proof -
    have "int (unat l mod 2 ^ 32) < int (2 ^ 32)" "int (unat r) < int (2 ^ 32)" "int (unat a) \<le> int (2 ^ 32)"
      using assms(2) unat_lt [of r] by (simp_all only: of_nat_less_iff of_nat_le_iff) simp_all
    then have "int (unat l mod 2 ^ 32) < 2 ^ 32" "int (unat r) < 2 ^ 32" "int (unat a) \<le> 2 ^ 32"
      by (simp_all only: of_nat_power of_nat_numeral)
    moreover have "(2 :: int) ^ 33 = 2 * 2 ^ 32" by simp
    moreover have "0 \<le> int (unat r)" "0 \<le> int (unat a)" "0 \<le> int (unat l mod 2 ^ 32)" by simp_all
    ultimately show "- (2 ^ 33) < X" "X < 2 ^ 32" unfolding X_def by linarith+
  qed
  have w: "of_int (int (unat x)) = x" for x :: "64 word" by simp
  have "of_int (int (unat r)) = (ucast r :: 64 word)" by (metis unat_ucast_32_64 w)
  moreover have "of_int (int (unat l mod 2 ^ 32)) = l AND 0xFFFFFFFF" by (metis unat_halves_64(2) w)
  ultimately have b: "b = of_int X" unfolding b_def X_def of_int_diff w by simp
  have b': "b' = of_int (X div 2 ^ 32)" unfolding b'_def b by (rule shift_keeping_sign [OF Xb])
  have "of_int (int (unat l div 2 ^ 32)) = drop_bit 32 l" by (metis unat_halves_64(1) w)
  then have a': "a' = of_int (int (unat l div 2 ^ 32) - X div 2 ^ 32)"
    unfolding a'_def q(1) b' of_int_diff by simp
  have "unat d * unat q \<le> (2 ^ 32 - 1) * (2 ^ 32 - 1)"
    using assms(1) unat_lt [of d] by (intro mult_le_mono) simp_all
  then have "unat l div 2 ^ 32 \<le> 2 ^ 32 - 2" by (simp add: l)
  then have range: "0 \<le> int (unat l div 2 ^ 32) - X div 2 ^ 32" "int (unat l div 2 ^ 32) - X div 2 ^ 32 \<le> 2 ^ 32"
  proof -
    have "- 2 \<le> X div 2 ^ 32" "X div 2 ^ 32 \<le> 0" using Xb by simp_all
    moreover have "int (unat l div 2 ^ 32) \<le> int (2 ^ 32 - 2)"
      using \<open>unat l div 2 ^ 32 \<le> 2 ^ 32 - 2\<close> by (simp only: of_nat_le_iff)
    ultimately show "0 \<le> int (unat l div 2 ^ 32) - X div 2 ^ 32" "int (unat l div 2 ^ 32) - X div 2 ^ 32 \<le> 2 ^ 32"
      by simp_all
  qed
  then have ua: "int (unat a') = int (unat l div 2 ^ 32) - X div 2 ^ 32"
    using uint_of_int_range [of "int (unat l div 2 ^ 32) - X div 2 ^ 32", where 'l = 64] by (simp add: a')
  then have "int (unat a') \<le> int (2 ^ 32)" using range by simp
  then show "unat a' \<le> 2 ^ 32" by (simp only: of_nat_le_iff)
  have ub: "int (unat (ucast (b AND 0xFFFFFFFF) :: 32 word)) = X mod 2 ^ 32"
  proof -
    have "unat (ucast (b AND 0xFFFFFFFF) :: 32 word) = unat b mod 2 ^ 32"
      by (simp only: unat_low_32 unat_halves_64 mod_mod_trivial)
    moreover have "int (unat b) = X mod 2 ^ 64"
      by (simp add: b unsigned_of_int take_bit_eq_mod)
    ultimately show ?thesis by (simp add: zmod_int mod_mod_cancel)
  qed
  have "int (unat (ucast (b AND 0xFFFFFFFF) :: 32 word) + unat q * unat d + unat a) = int (unat r + 2 ^ 32 * unat a')"
  proof -
    have "X = 2 ^ 32 * (X div 2 ^ 32) + X mod 2 ^ 32" by simp
    moreover have "int (unat d * unat q) = 2 ^ 32 * int (unat l div 2 ^ 32) + int (unat l mod 2 ^ 32)"
      by (simp add: l zdiv_int zmod_int)
    ultimately show ?thesis using ub ua unfolding X_def
      by (simp only: of_nat_add of_nat_mult of_nat_power of_nat_numeral right_diff_distrib mult.commute [of "int (unat q)"])
  qed
  then show "unat (ucast (b AND 0xFFFFFFFF) :: 32 word) + unat q * unat d + unat a = unat r + 2 ^ 32 * unat a'"
    by (simp only: of_nat_eq_iff)
qed

lemma liDigitDiv32_sub_val:
  assumes "liDigitDiv32_sub v w q a = (w', a')" "length w = length v" "unat q < 2 ^ 32" "unat a \<le> 2 ^ 32"
  shows "length w' = length v \<and> val w' + unat q * val v + unat a = val w + 2 ^ (32 * length v) * unat a'"
  using assms
proof (induction v w q a arbitrary: w' a' rule: liDigitDiv32_sub.induct)
  case (1 d v r w q a)
  define l :: "64 word" where "l = ucast d * (q AND 0xFFFFFFFF)"
  define b where "b = (ucast r - a) - (l AND 0xFFFFFFFF)"
  define b' where "b' = drop_bit 32 b OR ((0 - drop_bit 0x3F b) AND 0xFFFFFFFF00000000)"
  define a1 where "a1 = (ucast d * drop_bit 32 q + drop_bit 32 l) - b'"
  note digit = liDigitDiv32_sub_digit [OF "1.prems"(3,4), where d = d and r = r, folded l_def, folded b_def, folded b'_def, folded a1_def]
  obtain w1 a2 where s: "liDigitDiv32_sub v w q a1 = (w1, a2)" by fastforce
  have "liDigitDiv32_sub (d # v) (r # w) q a = (ucast (b AND 0xFFFFFFFF) # w1, a2)"
    by (simp only: liDigitDiv32_sub.simps Let_def l_def [symmetric] b_def [symmetric] b'_def [symmetric]
        a1_def [symmetric] s prod.case)
  then have w1: "liDigitDiv32_sub v w q a1 = (w1, a')" "w' = ucast (b AND 0xFFFFFFFF) # w1"
    using "1.prems"(1) s by simp_all
  have IH: "length w1 = length v \<and> val w1 + unat q * val v + unat a1 = val w + 2 ^ (32 * length v) * unat a'"
    using "1.IH" [OF refl refl refl refl, folded l_def, folded b_def, folded b'_def, folded a1_def, OF w1(1)]
      "1.prems"(2,3) digit(1) by simp
  have "val w' + unat q * val (d # v) + unat a
      = (unat (ucast (b AND 0xFFFFFFFF) :: 32 word) + unat q * unat d + unat a) + 2 ^ 32 * (val w1 + unat q * val v)"
    unfolding w1(2) val_32 by (simp only: distrib_left distrib_right ac_simps)
  also have "\<dots> = unat r + 2 ^ 32 * (val w1 + unat q * val v + unat a1)"
    using digit(2) by (simp only: distrib_left)
  also have "\<dots> = val (r # w) + 2 ^ (32 * length (d # v)) * unat a'"
    unfolding conjunct2 [OF IH] val_32 length_Cons mult_Suc_right power_add by (simp only: distrib_left ac_simps)
  finally show ?case using IH by (simp add: w1(2))
qed simp_all

lemma liDigitDiv32_add_val:
  assumes "length w = length v" "unat a < 2 ^ 34"
  shows "length (liDigitDiv32_add v w a) = length v \<and>
    val (liDigitDiv32_add v w a) = (val v + val w + unat a div 2 ^ 32) mod 2 ^ (32 * length v)"
  using assms
proof (induction v w a rule: liDigitDiv32_add.induct)
  case (1 d v r w a)
  define a1 where "a1 = (drop_bit 32 a + ucast r) + ucast d"
  have "unat a div 2 ^ 32 < 4" using "1.prems"(2) by simp
  then have a1: "unat a1 = unat a div 2 ^ 32 + unat r + unat d"
    using unat_lt [of r] unat_lt [of d]
    by (simp add: a1_def unat_word_ariths unat_ucast_32_64 unat_halves_64 del: unat_drop_bit_eq)
  have "unat a1 < 2 ^ 34" using a1 \<open>unat a div 2 ^ 32 < 4\<close> unat_lt [of r] unat_lt [of d] by simp
  then have IH: "length (liDigitDiv32_add v w a1) = length v"
    "val (liDigitDiv32_add v w a1) = (val v + val w + unat a1 div 2 ^ 32) mod 2 ^ (32 * length v)"
    using "1.IH" [OF a1_def] "1.prems"(1) by simp_all
  have e: "liDigitDiv32_add (d # v) (r # w) a = ucast (a1 AND 0xFFFFFFFF) # liDigitDiv32_add v w a1"
    by (simp add: a1_def Let_def)
  have "unat (ucast (a1 AND 0xFFFFFFFF) :: 32 word) = unat a1 mod 2 ^ 32"
    by (simp only: unat_low_32 unat_halves_64 mod_mod_trivial)
  then have "val (liDigitDiv32_add (d # v) (r # w) a)
      = unat a1 mod 2 ^ 32 + 2 ^ 32 * ((val v + val w + unat a1 div 2 ^ 32) mod 2 ^ (32 * length v))"
    unfolding e val_32 IH(2) by simp
  also have "\<dots> = (unat a1 mod 2 ^ 32 + 2 ^ 32 * (val v + val w + unat a1 div 2 ^ 32)) mod (2 ^ 32 * 2 ^ (32 * length v))"
    by (subst mod_mult_step) simp_all
  also have "unat a1 mod 2 ^ 32 + 2 ^ 32 * (val v + val w + unat a1 div 2 ^ 32) = unat a1 + 2 ^ 32 * (val v + val w)"
    using mod_mult_div_eq [of "unat a1" "2 ^ 32"] by (simp only: distrib_left)
  also have "\<dots> = val (d # v) + val (r # w) + unat a div 2 ^ 32"
    unfolding a1 val_32 by (simp only: distrib_left distrib_right ac_simps)
  finally show ?case using IH(1) e by (simp add: power_add)
qed simp_all

lemma liDigitDiv32_step_val:
  assumes v: "v \<noteq> []" "normalized (last v)" and j: "length v < j"
    and w: "length v < length w" "val (take (length v) (drop 1 w)) < val v"
  defines "W \<equiv> val (take (Suc (length v)) w)"
  shows "\<exists>q r. liDigitDiv32_step (v @ [0]) j w = Some (q, r @ drop (Suc (length v)) w) \<and>
    length r = Suc (length v) \<and> val r = W mod val v \<and> unat q = W div val v"
proof -
  let ?n = "Suc (length v)"
  define M where "M = (2::nat) ^ (32 * ?n)"
  obtain q where q: "liDigitDiv32_q (v @ [0]) (length v) w j = Some q" "unat q < 2 ^ 32"
    "W div val v \<le> unat q" "unat q \<le> W div val v + 1"
    using liDigitDiv32_q_val [OF v j w] by (auto simp: W_def)
  obtain r a where ra: "liDigitDiv32_sub (v @ [0]) (take ?n w) q 0 = (r, a)" by fastforce
  have "length r = ?n \<and> val r + unat q * val v = W + M * unat a"
    using liDigitDiv32_sub_val [OF ra _ q(2)] w(1) by (simp add: W_def M_def val_append)
  then have r: "length r = ?n" "val r + unat q * val v = W + M * unat a" by simp_all
  have rM: "val r < M" using val_lt [of r] r(1) by (simp add: M_def)
  have V: "0 < val v" "val v < M"
  proof -
    show "0 < val v" using w(2) by simp
    have "val v < 2 ^ (32 * length v)" using val_lt [of v] by simp
    also have "\<dots> \<le> M" by (simp add: M_def)
    finally show "val v < M" .
  qed
  have Wqr: "W = (W div val v) * val v + W mod val v" "W mod val v < val v" using V by simp_all
  have step: "liDigitDiv32_step (v @ [0]) j w =
      (let (q, r) = (if a > 0 then (q - 1, liDigitDiv32_add (v @ [0]) r 0) else (q, r))
       in Some (ucast q, r @ drop ?n w))"
    using w(1) q(1) ra by (simp add: liDigitDiv32_step_def Let_def)
  have low: "unat (ucast x :: 32 word) = unat x" if "unat x < 2 ^ 32" for x :: "64 word"
    using that by (simp add: unat_low_32)
  show ?thesis
  proof (cases "a > 0")
    case True
    then have "1 \<le> unat a" by (simp add: Suc_leI unat_gt_0 word_greater_zero_iff)
    then have "M * 1 \<le> M * unat a" by (rule mult_le_mono2)
    then have "W < unat q * val v" using r(2) rM by linarith
    have "unat q \<noteq> W div val v"
    proof
      assume "unat q = W div val v"
      with \<open>W < unat q * val v\<close> have "W < (W div val v) * val v" by (simp only:)
      then show False using Wqr by linarith
    qed
    then have qQ: "unat q = W div val v + 1" using q(3,4) by linarith
    define r2 where "r2 = liDigitDiv32_add (v @ [0]) r 0"
    have r2: "length r2 = ?n" "val r2 = (val v + val r) mod M"
      using liDigitDiv32_add_val [of r "v @ [0]" 0] r(1) by (simp_all add: r2_def M_def val_append)
    have "unat q * val v = (W div val v) * val v + val v" using qQ by simp
    then have "val v + val r = W mod val v + M * unat a" using r(2) Wqr(1) by linarith
    then have "val r2 = W mod val v" using r2(2) Wqr(2) V(2) by simp
    moreover have "unat (q - 1) = W div val v" using qQ by (simp add: unat_minus_one flip: unat_eq_zero)
    ultimately show ?thesis using step True r2(1) q(2,4) qQ low [of "q - 1"]
      by (simp add: r2_def [symmetric])
  next
    case False
    then have "unat a = 0" by (simp add: word_greater_zero_iff)
    then have eq: "val r + unat q * val v = W" using r(2) by simp
    have "unat q \<noteq> W div val v + 1"
    proof
      assume "unat q = W div val v + 1"
      then have "unat q * val v = (W div val v) * val v + val v" by simp
      then show False using eq Wqr by linarith
    qed
    then have "unat q = W div val v" using q(3,4) by linarith
    moreover from this have "unat q * val v = (W div val v) * val v" by (simp only:)
    then have "val r = W mod val v" using eq Wqr(1) by linarith
    ultimately show ?thesis using step False r(1) low [OF q(2)] by simp
  qed
qed

subsection \<open>The loop divides\<close>

lemma liDigitDiv32_loop_val:
  assumes v: "v \<noteq> []" "normalized (last v)"
    and "left + length v \<le> length u" "val (drop (left + length v) u) = 0"
    and "val (take (length v) (drop left u)) < val v"
  shows "\<exists>q' u'. liDigitDiv32_loop (v @ [0]) u (length v) left q = Some (q' @ q, u') \<and> length q' = left \<and>
    length u' = length u \<and> val u = val q' * val v + val u' \<and> val u' < val v"
  using assms(3-)
proof (induction left arbitrary: u q)
  case 0
  have "val u = val (take (length v) u)" using val_take_0 [of "length v" u] 0 by simp
  then show ?case using 0 by simp
next
  case (Suc i)
  let ?n = "Suc (length v)"
  define w where "w = drop i u"
  have w: "length v < length w" "val (take (length v) (drop 1 w)) < val v"
    using Suc.prems by (simp_all add: w_def)
  have j: "length v < length v + Suc i" by simp
  obtain q1 r where st: "liDigitDiv32_step (v @ [0]) (length v + Suc i) w = Some (q1, r @ drop ?n w)" "length r = ?n"
    "val r = val (take ?n w) mod val v" "unat q1 = val (take ?n w) div val v"
    using liDigitDiv32_step_val [OF v j w] by blast
  define u1 where "u1 = take i u @ r @ drop ?n w"
  have top: "drop ?n w = drop (Suc i + length v) u" by (simp add: w_def add.commute)
  have len: "length u1 = length u" using Suc.prems st(2) w(1) by (simp add: u1_def w_def)
  have V: "0 < val v" using w(2) by simp
  have rlt: "val r < val v" using st(3) V by simp
  have "val v < 2 ^ (32 * length v)" using val_lt [of v] by simp
  then have "val (drop (length v) r) = 0" using rlt st(2) by (simp add: val_drop)
  then have "val (drop (i + length v) u1) = 0"
    using Suc.prems st(2) top by (simp add: u1_def val_append)
  moreover have "val (take (length v) (drop i u1)) < val v"
  proof -
    have "val (take (length v) r) = val r" using val_take_0 [of "length v" r] st(2) \<open>val (drop (length v) r) = 0\<close> by simp
    then show ?thesis using Suc.prems st(2) rlt by (simp add: u1_def)
  qed
  ultimately obtain q' u' where IH: "liDigitDiv32_loop (v @ [0]) u1 (length v) i (q1 # q) = Some (q' @ q1 # q, u')"
    "length q' = i" "length u' = length u" "val u1 = val q' * val v + val u'" "val u' < val v"
    using Suc.IH [of u1 "q1 # q"] Suc.prems len by auto
  have "val w = val (take ?n w)"
    using val_take_0 [of ?n w] w(1) top Suc.prems(2) by simp
  then have "val w = unat q1 * val v + val r" using st by simp
  moreover have "val u = val (take i u) + 2 ^ (32 * i) * val w"
    using val_take_drop [of i u] Suc.prems by (simp add: w_def)
  moreover have "val u1 = val (take i u) + 2 ^ (32 * i) * val r"
  proof -
    have "val (r @ drop ?n w) = val r" using top Suc.prems(2) by (simp add: val_append)
    then show ?thesis using Suc.prems by (simp add: u1_def val_append)
  qed
  ultimately have "val u = val u1 + 2 ^ (32 * i) * (unat q1 * val v)"
    by (simp add: distrib_left)
  then have "val u = val (q' @ [q1]) * val v + val u'"
    unfolding IH(4) using IH(2) by (simp add: val_append distrib_right)
  moreover have "liDigitDiv32_loop (v @ [0]) u (length v) (Suc i) q = Some (q' @ q1 # q, u')"
    using st(1) IH(1) by (simp add: Let_def u1_def w_def)
  ultimately show ?case using IH by (intro exI [of _ "q' @ [q1]"] exI [of _ u']) simp
qed

definition quotient_digits :: "digits \<Rightarrow> digits \<Rightarrow> nat \<Rightarrow> (digits \<times> digits) option \<Rightarrow> bool" where
  "quotient_digits pDiv pRem quoLen out \<longleftrightarrow> (\<exists>q r. out = Some (q, r) \<and>
     length q = quoLen \<and> length r = length pRem \<and>
     val q = val pRem div val pDiv \<and> val r = val pRem mod val pDiv)"

lemma quotient_digits_unique:
  "quotient_digits pDiv pRem quoLen out \<Longrightarrow> quotient_digits pDiv pRem quoLen out' \<Longrightarrow> out = out'"
  unfolding quotient_digits_def by (auto intro: val_inj)

text \<open>The shape the plugin prepares, in terms of values.\<close>

lemma digit_top_bit: "(d :: 32 word) AND 0x80000000 \<noteq> 0 \<Longrightarrow> 2 ^ 32 \<le> 2 * unat d"
proof (rule ccontr)
  assume "d AND 0x80000000 \<noteq> 0" "\<not> 2 ^ 32 \<le> 2 * unat d"
  have "take_bit 31 d = d"
    using \<open>\<not> 2 ^ 32 \<le> 2 * unat d\<close> by (simp add: word_unat_eq_iff unsigned_take_bit_eq take_bit_nat_eq_self)
  moreover have "take_bit 31 d AND push_bit 31 1 = 0"
    by (rule bit_eqI) (simp only: bit_and_iff bit_take_bit_iff bit_push_bit_iff bit_0_eq bot_apply, auto)
  ultimately have "d AND 0x80000000 = 0" by simp
  then show False using \<open>d AND 0x80000000 \<noteq> 0\<close> by simp
qed

lemma liDigitDiv_shapeD:
  assumes "liDigitDiv_shape pDiv pRem quoLen"
  obtains v where "pDiv = v @ [0]" "v \<noteq> []" "normalized (last v)" "1 \<le> quoLen"
    "length pRem = quoLen + length v" "val (drop quoLen pRem) < val v" "val pDiv = val v"
proof -
  let ?dl = "length pDiv - 1"
  have sh: "1 \<le> ?dl" "1 \<le> quoLen" "quoLen + length pDiv = length pRem + 1" "pDiv ! ?dl = 0"
    "pDiv ! (?dl - 1) AND 0x80000000 \<noteq> 0" "pRem ! (length pRem - 1) < pDiv ! (?dl - 1)"
    using assms unfolding liDigitDiv_shape_def Let_def by blast+
  define v where "v = take ?dl pDiv"
  have len: "length v = ?dl" "v \<noteq> []" using sh(1) by (auto simp: v_def)
  have "pDiv = v @ [0]"
    using take_Suc_conv_app_nth [of ?dl pDiv] sh(1,4) by (simp add: v_def)
  moreover have last: "last v = pDiv ! (?dl - 1)"
    using len sh(1) by (simp add: last_conv_nth v_def)
  moreover have "normalized (last v)" using digit_top_bit [OF sh(5)] by (simp add: last normalized_def)
  moreover have "length pRem = quoLen + length v" using sh(1,3) len by simp
  moreover have "val (drop quoLen pRem) < val v"
  proof -
    let ?t = "drop quoLen pRem"
    have t: "length ?t = length v" using \<open>length pRem = quoLen + length v\<close> by simp
    have 1: "1 \<le> length v" using len sh(1) by simp
    have "?t ! (length v - 1) < v ! (length v - 1)"
      using sh(6) last len 1 \<open>length pRem = quoLen + length v\<close> by (simp add: last_conv_nth)
    then have "val (take (length v - 1) ?t) + 2 ^ (32 * (length v - 1)) * unat (?t ! (length v - 1))
        < val (take (length v - 1) v) + 2 ^ (32 * (length v - 1)) * unat (v ! (length v - 1))"
      using val_take_lt [of "length v - 1" ?t] val_take_lt [of "length v - 1" v]
      by (intro top_limb_decides) simp_all
    then show ?thesis using val_top1 [OF 1, of ?t] val_top1 [OF 1, of v] t by simp
  qed
  moreover have "val pDiv = val v" using \<open>pDiv = v @ [0]\<close> by (simp add: val_append)
  ultimately show ?thesis using that len(2) sh(2) by blast
qed

lemma liDigitDiv32_val:
  assumes "liDigitDiv_shape pDiv pRem quoLen"
  shows "quotient_digits pDiv pRem quoLen (liDigitDiv32 pDiv pRem quoLen)"
proof -
  obtain v where v: "pDiv = v @ [0]" "v \<noteq> []" "normalized (last v)" "1 \<le> quoLen"
    "length pRem = quoLen + length v" "val (drop quoLen pRem) < val v" "val pDiv = val v"
    by (rule liDigitDiv_shapeD [OF assms])
  obtain q r where "liDigitDiv32_loop (v @ [0]) pRem (length v) quoLen [] = Some (q, r)" "length q = quoLen"
    "length r = length pRem" "val pRem = val q * val v + val r" "val r < val v"
    using liDigitDiv32_loop_val [OF v(2,3), of quoLen pRem "[]"] v(5,6) by auto
  moreover have "liDigitDiv32 pDiv pRem quoLen = liDigitDiv32_loop (v @ [0]) pRem (length v) quoLen []"
    using v by (simp add: liDigitDiv32_def Suc_le_eq)
  ultimately show ?thesis
    using div_mod_unique [of "val pRem" "val q" "val v" "val r"] v(7) by (simp add: quotient_digits_def)
qed

subsection \<open>The dispatch divides\<close>

text \<open>Both interfaces together: what the division over limbs needs of a build.\<close>

locale digit_division = digit_limbs bld + recursive_division rc
  for bld :: "'l::len li_build" and rc :: "'l word \<Rightarrow> 'l word" +
  assumes one_or_two: "LI_DIGITS_PER_LIMB bld = 1 \<or> LI_DIGITS_PER_LIMB bld = 2"
begin

lemma normalized_of_val:
  fixes v :: "'l word list"
  assumes "v \<noteq> []" "2 ^ (LENGTH('l) * length v) \<le> 2 * val v"
  shows "normalized (last v)"
proof (rule ccontr)
  assume "\<not> normalized (last v)"
  then have lt: "2 * unat (last v) + 2 \<le> 2 ^ LENGTH('l)"
  proof -
    obtain m where "LENGTH('l) = Suc m" using len_gt_0 [where 'a = 'l] by (cases "LENGTH('l)") auto
    then show ?thesis using \<open>\<not> normalized (last v)\<close> by (simp add: normalized_def not_le)
  qed
  obtain n where n: "length v = Suc n" using assms(1) by (cases v) auto
  define P where "P = (2::nat) ^ (LENGTH('l) * n)"
  have "val v = val (take n v) + P * unat (last v)"
    using val_take_Suc [of n v] assms(1) n by (simp add: last_conv_nth P_def)
  moreover have "val (take n v) < P" using val_take_lt [of n v] by (simp add: P_def)
  moreover have "P * (2 * unat (last v) + 2) \<le> P * 2 ^ LENGTH('l)" using lt by (rule mult_le_mono2)
  moreover have "2 ^ (LENGTH('l) * length v) = P * 2 ^ LENGTH('l)" by (simp add: n P_def power_add)
  ultimately show False using assms(2) by (simp add: distrib_left)
qed

text \<open>Operands shifted up by \<open>skip\<close> digits: the same quotient, the remainder shifted.\<close>

lemma shifted_division:
  fixes K U V Q R :: nat
  assumes "K * U = Q * (K * V) + R" "R < K * V"
  shows "U div V = Q" "R div K = U mod V"
proof -
  have "0 < K * V" by (rule le_less_trans [OF _ assms(2)]) simp
  then have KV: "0 < K" "0 < V" by simp_all
  have "K * U div (K * V) = Q" "K * U mod (K * V) = R"
    using div_mod_unique [OF assms] by simp_all
  moreover have "K * U div (K * V) = U div V" using KV by simp
  moreover have "K * U mod (K * V) = K * (U mod V)" by (simp only: mult_mod_right)
  moreover have "K * (U mod V) div K = U mod V" using KV by simp
  ultimately show "U div V = Q" "R div K = U mod V" by (simp_all only:)
qed

lemma liDigitDiv_limbs:
  assumes kn: "2 \<le> liKaratsubaLimbs kn" "2 \<le> liBZLimbs kn"
    and v: "v \<noteq> []" "normalized (last v)" and q: "1 \<le> quoLen"
    and u: "length pRem = quoLen + length v" and top: "val (drop quoLen pRem) < val v"
  defines "skip \<equiv> if LI_DIGITS_PER_LIMB bld = 2 then length v mod 2 else 0"
  defines "vn \<equiv> liLimbsFor bld (length v + skip)"
  defines "un \<equiv> liLimbsFor bld (length pRem + skip)"
  defines "V \<equiv> load bld (v @ [0]) (length v) skip"
  defines "U \<equiv> load bld pRem (length pRem) skip"
  assumes division: "out = (if bz then liDivRemBZ kn rc U V sc else Some (liDivRem rc U V))"
    and sc: "bz \<Longrightarrow> liDivRemBZScratch kn (un - vn) vn \<le> sc"
  shows "\<exists>qs rs. out = Some (qs, rs) \<and> quotient_digits (v @ [0]) pRem quoLen
    (Some (store bld quoLen qs (un - vn) 0, store bld (length pRem) rs vn skip))"
proof -
  have skip: "skip < LI_DIGITS_PER_LIMB bld" "LI_DIGITS_PER_LIMB bld dvd length v + skip"
    using one_or_two by (auto simp: skip_def)
  have Vl: "length V = vn" "val V = 2 ^ (32 * skip) * val v"
    using length_load [OF skip(1), of "length v" "v @ [0]"] val_load [OF skip(1), of "length v" "v @ [0]"]
    by (simp_all add: V_def vn_def add.commute)
  have Ul: "length U = un" "val U = 2 ^ (32 * skip) * val pRem"
    using length_load [OF skip(1), of "length pRem" pRem] val_load [OF skip(1), of "length pRem" pRem]
    by (simp_all add: U_def un_def add.commute)
  have vnL: "LENGTH('l) * vn = 32 * (length v + skip)" unfolding vn_def by (rule liLimbsFor_exact [OF skip(2)])
  have "32 * (length pRem + skip) \<le> LENGTH('l) * un" unfolding un_def by (rule limbs_hold_digits)
  then have "LENGTH('l) * vn + 32 * quoLen \<le> LENGTH('l) * un" using u by (simp add: vnL)
  then have unL: "LENGTH('l) * vn < LENGTH('l) * un" "32 * quoLen \<le> LENGTH('l) * (un - vn)"
    using q unfolding diff_mult_distrib2 by linarith+
  then have un: "vn < un" by simp
  have "V \<noteq> []"
    using vnL v(1) Vl(1) by (cases V) auto
  moreover have "normalized (last V)"
  proof (rule normalized_of_val [OF \<open>V \<noteq> []\<close>])
    have "2 ^ (32 * length v) \<le> 2 * val v" using normalized_val(1) [OF v] by simp
    then have "2 ^ (32 * skip) * 2 ^ (32 * length v) \<le> 2 ^ (32 * skip) * (2 * val v)" by (rule mult_le_mono2)
    also have "2 ^ (32 * skip) * 2 ^ (32 * length v) = (2::nat) ^ (LENGTH('l) * length V)"
      by (simp add: Vl vnL distrib_left power_add)
    finally show "2 ^ (LENGTH('l) * length V) \<le> 2 * val V" by (simp add: Vl)
  qed
  moreover have "val (drop (length U - length V) U) < val V"
  proof -
    have "val pRem < 2 ^ (32 * quoLen) * val v"
      using below_divisor_shift [OF top, of "take quoLen pRem"] u by simp
    also have "\<dots> \<le> 2 ^ (LENGTH('l) * (un - vn)) * val v"
      using unL(2) by (intro mult_le_mono1 power_increasing) simp_all
    finally have "2 ^ (32 * skip) * val pRem < 2 ^ (32 * skip) * (2 ^ (LENGTH('l) * (un - vn)) * val v)"
      by simp
    then have "val U < val V * 2 ^ (LENGTH('l) * (un - vn))"
      by (simp add: Ul Vl mult.commute mult.left_commute)
    then show ?thesis
      using un by (simp add: val_drop Ul(1) Vl(1) less_mult_imp_div_less)
  qed
  moreover have "length V < length U" using un by (simp add: Vl Ul)
  ultimately obtain qs rs where out: "out = Some (qs, rs @ replicate (un - vn) 0)" "length qs = un - vn" "length rs = vn"
    "val U = val qs * val V + val rs" "val rs < val V"
    using liDivRem_val [of V U] liDivRemBZ_val [OF kn, of V U sc] sc division
    by (cases bz) (auto simp: Vl Ul)
  note sh = shifted_division [of "2 ^ (32 * skip)" "val pRem" "val qs" "val v" "val rs"]
  have qr: "val qs = val pRem div val v" "val rs div 2 ^ (32 * skip) = val pRem mod val v"
    using sh out(4,5) by (simp_all add: Ul Vl)
  have "val pRem < 2 ^ (32 * quoLen) * val v"
    using below_divisor_shift [OF top, of "take quoLen pRem"] u by simp
  then have qlt: "val qs < 2 ^ (32 * quoLen)"
    unfolding qr(1) by (intro less_mult_imp_div_less) (simp only: mult.commute)
  have rlt: "val pRem mod val v < 2 ^ (32 * length pRem)"
    using val_lt [of pRem] by (intro le_less_trans [OF mod_less_eq_dividend]) simp
  have "val (store bld quoLen qs (un - vn) 0) = val pRem div val v"
    using val_store [OF digits_pos, of "un - vn" qs quoLen] out(2) qlt by (simp add: qr(1))
  moreover have "val (store bld (length pRem) (rs @ replicate (un - vn) 0) vn skip) = val pRem mod val v"
    using val_store [OF skip(1), of vn "rs @ replicate (un - vn) 0" "length pRem"] out(3) rlt by (simp add: qr(2))
  moreover have "length (store bld quoLen qs (un - vn) 0) = quoLen"
    "length (store bld (length pRem) (rs @ replicate (un - vn) 0) vn skip) = length pRem"
    using length_store [OF digits_pos, of "un - vn" qs quoLen]
      length_store [OF skip(1), of vn "rs @ replicate (un - vn) 0" "length pRem"] out(2,3) by simp_all
  ultimately show ?thesis using out(1) by (simp add: quotient_digits_def val_append)
qed

lemma liDigitDiv_val:
  assumes kn: "knobs_ok kn" and sh: "liDigitDiv_shape pDiv pRem quoLen"
  shows "quotient_digits pDiv pRem quoLen (liDigitDiv bld rc kn env pDiv pRem quoLen)"
proof -
  obtain v where v: "pDiv = v @ [0]" "v \<noteq> []" "normalized (last v)" "1 \<le> quoLen"
    "length pRem = quoLen + length v" "val (drop quoLen pRem) < val v" "val pDiv = val v"
    by (rule liDigitDiv_shapeD [OF sh])
  have k: "2 \<le> liKaratsubaLimbs kn" "2 \<le> liBZLimbs kn" using kn by (simp_all add: knobs_ok_def)
  note loop = liDigitDiv32_val [OF sh]
  define skip where "skip = (if LI_DIGITS_PER_LIMB bld = 2 then length v mod 2 else 0)"
  define vn where "vn = liLimbsFor bld (length v + skip)"
  define un where "un = liLimbsFor bld (length pRem + skip)"
  define bz where "bz = liDigitDiv_bz kn vn (un - vn)"
  define need where "need = vn + un + (un - vn)"
  define need' where "need' = (if bz then need + liDivRemBZScratch kn (un - vn) vn else need)"
  define V where "V = load bld (v @ [0]) (length v) skip"
  define U where "U = load bld pRem (length pRem) skip"
  define out where "out = (if bz then liDivRemBZ kn rc U V (need' - need) else Some (liDivRem rc U V))"
  have sc: "bz \<Longrightarrow> liDivRemBZScratch kn (un - vn) vn \<le> need' - need" by (simp add: need'_def)
  obtain qs rs where out': "out = Some (qs, rs)" "quotient_digits (v @ [0]) pRem quoLen
    (Some (store bld quoLen qs (un - vn) 0, store bld (length pRem) rs vn skip))"
    using liDigitDiv_limbs [OF k v(2,3,4,5,6), folded skip_def, folded vn_def un_def V_def U_def, OF out_def sc]
    by blast
  have "liDigitDiv bld rc kn env pDiv pRem quoLen =
      (if quoLen \<le> liDivLoopQuotientDigits kn \<and> length v < liDivLoopDivisorDigits kn then liDigitDiv32 pDiv pRem quoLen
       else if \<not> liScratch bld env need' then liDigitDiv32 pDiv pRem quoLen
       else do { (q, u) \<leftarrow> out; Some (store bld quoLen q (un - vn) 0, store bld (length pRem) u vn skip) })"
  proof -
    have "length pDiv - 1 = length v" using v(1) by simp
    then show ?thesis
      unfolding liDigitDiv_def Let_def skip_def out_def need'_def need_def bz_def un_def vn_def V_def U_def
      by (simp only: sh not_True_eq_False if_False v(1) [symmetric])
  qed
  then show ?thesis using loop out' v(1) by simp
qed

end

interpretation dd64: digit_division build64 liReciprocal64
  by unfold_locales (simp add: build64_def)

interpretation dd32: digit_division build32 liReciprocal32
  by unfold_locales (simp add: build32_def)

text \<open>
  C4: \<open>liDigitDiv\<close> divides: on the shape the plugin prepares (normalized divisor with a zero digit above it, the
  dividend's top digit below the divisor's), with any admissible thresholds and whatever the allocator answers, both
  builds store the quotient and leave the remainder, whichever route runs: the 32-bit loop, algorithm D
  or Burnikel and Ziegler's recursion, with or without the skipped digit.
\<close>
theorem liDigitDiv_divides:
  assumes "knobs_ok kn" "liDigitDiv_shape pDiv pRem quoLen"
  shows "(\<exists>q r. liDigitDiv build64 liReciprocal64 kn env pDiv pRem quoLen = Some (q, r) \<and>
      length q = quoLen \<and> length r = length pRem \<and>
      val q = val pRem div val pDiv \<and> val r = val pRem mod val pDiv) \<and>
    (\<exists>q r. liDigitDiv build32 liReciprocal32 kn env pDiv pRem quoLen = Some (q, r) \<and>
      length q = quoLen \<and> length r = length pRem \<and>
      val q = val pRem div val pDiv \<and> val r = val pRem mod val pDiv)"
  using dd64.liDigitDiv_val [OF assms, of env] dd32.liDigitDiv_val [OF assms, of env]
  by (simp add: quotient_digits_def)

theorem liDigitDiv_divides_witness:
  "(\<exists>q r. liDigitDiv build64 liReciprocal64 knobs64
        \<lparr>malloc = (\<lambda>n. True), SIZE_MAX = 2 ^ 64 - 1\<rparr> [7, 1, 0x80000001, 0] [1, 2, 3, 4, 5, 6] 3 = Some (q, r) \<and>
      length q = 3 \<and> length r = length [1, 2, 3, 4, 5, 6 :: 32 word] \<and>
      val q = val [1, 2, 3, 4, 5, 6 :: 32 word] div val [7, 1, 0x80000001, 0 :: 32 word] \<and>
      val r = val [1, 2, 3, 4, 5, 6 :: 32 word] mod val [7, 1, 0x80000001, 0 :: 32 word]) \<and>
   (\<exists>q r. liDigitDiv build32 liReciprocal32 knobs64
        \<lparr>malloc = (\<lambda>n. True), SIZE_MAX = 2 ^ 64 - 1\<rparr> [7, 1, 0x80000001, 0] [1, 2, 3, 4, 5, 6] 3 = Some (q, r) \<and>
      length q = 3 \<and> length r = length [1, 2, 3, 4, 5, 6 :: 32 word] \<and>
      val q = val [1, 2, 3, 4, 5, 6 :: 32 word] div val [7, 1, 0x80000001, 0 :: 32 word] \<and>
      val r = val [1, 2, 3, 4, 5, 6 :: 32 word] mod val [7, 1, 0x80000001, 0 :: 32 word])"
  by (rule liDigitDiv_divides) (simp_all add: knobs_ok_def knobs64_def liDigitDiv_shape_def)

text \<open>
  The limb kernels are the loop they replaced: on the plugin's shape both builds of \<open>liDigitDiv\<close> answer, digit for
  digit, what \<open>liDigitDiv32\<close> answers.
\<close>
theorem liDigitDiv_is_the_loop:
  assumes "knobs_ok kn" "liDigitDiv_shape pDiv pRem quoLen"
  shows "liDigitDiv build64 liReciprocal64 kn env pDiv pRem quoLen = liDigitDiv32 pDiv pRem quoLen \<and>
    liDigitDiv build32 liReciprocal32 kn env' pDiv pRem quoLen = liDigitDiv32 pDiv pRem quoLen"
  using dd64.liDigitDiv_val [OF assms, of env] dd32.liDigitDiv_val [OF assms, of env'] liDigitDiv32_val [OF assms(2)]
    quotient_digits_unique by blast

theorem liDigitDiv_is_the_loop_witness:
  "liDigitDiv build64 liReciprocal64 (knobs64\<lparr>liDivLoopQuotientDigits := 0\<rparr>)
      \<lparr>malloc = (\<lambda>n. True), SIZE_MAX = 2 ^ 64 - 1\<rparr> [7, 1, 0x80000001, 0] [1, 2, 3, 4, 5, 6] 3 = liDigitDiv32 [7, 1, 0x80000001, 0] [1, 2, 3, 4, 5, 6] 3 \<and>
   liDigitDiv build32 liReciprocal32 (knobs64\<lparr>liDivLoopQuotientDigits := 0\<rparr>)
      \<lparr>malloc = (\<lambda>n. False), SIZE_MAX = 2 ^ 32 - 1\<rparr> [7, 1, 0x80000001, 0] [1, 2, 3, 4, 5, 6] 3 = liDigitDiv32 [7, 1, 0x80000001, 0] [1, 2, 3, 4, 5, 6] 3"
  by (rule liDigitDiv_is_the_loop) (simp_all add: knobs_ok_def knobs64_def liDigitDiv_shape_def)

end
