(* ===== verification/LimbMont.thy ===== *)
theory LimbMont
  imports LimbMul
begin

text \<open>
  Montgomery's multiplication over limbs, \<open>liMontMul\<close> (the operand scanned limb by limb, each row
  reduced at once) and \<open>liMontRedc\<close> (the reduction of a product, two rows in each pass) of
  \<open>LargeIntegersKernels.c\<close>. With \<open>B\<close> the base of the limbs both compute the one value \<open>T\<close> with
  \<open>T * B ^ n = a * b + U * m\<close> for an \<open>U < B ^ n\<close>.
\<close>

subsection \<open>One limb at a time\<close>

text \<open>
  The two inner loops of \<open>liMontMul\<close>: while \<open>b\<close> has limbs a row adds both products, then only the one
  with the modulus. \<open>t[j - 1]\<close> takes the limb computed from \<open>t[j]\<close>, so the answer is the row shifted down.
\<close>

fun liMontMul_row :: "'l::len word \<Rightarrow> 'l word \<Rightarrow> 'l word list \<Rightarrow> 'l word list \<Rightarrow> 'l word list \<Rightarrow>
    'l word \<Rightarrow> 'l word \<Rightarrow> 'l word list \<times> 'l word \<times> 'l word" where
  "liMontMul_row ai u (bj # b) (mj # m) (tj # t) c1 c2 =
     (let x = wide ai * wide bj + wide tj + wide c1;
          y = wide u * wide mj + wide (lo x) + wide c2;
          (r, c) = liMontMul_row ai u b m t (hi x) (hi y)
      in (lo y # r, c))"
| "liMontMul_row ai u [] (mj # m) (tj # t) c1 c2 =
     (let x = wide tj + wide c1;
          y = wide u * wide mj + wide (lo x) + wide c2;
          (r, c) = liMontMul_row ai u [] m t (hi x) (hi y)
      in (lo y # r, c))"
| "liMontMul_row ai u b m t c1 c2 = ([], c1, c2)"

definition liMontMul_step :: "'l::len word list \<Rightarrow> 'l word \<Rightarrow> 'l word list \<Rightarrow> 'l word list \<Rightarrow> nat \<Rightarrow> 'l word \<Rightarrow> 'l word list" where
  "liMontMul_step t ai b m n mInv =
     (let x = wide ai * wide (b ! 0) + wide (t ! 0);
          u = lo x * mInv;
          y = wide u * wide (m ! 0) + wide (lo x);
          (r, c1, c2) = liMontMul_row ai u (drop 1 b) (drop 1 (take n m)) (drop 1 (take n t)) (hi x) (hi y);
          x = wide (t ! n) + wide c1 + wide c2
      in r @ [lo x, hi x])"

fun liMontMul_loop :: "'l::len word list \<Rightarrow> 'l word list \<Rightarrow> 'l word list \<Rightarrow> 'l word list \<Rightarrow> nat \<Rightarrow> 'l word \<Rightarrow> 'l word list" where
  "liMontMul_loop t [] b m n mInv = t"
| "liMontMul_loop t (ai # a) b m n mInv = liMontMul_loop (liMontMul_step t ai b m n mInv) a b m n mInv"

definition liMontMul :: "'l::len word list \<Rightarrow> 'l word list \<Rightarrow> nat \<Rightarrow> 'l word list \<Rightarrow> nat \<Rightarrow> 'l word \<Rightarrow> 'l word list" where
  "liMontMul a b bn m n mInv = liMontMul_loop (replicate (n + 1) 0) (take n a) (take bn b) m n mInv"

subsection \<open>The reduction of a product\<close>

text \<open>The carry that runs up from a pass; \<open>None\<close> is a carry out of the memory of the product.\<close>

fun liMontRedc_carry :: "'l::len word list \<Rightarrow> 'l word \<Rightarrow> 'l word list option" where
  "liMontRedc_carry r c =
     (if c = 0 then Some r
      else case r of [] \<Rightarrow> None
           | rj # r \<Rightarrow> map_option ((#) (rj + c)) (liMontRedc_carry r (of_bool (rj + c < c))))"

declare liMontRedc_carry.simps [simp del]

text \<open>The middle of a pass: \<open>mj\<close> is \<open>m[j]\<close>, \<open>mp\<close> is \<open>m[j - 1]\<close>.\<close>

fun liMontRedc_row :: "'l::len word \<Rightarrow> 'l word \<Rightarrow> 'l word list \<Rightarrow> 'l word list \<Rightarrow> 'l word list \<Rightarrow>
    'l word \<Rightarrow> 'l word \<Rightarrow> 'l word list \<times> 'l word \<times> 'l word" where
  "liMontRedc_row u0 u1 (mj # m) (mp # m') (rj # r) c1 c2 =
     (let x = wide u0 * wide mj + wide rj + wide c1;
          y = wide u1 * wide mp + wide (lo x) + wide c2;
          (r', c) = liMontRedc_row u0 u1 m m' r (hi x) (hi y)
      in (lo y # r', c))"
| "liMontRedc_row u0 u1 m m' r c1 c2 = ([], c1, c2)"

definition liMontRedc_pass :: "'l::len word list \<Rightarrow> 'l word list \<Rightarrow> nat \<Rightarrow> 'l word \<Rightarrow> 'l word list option" where
  "liMontRedc_pass r m n mInv =
     (if length r < n + 2 then None
      else let u0 = r ! 0 * mInv;
               x = wide u0 * wide (m ! 0) + wide (r ! 0);
               x = wide u0 * wide (m ! 1) + wide (r ! 1) + wide (hi x);
               u1 = lo x * mInv;
               y = wide u1 * wide (m ! 0) + wide (lo x);
               (r', c1, c2) = liMontRedc_row u0 u1 (drop 2 (take n m)) (drop 1 (take n m)) (drop 2 (take n r)) (hi x) (hi y);
               x = wide (r ! n) + wide c1;
               y = wide u1 * wide (m ! (n - 1)) + wide (lo x) + wide c2;
               rn = lo y;
               x = wide (hi y) + wide (hi x) + wide (r ! (n + 1));
               rn1 = lo x
           in do {
             up \<leftarrow> liMontRedc_carry (drop (n + 2) r) (hi x);
             Some (take 2 r @ r' @ [rn, rn1] @ up)
           })"

definition liMontRedc_last :: "'l::len word list \<Rightarrow> 'l word list \<Rightarrow> nat \<Rightarrow> 'l word \<Rightarrow> 'l word list option" where
  "liMontRedc_last r m n mInv =
     (let (r', c) = liAddMul1 r m n (r ! 0 * mInv)
      in map_option ((@) r') (liMontRedc_carry (drop n r) c))"

text \<open>The rows from \<open>i\<close> on; \<open>left\<close> counts those left, \<open>i = n - left\<close>.\<close>

fun liMontRedc_loop :: "'l::len word list \<Rightarrow> nat \<Rightarrow> 'l word list \<Rightarrow> nat \<Rightarrow> 'l word \<Rightarrow> nat \<Rightarrow> 'l word list option" where
  "liMontRedc_loop p i m n mInv (Suc (Suc left)) = do {
     r \<leftarrow> liMontRedc_pass (drop i p) m n mInv;
     liMontRedc_loop (take i p @ r) (i + 2) m n mInv left
   }"
| "liMontRedc_loop p i m n mInv (Suc 0) = map_option ((@) (take i p)) (liMontRedc_last (drop i p) m n mInv)"
| "liMontRedc_loop p i m n mInv 0 = Some p"

definition liMontRedc :: "'l::len word list \<Rightarrow> 'l word list \<Rightarrow> nat \<Rightarrow> 'l word \<Rightarrow> 'l word list option" where
  "liMontRedc p m n mInv = do {
     p \<leftarrow> liMontRedc_loop p 0 m n mInv n;
     Some (take (n + 1) (drop n p))
   }"

subsection \<open>Rows\<close>

lemma unat_wide_add2: "unat (wide a + wide (b :: 'l::len word)) = unat a + unat b"
  using unat_wide_add3 [of a b 0] by (simp add: wide_def)

lemma lo_fma: "lo (wide a * wide b + wide (c :: 'l::len word)) = a * b + c"
  unfolding word_unat_eq_iff unat_lo unat_fma by (simp add: unat_word_ariths mod_simps)

text \<open>The quotient digit \<open>x * mInv\<close> of a row clears its low limb.\<close>

lemma low_limb_clears:
  fixes x :: "'l::len word"
  assumes "m0 * mInv = -1"
  shows "lo (wide (x * mInv) * wide m0 + wide x) = 0"
proof -
  have "x * mInv * m0 + x = x * (m0 * mInv) + x" by (simp only: mult_ac)
  then show ?thesis using assms by (simp add: lo_fma)
qed

lemma two_rows_add:
  fixes B :: nat
  assumes "lx + B * hx = p + t + c1" "ly + B * hy = q + lx + c2"
    and "r + e * d = v + hx + hy"
  shows "ly + B * r + B * e * d = p + q + t + B * v + c1 + c2"
proof -
  have "ly + B * r + B * e * d = ly + B * (r + e * d)" by (simp add: distrib_left mult.assoc)
  also have "\<dots> = ly + B * hy + B * hx + B * v" unfolding assms(3) by (simp add: distrib_left)
  finally show ?thesis unfolding assms(2) using assms(1) by linarith
qed

lemma liMontMul_row_val:
  fixes t :: "'l::len word list"
  shows "liMontMul_row ai u b m t c1 c2 = (r, d1, d2) \<Longrightarrow> length m = length t \<Longrightarrow> length b \<le> length t \<Longrightarrow>
    length r = length t \<and>
    val r + 2 ^ (LENGTH('l) * length t) * (unat d1 + unat d2)
      = val t + unat ai * val b + unat u * val m + unat c1 + unat c2"
proof (induction ai u b m t c1 c2 arbitrary: r d1 d2 rule: liMontMul_row.induct)
  case (1 ai u bj b mj m tj t c1 c2)
  define x where "x = wide ai * wide bj + wide tj + wide c1"
  define y where "y = wide u * wide mj + wide (lo x) + wide c2"
  have x: "unat (lo x) + 2 ^ LENGTH('l) * unat (hi x) = unat ai * unat bj + unat tj + unat c1"
    by (simp only: unat_lo_hi) (simp only: x_def unat_fma2)
  have y: "unat (lo y) + 2 ^ LENGTH('l) * unat (hi y) = unat u * unat mj + unat (lo x) + unat c2"
    by (simp only: unat_lo_hi) (simp only: y_def unat_fma2)
  from "1.prems"(1) obtain r1 where rec: "liMontMul_row ai u b m t (hi x) (hi y) = (r1, d1, d2)" and r: "r = lo y # r1"
    by (auto simp: Let_def x_def y_def split: prod.splits)
  from "1.IH" [OF x_def y_def rec] "1.prems"(2,3)
  have IH: "val r1 + 2 ^ (LENGTH('l) * length t) * (unat d1 + unat d2)
      = (val t + unat ai * val b + unat u * val m) + unat (hi x) + unat (hi y)"
    and len: "length r1 = length t" by auto
  show ?case using two_rows_add [OF x y IH] len by (simp add: r power_add algebra_simps)
next
  case (2 ai u mj m tj t c1 c2)
  define x where "x = wide tj + wide c1"
  define y where "y = wide u * wide mj + wide (lo x) + wide c2"
  have x: "unat (lo x) + 2 ^ LENGTH('l) * unat (hi x) = 0 + unat tj + unat c1"
    by (simp only: unat_lo_hi) (simp only: x_def unat_wide_add2)
  have y: "unat (lo y) + 2 ^ LENGTH('l) * unat (hi y) = unat u * unat mj + unat (lo x) + unat c2"
    by (simp only: unat_lo_hi) (simp only: y_def unat_fma2)
  from "2.prems"(1) obtain r1 where rec: "liMontMul_row ai u [] m t (hi x) (hi y) = (r1, d1, d2)" and r: "r = lo y # r1"
    by (auto simp: Let_def x_def y_def split: prod.splits)
  from "2.IH" [OF x_def y_def rec] "2.prems"(2,3)
  have IH: "val r1 + 2 ^ (LENGTH('l) * length t) * (unat d1 + unat d2)
      = (val t + unat u * val m) + unat (hi x) + unat (hi y)"
    and len: "length r1 = length t" by auto
  show ?case using two_rows_add [OF x y IH] len by (simp add: r power_add algebra_simps)
qed auto

lemma val_take_Cons: "0 < n \<Longrightarrow> n \<le> length xs \<Longrightarrow>
  val (take n xs) = unat (xs ! 0) + 2 ^ LENGTH('l) * val (drop 1 (take n (xs :: 'l::len word list)))"
  by (cases xs; cases n) simp_all

lemma liMontMul_step_val:
  fixes t :: "'l::len word list"
  assumes inv: "m ! 0 * mInv = -1" and n: "1 \<le> n" "n \<le> length m" "length t = n + 1"
    and b: "1 \<le> length b" "length b \<le> n"
  obtains u where "u < 2 ^ LENGTH('l)" "length (liMontMul_step t ai b m n mInv) = n + 1"
    "2 ^ LENGTH('l) * val (liMontMul_step t ai b m n mInv) = val t + unat ai * val b + u * val (take n m)"
proof -
  let ?B = "2 ^ LENGTH('l) :: nat"
  define x where "x = wide ai * wide (b ! 0) + wide (t ! 0)"
  define u where "u = lo x * mInv"
  define y where "y = wide u * wide (m ! 0) + wide (lo x)"
  obtain r c1 c2 where row: "liMontMul_row ai u (drop 1 b) (drop 1 (take n m)) (drop 1 (take n t)) (hi x) (hi y) = (r, c1, c2)"
    by (metis prod_cases3)
  define z where "z = wide (t ! n) + wide c1 + wide c2"
  have x: "unat (lo x) + ?B * unat (hi x) = unat ai * unat (b ! 0) + unat (t ! 0)"
    by (simp only: unat_lo_hi) (simp only: x_def unat_fma)
  have "lo y = 0" unfolding y_def u_def using inv by (rule low_limb_clears)
  then have y: "?B * unat (hi y) = unat u * unat (m ! 0) + unat (lo x)"
    using unat_lo_hi [of y] by (simp add: y_def unat_fma)
  have z: "unat (lo z) + ?B * unat (hi z) = unat (t ! n) + unat c1 + unat c2"
    by (simp only: unat_lo_hi) (simp only: z_def unat_wide_add3)
  have r: "length r = n - 1"
    "val r + 2 ^ (LENGTH('l) * (n - 1)) * (unat c1 + unat c2)
      = val (drop 1 (take n t)) + unat ai * val (drop 1 b) + unat u * val (drop 1 (take n m)) + unat (hi x) + unat (hi y)"
    using liMontMul_row_val [OF row] n b by simp_all
  have eq: "liMontMul_step t ai b m n mInv = r @ [lo z, hi z]"
    using row unfolding liMontMul_step_def Let_def x_def u_def y_def z_def by simp
  have t: "val t = unat (t ! 0) + ?B * val (drop 1 (take n t)) + ?B * 2 ^ (LENGTH('l) * (n - 1)) * unat (t ! n)"
  proof -
    have "val t = val (take n t) + 2 ^ (LENGTH('l) * n) * unat (t ! n)"
      using val_take_Suc [of n t] n(3) by simp
    moreover have "(2::nat) ^ (LENGTH('l) * n) = ?B * 2 ^ (LENGTH('l) * (n - 1))"
      using n(1) by (cases n) (simp_all add: power_add)
    ultimately show ?thesis using val_take_Cons [of n t] n by simp
  qed
  have b': "val b = unat (b ! 0) + ?B * val (drop 1 b)" using b(1) by (cases b) simp_all
  have m': "val (take n m) = unat (m ! 0) + ?B * val (drop 1 (take n m))" using val_take_Cons [of n m] n by simp
  have "?B * val (r @ [lo z, hi z]) = ?B * (val r + 2 ^ (LENGTH('l) * (n - 1)) * (unat (lo z) + ?B * unat (hi z)))"
    by (simp add: val_append r(1))
  also have "\<dots> = ?B * (val r + 2 ^ (LENGTH('l) * (n - 1)) * (unat c1 + unat c2)) + ?B * 2 ^ (LENGTH('l) * (n - 1)) * unat (t ! n)"
    unfolding z by (simp add: algebra_simps)
  also have "\<dots> = val t + unat ai * val b + unat u * val (take n m)"
    unfolding r(2) t b' m' using x y by (simp add: algebra_simps)
  finally show thesis using that [of "unat u"] r(1) n(1) unat_lt [of u] unfolding eq by simp
qed

lemma digit_below: "u < B \<Longrightarrow> U < C \<Longrightarrow> u + B * U < B * (C :: nat)"
proof -
  assume u: "u < B" and U: "U < C"
  have "B * (U + 1) \<le> B * C" using U by (intro mult_le_mono2) simp
  then show ?thesis using u by simp
qed

lemma liMontMul_loop_val:
  fixes t :: "'l::len word list"
  assumes inv: "m ! 0 * mInv = -1" and n: "1 \<le> n" "n \<le> length m" and b: "1 \<le> length b" "length b \<le> n"
  shows "length t = n + 1 \<Longrightarrow> \<exists>U. U < 2 ^ (LENGTH('l) * length a) \<and> length (liMontMul_loop t a b m n mInv) = n + 1 \<and>
    2 ^ (LENGTH('l) * length a) * val (liMontMul_loop t a b m n mInv) = val t + val a * val b + U * val (take n m)"
proof (induction a arbitrary: t)
  case Nil
  then show ?case by simp
next
  case (Cons ai a)
  let ?B = "2 ^ LENGTH('l) :: nat"
  obtain u where u: "u < ?B" "length (liMontMul_step t ai b m n mInv) = n + 1"
    "?B * val (liMontMul_step t ai b m n mInv) = val t + unat ai * val b + u * val (take n m)"
    by (rule liMontMul_step_val [OF inv n Cons.prems b])
  obtain U where U: "U < 2 ^ (LENGTH('l) * length a)"
    "length (liMontMul_loop (liMontMul_step t ai b m n mInv) a b m n mInv) = n + 1"
    "2 ^ (LENGTH('l) * length a) * val (liMontMul_loop (liMontMul_step t ai b m n mInv) a b m n mInv)
      = val (liMontMul_step t ai b m n mInv) + val a * val b + U * val (take n m)"
    using Cons.IH [OF u(2)] by blast
  have "2 ^ (LENGTH('l) * length (ai # a)) * val (liMontMul_loop t (ai # a) b m n mInv)
      = ?B * (val (liMontMul_step t ai b m n mInv) + val a * val b + U * val (take n m))"
    unfolding U(3) [symmetric] by (simp add: power_add)
  also have "\<dots> = val t + val (ai # a) * val b + (u + ?B * U) * val (take n m)"
    unfolding distrib_left u(3) by (simp add: algebra_simps)
  finally show ?case using U(2) digit_below [OF u(1) U(1)]
    by (intro exI [of _ "u + ?B * U"]) (simp add: power_add)
qed

text \<open>
  What both routes compute: the exact quotient, for the one \<open>U\<close> below \<open>R\<close> that makes it exact.
\<close>

definition montgomery :: "nat \<Rightarrow> nat \<Rightarrow> nat \<Rightarrow> nat \<Rightarrow> bool" where
  "montgomery R p m T \<longleftrightarrow> (\<exists>U < R. R * T = p + U * m)"

lemma liMontMul_val:
  fixes a b m :: "'l::len word list"
  assumes "m ! 0 * mInv = -1" "1 \<le> n" "n \<le> length m" "1 \<le> bn" "bn \<le> n" "bn \<le> length b" "n \<le> length a"
  shows "length (liMontMul a b bn m n mInv) = n + 1"
    "montgomery (2 ^ (LENGTH('l) * n)) (val (take n a) * val (take bn b)) (val (take n m)) (val (liMontMul a b bn m n mInv))"
  using liMontMul_loop_val [of m mInv n "take bn b" "replicate (n + 1) 0" "take n a"] assms
  unfolding montgomery_def liMontMul_def by (auto simp del: replicate.simps)

subsection \<open>The reduction\<close>

lemma liMontRedc_carry_val:
  fixes r :: "'l::len word list"
  shows "val r + unat c < 2 ^ (LENGTH('l) * length r) \<Longrightarrow>
    \<exists>r'. liMontRedc_carry r c = Some r' \<and> length r' = length r \<and> val r' = val r + unat c"
proof (induction r c rule: liMontRedc_carry.induct)
  case (1 r c)
  show ?case
  proof (cases "c = 0")
    case True
    then show ?thesis by (simp add: liMontRedc_carry.simps)
  next
    case False
    then have "0 < unat c" by (simp add: unat_gt_0)
    then obtain rj rs where r: "r = rj # rs" using "1.prems" by (cases r) auto
    define c1 :: "'l word" where "c1 = of_bool (rj + c < c)"
    have c1: "unat (rj + c) + 2 ^ LENGTH('l) * unat c1 = unat rj + unat c"
      unfolding c1_def unat_of_bool_word by (rule unat_plus_carry)
    have sum: "unat (rj + c) + 2 ^ LENGTH('l) * (val rs + unat c1) = val r + unat c"
      using c1 by (simp add: r distrib_left)
    have "2 ^ LENGTH('l) * (val rs + unat c1) \<le> val r + unat c" using sum by linarith
    also have "\<dots> < 2 ^ LENGTH('l) * 2 ^ (LENGTH('l) * length rs)" using "1.prems" by (simp add: r power_add)
    finally have "val rs + unat c1 < 2 ^ (LENGTH('l) * length rs)" by (simp only: mult_less_cancel1)
    then obtain r' where "liMontRedc_carry rs c1 = Some r'" "length r' = length rs" "val r' = val rs + unat c1"
      using "1.IH" [OF False r] unfolding c1_def by blast
    then show ?thesis using False sum by (subst liMontRedc_carry.simps) (simp add: r c1_def)
  qed
qed

lemma liMontRedc_row_val:
  fixes r :: "'l::len word list"
  shows "liMontRedc_row u0 u1 m m' r c1 c2 = (r', d1, d2) \<Longrightarrow> length m = length r \<Longrightarrow> length r \<le> length m' \<Longrightarrow>
    length r' = length r \<and>
    val r' + 2 ^ (LENGTH('l) * length r) * (unat d1 + unat d2)
      = val r + unat u0 * val m + unat u1 * val (take (length r) m') + unat c1 + unat c2"
proof (induction u0 u1 m m' r c1 c2 arbitrary: r' d1 d2 rule: liMontRedc_row.induct)
  case (1 u0 u1 mj m mp m' rj r c1 c2)
  define x where "x = wide u0 * wide mj + wide rj + wide c1"
  define y where "y = wide u1 * wide mp + wide (lo x) + wide c2"
  have x: "unat (lo x) + 2 ^ LENGTH('l) * unat (hi x) = unat u0 * unat mj + unat rj + unat c1"
    by (simp only: unat_lo_hi) (simp only: x_def unat_fma2)
  have y: "unat (lo y) + 2 ^ LENGTH('l) * unat (hi y) = unat u1 * unat mp + unat (lo x) + unat c2"
    by (simp only: unat_lo_hi) (simp only: y_def unat_fma2)
  from "1.prems"(1) obtain r1 where rec: "liMontRedc_row u0 u1 m m' r (hi x) (hi y) = (r1, d1, d2)" and r: "r' = lo y # r1"
    by (auto simp: Let_def x_def y_def split: prod.splits)
  from "1.IH" [OF x_def y_def rec] "1.prems"(2,3)
  have IH: "val r1 + 2 ^ (LENGTH('l) * length r) * (unat d1 + unat d2)
      = (val r + unat u0 * val m + unat u1 * val (take (length r) m')) + unat (hi x) + unat (hi y)"
    and len: "length r1 = length r" by auto
  show ?case using two_rows_add [OF x y IH] len by (simp add: r power_add algebra_simps)
qed auto

text \<open>A pass clears two limbs: what is left above them is the sum with two rows of the modulus.\<close>

lemma liMontRedc_pass_val:
  fixes r :: "'l::len word list"
  assumes inv: "m ! 0 * mInv = -1" and n: "2 \<le> n" "n \<le> length m" "n + 2 \<le> length r"
    and fits: "\<And>u. u < 2 ^ (LENGTH('l) * 2) \<Longrightarrow> val r + u * val (take n m) < 2 ^ (LENGTH('l) * length r)"
  obtains u r' where "u < 2 ^ (LENGTH('l) * 2)" "liMontRedc_pass r m n mInv = Some r'" "length r' = length r"
    "2 ^ (LENGTH('l) * 2) * val (drop 2 r') = val r + u * val (take n m)"
proof -
  let ?B = "2 ^ LENGTH('l) :: nat" and ?N = "2 ^ (LENGTH('l) * (n - 2)) :: nat"
  define M where "M = take n m"
  have M: "m ! 0 = M ! 0" "m ! 1 = M ! 1" "m ! (n - 1) = M ! (n - 1)" "length M = n"
    using n by (simp_all add: M_def)
  define u0 where "u0 = r ! 0 * mInv"
  define x0 where "x0 = wide u0 * wide (M ! 0) + wide (r ! 0)"
  define x1 where "x1 = wide u0 * wide (M ! 1) + wide (r ! 1) + wide (hi x0)"
  define u1 where "u1 = lo x1 * mInv"
  define y1 where "y1 = wide u1 * wide (M ! 0) + wide (lo x1)"
  obtain r' c1 c2 where row: "liMontRedc_row u0 u1 (drop 2 M) (drop 1 M) (drop 2 (take n r)) (hi x1) (hi y1) = (r', c1, c2)"
    by (metis prod_cases3)
  define x2 where "x2 = wide (r ! n) + wide c1"
  define y2 where "y2 = wide u1 * wide (M ! (n - 1)) + wide (lo x2) + wide c2"
  define x3 where "x3 = wide (hi y2) + wide (hi x2) + wide (r ! (n + 1))"
  have "lo x0 = 0" unfolding x0_def u0_def using inv [unfolded M(1)] by (rule low_limb_clears)
  then have x0: "?B * unat (hi x0) = unat u0 * unat (M ! 0) + unat (r ! 0)"
    using unat_lo_hi [of x0] by (simp add: x0_def unat_fma)
  have x1: "unat (lo x1) + ?B * unat (hi x1) = unat u0 * unat (M ! 1) + unat (r ! 1) + unat (hi x0)"
    by (simp only: unat_lo_hi) (simp only: x1_def unat_fma2)
  have "lo y1 = 0" unfolding y1_def u1_def using inv [unfolded M(1)] by (rule low_limb_clears)
  then have y1: "?B * unat (hi y1) = unat u1 * unat (M ! 0) + unat (lo x1)"
    using unat_lo_hi [of y1] by (simp add: y1_def unat_fma)
  have x2: "unat (lo x2) + ?B * unat (hi x2) = unat (r ! n) + unat c1"
    by (simp only: unat_lo_hi) (simp only: x2_def unat_wide_add2)
  have y2: "unat (lo y2) + ?B * unat (hi y2) = unat u1 * unat (M ! (n - 1)) + unat (lo x2) + unat c2"
    by (simp only: unat_lo_hi) (simp only: y2_def unat_fma2)
  have x3: "unat (lo x3) + ?B * unat (hi x3) = unat (hi y2) + unat (hi x2) + unat (r ! (n + 1))"
    by (simp only: unat_lo_hi) (simp only: x3_def unat_wide_add3)
  define R2 where "R2 = val (drop 2 (take n r))"
  define M2 where "M2 = val (drop 2 M)"
  define M1 where "M1 = val (take (n - 2) (drop 1 M))"
  define up where "up = drop (n + 2) r"
  have r': "length r' = n - 2" "val r' + ?N * (unat c1 + unat c2)
      = R2 + unat u0 * M2 + unat u1 * M1 + unat (hi x1) + unat (hi y1)"
    using liMontRedc_row_val [OF row] n M(4) by (simp_all add: R2_def M2_def M1_def)
  have valM0: "val M = unat (M ! 0) + ?B * unat (M ! 1) + ?B * ?B * M2"
  proof -
    obtain a b ms where "M = a # b # ms" using M(4) n(1) by (cases M; cases "tl M") auto
    then show ?thesis by (simp add: M2_def algebra_simps)
  qed
  have valM1: "val M = unat (M ! 0) + ?B * M1 + ?B * ?N * unat (M ! (n - 1))"
  proof -
    have "val M = val (take (n - 1) M) + 2 ^ (LENGTH('l) * (n - 1)) * unat (M ! (n - 1))"
      using val_take_Suc [of "n - 1" M] n(1) M(4) by simp
    moreover have "(2::nat) ^ (LENGTH('l) * (n - 1)) = ?B * ?N"
    proof -
      have "n - 1 = Suc (n - 2)" using n(1) by simp
      then show ?thesis by (simp add: power_add)
    qed
    moreover have "val (take (n - 1) M) = unat (M ! 0) + ?B * M1"
      using val_take_Cons [of "n - 1" M] n(1) M(4) by (simp add: M1_def drop_take numeral_2_eq_2)
    ultimately show ?thesis by simp
  qed
  have valr: "val r = unat (r ! 0) + ?B * unat (r ! 1) + ?B * ?B * R2
      + ?B * ?B * ?N * unat (r ! n) + ?B * ?B * ?B * ?N * unat (r ! (n + 1)) + ?B * ?B * ?B * ?B * ?N * val up"
  proof -
    obtain a b ms where ab: "r = a # b # ms" using n by (cases r; cases "tl r") auto
    have "val ms = val (take (n - 2) ms) + ?N * val (drop (n - 2) ms)"
      using val_take_drop [of "n - 2" ms] n ab by simp
    moreover obtain p q where "drop (n - 2) ms = p # q # drop n ms"
    proof -
      have "drop (n - 2) ms = ms ! (n - 2) # ms ! (n - 1) # drop n ms"
        using n ab Cons_nth_drop_Suc [of "n - 2" ms] Cons_nth_drop_Suc [of "n - 1" ms]
        by (simp add: Suc_diff_Suc numeral_2_eq_2)
      then show thesis using that by blast
    qed
    moreover have "p = r ! n" "q = r ! (n + 1)" if "drop (n - 2) ms = p # q # drop n ms" for p q
    proof -
      have "p = drop (n - 2) ms ! 0" "q = drop (n - 2) ms ! 1" unfolding that by simp_all
      moreover have "n = Suc (Suc (n - 2))" using n(1) by simp
      then have "r ! n = ms ! (n - 2)" "r ! (n + 1) = ms ! Suc (n - 2)" unfolding ab by (metis nth_Cons_Suc Suc_eq_plus1)+
      ultimately show "p = r ! n" "q = r ! (n + 1)" using n ab by simp_all
    qed
    ultimately show ?thesis using n ab
      by (simp add: R2_def up_def numeral_2_eq_2 take_Cons' algebra_simps)
  qed
  define u where "u = unat u0 + ?B * unat u1"
  have u: "u < 2 ^ (LENGTH('l) * 2)"
    unfolding u_def mult_2_right power_add by (rule digit_below) (rule unat_lt)+
  have uM: "u * val M = unat u0 * (unat (M ! 0) + ?B * unat (M ! 1) + ?B * ?B * M2)
      + ?B * unat u1 * (unat (M ! 0) + ?B * M1 + ?B * ?N * unat (M ! (n - 1)))"
    unfolding u_def distrib_right using valM0 valM1 by simp
  have top: "unat (lo y2) + ?B * (unat (lo x3) + ?B * (unat (hi x3) + val up))
      = unat u1 * unat (M ! (n - 1)) + unat (r ! n) + (unat c1 + unat c2) + ?B * unat (r ! (n + 1)) + ?B * ?B * val up"
  proof -
    have "?B * unat (lo x3) + ?B * (?B * unat (hi x3)) = ?B * unat (hi y2) + ?B * unat (hi x2) + ?B * unat (r ! (n + 1))"
      unfolding distrib_left [symmetric] x3 ..
    then show ?thesis using x2 y2 unfolding distrib_left mult.assoc by linarith
  qed
  have low: "?B * ?B * (unat (hi x1) + unat (hi y1))
      = ?B * (unat u0 * unat (M ! 1) + unat (r ! 1)) + unat u0 * unat (M ! 0) + unat (r ! 0) + ?B * (unat u1 * unat (M ! 0))"
  proof -
    have "?B * (?B * unat (hi y1)) = ?B * (unat u1 * unat (M ! 0)) + ?B * unat (lo x1)"
      unfolding y1 distrib_left ..
    moreover have "?B * unat (lo x1) + ?B * (?B * unat (hi x1)) = ?B * (unat u0 * unat (M ! 1) + unat (r ! 1)) + ?B * unat (hi x0)"
      unfolding distrib_left [symmetric] x1 ..
    ultimately show ?thesis using x0 unfolding distrib_left mult.assoc by linarith
  qed
  have key: "?B * ?B * (val r' + ?N * (unat (lo y2) + ?B * (unat (lo x3) + ?B * (unat (hi x3) + val up)))) = val r + u * val M"
  proof -
    have "?B * ?B * (val r' + ?N * (unat c1 + unat c2)) = ?B * ?B * (R2 + unat u0 * M2 + unat u1 * M1) + ?B * ?B * (unat (hi x1) + unat (hi y1))"
      unfolding r'(2) by (simp add: distrib_left)
    then show ?thesis unfolding top low valr uM by (simp add: algebra_simps)
  qed
  have lenup: "length r = length up + 4 + (n - 2)" using n by (simp add: up_def)
  have pow: "(2::nat) ^ (LENGTH('l) * length r) = ?B * ?B * ?N * ?B * ?B * 2 ^ (LENGTH('l) * length up)"
    unfolding lenup by (simp add: power_add distrib_left power4_eq_xxxx mult.commute power_mult)
  have "?B * ?B * ?N * ?B * ?B * (val up + unat (hi x3)) \<le> val r + u * val M"
    unfolding key [symmetric] distrib_left by (simp add: algebra_simps)
  also have "\<dots> < ?B * ?B * ?N * ?B * ?B * 2 ^ (LENGTH('l) * length up)"
    using fits [OF u] pow unfolding M_def by simp
  finally have "val up + unat (hi x3) < 2 ^ (LENGTH('l) * length up)" by (simp only: mult_less_cancel1)
  then obtain up' where up': "liMontRedc_carry up (hi x3) = Some up'" "length up' = length up" "val up' = val up + unat (hi x3)"
    using liMontRedc_carry_val by blast
  have "liMontRedc_pass r m n mInv = Some (take 2 r @ r' @ [lo y2, lo x3] @ up')"
    using n(3) row up' unfolding liMontRedc_pass_def Let_def M M_def [symmetric] u0_def x0_def x1_def u1_def y1_def x2_def y2_def x3_def up_def
    by simp
  moreover have "val (r' @ [lo y2, lo x3] @ up')
      = val r' + ?N * (unat (lo y2) + ?B * (unat (lo x3) + ?B * (unat (hi x3) + val up)))"
    by (simp add: val_append r'(1) up'(3) algebra_simps)
  ultimately show thesis
    using that [OF u] key n r'(1) up'(2) lenup unfolding M_def [symmetric]
    by (simp add: mult_2_right power_add)
qed

lemma liMontRedc_last_val:
  fixes r :: "'l::len word list"
  assumes inv: "m ! 0 * mInv = -1" and n: "1 \<le> n" "n \<le> length m" "n \<le> length r"
    and fits: "\<And>u. u < 2 ^ LENGTH('l) \<Longrightarrow> val r + u * val (take n m) < 2 ^ (LENGTH('l) * length r)"
  obtains u r' where "u < 2 ^ LENGTH('l)" "liMontRedc_last r m n mInv = Some r'" "length r' = length r"
    "2 ^ LENGTH('l) * val (drop 1 r') = val r + u * val (take n m)"
proof -
  define u where "u = r ! 0 * mInv"
  obtain r1 c where r1: "liAddMul1 r m n u = (r1, c)" by fastforce
  note v = liAddMul1_val [OF r1 n(2,3)]
  have sum: "val r1 + 2 ^ (LENGTH('l) * n) * (val (drop n r) + unat c) = val r + unat u * val (take n m)"
    using v(2) val_take_drop [OF n(3)] unfolding distrib_left mult.commute [of "unat u"] by linarith
  have "2 ^ (LENGTH('l) * n) * (val (drop n r) + unat c) \<le> val r + unat u * val (take n m)"
    using sum by linarith
  also have "\<dots> < 2 ^ (LENGTH('l) * n) * 2 ^ (LENGTH('l) * length (drop n r))"
    using fits [OF unat_lt [of u]] n(3) by (simp flip: power_add add: distrib_left [symmetric])
  finally have "val (drop n r) + unat c < 2 ^ (LENGTH('l) * length (drop n r))" by (simp only: mult_less_cancel1)
  then obtain up where up: "liMontRedc_carry (drop n r) c = Some up" "length up = length (drop n r)"
    "val up = val (drop n r) + unat c" using liMontRedc_carry_val by blast
  have "val (r1 @ up) = val r + unat u * val (take n m)" using sum up v(1) by (simp add: val_append)
  moreover have "hd r1 = 0"
  proof -
    obtain r0 rs where r: "r = r0 # rs" using n by (cases r) auto
    obtain m0 ms where m: "m = m0 # ms" using n by (cases m) auto
    obtain k where k: "n = Suc k" using n(1) by (cases n) auto
    have "hd r1 = lo (wide m0 * wide u + wide r0 + wide 0)"
      using r1 by (auto simp: liAddMul1_def r m k Let_def split: prod.splits)
    also have "\<dots> = lo (wide (r0 * mInv) * wide m0 + wide r0)"
      by (simp add: u_def r wide_def mult.commute)
    also have "\<dots> = 0" using inv by (intro low_limb_clears) (simp add: m)
    finally show ?thesis .
  qed
  moreover have "r1 = hd r1 # tl r1" using v(1) n(1) by (cases r1) auto
  ultimately have "2 ^ LENGTH('l) * val (drop 1 (r1 @ up)) = val r + unat u * val (take n m)"
    by (cases r1) simp_all
  then show thesis using that [of "unat u" "r1 @ up"] r1 up n v(1) unat_lt [of u]
    by (simp add: liMontRedc_last_def u_def Let_def)
qed

text \<open>The sum of a product and of rows of the modulus stays below \<open>2 * B ^ (2 * n)\<close>.\<close>

lemma montgomery_fits:
  fixes B :: nat
  assumes "2 \<le> B" "P < B ^ (n + n)" "M < B ^ n" "u < B ^ i" "u' < B ^ k" "i + k \<le> n" "B ^ i * x = P + u * M"
  shows "x + u' * M < B ^ (n + n + 1 - i)" "u + B ^ i * u' < B ^ (i + k)"
    "B ^ i * (x + u' * M) = P + (u + B ^ i * u') * M"
proof -
  show sum: "B ^ i * (x + u' * M) = P + (u + B ^ i * u') * M"
    using assms(7) by (simp add: algebra_simps)
  show below: "u + B ^ i * u' < B ^ (i + k)" unfolding power_add using assms(4,5) by (rule digit_below)
  have "B ^ (i + k) \<le> B ^ n" using assms(1,6) by (intro power_increasing) simp_all
  then have "(u + B ^ i * u') * M \<le> B ^ n * B ^ n" using below assms(3) by (intro mult_le_mono) simp_all
  then have "P + (u + B ^ i * u') * M < 2 * B ^ (n + n)" using assms(2) by (simp add: power_add)
  also have "\<dots> \<le> B ^ i * B ^ (n + n + 1 - i)"
    using assms(1,6) by (simp flip: power_add)
  finally show "x + u' * M < B ^ (n + n + 1 - i)" unfolding sum [symmetric] by (simp only: mult_less_cancel1)
qed

lemma two_le_base: "2 \<le> (2 :: nat) ^ LENGTH('l::len)"
  using power_increasing [of 1 "LENGTH('l)" "2 :: nat"] len_gt_0 [where 'a = 'l] by (simp add: Suc_le_eq)

lemma liMontRedc_loop_val:
  fixes q m :: "'l::len word list"
  assumes inv: "m ! 0 * mInv = -1" and n: "n \<le> length m" and P: "P < 2 ^ (LENGTH('l) * (n + n))"
  shows "i + left = n \<Longrightarrow> length q = n + n + 1 \<Longrightarrow> u < 2 ^ (LENGTH('l) * i) \<Longrightarrow>
    2 ^ (LENGTH('l) * i) * val (drop i q) = P + u * val (take n m) \<Longrightarrow>
    \<exists>U q'. liMontRedc_loop q i m n mInv left = Some q' \<and> length q' = n + n + 1 \<and> U < 2 ^ (LENGTH('l) * n) \<and>
      2 ^ (LENGTH('l) * n) * val (drop n q') = P + U * val (take n m)"
proof (induction left arbitrary: q i u rule: induct_nat_012)
  case 0
  then show ?case by auto
next
  case 1
  note fits = montgomery_fits [of "2 ^ LENGTH('l)" P n "val (take n m)" u i _ 1 "val (drop i q)", OF two_le_base]
  obtain v r where v: "v < 2 ^ LENGTH('l)" "liMontRedc_last (drop i q) m n mInv = Some r" "length r = length (drop i q)"
    "2 ^ LENGTH('l) * val (drop 1 r) = val (drop i q) + v * val (take n m)"
    by (rule liMontRedc_last_val [OF inv, of n "drop i q"])
      (use 1 n P fits(1) val_take_lt [of n m] in \<open>simp_all add: power_mult\<close>)
  have "n = i + 1" using 1(1) by simp
  then have i: "i + 1 \<le> n" by simp
  note \<open>n = i + 1\<close>
  moreover have "drop (i + 1) (take i q @ r) = drop 1 r" using 1 by (auto simp: Suc_diff_le)
  moreover have "2 ^ (LENGTH('l) * (i + 1)) * val (drop 1 r) = P + (u + 2 ^ (LENGTH('l) * i) * v) * val (take n m)" (is "?L = _")
  proof -
    have "?L = 2 ^ (LENGTH('l) * i) * (2 ^ LENGTH('l) * val (drop 1 r))" by (simp add: power_add)
    also have "\<dots> = P + (u + 2 ^ (LENGTH('l) * i) * v) * val (take n m)"
      unfolding v(4) using fits(3) [of v] i 1(3,4) v(1) P val_take_lt [of n m] by (simp add: power_mult)
    finally show ?thesis .
  qed
  moreover have "u + 2 ^ (LENGTH('l) * i) * v < 2 ^ (LENGTH('l) * (i + 1))"
    using fits(2) [of v] i 1(3,4) v(1) P val_take_lt [of n m] by (simp add: power_add power_mult)
  moreover have "liMontRedc_loop q i m n mInv (Suc 0) = Some (take i q @ r)" using v(2) by simp
  moreover have "length (take i q @ r) = n + n + 1" using v(3) 1 by simp
  ultimately show ?case by metis
next
  case (ge2 left)
  note fits = montgomery_fits [of "2 ^ LENGTH('l)" P n "val (take n m)" u i _ 2 "val (drop i q)", OF two_le_base]
  obtain v r where v: "v < 2 ^ (LENGTH('l) * 2)" "liMontRedc_pass (drop i q) m n mInv = Some r" "length r = length (drop i q)"
    "2 ^ (LENGTH('l) * 2) * val (drop 2 r) = val (drop i q) + v * val (take n m)"
    by (rule liMontRedc_pass_val [OF inv, of n "drop i q"])
      (use ge2 n P fits(1) val_take_lt [of n m] in \<open>simp_all add: power_mult\<close>)
  have i: "i + 2 \<le> n" using ge2.prems(1) by simp
  have d: "drop (i + 2) (take i q @ r) = drop 2 r" using ge2.prems(2) i by simp
  have "2 ^ (LENGTH('l) * (i + 2)) * val (drop (i + 2) (take i q @ r)) = P + (u + 2 ^ (LENGTH('l) * i) * v) * val (take n m)"
    (is "?L = _")
  proof -
    have "?L = 2 ^ (LENGTH('l) * i) * (2 ^ (LENGTH('l) * 2) * val (drop 2 r))"
      unfolding d by (simp only: power_add distrib_left mult.assoc)
    also have "\<dots> = P + (u + 2 ^ (LENGTH('l) * i) * v) * val (take n m)"
      unfolding v(4) using fits(3) [of v] i ge2.prems(3,4) v(1) P val_take_lt [of n m] by (simp add: power_mult)
    finally show ?thesis .
  qed
  moreover have "u + 2 ^ (LENGTH('l) * i) * v < 2 ^ (LENGTH('l) * (i + 2))"
    using fits(2) [of v] i ge2.prems(3,4) v(1) P val_take_lt [of n m] by (simp add: power_add power_mult)
  moreover have "length (take i q @ r) = n + n + 1" using ge2 v(3) by simp
  moreover have "i + 2 + left = n" using ge2 by simp
  ultimately show ?case using ge2.IH(1) [of "i + 2" "take i q @ r"] v(2) by simp
qed

lemma liMontRedc_val:
  fixes p m :: "'l::len word list"
  assumes "m ! 0 * mInv = -1" "n \<le> length m" "length p = n + n + 1" "val p < 2 ^ (LENGTH('l) * (n + n))"
  obtains t where "liMontRedc p m n mInv = Some t" "length t = n + 1"
    "montgomery (2 ^ (LENGTH('l) * n)) (val p) (val (take n m)) (val t)"
proof -
  obtain U q where "liMontRedc_loop p 0 m n mInv n = Some q" "length q = n + n + 1" "U < 2 ^ (LENGTH('l) * n)"
    "2 ^ (LENGTH('l) * n) * val (drop n q) = val p + U * val (take n m)"
    using liMontRedc_loop_val [of m mInv n "val p" 0 n p 0] assms by auto
  then show thesis using that [of "drop n q"] by (auto simp: liMontRedc_def montgomery_def)
qed

end
