(* ===== verification/DigitMont.thy ===== *)
theory DigitMont
  imports DigitDiv LimbMont
begin

text \<open>
  The entry point of Montgomery's multiplication, \<open>liDigitMontgomery\<close> of \<open>LargeIntegersKernels.c\<close>: the
  original loop over 32-bit digits, and the dispatch to the two routines over limbs. \<open>None\<close> is
  undefined behaviour, an access outside an array. The digits at \<open>pRes\<close> are those of the modulus,
  \<open>length pThird\<close> of them.
\<close>

subsection \<open>The original 32-bit loop\<close>

text \<open>
  The two inner loops of a row: over the digits of the second operand, then over the rest of the
  modulus. \<open>pRes[k - 1]\<close> takes the digit computed from \<open>pRes[k]\<close>.
\<close>

fun liDigitMontgomery32_mul :: "32 word \<Rightarrow> 64 word \<Rightarrow> digits \<Rightarrow> digits \<Rightarrow> digits \<Rightarrow> 64 word \<Rightarrow> digits \<times> 64 word" where
  "liDigitMontgomery32_mul fi u (s # pSecond) (t # pThird) (r # pRes) accum =
     (let accum3 = ucast fi;
          accum3 = (accum3 * ucast s) + ucast r;
          accum2 = u * ucast t;
          accum = (accum + (accum2 AND 0xFFFFFFFF)) + (accum3 AND 0xFFFFFFFF);
          (ws, a) = liDigitMontgomery32_mul fi u pSecond pThird pRes ((drop_bit 32 accum + drop_bit 32 accum2) + drop_bit 32 accum3)
      in (ucast (accum AND 0xFFFFFFFF) # ws, a))"
| "liDigitMontgomery32_mul fi u [] (t # pThird) (r # pRes) accum =
     (let accum2 = u * ucast t;
          accum = (accum + ucast r) + (accum2 AND 0xFFFFFFFF);
          (ws, a) = liDigitMontgomery32_mul fi u [] pThird pRes (drop_bit 32 accum + drop_bit 32 accum2)
      in (ucast (accum AND 0xFFFFFFFF) # ws, a))"
| "liDigitMontgomery32_mul fi u pSecond pThird pRes accum = ([], accum)"

definition liDigitMontgomery32_top :: "digits \<Rightarrow> 64 word \<Rightarrow> 32 word \<Rightarrow> digits \<times> 32 word" where
  "liDigitMontgomery32_top ws accum lastDigit =
     (let accum = accum + ucast lastDigit
      in (ws @ [ucast (accum AND 0xFFFFFFFF)], ucast (drop_bit 32 accum)))"

definition liDigitMontgomery32_row :: "digits \<Rightarrow> digits \<Rightarrow> 32 word \<Rightarrow> 32 word \<Rightarrow> digits \<times> 32 word \<Rightarrow> digits \<times> 32 word" where
  "liDigitMontgomery32_row pSecond pThird mInv fi st =
     (let (pRes, lastDigit) = st;
          accum3 = ucast fi;
          accum3 = (accum3 * ucast (pSecond ! 0)) + ucast (pRes ! 0);
          u = (accum3 * ucast mInv) AND 0xFFFFFFFF;
          accum2 = u * ucast (pThird ! 0);
          accum = (accum2 AND 0xFFFFFFFF) + (accum3 AND 0xFFFFFFFF);
          accum = (drop_bit 32 accum + drop_bit 32 accum2) + drop_bit 32 accum3;
          (ws, accum) = liDigitMontgomery32_mul fi u (drop 1 pSecond) (drop 1 pThird) (drop 1 pRes) accum
      in liDigitMontgomery32_top ws accum lastDigit)"

text \<open>A row of the second loop, for the digits of the first operand above its own: all zero.\<close>

definition liDigitMontgomery32_reduce :: "digits \<Rightarrow> 32 word \<Rightarrow> digits \<times> 32 word \<Rightarrow> digits \<times> 32 word" where
  "liDigitMontgomery32_reduce pThird mInv st =
     (let (pRes, lastDigit) = st;
          accum = ucast (pRes ! 0);
          u = (accum * ucast mInv) AND 0xFFFFFFFF;
          accum = accum + u * ucast (pThird ! 0);
          accum = drop_bit 32 accum;
          (ws, accum) = liDigitMontgomery32_mul 0 u [] (drop 1 pThird) (drop 1 pRes) accum
      in liDigitMontgomery32_top ws accum lastDigit)"

fun liDigitMontgomery32_sub :: "digits \<Rightarrow> digits \<Rightarrow> 64 word \<Rightarrow> digits" where
  "liDigitMontgomery32_sub (r # pRes) (t # pThird) accum =
     (let accum = (accum + ucast r) - ucast t
      in ucast (accum AND 0xFFFFFFFF) # liDigitMontgomery32_sub pRes pThird (0 - drop_bit 0x3F accum))"
| "liDigitMontgomery32_sub pRes pThird accum = []"

text \<open>
  The comparison is the loop of \<open>cDigitCompare\<close>, from the top digit down: \<open>liCmp\<close> of the modulus and
  the result.
\<close>

definition liDigitMontgomery32 :: "digits \<Rightarrow> digits \<Rightarrow> digits \<Rightarrow> 32 word \<Rightarrow> digits \<Rightarrow> digits option" where
  "liDigitMontgomery32 pFirst pSecond pThird mInv pRes =
     (let thirdLen = length pThird
      in if (pFirst \<noteq> [] \<and> (pSecond = [] \<or> length pSecond > thirdLen)) \<or> length pRes \<noteq> thirdLen then None
         else let st = fold (liDigitMontgomery32_row pSecond pThird mInv) pFirst (pRes, 0);
                  (pRes, lastDigit) = (liDigitMontgomery32_reduce pThird mInv ^^ (thirdLen - length pFirst)) st;
                  k = liCmp pThird pRes thirdLen
              in Some (if \<not> (lastDigit = 0 \<and> k = 1) then liDigitMontgomery32_sub pRes pThird 0 else pRes))"

subsection \<open>Over limbs\<close>

text \<open>The product \<open>t\<close> shifted up by a digit, from the top limb down; the first argument is the limb below.\<close>

fun liMontDigits_shift :: "'l::len word \<Rightarrow> 'l word list \<Rightarrow> 'l word list" where
  "liMontDigits_shift below [] = []"
| "liMontDigits_shift below (x # t) = (push_bit 32 x OR drop_bit 32 below) # liMontDigits_shift x t"

definition liMontDigits_inverse :: "'l::len li_build \<Rightarrow> 'l word \<Rightarrow> 32 word \<Rightarrow> 'l word" where
  "liMontDigits_inverse bld m0 mInv =
     (if LI_DIGITS_PER_LIMB bld = 2 then ucast mInv * (2 + m0 * ucast mInv) else ucast mInv)"

definition liMontDigits_redc ::
  "'l::len li_build \<Rightarrow> li_knobs \<Rightarrow> digits \<Rightarrow> digits \<Rightarrow> bool \<Rightarrow> 'l word list \<Rightarrow> nat \<Rightarrow> nat \<Rightarrow> 'l word \<Rightarrow> nat \<Rightarrow> 'l word list option" where
  "liMontDigits_redc bld kn pFirst pSecond square m n skip mInvL sc =
     (let an = liLimbsFor bld (length pFirst);
          bn = liLimbsFor bld (length pSecond);
          a = load bld pFirst (length pFirst) 0
      in do {
        t \<leftarrow> (if square then liSqr kn a an sc else liMul kn a an (load bld pSecond (length pSecond) 0) bn sc);
        let t = t @ replicate (2 * n + 1 - (an + bn)) 0;
        let t = (if skip \<noteq> 0 then liMontDigits_shift 0 (take (2 * n) t) @ drop (2 * n) t else t);
        liMontRedc t m n mInvL
      })"

definition liMontDigits_square :: "li_knobs \<Rightarrow> nat \<Rightarrow> digits \<Rightarrow> digits \<Rightarrow> bool" where
  "liMontDigits_square kn n pFirst pSecond =
     (n \<ge> liMontSqrLimbs kn \<and> length pFirst = length pSecond \<and> pFirst = pSecond)"

text \<open>
  The conditional subtraction: \<open>T - m\<close> when \<open>T \<ge> m\<close>, the borrow dropped.
\<close>

definition liMontDigits_final :: "'l::len word list \<Rightarrow> 'l word list \<Rightarrow> nat \<Rightarrow> 'l word list" where
  "liMontDigits_final t m n =
     (if t ! n \<noteq> 0 \<or> liCmp t m n \<ge> 0 then fst (liSubN t m n) @ drop n t else t)"

text \<open>\<open>Some None\<close> is the answer 0: the scratch memory cannot be allocated.\<close>

definition liMontDigits ::
  "'l::len li_build \<Rightarrow> li_knobs \<Rightarrow> li_env \<Rightarrow> digits \<Rightarrow> digits \<Rightarrow> digits \<Rightarrow> 32 word \<Rightarrow> digits option option" where
  "liMontDigits bld kn env pFirst pSecond pThird mInv =
     (if length pFirst = 0 then Some (Some (replicate (length pThird) 0))
      else let (pFirst, pSecond) = (if length pFirst < length pSecond then (pSecond, pFirst) else (pFirst, pSecond));
               thirdLen = length pThird;
               skip = (if LI_DIGITS_PER_LIMB bld = 2 then thirdLen mod 2 else 0);
               n = liLimbsFor bld thirdLen;
               an = liLimbsFor bld (length pFirst);
               bn = liLimbsFor bld (length pSecond);
               square = liMontDigits_square kn n pFirst pSecond;
               redc = (square \<or> n \<ge> liMontMulLimbs kn \<or> (n \<ge> liMontSqrLimbs kn \<and> 2 * bn \<le> n + 1));
               sc = (if square then liSqrScratch kn an else liMulScratch kn an bn);
               need = (if redc then n + an + (if square then 0 else bn) + (2 * n + 1) + sc
                       else n + n + bn + (n + 1))
           in if \<not> liScratch bld env need then Some None
              else do {
                let m = load bld pThird thirdLen 0;
                let mInvL = liMontDigits_inverse bld (m ! 0) mInv;
                t \<leftarrow> (if redc then liMontDigits_redc bld kn pFirst pSecond square m n skip mInvL sc
                     else let a = load bld pFirst (length pFirst) skip;
                              a = a @ replicate (n - liLimbsFor bld (length pFirst + skip)) 0
                          in Some (liMontMul a (load bld pSecond (length pSecond) 0) bn m n mInvL));
                Some (Some (store bld thirdLen (liMontDigits_final t m n) n 0))
              })"

definition liDigitMontgomery ::
  "'l::len li_build \<Rightarrow> li_knobs \<Rightarrow> li_env \<Rightarrow> digits \<Rightarrow> digits \<Rightarrow> digits \<Rightarrow> 32 word \<Rightarrow> digits \<Rightarrow> digits option" where
  "liDigitMontgomery bld kn env pFirst pSecond pThird mInv pRes =
     (if length pThird \<ge> liMontLoopDigits kn
         \<and> length pFirst \<le> length pThird \<and> length pSecond \<le> length pThird \<and> (length pFirst = 0 \<or> length pSecond \<ge> 1)
         \<and> pThird ! 0 * mInv = 0xFFFFFFFF
      then do {
        done \<leftarrow> liMontDigits bld kn env pFirst pSecond pThird mInv;
        case done of
          Some res \<Rightarrow> Some res
        | None \<Rightarrow> liDigitMontgomery32 pFirst pSecond pThird mInv pRes
      }
      else liDigitMontgomery32 pFirst pSecond pThird mInv pRes)"

subsection \<open>The value both compute\<close>

lemma montgomery_unique:
  assumes "coprime R m" "montgomery R p m T" "montgomery R p m T'"
  shows "T = T'"
proof -
  obtain U where U: "U < R" "R * T = p + U * m" using assms(2) by (auto simp: montgomery_def)
  obtain U' where U': "U' < R" "R * T' = p + U' * m" using assms(3) by (auto simp: montgomery_def)
  have "int U = int U'"
  proof -
    have "(int U - int U') * int m = int R * (int T - int T')"
      using arg_cong [OF U(2), of int] arg_cong [OF U'(2), of int] by (simp add: algebra_simps)
    then have "int R dvd (int U - int U') * int m" by simp
    then have "int R dvd int U - int U'" using assms(1) by (simp add: coprime_dvd_mult_left_iff)
    then show ?thesis using U(1) U'(1) dvd_imp_le_int [of "int U - int U'" "int R"] by fastforce
  qed
  then have "U = U'" by simp
  then have "R * T = R * T'" using U(2) U'(2) by simp
  then show ?thesis using U(1) by simp
qed

lemma montgomery_below: "montgomery R p m T \<Longrightarrow> p < R * R \<Longrightarrow> m < R \<Longrightarrow> T < R + m"
proof -
  assume "montgomery R p m T" "p < R * R" "m < R"
  then obtain U where U: "U < R" "R * T = p + U * m" by (auto simp: montgomery_def)
  have "R * T < R * R + R * m" unfolding U(2) using U(1) \<open>p < R * R\<close> by (intro add_less_le_mono mult_le_mono1) simp_all
  then show "T < R + m" by (simp flip: distrib_left)
qed

text \<open>The answer of \<open>liDigitMontgomery\<close>: \<open>T\<close> reduced once.\<close>

definition montgomery_digits :: "digits \<Rightarrow> digits \<Rightarrow> digits \<Rightarrow> digits option \<Rightarrow> bool" where
  "montgomery_digits a b m out \<longleftrightarrow>
     (\<exists>r T. out = Some r \<and> length r = length m \<and> montgomery (2 ^ (32 * length m)) (val a * val b) (val m) T \<and>
       val r = (if val m \<le> T then T - val m else T))"

subsection \<open>The loop computes it\<close>

lemma unat_mask_32: "unat (ucast (x AND 0xFFFFFFFF :: 64 word) :: 32 word) = unat x mod 2 ^ 32"
  by (simp only: unat_low_32 unat_halves_64 mod_mod_trivial)

text \<open>
  One digit of a row: what is left of the two products and of the carry is the digit and the carry out.
\<close>

lemma liDigitMontgomery32_digit:
  fixes accum accum2 accum3 :: "64 word"
  assumes "unat accum \<le> 2 * 2 ^ 32" "unat accum2 \<le> (2 ^ 32 - 1) * (2 ^ 32 - 1)"
  defines "acc \<equiv> (accum + (accum2 AND 0xFFFFFFFF)) + (accum3 AND 0xFFFFFFFF)"
  shows "unat (ucast (acc AND 0xFFFFFFFF) :: 32 word)
      + 2 ^ 32 * unat ((drop_bit 32 acc + drop_bit 32 accum2) + drop_bit 32 accum3) = unat accum + unat accum2 + unat accum3"
    and "unat ((drop_bit 32 acc + drop_bit 32 accum2) + drop_bit 32 accum3) \<le> 2 * 2 ^ 32"
proof -
  let ?B = "(2::nat) ^ 32"
  have lt: "unat accum2 mod ?B < ?B" "unat accum3 mod ?B < ?B" by simp_all
  have m: "unat (accum2 AND 0xFFFFFFFF) = unat accum2 mod ?B" "unat (accum3 AND 0xFFFFFFFF) = unat accum3 mod ?B"
    by (rule unat_halves_64)+
  have acc: "unat acc = unat accum + unat accum2 mod ?B + unat accum3 mod ?B"
  proof -
    have "unat accum + unat accum2 mod ?B + unat accum3 mod ?B < 2 ^ 64"
      using assms(1) lt by simp
    then show ?thesis unfolding acc_def by (simp add: unat_word_ariths m)
  qed
  have "unat acc < 4 * ?B" using acc assms(1) lt by simp
  then have "unat acc div ?B < 4" by (rule less_mult_imp_div_less)
  then have h: "unat acc div ?B \<le> 3" by simp
  have h2: "unat accum2 div ?B \<le> ?B - 2"
  proof -
    have "unat accum2 div ?B \<le> (?B - 1) * (?B - 1) div ?B" by (rule div_le_mono [OF assms(2)])
    then show ?thesis by simp
  qed
  have h3: "unat accum3 div ?B \<le> ?B - 1" using unat_lt [of accum3] by simp
  have hs: "unat (drop_bit 32 x) = unat x div ?B" for x :: "64 word" by (rule unat_halves_64)
  have top: "unat ((drop_bit 32 acc + drop_bit 32 accum2) + drop_bit 32 accum3)
      = unat acc div ?B + unat accum2 div ?B + unat accum3 div ?B"
  proof -
    have "unat acc div ?B + unat accum2 div ?B + unat accum3 div ?B < 2 ^ 64" using h h2 h3 by simp
    then show ?thesis by (simp add: unat_word_ariths hs)
  qed
  have digit: "unat (ucast (acc AND 0xFFFFFFFF) :: 32 word) = unat acc mod ?B" by (rule unat_mask_32)
  have "unat acc mod ?B + ?B * (unat acc div ?B + unat accum2 div ?B + unat accum3 div ?B)
      = unat acc + ?B * (unat accum2 div ?B) + ?B * (unat accum3 div ?B)"
    by (simp add: distrib_left)
  also have "\<dots> = unat accum + (unat accum2 mod ?B + ?B * (unat accum2 div ?B)) + (unat accum3 mod ?B + ?B * (unat accum3 div ?B))"
    unfolding acc by simp
  finally show "unat (ucast (acc AND 0xFFFFFFFF) :: 32 word)
      + ?B * unat ((drop_bit 32 acc + drop_bit 32 accum2) + drop_bit 32 accum3) = unat accum + unat accum2 + unat accum3"
    unfolding digit top by simp
  show "unat ((drop_bit 32 acc + drop_bit 32 accum2) + drop_bit 32 accum3) \<le> 2 * ?B"
    unfolding top using h h2 h3 by simp
qed

lemma unat_product_32:
  assumes "unat (u :: 64 word) < 2 ^ 32"
  shows "unat (u * ucast (t :: 32 word)) = unat u * unat t" "unat (u * ucast t) \<le> (2 ^ 32 - 1) * (2 ^ 32 - 1)"
proof -
  have t: "unat t \<le> 2 ^ 32 - 1" using unat_lt [of t] by simp
  show "unat (u * ucast t) = unat u * unat t"
    using assms unat_lt [of t] by (subst unat_times_small) (simp_all add: unat_ucast_32_64)
  then show "unat (u * ucast t) \<le> (2 ^ 32 - 1) * (2 ^ 32 - 1)"
    using mult_le_mono [of "unat u" "2 ^ 32 - 1" "unat t" "2 ^ 32 - 1"] assms t by simp
qed

lemma unat_fma_32: "unat (ucast (a :: 32 word) * ucast (b :: 32 word) + ucast (c :: 32 word) :: 64 word) = unat a * unat b + unat c"
proof -
  have "unat a * unat b + unat c + 0 < 2 ^ 32 * 2 ^ 32"
    using fma_bound [of "unat a" "2 ^ 32" "unat b" "unat c" 0] unat_lt [of a] unat_lt [of b] unat_lt [of c] by simp
  moreover have "unat (ucast a * ucast b :: 64 word) = unat a * unat b"
    using unat_lt [of a] unat_lt [of b] by (subst unat_times_small) (simp_all add: unat_ucast_32_64)
  ultimately show ?thesis by (simp add: unat_word_ariths unat_ucast_32_64)
qed

lemma ucast_32_halves:
  "(ucast (r :: 32 word) :: 64 word) AND 0xFFFFFFFF = ucast r" "drop_bit 32 (ucast r :: 64 word) = 0"
proof -
  have r: "unat r < 2 ^ 32" using unat_lt [of r] by simp
  show "(ucast r :: 64 word) AND 0xFFFFFFFF = ucast r"
    using r unfolding word_unat_eq_iff unat_halves_64 by (simp add: unat_ucast_32_64)
  show "drop_bit 32 (ucast r :: 64 word) = 0"
    using r unfolding word_unat_eq_iff unat_halves_64 by (simp add: unat_ucast_32_64)
qed

lemma carry_into_row:
  fixes B :: nat
  assumes "w + B * n = accum + q + p" "v + e * a = z + n"
  shows "w + B * v + B * e * a = p + q + B * z + accum"
proof -
  have "w + B * v + B * e * a = w + B * (v + e * a)" by (simp add: distrib_left mult.assoc)
  then show ?thesis unfolding assms(2) using assms(1) by (simp add: distrib_left)
qed

lemma row_of_digits:
  fixes B :: nat
  shows "(f * s + r) + u * t + B * (v + f * y + u * z) + accum = (r + B * v) + f * (s + B * y) + u * (t + B * z) + accum"
  by (simp add: algebra_simps)

lemma val_append_32: "val (xs @ ys) = val xs + 2 ^ (32 * length xs) * val (ys :: 32 word list)"
  by (simp add: val_append)

lemma pow_32_Suc: "(2 :: nat) ^ (32 * length (x # xs)) = 2 ^ 32 * 2 ^ (32 * length xs)"
  by (simp add: power_add)

lemma liDigitMontgomery32_mul_val:
  "liDigitMontgomery32_mul fi u pSecond pThird pRes accum = (ws, a) \<Longrightarrow> length pThird = length pRes \<Longrightarrow>
   length pSecond \<le> length pRes \<Longrightarrow> unat u < 2 ^ 32 \<Longrightarrow> unat accum \<le> 2 * 2 ^ 32 \<Longrightarrow>
   length ws = length pRes \<and> unat a \<le> 2 * 2 ^ 32 \<and>
   val ws + 2 ^ (32 * length pRes) * unat a = val pRes + unat fi * val pSecond + unat u * val pThird + unat accum"
proof (induction fi u pSecond pThird pRes accum arbitrary: ws a rule: liDigitMontgomery32_mul.induct)
  case (1 fi u s pSecond t pThird r pRes accum)
  define accum3 :: "64 word" where "accum3 = ucast fi * ucast s + ucast r"
  define accum2 where "accum2 = u * ucast t"
  define acc where "acc = (accum + (accum2 AND 0xFFFFFFFF)) + (accum3 AND 0xFFFFFFFF)"
  define n where "n = (drop_bit 32 acc + drop_bit 32 accum2) + drop_bit 32 accum3"
  obtain ws1 where rec: "liDigitMontgomery32_mul fi u pSecond pThird pRes n = (ws1, a)" and ws: "ws = ucast (acc AND 0xFFFFFFFF) # ws1"
    using "1.prems"(1) unfolding liDigitMontgomery32_mul.simps Let_def accum3_def [symmetric] accum2_def [symmetric]
      acc_def [symmetric] n_def [symmetric] by (auto split: prod.splits)
  have a2: "unat accum2 = unat u * unat t" "unat accum2 \<le> (2 ^ 32 - 1) * (2 ^ 32 - 1)"
    unfolding accum2_def using "1.prems"(4) by (rule unat_product_32)+
  have a3: "unat accum3 = unat fi * unat s + unat r" unfolding accum3_def by (rule unat_fma_32)
  note d = liDigitMontgomery32_digit [OF "1.prems"(5) a2(2), of accum3, folded acc_def, folded n_def]
  have IH: "length ws1 = length pRes" "unat a \<le> 2 * 2 ^ 32"
    "val ws1 + 2 ^ (32 * length pRes) * unat a = (val pRes + unat fi * val pSecond + unat u * val pThird) + unat n"
    using "1.IH" [OF refl refl refl refl, of ws1 a] rec "1.prems" d(2)
    unfolding accum3_def [symmetric] accum2_def [symmetric] acc_def [symmetric] n_def [symmetric] by simp_all
  have "val ws + 2 ^ (32 * length (r # pRes)) * unat a
      = (unat fi * unat s + unat r) + unat u * unat t + 2 ^ 32 * (val pRes + unat fi * val pSecond + unat u * val pThird) + unat accum"
    using carry_into_row [OF d(1) IH(3)] unfolding a2(1) a3 pow_32_Suc ws val_32 .
  then show ?case using IH(1,2) unfolding row_of_digits val_32 ws by simp
next
  case (2 fi u t pThird r pRes accum)
  define accum2 where "accum2 = u * ucast t"
  define acc where "acc = (accum + ucast r) + (accum2 AND 0xFFFFFFFF)"
  define n where "n = drop_bit 32 acc + drop_bit 32 accum2"
  obtain ws1 where rec: "liDigitMontgomery32_mul fi u [] pThird pRes n = (ws1, a)" and ws: "ws = ucast (acc AND 0xFFFFFFFF) # ws1"
    using "2.prems"(1) unfolding liDigitMontgomery32_mul.simps Let_def accum2_def [symmetric]
      acc_def [symmetric] n_def [symmetric] by (auto split: prod.splits)
  have a2: "unat accum2 = unat u * unat t" "unat accum2 \<le> (2 ^ 32 - 1) * (2 ^ 32 - 1)"
    unfolding accum2_def using "2.prems"(4) by (rule unat_product_32)+
  have acc: "acc = (accum + (accum2 AND 0xFFFFFFFF)) + (ucast r AND 0xFFFFFFFF)"
    unfolding acc_def ucast_32_halves by (simp only: add_ac)
  have n: "n = (drop_bit 32 acc + drop_bit 32 accum2) + drop_bit 32 (ucast r)"
    unfolding n_def ucast_32_halves by simp
  note d = liDigitMontgomery32_digit [OF "2.prems"(5) a2(2), of "ucast r", folded acc, folded n]
  have IH: "length ws1 = length pRes" "unat a \<le> 2 * 2 ^ 32"
    "val ws1 + 2 ^ (32 * length pRes) * unat a = (val pRes + unat u * val pThird) + unat n"
    using "2.IH" [OF refl refl, of ws1 a] rec "2.prems" d(2)
    unfolding accum2_def [symmetric] acc_def [symmetric] n_def [symmetric] by simp_all
  have "val ws + 2 ^ (32 * length (r # pRes)) * unat a
      = (unat fi * 0 + unat r) + unat u * unat t + 2 ^ 32 * (val pRes + unat fi * 0 + unat u * val pThird) + unat accum"
    using carry_into_row [OF d(1) IH(3)] unfolding a2(1) unat_ucast_32_64 pow_32_Suc ws val_32 by simp
  then show ?case using IH(1,2) unfolding row_of_digits val_32 ws by simp
qed auto

text \<open>A row divides by the base of the digits, exactly.\<close>

definition state_val :: "digits \<times> 32 word \<Rightarrow> nat" where
  "state_val st = val (fst st) + 2 ^ (32 * length (fst st)) * unat (snd st)"

lemma liDigitMontgomery32_top_val:
  assumes "unat accum \<le> 2 * 2 ^ 32"
  shows "length (fst (liDigitMontgomery32_top ws accum l)) = length ws + 1"
    "state_val (liDigitMontgomery32_top ws accum l) = val ws + 2 ^ (32 * length ws) * (unat accum + unat l)"
proof -
  have s: "unat (accum + ucast l) = unat accum + unat l"
    using assms unat_lt [of l] by (simp add: unat_word_ariths unat_ucast_32_64)
  then have "unat (accum + ucast l) < 2 ^ 32 * 2 ^ 32" using assms unat_lt [of l] by simp
  then have h: "unat (ucast (drop_bit 32 (accum + ucast l)) :: 32 word) = (unat accum + unat l) div 2 ^ 32"
    using unat_high_32 [of "accum + ucast l"] s by simp
  have lw: "unat (ucast ((accum + ucast l) AND 0xFFFFFFFF) :: 32 word) = (unat accum + unat l) mod 2 ^ 32"
    unfolding unat_mask_32 s ..
  show "length (fst (liDigitMontgomery32_top ws accum l)) = length ws + 1"
    by (simp add: liDigitMontgomery32_top_def Let_def)
  have "state_val (liDigitMontgomery32_top ws accum l)
      = val ws + 2 ^ (32 * length ws) * ((unat accum + unat l) mod 2 ^ 32 + 2 ^ 32 * ((unat accum + unat l) div 2 ^ 32))"
  proof -
    have "(2::nat) ^ (32 * length (ws @ [x])) = 2 ^ (32 * length ws) * 2 ^ 32" for x by (simp add: power_add)
    moreover have "val [x] = unat x" for x :: "32 word" by simp
    ultimately show ?thesis
      unfolding liDigitMontgomery32_top_def Let_def state_val_def fst_conv snd_conv h val_append_32
      by (simp only: lw distrib_left mult.assoc add.assoc)
  qed
  then show "state_val (liDigitMontgomery32_top ws accum l) = val ws + 2 ^ (32 * length ws) * (unat accum + unat l)"
    by (simp only: mod_mult_div_eq)
qed

lemma multiple_clears:
  fixes B :: nat
  assumes "(M * v + 1) mod B = 0"
  shows "(x mod B * v mod B * M + x) mod B = 0"
proof -
  have "(x mod B * v mod B * M + x) mod B = (x * v * M + x) mod B" by (metis mod_add_left_eq mod_mult_left_eq)
  also have "x * v * M + x = x * (M * v + 1)" by (simp add: algebra_simps)
  also have "x * (M * v + 1) mod B = 0" using assms by (metis mod_0 mod_mult_right_eq mult_0_right)
  finally show ?thesis .
qed

lemma word_inverse: "m0 * mInv = (-1 :: 'l::len word) \<longleftrightarrow> (unat m0 * unat mInv + 1) mod 2 ^ LENGTH('l) = 0"
proof -
  have "m0 * mInv = -1 \<longleftrightarrow> m0 * mInv + 1 = 0" by (simp add: eq_neg_iff_add_eq_0)
  also have "\<dots> \<longleftrightarrow> unat (m0 * mInv + 1) = 0" by (simp only: unat_eq_zero)
  also have "unat (m0 * mInv + 1) = (unat m0 * unat mInv + 1) mod 2 ^ LENGTH('l)"
    by (simp add: unat_word_ariths mod_simps)
  finally show ?thesis .
qed

lemma unat_u_32:
  "unat ((x * ucast (v :: 32 word)) AND 0xFFFFFFFF :: 64 word) = unat x mod 2 ^ 32 * unat v mod 2 ^ 32"
proof -
  have "unat (x * ucast v) mod 2 ^ 32 = unat x * unat v mod 2 ^ 64 mod 2 ^ 32"
    by (simp add: unat_word_ariths unat_ucast_32_64)
  also have "\<dots> = unat x * unat v mod 2 ^ 32" by (simp add: mod_mod_cancel)
  finally show ?thesis unfolding unat_halves_64 by (simp add: mod_simps)
qed

text \<open>
  The first digit of a row, which is dropped: with the inverse it is zero, and the carry is the quotient.
\<close>

lemma liDigitMontgomery32_first:
  fixes accum3 :: "64 word" and m0 :: "32 word"
  assumes inv: "m0 * mInv = -1"
  defines "u \<equiv> (accum3 * ucast mInv) AND 0xFFFFFFFF"
  defines "accum2 \<equiv> u * ucast m0"
  defines "acc \<equiv> (accum2 AND 0xFFFFFFFF) + (accum3 AND 0xFFFFFFFF)"
  defines "n \<equiv> (drop_bit 32 acc + drop_bit 32 accum2) + drop_bit 32 accum3"
  shows "unat u < 2 ^ 32" "2 ^ 32 * unat n = unat u * unat m0 + unat accum3" "unat n \<le> 2 * 2 ^ 32"
proof -
  show u: "unat u < 2 ^ 32" unfolding u_def unat_u_32 by simp
  have a2: "unat accum2 = unat u * unat m0" "unat accum2 \<le> (2 ^ 32 - 1) * (2 ^ 32 - 1)"
    unfolding accum2_def using u by (rule unat_product_32)+
  have acc: "acc = (0 + (accum2 AND 0xFFFFFFFF)) + (accum3 AND 0xFFFFFFFF)" by (simp add: acc_def)
  note d = liDigitMontgomery32_digit [of 0 accum2 accum3, folded acc, folded n_def, OF _ a2(2)]
  have "(unat m0 * unat mInv + 1) mod 2 ^ 32 = 0" using inv unfolding word_inverse by simp
  then have "(unat u * unat m0 + unat accum3) mod 2 ^ 32 = 0"
    unfolding u_def unat_u_32 by (rule multiple_clears)
  moreover have "unat (ucast (acc AND 0xFFFFFFFF) :: 32 word) = (unat u * unat m0 + unat accum3) mod 2 ^ 32"
    using arg_cong [OF d(1), of "\<lambda>x. x mod 2 ^ 32"] unat_lt [of "ucast (acc AND 0xFFFFFFFF) :: 32 word"] by (simp add: a2(1))
  ultimately show "2 ^ 32 * unat n = unat u * unat m0 + unat accum3" using d(1) a2(1) by simp
  show "unat n \<le> 2 * 2 ^ 32" using d(2) by simp
qed

lemma row_joins:
  fixes B :: nat
  assumes "B * n = u * m0 + (f * s0 + r0)" "w + E * a = (r1 + f * s1 + u * m1) + n"
  shows "B * (w + E * (a + l)) = (r0 + B * r1 + B * E * l) + f * (s0 + B * s1) + u * (m0 + B * m1)"
proof -
  have "B * (w + E * (a + l)) = B * (w + E * a) + B * E * l" by (simp add: algebra_simps)
  also have "\<dots> = B * (r1 + f * s1 + u * m1) + B * n + B * E * l" unfolding assms(2) by (simp add: distrib_left)
  finally show ?thesis unfolding assms(1) by (simp add: algebra_simps)
qed

lemma liDigitMontgomery32_row_val:
  assumes inv: "pThird ! 0 * mInv = -1" and n: "1 \<le> length pThird" "length (fst st) = length pThird"
    and s: "1 \<le> length pSecond" "length pSecond \<le> length pThird"
  obtains u where "u < 2 ^ 32" "length (fst (liDigitMontgomery32_row pSecond pThird mInv fi st)) = length pThird"
    "2 ^ 32 * state_val (liDigitMontgomery32_row pSecond pThird mInv fi st) = state_val st + unat fi * val pSecond + u * val pThird"
proof -
  obtain r0 pRes l where st: "st = (r0 # pRes, l)" using n by (cases st; cases "fst st") auto
  obtain s0 second where S: "pSecond = s0 # second" using s by (cases pSecond) auto
  obtain t0 third where T: "pThird = t0 # third" using n by (cases pThird) auto
  define accum3 :: "64 word" where "accum3 = ucast fi * ucast s0 + ucast r0"
  define u where "u = (accum3 * ucast mInv) AND 0xFFFFFFFF"
  define accum2 where "accum2 = u * ucast t0"
  define acc where "acc = (accum2 AND 0xFFFFFFFF) + (accum3 AND 0xFFFFFFFF)"
  define accum where "accum = (drop_bit 32 acc + drop_bit 32 accum2) + drop_bit 32 accum3"
  obtain ws a where mul: "liDigitMontgomery32_mul fi u second third pRes accum = (ws, a)" by fastforce
  have inv0: "t0 * mInv = -1" using inv by (simp add: T)
  note f = liDigitMontgomery32_first [OF inv0, of accum3, folded u_def, folded accum2_def, folded acc_def, folded accum_def]
  have m: "length ws = length pRes" "unat a \<le> 2 * 2 ^ 32"
    "val ws + 2 ^ (32 * length pRes) * unat a = (val pRes + unat fi * val second + unat u * val third) + unat accum"
    using liDigitMontgomery32_mul_val [OF mul _ _ f(1,3)] n s by (simp_all add: st S T)
  have row: "liDigitMontgomery32_row pSecond pThird mInv fi st = liDigitMontgomery32_top ws a l"
    using mul unfolding liDigitMontgomery32_row_def st S T accum_def acc_def accum2_def u_def accum3_def
    by (simp add: Let_def)
  have a3: "unat accum3 = unat fi * unat s0 + unat r0" unfolding accum3_def by (rule unat_fma_32)
  have "2 ^ 32 * state_val (liDigitMontgomery32_top ws a l)
      = (unat r0 + 2 ^ 32 * val pRes + 2 ^ 32 * 2 ^ (32 * length pRes) * unat l)
        + unat fi * (unat s0 + 2 ^ 32 * val second) + unat u * (unat t0 + 2 ^ 32 * val third)"
    unfolding liDigitMontgomery32_top_val(2) [OF m(2)] m(1) by (rule row_joins [OF f(2) [unfolded a3] m(3)])
  also have "unat r0 + 2 ^ 32 * val pRes + 2 ^ 32 * 2 ^ (32 * length pRes) * unat l = state_val st"
    unfolding state_val_def st fst_conv snd_conv pow_32_Suc val_32 ..
  finally have "2 ^ 32 * state_val (liDigitMontgomery32_top ws a l) = state_val st + unat fi * val pSecond + unat u * val pThird"
    unfolding S T val_32 .
  then show thesis
    using that [of "unat u", unfolded row] f(1) liDigitMontgomery32_top_val(1) [OF m(2), of ws l] m(1) n(2)
    by (simp add: st)
qed

lemma liDigitMontgomery32_reduce_val:
  assumes inv: "pThird ! 0 * mInv = -1" and n: "1 \<le> length pThird" "length (fst st) = length pThird"
  obtains u where "u < 2 ^ 32" "length (fst (liDigitMontgomery32_reduce pThird mInv st)) = length pThird"
    "2 ^ 32 * state_val (liDigitMontgomery32_reduce pThird mInv st) = state_val st + u * val pThird"
proof -
  obtain r0 pRes l where st: "st = (r0 # pRes, l)" using n by (cases st; cases "fst st") auto
  obtain t0 third where T: "pThird = t0 # third" using n by (cases pThird) auto
  define u :: "64 word" where "u = (ucast r0 * ucast mInv) AND 0xFFFFFFFF"
  define accum where "accum = drop_bit 32 (ucast r0 + u * ucast t0)"
  obtain ws a where mul: "liDigitMontgomery32_mul 0 u [] third pRes accum = (ws, a)" by fastforce
  have u: "unat u < 2 ^ 32" unfolding u_def unat_u_32 by simp
  have inv0: "(unat t0 * unat mInv + 1) mod 2 ^ 32 = 0" using inv by (simp add: T word_inverse)
  have "unat (ucast r0 + u * ucast t0) = unat r0 + unat u * unat t0"
  proof -
    have "unat r0 + unat u * unat t0 < 2 ^ 64"
      using unat_product_32(2) [OF u, of t0] unat_lt [of r0] by (simp add: unat_product_32(1) [OF u])
    then show ?thesis by (simp add: unat_word_ariths unat_ucast_32_64 unat_product_32(1) [OF u])
  qed
  then have acc: "unat accum = (unat u * unat t0 + unat r0) div 2 ^ 32"
    unfolding accum_def unat_halves_64 by (simp add: add.commute)
  have "(unat u * unat t0 + unat r0) mod 2 ^ 32 = 0"
    unfolding u_def unat_u_32 unat_ucast_32_64 by (rule multiple_clears [OF inv0])
  then have f: "2 ^ 32 * unat accum = unat u * unat t0 + (0 * 0 + unat r0)" 
    unfolding acc using mult_div_mod_eq [of "2 ^ 32" "unat u * unat t0 + unat r0"] by simp
  have le: "unat accum \<le> 2 * 2 ^ 32"
  proof -
    have "2 ^ 32 * unat accum < 2 ^ 32 * 2 ^ 32"
      unfolding f using unat_product_32(2) [OF u, of t0] unat_lt [of r0] by (simp add: unat_product_32(1) [OF u])
    then show ?thesis by simp
  qed
  have m: "length ws = length pRes" "unat a \<le> 2 * 2 ^ 32"
    "val ws + 2 ^ (32 * length pRes) * unat a = (val pRes + 0 * 0 + unat u * val third) + unat accum"
    using liDigitMontgomery32_mul_val [OF mul _ _ u le] n by (simp_all add: st T)
  have row: "liDigitMontgomery32_reduce pThird mInv st = liDigitMontgomery32_top ws a l"
    using mul unfolding liDigitMontgomery32_reduce_def st T accum_def u_def by (simp add: Let_def)
  have "2 ^ 32 * state_val (liDigitMontgomery32_top ws a l)
      = (unat r0 + 2 ^ 32 * val pRes + 2 ^ 32 * 2 ^ (32 * length pRes) * unat l)
        + 0 * (0 + 2 ^ 32 * 0) + unat u * (unat t0 + 2 ^ 32 * val third)"
    unfolding liDigitMontgomery32_top_val(2) [OF m(2)] m(1) by (rule row_joins [OF f m(3)])
  also have "unat r0 + 2 ^ 32 * val pRes + 2 ^ 32 * 2 ^ (32 * length pRes) * unat l = state_val st"
    unfolding state_val_def st fst_conv snd_conv pow_32_Suc val_32 ..
  finally have "2 ^ 32 * state_val (liDigitMontgomery32_top ws a l) = state_val st + unat u * val pThird"
    unfolding T val_32 by simp
  then show thesis
    using that [of "unat u", unfolded row] u liDigitMontgomery32_top_val(1) [OF m(2), of ws l] m(1) n(2)
    by (simp add: st)
qed

lemma joined_rows:
  fixes B :: nat
  assumes "E * S = S0 + U * M" "B * S' = S + f * s + u * M"
  shows "B * E * S' = S0 + E * f * s + (U + E * u) * M"
proof -
  have "B * E * S' = E * (B * S')" by (simp add: mult_ac)
  then show ?thesis unfolding assms(2) using assms(1) by (simp add: algebra_simps)
qed

lemma liDigitMontgomery32_rows_val:
  assumes inv: "pThird ! 0 * mInv = -1" and n: "1 \<le> length pThird"
    and s: "1 \<le> length pSecond" "length pSecond \<le> length pThird"
  shows "length (fst st) = length pThird \<Longrightarrow>
    \<exists>U < 2 ^ (32 * length as). length (fst (fold (liDigitMontgomery32_row pSecond pThird mInv) as st)) = length pThird \<and>
      2 ^ (32 * length as) * state_val (fold (liDigitMontgomery32_row pSecond pThird mInv) as st)
        = state_val st + val as * val pSecond + U * val pThird"
proof (induction as arbitrary: st)
  case Nil
  then show ?case by simp
next
  case (Cons a as)
  let ?st = "liDigitMontgomery32_row pSecond pThird mInv a st"
  obtain u where u: "u < 2 ^ 32" "length (fst ?st) = length pThird"
    "2 ^ 32 * state_val ?st = state_val st + unat a * val pSecond + u * val pThird"
    by (rule liDigitMontgomery32_row_val [OF inv n Cons.prems s])
  obtain U where U: "U < 2 ^ (32 * length as)"
    "length (fst (fold (liDigitMontgomery32_row pSecond pThird mInv) as ?st)) = length pThird"
    "2 ^ (32 * length as) * state_val (fold (liDigitMontgomery32_row pSecond pThird mInv) as ?st)
      = state_val ?st + val as * val pSecond + U * val pThird"
    using Cons.IH [OF u(2)] by blast
  let ?S = "state_val (fold (liDigitMontgomery32_row pSecond pThird mInv) as ?st)"
  have "2 ^ (32 * length (a # as)) * ?S = 2 ^ 32 * (2 ^ (32 * length as) * ?S)"
    unfolding pow_32_Suc by (simp only: mult.assoc)
  also have "\<dots> = 2 ^ 32 * state_val ?st + 2 ^ 32 * (val as * val pSecond) + 2 ^ 32 * (U * val pThird)"
    unfolding U(3) distrib_left ..
  also have "\<dots> = state_val st + val (a # as) * val pSecond + (u + 2 ^ 32 * U) * val pThird"
    unfolding u(3) val_32 by (simp only: distrib_right mult.assoc add_ac)
  finally show ?case using U(2) digit_below [OF u(1) U(1)] unfolding pow_32_Suc fold_Cons comp_apply by blast
qed

lemma liDigitMontgomery32_reduces_val:
  assumes inv: "pThird ! 0 * mInv = -1" and n: "1 \<le> length pThird" "length (fst st) = length pThird"
  shows "\<exists>U < 2 ^ (32 * k). length (fst ((liDigitMontgomery32_reduce pThird mInv ^^ k) st)) = length pThird \<and>
    2 ^ (32 * k) * state_val ((liDigitMontgomery32_reduce pThird mInv ^^ k) st) = state_val st + U * val pThird"
proof (induction k)
  case 0
  then show ?case using n by simp
next
  case (Suc k)
  let ?st = "(liDigitMontgomery32_reduce pThird mInv ^^ k) st"
  obtain U where U: "U < 2 ^ (32 * k)" "length (fst ?st) = length pThird"
    "2 ^ (32 * k) * state_val ?st = state_val st + U * val pThird" using Suc.IH by blast
  obtain u where u: "u < 2 ^ 32" "length (fst (liDigitMontgomery32_reduce pThird mInv ?st)) = length pThird"
    "2 ^ 32 * state_val (liDigitMontgomery32_reduce pThird mInv ?st) = state_val ?st + u * val pThird"
    by (rule liDigitMontgomery32_reduce_val [OF inv n(1) U(2)])
  have p: "(2::nat) ^ (32 * Suc k) = 2 ^ 32 * 2 ^ (32 * k)" by (simp add: power_add)
  have "2 ^ (32 * Suc k) * state_val (liDigitMontgomery32_reduce pThird mInv ?st)
      = state_val st + (U + 2 ^ (32 * k) * u) * val pThird"
    using joined_rows [OF U(3), of "2 ^ 32" _ 0 0 u] u(3) unfolding p by simp
  moreover have "U + 2 ^ (32 * k) * u < 2 ^ (32 * Suc k)"
    using digit_below [OF U(1) u(1)] unfolding p by (simp only: mult.commute)
  ultimately show ?case using u(2) unfolding funpow.simps comp_apply by blast
qed

lemma liDigitMontgomery32_sub_digit:
  fixes r t :: "32 word"
  assumes "b \<le> 1"
  defines "acc \<equiv> ((0 - of_nat b) + ucast r) - ucast t :: 64 word"
  defines "c \<equiv> of_bool (unat r < unat t + b) :: nat"
  shows "unat (ucast (acc AND 0xFFFFFFFF) :: 32 word) + unat t + b = unat r + 2 ^ 32 * c"
    and "0 - drop_bit 0x3F acc = 0 - of_nat c"
proof -
  have lt: "unat r < 2 ^ 32" "unat t < 2 ^ 32" using unat_lt [of r] unat_lt [of t] by simp_all
  have acc: "acc = ucast r - (ucast t + of_nat b)" by (simp add: acc_def)
  have y: "unat (ucast t + of_nat b :: 64 word) = unat t + b"
    using lt assms(1) by (simp add: unat_word_ariths unat_ucast_32_64 unat_of_nat)
  have x: "unat acc + (unat t + b) = unat r + 2 ^ 64 * c"
    using unat_minus_borrow [of "ucast r :: 64 word" "ucast t + of_nat b"] unfolding acc y
    by (simp add: c_def word_less_nat_alt y unat_ucast_32_64)
  have lw: "unat (ucast (acc AND 0xFFFFFFFF) :: 32 word) = unat acc mod 2 ^ 32" by (rule unat_mask_32)
  have top: "unat (drop_bit 0x3F acc) = unat acc div 2 ^ 63" 
    by (simp only: unat_drop_bit_eq) (simp only: drop_bit_eq_div)
  show "unat (ucast (acc AND 0xFFFFFFFF) :: 32 word) + unat t + b = unat r + 2 ^ 32 * c"
  proof (cases "unat r < unat t + b")
    case True
    then have "unat acc = 2 ^ 32 * (2 ^ 32 - 1) + (2 ^ 32 + unat r - (unat t + b))"
      using x lt assms(1) by (simp add: c_def)
    moreover have "2 ^ 32 + unat r - (unat t + b) < 2 ^ 32" using True by simp
    ultimately have "unat acc mod 2 ^ 32 = 2 ^ 32 + unat r - (unat t + b)" by (simp only: mod_mult_self4 mod_less)
    then show ?thesis using True lt assms(1) unfolding lw by (simp add: c_def)
  next
    case False
    then show ?thesis using x lt unfolding lw by (simp add: c_def)
  qed
  have "unat acc div 2 ^ 63 = c"
  proof (cases "unat r < unat t + b")
    case True
    then have "unat acc = 2 ^ 63 * 1 + (2 ^ 63 + unat r - (unat t + b))"
      using x lt assms(1) by (simp add: c_def)
    moreover have "2 ^ 63 + unat r - (unat t + b) < 2 ^ 63" using True by simp
    ultimately show ?thesis using True by (simp add: c_def)
  next
    case False
    then show ?thesis using x lt by (simp add: c_def)
  qed
  then have "drop_bit 0x3F acc = of_nat c"
    unfolding word_unat_eq_iff top by (simp add: c_def)
  then show "0 - drop_bit 0x3F acc = 0 - of_nat c" by simp
qed

lemma liDigitMontgomery32_sub_val:
  "length pThird = length pRes \<Longrightarrow> b \<le> 1 \<Longrightarrow> accum = 0 - of_nat b \<Longrightarrow>
   \<exists>c. length (liDigitMontgomery32_sub pRes pThird accum) = length pRes \<and>
     val (liDigitMontgomery32_sub pRes pThird accum) + val pThird + b = val pRes + 2 ^ (32 * length pRes) * c"
proof (induction pRes pThird accum arbitrary: b rule: liDigitMontgomery32_sub.induct)
  case (1 r pRes t pThird accum)
  note d = liDigitMontgomery32_sub_digit [OF "1.prems"(2), of r t]
  define acc :: "64 word" where "acc = (accum + ucast r) - ucast t"
  obtain c where c: "length (liDigitMontgomery32_sub pRes pThird (0 - drop_bit 0x3F acc)) = length pRes"
    "val (liDigitMontgomery32_sub pRes pThird (0 - drop_bit 0x3F acc)) + val pThird + of_bool (unat r < unat t + b)
      = val pRes + 2 ^ (32 * length pRes) * c"
  proof -
    have "(of_bool (unat r < unat t + b) :: nat) \<le> 1" by simp
    moreover have "0 - drop_bit 0x3F acc = 0 - of_nat (of_bool (unat r < unat t + b))"
      unfolding acc_def "1.prems"(3) by (rule d(2))
    moreover have "length pThird = length pRes" using "1.prems"(1) by simp
    ultimately show thesis using that "1.IH" [OF acc_def] by blast
  qed
  have "val (liDigitMontgomery32_sub (r # pRes) (t # pThird) accum) + val (t # pThird) + b
      = (unat (ucast (acc AND 0xFFFFFFFF) :: 32 word) + unat t + b)
        + 2 ^ 32 * (val (liDigitMontgomery32_sub pRes pThird (0 - drop_bit 0x3F acc)) + val pThird)"
    unfolding liDigitMontgomery32_sub.simps Let_def acc_def [symmetric] val_32 by (simp only: distrib_left add_ac)
  also have "\<dots> = unat r + 2 ^ 32 * (val (liDigitMontgomery32_sub pRes pThird (0 - drop_bit 0x3F acc)) + val pThird
      + of_bool (unat r < unat t + b))"
    using d(1) unfolding acc_def "1.prems"(3) distrib_left by simp
  also have "\<dots> = val (r # pRes) + 2 ^ (32 * length (r # pRes)) * c"
    unfolding c(2) val_32 pow_32_Suc distrib_left by (simp only: add_ac mult.assoc)
  finally show ?case using c(1) unfolding liDigitMontgomery32_sub.simps Let_def acc_def [symmetric] length_Cons by blast
qed auto

lemma inverse_odd: "m ! 0 * mInv = (-1 :: 32 word) \<Longrightarrow> 1 \<le> length m \<Longrightarrow> coprime (2 ^ k) (val m)"
proof -
  assume inv: "m ! 0 * mInv = -1" and "1 \<le> length m"
  then obtain m0 ms where m: "m = m0 # ms" by (cases m) auto
  have "(unat m0 * unat mInv + 1) mod 2 ^ 32 = 0" using inv by (simp add: m word_inverse)
  then have "2 dvd unat m0 * unat mInv + 1" by (metis dvd_power dvd_trans mod_0_imp_dvd zero_less_numeral)
  then have "odd (unat m0)" by auto
  then show "coprime (2 ^ k) (val m)" by (simp add: m)
qed

lemma liDigitMontgomery32_val:
  assumes inv: "pThird ! 0 * mInv = -1" and n: "1 \<le> length pThird"
    and a: "length pFirst \<le> length pThird" and b: "length pSecond \<le> length pThird" "pFirst \<noteq> [] \<Longrightarrow> pSecond \<noteq> []"
  shows "montgomery_digits pFirst pSecond pThird
    (liDigitMontgomery32 pFirst pSecond pThird mInv (replicate (length pThird) 0))"
proof -
  let ?n = "length pThird"
  define st0 where "st0 = (replicate ?n 0 :: digits, 0 :: 32 word)"
  define st1 where "st1 = fold (liDigitMontgomery32_row pSecond pThird mInv) pFirst st0"
  have s0: "length (fst st0) = ?n" "state_val st0 = 0" by (simp_all add: st0_def state_val_def)
  obtain U1 where U1: "U1 < 2 ^ (32 * length pFirst)" "length (fst st1) = ?n"
    "2 ^ (32 * length pFirst) * state_val st1 = val pFirst * val pSecond + U1 * val pThird"
  proof (cases "pFirst = []")
    case True
    then show thesis using that [of 0] s0 by (simp add: st1_def)
  next
    case False
    then have "1 \<le> length pSecond" using b(2) by (cases pSecond) auto
    then show thesis
      using liDigitMontgomery32_rows_val [OF inv n _ b(1) s0(1), of pFirst] that s0(2) unfolding st1_def by auto
  qed
  define k where "k = ?n - length pFirst"
  obtain pRes l where st2: "(liDigitMontgomery32_reduce pThird mInv ^^ k) st1 = (pRes, l)" by fastforce
  obtain U2 where U2: "U2 < 2 ^ (32 * k)" "length pRes = ?n"
    "2 ^ (32 * k) * state_val (pRes, l) = state_val st1 + U2 * val pThird"
    using liDigitMontgomery32_reduces_val [OF inv n U1(2), of k] unfolding st2 by auto
  define T where "T = state_val (pRes, l)"
  have R: "(2::nat) ^ (32 * ?n) = 2 ^ (32 * length pFirst) * 2 ^ (32 * k)"
    using a by (simp flip: power_add add: k_def)
  have T: "montgomery (2 ^ (32 * ?n)) (val pFirst * val pSecond) (val pThird) T"
  proof -
    have "2 ^ (32 * ?n) * T = 2 ^ (32 * length pFirst) * (state_val st1 + U2 * val pThird)"
      unfolding R T_def U2(3) [symmetric] by (simp only: mult.assoc)
    also have "\<dots> = val pFirst * val pSecond + (U1 + 2 ^ (32 * length pFirst) * U2) * val pThird"
      unfolding distrib_left U1(3) by (simp only: distrib_right mult.assoc add.assoc)
    finally show ?thesis
      unfolding montgomery_def using digit_below [OF U1(1) U2(1)] unfolding R by blast
  qed
  have m: "val pThird < 2 ^ (32 * ?n)" using val_lt [of pThird] by simp
  have "val pFirst < 2 ^ (32 * ?n)"
    using val_lt [of pFirst] a by (intro less_le_trans [OF val_lt] power_increasing) simp_all
  moreover have "val pSecond < 2 ^ (32 * ?n)"
    using val_lt [of pSecond] b by (intro less_le_trans [OF val_lt] power_increasing) simp_all
  ultimately have "val pFirst * val pSecond < 2 ^ (32 * ?n) * 2 ^ (32 * ?n)" by (intro mult_strict_mono) simp_all
  then have below: "T < 2 ^ (32 * ?n) + val pThird" using montgomery_below [OF T _ m] by simp
  have Tv: "T = val pRes + 2 ^ (32 * ?n) * unat l" by (simp add: T_def state_val_def U2(2))
  have cmp: "liCmp pThird pRes ?n = (if val pThird < val pRes then -1 else if val pThird = val pRes then 0 else 1)"
    using liCmp_val [of ?n pThird pRes] U2(2) by simp
  have ge: "\<not> (l = 0 \<and> liCmp pThird pRes ?n = 1) \<longleftrightarrow> val pThird \<le> T"
  proof (cases "l = 0")
    case True
    then show ?thesis unfolding cmp by (auto simp: Tv)
  next
    case False
    then have "1 \<le> unat l" by (simp add: Suc_le_eq unat_gt_0)
    then have "2 ^ (32 * ?n) * 1 \<le> 2 ^ (32 * ?n) * unat l" by (rule mult_le_mono2)
    then have "val pThird \<le> T" using m unfolding Tv by linarith
    then show ?thesis using False by simp
  qed
  have out: "liDigitMontgomery32 pFirst pSecond pThird mInv (replicate ?n 0)
      = Some (if val pThird \<le> T then liDigitMontgomery32_sub pRes pThird 0 else pRes)"
    using st2 b unfolding ge [symmetric] liDigitMontgomery32_def Let_def k_def st1_def st0_def by (auto split: prod.splits)
  show ?thesis
  proof (cases "val pThird \<le> T")
    case True
    let ?r = "liDigitMontgomery32_sub pRes pThird 0"
    obtain c where c: "length ?r = ?n" "val ?r + val pThird = val pRes + 2 ^ (32 * ?n) * c"
      using liDigitMontgomery32_sub_val [of pThird pRes 0 0] U2(2) by auto
    have "val ?r = (val ?r + 2 ^ (32 * ?n) * unat l) mod 2 ^ (32 * ?n)" using val_lt [of ?r] c(1) by simp
    also have "val ?r + 2 ^ (32 * ?n) * unat l = T - val pThird + 2 ^ (32 * ?n) * c"
      using c(2) True unfolding Tv by linarith
    also have "\<dots> mod 2 ^ (32 * ?n) = T - val pThird"
    proof -
      have "T - val pThird < 2 ^ (32 * ?n)" using below True by linarith
      then show ?thesis by (simp only: mod_mult_self2 mod_less)
    qed
    finally have "val ?r = T - val pThird" .
    then show ?thesis using out T True c(1) by (auto simp: montgomery_digits_def)
  next
    case False
    then have "T = val pRes" using m unfolding Tv by (cases "unat l") (simp_all add: mult.commute)
    then show ?thesis using out T False U2(2) by (auto simp: montgomery_digits_def)
  qed
qed

subsection \<open>The routines over limbs compute it\<close>

lemma unat_shifted_limb:
  fixes x below :: "'l::len word"
  assumes "LENGTH('l) = 64"
  shows "unat (push_bit 32 x OR drop_bit 32 below) = 2 ^ 32 * (unat x mod 2 ^ 32) + unat below div 2 ^ 32"
proof -
  have "push_bit 32 x AND drop_bit 32 below = 0"
    by (rule bit_eqI) (use assms in \<open>auto simp: bit_and_iff bit_push_bit_iff bit_drop_bit_eq dest: bit_imp_le_length\<close>)
  then have "push_bit 32 x OR drop_bit 32 below = push_bit 32 x + drop_bit 32 below"
    using word_plus_and_or [of "push_bit 32 x" "drop_bit 32 below"] by simp
  moreover have p: "unat (push_bit 32 x) = 2 ^ 32 * (unat x mod 2 ^ 32)"
  proof -
    have "unat (push_bit 32 x) = take_bit LENGTH('l) (push_bit 32 (unat x))"
      by (rule unsigned_push_bit_eq)
    also have "\<dots> = (2 ^ 32 * unat x) mod (2 ^ 32 * 2 ^ 32)"
      unfolding assms take_bit_eq_mod push_bit_eq_mult by (simp add: mult.commute)
    finally show ?thesis by (simp only: mult_mod_right)
  qed
  moreover have d: "unat (drop_bit 32 below) = unat below div 2 ^ 32"
    by (simp only: unat_drop_bit_eq) (simp only: drop_bit_eq_div)
  moreover have "2 ^ 32 * (unat x mod 2 ^ 32) + unat below div 2 ^ 32 < 2 ^ LENGTH('l)"
  proof -
    have "unat below div 2 ^ 32 < 2 ^ 32" using unat_lt [of below] assms by (simp add: less_mult_imp_div_less)
    moreover have "unat x mod 2 ^ 32 < 2 ^ 32" by simp
    ultimately show ?thesis unfolding assms by simp
  qed
  ultimately show ?thesis by (simp only: unat_word_ariths mod_less)
qed

lemma liMontDigits_shift_val:
  fixes t :: "'l::len word list"
  assumes "LENGTH('l) = 64"
  shows "length (liMontDigits_shift below t) = length t \<and>
    (2 ^ 32 * val t + unat below div 2 ^ 32 < 2 ^ (LENGTH('l) * length t) \<longrightarrow>
      val (liMontDigits_shift below t) = 2 ^ 32 * val t + unat below div 2 ^ 32)"
proof (induction below t rule: liMontDigits_shift.induct)
  case (2 below x t)
  let ?B = "2 ^ LENGTH('l) :: nat"
  have B: "?B = 2 ^ 32 * 2 ^ 32" by (simp add: assms)
  have x: "unat x = 2 ^ 32 * (unat x div 2 ^ 32) + unat x mod 2 ^ 32" by simp
  have sum: "2 ^ 32 * val (x # t) + unat below div 2 ^ 32
      = (2 ^ 32 * (unat x mod 2 ^ 32) + unat below div 2 ^ 32) + ?B * (2 ^ 32 * val t + unat x div 2 ^ 32)"
    unfolding val.simps by (subst x) (simp only: B distrib_left mult_ac add_ac)
  show ?case
  proof (intro conjI impI)
    show "length (liMontDigits_shift below (x # t)) = length (x # t)" using 2 by simp
    assume lt: "2 ^ 32 * val (x # t) + unat below div 2 ^ 32 < 2 ^ (LENGTH('l) * length (x # t))"
    have "?B * (2 ^ 32 * val t + unat x div 2 ^ 32) \<le> 2 ^ 32 * val (x # t) + unat below div 2 ^ 32"
      unfolding sum by (rule le_add2)
    also note lt
    also have "2 ^ (LENGTH('l) * length (x # t)) = ?B * 2 ^ (LENGTH('l) * length t)" by (simp add: power_add)
    finally have "2 ^ 32 * val t + unat x div 2 ^ 32 < 2 ^ (LENGTH('l) * length t)" by (simp only: mult_less_cancel1)
    then have "val (liMontDigits_shift x t) = 2 ^ 32 * val t + unat x div 2 ^ 32" using 2 by blast
    then show "val (liMontDigits_shift below (x # t)) = 2 ^ 32 * val (x # t) + unat below div 2 ^ 32"
      unfolding sum by (simp only: liMontDigits_shift.simps val.simps unat_shifted_limb [OF assms])
  qed
qed simp

text \<open>One more digit on both sides of the quotient changes nothing.\<close>

lemma montgomery_shift:
  assumes "coprime K m" "0 < K" "montgomery (R * K) (K * p) m T"
  shows "montgomery R p m T"
proof -
  obtain U where U: "U < R * K" "R * K * T = K * p + U * m" using assms(3) by (auto simp: montgomery_def)
  have "K dvd U * m" using U(2) by (metis dvd_add_right_iff dvd_triv_left mult.assoc mult.commute)
  then have "K dvd U" using assms(1) by (simp add: coprime_dvd_mult_left_iff)
  then obtain V where V: "U = K * V" by (auto simp: dvd_def)
  have "K * (R * T) = K * (p + V * m)" using U(2) unfolding V by (simp add: algebra_simps)
  then have "R * T = p + V * m" using assms(2) by simp
  moreover have "V < R" using U(1) assms(2) unfolding V by (simp add: mult.commute)
  ultimately show ?thesis by (auto simp: montgomery_def)
qed

lemma liMontDigits_final_val:
  fixes t m :: "'l::len word list"
  assumes "length t = n + 1" "n \<le> length m" "val t < 2 ^ (LENGTH('l) * n) + val (take n m)"
  shows "n \<le> length (liMontDigits_final t m n)"
    "val (take n (liMontDigits_final t m n)) = (if val (take n m) \<le> val t then val t - val (take n m) else val t)"
proof -
  let ?R = "2 ^ (LENGTH('l) * n) :: nat"
  have t: "val t = val (take n t) + ?R * unat (t ! n)"
    using val_take_Suc [of n t] assms(1) by simp
  have m: "val (take n m) < ?R" by (rule val_take_lt)
  have ge: "t ! n \<noteq> 0 \<or> liCmp t m n \<ge> 0 \<longleftrightarrow> val (take n m) \<le> val t"
  proof (cases "t ! n = 0")
    case True
    then show ?thesis using liCmp_val [of n t m] assms(1,2) t by auto
  next
    case False
    then have "1 \<le> unat (t ! n)" by (simp add: Suc_le_eq unat_gt_0)
    then have "?R * 1 \<le> ?R * unat (t ! n)" by (rule mult_le_mono2)
    then have "val (take n m) \<le> val t" using m unfolding t by linarith
    then show ?thesis using False by simp
  qed
  obtain d c where d: "liSubN t m n = (d, c)" by fastforce
  have dl: "length d = n" "val d + val (take n m) = val (take n t) + ?R * unat c"
    using liSubN_val [OF d] assms by simp_all
  show "n \<le> length (liMontDigits_final t m n)"
    using assms(1) dl(1) d by (simp add: liMontDigits_final_def)
  show "val (take n (liMontDigits_final t m n)) = (if val (take n m) \<le> val t then val t - val (take n m) else val t)"
  proof (cases "val (take n m) \<le> val t")
    case True
    have "val d = (val d + ?R * unat (t ! n)) mod ?R" using val_lt [of d] dl(1) by simp
    also have "val d + ?R * unat (t ! n) = val t - val (take n m) + ?R * unat c"
      using dl(2) True unfolding t by linarith
    also have "\<dots> mod ?R = val t - val (take n m)"
    proof -
      have "val t - val (take n m) < ?R" using assms(3) True by linarith
      then show ?thesis by (simp only: mod_mult_self2 mod_less)
    qed
    finally show ?thesis using True ge d dl(1) by (simp add: liMontDigits_final_def)
  next
    case False
    then have "t ! n = 0" using ge by blast
    then show ?thesis using False ge t by (auto simp: liMontDigits_final_def)
  qed
qed

text \<open>The interface: what Montgomery's multiplication over limbs needs of a build.\<close>

locale montgomery_build = digit_limbs bld
  for bld :: "'l::len li_build" +
  assumes one_or_two: "LI_DIGITS_PER_LIMB bld = 1 \<or> LI_DIGITS_PER_LIMB bld = 2"
begin

definition skip_of :: "nat \<Rightarrow> nat" where
  "skip_of n = (if LI_DIGITS_PER_LIMB bld = 2 then n mod 2 else 0)"

lemma skip_of:
  "skip_of n < LI_DIGITS_PER_LIMB bld" "LENGTH('l) * liLimbsFor bld n = 32 * (n + skip_of n)"
  "liLimbsFor bld (n + skip_of n) = liLimbsFor bld n"
proof -
  show "skip_of n < LI_DIGITS_PER_LIMB bld" using one_or_two by (auto simp: skip_of_def)
  have "LI_DIGITS_PER_LIMB bld dvd n + skip_of n" using one_or_two by (auto simp: skip_of_def)
  then have "LENGTH('l) * liLimbsFor bld (n + skip_of n) = 32 * (n + skip_of n)" by (rule liLimbsFor_exact)
  moreover show "liLimbsFor bld (n + skip_of n) = liLimbsFor bld n"
    using one_or_two unfolding liLimbsFor_def skip_of_def by (cases "even n") (auto elim!: oddE)
  ultimately show "LENGTH('l) * liLimbsFor bld n = 32 * (n + skip_of n)" by simp
qed

text \<open>One Newton step lifts the inverse from a digit to a limb.\<close>

lemma lift_inverse:
  assumes "pThird ! 0 * mInv = -1" "1 \<le> length pThird"
  defines "m \<equiv> load bld pThird (length pThird) 0"
  shows "m ! 0 * liMontDigits_inverse bld (m ! 0) mInv = -1"
proof -
  define M where "M = val pThird"
  define v where "v = unat mInv"
  have L: "LENGTH('l) = 32 \<or> LENGTH('l) = 64" using one_or_two limb_bits by auto
  have m: "length m = liLimbsFor bld (length pThird)" "val m = M"
    using length_load [OF digits_pos, of "length pThird" pThird] val_load [OF digits_pos, of "length pThird" pThird]
    by (simp_all add: m_def M_def)
  have "1 \<le> length m" using liLimbsFor_pos [of "length pThird"] assms(2) m(1)
    by (simp del: length_greater_0_conv)
  then have "m ! 0 = of_nat M"
    using m(2) by (cases m) (auto simp: word_unat_eq_iff unat_of_nat)
  obtain t0 ts where t: "pThird = t0 # ts" using assms(2) by (cases pThird) auto
  have "(unat t0 * v + 1) mod 2 ^ 32 = 0" using assms(1) by (simp add: t word_inverse v_def)
  moreover have "(M * v + 1) mod 2 ^ 32 = (unat t0 * v + 1 + 2 ^ 32 * (val ts * v)) mod 2 ^ 32"
    unfolding M_def t val_32 by (simp only: distrib_right mult.assoc add_ac)
  ultimately have "2 ^ 32 dvd M * v + 1" by (simp only: mod_mult_self2) (rule mod_0_imp_dvd)
  then obtain k where k: "M * v + 1 = 2 ^ 32 * k" by (auto simp: dvd_def)
  have mInv: "ucast mInv = (of_nat v :: 'l word)"
    by (simp add: v_def)
  have neg: "x = -1" if "x = of_nat y" "2 ^ LENGTH('l) dvd y + 1" for x :: "'l word" and y
  proof -
    have "x + 1 = of_nat (y + 1)" using that(1) by simp
    also have "\<dots> = 0" using that(2) by (simp only: word_of_nat_eq_0_iff)
    finally show ?thesis by (simp add: eq_neg_iff_add_eq_0)
  qed
  show ?thesis
  proof (cases "LI_DIGITS_PER_LIMB bld = 2")
    case True
    then have L: "LENGTH('l) = 64" using limb_bits by simp
    have "M * (v * (2 + M * v)) + 1 = (M * v + 1) * (M * v + 1)" by (simp add: algebra_simps)
    also have "\<dots> = 2 ^ 64 * (k * k)" unfolding k by simp
    finally have "2 ^ LENGTH('l) dvd M * (v * (2 + M * v)) + 1" unfolding L by simp
    moreover have "m ! 0 * liMontDigits_inverse bld (m ! 0) mInv = of_nat (M * (v * (2 + M * v)))"
      using True \<open>m ! 0 = of_nat M\<close> by (simp add: liMontDigits_inverse_def mInv algebra_simps)
    ultimately show ?thesis by (intro neg)
  next
    case False
    then have L: "LENGTH('l) = 32" using limb_bits one_or_two by simp
    have "2 ^ LENGTH('l) dvd M * v + 1" unfolding k L by simp
    moreover have "m ! 0 * liMontDigits_inverse bld (m ! 0) mInv = of_nat (M * v)"
      using False \<open>m ! 0 = of_nat M\<close> by (simp add: liMontDigits_inverse_def mInv)
    ultimately show ?thesis by (intro neg)
  qed
qed

lemma limbs_pos: "Suc 0 \<le> n \<Longrightarrow> Suc 0 \<le> liLimbsFor bld n"
  using liLimbsFor_pos [of n] by simp

lemma load_0:
  "length (load bld src (length src) 0) = liLimbsFor bld (length src)" "val (load bld src (length src) 0) = val src"
  using length_load [OF digits_pos, of "length src" src] val_load [OF digits_pos, of "length src" src] by simp_all

lemma radix: "(2::nat) ^ (LENGTH('l) * liLimbsFor bld n) = 2 ^ (32 * n) * 2 ^ (32 * skip_of n)"
  by (simp add: skip_of(2) distrib_left power_add)

lemma liMontDigits_redc_val:
  fixes pFirst pSecond pThird :: digits
  defines "n \<equiv> liLimbsFor bld (length pThird)" and "m \<equiv> load bld pThird (length pThird) 0"
    and "an \<equiv> liLimbsFor bld (length pFirst)" and "bn \<equiv> liLimbsFor bld (length pSecond)"
  assumes kn: "knobs_ok kn" and len: "1 \<le> length pSecond" "length pSecond \<le> length pFirst" "length pFirst \<le> length pThird"
    and sq: "square \<Longrightarrow> pFirst = pSecond" and inv: "m ! 0 * mInvL = -1"
    and sc: "sc = (if square then liSqrScratch kn an else liMulScratch kn an bn)"
  obtains t where "liMontDigits_redc bld kn pFirst pSecond square m n (skip_of (length pThird)) mInvL sc = Some t"
    "length t = n + 1"
    "montgomery (2 ^ (LENGTH('l) * n)) (2 ^ (32 * skip_of (length pThird)) * (val pFirst * val pSecond)) (val pThird) (val t)"
proof -
  let ?s = "skip_of (length pThird)"
  define a where "a = load bld pFirst (length pFirst) 0"
  define b where "b = load bld pSecond (length pSecond) 0"
  have a: "length a = an" "val a = val pFirst" and b: "length b = bn" "val b = val pSecond"
    and m: "length m = n" "val m = val pThird"
    by (simp_all add: a_def b_def m_def an_def bn_def n_def load_0)
  have bn: "1 \<le> bn" "bn \<le> an" "an \<le> n"
    using len by (auto simp: an_def bn_def n_def intro!: liLimbsFor_mono limbs_pos)
  have k: "2 \<le> liKaratsubaLimbs kn" "2 \<le> liSqrKaratsubaLimbs kn" using kn by (simp_all add: knobs_ok_def)
  obtain p where p: "(if square then liSqr kn a an sc else liMul kn a an b bn sc) = Some p"
    "length p = an + bn" "val p = val pFirst * val pSecond"
  proof (cases square)
    case True
    have ab: "an = bn" "pFirst = pSecond" using sq [OF True] by (simp_all add: an_def bn_def)
    show thesis
      by (rule liSqr_correct [OF k(2), of an a sc]) (use True bn a sc ab that in auto)
  next
    case False
    show thesis
      by (rule liMul_correct [OF k(1), of bn an a b sc]) (use False bn a b sc that in auto)
  qed
  define q where "q = p @ replicate (2 * n + 1 - (an + bn)) 0"
  have q: "length q = n + n + 1" "val q = val pFirst * val pSecond" "val (drop (2 * n) q) = 0" "val (take (2 * n) q) = val q"
    using p bn by (simp_all add: q_def val_append_zeros)
  have small: "2 ^ (32 * ?s) * (val pFirst * val pSecond) < 2 ^ (LENGTH('l) * (n + n))"
  proof -
    have "val pFirst < 2 ^ (32 * length pThird)" "val pSecond < 2 ^ (32 * length pThird)"
      using len by (auto intro!: less_le_trans [OF val_lt] power_increasing)
    then have "val pFirst * val pSecond < 2 ^ (32 * length pThird) * 2 ^ (32 * length pThird)"
      by (intro mult_strict_mono) simp_all
    then have "2 ^ (32 * ?s) * (val pFirst * val pSecond) < 2 ^ (32 * ?s) * (2 ^ (32 * length pThird) * 2 ^ (32 * length pThird))"
      by simp
    also have "\<dots> \<le> 2 ^ (32 * ?s) * (2 ^ (32 * length pThird) * 2 ^ (32 * length pThird)) * 2 ^ (32 * ?s)" by simp
    also have "\<dots> = 2 ^ (LENGTH('l) * (n + n))"
      unfolding distrib_left power_add n_def radix by (simp only: mult_ac)
    finally show ?thesis .
  qed
  define r where "r = (if ?s \<noteq> 0 then liMontDigits_shift 0 (take (2 * n) q) @ drop (2 * n) q else q)"
  have r: "length r = n + n + 1" "val r = 2 ^ (32 * ?s) * (val pFirst * val pSecond)"
  proof -
    have "length r = n + n + 1 \<and> val r = 2 ^ (32 * ?s) * (val pFirst * val pSecond)"
    proof (cases "?s = 0")
      case True
      then show ?thesis using q by (simp add: r_def)
    next
      case False
      then have d: "LI_DIGITS_PER_LIMB bld = 2" "?s = 1" by (auto simp: skip_of_def split: if_splits)
      then have L: "LENGTH('l) = 64" using limb_bits by simp
      have tq: "length (take (2 * n) q) = n + n" using q(1) by simp
      have "val (liMontDigits_shift 0 (take (2 * n) q)) = 2 ^ 32 * (val pFirst * val pSecond)"
        using liMontDigits_shift_val [OF L, of 0 "take (2 * n) q"] small unfolding tq q(4) q(2) d(2) by simp
      then show ?thesis using False d(2) q(1,3) liMontDigits_shift_val [OF L, of 0 "take (2 * n) q"]
        by (simp add: r_def val_append)
    qed
    then show "length r = n + n + 1" "val r = 2 ^ (32 * ?s) * (val pFirst * val pSecond)" by simp_all
  qed
  obtain t where t: "liMontRedc r m n mInvL = Some t" "length t = n + 1"
    "montgomery (2 ^ (LENGTH('l) * n)) (val r) (val (take n m)) (val t)"
    by (rule liMontRedc_val [OF inv, of n r]) (use m r small in auto)
  have "liMontDigits_redc bld kn pFirst pSecond square m n ?s mInvL sc = Some t"
    unfolding liMontDigits_redc_def Let_def an_def [symmetric] bn_def [symmetric] a_def [symmetric] b_def [symmetric]
    by (simp only: p(1) Option.bind.simps q_def [symmetric] r_def [symmetric] t(1))
  then show thesis using that t m r(2) by simp
qed

lemma liMontDigits_cios_val:
  fixes pFirst pSecond pThird :: digits
  defines "n \<equiv> liLimbsFor bld (length pThird)" and "m \<equiv> load bld pThird (length pThird) 0"
    and "s \<equiv> skip_of (length pThird)"
  assumes len: "1 \<le> length pSecond" "length pSecond \<le> length pFirst" "length pFirst \<le> length pThird"
    and inv: "m ! 0 * mInvL = -1"
  defines "t \<equiv> liMontMul (load bld pFirst (length pFirst) s @ replicate (n - liLimbsFor bld (length pFirst + s)) 0)
    (load bld pSecond (length pSecond) 0) (liLimbsFor bld (length pSecond)) m n mInvL"
  shows "length t = n + 1"
    "montgomery (2 ^ (LENGTH('l) * n)) (2 ^ (32 * s) * (val pFirst * val pSecond)) (val pThird) (val t)"
proof -
  define a where "a = load bld pFirst (length pFirst) s @ replicate (n - liLimbsFor bld (length pFirst + s)) 0"
  have le: "liLimbsFor bld (length pFirst + s) \<le> n"
    unfolding n_def skip_of(3) [of "length pThird", symmetric] s_def [symmetric]
    by (rule liLimbsFor_mono) (use len in simp)
  have a: "length a = n" "val a = 2 ^ (32 * s) * val pFirst"
    using length_load [of s "length pFirst" pFirst] val_load [of s "length pFirst" pFirst] skip_of(1) [of "length pThird"] le
    by (simp_all add: a_def s_def val_append_zeros add.commute)
  have m: "length m = n" "val m = val pThird" by (simp_all add: m_def n_def load_0)
  have bn: "1 \<le> liLimbsFor bld (length pSecond)" "liLimbsFor bld (length pSecond) \<le> n"
    using len by (auto simp: n_def intro!: liLimbsFor_mono limbs_pos)
  then have "1 \<le> n" by simp
  note mul = liMontMul_val [OF inv \<open>1 \<le> n\<close> _ bn, of "load bld pSecond (length pSecond) 0" a]
  show "length t = n + 1"
    using mul(1) a m by (simp add: t_def a_def load_0)
  show "montgomery (2 ^ (LENGTH('l) * n)) (2 ^ (32 * s) * (val pFirst * val pSecond)) (val pThird) (val t)"
    using mul(2) a m by (simp add: t_def a_def [symmetric] load_0 mult.assoc)
qed

lemma liMontDigits_val:
  assumes kn: "knobs_ok kn" and inv: "pThird ! 0 * mInv = -1" "1 \<le> length pThird"
    and len: "length pFirst \<le> length pThird" "length pSecond \<le> length pThird" "length pFirst = 0 \<or> 1 \<le> length pSecond"
  shows "liMontDigits bld kn env pFirst pSecond pThird mInv = Some None \<or>
    (\<exists>r. liMontDigits bld kn env pFirst pSecond pThird mInv = Some (Some r) \<and>
      montgomery_digits pFirst pSecond pThird (Some r))"
proof (cases "length pFirst = 0")
  case True
  have "montgomery_digits pFirst pSecond pThird (Some (replicate (length pThird) 0))"
    unfolding montgomery_digits_def
    by (intro exI [of _ "replicate (length pThird) 0"] exI [of _ "0 :: nat"]) (use True in \<open>auto simp: montgomery_def intro: exI [of _ 0]\<close>)
  then show ?thesis using True by (simp add: liMontDigits_def)
next
  case False
  obtain a b where ab: "(if length pFirst < length pSecond then (pSecond, pFirst) else (pFirst, pSecond)) = (a, b)"
    by fastforce
  have ab': "length b \<le> length a" "1 \<le> length b" "length a \<le> length pThird" "val a * val b = val pFirst * val pSecond"
    using ab len False by (auto split: if_splits simp: mult.commute Suc_le_eq)
  let ?s = "skip_of (length pThird)"
  define n where "n = liLimbsFor bld (length pThird)"
  define m where "m = load bld pThird (length pThird) 0"
  define an where "an = liLimbsFor bld (length a)"
  define bn where "bn = liLimbsFor bld (length b)"
  define square where "square = liMontDigits_square kn n a b"
  define redc where "redc = (square \<or> n \<ge> liMontMulLimbs kn \<or> (n \<ge> liMontSqrLimbs kn \<and> 2 * bn \<le> n + 1))"
  define sc where "sc = (if square then liSqrScratch kn an else liMulScratch kn an bn)"
  define need where "need = (if redc then n + an + (if square then 0 else bn) + (2 * n + 1) + sc else n + n + bn + (n + 1))"
  define mInvL where "mInvL = liMontDigits_inverse bld (m ! 0) mInv"
  define out where "out = (if redc then liMontDigits_redc bld kn a b square m n ?s mInvL sc
    else Some (liMontMul (load bld a (length a) ?s @ replicate (n - liLimbsFor bld (length a + ?s)) 0)
      (load bld b (length b) 0) bn m n mInvL))"
  have eq: "liMontDigits bld kn env pFirst pSecond pThird mInv =
      (if \<not> liScratch bld env need then Some None
       else do { t \<leftarrow> out; Some (Some (store bld (length pThird) (liMontDigits_final t m n) n 0)) })"
    unfolding liMontDigits_def Let_def skip_of_def [symmetric] n_def [symmetric] m_def [symmetric] mInvL_def [symmetric]
    by (simp only: False if_False ab prod.case an_def [symmetric] bn_def [symmetric] square_def [symmetric] redc_def [symmetric]
        sc_def [symmetric] need_def [symmetric] out_def [symmetric])
  have inv': "m ! 0 * mInvL = -1" unfolding m_def mInvL_def by (rule lift_inverse [OF inv])
  have sq: "square \<Longrightarrow> a = b" by (simp add: square_def liMontDigits_square_def)
  obtain t where t: "out = Some t" "length t = n + 1"
    "montgomery (2 ^ (LENGTH('l) * n)) (2 ^ (32 * ?s) * (val a * val b)) (val pThird) (val t)"
  proof (cases redc)
    case True
    show thesis
      by (rule liMontDigits_redc_val [OF kn ab'(2,1,3) sq, where mInvL = mInvL and sc = sc, folded m_def n_def an_def bn_def])
        (use inv' True that in \<open>simp_all add: out_def sc_def\<close>)
  next
    case False
    show thesis
      using that liMontDigits_cios_val [OF ab'(2,1,3), of mInvL, folded m_def n_def bn_def, OF inv'] False
      by (simp add: out_def)
  qed
  have T: "montgomery (2 ^ (32 * length pThird)) (val pFirst * val pSecond) (val pThird) (val t)"
    using t(3) unfolding n_def radix ab'(4) by (rule montgomery_shift [OF inverse_odd [OF inv], rotated]) simp
  have m: "length m = n" "val m = val pThird" by (simp_all add: m_def n_def load_0)
  have lt: "val x < 2 ^ (32 * length pThird)" if "length x \<le> length pThird" for x :: digits
    by (rule less_le_trans [OF val_lt]) (use that in simp)
  have "val pFirst * val pSecond < 2 ^ (32 * length pThird) * 2 ^ (32 * length pThird)"
    by (intro mult_strict_mono lt len) simp_all
  then have below: "val t < 2 ^ (32 * length pThird) + val pThird"
    by (rule montgomery_below [OF T]) (simp add: lt)
  have R: "(2::nat) ^ (32 * length pThird) \<le> 2 ^ (LENGTH('l) * n)"
    unfolding n_def radix by simp
  have final: "n \<le> length (liMontDigits_final t m n)"
    "val (take n (liMontDigits_final t m n)) = (if val pThird \<le> val t then val t - val pThird else val t)"
    using liMontDigits_final_val [of t n m] t(2) m below R by auto
  let ?r = "store bld (length pThird) (liMontDigits_final t m n) n 0"
  have "length ?r = length pThird" by (rule length_store [OF digits_pos final(1)])
  moreover have "val ?r = (if val pThird \<le> val t then val t - val pThird else val t)"
  proof -
    have "(if val pThird \<le> val t then val t - val pThird else val t) < 2 ^ (32 * length pThird)"
      using below lt [of pThird] by auto
    then show ?thesis using val_store [OF digits_pos final(1), of "length pThird"] unfolding final(2) by simp
  qed
  ultimately have "montgomery_digits pFirst pSecond pThird (Some ?r)"
    using T by (auto simp: montgomery_digits_def)
  then show ?thesis unfolding eq t(1) by simp
qed

lemma liDigitMontgomery_val:
  assumes kn: "knobs_ok kn" and inv: "pThird ! 0 * mInv = -1" "1 \<le> length pThird"
    and len: "length pFirst \<le> length pThird" "length pSecond \<le> length pThird" "pFirst \<noteq> [] \<Longrightarrow> pSecond \<noteq> []"
  shows "montgomery_digits pFirst pSecond pThird
    (liDigitMontgomery bld kn env pFirst pSecond pThird mInv (replicate (length pThird) 0))"
proof -
  have "length pFirst = 0 \<or> 1 \<le> length pSecond" using len(3) by (cases pFirst; cases pSecond) auto
  then show ?thesis
    using liDigitMontgomery32_val [OF inv len] liMontDigits_val [OF kn inv len(1,2), of env]
    unfolding liDigitMontgomery_def by auto
qed

end

interpretation mb64: montgomery_build build64
  by unfold_locales (simp add: build64_def)

interpretation mb32: montgomery_build build32
  by unfold_locales (simp add: build32_def)

subsection \<open>The entry point\<close>

lemma montgomery_digits_unique:
  assumes "coprime (2 ^ (32 * length m)) (val m)" "montgomery_digits a b m out" "montgomery_digits a b m out'"
  shows "out = out'"
proof -
  obtain r T where r: "out = Some r" "length r = length m" "montgomery (2 ^ (32 * length m)) (val a * val b) (val m) T"
    "val r = (if val m \<le> T then T - val m else T)" using assms(2) unfolding montgomery_digits_def by blast
  obtain r' T' where r': "out' = Some r'" "length r' = length m" "montgomery (2 ^ (32 * length m)) (val a * val b) (val m) T'"
    "val r' = (if val m \<le> T' then T' - val m else T')" using assms(3) unfolding montgomery_digits_def by blast
  have "T = T'" using montgomery_unique [OF assms(1) r(3) r'(3)] .
  then have "r = r'" using r r' by (intro val_inj) simp_all
  then show ?thesis using r(1) r'(1) by simp
qed

lemma montgomery_digits_residue:
  assumes "montgomery_digits a b m (Some r)" "length a \<le> length m" "length b \<le> length m"
  shows "(val r * 2 ^ (32 * length m)) mod val m = (val a * val b) mod val m"
    "val a < val m \<or> val b < val m \<Longrightarrow> val r < val m"
proof -
  define R where "R = (2::nat) ^ (32 * length m)"
  obtain T where "montgomery R (val a * val b) (val m) T" and r: "val r = (if val m \<le> T then T - val m else T)"
    using assms(1) by (auto simp: montgomery_digits_def R_def)
  then obtain U where U: "U < R" "R * T = val a * val b + U * val m" by (auto simp: montgomery_def)
  have "(val r * R) mod val m = (T * R) mod val m"
  proof (cases "val m \<le> T")
    case True
    then have "T = val r + val m" using r by simp
    then have "T * R = val r * R + R * val m" by (simp add: algebra_simps)
    then show ?thesis by simp
  qed (simp add: r)
  also have "\<dots> = (val a * val b) mod val m" using U(2) by (simp add: mult.commute)
  finally show "(val r * 2 ^ (32 * length m)) mod val m = (val a * val b) mod val m" by (simp add: R_def)
  assume lt: "val a < val m \<or> val b < val m"
  have le: "val x < R" if "length x \<le> length m" for x :: digits
    unfolding R_def by (rule less_le_trans [OF val_lt]) (use that in simp)
  have "val a * val b < R * val m"
    using lt
  proof
    assume "val a < val m"
    then show ?thesis using le [OF assms(3)] mult_strict_mono [of "val a" "val m" "val b" R] by (simp add: mult.commute)
  next
    assume "val b < val m"
    then show ?thesis using le [OF assms(2)] mult_strict_mono [of "val a" R "val b" "val m"] by simp
  qed
  moreover have "U * val m \<le> R * val m" using U(1) by (intro mult_le_mono1) simp
  ultimately have "R * T < R * (2 * val m)" unfolding U(2) mult_2 distrib_left by linarith
  then have "T < 2 * val m" by simp
  then show "val r < val m" using r by auto
qed

text \<open>
  C22: \<open>liDigitMontgomery\<close> computes Montgomery's product on every route and in both builds (the digit loop, the
  operand scanning, the reduction of a Karatsuba product or square, the fallback without scratch): the
  answer is the product of the operands times the inverse of \<open>2 ^ (32 * n)\<close> modulo the \<open>n\<close> digits of
  the modulus, and it is reduced when one of the operands is.
\<close>
theorem liDigitMontgomery_residue:
  assumes "knobs_ok kn" "pThird ! 0 * mInv = -1" "1 \<le> length pThird"
    "length pFirst \<le> length pThird" "length pSecond \<le> length pThird" "pFirst \<noteq> [] \<Longrightarrow> pSecond \<noteq> []"
    and "out = liDigitMontgomery build64 kn env pFirst pSecond pThird mInv (replicate (length pThird) 0) \<or>
      out = liDigitMontgomery build32 kn env pFirst pSecond pThird mInv (replicate (length pThird) 0)"
  shows "\<exists>r. out = Some r \<and> length r = length pThird \<and>
    (val r * 2 ^ (32 * length pThird)) mod val pThird = (val pFirst * val pSecond) mod val pThird \<and>
    (val pFirst < val pThird \<or> val pSecond < val pThird \<longrightarrow> val r < val pThird)"
proof -
  have d: "montgomery_digits pFirst pSecond pThird out"
    using assms(7) mb64.liDigitMontgomery_val [OF assms(1-6)] mb32.liDigitMontgomery_val [OF assms(1-6)] by auto
  then obtain r where r: "out = Some r" "length r = length pThird" by (auto simp: montgomery_digits_def)
  then show ?thesis using montgomery_digits_residue [OF _ assms(4,5), of r] d by simp
qed

theorem liDigitMontgomery_residue_witness:
  "\<exists>r. liDigitMontgomery build64 (knobs64\<lparr>liMontLoopDigits := 1, liMontMulLimbs := 1\<rparr>)
        \<lparr>malloc = (\<lambda>n. False), SIZE_MAX = 2 ^ 64 - 1\<rparr> [1, 2, 3] [5, 6] [7, 8, 9] 0x49249249 [0, 0, 0] = Some r \<and>
      (val r * 2 ^ 96) mod val [7, 8, 9 :: 32 word] = (val [1, 2, 3 :: 32 word] * val [5, 6 :: 32 word]) mod val [7, 8, 9 :: 32 word]"
proof -
  let ?kn = "knobs64\<lparr>liMontLoopDigits := 1, liMontMulLimbs := 1\<rparr>" and ?env = "\<lparr>malloc = (\<lambda>n. False), SIZE_MAX = 2 ^ 64 - 1\<rparr>"
  let ?m = "[7, 8, 9 :: 32 word]"
  have k: "knobs_ok ?kn" by (simp add: knobs_ok_def knobs64_def)
  have "\<exists>r. liDigitMontgomery build64 ?kn ?env [1, 2, 3] [5, 6] ?m 0x49249249 (replicate (length ?m) 0) = Some r \<and>
      length r = length ?m \<and> (val r * 2 ^ (32 * length ?m)) mod val ?m = (val [1, 2, 3 :: 32 word] * val [5, 6 :: 32 word]) mod val ?m \<and>
      (val [1, 2, 3 :: 32 word] < val ?m \<or> val [5, 6 :: 32 word] < val ?m \<longrightarrow> val r < val ?m)"
    by (rule liDigitMontgomery_residue [OF k _ _ _ _ _ disjI1 [OF refl]]) simp_all
  then show ?thesis by auto
qed

text \<open>
  Both builds of \<open>liDigitMontgomery\<close> answer the digits of the 32-bit loop they replace, for any
  operands the plugin passes, also ones that are not reduced.
\<close>
theorem liDigitMontgomery_is_the_loop:
  assumes "knobs_ok kn" "knobs_ok kn'" "pThird ! 0 * mInv = -1" "1 \<le> length pThird"
    "length pFirst \<le> length pThird" "length pSecond \<le> length pThird" "pFirst \<noteq> [] \<Longrightarrow> pSecond \<noteq> []"
  shows "liDigitMontgomery build64 kn env pFirst pSecond pThird mInv (replicate (length pThird) 0)
      = liDigitMontgomery32 pFirst pSecond pThird mInv (replicate (length pThird) 0) \<and>
    liDigitMontgomery build32 kn' env' pFirst pSecond pThird mInv (replicate (length pThird) 0)
      = liDigitMontgomery32 pFirst pSecond pThird mInv (replicate (length pThird) 0)"
  using montgomery_digits_unique [OF inverse_odd [OF assms(3,4)]] liDigitMontgomery32_val [OF assms(3-7)]
    mb64.liDigitMontgomery_val [OF assms(1,3-7)] mb32.liDigitMontgomery_val [OF assms(2,3-7)] by metis

theorem liDigitMontgomery_is_the_loop_witness:
  "liDigitMontgomery build64 (knobs64\<lparr>liMontLoopDigits := 1\<rparr>) \<lparr>malloc = (\<lambda>n. False), SIZE_MAX = 2 ^ 64 - 1\<rparr> [-1, -1, -1] [5, -1] [7, 8, 9] 0x49249249 [0, 0, 0]
      = liDigitMontgomery32 [-1, -1, -1] [5, -1] [7, 8, 9] 0x49249249 [0, 0, 0] \<and>
   liDigitMontgomery build32 (knobs32\<lparr>liMontLoopDigits := 2\<rparr>) \<lparr>malloc = (\<lambda>n. False), SIZE_MAX = 2 ^ 64 - 1\<rparr> [-1, -1, -1] [5, -1] [7, 8, 9] 0x49249249 [0, 0, 0]
      = liDigitMontgomery32 [-1, -1, -1] [5, -1] [7, 8, 9] 0x49249249 [0, 0, 0]"
  using liDigitMontgomery_is_the_loop
    [of "knobs64\<lparr>liMontLoopDigits := 1\<rparr>" "knobs32\<lparr>liMontLoopDigits := 2\<rparr>" "[7, 8, 9]" "0x49249249" "[-1, -1, -1]" "[5, -1]"
      "\<lparr>malloc = (\<lambda>n. False), SIZE_MAX = 2 ^ 64 - 1\<rparr>" "\<lparr>malloc = (\<lambda>n. False), SIZE_MAX = 2 ^ 64 - 1\<rparr>"]
  by (simp add: knobs_ok_def knobs64_def knobs32_def numeral_3_eq_3)

end
