(* ===== verification/LargeInts.thy ===== *)
theory LargeInts
  imports DigitDiv DigitMont
begin

text \<open>
  The integers that the primitives of \<open>LargeIntegers.c\<close> take and answer, on a little-endian machine with
  objects of 64 bits: SmallIntegers of 61 bits and LargeIntegers, a sign (the class) with a magnitude
  in bytes, read as 32-bit digits. Here are the helpers the primitives share (the digits of an operand, the
  high bit, the shifts) and the normalization of results.

  A primitive answers \<open>Inl\<close> its failure or \<open>Inr\<close> the object it pushes; \<open>None\<close> is an access outside an
  array. The allocator is a parameter: \<open>instantiates h k n\<close> says if the \<open>k\<close>-th allocation of a
  primitive, of \<open>n\<close> bytes or fields, succeeds. \<open>junk h k\<close> is what the \<open>k\<close>-th buffer holds before anything is written.
\<close>

subsection \<open>Integers, objects, failures\<close>

abbreviation (input) MaxSmallInteger :: int where "MaxSmallInteger \<equiv> 1152921504606846975"
abbreviation (input) MinSmallInteger :: int where "MinSmallInteger \<equiv> -1152921504606846976"
abbreviation (input) LIStackDigits :: nat where "LIStackDigits \<equiv> 128"

text \<open>
  A LargeInteger is negative or not, has \<open>slotSizeOf\<close> bytes, and the digits at its \<open>firstIndexableField\<close>:
  objects are padded, so that the last digit is whole.
\<close>

datatype integer_oop = SmallInteger int | LargeInteger bool nat digits

datatype oop = Integer integer_oop | Boolean bool | Array2 integer_oop integer_oop | NullOop | OtherOop

datatype li_error = PrimErrGeneric | PrimErrBadArgument | PrimErrBadNumArgs | PrimErrNoMemory

type_synonym 'a prim = "(li_error + 'a) option"

record li_host =
  kernels :: li_env
  instantiates :: "nat \<Rightarrow> nat \<Rightarrow> bool"
  junk :: "nat \<Rightarrow> nat \<Rightarrow> 32 word"

text \<open>A new object is filled with zeros.\<close>

definition instantiate :: "li_host \<Rightarrow> nat \<Rightarrow> nat \<Rightarrow> digits option" where
  "instantiate h k n = (if instantiates h k n then Some (replicate ((n + 3) div 4) 0) else None)"

definition uninitialised :: "li_host \<Rightarrow> nat \<Rightarrow> nat \<Rightarrow> digits" where
  "uninitialised h k n = map (junk h k) [0..<n]"

subsection \<open>The helpers\<close>

definition byteSizeOfCSI :: "int \<Rightarrow> nat" where
  "byteSizeOfCSI csi =
     (if csi \<ge> 0 then
        if csi < 256 then 1
        else if csi < 65536 then 2
        else if csi < 0x1000000 then 3
        else if csi < 0x100000000 then 4
        else if csi < 0x10000000000 then 5
        else if csi < 0x1000000000000 then 6
        else if csi < 0x100000000000000 then 7
        else 8
      else if csi > -256 then 1
      else if csi > -65536 then 2
      else if csi > -16777216 then 3
      else if csi > -4294967296 then 4
      else if csi > -1099511627776 then 5
      else if csi > -281474976710656 then 6
      else if csi > -72057594037927936 then 7
      else 8)"

text \<open>The digits, the byte size.\<close>

definition pointerToDigitsOf :: "integer_oop \<Rightarrow> digits \<times> nat" where
  "pointerToDigitsOf anInteger =
     (case anInteger of
        LargeInteger neg byteSize ds \<Rightarrow> (ds, byteSize)
      | SmallInteger v \<Rightarrow>
          let mag = of_int (if v < 0 then 0 - v else v) :: 64 word
          in ([ucast (mag AND 0xFFFFFFFF), ucast (drop_bit 32 mag AND 0xFFFFFFFF)], byteSizeOfCSI v))"

definition is_negative :: "integer_oop \<Rightarrow> bool" where
  "is_negative anInteger = (case anInteger of SmallInteger v \<Rightarrow> v < 0 | LargeInteger neg byteSize ds \<Rightarrow> neg)"

definition cHighBit32 :: "32 word \<Rightarrow> nat" where
  "cHighBit32 w =
     (let shifted = w; bitNo = 0;
          (shifted, bitNo) = (if \<not> shifted < push_bit 16 1 then (drop_bit 16 shifted, bitNo + 16) else (shifted, bitNo));
          (shifted, bitNo) = (if \<not> shifted < push_bit 8 1 then (drop_bit 8 shifted, bitNo + 8) else (shifted, bitNo));
          (shifted, bitNo) = (if \<not> shifted < push_bit 4 1 then (drop_bit 4 shifted, bitNo + 4) else (shifted, bitNo));
          (shifted, bitNo) = (if \<not> shifted < push_bit 2 1 then (drop_bit 2 shifted, bitNo + 2) else (shifted, bitNo));
          (shifted, bitNo) = (if \<not> shifted < push_bit 1 1 then (drop_bit 1 shifted, bitNo + 1) else (shifted, bitNo))
      in bitNo + unat shifted)"

fun cDigitHighBit :: "digits \<Rightarrow> nat \<Rightarrow> nat" where
  "cDigitHighBit p 0 = 0"
| "cDigitHighBit p (Suc realLength) =
     (let lastDigit = p ! realLength
      in if lastDigit = 0 then cDigitHighBit p realLength else cHighBit32 lastDigit + 32 * realLength)"

text \<open>\<open>cDigitCopyFrom:to:len:\<close>\<close>

definition cDigitCopy :: "digits \<Rightarrow> digits \<Rightarrow> nat \<Rightarrow> digits option" where
  "cDigitCopy pFrom pTo len =
     (if len \<le> length pFrom \<and> len \<le> length pTo then Some (take len pFrom @ drop len pTo) else None)"

text \<open>The loop of the shift to the left: the digits it stores and the carry behind them.\<close>

fun lshift_loop :: "nat \<Rightarrow> nat \<Rightarrow> digits \<Rightarrow> 32 word \<Rightarrow> digits \<times> 32 word" where
  "lshift_loop bitShift rshift [] carry = ([], carry)"
| "lshift_loop bitShift rshift (digit # pFrom) carry =
     (let (r, c) = lshift_loop bitShift rshift pFrom (ucast (drop_bit rshift (ucast digit :: 64 word)))
      in (ucast ((ucast carry OR push_bit bitShift (ucast digit :: 64 word)) AND 0xFFFFFFFF) # r, c))"

definition cDigitLshift :: "nat \<Rightarrow> digits \<Rightarrow> nat \<Rightarrow> digits \<Rightarrow> nat \<Rightarrow> digits option" where
  "cDigitLshift shiftCount pFrom lenFrom pTo lenTo =
     (let digitShift = shiftCount div 32; bitShift = shiftCount mod 32
      in if digitShift > length pTo then None
         else let pTo = replicate digitShift 0 @ drop digitShift pTo
              in if bitShift = 0
                 then map_option ((@) (take digitShift pTo)) (cDigitCopy pFrom (drop digitShift pTo) (lenTo - digitShift))
                 else if lenFrom > length pFrom \<or> digitShift + lenFrom > length pTo then None
                 else let (r, carry) = lshift_loop bitShift (32 - bitShift) (take lenFrom pFrom) 0;
                          pTo = take digitShift pTo @ r @ drop (digitShift + lenFrom) pTo
                      in if carry = 0 then Some pTo
                         else if lenTo - 1 < length pTo then Some (pTo[lenTo - 1 := carry]) else None)"

fun rshift_loop :: "nat \<Rightarrow> nat \<Rightarrow> digits \<Rightarrow> 32 word \<Rightarrow> digits \<times> 32 word" where
  "rshift_loop bitShift leftShift [] carry = ([], carry)"
| "rshift_loop bitShift leftShift (digit # pFrom) carry =
     (let (r, c) = rshift_loop bitShift leftShift pFrom (ucast (drop_bit bitShift (ucast digit :: 64 word)))
      in (ucast ((ucast carry OR push_bit leftShift (ucast digit :: 64 word)) AND 0xFFFFFFFF) # r, c))"

definition cDigitRshift :: "nat \<Rightarrow> digits \<Rightarrow> nat \<Rightarrow> digits \<Rightarrow> nat \<Rightarrow> digits option" where
  "cDigitRshift shiftCount pFrom lenFrom pTo lenTo =
     (let digitShift = shiftCount div 32; bitShift = shiftCount mod 32
      in if bitShift = 0 then cDigitCopy (drop digitShift pFrom) pTo lenTo
         else if digitShift \<ge> length pFrom \<or> lenFrom > length pFrom then None
         else let carry = ucast (drop_bit bitShift (ucast (pFrom ! digitShift) :: 64 word));
                  start = digitShift + 1;
                  (r, carry) = rshift_loop bitShift (32 - bitShift) (drop start (take lenFrom pFrom)) carry
              in if length r > length pTo then None
                 else let pTo = r @ drop (length r) pTo
                      in if carry = 0 then Some pTo
                         else if lenTo - 1 < length pTo then Some (pTo[lenTo - 1 := carry]) else None)"

subsection \<open>Normalization\<close>

fun significant_digits :: "digits \<Rightarrow> nat \<Rightarrow> nat" where
  "significant_digits p 0 = 0"
| "significant_digits p (Suc n) = (if p ! n = 0 then significant_digits p n else Suc n)"

text \<open>The bytes of \<open>digitLen\<close> digits with the top digit \<open>v\<close>.\<close>

definition significant_bytes :: "nat \<Rightarrow> 64 word \<Rightarrow> nat" where
  "significant_bytes digitLen v =
     (let byteLen = digitLen * 4;
          (byteLen, v) = (if v \<le> 0xFFFF then (byteLen - 2, v) else (byteLen, drop_bit 16 v))
      in if v \<le> 0xFF then byteLen - 1 else byteLen)"

definition normalizedIntegerFrom :: "li_host \<Rightarrow> nat \<Rightarrow> digits \<Rightarrow> nat \<Rightarrow> bool \<Rightarrow> integer_oop prim" where
  "normalizedIntegerFrom h k pDigits len neg =
     (if len > length pDigits then None
      else let digitLen = significant_digits pDigits len
           in if digitLen = 0 then Some (Inr (SmallInteger 0))
              else let v = ucast (pDigits ! (digitLen - 1)) :: 64 word;
                       val2 = (if digitLen > 1 then push_bit 32 v + ucast (pDigits ! 0) else v)
                   in if digitLen \<le> 2 \<and> neg \<and> val2 \<le> of_int (0 - MinSmallInteger)
                      then Some (Inr (SmallInteger (sint (0 - val2))))
                      else if digitLen \<le> 2 \<and> \<not> neg \<and> val2 \<le> of_int MaxSmallInteger
                      then Some (Inr (SmallInteger (sint val2)))
                      else let byteLen = significant_bytes digitLen v
                           in case instantiate h k byteLen of
                                None \<Rightarrow> Some (Inl PrimErrNoMemory)
                              | Some pTo \<Rightarrow> do {
                                  r \<leftarrow> cDigitCopy pDigits pTo digitLen;
                                  Some (Inr (LargeInteger neg byteLen r))
                                })"

definition largeIntgrowTo :: "li_host \<Rightarrow> nat \<Rightarrow> integer_oop \<Rightarrow> nat \<Rightarrow> integer_oop prim" where
  "largeIntgrowTo h k aBytesObject newByteLen =
     (case aBytesObject of
        SmallInteger v \<Rightarrow> None
      | LargeInteger neg byteSize ds \<Rightarrow>
          (case instantiate h k newByteLen of
             None \<Rightarrow> Some (Inl PrimErrNoMemory)
           | Some pTo \<Rightarrow>
               let newDigitLen = (newByteLen + 3) div 4;
                   oldDigitLen = (byteSize + 3) div 4;
                   copyLen = (if oldDigitLen < newDigitLen then oldDigitLen else newDigitLen)
               in do {
                    r \<leftarrow> cDigitCopy ds pTo copyLen;
                    Some (Inr (LargeInteger neg newByteLen r))
                  }))"

text \<open>
  \<open>normalizePositive:\<close> and \<open>normalizeNegative:\<close>, two functions of the code that differ in the bound.
\<close>

definition normalizePositive :: "li_host \<Rightarrow> nat \<Rightarrow> nat \<Rightarrow> digits \<Rightarrow> integer_oop prim" where
  "normalizePositive h k oldByteLen ds =
     (let digitLen = significant_digits ds ((oldByteLen + 3) div 4)
      in if (oldByteLen + 3) div 4 > length ds then None
         else if digitLen = 0 then Some (Inr (SmallInteger 0))
         else let v = ucast (ds ! (digitLen - 1)) :: 64 word;
                  val2 = (if digitLen > 1 then push_bit 32 v + ucast (ds ! 0) else v)
              in if digitLen \<le> 2 \<and> val2 \<le> of_int MaxSmallInteger then Some (Inr (SmallInteger (sint val2)))
                 else let byteLen = significant_bytes digitLen v
                      in if byteLen < oldByteLen then largeIntgrowTo h k (LargeInteger False oldByteLen ds) byteLen
                         else Some (Inr (LargeInteger False oldByteLen ds)))"

definition normalizeNegative :: "li_host \<Rightarrow> nat \<Rightarrow> nat \<Rightarrow> digits \<Rightarrow> integer_oop prim" where
  "normalizeNegative h k oldByteLen ds =
     (let digitLen = significant_digits ds ((oldByteLen + 3) div 4)
      in if (oldByteLen + 3) div 4 > length ds then None
         else if digitLen = 0 then Some (Inr (SmallInteger 0))
         else let v = ucast (ds ! (digitLen - 1)) :: 64 word;
                  minVal = of_int (0 - MinSmallInteger);
                  val2 = (if digitLen > 1 then push_bit 32 v + ucast (ds ! 0) else v)
              in if digitLen \<le> 2 \<and> val2 \<le> minVal then Some (Inr (SmallInteger (sint (0 - val2))))
                 else let byteLen = significant_bytes digitLen v
                      in if byteLen < oldByteLen then largeIntgrowTo h k (LargeInteger True oldByteLen ds) byteLen
                         else Some (Inr (LargeInteger True oldByteLen ds)))"

text \<open>\<open>normalized:digits:len:negative:\<close> of a result in the object \<open>result\<close>, of \<open>n\<close> bytes, or in the buffer.\<close>

definition normalized_result :: "li_host \<Rightarrow> nat \<Rightarrow> bool \<Rightarrow> nat \<Rightarrow> digits \<Rightarrow> nat \<Rightarrow> bool \<Rightarrow> integer_oop prim" where
  "normalized_result h k allocated n pRes len neg =
     (if \<not> allocated then normalizedIntegerFrom h k pRes len neg
      else if neg then normalizeNegative h k n pRes else normalizePositive h k n pRes)"

definition isNormalized :: "nat \<Rightarrow> digits \<Rightarrow> bool" where
  "isNormalized len ds =
     (if len = 0 then False
      else if (ucast (drop_bit (8 * ((len - 1) mod 4)) (ds ! ((len - 1) div 4))) :: 8 word) = 0 then False
      else True)"

subsection \<open>Lengths in bits and bytes\<close>

fun bit_length :: "nat \<Rightarrow> nat" where
  "bit_length n = (if n = 0 then 0 else Suc (bit_length (n div 2)))"

declare bit_length.simps [simp del]

lemma bit_length_le_iff: "bit_length n \<le> k \<longleftrightarrow> n < 2 ^ k"
proof (induction n arbitrary: k rule: bit_length.induct)
  case (1 n)
  show ?case
  proof (cases "n = 0")
    case False
    then show ?thesis
    proof (cases k)
      case (Suc j)
      have "bit_length n \<le> k \<longleftrightarrow> n div 2 < 2 ^ j"
        using False 1 [OF False, of j] Suc by (subst bit_length.simps) simp
      also have "\<dots> \<longleftrightarrow> n < 2 ^ k" unfolding Suc power_Suc by linarith
      finally show ?thesis .
    qed (simp add: bit_length.simps)
  qed (simp add: bit_length.simps)
qed

lemma bit_length_0 [simp]: "bit_length 0 = 0"
  by (simp add: bit_length.simps)

lemma bit_length_eqI:
  assumes "\<And>k. n < 2 ^ k \<longleftrightarrow> b \<le> k"
  shows "bit_length n = b"
  using assms [of b] assms [of "bit_length n"] bit_length_le_iff [of n b] bit_length_le_iff [of n "bit_length n"]
  by auto

lemma less_power_split:
  fixes l h :: nat
  assumes "l < 2 ^ j" "0 < h"
  shows "l + 2 ^ j * h < 2 ^ k \<longleftrightarrow> j \<le> k \<and> h < 2 ^ (k - j)"
proof (cases "j \<le> k")
  case True
  then have k: "(2 :: nat) ^ k = 2 ^ j * 2 ^ (k - j)" by (simp flip: power_add)
  have "l + 2 ^ j * h < 2 ^ j * 2 ^ (k - j) \<longleftrightarrow> h < 2 ^ (k - j)"
  proof
    assume "h < 2 ^ (k - j)"
    then have "2 ^ j * Suc h \<le> 2 ^ j * (2 ^ (k - j) :: nat)" by (intro mult_le_mono2) simp
    then show "l + 2 ^ j * h < 2 ^ j * 2 ^ (k - j)" using assms(1) by simp
  next
    assume "l + 2 ^ j * h < 2 ^ j * 2 ^ (k - j)"
    then have "2 ^ j * h < (2 ^ j * 2 ^ (k - j) :: nat)" by linarith
    then show "h < 2 ^ (k - j)" by simp
  qed
  then show ?thesis using True k by simp
next
  case False
  then have "(2 :: nat) ^ k < 2 ^ j" by simp
  also have "\<dots> \<le> 2 ^ j * h" using assms(2) by simp
  finally show ?thesis using False by simp
qed

lemma bit_length_high:
  assumes "l < 2 ^ j" "0 < h"
  shows "bit_length (l + 2 ^ j * h) = j + bit_length h"
proof (rule bit_length_eqI)
  fix k
  show "l + 2 ^ j * h < 2 ^ k \<longleftrightarrow> j + bit_length h \<le> k"
    unfolding less_power_split [OF assms] bit_length_le_iff [of h, symmetric] by linarith
qed

lemma bit_length_pos: "0 < n \<Longrightarrow> 0 < bit_length n"
  by (subst bit_length.simps) simp

lemma bit_length_drop: "2 ^ j \<le> n \<Longrightarrow> bit_length n = j + bit_length (n div 2 ^ j)"
  using bit_length_high [of "n mod 2 ^ j" j "n div 2 ^ j"] unfolding mod_mult_div_eq div_greater_zero_iff by simp

definition byte_length :: "nat \<Rightarrow> nat" where
  "byte_length n = (bit_length n + 7) div 8"

lemma byte_length_le_iff: "byte_length n \<le> k \<longleftrightarrow> n < 2 ^ (8 * k)"
  unfolding byte_length_def bit_length_le_iff [symmetric] by linarith

lemma digit_length: "(byte_length n + 3) div 4 = (bit_length n + 31) div 32"
proof -
  have "(bit_length n + 7) div 8 + 3 = (bit_length n + 31) div 8" by simp
  then show ?thesis unfolding byte_length_def by (simp only: flip: div_mult2_eq) simp
qed

lemma digit_length_le_iff: "(byte_length n + 3) div 4 \<le> k \<longleftrightarrow> n < 2 ^ (32 * k)"
  unfolding digit_length bit_length_le_iff [symmetric] by linarith

subsection \<open>The helpers\<close>

lemma unat_drop_div: "unat (drop_bit k s) = unat (s :: 'l::len word) div 2 ^ k"
  by (simp only: unat_drop_bit_eq) (simp only: drop_bit_eq_div)

lemma high_bit_step:
  fixes s :: "32 word"
  assumes "k < 32"
  shows "\<not> s < push_bit k 1 \<Longrightarrow> unat (drop_bit k s) = unat s div 2 ^ k \<and> bit_length (unat s) = k + bit_length (unat s div 2 ^ k)"
    and "s < push_bit k 1 \<longleftrightarrow> unat s < 2 ^ k"
proof -
  have p: "unat (push_bit k 1 :: 32 word) = 2 ^ k"
  proof -
    have "(2 :: nat) ^ k < 2 ^ 32" using assms by (intro power_strict_increasing) simp_all
    then show ?thesis using assms unfolding unsigned_push_bit_eq by (simp add: push_bit_eq_mult take_bit_nat_eq_self)
  qed
  show lt: "s < push_bit k 1 \<longleftrightarrow> unat s < 2 ^ k" unfolding word_less_nat_alt p ..
  assume "\<not> s < push_bit k 1"
  then have "2 ^ k \<le> unat s" using lt by simp
  then show "unat (drop_bit k s) = unat s div 2 ^ k \<and> bit_length (unat s) = k + bit_length (unat s div 2 ^ k)"
    using bit_length_drop unfolding unat_drop_div by blast
qed

lemma cHighBit32_val: "cHighBit32 w = bit_length (unat w)"
proof -
  define step :: "nat \<Rightarrow> 32 word \<times> nat \<Rightarrow> 32 word \<times> nat"
    where "step k = (\<lambda>(s, b). if \<not> s < push_bit k 1 then (drop_bit k s, b + k) else (s, b))" for k
  have step: "snd (step k x) + bit_length (unat (fst (step k x))) = snd x + bit_length (unat (fst x))"
      "unat (fst (step k x)) < 2 ^ k"
    if "k < 32" "unat (fst x) < 2 ^ (2 * k)" for k x
  proof -
    obtain s b where x: "x = (s, b)" by fastforce
    have "unat s div 2 ^ k < 2 ^ k"
      using that(2) x by (intro less_mult_imp_div_less) (simp add: mult_2 power_add)
    then show "snd (step k x) + bit_length (unat (fst (step k x))) = snd x + bit_length (unat (fst x))"
        "unat (fst (step k x)) < 2 ^ k"
      using high_bit_step [OF that(1), of s] x by (simp_all add: step_def)
  qed
  define x where "x = step 1 (step 2 (step 4 (step 8 (step 16 (w, 0)))))"
  have w: "unat w < 2 ^ (2 * 16)" using unat_lt [of w] by simp
  note s16 = step [of 16 "(w, 0)"]
  note s8 = step [of 8 "step 16 (w, 0)"]
  note s4 = step [of 4 "step 8 (step 16 (w, 0))"]
  note s2 = step [of 2 "step 4 (step 8 (step 16 (w, 0)))"]
  note s1 = step [of 1 "step 2 (step 4 (step 8 (step 16 (w, 0))))"]
  have "snd x + bit_length (unat (fst x)) = bit_length (unat w)" "unat (fst x) < 2 ^ 1"
    unfolding x_def using s16 s8 s4 s2 s1 w by simp_all
  moreover have "bit_length (unat (fst x)) = unat (fst x)" if "unat (fst x) < 2 ^ 1"
  proof -
    have "unat (fst x) = 0 \<or> unat (fst x) = Suc 0" using that by auto
    then show ?thesis by (auto simp: bit_length.simps [of "Suc 0"])
  qed
  moreover have "cHighBit32 w = snd x + unat (fst x)"
    unfolding x_def cHighBit32_def Let_def step_def case_prod_beta fst_conv snd_conv ..
  ultimately show ?thesis by simp
qed

lemma cDigitHighBit_val: "n \<le> length p \<Longrightarrow> cDigitHighBit p n = bit_length (val (take n p))"
proof (induction n)
  case (Suc n)
  have v: "val (take (Suc n) p) = val (take n p) + 2 ^ (32 * n) * unat (p ! n)"
    using val_take_Suc [of n p] Suc.prems by simp
  show ?case
  proof (cases "p ! n = 0")
    case True
    then show ?thesis using Suc v by simp
  next
    case False
    then have "0 < unat (p ! n)" by (simp add: unat_gt_0)
    moreover have "val (take n p) < 2 ^ (32 * n)" using val_take_lt [of n p] by simp
    ultimately have "bit_length (val (take (Suc n) p)) = 32 * n + bit_length (unat (p ! n))"
      unfolding v by (intro bit_length_high)
    then show ?thesis using False by (simp add: cHighBit32_val)
  qed
qed simp

lemma significant_digits_val:
  fixes p :: digits
  shows
  "n \<le> length p \<Longrightarrow> significant_digits p n \<le> n \<and> val (take (significant_digits p n) p) = val (take n p) \<and>
    (0 < significant_digits p n \<longrightarrow> p ! (significant_digits p n - 1) \<noteq> 0)"
proof (induction n)
  case (Suc n)
  have v: "val (take (Suc n) p) = val (take n p) + 2 ^ (32 * n) * unat (p ! n)"
    using val_take_Suc [of n p] Suc.prems by simp
  show ?case using Suc v by (cases "p ! n = 0") auto
qed simp

lemma top_digit_split:
  fixes p :: digits
  assumes "0 < n" "n \<le> length p" "p ! (n - 1) \<noteq> 0"
  shows "val (take n p) = val (take (n - 1) p) + 2 ^ (32 * (n - 1)) * unat (p ! (n - 1))"
    "bit_length (val (take n p)) = 32 * (n - 1) + bit_length (unat (p ! (n - 1)))"
proof -
  show v: "val (take n p) = val (take (n - 1) p) + 2 ^ (32 * (n - 1)) * unat (p ! (n - 1))"
    using val_take_Suc [of "n - 1" p] assms(1,2) by simp
  have "val (take (n - 1) p) < 2 ^ (32 * (n - 1))" "0 < unat (p ! (n - 1))"
    using val_take_lt [of "n - 1" p] assms by (simp_all add: unat_gt_0)
  then show "bit_length (val (take n p)) = 32 * (n - 1) + bit_length (unat (p ! (n - 1)))"
    unfolding v by (rule bit_length_high)
qed

lemma significant_bytes_val:
  fixes p :: digits
  assumes "0 < n" "n \<le> length p" "p ! (n - 1) \<noteq> 0"
  shows "significant_bytes n (ucast (p ! (n - 1))) = byte_length (val (take n p))"
proof -
  define t where "t = unat (p ! (n - 1))"
  have t: "t < 2 ^ 32" "t \<noteq> 0" using unat_lt [of "p ! (n - 1)"] assms(3) by (simp_all add: t_def unat_eq_zero)
  define b where "b = bit_length t"
  have le: "b \<le> k \<longleftrightarrow> t < 2 ^ k" for k by (simp add: b_def bit_length_le_iff)
  have bounds: "b \<le> 8 \<longleftrightarrow> t < 256" "b \<le> 16 \<longleftrightarrow> t < 65536" "b \<le> 24 \<longleftrightarrow> t < 16777216" "b \<le> 32" "0 < b"
    using le [of 8] le [of 16] le [of 24] le [of 32] t bit_length_pos [of t] by (simp_all add: b_def)
  have tests: "(ucast (p ! (n - 1)) :: 64 word) \<le> 0xFFFF \<longleftrightarrow> t < 65536" "(ucast (p ! (n - 1)) :: 64 word) \<le> 0xFF \<longleftrightarrow> t < 256"
    "drop_bit 16 (ucast (p ! (n - 1)) :: 64 word) \<le> 0xFF \<longleftrightarrow> t < 16777216"
    unfolding word_le_nat_alt unat_drop_div unat_ucast_32_64 t_def [symmetric] by auto
  have sb: "significant_bytes n (ucast (p ! (n - 1))) =
      (if t < 65536 then if t < 256 then n * 4 - 2 - 1 else n * 4 - 2 else if t < 16777216 then n * 4 - 1 else n * 4)"
    unfolding significant_bytes_def Let_def using tests by (simp split: prod.splits)
  obtain m where m: "n = Suc m" using assms(1) by (cases n) auto
  have "byte_length (val (take n p)) = 4 * m + (b + 7) div 8"
    using top_digit_split(2) [OF assms] by (simp add: byte_length_def b_def t_def m)
  moreover have "(if t < 65536 then if t < 256 then n * 4 - 2 - 1 else n * 4 - 2 else if t < 16777216 then n * 4 - 1 else n * 4)
      = 4 * m + (b + 7) div 8"
  proof -
    have "b \<le> 8 \<Longrightarrow> (b + 7) div 8 = 1" "\<not> b \<le> 8 \<Longrightarrow> b \<le> 16 \<Longrightarrow> (b + 7) div 8 = 2"
      "\<not> b \<le> 16 \<Longrightarrow> b \<le> 24 \<Longrightarrow> (b + 7) div 8 = 3" "\<not> b \<le> 24 \<Longrightarrow> (b + 7) div 8 = 4"
      using bounds(4,5) by linarith+
    then show ?thesis unfolding bounds(1-3) by (simp add: m)
  qed
  ultimately show ?thesis unfolding sb by simp
qed

subsection \<open>The normal form\<close>

text \<open>The digits of a magnitude, the normalized integer with a sign, the value of an integer.\<close>

fun digits_of :: "nat \<Rightarrow> digits" where
  "digits_of m = (if m = 0 then [] else of_nat (m mod 2 ^ 32) # digits_of (m div 2 ^ 32))"

declare digits_of.simps [simp del]

definition canonical :: "bool \<Rightarrow> nat \<Rightarrow> integer_oop" where
  "canonical neg m =
     (if neg then if m \<le> 2 ^ 60 then SmallInteger (- int m) else LargeInteger True (byte_length m) (digits_of m)
      else if m < 2 ^ 60 then SmallInteger (int m) else LargeInteger False (byte_length m) (digits_of m))"

definition magnitude :: "integer_oop \<Rightarrow> nat" where
  "magnitude a = (case a of SmallInteger v \<Rightarrow> nat \<bar>v\<bar> | LargeInteger neg n ds \<Rightarrow> val ds)"

definition integer_value :: "integer_oop \<Rightarrow> int" where
  "integer_value a = (if is_negative a then - int (magnitude a) else int (magnitude a))"

text \<open>A SmallInteger in its range; a LargeInteger with whole digits and zeros behind its bytes.\<close>

definition integer_ok :: "integer_oop \<Rightarrow> bool" where
  "integer_ok a = (case a of
     SmallInteger v \<Rightarrow> MinSmallInteger \<le> v \<and> v \<le> MaxSmallInteger
   | LargeInteger neg n ds \<Rightarrow> length ds = (n + 3) div 4 \<and> val ds < 2 ^ (8 * n))"

text \<open>The answer of a primitive that can only run out of memory.\<close>

definition answers :: "li_host \<Rightarrow> 'a prim \<Rightarrow> 'a \<Rightarrow> bool" where
  "answers h r a \<longleftrightarrow> r = Some (Inr a) \<or> r = Some (Inl PrimErrNoMemory) \<and> (\<exists>k n. \<not> instantiates h k n)"

lemma digits_of_val: "val (digits_of m) = m \<and> length (digits_of m) = (byte_length m + 3) div 4"
proof (induction m rule: digits_of.induct)
  case (1 m)
  show ?case
  proof (cases "m = 0")
    case False
    note IH = 1 [OF False]
    have "unat (of_nat (m mod 2 ^ 32) :: 32 word) = m mod 2 ^ 32"
      by (simp only: unat_of_nat) (simp add: take_bit_eq_mod)
    then have "val (digits_of m) = m mod 2 ^ 32 + 2 ^ 32 * (m div 2 ^ 32)"
      using False IH by (subst digits_of.simps) simp
    moreover have "length (digits_of m) = (byte_length m + 3) div 4"
    proof (rule antisym)
      have "Suc ((byte_length (m div 2 ^ 32) + 3) div 4) \<le> Suc (k - 1)" if "m < 2 ^ (32 * k)" for k
      proof (cases k)
        case (Suc j)
        have "m < 2 ^ 32 * 2 ^ (32 * j)" using that by (simp add: Suc power_add)
        then have "m div 2 ^ 32 < 2 ^ (32 * j)" by (simp add: less_mult_imp_div_less mult.commute)
        then show ?thesis using digit_length_le_iff [of "m div 2 ^ 32" j] by (simp add: Suc)
      qed (use that False in simp)
      note this [of "(byte_length m + 3) div 4"]
      moreover have "m < 2 ^ (32 * ((byte_length m + 3) div 4))" using digit_length_le_iff [of m] by blast
      moreover have "0 < (byte_length m + 3) div 4" using digit_length_le_iff [of m 0] False by (simp add: not_le)
      ultimately show "length (digits_of m) \<le> (byte_length m + 3) div 4"
        using IH False by (subst digits_of.simps) simp
      have "m < 2 ^ (32 * length (digits_of m))"
        using val_lt [of "digits_of m"] \<open>val (digits_of m) = m mod 2 ^ 32 + 2 ^ 32 * (m div 2 ^ 32)\<close> by simp
      then show "(byte_length m + 3) div 4 \<le> length (digits_of m)" by (simp only: digit_length_le_iff)
    qed
    ultimately show ?thesis by simp
  qed (simp add: digits_of.simps byte_length_def)
qed

lemma digits_of_eqI: "length ds = (byte_length (val ds) + 3) div 4 \<Longrightarrow> digits_of (val ds) = ds"
  using digits_of_val [of "val ds"] by (intro val_inj) simp_all

lemma sint_small:
  assumes "unat (w :: 64 word) \<le> 2 ^ 60"
  shows "sint w = int (unat w)" "sint (0 - w) = - int (unat w)"
proof -
  have s: "sint (of_int i :: 64 word) = i" if "- (2 ^ 63) \<le> i" "i < 2 ^ 63" for i
    using that by (simp add: sint_sbintrunc' signed_take_bit_int_eq_self)
  define i where "i = int (unat w)"
  have i: "0 \<le> i" "i \<le> 2 ^ 60"
    using assms of_nat_le_iff [of "unat w" "2 ^ 60", where 'a = int] unfolding i_def by (simp_all only: of_nat_power of_nat_numeral of_nat_0_le_iff)
  have w: "w = of_int i" "0 - w = of_int (- i)" by (simp_all add: i_def)
  have "sint (of_int i :: 64 word) = i" "sint (of_int (- i) :: 64 word) = - i" using i by (intro s; simp)+
  then show "sint w = int (unat w)" "sint (0 - w) = - int (unat w)" unfolding i_def [symmetric] using w by simp_all
qed

lemma two_digits_val:
  fixes p :: digits
  assumes "0 < n" "n \<le> 2" "n \<le> length p"
  shows "unat (if n > 1 then push_bit 32 (ucast (p ! (n - 1))) + ucast (p ! 0) else ucast (p ! (n - 1)) :: 64 word)
    = val (take n p)"
proof -
  consider "n = 1" | "n = 2" using assms(1,2) by linarith
  then show ?thesis
  proof cases
    case 1
    then have "take n p = [p ! 0]" using assms(3) by (cases p) simp_all
    then show ?thesis using 1 by (simp add: unat_ucast_32_64)
  next
    case 2
    then have t: "take n p = [p ! 0, p ! 1]" using assms(3) by (cases p; cases "tl p") simp_all
    have "unat (p ! 0) < 2 ^ 32" "unat (p ! 1) < 2 ^ 32" using unat_lt [of "p ! 0"] unat_lt [of "p ! 1"] by simp_all
    then have "unat (push_bit 32 (ucast (p ! 1)) + ucast (p ! 0) :: 64 word) = 2 ^ 32 * unat (p ! 1) + unat (p ! 0)"
      by (subst unat_word_ariths) (simp only: unat_push_32 unat_ucast_32_64, simp)
    then show ?thesis using 2 t by simp
  qed
qed

lemma canonical_0 [simp]: "canonical neg 0 = SmallInteger 0"
  by (simp add: canonical_def)

lemma two_digits_small:
  fixes p :: digits
  assumes "0 < n" "n \<le> length p" "p ! (n - 1) \<noteq> 0" "\<not> n \<le> 2"
  shows "\<not> val (take n p) \<le> 2 ^ 60"
proof -
  have "2 ^ 64 \<le> (2 :: nat) ^ (32 * (n - 1)) * unat (p ! (n - 1))"
  proof -
    have "64 \<le> 32 * (n - 1)" using assms(4) by simp
    then have "(2 :: nat) ^ 64 \<le> 2 ^ (32 * (n - 1))" by (intro power_increasing) simp_all
    then show ?thesis using assms(3) by (metis mult_le_mono mult_1_right Suc_leI unat_gt_0 One_nat_def)
  qed
  then have "2 ^ 64 \<le> val (take n p)" using top_digit_split(1) [OF assms(1-3)] by linarith
  then show ?thesis by simp
qed

text \<open>Both ways to a normalized integer: a copy of the digits, and a shorter copy of an object.\<close>

lemma instantiate_cases:
  obtains "instantiate h k n = None" "\<exists>k n. \<not> instantiates h k n"
  | "instantiate h k n = Some (replicate ((n + 3) div 4) 0)"
  by (cases "instantiates h k n") (auto simp: instantiate_def)

lemma significant_length:
  fixes p :: digits
  assumes "0 < n" "n \<le> length p" "p ! (n - 1) \<noteq> 0"
  shows "(byte_length (val (take n p)) + 3) div 4 = n"
proof -
  have "0 < bit_length (unat (p ! (n - 1)))" "bit_length (unat (p ! (n - 1))) \<le> 32"
    using assms(3) unat_lt [of "p ! (n - 1)"] by (simp_all add: bit_length_pos unat_gt_0 bit_length_le_iff)
  then show ?thesis using top_digit_split(2) [OF assms] assms(1) unfolding digit_length by simp
qed

lemma digits_of_take:
  fixes p :: digits
  assumes "0 < n" "n \<le> length p" "p ! (n - 1) \<noteq> 0"
  shows "digits_of (val (take n p)) = take n p"
  by (rule digits_of_eqI) (use significant_length [OF assms] assms(2) in simp)

definition is_small :: "bool \<Rightarrow> nat \<Rightarrow> bool" where
  "is_small neg m = (if neg then m \<le> 2 ^ 60 else m < 2 ^ 60)"

lemma canonical_cases:
  "is_small True m \<Longrightarrow> canonical True m = SmallInteger (- int m)"
  "is_small False m \<Longrightarrow> canonical False m = SmallInteger (int m)"
  "\<not> is_small neg m \<Longrightarrow> canonical neg m = LargeInteger neg (byte_length m) (digits_of m)"
  by (cases neg; simp add: canonical_def is_small_def)+

lemma small_tests:
  fixes p :: digits and v :: "64 word"
  assumes "0 < n" "n \<le> length p" "p ! (n - 1) \<noteq> 0"
  defines "v \<equiv> if n > 1 then push_bit 32 (ucast (p ! (n - 1))) + ucast (p ! 0) else ucast (p ! (n - 1))"
  shows "n \<le> 2 \<and> v \<le> of_int (0 - MinSmallInteger) \<longleftrightarrow> is_small True (val (take n p))"
    "n \<le> 2 \<and> v \<le> of_int MaxSmallInteger \<longleftrightarrow> is_small False (val (take n p))"
    "is_small True (val (take n p)) \<Longrightarrow> SmallInteger (sint (0 - v)) = canonical True (val (take n p))"
    "is_small False (val (take n p)) \<Longrightarrow> SmallInteger (sint v) = canonical False (val (take n p))"
proof -
  have v: "unat v = val (take n p)" if "n \<le> 2" unfolding v_def using that by (rule two_digits_val [OF assms(1) _ assms(2)])
  note big = two_digits_small [OF assms(1-3)]
  have le: "v \<le> of_int (0 - MinSmallInteger) \<longleftrightarrow> unat v \<le> 2 ^ 60" "v \<le> of_int MaxSmallInteger \<longleftrightarrow> unat v < 2 ^ 60"
    unfolding word_le_nat_alt by auto
  show t: "n \<le> 2 \<and> v \<le> of_int (0 - MinSmallInteger) \<longleftrightarrow> is_small True (val (take n p))"
    "n \<le> 2 \<and> v \<le> of_int MaxSmallInteger \<longleftrightarrow> is_small False (val (take n p))"
    unfolding le is_small_def using v big by (cases "n \<le> 2"; auto)+
  show "is_small True (val (take n p)) \<Longrightarrow> SmallInteger (sint (0 - v)) = canonical True (val (take n p))"
    "is_small False (val (take n p)) \<Longrightarrow> SmallInteger (sint v) = canonical False (val (take n p))"
    using t v sint_small [of v] by (auto simp: canonical_cases is_small_def)
qed

lemma normalizedIntegerFrom_canonical:
  assumes "len \<le> length p"
  shows "answers h (normalizedIntegerFrom h k p len neg) (canonical neg (val (take len p)))"
proof -
  define n where "n = significant_digits p len"
  have n: "n \<le> length p" "val (take n p) = val (take len p)" "0 < n \<Longrightarrow> p ! (n - 1) \<noteq> 0"
    using significant_digits_val [OF assms] assms by (auto simp: n_def)
  show ?thesis
  proof (cases "n = 0")
    case True
    then have "val (take len p) = 0" using n(2) by simp
    then show ?thesis using True assms by (simp add: normalizedIntegerFrom_def answers_def flip: n_def)
  next
    case False
    then have pos: "0 < n" by simp
    note nz = n(3) [OF pos]
    note tests = small_tests [OF pos n(1) nz]
    show ?thesis
    proof (cases "is_small neg (val (take n p))")
      case True
      then show ?thesis
        using assms pos tests
        by (cases neg) (simp_all only: normalizedIntegerFrom_def answers_def n_def [symmetric] n(2) [symmetric] Let_def, auto)
    next
      case nsm: False
      have r: "normalizedIntegerFrom h k p len neg = (case instantiate h k (byte_length (val (take n p))) of
          None \<Rightarrow> Some (Inl PrimErrNoMemory)
        | Some pTo \<Rightarrow> do { r \<leftarrow> cDigitCopy p pTo n; Some (Inr (LargeInteger neg (byte_length (val (take n p))) r)) })"
        using assms pos tests nsm significant_bytes_val [OF pos n(1) nz]
        by (cases neg) (simp_all only: normalizedIntegerFrom_def n_def [symmetric] Let_def, auto)
      show ?thesis
        by (rule instantiate_cases [of h k "byte_length (val (take n p))"])
          (auto simp: r answers_def canonical_cases nsm significant_length [OF pos n(1) nz] digits_of_take [OF pos n(1) nz]
            cDigitCopy_def n(1) simp flip: n(2))
    qed
  qed
qed

lemma largeIntgrowTo_canonical:
  fixes ds :: digits
  assumes "length ds = (n + 3) div 4" "byte_length (val ds) < n" "\<not> is_small neg (val ds)"
  shows "answers h (largeIntgrowTo h k (LargeInteger neg n ds) (byte_length (val ds))) (canonical neg (val ds))"
proof -
  define m where "m = (byte_length (val ds) + 3) div 4"
  have m: "m \<le> length ds" using assms(1,2) by (simp add: m_def)
  have v: "val (take m ds) = val ds"
  proof -
    have "val ds < 2 ^ (32 * m)" using digit_length_le_iff [of "val ds" m] by (simp add: m_def)
    then show ?thesis by (simp add: val_take)
  qed
  have "digits_of (val ds) = take m ds"
    using digits_of_eqI [of "take m ds"] v m by (simp add: m_def)
  moreover have "(if (n + 3) div 4 < m then (n + 3) div 4 else m) = m" using m assms(1) by simp
  ultimately show ?thesis
    by (rule_tac instantiate_cases [of h k "byte_length (val ds)"])
      (simp_all add: largeIntgrowTo_def answers_def canonical_cases(3) [OF assms(3)] cDigitCopy_def m Let_def flip: m_def)
qed

lemma normalize_canonical:
  fixes ds :: digits
  assumes "integer_ok (LargeInteger neg n ds)"
  shows "answers h (if neg then normalizeNegative h k n ds else normalizePositive h k n ds) (canonical neg (val ds))"
proof -
  have len: "length ds = (n + 3) div 4" and lt: "val ds < 2 ^ (8 * n)" using assms by (simp_all add: integer_ok_def)
  define d where "d = significant_digits ds ((n + 3) div 4)"
  have d: "d \<le> length ds" "val (take d ds) = val ds" "0 < d \<Longrightarrow> ds ! (d - 1) \<noteq> 0"
    using significant_digits_val [of "(n + 3) div 4" ds] len by (auto simp: d_def)
  show ?thesis
  proof (cases "d = 0")
    case True
    then have "val ds = 0" using d(2) by simp
    then show ?thesis
      using True len by (simp add: normalizeNegative_def normalizePositive_def answers_def flip: d_def)
  next
    case False
    then have pos: "0 < d" by simp
    note nz = d(3) [OF pos]
    note tests = small_tests [OF pos d(1) nz, unfolded d(2)] and bytes = significant_bytes_val [OF pos d(1) nz, unfolded d(2)]
    show ?thesis
    proof (cases "is_small neg (val ds)")
      case True
      then show ?thesis
        using len pos tests
        by (cases neg) (simp_all only: normalizeNegative_def normalizePositive_def answers_def d_def [symmetric] Let_def, auto)
    next
      case nsm: False
      have r: "(if neg then normalizeNegative h k n ds else normalizePositive h k n ds) =
          (if byte_length (val ds) < n then largeIntgrowTo h k (LargeInteger neg n ds) (byte_length (val ds))
           else Some (Inr (LargeInteger neg n ds)))"
        using len pos tests nsm bytes
        by (cases neg) (simp_all only: normalizeNegative_def normalizePositive_def d_def [symmetric] Let_def, auto)
      show ?thesis
      proof (cases "byte_length (val ds) < n")
        case True
        then show ?thesis using largeIntgrowTo_canonical [OF len True nsm] by (simp only: r if_True)
      next
        case False
        then have "byte_length (val ds) = n" using lt byte_length_le_iff [of "val ds" n] by simp
        then show ?thesis
          using digits_of_eqI [of ds] len by (simp add: r answers_def canonical_cases(3) [OF nsm])
      qed
    qed
  qed
qed

lemma normalized_result_canonical:
  fixes ds :: digits
  assumes "if allocated then length ds = (n + 3) div 4 \<and> len = length ds \<and> val ds < 2 ^ (8 * n) else len \<le> length ds"
  shows "answers h (normalized_result h k allocated n ds len neg) (canonical neg (val (take len ds)))"
  using assms normalize_canonical [of neg n ds h k] normalizedIntegerFrom_canonical [of len ds h k neg]
  by (cases allocated) (simp_all add: normalized_result_def integer_ok_def)

subsection \<open>Integers and their normal form\<close>

lemma canonical_value: "integer_value (canonical neg m) = (if neg then - int m else int m)"
  by (simp add: integer_value_def canonical_def is_negative_def magnitude_def digits_of_val)

lemma canonical_ok: "integer_ok (canonical neg m)"
proof -
  have "int m \<le> 1152921504606846976" if "m \<le> 1152921504606846976" using that by linarith
  moreover have "int m \<le> 1152921504606846975" if "m < 1152921504606846976" using that by linarith
  moreover have "m < 2 ^ (8 * byte_length m)" using byte_length_le_iff [of m] by blast
  ultimately show ?thesis
    by (simp add: integer_ok_def canonical_def digits_of_val)
qed

text \<open>The integers of an image: SmallIntegers, and LargeIntegers outside their range without a leading zero byte.\<close>

definition normalized_integer :: "integer_oop \<Rightarrow> bool" where
  "normalized_integer a \<longleftrightarrow> a = canonical (is_negative a) (magnitude a)"

lemma normalized_small: "normalized_integer (SmallInteger v) \<longleftrightarrow> MinSmallInteger \<le> v \<and> v \<le> MaxSmallInteger"
  unfolding normalized_integer_def is_negative_def magnitude_def canonical_def by auto

lemma normalized_canonical: "normalized_integer (canonical neg m)"
proof (cases "is_small neg m")
  case True
  then show ?thesis using canonical_ok [of neg m] normalized_small
    by (cases neg) (simp_all add: canonical_cases integer_ok_def)
next
  case False
  then show ?thesis
    by (simp add: canonical_cases(3) normalized_integer_def is_negative_def magnitude_def digits_of_val)
qed

lemma integer_value_inject:
  assumes "normalized_integer a" "normalized_integer b" "integer_value a = integer_value b"
  shows "a = b"
proof -
  have z: "magnitude a = magnitude b" "is_negative a = is_negative b \<or> magnitude a = 0"
    using assms(3) by (auto simp: integer_value_def split: if_splits)
  have "a = canonical (is_negative a) (magnitude a)" "b = canonical (is_negative b) (magnitude b)"
    using assms(1,2) by (simp_all add: normalized_integer_def)
  then have e: "a = canonical (is_negative a) (magnitude a)" "b = canonical (is_negative b) (magnitude a)"
    using z(1) by (simp_all only:)
  show ?thesis using z(2)
  proof
    assume "is_negative a = is_negative b"
    then show ?thesis using e by simp
  next
    assume "magnitude a = 0"
    then show ?thesis using e by simp
  qed
qed

text \<open>An integer is normalized when it is a whole object, its top byte is not zero and no SmallInteger has its value.\<close>

lemma byte_of_digit:
  fixes d :: "32 word"
  assumes "j < 4"
  shows "unat (ucast (drop_bit (8 * j) d) :: 8 word) = unat d div 2 ^ (8 * j) mod 256"
  by (simp only: unsigned_ucast_eq unat_drop_div) (simp add: take_bit_eq_mod)

lemma isNormalized_iff:
  fixes ds :: digits
  assumes "integer_ok (LargeInteger neg n ds)"
  shows "isNormalized n ds \<longleftrightarrow> 0 < n \<and> byte_length (val ds) = n"
proof (cases n)
  case (Suc m)
  have len: "length ds = (n + 3) div 4" and lt: "val ds < 2 ^ (8 * n)" using assms by (simp_all add: integer_ok_def)
  define i where "i = m div 4"
  define j where "j = m mod 4"
  have m: "m = 4 * i + j" "j < 4" by (simp_all add: i_def j_def)
  have il: "length ds = Suc i" using len m by (simp add: Suc)
  have split: "val ds = val (take i ds) + 2 ^ (32 * i) * unat (ds ! i)"
    using val_take_Suc [of i ds] il by simp
  have low: "val (take i ds) < 2 ^ (32 * i)" using val_take_lt [of i ds] by simp
  have "2 ^ (32 * i) * unat (ds ! i) < 2 ^ (32 * i) * (2 :: nat) ^ (8 * Suc j)"
    using lt unfolding split Suc m(1) by (simp flip: power_add add: algebra_simps)
  then have top: "unat (ds ! i) < 2 ^ (8 * j) * 256" by (simp add: power_add)
  then have b: "unat (ucast (drop_bit (8 * j) (ds ! i)) :: 8 word) = unat (ds ! i) div 2 ^ (8 * j)"
    unfolding byte_of_digit [OF m(2)] by (simp add: less_mult_imp_div_less mult.commute)
  have "isNormalized n ds \<longleftrightarrow> unat (ds ! i) div 2 ^ (8 * j) \<noteq> 0"
    using b unfolding isNormalized_def i_def j_def Suc by (simp add: unat_eq_zero [symmetric])
  also have "\<dots> \<longleftrightarrow> \<not> val ds < 2 ^ (8 * m)"
  proof -
    have "unat (ds ! i) div 2 ^ (8 * j) \<noteq> 0 \<longleftrightarrow> \<not> unat (ds ! i) < 2 ^ (8 * j)" by (simp add: div_eq_0_iff)
    also have "\<dots> \<longleftrightarrow> \<not> val ds < 2 ^ (8 * m)"
      using less_power_split [OF low, of "unat (ds ! i)" "8 * m"] low unfolding split m(1)
      by (cases "unat (ds ! i) = 0") (simp_all add: power_add less_le_trans)
    finally show ?thesis .
  qed
  finally show ?thesis
    using byte_length_le_iff [of "val ds" m] byte_length_le_iff [of "val ds" n] lt Suc by auto
qed (simp add: isNormalized_def)

subsection \<open>The digits of an operand\<close>

lemma byteSizeOfCSI_val:
  assumes "\<bar>v\<bar> < 2 ^ 64"
  shows "byteSizeOfCSI v = max 1 (byte_length (nat \<bar>v\<bar>))"
proof -
  define m where "m = nat \<bar>v\<bar>"
  define b where "b = byte_length m"
  have "m < 2 ^ 64" using assms by (simp add: m_def)
  then have le: "b \<le> 1 \<longleftrightarrow> m < 256" "b \<le> 2 \<longleftrightarrow> m < 65536" "b \<le> 3 \<longleftrightarrow> m < 16777216" "b \<le> 4 \<longleftrightarrow> m < 4294967296"
    "b \<le> 5 \<longleftrightarrow> m < 1099511627776" "b \<le> 6 \<longleftrightarrow> m < 281474976710656" "b \<le> 7 \<longleftrightarrow> m < 72057594037927936" "b \<le> 8"
    by (simp_all add: b_def byte_length_le_iff)
  have "byteSizeOfCSI v = (if m < 256 then 1 else if m < 65536 then 2 else if m < 16777216 then 3 else if m < 4294967296 then 4
      else if m < 1099511627776 then 5 else if m < 281474976710656 then 6 else if m < 72057594037927936 then 7 else 8)"
  proof -
    have "v = int m \<or> v = - int m" unfolding m_def by linarith
    then show ?thesis by (auto simp: byteSizeOfCSI_def)
  qed
  also have "\<dots> = max 1 b" unfolding le(1-7) [symmetric] using le(8) by auto
  finally show ?thesis by (simp add: b_def m_def)
qed

lemma unat_lo_hi_digits:
  fixes w :: "64 word"
  shows "unat (ucast (w AND 0xFFFFFFFF) :: 32 word) + 2 ^ 32 * unat (ucast (drop_bit 32 w AND 0xFFFFFFFF) :: 32 word) = unat w"
  unfolding unat_mask_32 unat_drop_div
  using unat_lt [of w] less_mult_imp_div_less [of "unat w" "2 ^ 32" "2 ^ 32"] by simp

lemma or_low_bits: "c < 2 ^ b \<Longrightarrow> c OR 2 ^ b * d = c + 2 ^ b * (d :: nat)"
proof -
  assume "c < 2 ^ b"
  then have c: "take_bit b (int c) = int c" by (simp add: take_bit_int_eq_self)
  have "take_bit b (int c) + push_bit b (int d) = take_bit b (int c) OR push_bit b (int d)"
    by (rule disjunctive_add) (simp add: bit_take_bit_iff bit_push_bit_iff)
  then have "int (c OR 2 ^ b * d) = int (c + 2 ^ b * d)"
    unfolding c by (simp add: of_nat_or_eq push_bit_eq_mult mult.commute)
  then show ?thesis by (simp only: of_nat_eq_iff)
qed

text \<open>What a primitive relies on: enough digits, with the magnitude as their value.\<close>

lemma pointerToDigitsOf_val:
  assumes "integer_ok a" "pointerToDigitsOf a = (p, n)"
  shows "(n + 3) div 4 \<le> length p" "val (take ((n + 3) div 4) p) = magnitude a" "magnitude a < 2 ^ (8 * n)"
proof -
  have "(n + 3) div 4 \<le> length p \<and> val (take ((n + 3) div 4) p) = magnitude a \<and> magnitude a < 2 ^ (8 * n)"
  proof (cases a)
    case (SmallInteger v)
    then have "MinSmallInteger \<le> v" "v \<le> MaxSmallInteger" using assms(1) by (simp_all add: integer_ok_def)
    then have b: "\<bar>v\<bar> \<le> 1152921504606846976" by linarith
    define w :: "64 word" where "w = of_int \<bar>v\<bar>"
    have "uint w = \<bar>v\<bar>" using b by (simp add: w_def take_bit_int_eq_self unsigned_of_int)
    then have w: "unat w = nat \<bar>v\<bar>" by (simp add: unat_eq_nat_uint)
    have p: "p = [ucast (w AND 0xFFFFFFFF), ucast (drop_bit 32 w AND 0xFFFFFFFF)]" and n: "n = byteSizeOfCSI v"
      using assms(2) SmallInteger by (simp_all add: pointerToDigitsOf_def Let_def w_def abs_if split: if_splits)
    have vp: "val p = nat \<bar>v\<bar>"
      using unat_lo_hi_digits [of w] unfolding p w by simp
    have n': "n = max 1 (byte_length (nat \<bar>v\<bar>))" unfolding n by (rule byteSizeOfCSI_val) (use b in simp)
    have lt: "nat \<bar>v\<bar> < 2 ^ (8 * n)" using n' unfolding byte_length_le_iff [symmetric] by simp
    have "nat \<bar>v\<bar> < 2 ^ (8 * 8)" using b by simp
    then have "byte_length (nat \<bar>v\<bar>) \<le> 8" unfolding byte_length_le_iff .
    then have "(n + 3) div 4 \<le> length p" using n' unfolding p by simp
    moreover have "nat \<bar>v\<bar> < 2 ^ (32 * ((n + 3) div 4))"
    proof -
      have "(2 :: nat) ^ (8 * n) \<le> 2 ^ (32 * ((n + 3) div 4))" by (intro power_increasing) simp_all
      then show ?thesis using lt by (rule less_le_trans [rotated])
    qed
    then have "val (take ((n + 3) div 4) p) = nat \<bar>v\<bar>" unfolding val_take vp by (simp only: len_num0 len_bit0 len_num1) simp
    ultimately show ?thesis using SmallInteger lt unfolding magnitude_def by simp
  next
    case (LargeInteger neg k ds)
    then show ?thesis using assms by (simp add: integer_ok_def pointerToDigitsOf_def magnitude_def)
  qed
  then show "(n + 3) div 4 \<le> length p" "val (take ((n + 3) div 4) p) = magnitude a" "magnitude a < 2 ^ (8 * n)" by blast+
qed

subsection \<open>Shifts\<close>

lemma rshift_is_lshift: "rshift_loop b l p carry = lshift_loop l b p carry"
  by (induction b l p carry rule: rshift_loop.induct) (simp_all add: Let_def)

lemma shifted_digit:
  fixes d c :: "32 word"
  assumes "0 < b" "b < 32" "unat c < 2 ^ b"
  shows "unat (ucast ((ucast c OR push_bit b (ucast d :: 64 word)) AND 0xFFFFFFFF) :: 32 word)
      + 2 ^ 32 * unat (ucast (drop_bit (32 - b) (ucast d :: 64 word)) :: 32 word) = 2 ^ b * unat d + unat c"
    and "unat (ucast (drop_bit (32 - b) (ucast d :: 64 word)) :: 32 word) < 2 ^ b"
proof -
  have d: "unat d < 2 ^ 32" using unat_lt [of d] by simp
  have pw: "(2 :: nat) ^ 32 = 2 ^ b * 2 ^ (32 - b)" using assms(2) by (simp flip: power_add)
  have q: "unat d div 2 ^ (32 - b) < 2 ^ b" using d pw by (simp add: less_mult_imp_div_less)
  moreover have "(2 :: nat) ^ b < 2 ^ 32" using assms(2) by (intro power_strict_increasing) simp_all
  ultimately have h: "unat (ucast (drop_bit (32 - b) (ucast d :: 64 word)) :: 32 word) = unat d div 2 ^ (32 - b)"
    by (simp only: unat_low_32 unat_drop_div unat_ucast_32_64) simp
  then show "unat (ucast (drop_bit (32 - b) (ucast d :: 64 word)) :: 32 word) < 2 ^ b" using q by simp
  have s: "unat (push_bit b (ucast d :: 64 word)) = 2 ^ b * unat d"
  proof -
    have "2 ^ b * unat d < 2 ^ 32 * 2 ^ 32"
      using d \<open>(2 :: nat) ^ b < 2 ^ 32\<close> by (intro mult_strict_mono) simp_all
    then have "take_bit 64 (push_bit b (unat d)) = 2 ^ b * unat d"
      by (simp add: push_bit_eq_mult take_bit_nat_eq_self mult.commute)
    moreover have "unat (push_bit b (ucast d :: 64 word)) = take_bit LENGTH(64) (push_bit b (unat (ucast d :: 64 word)))"
      by (rule unsigned_push_bit_eq)
    ultimately show ?thesis unfolding unat_ucast_32_64 by simp
  qed
  have "unat (ucast c OR push_bit b (ucast d :: 64 word)) = unat c + 2 ^ b * unat d"
    using or_low_bits [of "unat c" b "unat d"] assms(3)
    by (simp only: unsigned_or_eq s unat_ucast_32_64)
  then have "unat (ucast ((ucast c OR push_bit b (ucast d :: 64 word)) AND 0xFFFFFFFF) :: 32 word) = (unat c + 2 ^ b * unat d) mod 2 ^ 32"
    by (simp only: unat_mask_32)
  moreover have "(unat c + 2 ^ b * unat d) mod 2 ^ 32 + 2 ^ 32 * (unat d div 2 ^ (32 - b)) = unat c + 2 ^ b * unat d"
  proof -
    have "2 ^ b * unat d = 2 ^ b * (unat d mod 2 ^ (32 - b)) + 2 ^ 32 * (unat d div 2 ^ (32 - b))"
      unfolding pw by (simp only: mult.assoc mod_mult_div_eq flip: distrib_left)
    moreover have "unat c + 2 ^ b * (unat d mod 2 ^ (32 - b)) < 2 ^ 32"
    proof -
      have "2 ^ b * Suc (unat d mod 2 ^ (32 - b)) \<le> 2 ^ b * (2 ^ (32 - b) :: nat)" by (intro mult_le_mono2) (simp add: Suc_le_eq)
      then show ?thesis unfolding pw using assms(3) by simp
    qed
    ultimately show ?thesis by (simp only: add.assoc [symmetric] mod_mult_self2 mod_less)
  qed
  ultimately show "unat (ucast ((ucast c OR push_bit b (ucast d :: 64 word)) AND 0xFFFFFFFF) :: 32 word)
      + 2 ^ 32 * unat (ucast (drop_bit (32 - b) (ucast d :: 64 word)) :: 32 word) = 2 ^ b * unat d + unat c"
    unfolding h by simp
qed

lemma lshift_loop_val:
  assumes "0 < b" "b < 32" "unat carry < 2 ^ b" "lshift_loop b (32 - b) p carry = (r, c)"
  shows "length r = length p \<and> val r + 2 ^ (32 * length p) * unat c = 2 ^ b * val p + unat carry \<and> unat c < 2 ^ b"
  using assms(3,4)
proof (induction p arbitrary: carry r)
  case (Cons d p)
  define c1 :: "32 word" where "c1 = ucast (drop_bit (32 - b) (ucast d :: 64 word))"
  note sd = shifted_digit [OF assms(1,2) Cons.prems(1), of d, folded c1_def]
  obtain r1 where r1: "lshift_loop b (32 - b) p c1 = (r1, c)"
    "r = ucast ((ucast carry OR push_bit b (ucast d :: 64 word)) AND 0xFFFFFFFF) # r1"
    using Cons.prems(2) by (auto simp: c1_def split: prod.splits)
  have IH: "length r1 = length p" "val r1 + 2 ^ (32 * length p) * unat c = 2 ^ b * val p + unat c1" "unat c < 2 ^ b"
    using Cons.IH [OF sd(2) r1(1)] by simp_all
  define x where "x = unat (ucast ((ucast carry OR push_bit b (ucast d :: 64 word)) AND 0xFFFFFFFF) :: 32 word)"
  have "val r + 2 ^ (32 * length (d # p)) * unat c = x + 2 ^ 32 * (val r1 + 2 ^ (32 * length p) * unat c)"
    unfolding r1(2) val_32 pow_32_Suc x_def [symmetric] by (simp only: distrib_left mult.assoc add.assoc)
  also have "\<dots> = 2 ^ b * unat d + unat carry + 2 ^ 32 * (2 ^ b * val p)"
    unfolding IH(2) using sd(1) unfolding x_def by (simp only: distrib_left)
  also have "\<dots> = 2 ^ b * val (d # p) + unat carry" unfolding val_32 distrib_left by (simp only: ac_simps)
  finally show ?case using IH r1(2) by simp
qed simp

lemma val_take_32: "val (take n (p :: digits)) = val p mod 2 ^ (32 * n)"
  using val_take [of n p] by simp

lemma val_drop_32: "n \<le> length p \<Longrightarrow> val (drop n (p :: digits)) = val p div 2 ^ (32 * n)"
  using val_drop [of n p] by simp

lemma val_lt_32: "val (p :: digits) < 2 ^ (32 * length p)"
  using val_lt [of p] by simp

lemma val_zero_prefix: "val (replicate n 0 @ p) = 2 ^ (32 * n) * val (p :: digits)"
  by (simp add: val_append)

lemma val_put_top: "val (p @ [c]) = val p + 2 ^ (32 * length p) * unat (c :: 32 word)"
  by (simp add: val_append)

lemma cDigitLshift_val:
  fixes p pTo :: digits
  assumes "lenFrom \<le> length p" "length pTo = lenTo" "s div 32 + lenFrom \<le> lenTo" "lenTo \<le> s div 32 + lenFrom + 1"
    and "val (drop (s div 32 + lenFrom) pTo) = 0" "s mod 32 = 0 \<Longrightarrow> lenTo = s div 32 + lenFrom"
    and fits: "val (take lenFrom p) * 2 ^ s < 2 ^ (32 * lenTo)"
  shows "\<exists>r. cDigitLshift s p lenFrom pTo lenTo = Some r \<and> length r = lenTo \<and> val r = val (take lenFrom p) * 2 ^ s"
proof -
  define k where "k = s div 32"
  define b where "b = s mod 32"
  have s: "(2 :: nat) ^ s = 2 ^ (32 * k) * 2 ^ b" by (simp add: k_def b_def flip: power_add)
  note a = assms(3-6)[folded k_def b_def]
  have k: "\<not> k > length pTo" using a(1) assms(2) by simp
  define z where "z = replicate k 0 @ drop k pTo"
  have z: "length z = lenTo" "take k z = replicate k 0" "drop k z = drop k pTo" "drop (k + lenFrom) z = drop (k + lenFrom) pTo"
    using a(1) assms(2) by (simp_all add: z_def add.commute)
  show ?thesis
  proof (cases "b = 0")
    case True
    have "lenTo - k = lenFrom" using a(4) True by simp
    moreover have "cDigitCopy p (drop k z) lenFrom = Some (take lenFrom p)"
      using assms(1,2) a(4) True z by (simp add: cDigitCopy_def)
    ultimately have "cDigitLshift s p lenFrom pTo lenTo = Some (replicate k 0 @ take lenFrom p)"
      unfolding cDigitLshift_def Let_def k_def [symmetric] b_def [symmetric] z_def [symmetric] using k True z(2) by simp
    then show ?thesis using assms(1) a(4) True s by (simp add: val_zero_prefix mult.commute)
  next
    case False
    define q where "q = take lenFrom p"
    obtain r c where rc: "lshift_loop b (32 - b) q 0 = (r, c)" by fastforce
    have r: "length r = lenFrom" "val r + 2 ^ (32 * lenFrom) * unat c = 2 ^ b * val q"
      using lshift_loop_val [OF _ _ _ rc] False assms(1) by (simp_all add: b_def q_def)
    define t where "t = replicate k 0 @ r @ drop (k + lenFrom) pTo"
    have e: "cDigitLshift s p lenFrom pTo lenTo =
        (if c = 0 then Some t else if lenTo - 1 < length t then Some (t[lenTo - 1 := c]) else None)"
      unfolding cDigitLshift_def Let_def k_def [symmetric] b_def [symmetric] z_def [symmetric] q_def [symmetric] rc prod.case
      using k False assms(1,2) a(1) z by (simp add: t_def)
    have lt: "length t = lenTo" using a(1) assms(2) r(1) by (simp add: t_def)
    have vt: "val t = 2 ^ (32 * k) * val r" using a(3) r(1) by (simp add: t_def val_append)
    show ?thesis
    proof (cases "c = 0")
      case True
      then show ?thesis using e lt vt r(2) unfolding s q_def by simp
    next
      case nz: False
      have "2 ^ (32 * (k + lenFrom)) \<le> val q * 2 ^ s"
      proof -
        have "1 \<le> unat c" using nz by (simp add: unat_gt_0 Suc_le_eq)
        then have "2 ^ (32 * lenFrom) * 1 \<le> 2 ^ (32 * lenFrom) * unat c" by (rule mult_le_mono2)
        then have "2 ^ (32 * lenFrom) \<le> 2 ^ b * val q" using r(2) by linarith
        then have "2 ^ (32 * k) * 2 ^ (32 * lenFrom) \<le> 2 ^ (32 * k) * (2 ^ b * val q)" by (rule mult_le_mono2)
        then show ?thesis unfolding s distrib_left power_add by (simp only: ac_simps)
      qed
      then have "(2 :: nat) ^ (32 * (k + lenFrom)) < 2 ^ (32 * lenTo)" using fits unfolding q_def by linarith
      then have lenTo: "lenTo = k + lenFrom + 1" using a(1,2) by simp
      then obtain x where x: "drop (k + lenFrom) pTo = [x]"
        using assms(2) by (cases "drop (k + lenFrom) pTo"; cases "tl (drop (k + lenFrom) pTo)") (auto simp: drop_Cons' dest: arg_cong [of _ _ length])
      have tc: "t[lenTo - 1 := c] = replicate k 0 @ (r @ [c])"
        using r(1) by (simp add: t_def x lenTo list_update_append)
      have "val (t[lenTo - 1 := c]) = val q * 2 ^ s"
        unfolding tc val_zero_prefix val_put_top r(1) r(2) s by (simp only: ac_simps)
      then show ?thesis using e nz lt lenTo unfolding q_def by simp
    qed
  qed
qed

lemma cDigitRshift_val:
  fixes p pTo :: digits and lenFrom :: nat
  defines "V \<equiv> val (take lenFrom p)"
  assumes frm: "lenFrom \<le> length p" "lenFrom = (bit_length V + 31) div 32"
    and to: "lenTo = (bit_length (V div 2 ^ s) + 31) div 32" "lenTo \<le> length pTo" "0 < V div 2 ^ s"
  shows "\<exists>r. cDigitRshift s p lenFrom pTo lenTo = Some r \<and> length r = length pTo \<and> val (take lenTo r) = V div 2 ^ s"
proof -
  define k where "k = s div 32"
  define b where "b = s mod 32"
  define Q where "Q = V div 2 ^ s"
  have s: "s = 32 * k + b" by (simp add: k_def b_def)
  have le: "lenTo \<le> j \<longleftrightarrow> Q < 2 ^ (32 * j)" for j
    unfolding to(1) Q_def [symmetric] using digit_length_le_iff [of Q j] unfolding digit_length .
  have lf: "lenFrom \<le> j \<longleftrightarrow> V < 2 ^ (32 * j)" for j
    unfolding frm(2) using digit_length_le_iff [of V j] unfolding digit_length .
  have Q0: "0 < Q" using to(3) by (simp add: Q_def)
  have Vs: "2 ^ s \<le> V" using to(3) by (simp add: div_greater_zero_iff)
  have kl: "k < lenFrom"
  proof (rule ccontr)
    assume "\<not> k < lenFrom"
    then have "V < 2 ^ (32 * k)" unfolding lf [symmetric] by simp
    also have "(2 :: nat) ^ (32 * k) \<le> 2 ^ s" unfolding s by (intro power_increasing) simp_all
    finally show False using Vs by simp
  qed
  define w where "w = drop k (take lenFrom p)"
  have w: "val w = V div 2 ^ (32 * k)" "length w = lenFrom - k"
    using kl frm(1) by (simp_all add: w_def V_def val_drop_32)
  have Qw: "Q = val w div 2 ^ b" unfolding Q_def s w(1) power_add by (simp only: div_mult2_eq)
  have up: "lenTo \<le> lenFrom - k"
  proof -
    have "Q \<le> val w" unfolding Qw by simp
    then show ?thesis unfolding le using val_lt_32 [of w] w(2) by simp
  qed
  show ?thesis
  proof (cases "b = 0")
    case True
    have tk: "take lenTo (drop k p) = take lenTo w" using up kl frm(1) by (simp add: w_def take_drop min_def)
    have "cDigitRshift s p lenFrom pTo lenTo = Some (take lenTo w @ drop lenTo pTo)"
      using True up kl frm(1) to(2) by (simp add: cDigitRshift_def cDigitCopy_def tk flip: k_def b_def)
    moreover have "val (take lenTo w) = Q"
      using True le [of lenTo] unfolding val_take_32 Qw by simp
    moreover have "lenTo \<le> length w" using up w(2) by simp
    ultimately show ?thesis using to(2) by (simp add: Q_def)
  next
    case False
    have bb: "0 < 32 - b" "32 - b < 32" "32 - (32 - b) = b" "b < 32" using False by (auto simp: b_def)
    have pk: "w = p ! k # drop (k + 1) (take lenFrom p)"
      using kl frm(1) by (simp add: w_def Cons_nth_drop_Suc [symmetric])
    define q where "q = drop (k + 1) (take lenFrom p)"
    define c0 :: "32 word" where "c0 = ucast (drop_bit b (ucast (p ! k) :: 64 word))"
    obtain r c where rc: "rshift_loop b (32 - b) q c0 = (r, c)" by fastforce
    have c0: "unat c0 = unat (p ! k) div 2 ^ b" "unat c0 < 2 ^ (32 - b)"
    proof -
      show lt: "unat c0 < 2 ^ (32 - b)"
        using shifted_digit(2) [OF bb(1,2), of 0 "p ! k"] unfolding bb(3) c0_def by simp
      have "unat (p ! k) div 2 ^ b \<le> unat (p ! k)" by simp
      then have "unat (p ! k) div 2 ^ b < 2 ^ 32" using unat_lt [of "p ! k"] by (simp add: le_less_trans [OF _ unat_lt [of "p ! k", simplified]])
      then show "unat c0 = unat (p ! k) div 2 ^ b"
        by (simp only: c0_def unat_low_32 unat_drop_div unat_ucast_32_64 mod_less)
    qed
    have r: "length r = length q" "val r + 2 ^ (32 * length q) * unat c = 2 ^ (32 - b) * val q + unat c0"
      using lshift_loop_val [OF bb(1,2) c0(2), of q r c] rc unfolding bb(3) rshift_is_lshift by simp_all
    have QQ: "val r + 2 ^ (32 * length q) * unat c = Q"
    proof -
      have "val w = unat (p ! k) + 2 ^ b * (2 ^ (32 - b) * val q)"
        unfolding pk q_def [symmetric] val_32 using bb(4) by (simp flip: power_add mult.assoc)
      then show ?thesis unfolding r(2) Qw c0(1) by simp
    qed
    have lq: "length q = lenFrom - k - 1" using kl frm(1) by (simp add: q_def)
    have e: "cDigitRshift s p lenFrom pTo lenTo =
       (if length r > length pTo then None
        else let pTo = r @ drop (length r) pTo
             in if c = 0 then Some pTo else if lenTo - 1 < length pTo then Some (pTo[lenTo - 1 := c]) else None)"
      using False kl frm(1) rc by (simp add: cDigitRshift_def Let_def c0_def q_def flip: k_def b_def)
    have lo: "length q \<le> lenTo"
    proof (cases "length q = 0")
      case nz: False
      have "\<not> V < 2 ^ (32 * (lenFrom - 1))" unfolding lf [symmetric] using kl by simp
      moreover have "32 * (lenFrom - 1) = 32 * k + 32 * length q" using kl lq by simp
      ultimately have "2 ^ (32 * k) * 2 ^ (32 * length q) \<le> V" by (simp add: power_add)
      then have "2 ^ (32 * length q) \<le> val w" unfolding w(1) by (simp add: less_eq_div_iff_mult_less_eq mult.commute)
      moreover have "(2 :: nat) ^ (32 * (length q - 1)) * 2 ^ b \<le> 2 ^ (32 * length q)"
      proof -
        have "32 * (length q - 1) + b \<le> 32 * length q" using bb(4) by (cases "length q") (use nz in simp_all)
        then show ?thesis by (simp only: power_increasing one_le_numeral flip: power_add)
      qed
      ultimately have "2 ^ (32 * (length q - 1)) \<le> Q" unfolding Qw by (simp add: less_eq_div_iff_mult_less_eq)
      then have "\<not> lenTo \<le> length q - 1" unfolding le by simp
      then show ?thesis by simp
    qed simp
    show ?thesis
    proof (cases "c = 0")
      case True
      then have "lenTo \<le> length q" unfolding le using QQ val_lt_32 [of r] r(1) by simp
      then have "lenTo = length r" using lo r(1) by simp
      then show ?thesis using e True to(2) QQ by (simp add: Q_def)
    next
      case nz: False
      have "\<not> lenTo \<le> length q"
      proof -
        have "1 \<le> unat c" using nz by (simp add: unat_gt_0 Suc_le_eq)
        then have "2 ^ (32 * length q) * 1 \<le> 2 ^ (32 * length q) * unat c" by (rule mult_le_mono2)
        then show ?thesis unfolding le using QQ by linarith
      qed
      then have lt: "lenTo = Suc (length r)" using up lq r(1) by simp
      then obtain x where x: "drop (length r) pTo = x # drop lenTo pTo"
        using to(2) by (metis Cons_nth_drop_Suc Suc_le_lessD)
      have "(r @ drop (length r) pTo)[lenTo - 1 := c] = (r @ [c]) @ drop lenTo pTo"
        unfolding x lt by (simp add: list_update_append)
      moreover have "val (r @ [c]) = Q" unfolding val_put_top r(1) by (rule QQ)
      ultimately show ?thesis using e nz lt to(2) by (simp add: Q_def)
    qed
  qed
qed

end
