(* ===== verification/LargeArith.thy ===== *)
theory LargeArith
  imports LargeInts
begin

text \<open>
  The primitives of \<open>LargeIntegers.c\<close> that work on the digits themselves: sum, difference and comparison of
  magnitudes, bit logic, shifts, the test for bits in an interval, and normalization. A primitive here
  takes the argument count, the receiver and the arguments, and answers the object it pushes.
\<close>

subsection \<open>Operands and arguments\<close>

text \<open>The digits a primitive reads of an operand: \<open>(len + 3) / 4\<close> of those at its pointer.\<close>

definition operand :: "integer_oop \<Rightarrow> digits option" where
  "operand anInteger =
     (let (p, len) = pointerToDigitsOf anInteger
      in if (len + 3) div 4 \<le> length p then Some (take ((len + 3) div 4) p) else None)"

text \<open>The checks at the head of a primitive with one integer argument.\<close>

definition with_integers ::
  "nat \<Rightarrow> oop \<Rightarrow> oop \<Rightarrow> (integer_oop \<Rightarrow> integer_oop \<Rightarrow> oop prim) \<Rightarrow> oop prim" where
  "with_integers methodArgumentCount receiver argument body =
     (if methodArgumentCount \<noteq> 1 then Some (Inl PrimErrBadNumArgs)
      else case argument of
             Integer secondInteger \<Rightarrow>
               (case receiver of
                  Integer firstInteger \<Rightarrow> body firstInteger secondInteger
                | _ \<Rightarrow> Some (Inl PrimErrGeneric))
           | _ \<Rightarrow> Some (Inl PrimErrBadArgument))"

definition answer_integer :: "integer_oop prim \<Rightarrow> oop prim" where
  "answer_integer r = map_option (map_sum id Integer) r"

subsection \<open>The sum\<close>

text \<open>\<open>cDigitAdd:len:with:len:into:\<close>, both loops; the second component is \<open>accum\<close> behind them.\<close>

fun cDigitAdd :: "digits \<Rightarrow> digits \<Rightarrow> 64 word \<Rightarrow> digits \<times> 64 word" where
  "cDigitAdd (s # pShort) (l # pLong) accum =
     (let accum = (drop_bit 32 accum + ucast s) + ucast l;
          (r, a) = cDigitAdd pShort pLong accum
      in (ucast (accum AND 0xFFFFFFFF) # r, a))"
| "cDigitAdd [] (l # pLong) accum =
     (let accum = drop_bit 32 accum + ucast l;
          (r, a) = cDigitAdd [] pLong accum
      in (ucast (accum AND 0xFFFFFFFF) # r, a))"
| "cDigitAdd pShort [] accum = ([], accum)"

definition digitAdd :: "li_host \<Rightarrow> integer_oop \<Rightarrow> integer_oop \<Rightarrow> integer_oop prim" where
  "digitAdd h firstInteger secondInteger = do {
     pFirst \<leftarrow> operand firstInteger;
     pSecond \<leftarrow> operand secondInteger;
     let firstDigitLen = length pFirst;
     let secondDigitLen = length pSecond;
     let neg = is_negative firstInteger;
     let longDigitLen = (if firstDigitLen < secondDigitLen then secondDigitLen else firstDigitLen);
     let allocated = (\<not> longDigitLen \<le> LIStackDigits);
     if allocated \<and> instantiate h 0 (longDigitLen * 4) = None then Some (Inl PrimErrNoMemory)
     else
       let (pShort, pLong) = (if firstDigitLen \<le> secondDigitLen then (pFirst, pSecond) else (pSecond, pFirst));
           (pSum, accum) = cDigitAdd pShort pLong 0;
           over = ucast (drop_bit 32 accum) :: 32 word
       in if \<not> over > 0 then normalized_result h 1 allocated (longDigitLen * 4) pSum longDigitLen neg
          else case instantiate h 1 (longDigitLen * 4 + 1) of
                 None \<Rightarrow> Some (Inl PrimErrNoMemory)
               | Some newSum \<Rightarrow> do {
                   r \<leftarrow> cDigitCopy pSum newSum longDigitLen;
                   if longDigitLen < length r then Some (Inr (LargeInteger neg (longDigitLen * 4 + 1) (r[longDigitLen := over])))
                   else None
                 }
   }"

definition primDigitAdd :: "li_host \<Rightarrow> nat \<Rightarrow> oop \<Rightarrow> oop \<Rightarrow> oop prim" where
  "primDigitAdd h methodArgumentCount receiver argument =
     with_integers methodArgumentCount receiver argument
       (\<lambda>firstInteger secondInteger. answer_integer (digitAdd h firstInteger secondInteger))"

subsection \<open>The difference\<close>

text \<open>\<open>cDigitSub:len:with:len:into:\<close>, the smaller operand first.\<close>

fun cDigitSub :: "digits \<Rightarrow> digits \<Rightarrow> 64 word \<Rightarrow> digits" where
  "cDigitSub (s # pSmall) (l # pLarge) z =
     (let z = (z + ucast l) - ucast s
      in ucast (z AND 0xFFFFFFFF) # cDigitSub pSmall pLarge (0 - drop_bit 0x3F z))"
| "cDigitSub [] (l # pLarge) z =
     (let z = z + ucast l
      in ucast (z AND 0xFFFFFFFF) # cDigitSub [] pLarge (0 - drop_bit 0x3F z))"
| "cDigitSub pSmall [] z = []"

fun skip_equal :: "digits \<Rightarrow> digits \<Rightarrow> nat \<Rightarrow> nat" where
  "skip_equal pFirst pSecond 0 = 0"
| "skip_equal pFirst pSecond (Suc 0) = 1"
| "skip_equal pFirst pSecond (Suc (Suc n)) =
     (if pFirst ! Suc n = pSecond ! Suc n then skip_equal pFirst pSecond (Suc n) else Suc (Suc n))"

definition digitSub :: "li_host \<Rightarrow> integer_oop \<Rightarrow> integer_oop \<Rightarrow> integer_oop prim" where
  "digitSub h firstInteger secondInteger = do {
     pFirst \<leftarrow> operand firstInteger;
     pSecond \<leftarrow> operand secondInteger;
     let firstNeg = is_negative firstInteger;
     let firstDigitLen = length pFirst;
     let secondDigitLen = length pSecond;
     let (firstDigitLen, secondDigitLen) =
       (if firstDigitLen = secondDigitLen then let n = skip_equal pFirst pSecond firstDigitLen in (n, n)
        else (firstDigitLen, secondDigitLen));
     let firstSmaller = (firstDigitLen < secondDigitLen \<or>
       (firstDigitLen = secondDigitLen \<and> firstDigitLen > 0 \<and> pFirst ! (firstDigitLen - 1) < pSecond ! (firstDigitLen - 1)));
     let (largeDigitLen, smallerDigitLen, neg) =
       (if firstSmaller then (secondDigitLen, firstDigitLen, \<not> firstNeg) else (firstDigitLen, secondDigitLen, firstNeg));
     let allocated = (\<not> largeDigitLen \<le> LIStackDigits);
     if allocated \<and> instantiate h 0 (largeDigitLen * 4) = None then Some (Inl PrimErrNoMemory)
     else
       let pRes = (if firstSmaller then cDigitSub (take smallerDigitLen pFirst) (take largeDigitLen pSecond) 0
                   else cDigitSub (take smallerDigitLen pSecond) (take largeDigitLen pFirst) 0)
       in normalized_result h 1 allocated (largeDigitLen * 4) pRes largeDigitLen neg
   }"

definition primDigitSubtract :: "li_host \<Rightarrow> nat \<Rightarrow> oop \<Rightarrow> oop \<Rightarrow> oop prim" where
  "primDigitSubtract h methodArgumentCount receiver argument =
     with_integers methodArgumentCount receiver argument
       (\<lambda>firstInteger secondInteger. answer_integer (digitSub h firstInteger secondInteger))"

subsection \<open>The comparison\<close>

text \<open>The loop runs from the top digit down; \<open>ix\<close> digits are left.\<close>

fun cDigitCompare :: "digits \<Rightarrow> digits \<Rightarrow> nat \<Rightarrow> int" where
  "cDigitCompare pFirst pSecond 0 = 0"
| "cDigitCompare pFirst pSecond (Suc ix) =
     (let secondDigit = pSecond ! ix; firstDigit = pFirst ! ix
      in if secondDigit \<noteq> firstDigit then if secondDigit < firstDigit then 1 else -1
         else cDigitCompare pFirst pSecond ix)"

definition digitCompareLarge :: "nat \<Rightarrow> digits \<Rightarrow> nat \<Rightarrow> digits \<Rightarrow> int option" where
  "digitCompareLarge firstSize pFirst secondSize pSecond =
     (let firstDigitLen = (firstSize + 3) div 4; secondDigitLen = (secondSize + 3) div 4
      in if secondDigitLen \<noteq> firstDigitLen then Some (if secondDigitLen > firstDigitLen then -1 else 1)
         else if firstDigitLen > length pFirst \<or> secondDigitLen > length pSecond then None
         else Some (cDigitCompare pFirst pSecond firstDigitLen))"

definition digitCompare :: "integer_oop \<Rightarrow> integer_oop \<Rightarrow> int option" where
  "digitCompare firstInteger secondInteger =
     (case firstInteger of
        SmallInteger firstVal \<Rightarrow>
          (case secondInteger of
             SmallInteger secondVal \<Rightarrow>
               let firstVal = (if firstVal < 0 then 0 - firstVal else firstVal);
                   secondVal = (if secondVal < 0 then 0 - secondVal else secondVal)
               in Some (if firstVal = secondVal then 0 else if firstVal < secondVal then -1 else 1)
           | LargeInteger _ _ _ \<Rightarrow> Some (-1))
      | LargeInteger _ firstSize pFirst \<Rightarrow>
          (case secondInteger of
             SmallInteger _ \<Rightarrow> Some 1
           | LargeInteger _ secondSize pSecond \<Rightarrow> digitCompareLarge firstSize pFirst secondSize pSecond))"

definition primDigitCompare :: "nat \<Rightarrow> oop \<Rightarrow> oop \<Rightarrow> oop prim" where
  "primDigitCompare methodArgumentCount receiver argument =
     with_integers methodArgumentCount receiver argument
       (\<lambda>firstInteger secondInteger. map_option (\<lambda>c. Inr (Integer (SmallInteger c))) (digitCompare firstInteger secondInteger))"

subsection \<open>Bit logic\<close>

datatype bit_op = AndOp | OrOp | XorOp

fun cDigitOp :: "bit_op \<Rightarrow> digits \<Rightarrow> digits \<Rightarrow> digits" where
  "cDigitOp opIx (s # pShort) (l # pLong) =
     (case opIx of AndOp \<Rightarrow> s AND l | OrOp \<Rightarrow> s OR l | XorOp \<Rightarrow> s XOR l) # cDigitOp opIx pShort pLong"
| "cDigitOp opIx [] (l # pLong) = (case opIx of AndOp \<Rightarrow> 0 | _ \<Rightarrow> l) # cDigitOp opIx [] pLong"
| "cDigitOp opIx pShort [] = []"

definition digitBitLogic :: "li_host \<Rightarrow> integer_oop \<Rightarrow> integer_oop \<Rightarrow> bit_op \<Rightarrow> integer_oop prim" where
  "digitBitLogic h firstInteger secondInteger opIx =
     (let (pFirst, firstLen) = pointerToDigitsOf firstInteger;
          (pSecond, secondLen) = pointerToDigitsOf secondInteger
      in if is_negative firstInteger then Some (Inl PrimErrGeneric)
         else if is_negative secondInteger then Some (Inl PrimErrGeneric)
         else let longLen = (if firstLen < secondLen then secondLen else firstLen);
                  allocated = (\<not> (longLen + 3) div 4 \<le> LIStackDigits)
              in if allocated \<and> instantiate h 0 longLen = None then Some (Inl PrimErrNoMemory)
                 else let (shortLen, pShort, pLong) =
                            (if firstLen < secondLen then (firstLen, pFirst, pSecond) else (secondLen, pSecond, pFirst))
                      in if (shortLen + 3) div 4 > length pShort \<or> (longLen + 3) div 4 > length pLong then None
                         else let pRes = cDigitOp opIx (take ((shortLen + 3) div 4) pShort) (take ((longLen + 3) div 4) pLong)
                              in if \<not> allocated then normalizedIntegerFrom h 1 pRes ((longLen + 3) div 4) False
                                 else normalizePositive h 1 longLen pRes)"

definition primDigitBitAnd :: "li_host \<Rightarrow> nat \<Rightarrow> oop \<Rightarrow> oop \<Rightarrow> oop prim" where
  "primDigitBitAnd h methodArgumentCount receiver argument =
     with_integers methodArgumentCount receiver argument
       (\<lambda>firstInteger secondInteger. answer_integer (digitBitLogic h firstInteger secondInteger AndOp))"

definition primDigitBitOr :: "li_host \<Rightarrow> nat \<Rightarrow> oop \<Rightarrow> oop \<Rightarrow> oop prim" where
  "primDigitBitOr h methodArgumentCount receiver argument =
     with_integers methodArgumentCount receiver argument
       (\<lambda>firstInteger secondInteger. answer_integer (digitBitLogic h firstInteger secondInteger OrOp))"

definition primDigitBitXor :: "li_host \<Rightarrow> nat \<Rightarrow> oop \<Rightarrow> oop \<Rightarrow> oop prim" where
  "primDigitBitXor h methodArgumentCount receiver argument =
     with_integers methodArgumentCount receiver argument
       (\<lambda>firstInteger secondInteger. answer_integer (digitBitLogic h firstInteger secondInteger XorOp))"

subsection \<open>Shifts\<close>

text \<open>The allocation of the one byte of a zero is not checked: the primitive then pushes a null pointer.\<close>

definition digitLshift :: "li_host \<Rightarrow> integer_oop \<Rightarrow> digits \<Rightarrow> nat \<Rightarrow> oop prim" where
  "digitLshift h anInteger pDigits shiftCount =
     (let neg = is_negative anInteger;
          highBit = cDigitHighBit pDigits (length pDigits)
      in if highBit = 0
         then Some (Inr (case instantiate h 0 1 of None \<Rightarrow> NullOop | Some ds \<Rightarrow> Integer (LargeInteger neg 1 ds)))
         else let newByteLen = (highBit + shiftCount + 7) div 8
              in case instantiate h 0 newByteLen of
                   None \<Rightarrow> Some (Inl PrimErrNoMemory)
                 | Some newOop \<Rightarrow>
                     let newDigitLen = (newByteLen + 3) div 4
                     in do {
                          r \<leftarrow> cDigitLshift shiftCount pDigits ((highBit + 0x1F) div 32) newOop newDigitLen;
                          Some (Inr (Integer (LargeInteger neg newByteLen r)))
                        })"

definition digitRshift :: "li_host \<Rightarrow> integer_oop \<Rightarrow> digits \<Rightarrow> nat \<Rightarrow> integer_oop prim" where
  "digitRshift h anInteger pDigits shiftCount =
     (let neg = is_negative anInteger;
          oldBitLen = cDigitHighBit pDigits (length pDigits)
      in if oldBitLen \<le> shiftCount then Some (Inr (SmallInteger 0))
         else let newBitLen = oldBitLen - shiftCount;
                  newDigitLen = (newBitLen + 0x1F) div 32
              in if newDigitLen \<le> LIStackDigits
                 then do {
                   resBuffer \<leftarrow> cDigitRshift shiftCount pDigits ((oldBitLen + 0x1F) div 32) (uninitialised h 0 LIStackDigits) newDigitLen;
                   normalizedIntegerFrom h 0 resBuffer newDigitLen neg
                 }
                 else case instantiate h 0 ((newBitLen + 7) div 8) of
                        None \<Rightarrow> Some (Inl PrimErrNoMemory)
                      | Some newOop \<Rightarrow> do {
                          r \<leftarrow> cDigitRshift shiftCount pDigits ((oldBitLen + 0x1F) div 32) newOop newDigitLen;
                          Some (Inr (LargeInteger neg ((newBitLen + 7) div 8) r))
                        })"

definition primDigitBitShiftMagnitude :: "li_host \<Rightarrow> nat \<Rightarrow> oop \<Rightarrow> oop \<Rightarrow> oop prim" where
  "primDigitBitShiftMagnitude h methodArgumentCount receiver argument =
     (if methodArgumentCount \<noteq> 1 then Some (Inl PrimErrBadNumArgs)
      else case argument of
             Integer (SmallInteger shiftCount) \<Rightarrow>
               (case receiver of
                  Integer anInteger \<Rightarrow> do {
                    pDigits \<leftarrow> operand anInteger;
                    if shiftCount \<ge> 0 then digitLshift h anInteger pDigits (nat shiftCount)
                    else answer_integer (digitRshift h anInteger pDigits (nat (0 - shiftCount)))
                  }
                | _ \<Rightarrow> Some (Inl PrimErrGeneric))
           | _ \<Rightarrow> Some (Inl PrimErrBadArgument))"

subsection \<open>Bits of an interval\<close>

definition anyBitOfDigits :: "digits \<Rightarrow> int \<Rightarrow> int \<Rightarrow> bool prim" where
  "anyBitOfDigits pDigits start stopArg =
     (if start < 1 \<or> stopArg < 1 then Some (Inl PrimErrGeneric)
      else let highBit = int (cDigitHighBit pDigits (length pDigits));
               stop = (if stopArg < highBit then stopArg else highBit)
           in if start > stop then Some (Inr False)
              else let start = nat start - 1; stop = nat stop - 1;
                       firstDigitIx = start div 32 + 1;
                       lastDigitIx = stop div 32 + 1;
                       firstMask = ucast (push_bit (start mod 32) 0xFFFFFFFF :: 64 word) :: 32 word;
                       lastMask = ucast (drop_bit (0x1F - stop mod 32) 0xFFFFFFFF :: 64 word) :: 32 word
                   in Some (Inr (
                        if firstDigitIx = lastDigitIx then pDigits ! (firstDigitIx - 1) AND (firstMask AND lastMask) \<noteq> 0
                        else if pDigits ! (firstDigitIx - 1) AND firstMask \<noteq> 0 then True
                        else if list_ex (\<lambda>d. d \<noteq> 0) (drop firstDigitIx (take (lastDigitIx - 1) pDigits)) then True
                        else pDigits ! (lastDigitIx - 1) AND lastMask \<noteq> 0)))"

definition primAnyBitFromTo :: "nat \<Rightarrow> oop \<Rightarrow> oop \<Rightarrow> oop \<Rightarrow> oop prim" where
  "primAnyBitFromTo methodArgumentCount receiver fromOop toOop =
     (if methodArgumentCount \<noteq> 2 then Some (Inl PrimErrBadNumArgs)
      else case (fromOop, toOop) of
             (Integer (SmallInteger start), Integer (SmallInteger stop)) \<Rightarrow>
               (case receiver of
                  Integer integer \<Rightarrow> do {
                    pDigits \<leftarrow> operand integer;
                    map_option (map_sum id Boolean) (anyBitOfDigits pDigits start stop)
                  }
                | _ \<Rightarrow> Some (Inl PrimErrGeneric))
           | _ \<Rightarrow> Some (Inl PrimErrBadArgument))"

subsection \<open>Normalization\<close>

definition primNormalizePositive :: "li_host \<Rightarrow> nat \<Rightarrow> oop \<Rightarrow> oop prim" where
  "primNormalizePositive h methodArgumentCount receiver =
     (if methodArgumentCount \<noteq> 0 then Some (Inl PrimErrBadNumArgs)
      else case receiver of
             Integer (LargeInteger False n ds) \<Rightarrow> answer_integer (normalizePositive h 0 n ds)
           | _ \<Rightarrow> Some (Inl PrimErrGeneric))"

definition primNormalizeNegative :: "li_host \<Rightarrow> nat \<Rightarrow> oop \<Rightarrow> oop prim" where
  "primNormalizeNegative h methodArgumentCount receiver =
     (if methodArgumentCount \<noteq> 0 then Some (Inl PrimErrBadNumArgs)
      else case receiver of
             Integer (LargeInteger True n ds) \<Rightarrow> answer_integer (normalizeNegative h 0 n ds)
           | _ \<Rightarrow> Some (Inl PrimErrGeneric))"

subsection \<open>Operands\<close>

lemma operand_val:
  assumes "integer_ok a" "pointerToDigitsOf a = (p, n)"
  shows "operand a = Some (take ((n + 3) div 4) p)" "length (take ((n + 3) div 4) p) = (n + 3) div 4"
    "val (take ((n + 3) div 4) p) = magnitude a" "magnitude a < 2 ^ (8 * n)"
  using pointerToDigitsOf_val [OF assms] by (simp_all add: operand_def assms(2))

lemma operand_ok:
  assumes "integer_ok a"
  obtains ds where "operand a = Some ds" "val ds = magnitude a"
  using operand_val [OF assms] by (cases "pointerToDigitsOf a") blast

lemma normalized_ok: "normalized_integer a \<Longrightarrow> integer_ok a"
  by (metis normalized_integer_def canonical_ok)

lemma operand_normalized:
  assumes "normalized_integer a"
  obtains ds where "operand a = Some ds" "val ds = magnitude a" "length ds = max 1 ((bit_length (magnitude a) + 31) div 32)"
proof -
  obtain p n where p: "pointerToDigitsOf a = (p, n)" by fastforce
  note o = operand_val [OF normalized_ok [OF assms] p]
  have "(n + 3) div 4 = max 1 ((bit_length (magnitude a) + 31) div 32)"
  proof (cases a)
    case (SmallInteger v)
    then have "MinSmallInteger \<le> v" "v \<le> MaxSmallInteger" using assms by (simp_all add: normalized_small)
    then have "\<bar>v\<bar> < 2 ^ 64" by simp
    moreover have "n = byteSizeOfCSI v" using p SmallInteger by (simp add: pointerToDigitsOf_def Let_def)
    moreover have "magnitude a = nat \<bar>v\<bar>" using SmallInteger by (simp add: magnitude_def)
    ultimately have "n = max 1 (byte_length (magnitude a))" by (simp add: byteSizeOfCSI_val)
    moreover have "0 < (byte_length (magnitude a) + 3) div 4" if "0 < byte_length (magnitude a)"
      using that by (simp add: div_greater_zero_iff)
    ultimately show ?thesis unfolding digit_length [symmetric] by (cases "byte_length (magnitude a) = 0") (auto simp: max_def)
  next
    case (LargeInteger neg k ds)
    then have "canonical neg (magnitude a) = LargeInteger neg k ds"
      using assms by (simp add: normalized_integer_def is_negative_def)
    then have b: "byte_length (magnitude a) = k" and big: "\<not> is_small neg (magnitude a)"
      using canonical_cases(1,2) [of "magnitude a"] canonical_cases(3) [of neg "magnitude a"] by (cases neg; cases "is_small neg (magnitude a)"; simp)+
    have "n = k" using p LargeInteger by (simp add: pointerToDigitsOf_def)
    moreover have "\<not> magnitude a < 2 ^ (32 * 0)" using big by (cases neg) (auto simp: is_small_def)
    then have "0 < (k + 3) div 4" unfolding digit_length_le_iff [symmetric] b by simp
    ultimately show ?thesis using b by (simp flip: digit_length)
  qed
  then show thesis using that o by simp
qed

subsection \<open>The sum\<close>

lemma cDigitAdd_val:
  "length pShort \<le> length pLong \<Longrightarrow> unat accum < 2 ^ 34 \<Longrightarrow> cDigitAdd pShort pLong accum = (r, a) \<Longrightarrow>
   length r = length pLong \<and> unat a < 2 ^ 34 \<and>
   val r + 2 ^ (32 * length pLong) * (unat a div 2 ^ 32) = val pShort + val pLong + unat accum div 2 ^ 32"
proof (induction pShort pLong accum arbitrary: r a rule: cDigitAdd.induct)
  case (1 s pShort l pLong accum)
  define acc where "acc = (drop_bit 32 accum + ucast s) + ucast l"
  obtain r1 where r1: "cDigitAdd pShort pLong acc = (r1, a)" "r = ucast (acc AND 0xFFFFFFFF) # r1"
    using "1.prems"(3) by (auto simp: acc_def Let_def split: prod.splits)
  have lt: "unat s < 2 ^ 32" "unat l < 2 ^ 32" "unat accum div 2 ^ 32 < 4"
    using unat_lt [of s] unat_lt [of l] "1.prems"(2) by simp_all
  have acc: "unat acc = unat accum div 2 ^ 32 + unat s + unat l"
    using lt by (simp add: acc_def unat_word_ariths unat_ucast_32_64 unat_halves_64 del: unat_drop_bit_eq)
  have IH: "length r1 = length pLong" "unat a < 2 ^ 34"
    "val r1 + 2 ^ (32 * length pLong) * (unat a div 2 ^ 32) = val pShort + val pLong + unat acc div 2 ^ 32"
    using "1.IH" [OF acc_def _ _ r1(1)] "1.prems"(1) acc lt by auto
  have "val r + 2 ^ (32 * length (l # pLong)) * (unat a div 2 ^ 32)
      = unat acc mod 2 ^ 32 + 2 ^ 32 * (val r1 + 2 ^ (32 * length pLong) * (unat a div 2 ^ 32))"
    unfolding r1(2) val_32 pow_32_Suc unat_mask_32 by (simp only: distrib_left mult.assoc add.assoc)
  also have "\<dots> = unat acc + 2 ^ 32 * (val pShort + val pLong)"
    unfolding IH(3) distrib_left using mult_div_mod_eq [of "2 ^ 32" "unat acc"] by linarith
  finally show ?case using IH(1,2) r1(2) unfolding acc val_32 distrib_left by simp
next
  case (2 l pLong accum)
  define acc where "acc = drop_bit 32 accum + ucast l"
  obtain r1 where r1: "cDigitAdd [] pLong acc = (r1, a)" "r = ucast (acc AND 0xFFFFFFFF) # r1"
    using "2.prems"(3) by (auto simp: acc_def Let_def split: prod.splits)
  have lt: "unat l < 2 ^ 32" "unat accum div 2 ^ 32 < 4"
    using unat_lt [of l] "2.prems"(2) by simp_all
  have acc: "unat acc = unat accum div 2 ^ 32 + unat l"
    using lt by (simp add: acc_def unat_word_ariths unat_ucast_32_64 unat_halves_64 del: unat_drop_bit_eq)
  have IH: "length r1 = length pLong" "unat a < 2 ^ 34"
    "val r1 + 2 ^ (32 * length pLong) * (unat a div 2 ^ 32) = val pLong + unat acc div 2 ^ 32"
    using "2.IH" [OF acc_def _ _ r1(1)] acc lt by auto
  have "val r + 2 ^ (32 * length (l # pLong)) * (unat a div 2 ^ 32)
      = unat acc mod 2 ^ 32 + 2 ^ 32 * (val r1 + 2 ^ (32 * length pLong) * (unat a div 2 ^ 32))"
    unfolding r1(2) val_32 pow_32_Suc unat_mask_32 by (simp only: distrib_left mult.assoc add.assoc)
  also have "\<dots> = unat acc + 2 ^ 32 * val pLong"
    unfolding IH(3) distrib_left using mult_div_mod_eq [of "2 ^ 32" "unat acc"] by linarith
  finally show ?case using IH(1,2) r1(2) unfolding acc val_32 by simp
qed simp_all

lemma answer_integer_answers:
  "answers h r a \<Longrightarrow> answers h (answer_integer r) (Integer a)"
  by (auto simp: answers_def answer_integer_def)

lemma max_length_val:
  "length a \<le> n \<Longrightarrow> val (a :: digits) < 2 ^ (32 * n)"
  by (rule less_le_trans [OF val_lt_32]) simp

text \<open>The sum: normalized unless it carries out of the longer operand, and then it has a digit more.\<close>

lemma digitAdd_val:
  assumes "integer_ok x" "integer_ok y"
  shows "\<exists>a. answers h (digitAdd h x y) a \<and> integer_ok a \<and> magnitude a = magnitude x + magnitude y \<and>
    (is_negative a = is_negative x \<or> magnitude a = 0) \<and> (normalized_integer a \<or> (\<exists>n ds. a = LargeInteger (is_negative x) (4 * n + 1) ds \<and> 2 ^ (32 * n) \<le> magnitude a))"
proof -
  obtain dx where x: "operand x = Some dx" "val dx = magnitude x" by (rule operand_ok [OF assms(1)])
  obtain dy where y: "operand y = Some dy" "val dy = magnitude y" by (rule operand_ok [OF assms(2)])
  define n where "n = (if length dx < length dy then length dy else length dx)"
  obtain ds dl where o: "(if length dx \<le> length dy then (dx, dy) else (dy, dx)) = (ds, dl)" by fastforce
  have dl: "length ds \<le> length dl" "length dl = n" "val ds + val dl = magnitude x + magnitude y"
    using o x(2) y(2) by (auto simp: n_def split: if_splits)
  obtain r a where ra: "cDigitAdd ds dl 0 = (r, a)" by fastforce
  have r: "length r = n" "unat a < 2 ^ 34" "val r + 2 ^ (32 * n) * (unat a div 2 ^ 32) = magnitude x + magnitude y"
    using cDigitAdd_val [OF dl(1) _ ra] dl by simp_all
  define over where "over = (ucast (drop_bit 32 a) :: 32 word)"
  have over: "unat over = unat a div 2 ^ 32" unfolding over_def by (rule unat_high_32)
  define allocated where "allocated = (\<not> n \<le> LIStackDigits)"
  have e: "digitAdd h x y = (if allocated \<and> instantiate h 0 (n * 4) = None then Some (Inl PrimErrNoMemory)
     else if \<not> over > 0 then normalized_result h 1 allocated (n * 4) r n (is_negative x)
     else case instantiate h 1 (n * 4 + 1) of
            None \<Rightarrow> Some (Inl PrimErrNoMemory)
          | Some newSum \<Rightarrow> do {
              c \<leftarrow> cDigitCopy r newSum n;
              if n < length c then Some (Inr (LargeInteger (is_negative x) (n * 4 + 1) (c[n := over]))) else None
            })"
    unfolding digitAdd_def x(1) y(1) using o ra
    by (simp only: bind.bind_lunit Let_def n_def [symmetric] allocated_def [symmetric] over_def [symmetric] prod.case)
  have nomem: "instantiate h k m = None \<Longrightarrow> \<exists>k n. \<not> instantiates h k n" for k m
    by (auto simp: instantiate_def split: if_splits)
  show ?thesis
  proof (cases "over > 0")
    case False
    then have "over = 0" by (simp add: word_neq_0_conv [symmetric])
    then have v: "val r = magnitude x + magnitude y" using r(3) over by simp
    have "answers h (normalized_result h 1 allocated (n * 4) r n (is_negative x)) (canonical (is_negative x) (val (take n r)))"
      using val_lt_32 [of r] r(1) by (intro normalized_result_canonical) (auto simp: mult.commute)
    then have "answers h (digitAdd h x y) (canonical (is_negative x) (magnitude x + magnitude y))"
      using False nomem r(1) unfolding e by (auto simp: answers_def v)
    moreover have "is_negative (canonical (is_negative x) m) = is_negative x \<or> m = 0" "magnitude (canonical (is_negative x) m) = m" for m
      by (auto simp: canonical_def is_negative_def magnitude_def digits_of_val)
    ultimately show ?thesis using canonical_ok normalized_canonical by metis
  next
    case True
    define ds' where "ds' = r @ [over]"
    have v: "val ds' = magnitude x + magnitude y" unfolding ds'_def val_put_top r(1) over by (rule r(3))
    have one: "1 \<le> unat over" using True by (simp add: word_less_nat_alt)
    have big: "2 ^ (32 * n) \<le> magnitude x + magnitude y"
      using mult_le_mono2 [OF one, of "2 ^ (32 * n)"] r(3) unfolding over by linarith
    have small: "magnitude x + magnitude y < 2 * 2 ^ (32 * n)"
    proof -
      have "length dx \<le> n" "length dy \<le> n" by (auto simp: n_def)
      then have "magnitude x < 2 ^ (32 * n)" "magnitude y < 2 ^ (32 * n)"
        using max_length_val [of dx n] max_length_val [of dy n] x(2) y(2) by auto
      then show ?thesis by simp
    qed
    let ?a = "LargeInteger (is_negative x) (n * 4 + 1) ds'"
    have copied: "(take n r @ drop n (replicate ((n * 4 + 1 + 3) div 4) 0))[n := over] = ds'"
    proof -
      have k: "(n * 4 + 1 + 3) div 4 = n + 1" by simp
      show ?thesis using r(1) unfolding k drop_replicate by (simp add: ds'_def list_update_append)
    qed
    have ans: "answers h (digitAdd h x y) ?a"
    proof (rule instantiate_cases [of h 1 "n * 4 + 1"])
      assume "instantiate h 1 (n * 4 + 1) = None" "\<exists>k n. \<not> instantiates h k n"
      then show ?thesis using True unfolding e answers_def by (auto split: if_splits)
    next
      assume i: "instantiate h 1 (n * 4 + 1) = Some (replicate ((n * 4 + 1 + 3) div 4) 0)"
      have "cDigitCopy r (replicate ((n * 4 + 1 + 3) div 4) 0) n = Some (take n r @ drop n (replicate ((n * 4 + 1 + 3) div 4) 0))"
        using r(1) by (simp add: cDigitCopy_def)
      then have "(case instantiate h 1 (n * 4 + 1) of
            None \<Rightarrow> Some (Inl PrimErrNoMemory)
          | Some newSum \<Rightarrow> do {
              c \<leftarrow> cDigitCopy r newSum n;
              if n < length c then Some (Inr (LargeInteger (is_negative x) (n * 4 + 1) (c[n := over]))) else None
            }) = Some (Inr ?a)"
        unfolding i option.case using r(1) copied by simp
      then show ?thesis using True nomem unfolding e answers_def by auto
    qed
    have "val ds' < 2 ^ (8 * (n * 4 + 1))"
      unfolding v using small by (simp add: power_add mult.commute [of n])
    then have "integer_ok ?a" using r(1) by (simp add: integer_ok_def ds'_def)
    moreover have "magnitude ?a = magnitude x + magnitude y" "is_negative ?a = is_negative x"
      using v by (simp_all add: magnitude_def is_negative_def)
    ultimately show ?thesis using ans big by (metis mult.commute)
  qed
qed

subsection \<open>The difference\<close>

lemma cDigitSub_val:
  "length pSmall \<le> length pLarge \<Longrightarrow> b \<le> 1 \<Longrightarrow> z = 0 - of_nat b \<Longrightarrow>
   \<exists>c. length (cDigitSub pSmall pLarge z) = length pLarge \<and>
     val (cDigitSub pSmall pLarge z) + val pSmall + b = val pLarge + 2 ^ (32 * length pLarge) * c"
proof (induction pSmall pLarge z arbitrary: b rule: cDigitSub.induct)
  case (1 s pSmall l pLarge z)
  note d = liDigitMontgomery32_sub_digit [OF "1.prems"(2), of l s]
  define z1 :: "64 word" where "z1 = (z + ucast l) - ucast s"
  define b1 :: nat where "b1 = of_bool (unat l < unat s + b)"
  have b1: "b1 \<le> 1" by (simp add: b1_def)
  have z1: "0 - drop_bit 0x3F z1 = 0 - of_nat b1" unfolding z1_def b1_def "1.prems"(3) by (rule d(2))
  obtain c where c: "length (cDigitSub pSmall pLarge (0 - drop_bit 0x3F z1)) = length pLarge"
    "val (cDigitSub pSmall pLarge (0 - drop_bit 0x3F z1)) + val pSmall + b1 = val pLarge + 2 ^ (32 * length pLarge) * c"
    using "1.IH" [OF z1_def _ b1 z1] "1.prems"(1) by auto
  have "val (cDigitSub (s # pSmall) (l # pLarge) z) + val (s # pSmall) + b
      = (unat (ucast (z1 AND 0xFFFFFFFF) :: 32 word) + unat s + b)
        + 2 ^ 32 * (val (cDigitSub pSmall pLarge (0 - drop_bit 0x3F z1)) + val pSmall)"
    unfolding cDigitSub.simps Let_def z1_def [symmetric] val_32 by (simp only: distrib_left add_ac)
  also have "\<dots> = unat l + 2 ^ 32 * (val (cDigitSub pSmall pLarge (0 - drop_bit 0x3F z1)) + val pSmall + b1)"
    using d(1) unfolding z1_def b1_def "1.prems"(3) distrib_left by simp
  also have "\<dots> = val (l # pLarge) + 2 ^ (32 * length (l # pLarge)) * c"
    unfolding c(2) val_32 pow_32_Suc distrib_left by (simp only: ac_simps)
  finally show ?case using c(1) by (auto simp: Let_def z1_def)
next
  case (2 l pLarge z)
  note d = liDigitMontgomery32_sub_digit [OF "2.prems"(2), of l 0]
  define z1 :: "64 word" where "z1 = z + ucast l"
  define b1 :: nat where "b1 = of_bool (unat l < b)"
  have b1: "b1 \<le> 1" by (simp add: b1_def)
  have z1: "0 - drop_bit 0x3F z1 = 0 - of_nat b1" using d(2) unfolding z1_def b1_def "2.prems"(3) by simp
  obtain c where c: "length (cDigitSub [] pLarge (0 - drop_bit 0x3F z1)) = length pLarge"
    "val (cDigitSub [] pLarge (0 - drop_bit 0x3F z1)) + b1 = val pLarge + 2 ^ (32 * length pLarge) * c"
    using "2.IH" [OF z1_def _ b1 z1] by auto
  have "val (cDigitSub [] (l # pLarge) z) + val ([] :: digits) + b
      = (unat (ucast (z1 AND 0xFFFFFFFF) :: 32 word) + b) + 2 ^ 32 * val (cDigitSub [] pLarge (0 - drop_bit 0x3F z1))"
    unfolding cDigitSub.simps Let_def z1_def [symmetric] val_32 by (simp only: val.simps add_ac add_0_left)
  also have "\<dots> = unat l + 2 ^ 32 * (val (cDigitSub [] pLarge (0 - drop_bit 0x3F z1)) + b1)"
    using d(1) unfolding z1_def b1_def "2.prems"(3) distrib_left by simp
  also have "\<dots> = val (l # pLarge) + 2 ^ (32 * length (l # pLarge)) * c"
    unfolding c(2) val_32 pow_32_Suc distrib_left by (simp only: ac_simps)
  finally show ?case using c(1) by (auto simp: Let_def z1_def)
qed simp_all

lemma cDigitSub_difference:
  fixes p q :: digits
  assumes "length p \<le> length q" "val p \<le> val q"
  shows "length (cDigitSub p q 0) = length q" "val (cDigitSub p q 0) = val q - val p"
proof -
  obtain c where c: "length (cDigitSub p q 0) = length q"
    "val (cDigitSub p q 0) + val p + 0 = val q + 2 ^ (32 * length q) * c"
    using cDigitSub_val [OF assms(1), of 0 0] by auto
  have "c = 0"
  proof (rule ccontr)
    assume "c \<noteq> 0"
    then have "2 ^ (32 * length q) * 1 \<le> (2 :: nat) ^ (32 * length q) * c" by (intro mult_le_mono2) simp
    then show False using c(2) val_lt_32 [of "cDigitSub p q 0", unfolded c(1)] assms(2) by linarith
  qed
  then show "length (cDigitSub p q 0) = length q" "val (cDigitSub p q 0) = val q - val p" using c by simp_all
qed

lemma skip_equal_val:
  fixes p q :: digits
  assumes "n \<le> length p" "n \<le> length q"
  shows "skip_equal p q n \<le> n \<and> (0 < n \<longrightarrow> 0 < skip_equal p q n) \<and>
    (\<exists>X. val (take n p) = val (take (skip_equal p q n) p) + X \<and> val (take n q) = val (take (skip_equal p q n) q) + X) \<and>
    (1 < skip_equal p q n \<longrightarrow> p ! (skip_equal p q n - 1) \<noteq> q ! (skip_equal p q n - 1))"
  using assms
proof (induction p q n rule: skip_equal.induct)
  case (3 p q n)
  show ?case
  proof (cases "p ! Suc n = q ! Suc n")
    case True
    obtain X where X: "val (take (Suc n) p) = val (take (skip_equal p q (Suc n)) p) + X"
      "val (take (Suc n) q) = val (take (skip_equal p q (Suc n)) q) + X"
      using "3.IH" [OF True] "3.prems" by auto
    have "val (take (Suc (Suc n)) p) = val (take (skip_equal p q (Suc n)) p) + (X + 2 ^ (32 * Suc n) * unat (p ! Suc n))"
      "val (take (Suc (Suc n)) q) = val (take (skip_equal p q (Suc n)) q) + (X + 2 ^ (32 * Suc n) * unat (p ! Suc n))"
      using val_take_Suc [of "Suc n" p] val_take_Suc [of "Suc n" q] "3.prems" X True by simp_all
    then show ?thesis using True "3.IH" [OF True] "3.prems" by auto
  qed (use "3.prems" in auto)
qed auto

lemma normalized_longer:
  assumes "length dy = max 1 ((bit_length (val dy) + 31) div 32)" "length dx < length dy" "0 < length dx"
  shows "val (dx :: digits) < val (dy :: digits)"
proof -
  have "\<not> (bit_length (val dy) + 31) div 32 \<le> length dx" using assms by (auto simp: max_def split: if_splits)
  then have "2 ^ (32 * length dx) \<le> val dy"
    using digit_length_le_iff [of "val dy" "length dx"] unfolding digit_length by simp
  then show ?thesis using val_lt_32 [of dx] by simp
qed

lemma top_digits_decide:
  fixes p q :: digits
  assumes "0 < n" "n \<le> length p" "n \<le> length q" "p ! (n - 1) < q ! (n - 1)"
  shows "val (take n p) < val (take n q)"
proof -
  obtain m where m: "n = Suc m" using assms(1) by (cases n) auto
  have "Suc (unat (p ! m)) \<le> unat (q ! m)" using assms(4) m by (simp add: word_less_nat_alt Suc_le_eq)
  then have "2 ^ (32 * m) * Suc (unat (p ! m)) \<le> 2 ^ (32 * m) * unat (q ! m)" by (rule mult_le_mono2)
  moreover have "val (take m p) < 2 ^ (32 * m)" using val_take_lt [of m p] by simp
  ultimately show ?thesis
    using val_take_Suc [of m p] val_take_Suc [of m q] assms(2,3) m by simp
qed

lemma digitSub_val:
  assumes "normalized_integer x" "normalized_integer y"
  shows "answers h (digitSub h x y)
    (canonical (if magnitude x < magnitude y then \<not> is_negative x else is_negative x)
      (if magnitude x < magnitude y then magnitude y - magnitude x else magnitude x - magnitude y))"
proof -
  obtain dx where x: "operand x = Some dx" "val dx = magnitude x" "length dx = max 1 ((bit_length (val dx) + 31) div 32)"
    using operand_normalized [OF assms(1)] by metis
  obtain dy where y: "operand y = Some dy" "val dy = magnitude y" "length dy = max 1 ((bit_length (val dy) + 31) div 32)"
    using operand_normalized [OF assms(2)] by metis
  have pos: "0 < length dx" "0 < length dy" using x(3) y(3) by simp_all
  define k where "k = skip_equal dx dy (length dx)"
  define nx where "nx = (if length dx = length dy then k else length dx)"
  define ny where "ny = (if length dx = length dy then k else length dy)"
  obtain fl sl where fs: "(if length dx = length dy then (k, k) else (length dx, length dy)) = (fl, sl)" by fastforce
  have fl: "fl = nx" "sl = ny" using fs by (auto simp: nx_def ny_def split: if_splits)
  define smaller where "smaller = (nx < ny \<or> (nx = ny \<and> nx > 0 \<and> dx ! (nx - 1) < dy ! (nx - 1)))"
  have le: "nx \<le> length dx" "ny \<le> length dy" "0 < nx" "0 < ny"
    using skip_equal_val [of "length dx" dx dy] pos by (auto simp: nx_def ny_def k_def)
  obtain X where X: "magnitude x = val (take nx dx) + X" "magnitude y = val (take ny dy) + X"
  proof (cases "length dx = length dy")
    case True
    then show thesis
      using that skip_equal_val [of "length dx" dx dy] x(2) y(2) by (auto simp: nx_def ny_def k_def)
  qed (use that [of 0] x(2) y(2) in \<open>simp add: nx_def ny_def\<close>)
  have order: "smaller \<longleftrightarrow> val (take nx dx) < val (take ny dy)" "\<not> smaller \<Longrightarrow> ny \<le> nx" "smaller \<Longrightarrow> nx \<le> ny"
  proof -
    consider "length dx < length dy" | "length dy < length dx" | "length dx = length dy" by linarith
    then have "(smaller \<longleftrightarrow> val (take nx dx) < val (take ny dy)) \<and> (\<not> smaller \<longrightarrow> ny \<le> nx) \<and> (smaller \<longrightarrow> nx \<le> ny)"
    proof cases
      case 1
      then show ?thesis using normalized_longer [OF y(3) 1 pos(1)] by (simp add: smaller_def nx_def ny_def)
    next
      case 2
      then show ?thesis using normalized_longer [OF x(3) 2 pos(2)] by (simp add: smaller_def nx_def ny_def)
    next
      case 3
      then have n: "ny = nx" by (simp add: nx_def ny_def)
      have ls: "nx \<le> length dy" using le(2) n by simp
      consider "dx ! (nx - 1) < dy ! (nx - 1)" | "dy ! (nx - 1) < dx ! (nx - 1)" | "dx ! (nx - 1) = dy ! (nx - 1)"
        by (meson linorder_less_linear)
      then show ?thesis
      proof cases
        case 1
        then show ?thesis using top_digits_decide [OF le(3,1) ls 1] le(3) by (simp add: smaller_def n)
      next
        case 2
        then show ?thesis using top_digits_decide [OF le(3) ls le(1) 2] le(3) by (auto simp: smaller_def n)
      next
        case c: 3
        have "nx = 1"
        proof (rule ccontr)
          assume "nx \<noteq> 1"
          then have "1 < k" using le(3) 3 by (simp add: nx_def)
          then show False using skip_equal_val [of "length dx" dx dy] 3 c by (auto simp: nx_def k_def)
        qed
        moreover from this have "take nx dx = take nx dy"
          using c pos by (cases dx; cases dy) simp_all
        ultimately show ?thesis using c by (simp add: smaller_def n)
      qed
    qed
    then show "smaller \<longleftrightarrow> val (take nx dx) < val (take ny dy)" "\<not> smaller \<Longrightarrow> ny \<le> nx" "smaller \<Longrightarrow> nx \<le> ny" by blast+
  qed
  define n where "n = (if smaller then ny else nx)"
  define m where "m = (if smaller then nx else ny)"
  define neg where "neg = (if smaller then \<not> is_negative x else is_negative x)"
  define r where "r = (if smaller then cDigitSub (take m dx) (take n dy) 0 else cDigitSub (take m dy) (take n dx) 0)"
  define allocated where "allocated = (\<not> n \<le> LIStackDigits)"
  have e: "digitSub h x y = (if allocated \<and> instantiate h 0 (n * 4) = None then Some (Inl PrimErrNoMemory)
      else normalized_result h 1 allocated (n * 4) r n neg)"
  proof -
    have t: "(if smaller then (ny, nx, \<not> is_negative x) else (nx, ny, is_negative x)) = (n, m, neg)"
      by (simp add: n_def m_def neg_def)
    show ?thesis
      unfolding digitSub_def x(1) y(1) bind.bind_lunit Let_def k_def [symmetric] fs prod.case
      unfolding fl smaller_def [symmetric] t prod.case allocated_def [symmetric] r_def [symmetric] ..
  qed
  have r: "length r = n" "val r = (if smaller then magnitude y - magnitude x else magnitude x - magnitude y)"
    using cDigitSub_difference [of "take nx dx" "take ny dy"] cDigitSub_difference [of "take ny dy" "take nx dx"] order le X
    by (auto simp: r_def n_def m_def)
  have sm: "smaller \<longleftrightarrow> magnitude x < magnitude y" using order(1) X by simp
  have "answers h (normalized_result h 1 allocated (n * 4) r n neg) (canonical neg (val (take n r)))"
    using val_lt_32 [of r] r(1) by (intro normalized_result_canonical) (auto simp: mult.commute)
  moreover have "instantiate h 0 (n * 4) = None \<Longrightarrow> \<exists>k n. \<not> instantiates h k n"
    by (auto simp: instantiate_def split: if_splits)
  ultimately have "answers h (digitSub h x y) (canonical neg (val r))"
    using r(1) unfolding e answers_def by auto
  then show ?thesis unfolding r(2) neg_def sm .
qed

subsection \<open>The comparison\<close>

lemma cDigitCompare_val:
  fixes p q :: digits
  shows "n \<le> length p \<Longrightarrow> n \<le> length q \<Longrightarrow>
    cDigitCompare p q n = sgn (int (val (take n p)) - int (val (take n q)))"
proof (induction n)
  case (Suc n)
  show ?case
  proof (cases "q ! n = p ! n")
    case True
    then show ?thesis using Suc val_take_Suc [of n p] val_take_Suc [of n q] by simp
  next
    case False
    then consider "q ! n < p ! n" | "p ! n < q ! n" by (meson linorder_neqE)
    then show ?thesis
    proof cases
      case 1
      then have "val (take (Suc n) q) < val (take (Suc n) p)"
        using top_digits_decide [of "Suc n" q p] Suc.prems by simp
      then show ?thesis using 1 False by simp
    next
      case 2
      then have "val (take (Suc n) p) < val (take (Suc n) q)"
        using top_digits_decide [of "Suc n" p q] Suc.prems by simp
      then show ?thesis using 2 False by (simp add: order.asym)
    qed
  qed
qed simp

lemma normalized_large:
  assumes "normalized_integer (LargeInteger neg n ds)"
  shows "n = byte_length (val ds)" "length ds = (bit_length (val ds) + 31) div 32" "\<not> is_small neg (val ds)"
proof -
  have c: "LargeInteger neg n ds = canonical neg (val ds)"
    using assms by (simp add: normalized_integer_def is_negative_def magnitude_def)
  show ns: "\<not> is_small neg (val ds)"
    using c canonical_cases(1,2) [of "val ds"] by (cases neg) auto
  show n: "n = byte_length (val ds)" using c canonical_cases(3) [OF ns] by simp
  show "length ds = (bit_length (val ds) + 31) div 32"
    using normalized_ok [OF assms] by (simp add: integer_ok_def n digit_length)
qed

lemma large_magnitude: "normalized_integer (LargeInteger neg n ds) \<Longrightarrow> 2 ^ 60 \<le> magnitude (LargeInteger neg n ds)"
  using normalized_large(3) [of neg n ds] by (cases neg) (simp_all add: is_small_def magnitude_def)

lemma small_magnitude:
  "normalized_integer (SmallInteger v) \<Longrightarrow> magnitude (SmallInteger v) \<le> 2 ^ 60 \<and> int (magnitude (SmallInteger v)) = \<bar>v\<bar>"
  by (simp add: normalized_small magnitude_def) linarith

lemma digitCompare_val:
  assumes "normalized_integer x" "normalized_integer y"
    and "(case (x, y) of (SmallInteger v, LargeInteger _ _ _) \<Rightarrow> magnitude x \<noteq> magnitude y
      | (LargeInteger _ _ _, SmallInteger v) \<Rightarrow> magnitude x \<noteq> magnitude y | _ \<Rightarrow> True)"
  shows "digitCompare x y = Some (sgn (int (magnitude x) - int (magnitude y)))"
proof (cases x)
  case sx: (SmallInteger v)
  show ?thesis
  proof (cases y)
    case (SmallInteger w)
    then show ?thesis using sx by (simp add: digitCompare_def magnitude_def Let_def)
  next
    case (LargeInteger neg n ds)
    then have "2 ^ 60 \<le> magnitude y" using large_magnitude assms(2) by blast
    then have "magnitude x < magnitude y" using small_magnitude [of v] sx assms(1,3) LargeInteger by auto
    then show ?thesis using sx LargeInteger by (simp add: digitCompare_def)
  qed
next
  case lx: (LargeInteger neg n ds)
  show ?thesis
  proof (cases y)
    case (SmallInteger w)
    have "2 ^ 60 \<le> magnitude x" using large_magnitude assms(1) lx by blast
    then have "magnitude y < magnitude x" using small_magnitude [of w] SmallInteger assms(2,3) lx by auto
    then show ?thesis using lx SmallInteger by (simp add: digitCompare_def)
  next
    case (LargeInteger neg' n' ds')
    note l1 = normalized_large [OF assms(1) [unfolded lx]] and l2 = normalized_large [OF assms(2) [unfolded LargeInteger]]
    have len: "(n + 3) div 4 = length ds" "(n' + 3) div 4 = length ds'"
      using l1 l2 by (simp_all add: digit_length)
    have longer: "val a < val b" if "length a < length b" "length b = (bit_length (val b) + 31) div 32" for a b :: digits
    proof -
      have "\<not> (bit_length (val b) + 31) div 32 \<le> length a" using that by simp
      then have "2 ^ (32 * length a) \<le> val b"
        using digit_length_le_iff [of "val b" "length a"] unfolding digit_length by simp
      then show ?thesis using val_lt_32 [of a] by simp
    qed
    have "digitCompareLarge n ds n' ds' = Some (sgn (int (val ds) - int (val ds')))"
      using longer [of ds ds'] longer [of ds' ds] l1(2) l2(2) cDigitCompare_val [of "length ds" ds ds']
      by (cases "length ds" "length ds'" rule: linorder_cases) (simp_all add: digitCompareLarge_def len)
    then show ?thesis using lx LargeInteger by (simp add: digitCompare_def magnitude_def)
  qed
qed

subsection \<open>Bit logic\<close>

lemma bit_join: "x < 2 ^ k \<Longrightarrow> bit (x + 2 ^ k * y) i = (if i < k then bit x i else bit (y :: nat) (i - k))"
proof -
  assume x: "x < 2 ^ k"
  then have "x = take_bit k x" by (simp add: take_bit_nat_eq_self)
  then have "bit x i \<Longrightarrow> i < k" by (metis bit_take_bit_iff)
  moreover have "bit (x + 2 ^ k * y) i \<longleftrightarrow> bit x i \<or> (k \<le> i \<and> bit y (i - k))"
    using or_low_bits [OF x, of y, symmetric] by (simp add: bit_or_iff bit_push_bit_iff push_bit_eq_mult [symmetric] mult.commute)
  ultimately show ?thesis by auto
qed

lemma unat_bit: "bit (unat w) i = bit (w :: 'l::len word) i"
  by (simp add: bit_unsigned_iff)

definition apply_op :: "bit_op \<Rightarrow> nat \<Rightarrow> nat \<Rightarrow> nat" where
  "apply_op opIx a b = (case opIx of AndOp \<Rightarrow> a AND b | OrOp \<Rightarrow> a OR b | XorOp \<Rightarrow> a XOR b)"

definition bool_op :: "bit_op \<Rightarrow> bool \<Rightarrow> bool \<Rightarrow> bool" where
  "bool_op opIx a b = (case opIx of AndOp \<Rightarrow> a \<and> b | OrOp \<Rightarrow> a \<or> b | XorOp \<Rightarrow> a \<noteq> b)"

lemma bit_apply_op: "bit (apply_op opIx a b) i = bool_op opIx (bit a i) (bit b i)"
  by (cases opIx) (simp_all add: apply_op_def bool_op_def bit_and_iff bit_or_iff bit_xor_iff)

lemma bit_apply_word:
  "bit (case opIx of AndOp \<Rightarrow> s AND l | OrOp \<Rightarrow> s OR l | XorOp \<Rightarrow> s XOR (l :: 32 word)) i = bool_op opIx (bit s i) (bit l i)"
  by (cases opIx) (simp_all add: bool_op_def bit_and_iff bit_or_iff bit_xor_iff)

lemma cDigitOp_val:
  "length pShort \<le> length pLong \<Longrightarrow>
   length (cDigitOp opIx pShort pLong) = length pLong \<and> val (cDigitOp opIx pShort pLong) = apply_op opIx (val pShort) (val pLong)"
proof (induction opIx pShort pLong rule: cDigitOp.induct)
  case (1 opIx s pShort l pLong)
  have lt: "unat w < 2 ^ 32" for w :: "32 word" using unat_lt [of w] by simp
  have "val (cDigitOp opIx (s # pShort) (l # pLong)) = apply_op opIx (val (s # pShort)) (val (l # pLong))"
  proof (rule bit_eqI)
    fix i
    show "bit (val (cDigitOp opIx (s # pShort) (l # pLong))) i = bit (apply_op opIx (val (s # pShort)) (val (l # pLong))) i"
      using 1 unfolding cDigitOp.simps val_32 bit_apply_op by (simp only: bit_join [OF lt] unat_bit bit_apply_word length_Cons Suc_le_mono simp_thms split: if_splits) (simp add: bit_apply_op)
  qed
  then show ?case using 1 by simp
next
  case (2 opIx l pLong)
  then show ?case by (cases opIx) (simp_all add: apply_op_def)
qed (auto simp: apply_op_def split: bit_op.splits)

lemma apply_op_commute: "apply_op opIx a b = apply_op opIx b a"
  by (cases opIx) (simp_all add: apply_op_def ac_simps)

lemma apply_op_less: "a < 2 ^ k \<Longrightarrow> b < 2 ^ k \<Longrightarrow> apply_op opIx a b < 2 ^ k"
proof -
  assume "a < 2 ^ k" "b < 2 ^ k"
  then have "take_bit k a = a" "take_bit k b = b" by (simp_all add: take_bit_nat_eq_self)
  then have "take_bit k (apply_op opIx a b) = apply_op opIx a b"
    by (cases opIx) (simp_all add: apply_op_def)
  then show ?thesis by (metis take_bit_nat_less_exp)
qed

lemma digitBitLogic_val:
  assumes "integer_ok x" "integer_ok y" "\<not> is_negative x" "\<not> is_negative y"
  shows "answers h (digitBitLogic h x y opIx) (canonical False (apply_op opIx (magnitude x) (magnitude y)))"
proof -
  obtain px nx where x: "pointerToDigitsOf x = (px, nx)" by fastforce
  obtain py ny where y: "pointerToDigitsOf y = (py, ny)" by fastforce
  note vx = operand_val(2-4) [OF assms(1) x] and vy = operand_val(2-4) [OF assms(2) y]
  note lx = pointerToDigitsOf_val(1) [OF assms(1) x] and ly = pointerToDigitsOf_val(1) [OF assms(2) y]
  define n where "n = (if nx < ny then ny else nx)"
  obtain sl ps pl where s: "(if nx < ny then (nx, px, py) else (ny, py, px)) = (sl, ps, pl)" by (metis prod_cases3)
  define allocated where "allocated = (\<not> (n + 3) div 4 \<le> LIStackDigits)"
  define r where "r = cDigitOp opIx (take ((sl + 3) div 4) ps) (take ((n + 3) div 4) pl)"
  have le: "(sl + 3) div 4 \<le> length ps" "(n + 3) div 4 \<le> length pl" "(sl + 3) div 4 \<le> (n + 3) div 4"
    using s lx ly by (auto simp: n_def div_le_mono split: if_splits)
  have v: "apply_op opIx (val (take ((sl + 3) div 4) ps)) (val (take ((n + 3) div 4) pl)) = apply_op opIx (magnitude x) (magnitude y)"
    using s vx(2) vy(2) apply_op_commute by (auto simp: n_def split: if_splits)
  have r: "length r = (n + 3) div 4" "val r = apply_op opIx (magnitude x) (magnitude y)"
    using cDigitOp_val [of "take ((sl + 3) div 4) ps" "take ((n + 3) div 4) pl" opIx] le v by (simp_all add: r_def)
  have lt: "val r < 2 ^ (8 * n)"
  proof -
    have up: "m < 2 ^ (8 * n)" if "m < 2 ^ (8 * k)" "k \<le> n" for m k :: nat
      using that less_le_trans power_increasing [of "8 * k" "8 * n" "2 :: nat"] by (meson mult_le_mono2 one_le_numeral)
    have "nx \<le> n" "ny \<le> n" by (auto simp: n_def)
    then show ?thesis unfolding r(2) using up vx(3) vy(3) by (intro apply_op_less) blast+
  qed
  have e: "digitBitLogic h x y opIx = (if allocated \<and> instantiate h 0 n = None then Some (Inl PrimErrNoMemory)
      else if \<not> allocated then normalizedIntegerFrom h 1 r ((n + 3) div 4) False else normalizePositive h 1 n r)"
    unfolding digitBitLogic_def x y Let_def prod.case n_def [symmetric] s allocated_def [symmetric] r_def [symmetric]
    using assms(3,4) le(1,2) by simp
  have "answers h (normalized_result h 1 allocated n r ((n + 3) div 4) False) (canonical False (val (take ((n + 3) div 4) r)))"
    using lt r(1) by (intro normalized_result_canonical) auto
  moreover have "instantiate h 0 n = None \<Longrightarrow> \<exists>k n. \<not> instantiates h k n"
    by (auto simp: instantiate_def split: if_splits)
  ultimately show ?thesis
    using r unfolding e answers_def normalized_result_def by auto
qed

subsection \<open>Shifts\<close>

lemma bit_length_shift: "0 < m \<Longrightarrow> bit_length (2 ^ k * m) = k + bit_length m"
  using bit_length_high [of 0 k m] by simp

lemma digitLshift_val:
  fixes ds :: digits
  assumes "0 < val ds"
  shows "\<exists>r. answers h (digitLshift h a ds s) (Integer (LargeInteger (is_negative a) (byte_length (val ds * 2 ^ s)) r)) \<and>
    length r = (byte_length (val ds * 2 ^ s) + 3) div 4 \<and> val r = val ds * 2 ^ s"
proof -
  define hb where "hb = bit_length (val ds)"
  have hb: "cDigitHighBit ds (length ds) = hb" "0 < hb" using assms by (simp_all add: cDigitHighBit_val hb_def bit_length_pos)
  have bl: "bit_length (val ds * 2 ^ s) = hb + s" using bit_length_shift [OF assms, of s] by (simp add: hb_def mult.commute)
  define m where "m = byte_length (val ds * 2 ^ s)"
  have m: "m = (hb + s + 7) div 8" by (simp add: m_def byte_length_def bl)
  define n where "n = (m + 3) div 4"
  have n: "n = (hb + s + 31) div 32" using digit_length [of "val ds * 2 ^ s"] by (simp add: n_def m_def bl)
  define f where "f = (hb + 0x1F) div 32"
  have f: "f = (bit_length (val ds) + 31) div 32" by (simp add: f_def hb_def)
  have fl: "f \<le> length ds"
    using digit_length_le_iff [of "val ds" "length ds"] val_lt_32 [of ds] unfolding f digit_length by blast
  have tk: "val (take f ds) = val ds"
  proof -
    have "val ds < 2 ^ (32 * f)" using digit_length_le_iff [of "val ds" f] unfolding digit_length f by blast
    then show ?thesis by (simp add: val_take_32)
  qed
  have sp: "s = 32 * (s div 32) + s mod 32" by simp
  have lens: "s div 32 + f \<le> n" "n \<le> s div 32 + f + 1" "s mod 32 = 0 \<Longrightarrow> n = s div 32 + f"
  proof -
    have "hb + s + 31 = (hb + s mod 32 + 31) + 32 * (s div 32)" using sp by linarith
    then have n': "n = (hb + s mod 32 + 31) div 32 + s div 32" unfolding n by (simp only: div_mult_self2 zero_neq_numeral)
    have "f \<le> (hb + s mod 32 + 31) div 32" unfolding f_def by (intro div_le_mono) simp
    moreover have "(hb + s mod 32 + 31) div 32 \<le> (hb + 0x1F + 32) div 32" by (intro div_le_mono) simp
    then have "(hb + s mod 32 + 31) div 32 \<le> f + 1" unfolding f_def by simp
    ultimately show "s div 32 + f \<le> n" "n \<le> s div 32 + f + 1" unfolding n' by linarith+
    show "s mod 32 = 0 \<Longrightarrow> n = s div 32 + f" unfolding n' f_def by simp
  qed
  have "val (take f ds) * 2 ^ s < 2 ^ (32 * n)"
    unfolding tk using digit_length_le_iff [of "val ds * 2 ^ s" n] by (simp add: n_def m_def)
  then obtain r where r: "cDigitLshift s ds f (replicate n 0) n = Some r" "length r = n" "val r = val ds * 2 ^ s"
    using cDigitLshift_val [of f ds "replicate n 0" n s] fl lens tk by auto
  have e: "digitLshift h a ds s = (case instantiate h 0 m of
       None \<Rightarrow> Some (Inl PrimErrNoMemory)
     | Some newOop \<Rightarrow> do { r \<leftarrow> cDigitLshift s ds f newOop n; Some (Inr (Integer (LargeInteger (is_negative a) m r))) })"
    using hb unfolding digitLshift_def Let_def m [symmetric] f_def [symmetric] n_def [symmetric] hb(1) by simp
  have "answers h (digitLshift h a ds s) (Integer (LargeInteger (is_negative a) m r))"
    by (rule instantiate_cases [of h 0 m]) (simp_all add: e answers_def r(1) flip: n_def)
  then show ?thesis using r unfolding m_def n_def by blast
qed

lemma digitLshift_zero:
  assumes "val (ds :: digits) = 0"
  shows "digitLshift h a ds s = Some (Inr (if instantiates h 0 1 then Integer (LargeInteger (is_negative a) 1 [0]) else NullOop))"
proof -
  have "cDigitHighBit ds (length ds) = 0" by (simp add: cDigitHighBit_val assms)
  then show ?thesis by (simp add: digitLshift_def instantiate_def)
qed

lemma digitRshift_val:
  fixes ds :: digits
  shows "answers h (digitRshift h a ds s) (canonical (is_negative a) (val ds div 2 ^ s))"
proof -
  define ob where "ob = bit_length (val ds)"
  have ob: "cDigitHighBit ds (length ds) = ob" by (simp add: cDigitHighBit_val ob_def)
  show ?thesis
  proof (cases "ob \<le> s")
    case True
    then have "val ds < 2 ^ s" unfolding ob_def bit_length_le_iff .
    then show ?thesis using True by (simp add: digitRshift_def ob answers_def)
  next
    case False
    then have big: "2 ^ s \<le> val ds" unfolding ob_def bit_length_le_iff by simp
    then have Q0: "0 < val ds div 2 ^ s" by (simp add: div_greater_zero_iff)
    have bl: "bit_length (val ds div 2 ^ s) = ob - s" using bit_length_drop [OF big] by (simp add: ob_def)
    define f where "f = (ob + 0x1F) div 32"
    have f: "f = (bit_length (val ds) + 31) div 32" by (simp add: f_def ob_def)
    have fl: "f \<le> length ds"
      using digit_length_le_iff [of "val ds" "length ds"] val_lt_32 [of ds] unfolding f digit_length by blast
    have tk: "val (take f ds) = val ds"
    proof -
      have "val ds < 2 ^ (32 * f)" using digit_length_le_iff [of "val ds" f] unfolding digit_length f by blast
      then show ?thesis by (simp add: val_take_32)
    qed
    define n where "n = (ob - s + 0x1F) div 32"
    have n: "n = (bit_length (val ds div 2 ^ s) + 31) div 32" by (simp add: n_def bl)
    have shift: "\<exists>r. cDigitRshift s ds f pTo n = Some r \<and> length r = length pTo \<and> val (take n r) = val ds div 2 ^ s"
      if "n \<le> length pTo" for pTo
      using cDigitRshift_val [of f ds n s pTo, unfolded tk, OF fl f n that Q0] .
    define m where "m = (ob - s + 7) div 8"
    have m: "m = byte_length (val ds div 2 ^ s)" by (simp add: m_def byte_length_def bl)
    have nm: "(m + 3) div 4 = n" using digit_length [of "val ds div 2 ^ s"] by (simp add: n m)
    have e: "digitRshift h a ds s =
       (if n \<le> LIStackDigits
        then do { b \<leftarrow> cDigitRshift s ds f (uninitialised h 0 LIStackDigits) n; normalizedIntegerFrom h 0 b n (is_negative a) }
        else case instantiate h 0 m of
               None \<Rightarrow> Some (Inl PrimErrNoMemory)
             | Some newOop \<Rightarrow> do { r \<leftarrow> cDigitRshift s ds f newOop n; Some (Inr (LargeInteger (is_negative a) m r)) })"
      using False unfolding digitRshift_def Let_def ob n_def [symmetric] m_def [symmetric] f_def [symmetric] by simp
    show ?thesis
    proof (cases "n \<le> LIStackDigits")
      case True
      have ul: "length (uninitialised h 0 LIStackDigits) = LIStackDigits" by (simp add: uninitialised_def)
      obtain r where r: "cDigitRshift s ds f (uninitialised h 0 LIStackDigits) n = Some r" "length r = LIStackDigits"
        "val (take n r) = val ds div 2 ^ s"
        using shift [of "uninitialised h 0 LIStackDigits"] True unfolding ul by blast
      then show ?thesis using True normalizedIntegerFrom_canonical [of n r h 0 "is_negative a"] by (simp add: e)
    next
      case big: False
      obtain r where r: "cDigitRshift s ds f (replicate n 0) n = Some r" "length r = n" "val r = val ds div 2 ^ s"
        using shift [of "replicate n 0"] by auto
      have "\<not> n \<le> 2" using big by simp
      then have "\<not> val ds div 2 ^ s < 2 ^ (32 * 2)"
        using digit_length_le_iff [of "val ds div 2 ^ s" 2] unfolding digit_length n by simp
      then have "\<not> is_small (is_negative a) (val ds div 2 ^ s)" by (simp add: is_small_def)
      then have "canonical (is_negative a) (val ds div 2 ^ s) = LargeInteger (is_negative a) m r"
        using digits_of_eqI [of r] r nm by (simp add: canonical_cases(3) m)
      then show ?thesis
        by (rule_tac instantiate_cases [of h 0 m]) (use big r in \<open>simp_all add: e answers_def nm\<close>)
    qed
  qed
qed

subsection \<open>Bits of an interval\<close>

lemma bit_val_digits:
  "bit (val (ds :: digits)) i \<longleftrightarrow> i div 32 < length ds \<and> bit (ds ! (i div 32)) (i mod 32)"
proof (induction ds arbitrary: i)
  case (Cons d ds)
  have lt: "unat d < 2 ^ 32" using unat_lt [of d] by simp
  show ?case
  proof (cases "i < 32")
    case True
    then show ?thesis unfolding val_32 bit_join [OF lt] by (simp add: unat_bit)
  next
    case False
    then have i: "i div 32 = Suc ((i - 32) div 32)" "i mod 32 = (i - 32) mod 32"
      by (simp_all add: le_div_geq le_mod_geq)
    show ?thesis unfolding val_32 bit_join [OF lt] using False Cons.IH [of "i - 32"] by (simp add: i)
  qed
qed simp

lemma mask_bits:
  "i < 32 \<Longrightarrow> bit (ucast (push_bit k 0xFFFFFFFF :: 64 word) :: 32 word) i \<longleftrightarrow> k \<le> i"
  "k < 32 \<Longrightarrow> i < 32 \<Longrightarrow> bit (ucast (drop_bit (0x1F - k) 0xFFFFFFFF :: 64 word) :: 32 word) i \<longleftrightarrow> i \<le> k"
proof -
  have m: "(0xFFFFFFFF :: 64 word) = mask 32" by (simp add: mask_eq_exp_minus_1)
  show "i < 32 \<Longrightarrow> bit (ucast (push_bit k 0xFFFFFFFF :: 64 word) :: 32 word) i \<longleftrightarrow> k \<le> i"
    unfolding m by (simp add: bit_ucast_iff bit_push_bit_iff bit_mask_iff) linarith
  show "k < 32 \<Longrightarrow> i < 32 \<Longrightarrow> bit (ucast (drop_bit (0x1F - k) 0xFFFFFFFF :: 64 word) :: 32 word) i \<longleftrightarrow> i \<le> k"
    unfolding m by (simp add: bit_ucast_iff bit_drop_bit_eq bit_mask_iff) linarith
qed

lemma word_nonzero_bit: "(w :: 32 word) \<noteq> 0 \<longleftrightarrow> (\<exists>i<32. bit w i)"
proof
  assume "w \<noteq> 0"
  then obtain i where "bit w i" by (auto simp: bit_eq_iff)
  moreover from this have "i < 32" using bit_imp_le_length [of w i] by simp
  ultimately show "\<exists>i<32. bit w i" by blast
next
  assume "\<exists>i<32. bit w i"
  then show "w \<noteq> 0" by auto
qed

lemma interval_digits:
  assumes "s \<le> e"
  shows "(\<exists>i. s \<le> i \<and> i \<le> e \<and> bit (val (ds :: digits)) i) \<longleftrightarrow>
    (\<exists>j. s div 32 \<le> j \<and> j \<le> e div 32 \<and> j < length ds \<and> (\<exists>i<32. s \<le> 32 * j + i \<and> 32 * j + i \<le> e \<and> bit (ds ! j) i))"
    (is "?L \<longleftrightarrow> ?R")
proof
  assume ?L
  then obtain i where "s \<le> i" "i \<le> e" "bit (val ds) i" by blast
  moreover have "32 * (i div 32) + i mod 32 = i" "i mod 32 < 32" by simp_all
  ultimately show ?R unfolding bit_val_digits by (metis div_le_mono)
next
  assume ?R
  then obtain j i where ji: "j < length ds" "i < 32" "s \<le> 32 * j + i" "32 * j + i \<le> e" "bit (ds ! j) i" by blast
  then have "(32 * j + i) div 32 = j" "(32 * j + i) mod 32 = i" by simp_all
  then have "bit (val ds) (32 * j + i)" using ji unfolding bit_val_digits by simp
  then show ?L using ji by blast
qed

lemma anyBitOfDigits_val:
  fixes ds :: digits
  assumes "1 \<le> start" "1 \<le> stopArg"
  shows "anyBitOfDigits ds start stopArg = Some (Inr (\<exists>i. nat start \<le> i + 1 \<and> i < nat stopArg \<and> bit (val ds) i))"
proof -
  define hb where "hb = bit_length (val ds)"
  have hb: "cDigitHighBit ds (length ds) = hb" by (simp add: cDigitHighBit_val hb_def)
  have top: "bit (val ds) i \<Longrightarrow> i < hb" for i
  proof -
    have "val ds < 2 ^ hb" unfolding hb_def bit_length_le_iff [symmetric] by simp
    then have "take_bit hb (val ds) = val ds" by (simp add: take_bit_nat_eq_self)
    then show "bit (val ds) i \<Longrightarrow> i < hb" by (metis bit_take_bit_iff)
  qed
  define stop where "stop = (if stopArg < int hb then stopArg else int hb)"
  show ?thesis
  proof (cases "start > stop")
    case True
    then have "\<not> (\<exists>i. nat start \<le> i + 1 \<and> i < nat stopArg \<and> bit (val ds) i)"
      using top unfolding stop_def by (fastforce split: if_splits)
    then show ?thesis using True assms unfolding anyBitOfDigits_def hb Let_def stop_def [symmetric] by simp
  next
    case False
    define s where "s = nat start - 1"
    define e where "e = nat stop - 1"
    have se: "s \<le> e" using False by (simp add: s_def e_def)
    have "hb \<le> 32 * length ds" unfolding hb_def bit_length_le_iff by (rule val_lt_32)
    moreover have "e < hb" using False assms unfolding e_def stop_def by (simp split: if_splits; linarith)
    ultimately have el: "e div 32 < length ds" by (intro less_mult_imp_div_less) (simp add: mult.commute)
    have range: "nat start \<le> i + 1 \<and> i < nat stopArg \<and> bit (val ds) i \<longleftrightarrow> s \<le> i \<and> i \<le> e \<and> bit (val ds) i" for i
    proof (cases "bit (val ds) i")
      case True
      then show ?thesis using top [of i] False assms unfolding s_def e_def stop_def by (simp split: if_splits; linarith)
    qed simp
    define a where "a = s div 32"
    define b where "b = e div 32"
    have ab: "a \<le> b" "b < length ds" using se el by (simp_all add: a_def b_def div_le_mono)
    have sa: "s = 32 * a + s mod 32" "s mod 32 < 32" and eb: "e = 32 * b + e mod 32" "e mod 32 < 32" by (simp_all add: a_def b_def)
    define first where "first = (ucast (push_bit (s mod 32) 0xFFFFFFFF :: 64 word) :: 32 word)"
    define last where "last = (ucast (drop_bit (0x1F - e mod 32) 0xFFFFFFFF :: 64 word) :: 32 word)"
    have first: "ds ! a AND first \<noteq> 0 \<longleftrightarrow> (\<exists>i<32. s \<le> 32 * a + i \<and> bit (ds ! a) i)"
      unfolding word_nonzero_bit bit_and_iff first_def using mask_bits(1) [of _ "s mod 32"] sa(1) by (metis nat_add_left_cancel_le)
    have last: "ds ! b AND last \<noteq> 0 \<longleftrightarrow> (\<exists>i<32. 32 * b + i \<le> e \<and> bit (ds ! b) i)"
      unfolding word_nonzero_bit bit_and_iff last_def using mask_bits(2) [OF eb(2)] eb(1) by (metis nat_add_left_cancel_le)
    have both: "ds ! a AND (first AND last) \<noteq> 0 \<longleftrightarrow> (\<exists>i<32. s \<le> 32 * a + i \<and> 32 * a + i \<le> e \<and> bit (ds ! a) i)" if "a = b"
      unfolding word_nonzero_bit bit_and_iff first_def last_def
      using mask_bits(1) [of _ "s mod 32"] mask_bits(2) [OF eb(2)] sa(1) eb(1) that by (metis nat_add_left_cancel_le)
    have mid: "list_ex (\<lambda>d. d \<noteq> 0) (drop (a + 1) (take b ds)) \<longleftrightarrow> (\<exists>j. a < j \<and> j < b \<and> ds ! j \<noteq> 0)"
    proof -
      have "(\<exists>d \<in> set (drop (a + 1) (take b ds)). d \<noteq> 0) \<longleftrightarrow> (\<exists>j. a < j \<and> j < b \<and> ds ! j \<noteq> 0)" (is "?L \<longleftrightarrow> ?R")
      proof
        assume ?L
        then obtain k where "k < length (drop (a + 1) (take b ds))" "drop (a + 1) (take b ds) ! k \<noteq> 0"
          by (auto simp: in_set_conv_nth)
        then show ?R using ab by (intro exI [of _ "a + 1 + k"]) simp
      next
        assume ?R
        then obtain j where j: "a < j" "j < b" "ds ! j \<noteq> 0" by blast
        then have "drop (a + 1) (take b ds) ! (j - a - 1) = ds ! j" "j - a - 1 < length (drop (a + 1) (take b ds))" using ab by simp_all
        then show ?L using j(3) nth_mem by metis
      qed
      then show ?thesis by (simp add: list_ex_iff)
    qed
    have "(\<exists>i. s \<le> i \<and> i \<le> e \<and> bit (val ds) i) \<longleftrightarrow>
        (if a = b then ds ! a AND (first AND last) \<noteq> 0
         else if ds ! a AND first \<noteq> 0 then True
         else if list_ex (\<lambda>d. d \<noteq> 0) (drop (a + 1) (take b ds)) then True
         else ds ! b AND last \<noteq> 0)"
    proof (cases "a = b")
      case True
      have "(\<exists>i. s \<le> i \<and> i \<le> e \<and> bit (val ds) i) \<longleftrightarrow> (\<exists>i<32. s \<le> 32 * a + i \<and> 32 * a + i \<le> e \<and> bit (ds ! a) i)"
        unfolding interval_digits [OF se] a_def [symmetric] b_def [symmetric] using ab True by (metis order.antisym order_refl)
      then show ?thesis using both True by simp
    next
      case ne: False
      then have lt: "a < b" using ab(1) by simp
      have up: "32 * a + i \<le> e" if "i < 32" for i using that lt eb(1) by linarith
      have low: "s \<le> 32 * b + i" for i using lt sa by linarith
      have inner: "s \<le> 32 * j + i \<and> 32 * j + i \<le> e" if "a < j" "j < b" "i < 32" for i j using that sa eb by linarith
      have "(\<exists>i. s \<le> i \<and> i \<le> e \<and> bit (val ds) i) \<longleftrightarrow>
          (\<exists>i<32. s \<le> 32 * a + i \<and> bit (ds ! a) i) \<or> (\<exists>j. a < j \<and> j < b \<and> ds ! j \<noteq> 0) \<or> (\<exists>i<32. 32 * b + i \<le> e \<and> bit (ds ! b) i)"
        (is "?L \<longleftrightarrow> ?A \<or> ?M \<or> ?B")
      proof
        assume ?L
        then obtain j i where ji: "a \<le> j" "j \<le> b" "i < 32" "s \<le> 32 * j + i" "32 * j + i \<le> e" "bit (ds ! j) i"
          unfolding interval_digits [OF se] a_def [symmetric] b_def [symmetric] by blast
        consider "j = a" | "j = b" | "a < j" "j < b" using ji(1,2) by linarith
        then show "?A \<or> ?M \<or> ?B"
        proof cases
          case 3
          then show ?thesis using ji(3,6) word_nonzero_bit [of "ds ! j"] by blast
        qed (use ji in blast)+
      next
        assume "?A \<or> ?M \<or> ?B"
        then obtain j i where "a \<le> j" "j \<le> b" "i < 32" "s \<le> 32 * j + i" "32 * j + i \<le> e" "bit (ds ! j) i"
        proof (elim disjE exE conjE)
          fix i assume "i < 32" "s \<le> 32 * a + i" "bit (ds ! a) i"
          then show thesis using that [of a i] up lt by simp
        next
          fix j assume j: "a < j" "j < b" "ds ! j \<noteq> 0"
          then obtain i where "i < 32" "bit (ds ! j) i" unfolding word_nonzero_bit by blast
          then show thesis using that [of j i] inner j by simp
        next
          fix i assume "i < 32" "32 * b + i \<le> e" "bit (ds ! b) i"
          then show thesis using that [of b i] low lt by simp
        qed
        then show ?L
          unfolding interval_digits [OF se] a_def [symmetric] b_def [symmetric] using ab(2) by (meson le_less_trans)
      qed
      then show ?thesis unfolding if_not_P [OF ne] first mid last by (simp only: if_bool_eq_disj) blast
    qed
    moreover have "nat stop - 1 = e" "nat start - 1 = s" by (simp_all add: e_def s_def)
    ultimately show ?thesis
      using False assms unfolding anyBitOfDigits_def hb Let_def stop_def [symmetric] range
      by (simp add: a_def b_def first_def last_def)
  qed
qed

subsection \<open>The primitives\<close>

lemma is_negative_canonical: "is_negative (canonical neg m) = neg \<or> m = 0"
  by (auto simp: canonical_def is_negative_def)

lemma magnitude_canonical: "magnitude (canonical neg m) = m"
  by (auto simp: canonical_def magnitude_def digits_of_val)

lemma abs_integer_value: "\<bar>integer_value a\<bar> = int (magnitude a)"
  by (simp add: integer_value_def)

text \<open>
  C14: the sum and the difference of magnitudes, or out of memory. For SmallIntegers and LargeIntegers of any
  size, leading zero digits included, \<open>primDigitAdd\<close> answers an integer with the sum of the
  magnitudes and the sign of the receiver. For normalized operands (no LargeInteger with leading zeros or in the range
  of the SmallIntegers) \<open>primDigitSubtract\<close> answers the normalized integer with the difference of the magnitudes,
  signed so that it is the receiver's when positive; it decides by the numbers of digits which operand is
  smaller, so it needs them normalized (the lemma \<open>primDigitSubtract_leading_zeros\<close>). No access is
  outside an object, and no result of a borrow or a carry is lost.
\<close>
theorem primDigitAdd_and_Subtract:
  assumes "integer_ok x" "integer_ok y"
  shows "(\<exists>a. answers h (primDigitAdd h 1 (Integer x) (Integer y)) (Integer a) \<and> integer_ok a \<and>
      integer_value a = (if is_negative x then - 1 else 1) * (\<bar>integer_value x\<bar> + \<bar>integer_value y\<bar>)) \<and>
    (normalized_integer x \<and> normalized_integer y \<longrightarrow>
      (\<exists>a. answers h (primDigitSubtract h 1 (Integer x) (Integer y)) (Integer a) \<and> normalized_integer a \<and>
        integer_value a = (if is_negative x then - 1 else 1) * (\<bar>integer_value x\<bar> - \<bar>integer_value y\<bar>)))"
proof
  obtain a where a: "answers h (digitAdd h x y) a" "integer_ok a" "magnitude a = magnitude x + magnitude y"
    "is_negative a = is_negative x \<or> magnitude a = 0"
    using digitAdd_val [OF assms] by blast
  have "integer_value a = (if is_negative x then - 1 else 1) * (\<bar>integer_value x\<bar> + \<bar>integer_value y\<bar>)"
    using a(3,4) unfolding abs_integer_value by (auto simp: integer_value_def)
  moreover have "answers h (primDigitAdd h 1 (Integer x) (Integer y)) (Integer a)"
    using answer_integer_answers [OF a(1)] by (simp add: primDigitAdd_def with_integers_def)
  ultimately show "\<exists>a. answers h (primDigitAdd h 1 (Integer x) (Integer y)) (Integer a) \<and> integer_ok a \<and>
      integer_value a = (if is_negative x then - 1 else 1) * (\<bar>integer_value x\<bar> + \<bar>integer_value y\<bar>)"
    using a(2) by blast
  show "normalized_integer x \<and> normalized_integer y \<longrightarrow>
      (\<exists>a. answers h (primDigitSubtract h 1 (Integer x) (Integer y)) (Integer a) \<and> normalized_integer a \<and>
        integer_value a = (if is_negative x then - 1 else 1) * (\<bar>integer_value x\<bar> - \<bar>integer_value y\<bar>))"
  proof
    assume n: "normalized_integer x \<and> normalized_integer y"
    define c where "c = canonical (if magnitude x < magnitude y then \<not> is_negative x else is_negative x)
        (if magnitude x < magnitude y then magnitude y - magnitude x else magnitude x - magnitude y)"
    have "answers h (primDigitSubtract h 1 (Integer x) (Integer y)) (Integer c)"
      using answer_integer_answers [OF digitSub_val] n by (simp add: primDigitSubtract_def with_integers_def c_def)
    moreover have "integer_value c = (if is_negative x then - 1 else 1) * (\<bar>integer_value x\<bar> - \<bar>integer_value y\<bar>)"
      unfolding c_def canonical_value abs_integer_value by (auto simp: of_nat_diff)
    ultimately show "\<exists>a. answers h (primDigitSubtract h 1 (Integer x) (Integer y)) (Integer a) \<and> normalized_integer a \<and>
        integer_value a = (if is_negative x then - 1 else 1) * (\<bar>integer_value x\<bar> - \<bar>integer_value y\<bar>)"
      using normalized_canonical unfolding c_def by blast
  qed
qed

definition some_host :: li_host where
  "some_host = \<lparr>kernels = \<lparr>malloc = (\<lambda>n. True), SIZE_MAX = 2 ^ 64 - 1\<rparr>, instantiates = (\<lambda>k n. True), junk = (\<lambda>k i. of_nat (3 * i + k))\<rparr>"

lemma some_host_answers: "answers some_host r a \<longleftrightarrow> r = Some (Inr a)"
  by (simp add: answers_def some_host_def)

theorem primDigitAdd_and_Subtract_witness:
  "(\<exists>a. primDigitAdd some_host 1 (Integer (SmallInteger (- 4294967295))) (Integer (canonical True (2 ^ 100 + 5))) = Some (Inr (Integer a)) \<and>
      integer_value a = - (2 ^ 100 + 4294967300)) \<and>
   (\<exists>a. primDigitSubtract some_host 1 (Integer (SmallInteger (- 4294967295))) (Integer (canonical True (2 ^ 100 + 5))) = Some (Inr (Integer a)) \<and>
      integer_value a = 2 ^ 100 - 4294967290)"
  using primDigitAdd_and_Subtract [of "SmallInteger (- 4294967295)" "canonical True (2 ^ 100 + 5)" some_host]
  by (auto simp: some_host_answers canonical_value normalized_small normalized_canonical normalized_ok canonical_ok integer_value_def [of "SmallInteger v" for v]
      is_negative_def magnitude_def)

text \<open>A LargeInteger 5 with a leading zero digit, less 6, is \<open>2 ^ 64 - 1\<close>: the operand with more digits passes for the larger.\<close>

lemma primDigitSubtract_leading_zeros:
  "integer_ok (LargeInteger False 8 [5, 0])" "integer_value (LargeInteger False 8 [5, 0]) = 5"
  "\<exists>a. primDigitSubtract some_host 1 (Integer (LargeInteger False 8 [5, 0])) (Integer (SmallInteger 6)) = Some (Inr (Integer a)) \<and>
    integer_value a = 2 ^ 64 - 1"
proof -
  show "integer_ok (LargeInteger False 8 [5, 0])" "integer_value (LargeInteger False 8 [5, 0]) = 5"
    by (simp_all add: integer_ok_def integer_value_def is_negative_def magnitude_def)
  let ?d = "[0xFFFFFFFF, 0xFFFFFFFF] :: digits"
  have o: "operand (LargeInteger False 8 [5, 0]) = Some [5, 0]" "operand (SmallInteger 6) = Some [6]"
    by (simp_all add: operand_def pointerToDigitsOf_def byteSizeOfCSI_def)
  have "cDigitSub [6] [5, 0] 0 = ?d" by code_simp
  then have "digitSub some_host (LargeInteger False 8 [5, 0]) (SmallInteger 6) = normalized_result some_host 1 False (2 * 4) ?d 2 False"
    unfolding digitSub_def o bind.bind_lunit Let_def by (simp add: is_negative_def flip: numeral_2_eq_2)
  moreover have "val ?d = 2 ^ 64 - 1" by simp
  ultimately have "answers some_host (digitSub some_host (LargeInteger False 8 [5, 0]) (SmallInteger 6)) (canonical False (2 ^ 64 - 1))"
    using normalized_result_canonical [of False ?d _ 2 some_host 1 False] by (simp del: val.simps)
  from answer_integer_answers [OF this]
  have "primDigitSubtract some_host 1 (Integer (LargeInteger False 8 [5, 0])) (Integer (SmallInteger 6)) = Some (Inr (Integer (canonical False (2 ^ 64 - 1))))"
    by (simp only: some_host_answers primDigitSubtract_def with_integers_def) simp
  then show "\<exists>a. primDigitSubtract some_host 1 (Integer (LargeInteger False 8 [5, 0])) (Integer (SmallInteger 6)) = Some (Inr (Integer a)) \<and>
      integer_value a = 2 ^ 64 - 1"
    unfolding oop.inject by (intro exI conjI) (auto simp: canonical_value)
qed

text \<open>
  C33: bit logic is that of the integers: on operands that are not negative the three primitives answer the
  normalized integer whose value is the \<open>AND\<close>, \<open>OR\<close>, \<open>XOR\<close> of their values, whatever their lengths; on a
  negative one they fail.
\<close>
theorem primDigitBitLogic_is_bitwise:
  assumes "integer_ok x" "integer_ok y"
  shows "if is_negative x \<or> is_negative y
    then primDigitBitAnd h 1 (Integer x) (Integer y) = Some (Inl PrimErrGeneric) \<and>
      primDigitBitOr h 1 (Integer x) (Integer y) = Some (Inl PrimErrGeneric) \<and>
      primDigitBitXor h 1 (Integer x) (Integer y) = Some (Inl PrimErrGeneric)
    else \<exists>a b c. normalized_integer a \<and> normalized_integer b \<and> normalized_integer c \<and>
      answers h (primDigitBitAnd h 1 (Integer x) (Integer y)) (Integer a) \<and> integer_value a = integer_value x AND integer_value y \<and>
      answers h (primDigitBitOr h 1 (Integer x) (Integer y)) (Integer b) \<and> integer_value b = integer_value x OR integer_value y \<and>
      answers h (primDigitBitXor h 1 (Integer x) (Integer y)) (Integer c) \<and> integer_value c = integer_value x XOR integer_value y"
proof (cases "is_negative x \<or> is_negative y")
  case True
  then show ?thesis
    by (auto simp: primDigitBitAnd_def primDigitBitOr_def primDigitBitXor_def with_integers_def answer_integer_def
        digitBitLogic_def split: prod.splits)
next
  case False
  have v: "integer_value (canonical False (apply_op opIx (magnitude x) (magnitude y))) =
      (case opIx of AndOp \<Rightarrow> integer_value x AND integer_value y | OrOp \<Rightarrow> integer_value x OR integer_value y | XorOp \<Rightarrow> integer_value x XOR integer_value y)" for opIx
    using False unfolding canonical_value
    by (cases opIx) (simp_all add: apply_op_def integer_value_def of_nat_and_eq of_nat_or_eq of_nat_xor_eq)
  have "answers h (answer_integer (digitBitLogic h x y opIx)) (Integer (canonical False (apply_op opIx (magnitude x) (magnitude y))))" for opIx
    using digitBitLogic_val [OF assms] False by (intro answer_integer_answers) blast
  then show ?thesis
    using False v [of AndOp] v [of OrOp] v [of XorOp] normalized_canonical
    unfolding primDigitBitAnd_def primDigitBitOr_def primDigitBitXor_def with_integers_def by (simp, metis)
qed

theorem primDigitBitLogic_is_bitwise_witness:
  "\<exists>c. primDigitBitXor some_host 1 (Integer (SmallInteger 12)) (Integer (LargeInteger False 9 [10, 0, 1])) = Some (Inr (Integer c)) \<and>
    integer_value c = 12 XOR integer_value (LargeInteger False 9 [10, 0, 1])"
proof -
  have "integer_ok (SmallInteger 12)" "integer_ok (LargeInteger False 9 [10, 0, 1])" by (simp_all add: integer_ok_def)
  from primDigitBitLogic_is_bitwise [OF this, of some_host] show ?thesis
    by (auto simp: some_host_answers is_negative_def integer_value_def [of "SmallInteger v" for v] magnitude_def)
qed

text \<open>
  C32: shifting a magnitude, zero included: to the left the answer has the value times the power of two, to the right it is
  normalized and has the magnitude's quotient with the receiver's sign; what the buffer of the result
  held before is never part of the answer. It may run out of memory; then it fails, and only a zero shifted to the left
  answers a null pointer instead (the allocation of its byte is not checked).
\<close>
theorem primDigitBitShiftMagnitude_shifts:
  assumes "integer_ok x"
  shows "((\<exists>a. answers h (primDigitBitShiftMagnitude h 1 (Integer x) (Integer (SmallInteger (int s)))) (Integer a) \<and>
      integer_ok a \<and> integer_value a = integer_value x * 2 ^ s)
      \<or> integer_value x = 0 \<and> instantiates h 0 1 = False \<and>
        primDigitBitShiftMagnitude h 1 (Integer x) (Integer (SmallInteger (int s))) = Some (Inr NullOop)) \<and>
    (0 < s \<longrightarrow> (\<exists>a. answers h (primDigitBitShiftMagnitude h 1 (Integer x) (Integer (SmallInteger (- int s)))) (Integer a) \<and>
      normalized_integer a \<and> integer_value a = sgn (integer_value x) * (\<bar>integer_value x\<bar> div 2 ^ s)))"
proof -
  obtain ds where ds: "operand x = Some ds" "val ds = magnitude x" by (rule operand_ok [OF assms])
  have left: "primDigitBitShiftMagnitude h 1 (Integer x) (Integer (SmallInteger (int s))) = digitLshift h x ds s"
    and right: "0 < s \<Longrightarrow> primDigitBitShiftMagnitude h 1 (Integer x) (Integer (SmallInteger (- int s))) = answer_integer (digitRshift h x ds s)"
    by (simp_all add: primDigitBitShiftMagnitude_def ds(1))
  have value0: "integer_value x = 0" if "val ds = 0"
    using that ds(2) by (simp add: integer_value_def)
  have l: "(\<exists>a. answers h (digitLshift h x ds s) (Integer a) \<and> integer_ok a \<and> integer_value a = integer_value x * 2 ^ s)
      \<or> integer_value x = 0 \<and> instantiates h 0 1 = False \<and> digitLshift h x ds s = Some (Inr NullOop)"
  proof (cases "val ds = 0")
    case True
    then show ?thesis
      using digitLshift_zero [OF True, of h x s] value0 by (auto simp: answers_def integer_value_def [of "LargeInteger n k d" for n k d] magnitude_def integer_ok_def)
  next
    case False
    then have pos: "0 < val ds" by simp
    obtain r where r: "answers h (digitLshift h x ds s) (Integer (LargeInteger (is_negative x) (byte_length (val ds * 2 ^ s)) r))"
      "length r = (byte_length (val ds * 2 ^ s) + 3) div 4" "val r = val ds * 2 ^ s"
      using digitLshift_val [OF pos] by blast
    have "integer_ok (LargeInteger (is_negative x) (byte_length (val ds * 2 ^ s)) r)"
      using r(2,3) byte_length_le_iff [of "val ds * 2 ^ s"] by (auto simp: integer_ok_def)
    moreover have "integer_value (LargeInteger (is_negative x) (byte_length (val ds * 2 ^ s)) r) = integer_value x * 2 ^ s"
      using r(3) ds(2) by (simp add: integer_value_def is_negative_def magnitude_def)
    ultimately show ?thesis using r(1) by blast
  qed
  have "integer_value (canonical (is_negative x) (val ds div 2 ^ s)) = sgn (integer_value x) * (\<bar>integer_value x\<bar> div 2 ^ s)"
    unfolding canonical_value ds(2) abs_integer_value by (cases "magnitude x = 0") (simp_all add: integer_value_def sgn_if of_nat_div)
  then show ?thesis
    unfolding left using l right answer_integer_answers [OF digitRshift_val] normalized_canonical by metis
qed

theorem primDigitBitShiftMagnitude_shifts_witness:
  "(\<exists>a. primDigitBitShiftMagnitude some_host 1 (Integer (SmallInteger (- 77))) (Integer (SmallInteger (int 100))) = Some (Inr (Integer a)) \<and>
      integer_value a = - 77 * 2 ^ 100) \<and>
   (\<exists>a. primDigitBitShiftMagnitude some_host 1 (Integer (SmallInteger (- 77))) (Integer (SmallInteger (- int 3))) = Some (Inr (Integer a)) \<and>
      integer_value a = - 9) \<and>
   (\<exists>a. primDigitBitShiftMagnitude some_host 1 (Integer (SmallInteger 0)) (Integer (SmallInteger (int 5))) = Some (Inr (Integer a)) \<and>
      integer_value a = 0)"
proof -
  have x: "integer_ok (SmallInteger (- 77))" "integer_value (SmallInteger (- 77)) = - 77"
    "integer_ok (SmallInteger 0)" "integer_value (SmallInteger 0) = 0"
    by (simp_all add: integer_ok_def integer_value_def is_negative_def magnitude_def)
  have i: "instantiates some_host 0 1" by (simp add: some_host_def)
  show ?thesis
    using primDigitBitShiftMagnitude_shifts [of "SmallInteger (- 77)" some_host 100]
      primDigitBitShiftMagnitude_shifts [of "SmallInteger (- 77)" some_host 3]
      primDigitBitShiftMagnitude_shifts [of "SmallInteger 0" some_host 5] x(1,3) i
    unfolding some_host_answers x(2,4) by auto
qed

text \<open>
  C34: the comparison answers the order of the magnitudes (\<open>-1\<close>, \<open>0\<close>, \<open>1\<close>) of normalized operands, one pair excepted:
  the least SmallInteger and the LargePositiveInteger of its magnitude.
\<close>
theorem primDigitCompare_orders:
  assumes "normalized_integer x" "normalized_integer y"
    and "\<not> (magnitude x = 2 ^ 60 \<and> magnitude y = 2 ^ 60 \<and> x \<noteq> y)"
  shows "primDigitCompare 1 (Integer x) (Integer y)
    = Some (Inr (Integer (SmallInteger (sgn (\<bar>integer_value x\<bar> - \<bar>integer_value y\<bar>)))))"
proof -
  have "(case (x, y) of (SmallInteger v, LargeInteger _ _ _) \<Rightarrow> magnitude x \<noteq> magnitude y
      | (LargeInteger _ _ _, SmallInteger v) \<Rightarrow> magnitude x \<noteq> magnitude y | _ \<Rightarrow> True)"
    using assms small_magnitude large_magnitude by (cases x; cases y) (auto dest!: small_magnitude large_magnitude)
  from digitCompare_val [OF assms(1,2) this] show ?thesis
    by (simp add: primDigitCompare_def with_integers_def abs_integer_value)
qed

theorem primDigitCompare_orders_witness:
  "primDigitCompare 1 (Integer (SmallInteger (- 1000))) (Integer (canonical False (2 ^ 70 + 1)))
    = Some (Inr (Integer (SmallInteger (-1))))"
proof -
  have n: "normalized_integer (SmallInteger (- 1000))" "normalized_integer (canonical False (2 ^ 70 + 1))"
    by (simp_all only: normalized_small normalized_canonical) simp
  have "\<not> (magnitude (SmallInteger (- 1000)) = 2 ^ 60 \<and> magnitude (canonical False (2 ^ 70 + 1)) = 2 ^ 60
      \<and> SmallInteger (- 1000) \<noteq> canonical False (2 ^ 70 + 1))"
    unfolding magnitude_canonical by simp
  from primDigitCompare_orders [OF n this] show ?thesis
    unfolding canonical_value by (simp add: integer_value_def [of "SmallInteger v" for v] is_negative_def magnitude_def)
qed

lemma primDigitCompare_minimum:
  "normalized_integer (SmallInteger MinSmallInteger)" "normalized_integer (canonical False (2 ^ 60))"
  "\<bar>integer_value (SmallInteger MinSmallInteger)\<bar> = \<bar>integer_value (canonical False (2 ^ 60))\<bar>"
  "primDigitCompare 1 (Integer (SmallInteger MinSmallInteger)) (Integer (canonical False (2 ^ 60)))
    = Some (Inr (Integer (SmallInteger (-1))))"
proof -
  have c: "canonical False (2 ^ 60) = LargeInteger False (byte_length (2 ^ 60)) (digits_of (2 ^ 60))"
    by (rule canonical_cases) (simp add: is_small_def)
  show "normalized_integer (SmallInteger MinSmallInteger)" "normalized_integer (canonical False (2 ^ 60))"
    by (simp_all only: normalized_small normalized_canonical) simp
  show "\<bar>integer_value (SmallInteger MinSmallInteger)\<bar> = \<bar>integer_value (canonical False (2 ^ 60))\<bar>"
    unfolding canonical_value by (simp add: integer_value_def is_negative_def magnitude_def)
  show "primDigitCompare 1 (Integer (SmallInteger MinSmallInteger)) (Integer (canonical False (2 ^ 60)))
      = Some (Inr (Integer (SmallInteger (-1))))"
    unfolding c by (simp add: primDigitCompare_def with_integers_def digitCompare_def)
qed

text \<open>Without memory for the one byte of a zero the shift pushes a null pointer and does not fail.\<close>

lemma primDigitBitShiftMagnitude_null:
  assumes "\<not> instantiates h 0 1"
  shows "primDigitBitShiftMagnitude h 1 (Integer (SmallInteger 0)) (Integer (SmallInteger 5)) = Some (Inr NullOop)"
  using assms
  by (simp add: primDigitBitShiftMagnitude_def operand_def pointerToDigitsOf_def byteSizeOfCSI_def digitLshift_def instantiate_def)

lemma primAnyBitFromTo_tests:
  assumes "integer_ok x" "1 \<le> start" "1 \<le> stop"
  shows "primAnyBitFromTo 2 (Integer x) (Integer (SmallInteger start)) (Integer (SmallInteger stop))
    = Some (Inr (Boolean (\<exists>i. nat start \<le> i + 1 \<and> i < nat stop \<and> bit (magnitude x) i)))"
proof -
  obtain ds where ds: "operand x = Some ds" "val ds = magnitude x" by (rule operand_ok [OF assms(1)])
  then show ?thesis using anyBitOfDigits_val [OF assms(2,3), of ds] by (simp add: primAnyBitFromTo_def)
qed

text \<open>
  C15: both ways to a normalized integer agree: \<open>normalizedIntegerFrom\<close> on the digits of a result answers what
  \<open>normalizePositive\<close> and \<open>normalizeNegative\<close> make of an object with these digits, the only normalized
  integer of its value.
\<close>
theorem normalization_is_unique:
  assumes "integer_ok (LargeInteger neg n ds)"
  shows "\<exists>!c. normalized_integer c \<and> integer_value c = integer_value (LargeInteger neg n ds) \<and>
    answers h (normalizedIntegerFrom h k ds (length ds) neg) c \<and>
    answers h (if neg then primNormalizeNegative h 0 (Integer (LargeInteger neg n ds))
      else primNormalizePositive h 0 (Integer (LargeInteger neg n ds))) (Integer c)"
proof (rule ex1I [of _ "canonical neg (val ds)"])
  have p: "(if neg then primNormalizeNegative h 0 (Integer (LargeInteger neg n ds))
      else primNormalizePositive h 0 (Integer (LargeInteger neg n ds))) =
      answer_integer (if neg then normalizeNegative h 0 n ds else normalizePositive h 0 n ds)"
    by (cases neg) (simp_all add: primNormalizeNegative_def primNormalizePositive_def)
  show "normalized_integer (canonical neg (val ds)) \<and> integer_value (canonical neg (val ds)) = integer_value (LargeInteger neg n ds) \<and>
    answers h (normalizedIntegerFrom h k ds (length ds) neg) (canonical neg (val ds)) \<and>
    answers h (if neg then primNormalizeNegative h 0 (Integer (LargeInteger neg n ds))
      else primNormalizePositive h 0 (Integer (LargeInteger neg n ds))) (Integer (canonical neg (val ds)))"
    unfolding p using normalizedIntegerFrom_canonical [of "length ds" ds h k neg]
      answer_integer_answers [OF normalize_canonical [OF assms]] normalized_canonical
    by (simp add: canonical_value integer_value_def [of "LargeInteger neg n ds"] is_negative_def magnitude_def)
  fix c
  assume "normalized_integer c \<and> integer_value c = integer_value (LargeInteger neg n ds) \<and>
    answers h (normalizedIntegerFrom h k ds (length ds) neg) c \<and>
    answers h (if neg then primNormalizeNegative h 0 (Integer (LargeInteger neg n ds))
      else primNormalizePositive h 0 (Integer (LargeInteger neg n ds))) (Integer c)"
  moreover have "integer_value (canonical neg (val ds)) = integer_value (LargeInteger neg n ds)"
    by (simp add: canonical_value integer_value_def [of "LargeInteger neg n ds"] is_negative_def magnitude_def)
  ultimately show "c = canonical neg (val ds)" using integer_value_inject normalized_canonical by metis
qed

theorem normalization_is_unique_witness:
  "\<exists>c. normalizedIntegerFrom some_host 0 [7, 5, 0] 3 True = Some (Inr c) \<and>
    primNormalizeNegative some_host 0 (Integer (LargeInteger True 11 [7, 5, 0])) = Some (Inr (Integer c)) \<and>
    integer_value c = - 21474836487"
proof -
  have "integer_ok (LargeInteger True 11 [7, 5, 0])" by (simp add: integer_ok_def)
  from ex1_implies_ex [OF normalization_is_unique [OF this, of some_host 0]] show ?thesis
    by (auto simp: some_host_answers integer_value_def [of "LargeInteger neg n ds" for neg n ds] is_negative_def magnitude_def numeral_3_eq_3)
qed

end
