(* ===== verification/LargePrims.thy ===== *)
theory LargePrims
  imports LargeArith
begin

text \<open>
  The primitives of \<open>LargeIntegers.c\<close> that call the kernels: multiplication, division and Montgomery's
  multiplication, in the build with 64-bit limbs. They prepare the digits the kernels work on (the
  shift that normalizes a divisor, buffers on the stack or from \<open>malloc\<close>), call them and make objects of the
  results. \<open>kn\<close> are the thresholds of the kernels.
\<close>

subsection \<open>Multiplication\<close>

definition digitMultiply :: "li_knobs \<Rightarrow> li_host \<Rightarrow> integer_oop \<Rightarrow> integer_oop \<Rightarrow> bool \<Rightarrow> integer_oop prim" where
  "digitMultiply kn h firstInteger secondInteger neg =
     (let (pFirst, firstLen) = pointerToDigitsOf firstInteger;
          (pSecond, secondLen) = pointerToDigitsOf secondInteger;
          resDigitLen = ((firstLen + secondLen) + 3) div 4;
          allocated = (\<not> resDigitLen \<le> LIStackDigits)
      in if allocated \<and> instantiate h 0 (firstLen + secondLen) = None then Some (Inl PrimErrNoMemory)
         else let (pShort, shortLen, pLong, longLen) =
                    (if firstLen \<le> secondLen then (pFirst, firstLen, pSecond, secondLen) else (pSecond, secondLen, pFirst, firstLen))
              in if (shortLen + 3) div 4 > length pShort \<or> (longLen + 3) div 4 > length pLong then None
                 else do {
                   pProd \<leftarrow> liDigitMultiply64 kn (kernels h) (take ((shortLen + 3) div 4) pShort) (take ((longLen + 3) div 4) pLong) resDigitLen;
                   normalized_result h 1 allocated (firstLen + secondLen) pProd resDigitLen neg
                 })"

definition primDigitMultiplyNegative :: "li_knobs \<Rightarrow> li_host \<Rightarrow> nat \<Rightarrow> oop \<Rightarrow> oop \<Rightarrow> oop \<Rightarrow> oop prim" where
  "primDigitMultiplyNegative kn h methodArgumentCount receiver argument negOop =
     (if methodArgumentCount \<noteq> 2 then Some (Inl PrimErrBadNumArgs)
      else case (argument, negOop) of
             (Integer secondInteger, Boolean neg) \<Rightarrow>
               (case receiver of
                  Integer firstInteger \<Rightarrow> answer_integer (digitMultiply kn h firstInteger secondInteger neg)
                | _ \<Rightarrow> Some (Inl PrimErrGeneric))
           | _ \<Rightarrow> Some (Inl PrimErrBadArgument))"

subsection \<open>Division\<close>

text \<open>\<open>createLargeFromSmallInteger:\<close>, the loop over the digits of a magnitude.\<close>

definition createLargeFromSmallInteger :: "li_host \<Rightarrow> nat \<Rightarrow> int \<Rightarrow> integer_oop option" where
  "createLargeFromSmallInteger h k v =
     (let byteSize = byteSizeOfCSI v
      in if instantiate h k byteSize = None then None
         else let digitSize = (byteSize + 3) div 4
              in Some (LargeInteger (v < 0) byteSize
                   (map (\<lambda>ix. ucast (drop_bit (ix * 32) (of_int (if v < 0 then 0 - v else v) :: 64 word))) [0..<digitSize])))"

text \<open>The answer: an Array of two, whose allocation is not checked.\<close>

definition answer_pair :: "li_host \<Rightarrow> nat \<Rightarrow> integer_oop \<Rightarrow> integer_oop \<Rightarrow> oop prim" where
  "answer_pair h k quo rem = Some (Inr (if instantiate h k 2 = None then NullOop else Array2 quo rem))"

text \<open>\<open>cDigitLshift:from:len:into:\<close>, into a buffer of a digit more.\<close>

definition shift_into_buffer :: "nat \<Rightarrow> digits \<Rightarrow> digits \<Rightarrow> digits option" where
  "shift_into_buffer d p buf =
     (let len = length p
      in if len \<ge> length buf then None
         else let buf = buf[len := 0]
              in if d = 0 then cDigitCopy p buf len else cDigitLshift d p len buf (len + 1))"

definition digit_buffer :: "li_host \<Rightarrow> nat \<Rightarrow> nat \<Rightarrow> digits option" where
  "digit_buffer h k n =
     (if n \<le> LIStackDigits then Some (uninitialised h k LIStackDigits)
      else if malloc (kernels h) (n * 4) then Some (uninitialised h k n) else None)"

text \<open>\<open>digits:Rshift:lookfirst:negative:\<close>: the remainder in the buffer, shifted back; \<open>None\<close> inside is a null pointer.\<close>

definition digits_Rshift_lookfirst :: "li_host \<Rightarrow> nat \<Rightarrow> digits \<Rightarrow> nat \<Rightarrow> nat \<Rightarrow> bool \<Rightarrow> integer_oop option option" where
  "digits_Rshift_lookfirst h k pRem d secondDigitLen firstNeg =
     (if secondDigitLen > length pRem then None
      else let oldBitLen = cDigitHighBit pRem secondDigitLen;
               oldDigitLen = (oldBitLen + 0x1F) div 32
           in if oldBitLen \<le> d then Some (map_option (LargeInteger firstNeg 0) (instantiate h k 0))
              else let newByteLen = (oldBitLen - d + 7) div 8;
                       newDigitLen = (newByteLen + 3) div 4
                   in case instantiate h k newByteLen of
                        None \<Rightarrow> Some None
                      | Some newOop \<Rightarrow> do {
                          r \<leftarrow> cDigitRshift d pRem oldDigitLen newOop newDigitLen;
                          Some (Some (LargeInteger firstNeg newByteLen r))
                        })"

definition digitDiv :: "li_knobs \<Rightarrow> li_host \<Rightarrow> integer_oop \<Rightarrow> integer_oop \<Rightarrow> bool \<Rightarrow> oop prim" where
  "digitDiv kn h firstInteger secondInteger neg = do {
     pFirst \<leftarrow> operand firstInteger;
     pSecond \<leftarrow> operand secondInteger;
     let firstDigitLen = length pFirst;
     let secondDigitLen = length pSecond;
     if firstDigitLen < secondDigitLen then
       (case firstInteger of
          SmallInteger v \<Rightarrow>
            (case createLargeFromSmallInteger h 0 v of
               None \<Rightarrow> Some (Inl PrimErrNoMemory)
             | Some firstLarge \<Rightarrow> answer_pair h 1 (SmallInteger 0) firstLarge)
        | LargeInteger _ _ _ \<Rightarrow> answer_pair h 1 (SmallInteger 0) firstInteger)
     else if secondDigitLen = 0 then None
     else
       let quoDigitLen = firstDigitLen - secondDigitLen + 1;
           firstNeg = is_negative firstInteger;
           d = 32 - cHighBit32 (pSecond ! (secondDigitLen - 1))
       in case (digit_buffer h 0 (secondDigitLen + 1), digit_buffer h 1 (firstDigitLen + 1)) of
            (Some divBuffer, Some remBuffer) \<Rightarrow> do {
              pDiv \<leftarrow> shift_into_buffer d pSecond divBuffer;
              pRem \<leftarrow> shift_into_buffer d pFirst remBuffer;
              case instantiate h 0 (quoDigitLen * 4) of
                None \<Rightarrow> Some (Inl PrimErrNoMemory)
              | Some _ \<Rightarrow> do {
                  (pQuo, pRem) \<leftarrow> liDigitDiv build64 liReciprocal64 kn (kernels h)
                    (take (secondDigitLen + 1) pDiv) (take (firstDigitLen + 1) pRem) quoDigitLen;
                  rem \<leftarrow> digits_Rshift_lookfirst h 1 pRem d secondDigitLen firstNeg;
                  case rem of
                    None \<Rightarrow> Some (Inl PrimErrNoMemory)
                  | Some rem \<Rightarrow> answer_pair h 2 (LargeInteger neg (quoDigitLen * 4) pQuo) rem
                }
            }
          | _ \<Rightarrow> Some (Inl PrimErrNoMemory)
   }"

text \<open>What the head of the primitive refuses: zero, and LargeIntegers with a leading zero byte.\<close>

definition refuses_dividend :: "integer_oop \<Rightarrow> bool" where
  "refuses_dividend firstInteger = (case firstInteger of SmallInteger v \<Rightarrow> False | LargeInteger neg n ds \<Rightarrow> \<not> isNormalized n ds)"

definition refuses_divisor :: "integer_oop \<Rightarrow> bool" where
  "refuses_divisor secondInteger = (case secondInteger of SmallInteger v \<Rightarrow> v = 0 | LargeInteger neg n ds \<Rightarrow> \<not> isNormalized n ds)"

definition primDigitDivNegative :: "li_knobs \<Rightarrow> li_host \<Rightarrow> nat \<Rightarrow> oop \<Rightarrow> oop \<Rightarrow> oop \<Rightarrow> oop prim" where
  "primDigitDivNegative kn h methodArgumentCount receiver argument negOop =
     (if methodArgumentCount \<noteq> 2 then Some (Inl PrimErrBadNumArgs)
      else case (argument, negOop) of
             (Integer secondInteger, Boolean neg) \<Rightarrow>
               (case receiver of
                  Integer firstInteger \<Rightarrow>
                    if refuses_dividend firstInteger then Some (Inl PrimErrGeneric)
                    else if refuses_divisor secondInteger then Some (Inl PrimErrGeneric)
                    else digitDiv kn h firstInteger secondInteger neg
                | _ \<Rightarrow> Some (Inl PrimErrGeneric))
           | _ \<Rightarrow> Some (Inl PrimErrBadArgument))"

subsection \<open>Montgomery's multiplication\<close>

definition digitMontgomery ::
  "li_knobs \<Rightarrow> li_host \<Rightarrow> integer_oop \<Rightarrow> integer_oop \<Rightarrow> integer_oop \<Rightarrow> 32 word \<Rightarrow> integer_oop prim" where
  "digitMontgomery kn h firstInteger secondOperandInteger thirdModuloInteger mInv = do {
     pFirst \<leftarrow> operand firstInteger;
     pSecond \<leftarrow> operand secondOperandInteger;
     pThird \<leftarrow> operand thirdModuloInteger;
     let firstDigitLen = length pFirst;
     let secondDigitLen = length pSecond;
     let thirdDigitLen = length pThird;
     if \<not> (firstDigitLen \<le> thirdDigitLen \<and> secondDigitLen \<le> thirdDigitLen) then Some (Inl PrimErrGeneric)
     else if firstDigitLen > 0 \<and> secondDigitLen = 0 then Some (Inl PrimErrGeneric)
     else let allocated = (\<not> thirdDigitLen \<le> LIStackDigits)
          in if allocated \<and> instantiate h 0 (thirdDigitLen * 4) = None then Some (Inl PrimErrNoMemory)
             else do {
               pRes \<leftarrow> liDigitMontgomery build64 kn (kernels h) pFirst pSecond pThird mInv (replicate thirdDigitLen 0);
               normalized_result h 1 allocated (thirdDigitLen * 4) pRes thirdDigitLen False
             }
   }"

text \<open>\<open>positive32BitValueOf\<close> is the interpreter's; it fails on what is not an integer of 32 bits.\<close>

definition primMontgomeryTimesModulo ::
  "(integer_oop \<Rightarrow> 32 word option) \<Rightarrow> li_knobs \<Rightarrow> li_host \<Rightarrow> nat \<Rightarrow> oop \<Rightarrow> oop \<Rightarrow> oop \<Rightarrow> oop \<Rightarrow> oop prim" where
  "primMontgomeryTimesModulo positive32BitValueOf kn h methodArgumentCount receiver operandOop moduloOop mInverseOop =
     (if methodArgumentCount \<noteq> 3 then Some (Inl PrimErrBadNumArgs)
      else case (operandOop, moduloOop, mInverseOop) of
             (Integer secondOperandInteger, Integer thirdModuloInteger, Integer mInverseInteger) \<Rightarrow>
               (case receiver of
                  Integer firstInteger \<Rightarrow>
                    (case positive32BitValueOf mInverseInteger of
                       None \<Rightarrow> Some (Inl PrimErrGeneric)
                     | Some mInv \<Rightarrow> answer_integer (digitMontgomery kn h firstInteger secondOperandInteger thirdModuloInteger mInv))
                | _ \<Rightarrow> Some (Inl PrimErrGeneric))
           | _ \<Rightarrow> Some (Inl PrimErrBadArgument))"

definition primMontgomeryDigitLength :: "nat \<Rightarrow> oop prim" where
  "primMontgomeryDigitLength methodArgumentCount =
     (if methodArgumentCount \<noteq> 0 then Some (Inl PrimErrBadNumArgs) else Some (Inr (Integer (SmallInteger 32))))"

subsection \<open>Multiplication\<close>

lemma no_memory: "instantiate h k n = None \<Longrightarrow> \<exists>k n. \<not> instantiates h k n"
  by (auto simp: instantiate_def split: if_splits)

lemma digit_lengths_add: "(m + 3) div 4 + (n + 3) div 4 \<le> Suc ((m + n + 3) div 4)" for m n :: nat
proof -
  have "m = 4 * (m div 4) + m mod 4" "n = 4 * (n div 4) + n mod 4" "m mod 4 < 4" "n mod 4 < 4" by simp_all
  then show ?thesis by linarith
qed

lemma digitMultiply_val:
  assumes "knobs_ok kn" "integer_ok x" "integer_ok y"
  shows "answers h (digitMultiply kn h x y neg) (canonical neg (magnitude x * magnitude y))"
proof -
  obtain px nx where x: "pointerToDigitsOf x = (px, nx)" by fastforce
  obtain py ny where y: "pointerToDigitsOf y = (py, ny)" by fastforce
  note vx = operand_val(2-4) [OF assms(2) x] and vy = operand_val(2-4) [OF assms(3) y]
  note lx = pointerToDigitsOf_val(1) [OF assms(2) x] and ly = pointerToDigitsOf_val(1) [OF assms(3) y]
  define n where "n = nx + ny"
  define len where "len = (n + 3) div 4"
  obtain ps sl pl ll where s: "(if nx \<le> ny then (px, nx, py, ny) else (py, ny, px, nx)) = (ps, sl, pl, ll)" by (metis prod_cases4)
  define allocated where "allocated = (\<not> len \<le> LIStackDigits)"
  define a where "a = take ((sl + 3) div 4) ps"
  define b where "b = take ((ll + 3) div 4) pl"
  have le: "(sl + 3) div 4 \<le> length ps" "(ll + 3) div 4 \<le> length pl"
    using s lx ly by (auto split: if_splits)
  have v: "val a * val b = magnitude x * magnitude y"
    using s vx(2) vy(2) by (auto simp: a_def b_def split: if_splits)
  have "length a + length b \<le> Suc len"
    using s digit_lengths_add [of nx ny] le by (auto simp: a_def b_def len_def n_def split: if_splits)
  then obtain r where r: "liDigitMultiply64 kn (kernels h) a b len = Some r" "length r = len"
      "val r = val a * val b mod 2 ^ (32 * len)"
    using liDigitMultiply64_product [OF assms(1), of a b len "kernels h"] unfolding product_digits_def by blast
  have lt: "magnitude x * magnitude y < 2 ^ (8 * n)"
    unfolding n_def distrib_left power_add using vx(3) vy(3) by (intro mult_strict_mono) simp_all
  also have "(2 :: nat) ^ (8 * n) \<le> 2 ^ (32 * len)" by (intro power_increasing) (simp_all add: len_def)
  finally have vr: "val r = magnitude x * magnitude y" unfolding r(3) v by (rule mod_less)
  have e: "digitMultiply kn h x y neg = (if allocated \<and> instantiate h 0 n = None then Some (Inl PrimErrNoMemory)
      else normalized_result h 1 allocated n r len neg)"
    unfolding digitMultiply_def x y Let_def prod.case s n_def [symmetric] len_def [symmetric] allocated_def [symmetric]
      a_def [symmetric] b_def [symmetric] r(1)
    using le by simp
  have "answers h (normalized_result h 1 allocated n r len neg) (canonical neg (val (take len r)))"
    using lt r(2) vr by (intro normalized_result_canonical) (auto simp: len_def)
  then show ?thesis using r(2) vr no_memory unfolding e answers_def by auto
qed

subsection \<open>Division\<close>

lemma lshift_frame:
  fixes p A B :: digits
  assumes "d < 32" "d \<noteq> 0" "lenFrom \<le> length p" "lenFrom \<le> length A" "lenTo \<le> length A" "0 < length A"
    "cDigitLshift d p lenFrom A lenTo = Some r"
  shows "cDigitLshift d p lenFrom (A @ B) lenTo = Some (r @ B)"
  using assms by (auto simp: cDigitLshift_def Let_def list_update_append split: prod.splits if_splits)

text \<open>A buffer with the digits shifted: one digit more, above it anything.\<close>

lemma shift_into_buffer_val:
  fixes p buf :: digits
  assumes "d < 32" "length p < length buf"
  shows "\<exists>r. shift_into_buffer d p buf = Some r \<and> length r = length buf \<and> val (take (length p + 1) r) = val p * 2 ^ d"
proof -
  define n where "n = length p"
  define b where "b = buf[n := 0]"
  have b: "take (n + 1) b = take n buf @ [0]" "length b = length buf"
    using assms(2) by (simp_all add: b_def n_def take_Suc_conv_app_nth take_update_swap list_update_append)
  have split: "b = take (n + 1) b @ drop (n + 1) b" by simp
  show ?thesis
  proof (cases "d = 0")
    case True
    have "cDigitCopy p b n = Some (p @ drop n b)" using assms(2) b(2) by (simp add: cDigitCopy_def n_def)
    moreover have "drop n b = 0 # drop (n + 1) b"
      using assms(2) by (simp add: b_def n_def Cons_nth_drop_Suc [symmetric] drop_update_swap)
    then have "take (n + 1) (p @ drop n b) = p @ [0]" by (simp add: n_def)
    then have "val (take (n + 1) (p @ drop n b)) = val p" by (simp add: val_append)
    ultimately show ?thesis using True assms(2) b(2) by (simp add: shift_into_buffer_def Let_def n_def b_def)
  next
    case False
    have d: "d div 32 = 0" "d mod 32 = d" using assms(1) by simp_all
    have "val p * 2 ^ d < 2 ^ (32 * n) * 2 ^ 32"
    proof (rule mult_strict_mono)
      show "val p < 2 ^ (32 * n)" using val_lt_32 [of p] by (simp add: n_def)
      show "(2 :: nat) ^ d < 2 ^ 32" using assms(1) by (intro power_strict_increasing) simp_all
    qed simp_all
    then have "val (take n p) * 2 ^ d < 2 ^ (32 * (n + 1))" by (simp add: n_def power_add)
    then obtain r where r: "cDigitLshift d p n (take n buf @ [0]) (n + 1) = Some r" "length r = n + 1" "val r = val p * 2 ^ d"
      using cDigitLshift_val [of n p "take n buf @ [0]" "n + 1" d] assms(2) False unfolding d by (auto simp: n_def)
    have "cDigitLshift d p n b (n + 1) = Some (r @ drop (n + 1) b)"
      using lshift_frame [OF assms(1) False _ _ _ _ r(1), of "drop (n + 1) b"] assms(2) b(1)
      by (subst split) (simp add: n_def del: append_take_drop_id)
    then show ?thesis
      using False assms(2) r(2,3) b(2) by (simp add: shift_into_buffer_def Let_def n_def b_def)
  qed
qed

lemma digit_buffer_cases:
  obtains "digit_buffer h k n = None" "\<exists>n. \<not> malloc (kernels h) n"
  | buf where "digit_buffer h k n = Some buf" "n \<le> length buf"
  by (cases "n \<le> LIStackDigits"; cases "malloc (kernels h) (n * 4)") (auto simp: digit_buffer_def uninitialised_def)

lemma top_digit_normalizes:
  fixes p :: digits
  assumes "0 < length p" "p ! (length p - 1) \<noteq> 0"
  defines "d \<equiv> 32 - cHighBit32 (p ! (length p - 1))"
  shows "d < 32" "bit_length (val p * 2 ^ d) = 32 * length p"
proof -
  define t where "t = unat (p ! (length p - 1))"
  have t: "0 < t" "t < 2 ^ 32" using assms(2) unat_lt [of "p ! (length p - 1)"] by (simp_all add: t_def unat_gt_0)
  have b: "0 < bit_length t" "bit_length t \<le> 32" using t by (simp_all add: bit_length_pos bit_length_le_iff)
  have d: "d = 32 - bit_length t" by (simp add: d_def cHighBit32_val t_def)
  show "d < 32" using b d by simp
  have bl: "bit_length (val p) = 32 * (length p - 1) + bit_length t"
    using top_digit_split(2) [of "length p" p] assms(1,2) by (simp add: t_def)
  then have "0 < val p" using b(1) by (cases "val p = 0") simp_all
  then have "bit_length (2 ^ d * val p) = d + bit_length (val p)" by (rule bit_length_shift)
  then show "bit_length (val p * 2 ^ d) = 32 * length p"
    using b assms(1) unfolding bl d by (cases "length p") (simp_all add: mult.commute)
qed

lemma trimmed_top:
  fixes ds :: digits
  assumes "length ds = (bit_length (val ds) + 31) div 32" "0 < val ds"
  shows "0 < length ds" "ds ! (length ds - 1) \<noteq> 0"
proof -
  have le: "length ds \<le> k \<longleftrightarrow> val ds < 2 ^ (32 * k)" for k
    unfolding assms(1) using digit_length_le_iff [of "val ds" k] unfolding digit_length .
  show pos: "0 < length ds" using assms(2) by (cases ds) simp_all
  show "ds ! (length ds - 1) \<noteq> 0"
  proof
    assume z: "ds ! (length ds - 1) = 0"
    have "val ds = val (take (length ds - 1) ds)"
      using val_take_Suc [of "length ds - 1" ds] pos z by simp
    then have "val ds < 2 ^ (32 * (length ds - 1))" using val_take_lt [of "length ds - 1" ds] by simp
    then show False unfolding le [symmetric] using pos by linarith
  qed
qed

lemma operand_trimmed:
  assumes "integer_ok a" "\<not> refuses_divisor a"
  obtains ds where "operand a = Some ds" "val ds = magnitude a" "length ds = (bit_length (val ds) + 31) div 32" "0 < val ds"
proof (cases a)
  case (SmallInteger v)
  then have v: "v \<noteq> 0" "normalized_integer a" using assms by (simp_all add: refuses_divisor_def integer_ok_def normalized_small)
  obtain ds where ds: "operand a = Some ds" "val ds = magnitude a" "length ds = max 1 ((bit_length (magnitude a) + 31) div 32)"
    by (rule operand_normalized [OF v(2)])
  have "0 < magnitude a" using v(1) SmallInteger by (simp add: magnitude_def)
  moreover from this have "0 < bit_length (magnitude a)" by (rule bit_length_pos)
  ultimately show thesis using that ds by (simp add: max_def)
next
  case (LargeInteger neg n ds)
  then have n: "0 < n" "byte_length (val ds) = n"
    using assms isNormalized_iff [of neg n ds] by (simp_all add: refuses_divisor_def)
  then have "0 < val ds" by (cases "val ds = 0") (simp_all add: byte_length_def)
  moreover have "length ds = (n + 3) div 4" using assms(1) LargeInteger by (simp add: integer_ok_def)
  moreover have "operand a = Some ds" using calculation(2) LargeInteger by (simp add: operand_def pointerToDigitsOf_def)
  ultimately show thesis using that n by (simp add: LargeInteger magnitude_def digit_length [symmetric])
qed

lemma createLarge_val:
  assumes "integer_ok (SmallInteger v)"
  shows "createLargeFromSmallInteger h k v = None \<and> (\<exists>k n. \<not> instantiates h k n) \<or>
    (\<exists>a. createLargeFromSmallInteger h k v = Some a \<and> integer_ok a \<and> magnitude a = magnitude (SmallInteger v) \<and> is_negative a = (v < 0))"
proof -
  define w :: "64 word" where "w = of_int (if v < 0 then 0 - v else v)"
  define p :: digits where "p = [ucast (w AND 0xFFFFFFFF), ucast (drop_bit 32 w AND 0xFFFFFFFF)]"
  have p: "pointerToDigitsOf (SmallInteger v) = (p, byteSizeOfCSI v)"
    by (simp add: pointerToDigitsOf_def Let_def p_def w_def)
  define n where "n = (byteSizeOfCSI v + 3) div 4"
  note o = operand_val [OF assms p, folded n_def]
  have n: "n \<le> 2" using pointerToDigitsOf_val(1) [OF assms p] by (simp add: n_def p_def)
  have low: "ucast (x AND 0xFFFFFFFF) = (ucast x :: 32 word)" for x :: "64 word"
  proof (rule word_unat_eq_iff [THEN iffD2])
    show "unat (ucast (x AND 0xFFFFFFFF) :: 32 word) = unat (ucast x :: 32 word)" by (simp only: unat_mask_32) (simp only: unat_low_32)
  qed
  have "map (\<lambda>ix. ucast (drop_bit (ix * 32) w)) [0..<n] = take n p"
    using n by (cases n; cases "n - 1") (auto simp: p_def low upt_rec)
  then have c: "createLargeFromSmallInteger h k v =
      (if instantiate h k (byteSizeOfCSI v) = None then None else Some (LargeInteger (v < 0) (byteSizeOfCSI v) (take n p)))"
    by (simp add: createLargeFromSmallInteger_def Let_def w_def n_def)
  have "integer_ok (LargeInteger (v < 0) (byteSizeOfCSI v) (take n p))"
    using o by (simp add: integer_ok_def n_def)
  moreover have "magnitude (LargeInteger (v < 0) (byteSizeOfCSI v) (take n p)) = magnitude (SmallInteger v)"
    using o(3) by (simp add: magnitude_def)
  ultimately show ?thesis using no_memory unfolding c by (auto simp: is_negative_def)
qed

lemma digits_Rshift_lookfirst_val:
  fixes pRem :: digits
  assumes "sl \<le> length pRem" "val (take sl pRem) = R * 2 ^ d"
  shows "digits_Rshift_lookfirst h k pRem d sl firstNeg = Some None \<and> (\<exists>k n. \<not> instantiates h k n) \<or>
    (\<exists>ds. digits_Rshift_lookfirst h k pRem d sl firstNeg = Some (Some (LargeInteger firstNeg (byte_length R) ds)) \<and>
      length ds = (byte_length R + 3) div 4 \<and> val ds = R)"
proof -
  define ob where "ob = cDigitHighBit pRem sl"
  have ob: "ob = bit_length (R * 2 ^ d)" using assms by (simp add: ob_def cDigitHighBit_val)
  show ?thesis
  proof (cases "R = 0")
    case True
    then show ?thesis
      using assms(1) no_memory [of h k 0] ob
      by (rule_tac instantiate_cases [of h k 0]) (simp_all add: digits_Rshift_lookfirst_def Let_def byte_length_def flip: ob_def)
  next
    case False
    then have bl: "ob = d + bit_length R" "0 < bit_length R"
      using bit_length_shift [of R d] bit_length_pos [of R] by (simp_all add: ob mult.commute)
    define f where "f = (ob + 0x1F) div 32"
    have f: "f = (bit_length (val (take sl pRem)) + 31) div 32" by (simp add: f_def ob assms(2))
    have fl: "f \<le> sl"
      using digit_length_le_iff [of "val (take sl pRem)" sl] val_take_lt [of sl pRem] unfolding f digit_length by simp
    have tk: "val (take f pRem) = R * 2 ^ d"
    proof -
      have "val (take sl pRem) < 2 ^ (32 * f)"
        using digit_length_le_iff [of "val (take sl pRem)" f] unfolding digit_length f by blast
      then have "val (take f (take sl pRem)) = val (take sl pRem)" unfolding val_take_32 [of f] by simp
      then show ?thesis using fl assms(2) by (simp add: min_def)
    qed
    define m where "m = (ob - d + 7) div 8"
    have m: "m = byte_length R" by (simp add: m_def byte_length_def bl)
    define n where "n = (m + 3) div 4"
    have n: "n = (bit_length (R * 2 ^ d div 2 ^ d) + 31) div 32" by (simp add: n_def m digit_length)
    have f': "f = (bit_length (R * 2 ^ d) + 31) div 32" using f assms(2) by simp
    obtain r where r: "cDigitRshift d pRem f (replicate n 0) n = Some r" "length r = n" "val r = R"
      using cDigitRshift_val [of f pRem n d "replicate n 0", unfolded tk, OF _ f' n] fl assms(1) False by auto
    have e: "digits_Rshift_lookfirst h k pRem d sl firstNeg = (case instantiate h k m of
          None \<Rightarrow> Some None
        | Some newOop \<Rightarrow> do { r \<leftarrow> cDigitRshift d pRem f newOop n; Some (Some (LargeInteger firstNeg m r)) })"
      using assms(1) bl unfolding digits_Rshift_lookfirst_def Let_def ob_def [symmetric] f_def [symmetric] m_def [symmetric] n_def [symmetric]
      by simp
    show ?thesis
      by (rule_tac instantiate_cases [of h k m]) (use r no_memory in \<open>simp_all add: e m n_def\<close>)
  qed
qed

text \<open>What a division answers: quotient and remainder, or, out of memory, a failure or, for want of the Array, a null pointer.\<close>

definition divides :: "li_host \<Rightarrow> integer_oop \<Rightarrow> integer_oop \<Rightarrow> bool \<Rightarrow> oop prim \<Rightarrow> bool" where
  "divides h x y neg out \<longleftrightarrow>
     (\<exists>q r. (out = Some (Inr (Array2 q r)) \<or>
          out = Some (Inl PrimErrNoMemory) \<and> ((\<exists>k n. \<not> instantiates h k n) \<or> (\<exists>n. \<not> malloc (kernels h) n)) \<or>
          out = Some (Inr NullOop) \<and> (\<exists>k. \<not> instantiates h k 2)) \<and>
        integer_ok q \<and> integer_ok r \<and>
        magnitude q = magnitude x div magnitude y \<and> (is_negative q = neg \<or> magnitude q = 0) \<and>
        magnitude r = magnitude x mod magnitude y \<and> is_negative r = is_negative x)"

lemma dividesI:
  assumes "integer_ok q" "integer_ok r" "magnitude q = magnitude x div magnitude y" "is_negative q = neg \<or> magnitude q = 0"
    "magnitude r = magnitude x mod magnitude y" "is_negative r = is_negative x"
    and "out = answer_pair h k q r \<or> out = Some (Inl PrimErrNoMemory) \<and> ((\<exists>k n. \<not> instantiates h k n) \<or> (\<exists>n. \<not> malloc (kernels h) n))"
  shows "divides h x y neg out"
proof -
  have "out = Some (Inr (Array2 q r)) \<or>
      out = Some (Inl PrimErrNoMemory) \<and> ((\<exists>k n. \<not> instantiates h k n) \<or> (\<exists>n. \<not> malloc (kernels h) n)) \<or>
      out = Some (Inr NullOop) \<and> (\<exists>k. \<not> instantiates h k 2)"
  proof (cases "instantiate h k 2 = None")
    case True
    then have "\<exists>k. \<not> instantiates h k 2" by (auto simp: instantiate_def split: if_splits)
    then show ?thesis using assms(7) True unfolding answer_pair_def by auto
  next
    case False
    then show ?thesis using assms(7) unfolding answer_pair_def by auto
  qed
  then show ?thesis unfolding divides_def using assms(1-6) by blast
qed

lemma digitDiv_short:
  assumes ok: "integer_ok x" "integer_ok y" and x: "operand x = Some dx" "val dx = magnitude x"
    and y: "operand y = Some dy" "val dy = magnitude y" "length dy = (bit_length (val dy) + 31) div 32"
    and short: "length dx < length dy"
  shows "divides h x y neg (digitDiv kn h x y neg)"
proof -
  have "\<not> (bit_length (val dy) + 31) div 32 \<le> length dx" using y(3) short by simp
  then have "2 ^ (32 * length dx) \<le> val dy"
    using digit_length_le_iff [of "val dy" "length dx"] unfolding digit_length by simp
  then have lt: "magnitude x < magnitude y" using val_lt_32 [of dx] x(2) y(2) by simp
  have q: "integer_ok (SmallInteger 0)" "magnitude (SmallInteger 0) = magnitude x div magnitude y"
    "is_negative (SmallInteger 0) = neg \<or> magnitude (SmallInteger 0) = 0"
    using lt by (simp_all add: integer_ok_def magnitude_def)
  show ?thesis
  proof (cases x)
    case (SmallInteger v)
    have e: "digitDiv kn h x y neg = (case createLargeFromSmallInteger h 0 v of
        None \<Rightarrow> Some (Inl PrimErrNoMemory) | Some firstLarge \<Rightarrow> answer_pair h 1 (SmallInteger 0) firstLarge)"
      using x y short SmallInteger by (simp add: digitDiv_def Let_def)
    consider "createLargeFromSmallInteger h 0 v = None" "\<exists>k n. \<not> instantiates h k n"
      | a where "createLargeFromSmallInteger h 0 v = Some a" "integer_ok a" "magnitude a = magnitude x" "is_negative a = is_negative x"
      using createLarge_val [of v h 0] ok(1) SmallInteger by (auto simp: is_negative_def)
    then show ?thesis
    proof cases
      case 1
      have r: "integer_ok (canonical (is_negative x) (magnitude x))" "magnitude (canonical (is_negative x) (magnitude x)) = magnitude x mod magnitude y"
        using lt canonical_ok by (simp_all add: magnitude_canonical)
      have "is_negative (canonical (is_negative x) (magnitude x)) = is_negative x"
        using is_negative_canonical [of "is_negative x" "magnitude x"] SmallInteger
        by (auto simp: is_negative_def magnitude_def split: if_splits)
      then show ?thesis using 1 e by (intro dividesI [where k = 1, OF q(1) r(1) q(2,3) r(2)]) simp_all
    next
      case 2
      then show ?thesis using e lt by (intro dividesI [where k = 1, OF q(1) 2(2) q(2,3)]) simp_all
    qed
  next
    case (LargeInteger n k ds)
    then have "digitDiv kn h x y neg = answer_pair h 1 (SmallInteger 0) x"
      using x y short by (simp add: digitDiv_def Let_def)
    then show ?thesis using ok(1) lt by (intro dividesI [where k = 1, OF q(1) ok(1) q(2,3)]) simp_all
  qed
qed

lemma high_bit_set: "2 ^ 31 \<le> unat (w :: 32 word) \<Longrightarrow> w AND 0x80000000 \<noteq> 0"
proof
  assume b: "2 ^ 31 \<le> unat w" and z: "w AND 0x80000000 = 0"
  have "\<not> bit w 31"
  proof
    assume "bit w 31"
    then have "bit (w AND push_bit 31 1) 31" by (simp add: bit_and_iff bit_push_bit_iff)
    then show False using z by simp
  qed
  moreover have "unat w < 2 ^ 32" using unat_lt [of w] by simp
  then have "unat w div 2 ^ 31 = 1" using b by (simp add: div_nat_eqI)
  then have "bit w 31" unfolding unat_bit [symmetric] bit_iff_odd by simp
  ultimately show False by blast
qed

text \<open>The digits the plugin prepares have the shape the kernel wants.\<close>

lemma prepared_shape:
  fixes dx dy pDiv pRem :: digits
  assumes y: "length dy = (bit_length (val dy) + 31) div 32" "0 < val dy"
    and long: "\<not> length dx < length dy"
  defines "d \<equiv> 32 - cHighBit32 (dy ! (length dy - 1))"
  assumes pDiv: "length pDiv = length dy + 1" "val pDiv = val dy * 2 ^ d"
    and pRem: "length pRem = length dx + 1" "val pRem = val dx * 2 ^ d"
  shows "liDigitDiv_shape pDiv pRem (length dx - length dy + 1)"
proof -
  define sl where "sl = length dy"
  note top = trimmed_top [OF y]
  have d: "d < 32" "bit_length (val pDiv) = 32 * sl"
    using top_digit_normalizes [OF top] unfolding d_def [symmetric] pDiv(2) sl_def by simp_all
  have sl: "0 < sl" using top(1) by (simp add: sl_def)
  have lt: "val pDiv < 2 ^ (32 * sl)" "\<not> val pDiv < 2 ^ (32 * sl - 1)"
    using d(2) sl unfolding bit_length_le_iff [symmetric] by simp_all
  have above: "p ! n = 0" if "val p < 2 ^ (32 * n)" "length p = n + 1" for p :: digits and n
  proof -
    have "val p = val (take n p) + 2 ^ (32 * n) * unat (p ! n)"
      using val_take_Suc [of n p] that(2) by simp
    then have "2 ^ (32 * n) * unat (p ! n) < 2 ^ (32 * n) * 1" using that(1) by linarith
    then show ?thesis by (simp add: unat_eq_zero)
  qed
  have z: "pDiv ! sl = 0" using above [of pDiv sl] lt(1) pDiv(1) by (simp add: sl_def)
  have tk: "val (take sl pDiv) = val pDiv" using lt(1) by (simp add: val_take_32)
  have "val (take sl pDiv) = val (take (sl - 1) pDiv) + 2 ^ (32 * (sl - 1)) * unat (pDiv ! (sl - 1))"
    using val_take_Suc [of "sl - 1" pDiv] pDiv(1) sl by (simp add: sl_def)
  moreover have "val (take (sl - 1) pDiv) < 2 ^ (32 * (sl - 1))" using val_take_lt [of "sl - 1" pDiv] by simp
  ultimately have "val pDiv < 2 ^ (32 * (sl - 1)) * Suc (unat (pDiv ! (sl - 1)))" using tk by simp
  moreover have "(2 :: nat) ^ (32 * (sl - 1)) * 2 ^ 31 \<le> val pDiv"
  proof -
    have "32 * (sl - 1) + 31 = 32 * sl - 1" using sl by simp
    then have "(2 :: nat) ^ (32 * (sl - 1)) * 2 ^ 31 = 2 ^ (32 * sl - 1)" by (simp only: flip: power_add)
    then show ?thesis using lt(2) by linarith
  qed
  ultimately have "(2 :: nat) ^ (32 * (sl - 1)) * 2 ^ 31 < 2 ^ (32 * (sl - 1)) * Suc (unat (pDiv ! (sl - 1)))" by linarith
  then have t31: "2 ^ 31 \<le> unat (pDiv ! (sl - 1))" by simp
  have "unat (pRem ! length dx) < 2 ^ 31"
  proof -
    have "val pRem = val (take (length dx) pRem) + 2 ^ (32 * length dx) * unat (pRem ! length dx)"
      using val_take_Suc [of "length dx" pRem] pRem(1) by simp
    moreover have "val pRem < 2 ^ (32 * length dx) * 2 ^ d"
      unfolding pRem(2) using val_lt_32 [of dx] by simp
    ultimately have "2 ^ (32 * length dx) * unat (pRem ! length dx) < 2 ^ (32 * length dx) * 2 ^ d" by linarith
    then have "unat (pRem ! length dx) < 2 ^ d" by simp
    also have "(2 :: nat) ^ d \<le> 2 ^ 31" using d(1) by (intro power_increasing) simp_all
    finally show ?thesis .
  qed
  then have "pRem ! length dx < pDiv ! (sl - 1)" using t31 by (simp add: word_less_nat_alt)
  then show ?thesis
    using high_bit_set [OF t31] z sl long pDiv(1) pRem(1) by (simp add: liDigitDiv_shape_def Let_def sl_def Suc_le_eq)
qed

lemma digitDiv_val:
  assumes kn: "knobs_ok kn" and ok: "integer_ok x" "integer_ok y" and refuses: "\<not> refuses_divisor y"
  shows "divides h x y neg (digitDiv kn h x y neg)"
proof -
  obtain dx where x: "operand x = Some dx" "val dx = magnitude x" by (rule operand_ok [OF ok(1)])
  obtain dy where y: "operand y = Some dy" "val dy = magnitude y" "length dy = (bit_length (val dy) + 31) div 32" "0 < val dy"
    by (rule operand_trimmed [OF ok(2) refuses])
  show ?thesis
  proof (cases "length dx < length dy")
    case True
    then show ?thesis using digitDiv_short [OF ok x y(1,2,3)] by blast
  next
    case False
    note top = trimmed_top [OF y(3,4)]
    define d where "d = 32 - cHighBit32 (dy ! (length dy - 1))"
    define n where "n = length dx - length dy + 1"
    have d: "d < 32" using top_digit_normalizes(1) [OF top] by (simp add: d_def)
    define out where "out = digitDiv kn h x y neg"
    have e: "out = (case (digit_buffer h 0 (length dy + 1), digit_buffer h 1 (length dx + 1)) of
            (Some divBuffer, Some remBuffer) \<Rightarrow> do {
              pDiv \<leftarrow> shift_into_buffer d dy divBuffer;
              pRem \<leftarrow> shift_into_buffer d dx remBuffer;
              case instantiate h 0 (n * 4) of
                None \<Rightarrow> Some (Inl PrimErrNoMemory)
              | Some _ \<Rightarrow> do {
                  (pQuo, pRem) \<leftarrow> liDigitDiv build64 liReciprocal64 kn (kernels h)
                    (take (length dy + 1) pDiv) (take (length dx + 1) pRem) n;
                  rem \<leftarrow> digits_Rshift_lookfirst h 1 pRem d (length dy) (is_negative x);
                  case rem of
                    None \<Rightarrow> Some (Inl PrimErrNoMemory)
                  | Some rem \<Rightarrow> answer_pair h 2 (LargeInteger neg (n * 4) pQuo) rem
                }
            }
          | _ \<Rightarrow> Some (Inl PrimErrNoMemory))"
      using False top(1) unfolding out_def digitDiv_def x(1) y(1)
      by (simp only: bind.bind_lunit Let_def if_False d_def [symmetric] n_def [symmetric]) simp
    define Q where "Q = magnitude x div magnitude y"
    define R where "R = magnitude x mod magnitude y"
    have my: "0 < magnitude y" using y by simp
    have quo: "\<exists>q. (out = Some (Inl PrimErrNoMemory) \<and> ((\<exists>k n. \<not> instantiates h k n) \<or> (\<exists>n. \<not> malloc (kernels h) n)) \<or>
        (\<exists>r. out = answer_pair h 2 (LargeInteger neg (n * 4) q) (LargeInteger (is_negative x) (byte_length R) r) \<and>
          length r = (byte_length R + 3) div 4 \<and> val r = R)) \<and> length q = n \<and> val q = Q"
    proof -
      obtain pDiv pRem where bufs: "length pDiv = length dy + 1" "val pDiv = val dy * 2 ^ d" "length pRem = length dx + 1" "val pRem = val dx * 2 ^ d"
        "out = Some (Inl PrimErrNoMemory) \<and> (\<exists>n. \<not> malloc (kernels h) n) \<or>
         out = (case instantiate h 0 (n * 4) of
                None \<Rightarrow> Some (Inl PrimErrNoMemory)
              | Some _ \<Rightarrow> do {
                  (pQuo, pRem) \<leftarrow> liDigitDiv build64 liReciprocal64 kn (kernels h) pDiv pRem n;
                  rem \<leftarrow> digits_Rshift_lookfirst h 1 pRem d (length dy) (is_negative x);
                  case rem of
                    None \<Rightarrow> Some (Inl PrimErrNoMemory)
                  | Some rem \<Rightarrow> answer_pair h 2 (LargeInteger neg (n * 4) pQuo) rem
                })"
      proof -
        have bufs: "\<exists>r. shift_into_buffer d p buf = Some r \<and> length (take (length p + 1) r) = length p + 1 \<and> val (take (length p + 1) r) = val p * 2 ^ d"
          if "length p + 1 \<le> length buf" for p buf :: digits
          using shift_into_buffer_val [OF d, of p buf] that by auto
        consider "digit_buffer h 0 (length dy + 1) = None \<or> digit_buffer h 1 (length dx + 1) = None" "\<exists>n. \<not> malloc (kernels h) n"
          | b1 b2 where "digit_buffer h 0 (length dy + 1) = Some b1" "length dy + 1 \<le> length b1"
            "digit_buffer h 1 (length dx + 1) = Some b2" "length dx + 1 \<le> length b2"
          by (metis digit_buffer_cases)
        then show thesis
        proof cases
          case 1
          then have "out = Some (Inl PrimErrNoMemory)" unfolding e by (auto split: option.splits)
          then have o: "out = Some (Inl PrimErrNoMemory) \<and> (\<exists>n. \<not> malloc (kernels h) n)" using 1(2) by blast
          obtain r1 :: digits where r1: "length (take (length dy + 1) r1) = length dy + 1" "val (take (length dy + 1) r1) = val dy * 2 ^ d"
            using bufs [of dy "replicate (length dy + 1) 0", unfolded length_replicate, OF order_refl] by blast
          obtain r2 :: digits where r2: "length (take (length dx + 1) r2) = length dx + 1" "val (take (length dx + 1) r2) = val dx * 2 ^ d"
            using bufs [of dx "replicate (length dx + 1) 0", unfolded length_replicate, OF order_refl] by blast
          show thesis by (rule that [OF r1 r2 disjI1 [OF o]])
        next
          case 2
          obtain r1 where r1: "shift_into_buffer d dy b1 = Some r1" "length (take (length dy + 1) r1) = length dy + 1"
            "val (take (length dy + 1) r1) = val dy * 2 ^ d" using bufs [OF 2(2)] by blast
          obtain r2 where r2: "shift_into_buffer d dx b2 = Some r2" "length (take (length dx + 1) r2) = length dx + 1"
            "val (take (length dx + 1) r2) = val dx * 2 ^ d" using bufs [OF 2(4)] by blast
          show thesis
            by (rule that [OF r1(2,3) r2(2,3) disjI2]) (simp only: e 2(1,3) r1(1) r2(1) prod.case option.case bind.bind_lunit)
        qed
      qed
      have shape: "liDigitDiv_shape pDiv pRem n"
        unfolding n_def by (rule prepared_shape [OF y(3,4) False, folded d_def]) (use bufs in simp_all)
      obtain q r where qr: "liDigitDiv build64 liReciprocal64 kn (kernels h) pDiv pRem n = Some (q, r)" "length q = n"
        "length r = length pRem" "val q = val pRem div val pDiv" "val r = val pRem mod val pDiv"
        using dd64.liDigitDiv_val [OF kn shape, of "kernels h"] by (auto simp: quotient_digits_def)
      have vq: "val q = Q" unfolding qr(4) bufs(2,4) Q_def x(2) y(2) by simp
      have vr: "val r = R * 2 ^ d" unfolding qr(5) bufs(2,4) R_def x(2) y(2) by (simp add: mod_mult_mult2)
      have "val (take (length dy) r) = R * 2 ^ d"
      proof -
        have "R < magnitude y" using my by (simp add: R_def)
        then have "val r < val pDiv" unfolding vr bufs(2) y(2) by simp
        also have "val pDiv < 2 ^ (32 * length dy)"
        proof -
          have "bit_length (val pDiv) = 32 * length dy" unfolding bufs(2) d_def by (rule top_digit_normalizes(2) [OF top])
          then show ?thesis unfolding bit_length_le_iff [symmetric] by simp
        qed
        finally show ?thesis using vr by (simp add: val_take_32)
      qed
      then consider "digits_Rshift_lookfirst h 1 r d (length dy) (is_negative x) = Some None" "\<exists>k n. \<not> instantiates h k n"
        | ds where "digits_Rshift_lookfirst h 1 r d (length dy) (is_negative x) = Some (Some (LargeInteger (is_negative x) (byte_length R) ds))"
          "length ds = (byte_length R + 3) div 4" "val ds = R"
        using digits_Rshift_lookfirst_val [of "length dy" r R d h 1 "is_negative x"] qr(3) bufs(3) False by auto
      then have "out = Some (Inl PrimErrNoMemory) \<and> ((\<exists>k n. \<not> instantiates h k n) \<or> (\<exists>n. \<not> malloc (kernels h) n)) \<or>
        (\<exists>r. out = answer_pair h 2 (LargeInteger neg (n * 4) q) (LargeInteger (is_negative x) (byte_length R) r) \<and>
          length r = (byte_length R + 3) div 4 \<and> val r = R)"
      proof cases
        case 1
        then show ?thesis
          using bufs(5) no_memory [of h 0 "n * 4"] by (cases "instantiate h 0 (n * 4)") (auto simp: qr(1))
      next
        case 2
        then show ?thesis
          using bufs(5) no_memory [of h 0 "n * 4"] by (cases "instantiate h 0 (n * 4)") (auto simp: qr(1))
      qed
      then show ?thesis using qr(2) vq by blast
    qed
    then obtain q where q: "length q = n" "val q = Q" and
      out: "out = Some (Inl PrimErrNoMemory) \<and> ((\<exists>k n. \<not> instantiates h k n) \<or> (\<exists>n. \<not> malloc (kernels h) n)) \<or>
        (\<exists>r. out = answer_pair h 2 (LargeInteger neg (n * 4) q) (LargeInteger (is_negative x) (byte_length R) r) \<and>
          length r = (byte_length R + 3) div 4 \<and> val r = R)" by blast
    have qok: "integer_ok (LargeInteger neg (n * 4) q)" "magnitude (LargeInteger neg (n * 4) q) = magnitude x div magnitude y"
      "is_negative (LargeInteger neg (n * 4) q) = neg"
      using q val_lt_32 [of q] by (simp_all add: integer_ok_def magnitude_def is_negative_def Q_def mult.commute)
    have rok: "integer_ok (LargeInteger (is_negative x) (byte_length R) r)" "magnitude (LargeInteger (is_negative x) (byte_length R) r) = magnitude x mod magnitude y"
      "is_negative (LargeInteger (is_negative x) (byte_length R) r) = is_negative x" if "length r = (byte_length R + 3) div 4" "val r = R" for r
      using that byte_length_le_iff [of R] by (auto simp: integer_ok_def magnitude_def is_negative_def R_def)
    have rr: "length (digits_of R) = (byte_length R + 3) div 4" "val (digits_of R) = R" using digits_of_val by simp_all
    show ?thesis
      using out unfolding out_def [symmetric]
    proof
      assume "out = Some (Inl PrimErrNoMemory) \<and> ((\<exists>k n. \<not> instantiates h k n) \<or> (\<exists>n. \<not> malloc (kernels h) n))"
      then show "divides h x y neg out"
        by (intro dividesI [OF qok(1) rok(1) [OF rr] qok(2) disjI1 [OF qok(3)] rok(2,3) [OF rr] disjI2])
    next
      assume "\<exists>r. out = answer_pair h 2 (LargeInteger neg (n * 4) q) (LargeInteger (is_negative x) (byte_length R) r) \<and>
          length r = (byte_length R + 3) div 4 \<and> val r = R"
      then obtain r where r: "out = answer_pair h 2 (LargeInteger neg (n * 4) q) (LargeInteger (is_negative x) (byte_length R) r)"
        "length r = (byte_length R + 3) div 4" "val r = R" by blast
      show "divides h x y neg out"
        by (rule dividesI [OF qok(1) rok(1) [OF r(2,3)] qok(2) disjI1 [OF qok(3)] rok(2,3) [OF r(2,3)] disjI1 [OF r(1)]])
    qed
  qed
qed

subsection \<open>Montgomery's multiplication\<close>

lemma digitMontgomery_val:
  assumes kn: "knobs_ok kn"
    and x: "operand x = Some dx" and y: "operand y = Some dy" and m: "operand m = Some dm"
    and len: "length dx \<le> length dm" "length dy \<le> length dm" "1 \<le> length dm" "dx \<noteq> [] \<Longrightarrow> dy \<noteq> []"
    and inv: "dm ! 0 * mInv = -1"
  shows "\<exists>r. answers h (digitMontgomery kn h x y m mInv) (canonical False r) \<and>
    (r * 2 ^ (32 * length dm)) mod val dm = (val dx * val dy) mod val dm \<and>
    (val dx < val dm \<or> val dy < val dm \<longrightarrow> r < val dm)"
proof -
  define n where "n = length dm"
  define out where "out = liDigitMontgomery build64 kn (kernels h) dx dy dm mInv (replicate n 0)"
  have mont: "montgomery_digits dx dy dm out"
    unfolding out_def n_def using mb64.liDigitMontgomery_val [OF kn inv len(3,1,2)] len(4) by blast
  then obtain r where r: "out = Some r" "length r = n" by (auto simp: montgomery_digits_def n_def)
  note res = montgomery_digits_residue [OF mont [unfolded r(1)] len(1,2)]
  define allocated where "allocated = (\<not> n \<le> LIStackDigits)"
  have e: "digitMontgomery kn h x y m mInv = (if allocated \<and> instantiate h 0 (n * 4) = None then Some (Inl PrimErrNoMemory)
      else normalized_result h 1 allocated (n * 4) r n False)"
  proof -
    have c: "length dx \<le> n \<and> length dy \<le> n" "\<not> (0 < length dx \<and> length dy = 0)"
      using len(1,2,4) by (auto simp: n_def)
    show ?thesis
      unfolding digitMontgomery_def x y m
      by (simp only: bind.bind_lunit Let_def n_def [symmetric] c not_True_eq_False if_False allocated_def [symmetric] out_def [symmetric] r(1)) (simp only: simp_thms if_False c n_def [symmetric] out_def [symmetric] r(1) bind.bind_lunit)
  qed
  have "answers h (normalized_result h 1 allocated (n * 4) r n False) (canonical False (val (take n r)))"
    using val_lt_32 [of r] r(2) by (intro normalized_result_canonical) (auto simp: mult.commute)
  then have "answers h (digitMontgomery kn h x y m mInv) (canonical False (val r))"
    using r(2) no_memory unfolding e answers_def by auto
  then show ?thesis using res by blast
qed

subsection \<open>The primitives\<close>

text \<open>
  C12: \<open>primDigitMultiplyNegative\<close> answers the product: for operands the image holds, any admissible thresholds
  and either sign, the normalized integer of the product of the magnitudes, or it runs out of memory;
  the kernel has the room it needs on every route.
\<close>
theorem primDigitMultiply_multiplies:
  assumes "knobs_ok kn" "integer_ok x" "integer_ok y"
  shows "\<exists>a. answers h (primDigitMultiplyNegative kn h 2 (Integer x) (Integer y) (Boolean neg)) (Integer a) \<and>
    normalized_integer a \<and> integer_value a = (if neg then - 1 else 1) * (\<bar>integer_value x\<bar> * \<bar>integer_value y\<bar>)"
proof -
  have "answers h (primDigitMultiplyNegative kn h 2 (Integer x) (Integer y) (Boolean neg))
      (Integer (canonical neg (magnitude x * magnitude y)))"
    using answer_integer_answers [OF digitMultiply_val [OF assms]] by (simp add: primDigitMultiplyNegative_def)
  moreover have "integer_value (canonical neg (magnitude x * magnitude y)) = (if neg then - 1 else 1) * (\<bar>integer_value x\<bar> * \<bar>integer_value y\<bar>)"
    unfolding canonical_value abs_integer_value by simp
  ultimately show ?thesis using normalized_canonical by blast
qed

theorem primDigitMultiply_multiplies_witness:
  "\<exists>a. primDigitMultiplyNegative knobs64 some_host 2 (Integer (SmallInteger (- 7))) (Integer (canonical False (2 ^ 200))) (Boolean True)
      = Some (Inr (Integer a)) \<and> integer_value a = - (7 * 2 ^ 200)"
proof -
  have "knobs_ok knobs64" "integer_ok (SmallInteger (- 7))" by (simp_all add: knobs_ok_def knobs64_def integer_ok_def)
  from primDigitMultiply_multiplies [OF this canonical_ok, of some_host False "2 ^ 200" True] show ?thesis
    unfolding some_host_answers canonical_value
    by (auto simp: integer_value_def [of "SmallInteger v" for v] is_negative_def magnitude_def)
qed

text \<open>
  C2: \<open>primDigitDivNegative\<close> divides: it fails for a divisor 0 and for operands with a leading zero byte, and
  otherwise answers quotient and remainder of the magnitudes, the quotient with the sign it is told and the
  remainder with the receiver's, whichever operand is longer: normalizing the divisor, the kernel and shifting the
  remainder back are exact. Only without memory it answers a failure, or the null pointer (the
  allocation of the Array is not checked).
\<close>
theorem primDigitDiv_divides:
  assumes "knobs_ok kn" "integer_ok x" "integer_ok y"
    and "normalized_integer x" "normalized_integer y" "integer_value y \<noteq> 0"
  shows "divides h x y neg (primDigitDivNegative kn h 2 (Integer x) (Integer y) (Boolean neg))"
proof -
  have large: "isNormalized n ds" if "normalized_integer (LargeInteger s n ds)" for s n ds
  proof -
    have "n = byte_length (val ds)" "2 ^ 60 \<le> val ds"
      using normalized_large(1) [OF that] large_magnitude [OF that] by (simp_all add: magnitude_def)
    moreover from this have "\<not> byte_length (val ds) \<le> 0" unfolding byte_length_le_iff by simp
    ultimately show ?thesis using isNormalized_iff [OF normalized_ok [OF that]] by simp
  qed
  have "\<not> refuses_dividend x"
    using large assms(4) by (cases x) (auto simp: refuses_dividend_def)
  moreover have "\<not> refuses_divisor y"
    using large assms(5,6) by (cases y) (auto simp: refuses_divisor_def integer_value_def is_negative_def magnitude_def)
  ultimately show ?thesis
    using digitDiv_val [OF assms(1-3)] by (simp add: primDigitDivNegative_def)
qed

theorem primDigitDiv_divides_witness:
  "\<exists>q r. primDigitDivNegative knobs64 some_host 2 (Integer (canonical False (2 ^ 200 + 12345))) (Integer (SmallInteger (- 1000))) (Boolean True)
      = Some (Inr (Array2 q r)) \<and>
    magnitude q = (2 ^ 200 + 12345) div 1000 \<and> is_negative q \<and> magnitude r = (2 ^ 200 + 12345) mod 1000"
proof -
  have k: "knobs_ok knobs64" by (simp add: knobs_ok_def knobs64_def)
  have y: "integer_ok (SmallInteger (- 1000))" "normalized_integer (SmallInteger (- 1000))" "integer_value (SmallInteger (- 1000)) \<noteq> 0"
    by (simp_all add: normalized_small integer_ok_def integer_value_def is_negative_def magnitude_def)
  have m: "magnitude (SmallInteger (- 1000)) = 1000" by (simp add: magnitude_def)
  have "(2 ^ 200 + 12345) div 1000 \<noteq> (0 :: nat)" by simp
  then show ?thesis
    using primDigitDiv_divides [OF k canonical_ok y(1) normalized_canonical y(2,3), of some_host False "2 ^ 200 + 12345" True]
    unfolding divides_def m magnitude_canonical some_host_def by auto
qed

lemma primDigitDiv_refuses:
  "primDigitDivNegative kn h 2 (Integer x) (Integer (SmallInteger 0)) (Boolean neg) = Some (Inl PrimErrGeneric)"
  "integer_ok (LargeInteger s n ds) \<Longrightarrow> byte_length (val ds) \<noteq> n \<Longrightarrow>
    primDigitDivNegative kn h 2 (Integer x) (Integer (LargeInteger s n ds)) (Boolean neg) = Some (Inl PrimErrGeneric)"
  using isNormalized_iff [of s n ds] by (simp_all add: primDigitDivNegative_def refuses_divisor_def)

text \<open>
  C35: \<open>primMontgomeryTimesModulo\<close> answers Montgomery's product: for operands not longer than an odd modulus of \<open>n\<close>
  digits whose inverse it is given, the normalized integer congruent to the product times the inverse
  of \<open>2 ^ (32 * n)\<close>, below the modulus when one of the operands is.
\<close>
theorem primMontgomery_residue:
  assumes "knobs_ok kn" "operand x = Some dx" "operand y = Some dy" "operand m = Some dm"
    and "length dx \<le> length dm" "length dy \<le> length dm" "1 \<le> length dm" "dy \<noteq> []"
    and "positive32BitValueOf w = Some mInv" "dm ! 0 * mInv = - 1"
  shows "\<exists>a. answers h (primMontgomeryTimesModulo positive32BitValueOf kn h 3 (Integer x) (Integer y) (Integer m) (Integer w)) (Integer a) \<and>
    normalized_integer a \<and> (magnitude a * 2 ^ (32 * length dm)) mod val dm = (val dx * val dy) mod val dm \<and>
    (val dx < val dm \<or> val dy < val dm \<longrightarrow> magnitude a < val dm)"
proof -
  obtain r where r: "answers h (digitMontgomery kn h x y m mInv) (canonical False r)"
    "(r * 2 ^ (32 * length dm)) mod val dm = (val dx * val dy) mod val dm" "val dx < val dm \<or> val dy < val dm \<longrightarrow> r < val dm"
    using digitMontgomery_val [OF assms(1-7) _ assms(10)] assms(8) by blast
  have "answers h (primMontgomeryTimesModulo positive32BitValueOf kn h 3 (Integer x) (Integer y) (Integer m) (Integer w)) (Integer (canonical False r))"
    using answer_integer_answers [OF r(1)] assms(9) by (simp add: primMontgomeryTimesModulo_def)
  then show ?thesis using r(2,3) normalized_canonical [of False r] magnitude_canonical [of False r] by metis
qed

theorem primMontgomery_residue_witness:
  "\<exists>a. primMontgomeryTimesModulo (\<lambda>w. Some (of_nat (magnitude w))) knobs64 some_host 3
        (Integer (SmallInteger 5)) (Integer (SmallInteger 6)) (Integer (SmallInteger 7)) (Integer (SmallInteger 0x49249249)) = Some (Inr (Integer a)) \<and>
     (magnitude a * 2 ^ 32) mod 7 = 30 mod 7 \<and> magnitude a < 7"
proof -
  have k: "knobs_ok knobs64" by (simp add: knobs_ok_def knobs64_def)
  have o: "operand (SmallInteger 5) = Some [5]" "operand (SmallInteger 6) = Some [6]" "operand (SmallInteger 7) = Some [7]"
    by (simp_all add: operand_def pointerToDigitsOf_def byteSizeOfCSI_def)
  have w: "(\<lambda>w. Some (of_nat (magnitude w))) (SmallInteger 0x49249249) = Some (0x49249249 :: 32 word)"
    by (simp add: magnitude_def)
  show ?thesis
    using primMontgomery_residue [where positive32BitValueOf = "\<lambda>w. Some (of_nat (magnitude w))", OF k o _ _ _ _ w, of some_host]
    by (auto simp: some_host_answers)
qed

text \<open>
  What the primitives take and answer: SmallIntegers in their range, LargeIntegers whose digits are whole and whose
  padding is zero, other objects; never the null pointer.
\<close>

definition oop_ok :: "oop \<Rightarrow> bool" where
  "oop_ok a = (case a of Integer x \<Rightarrow> integer_ok x | Array2 q r \<Rightarrow> integer_ok q \<and> integer_ok r | NullOop \<Rightarrow> False | _ \<Rightarrow> True)"

definition answers_ok :: "oop prim \<Rightarrow> bool" where
  "answers_ok r = (case r of None \<Rightarrow> False | Some (Inl e) \<Rightarrow> True | Some (Inr a) \<Rightarrow> oop_ok a)"

lemma answers_ok_simps [simp]:
  "answers_ok (Some (Inl e))" "answers_ok (Some (Inr a)) \<longleftrightarrow> oop_ok a"
  by (simp_all add: answers_ok_def)

lemma oop_ok_simps [simp]:
  "oop_ok (Integer x) \<longleftrightarrow> integer_ok x" "oop_ok (Boolean b)" "\<not> oop_ok NullOop" "oop_ok OtherOop"
  "oop_ok (Array2 q r) \<longleftrightarrow> integer_ok q \<and> integer_ok r"
  by (simp_all add: oop_ok_def)

lemma answers_are_ok: "answers h r a \<Longrightarrow> oop_ok a \<Longrightarrow> answers_ok r"
  by (auto simp: answers_def)

lemma with_integers_ok:
  assumes "oop_ok a" "oop_ok b" "\<And>x y. integer_ok x \<Longrightarrow> integer_ok y \<Longrightarrow> answers_ok (body x y)"
  shows "answers_ok (with_integers n a b body)"
  using assms by (cases a; cases b) (simp_all add: with_integers_def)

lemma normalized_result_ok:
  fixes ds :: digits
  assumes "length ds = len"
  shows "answers_ok (answer_integer (normalized_result h k allocated (len * 4) ds len neg))"
proof -
  have "answers h (normalized_result h k allocated (len * 4) ds len neg) (canonical neg (val (take len ds)))"
    using val_lt_32 [of ds] assms by (intro normalized_result_canonical) (auto simp: mult.commute)
  then show ?thesis using answer_integer_answers answers_are_ok canonical_ok oop_ok_simps(1) by metis
qed

lemma length_cDigitSub: "length p \<le> length q \<Longrightarrow> length (cDigitSub p q 0) = length q"
  using cDigitSub_val [of p q 0 0] by auto

lemma digitSub_ok:
  assumes "integer_ok x" "integer_ok y"
  shows "answers_ok (answer_integer (digitSub h x y))"
proof -
  obtain dx where x: "operand x = Some dx" by (rule operand_ok [OF assms(1)])
  obtain dy where y: "operand y = Some dy" by (rule operand_ok [OF assms(2)])
  define k where "k = skip_equal dx dy (length dx)"
  obtain nx ny where n: "(if length dx = length dy then (k, k) else (length dx, length dy)) = (nx, ny)"
    by fastforce
  have le: "nx \<le> length dx" "ny \<le> length dy"
    using n skip_equal_val [of "length dx" dx dy] by (auto simp: k_def split: if_splits)
  define smaller where "smaller = (nx < ny \<or> (nx = ny \<and> nx > 0 \<and> dx ! (nx - 1) < dy ! (nx - 1)))"
  define neg where "neg = (if smaller then \<not> is_negative x else is_negative x)"
  define l where "l = (if smaller then ny else nx)"
  define s where "s = (if smaller then nx else ny)"
  define r where "r = (if smaller then cDigitSub (take s dx) (take l dy) 0 else cDigitSub (take s dy) (take l dx) 0)"
  define allocated where "allocated = (\<not> l \<le> LIStackDigits)"
  have "s \<le> l" by (auto simp: s_def l_def smaller_def)
  then have "length r = l" using le length_cDigitSub [of "take s dx" "take l dy"] length_cDigitSub [of "take s dy" "take l dx"]
    by (auto simp: r_def l_def s_def split: if_splits)
  then have "answers_ok (answer_integer (normalized_result h 1 allocated (l * 4) r l neg))"
    by (rule normalized_result_ok)
  moreover have "digitSub h x y = (if allocated \<and> instantiate h 0 (l * 4) = None then Some (Inl PrimErrNoMemory)
      else normalized_result h 1 allocated (l * 4) r l neg)"
  proof -
    have t: "(if smaller then (ny, nx, \<not> is_negative x) else (nx, ny, is_negative x)) = (l, s, neg)"
      by (simp add: l_def s_def neg_def)
    show ?thesis
      unfolding digitSub_def x y bind.bind_lunit Let_def k_def [symmetric] n prod.case
      unfolding smaller_def [symmetric] t prod.case allocated_def [symmetric] r_def [symmetric] ..
  qed
  ultimately show ?thesis by (simp add: answer_integer_def)
qed

lemma prim_of_canonical: "answers h r (canonical neg m) \<Longrightarrow> answers_ok (answer_integer r)"
  using answer_integer_answers answers_are_ok canonical_ok oop_ok_simps(1) by metis

lemma digitCompare_ok:
  assumes "integer_ok x" "integer_ok y"
  shows "\<exists>c. digitCompare x y = Some c \<and> \<bar>c\<bar> \<le> 1"
  using assms cDigitCompare_val
  by (auto simp: digitCompare_def digitCompareLarge_def integer_ok_def Let_def sgn_if split: integer_oop.splits)

text \<open>The two answers with an unchecked allocation: a zero shifted to the left, and the Array of a division.\<close>

lemma digitLshift_ok:
  "answers_ok (digitLshift h a ds s) \<or> digitLshift h a ds s = Some (Inr NullOop) \<and> \<not> instantiates h 0 1"
proof (cases "val ds = 0")
  case True
  then show ?thesis by (simp add: digitLshift_zero integer_ok_def)
next
  case False
  then obtain r where r: "answers h (digitLshift h a ds s) (Integer (LargeInteger (is_negative a) (byte_length (val ds * 2 ^ s)) r))"
    "length r = (byte_length (val ds * 2 ^ s) + 3) div 4" "val r = val ds * 2 ^ s"
    using digitLshift_val [of ds h a s] by blast
  then have "integer_ok (LargeInteger (is_negative a) (byte_length (val ds * 2 ^ s)) r)"
    using byte_length_le_iff [of "val ds * 2 ^ s"] by (auto simp: integer_ok_def)
  then show ?thesis using answers_are_ok [OF r(1)] by simp
qed

lemma shift_ok:
  assumes "oop_ok a"
  shows "answers_ok (primDigitBitShiftMagnitude h n a b) \<or>
    primDigitBitShiftMagnitude h n a b = Some (Inr NullOop) \<and> \<not> instantiates h 0 1"
proof (cases "\<exists>x v. n = 1 \<and> a = Integer x \<and> b = Integer (SmallInteger v)")
  case True
  then obtain x v where x: "n = 1" "a = Integer x" "b = Integer (SmallInteger v)" by blast
  then obtain ds where "operand x = Some ds" using assms operand_ok [of x] by auto
  then show ?thesis
    using digitLshift_ok [of h x ds "nat v"] prim_of_canonical [OF digitRshift_val [of h x ds "nat (0 - v)"]] x
    by (simp add: primDigitBitShiftMagnitude_def)
next
  case False
  then have "answers_ok (primDigitBitShiftMagnitude h n a b)"
    by (cases a; cases b) (auto simp: primDigitBitShiftMagnitude_def split: integer_oop.splits)
  then show ?thesis by blast
qed

lemma anyBit_ok: "oop_ok a \<Longrightarrow> answers_ok (primAnyBitFromTo n a b c)"
proof -
  have "\<exists>r. anyBitOfDigits ds start stop = Some r" for ds start stop
    by (auto simp: anyBitOfDigits_def Let_def)
  then have "answers_ok (map_option (map_sum id Boolean) (anyBitOfDigits ds start stop))" for ds start stop
    by (metis (no_types) answers_ok_simps map_sum.simps oop_ok_simps(2) option.map(2) sum.exhaust)
  then show "oop_ok a \<Longrightarrow> answers_ok (primAnyBitFromTo n a b c)"
    by (cases a) (auto simp: primAnyBitFromTo_def elim: operand_ok split: integer_oop.splits oop.splits)
qed

lemma bit_logic_ok:
  assumes "integer_ok x" "integer_ok y"
  shows "answers_ok (answer_integer (digitBitLogic h x y opIx))"
proof (cases "is_negative x \<or> is_negative y")
  case True
  then have "digitBitLogic h x y opIx = Some (Inl PrimErrGeneric)"
    by (auto simp: digitBitLogic_def split: prod.splits)
  then show ?thesis by (simp add: answer_integer_def)
qed (use prim_of_canonical [OF digitBitLogic_val [OF assms]] in blast)

lemma divides_ok:
  assumes "divides h x y neg r"
  shows "answers_ok r \<or> r = Some (Inr NullOop) \<and> (\<exists>k. \<not> instantiates h k 2)"
  using assms unfolding divides_def by auto

lemma div_ok:
  assumes "knobs_ok kn" "oop_ok a" "oop_ok b"
  shows "answers_ok (primDigitDivNegative kn h n a b c) \<or>
    primDigitDivNegative kn h n a b c = Some (Inr NullOop) \<and> (\<exists>k. \<not> instantiates h k 2)"
proof -
  have "answers_ok (digitDiv kn h x y neg) \<or> digitDiv kn h x y neg = Some (Inr NullOop) \<and> (\<exists>k. \<not> instantiates h k 2)"
    if "integer_ok x" "integer_ok y" "\<not> refuses_divisor y" for x y neg
    by (rule divides_ok [OF digitDiv_val [OF assms(1) that]])
  then show ?thesis
    using assms(2,3) by (cases a; cases b; cases c) (simp_all add: primDigitDivNegative_def)
qed

text \<open>Montgomery's multiplication with a number that is not the inverse of the modulus: the loop stays inside the result.\<close>

lemma length_montgomery_mul:
  "length pSecond \<le> length pThird \<Longrightarrow> length pRes = length pThird \<Longrightarrow>
    length (fst (liDigitMontgomery32_mul fi u pSecond pThird pRes accum)) = length pThird"
  by (induction fi u pSecond pThird pRes accum rule: liDigitMontgomery32_mul.induct) (auto simp: Let_def split: prod.splits)

lemma length_montgomery_top: "length (fst (liDigitMontgomery32_top ws accum lastDigit)) = Suc (length ws)"
  by (simp add: liDigitMontgomery32_top_def Let_def)

lemma length_montgomery_row:
  assumes "1 \<le> length pThird" "length pSecond \<le> length pThird" "length (fst st) = length pThird"
  shows "length (fst (liDigitMontgomery32_row pSecond pThird mInv fi st)) = length pThird"
    "length (fst (liDigitMontgomery32_reduce pThird mInv st)) = length pThird"
proof -
  obtain r l where st: "st = (r, l)" by (cases st)
  have m: "length (fst (liDigitMontgomery32_mul f u p (drop 1 pThird) (drop 1 r) accum)) = length pThird - 1"
    if "length p \<le> length pThird - 1" for f u p accum
    using length_montgomery_mul [of p "drop 1 pThird" "drop 1 r"] that assms(3) st by simp
  show "length (fst (liDigitMontgomery32_row pSecond pThird mInv fi st)) = length pThird"
    unfolding liDigitMontgomery32_row_def st Let_def split_beta fst_conv snd_conv length_montgomery_top
    by (subst m) (use assms(1,2) in simp_all)
  show "length (fst (liDigitMontgomery32_reduce pThird mInv st)) = length pThird"
    unfolding liDigitMontgomery32_reduce_def st Let_def split_beta fst_conv snd_conv length_montgomery_top
    by (subst m) (use assms(1) in simp_all)
qed

lemma length_montgomery_rows:
  assumes "1 \<le> length pThird" "length pSecond \<le> length pThird"
  shows "length (fst st) = length pThird \<Longrightarrow> length (fst (fold (liDigitMontgomery32_row pSecond pThird mInv) pFirst st)) = length pThird"
    "length (fst st) = length pThird \<Longrightarrow> length (fst ((liDigitMontgomery32_reduce pThird mInv ^^ k) st)) = length pThird"
proof -
  show "length (fst st) = length pThird \<Longrightarrow> length (fst (fold (liDigitMontgomery32_row pSecond pThird mInv) pFirst st)) = length pThird"
    by (induction pFirst arbitrary: st) (simp_all add: length_montgomery_row [OF assms])
  show "length (fst st) = length pThird \<Longrightarrow> length (fst ((liDigitMontgomery32_reduce pThird mInv ^^ k) st)) = length pThird"
    by (induction k) (simp_all add: length_montgomery_row [OF assms])
qed

lemma length_montgomery_sub: "length (liDigitMontgomery32_sub pRes pThird accum) = min (length pRes) (length pThird)"
  by (induction pRes pThird accum rule: liDigitMontgomery32_sub.induct) (simp_all add: Let_def)

lemma liDigitMontgomery32_length:
  assumes "length pFirst \<le> length pThird" "length pSecond \<le> length pThird" "pFirst \<noteq> [] \<Longrightarrow> pSecond \<noteq> []"
  shows "\<exists>r. liDigitMontgomery32 pFirst pSecond pThird mInv (replicate (length pThird) 0) = Some r \<and> length r = length pThird"
proof (cases "pThird = []")
  case True
  then show ?thesis using assms by (simp add: liDigitMontgomery32_def)
next
  case False
  then have one: "1 \<le> length pThird" by (simp add: Suc_le_eq)
  let ?st = "(liDigitMontgomery32_reduce pThird mInv ^^ (length pThird - length pFirst))
    (fold (liDigitMontgomery32_row pSecond pThird mInv) pFirst (replicate (length pThird) 0, 0))"
  have "length (fst ?st) = length pThird"
    by (intro length_montgomery_rows [OF one assms(2)]) simp
  moreover obtain r l where "?st = (r, l)" by fastforce
  ultimately show ?thesis
    using assms by (auto simp: liDigitMontgomery32_def Let_def length_montgomery_sub)
qed

lemma digitMontgomery_ok:
  assumes "knobs_ok kn" "integer_ok x" "integer_ok y" "integer_ok m"
  shows "answers_ok (answer_integer (digitMontgomery kn h x y m mInv))"
proof -
  obtain dx where x: "operand x = Some dx" by (rule operand_ok [OF assms(2)])
  obtain dy where y: "operand y = Some dy" by (rule operand_ok [OF assms(3)])
  obtain dm where m: "operand m = Some dm" by (rule operand_ok [OF assms(4)])
  define n where "n = length dm"
  define allocated where "allocated = (\<not> n \<le> LIStackDigits)"
  define out where "out = liDigitMontgomery build64 kn (kernels h) dx dy dm mInv (replicate n 0)"
  have e: "digitMontgomery kn h x y m mInv =
      (if \<not> (length dx \<le> n \<and> length dy \<le> n) then Some (Inl PrimErrGeneric)
       else if length dx > 0 \<and> length dy = 0 then Some (Inl PrimErrGeneric)
       else if allocated \<and> instantiate h 0 (n * 4) = None then Some (Inl PrimErrNoMemory)
       else do { pRes \<leftarrow> out; normalized_result h 1 allocated (n * 4) pRes n False })"
    unfolding digitMontgomery_def x y m bind.bind_lunit Let_def n_def [symmetric] allocated_def [symmetric] out_def [symmetric] ..
  show ?thesis
  proof (cases "(length dx \<le> n \<and> length dy \<le> n) \<and> (dx \<noteq> [] \<longrightarrow> dy \<noteq> [])")
    case True
    have "\<exists>r. out = Some r \<and> length r = n"
    proof (cases "1 \<le> n \<and> dm ! 0 * mInv = - 1")
      case inv: True
      have "montgomery_digits dx dy dm out"
        unfolding out_def n_def
        by (rule mb64.liDigitMontgomery_val [OF assms(1)]) (use inv True in \<open>simp_all add: n_def\<close>)
      then show ?thesis by (auto simp: montgomery_digits_def n_def)
    next
      case False
      then have "out = liDigitMontgomery32 dx dy dm mInv (replicate n 0)"
        using assms(1) by (auto simp: out_def liDigitMontgomery_def n_def knobs_ok_def)
      then show ?thesis using liDigitMontgomery32_length [of dx dm dy mInv] True by (auto simp: n_def)
    qed
    then obtain r where r: "out = Some r" "length r = n" by blast
    then have "answers_ok (answer_integer (normalized_result h 1 allocated (n * 4) r n False))"
      by (intro normalized_result_ok)
    then show ?thesis unfolding e r(1) by (simp add: answer_integer_def)
  next
    case False
    then show ?thesis unfolding e by (auto simp: answer_integer_def)
  qed
qed

text \<open>
  C3: the primitives are well typed, all fourteen of them: on any receiver and arguments of the image (SmallIntegers in
  range, LargeIntegers with whole digits and zero padding, other objects), any number of arguments, any thresholds, any
  reading of the inverse and any allocator, each of them either fails or answers such an object again; the copies and
  shifts stay inside the objects and buffers they work on and every kernel returns. There are two exceptions, where the
  code does not check an allocation and pushes a null pointer: the division, when the Array for its answer
  is refused, and the shift, when the byte of a zero is.
\<close>
theorem primitives_are_typed:
  assumes "knobs_ok kn" "oop_ok a" "oop_ok b" "oop_ok c" "oop_ok d"
  shows "answers_ok (primDigitAdd h n a b) \<and> answers_ok (primDigitSubtract h n a b) \<and>
    answers_ok (primDigitMultiplyNegative kn h n a b c) \<and>
    (answers_ok (primDigitDivNegative kn h n a b c) \<or>
      primDigitDivNegative kn h n a b c = Some (Inr NullOop) \<and> (\<exists>k. \<not> instantiates h k 2)) \<and>
    answers_ok (primDigitCompare n a b) \<and>
    (answers_ok (primDigitBitShiftMagnitude h n a b) \<or>
      primDigitBitShiftMagnitude h n a b = Some (Inr NullOop) \<and> \<not> instantiates h 0 1) \<and>
    answers_ok (primDigitBitAnd h n a b) \<and> answers_ok (primDigitBitOr h n a b) \<and> answers_ok (primDigitBitXor h n a b) \<and>
    answers_ok (primAnyBitFromTo n a b c) \<and> answers_ok (primNormalizePositive h n a) \<and> answers_ok (primNormalizeNegative h n a) \<and>
    answers_ok (primMontgomeryTimesModulo positive32BitValueOf kn h n a b c d) \<and> answers_ok (primMontgomeryDigitLength n)"
proof (intro conjI)
  show "answers_ok (primDigitAdd h n a b)" unfolding primDigitAdd_def
    using digitAdd_val by (intro with_integers_ok assms) (metis answer_integer_answers answers_are_ok oop_ok_simps(1))
  show "answers_ok (primDigitSubtract h n a b)" unfolding primDigitSubtract_def
    by (intro with_integers_ok assms digitSub_ok)
  show "answers_ok (primDigitMultiplyNegative kn h n a b c)"
    using assms(2-4) prim_of_canonical [OF digitMultiply_val [OF assms(1)]]
    by (cases a; cases b; cases c) (simp_all add: primDigitMultiplyNegative_def)
  show "answers_ok (primDigitDivNegative kn h n a b c) \<or>
      primDigitDivNegative kn h n a b c = Some (Inr NullOop) \<and> (\<exists>k. \<not> instantiates h k 2)" by (rule div_ok [OF assms(1-3)])
  show "answers_ok (primDigitCompare n a b)" unfolding primDigitCompare_def
  proof (intro with_integers_ok assms)
    fix x y
    assume "integer_ok x" "integer_ok y"
    then obtain v where "digitCompare x y = Some v" "- 1 \<le> v" "v \<le> 1" using digitCompare_ok by fastforce
    then show "answers_ok (map_option (\<lambda>c. Inr (Integer (SmallInteger c))) (digitCompare x y))"
      by (auto simp: integer_ok_def)
  qed
  show "answers_ok (primDigitBitShiftMagnitude h n a b) \<or>
      primDigitBitShiftMagnitude h n a b = Some (Inr NullOop) \<and> \<not> instantiates h 0 1" by (rule shift_ok [OF assms(2)])
  show "answers_ok (primDigitBitAnd h n a b)" unfolding primDigitBitAnd_def by (intro with_integers_ok assms bit_logic_ok)
  show "answers_ok (primDigitBitOr h n a b)" unfolding primDigitBitOr_def by (intro with_integers_ok assms bit_logic_ok)
  show "answers_ok (primDigitBitXor h n a b)" unfolding primDigitBitXor_def by (intro with_integers_ok assms bit_logic_ok)
  show "answers_ok (primAnyBitFromTo n a b c)" by (rule anyBit_ok [OF assms(2)])
  show "answers_ok (primNormalizePositive h n a)"
    using assms(2) prim_of_canonical [OF normalize_canonical [of False]]
    by (cases a) (auto simp: primNormalizePositive_def split: integer_oop.splits bool.splits)
  show "answers_ok (primNormalizeNegative h n a)"
    using assms(2) prim_of_canonical [OF normalize_canonical [of True]]
    by (cases a) (auto simp: primNormalizeNegative_def split: integer_oop.splits bool.splits)
  show "answers_ok (primMontgomeryTimesModulo positive32BitValueOf kn h n a b c d)"
    using assms(2-5) digitMontgomery_ok [OF assms(1)]
    by (cases a; cases b; cases c; cases d) (auto simp: primMontgomeryTimesModulo_def split: option.split)
  show "answers_ok (primMontgomeryDigitLength n)" by (simp add: primMontgomeryDigitLength_def integer_ok_def)
qed

theorem primitives_are_typed_witness:
  "primDigitDivNegative knobs64 (some_host\<lparr>instantiates := (\<lambda>k n. n \<noteq> 8)\<rparr>) 2
     (Integer (LargeInteger False 9 [10, 0, 1])) (Integer (SmallInteger 7)) (Boolean True) \<notin> {None, Some (Inr NullOop)} \<and>
   answers_ok (primMontgomeryTimesModulo (\<lambda>w. Some 3) knobs64 some_host 3
     (Integer (LargeInteger False 9 [10, 0, 1])) (Integer (SmallInteger 7)) (Integer (LargeInteger False 12 [6, 1, 2])) (Integer (SmallInteger 3)))"
proof -
  let ?a = "Integer (LargeInteger False 9 [10, 0, 1])" and ?m = "Integer (LargeInteger False 12 [6, 1, 2])"
  have ok: "knobs_ok knobs64" "oop_ok ?a" "oop_ok (Integer (SmallInteger 7))" "oop_ok (Boolean True)" "oop_ok ?m" "oop_ok (Integer (SmallInteger 3))"
    by (simp_all add: knobs_ok_def knobs64_def integer_ok_def)
  have "answers_ok r \<Longrightarrow> r \<notin> {None, Some (Inr NullOop)}" for r by (cases r) (auto simp: answers_ok_def)
  then show ?thesis
    using primitives_are_typed [OF ok(1-4,4), of "some_host\<lparr>instantiates := (\<lambda>k n. n \<noteq> 8)\<rparr>" 2]
      primitives_are_typed [OF ok(1-3,5,6), of some_host 3 "\<lambda>w. Some 3"] by fastforce
qed

text \<open>The exceptions happen: without memory for the Array a division pushes a null pointer and does not fail.\<close>

lemma primDigitDivNegative_null:
  assumes "\<not> instantiates h 1 2"
  shows "primDigitDivNegative kn h 2 (Integer (LargeInteger False 8 [5, 0x80000000])) (Integer (LargeInteger False 12 [1, 2, 0x80000000])) (Boolean neg)
    = Some (Inr NullOop)"
  using assms
  by (simp add: primDigitDivNegative_def refuses_dividend_def refuses_divisor_def isNormalized_def
      digitDiv_def operand_def pointerToDigitsOf_def answer_pair_def instantiate_def)

end
