(* ===== verification/BltRules.thy ===== *)
theory BltRules
  imports Prelude
begin

text \<open>
  The combination rules of \<open>BitBltPlugin.c\<close>: what becomes of a word of 32 bits of the destination when a word of the
  source is merged into it. The rules 0 to 15 are the boolean functions, the others work on the pixels packed
  in a word or on their color channels. The state they read (depth and number of pixels of the destination, the
  mask of the pixels to change, the constant alpha) is the record \<open>blt_env\<close>. The rules that count
  or tally instead of drawing (22, 23, 32, 33) and the component alpha (41) have no function here.
\<close>

record blt_env =
  envDepth :: nat
  envPPW :: nat
  envMask :: "32 word"
  envAlpha :: "32 word"

type_synonym merge_fn = "blt_env \<Rightarrow> 32 word \<Rightarrow> 32 word \<Rightarrow> 32 word"

definition maskTable :: "nat \<Rightarrow> 32 word" where
  "maskTable n =
     (if n = 1 then 1 else if n = 2 then 3 else if n = 4 then 15 else if n = 5 then 31 else if n = 8 then 255
      else if n = 16 then 65535 else if n = 32 then - 1 else 0)"

subsection \<open>The boolean functions and sums of words\<close>

definition clearWordwith :: merge_fn where "clearWordwith e sourceWord destinationWord = 0"
definition bitAndwith :: merge_fn where "bitAndwith e sourceWord destinationWord = sourceWord AND destinationWord"
definition bitAndInvertwith :: merge_fn where "bitAndInvertwith e sourceWord destinationWord = sourceWord AND NOT destinationWord"
definition sourceWordwith :: merge_fn where "sourceWordwith e sourceWord destinationWord = sourceWord"
definition bitInvertAndwith :: merge_fn where "bitInvertAndwith e sourceWord destinationWord = NOT sourceWord AND destinationWord"
definition destinationWordwith :: merge_fn where "destinationWordwith e sourceWord destinationWord = destinationWord"
definition bitXorwith :: merge_fn where "bitXorwith e sourceWord destinationWord = sourceWord XOR destinationWord"
definition bitOrwith :: merge_fn where "bitOrwith e sourceWord destinationWord = sourceWord OR destinationWord"
definition bitInvertAndInvertwith :: merge_fn where
  "bitInvertAndInvertwith e sourceWord destinationWord = NOT sourceWord AND NOT destinationWord"
definition bitInvertXorwith :: merge_fn where "bitInvertXorwith e sourceWord destinationWord = NOT sourceWord XOR destinationWord"
definition bitInvertDestinationwith :: merge_fn where "bitInvertDestinationwith e sourceWord destinationWord = NOT destinationWord"
definition bitOrInvertwith :: merge_fn where "bitOrInvertwith e sourceWord destinationWord = sourceWord OR NOT destinationWord"
definition bitInvertSourcewith :: merge_fn where "bitInvertSourcewith e sourceWord destinationWord = NOT sourceWord"
definition bitInvertOrwith :: merge_fn where "bitInvertOrwith e sourceWord destinationWord = NOT sourceWord OR destinationWord"
definition bitInvertOrInvertwith :: merge_fn where
  "bitInvertOrInvertwith e sourceWord destinationWord = NOT sourceWord OR NOT destinationWord"
definition addWordwith :: merge_fn where "addWordwith e sourceWord destinationWord = sourceWord + destinationWord"
definition subWordwith :: merge_fn where "subWordwith e sourceWord destinationWord = sourceWord - destinationWord"

subsection \<open>Fields of a word, one at a time\<close>

text \<open>The loops over the partitions of a word: \<open>field\<close> is what an iteration adds to the result for its mask.\<close>

fun partitions :: "(32 word \<Rightarrow> 32 word) \<Rightarrow> nat \<Rightarrow> nat \<Rightarrow> 32 word \<Rightarrow> 32 word \<Rightarrow> 32 word" where
  "partitions field nBits 0 m result = result"
| "partitions field nBits (Suc n) m result = partitions field nBits n (push_bit nBits m) (result OR field m)"

definition partitionedAND :: "32 word \<Rightarrow> 32 word \<Rightarrow> nat \<Rightarrow> nat \<Rightarrow> 32 word" where
  "partitionedAND word1 word2 nBits nParts =
     partitions (\<lambda>m. if word1 AND m = m then word2 AND m else 0) nBits nParts (maskTable nBits) 0"

definition partitionedMax :: "32 word \<Rightarrow> 32 word \<Rightarrow> nat \<Rightarrow> nat \<Rightarrow> 32 word" where
  "partitionedMax word1 word2 nBits nParts =
     partitions (\<lambda>m. if word2 AND m < word1 AND m then word1 AND m else word2 AND m) nBits nParts (maskTable nBits) 0"

definition partitionedMin :: "32 word \<Rightarrow> 32 word \<Rightarrow> nat \<Rightarrow> nat \<Rightarrow> 32 word" where
  "partitionedMin word1 word2 nBits nParts =
     partitions (\<lambda>m. if word2 AND m < word1 AND m then word2 AND m else word1 AND m) nBits nParts (maskTable nBits) 0"

definition partitionedSub :: "32 word \<Rightarrow> 32 word \<Rightarrow> nat \<Rightarrow> nat \<Rightarrow> 32 word" where
  "partitionedSub word1 word2 nBits nParts =
     partitions (\<lambda>m. let p1 = word1 AND m; p2 = word2 AND m in if p1 < p2 then p2 - p1 else p1 - p2)
       nBits nParts (maskTable nBits) 0"

definition partitionedAdd :: "32 word \<Rightarrow> 32 word \<Rightarrow> nat \<Rightarrow> 32 word \<Rightarrow> 32 word \<Rightarrow> 32 word" where
  "partitionedAdd word1 word2 nBits componentMask carryOverflowMask =
     (let w1 = word1 AND carryOverflowMask;
          w2 = word2 AND carryOverflowMask;
          sm = (word1 XOR w1) + (word2 XOR w2);
          carryOverflow = (w1 AND w2) OR ((w1 OR w2) AND sm)
      in ((sm XOR w1) XOR w2) OR (drop_bit (nBits - 1) carryOverflow * componentMask))"

definition partitionedMul :: "32 word \<Rightarrow> 32 word \<Rightarrow> nat \<Rightarrow> nat \<Rightarrow> 32 word" where
  "partitionedMul word1 word2 nBits nParts =
     (let sMask = maskTable nBits;
          dMask = push_bit nBits sMask;
          product = (\<lambda>k. ((((drop_bit (k * nBits) word1) AND sMask) + 1) * (((drop_bit (k * nBits) word2) AND sMask) + 1) - 1) AND dMask);
          result = drop_bit nBits (((((word1 AND sMask) + 1) * ((word2 AND sMask) + 1)) - 1) AND dMask)
      in if nParts = 1 then result
         else let result = result OR product 1
              in if nParts = 2 then result
                 else let result = result OR push_bit nBits (product 2)
                      in if nParts = 3 then result
                         else result OR push_bit (2 * nBits) (product 3))"

subsection \<open>Rules on color channels\<close>

definition rgbAddwith :: merge_fn where
  "rgbAddwith e sourceWord destinationWord =
     (if envDepth e < 16 then
        let componentMask = push_bit (envDepth e) 1 - 1;
            carryOverflowMask = push_bit (envDepth e - 1) (0xFFFFFFFF div componentMask)
        in partitionedAdd sourceWord destinationWord (envDepth e) componentMask carryOverflowMask
      else if envDepth e = 16 then
        partitionedAdd (sourceWord AND 2147450879) (destinationWord AND 2147450879) 5 0x1F 1108361744
      else partitionedAdd sourceWord destinationWord 8 0xFF 2155905152)"

text \<open>The other rules on channels dispatch alike; \<open>f\<close> is the routine on partitions.\<close>

definition by_channel :: "(32 word \<Rightarrow> 32 word \<Rightarrow> nat \<Rightarrow> nat \<Rightarrow> 32 word) \<Rightarrow> merge_fn" where
  "by_channel f e sourceWord destinationWord =
     (if envDepth e < 16 then f sourceWord destinationWord (envDepth e) (envPPW e)
      else if envDepth e = 16 then
        f sourceWord destinationWord 5 3 + push_bit 16 (f (drop_bit 16 sourceWord) (drop_bit 16 destinationWord) 5 3)
      else f sourceWord destinationWord 8 4)"

definition rgbSubwith :: merge_fn where "rgbSubwith = by_channel partitionedSub"
definition rgbMaxwith :: merge_fn where "rgbMaxwith = by_channel partitionedMax"
definition rgbMinwith :: merge_fn where "rgbMinwith = by_channel partitionedMin"
definition rgbMulwith :: merge_fn where "rgbMulwith = by_channel partitionedMul"

definition rgbMinInvertwith :: merge_fn where
  "rgbMinInvertwith e wordToInvert destinationWord = by_channel partitionedMin e (NOT wordToInvert) destinationWord"

subsection \<open>Rules on pixels\<close>

definition pixMaskwith :: merge_fn where
  "pixMaskwith e sourceWord destinationWord = partitionedAND (NOT sourceWord) destinationWord (envDepth e) (envPPW e)"

definition pixPaintwith :: merge_fn where
  "pixPaintwith e sourceWord destinationWord =
     (if sourceWord = 0 then destinationWord
      else sourceWord OR partitionedAND (NOT sourceWord) destinationWord (envDepth e) (envPPW e))"

definition pixClearwith :: merge_fn where
  "pixClearwith e sourceWord destinationWord =
     (if envDepth e = 32 then if sourceWord = destinationWord then 0 else destinationWord
      else partitions (\<lambda>m. let pv = destinationWord AND m in if sourceWord AND m = pv then 0 else pv)
        (envDepth e) (envPPW e) (maskTable (envDepth e)) 0)"

fun swap_loop :: "nat \<Rightarrow> nat \<Rightarrow> 32 word \<Rightarrow> 32 word \<Rightarrow> 32 word \<Rightarrow> int \<Rightarrow> 32 word \<Rightarrow> 32 word" where
  "swap_loop destDepth 0 destWord lowMask highMask shift result = result"
| "swap_loop destDepth (Suc n) destWord lowMask highMask shift result =
     (let lowMask = push_bit destDepth lowMask;
          highMask = drop_bit destDepth highMask;
          shift = shift - int destDepth * 2
      in swap_loop destDepth n destWord lowMask highMask shift
           (result OR (push_bit (nat shift) (destWord AND lowMask) OR drop_bit (nat shift) (destWord AND highMask))))"

definition pixSwapwith :: merge_fn where
  "pixSwapwith e sourceWord destWord =
     (if envPPW e = 1 then destWord
      else let lowMask = push_bit (envDepth e) 1 - 1;
               highMask = push_bit ((envPPW e - 1) * envDepth e) lowMask;
               shift = 32 - int (envDepth e);
               result = push_bit (nat shift) (destWord AND lowMask) OR drop_bit (nat shift) (destWord AND highMask)
           in if envPPW e \<le> 2 then result
              else swap_loop (envDepth e) (envPPW e div 2 - 1) destWord lowMask highMask shift result)"

definition fixAlphawith :: merge_fn where
  "fixAlphawith e sourceWord destinationWord =
     (if envDepth e \<noteq> 32 then destinationWord
      else if destinationWord = 0 then 0
      else if destinationWord AND 0xFF000000 \<noteq> 0 then destinationWord
      else destinationWord OR (sourceWord AND 0xFF000000))"

subsection \<open>Blending\<close>

text \<open>The division by 255 of the two sums of channels that a word holds in its halves.\<close>

definition div_255 :: "32 word \<Rightarrow> 32 word" where
  "div_255 blend = drop_bit 8 (blend + (drop_bit 8 (blend - 65537) AND 16711935)) AND 16711935"

definition alphaBlendwith :: merge_fn where
  "alphaBlendwith e sourceWord destinationWord =
     (let alpha = drop_bit 24 sourceWord
      in if alpha = 0 then destinationWord
         else if alpha = 0xFF then sourceWord
         else let unAlpha = 0xFF - alpha;
                  blendRB = ((sourceWord AND 16711935) * alpha + (destinationWord AND 16711935) * unAlpha) + 16711935;
                  blendAG = (((drop_bit 8 sourceWord OR 0xFF0000) AND 16711935) * alpha
                    + (drop_bit 8 destinationWord AND 16711935) * unAlpha) + 16711935
              in div_255 blendRB OR push_bit 8 (div_255 blendAG))"

definition alphaBlendScaledwith :: merge_fn where
  "alphaBlendScaledwith e sourceWord destinationWord =
     (let unAlpha = 0xFF - drop_bit 24 sourceWord;
          rb = (drop_bit 8 ((destinationWord AND 16711935) * unAlpha) AND 16711935) + (sourceWord AND 16711935);
          ag = (drop_bit 8 ((drop_bit 8 destinationWord AND 16711935) * unAlpha) AND 16711935) + (drop_bit 8 sourceWord AND 16711935);
          rb = (rb AND 16711935) OR drop_bit 8 ((rb AND 16777472) * 0xFF);
          ag = push_bit 8 (ag AND 16711935) OR ((ag AND 16777472) * 0xFF)
      in ag OR rb)"

text \<open>The channels of a pixel of 16 bits, and the pixels of a word.\<close>

fun blend_channels :: "nat \<Rightarrow> nat \<Rightarrow> 32 word \<Rightarrow> 32 word \<Rightarrow> 32 word \<Rightarrow> 32 word \<Rightarrow> 32 word \<Rightarrow> 32 word" where
  "blend_channels 0 i sourcePixVal destPixVal sourceAlpha unAlpha pixBlend = pixBlend"
| "blend_channels (Suc n) i sourcePixVal destPixVal sourceAlpha unAlpha pixBlend =
     (let shift = i * 5;
          blend = ((((drop_bit shift sourcePixVal AND 0x1F) * sourceAlpha + (drop_bit shift destPixVal AND 0x1F) * unAlpha) + 0xFE)
            div 0xFF) AND 0x1F
      in blend_channels n (i + 1) sourcePixVal destPixVal sourceAlpha unAlpha (pixBlend OR push_bit shift blend))"

fun blend_pixels ::
  "nat \<Rightarrow> nat \<Rightarrow> nat \<Rightarrow> 32 word \<Rightarrow> bool \<Rightarrow> 32 word \<Rightarrow> 32 word \<Rightarrow> 32 word \<Rightarrow> 32 word \<Rightarrow> 32 word" where
  "blend_pixels destDepth 0 j sourceAlpha paintMode maskShifted sourceShifted destShifted result = result"
| "blend_pixels destDepth (Suc n) j sourceAlpha paintMode maskShifted sourceShifted destShifted result =
     (let pixMask = maskTable destDepth;
          sourcePixVal = sourceShifted AND pixMask;
          result = (if maskShifted AND pixMask = 0 \<or> paintMode \<and> sourcePixVal = 0 then result
                    else let destPixVal = destShifted AND pixMask;
                             pixBlend = blend_channels 3 0 sourcePixVal destPixVal sourceAlpha (0xFF - sourceAlpha) 0
                         in (result AND NOT (push_bit (j * 16) pixMask)) OR push_bit (j * 16) pixBlend)
      in blend_pixels destDepth n (j + 1) sourceAlpha paintMode (drop_bit destDepth maskShifted)
           (drop_bit destDepth sourceShifted) (drop_bit destDepth destShifted) result)"

definition alphaBlendConst_paintMode :: "bool \<Rightarrow> merge_fn" where
  "alphaBlendConst_paintMode paintMode e sourceWord destinationWord =
     (if envDepth e < 16 then destinationWord
      else let unAlpha = 0xFF - envAlpha e
           in if envPPW e = 1 then
                if paintMode \<and> sourceWord = 0 then destinationWord
                else let blendRB = ((sourceWord AND 16711935) * envAlpha e + (destinationWord AND 16711935) * unAlpha) + 16711935;
                         blendAG = ((drop_bit 8 sourceWord AND 16711935) * envAlpha e
                           + (drop_bit 8 destinationWord AND 16711935) * unAlpha) + 16711935
                     in div_255 blendRB OR push_bit 8 (div_255 blendAG)
              else blend_pixels (envDepth e) (envPPW e) 0 (envAlpha e) paintMode (envMask e) sourceWord destinationWord destinationWord)"

definition alphaBlendConstwith :: merge_fn where "alphaBlendConstwith = alphaBlendConst_paintMode False"

definition alphaPaintConstwith :: merge_fn where
  "alphaPaintConstwith e sourceWord destinationWord =
     (if sourceWord = 0 then destinationWord else alphaBlendConst_paintMode True e sourceWord destinationWord)"

subsection \<open>The table\<close>

definition opTable :: "nat \<Rightarrow> merge_fn option" where
  "opTable combinationRule =
     (let t = [clearWordwith, bitAndwith, bitAndInvertwith, sourceWordwith, bitInvertAndwith, destinationWordwith, bitXorwith, bitOrwith,
               bitInvertAndInvertwith, bitInvertXorwith, bitInvertDestinationwith, bitOrInvertwith, bitInvertSourcewith,
               bitInvertOrwith, bitInvertOrInvertwith, destinationWordwith, destinationWordwith, destinationWordwith,
               addWordwith, subWordwith, rgbAddwith, rgbSubwith]
      in if combinationRule < 22 then Some (t ! combinationRule)
         else if combinationRule = 24 then Some alphaBlendwith
         else if combinationRule = 25 then Some pixPaintwith
         else if combinationRule = 26 then Some pixMaskwith
         else if combinationRule = 27 then Some rgbMaxwith
         else if combinationRule = 28 then Some rgbMinwith
         else if combinationRule = 29 then Some rgbMinInvertwith
         else if combinationRule = 30 then Some alphaBlendConstwith
         else if combinationRule = 31 then Some alphaPaintConstwith
         else if 34 \<le> combinationRule \<and> combinationRule \<le> 36 then Some alphaBlendScaledwith
         else if combinationRule = 37 then Some rgbMulwith
         else if combinationRule = 38 then Some pixSwapwith
         else if combinationRule = 39 then Some pixClearwith
         else if combinationRule = 40 then Some fixAlphawith
         else None)"

subsection \<open>The boolean rules\<close>


lemma boolean_rule_bits:
  assumes "combinationRule < 15" "opTable combinationRule = Some m" "t < 32"
  shows "bit (m e s d) t \<longleftrightarrow> bit combinationRule ((if bit s t then 0 else 2) + (if bit d t then 0 else 1))"
proof -
  have "combinationRule \<in> {0, 1, 2, 3, 4, 5, 6, 7, 8, 9, 10, 11, 12, 13, 14}" using assms(1) by simp presburger
  then show ?thesis
    using assms(2,3)
    by (elim insertE)
      (auto simp: opTable_def Let_def clearWordwith_def bitAndwith_def bitAndInvertwith_def sourceWordwith_def bitInvertAndwith_def
        destinationWordwith_def bitXorwith_def bitOrwith_def bitInvertAndInvertwith_def bitInvertXorwith_def
        bitInvertDestinationwith_def bitOrInvertwith_def bitInvertSourcewith_def bitInvertOrwith_def bitInvertOrInvertwith_def
        bit_and_iff bit_or_iff bit_xor_iff bit_not_iff bit_numeral_rec bit_0)
qed

text \<open>
  C36: the rules 0 to 14 are the boolean functions: bit \<open>0\<close> of the number of a rule says what it makes of a source bit 1
  over a destination bit 1, bit 1 of 1 over 0, bit 2 of 0 over 1 and bit 3 of 0 over 0, in every bit of
  the word and whatever the depth.
\<close>
theorem boolean_rules:
  assumes "combinationRule < 15" "t < 32"
  shows "\<exists>m. opTable combinationRule = Some m \<and>
    (bit (m e s d) t \<longleftrightarrow> bit combinationRule ((if bit s t then 0 else 2) + (if bit d t then 0 else 1)))"
  using boolean_rule_bits [OF assms(1) _ assms(2)] assms(1) by (simp add: opTable_def Let_def)

theorem boolean_rules_witness: "\<exists>m. opTable 6 = Some m \<and> bit (m \<lparr>envDepth = 32, envPPW = 1, envMask = - 1, envAlpha = 0\<rparr> 5 3) 1"
  using boolean_rules [of 6 1 "\<lparr>envDepth = 32, envPPW = 1, envMask = - 1, envAlpha = 0\<rparr>" 5 3] by (auto simp: bit_numeral_rec bit_0)

text \<open>Rule 15 is not the sixteenth boolean function: it leaves the destination as it is.\<close>

lemma rule_15_leaves: "opTable 15 = Some destinationWordwith"
  by (simp add: opTable_def)

end
