(* ===== verification/BltChannels.thy ===== *)
theory BltChannels
  imports BltRules
begin

text \<open>
  The rules of \<open>BltRules\<close> seen field by field: what the loops over partitions do to one partition, what the sum that
  saturates does to one (no carry leaves a field), what the product does, and the rules on color channels by their channels.
\<close>

subsection \<open>Fields\<close>

text \<open>The field of \<open>n\<close> bits that starts at bit \<open>p\<close>: a pixel or a channel of it.\<close>

definition pix :: "nat \<Rightarrow> nat \<Rightarrow> 32 word \<Rightarrow> 32 word" where
  "pix n p w = take_bit n (drop_bit p w)"

lemma bit_pix [simp]: "bit (pix n p w) t \<longleftrightarrow> t < n \<and> bit w (p + t)"
  by (auto simp: pix_def bit_take_bit_iff bit_drop_bit_eq)

lemma pix_eqI: "(\<And>t. t < n \<Longrightarrow> p + t < 32 \<Longrightarrow> bit v (p + t) \<longleftrightarrow> bit w (q + t)) \<Longrightarrow> p + n \<le> 32 \<Longrightarrow> q + n \<le> 32 \<Longrightarrow> pix n p v = pix n q w"
  by (rule bit_word_eqI) auto

lemma unat_pix: "unat (pix n p w) = unat w div 2 ^ p mod 2 ^ n"
  unfolding pix_def by (simp only: unsigned_take_bit_eq unat_drop_bit_eq) (simp only: take_bit_eq_mod drop_bit_eq_div)

lemma unat_pix_less: "unat (pix n p w) < 2 ^ n"
  by (simp add: unat_pix)

lemma pix_bits:
  "pix n p (v AND w) = pix n p v AND pix n p w"
  "pix n p (v OR w) = pix n p v OR pix n p w"
  "pix n p (v XOR w) = pix n p v XOR pix n p w"
  by (auto intro!: bit_word_eqI simp: bit_and_iff bit_or_iff bit_xor_iff)

lemma pix_0 [simp]: "pix n p 0 = 0"
  by (auto intro!: bit_word_eqI)

lemma pix_pix: "q + m \<le> n \<Longrightarrow> pix m q (pix n p w) = pix m (p + q) w"
  by (auto intro!: bit_word_eqI simp: ac_simps)

lemma lane_bit: "bit (push_bit p (mask n) :: 32 word) t \<longleftrightarrow> p \<le> t \<and> t < p + n \<and> t < 32"
  by (auto simp: bit_push_bit_iff bit_mask_iff)

lemma and_lane: "w AND push_bit p (mask n) = push_bit p (pix n p w)"
  by (rule bit_word_eqI) (auto simp: bit_and_iff bit_push_bit_iff bit_mask_iff)

lemma pix_push: "p + n \<le> 32 \<Longrightarrow> pix n p (push_bit p x) = take_bit n x"
  by (rule bit_word_eqI) (auto simp: bit_push_bit_iff bit_take_bit_iff)

lemma unat_push_pix: "p + n \<le> 32 \<Longrightarrow> unat (push_bit p (pix n p w)) = unat (pix n p w) * 2 ^ p"
proof -
  assume "p + n \<le> 32"
  have "unat (pix n p w) * 2 ^ p < 2 ^ n * 2 ^ p" using unat_pix_less by simp
  also have "\<dots> \<le> 2 ^ 32" using power_increasing [OF \<open>p + n \<le> 32\<close>, of "2 :: nat"] by (simp add: power_add mult.commute)
  finally show ?thesis by (simp only: unsigned_push_bit_eq) (simp add: push_bit_eq_mult take_bit_eq_mod)
qed

lemma maskTable_mask:
  "n \<in> {1, 2, 4, 5, 8, 16, 32} \<Longrightarrow> maskTable n = mask n"
  by (elim insertE) (simp_all add: maskTable_def mask_eq_exp_minus_1)

lemma ex_less_Suc': "(\<exists>i < Suc k. P i) \<longleftrightarrow> P 0 \<or> (\<exists>i < k. P (Suc i))"
  by (metis Suc_less_eq gr0_conv_Suc zero_less_Suc not_gr_zero)

lemma bit_partitions:
  "bit (partitions field n k (push_bit p (mask n)) r) t \<longleftrightarrow>
   bit r t \<or> (\<exists>i < k. bit (field (push_bit (p + n * i) (mask n))) t)"
proof (induction k arbitrary: p r)
  case (Suc k)
  have "(\<exists>i < Suc k. bit (field (push_bit (p + n * i) (mask n))) t) \<longleftrightarrow>
      bit (field (push_bit p (mask n))) t \<or> (\<exists>i < k. bit (field (push_bit ((n + p) + n * i) (mask n))) t)"
    by (subst ex_less_Suc') (simp add: algebra_simps)
  then show ?case using Suc [of "n + p" "r OR field (push_bit p (mask n))"]
    by (simp add: bit_or_iff disj_ac)
qed simp

text \<open>A loop over partitions whose iterations stay within their mask is what they do, field by field.\<close>

definition stays_within :: "(32 word \<Rightarrow> 32 word) \<Rightarrow> nat \<Rightarrow> nat \<Rightarrow> bool" where
  "stays_within field n k \<longleftrightarrow> (\<forall>i < k. \<forall>t. bit (field (push_bit (n * i) (mask n))) t \<longrightarrow> n * i \<le> t \<and> t < n * i + n)"

lemma partitions_pix:
  assumes within: "stays_within field n k" and "j < k"
  shows "pix n (n * j) (partitions field n k (mask n) 0) = pix n (n * j) (field (push_bit (n * j) (mask n)))"
proof (rule bit_word_eqI)
  fix t
  assume "t < LENGTH(32)"
  have "i = j" if "t < n" "i < k" "bit (field (push_bit (n * i) (mask n))) (n * j + t)" for i
  proof -
    have a: "n * i \<le> n * j + t" "n * j + t < n * i + n" using within that by (auto simp: stays_within_def)
    then have "i < j + 1" "j < i + 1"
      using that(1) mult_less_cancel1 [of n i "j + 1"] mult_less_cancel1 [of n j "i + 1"] by simp_all
    then show ?thesis by simp
  qed
  then show "bit (pix n (n * j) (partitions field n k (mask n) 0)) t \<longleftrightarrow> bit (pix n (n * j) (field (push_bit (n * j) (mask n)))) t"
    using bit_partitions [of field n k 0 0 "n * j + t"] assms(2) by auto
qed

lemma partitions_high:
  assumes within: "stays_within field n k" and "n * k \<le> t"
  shows "\<not> bit (partitions field n k (mask n) 0) t"
proof -
  have "n * i + n \<le> t" if "i < k" for i
    using mult_le_mono2 [of "Suc i" k n] that assms(2) by simp
  then show ?thesis using bit_partitions [of field n k 0 0 t] within by (fastforce simp: stays_within_def)
qed

text \<open>What one iteration does to the field of its mask.\<close>

lemma lane_less:
  "p + n \<le> 32 \<Longrightarrow> v AND push_bit p (mask n) < w AND push_bit p (mask n) \<longleftrightarrow> pix n p v < pix n p w"
  by (simp add: and_lane word_less_nat_alt unat_push_pix)

lemma lane_eq:
  "p + n \<le> 32 \<Longrightarrow> v AND push_bit p (mask n) = w AND push_bit p (mask n) \<longleftrightarrow> pix n p v = pix n p w"
  by (simp add: and_lane flip: word_unat_eq_iff) (simp add: word_unat_eq_iff unat_push_pix)

lemma pix_lane: "p + n \<le> 32 \<Longrightarrow> pix n p (w AND push_bit p (mask n)) = pix n p w"
  by (rule bit_word_eqI) (auto simp: bit_and_iff bit_push_bit_iff bit_mask_iff)

lemma lane_diff:
  "(v AND push_bit p (mask n)) - (w AND push_bit p (mask n)) = push_bit p (pix n p v - pix n p w)"
  unfolding and_lane unfolding push_bit_eq_mult by (rule left_diff_distrib [symmetric])

lemma take_pix_diff:
  assumes "pix n p w \<le> pix n p v"
  shows "take_bit n (pix n p v - pix n p w) = pix n p v - pix n p w"
proof -
  have "unat (pix n p v - pix n p w) < 2 ^ n"
    using unat_pix_less [of n p v] by (simp add: unat_sub assms)
  then show ?thesis
    by (simp add: word_unat_eq_iff unsigned_take_bit_eq take_bit_nat_eq_self)
qed

lemma lane_pix [simp]: "p + n \<le> 32 \<Longrightarrow> pix n p (push_bit p (pix n p w)) = pix n p w"
  by (rule bit_word_eqI) (auto simp: bit_push_bit_iff)

lemma lane_inject:
  assumes "p + n \<le> 32"
  shows "push_bit p (pix n p v) = push_bit p (pix n p w) \<longleftrightarrow> pix n p v = pix n p w"
  using lane_pix [OF assms] by metis

lemma lane_full: "p + n \<le> 32 \<Longrightarrow> push_bit p (pix n p v) = push_bit p (mask n) \<longleftrightarrow> pix n p v = mask n"
proof -
  assume p: "p + n \<le> 32"
  then have "pix n p (- 1) = mask n" by (intro bit_word_eqI) (auto simp: bit_mask_iff)
  then show ?thesis using lane_inject [OF p, of v "- 1"] by metis
qed

lemma bit_lane: "bit (push_bit p (pix n p w)) t \<Longrightarrow> p \<le> t \<and> t < p + n"
  by (auto simp: bit_push_bit_iff)

text \<open>A routine acts on \<open>k\<close> fields of \<open>n\<close> bits alike, and leaves nothing above them.\<close>

definition fields :: "nat \<Rightarrow> nat \<Rightarrow> (32 word \<Rightarrow> 32 word \<Rightarrow> nat \<Rightarrow> nat \<Rightarrow> 32 word) \<Rightarrow> (32 word \<Rightarrow> 32 word \<Rightarrow> 32 word) \<Rightarrow> bool" where
  "fields n k f g \<longleftrightarrow>
     (\<forall>s d. (\<forall>j < k. pix n (n * j) (f s d n k) = g (pix n (n * j) s) (pix n (n * j) d)) \<and> (\<forall>t. bit (f s d n k) t \<longrightarrow> t < n * k))"

lemma fieldsI:
  assumes "n \<in> {1, 2, 4, 5, 8, 16, 32}" "n * k \<le> 32"
    and f: "\<And>s d. f s d n k = partitions (field s d) n k (maskTable n) 0"
    and op: "\<And>s d p. p + n \<le> 32 \<Longrightarrow> \<exists>x. field s d (push_bit p (mask n)) = push_bit p (pix n p x) \<and> pix n p x = g (pix n p s) (pix n p d)"
  shows "fields n k f g"
  unfolding fields_def
proof (intro allI conjI impI)
  have lt: "n * j + n \<le> 32" if "j < k" for j using mult_le_mono2 [of "Suc j" k n] that assms(2) by simp
  have within: "stays_within (field s d) n k" for s d
    unfolding stays_within_def using op [OF lt] bit_lane by metis
  fix s d
  show "pix n (n * j) (f s d n k) = g (pix n (n * j) s) (pix n (n * j) d)" if "j < k" for j
    unfolding f maskTable_mask [OF assms(1)] partitions_pix [OF within that]
    using op [OF lt [OF that], of s d] lane_pix [OF lt [OF that]] by metis
  show "t < n * k" if "bit (f s d n k) t" for t
    using that partitions_high [OF within] unfolding f maskTable_mask [OF assms(1)] by (meson not_le)
qed

lemma max_fields: "n \<in> {1, 2, 4, 5, 8, 16, 32} \<Longrightarrow> n * k \<le> 32 \<Longrightarrow> fields n k partitionedMax max"
  by (rule fieldsI, assumption+, rule partitionedMax_def) (metis and_lane lane_less max_def not_le less_imp_le)

lemma min_fields: "n \<in> {1, 2, 4, 5, 8, 16, 32} \<Longrightarrow> n * k \<le> 32 \<Longrightarrow> fields n k partitionedMin min"
  by (rule fieldsI, assumption+, rule partitionedMin_def) (metis and_lane lane_less min_def not_le less_imp_le)

definition distance :: "32 word \<Rightarrow> 32 word \<Rightarrow> 32 word" where
  "distance a b = (if a < b then b - a else a - b)"

lemma sub_fields: "n \<in> {1, 2, 4, 5, 8, 16, 32} \<Longrightarrow> n * k \<le> 32 \<Longrightarrow> fields n k partitionedSub distance"
proof (rule fieldsI, assumption+, rule partitionedSub_def)
  fix s d :: "32 word" and p
  assume p: "p + n \<le> 32"
  define x where "x = push_bit p (distance (pix n p s) (pix n p d))"
  have t: "take_bit n (distance (pix n p s) (pix n p d)) = distance (pix n p s) (pix n p d)"
    using take_pix_diff [of n p s d] take_pix_diff [of n p d s] by (auto simp: distance_def not_less)
  have "pix n p x = distance (pix n p s) (pix n p d)" unfolding x_def pix_push [OF p] t ..
  moreover have "(let p1 = s AND push_bit p (mask n); p2 = d AND push_bit p (mask n) in if p1 < p2 then p2 - p1 else p1 - p2)
      = push_bit p (distance (pix n p s) (pix n p d))"
    unfolding Let_def lane_less [OF p] lane_diff distance_def by simp
  ultimately show "\<exists>x. (let p1 = s AND push_bit p (mask n); p2 = d AND push_bit p (mask n) in if p1 < p2 then p2 - p1 else p1 - p2)
      = push_bit p (pix n p x) \<and> pix n p x = distance (pix n p s) (pix n p d)" by metis
qed

lemma and_fields:
  "n \<in> {1, 2, 4, 5, 8, 16, 32} \<Longrightarrow> n * k \<le> 32 \<Longrightarrow> fields n k partitionedAND (\<lambda>a b. if a = mask n then b else 0)"
proof (rule fieldsI, assumption+, rule partitionedAND_def)
  fix s d :: "32 word" and p
  assume p: "p + n \<le> 32"
  then show "\<exists>x. (if s AND push_bit p (mask n) = push_bit p (mask n) then d AND push_bit p (mask n) else 0) = push_bit p (pix n p x) \<and>
      pix n p x = (if pix n p s = mask n then pix n p d else 0)"
    unfolding and_lane lane_full [OF p] by (intro exI [of _ "if pix n p s = mask n then d else 0"]) simp
qed

subsection \<open>Channels and pixels\<close>

definition depth_ok :: "blt_env \<Rightarrow> bool" where
  "depth_ok e \<longleftrightarrow> envDepth e \<in> {1, 2, 4, 8, 16, 32} \<and> envPPW e = 32 div envDepth e"

definition channel_bits :: "nat \<Rightarrow> nat" where
  "channel_bits depth = (if depth < 16 then depth else if depth = 16 then 5 else 8)"

definition channels :: "nat \<Rightarrow> nat set" where
  "channels depth = (if depth = 16 then {0, 5, 10, 16, 21, 26} else {p. channel_bits depth dvd p \<and> p < 32})"

lemma fieldsD:
  assumes "fields n k f g"
  shows "j < k \<Longrightarrow> pix n (n * j) (f s d n k) = g (pix n (n * j) s) (pix n (n * j) d)"
    and "bit (f s d n k) t \<Longrightarrow> t < n * k"
  using assms by (auto simp: fields_def)

lemma fields_cong:
  assumes f: "fields n k f g" and "0 < n"
    and "\<And>j. j < k \<Longrightarrow> pix n (n * j) s = pix n (n * j) s'" "\<And>j. j < k \<Longrightarrow> pix n (n * j) d = pix n (n * j) d'"
  shows "f s d n k = f s' d' n k"
proof (rule bit_word_eqI)
  fix t
  show "bit (f s d n k) t \<longleftrightarrow> bit (f s' d' n k) t"
  proof (cases "t < n * k")
    case True
    then have j: "t div n < k" using \<open>0 < n\<close> by (simp add: less_mult_imp_div_less mult.commute)
    have "pix n (n * (t div n)) (f s d n k) = pix n (n * (t div n)) (f s' d' n k)"
      using fieldsD(1) [OF f j] assms(3,4) [OF j] by metis
    moreover have "t mod n < n" "n * (t div n) + t mod n = t" using \<open>0 < n\<close> by simp_all
    ultimately show ?thesis using bit_pix [of n "n * (t div n)" _ "t mod n"] by metis
  next
    case False
    then show ?thesis using fieldsD(2) [OF f] by blast
  qed
qed

lemma halves:
  fixes x y :: "32 word"
  assumes "\<And>t. bit x t \<Longrightarrow> t < 16"
  shows "x + push_bit 16 y = x OR push_bit 16 y"
  by (rule disjunctive_add_eq_or) (rule bit_word_eqI, auto simp: bit_and_iff bit_push_bit_iff dest: assms)

text \<open>A routine on partitions acts on channels: pixels of up to 8 bits, and the 5 or 8 bits of a color.\<close>

definition channelwise :: "merge_fn \<Rightarrow> blt_env \<Rightarrow> (32 word \<Rightarrow> 32 word \<Rightarrow> 32 word) \<Rightarrow> bool" where
  "channelwise m e g \<longleftrightarrow>
     (\<forall>s d. \<forall>p \<in> channels (envDepth e). pix (channel_bits (envDepth e)) p (m e s d)
        = g (pix (channel_bits (envDepth e)) p s) (pix (channel_bits (envDepth e)) p d))"

lemma depth_cases:
  assumes "depth_ok e"
  obtains "envDepth e \<in> {1, 2, 4, 8}" "envDepth e * envPPW e = 32" "channel_bits (envDepth e) = envDepth e"
      "channels (envDepth e) = {p. envDepth e dvd p \<and> p < 32}"
    | "envDepth e = 16" "envPPW e = 2" | "envDepth e = 32" "envPPW e = 1"
  using assms by (auto simp: depth_ok_def channel_bits_def channels_def)

lemma by_channel_16:
  assumes "fields 5 3 f g" "envDepth e = 16"
  shows "by_channel f e s d = f s d 5 3 OR push_bit 16 (f (drop_bit 16 s) (drop_bit 16 d) 5 3)"
    and "bit (f s d 5 3) t \<Longrightarrow> t < 16"
  using fieldsD(2) [OF assms(1), of s d] assms(2)
  by (force simp: by_channel_def intro!: halves)+

definition acts_on_channels :: "blt_env \<Rightarrow> (32 word \<Rightarrow> 32 word \<Rightarrow> nat \<Rightarrow> nat \<Rightarrow> 32 word) \<Rightarrow> (nat \<Rightarrow> 32 word \<Rightarrow> 32 word \<Rightarrow> 32 word) \<Rightarrow> bool" where
  "acts_on_channels e f g \<longleftrightarrow>
     (envDepth e < 16 \<longrightarrow> fields (envDepth e) (envPPW e) f (g (envDepth e))) \<and> fields 5 3 f (g 5) \<and> fields 8 4 f (g 8)"

lemma depth_member: "depth_ok e \<Longrightarrow> envDepth e \<in> {1, 2, 4, 5, 8, 16, 32}" "depth_ok e \<Longrightarrow> envDepth e * envPPW e = 32"
  by (auto simp: depth_ok_def)

lemma acts_on_channelsI:
  assumes "depth_ok e" "\<And>n k. n \<in> {1, 2, 4, 5, 8, 16, 32} \<Longrightarrow> n * k \<le> 32 \<Longrightarrow> fields n k f (g n)"
  shows "acts_on_channels e f g"
  using assms(2) [OF depth_member(1) [OF assms(1)], of "envPPW e"] assms(2) [of 5 3] assms(2) [of 8 4] depth_member(2) [OF assms(1)]
  by (simp add: acts_on_channels_def)

lemma by_channel_channelwise:
  assumes e: "depth_ok e" and f: "acts_on_channels e f g"
  shows "channelwise (by_channel f) e (g (channel_bits (envDepth e)))"
  unfolding channelwise_def
proof (intro allI ballI)
  fix s d p
  assume p: "p \<in> channels (envDepth e)"
  from e show "pix (channel_bits (envDepth e)) p (by_channel f e s d)
      = g (channel_bits (envDepth e)) (pix (channel_bits (envDepth e)) p s) (pix (channel_bits (envDepth e)) p d)"
  proof (cases rule: depth_cases)
    case 1
    have m: "envDepth e < 16" using 1(1) by auto
    then have fd: "fields (envDepth e) (envPPW e) f (g (envDepth e))" using f by (simp add: acts_on_channels_def)
    obtain j where j: "p = envDepth e * j" using p 1(4) by (auto simp: dvd_def)
    have "envDepth e * j < envDepth e * envPPW e" using p 1(2,4) j by simp
    then have "j < envPPW e" by simp
    then show ?thesis
      using fieldsD(1) [OF fd, of j s d] m unfolding 1(3) j by (simp add: by_channel_def)
  next
    case 2
    have f5: "fields 5 3 f (g 5)" using f by (simp add: acts_on_channels_def)
    have low: "pix 5 (5 * j) (by_channel f e s d) = g 5 (pix 5 (5 * j) s) (pix 5 (5 * j) d)" if "j < 3" for j
    proof -
      have "pix 5 (5 * j) (by_channel f e s d) = pix 5 (5 * j) (f s d 5 3)"
        unfolding by_channel_16(1) [OF f5 2(1)] using that
        by (intro bit_word_eqI) (auto simp: bit_or_iff bit_push_bit_iff)
      then show ?thesis using fieldsD(1) [OF f5 that] by simp
    qed
    have high: "pix 5 (16 + 5 * j) (by_channel f e s d) = g 5 (pix 5 (16 + 5 * j) s) (pix 5 (16 + 5 * j) d)" if "j < 3" for j
    proof -
      have "pix 5 (16 + 5 * j) (by_channel f e s d) = pix 5 (5 * j) (f (drop_bit 16 s) (drop_bit 16 d) 5 3)"
        unfolding by_channel_16(1) [OF f5 2(1)] using that
        by (intro bit_word_eqI) (auto simp: bit_or_iff bit_push_bit_iff dest: by_channel_16(2) [OF f5 2(1)])
      moreover have "pix 5 (5 * j) (drop_bit 16 w) = pix 5 (16 + 5 * j) w" for w
        by (rule bit_word_eqI) (auto simp: bit_drop_bit_eq ac_simps)
      ultimately show ?thesis using fieldsD(1) [OF f5 that] by simp
    qed
    have "p \<in> {5 * 0, 5 * 1, 5 * 2, 16 + 5 * 0, 16 + 5 * 1, 16 + 5 * 2}" using p 2(1) by (simp add: channels_def)
    then show ?thesis using 2(1) low [of 0] low [of 1] low [of 2] high [of 0] high [of 1] high [of 2]
      by (auto simp: channel_bits_def)
  next
    case 3
    have "p \<in> {p. 8 dvd p \<and> p < 32}" using p 3(1) by (simp add: channels_def channel_bits_def)
    then obtain j where j: "p = 8 * j" "j < 4" by (auto simp: dvd_def)
    then show ?thesis
      using fieldsD(1) [of 8 4 f "g 8" j s d] f 3(1) unfolding acts_on_channels_def by (simp add: by_channel_def channel_bits_def)
  qed
qed

text \<open>
  A rule draws pixel by pixel when each pixel of its result, where the mask has that pixel, is the rule on that pixel
  of the source and that pixel of the destination, wherever in the word they are.
\<close>

definition pixelwise :: "merge_fn \<Rightarrow> blt_env \<Rightarrow> bool" where
  "pixelwise m e \<longleftrightarrow>
     (\<forall>M p s d. envDepth e dvd p \<longrightarrow> p + envDepth e \<le> 32 \<longrightarrow> pix (envDepth e) p M = mask (envDepth e) \<longrightarrow>
        pix (envDepth e) p (m (e\<lparr>envMask := M\<rparr>) s d)
          = pix (envDepth e) 0 (m (e\<lparr>envMask := - 1\<rparr>) (pix (envDepth e) p s) (pix (envDepth e) p d)))"

lemma pixelwiseI:
  assumes "\<And>M s d. m (e\<lparr>envMask := M\<rparr>) s d = m e s d"
    and "\<And>p s d. envDepth e dvd p \<Longrightarrow> p + envDepth e \<le> 32 \<Longrightarrow>
      pix (envDepth e) p (m e s d) = pix (envDepth e) 0 (m e (pix (envDepth e) p s) (pix (envDepth e) p d))"
  shows "pixelwise m e"
  unfolding pixelwise_def assms(1) by (intro allI impI) (rule assms(2))

lemma pix_32 [simp]: "pix 32 0 w = w"
  by (rule bit_word_eqI) auto

lemma pix_0_pix [simp]: "pix n 0 (pix n p w) = pix n p w"
  by (rule bit_word_eqI) auto

lemma pixelwise_32:
  assumes "envDepth e = 32" "\<And>M s d. m (e\<lparr>envMask := M\<rparr>) s d = m e s d"
  shows "pixelwise m e"
  unfolding pixelwise_def assms by (intro allI impI) simp

lemma fields_at:
  assumes e: "depth_ok e" and f: "fields (envDepth e) (envPPW e) f g"
    and p: "envDepth e dvd p" "p + envDepth e \<le> 32"
  shows "pix (envDepth e) p (f s d (envDepth e) (envPPW e)) = g (pix (envDepth e) p s) (pix (envDepth e) p d)"
proof -
  have n: "0 < envDepth e" "envDepth e * envPPW e = 32" using e by (auto simp: depth_ok_def)
  obtain j where j: "p = envDepth e * j" using p(1) by (auto simp: dvd_def)
  have "envDepth e * Suc j \<le> envDepth e * envPPW e" using p(2) n(2) j by simp
  then have "Suc j \<le> envPPW e" using n(1) mult_le_cancel1 by blast
  then have "j < envPPW e" by simp
  then show ?thesis using fieldsD(1) [OF f] j by simp
qed

lemma fields_pixelwise:
  assumes e: "depth_ok e" and f: "fields (envDepth e) (envPPW e) f g"
    and p: "envDepth e dvd p" "p + envDepth e \<le> 32"
  shows "pix (envDepth e) p (f s d (envDepth e) (envPPW e))
    = pix (envDepth e) 0 (f (pix (envDepth e) p s) (pix (envDepth e) p d) (envDepth e) (envPPW e))"
proof -
  have "0 + envDepth e \<le> 32" "envDepth e dvd 0" using p(2) by simp_all
  then show ?thesis using fields_at [OF e f p] fields_at [OF e f, of 0 "pix (envDepth e) p s" "pix (envDepth e) p d"] by simp
qed

lemma by_channel_env: "by_channel f (e\<lparr>envMask := M\<rparr>) = by_channel f e"
  by (intro ext) (simp add: by_channel_def)

lemma by_channel_pixelwise:
  assumes e: "depth_ok e" and f: "acts_on_channels e f g"
  shows "pixelwise (by_channel f) e"
  using e
proof (cases rule: depth_cases)
  case 1
  have m: "envDepth e < 16" using 1(1) by auto
  then have "fields (envDepth e) (envPPW e) f (g (envDepth e))" using f by (simp add: acts_on_channels_def)
  note at = fields_pixelwise [OF e this]
  have c: "by_channel f e s d = f s d (envDepth e) (envPPW e)" for s d using m by (simp add: by_channel_def)
  show ?thesis
    by (rule pixelwiseI, simp only: by_channel_env) (unfold c, rule at)
next
  case 2
  have f5: "fields 5 3 f (g 5)" using f by (simp add: acts_on_channels_def)
  show ?thesis
  proof (rule pixelwiseI)
    fix p s d
    assume "envDepth e dvd p" "p + envDepth e \<le> 32"
    then have "p = 0 \<or> p = 16" using 2(1) by auto
    have low: "pix 16 0 (by_channel f e s d) = f s d 5 3" for s d
      unfolding by_channel_16(1) [OF f5 2(1)]
      by (rule bit_word_eqI) (auto simp: bit_or_iff bit_push_bit_iff dest: by_channel_16(2) [OF f5 2(1)])
    have high: "pix 16 16 (by_channel f e s d) = f (drop_bit 16 s) (drop_bit 16 d) 5 3" for s d
      unfolding by_channel_16(1) [OF f5 2(1)]
      by (rule bit_word_eqI) (auto simp: bit_or_iff bit_push_bit_iff dest: by_channel_16(2) [OF f5 2(1)])
    have up: "drop_bit 16 w = pix 16 16 w" for w :: "32 word"
      by (rule bit_word_eqI) (auto simp: bit_drop_bit_eq dest: bit_imp_le_length)
    have cut: "f (pix 16 0 s) (pix 16 0 d) 5 3 = f s d 5 3" for s d
      by (rule fields_cong [OF f5]) (auto simp: pix_pix)
    show "pix (envDepth e) p (by_channel f e s d) = pix (envDepth e) 0 (by_channel f e (pix (envDepth e) p s) (pix (envDepth e) p d))"
      using \<open>p = 0 \<or> p = 16\<close> 2(1) by (auto simp: low high cut up)
  qed (simp add: by_channel_env)
qed (simp add: pixelwise_32 by_channel_env)

text \<open>The rules on pixels.\<close>

lemma clear_fields:
  assumes "n \<in> {1, 2, 4, 5, 8, 16, 32}" "n * k \<le> 32"
  shows "fields n k (\<lambda>s d n k. partitions (\<lambda>m. let pv = d AND m in if s AND m = pv then 0 else pv) n k (maskTable n) 0)
    (\<lambda>a b. if a = b then 0 else b)"
proof (rule fieldsI [OF assms, where field = "\<lambda>s d m. let pv = d AND m in if s AND m = pv then 0 else pv"])
  fix s d :: "32 word" and p
  assume p: "p + n \<le> 32"
  then show "\<exists>x. (let pv = d AND push_bit p (mask n) in if s AND push_bit p (mask n) = pv then 0 else pv) = push_bit p (pix n p x) \<and>
      pix n p x = (if pix n p s = pix n p d then 0 else pix n p d)"
    unfolding Let_def and_lane lane_inject [OF p] by (intro exI [of _ "if pix n p s = pix n p d then 0 else d"]) simp
qed simp

subsection \<open>Sums that saturate\<close>

lemma pix_add:
  assumes "p + n \<le> 32" "p = 0 \<or> \<not> bit x (p - 1) \<and> \<not> bit y (p - 1)"
  shows "unat (pix n p (x + y)) = (unat (pix n p x) + unat (pix n p y)) mod 2 ^ n"
proof -
  have half: "unat z mod 2 ^ p < 2 ^ (p - 1)" if z: "p \<noteq> 0" "\<not> bit z (p - 1)" for z :: "32 word"
  proof -
    obtain q where q: "p = Suc q" using z(1) not0_implies_Suc by blast
    have "take_bit (Suc q) (unat z) = take_bit q (unat z)"
      using z(2) q by (simp add: take_bit_Suc_from_most bit_unsigned_iff)
    then show ?thesis unfolding q take_bit_eq_mod by simp
  qed
  have "unat x mod 2 ^ p + unat y mod 2 ^ p < 2 ^ p"
  proof (cases "p = 0")
    case False
    then have "(2 :: nat) ^ p = 2 ^ (p - 1) + 2 ^ (p - 1)" by (cases p) simp_all
    then show ?thesis using half [OF False, of x] half [OF False, of y] assms(2) False by linarith
  qed simp
  then have d: "(unat x + unat y) div 2 ^ p = unat x div 2 ^ p + unat y div 2 ^ p"
    by (simp add: div_add1_eq [of "unat x" "unat y"])
  have le: "n \<le> 32 - p" using assms(1) by linarith
  have "unat (x + y) div 2 ^ p mod 2 ^ n = (unat x + unat y) div 2 ^ p mod 2 ^ n"
  proof -
    have "take_bit n (drop_bit p (take_bit 32 (unat x + unat y))) = take_bit n (drop_bit p (unat x + unat y))"
      using le by (simp add: drop_bit_take_bit min_def)
    then show ?thesis by (simp add: unat_word_ariths take_bit_eq_mod drop_bit_eq_div)
  qed
  then show ?thesis unfolding unat_pix d by (simp add: mod_add_eq)
qed

lemma unat_mask: "n \<le> 32 \<Longrightarrow> unat (mask n :: 32 word) = 2 ^ n - 1"
proof -
  assume "n \<le> 32"
  then have "unat (mask n :: 32 word) = mask n"
    by (intro bit_eqI) (auto simp: bit_unsigned_iff bit_mask_iff)
  then show ?thesis by (simp add: mask_eq_exp_minus_1)
qed

text \<open>Bits at distances of at least \<open>n\<close>, times \<open>n\<close> ones: no carry leaves the \<open>n\<close> bits above each.\<close>

definition sparse :: "nat \<Rightarrow> 32 word \<Rightarrow> bool" where
  "sparse n c \<longleftrightarrow> (\<forall>s t. bit c s \<longrightarrow> bit c t \<longrightarrow> s < t \<longrightarrow> s + n \<le> t)"

lemma sparse_low:
  assumes "sparse n c" "\<And>t. bit c t \<Longrightarrow> t < p \<Longrightarrow> t + n \<le> p"
  shows "(unat c mod 2 ^ p) * (2 ^ n - 1) < 2 ^ p"
  using assms(2)
proof (induction p rule: less_induct)
  case (less p)
  let ?T = "{t. bit c t \<and> t < p}"
  show ?case
  proof (cases "?T = {}")
    case True
    have "take_bit p (unat c) = 0"
      by (rule bit_eqI) (use True in \<open>auto simp: bit_take_bit_iff bit_unsigned_iff\<close>)
    then show ?thesis by (simp add: take_bit_eq_mod)
  next
    case False
    define t where "t = Max ?T"
    have t: "bit c t" "t < p" using Max_in [OF _ False] by (auto simp: t_def)
    have top: "s \<le> t" if "bit c s" "s < p" for s using Max_ge [of ?T s] that by (simp add: t_def)
    have "take_bit p (unat c) = take_bit t (unat c) + 2 ^ t"
    proof -
      have "take_bit p (unat c) = take_bit (Suc t) (unat c)"
        by (rule bit_eqI) (use t top in \<open>auto simp: bit_take_bit_iff bit_unsigned_iff less_Suc_eq_le\<close>)
      then show ?thesis using t(1) by (simp add: take_bit_Suc_from_most bit_unsigned_iff bit_imp_le_length)
    qed
    then have c: "unat c mod 2 ^ p = unat c mod 2 ^ t + 2 ^ t" by (simp add: take_bit_eq_mod)
    have "unat c mod 2 ^ t * (2 ^ n - 1) < 2 ^ t"
      using less.IH [OF t(2)] assms(1) t(1) by (auto simp: sparse_def)
    then have "unat c mod 2 ^ p * (2 ^ n - 1) < 2 ^ t + 2 ^ t * (2 ^ n - 1)" unfolding c by (simp add: distrib_right)
    also have "\<dots> = 2 ^ (t + n)" by (simp add: power_add right_diff_distrib')
    also have "\<dots> \<le> 2 ^ p" using less.prems [OF t] by simp
    finally show ?thesis .
  qed
qed

lemma pix_spread:
  assumes c: "sparse n c" "\<And>t. bit c t \<Longrightarrow> t < p \<Longrightarrow> t + n \<le> p" "\<And>t. p < t \<Longrightarrow> t < p + k \<Longrightarrow> \<not> bit c t"
    and n: "0 < k" "k \<le> n" "p + k \<le> 32" "unat m = 2 ^ n - 1"
  shows "pix k p (c * m) = (if bit c p then mask k else 0)"
proof -
  define low where "low = unat c mod 2 ^ p"
  define high where "high = unat c div 2 ^ p"
  have l: "low * (2 ^ n - 1) < 2 ^ p" unfolding low_def by (rule sparse_low [OF c(1,2)])
  have b: "high mod 2 ^ k = of_bool (bit c p)"
  proof -
    have "take_bit k (drop_bit p (unat c)) = (of_bool (bit c p) :: nat)"
    proof (rule bit_eqI)
      fix t
      show "bit (take_bit k (drop_bit p (unat c))) t \<longleftrightarrow> bit (of_bool (bit c p) :: nat) t"
        using c(3) [of "p + t"] n(1) by (cases "t = 0") (auto simp: bit_take_bit_iff bit_drop_bit_eq bit_unsigned_iff bit_Suc_0_iff simp flip: bit_0)
    qed
    then show ?thesis by (simp add: high_def take_bit_eq_mod drop_bit_eq_div)
  qed
  have "unat c = high * 2 ^ p + low" unfolding low_def high_def by (rule div_mult_mod_eq [symmetric])
  then have e: "unat c * z = high * z * 2 ^ p + low * z" for z by (simp add: algebra_simps)
  have "(unat c * (2 ^ n - 1)) div 2 ^ p = high * (2 ^ n - 1)"
    unfolding e using l by simp
  moreover
  have le: "k \<le> 32 - p" using n(3) by linarith
  have "unat (c * m) div 2 ^ p mod 2 ^ k = (unat c * (2 ^ n - 1)) div 2 ^ p mod 2 ^ k"
  proof -
    have "take_bit k (drop_bit p (take_bit 32 (unat c * (2 ^ n - 1)))) = take_bit k (drop_bit p (unat c * (2 ^ n - 1)))"
      using le by (simp add: drop_bit_take_bit min_def)
    then show ?thesis using n(4) by (simp add: unat_word_ariths take_bit_eq_mod drop_bit_eq_div)
  qed
  moreover have "high * (2 ^ n - 1) mod 2 ^ k = (high mod 2 ^ k) * (2 ^ n - 1) mod 2 ^ k" by (simp add: mod_mult_left_eq)
  moreover have "(2 ^ n - 1) mod 2 ^ k = (2 ^ k - 1 :: nat)"
  proof -
    have "take_bit k (mask n) = (mask k :: nat)" using n(2) by (intro bit_eqI) (auto simp: bit_take_bit_iff bit_mask_iff)
    then show ?thesis by (simp add: take_bit_eq_mod mask_eq_exp_minus_1)
  qed
  ultimately have "unat (pix k p (c * m)) = of_bool (bit c p) * (2 ^ k - 1)"
    unfolding unat_pix b by simp
  then show ?thesis
    using n(3) by (auto simp: word_unat_eq_iff unat_mask)
qed

text \<open>The fields a mask of high bits marks; what is below a field is marked or empty in both operands.\<close>

definition marks :: "nat \<Rightarrow> nat set \<Rightarrow> 32 word \<Rightarrow> 32 word \<Rightarrow> 32 word \<Rightarrow> bool" where
  "marks n L H x y \<longleftrightarrow> 0 < n \<and> (\<forall>p \<in> L. p + n \<le> 32) \<and> (\<forall>p \<in> L. \<forall>q \<in> L. p < q \<longrightarrow> p + n \<le> q) \<and>
     (\<forall>t. bit H t \<longleftrightarrow> (\<exists>p \<in> L. t + 1 = p + n)) \<and>
     (\<forall>p \<in> L. 0 < p \<longrightarrow> bit H (p - 1) \<or> \<not> bit x (p - 1) \<and> \<not> bit y (p - 1))"

definition saturated :: "nat \<Rightarrow> 32 word \<Rightarrow> 32 word \<Rightarrow> 32 word" where
  "saturated n a b = (if unat a + unat b < 2 ^ n then a + b else mask n)"

lemma xor_cleared: "bit (x XOR (x AND H)) t \<longleftrightarrow> bit x t \<and> \<not> bit (H :: 32 word) t"
  by (auto simp: bit_xor_iff bit_and_iff)

lemma unat_exp: "k < 32 \<Longrightarrow> unat (2 ^ k :: 32 word) = 2 ^ k"
  by (rule bit_eqI) (auto simp: bit_unsigned_iff bit_exp_iff)

lemma top_split:
  assumes "p + n \<le> 32" "0 < n"
    and H: "bit H (p + n - 1)" "\<And>t. p \<le> t \<Longrightarrow> t + 1 < p + n \<Longrightarrow> \<not> bit H t"
  shows "pix n p (x AND H) = (if bit x (p + n - 1) then 2 ^ (n - 1) else 0)"
    "unat (pix n p (x XOR (x AND H))) = unat (pix n p x) - (if bit x (p + n - 1) then 2 ^ (n - 1) else 0)"
    "unat (pix n p (x XOR (x AND H))) < 2 ^ (n - 1)"
    "bit x (p + n - 1) \<Longrightarrow> 2 ^ (n - 1) \<le> unat (pix n p x)"
proof -
  obtain m where m: "n = Suc m" using assms(2) gr0_conv_Suc by blast
  show a: "pix n p (x AND H) = (if bit x (p + n - 1) then 2 ^ (n - 1) else 0)"
  proof (rule bit_word_eqI)
    fix t
    assume "t < LENGTH(32)"
    consider "t < m" | "t = m" | "m < t" by linarith
    then show "bit (pix n p (x AND H)) t \<longleftrightarrow> bit (if bit x (p + n - 1) then 2 ^ (n - 1) else 0 :: 32 word) t"
      using H \<open>t < LENGTH(32)\<close> unfolding m by cases (auto simp: bit_and_iff bit_exp_iff m)
  qed
  have low: "pix n p (x XOR (x AND H)) = take_bit m (pix n p x)"
  proof (rule bit_word_eqI)
    fix t
    consider "t < m" | "t = m" | "m < t" by linarith
    then show "bit (pix n p (x XOR (x AND H))) t \<longleftrightarrow> bit (take_bit m (pix n p x)) t"
      using H unfolding m by cases (auto simp: xor_cleared bit_take_bit_iff m)
  qed
  have split: "unat (pix n p x) = unat (take_bit m (pix n p x)) + (if bit x (p + n - 1) then 2 ^ m else 0)"
  proof -
    have "take_bit (Suc m) (unat (pix n p x)) = unat (pix n p x)" using unat_pix_less [of n p x] by (simp add: m take_bit_nat_eq_self)
    moreover have "bit (unat (pix n p x)) m \<longleftrightarrow> bit x (p + n - 1)"
      using assms(1) by (simp add: bit_unsigned_iff m)
    ultimately show ?thesis
      using take_bit_Suc_from_most [of m "unat (pix n p x)"]
      by (cases "bit x (p + n - 1)") (simp_all add: unsigned_take_bit_eq)
  qed
  show "unat (pix n p (x XOR (x AND H))) = unat (pix n p x) - (if bit x (p + n - 1) then 2 ^ (n - 1) else 0)"
    "bit x (p + n - 1) \<Longrightarrow> 2 ^ (n - 1) \<le> unat (pix n p x)"
    unfolding low split by (simp_all add: m)
  have "unat (pix n p (x XOR (x AND H))) = take_bit m (unat (pix n p x))"
    unfolding low by (rule unsigned_take_bit_eq)
  then show "unat (pix n p (x XOR (x AND H))) < 2 ^ (n - 1)" by (simp add: m)
qed

lemma carry_sparse:
  assumes L: "marks n L H x y" and c: "\<And>u. bit c u \<Longrightarrow> bit H u"
  shows "bit (drop_bit (n - 1) c) r \<Longrightarrow> r \<in> L" "sparse n (drop_bit (n - 1) c)"
proof -
  have at: "r \<in> L" if "bit (drop_bit (n - 1) c) r" for r
    using that c [of "n - 1 + r"] L by (auto simp: marks_def bit_drop_bit_eq)
  then show "bit (drop_bit (n - 1) c) r \<Longrightarrow> r \<in> L" .
  show "sparse n (drop_bit (n - 1) c)" using at L by (auto simp: sparse_def marks_def)
qed

lemma partitionedAdd_pix:
  assumes L: "marks n L H x y" and p: "p \<in> L" and m: "unat m = 2 ^ n - 1"
  shows "pix n p (partitionedAdd x y n m H) = saturated n (pix n p x) (pix n p y)"
proof -
  have n: "0 < n" "p + n \<le> 32" using L p by (auto simp: marks_def)
  have disjoint: "r + n \<le> q" if "r \<in> L" "q \<in> L" "r < q" for r q using L that by (auto simp: marks_def)
  have H: "bit H t \<longleftrightarrow> (\<exists>p \<in> L. t + 1 = p + n)" for t using L by (auto simp: marks_def)
  have Hp: "bit H (p + n - 1)" "\<not> bit H t" if "p \<le> t" "t + 1 < p + n" for t
  proof -
    show "bit H (p + n - 1)" using H [of "p + n - 1"] p n(1) by auto
    show "\<not> bit H t"
    proof
      assume "bit H t"
      then obtain q where "q \<in> L" "t + 1 = q + n" using H by blast
      then show False using disjoint [of q p] p that by simp
    qed
  qed
  have Hp1: "bit H (p + n - 1)" using H [of "p + n - 1"] p n(1) by auto
  define ah where "ah = bit x (p + n - 1)"
  define bh where "bh = bit y (p + n - 1)"
  note X = top_split [OF n(2,1) Hp1 Hp(2), of x, folded ah_def] and Y = top_split [OF n(2,1) Hp1 Hp(2), of y, folded bh_def]
  define sm where "sm = (x XOR (x AND H)) + (y XOR (y AND H))"
  define c where "c = ((x AND H) AND (y AND H)) OR (((x AND H) OR (y AND H)) AND sm)"
  define t where "t = (2 :: nat) ^ (n - 1)"
  have t: "2 ^ n = t + t" using n(1) by (cases n) (simp_all add: t_def)
  have "p = 0 \<or> \<not> bit (x XOR (x AND H)) (p - 1) \<and> \<not> bit (y XOR (y AND H)) (p - 1)"
    using L p unfolding marks_def xor_cleared by blast
  from pix_add [OF n(2) this]
  have s: "unat (pix n p sm) = unat (pix n p (x XOR (x AND H))) + unat (pix n p (y XOR (y AND H)))"
    using X(3) Y(3) t unfolding sm_def t_def by simp
  have top: "bit sm (p + n - 1) \<longleftrightarrow> t \<le> unat (pix n p sm)"
  proof -
    have "bit sm (p + n - 1) \<Longrightarrow> t \<le> unat (pix n p sm)" using top_split(4) [OF n(2,1) Hp1 Hp(2)] t_def by simp
    moreover have "\<not> bit sm (p + n - 1) \<Longrightarrow> unat (pix n p sm) < t"
      using top_split(2,3) [OF n(2,1) Hp1 Hp(2), of sm] t_def by simp
    ultimately show ?thesis by (meson not_le)
  qed
  have carry: "bit c (p + n - 1) \<longleftrightarrow> ah \<and> bh \<or> (ah \<or> bh) \<and> t \<le> unat (pix n p sm)"
    unfolding c_def top [symmetric] ah_def bh_def using Hp1 by (auto simp: bit_or_iff bit_and_iff)
  have cH: "bit c u \<Longrightarrow> bit H u" for u by (auto simp: c_def bit_or_iff bit_and_iff)
  have "pix n p (drop_bit (n - 1) c * m) = (if bit (drop_bit (n - 1) c) p then mask n else 0)"
  proof (rule pix_spread [OF carry_sparse(2) [OF L cH] _ _ n(1) le_refl n(2) m])
    note at = carry_sparse(1) [OF L cH]
    show "\<And>r. bit (drop_bit (n - 1) c) r \<Longrightarrow> r < p \<Longrightarrow> r + n \<le> p" using at disjoint p by blast
    show "\<And>r. p < r \<Longrightarrow> r < p + n \<Longrightarrow> \<not> bit (drop_bit (n - 1) c) r" using at disjoint [OF p] by fastforce
  qed
  moreover have "bit (drop_bit (n - 1) c) p \<longleftrightarrow> bit c (p + n - 1)" using n(1) by (simp add: bit_drop_bit_eq add.commute)
  ultimately have r: "pix n p (partitionedAdd x y n m H)
      = ((pix n p sm XOR pix n p (x AND H)) XOR pix n p (y AND H)) OR (if bit c (p + n - 1) then mask n else 0)"
    unfolding partitionedAdd_def Let_def sm_def [symmetric] c_def [symmetric] pix_bits by simp
  have full: "pix n p w OR mask n = mask n" for w :: "32 word"
    by (rule bit_word_eqI) (auto simp: bit_or_iff bit_mask_iff)
  have x': "unat (pix n p x) = unat (pix n p (x XOR (x AND H))) + (if ah then t else 0)"
    using X(2,4) t_def by (simp split: if_splits)
  have y': "unat (pix n p y) = unat (pix n p (y XOR (y AND H))) + (if bh then t else 0)"
    using Y(2,4) t_def by (simp split: if_splits)
  have total: "unat (pix n p x) + unat (pix n p y) = unat (pix n p sm) + (if ah then t else 0) + (if bh then t else 0)"
    unfolding x' y' s by simp
  have "unat (pix n p sm) < 2 ^ n" by (rule unat_pix_less)
  show ?thesis
  proof (cases "ah \<or> bh")
    case False
    have "unat (pix n p x) + unat (pix n p y) < 2 ^ 32"
      using total False \<open>unat (pix n p sm) < 2 ^ n\<close> power_increasing [of n 32 "2 :: nat"] n(2) by simp
    then have "pix n p sm = pix n p x + pix n p y"
      using total False by (simp add: word_unat_eq_iff unat_word_ariths)
    then show ?thesis
      using r carry False total \<open>unat (pix n p sm) < 2 ^ n\<close> X(1) Y(1) by (simp add: saturated_def)
  next
    case True
    show ?thesis
    proof (cases "bit c (p + n - 1)")
      case c: True
      then have "\<not> unat (pix n p x) + unat (pix n p y) < 2 ^ n" using carry total t by (auto split: if_splits)
      moreover have "((pix n p sm XOR pix n p (x AND H)) XOR pix n p (y AND H)) OR mask n = mask n"
        using full [of "(sm XOR (x AND H)) XOR (y AND H)"] by (simp add: pix_bits)
      ultimately show ?thesis using r c by (simp add: saturated_def)
    next
      case c: False
      then have one: "ah \<noteq> bh" "unat (pix n p sm) < t" using carry True by auto
      have e: "(pix n p sm XOR pix n p (x AND H)) XOR pix n p (y AND H) = pix n p sm XOR 2 ^ (n - 1)"
        using one(1) X(1) Y(1) by auto
      have "pix n p sm XOR 2 ^ (n - 1) = pix n p sm + 2 ^ (n - 1)"
      proof (rule disjunctive_add_eq_xor [symmetric])
        show "pix n p sm AND 2 ^ (n - 1) = 0"
          by (rule bit_word_eqI) (use top one(2) n(1) in \<open>auto simp: bit_and_iff bit_exp_iff\<close>)
      qed
      then have v: "unat (pix n p sm XOR 2 ^ (n - 1)) = unat (pix n p sm) + t"
        using one(2) t power_increasing [of n 32 "2 :: nat"] n by (simp add: unat_word_ariths unat_exp t_def)
      have lt: "unat (pix n p x) + unat (pix n p y) < 2 ^ n" using total one t by (auto split: if_splits)
      moreover have "unat (pix n p x + pix n p y) = unat (pix n p x) + unat (pix n p y)"
        using lt power_increasing [of n 32 "2 :: nat"] n(2) by (simp add: unat_word_ariths)
      ultimately show ?thesis
        using r c e v total one(1) by (auto simp: saturated_def word_unat_eq_iff split: if_splits)
    qed
  qed
qed

subsection \<open>The rule that adds\<close>

text \<open>The masks of \<open>rgbAddwith\<close> mark the channels.\<close>

definition add_marks :: "nat \<Rightarrow> 32 word" where
  "add_marks depth =
     (if depth < 16 then push_bit (depth - 1) (0xFFFFFFFF div (push_bit depth 1 - 1))
      else if depth = 16 then 1108361744 else 2155905152)"

lemma add_marks_computed:
  "\<forall>depth \<in> {1, 2, 4, 8, 32}. list_all (\<lambda>t. bit (add_marks depth) t = ((t + 1) mod channel_bits depth = 0)) [0..<32]"
  "list_all (\<lambda>t. bit (add_marks 16) t = (t \<in> {4, 9, 14, 20, 25, 30})) [0..<32]"
  by code_simp+

lemma channel_end:
  assumes "b \<in> {1, 2, 4, 8 :: nat}" "t < 32"
  shows "(\<exists>p. b dvd p \<and> p < 32 \<and> t + 1 = p + b) \<longleftrightarrow> b dvd t + 1"
proof
  assume "b dvd t + 1"
  moreover from this have "b \<le> t + 1" by (rule dvd_imp_le) simp
  ultimately show "\<exists>p. b dvd p \<and> p < 32 \<and> t + 1 = p + b"
    using assms by (intro exI [of _ "t + 1 - b"]) auto
qed auto

lemma add_marks_bits:
  assumes "depth \<in> {1, 2, 4, 8, 16, 32}"
  shows "bit (add_marks depth) t \<longleftrightarrow> (\<exists>p \<in> channels depth. t + 1 = p + channel_bits depth)"
proof (cases "t < 32")
  case True
  show ?thesis
  proof (cases "depth = 16")
    case d: True
    then have "bit (add_marks depth) t \<longleftrightarrow> t \<in> {4, 9, 14, 20, 25, 30}"
      using add_marks_computed(2) True by (simp add: list_all_iff)
    then show ?thesis using d by (auto simp: channels_def channel_bits_def)
  next
    case False
    then have d: "depth \<in> {1, 2, 4, 8, 32}" "channel_bits depth \<in> {1, 2, 4, 8}" using assms by (auto simp: channel_bits_def)
    then have "bit (add_marks depth) t \<longleftrightarrow> (t + 1) mod channel_bits depth = 0"
      using bspec [OF add_marks_computed(1) d(1)] True unfolding list_all_iff by simp
    also have "\<dots> \<longleftrightarrow> channel_bits depth dvd t + 1" by (simp only: dvd_eq_mod_eq_0)
    also have "\<dots> \<longleftrightarrow> (\<exists>p \<in> channels depth. t + 1 = p + channel_bits depth)"
      using channel_end [OF d(2) True] False by (auto simp: channels_def)
    finally show ?thesis .
  qed
next
  case False
  have "p + channel_bits depth \<le> 32" if "p \<in> channels depth" for p
    using that assms by (auto simp: channels_def channel_bits_def dvd_def split: if_splits)
  then show ?thesis using False bit_imp_le_length [of "add_marks depth" t] by force
qed

lemma channels_apart:
  assumes d: "depth \<in> {1, 2, 4, 8, 16, 32}" and p: "p \<in> channels depth"
  shows "p + channel_bits depth \<le> 32"
    and "q \<in> channels depth \<Longrightarrow> p < q \<Longrightarrow> p + channel_bits depth \<le> q"
    and "0 < p \<Longrightarrow> (\<exists>q \<in> channels depth. q + channel_bits depth = p) \<or> depth = 16 \<and> p = 16"
proof -
  show "p + channel_bits depth \<le> 32"
    using d p by (auto simp: channels_def channel_bits_def dvd_def split: if_splits)
  show "p + channel_bits depth \<le> q" if q: "q \<in> channels depth" "p < q"
  proof (cases "depth = 16")
    case True
    then show ?thesis using p q by (auto simp: channels_def channel_bits_def)
  next
    case False
    then obtain i j where "p = channel_bits depth * i" "q = channel_bits depth * j"
      using p q(1) by (auto simp: channels_def dvd_def)
    moreover from this have "i < j" using q(2) by simp
    ultimately show ?thesis using mult_le_mono2 [of "Suc i" j "channel_bits depth"] by simp
  qed
  show "(\<exists>q \<in> channels depth. q + channel_bits depth = p) \<or> depth = 16 \<and> p = 16" if "0 < p"
  proof (cases "depth = 16")
    case True
    then show ?thesis using p that by (auto simp: channels_def channel_bits_def)
  next
    case False
    then obtain i where i: "p = channel_bits depth * i" "p < 32"
      using p by (auto simp: channels_def dvd_def)
    then have "channel_bits depth * (i - 1) + channel_bits depth = p" using that by (cases i) simp_all
    moreover from this have "channel_bits depth * (i - 1) \<in> channels depth" using i False by (auto simp: channels_def)
    ultimately show ?thesis by blast
  qed
qed

definition add_operand :: "nat \<Rightarrow> 32 word \<Rightarrow> 32 word" where
  "add_operand depth w = (if depth = 16 then w AND 2147450879 else w)"

lemma add_operand_bit:
  "t < 32 \<Longrightarrow> bit (add_operand depth w) t \<longleftrightarrow> bit w t \<and> \<not> (depth = 16 \<and> (t = 15 \<or> t = 31))"
proof -
  assume "t < 32"
  moreover have "list_all (\<lambda>t. bit (2147450879 :: 32 word) t = (t \<noteq> 15 \<and> t \<noteq> 31)) [0..<32]" by code_simp
  ultimately show ?thesis by (auto simp: add_operand_def bit_and_iff list_all_iff)
qed

lemma rgbAdd_partitioned:
  assumes "depth_ok e"
  shows "rgbAddwith e s d = partitionedAdd (add_operand (envDepth e) s) (add_operand (envDepth e) d)
    (channel_bits (envDepth e)) (mask (channel_bits (envDepth e))) (add_marks (envDepth e))"
  using assms unfolding depth_ok_def
  by (auto simp: rgbAddwith_def add_operand_def channel_bits_def add_marks_def mask_eq_exp_minus_1 Let_def)

lemma channel_operand:
  assumes "depth \<in> {1, 2, 4, 8, 16, 32}" "p \<in> channels depth"
  shows "pix (channel_bits depth) p (add_operand depth w) = pix (channel_bits depth) p w"
proof (rule bit_word_eqI)
  fix t
  show "bit (pix (channel_bits depth) p (add_operand depth w)) t \<longleftrightarrow> bit (pix (channel_bits depth) p w) t"
  proof (cases "depth = 16 \<and> t < channel_bits depth")
    case True
    then have "p + t < 32 \<and> p + t \<noteq> 15 \<and> p + t \<noteq> 31" using assms(2) by (auto simp: channels_def channel_bits_def)
    then show ?thesis by (auto simp: add_operand_bit)
  qed (auto simp: add_operand_def)
qed

lemma rgbAdd_marks:
  assumes "depth \<in> {1, 2, 4, 8, 16, 32}"
  shows "marks (channel_bits depth) (channels depth) (add_marks depth) (add_operand depth s) (add_operand depth d)"
  unfolding marks_def
proof (intro conjI ballI impI allI)
  show "0 < channel_bits depth" using assms by (auto simp: channel_bits_def)
  show "p + channel_bits depth \<le> 32" if "p \<in> channels depth" for p using channels_apart(1) [OF assms that] .
  show "p + channel_bits depth \<le> q" if "p \<in> channels depth" "q \<in> channels depth" "p < q" for p q
    using channels_apart(2) [OF assms] that by blast
  show "bit (add_marks depth) t \<longleftrightarrow> (\<exists>p \<in> channels depth. t + 1 = p + channel_bits depth)" for t
    by (rule add_marks_bits [OF assms])
  show "bit (add_marks depth) (p - 1) \<or> \<not> bit (add_operand depth s) (p - 1) \<and> \<not> bit (add_operand depth d) (p - 1)"
    if p: "p \<in> channels depth" "0 < p" for p
    using channels_apart(3) [OF assms p]
  proof
    assume "\<exists>q \<in> channels depth. q + channel_bits depth = p"
    then show ?thesis using add_marks_bits [OF assms, of "p - 1"] p(2) by auto
  qed (auto simp: add_operand_bit)
qed

lemma rgbAdd_channelwise:
  assumes e: "depth_ok e"
  shows "channelwise rgbAddwith e (saturated (channel_bits (envDepth e)))"
  unfolding channelwise_def
proof (intro allI ballI)
  fix s d p
  assume p: "p \<in> channels (envDepth e)"
  have d: "envDepth e \<in> {1, 2, 4, 8, 16, 32}" using e by (simp add: depth_ok_def)
  have "channel_bits (envDepth e) \<le> 32" by (auto simp: channel_bits_def)
  then have "unat (mask (channel_bits (envDepth e)) :: 32 word) = 2 ^ channel_bits (envDepth e) - 1" by (rule unat_mask)
  from partitionedAdd_pix [OF rgbAdd_marks [OF d] p this]
  show "pix (channel_bits (envDepth e)) p (rgbAddwith e s d)
      = saturated (channel_bits (envDepth e)) (pix (channel_bits (envDepth e)) p s) (pix (channel_bits (envDepth e)) p d)"
    unfolding rgbAdd_partitioned [OF e] channel_operand [OF d p] .
qed

lemma partitionedAdd_gap:
  assumes L: "marks n L H x y" and m: "unat m = 2 ^ n - 1"
    and p: "0 < p" "p < 32" "bit H (p - 1)" "\<not> bit x p" "\<not> bit y p" "\<not> bit H p" "p \<notin> L" "\<And>q. q \<in> L \<Longrightarrow> q < p \<Longrightarrow> q + n \<le> p"
  shows "\<not> bit (partitionedAdd x y n m H) p"
proof -
  have one: "bit w p \<longleftrightarrow> unat (pix 1 p w) \<noteq> 0" for w
  proof -
    have "bit w p \<longleftrightarrow> bit (unat w) p" using bit_imp_le_length [of w p] by (auto simp: bit_unsigned_iff)
    then show ?thesis unfolding unat_pix bit_iff_odd by (simp add: odd_iff_mod_2_eq_one)
  qed
  define sm where "sm = (x XOR (x AND H)) + (y XOR (y AND H))"
  define c where "c = ((x AND H) AND (y AND H)) OR (((x AND H) OR (y AND H)) AND sm)"
  have cH: "bit c u \<Longrightarrow> bit H u" for u by (auto simp: c_def bit_or_iff bit_and_iff)
  have "0 < n" using L by (simp add: marks_def)
  have "unat (pix 1 p sm) = (unat (pix 1 p (x XOR (x AND H))) + unat (pix 1 p (y XOR (y AND H)))) mod 2 ^ 1"
    unfolding sm_def by (rule pix_add) (use p in \<open>auto simp: xor_cleared\<close>)
  moreover have "unat (pix 1 p (x XOR (x AND H))) = 0" "unat (pix 1 p (y XOR (y AND H))) = 0"
    using one [of "x XOR (x AND H)"] one [of "y XOR (y AND H)"] p(4,5) by (auto simp: xor_cleared)
  ultimately have "\<not> bit sm p" using one [of sm] by simp
  moreover have "pix 1 p (drop_bit (n - 1) c * m) = (if bit (drop_bit (n - 1) c) p then mask 1 else 0)"
    using p(2,8) carry_sparse(1) [OF L cH] \<open>0 < n\<close> by (intro pix_spread [OF carry_sparse(2) [OF L cH] _ _ _ _ _ m]) auto
  then have "\<not> bit (drop_bit (n - 1) c * m) p"
    using one [of "drop_bit (n - 1) c * m"] carry_sparse(1) [OF L cH] p(7) by auto
  ultimately show ?thesis
    using p(4-6) unfolding partitionedAdd_def Let_def sm_def [symmetric] c_def [symmetric]
    by (simp add: bit_or_iff bit_xor_iff bit_and_iff)
qed

lemma rgbAdd_pixelwise:
  assumes e: "depth_ok e"
  shows "pixelwise rgbAddwith e"
proof (rule pixelwiseI)
  show "rgbAddwith (e\<lparr>envMask := M\<rparr>) s d = rgbAddwith e s d" for M s d by (simp add: rgbAddwith_def)
  fix p s d
  assume p: "envDepth e dvd p" "p + envDepth e \<le> 32"
  note c = rgbAdd_channelwise [OF e, unfolded channelwise_def, rule_format]
  from e show "pix (envDepth e) p (rgbAddwith e s d) = pix (envDepth e) 0 (rgbAddwith e (pix (envDepth e) p s) (pix (envDepth e) p d))"
  proof (cases rule: depth_cases)
    case 1
    have "0 < envDepth e" using 1(1) by auto
    then have "p \<in> channels (envDepth e)" "0 \<in> channels (envDepth e)" using p unfolding 1(4) by simp_all
    then show ?thesis using c [of p s d] c [of 0 "pix (envDepth e) p s" "pix (envDepth e) p d"] unfolding 1(3) by simp
  next
    case 2
    have p16: "p = 0 \<or> p = 16" using p 2(1) by auto
    have gap: "\<not> bit (rgbAddwith e s d) q" if "q = 15 \<or> q = 31" for s d q
    proof -
      have H: "list_all (\<lambda>t. bit (add_marks 16) t = (t \<in> {4, 9, 14, 20, 25, 30})) [0..<32]" by (rule add_marks_computed(2))
      have "\<not> bit (partitionedAdd (add_operand 16 s) (add_operand 16 d) 5 (mask 5) (add_marks 16)) q"
      proof (rule partitionedAdd_gap)
        show "marks 5 (channels 16) (add_marks 16) (add_operand 16 s) (add_operand 16 d)"
          using rgbAdd_marks [of 16 s d] by (simp add: channel_bits_def)
      qed (use that H in \<open>auto simp: add_operand_bit list_all_iff channels_def unat_mask\<close>)
      then show ?thesis unfolding rgbAdd_partitioned [OF e] 2(1) by (simp add: channel_bits_def)
    qed
    have ch: "{0, 5, 10, 16, 21, 26} = channels (envDepth e)" "channel_bits (envDepth e) = 5" using 2(1) by (simp_all add: channels_def channel_bits_def)
    have lane: "pix 5 (p + q) (rgbAddwith e s d) = pix 5 q (rgbAddwith e (pix 16 p s) (pix 16 p d))" if "q \<in> {0, 5, 10}" for q
    proof -
      have "p + q \<in> channels (envDepth e)" "q \<in> channels (envDepth e)" using that p16 unfolding ch(1) [symmetric] by auto
      then show ?thesis
        using c [of "p + q" s d] c [of q "pix 16 p s" "pix 16 p d"] that unfolding ch(2) by (auto simp: pix_pix)
    qed
    have "pix 16 p (rgbAddwith e s d) = pix 16 0 (rgbAddwith e (pix 16 p s) (pix 16 p d))"
    proof (rule bit_word_eqI)
      fix t :: nat
      consider "t < 5" | "5 \<le> t" "t < 10" | "10 \<le> t" "t < 15" | "t = 15" | "16 \<le> t" by linarith
      then show "bit (pix 16 p (rgbAddwith e s d)) t \<longleftrightarrow> bit (pix 16 0 (rgbAddwith e (pix 16 p s) (pix 16 p d))) t"
      proof cases
        case 1
        then show ?thesis using arg_cong [OF lane [of 0], of "\<lambda>w. bit w t"] by simp
      next
        case 2
        then have "t - 5 < 5" by linarith
        then show ?thesis using 2 arg_cong [OF lane [of 5], of "\<lambda>w. bit w (t - 5)"] by simp
      next
        case 3
        then have "t - 10 < 5" by linarith
        then show ?thesis using 3 arg_cong [OF lane [of 10], of "\<lambda>w. bit w (t - 10)"] by simp
      next
        case 4
        then show ?thesis using gap [of "p + 15"] gap [of 15] p16 by auto
      qed simp
    qed
    then show ?thesis unfolding 2(1) .
  next
    case 3
    then show ?thesis using p by simp
  qed
qed

subsection \<open>The rule that multiplies\<close>

definition scaled :: "nat \<Rightarrow> 32 word \<Rightarrow> 32 word \<Rightarrow> 32 word" where
  "scaled n a b = drop_bit n ((a + 1) * (b + 1) - 1)"

lemma mul_step:
  assumes n: "n \<in> {1, 2, 4, 5, 8}"
  shows "(((drop_bit (k * n) x AND mask n) + 1) * ((drop_bit (k * n) y AND mask n) + 1) - 1) AND push_bit n (mask n)
    = push_bit n (scaled n (pix n (n * k) x) (pix n (n * k) y))" "unat (scaled n (pix n p x) (pix n p y)) < 2 ^ n"
proof -
  have a: "drop_bit (k * n) w AND mask n = pix n (n * k) w" for w :: "32 word"
    by (simp add: pix_def take_bit_eq_mask mult.commute)
  have lt: "unat ((pix n p x + 1) * (pix n p y + 1) - 1) < 2 ^ (n + n)" for p
  proof -
    have x: "unat (pix n p x) + 1 \<le> 2 ^ n" and y: "unat (pix n p y) + 1 \<le> 2 ^ n"
      using unat_pix_less [of n p x] unat_pix_less [of n p y] by simp_all
    have le: "(unat (pix n p x) + 1) * (unat (pix n p y) + 1) \<le> 2 ^ n * 2 ^ n" using x y by (rule mult_le_mono)
    have p16: "(2 :: nat) ^ n * 2 ^ n \<le> 2 ^ 16" using n by auto
    have s: "unat (pix n p x + 1) = unat (pix n p x) + 1" "unat (pix n p y + 1) = unat (pix n p y) + 1"
      using x y n by (auto simp: unat_word_ariths)
    have m: "unat ((pix n p x + 1) * (pix n p y + 1)) = (unat (pix n p x) + 1) * (unat (pix n p y) + 1)"
      unfolding unat_word_ariths(2) s using le p16 by simp
    then have "1 \<le> (pix n p x + 1) * (pix n p y + 1)" by (simp add: word_le_nat_alt)
    then have "unat ((pix n p x + 1) * (pix n p y + 1) - 1) = (unat (pix n p x) + 1) * (unat (pix n p y) + 1) - 1"
      unfolding unat_sub [OF \<open>1 \<le> _\<close>] m by simp
    then show ?thesis using le by (simp add: power_add) 
  qed
  show "unat (scaled n (pix n p x) (pix n p y)) < 2 ^ n"
    using lt [of p] by (simp only: scaled_def unat_drop_bit_eq) (simp add: drop_bit_eq_div power_add less_mult_imp_div_less)
  have high: "t < n + n" if b: "bit ((pix n (n * k) x + 1) * (pix n (n * k) y + 1) - 1) t" for t
  proof (rule ccontr)
    assume t: "\<not> t < n + n"
    have b: "bit ((pix n (n * k) x + 1) * (pix n (n * k) y + 1) - 1) t" by (rule b)
    then have "bit (unat ((pix n (n * k) x + 1) * (pix n (n * k) y + 1) - 1)) t" by (simp add: bit_unsigned_iff)
    then have "2 ^ t \<le> unat ((pix n (n * k) x + 1) * (pix n (n * k) y + 1) - 1)"
      unfolding bit_iff_odd by (metis div_less even_zero not_le)
    moreover have "(2 :: nat) ^ (n + n) \<le> 2 ^ t" using t by simp
    ultimately show False using lt [of "n * k"] by linarith
  qed
  show "(((drop_bit (k * n) x AND mask n) + 1) * ((drop_bit (k * n) y AND mask n) + 1) - 1) AND push_bit n (mask n)
    = push_bit n (scaled n (pix n (n * k) x) (pix n (n * k) y))"
    unfolding a
    by (rule bit_word_eqI) (use high in \<open>auto simp: bit_and_iff bit_push_bit_iff bit_mask_iff scaled_def bit_drop_bit_eq dest: high\<close>)
qed

lemma scaled_bits:
  assumes n: "n \<in> {1, 2, 4, 5, 8}"
  shows "bit (scaled n (pix n p x) (pix n p y)) t \<Longrightarrow> t < n"
proof (rule ccontr)
  assume b: "bit (scaled n (pix n p x) (pix n p y)) t" "\<not> t < n"
  then have "bit (unat (scaled n (pix n p x) (pix n p y))) t" by (simp add: bit_unsigned_iff)
  then have "2 ^ t \<le> unat (scaled n (pix n p x) (pix n p y))" unfolding bit_iff_odd by (metis div_less even_zero not_le)
  moreover have "(2 :: nat) ^ n \<le> 2 ^ t" using b(2) by simp
  ultimately show False using mul_step(2) [OF n, of p x y] by linarith
qed

text \<open>The routine multiplies four fields at most, however many it is asked for.\<close>

lemma partitionedMul_fields:
  assumes n: "n \<in> {1, 2, 4, 5, 8}" and "n * 4 \<le> 32"
  defines "q \<equiv> \<lambda>j x y. push_bit (n * j) (scaled n (pix n (n * j) x) (pix n (n * j) y))"
  shows "partitionedMul x y n 3 = (q 0 x y OR q 1 x y) OR q 2 x y"
    "k \<notin> {1, 2, 3} \<Longrightarrow> partitionedMul x y n k = ((q 0 x y OR q 1 x y) OR q 2 x y) OR q 3 x y"
proof -
  have m: "maskTable n = mask n" using n by (intro maskTable_mask) auto
  note st = mul_step(1) [OF n, of _ x y]
  have "drop_bit n (push_bit n (scaled n (pix n 0 x) (pix n 0 y))) = scaled n (pix n 0 x) (pix n 0 y)"
  proof (rule bit_word_eqI)
    fix t
    assume "t < LENGTH(32)"
    moreover have "n \<le> 8" using n by auto
    ultimately show "bit (drop_bit n (push_bit n (scaled n (pix n 0 x) (pix n 0 y)))) t \<longleftrightarrow> bit (scaled n (pix n 0 x) (pix n 0 y)) t"
      using scaled_bits [OF n, of 0 x y t] by (auto simp: bit_drop_bit_eq bit_push_bit_iff)
  qed
  then have q0: "drop_bit n ((((x AND mask n) + 1) * ((y AND mask n) + 1) - 1) AND push_bit n (mask n)) = q 0 x y"
    using st [of 0] by (simp add: q_def)
  have q1: "(((drop_bit (1 * n) x AND mask n) + 1) * ((drop_bit (1 * n) y AND mask n) + 1) - 1) AND push_bit n (mask n) = q 1 x y"
    unfolding st [of 1] by (simp add: q_def)
  have q2: "push_bit n ((((drop_bit (2 * n) x AND mask n) + 1) * ((drop_bit (2 * n) y AND mask n) + 1) - 1) AND push_bit n (mask n)) = q 2 x y"
    unfolding st [of 2] by (simp add: q_def mult.commute flip: mult_2_right)
  have q3: "push_bit (2 * n) ((((drop_bit (3 * n) x AND mask n) + 1) * ((drop_bit (3 * n) y AND mask n) + 1) - 1) AND push_bit n (mask n)) = q 3 x y"
    unfolding st [of 3] by (simp add: q_def mult.commute flip: mult_2_right)
  show "partitionedMul x y n 3 = (q 0 x y OR q 1 x y) OR q 2 x y"
    "k \<notin> {1, 2, 3} \<Longrightarrow> partitionedMul x y n k = ((q 0 x y OR q 1 x y) OR q 2 x y) OR q 3 x y"
    unfolding partitionedMul_def Let_def m q0 q1 q2 q3 by simp_all
qed

lemma mul_fields:
  assumes n: "n \<in> {5, 8}"
  shows "fields n (if n = 5 then 3 else 4) partitionedMul (scaled n)"
proof -
  have n': "n \<in> {1, 2, 4, 5, 8}" "n * 4 \<le> 32" using n by auto
  define k where "k = (if n = 5 then 3 else 4 :: nat)"
  define q where "q j x y = push_bit (n * j) (scaled n (pix n (n * j) x) (pix n (n * j) y))" for j x y
  have e: "partitionedMul x y n k = (q 0 x y OR q 1 x y) OR (if k = 3 then q 2 x y else q 2 x y OR q 3 x y)" for x y
    using partitionedMul_fields(1) [OF n', of x y] partitionedMul_fields(2) [OF n', of 4 x y] by (auto simp: q_def k_def or.assoc)
  have b: "bit (q j x y) t \<longleftrightarrow> n * j \<le> t \<and> t < n * j + n \<and> t < 32 \<and> bit (scaled n (pix n (n * j) x) (pix n (n * j) y)) (t - n * j)" for j x y t
    using scaled_bits [OF n'(1), of "n * j" x y "t - n * j"] by (auto simp: q_def bit_push_bit_iff)
  have "pix n (n * j) (partitionedMul x y n k) = scaled n (pix n (n * j) x) (pix n (n * j) y)" if j: "j < k" for j x y
  proof -
    have "pix n (n * j) (partitionedMul x y n k) = pix n (n * j) (q j x y)"
    proof (rule bit_word_eqI)
      fix t
      consider "j = 0" | "j = 1" | "j = 2" | "j = 3" "k = 4" using j by (fastforce simp: k_def split: if_splits)
      then show "bit (pix n (n * j) (partitionedMul x y n k)) t \<longleftrightarrow> bit (pix n (n * j) (q j x y)) t"
        unfolding e by cases (auto simp: bit_or_iff b)
    qed
    moreover have "n * j + n \<le> 32" using j n by (auto simp: k_def split: if_splits)
    then have "pix n (n * j) (q j x y) = scaled n (pix n (n * j) x) (pix n (n * j) y)"
      unfolding q_def pix_push [OF \<open>n * j + n \<le> 32\<close>]
      by (intro bit_word_eqI) (auto simp: bit_take_bit_iff dest: scaled_bits [OF n'(1)])
    ultimately show ?thesis by simp
  qed
  moreover have "t < n * k" if "bit (partitionedMul x y n k) t" for x y t
    using that n unfolding e by (auto simp: bit_or_iff b k_def split: if_splits)
  ultimately show ?thesis unfolding fields_def k_def by blast
qed

text \<open>Of pixels of less than 8 bits it multiplies the lowest four and clears the others.\<close>

lemma rgbMul_clears_pixels:
  assumes "envDepth e \<in> {1, 2, 4}" "envPPW e = 32 div envDepth e" "4 * envDepth e \<le> t"
  shows "\<not> bit (rgbMulwith e s d) t"
proof -
  have n: "envDepth e \<in> {1, 2, 4, 5, 8}" "envDepth e * 4 \<le> 32" and k: "32 div envDepth e \<notin> {1, 2, 3 :: nat}" using assms(1) by auto
  have "\<not> bit (scaled (envDepth e) (pix (envDepth e) p s) (pix (envDepth e) p d)) u" if "envDepth e \<le> u" for p u
    using scaled_bits [OF n(1)] that not_less by blast
  then show ?thesis
    using partitionedMul_fields(2) [OF n k, of s d] assms
    by (auto simp: rgbMulwith_def by_channel_def bit_or_iff bit_push_bit_iff)
qed

subsection \<open>The rules on channels\<close>

lemma max_channels: "depth_ok e \<Longrightarrow> acts_on_channels e partitionedMax (\<lambda>n. max)"
  by (intro acts_on_channelsI max_fields; assumption)

lemma min_channels: "depth_ok e \<Longrightarrow> acts_on_channels e partitionedMin (\<lambda>n. min)"
  by (intro acts_on_channelsI min_fields; assumption)

lemma sub_channels: "depth_ok e \<Longrightarrow> acts_on_channels e partitionedSub (\<lambda>n. distance)"
  by (intro acts_on_channelsI sub_fields; assumption)

lemma mul_channels:
  assumes "depth_ok e" "8 \<le> envDepth e"
  shows "acts_on_channels e partitionedMul scaled"
  using mul_fields [of 5] mul_fields [of 8] assms by (auto simp: acts_on_channels_def depth_ok_def)

lemma unat_max: "unat (max a b) = max (unat a) (unat b)"
  by (simp add: max_def word_le_nat_alt)

lemma unat_min: "unat (min a b) = min (unat a) (unat b)"
  by (simp add: min_def word_le_nat_alt)

lemma unat_distance: "unat (distance a b) = max (unat a) (unat b) - min (unat a) (unat b)"
  by (auto simp: distance_def word_less_nat_alt unat_sub word_le_nat_alt max_def min_def)

lemma unat_saturated:
  assumes "n \<le> 32"
  shows "unat (saturated n (pix n p s) (pix n p d)) = min (unat (pix n p s) + unat (pix n p d)) (2 ^ n - 1)"
proof (cases "unat (pix n p s) + unat (pix n p d) < 2 ^ n")
  case True
  then have "unat (pix n p s + pix n p d) = unat (pix n p s) + unat (pix n p d)"
    using power_increasing [OF assms, of "2 :: nat"] by (simp add: unat_word_ariths)
  then show ?thesis using True by (simp add: saturated_def)
next
  case False
  then show ?thesis using unat_mask [OF assms] by (simp add: saturated_def)
qed

lemma unat_pix_not:
  assumes "p + n \<le> 32"
  shows "unat (pix n p (NOT w)) = 2 ^ n - 1 - unat (pix n p w)"
proof -
  have "pix n p w + pix n p (NOT w) = pix n p w OR pix n p (NOT w)"
    by (rule disjunctive_add_eq_or) (rule bit_word_eqI, auto simp: bit_and_iff bit_not_iff)
  also have "\<dots> = mask n"
    by (rule bit_word_eqI) (use assms in \<open>auto simp: bit_or_iff bit_mask_iff bit_not_iff\<close>)
  finally have "pix n p (NOT w) = mask n - pix n p w" by (simp add: algebra_simps)
  moreover have "unat (pix n p w) \<le> unat (mask n :: 32 word)" using unat_pix_less [of n p w] assms by (simp add: unat_mask)
  ultimately show ?thesis using assms by (simp add: unat_sub word_le_nat_alt unat_mask)
qed

lemma unat_scaled:
  assumes "n \<in> {5, 8}"
  shows "unat (scaled n (pix n p s) (pix n p d)) = ((unat (pix n p s) + 1) * (unat (pix n p d) + 1) - 1) div 2 ^ n"
proof -
  have lt: "unat (pix n p s) < 2 ^ n" "unat (pix n p d) < 2 ^ n" by (rule unat_pix_less)+
  have n: "(2 :: nat) ^ n \<le> 256" using assms by auto
  have v: "unat (pix n p s + 1) = unat (pix n p s) + 1" "unat (pix n p d + 1) = unat (pix n p d) + 1"
    using lt n by (simp_all add: unat_word_ariths)
  have "(unat (pix n p s) + 1) * (unat (pix n p d) + 1) \<le> 256 * 256" by (rule mult_le_mono) (use lt n in simp_all)
  then have m: "unat ((pix n p s + 1) * (pix n p d + 1)) = (unat (pix n p s) + 1) * (unat (pix n p d) + 1)"
    unfolding unat_word_ariths(2) v by simp
  then have le: "1 \<le> (pix n p s + 1) * (pix n p d + 1)" by (simp add: word_le_nat_alt)
  show ?thesis
    by (simp only: scaled_def unat_drop_bit_eq unat_sub [OF le] m) (simp add: drop_bit_eq_div)
qed

text \<open>
  C13: the color rules work channel by channel, where a channel is a pixel of up to 8 bits, 5 bits of a pixel of 16 or a byte of
  one of 32: sums that saturate, distances, maxima, minima, minima with the inverted source, and from 8 bits on
  products scaled back to the channel. No carry, borrow or overflow leaves a channel.
\<close>
theorem color_rules_act_on_channels:
  assumes "depth_ok e" "p \<in> channels (envDepth e)"
  defines "n \<equiv> channel_bits (envDepth e)"
  shows "unat (pix n p (rgbAddwith e s d)) = min (unat (pix n p s) + unat (pix n p d)) (2 ^ n - 1) \<and>
    unat (pix n p (rgbSubwith e s d)) = max (unat (pix n p s)) (unat (pix n p d)) - min (unat (pix n p s)) (unat (pix n p d)) \<and>
    unat (pix n p (rgbMaxwith e s d)) = max (unat (pix n p s)) (unat (pix n p d)) \<and>
    unat (pix n p (rgbMinwith e s d)) = min (unat (pix n p s)) (unat (pix n p d)) \<and>
    unat (pix n p (rgbMinInvertwith e s d)) = min (2 ^ n - 1 - unat (pix n p s)) (unat (pix n p d)) \<and>
    (8 \<le> envDepth e \<longrightarrow> unat (pix n p (rgbMulwith e s d)) = ((unat (pix n p s) + 1) * (unat (pix n p d) + 1) - 1) div 2 ^ n)"
proof -
  have d: "envDepth e \<in> {1, 2, 4, 8, 16, 32}" using assms(1) by (simp add: depth_ok_def)
  have n: "p + n \<le> 32" unfolding n_def by (rule channels_apart(1) [OF d assms(2)])
  have ch: "pix n p (m e s d) = g (pix n p s) (pix n p d)" if "channelwise m e g" for m g s d
    using that assms(2) by (simp add: channelwise_def n_def)
  have c: "pix n p (by_channel f e s d) = g n (pix n p s) (pix n p d)" if "acts_on_channels e f g" for f g s d
    using ch [OF by_channel_channelwise [OF assms(1) that]] unfolding n_def .
  have a: "pix n p (rgbAddwith e s d) = saturated n (pix n p s) (pix n p d)"
    using ch [OF rgbAdd_channelwise [OF assms(1)]] unfolding n_def .
  have m: "unat (pix n p (rgbMulwith e s d)) = ((unat (pix n p s) + 1) * (unat (pix n p d) + 1) - 1) div 2 ^ n" if "8 \<le> envDepth e"
  proof -
    have "n \<in> {5, 8}" using that d by (auto simp: n_def channel_bits_def)
    then show ?thesis unfolding rgbMulwith_def c [OF mul_channels [OF assms(1) that]] by (rule unat_scaled)
  qed
  show ?thesis
    unfolding a rgbSubwith_def rgbMaxwith_def rgbMinwith_def rgbMinInvertwith_def
      c [OF sub_channels [OF assms(1)]] c [OF max_channels [OF assms(1)]] c [OF min_channels [OF assms(1)]]
      unat_max unat_min unat_distance unat_pix_not [OF n]
    using m n unat_saturated [of n p s d] by simp
qed

theorem color_rules_act_on_channels_witness:
  "unat (pix 5 21 (rgbAddwith \<lparr>envDepth = 16, envPPW = 2, envMask = - 1, envAlpha = 0\<rparr> 0x03E00000 0x00400000)) = 31 \<and>
   unat (pix 5 21 (rgbSubwith \<lparr>envDepth = 16, envPPW = 2, envMask = - 1, envAlpha = 0\<rparr> 0x00400000 0x03E00000)) = 29"
proof -
  let ?e = "\<lparr>envDepth = 16, envPPW = 2, envMask = - 1, envAlpha = 0\<rparr>"
  have "depth_ok ?e" "21 \<in> channels (envDepth ?e)" "channel_bits (envDepth ?e) = 5"
    by (simp_all add: depth_ok_def channels_def channel_bits_def)
  moreover have "unat (pix 5 21 0x03E00000) = 31" "unat (pix 5 21 0x00400000) = 2" by (simp_all add: unat_pix)
  ultimately show ?thesis
    using color_rules_act_on_channels [of ?e 21 "0x03E00000" "0x00400000"] color_rules_act_on_channels [of ?e 21 "0x00400000" "0x03E00000"]
    by simp
qed

end
