(* ===== verification/BltPixels.thy ===== *)
theory BltPixels
  imports BltChannels
begin

text \<open>
  The rules draw pixel by pixel: each pixel of the result is what the rule makes of that pixel of the source and of the
  destination alone.
\<close>

subsection \<open>Every rule draws pixel by pixel\<close>

lemma bitwise_pixelwise:
  assumes "\<And>e' s d t. t < 32 \<Longrightarrow> bit (m e' s d) t \<longleftrightarrow> b (bit s t) (bit d t)"
  shows "pixelwise m e"
  unfolding pixelwise_def
  by (intro allI impI bit_word_eqI) (auto simp: assms)

lemma mask_free_pixelwise:
  assumes "\<And>M s d. m (e\<lparr>envMask := M\<rparr>) s d = m e s d"
    and "\<And>p s d. envDepth e dvd p \<Longrightarrow> p + envDepth e \<le> 32 \<Longrightarrow>
      pix (envDepth e) p (m e s d) = g (pix (envDepth e) p s) (pix (envDepth e) p d)"
  shows "pixelwise m e"
proof (rule pixelwiseI [OF assms(1)])
  fix p s d
  assume p: "envDepth e dvd p" "p + envDepth e \<le> 32"
  then have "0 + envDepth e \<le> 32" "envDepth e dvd 0" by simp_all
  from assms(2) [OF this(2,1)] assms(2) [OF p]
  show "pix (envDepth e) p (m e s d) = pix (envDepth e) 0 (m e (pix (envDepth e) p s) (pix (envDepth e) p d))"
    by simp
qed

lemma maskAND_at:
  assumes e: "depth_ok e" and p: "envDepth e dvd p" "p + envDepth e \<le> 32"
  shows "pix (envDepth e) p (partitionedAND (NOT s) d (envDepth e) (envPPW e))
    = (if pix (envDepth e) p s = 0 then pix (envDepth e) p d else 0)"
proof -
  have "pix (envDepth e) p (NOT s) = mask (envDepth e) \<longleftrightarrow> pix (envDepth e) p s = 0"
  proof -
    have "unat (pix (envDepth e) p (NOT s)) = unat (mask (envDepth e) :: 32 word) \<longleftrightarrow> unat (pix (envDepth e) p s) = 0"
      using unat_pix_not [OF p(2), of s] unat_mask [of "envDepth e"] p(2) unat_pix_less [of "envDepth e" p s] by auto
    then show ?thesis by (simp add: word_unat_eq_iff)
  qed
  moreover have "fields (envDepth e) (envPPW e) partitionedAND (\<lambda>a b. if a = mask (envDepth e) then b else 0)"
    by (rule and_fields [OF depth_member(1) [OF e]]) (simp add: depth_member(2) [OF e])
  ultimately show ?thesis using fields_at [OF e _ p] by simp
qed

lemma pixMask_pixelwise: "depth_ok e \<Longrightarrow> pixelwise pixMaskwith e"
  by (rule mask_free_pixelwise) (simp add: pixMaskwith_def, simp only: pixMaskwith_def maskAND_at)

lemma pixPaint_pixelwise:
  assumes e: "depth_ok e"
  shows "pixelwise pixPaintwith e"
proof (rule mask_free_pixelwise)
  show "pixPaintwith (e\<lparr>envMask := M\<rparr>) s d = pixPaintwith e s d" for M s d by (simp add: pixPaintwith_def)
  fix p s d
  assume p: "envDepth e dvd p" "p + envDepth e \<le> 32"
  show "pix (envDepth e) p (pixPaintwith e s d)
      = (if pix (envDepth e) p s = 0 then pix (envDepth e) p d else pix (envDepth e) p s)"
    using maskAND_at [OF e p] by (simp add: pixPaintwith_def pix_bits)
qed

lemma pixClear_pixelwise:
  assumes e: "depth_ok e"
  shows "pixelwise pixClearwith e"
proof (cases "envDepth e = 32")
  case False
  have f: "fields (envDepth e) (envPPW e)
      (\<lambda>s d n k. partitions (\<lambda>m. let pv = d AND m in if s AND m = pv then 0 else pv) n k (maskTable n) 0) (\<lambda>a b. if a = b then 0 else b)"
    by (rule clear_fields [OF depth_member(1) [OF e]]) (simp add: depth_member(2) [OF e])
  show ?thesis
    by (rule mask_free_pixelwise) (simp add: pixClearwith_def, simp only: pixClearwith_def False if_False fields_at [OF e f])
qed (simp add: pixelwise_32 pixClearwith_def)

lemma fixAlpha_pixelwise: "pixelwise fixAlphawith e"
  by (cases "envDepth e = 32") (auto simp: fixAlphawith_def intro: pixelwise_32 mask_free_pixelwise [where g = "\<lambda>a b. b"])

lemma pixelwiseD:
  assumes "pixelwise m e" "\<And>M. m (e\<lparr>envMask := M\<rparr>) = m e" "envDepth e dvd p" "p + envDepth e \<le> 32"
  shows "pix (envDepth e) p (m e s d) = pix (envDepth e) 0 (m e (pix (envDepth e) p s) (pix (envDepth e) p d))"
proof -
  have "pix (envDepth e) p (- 1) = mask (envDepth e)"
    by (rule bit_word_eqI) (use assms(4) in \<open>auto simp: bit_mask_iff\<close>)
  with assms(1,3,4) show ?thesis unfolding pixelwise_def assms(2) by blast
qed

lemma minInvert_pixelwise:
  assumes e: "depth_ok e"
  shows "pixelwise rgbMinInvertwith e"
proof (rule pixelwiseI)
  show "rgbMinInvertwith (e\<lparr>envMask := M\<rparr>) s d = rgbMinInvertwith e s d" for M s d
    by (simp add: rgbMinInvertwith_def by_channel_def)
  fix p s d
  assume p: "envDepth e dvd p" "p + envDepth e \<le> 32"
  note at = pixelwiseD [OF by_channel_pixelwise [OF e min_channels [OF e]] by_channel_env]
  have "pix (envDepth e) p (NOT s) = pix (envDepth e) 0 (NOT (pix (envDepth e) p s))"
    by (rule bit_word_eqI) (use p in \<open>auto simp: bit_not_iff\<close>)
  then show "pix (envDepth e) p (rgbMinInvertwith e s d) = pix (envDepth e) 0 (rgbMinInvertwith e (pix (envDepth e) p s) (pix (envDepth e) p d))"
    using at [OF p, of "NOT s" d] at [of 0 "NOT (pix (envDepth e) p s)" "pix (envDepth e) p d"] p
    by (simp add: rgbMinInvertwith_def)
qed

subsubsection \<open>A constant alpha\<close>

lemma blend_channels_bits: "bit (blend_channels 3 0 a b alpha unAlpha 0) t \<Longrightarrow> t < 15"
proof -
  have low: "t < k + 5" if "bit (push_bit k (x AND 0x1F :: 32 word)) t" for x k
  proof -
    have "(0x1F :: 32 word) = mask 5" by (simp add: mask_eq_exp_minus_1)
    then show ?thesis using that by (simp only: bit_push_bit_iff bit_and_iff bit_mask_iff) linarith
  qed
  assume "bit (blend_channels 3 0 a b alpha unAlpha 0) t"
  then have "t < 0 * 5 + 5 \<or> t < (0 + 1) * 5 + 5 \<or> t < (0 + 1 + 1) * 5 + 5"
    unfolding numeral_3_eq_3 blend_channels.simps Let_def bit_or_iff by (elim disjE) ((drule low, blast) | simp)+
  then show "t < 15" by auto
qed

lemma blend_two:
  assumes "depth_ok e" "envDepth e = 16"
  defines "B \<equiv> \<lambda>a b. blend_channels 3 0 a b (envAlpha e) (0xFF - envAlpha e) 0"
  shows "pix 16 0 (alphaBlendConst_paintMode paintMode (e\<lparr>envMask := M\<rparr>) s d)
      = (if pix 16 0 M = 0 \<or> paintMode \<and> pix 16 0 s = 0 then pix 16 0 d else B (pix 16 0 s) (pix 16 0 d))"
    "pix 16 16 (alphaBlendConst_paintMode paintMode (e\<lparr>envMask := M\<rparr>) s d)
      = (if pix 16 16 M = 0 \<or> paintMode \<and> pix 16 16 s = 0 then pix 16 16 d else B (pix 16 16 s) (pix 16 16 d))"
proof -
  have ppw: "envPPW e = 2" using assms(1,2) by (simp add: depth_ok_def)
  have m: "maskTable 16 = mask 16" by (rule maskTable_mask) simp
  have c: "w AND mask 16 = pix 16 0 w" "drop_bit 16 w AND mask 16 = pix 16 16 w" for w :: "32 word"
    by (simp_all add: pix_def take_bit_eq_mask)
  have c': "pix 16 0 (drop_bit 16 w) = pix 16 16 w" for w :: "32 word" by (simp add: pix_def)
  define r where "r = (if pix 16 0 M = 0 \<or> paintMode \<and> pix 16 0 s = 0 then d
    else (d AND NOT (mask 16)) OR B (pix 16 0 s) (pix 16 0 d))"
  have e: "alphaBlendConst_paintMode paintMode (e\<lparr>envMask := M\<rparr>) s d
      = (if pix 16 16 M = 0 \<or> paintMode \<and> pix 16 16 s = 0 then r
         else (r AND NOT (push_bit 16 (mask 16))) OR push_bit 16 (B (pix 16 16 s) (pix 16 16 d)))"
    unfolding r_def by (simp add: alphaBlendConst_paintMode_def assms(2) ppw numeral_2_eq_2 Let_def m c c' B_def)
  have Bb: "bit (B a b) t \<Longrightarrow> t < 15" for a b t unfolding B_def by (rule blend_channels_bits)
  have r0: "pix 16 0 r = (if pix 16 0 M = 0 \<or> paintMode \<and> pix 16 0 s = 0 then pix 16 0 d else B (pix 16 0 s) (pix 16 0 d))"
    unfolding r_def by (rule bit_word_eqI) (auto simp: bit_or_iff bit_and_iff bit_not_iff bit_mask_iff dest: Bb)
  have r1: "pix 16 16 r = pix 16 16 d"
    unfolding r_def by (rule bit_word_eqI) (auto simp: bit_or_iff bit_and_iff bit_not_iff bit_mask_iff dest: Bb)
  have "pix 16 0 (alphaBlendConst_paintMode paintMode (e\<lparr>envMask := M\<rparr>) s d) = pix 16 0 r"
    unfolding e by (rule bit_word_eqI) (auto simp: bit_or_iff bit_and_iff bit_not_iff bit_push_bit_iff bit_mask_iff)
  then show "pix 16 0 (alphaBlendConst_paintMode paintMode (e\<lparr>envMask := M\<rparr>) s d)
      = (if pix 16 0 M = 0 \<or> paintMode \<and> pix 16 0 s = 0 then pix 16 0 d else B (pix 16 0 s) (pix 16 0 d))"
    unfolding r0 .
  have "pix 16 16 (alphaBlendConst_paintMode paintMode (e\<lparr>envMask := M\<rparr>) s d)
      = (if pix 16 16 M = 0 \<or> paintMode \<and> pix 16 16 s = 0 then pix 16 16 r else B (pix 16 16 s) (pix 16 16 d))"
    unfolding e by (rule bit_word_eqI) (auto simp: bit_or_iff bit_and_iff bit_not_iff bit_push_bit_iff bit_mask_iff dest: Bb)
  then show "pix 16 16 (alphaBlendConst_paintMode paintMode (e\<lparr>envMask := M\<rparr>) s d)
      = (if pix 16 16 M = 0 \<or> paintMode \<and> pix 16 16 s = 0 then pix 16 16 d else B (pix 16 16 s) (pix 16 16 d))"
    unfolding r1 .
qed

lemma blendConst_at:
  assumes e: "depth_ok e" "envDepth e = 16" and p: "16 dvd p" "p + 16 \<le> 32" "pix 16 p M = mask 16"
  shows "pix 16 p (alphaBlendConst_paintMode paintMode (e\<lparr>envMask := M\<rparr>) s d)
    = pix 16 0 (alphaBlendConst_paintMode paintMode (e\<lparr>envMask := - 1\<rparr>) (pix 16 p s) (pix 16 p d))"
    "pix 16 p s = 0 \<Longrightarrow> paintMode \<Longrightarrow> pix 16 p (alphaBlendConst_paintMode paintMode (e\<lparr>envMask := M\<rparr>) s d) = pix 16 p d"
proof -
  have c: "p = 0 \<or> p = 16" using p(1,2) by auto
  have nz: "mask 16 \<noteq> (0 :: 32 word)" "pix 16 0 (- 1) = mask 16" by (simp_all add: pix_def mask_eq_exp_minus_1)
  from c show "pix 16 p (alphaBlendConst_paintMode paintMode (e\<lparr>envMask := M\<rparr>) s d)
      = pix 16 0 (alphaBlendConst_paintMode paintMode (e\<lparr>envMask := - 1\<rparr>) (pix 16 p s) (pix 16 p d))"
    "pix 16 p s = 0 \<Longrightarrow> paintMode \<Longrightarrow> pix 16 p (alphaBlendConst_paintMode paintMode (e\<lparr>envMask := M\<rparr>) s d) = pix 16 p d"
    using p(3) nz by (auto simp: blend_two [OF e])
qed

lemma alphaBlendConst_pixelwise:
  assumes e: "depth_ok e"
  shows "pixelwise (alphaBlendConst_paintMode paintMode) e"
  using e
proof (cases rule: depth_cases)
  case 1
  have "envDepth e < 16" using 1(1) by auto
  then show ?thesis by (intro mask_free_pixelwise [where g = "\<lambda>a b. b"]) (simp_all add: alphaBlendConst_paintMode_def)
next
  case 2
  then show ?thesis unfolding pixelwise_def 2(1) using blendConst_at(1) [OF e 2(1)] by blast
next
  case 3
  then show ?thesis by (intro pixelwise_32) (simp_all add: alphaBlendConst_paintMode_def Let_def)
qed

lemma alphaPaintConst_pixelwise:
  assumes e: "depth_ok e"
  shows "pixelwise alphaPaintConstwith e"
  using e
proof (cases rule: depth_cases)
  case 1
  have "envDepth e < 16" using 1(1) by auto
  then show ?thesis
    by (intro mask_free_pixelwise [where g = "\<lambda>a b. b"]) (simp_all add: alphaPaintConstwith_def alphaBlendConst_paintMode_def)
next
  case 2
  show ?thesis
    unfolding pixelwise_def 2(1)
  proof (intro allI impI)
    fix M s d :: "32 word" and p :: nat
    assume p: "16 dvd p" "p + 16 \<le> 32" "pix 16 p M = mask 16"
    note at = blendConst_at [OF e 2(1) p]
    have l: "pix 16 p (alphaPaintConstwith (e\<lparr>envMask := M\<rparr>) s d)
        = pix 16 p (alphaBlendConst_paintMode True (e\<lparr>envMask := M\<rparr>) s d)"
      using at(2) [of s True d] by (cases "s = 0") (simp_all add: alphaPaintConstwith_def)
    show "pix 16 p (alphaPaintConstwith (e\<lparr>envMask := M\<rparr>) s d)
        = pix 16 0 (alphaPaintConstwith (e\<lparr>envMask := - 1\<rparr>) (pix 16 p s) (pix 16 p d))"
    proof (cases "pix 16 p s = 0")
      case True
      then show ?thesis using l at(2) [of s True d] by (simp add: alphaPaintConstwith_def)
    next
      case False
      then show ?thesis using l at(1) [of True s d] by (simp add: alphaPaintConstwith_def)
    qed
  qed
next
  case 3
  then show ?thesis by (intro pixelwise_32) (simp_all add: alphaPaintConstwith_def alphaBlendConst_paintMode_def Let_def)
qed

lemma bitwise_rules:
  assumes "combinationRule < 18" "opTable combinationRule = Some m"
  shows "pixelwise m e"
proof (cases "combinationRule < 15")
  case True
  then show ?thesis
    by (intro bitwise_pixelwise [where b = "\<lambda>x y. bit combinationRule ((if x then 0 else 2) + (if y then 0 else 1))"])
      (rule boolean_rule_bits [OF _ assms(2)])
next
  case False
  then have "combinationRule = 15 \<or> combinationRule = 16 \<or> combinationRule = 17" using assms(1) by auto
  then have "m = destinationWordwith" using assms(2) by (auto simp: opTable_def Let_def)
  then show ?thesis by (intro bitwise_pixelwise [where b = "\<lambda>x y. y"]) (simp add: destinationWordwith_def)
qed

lemma opTable_cases:
  assumes "opTable combinationRule = Some m"
  obtains "combinationRule < 18"
    | "combinationRule = 18" "m = addWordwith" | "combinationRule = 19" "m = subWordwith"
    | "combinationRule = 20" "m = rgbAddwith" | "combinationRule = 21" "m = rgbSubwith"
    | "combinationRule = 24" "m = alphaBlendwith" | "combinationRule = 25" "m = pixPaintwith"
    | "combinationRule = 26" "m = pixMaskwith" | "combinationRule = 27" "m = rgbMaxwith" | "combinationRule = 28" "m = rgbMinwith"
    | "combinationRule = 29" "m = rgbMinInvertwith" | "combinationRule = 30" "m = alphaBlendConstwith"
    | "combinationRule = 31" "m = alphaPaintConstwith" | "combinationRule \<in> {34, 35, 36}" "m = alphaBlendScaledwith"
    | "combinationRule = 37" "m = rgbMulwith" | "combinationRule = 38" "m = pixSwapwith" | "combinationRule = 39" "m = pixClearwith"
    | "combinationRule = 40" "m = fixAlphawith"
proof -
  note cs = that
  consider "combinationRule < 18" | "combinationRule \<in> {18, 19, 20, 21}" | "22 \<le> combinationRule" by fastforce
  then show thesis
  proof cases
    case 1
    then show thesis by (rule cs(1))
  next
    case 2
    then show thesis using assms cs(2-5) by (auto simp: opTable_def Let_def)
  next
    case 3
    have few: "combinationRule \<in> {34, 35, 36}" if "34 \<le> combinationRule" "combinationRule \<le> 36" using that by auto
    show thesis using 3 assms cs(6-) few by (simp add: opTable_def Let_def split: if_splits)
  qed
qed

text \<open>
  C6: the rules draw pixel by pixel: in every depth each pixel of the result is what the rule makes of that
  pixel of the source and that pixel of the destination alone, for all rules but those that add and subtract
  whole words (18, 19), swap pixels (38), blend pixels of 32 bits (24, 34 to 36) in other depths, and multiply (37) in depths below 8.
\<close>
theorem rules_draw_pixelwise:
  assumes "depth_ok e" "opTable combinationRule = Some m"
    and "envDepth e = 32 \<or> combinationRule \<notin> {18, 19, 24, 34, 35, 36, 37, 38} \<or> combinationRule = 37 \<and> 8 \<le> envDepth e"
  shows "pixelwise m e"
proof (cases "envDepth e = 32")
  case True
  then have "envPPW e = 1" using assms(1) by (simp add: depth_ok_def)
  from assms(2) have "m (e\<lparr>envMask := M\<rparr>) s d = m e s d" for M s d
  proof (cases rule: opTable_cases)
    case 1
    then show ?thesis
    proof (cases "combinationRule < 15")
      case b: True
      show ?thesis by (rule bit_word_eqI) (simp add: boolean_rule_bits [OF b assms(2)])
    next
      case False
      then have "combinationRule = 15 \<or> combinationRule = 16 \<or> combinationRule = 17" using 1 by auto
      then have "m = destinationWordwith" using assms(2) by (auto simp: opTable_def Let_def)
      then show ?thesis by (simp add: destinationWordwith_def)
    qed
  qed (use True \<open>envPPW e = 1\<close> in \<open>simp_all add: rgbAddwith_def rgbSubwith_def rgbMaxwith_def rgbMinwith_def rgbMulwith_def rgbMinInvertwith_def
      alphaBlendConstwith_def alphaPaintConstwith_def alphaBlendConst_paintMode_def addWordwith_def subWordwith_def alphaBlendwith_def
      alphaBlendScaledwith_def pixSwapwith_def by_channel_def pixPaintwith_def pixMaskwith_def pixClearwith_def fixAlphawith_def Let_def\<close>)
  then show ?thesis by (rule pixelwise_32 [OF True])
next
  case False
  note pw = rgbAdd_pixelwise [OF assms(1)] by_channel_pixelwise [OF assms(1) sub_channels [OF assms(1)]]
    by_channel_pixelwise [OF assms(1) max_channels [OF assms(1)]] by_channel_pixelwise [OF assms(1) min_channels [OF assms(1)]]
    minInvert_pixelwise [OF assms(1)] alphaBlendConst_pixelwise [OF assms(1)] alphaPaintConst_pixelwise [OF assms(1)]
    pixPaint_pixelwise [OF assms(1)] pixMask_pixelwise [OF assms(1)] pixClear_pixelwise [OF assms(1)] fixAlpha_pixelwise
  from assms(2) show ?thesis
  proof (cases rule: opTable_cases)
    case 1
    then show ?thesis using bitwise_rules [OF _ assms(2)] by blast
  next
    case 14
    then show ?thesis using False assms(3) by auto
  next
    case 15
    then have "8 \<le> envDepth e" using assms(3) False by auto
    then show ?thesis using by_channel_pixelwise [OF assms(1) mul_channels [OF assms(1)]] 15 by (simp add: rgbMulwith_def)
  qed (use False assms(3) pw in \<open>simp_all add: rgbSubwith_def rgbMaxwith_def rgbMinwith_def alphaBlendConstwith_def\<close>)
qed

theorem rules_draw_pixelwise_witness:
  "pixelwise rgbMulwith \<lparr>envDepth = 16, envPPW = 2, envMask = 0xFFFF, envAlpha = 0\<rparr>"
  by (rule rules_draw_pixelwise [of _ 37]) (simp_all add: depth_ok_def opTable_def Let_def)

end
