(* ===== verification/BltBlend.thy ===== *)
theory BltBlend
  imports BltChannels
begin

text \<open>
  The rules that blend pixels of 32 bits: two channels share the halves of a word, the division by 255 is a sum and two
  shifts, and the carries of the scaled blend are spread over their channels. What comes out is the weighted sum of the channels.
\<close>

subsection \<open>Blending\<close>

lemma halves_mask: "16711935 = (mask 8 OR push_bit 16 (mask 8) :: 32 word)"
  by (simp add: mask_eq_exp_minus_1)

lemma bit_halves: "bit (w AND 16711935 :: 32 word) t \<longleftrightarrow> bit w t \<and> (t < 8 \<or> 16 \<le> t \<and> t < 24)"
  unfolding halves_mask by (auto simp: bit_and_iff bit_or_iff bit_push_bit_iff bit_mask_iff)

lemma and_halves: "unat (w AND 16711935) = unat (pix 8 0 w) + 65536 * unat (pix 8 16 w)"
proof -
  have "w AND 16711935 = pix 8 0 w OR push_bit 16 (pix 8 16 w)"
    by (rule bit_word_eqI) (auto simp: bit_halves bit_or_iff bit_push_bit_iff)
  also have "\<dots> = pix 8 0 w + push_bit 16 (pix 8 16 w)"
    by (rule disjunctive_add_eq_or [symmetric]) (rule bit_word_eqI, auto simp: bit_and_iff bit_push_bit_iff)
  finally have e: "w AND 16711935 = pix 8 0 w + push_bit 16 (pix 8 16 w)" .
  have p: "unat (push_bit 16 (pix 8 16 w)) = unat (pix 8 16 w) * 65536" using unat_push_pix [of 16 8 w] by simp
  show ?thesis
    unfolding e unat_word_ariths(1) p using unat_pix_less [of 8 0 w] unat_pix_less [of 8 16 w] by simp
qed

lemma pix_halves:
  assumes "unat w = a + 65536 * b" "a < 65536" "b < 65536"
  shows "unat (pix 8 8 w) = a div 256" "unat (pix 8 24 w) = b div 256"
proof -
  have "(a + 65536 * b) div 256 = a div 256 + 256 * b" by simp
  then have "(a + 65536 * b) div 256 mod 256 = a div 256" using assms(2) by (simp add: less_mult_imp_div_less)
  then show "unat (pix 8 8 w) = a div 256" by (simp add: unat_pix assms(1))
  have "(a + 65536 * b) div 65536 div 256 = b div 256" using assms(2) by simp
  then have "(a + 65536 * b) div 16777216 = b div 256" by (simp only: div_mult2_eq [symmetric]) simp
  then show "unat (pix 8 24 w) = b div 256" using assms(3) by (simp add: unat_pix assms(1) less_mult_imp_div_less)
qed

text \<open>The quotient of a sum of channels by 255, rounded up.\<close>

definition ceil_255 :: "nat \<Rightarrow> nat" where
  "ceil_255 v = (v + 254) div 255"

lemma ceil_255_shift: "v \<le> 65025 \<Longrightarrow> ((v + 255) + (v + 254) div 256) div 256 = ceil_255 v"
proof -
  assume "v \<le> 65025"
  define q r where "q = (v + 254) div 255" and "r = (v + 254) mod 255"
  have v: "v + 254 = 255 * q + r" "r < 255" "q \<le> 256" using \<open>v \<le> 65025\<close> by (auto simp: q_def r_def)
  have "(v + 254) div 256 = (if q \<le> r then q else q - 1)"
    using v by (intro div_nat_eqI) (auto split: if_splits)
  then have "((v + 255) + (v + 254) div 256) div 256 = q"
    using v by (intro div_nat_eqI) (auto split: if_splits)
  then show ?thesis by (simp add: ceil_255_def q_def)
qed

lemma div_255_val:
  assumes w: "unat w = (v0 + 255) + 65536 * (v2 + 255)" and v: "v0 \<le> 65025" "v2 \<le> 65025"
  shows "unat (pix 8 0 (div_255 w)) = ceil_255 v0" "unat (pix 8 16 (div_255 w)) = ceil_255 v2"
    "bit (div_255 w) t \<Longrightarrow> t < 8 \<or> 16 \<le> t \<and> t < 24"
proof -
  have "(65537 :: 32 word) \<le> w" unfolding word_le_nat_alt w by simp
  then have "unat (w - 65537) = unat w - unat (65537 :: 32 word)" by (rule unat_sub)
  then have d: "unat (w - 65537) = (v0 + 254) + 65536 * (v2 + 254)" unfolding w by simp
  have s: "pix 8 0 (drop_bit 8 u) = pix 8 8 u" "pix 8 16 (drop_bit 8 u) = pix 8 24 u" for u :: "32 word"
    by (rule bit_word_eqI, auto simp: bit_drop_bit_eq)+
  define c where "c = drop_bit 8 (w - 65537) AND 16711935"
  have c: "unat c = (v0 + 254) div 256 + 65536 * ((v2 + 254) div 256)"
    unfolding c_def and_halves s using pix_halves [OF d] v by simp
  have "(v0 + 254) div 256 \<le> 254" "(v2 + 254) div 256 \<le> 254" using v by auto
  then have wc: "unat (w + c) = (v0 + 255 + (v0 + 254) div 256) + 65536 * (v2 + 255 + (v2 + 254) div 256)"
    using v unfolding unat_word_ariths(1) w c by simp
  have e: "div_255 w = drop_bit 8 (w + c) AND 16711935" by (simp add: div_255_def c_def)
  have m: "pix 8 0 (u AND 16711935) = pix 8 0 u" "pix 8 16 (u AND 16711935) = pix 8 16 u" for u :: "32 word"
    by (rule bit_word_eqI, auto simp: bit_halves)+
  have lt: "v0 + 255 + (v0 + 254) div 256 < 65536" "v2 + 255 + (v2 + 254) div 256 < 65536"
    using v \<open>(v0 + 254) div 256 \<le> 254\<close> \<open>(v2 + 254) div 256 \<le> 254\<close> by simp_all
  show "unat (pix 8 0 (div_255 w)) = ceil_255 v0" "unat (pix 8 16 (div_255 w)) = ceil_255 v2"
    unfolding e m s pix_halves [OF wc lt] using ceil_255_shift v by simp_all
  show "bit (div_255 w) t \<Longrightarrow> t < 8 \<or> 16 \<le> t \<and> t < 24"
    by (simp add: e bit_halves)
qed

lemma channel_le:
  assumes "unat (alpha :: 32 word) \<le> 255" "p \<le> 255" "q \<le> 255"
  shows "p * unat alpha + q * (255 - unat alpha) \<le> 65025"
proof -
  have "p * unat alpha + q * (255 - unat alpha) \<le> 255 * unat alpha + 255 * (255 - unat alpha)"
    by (rule add_mono; rule mult_le_mono1 [OF assms(2)] mult_le_mono1 [OF assms(3)])
  then show ?thesis using assms(1) by simp
qed

lemma blend_sum:
  fixes x y alpha :: "32 word"
  assumes "unat x = x0 + 65536 * x2" "unat y = y0 + 65536 * y2" "x0 \<le> 255" "x2 \<le> 255" "y0 \<le> 255" "y2 \<le> 255" "alpha \<le> 255"
  shows "unat (x * alpha + y * (255 - alpha) + 16711935) =
      (x0 * unat alpha + y0 * (255 - unat alpha) + 255) + 65536 * (x2 * unat alpha + y2 * (255 - unat alpha) + 255)"
    "x0 * unat alpha + y0 * (255 - unat alpha) \<le> 65025"
proof -
  have a: "unat alpha \<le> 255" using assms(7) by (simp add: word_le_nat_alt)
  have b: "unat (255 - alpha) = 255 - unat alpha" using unat_sub [OF assms(7)] by simp
  note le = channel_le [OF a]
  show "x0 * unat alpha + y0 * (255 - unat alpha) \<le> 65025" by (rule le [OF assms(3,5)])
  have e: "unat x * unat alpha + unat y * (255 - unat alpha) =
      (x0 * unat alpha + y0 * (255 - unat alpha)) + 65536 * (x2 * unat alpha + y2 * (255 - unat alpha))"
    unfolding assms(1,2) by (simp add: algebra_simps)
  have lt: "unat x * unat alpha + unat y * (255 - unat alpha) + 16711935 < 2 ^ 32"
    unfolding e using le [OF assms(3,5)] le [OF assms(4,6)] by simp
  have "unat (x * alpha) = unat x * unat alpha" "unat (y * (255 - alpha)) = unat y * (255 - unat alpha)"
    using lt unfolding unat_word_ariths(2) b by simp_all
  then have "unat (x * alpha + y * (255 - alpha) + 16711935) = unat x * unat alpha + unat y * (255 - unat alpha) + 16711935"
    using lt unfolding unat_word_ariths(1) by simp
  then show "unat (x * alpha + y * (255 - alpha) + 16711935) =
      (x0 * unat alpha + y0 * (255 - unat alpha) + 255) + 65536 * (x2 * unat alpha + y2 * (255 - unat alpha) + 255)"
    unfolding e by simp
qed

lemma pack_halves:
  fixes u v :: "32 word"
  assumes "\<forall>t. bit u t \<longrightarrow> t < 8 \<or> 16 \<le> t \<and> t < 24" "\<forall>t. bit v t \<longrightarrow> t < 8 \<or> 16 \<le> t \<and> t < 24"
  shows "pix 8 0 (u OR push_bit 8 v) = pix 8 0 u" "pix 8 16 (u OR push_bit 8 v) = pix 8 16 u"
    "pix 8 8 (u OR push_bit 8 v) = pix 8 0 v" "pix 8 24 (u OR push_bit 8 v) = pix 8 16 v"
proof -
  have h: "\<not> bit u (8 + t)" "\<not> bit u (24 + t)" "\<not> bit v (8 + t)" if "t < 8" for t
    using assms(1) [rule_format, of "8 + t"] assms(1) [rule_format, of "24 + t"] assms(2) [rule_format, of "8 + t"] that by auto
  have s: "8 + t - 8 = t" "16 + t - 8 = 8 + t" "24 + t - 8 = 16 + t" for t :: nat by simp_all
  show "pix 8 0 (u OR push_bit 8 v) = pix 8 0 u" "pix 8 16 (u OR push_bit 8 v) = pix 8 16 u"
    "pix 8 8 (u OR push_bit 8 v) = pix 8 0 v" "pix 8 24 (u OR push_bit 8 v) = pix 8 16 v"
    by (rule bit_word_eqI, use h in \<open>auto simp: bit_or_iff bit_push_bit_iff s\<close>)+
qed

lemma blend_value:
  fixes x y z w alpha :: "32 word"
  assumes "alpha \<le> 255"
    and R: "R = div_255 ((x AND 16711935) * alpha + (y AND 16711935) * (255 - alpha) + 16711935)
      OR push_bit 8 (div_255 ((z AND 16711935) * alpha + (w AND 16711935) * (255 - alpha) + 16711935))"
  shows "unat (pix 8 0 R) = (unat (pix 8 0 x) * unat alpha + unat (pix 8 0 y) * (255 - unat alpha) + 254) div 255"
    "unat (pix 8 16 R) = (unat (pix 8 16 x) * unat alpha + unat (pix 8 16 y) * (255 - unat alpha) + 254) div 255"
    "unat (pix 8 8 R) = (unat (pix 8 0 z) * unat alpha + unat (pix 8 0 w) * (255 - unat alpha) + 254) div 255"
    "unat (pix 8 24 R) = (unat (pix 8 16 z) * unat alpha + unat (pix 8 16 w) * (255 - unat alpha) + 254) div 255"
proof -
  have le: "unat (pix 8 p v) \<le> 255" for p v using unat_pix_less [of 8 p v] by simp
  have swap: "unat (pix 8 16 u) * unat alpha + unat (pix 8 16 v) * (255 - unat alpha) \<le> 65025" for u v
    by (rule channel_le) (use le assms(1) in \<open>simp_all add: word_le_nat_alt\<close>)
  have b: "unat (pix 8 0 (div_255 ((u AND 16711935) * alpha + (v AND 16711935) * (255 - alpha) + 16711935)))
        = (unat (pix 8 0 u) * unat alpha + unat (pix 8 0 v) * (255 - unat alpha) + 254) div 255"
      "unat (pix 8 16 (div_255 ((u AND 16711935) * alpha + (v AND 16711935) * (255 - alpha) + 16711935)))
        = (unat (pix 8 16 u) * unat alpha + unat (pix 8 16 v) * (255 - unat alpha) + 254) div 255"
      "\<forall>t. bit (div_255 ((u AND 16711935) * alpha + (v AND 16711935) * (255 - alpha) + 16711935)) t \<longrightarrow> t < 8 \<or> 16 \<le> t \<and> t < 24" for u v
    using div_255_val [OF blend_sum(1,2) [OF and_halves [of u] and_halves [of v] le le le le assms(1)] swap]
    unfolding ceil_255_def by blast+
  note p = pack_halves [OF b(3) [of x y] b(3) [of z w]]
  show "unat (pix 8 0 R) = (unat (pix 8 0 x) * unat alpha + unat (pix 8 0 y) * (255 - unat alpha) + 254) div 255"
    "unat (pix 8 16 R) = (unat (pix 8 16 x) * unat alpha + unat (pix 8 16 y) * (255 - unat alpha) + 254) div 255"
    "unat (pix 8 8 R) = (unat (pix 8 0 z) * unat alpha + unat (pix 8 0 w) * (255 - unat alpha) + 254) div 255"
    "unat (pix 8 24 R) = (unat (pix 8 16 z) * unat alpha + unat (pix 8 16 w) * (255 - unat alpha) + 254) div 255"
    unfolding R p b(1,2) by (rule refl)+
qed

text \<open>The scaled blend: a product of channels over 256, a sum, and the carries spread over the channels.\<close>

lemma carries_mask: "16777472 = (push_bit 8 (mask 1) OR push_bit 24 (mask 1) :: 32 word)"
  by (simp add: mask_eq_exp_minus_1)

lemma bit_carries: "bit (w AND 16777472 :: 32 word) t \<longleftrightarrow> bit w t \<and> (t = 8 \<or> t = 24)"
  unfolding carries_mask by (simp only: bit_and_iff bit_or_iff bit_push_bit_iff bit_mask_iff) auto

lemma bit_unat_div: "bit (w :: 32 word) t \<longleftrightarrow> odd (unat w div 2 ^ t)"
  using bit_imp_le_length [of w t] by (auto simp: bit_unsigned_iff simp flip: bit_iff_odd)

lemma saturate_halves:
  fixes w :: "32 word"
  assumes w: "unat w = a + 65536 * b" "a < 512" "b < 512"
  defines "c \<equiv> (w AND 16777472) * 255"
  shows "pix 8 0 c = 0" "pix 8 16 c = 0" "unat (pix 8 0 w OR pix 8 8 c) = min 255 a" "unat (pix 8 16 w OR pix 8 24 c) = min 255 b"
proof -
  note cb = bit_carries
  have sp: "sparse 8 (w AND 16777472)" by (auto simp: sparse_def cb)
  have c: "pix 8 p c = (if p = 8 \<and> bit w 8 \<or> p = 24 \<and> bit w 24 then mask 8 else 0)" if "p \<in> {0, 8, 16, 24}" for p
  proof -
    have "pix 8 p c = (if bit (w AND 16777472) p then mask 8 else 0)"
      unfolding c_def by (rule pix_spread [OF sp]) (use that in \<open>auto simp: cb\<close>)
    then show ?thesis using that by (auto simp: cb)
  qed
  have full: "pix 8 p w OR mask 8 = mask 8" "unat (mask 8 :: 32 word) = 255" for p
    by (rule bit_word_eqI, auto simp: bit_or_iff bit_mask_iff) (simp add: unat_mask)
  have b8: "bit w 8 \<longleftrightarrow> 256 \<le> a"
  proof -
    have "bit w 8 \<longleftrightarrow> odd (unat w div 2 ^ 8)" by (rule bit_unat_div)
    also have "unat w div 2 ^ 8 = a div 256 + 256 * b" unfolding w(1) by simp
    also have "odd \<dots> \<longleftrightarrow> 256 \<le> a"
    proof (cases "256 \<le> a")
      case True
      then have "a div 256 = 1" using w(2) by (intro div_nat_eqI) simp_all
      then show ?thesis using True by simp
    qed simp
    finally show ?thesis .
  qed
  have b24: "bit w 24 \<longleftrightarrow> 256 \<le> b"
  proof -
    have "bit w 24 \<longleftrightarrow> odd (unat w div 2 ^ 24)" by (rule bit_unat_div)
    also have "unat w div 2 ^ 24 = unat w div 65536 div 256" by (simp only: div_mult2_eq [symmetric]) simp
    also have "\<dots> = b div 256" unfolding w(1) using w(2) by simp
    also have "odd \<dots> \<longleftrightarrow> 256 \<le> b"
    proof (cases "256 \<le> b")
      case True
      then have "b div 256 = 1" using w(3) by (intro div_nat_eqI) simp_all
      then show ?thesis using True by simp
    qed simp
    finally show ?thesis .
  qed
  have "unat (pix 8 0 w) = (a + 256 * (256 * b)) mod 256" unfolding unat_pix w(1) by (simp add: mult.assoc)
  then have l: "unat (pix 8 0 w) = a mod 256" by (simp only: mod_mult_self2)
  have h: "unat (pix 8 16 w) = b mod 256" unfolding unat_pix w(1) using w(2) by simp
  show "pix 8 0 c = 0" "pix 8 16 c = 0" using c [of 0] c [of 16] by simp_all
  show "unat (pix 8 0 w OR pix 8 8 c) = min 255 a"
    using c [of 8] b8 full l by (cases "256 \<le> a") simp_all
  show "unat (pix 8 16 w OR pix 8 24 c) = min 255 b"
    using c [of 24] b24 full h by (cases "256 \<le> b") simp_all
qed

lemma alpha_channel: "pix 8 24 s = drop_bit 24 s"
proof -
  have "n < 8" if "bit s (24 + n)" for n using bit_imp_le_length [OF that] by simp
  then show ?thesis by (intro bit_word_eqI) (auto simp: bit_drop_bit_eq)
qed

lemma alpha_le: "unat (drop_bit 24 (s :: 32 word)) \<le> 255"
  using unat_pix_less [of 8 24 s] unfolding alpha_channel by simp

lemma scaled_sum:
  fixes s d :: "32 word"
  assumes "un \<le> 255"
  shows "unat ((drop_bit 8 ((d AND 16711935) * un) AND 16711935) + (s AND 16711935)) =
      (unat (pix 8 0 s) + (unat (pix 8 0 d) * unat un) div 256) + 65536 * (unat (pix 8 16 s) + (unat (pix 8 16 d) * unat un) div 256)"
    "unat (pix 8 p s) + (unat (pix 8 p d) * unat un) div 256 < 512"
proof -
  have un: "unat un \<le> 255" using assms by (simp add: word_le_nat_alt)
  have lt: "unat (pix 8 p v) < 256" for p v using unat_pix_less [of 8 p v] by simp
  have le: "unat (pix 8 p d) * unat un \<le> 65025" for p using mult_le_mono [of "unat (pix 8 p d)" 255 "unat un" 255] lt [of p d] un by simp
  have q: "(unat (pix 8 p d) * unat un) div 256 \<le> 254" for p using div_le_mono [OF le [of p], of 256] by simp
  show "unat (pix 8 p s) + (unat (pix 8 p d) * unat un) div 256 < 512" using lt [of p s] q [of p] by simp
  have e: "unat (d AND 16711935) * unat un = unat (pix 8 0 d) * unat un + 65536 * (unat (pix 8 16 d) * unat un)"
    unfolding and_halves by (simp add: algebra_simps)
  have m: "unat ((d AND 16711935) * un) = unat (pix 8 0 d) * unat un + 65536 * (unat (pix 8 16 d) * unat un)"
    unfolding unat_word_ariths(2) e using le [of 0] le [of 16] by simp
  have s: "pix 8 0 (drop_bit 8 u) = pix 8 8 u" "pix 8 16 (drop_bit 8 u) = pix 8 24 u" for u :: "32 word"
    by (rule bit_word_eqI, auto simp: bit_drop_bit_eq)+
  have h: "unat (drop_bit 8 ((d AND 16711935) * un) AND 16711935)
      = (unat (pix 8 0 d) * unat un) div 256 + 65536 * ((unat (pix 8 16 d) * unat un) div 256)"
    unfolding and_halves s using pix_halves [OF m] le [of 0] le [of 16] by simp
  show "unat ((drop_bit 8 ((d AND 16711935) * un) AND 16711935) + (s AND 16711935)) =
      (unat (pix 8 0 s) + (unat (pix 8 0 d) * unat un) div 256) + 65536 * (unat (pix 8 16 s) + (unat (pix 8 16 d) * unat un) div 256)"
    unfolding unat_word_ariths(1) h unfolding and_halves using q [of 0] q [of 16] lt [of 0 s] lt [of 16 s] by simp
qed

lemma pix_shifted:
  "pix 8 0 (drop_bit 8 u) = pix 8 8 u" "pix 8 8 (drop_bit 8 u) = pix 8 16 u" "pix 8 16 (drop_bit 8 u) = pix 8 24 u" "pix 8 24 (drop_bit 8 u) = 0"
  "pix 8 0 (push_bit 8 u) = 0" "pix 8 8 (push_bit 8 u) = pix 8 0 u" "pix 8 16 (push_bit 8 u) = pix 8 8 u" "pix 8 24 (push_bit 8 u) = pix 8 16 u"
  "pix 8 0 (u AND 16711935) = pix 8 0 u" "pix 8 8 (u AND 16711935) = 0" "pix 8 16 (u AND 16711935) = pix 8 16 u" "pix 8 24 (u AND 16711935) = 0"
  by (rule bit_word_eqI, use bit_imp_le_length [where w = u] in \<open>auto simp: bit_drop_bit_eq bit_push_bit_iff bit_halves\<close>)+

lemma scaled_value:
  fixes s d :: "32 word"
  defines "un \<equiv> 255 - drop_bit 24 s"
  shows "p \<in> {0, 8, 16, 24} \<Longrightarrow> unat (pix 8 p (alphaBlendScaledwith e s d)) = min 255 (unat (pix 8 p s) + (unat (pix 8 p d) * unat un) div 256)"
proof -
  have "unat (drop_bit 24 s) \<le> 255"
    by (rule alpha_le)
  then have un: "un \<le> 255" by (simp add: un_def word_le_nat_alt unat_sub)
  define rb where "rb = (drop_bit 8 ((d AND 16711935) * un) AND 16711935) + (s AND 16711935)"
  define ag where "ag = (drop_bit 8 ((drop_bit 8 d AND 16711935) * un) AND 16711935) + (drop_bit 8 s AND 16711935)"
  note r = saturate_halves [OF scaled_sum(1) [OF un, of d s] scaled_sum(2) [OF un, of 0 s d] scaled_sum(2) [OF un, of 16 s d], folded rb_def]
  note a = saturate_halves [OF scaled_sum(1) [OF un, of "drop_bit 8 d" "drop_bit 8 s"] scaled_sum(2) [OF un, of 0 "drop_bit 8 s" "drop_bit 8 d"]
    scaled_sum(2) [OF un, of 16 "drop_bit 8 s" "drop_bit 8 d"], folded ag_def, unfolded pix_shifted(1,3)]
  have e: "alphaBlendScaledwith e s d = (push_bit 8 (ag AND 16711935) OR (ag AND 16777472) * 255)
      OR ((rb AND 16711935) OR drop_bit 8 ((rb AND 16777472) * 255))"
    unfolding alphaBlendScaledwith_def un_def rb_def ag_def Let_def by (rule refl)
  have "pix 8 0 (alphaBlendScaledwith e s d) = pix 8 0 rb OR pix 8 8 ((rb AND 16777472) * 255)"
    "pix 8 16 (alphaBlendScaledwith e s d) = pix 8 16 rb OR pix 8 24 ((rb AND 16777472) * 255)"
    "pix 8 8 (alphaBlendScaledwith e s d) = pix 8 0 ag OR pix 8 8 ((ag AND 16777472) * 255)"
    "pix 8 24 (alphaBlendScaledwith e s d) = pix 8 16 ag OR pix 8 24 ((ag AND 16777472) * 255)"
    unfolding e pix_bits(2) pix_shifted r(1,2) a(1,2) by simp_all
  then show "p \<in> {0, 8, 16, 24} \<Longrightarrow> unat (pix 8 p (alphaBlendScaledwith e s d)) = min 255 (unat (pix 8 p s) + (unat (pix 8 p d) * unat un) div 256)"
    using r(3,4) a(3,4) by auto
qed

lemma ceil_255_copies: "(unat (pix 8 p v) * 255 + 254) div 255 = unat (pix 8 p v)"
  by (rule div_nat_eqI) simp_all

lemma alpha_shifted: "pix 8 0 (drop_bit 8 s OR 16711680) = pix 8 8 s" "pix 8 16 (drop_bit 8 s OR 16711680) = mask 8"
proof -
  have m: "16711680 = push_bit 16 (mask 8 :: 32 word)" by (simp add: mask_eq_exp_minus_1)
  show "pix 8 0 (drop_bit 8 s OR 16711680) = pix 8 8 s" "pix 8 16 (drop_bit 8 s OR 16711680) = mask 8"
    unfolding m pix_bits pix_shifted(1,3)
    by (rule bit_word_eqI, simp only: bit_or_iff bit_pix bit_push_bit_iff bit_mask_iff, fastforce)+
qed

lemma alpha_blend_value:
  fixes s d :: "32 word"
  defines "alpha \<equiv> unat (drop_bit 24 s)"
  shows "p \<in> {0, 8, 16} \<Longrightarrow> unat (pix 8 p (alphaBlendwith e s d)) = (unat (pix 8 p s) * alpha + unat (pix 8 p d) * (255 - alpha) + 254) div 255"
    "unat (pix 8 24 (alphaBlendwith e s d)) = (255 * alpha + unat (pix 8 24 d) * (255 - alpha) + 254) div 255"
proof -
  have al: "unat (drop_bit 24 s) \<le> 255"
    by (rule alpha_le)
  have m: "unat (mask 8 :: 32 word) = 255" by (simp add: unat_mask)
  let ?R = "div_255 ((s AND 16711935) * drop_bit 24 s + (d AND 16711935) * (255 - drop_bit 24 s) + 16711935)
      OR push_bit 8 (div_255 (((drop_bit 8 s OR 16711680) AND 16711935) * drop_bit 24 s + (drop_bit 8 d AND 16711935) * (255 - drop_bit 24 s) + 16711935))"
  have r: "alphaBlendwith e s d = (if drop_bit 24 s = 0 then d else if drop_bit 24 s = 255 then s else ?R)"
    by (simp add: alphaBlendwith_def Let_def)
  have le: "drop_bit 24 s \<le> 255" using al by (simp add: word_le_nat_alt)
  note v = blend_value [OF le refl, of s d "drop_bit 8 s OR 16711680" "drop_bit 8 d", unfolded pix_shifted(1,3)]
  consider (zero) "drop_bit 24 s = 0" | (full) "drop_bit 24 s = 255" | (part) "drop_bit 24 s \<noteq> 0" "drop_bit 24 s \<noteq> 255" by blast
  then have "(p \<in> {0, 8, 16} \<longrightarrow> unat (pix 8 p (alphaBlendwith e s d)) = (unat (pix 8 p s) * alpha + unat (pix 8 p d) * (255 - alpha) + 254) div 255)
    \<and> unat (pix 8 24 (alphaBlendwith e s d)) = (255 * alpha + unat (pix 8 24 d) * (255 - alpha) + 254) div 255"
  proof cases
    case zero
    then show ?thesis unfolding r alpha_def by (simp add: ceil_255_copies)
  next
    case full
    then show ?thesis unfolding r alpha_def by (simp add: ceil_255_copies alpha_channel)
  next
    case part
    then have R: "alphaBlendwith e s d = ?R" unfolding r by (simp only: if_False)
    show ?thesis unfolding R alpha_def using v unfolding alpha_shifted m by auto
  qed
  then show "p \<in> {0, 8, 16} \<Longrightarrow> unat (pix 8 p (alphaBlendwith e s d)) = (unat (pix 8 p s) * alpha + unat (pix 8 p d) * (255 - alpha) + 254) div 255"
    "unat (pix 8 24 (alphaBlendwith e s d)) = (255 * alpha + unat (pix 8 24 d) * (255 - alpha) + 254) div 255" by auto
qed

lemma const_blend_value:
  assumes "envDepth e = 32" "envPPW e = 1" "envAlpha e \<le> 255" "p \<in> {0, 8, 16, 24}"
  shows "unat (pix 8 p (alphaBlendConstwith e s d))
    = (unat (pix 8 p s) * unat (envAlpha e) + unat (pix 8 p d) * (255 - unat (envAlpha e)) + 254) div 255"
proof -
  note v = blend_value [OF assms(3) refl, of s d "drop_bit 8 s" "drop_bit 8 d", unfolded pix_shifted(1,3)]
  have r: "alphaBlendConstwith e s d = div_255 ((s AND 16711935) * envAlpha e + (d AND 16711935) * (255 - envAlpha e) + 16711935)
      OR push_bit 8 (div_255 ((drop_bit 8 s AND 16711935) * envAlpha e + (drop_bit 8 d AND 16711935) * (255 - envAlpha e) + 16711935))"
    using assms(1,2) by (simp add: alphaBlendConstwith_def alphaBlendConst_paintMode_def Let_def)
  show ?thesis unfolding r using v assms(4) by auto
qed

text \<open>
  C24: on pixels of 32 bits the blending rules compute weighted sums in every channel, without overflow into the next one. Rule
  24 weighs source and destination with the alpha of the source over 255, rounded up, in the alpha channel as if the
  source were opaque (its comment says that this byte will be 0); rule 30 weighs them with the constant alpha, over 255 and
  rounded up, in all four channels; and rule 34 adds to the source the destination weighed with the complement of the
  source's alpha over 256, rounded down, and saturates (its comment has alpha over 255).
\<close>
theorem blending_rules_blend_channels:
  fixes s d :: "32 word"
  assumes "envDepth e = 32" "envPPW e = 1" "envAlpha e \<le> 255" "p \<in> {0, 8, 16, 24}"
  defines "alpha \<equiv> unat (drop_bit 24 s)"
  shows "unat (pix 8 p (alphaBlendwith e s d))
      = ((if p = 24 then 255 else unat (pix 8 p s)) * alpha + unat (pix 8 p d) * (255 - alpha) + 254) div 255 \<and>
    unat (pix 8 p (alphaBlendConstwith e s d))
      = (unat (pix 8 p s) * unat (envAlpha e) + unat (pix 8 p d) * (255 - unat (envAlpha e)) + 254) div 255 \<and>
    unat (pix 8 p (alphaBlendScaledwith e s d)) = min 255 (unat (pix 8 p s) + unat (pix 8 p d) * (255 - alpha) div 256)"
proof -
  have "unat (drop_bit 24 s) \<le> 255"
    by (rule alpha_le)
  then have "unat (255 - drop_bit 24 s) = 255 - alpha" by (simp add: alpha_def unat_sub word_le_nat_alt)
  then show ?thesis
    using assms(4) alpha_blend_value(1) [where p = p and e = e and s = s and d = d] alpha_blend_value(2) [where e = e and s = s and d = d] const_blend_value [OF assms(1-4), where s = s and d = d] scaled_value [OF assms(4), where e = e and s = s and d = d]
    unfolding alpha_def by auto
qed

theorem blending_rules_blend_channels_witness:
  "unat (pix 8 16 (alphaBlendwith \<lparr>envDepth = 32, envPPW = 1, envMask = - 1, envAlpha = 100\<rparr> 0x80FF0000 0xFF000000)) = 128 \<and>
   unat (pix 8 16 (alphaBlendConstwith \<lparr>envDepth = 32, envPPW = 1, envMask = - 1, envAlpha = 100\<rparr> 0x80FF0000 0xFF000000)) = 100"
proof -
  have "unat (pix 8 16 0x80FF0000) = 255" "unat (pix 8 16 0xFF000000) = 0" by (simp_all add: unat_pix)
  then show ?thesis
    using blending_rules_blend_channels [of "\<lparr>envDepth = 32, envPPW = 1, envMask = - 1, envAlpha = 100\<rparr>" 16 "0x80FF0000" "0xFF000000"]
    by simp
qed

text \<open>A transparent source is not neutral for rule 34: a channel that is not empty loses one.\<close>

lemma scaled_transparent_darkens:
  "alphaBlendScaledwith e 0 0xFFFFFFFF = 0xFEFEFEFE" "alphaBlendwith e 0 0xFFFFFFFF = 0xFFFFFFFF"
  by (simp_all add: alphaBlendScaledwith_def alphaBlendwith_def Let_def)

end
