(* ===== verification/CString.thy ===== *)
theory CString
  imports Prelude
begin

text \<open>
  C strings and buffers, as the parameter and path code uses them. A string argument is the
  list of its characters before the terminating NUL. A buffer the code writes into is the list
  of all its cells: a write or a copy outside the cells is undefined behaviour in C and the
  value \<open>None\<close> here, and \<open>str_of\<close> reads the string a buffer holds, if it is terminated.
  \<open>strtoll\<close> is the function of the C library in base 10.
\<close>

abbreviation NUL :: char where "NUL \<equiv> CHR 0x00"

subsection \<open>Buffers\<close>

fun str_of :: "char list \<Rightarrow> string option" where
  "str_of [] = None"
| "str_of (c # cs) = (if c = NUL then Some [] else map_option ((#) c) (str_of cs))"

definition poke :: "char list \<Rightarrow> nat \<Rightarrow> char \<Rightarrow> char list option" where
  "poke buf i c = (if i < length buf then Some (buf[i := c]) else None)"

definition strncpy :: "char list \<Rightarrow> string \<Rightarrow> nat \<Rightarrow> char list option" where
  "strncpy target src n =
     (if n \<le> length target then Some (take n (src @ replicate n NUL) @ drop n target) else None)"

definition strcpy :: "char list \<Rightarrow> string \<Rightarrow> char list option" where
  "strcpy target src =
     (if length src < length target then Some (src @ NUL # drop (Suc (length src)) target) else None)"

named_theorems buffers \<open>what the string functions leave in a buffer\<close>

lemma str_of_append: "NUL \<notin> set s \<Longrightarrow> str_of (s @ NUL # r) = Some s"
  by (induction s) auto

lemma str_of_SomeD: "str_of buf = Some s \<Longrightarrow> \<exists>r. buf = s @ NUL # r \<and> NUL \<notin> set s"
proof (induction buf arbitrary: s)
  case (Cons c cs)
  then show ?case by (cases "c = NUL") fastforce+
qed simp

lemma str_of_less: "str_of buf = Some s \<Longrightarrow> length s < length buf"
  by (auto dest: str_of_SomeD)

lemma str_of_no_NUL: "str_of buf = Some s \<Longrightarrow> NUL \<notin> set s"
  by (auto dest: str_of_SomeD)

lemma length_poke [buffers]: "poke buf i c = Some b \<Longrightarrow> length b = length buf"
  by (auto simp: poke_def split: if_splits)

lemma length_strncpy [buffers]: "strncpy buf s n = Some b \<Longrightarrow> length b = length buf"
  by (auto simp: strncpy_def split: if_splits)

text \<open>\<open>strncpy\<close> of the room less one and the terminator after it: the idiom of the path code.\<close>

lemma strncpy_terminated:
  assumes "n < length target"
  shows "\<exists>b. Option.bind (strncpy target src n) (\<lambda>b. poke b n NUL) = Some b
    \<and> length b = length target \<and> (NUL \<notin> set src \<longrightarrow> str_of b = Some (take n src))"
proof -
  let ?b = "take n (src @ replicate n NUL) @ drop n target"
  have "drop n target \<noteq> []" using assms by simp
  then obtain x r where d: "drop n target = x # r" by (cases "drop n target") auto
  have "str_of (take n (src @ replicate n NUL) @ NUL # r) = Some (take n src)" if "NUL \<notin> set src"
  proof (cases "length src < n")
    case True
    then have "take n (src @ replicate n NUL) = src @ NUL # replicate (n - Suc (length src)) NUL"
      by (simp add: take_replicate flip: replicate_Suc Suc_diff_Suc)
    with that True show ?thesis by (simp add: str_of_append)
  next
    case False
    then have "take n (src @ replicate n NUL) = take n src" by simp
    with that show ?thesis by (auto intro!: str_of_append dest: in_set_takeD)
  qed
  moreover have "length ?b = length target" using assms by simp
  moreover have "?b[n := NUL] = take n (src @ replicate n NUL) @ NUL # r"
    by (simp add: d list_update_append min_def)
  moreover have "n < length ?b" using assms by simp
  ultimately show ?thesis using assms
    by (metis (no_types, lifting) Option.bind.bind_lunit length_list_update less_imp_le poke_def strncpy_def)
qed

lemma strcpy_str_of:
  "length src < length target \<Longrightarrow> NUL \<notin> set src \<Longrightarrow>
    \<exists>b. strcpy target src = Some b \<and> length b = length target \<and> str_of b = Some src"
  by (simp add: strcpy_def str_of_append)

subsection \<open>Searching\<close>

definition strchr :: "string \<Rightarrow> char \<Rightarrow> nat option" where
  "strchr s c = (if c \<in> set s then Some (length (takeWhile (\<lambda>x. x \<noteq> c) s)) else None)"

definition strrchr :: "string \<Rightarrow> char \<Rightarrow> nat option" where
  "strrchr s c = (if c \<in> set s then Some (length s - 1 - length (takeWhile (\<lambda>x. x \<noteq> c) (rev s))) else None)"

lemma strchr_None: "strchr s c = None \<longleftrightarrow> c \<notin> set s"
  by (simp add: strchr_def)

lemma strrchr_None: "strrchr s c = None \<longleftrightarrow> c \<notin> set s"
  by (simp add: strrchr_def)

lemma strchr_split: "c \<notin> set a \<Longrightarrow> strchr (a @ c # b) c = Some (length a)"
proof -
  assume "c \<notin> set a"
  then have "takeWhile (\<lambda>x. x \<noteq> c) (a @ c # b) = a" by (auto simp: takeWhile_append)
  then show ?thesis by (simp add: strchr_def)
qed

lemma strrchr_split: "c \<notin> set b \<Longrightarrow> strrchr (a @ c # b) c = Some (length a)"
proof -
  assume "c \<notin> set b"
  then have "takeWhile (\<lambda>x. x \<noteq> c) (rev b @ c # rev a) = rev b" by (auto simp: takeWhile_append)
  then show ?thesis by (simp add: strrchr_def)
qed

subsection \<open>Reading numbers\<close>

definition isspace :: "char \<Rightarrow> bool" where
  "isspace c \<longleftrightarrow> c = CHR '' '' \<or> (9 \<le> (of_char c :: nat) \<and> (of_char c :: nat) \<le> 13)"

definition isdigit :: "char \<Rightarrow> bool" where
  "isdigit c \<longleftrightarrow> 48 \<le> (of_char c :: nat) \<and> (of_char c :: nat) \<le> 57"

definition digit_value :: "char \<Rightarrow> nat" where
  "digit_value c = of_char c - 48"

definition decimal_value :: "string \<Rightarrow> nat" where
  "decimal_value ds = foldl (\<lambda>v c. 10 * v + digit_value c) 0 ds"

text \<open>The value and whether it left the range of a 64-bit \<open>long long\<close> (\<open>errno = ERANGE\<close>).\<close>

definition strtoll :: "string \<Rightarrow> int \<times> bool" where
  "strtoll text =
     (let s = dropWhile isspace text;
          neg = (s \<noteq> [] \<and> hd s = CHR ''-'');
          ds = (if s \<noteq> [] \<and> (hd s = CHR ''-'' \<or> hd s = CHR ''+'') then tl s else s);
          v = decimal_value (takeWhile isdigit ds)
      in if neg then (if v > 2 ^ 63 then (- (2 ^ 63), True) else (- int v, False))
         else (if v \<ge> 2 ^ 63 then (2 ^ 63 - 1, True) else (int v, False)))"

text \<open>A C conversion to \<open>int\<close> (32 bits), which wraps, and the signed product of 64 bits, undefined when it overflows.\<close>

definition to_int :: "int \<Rightarrow> int" where
  "to_int x = sint (word_of_int x :: 32 word)"

definition times_ll :: "int \<Rightarrow> int \<Rightarrow> int option" where
  "times_ll x y = (if - (2 ^ 63) \<le> x * y \<and> x * y < 2 ^ 63 then Some (x * y) else None)"

lemma to_int_id: "- (2 ^ 31) \<le> x \<Longrightarrow> x < 2 ^ 31 \<Longrightarrow> to_int x = x"
  by (simp add: to_int_def sint_sbintrunc' signed_take_bit_int_eq_self)

lemma to_int_range: "- (2 ^ 31) \<le> to_int x \<and> to_int x < 2 ^ 31"
  using sint_greater_eq [of "word_of_int x :: 32 word"] sint_less [of "word_of_int x :: 32 word"]
  by (simp add: to_int_def)

lemma times_ll_exact: "- (2 ^ 63) \<le> x * y \<Longrightarrow> x * y < 2 ^ 63 \<Longrightarrow> times_ll x y = Some (x * y)"
  by (simp add: times_ll_def)

lemma strtoll_range: "- (2 ^ 63) \<le> fst (strtoll s) \<and> fst (strtoll s) < 2 ^ 63"
  by (auto simp: strtoll_def Let_def)

subsection \<open>Decimal numerals\<close>

text \<open>The numeral of a number, the text a user writes for it.\<close>

fun decimal :: "nat \<Rightarrow> string" where
  "decimal n = (if n < 10 then [char_of (48 + n)] else decimal (n div 10) @ [char_of (48 + n mod 10)])"

declare decimal.simps [simp del]

lemma digit_char:
  assumes "d < 10"
  shows "isdigit (char_of (48 + d))" "digit_value (char_of (48 + d)) = d" "\<not> isspace (char_of (48 + d))"
    "char_of (48 + d) \<noteq> CHR ''-''" "char_of (48 + d) \<noteq> CHR ''+''" "char_of (48 + d) \<noteq> NUL"
proof -
  have c: "(of_char (char_of (48 + d :: nat)) :: nat) = 48 + d" using assms by simp
  show "isdigit (char_of (48 + d))" "digit_value (char_of (48 + d)) = d"
    using assms by (simp_all add: isdigit_def digit_value_def)
  have "char_of (48 + d) \<noteq> x" if "(of_char x :: nat) < 48" for x
    using c that by (metis not_add_less1)
  then show "\<not> isspace (char_of (48 + d))" "char_of (48 + d) \<noteq> CHR ''-''"
    "char_of (48 + d) \<noteq> CHR ''+''" "char_of (48 + d) \<noteq> NUL"
    using assms by (auto simp: isspace_def)
qed

lemma decimal_digits: "\<forall>c \<in> set (decimal n). isdigit c"
proof (induction n rule: decimal.induct)
  case (1 n)
  then show ?case by (cases "n < 10") (simp_all add: decimal.simps [of n] digit_char)
qed

lemma decimal_not_empty [simp]: "decimal n \<noteq> []"
  by (simp add: decimal.simps)

lemma decimal_value_snoc: "decimal_value (ds @ [c]) = 10 * decimal_value ds + digit_value c"
  by (simp add: decimal_value_def)

lemma decimal_value_decimal [simp]: "decimal_value (decimal n) = n"
proof (induction n rule: decimal.induct)
  case (1 n)
  show ?case
  proof (cases "n < 10")
    case True
    then show ?thesis by (simp add: decimal.simps [of n] decimal_value_def digit_char)
  next
    case False
    then show ?thesis using 1 by (simp add: decimal.simps [of n] decimal_value_snoc digit_char)
  qed
qed

lemma isdigit_not: "isdigit c \<Longrightarrow> \<not> isspace c \<and> c \<noteq> CHR ''-'' \<and> c \<noteq> CHR ''+'' \<and> c \<noteq> NUL"
  by (auto simp: isdigit_def isspace_def)

lemma decimal_no_NUL: "NUL \<notin> set (decimal n)"
  using decimal_digits isdigit_not by blast

text \<open>Reading the numeral of a number that fits gives it back, whatever follows it.\<close>

lemma strtoll_decimal:
  assumes "n < 2 ^ 63" "rest = [] \<or> \<not> isdigit (hd rest)"
  shows "strtoll (decimal n @ rest) = (int n, False)"
proof -
  obtain d ds where dd: "decimal n = d # ds" by (cases "decimal n") simp_all
  then have d: "isdigit d" using decimal_digits [of n] by simp
  have "takeWhile isdigit (decimal n @ rest) = decimal n @ takeWhile isdigit rest"
    using decimal_digits by (intro takeWhile_append2) blast
  also have "takeWhile isdigit rest = []" using assms(2) by (cases rest) auto
  finally have tw: "takeWhile isdigit (d # ds @ rest) = decimal n" by (simp add: dd)
  have "decimal_value (takeWhile isdigit (d # ds @ rest)) = n" by (simp only: tw decimal_value_decimal)
  then show ?thesis
    using isdigit_not [OF d] assms(1) unfolding dd strtoll_def by (simp add: Let_def)
qed

text \<open>A negative numeral is a negative value, so it is never taken for a size.\<close>

lemma strtoll_negative:
  assumes "0 < n"
  shows "fst (strtoll (CHR ''-'' # decimal n @ rest)) < 0"
proof -
  have "isdigit (hd (decimal n))" using decimal_digits [of n] by (simp add: hd_in_set)
  have "0 < decimal_value (takeWhile isdigit (decimal n @ rest))"
  proof -
    have "takeWhile isdigit (decimal n @ rest) = decimal n @ takeWhile isdigit rest"
      using decimal_digits by (intro takeWhile_append2) blast
    moreover have "decimal_value ds \<le> decimal_value (ds @ es)" for ds es
    proof (induction es rule: rev_induct)
      case (snoc c es)
      then show ?case using decimal_value_snoc [of "ds @ es" c] by simp
    qed simp
    ultimately show ?thesis
      using assms decimal_value_decimal [of n] by (metis order_less_le_trans)
  qed
  moreover have "\<not> isspace (CHR ''-'')" by (simp add: isspace_def)
  ultimately show ?thesis by (simp add: strtoll_def Let_def)
qed

end
