(* ===== verification/Paths.thy ===== *)
theory Paths
  imports CString
begin

text \<open>
  The string and path helpers, \<open>stringUtilities.c\<close> and \<open>pathUtilities.c\<close> (the branches for
  Unix): appending into a bounded buffer, the working directory, absolute paths, the directory
  and the base name of a path, joining two paths, and finding the files with an extension.

  Every function writes into a caller's buffer of which it is told the size; a result \<open>None\<close> is
  a read or a write outside the cells of a buffer. A size is a natural number; \<open>pred_size\<close> is the
  C expression \<open>size - 1\<close> on \<open>size_t\<close>, which wraps at 0.

  What the system answers is an argument: \<open>cwd\<close> is the working directory, or \<open>None\<close> when it cannot
  be obtained (\<open>getcwd\<close> also fails when the buffer is too small, and then leaves it alone);
  \<open>entries\<close> are the names \<open>readdir\<close> yields, or \<open>None\<close> when \<open>opendir\<close> fails.
\<close>

datatype VMErrorCode =
    VM_SUCCESS
  | VM_ERROR
  | VM_ERROR_OUT_OF_MEMORY
  | VM_ERROR_NULL_POINTER
  | VM_ERROR_EXIT_WITH_SUCCESS
  | VM_ERROR_INVALID_PARAMETER
  | VM_ERROR_INVALID_PARAMETER_VALUE

fun vm_error_code_to_string :: "VMErrorCode \<Rightarrow> string" where
  "vm_error_code_to_string VM_SUCCESS = ''sucess''"
| "vm_error_code_to_string VM_ERROR_OUT_OF_MEMORY = ''out of memory.''"
| "vm_error_code_to_string VM_ERROR_NULL_POINTER = ''null pointer.''"
| "vm_error_code_to_string VM_ERROR_EXIT_WITH_SUCCESS = ''exit with success.''"
| "vm_error_code_to_string VM_ERROR_INVALID_PARAMETER = ''invalid parameter.''"
| "vm_error_code_to_string VM_ERROR_INVALID_PARAMETER_VALUE = ''null parameter value.''"
| "vm_error_code_to_string VM_ERROR = ''generic error''"

abbreviation slash :: char where "slash \<equiv> CHR ''/''"

definition pred_size :: "nat \<Rightarrow> nat" where
  "pred_size n = (if n = 0 then 2 ^ 64 - 1 else n - 1)"

lemma pred_size_pos [simp]: "0 < n \<Longrightarrow> pred_size n = n - 1"
  by (simp add: pred_size_def)

subsection \<open>Appending\<close>

fun append_loop :: "char list \<Rightarrow> nat \<Rightarrow> string \<Rightarrow> nat \<Rightarrow> char list option" where
  "append_loop dest destIndex [] limit = poke dest destIndex NUL"
| "append_loop dest destIndex (c # source) limit =
     (if destIndex < limit
      then do { dest \<leftarrow> poke dest destIndex c; append_loop dest (Suc destIndex) source limit }
      else poke dest destIndex NUL)"

definition vm_string_append_into :: "char list \<Rightarrow> string \<Rightarrow> nat \<Rightarrow> char list option" where
  "vm_string_append_into dest source destBufferSize =
     do { d \<leftarrow> str_of dest; append_loop dest (length d) source (pred_size destBufferSize) }"

text \<open>The result is a fresh buffer of exactly the cells the text needs (\<open>None\<close>: \<open>malloc\<close> failed, unchecked).\<close>

definition vm_string_concat :: "(nat \<Rightarrow> bool) \<Rightarrow> string option \<Rightarrow> string option \<Rightarrow> char list option" where
  "vm_string_concat malloc first second =
     (let firstSize = (case first of None \<Rightarrow> 0 | Some s \<Rightarrow> length s);
          secondSize = (case second of None \<Rightarrow> 0 | Some s \<Rightarrow> length s);
          f = (case first of None \<Rightarrow> [] | Some s \<Rightarrow> s);
          s = (case second of None \<Rightarrow> [] | Some s \<Rightarrow> s)
      in if malloc (firstSize + secondSize + 1)
         then Some (take firstSize f @ take secondSize s @ [NUL]) else None)"

subsection \<open>Paths\<close>

definition vm_path_get_current_working_dir_into ::
    "string option \<Rightarrow> char list \<Rightarrow> nat \<Rightarrow> (VMErrorCode \<times> char list) option" where
  "vm_path_get_current_working_dir_into cwd target targetSize =
     (case cwd of None \<Rightarrow> Some (VM_ERROR, target)
      | Some w \<Rightarrow> if length w < targetSize
          then do { target \<leftarrow> strcpy target w; Some (VM_SUCCESS, target) }
          else Some (VM_ERROR, target))"

definition vm_path_is_absolute_path :: "string option \<Rightarrow> bool" where
  "vm_path_is_absolute_path path = (case path of None \<Rightarrow> False | Some p \<Rightarrow> p \<noteq> [] \<and> hd p = slash)"

definition vm_path_make_absolute_into ::
    "string option \<Rightarrow> char list \<Rightarrow> nat \<Rightarrow> string \<Rightarrow> (VMErrorCode \<times> char list) option" where
  "vm_path_make_absolute_into cwd target targetSize src =
     (if vm_path_is_absolute_path (Some src)
      then do {
        target \<leftarrow> strncpy target src (pred_size targetSize);
        target \<leftarrow> poke target (pred_size targetSize) NUL;
        Some (VM_SUCCESS, target) }
      else do {
        (error, target) \<leftarrow> vm_path_get_current_working_dir_into cwd target targetSize;
        if error \<noteq> VM_SUCCESS then Some (error, target)
        else do {
          workDir \<leftarrow> str_of target;
          target \<leftarrow> (if length workDir > 0 \<and> last workDir \<noteq> slash
                     then vm_string_append_into target [slash] targetSize else Some target);
          target \<leftarrow> vm_string_append_into target
                     (if take 2 src = [CHR ''.'', slash] then drop 2 src else src) targetSize;
          Some (VM_SUCCESS, target) } })"

definition vm_path_extract_dirname_into ::
    "char list \<Rightarrow> nat \<Rightarrow> string \<Rightarrow> (VMErrorCode \<times> char list) option" where
  "vm_path_extract_dirname_into target targetSize src =
     (let copySize = (case strrchr src slash of
            None \<Rightarrow> pred_size targetSize
          | Some i \<Rightarrow> if i < pred_size targetSize then i else pred_size targetSize)
      in do {
        target \<leftarrow> strncpy target src copySize;
        target \<leftarrow> poke target copySize NUL;
        Some (VM_SUCCESS, target) })"

definition vm_path_extract_basename_into ::
    "char list \<Rightarrow> nat \<Rightarrow> string \<Rightarrow> (VMErrorCode \<times> char list) option" where
  "vm_path_extract_basename_into target targetSize src =
     (case strrchr src slash of
        Some i \<Rightarrow> do {
          target \<leftarrow> strncpy target (drop i src) (pred_size targetSize);
          target \<leftarrow> poke target (pred_size targetSize) NUL;
          Some (VM_SUCCESS, target) }
      | None \<Rightarrow> do { target \<leftarrow> strcpy target []; Some (VM_SUCCESS, target) })"

text \<open>The last character of \<open>first\<close> is read at \<open>strlen(first) - 1\<close>: outside the string when it is empty.\<close>

definition vm_path_join_into ::
    "char list \<Rightarrow> nat \<Rightarrow> string \<Rightarrow> string \<Rightarrow> (VMErrorCode \<times> char list) option" where
  "vm_path_join_into target targetSize first second =
     do {
       target \<leftarrow> strncpy target first (pred_size targetSize);
       target \<leftarrow> poke target (pred_size targetSize) NUL;
       c \<leftarrow> (if first = [] then None else Some (last first));
       target \<leftarrow> (if c \<noteq> slash then vm_string_append_into target [slash] targetSize else Some target);
       target \<leftarrow> vm_string_append_into target second targetSize;
       Some (VM_SUCCESS, target) }"

definition snprintf_path :: "char list \<Rightarrow> nat \<Rightarrow> string \<Rightarrow> string \<Rightarrow> char list option" where
  "snprintf_path target room a b =
     (if room = 0 then Some target else strcpy target (take (room - 1) (a @ slash # b)))"

fun find_files_loop ::
    "string \<Rightarrow> string \<Rightarrow> nat \<Rightarrow> string list \<Rightarrow> char list \<Rightarrow> nat \<Rightarrow> bool \<Rightarrow> (nat \<times> char list) option" where
  "find_files_loop searchPath extension room [] buffer result hasPreviousOutput = Some (result, buffer)"
| "find_files_loop searchPath extension room (name # entries) buffer result hasPreviousOutput =
     (case strrchr name (CHR ''.'') of
        None \<Rightarrow> find_files_loop searchPath extension room entries buffer result hasPreviousOutput
      | Some i \<Rightarrow>
          if drop i name \<noteq> extension
          then find_files_loop searchPath extension room entries buffer result hasPreviousOutput
          else do {
            buffer \<leftarrow> (if \<not> hasPreviousOutput then snprintf_path buffer room searchPath name else Some buffer);
            find_files_loop searchPath extension room entries buffer (Suc result) True })"

definition vm_path_find_files_with_extension_in_folder ::
    "string list option \<Rightarrow> string \<Rightarrow> string \<Rightarrow> char list \<Rightarrow> nat \<Rightarrow> (nat \<times> char list) option" where
  "vm_path_find_files_with_extension_in_folder entries searchPath extension imagePathBuffer imagePathBufferSize =
     (if imagePathBuffer = [] then None
      else case entries of
        None \<Rightarrow> Some (0, imagePathBuffer)
      | Some es \<Rightarrow> find_files_loop searchPath extension imagePathBufferSize es imagePathBuffer 0
          (hd imagePathBuffer \<noteq> NUL))"

subsection \<open>What a bounded append leaves\<close>

text \<open>
  A buffer that holds \<open>d\<close> within \<open>room\<close> cells is left holding \<open>d\<close> and the source, cut to the room;
  no cell from \<open>room\<close> on is touched.
\<close>

lemma append_loop_correct:
  assumes "length d \<le> limit" "limit < length (d @ rest)" "NUL \<notin> set d" "NUL \<notin> set source"
  shows "\<exists>b. append_loop (d @ rest) (length d) source limit = Some b \<and> length b = length (d @ rest)
    \<and> str_of b = Some (take limit (d @ source)) \<and> drop (Suc limit) b = drop (Suc limit) (d @ rest)"
  using assms
proof (induction source arbitrary: d rest)
  case Nil
  then obtain x r where r: "rest = x # r" by (cases rest) auto
  have "Suc (limit - length d) = Suc limit - length d" using Nil by simp
  with Nil show ?case unfolding r by (simp add: poke_def str_of_append Suc_diff_le)
next
  case (Cons c source)
  then obtain x r where r: "rest = x # r" by (cases rest) auto
  show ?case
  proof (cases "length d < limit")
    case True
    have "\<exists>b. append_loop ((d @ [c]) @ r) (length (d @ [c])) source limit = Some b
      \<and> length b = length ((d @ [c]) @ r) \<and> str_of b = Some (take limit ((d @ [c]) @ source))
      \<and> drop (Suc limit) b = drop (Suc limit) ((d @ [c]) @ r)"
      using Cons.prems r True by (intro Cons.IH) auto
    moreover have "drop (Suc limit) ((d @ [c]) @ r) = drop (Suc limit) (d @ rest)"
      using True unfolding r by (simp add: drop_Cons')
    ultimately show ?thesis using True unfolding r by (simp add: poke_def)
  next
    case False
    then have l: "length d = limit" using Cons.prems by simp
    then have "(d @ x # r)[limit := NUL] = d @ NUL # r" by (simp add: list_update_append)
    with False l Cons.prems show ?thesis unfolding r
      by (simp add: poke_def str_of_append)
  qed
qed

lemma vm_string_append_into_correct:
  assumes "str_of dest = Some d" "length d < room" "room \<le> length dest" "NUL \<notin> set source"
  shows "\<exists>b. vm_string_append_into dest source room = Some b \<and> length b = length dest
    \<and> str_of b = Some (take (room - 1) (d @ source)) \<and> drop room b = drop room dest"
proof -
  obtain r where dest: "dest = d @ NUL # r" and d: "NUL \<notin> set d"
    using str_of_SomeD [OF assms(1)] by auto
  have "room - 1 < length dest" "length d \<le> room - 1" and Suc: "Suc (room - 1) = room"
    using assms by simp_all
  then have "\<exists>b. append_loop dest (length d) source (room - 1) = Some b \<and> length b = length dest
    \<and> str_of b = Some (take (room - 1) (d @ source)) \<and> drop (Suc (room - 1)) b = drop (Suc (room - 1)) dest"
    using d assms(4) unfolding dest by (intro append_loop_correct)
  then show ?thesis using assms unfolding Suc by (simp add: vm_string_append_into_def)
qed

lemma copy_terminated:
  assumes "0 < room" "room \<le> length target" "NUL \<notin> set src"
  obtains t b where "strncpy target src (pred_size room) = Some t" "poke t (pred_size room) NUL = Some b"
    "length b = length target" "str_of b = Some (take (room - 1) src)"
proof -
  have "room - 1 < length target" using assms by simp
  from strncpy_terminated [OF this, of src] assms that show ?thesis
    by (auto simp: Option.bind_eq_Some_conv)
qed

lemma take_take_append: "take n (take n xs @ ys) = take n (xs @ ys)"
  by (cases "length xs \<le> n") simp_all

text \<open>Two appends: the pattern of the join and of the absolute path.\<close>

lemma append_twice:
  assumes "str_of target = Some a" "length a < room" "room \<le> length target"
    "NUL \<notin> set x" "NUL \<notin> set y"
  shows "\<exists>b c. vm_string_append_into target x room = Some b \<and> vm_string_append_into b y room = Some c
    \<and> length c = length target \<and> str_of c = Some (take (room - 1) (a @ x @ y))"
proof -
  obtain b where b: "vm_string_append_into target x room = Some b" "length b = length target"
    "str_of b = Some (take (room - 1) (a @ x))"
    using vm_string_append_into_correct [OF assms(1-4)] by blast
  have "length (take (room - 1) (a @ x)) < room" using assms(2) by simp
  then obtain c where c: "vm_string_append_into b y room = Some c" "length c = length b"
    "str_of c = Some (take (room - 1) (take (room - 1) (a @ x) @ y))"
    using vm_string_append_into_correct [OF b(3) _ _ assms(5)] assms(3) b(2) by fastforce
  then show ?thesis using b c take_take_append by (metis append_assoc)
qed

subsection \<open>The path operations\<close>

text \<open>What a join must answer: one separator between the parts, and no second one.\<close>

definition joined :: "string \<Rightarrow> string \<Rightarrow> string" where
  "joined first second = first @ (if last first \<noteq> slash then [slash] else []) @ second"

text \<open>
  \<open>vm_path_join_into\<close> writes the two parts with exactly one separator between them, cut to
  the room of the buffer, terminated, and inside the buffer, for every non-empty first part.
\<close>
lemma vm_path_join_into_correct:
  assumes "first \<noteq> []" "0 < room" "room \<le> length target" "NUL \<notin> set first" "NUL \<notin> set second"
  shows "\<exists>b. vm_path_join_into target room first second = Some (VM_SUCCESS, b)
    \<and> length b = length target \<and> str_of b = Some (take (room - 1) (joined first second))"
proof -
  obtain t a where a: "strncpy target first (pred_size room) = Some t" "poke t (pred_size room) NUL = Some a"
    "length a = length target" "str_of a = Some (take (room - 1) first)"
    using copy_terminated [OF assms(2,3,4)] by blast
  have cut: "length (take (room - 1) first) < room" and fits: "room \<le> length a" using assms a by auto
  have twice: "take (room - 1) (take (room - 1) first @ s) = take (room - 1) (first @ s)" for s :: string
    by (rule take_take_append)
  show ?thesis
  proof (cases "last first = slash")
    case True
    then show ?thesis
      using a vm_string_append_into_correct [OF a(4) cut fits assms(5)] assms(1) twice [of second]
      by (auto simp: vm_path_join_into_def joined_def)
  next
    case False
    then show ?thesis
      using a append_twice [OF a(4) cut fits _ assms(5), of "[slash]"] assms(1) twice [of "slash # second"]
      by (auto simp: vm_path_join_into_def joined_def)
  qed
qed

text \<open>
  Joining a directory and a file name and taking the directory of the result gives the
  directory back, when the join fits the buffer, the directory does not end in a separator and
  the name holds none.
\<close>
theorem dirname_of_join:
  assumes "dir \<noteq> []" "last dir \<noteq> slash" "slash \<notin> set name" "NUL \<notin> set dir" "NUL \<notin> set name"
    "length dir + length name + 1 < room" "room \<le> length target" "room \<le> length buf"
  shows "\<exists>b p c. vm_path_join_into target room dir name = Some (VM_SUCCESS, b) \<and> str_of b = Some p
    \<and> vm_path_extract_dirname_into buf room p = Some (VM_SUCCESS, c) \<and> str_of c = Some dir"
proof -
  have "0 < room" using assms(6) by simp
  from vm_path_join_into_correct [OF assms(1) this assms(7,4,5)]
  obtain b where b: "vm_path_join_into target room dir name = Some (VM_SUCCESS, b)"
    "str_of b = Some (take (room - 1) (joined dir name))" by blast
  have p: "take (room - 1) (joined dir name) = dir @ slash # name"
    using assms(2,6) by (simp add: joined_def)
  have sep: "strrchr (dir @ slash # name) slash = Some (length dir)"
    using assms(3) by (rule strrchr_split)
  have "length dir < length buf" using assms(6,8) by simp
  from strncpy_terminated [OF this, of "dir @ slash # name"]
  obtain c where c: "Option.bind (strncpy buf (dir @ slash # name) (length dir)) (\<lambda>b. poke b (length dir) NUL) = Some c"
    "str_of c = Some dir" using assms(4,5) by auto
  have "vm_path_extract_dirname_into buf room (dir @ slash # name) = Some (VM_SUCCESS, c)"
    using c(1) assms(6) sep by (auto simp: vm_path_extract_dirname_into_def Option.bind_eq_Some_conv)
  with b p c(2) show ?thesis by auto
qed

lemma dirname_of_join_witness:
  "\<exists>b p c. vm_path_join_into (replicate 20 NUL) 20 ''/opt'' ''a.image'' = Some (VM_SUCCESS, b) \<and> str_of b = Some p
    \<and> vm_path_extract_dirname_into (replicate 20 NUL) 20 p = Some (VM_SUCCESS, c) \<and> str_of c = Some ''/opt''"
  by (rule dirname_of_join) simp_all

text \<open>
  The absolute path of a name: the name itself when it starts with a separator, otherwise the
  name without a leading \<open>./\<close> under the working directory; cut to the buffer in both cases.
\<close>

definition made_absolute :: "string \<Rightarrow> string \<Rightarrow> string" where
  "made_absolute cwd src =
     (if vm_path_is_absolute_path (Some src) then src
      else cwd @ (if cwd \<noteq> [] \<and> last cwd \<noteq> slash then [slash] else [])
        @ (if take 2 src = [CHR ''.'', slash] then drop 2 src else src))"

lemma vm_path_make_absolute_into_correct:
  assumes "0 < room" "room \<le> length target" "NUL \<notin> set src" "NUL \<notin> set w" "length w < room"
  shows "\<exists>b. vm_path_make_absolute_into (Some w) target room src = Some (VM_SUCCESS, b)
    \<and> length b = length target \<and> str_of b = Some (take (room - 1) (made_absolute w src))"
proof (cases "vm_path_is_absolute_path (Some src)")
  case True
  obtain t b where "strncpy target src (pred_size room) = Some t" "poke t (pred_size room) NUL = Some b"
    "length b = length target" "str_of b = Some (take (room - 1) src)"
    using copy_terminated [OF assms(1-3)] by blast
  with True show ?thesis by (simp add: vm_path_make_absolute_into_def made_absolute_def)
next
  case False
  have "length w < length target" using assms by simp
  from strcpy_str_of [OF this assms(4)]
  obtain a where a: "strcpy target w = Some a" "length a = length target" "str_of a = Some w" by blast
  define s where "s = (if take 2 src = [CHR ''.'', slash] then drop 2 src else src)"
  have s: "NUL \<notin> set s" using assms(3) by (auto simp: s_def dest: in_set_dropD)
  have fits: "room \<le> length a" using a assms by simp
  note unfold = vm_path_make_absolute_into_def vm_path_get_current_working_dir_into_def made_absolute_def
  show ?thesis
  proof (cases "w \<noteq> [] \<and> last w \<noteq> slash")
    case sep: True
    from append_twice [OF a(3) assms(5) fits _ s, of "[slash]"] sep False a assms(5)
    show ?thesis unfolding unfold by (fold s_def) auto
  next
    case sep: False
    from vm_string_append_into_correct [OF a(3) assms(5) fits s] sep False a assms(5)
    show ?thesis unfolding unfold by (fold s_def) auto
  qed
qed

text \<open>The working directory is asked for only when the path is relative, and its error is the answer.\<close>

lemma vm_path_make_absolute_into_error:
  assumes "\<not> vm_path_is_absolute_path (Some src)" "cwd = None \<or> room \<le> length (the cwd)"
  shows "vm_path_make_absolute_into cwd target room src = Some (VM_ERROR, target)"
  using assms
  by (auto simp: vm_path_make_absolute_into_def vm_path_get_current_working_dir_into_def split: option.splits)

text \<open>
  \<open>vm_path_extract_basename_into\<close> keeps the separator in front of the name, and answers the empty
  string for a path without one.
\<close>

lemma basename_keeps_separator:
  assumes "slash \<notin> set name" "NUL \<notin> set dir" "NUL \<notin> set name"
    "length name + 1 < room" "room \<le> length target"
  shows "\<exists>b. vm_path_extract_basename_into target room (dir @ slash # name) = Some (VM_SUCCESS, b)
    \<and> str_of b = Some (slash # name)"
proof -
  have s: "strrchr (dir @ slash # name) slash = Some (length dir)"
    using assms(1) by (rule strrchr_split)
  have "0 < room" "NUL \<notin> set (slash # name)" using assms by auto
  from copy_terminated [OF this(1) assms(5) this(2)]
  obtain t b where "strncpy target (slash # name) (pred_size room) = Some t" "poke t (pred_size room) NUL = Some b"
    "str_of b = Some (take (room - 1) (slash # name))" by blast
  with s assms(4) show ?thesis by (simp add: vm_path_extract_basename_into_def)
qed

lemma basename_without_separator:
  "slash \<notin> set path \<Longrightarrow> target \<noteq> [] \<Longrightarrow>
    \<exists>b. vm_path_extract_basename_into target room path = Some (VM_SUCCESS, b) \<and> str_of b = Some []"
  by (cases target) (auto simp: vm_path_extract_basename_into_def strcpy_def strrchr_def)

text \<open>The search counts every matching name, and leaves the first one in an empty buffer.\<close>

definition matching :: "string \<Rightarrow> string \<Rightarrow> bool" where
  "matching extension name =
     (case strrchr name (CHR ''.'') of None \<Rightarrow> False | Some i \<Rightarrow> drop i name = extension)"

lemma snprintf_path_correct:
  assumes "0 < room" "room \<le> length b" "NUL \<notin> set p" "NUL \<notin> set n"
  shows "\<exists>c. snprintf_path b room p n = Some c \<and> length c = length b
    \<and> str_of c = Some (take (room - 1) (p @ slash # n))"
proof -
  have "length (take (room - 1) (p @ slash # n)) < length b" using assms by simp
  moreover have "NUL \<notin> set (take (room - 1) (p @ slash # n))"
    using assms by (auto dest: in_set_takeD)
  ultimately show ?thesis using assms(1) strcpy_str_of by (fastforce simp: snprintf_path_def)
qed

lemma find_files_loop_True:
  "find_files_loop p e room es b r True = Some (r + length (filter (matching e) es), b)"
  by (induction es arbitrary: r) (auto simp: matching_def split: option.splits)

lemma find_files_loop_False:
  assumes "0 < room" "room \<le> length b" "NUL \<notin> set p" "\<forall>n \<in> set es. NUL \<notin> set n"
  shows "\<exists>c. find_files_loop p e room es b r False = Some (r + length (filter (matching e) es), c)
    \<and> (case filter (matching e) es of [] \<Rightarrow> c = b
       | n # _ \<Rightarrow> str_of c = Some (take (room - 1) (p @ slash # n)))"
  using assms(4)
proof (induction es arbitrary: r)
  case (Cons n es)
  show ?case
  proof (cases "matching e n")
    case True
    obtain c where "snprintf_path b room p n = Some c" "str_of c = Some (take (room - 1) (p @ slash # n))"
      using snprintf_path_correct [OF assms(1-3)] Cons.prems by auto
    moreover obtain i where "strrchr n (CHR ''.'') = Some i" "drop i n = e"
      using True by (auto simp: matching_def split: option.splits)
    ultimately show ?thesis using True by (simp add: find_files_loop_True)
  next
    case False
    then show ?thesis using Cons by (auto simp: matching_def split: option.splits)
  qed
qed simp

lemma find_files_counts:
  assumes "0 < room" "room \<le> length b" "hd b = NUL" "NUL \<notin> set p" "\<forall>n \<in> set es. NUL \<notin> set n"
  shows "\<exists>c. vm_path_find_files_with_extension_in_folder (Some es) p e b room
      = Some (length (filter (matching e) es), c)
    \<and> (case filter (matching e) es of [] \<Rightarrow> c = b
       | n # _ \<Rightarrow> str_of c = Some (take (room - 1) (p @ slash # n)))"
  using find_files_loop_False [OF assms(1,2,4,5), of e 0] assms(1-3)
  by (auto simp: vm_path_find_files_with_extension_in_folder_def)

end
