(* ===== verification/ParamVector.thy ===== *)
theory ParamVector
  imports Paths
begin

text \<open>
  The vectors of command line parameters, \<open>parameterVector.c\<close>: a 32-bit count and a heap array of
  C strings with one more cell, NULL, at its end (for \<open>execv\<close>). The array pointer is \<open>None\<close> when it
  is NULL, a cell is \<open>None\<close> when it holds NULL, and a whole result \<open>None\<close> is an access outside an
  array or through NULL. Counts and indices are \<open>uint32_t\<close> and wrap as the code's do.
\<close>

record VMParameterVector =
  count :: "32 word"
  parameters :: "string option list option"

definition cell :: "'a list \<Rightarrow> nat \<Rightarrow> 'a option" where
  "cell xs i = (if i < length xs then Some (xs ! i) else None)"

definition set_cell :: "'a list \<Rightarrow> nat \<Rightarrow> 'a \<Rightarrow> 'a list option" where
  "set_cell xs i x = (if i < length xs then Some (xs[i := x]) else None)"

definition null_vector :: VMParameterVector where
  "null_vector = \<lparr>count = 0, parameters = None\<rparr>"

definition vm_parameter_vector_destroy ::
    "VMParameterVector option \<Rightarrow> VMErrorCode \<times> VMParameterVector option" where
  "vm_parameter_vector_destroy vector =
     (case vector of None \<Rightarrow> (VM_ERROR_NULL_POINTER, None)
      | Some v \<Rightarrow> (VM_SUCCESS, Some (v\<lparr>parameters := None, count := 0\<rparr>)))"

text \<open>Both copying loops: \<open>n\<close> elements from \<open>src\<close>, from index \<open>i\<close> on, to \<open>off + i\<close> on in \<open>dst\<close>.\<close>

fun copy_loop ::
    "string option list \<Rightarrow> 32 word \<Rightarrow> nat \<Rightarrow> nat \<Rightarrow> string option list \<Rightarrow> string option list option" where
  "copy_loop src off i 0 dst = Some dst"
| "copy_loop src off i (Suc n) dst =
     do { x \<leftarrow> cell src i;
          dst \<leftarrow> set_cell dst (unat (off + of_nat i)) x;
          copy_loop src off (Suc i) n dst }"

definition copy_old :: "VMParameterVector \<Rightarrow> string option list \<Rightarrow> string option list option" where
  "copy_old v newVectorData =
     (case parameters v of
        None \<Rightarrow> if count v = 0 then Some newVectorData else None
      | Some old \<Rightarrow> copy_loop old 0 0 (unat (count v)) newVectorData)"

definition vm_parameter_vector_insert_from ::
    "(nat \<Rightarrow> bool) \<Rightarrow> VMParameterVector option \<Rightarrow> 32 word \<Rightarrow> string option list
      \<Rightarrow> (VMErrorCode \<times> VMParameterVector option) option" where
  "vm_parameter_vector_insert_from calloc vector n elements =
     (case vector of
        None \<Rightarrow> Some (VM_ERROR_NULL_POINTER, None)
      | Some v \<Rightarrow>
          let newVectorCount = count v + n;
              cells = unat (newVectorCount + 1)
          in if \<not> calloc (8 * cells) then Some (VM_ERROR_OUT_OF_MEMORY, Some v)
             else do {
               newVectorData \<leftarrow> copy_old v (replicate cells None);
               newVectorData \<leftarrow> copy_loop elements (count v) 0 (unat n) newVectorData;
               Some (VM_SUCCESS, Some (v\<lparr>count := newVectorCount, parameters := Some newVectorData\<rparr>)) })"

text \<open>The comparison with \<open>strcmp\<close> reads the element, which must not be NULL.\<close>

fun has_element_loop :: "string option list \<Rightarrow> string \<Rightarrow> nat \<Rightarrow> nat \<Rightarrow> bool option" where
  "has_element_loop ps parameter i 0 = Some False"
| "has_element_loop ps parameter i (Suc n) =
     do { x \<leftarrow> cell ps i; s \<leftarrow> x;
          if s = parameter then Some True else has_element_loop ps parameter (Suc i) n }"

definition vm_parameter_vector_has_element :: "VMParameterVector option \<Rightarrow> string \<Rightarrow> bool option" where
  "vm_parameter_vector_has_element vector parameter =
     (case vector of None \<Rightarrow> Some False
      | Some v \<Rightarrow> (case parameters v of
          None \<Rightarrow> if count v = 0 then Some False else None
        | Some ps \<Rightarrow> has_element_loop ps parameter 0 (unat (count v))))"

subsection \<open>The vector as a list\<close>

text \<open>
  \<open>holds v xs\<close>: the vector holds the strings \<open>xs\<close>, with the NULL after them when it has an array.
\<close>

definition holds :: "VMParameterVector \<Rightarrow> string list \<Rightarrow> bool" where
  "holds v xs \<longleftrightarrow> unat (count v) = length xs \<and>
     (case parameters v of None \<Rightarrow> xs = [] | Some ps \<Rightarrow> ps = map Some xs @ [None])"

lemma holds_null [simp]: "holds null_vector []"
  by (simp add: holds_def null_vector_def)

lemma copy_loop_correct:
  assumes "i + n \<le> length src" "unat off + i + n \<le> length dst" "unat off + i + n < 2 ^ 32"
  shows "copy_loop src off i n dst
    = Some (take (unat off + i) dst @ take n (drop i src) @ drop (unat off + i + n) dst)"
  using assms
proof (induction n arbitrary: i dst)
  case (Suc n)
  have lt: "unat off + i < 2 ^ LENGTH(32)" and i: "i < 2 ^ LENGTH(32)" using Suc.prems by simp_all
  have idx: "unat (off + of_nat i) = unat off + i"
    using lt i by (simp add: unat_word_ariths unat_of_nat)
  have "copy_loop src off (Suc i) n (dst[unat off + i := src ! i])
    = Some (take (unat off + Suc i) (dst[unat off + i := src ! i]) @ take n (drop (Suc i) src)
        @ drop (unat off + Suc i + n) (dst[unat off + i := src ! i]))"
    using Suc.prems by (intro Suc.IH) simp_all
  moreover have "take (unat off + Suc i) (dst[unat off + i := src ! i]) = take (unat off + i) dst @ [src ! i]"
    using Suc.prems by (simp add: take_Suc_conv_app_nth)
  moreover have "take (Suc n) (drop i src) = src ! i # take n (drop (Suc i) src)"
    using Suc.prems by (simp add: Cons_nth_drop_Suc [symmetric])
  ultimately show ?case using Suc.prems by (simp add: cell_def set_cell_def idx)
qed simp

lemma vm_parameter_vector_insert_from_correct:
  assumes "holds v xs" "length ys \<le> length els" "take (length ys) els = map Some ys"
    "length xs + length ys + 1 < 2 ^ 32" "calloc (8 * (length xs + length ys + 1))"
  shows "\<exists>w. vm_parameter_vector_insert_from calloc (Some v) (of_nat (length ys)) els
      = Some (VM_SUCCESS, Some w) \<and> holds w (xs @ ys)"
proof -
  have c: "unat (count v) = length xs" using assms(1) by (simp add: holds_def)
  have n: "unat (of_nat (length ys) :: 32 word) = length ys" using assms(4) by (simp add: unat_of_nat)
  have cn: "unat (count v + of_nat (length ys)) = length xs + length ys"
    using assms(4) c n by (simp add: unat_word_ariths)
  have cells: "unat (count v + of_nat (length ys) + 1) = Suc (length xs + length ys)"
    using assms(4) cn by (subst unat_word_ariths) simp
  let ?new = "replicate (Suc (length xs + length ys)) None :: string option list"
  have old: "copy_old v ?new = Some (map Some xs @ replicate (Suc (length ys)) None)"
  proof (cases "parameters v")
    case None
    then show ?thesis using assms(1) c by (auto simp: copy_old_def holds_def unat_eq_0)
  next
    case (Some ps)
    then show ?thesis using assms(1,4) c
      by (simp add: copy_old_def holds_def copy_loop_correct Suc_diff_le del: replicate_Suc)
  qed
  have "copy_loop els (count v) 0 (length ys) (map Some xs @ replicate (Suc (length ys)) None)
    = Some (map Some xs @ map Some ys @ [None])"
    using assms(2-4) c by (subst copy_loop_correct) (auto simp: c simp flip: replicate_append_same)
  then show ?thesis
    using assms(5) old cn n
    by (simp add: vm_parameter_vector_insert_from_def cells Let_def holds_def del: replicate_Suc of_nat_add)
qed

lemma has_element_loop_correct:
  "i + n \<le> length xs \<Longrightarrow>
    has_element_loop (map Some xs @ r) p i n = Some (p \<in> set (take n (drop i xs)))"
proof (induction n arbitrary: i)
  case (Suc n)
  then have "take (Suc n) (drop i xs) = xs ! i # take n (drop (Suc i) xs)"
    by (simp add: Cons_nth_drop_Suc [symmetric])
  with Suc show ?case by (auto simp: cell_def nth_append)
qed simp

lemma vm_parameter_vector_has_element_correct:
  assumes "holds v xs"
  shows "vm_parameter_vector_has_element (Some v) p = Some (p \<in> set xs)"
  using assms has_element_loop_correct [of 0 "length xs" xs "[None]" p]
  by (auto simp: vm_parameter_vector_has_element_def holds_def unat_eq_0 split: option.splits)

end
