(* ===== verification/Parameters.thy ===== *)
theory Parameters
  imports ParamVector
begin

text \<open>
  The command line of the virtual machine, \<open>parameters.c\<close>: sizes with a unit, the table of options,
  the search for the image in the arguments and on disk, the split of the arguments between the
  machine and the image, and the processing of the options. The build is the Unix one;
  \<open>PHARO_VM_IN_WORKER_THREAD\<close> and \<open>ALWAYS_INTERACTIVE\<close> are arguments.

  A result \<open>None\<close> is undefined behaviour of the C code (an access outside an array or through
  NULL), as in the theories below. Log messages are not modelled.
\<close>

record VMParameters =
  imageFileName :: "string option"
  isDefaultImage :: bool
  defaultImageFound :: bool
  isInteractiveSession :: bool
  isWorker :: bool
  maxStackFramesToPrint :: int
  stackPageSize :: int
  maxOldSpaceSize :: int
  maxCodeSize :: int
  edenSize :: int
  minPermSpaceSize :: int
  maxSlotsForNewSpaceAlloc :: int
  processArgc :: int
  processArgv :: "string list"
  environmentVector :: "string list"
  avoidSearchingSegmentsWithPinnedObjects :: bool
  vmParameters :: VMParameterVector
  imageParameters :: VMParameterVector

text \<open>What the program leaves outside the parameters: its globals, the working directory and its output.\<close>

datatype vm_output = Usage_on_stdout | Usage_on_stderr | Version_on_stdout

record vm_process =
  max_error_level :: int
  vmFullPath :: string
  working_dir :: "string option"
  printed :: "vm_output list"

type_synonym vm = "VMParameters \<times> vm_process"

text \<open>The system and the configuration: the C library and the files, and the names of the build.\<close>

record vm_system =
  calloc :: "nat \<Rightarrow> bool"
  strdup :: "string \<Rightarrow> bool"
  sqImageFileExists :: "string \<Rightarrow> bool"
  chdir :: "string \<Rightarrow> string option"
  realpath :: "string \<Rightarrow> string option"
  FILENAME_MAX :: nat
  PATH_MAX :: nat
  DEFAULT_IMAGE_NAME :: string

record vm_build =
  in_worker_thread :: bool
  always_interactive :: bool

subsection \<open>Sizes\<close>

definition error_number :: "VMErrorCode \<Rightarrow> int" where
  "error_number e = (case e of VM_SUCCESS \<Rightarrow> 0 | VM_ERROR \<Rightarrow> -1 | VM_ERROR_OUT_OF_MEMORY \<Rightarrow> -2
     | VM_ERROR_NULL_POINTER \<Rightarrow> -3 | VM_ERROR_EXIT_WITH_SUCCESS \<Rightarrow> -4
     | VM_ERROR_INVALID_PARAMETER \<Rightarrow> -5 | VM_ERROR_INVALID_PARAMETER_VALUE \<Rightarrow> -6)"

definition unit_multiplier :: "char \<Rightarrow> int option" where
  "unit_multiplier c =
     (if c = CHR ''k'' \<or> c = CHR ''K'' then Some 1024
      else if c = CHR ''m'' \<or> c = CHR ''M'' then Some (1024 * 1024)
      else if c = CHR ''g'' \<or> c = CHR ''G'' then Some (1024 * 1024 * 1024)
      else None)"

text \<open>The text is cut to the 254 characters of the local buffer; \<open>None\<close> is a product of signed \<open>long long\<close>s that overflows.\<close>

definition parseByteSize :: "string \<Rightarrow> int option" where
  "parseByteSize text =
     (let argument = take 254 text;
          multiplier = (if argument \<noteq> [] then unit_multiplier (last argument) else None);
          argument = (case multiplier of None \<Rightarrow> argument | Some _ \<Rightarrow> butlast argument);
          (intValue, range_error) = strtoll argument
      in if range_error \<or> intValue < 0 then Some (error_number VM_ERROR_INVALID_PARAMETER_VALUE)
         else times_ll intValue (case multiplier of None \<Rightarrow> 1 | Some m \<Rightarrow> m))"

subsection \<open>The processing functions\<close>

text \<open>The argument is \<open>None\<close> when the pointer is NULL; the functions that read it need one.\<close>

type_synonym processing = "vm_system \<Rightarrow> string option \<Rightarrow> vm \<Rightarrow> (VMErrorCode \<times> vm) option"

definition print_out :: "vm_output \<Rightarrow> vm \<Rightarrow> vm" where
  "print_out out s = (fst s, (snd s)\<lparr>printed := printed (snd s) @ [out]\<rparr>)"

definition invalid_value :: "vm \<Rightarrow> (VMErrorCode \<times> vm) option" where
  "invalid_value s = Some (VM_ERROR_INVALID_PARAMETER_VALUE, print_out Usage_on_stderr s)"

definition accept :: "(VMParameters \<Rightarrow> VMParameters) \<Rightarrow> vm \<Rightarrow> (VMErrorCode \<times> vm) option" where
  "accept f s = Some (VM_SUCCESS, (f (fst s), snd s))"

definition processLogLevelOption :: processing where
  "processLogLevelOption sys value s =
     do { v \<leftarrow> value;
          let intValue = to_int (fst (strtoll v)) in
          if intValue = 0 then invalid_value s
          else Some (VM_SUCCESS, (fst s, (snd s)\<lparr>max_error_level := intValue\<rparr>)) }"

definition processStackPageSizeOption :: processing where
  "processStackPageSizeOption sys value s =
     do { v \<leftarrow> value;
          bytes \<leftarrow> parseByteSize v;
          let intValue = to_int bytes in
          if intValue < 0 then invalid_value s
          else accept (stackPageSize_update (\<lambda>_. intValue)) s }"

definition processMaxFramesToPrintOption :: processing where
  "processMaxFramesToPrintOption sys value s =
     do { v \<leftarrow> value;
          let intValue = to_int (fst (strtoll v)) in
          if intValue < 0 then invalid_value s
          else accept (maxStackFramesToPrint_update (\<lambda>_. intValue)) s }"

definition processMaxOldSpaceSizeOption :: processing where
  "processMaxOldSpaceSizeOption sys originalArgument s =
     do { v \<leftarrow> originalArgument;
          intValue \<leftarrow> parseByteSize v;
          if intValue < 0 then invalid_value s
          else accept (maxOldSpaceSize_update (\<lambda>_. intValue)) s }"

definition processMaxCodeSpaceSizeOption :: processing where
  "processMaxCodeSpaceSizeOption sys originalArgument s =
     do { v \<leftarrow> originalArgument;
          intValue \<leftarrow> parseByteSize v;
          if intValue < 0 then invalid_value s
          else accept (maxCodeSize_update (\<lambda>_. intValue)) s }"

definition processMinPermSpaceSizeOption :: processing where
  "processMinPermSpaceSizeOption sys originalArgument s =
     do { v \<leftarrow> originalArgument;
          intValue \<leftarrow> parseByteSize v;
          if intValue < 0 then invalid_value s
          else accept (minPermSpaceSize_update (\<lambda>_. intValue)) s }"

definition processMaxSlotsForNewSpaceAlloc :: processing where
  "processMaxSlotsForNewSpaceAlloc sys originalArgument s =
     do { v \<leftarrow> originalArgument;
          let intValue = fst (strtoll v) in
          if intValue < 0 then invalid_value s
          else accept (maxSlotsForNewSpaceAlloc_update (\<lambda>_. intValue)) s }"

text \<open>A directory that cannot be entered is logged, and the option still succeeds.\<close>

definition processWorkingDirectory :: processing where
  "processWorkingDirectory sys originalArgument s =
     do { v \<leftarrow> originalArgument;
          case chdir sys v of
            None \<Rightarrow> Some (VM_SUCCESS, s)
          | Some d \<Rightarrow> Some (VM_SUCCESS, (fst s, (snd s)\<lparr>working_dir := Some d\<rparr>)) }"

definition processEdenSizeOption :: processing where
  "processEdenSizeOption sys originalArgument s =
     do { v \<leftarrow> originalArgument;
          intValue \<leftarrow> parseByteSize v;
          if intValue < 0 then invalid_value s
          else if intValue > 1024 * 1024 * 1024 then invalid_value s
          else accept (edenSize_update (\<lambda>_. intValue)) s }"

definition processWorkerOption :: processing where
  "processWorkerOption sys argument s = accept (isWorker_update (\<lambda>_. True)) s"

definition processHelpOption :: processing where
  "processHelpOption sys argument s = Some (VM_ERROR_EXIT_WITH_SUCCESS, print_out Usage_on_stdout s)"

definition processPrintVersionOption :: processing where
  "processPrintVersionOption sys argument s = Some (VM_ERROR_EXIT_WITH_SUCCESS, print_out Version_on_stdout s)"

definition processAvoidSearchingSegmentsWithPinnedObjects :: processing where
  "processAvoidSearchingSegmentsWithPinnedObjects sys argument s =
     accept (avoidSearchingSegmentsWithPinnedObjects_update (\<lambda>_. True)) s"

subsection \<open>The table of options\<close>

record VMParameterSpec =
  pname :: string
  hasArgument :: bool
  pfunction :: "processing option"

definition spec :: "string \<Rightarrow> bool \<Rightarrow> processing option \<Rightarrow> VMParameterSpec" where
  "spec n a f = \<lparr>pname = n, hasArgument = a, pfunction = f\<rparr>"

definition vm_parameters_spec :: "vm_build \<Rightarrow> VMParameterSpec list" where
  "vm_parameters_spec bld =
     [spec ''headless'' False None]
     @ (if in_worker_thread bld then [spec ''worker'' False (Some processWorkerOption)] else [])
     @ [spec ''interactive'' False None,
        spec ''vm-display-null'' False None,
        spec ''help'' False (Some processHelpOption),
        spec ''h'' False (Some processHelpOption),
        spec ''version'' False (Some processPrintVersionOption),
        spec ''logLevel'' True (Some processLogLevelOption),
        spec ''stackPageSize'' True (Some processStackPageSizeOption),
        spec ''maxFramesToLog'' True (Some processMaxFramesToPrintOption),
        spec ''maxOldSpaceSize'' True (Some processMaxOldSpaceSizeOption),
        spec ''codeSize'' True (Some processMaxCodeSpaceSizeOption),
        spec ''edenSize'' True (Some processEdenSizeOption),
        spec ''minPermSpaceSize'' True (Some processMinPermSpaceSizeOption),
        spec ''maxSlotsForNewSpaceAlloc'' True (Some processMaxSlotsForNewSpaceAlloc),
        spec ''workingDirectory'' True (Some processWorkingDirectory),
        spec ''avoidSearchingSegmentsWithPinnedObjects'' False
          (Some processAvoidSearchingSegmentsWithPinnedObjects)]"

definition findParameterWithName :: "vm_build \<Rightarrow> string \<Rightarrow> nat \<Rightarrow> VMParameterSpec option" where
  "findParameterWithName bld argumentName argumentNameSize =
     find (\<lambda>s. length (pname s) = argumentNameSize \<and> pname s = take argumentNameSize argumentName)
       (vm_parameters_spec bld)"

definition skip_dashes :: "string \<Rightarrow> string" where
  "skip_dashes param = (if take 1 (drop 1 param) = ''-'' then drop 2 param else drop 1 param)"

definition findParameterArity :: "vm_build \<Rightarrow> string \<Rightarrow> nat" where
  "findParameterArity bld parameter =
     (if take 1 parameter \<noteq> ''-'' then 0
      else let name = skip_dashes parameter in
        if strchr name (CHR ''='') \<noteq> None then 0
        else case findParameterWithName bld name (length name) of
               None \<Rightarrow> 0
             | Some s \<Rightarrow> if hasArgument s then 1 else 0)"

subsection \<open>Finding the image\<close>

function findImageNameIndex_loop :: "vm_build \<Rightarrow> string list \<Rightarrow> nat \<Rightarrow> nat" where
  "findImageNameIndex_loop bld argv i =
     (if i < length argv then
        if argv ! i = ''--'' then i
        else if take 1 (argv ! i) = ''-''
          then findImageNameIndex_loop bld argv (i + findParameterArity bld (argv ! i) + 1)
        else i
      else length argv)"
  by auto

termination by (relation "measure (\<lambda>(bld, argv, i). length argv - i)") auto

definition findImageNameIndex :: "vm_build \<Rightarrow> string list \<Rightarrow> nat" where
  "findImageNameIndex bld argv = findImageNameIndex_loop bld argv 1"

declare findImageNameIndex_loop.simps [simp del]

definition fillUpImageName :: "vm_system \<Rightarrow> vm_build \<Rightarrow> string list \<Rightarrow> VMParameters \<Rightarrow> VMParameters" where
  "fillUpImageName sys bld argv params =
     (let imageNameIndex = findImageNameIndex bld argv
      in if imageNameIndex \<noteq> length argv \<and> argv ! imageNameIndex \<noteq> ''--''
         then params\<lparr>imageFileName := (if strdup sys (argv ! imageNameIndex)
                                        then Some (argv ! imageNameIndex) else None),
                      isDefaultImage := False, isInteractiveSession := False\<rparr>
         else params)"

definition vm_image_search_suffixes :: "vm_system \<Rightarrow> string list" where
  "vm_image_search_suffixes sys = [DEFAULT_IMAGE_NAME sys]"

definition found_image :: "string option \<Rightarrow> bool \<Rightarrow> VMParameters \<Rightarrow> VMParameters" where
  "found_image imagePath found params =
     params\<lparr>imageFileName := imagePath, isDefaultImage := True, defaultImageFound := found\<rparr>"

text \<open>The search of the suffixes leaves the path it found, or the buffer for the search after it.\<close>

fun search_suffixes ::
    "vm_system \<Rightarrow> string \<Rightarrow> string list \<Rightarrow> char list \<Rightarrow> (string option \<times> char list) option" where
  "search_suffixes sys vmPath [] imagePathBuffer = Some (None, imagePathBuffer)"
| "search_suffixes sys vmPath (searchSuffix # suffixes) imagePathBuffer =
     do {
       (_, imagePathBuffer) \<leftarrow> vm_path_join_into imagePathBuffer (FILENAME_MAX sys + 1) vmPath searchSuffix;
       path \<leftarrow> str_of imagePathBuffer;
       if sqImageFileExists sys path then Some (Some path, imagePathBuffer)
       else search_suffixes sys vmPath suffixes imagePathBuffer }"

definition vm_find_startup_image ::
    "vm_system \<Rightarrow> string option \<Rightarrow> string \<Rightarrow> VMParameters \<Rightarrow> (VMErrorCode \<times> VMParameters) option" where
  "vm_find_startup_image sys cwd vmExecutablePath params =
     (let room = FILENAME_MAX sys + 1; zeros = replicate room NUL in
      if \<not> calloc sys room then Some (VM_ERROR_OUT_OF_MEMORY, params)
      else do {
        (_, searchPathBuffer) \<leftarrow> vm_path_make_absolute_into cwd zeros room vmExecutablePath;
        searchPath \<leftarrow> str_of searchPathBuffer;
        vmPathBuffer \<leftarrow> (if sqImageFileExists sys searchPath
          then map_option snd (vm_path_extract_dirname_into zeros room searchPath)
          else do { b \<leftarrow> strncpy zeros vmExecutablePath (FILENAME_MAX sys); poke b (FILENAME_MAX sys) NUL });
        vmPath \<leftarrow> str_of vmPathBuffer;
        (found, imagePathBuffer) \<leftarrow> search_suffixes sys vmPath (vm_image_search_suffixes sys) zeros;
        case found of
          Some imagePath \<Rightarrow> Some (VM_SUCCESS, found_image (Some imagePath) True params)
        | None \<Rightarrow> do {
            (_, searchPathBuffer) \<leftarrow> vm_path_get_current_working_dir_into cwd searchPathBuffer room;
            searchPath \<leftarrow> str_of searchPathBuffer;
            (_, imagePathBuffer) \<leftarrow> vm_path_join_into imagePathBuffer room searchPath (DEFAULT_IMAGE_NAME sys);
            path \<leftarrow> str_of imagePathBuffer;
            Some (VM_SUCCESS,
              if sqImageFileExists sys path then found_image (Some path) True params
              else found_image (if strdup sys (DEFAULT_IMAGE_NAME sys) then Some (DEFAULT_IMAGE_NAME sys) else None)
                     False params) } })"

subsection \<open>Splitting the arguments\<close>

definition zeroed :: VMParameters where
  "zeroed = \<lparr>imageFileName = None, isDefaultImage = False, defaultImageFound = False,
     isInteractiveSession = False, isWorker = False, maxStackFramesToPrint = 0, stackPageSize = 0,
     maxOldSpaceSize = 0, maxCodeSize = 0, edenSize = 0, minPermSpaceSize = 0,
     maxSlotsForNewSpaceAlloc = 0, processArgc = 0, processArgv = [], environmentVector = [],
     avoidSearchingSegmentsWithPinnedObjects = False,
     vmParameters = null_vector, imageParameters = null_vector\<rparr>"

definition vm_parameters_destroy :: "VMParameters option \<Rightarrow> VMErrorCode \<times> VMParameters option" where
  "vm_parameters_destroy params =
     (case params of None \<Rightarrow> (VM_ERROR_NULL_POINTER, None) | Some p \<Rightarrow> (VM_SUCCESS, Some zeroed))"

definition PHARO_DEFAULT_MAX_FRAMES_TO_LOG :: int where
  "PHARO_DEFAULT_MAX_FRAMES_TO_LOG = 0"

definition vm_parameters_init :: "VMParameters \<Rightarrow> VMParameters" where
  "vm_parameters_init params =
     params\<lparr>vmParameters := null_vector, imageParameters := null_vector,
       maxStackFramesToPrint := PHARO_DEFAULT_MAX_FRAMES_TO_LOG, maxCodeSize := 0, maxOldSpaceSize := 0,
       maxSlotsForNewSpaceAlloc := 0, edenSize := 0, minPermSpaceSize := 0, stackPageSize := 0,
       imageFileName := None, isDefaultImage := False, defaultImageFound := False,
       isInteractiveSession := False, avoidSearchingSegmentsWithPinnedObjects := False,
       isWorker := False\<rparr>"

text \<open>The array \<open>argv\<close> of a C program: its \<open>argc\<close> strings and the NULL after them.\<close>

definition argv_cells :: "string list \<Rightarrow> string option list" where
  "argv_cells argv = map Some argv @ [None]"

definition insert_vm ::
    "vm_system \<Rightarrow> 32 word \<Rightarrow> string option list \<Rightarrow> VMParameters \<Rightarrow> (VMErrorCode \<times> VMParameters) option" where
  "insert_vm sys n elements params =
     do { (error, v) \<leftarrow> vm_parameter_vector_insert_from (calloc sys) (Some (vmParameters params)) n elements;
          v \<leftarrow> v;
          Some (error, params\<lparr>vmParameters := v\<rparr>) }"

definition insert_image ::
    "vm_system \<Rightarrow> 32 word \<Rightarrow> string option list \<Rightarrow> VMParameters \<Rightarrow> (VMErrorCode \<times> VMParameters) option" where
  "insert_image sys n elements params =
     do { (error, v) \<leftarrow> vm_parameter_vector_insert_from (calloc sys) (Some (imageParameters params)) n elements;
          v \<leftarrow> v;
          Some (error, params\<lparr>imageParameters := v\<rparr>) }"

definition isInConsole :: bool where
  "isInConsole = False"

definition default_image ::
    "vm_system \<Rightarrow> string option \<Rightarrow> string list \<Rightarrow> VMParameters \<Rightarrow> (VMErrorCode \<times> VMParameters) option" where
  "default_image sys cwd argv params =
     (if imageFileName params = None then do {
        argv0 \<leftarrow> (case argv of [] \<Rightarrow> None | a # _ \<Rightarrow> Some a);
        (error, params) \<leftarrow> vm_find_startup_image sys cwd argv0 params;
        if error \<noteq> VM_SUCCESS then Some (error, params)
        else Some (VM_SUCCESS,
          params\<lparr>isInteractiveSession := (\<not> isInConsole \<and> isDefaultImage params)\<rparr>) }
      else Some (VM_SUCCESS, params))"

definition splitVMAndImageParameters ::
    "vm_system \<Rightarrow> vm_build \<Rightarrow> string option \<Rightarrow> string list \<Rightarrow> VMParameters
      \<Rightarrow> (VMErrorCode \<times> VMParameters) option" where
  "splitVMAndImageParameters sys bld cwd argv params =
     (let imageNameIndex = findImageNameIndex bld argv;
          numberOfVMParameters = imageNameIndex;
          numberOfImageParameters = length argv - imageNameIndex - 1
      in do {
        (error, params) \<leftarrow> default_image sys cwd argv params;
        if error \<noteq> VM_SUCCESS then Some (error, params) else do {
          (error, params) \<leftarrow> insert_image sys (of_nat numberOfImageParameters)
            (drop (imageNameIndex + 1) (argv_cells argv)) params;
          if error \<noteq> VM_SUCCESS then Some (error, zeroed) else do {
            (error, params) \<leftarrow> insert_vm sys (of_nat numberOfVMParameters) (argv_cells argv) params;
            if error \<noteq> VM_SUCCESS then Some (error, zeroed)
            else if always_interactive bld then Some (VM_SUCCESS, params)
            else do {
              (error, params) \<leftarrow> insert_vm sys 1 [Some ''--headless''] params;
              if error \<noteq> VM_SUCCESS then Some (error, zeroed) else Some (VM_SUCCESS, params) } } } })"

definition vm_parameters_ensure_interactive_image_parameter ::
    "vm_system \<Rightarrow> vm_build \<Rightarrow> VMParameters \<Rightarrow> (VMErrorCode \<times> VMParameters) option" where
  "vm_parameters_ensure_interactive_image_parameter sys bld params =
     do {
       (error, params) \<leftarrow>
         (if isInteractiveSession params then do {
            has \<leftarrow> vm_parameter_vector_has_element (Some (imageParameters params)) ''--interactive'';
            if \<not> has then insert_image sys 1 [Some ''--interactive''] params else Some (VM_SUCCESS, params) }
          else Some (VM_SUCCESS, params));
       if error \<noteq> VM_SUCCESS \<or> \<not> always_interactive bld then Some (error, params) else do {
         headless \<leftarrow> vm_parameter_vector_has_element (Some (vmParameters params)) ''--headless'';
         interactive \<leftarrow> vm_parameter_vector_has_element (Some (imageParameters params)) ''--interactive'';
         (error, params) \<leftarrow>
           (if \<not> headless \<and> \<not> interactive then insert_image sys 1 [Some ''--interactive''] params
            else Some (VM_SUCCESS, params));
         if error \<noteq> VM_SUCCESS then Some (error, params) else do {
           headless \<leftarrow> vm_parameter_vector_has_element (Some (vmParameters params)) ''--headless'';
           interactive \<leftarrow> vm_parameter_vector_has_element (Some (imageParameters params)) ''--interactive'';
           if \<not> headless \<and> interactive then insert_vm sys 1 [Some ''--headless''] params
           else Some (VM_SUCCESS, params) } } }"

subsection \<open>Processing the options\<close>

text \<open>The name of an option without its dashes, its length up to an equal sign, and what follows it.\<close>

definition split_option :: "string \<Rightarrow> string \<times> nat \<times> string option" where
  "split_option param =
     (let argumentName = skip_dashes param
      in case strchr argumentName (CHR ''='') of
           None \<Rightarrow> (argumentName, length argumentName, None)
         | Some k \<Rightarrow> (argumentName, k, Some (drop (k + 1) argumentName)))"

function processVMOptions_loop ::
    "vm_system \<Rightarrow> vm_build \<Rightarrow> string option list \<Rightarrow> nat \<Rightarrow> nat \<Rightarrow> vm \<Rightarrow> (VMErrorCode \<times> vm) option" where
  "processVMOptions_loop sys bld ps n i s =
     (if i < n then do {
        param \<leftarrow> cell ps i;
        case param of
          None \<Rightarrow> Some (VM_SUCCESS, s)
        | Some param \<Rightarrow>
            if take 1 param \<noteq> ''-'' then processVMOptions_loop sys bld ps n (i + 1) s
            else
              let (argumentName, argumentNameSize, argumentValue) = split_option param
              in case findParameterWithName bld argumentName argumentNameSize of
                   None \<Rightarrow> Some (VM_ERROR_INVALID_PARAMETER, print_out Usage_on_stderr s)
                 | Some paramSpec \<Rightarrow>
                     let fetch = (hasArgument paramSpec \<and> argumentValue = None \<and> i + 1 < n)
                     in do {
                       argumentValue \<leftarrow> (if fetch then cell ps (i + 1) else Some argumentValue);
                       if hasArgument paramSpec \<and> argumentValue = None
                       then Some (VM_ERROR_INVALID_PARAMETER_VALUE, print_out Usage_on_stderr s)
                       else do {
                         (error, s) \<leftarrow> (case pfunction paramSpec of
                             None \<Rightarrow> Some (VM_SUCCESS, s)
                           | Some f \<Rightarrow> f sys argumentValue s);
                         if error \<noteq> VM_SUCCESS then Some (error, s)
                         else processVMOptions_loop sys bld ps n (if fetch then i + 2 else i + 1) s } } }
      else Some (VM_SUCCESS, s))"
  by auto

termination by (relation "measure (\<lambda>(sys, bld, ps, n, i, s). n - i)") auto

declare processVMOptions_loop.simps [simp del]

definition processVMOptions :: "vm_system \<Rightarrow> vm_build \<Rightarrow> vm \<Rightarrow> (VMErrorCode \<times> vm) option" where
  "processVMOptions sys bld s =
     (let vector = vmParameters (fst s) in
      case parameters vector of
        None \<Rightarrow> if unat (count vector) \<le> 1 then Some (VM_SUCCESS, s) else None
      | Some ps \<Rightarrow> processVMOptions_loop sys bld ps (unat (count vector)) 1 s)"

subsection \<open>Parsing the command line\<close>

text \<open>
  \<open>getFullPath\<close> of \<open>utils.c\<close>: a path that does not start with a separator or a dot is copied behind
  \<open>./\<close> into a local buffer of the size of the caller's; \<open>realpath\<close> writes its answer into the caller's.
\<close>

definition getFullPath :: "vm_system \<Rightarrow> string \<Rightarrow> nat \<Rightarrow> string option option" where
  "getFullPath sys relativePath fullPathSize =
     (let resolve = (\<lambda>path. case realpath sys path of
            None \<Rightarrow> Some None
          | Some r \<Rightarrow> if length r < fullPathSize then Some (Some r) else None)
      in if take 1 relativePath = ''/'' \<or> take 1 relativePath = ''.'' then resolve relativePath
         else if length relativePath + 3 \<le> fullPathSize then resolve (''./'' @ relativePath)
         else None)"

definition setVMPath :: "vm_system \<Rightarrow> string \<Rightarrow> vm_process \<Rightarrow> vm_process option" where
  "setVMPath sys path process =
     (if length path < PATH_MAX sys then Some (process\<lparr>vmFullPath := path\<rparr>) else None)"

definition vm_parameters_parse ::
    "vm_system \<Rightarrow> vm_build \<Rightarrow> string list \<Rightarrow> vm \<Rightarrow> (VMErrorCode \<times> vm) option" where
  "vm_parameters_parse sys bld argv s =
     do {
       let params = fillUpImageName sys bld argv (fst s);
       (error, params) \<leftarrow> splitVMAndImageParameters sys bld (working_dir (snd s)) argv params;
       if error \<noteq> VM_SUCCESS then Some (error, (params, snd s))
       else if \<not> calloc sys (FILENAME_MAX sys) then Some (VM_ERROR_OUT_OF_MEMORY, (zeroed, snd s))
       else do {
         argv0 \<leftarrow> (case argv of [] \<Rightarrow> None | a # _ \<Rightarrow> Some a);
         fullPath \<leftarrow> getFullPath sys argv0 (FILENAME_MAX sys);
         let fullPath = (case fullPath of Some p \<Rightarrow> p | None \<Rightarrow> take (FILENAME_MAX sys - 1) argv0);
         process \<leftarrow> setVMPath sys fullPath (snd s);
         (error, s) \<leftarrow> processVMOptions sys bld (params, process);
         if error \<noteq> VM_SUCCESS then Some (error, (zeroed, snd s)) else Some (VM_SUCCESS, s) } }"

subsection \<open>Sizes read back\<close>

text \<open>A numeral of at most \<open>k\<close> digits.\<close>

lemma length_decimal: "n < 10 ^ k \<Longrightarrow> 0 < k \<Longrightarrow> length (decimal n) \<le> k"
proof (induction n arbitrary: k rule: decimal.induct)
  case (1 n)
  show ?case
  proof (cases "n < 10")
    case True
    then show ?thesis using 1 by (simp add: decimal.simps [of n])
  next
    case False
    then obtain j where k: "k = Suc j" "0 < j" using 1(2,3)
      by (cases k; cases "k - 1") auto
    have "n div 10 < 10 ^ j" using 1(2) k by (simp add: less_mult_imp_div_less)
    from 1(1) [OF False this k(2)] show ?thesis using False k by (simp add: decimal.simps [of n])
  qed
qed

lemma unit_not_digit: "unit_multiplier u = Some m \<Longrightarrow> \<not> isdigit u"
  by (auto simp: unit_multiplier_def isdigit_def split: if_splits)

lemma unit_pos: "unit_multiplier u = Some m \<Longrightarrow> 1 \<le> m"
  by (auto simp: unit_multiplier_def split: if_splits)

lemma digit_no_unit: "isdigit c \<Longrightarrow> unit_multiplier c = None"
  by (auto simp: unit_multiplier_def isdigit_def)

definition size_text :: "nat \<Rightarrow> char option \<Rightarrow> string" where
  "size_text n u = decimal n @ (case u of None \<Rightarrow> [] | Some c \<Rightarrow> [c])"

lemma strtoll_decimal': "n < 2 ^ 63 \<Longrightarrow> strtoll (decimal n) = (int n, False)"
  using strtoll_decimal [of n "[]"] by simp

text \<open>
  C37: A size written as a numeral with or without a unit letter is read back as the number of
  bytes it means, for every size of up to 63 bits.
\<close>
theorem parseByteSize_reads_back:
  assumes "u = None \<and> m = 1 \<or> (\<exists>c. u = Some c \<and> unit_multiplier c = Some m)"
    and "int n * m < 2 ^ 63"
  shows "parseByteSize (size_text n u) = Some (int n * m)"
proof -
  have m: "1 \<le> m" using assms(1) unit_pos by auto
  have "int n * 1 \<le> int n * m" using m by (intro mult_left_mono) simp_all
  then have n: "n < 2 ^ 63" using assms(2) by simp
  then have "n < 10 ^ 19" by simp
  from length_decimal [OF this] have len: "length (decimal n) \<le> 19" by simp
  have prod: "times_ll (int n) m = Some (int n * m)"
    using assms(2) m by (intro times_ll_exact) (simp_all add: order_trans [of _ 0])
  have one: "times_ll (int n) 1 = Some (int n)" using n by (subst times_ll_exact) simp_all
  show ?thesis
  proof (cases u)
    case None
    have "isdigit (last (decimal n))" using decimal_digits [of n] by (simp add: last_in_set)
    then show ?thesis
      using None len n assms(1) one by (simp add: parseByteSize_def size_text_def digit_no_unit strtoll_decimal')
  next
    case (Some c)
    then show ?thesis using len n assms(1) prod
      by (simp add: parseByteSize_def size_text_def strtoll_decimal')
  qed
qed


definition sizes_ok :: "VMParameters \<Rightarrow> bool" where
  "sizes_ok p \<longleftrightarrow> 0 \<le> maxStackFramesToPrint p \<and> maxStackFramesToPrint p < 2 ^ 31
     \<and> 0 \<le> stackPageSize p \<and> stackPageSize p < 2 ^ 31
     \<and> 0 \<le> maxOldSpaceSize p \<and> maxOldSpaceSize p < 2 ^ 63
     \<and> 0 \<le> maxCodeSize p \<and> maxCodeSize p < 2 ^ 63
     \<and> 0 \<le> edenSize p \<and> edenSize p \<le> 2 ^ 30
     \<and> 0 \<le> minPermSpaceSize p \<and> minPermSpaceSize p < 2 ^ 63
     \<and> 0 \<le> maxSlotsForNewSpaceAlloc p \<and> maxSlotsForNewSpaceAlloc p < 2 ^ 63"

lemma parseByteSize_range: "parseByteSize t = Some v \<Longrightarrow> v < 2 ^ 63"
  by (auto simp: parseByteSize_def error_number_def times_ll_def Let_def split: prod.splits if_splits)

lemmas ranges = strtoll_range [THEN conjunct1, simplified]
  strtoll_range [THEN conjunct2, simplified] to_int_range [THEN conjunct1, simplified]
  to_int_range [THEN conjunct2, simplified]

definition table_error :: "VMErrorCode \<Rightarrow> bool" where
  "table_error e \<longleftrightarrow> e = VM_SUCCESS \<or> e = VM_ERROR_INVALID_PARAMETER_VALUE \<or> e = VM_ERROR_EXIT_WITH_SUCCESS"

definition loop_keeps :: "vm \<Rightarrow> vm \<Rightarrow> bool" where
  "loop_keeps s s' \<longleftrightarrow> (sizes_ok (fst s) \<longrightarrow> sizes_ok (fst s'))
     \<and> imageFileName (fst s') = imageFileName (fst s)
     \<and> isDefaultImage (fst s') = isDefaultImage (fst s)
     \<and> isInteractiveSession (fst s') = isInteractiveSession (fst s)
     \<and> vmParameters (fst s') = vmParameters (fst s) \<and> imageParameters (fst s') = imageParameters (fst s)"

text \<open>Only the size of a size option can overflow.\<close>

definition well_behaved :: "bool \<Rightarrow> processing \<Rightarrow> bool" where
  "well_behaved arg f \<longleftrightarrow> (\<forall>sys v s. \<not> arg \<or> v \<noteq> None \<longrightarrow>
     (case f sys v s of None \<Rightarrow> \<exists>t. v = Some t \<and> parseByteSize t = None
      | Some (e, s') \<Rightarrow> table_error e \<and> loop_keeps s s'))"

text \<open>The texts that an option may take for its value: the arguments and what follows an equal sign in them.\<close>

definition overflows :: "string list \<Rightarrow> bool" where
  "overflows xs \<longleftrightarrow> (\<exists>x \<in> set xs. parseByteSize x = None
     \<or> (\<exists>t. snd (snd (split_option x)) = Some t \<and> parseByteSize t = None))"

lemmas processing_defs = processWorkerOption_def processHelpOption_def processPrintVersionOption_def
  processLogLevelOption_def processStackPageSizeOption_def processMaxFramesToPrintOption_def
  processMaxOldSpaceSizeOption_def processMaxCodeSpaceSizeOption_def processEdenSizeOption_def
  processMinPermSpaceSizeOption_def processMaxSlotsForNewSpaceAlloc_def processWorkingDirectory_def
  processAvoidSearchingSegmentsWithPinnedObjects_def

lemma well_behaved_total:
  assumes "\<And>sys v s. \<not> arg \<or> v \<noteq> None \<Longrightarrow> \<exists>e s'. f sys v s = Some (e, s') \<and> table_error e \<and> loop_keeps s s'"
  shows "well_behaved arg f"
  unfolding well_behaved_def
proof (intro allI impI)
  fix sys and v :: "string option" and s assume "\<not> arg \<or> v \<noteq> None"
  then obtain e s' where "f sys v s = Some (e, s') \<and> table_error e \<and> loop_keeps s s'" using assms by blast
  then show "case f sys v s of None \<Rightarrow> \<exists>t. v = Some t \<and> parseByteSize t = None | Some (e, s') \<Rightarrow> table_error e \<and> loop_keeps s s'" by simp
qed

lemma well_behaved_size:
  assumes "\<And>sys t n s. parseByteSize t = Some n \<Longrightarrow> \<exists>e s'. f sys (Some t) s = Some (e, s') \<and> table_error e \<and> loop_keeps s s'"
    and "\<And>sys t s. parseByteSize t = None \<Longrightarrow> f sys (Some t) s = None"
  shows "well_behaved True f"
  unfolding well_behaved_def
proof (intro allI impI)
  fix sys and v :: "string option" and s assume "\<not> True \<or> v \<noteq> None"
  then obtain t where v: "v = Some t" by auto
  show "case f sys v s of None \<Rightarrow> \<exists>t. v = Some t \<and> parseByteSize t = None | Some (e, s') \<Rightarrow> table_error e \<and> loop_keeps s s'"
  proof (cases "parseByteSize t")
    case None
    then show ?thesis using assms(2) v by simp
  next
    case (Some n)
    then obtain e s' where "f sys (Some t) s = Some (e, s') \<and> table_error e \<and> loop_keeps s s'" using assms(1) by blast
    then show ?thesis using v by simp
  qed
qed

lemmas processing_outcomes = processing_defs accept_def invalid_value_def print_out_def table_error_def loop_keeps_def sizes_ok_def

lemma sizes_well_behaved:
  "well_behaved True processStackPageSizeOption" "well_behaved True processMaxOldSpaceSizeOption"
  "well_behaved True processMaxCodeSpaceSizeOption" "well_behaved True processEdenSizeOption"
  "well_behaved True processMinPermSpaceSizeOption"
  by (rule well_behaved_size; auto simp: processing_outcomes ranges Let_def dest!: parseByteSize_range)+

lemma others_well_behaved:
  "well_behaved True processLogLevelOption" "well_behaved True processMaxFramesToPrintOption"
  "well_behaved True processMaxSlotsForNewSpaceAlloc" "well_behaved True processWorkingDirectory"
  "well_behaved False processWorkerOption" "well_behaved False processHelpOption" "well_behaved False processPrintVersionOption"
  "well_behaved False processAvoidSearchingSegmentsWithPinnedObjects"
  by (rule well_behaved_total; auto simp: processing_outcomes ranges Let_def split: option.split)+

lemma table_well_behaved:
  "sp \<in> set (vm_parameters_spec bld) \<Longrightarrow> pfunction sp = Some f \<Longrightarrow> well_behaved (hasArgument sp) f"
  by (auto simp: vm_parameters_spec_def spec_def sizes_well_behaved others_well_behaved split: if_splits)

lemma findParameterWithName_in_table:
  "findParameterWithName bld a n = Some sp \<Longrightarrow> sp \<in> set (vm_parameters_spec bld)"
  by (auto simp: findParameterWithName_def find_Some_iff)

lemma cell_strings: "i < length xs \<Longrightarrow> cell (map Some xs @ r) i = Some (Some (xs ! i))"
  by (simp add: cell_def nth_append)

definition loop_error :: "VMErrorCode \<Rightarrow> bool" where
  "loop_error e \<longleftrightarrow> table_error e \<or> e = VM_ERROR_INVALID_PARAMETER"

lemma loop_keeps_refl [simp]: "loop_keeps s s"
  by (simp add: loop_keeps_def)

lemma loop_keeps_print [simp]: "loop_keeps s (print_out out s)"
  by (simp add: loop_keeps_def print_out_def)

lemma loop_keeps_trans: "loop_keeps s t \<Longrightarrow> loop_keeps t u \<Longrightarrow> loop_keeps s u"
  by (simp add: loop_keeps_def)

lemma processVMOptions_loop_safe:
  "case processVMOptions_loop sys bld (map Some xs @ r) (length xs) i s of None \<Rightarrow> overflows xs
     | Some (e, s') \<Rightarrow> loop_error e \<and> loop_keeps s s'"
proof (induction "length xs - i" arbitrary: i s rule: less_induct)
  case less
  let ?ps = "map Some xs @ r"
  show ?case
  proof (cases "i < length xs")
    case False
    then show ?thesis by (simp add: processVMOptions_loop.simps [of _ _ _ _ i] loop_error_def table_error_def)
  next
    case True
    define param where "param = xs ! i"
    have c: "cell ?ps i = Some (Some param)" using True by (simp add: cell_strings param_def)
    show ?thesis
    proof (cases "take 1 param = ''-''")
      case False
      with True less(1) [of "i + 1" s] c show ?thesis
        by (simp add: processVMOptions_loop.simps [of _ _ _ _ i])
    next
      case dash: True
      obtain a k v where sp: "split_option param = (a, k, v)" using prod_cases3 by blast
      show ?thesis
      proof (cases "findParameterWithName bld a k")
        case None
        then show ?thesis using True c dash sp
          by (simp add: processVMOptions_loop.simps [of _ _ _ _ i] loop_error_def table_error_def)
      next
        case (Some ps)
        define fetch where "fetch = (hasArgument ps \<and> v = None \<and> i + 1 < length xs)"
        define j where "j = (if fetch then i + 2 else i + 1)"
        define w where "w = (if fetch then Some (xs ! (i + 1)) else v)"
        have w: "(if fetch then cell ?ps (i + 1) else Some v) = Some w"
          by (simp add: w_def fetch_def cell_strings)
        have unfold: "processVMOptions_loop sys bld ?ps (length xs) i s =
          (if hasArgument ps \<and> w = None
           then Some (VM_ERROR_INVALID_PARAMETER_VALUE, print_out Usage_on_stderr s)
           else do { (error, s) \<leftarrow> (case pfunction ps of None \<Rightarrow> Some (VM_SUCCESS, s) | Some f \<Rightarrow> f sys w s);
                     if error \<noteq> VM_SUCCESS then Some (error, s)
                     else processVMOptions_loop sys bld ?ps (length xs) j s })"
          using True c dash sp Some w
          by (subst processVMOptions_loop.simps) (simp only: fetch_def [symmetric] j_def [symmetric] Let_def
              if_True option.case Option.bind.simps prod.case refl not_True_eq_False if_False)
        show ?thesis
        proof (cases "hasArgument ps \<and> w = None")
          case missing: True
          then show ?thesis unfolding unfold by (simp add: loop_error_def table_error_def)
        next
          case False
          define out where "out = (case pfunction ps of None \<Rightarrow> Some (VM_SUCCESS, s) | Some f \<Rightarrow> f sys w s)"
          have out: "case out of None \<Rightarrow> \<exists>t. w = Some t \<and> parseByteSize t = None
            | Some (e, s') \<Rightarrow> table_error e \<and> loop_keeps s s'"
          proof (cases "pfunction ps")
            case None
            then show ?thesis by (simp add: out_def table_error_def)
          next
            case f: (Some f)
            have "\<not> hasArgument ps \<or> w \<noteq> None" using False by simp
            with table_well_behaved [OF findParameterWithName_in_table [OF Some] f]
            have "case f sys w s of None \<Rightarrow> \<exists>t. w = Some t \<and> parseByteSize t = None | Some (e, s') \<Rightarrow> table_error e \<and> loop_keeps s s'"
              unfolding well_behaved_def by blast
            then show ?thesis unfolding out_def f option.case .
          qed
          show ?thesis
          proof (cases out)
            case none: None
            then obtain t where t: "w = Some t" "parseByteSize t = None" using out by auto
            have "overflows xs"
            proof (cases fetch)
              case True
              then have "i + 1 < length xs" "t = xs ! (i + 1)" using t(1) by (auto simp: w_def fetch_def)
              then have "xs ! (i + 1) \<in> set xs" "t = xs ! (i + 1)" by (auto intro: nth_mem)
              then show ?thesis using t(2) unfolding overflows_def by blast
            next
              case False
              then have "snd (snd (split_option param)) = Some t" using t(1) sp by (simp add: w_def)
              moreover have "param \<in> set xs" using True by (simp add: param_def)
              ultimately show ?thesis using t(2) unfolding overflows_def by blast
            qed
            then show ?thesis using none False unfolding unfold out_def [symmetric] by (simp add: loop_error_def table_error_def)
          next
            case some: (Some es)
            obtain e s' where es: "es = (e, s')" by (cases es)
            have e: "table_error e" "loop_keeps s s'" using out some es by simp_all
            have "length xs - j < length xs - i" using True unfolding j_def by (cases fetch; simp; arith)
            note rest = less(1) [OF this, of s']
            have "processVMOptions_loop sys bld ?ps (length xs) i s
                = (if e \<noteq> VM_SUCCESS then Some (e, s') else processVMOptions_loop sys bld ?ps (length xs) j s')"
              unfolding unfold out_def [symmetric] if_not_P [OF False] some es by simp
            then show ?thesis
              using rest e loop_keeps_trans [OF e(2)] by (auto simp: loop_error_def split: option.splits)
          qed
        qed
      qed
    qed
  qed
qed

lemma processVMOptions_keeps:
  assumes "holds (vmParameters (fst s)) xs"
  shows "case processVMOptions sys bld s of None \<Rightarrow> overflows xs | Some (e, s') \<Rightarrow> loop_error e \<and> loop_keeps s s'"
proof (cases "parameters (vmParameters (fst s))")
  case None
  then show ?thesis using assms by (simp add: processVMOptions_def holds_def loop_error_def table_error_def)
next
  case (Some ps)
  then have "processVMOptions sys bld s = processVMOptions_loop sys bld (map Some xs @ [None]) (length xs) 1 s"
    using assms by (simp add: processVMOptions_def holds_def)
  then show ?thesis using processVMOptions_loop_safe [where sys = sys and bld = bld and xs = xs and r = "[None]" and i = 1 and s = s] by simp
qed

text \<open>
  C21: Whatever the arguments say, processing them ends without reading outside the vector, with
  success, an early exit or one of the two parameter errors, and every size it leaves is in the
  range of its field: eden at most 1 GiB, no size negative. The only undefined behaviour is a size
  whose product with its unit overflows a \<open>long long\<close>.
\<close>
theorem processVMOptions_keeps_sizes:
  assumes "holds (vmParameters (fst s)) xs" "sizes_ok (fst s)"
  shows "case processVMOptions sys bld s of None \<Rightarrow> overflows xs
    | Some (e, s') \<Rightarrow> sizes_ok (fst s') \<and> (e = VM_SUCCESS \<or> e = VM_ERROR_EXIT_WITH_SUCCESS
       \<or> e = VM_ERROR_INVALID_PARAMETER \<or> e = VM_ERROR_INVALID_PARAMETER_VALUE)"
  using processVMOptions_keeps [OF assms(1), of sys bld] assms(2)
  by (auto simp: loop_error_def table_error_def loop_keeps_def split: option.splits)

text \<open>An option the table does not have ends the processing with the usage and its own error.\<close>

lemma processVMOptions_unknown:
  assumes "i < length xs" "take 1 (xs ! i) = ''-''" "split_option (xs ! i) = (a, k, v)"
    "findParameterWithName bld a k = None"
  shows "processVMOptions_loop sys bld (map Some xs @ r) (length xs) i s
    = Some (VM_ERROR_INVALID_PARAMETER, print_out Usage_on_stderr s)"
  using assms by (simp add: processVMOptions_loop.simps [of _ _ _ _ i] cell_strings)

lemma processVMOptions_loop_end: "n \<le> i \<Longrightarrow> processVMOptions_loop sys bld ps n i s = Some (VM_SUCCESS, s)"
  by (simp add: processVMOptions_loop.simps [of _ _ _ _ i])

text \<open>An option that needs a value takes the next parameter, whatever it is.\<close>

lemma processVMOptions_takes_next:
  assumes "i + 1 < length xs" "take 1 (xs ! i) = ''-''" "split_option (xs ! i) = (a, k, None)"
    "findParameterWithName bld a k = Some ps" "hasArgument ps" "pfunction ps = Some f"
    "f sys (Some (xs ! (i + 1))) s = Some (e, t)"
  shows "processVMOptions_loop sys bld (map Some xs @ r) (length xs) i s
    = (if e \<noteq> VM_SUCCESS then Some (e, t)
       else processVMOptions_loop sys bld (map Some xs @ r) (length xs) (i + 2) t)"
  using assms by (simp add: processVMOptions_loop.simps [of _ _ _ _ i] cell_strings)

subsection \<open>The split of the arguments\<close>

lemma findImageNameIndex_loop_bounds:
  "i \<le> length argv \<Longrightarrow> i \<le> findImageNameIndex_loop bld argv i \<and> findImageNameIndex_loop bld argv i \<le> length argv"
proof (induction bld argv i rule: findImageNameIndex_loop.induct)
  case (1 bld argv i)
  show ?case
  proof (cases "i < length argv \<and> argv ! i \<noteq> ''--'' \<and> take 1 (argv ! i) = ''-''")
    case False
    then show ?thesis using 1(2) by (auto simp: findImageNameIndex_loop.simps [of bld argv i])
  next
    case True
    let ?j = "i + findParameterArity bld (argv ! i) + 1"
    show ?thesis
    proof (cases "?j \<le> length argv")
      case le: True
      with 1(1) True have "?j \<le> findImageNameIndex_loop bld argv ?j \<and> findImageNameIndex_loop bld argv ?j \<le> length argv"
        by blast
      then show ?thesis using True by (simp add: findImageNameIndex_loop.simps [of bld argv i])
    next
      case False
      then show ?thesis using True 1(2)
        by (simp add: findImageNameIndex_loop.simps [of bld argv i] 
          findImageNameIndex_loop.simps [of bld argv "Suc (i + findParameterArity bld (argv ! i))"])
    qed
  qed
qed

lemma findImageNameIndex_bounds:
  "argv \<noteq> [] \<Longrightarrow> 1 \<le> findImageNameIndex bld argv \<and> findImageNameIndex bld argv \<le> length argv"
  using findImageNameIndex_loop_bounds [of 1 argv bld] by (cases argv) (auto simp: findImageNameIndex_def)

text \<open>Where the search stops: at the end, at \<open>--\<close>, or at the first argument that is no option.\<close>

lemma findImageNameIndex_loop_stop:
  "findImageNameIndex_loop bld argv i < length argv \<Longrightarrow>
    argv ! findImageNameIndex_loop bld argv i = ''--''
    \<or> take 1 (argv ! findImageNameIndex_loop bld argv i) \<noteq> ''-''"
proof (induction bld argv i rule: findImageNameIndex_loop.induct)
  case (1 bld argv i)
  then show ?case by (subst (asm) (2) findImageNameIndex_loop.simps, subst (1 2) findImageNameIndex_loop.simps)
      (auto split: if_splits)
qed

text \<open>Options before the image, each with the value it needs, do not hide it.\<close>

lemma findImageNameIndex_loop_skips:
  assumes "i < length argv" "argv ! i \<noteq> ''--''" "take 1 (argv ! i) = ''-''"
  shows "findImageNameIndex_loop bld argv i
    = findImageNameIndex_loop bld argv (i + findParameterArity bld (argv ! i) + 1)"
  using assms by (simp add: findImageNameIndex_loop.simps [of bld argv i])

lemma insert_vm_correct:
  assumes "holds (vmParameters p) xs" "length ys \<le> length els" "take (length ys) els = map Some ys"
    "length xs + length ys + 1 < 2 ^ 32" "calloc sys (8 * (length xs + length ys + 1))"
  shows "\<exists>w. insert_vm sys (of_nat (length ys)) els p = Some (VM_SUCCESS, p\<lparr>vmParameters := w\<rparr>) \<and> holds w (xs @ ys)"
  using vm_parameter_vector_insert_from_correct [where calloc = "calloc sys", OF assms]
  by (auto simp: insert_vm_def)

lemma insert_image_correct:
  assumes "holds (imageParameters p) xs" "length ys \<le> length els" "take (length ys) els = map Some ys"
    "length xs + length ys + 1 < 2 ^ 32" "calloc sys (8 * (length xs + length ys + 1))"
  shows "\<exists>w. insert_image sys (of_nat (length ys)) els p = Some (VM_SUCCESS, p\<lparr>imageParameters := w\<rparr>) \<and> holds w (xs @ ys)"
  using vm_parameter_vector_insert_from_correct [where calloc = "calloc sys", OF assms]
  by (auto simp: insert_image_def)

text \<open>
  The split gives the machine the arguments before the image (and \<open>--headless\<close> after them,
  unless the build is always interactive), and the image those after it, in their order.
\<close>

lemma splitVMAndImageParameters_shape:
  assumes "argv \<noteq> []" "length argv + 3 < 2 ^ 32" "\<And>n. calloc sys n"
    "holds (vmParameters p) []" "holds (imageParameters p) []" "imageFileName p \<noteq> None"
  shows "\<exists>v w. splitVMAndImageParameters sys bld cwd argv p
      = Some (VM_SUCCESS, p\<lparr>imageParameters := w, vmParameters := v\<rparr>)
    \<and> holds v (take (findImageNameIndex bld argv) argv @ (if always_interactive bld then [] else [''--headless'']))
    \<and> holds w (drop (findImageNameIndex bld argv + 1) argv)"
proof -
  define k where "k = findImageNameIndex bld argv"
  have k: "1 \<le> k" "k \<le> length argv" using findImageNameIndex_bounds [OF assms(1)] by (simp_all add: k_def)
  have img: "length (drop (k + 1) argv) = length argv - k - 1" by simp
  have "length [] + length (drop (k + 1) argv) + 1 < 2 ^ 32" using assms(2) by simp
  from insert_image_correct [OF assms(5) _ _ this assms(3), of "drop (k + 1) (argv_cells argv)"]
  obtain w where w: "insert_image sys (of_nat (length argv - k - 1)) (drop (k + 1) (argv_cells argv)) p
      = Some (VM_SUCCESS, p\<lparr>imageParameters := w\<rparr>)" "holds w (drop (k + 1) argv)"
    unfolding img by (auto simp: argv_cells_def drop_map take_map)
  have len: "length (take k argv) = k" using k by simp
  have vm0: "holds (vmParameters (p\<lparr>imageParameters := w\<rparr>)) []" using assms(4) by simp
  have "length [] + length (take k argv) + 1 < 2 ^ 32" using assms(2) k by simp
  from insert_vm_correct [OF vm0 _ _ this assms(3), of "argv_cells argv"]
  obtain v where v: "insert_vm sys (of_nat k) (argv_cells argv) (p\<lparr>imageParameters := w\<rparr>)
      = Some (VM_SUCCESS, p\<lparr>imageParameters := w, vmParameters := v\<rparr>)" "holds v (take k argv)"
    unfolding len using k by (auto simp: argv_cells_def take_map)
  have vm1: "holds (vmParameters (p\<lparr>imageParameters := w, vmParameters := v\<rparr>)) (take k argv)" using v by simp
  have "length (take k argv) + length [''--headless''] + 1 < 2 ^ 32" using assms(2) k by simp
  from insert_vm_correct [OF vm1 _ _ this assms(3), of "[Some ''--headless'']"]
  obtain u where u: "insert_vm sys 1 [Some ''--headless''] (p\<lparr>imageParameters := w, vmParameters := v\<rparr>)
      = Some (VM_SUCCESS, p\<lparr>imageParameters := w, vmParameters := u\<rparr>)" "holds u (take k argv @ [''--headless''])"
    by auto
  have "default_image sys cwd argv p = Some (VM_SUCCESS, p)"
    using assms(6) unfolding default_image_def by (subst if_not_P) simp_all
  then show ?thesis using w v u
    by (cases "always_interactive bld")
      (auto simp: splitVMAndImageParameters_def k_def [symmetric] Let_def)
qed

lemma processVMOptions_keeps_sizes_witness:
  "\<exists>e s'. processVMOptions
      \<lparr>calloc = (\<lambda>_. True), strdup = (\<lambda>_. True), sqImageFileExists = (\<lambda>_. True), chdir = (\<lambda>_. None),
       realpath = Some, FILENAME_MAX = 4096, PATH_MAX = 4096, DEFAULT_IMAGE_NAME = ''Pharo.image''\<rparr>
      \<lparr>in_worker_thread = False, always_interactive = False\<rparr>
      (zeroed\<lparr>vmParameters := \<lparr>count = 2, parameters = Some [Some ''pharo'', Some ''--edenSize=2G'', None]\<rparr>\<rparr>,
       \<lparr>max_error_level = 1, vmFullPath = [], working_dir = None, printed = []\<rparr>) = Some (e, s')
    \<and> sizes_ok (fst s')
    \<and> (e = VM_SUCCESS \<or> e = VM_ERROR_EXIT_WITH_SUCCESS \<or> e = VM_ERROR_INVALID_PARAMETER
       \<or> e = VM_ERROR_INVALID_PARAMETER_VALUE)"
proof -
  have "\<not> overflows [''pharo'', ''--edenSize=2G'']"
    by (simp add: overflows_def parseByteSize_def strtoll_def unit_multiplier_def split_option_def skip_dashes_def strchr_def
        isspace_def isdigit_def decimal_value_def digit_value_def times_ll_def)
  then show ?thesis
    using processVMOptions_keeps_sizes [where xs = "[''pharo'', ''--edenSize=2G'']" and s = "(zeroed\<lparr>vmParameters :=
      \<lparr>count = 2, parameters = Some [Some ''pharo'', Some ''--edenSize=2G'', None]\<rparr>\<rparr>,
       \<lparr>max_error_level = 1, vmFullPath = [], working_dir = None, printed = []\<rparr>)"]
    by (fastforce simp: holds_def sizes_ok_def zeroed_def split: option.splits prod.splits)
qed

lemma parseByteSize_reads_back_witness: "parseByteSize (size_text 2 (Some (CHR ''M''))) = Some (int 2 * 1048576)"
  by (rule parseByteSize_reads_back) (simp_all add: unit_multiplier_def)

subsection \<open>The whole command line\<close>

lemma vm_parameters_init_sizes: "sizes_ok (vm_parameters_init p)"
  by (simp add: vm_parameters_init_def sizes_ok_def PHARO_DEFAULT_MAX_FRAMES_TO_LOG_def)

lemma zeroed_sizes: "sizes_ok zeroed"
  by (simp add: zeroed_def sizes_ok_def)

text \<open>
  Parsing a command line that names an image ends, if no size in it overflows and the system has the memory and
  the paths fit the buffers; on success the
  image is the first argument that is no option, the machine's and the image's arguments are those
  before and after it, and every size is in the range of its field; on error every size is in range too.
\<close>

definition parse_result :: "vm_build \<Rightarrow> string list \<Rightarrow> VMErrorCode \<Rightarrow> vm \<Rightarrow> bool" where
  "parse_result bld argv e s \<longleftrightarrow> sizes_ok (fst s) \<and> (e = VM_SUCCESS \<longrightarrow>
        imageFileName (fst s) = Some (argv ! findImageNameIndex bld argv)
      \<and> \<not> isDefaultImage (fst s) \<and> \<not> isInteractiveSession (fst s)
      \<and> holds (vmParameters (fst s)) (take (findImageNameIndex bld argv) argv
          @ (if always_interactive bld then [] else [''--headless'']))
      \<and> holds (imageParameters (fst s)) (drop (findImageNameIndex bld argv + 1) argv))"

lemma getFullPath_total:
  assumes "\<And>t r. realpath sys t = Some r \<Longrightarrow> length r < n"
    and "take 1 path = ''/'' \<or> take 1 path = ''.'' \<or> length path + 3 \<le> n"
  shows "\<exists>f. getFullPath sys path n = Some f"
  using assms by (auto simp: getFullPath_def Let_def split: option.splits)

lemma getFullPath_fits: "getFullPath sys path n = Some (Some r) \<Longrightarrow> length r < n"
  by (auto simp: getFullPath_def Let_def split: if_splits option.splits)

text \<open>The arguments of the machine are those of the command line, and \<open>--headless\<close>.\<close>

lemma headless_no_overflow: "overflows (take k argv @ (if b then [] else [''--headless''])) \<Longrightarrow> overflows argv"
proof -
  have "\<not> overflows [''--headless'']"
    by (simp add: overflows_def parseByteSize_def strtoll_def unit_multiplier_def split_option_def skip_dashes_def strchr_def
        isspace_def isdigit_def decimal_value_def times_ll_def)
  then show "overflows (take k argv @ (if b then [] else [''--headless''])) \<Longrightarrow> overflows argv"
    unfolding overflows_def by (auto split: if_splits dest: in_set_takeD)
qed

lemma vm_parameters_parse_total:
  assumes "findImageNameIndex bld argv < length argv" "argv ! findImageNameIndex bld argv \<noteq> ''--''"
    "argv \<noteq> []" "length argv + 3 < 2 ^ 32" "\<And>n. calloc sys n" "\<And>t. strdup sys t"
    "take 1 (hd argv) = ''/'' \<or> take 1 (hd argv) = ''.'' \<or> length (hd argv) + 3 \<le> FILENAME_MAX sys"
    "0 < FILENAME_MAX sys" "FILENAME_MAX sys \<le> PATH_MAX sys"
    "\<And>t r. realpath sys t = Some r \<Longrightarrow> length r < FILENAME_MAX sys" "\<not> overflows argv"
  shows "\<exists>e s'. vm_parameters_parse sys bld argv (vm_parameters_init p, w) = Some (e, s')
    \<and> parse_result bld argv e s'"
proof -
  let ?k = "findImageNameIndex bld argv"
  let ?p1 = "(vm_parameters_init p)\<lparr>imageFileName := Some (argv ! ?k), isDefaultImage := False,
    isInteractiveSession := False\<rparr>"
  have fill: "fillUpImageName sys bld argv (vm_parameters_init p) = ?p1"
    using assms(1,2,6) by (simp add: fillUpImageName_def Let_def)
  have "holds (vmParameters ?p1) []" "holds (imageParameters ?p1) []" "imageFileName ?p1 \<noteq> None"
    by (simp_all add: vm_parameters_init_def)
  from splitVMAndImageParameters_shape [OF assms(3-5) this, of bld "working_dir w"]
  obtain v u where split: "splitVMAndImageParameters sys bld (working_dir w) argv ?p1
      = Some (VM_SUCCESS, ?p1\<lparr>imageParameters := u, vmParameters := v\<rparr>)"
    and v: "holds v (take ?k argv @ (if always_interactive bld then [] else [''--headless'']))"
    and u: "holds u (drop (?k + 1) argv)" by blast
  let ?q = "?p1\<lparr>imageParameters := u, vmParameters := v\<rparr>"
  obtain a0 r where a0: "argv = a0 # r" using assms(3) by (cases argv) auto
  have "\<exists>f. getFullPath sys a0 (FILENAME_MAX sys) = Some f"
    using assms(7) by (intro getFullPath_total assms(10)) (simp_all add: a0)
  then obtain f where f: "getFullPath sys a0 (FILENAME_MAX sys) = Some f" ..
  define path where "path = (case f of Some p \<Rightarrow> p | None \<Rightarrow> take (FILENAME_MAX sys - 1) a0)"
  have "length path < PATH_MAX sys"
  proof (cases f)
    case None
    then have "length path \<le> FILENAME_MAX sys - 1" by (simp add: path_def)
    then show ?thesis using assms(8,9) by linarith
  next
    case (Some r)
    then show ?thesis using getFullPath_fits [of sys a0 "FILENAME_MAX sys" r] f assms(9) by (simp add: path_def)
  qed
  then have set: "setVMPath sys path w = Some (w\<lparr>vmFullPath := path\<rparr>)" by (simp add: setVMPath_def)
  have sz: "sizes_ok ?q" using vm_parameters_init_sizes [of p] by (simp add: sizes_ok_def)
  have "\<not> overflows (take ?k argv @ (if always_interactive bld then [] else [''--headless'']))"
    using headless_no_overflow assms(11) by blast
  moreover have "holds (vmParameters (fst (?q, w\<lparr>vmFullPath := path\<rparr>))) (take ?k argv @ (if always_interactive bld then [] else [''--headless'']))"
    using v by simp
  note processVMOptions_keeps [OF this, of sys bld]
  ultimately have "\<exists>e s'. processVMOptions sys bld (?q, w\<lparr>vmFullPath := path\<rparr>) = Some (e, s')
    \<and> loop_keeps (?q, w\<lparr>vmFullPath := path\<rparr>) s'"
    by (cases "processVMOptions sys bld (?q, w\<lparr>vmFullPath := path\<rparr>)") auto
  then obtain e s' where opt: "processVMOptions sys bld (?q, w\<lparr>vmFullPath := path\<rparr>) = Some (e, s')"
    and keep: "loop_keeps (?q, w\<lparr>vmFullPath := path\<rparr>) s'" by blast
  obtain q r where s': "s' = (q, r)" by (cases s')
  have "vm_parameters_parse sys bld argv (vm_parameters_init p, w)
    = (if e \<noteq> VM_SUCCESS then Some (e, (zeroed, snd s')) else Some (VM_SUCCESS, s'))"
    using fill split f set opt assms(5) a0 by (simp add: vm_parameters_parse_def Let_def path_def [symmetric])
  then show ?thesis using keep sz v u zeroed_sizes by (auto simp: loop_keeps_def s' parse_result_def)
qed

text \<open>A system that always succeeds, for the concrete command lines below.\<close>

definition example_system :: vm_system where
  "example_system = \<lparr>calloc = (\<lambda>_. True), strdup = (\<lambda>_. True), sqImageFileExists = (\<lambda>_. True),
     chdir = (\<lambda>_. None), realpath = (\<lambda>_. Some ''/usr/bin/pharo''), FILENAME_MAX = 4096, PATH_MAX = 4096,
     DEFAULT_IMAGE_NAME = ''Pharo.image''\<rparr>"

definition example_build :: vm_build where
  "example_build = \<lparr>in_worker_thread = True, always_interactive = False\<rparr>"

lemma example_index: "findImageNameIndex example_build [''pharo'', ''--edenSize'', ''64M'', ''a.image'', ''eval''] = 3"
  by (simp add: example_build_def findImageNameIndex_def findImageNameIndex_loop.simps findParameterArity_def
      skip_dashes_def strchr_def findParameterWithName_def vm_parameters_spec_def spec_def)

text \<open>
  An executable directly under the root directory makes the search for the default image
  read before the start of a buffer: its directory is the empty string, and the join looks at
  the character before the terminator of its first part.
\<close>
theorem vm_find_startup_image_at_root:
  assumes "slash \<notin> set name" "NUL \<notin> set name" "length name < FILENAME_MAX sys"
    "calloc sys (FILENAME_MAX sys + 1)" "sqImageFileExists sys (slash # name)"
  shows "vm_find_startup_image sys cwd (slash # name) params = None"
proof -
  let ?room = "FILENAME_MAX sys + 1"
  let ?zeros = "replicate ?room NUL"
  have n: "NUL \<notin> set (slash # name)" using assms by auto
  have r: "0 < ?room" "?room \<le> length ?zeros" by simp_all
  obtain t b where t: "strncpy ?zeros (slash # name) (pred_size ?room) = Some t" "poke t (pred_size ?room) NUL = Some b"
    "str_of b = Some (take (?room - 1) (slash # name))" by (rule copy_terminated [OF r n])
  then have abs: "vm_path_make_absolute_into cwd ?zeros ?room (slash # name) = Some (VM_SUCCESS, b)"
    by (simp add: vm_path_make_absolute_into_def vm_path_is_absolute_path_def)
  have b: "str_of b = Some (slash # name)" using t(3) assms(3) by simp
  have sep: "strrchr (slash # name) slash = Some 0" using strrchr_split [OF assms(1), of "[]"] by simp
  have "vm_path_extract_dirname_into ?zeros ?room (slash # name) = Some (VM_SUCCESS, ?zeros)"
    using assms(3) by (simp add: vm_path_extract_dirname_into_def sep strncpy_def poke_def)
  moreover have "vm_path_join_into ?zeros ?room [] (DEFAULT_IMAGE_NAME sys) = None"
    by (simp add: vm_path_join_into_def Option.bind_eq_None_conv split: Option.bind_split)
  ultimately show ?thesis using abs b assms(4,5)
    by (simp add: vm_find_startup_image_def Let_def vm_image_search_suffixes_def)
qed

lemma vm_find_startup_image_at_root_witness:
  "vm_find_startup_image example_system None ''/pharo'' zeroed = None"
  by (rule vm_find_startup_image_at_root) (simp_all add: example_system_def)

text \<open>
  The value an option needs is looked for after \<open>--headless\<close> was added to the arguments: an option
  that ends the machine's arguments takes it for its value.
\<close>

lemma codeSize_takes_headless:
  assumes "holds (vmParameters (fst s)) [vm, ''--codeSize'', ''--headless'']"
  shows "processVMOptions sys bld s = Some (VM_SUCCESS, ((fst s)\<lparr>maxCodeSize := 0\<rparr>, snd s))"
proof -
  let ?xs = "[vm, ''--codeSize'', ''--headless'']"
  have n: "unat (count (vmParameters (fst s))) = length ?xs" and
    ps: "parameters (vmParameters (fst s)) = Some (map Some ?xs @ [None])"
    using assms by (simp_all add: holds_def split: option.splits)
  have sp: "split_option ''--codeSize'' = (''codeSize'', 8, None)"
    by (simp add: split_option_def skip_dashes_def strchr_def)
  have find: "findParameterWithName bld ''codeSize'' 8
      = Some (spec ''codeSize'' True (Some processMaxCodeSpaceSizeOption))"
    by (cases "in_worker_thread bld") (simp_all add: findParameterWithName_def vm_parameters_spec_def spec_def)
  have "parseByteSize ''--headless'' = Some 0"
    by (simp add: parseByteSize_def unit_multiplier_def strtoll_def isspace_def isdigit_def decimal_value_def
        times_ll_def)
  then have run: "processMaxCodeSpaceSizeOption sys (Some (?xs ! (1 + 1))) s
      = Some (VM_SUCCESS, ((fst s)\<lparr>maxCodeSize := 0\<rparr>, snd s))"
    by (simp add: processMaxCodeSpaceSizeOption_def accept_def)
  have "processVMOptions_loop sys bld (map Some ?xs @ [None]) (length ?xs) 1 s
    = (if VM_SUCCESS \<noteq> VM_SUCCESS then Some (VM_SUCCESS, ((fst s)\<lparr>maxCodeSize := 0\<rparr>, snd s))
       else processVMOptions_loop sys bld (map Some ?xs @ [None]) (length ?xs) (1 + 2)
         ((fst s)\<lparr>maxCodeSize := 0\<rparr>, snd s))"
    using run sp find
    by (intro processVMOptions_takes_next [where a = "''codeSize''" and k = 8
          and f = processMaxCodeSpaceSizeOption
          and ps = "spec ''codeSize'' True (Some processMaxCodeSpaceSizeOption)"]) (simp_all add: spec_def)
  then show ?thesis using n ps
    by (simp add: processVMOptions_def processVMOptions_loop_end)
qed

text \<open>The size of a stack page is cut to 32 bits before it is tested.\<close>

lemma stackPageSize_4G_is_0:
  "processStackPageSizeOption sys (Some ''4G'') s = Some (VM_SUCCESS, ((fst s)\<lparr>stackPageSize := 0\<rparr>, snd s))"
  by (simp add: processStackPageSizeOption_def parseByteSize_def unit_multiplier_def strtoll_def isspace_def
      isdigit_def decimal_value_def digit_value_def times_ll_def to_int_def accept_def)

end
