(* ===== verification/Client.thy ===== *)
theory Client
  imports Parameters
begin

text \<open>
  The start of the machine, \<open>client.c\<close>: \<open>vm_main\<close> parses the command line, offers a file dialog
  when there is no image to open, and hands the parameters to \<open>vm_main_with_parameters\<close>, which
  settles the interactive flag, refuses to start without an image, and runs the machine; \<open>vm_init\<close>
  passes every parameter on to the interpreter. The attributes a running image reads of its command
  line, the parameter copies of \<open>utils.c\<close>, are here too.

  The interpreter is not modelled: a run is recorded with the settings it was given. The file
  dialog answers through an argument: \<open>None\<close> when it does nothing or fails, or the chosen file.
\<close>

record vm_settings =
  s_maxStacksToPrint :: int
  s_maxOldSpaceSize :: int
  s_edenBytes :: int
  s_minimalPermSpaceSize :: int
  s_stackPageBytes :: int
  s_maxSlotsForNewSpaceAlloc :: int
  s_avoidSearching :: bool
  s_cogCodeSize :: "int option"
  s_vmArguments :: "string option list"
  s_imageArguments :: "string option list"
  s_image :: string
  s_fullImageName :: string

text \<open>The settings \<open>vm_init\<close> makes; a code size only for a machine with a compiler, and when it is positive.\<close>

definition copyParams :: "32 word \<Rightarrow> string option list option \<Rightarrow> string option list option" where
  "copyParams newCount newParams =
     (if newCount = 0 then Some []
      else do {
        ps \<leftarrow> newParams;
        if unat newCount \<le> length ps \<and> (\<forall>p \<in> set (take (unat newCount) ps). p \<noteq> None)
        then Some (take (unat newCount) ps) else None })"

text \<open>
  Loading: false for a missing file; else the interpreter reads the image, and its full path is copied into
  the static buffer \<open>_imageName\<close>, which starts empty. A path that cannot be resolved is copied from a null pointer.
\<close>

definition setImageName :: "vm_system \<Rightarrow> string option \<Rightarrow> string option" where
  "setImageName sys fullName =
     (case fullName of None \<Rightarrow> None | Some name \<Rightarrow> if length name < PATH_MAX sys then Some name else None)"

definition loadPharoImage :: "vm_system \<Rightarrow> string \<Rightarrow> (bool \<times> string) option" where
  "loadPharoImage sys fileName =
     (if \<not> sqImageFileExists sys fileName then Some (False, [])
      else do {
        fullImageName \<leftarrow> getFullPath sys fileName (FILENAME_MAX sys);
        name \<leftarrow> setImageName sys fullImageName;
        Some (True, name)
      })"

text \<open>The settings of a start, and whether the image was loaded.\<close>

definition vm_init :: "vm_system \<Rightarrow> bool \<Rightarrow> VMParameters \<Rightarrow> (bool \<times> vm_settings) option" where
  "vm_init sys cogvm params =
     do {
       vmArgs \<leftarrow> copyParams (count (vmParameters params)) (parameters (vmParameters params));
       imageArgs \<leftarrow> copyParams (count (imageParameters params)) (parameters (imageParameters params));
       fileName \<leftarrow> imageFileName params;
       (loaded, fullImageName) \<leftarrow> loadPharoImage sys fileName;
       Some (loaded,
         \<lparr>s_maxStacksToPrint = maxStackFramesToPrint params,
          s_maxOldSpaceSize = maxOldSpaceSize params,
          s_edenBytes = edenSize params,
          s_minimalPermSpaceSize = minPermSpaceSize params,
          s_stackPageBytes = stackPageSize params,
          s_maxSlotsForNewSpaceAlloc = maxSlotsForNewSpaceAlloc params,
          s_avoidSearching = avoidSearchingSegmentsWithPinnedObjects params,
          s_cogCodeSize = (if maxCodeSize params > 0 \<and> cogvm then Some (maxCodeSize params) else None),
          s_vmArguments = vmArgs, s_imageArguments = imageArgs, s_image = fileName,
          s_fullImageName = fullImageName\<rparr>) }"

text \<open>How a start ends: without a run, with an image that could not be loaded, or with a run.\<close>

datatype vm_run = No_run | Load_failed vm_settings | Run vm_settings

text \<open>\<open>runVMThread\<close>; \<open>runOnMainThread\<close> calls it and answers 0 whatever it answered.\<close>

definition runVMThread :: "vm_system \<Rightarrow> bool \<Rightarrow> VMParameters \<Rightarrow> vm_run option" where
  "runVMThread sys cogvm params =
     do { (loaded, settings) \<leftarrow> vm_init sys cogvm params;
          Some (if loaded then Run settings else Load_failed settings) }"

definition runOnMainThread :: "vm_system \<Rightarrow> bool \<Rightarrow> VMParameters \<Rightarrow> (int \<times> vm_run) option" where
  "runOnMainThread sys cogvm params = do { run \<leftarrow> runVMThread sys cogvm params; Some (0, run) }"




subsection \<open>The attributes a running image reads\<close>

text \<open>\<open>GetAttributeString\<close> of \<open>utils.c\<close>: the attribute and whether the primitive succeeds.\<close>

record vm_names =
  OS_TYPE :: string
  VM_TARGET_OS :: string
  VM_TARGET_CPU :: string
  interpreterVersion :: string
  interpBuildInfo :: "string option"
  cogitBuildInfo :: "string option"
  VM_BUILD_STRING :: string
  VM_BUILD_SOURCE_STRING :: string
  on_worker_thread :: bool

definition getVMArgument :: "string option list \<Rightarrow> nat \<Rightarrow> string option" where
  "getVMArgument vmParams index = (if length vmParams \<le> index then None else vmParams ! index)"

definition getImageArgument :: "string option list \<Rightarrow> nat \<Rightarrow> string option" where
  "getImageArgument imageParams index = (if length imageParams \<le> index then None else imageParams ! index)"

definition GetAttributeString ::
    "vm_names \<Rightarrow> string \<Rightarrow> string \<Rightarrow> vm_settings \<Rightarrow> int \<Rightarrow> string option \<times> bool" where
  "GetAttributeString names fullPath imageName st ident =
     (if ident < 0 then
        (if - ident < int (length (s_vmArguments st)) then (getVMArgument (s_vmArguments st) (nat (- ident)), True)
         else (Some [], False))
      else if ident = 0 then (Some fullPath, True)
      else if ident = 1 then (Some imageName, True)
      else if ident = 1001 then (Some (OS_TYPE names), True)
      else if ident = 1002 then (Some (VM_TARGET_OS names), True)
      else if ident = 1003 then (Some (VM_TARGET_CPU names), True)
      else if ident = 1004 then (Some (interpreterVersion names), True)
      else if ident = 1006 then (Some (VM_BUILD_STRING names), True)
      else if ident = 1007 \<and> interpBuildInfo names \<noteq> None then (interpBuildInfo names, True)
      else if ident = 1008 \<and> cogitBuildInfo names \<noteq> None then (cogitBuildInfo names, True)
      else if ident = 1009 then (Some (VM_BUILD_SOURCE_STRING names), True)
      else if ident = 1010 then (Some ''AIO'', True)
      else if ident = 1011 then (Some (if on_worker_thread names then ''WORKER_THREAD'' else ''MAIN_THREAD''), True)
      else if ident - 2 < int (length (s_imageArguments st))
        then (getImageArgument (s_imageArguments st) (nat (ident - 2)), True)
      else (Some [], False))"

subsection \<open>What a start hands over\<close>




text \<open>An image that cannot be loaded is no error to the caller: the exit code of the main thread is 0.\<close>

lemma missing_image_exits_with_success:
  assumes "runOnMainThread sys cogvm params = Some (code, run)" "imageFileName params = Some f"
    "\<not> sqImageFileExists sys f"
  shows "code = 0 \<and> (\<exists>st. run = Load_failed st)"
  using assms by (auto simp: runOnMainThread_def runVMThread_def vm_init_def loadPharoImage_def Option.bind_eq_Some_conv)

text \<open>A file that exists but whose path cannot be resolved is copied from a null pointer.\<close>

lemma unresolved_image_is_undefined:
  assumes "sqImageFileExists sys f" "getFullPath sys f (FILENAME_MAX sys) = Some None"
  shows "loadPharoImage sys f = None"
  using assms by (simp add: loadPharoImage_def setImageName_def)




text \<open>
  The image reads its own arguments as the attributes from 2 on, up to attribute 1000, and the
  machine's as the negative attributes.
\<close>
lemma GetAttributeString_arguments:
  assumes "i < length (s_imageArguments st)" "i < 999"
    "j < length (s_vmArguments st)" "0 < j"
  shows "GetAttributeString names fullPath imageName st (int i + 2) = (s_imageArguments st ! i, True)
    \<and> GetAttributeString names fullPath imageName st (- int j) = (s_vmArguments st ! j, True)"
  using assms by (simp add: GetAttributeString_def getImageArgument_def getVMArgument_def)

end
