(* ===== verification/TSQueue.thy ===== *)
theory TSQueue
  imports Prelude
begin

text \<open>
  The nodes of the thread safe queue, \<open>threadSafeQueue.c\<close>: a linked list in the heap with pointers
  to its first and last nodes, and what its operations do to it between locking and unlocking the
  mutex. The locking, the semaphore and the interleaving of threads are in \<open>TSQueueMachine\<close>.

  The heap maps the addresses of the allocated nodes to their fields; NULL is \<open>None\<close>. An operation
  answers \<open>None\<close> when it would follow a pointer that is NULL or to no allocated node.
\<close>

type_synonym 'e node_heap = "nat \<Rightarrow> ('e \<times> nat option) option"

record 'e queue =
  heap :: "'e node_heap"
  first :: "nat option"
  last :: "nat option"

definition empty_queue :: "'e queue" where
  "empty_queue = \<lparr>heap = (\<lambda>_. None), first = None, last = None\<rparr>"

text \<open>A new node at the address \<open>n\<close> the allocator chose, and its link behind the last one.\<close>

definition new_node :: "nat \<Rightarrow> 'e \<Rightarrow> 'e queue \<Rightarrow> 'e queue" where
  "new_node n element q = q\<lparr>heap := (heap q)(n \<mapsto> (element, None))\<rparr>"

definition link_node :: "nat \<Rightarrow> 'e queue \<Rightarrow> 'e queue option" where
  "link_node n q =
     (if first q = None then Some (q\<lparr>first := Some n, last := Some n\<rparr>)
      else do {
        l \<leftarrow> last q;
        (x, _) \<leftarrow> heap q l;
        Some (q\<lparr>heap := (heap q)(l \<mapsto> (x, Some n)), last := Some n\<rparr>) })"

definition threadsafe_queue_put :: "nat \<Rightarrow> 'e \<Rightarrow> 'e queue \<Rightarrow> 'e queue option" where
  "threadsafe_queue_put n element q = link_node n (new_node n element q)"

definition threadsafe_queue_take :: "'e queue \<Rightarrow> ('e option \<times> 'e queue) option" where
  "threadsafe_queue_take q =
     (case first q of
        None \<Rightarrow> Some (None, q)
      | Some node \<Rightarrow> do {
          (element, nxt) \<leftarrow> heap q node;
          Some (Some element, q\<lparr>first := nxt, last := (if nxt = None then None else last q),
                                heap := (heap q)(node := None)\<rparr>) })"

text \<open>The loops over the nodes may not end on an arbitrary heap: then they answer nothing.\<close>

partial_function (option) queue_size_loop :: "'e node_heap \<Rightarrow> nat option \<Rightarrow> nat \<Rightarrow> nat option" where
  "queue_size_loop h node n =
     (case node of None \<Rightarrow> Some n
      | Some a \<Rightarrow> (case h a of None \<Rightarrow> None | Some (_, nxt) \<Rightarrow> queue_size_loop h nxt (Suc n)))"

definition threadsafe_queue_size :: "'e queue \<Rightarrow> nat option" where
  "threadsafe_queue_size q = queue_size_loop (heap q) (first q) 0"

partial_function (option) queue_free_loop :: "'e node_heap \<Rightarrow> nat option \<Rightarrow> 'e node_heap option" where
  "queue_free_loop h node =
     (case node of None \<Rightarrow> Some h
      | Some a \<Rightarrow> (case h a of None \<Rightarrow> None | Some (_, nxt) \<Rightarrow> queue_free_loop (h(a := None)) nxt))"

definition threadsafe_queue_free :: "'e queue \<Rightarrow> 'e node_heap option" where
  "threadsafe_queue_free q = queue_free_loop (heap q) (first q)"

subsection \<open>The list a queue holds\<close>

text \<open>\<open>chain h p ns\<close>: following the links from \<open>p\<close> meets exactly the nodes \<open>ns\<close>.\<close>

fun chain :: "'e node_heap \<Rightarrow> nat option \<Rightarrow> nat list \<Rightarrow> bool" where
  "chain h p [] \<longleftrightarrow> p = None"
| "chain h p (n # ns) \<longleftrightarrow> p = Some n \<and> (\<exists>x q. h n = Some (x, q) \<and> chain h q ns)"

definition elements :: "'e node_heap \<Rightarrow> nat list \<Rightarrow> 'e list" where
  "elements h ns = map (\<lambda>n. fst (the (h n))) ns"

definition end_of :: "nat list \<Rightarrow> nat option" where
  "end_of ns = (if ns = [] then None else Some (List.last ns))"

definition queue_holds :: "'e queue \<Rightarrow> 'e list \<Rightarrow> bool" where
  "queue_holds q xs \<longleftrightarrow> (\<exists>ns. chain (heap q) (first q) ns \<and> distinct ns \<and> last q = end_of ns
     \<and> xs = elements (heap q) ns)"

named_theorems chains \<open>chains of nodes and the elements on them\<close>

lemma chain_allocated: "chain h p ns \<Longrightarrow> n \<in> set ns \<Longrightarrow> h n \<noteq> None"
  by (induction ns arbitrary: p) auto

lemma chain_unique: "chain h p ns \<Longrightarrow> chain h p ms \<Longrightarrow> ns = ms"
proof (induction ns arbitrary: p ms)
  case Nil
  then show ?case by (cases ms) auto
next
  case (Cons n ns)
  then show ?case by (cases ms) auto
qed

lemma chain_other [chains]: "n \<notin> set ns \<Longrightarrow> chain (h(n := v)) p ns = chain h p ns"
  by (induction ns arbitrary: p) auto

lemma elements_other [chains]: "n \<notin> set ns \<Longrightarrow> elements (h(n := v)) ns = elements h ns"
  by (auto simp: elements_def)

lemma elements_Nil [simp]: "elements h [] = []"
  by (simp add: elements_def)

lemma elements_Cons: "elements h (n # ns) = fst (the (h n)) # elements h ns"
  by (simp add: elements_def)

lemma elements_append: "elements h (ns @ ms) = elements h ns @ elements h ms"
  by (simp add: elements_def)

lemma length_elements [simp]: "length (elements h ns) = length ns"
  by (simp add: elements_def)

lemma chain_first: "chain h p ns \<Longrightarrow> p = (case ns of [] \<Rightarrow> None | n # _ \<Rightarrow> Some n)"
  by (cases ns) auto

text \<open>Linking a node behind the last one appends it, and its element.\<close>

lemma chain_append:
  assumes "chain h p (ns @ [l])" "distinct (ns @ [l])" "n \<notin> set (ns @ [l])" "h l = Some (x, q)" "h n = Some (e, None)"
  shows "chain (h(l \<mapsto> (x, Some n))) p (ns @ [l, n])"
  using assms
proof (induction ns arbitrary: p)
  case Nil
  then show ?case by auto
next
  case (Cons m ns)
  then obtain y r where "h m = Some (y, r)" "chain h r (ns @ [l])" by auto
  with Cons show ?case by auto
qed

lemma chain_last_next: "chain h p (ns @ [l]) \<Longrightarrow> \<exists>x. h l = Some (x, None)"
  by (induction ns arbitrary: p) auto

lemma elements_link:
  assumes "h l = Some (x, q)"
  shows "elements (h(l \<mapsto> (x, r))) ns = elements h ns"
  using assms by (auto simp: elements_def)

text \<open>One append for both users: the sequential put below, and the critical section of the machine.\<close>

lemma link_node_chain:
  assumes "chain (heap q) (first q) ns" "distinct ns" "last q = end_of ns"
    "n \<notin> set ns" "heap q n = Some (e, None)"
  shows "\<exists>q'. link_node n q = Some q' \<and> chain (heap q') (first q') (ns @ [n]) \<and> last q' = Some n
    \<and> elements (heap q') (ns @ [n]) = elements (heap q) ns @ [e]
    \<and> (\<forall>m. m \<notin> set ns \<longrightarrow> heap q' m = heap q m)"
proof (cases ns rule: rev_cases)
  case Nil
  then show ?thesis using assms by (auto simp: link_node_def elements_def)
next
  case (snoc ms l)
  obtain x where x: "heap q l = Some (x, None)" using assms(1) chain_last_next snoc by blast
  have "first q \<noteq> None" using chain_first [OF assms(1)] snoc by (cases ms) auto
  moreover have "last q = Some l" using assms(3) snoc by (simp add: end_of_def)
  ultimately have lk: "link_node n q = Some (q\<lparr>heap := (heap q)(l \<mapsto> (x, Some n)), last := Some n\<rparr>)"
    using x by (auto simp: link_node_def)
  have "chain ((heap q)(l \<mapsto> (x, Some n))) (first q) (ms @ [l, n])"
    using assms x snoc by (intro chain_append) auto
  moreover have "elements ((heap q)(l \<mapsto> (x, Some n))) (ns @ [n]) = elements (heap q) ns @ [e]"
    using assms(5) by (simp add: elements_link [of "heap q" l x None, OF x] elements_append) (simp add: elements_def)
  moreover have "n \<noteq> l" using assms(4) snoc by auto
  ultimately show ?thesis using lk snoc by auto
qed

subsection \<open>The queue as an interface\<close>

text \<open>
  A queue in first-in first-out order, as its users see it: \<open>put\<close> is given the node the allocator
  chose, which must be a free one.
\<close>

locale fifo =
  fixes holds :: "'q \<Rightarrow> 'e list \<Rightarrow> bool"
    and free :: "'q \<Rightarrow> nat \<Rightarrow> bool"
    and put :: "nat \<Rightarrow> 'e \<Rightarrow> 'q \<Rightarrow> 'q option"
    and take :: "'q \<Rightarrow> ('e option \<times> 'q) option"
  assumes put_appends: "holds q xs \<Longrightarrow> free q n \<Longrightarrow> \<exists>q'. put n e q = Some q' \<and> holds q' (xs @ [e])"
    and take_first: "holds q (x # xs) \<Longrightarrow> \<exists>q'. take q = Some (Some x, q') \<and> holds q' xs"
    and take_none: "holds q [] \<Longrightarrow> take q = Some (None, q)"
begin

fun takes :: "nat \<Rightarrow> 'q \<Rightarrow> ('e option list \<times> 'q) option" where
  "takes 0 q = Some ([], q)"
| "takes (Suc n) q = do { (x, q) \<leftarrow> take q; (xs, q) \<leftarrow> takes n q; Some (x # xs, q) }"

text \<open>Taking as many as it holds gives them in the order they were put, and then nothing.\<close>

lemma takes_all: "holds q xs \<Longrightarrow> \<exists>q'. takes (length xs) q = Some (map Some xs, q') \<and> holds q' []"
proof (induction xs arbitrary: q)
  case Nil
  then show ?case by auto
next
  case (Cons x xs)
  obtain q' where q': "take q = Some (Some x, q')" "holds q' xs"
    using take_first [OF Cons.prems] by blast
  from Cons.IH [OF q'(2)] show ?case using q'(1) by auto
qed

lemma take_put:
  assumes "holds q []" "free q n"
  shows "\<exists>q' q''. put n e q = Some q' \<and> take q' = Some (Some e, q'') \<and> holds q'' []"
  using put_appends [OF assms, of e] take_first [of _ e "[]"] by fastforce

end

lemma queue_holds_put:
  assumes "queue_holds q xs" "heap q n = None"
  shows "\<exists>q'. threadsafe_queue_put n e q = Some q' \<and> queue_holds q' (xs @ [e])"
proof -
  obtain ns where ns: "chain (heap q) (first q) ns" "distinct ns" "last q = end_of ns" "xs = elements (heap q) ns"
    using assms(1) by (auto simp: queue_holds_def)
  have n: "n \<notin> set ns" using chain_allocated [OF ns(1)] assms(2) by blast
  let ?q = "new_node n e q"
  have "chain (heap ?q) (first ?q) ns" "last ?q = end_of ns" "heap ?q n = Some (e, None)"
    using ns n by (simp_all add: new_node_def chains)
  from link_node_chain [OF this(1) ns(2) this(2) n this(3)]
  obtain q' where q': "link_node n ?q = Some q'" "chain (heap q') (first q') (ns @ [n])" "last q' = Some n"
    "elements (heap q') (ns @ [n]) = elements (heap ?q) ns @ [e]" by blast
  have "elements (heap ?q) ns = xs" using ns(4) n by (simp add: new_node_def chains)
  with q' ns(2) n show ?thesis
    by (auto simp: threadsafe_queue_put_def queue_holds_def end_of_def intro!: exI [of _ "ns @ [n]"])
qed

lemma queue_holds_take:
  assumes "queue_holds q (x # xs)"
  shows "\<exists>q'. threadsafe_queue_take q = Some (Some x, q') \<and> queue_holds q' xs"
proof -
  obtain ns where ns: "chain (heap q) (first q) ns" "distinct ns" "last q = end_of ns" "x # xs = elements (heap q) ns"
    using assms by (auto simp: queue_holds_def)
  obtain n ms where m: "ns = n # ms" using ns(4) by (cases ns) (auto simp: elements_def)
  obtain e nxt where h: "heap q n = Some (e, nxt)" "chain (heap q) nxt ms" "first q = Some n"
    using ns(1) m by auto
  have e: "e = x" "xs = elements (heap q) ms" using ns(4) m h by (simp_all add: elements_Cons)
  have nxt: "(nxt = None) = (ms = [])" using chain_first [OF h(2)] by (cases ms) auto
  let ?q = "q\<lparr>first := nxt, last := (if nxt = None then None else last q), heap := (heap q)(n := None)\<rparr>"
  have "n \<notin> set ms" "distinct ms" using ns(2) m by auto
  moreover have "(if nxt = None then None else last q) = end_of ms"
    using nxt ns(3) m by (auto simp: end_of_def)
  ultimately have "queue_holds ?q xs" using h(2) e(2)
    by (auto simp: queue_holds_def chains intro!: exI [of _ ms])
  then show ?thesis using h e(1) by (auto simp: threadsafe_queue_take_def)
qed

lemma queue_holds_Nil: "queue_holds q [] \<Longrightarrow> first q = None \<and> last q = None"
  by (auto simp: queue_holds_def elements_def end_of_def)

interpretation tsq: fifo queue_holds "\<lambda>q n. heap q n = None" threadsafe_queue_put threadsafe_queue_take
  using queue_holds_put queue_holds_take
  by unfold_locales (auto dest!: queue_holds_Nil simp: threadsafe_queue_take_def)

lemma queue_holds_empty: "queue_holds empty_queue []"
  by (simp add: queue_holds_def empty_queue_def end_of_def)

text \<open>Counting ends with the number of elements, and freeing with no node of the queue left.\<close>

lemma queue_size_loop_chain: "chain h p ns \<Longrightarrow> queue_size_loop h p k = Some (k + length ns)"
proof (induction ns arbitrary: p k)
  case Nil
  then show ?case by (simp add: queue_size_loop.simps)
next
  case (Cons n ns)
  then show ?case by (subst queue_size_loop.simps) auto
qed

lemma threadsafe_queue_size_holds: "queue_holds q xs \<Longrightarrow> threadsafe_queue_size q = Some (length xs)"
  by (auto simp: queue_holds_def threadsafe_queue_size_def queue_size_loop_chain)

lemma queue_free_loop_chain:
  "chain h p ns \<Longrightarrow> distinct ns \<Longrightarrow> queue_free_loop h p = Some (\<lambda>a. if a \<in> set ns then None else h a)"
proof (induction ns arbitrary: p h)
  case Nil
  then show ?case by (simp add: queue_free_loop.simps)
next
  case (Cons n ns)
  then obtain x q where h: "p = Some n" "h n = Some (x, q)" "chain h q ns" by auto
  have "queue_free_loop (h(n := None)) q = Some (\<lambda>a. if a \<in> set ns then None else (h(n := None)) a)"
    using Cons h by (intro Cons.IH) (auto simp: chains simp del: fun_upd_apply)
  moreover have "(\<lambda>a. if a \<in> set ns then None else (h(n := None)) a) = (\<lambda>a. if a \<in> set (n # ns) then None else h a)"
    by auto
  ultimately show ?case using h by (subst queue_free_loop.simps) simp
qed

end
