(* ===== verification/Semaphores.thy ===== *)
theory Semaphores
  imports Prelude
begin

text \<open>
  The two implementations of the \<open>Semaphore\<close> interface: \<open>platformSemaphore.c\<close> (the Unix branch,
  over \<open>sem_t\<close>) and \<open>pharoSemaphore.c\<close> (a semaphore of the image, signalled by its index).

  A \<open>sem_t\<close> is its value. \<open>sem_wait\<close> may be interrupted any number of times before it decrements
  the value or fails; its outcomes are a list the operations consume, and a result \<open>None\<close> is a
  thread that still waits. \<open>signals\<close> counts what the machine was asked to signal, per index.
\<close>

datatype sem_wait_outcome = Decremented | Interrupted | Wait_error

definition SEM_VALUE_MAX :: nat where
  "SEM_VALUE_MAX = 2 ^ 31 - 1"

datatype Semaphore =
    Platform "nat option"  \<comment> \<open>the handle: NULL, or a \<open>sem_t\<close>\<close>
  | Pharo int

type_synonym signals = "int \<Rightarrow> nat"

subsection \<open>Platform semaphores\<close>

definition semaphore_new :: "bool \<Rightarrow> bool \<Rightarrow> nat \<Rightarrow> nat option" where
  "semaphore_new malloc_ok sem_init_ok initialValue =
     (if \<not> malloc_ok then None else if \<not> sem_init_ok then None else Some initialValue)"

fun semaphore_wait :: "sem_wait_outcome list \<Rightarrow> nat \<Rightarrow> (int \<times> nat) option" where
  "semaphore_wait [] sem = None"
| "semaphore_wait (Interrupted # os) sem = semaphore_wait os sem"
| "semaphore_wait (Wait_error # os) sem = Some (-1, sem)"
| "semaphore_wait (Decremented # os) sem = (if sem > 0 then Some (0, sem - 1) else None)"

definition semaphore_signal :: "nat \<Rightarrow> int \<times> nat" where
  "semaphore_signal sem = (if sem < SEM_VALUE_MAX then (0, Suc sem) else (-1, sem))"

text \<open>The handle is used as it is; a NULL one is undefined behaviour, which no result stands for.\<close>

definition platform_semaphore_wait :: "sem_wait_outcome list \<Rightarrow> nat option \<Rightarrow> (int \<times> nat) option" where
  "platform_semaphore_wait os handle = do { sem \<leftarrow> handle; semaphore_wait os sem }"

definition platform_semaphore_signal :: "nat option \<Rightarrow> (int \<times> nat) option" where
  "platform_semaphore_signal handle = map_option semaphore_signal handle"

text \<open>The wrapper is built whatever \<open>semaphore_new\<close> answers: a NULL handle goes unnoticed.\<close>

definition platform_semaphore_new :: "bool \<Rightarrow> bool \<Rightarrow> nat \<Rightarrow> Semaphore" where
  "platform_semaphore_new malloc_ok sem_init_ok initialValue =
     Platform (semaphore_new malloc_ok sem_init_ok initialValue)"

subsection \<open>Semaphores of the image\<close>

definition pharo_semaphore_wait :: "signals \<Rightarrow> int \<times> signals" where
  "pharo_semaphore_wait sg = (0, sg)"

definition pharo_semaphore_signal :: "bool \<Rightarrow> int \<Rightarrow> signals \<Rightarrow> int \<times> signals" where
  "pharo_semaphore_signal has_failed handle sg = (if has_failed then -1 else 0, sg(handle := Suc (sg handle)))"

definition pharo_semaphore_new :: "int \<Rightarrow> Semaphore" where
  "pharo_semaphore_new semaphore_index = Pharo semaphore_index"

subsection \<open>The interface\<close>

text \<open>The calls through the function pointers of the interface.\<close>

type_synonym sem_state = "Semaphore \<times> signals"

fun wait_call :: "sem_wait_outcome list \<Rightarrow> sem_state \<Rightarrow> (int \<times> sem_state) option" where
  "wait_call os (Platform h, sg) =
     map_option (\<lambda>(r, n). (r, Platform (Some n), sg)) (platform_semaphore_wait os h)"
| "wait_call os (Pharo i, sg) = (case pharo_semaphore_wait sg of (r, sg) \<Rightarrow> Some (r, Pharo i, sg))"

fun signal_call :: "bool \<Rightarrow> sem_state \<Rightarrow> (int \<times> sem_state) option" where
  "signal_call has_failed (Platform h, sg) =
     map_option (\<lambda>(r, n). (r, Platform (Some n), sg)) (platform_semaphore_signal h)"
| "signal_call has_failed (Pharo i, sg) =
     (case pharo_semaphore_signal has_failed i sg of (r, sg) \<Rightarrow> Some (r, Pharo i, sg))"

text \<open>
  What users of the interface rely on. Every semaphore counts the signals it is given; a counting
  semaphore also lets a wait end only against a signal. The queue needs the second contract of the
  semaphore it waits on, and the semaphore of an image only meets the first.
\<close>

locale semaphore =
  fixes units :: "'s \<Rightarrow> nat"
    and room :: "'s \<Rightarrow> bool"
    and wait :: "sem_wait_outcome list \<Rightarrow> 's \<Rightarrow> (int \<times> 's) option"
    and signal :: "'s \<Rightarrow> (int \<times> 's) option"
  assumes signal_counts: "room s \<Longrightarrow> \<exists>s'. signal s = Some (0, s') \<and> units s' = Suc (units s)"
    and wait_bound: "wait os s = Some (r, s') \<Longrightarrow> units s' \<le> units s"

locale counting_semaphore = semaphore +
  assumes wait_needs: "wait os s = Some (0, s') \<Longrightarrow> units s = Suc (units s')"
    and wait_ends: "0 < units s \<Longrightarrow> \<exists>s'. wait (replicate n Interrupted @ [Decremented]) s = Some (0, s')"
begin

text \<open>A signal is what one wait needs, however often it is interrupted.\<close>

lemma signal_then_wait:
  assumes "room s"
  shows "\<exists>s' s''. signal s = Some (0, s') \<and> wait (replicate n Interrupted @ [Decremented]) s' = Some (0, s'')
    \<and> units s'' = units s"
proof -
  obtain s' where s': "signal s = Some (0, s')" "units s' = Suc (units s)"
    using signal_counts [OF assms] by blast
  then obtain s'' where "wait (replicate n Interrupted @ [Decremented]) s' = Some (0, s'')"
    using wait_ends [of s' n] by auto
  moreover from wait_needs [OF this] s' have "units s'' = units s" by simp
  ultimately show ?thesis using s' by blast
qed

lemma blocks_at_zero: "units s = 0 \<Longrightarrow> wait os s \<noteq> Some (0, s')"
  using wait_needs by fastforce

end

lemma semaphore_wait_value: "semaphore_wait os n = Some (r, m) \<Longrightarrow> r = 0 \<and> n = Suc m \<or> r = -1 \<and> n = m"
  by (induction os n rule: semaphore_wait.induct) (auto split: if_splits)

lemma semaphore_wait_ends: "semaphore_wait (replicate k Interrupted @ [Decremented]) (Suc n) = Some (0, n)"
  by (induction k) simp_all

interpretation platform: counting_semaphore
  "\<lambda>h. case h of None \<Rightarrow> 0 | Some n \<Rightarrow> n" "\<lambda>h. case h of None \<Rightarrow> False | Some n \<Rightarrow> n < SEM_VALUE_MAX"
  "\<lambda>os h. map_option (\<lambda>(r, n). (r, Some n)) (platform_semaphore_wait os h)"
  "\<lambda>h. map_option (\<lambda>(r, n). (r, Some n)) (platform_semaphore_signal h)"
proof unfold_locales
  fix s :: "nat option" and n
  assume "0 < (case s of None \<Rightarrow> 0 | Some n \<Rightarrow> n)"
  then obtain m where "s = Some (Suc m)" by (cases s) (auto simp: gr0_conv_Suc)
  then show "\<exists>s'. map_option (\<lambda>(r, n). (r, Some n))
      (platform_semaphore_wait (replicate n Interrupted @ [Decremented]) s) = Some (0, s')"
    by (simp add: platform_semaphore_wait_def semaphore_wait_ends)
qed (auto simp: platform_semaphore_signal_def semaphore_signal_def platform_semaphore_wait_def Option.bind_eq_Some_conv
    split: option.splits dest!: semaphore_wait_value)

interpretation pharo: semaphore
  "\<lambda>sg :: signals. sg i" "\<lambda>sg. True" "\<lambda>os sg. Some (pharo_semaphore_wait sg)"
  "\<lambda>sg. Some (pharo_semaphore_signal False i sg)" for i
  by unfold_locales (auto simp: pharo_semaphore_wait_def pharo_semaphore_signal_def)

text \<open>Waiting for a semaphore of the image always ends, whether or not it was signalled.\<close>

lemma pharo_wait_never_blocks: "wait_call os (Pharo i, sg) = Some (0, Pharo i, sg)"
  by (simp add: pharo_semaphore_wait_def)

lemma platform_semaphore_new_unchecked: "platform_semaphore_new True False n = Platform None"
  by (simp add: platform_semaphore_new_def semaphore_new_def)

end
