(* ===== verification/TSQueueMachine.thy ===== *)
theory TSQueueMachine
  imports TSQueue Semaphores
begin

text \<open>
  The thread safe queue with its threads: any number of threads run \<open>threadsafe_queue_put\<close>,
  \<open>threadsafe_queue_take\<close> and \<open>threadsafe_queue_size\<close>, one statement at a time and in any order. A
  thread is at a program point; a rule of \<open>qstep\<close> is one statement of \<open>threadSafeQueue.c\<close> of one thread.

  The mutex is a platform semaphore that starts at 1, \<open>units\<close> is the value of the semaphore the
  queue was given; \<open>counting\<close> says whether it is a platform semaphore, whose wait takes a unit, or
  one of the image, whose wait does nothing. Two histories record what happened: \<open>linked\<close> the
  elements in the order they entered the queue, \<open>taken\<close> the elements with the thread that took
  them, in the order they left; \<open>answers\<close> what the calls of take that waited successfully answered, and to whom;
  \<open>failures\<close> the threads whose wait failed, to which take answered \<open>NULL\<close> at once.

  The allocation of a node may fail: \<open>put\<close> does not test the answer of \<open>malloc\<close>, so its thread is then at
  \<open>Put_fresh None e\<close>, about to write through a null pointer. That is undefined behaviour, and no rule leaves this point.
\<close>

datatype 'e point =
    Idle
  | Put_fresh "nat option" 'e
  | Put_lock nat
  | Put_link nat
  | Put_unlock
  | Put_signal
  | Take_wait
  | Take_lock
  | Take_read
  | Take_null
  | Take_next nat
  | Take_last nat
  | Take_unlock nat
  | Take_free nat
  | Size_lock
  | Size_walk "nat option" nat
  | Size_unlock nat

record 'e machine = "'e queue" +
  mutex :: nat
  units :: nat
  threads :: "'e point list"
  linked :: "'e list"
  taken :: "(nat \<times> 'e) list"
  answers :: "(nat \<times> 'e option) list"
  failures :: "nat list"

definition start :: "nat \<Rightarrow> 'e machine" where
  "start n = \<lparr>heap = (\<lambda>_. None), first = None, last = None, mutex = 1, units = 0,
     threads = replicate n Idle, linked = [], taken = [], answers = [], failures = []\<rparr>"

definition at :: "'e machine \<Rightarrow> nat \<Rightarrow> 'e point \<Rightarrow> bool" where
  "at s t p \<longleftrightarrow> t < length (threads s) \<and> threads s ! t = p"

definition goto :: "nat \<Rightarrow> 'e point \<Rightarrow> 'e machine \<Rightarrow> 'e machine" where
  "goto t p s = s\<lparr>threads := (threads s)[t := p]\<rparr>"

text \<open>
  \<open>link_node\<close> is the branch on an empty queue and its two stores, run under the mutex. What a fresh node holds
  is arbitrary.
\<close>

inductive qstep :: "bool \<Rightarrow> nat \<Rightarrow> 'e machine \<Rightarrow> 'e machine \<Rightarrow> bool" for counting t where
  put_call: "at s t Idle \<Longrightarrow> heap s n = None \<Longrightarrow>
    qstep counting t s (goto t (Put_fresh (Some n) e) (s\<lparr>heap := (heap s)(n \<mapsto> junk)\<rparr>))"
| put_call_null: "at s t Idle \<Longrightarrow> qstep counting t s (goto t (Put_fresh None e) s)"
| put_fill: "at s t (Put_fresh (Some n) e) \<Longrightarrow> heap s n = Some junk \<Longrightarrow>
    qstep counting t s (goto t (Put_lock n) (s\<lparr>heap := (heap s)(n \<mapsto> (e, None))\<rparr>))"
| put_lock: "at s t (Put_lock n) \<Longrightarrow> 0 < mutex s \<Longrightarrow>
    qstep counting t s (goto t (Put_link n) (s\<lparr>mutex := mutex s - 1\<rparr>))"
| put_link_first: "at s t (Put_link n) \<Longrightarrow> first s = None \<Longrightarrow> heap s n = Some (e, q) \<Longrightarrow>
    qstep counting t s (goto t Put_unlock (s\<lparr>first := Some n, last := Some n, linked := linked s @ [e]\<rparr>))"
| put_link_next: "at s t (Put_link n) \<Longrightarrow> first s \<noteq> None \<Longrightarrow> last s = Some l \<Longrightarrow> heap s l = Some (x, y) \<Longrightarrow>
    heap s n = Some (e, q) \<Longrightarrow>
    qstep counting t s (goto t Put_unlock
      (s\<lparr>heap := (heap s)(l \<mapsto> (x, Some n)), last := Some n, linked := linked s @ [e]\<rparr>))"
| put_unlock: "at s t Put_unlock \<Longrightarrow>
    qstep counting t s (goto t Put_signal (s\<lparr>mutex := mutex s + 1\<rparr>))"
| put_signal: "at s t Put_signal \<Longrightarrow>
    qstep counting t s (goto t Idle (s\<lparr>units := units s + 1\<rparr>))"
| take_call: "at s t Idle \<Longrightarrow> qstep counting t s (goto t Take_wait s)"
| take_wait: "at s t Take_wait \<Longrightarrow> counting \<Longrightarrow> 0 < units s \<Longrightarrow>
    qstep counting t s (goto t Take_lock (s\<lparr>units := units s - 1\<rparr>))"
| take_wait_fails: "at s t Take_wait \<Longrightarrow> counting \<Longrightarrow>
    qstep counting t s (goto t Idle (s\<lparr>failures := failures s @ [t]\<rparr>))"
| take_wait_image: "at s t Take_wait \<Longrightarrow> \<not> counting \<Longrightarrow> qstep counting t s (goto t Take_lock s)"
| take_lock: "at s t Take_lock \<Longrightarrow> 0 < mutex s \<Longrightarrow>
    qstep counting t s (goto t Take_read (s\<lparr>mutex := mutex s - 1\<rparr>))"
| take_read_null: "at s t Take_read \<Longrightarrow> first s = None \<Longrightarrow> qstep counting t s (goto t Take_null s)"
| take_read: "at s t Take_read \<Longrightarrow> first s = Some n \<Longrightarrow> qstep counting t s (goto t (Take_next n) s)"
| take_null: "at s t Take_null \<Longrightarrow>
    qstep counting t s (goto t Idle (s\<lparr>mutex := mutex s + 1, answers := answers s @ [(t, None)]\<rparr>))"
| take_next: "at s t (Take_next n) \<Longrightarrow> heap s n = Some (e, nxt) \<Longrightarrow>
    qstep counting t s (goto t (Take_last n) (s\<lparr>first := nxt, taken := taken s @ [(t, e)]\<rparr>))"
| take_last: "at s t (Take_last n) \<Longrightarrow>
    qstep counting t s (goto t (Take_unlock n) (s\<lparr>last := (if first s = None then None else last s)\<rparr>))"
| take_unlock: "at s t (Take_unlock n) \<Longrightarrow>
    qstep counting t s (goto t (Take_free n) (s\<lparr>mutex := mutex s + 1\<rparr>))"
| take_free: "at s t (Take_free n) \<Longrightarrow> heap s n = Some (e, q) \<Longrightarrow>
    qstep counting t s (goto t Idle (s\<lparr>heap := (heap s)(n := None), answers := answers s @ [(t, Some e)]\<rparr>))"
| size_call: "at s t Idle \<Longrightarrow> qstep counting t s (goto t Size_lock s)"
| size_lock: "at s t Size_lock \<Longrightarrow> 0 < mutex s \<Longrightarrow>
    qstep counting t s (goto t (Size_walk (first s) 0) (s\<lparr>mutex := mutex s - 1\<rparr>))"
| size_walk: "at s t (Size_walk (Some n) k) \<Longrightarrow> heap s n = Some (x, nxt) \<Longrightarrow>
    qstep counting t s (goto t (Size_walk nxt (Suc k)) s)"
| size_end: "at s t (Size_walk None k) \<Longrightarrow> qstep counting t s (goto t (Size_unlock k) s)"
| size_unlock: "at s t (Size_unlock k) \<Longrightarrow>
    qstep counting t s (goto t Idle (s\<lparr>mutex := mutex s + 1\<rparr>))"

inductive reachable :: "bool \<Rightarrow> nat \<Rightarrow> 'e machine \<Rightarrow> bool" for counting n where
  reachable_start: "reachable counting n (start n)"
| reachable_step: "reachable counting n s \<Longrightarrow> qstep counting t s s' \<Longrightarrow> reachable counting n s'"

subsection \<open>Weights of the threads\<close>

text \<open>Sums over the threads, which a step changes at one thread.\<close>

definition total :: "('e point \<Rightarrow> nat) \<Rightarrow> 'e machine \<Rightarrow> nat" where
  "total w s = sum_list (map w (threads s))"

lemma sum_list_update_nat:
  "t < length xs \<Longrightarrow> sum_list (map w (xs[t := p])) + w (xs ! t) = sum_list (map (w :: _ \<Rightarrow> nat) xs) + w p"
proof (induction xs arbitrary: t)
  case (Cons x xs)
  then show ?case by (cases t) (auto simp: ac_simps)
qed simp

lemma total_goto:
  "t < length (threads s) \<Longrightarrow> int (total w (goto t p s)) = int (total w s) + int (w p) - int (w (threads s ! t))"
  using sum_list_update_nat [of t "threads s" w p] by (simp add: total_def goto_def)

lemma total_update [simp]:
  "total w (s\<lparr>heap := h\<rparr>) = total w s" "total w (s\<lparr>first := f\<rparr>) = total w s"
  "total w (s\<lparr>last := l\<rparr>) = total w s" "total w (s\<lparr>mutex := m\<rparr>) = total w s"
  "total w (s\<lparr>units := u\<rparr>) = total w s" "total w (s\<lparr>linked := xs\<rparr>) = total w s"
  "total w (s\<lparr>taken := ys\<rparr>) = total w s" "total w (s\<lparr>answers := zs\<rparr>) = total w s" "total w (s\<lparr>failures := us\<rparr>) = total w s"
  by (simp_all add: total_def)

lemma total_ge: "at s t p \<Longrightarrow> w p \<le> total w s"
  using member_le_sum_list [of "w p" "map w (threads s)"] by (auto simp: total_def at_def)

lemma total_two:
  assumes "at s t p" "at s u q" "t \<noteq> u"
  shows "w p + w q \<le> total w s"
proof -
  have "w p + w q = (\<Sum>i \<in> {t, u}. w (threads s ! i))" using assms by (simp add: at_def)
  also have "\<dots> \<le> (\<Sum>i \<in> {0..<length (threads s)}. w (threads s ! i))"
    using assms by (intro sum_mono2) (auto simp: at_def)
  also have "\<dots> = total w s" by (simp add: total_def sum_list_sum_nth)
  finally show ?thesis .
qed

lemma at_goto [simp]:
  "threads s' = threads s \<Longrightarrow> at (goto t p s') u q \<longleftrightarrow> (if u = t then t < length (threads s) \<and> q = p else at s u q)"
  by (auto simp: at_def goto_def)

lemma goto_fields [simp]:
  "heap (goto t p s) = heap s" "first (goto t p s) = first s" "last (goto t p s) = last s"
  "mutex (goto t p s) = mutex s" "units (goto t p s) = units s" "linked (goto t p s) = linked s"
  "taken (goto t p s) = taken s" "answers (goto t p s) = answers s"
  "failures (goto t p s) = failures s"
  by (simp_all add: goto_def)

subsection \<open>Mutual exclusion\<close>

fun in_critical :: "'e point \<Rightarrow> nat" where
  "in_critical (Put_link n) = 1"
| "in_critical Put_unlock = 1"
| "in_critical Take_read = 1"
| "in_critical Take_null = 1"
| "in_critical (Take_next n) = 1"
| "in_critical (Take_last n) = 1"
| "in_critical (Take_unlock n) = 1"
| "in_critical (Size_walk p k) = 1"
| "in_critical (Size_unlock k) = 1"
| "in_critical p = 0"

definition exclusive :: "'e machine \<Rightarrow> bool" where
  "exclusive s \<longleftrightarrow> int (mutex s) + int (total in_critical s) = 1"

lemma exclusive_start: "exclusive (start n)"
  by (simp add: exclusive_def start_def total_def sum_list_replicate)

lemma exclusive_step: "qstep c t s s' \<Longrightarrow> exclusive s \<Longrightarrow> exclusive s'"
proof (induction rule: qstep.induct)
qed (auto simp: exclusive_def at_def total_goto)

lemma exclusiveD:
  "exclusive s \<Longrightarrow> at s t p \<Longrightarrow> at s u q \<Longrightarrow> in_critical p = 1 \<Longrightarrow> in_critical q = 1 \<Longrightarrow> t = u"
  using total_two [of s t p u q in_critical] by (fastforce simp: exclusive_def)

subsection \<open>Units and elements\<close>

text \<open>Elements in the queue whose signal is still due, and threads that waited and took none yet.\<close>

fun signal_due :: "'e point \<Rightarrow> nat" where
  "signal_due Put_unlock = 1"
| "signal_due Put_signal = 1"
| "signal_due p = 0"

fun take_due :: "'e point \<Rightarrow> nat" where
  "take_due Take_lock = 1"
| "take_due Take_read = 1"
| "take_due Take_null = 1"
| "take_due (Take_next n) = 1"
| "take_due p = 0"

definition balanced :: "'e machine \<Rightarrow> bool" where
  "balanced s \<longleftrightarrow> int (length (linked s))
     = int (length (taken s)) + int (units s) + int (total signal_due s) + int (total take_due s)"

definition no_null :: "'e machine \<Rightarrow> bool" where
  "no_null s \<longleftrightarrow> (\<forall>t. \<not> at s t Take_null)"

subsection \<open>The list of nodes\<close>

text \<open>The node a thread holds outside the queue.\<close>

fun own :: "'e point \<Rightarrow> nat option" where
  "own (Put_fresh (Some n) e) = Some n"
| "own (Put_lock n) = Some n"
| "own (Put_link n) = Some n"
| "own (Take_last n) = Some n"
| "own (Take_unlock n) = Some n"
| "own (Take_free n) = Some n"
| "own p = None"

definition owns :: "'e machine \<Rightarrow> nat \<Rightarrow> nat \<Rightarrow> bool" where
  "owns s t n \<longleftrightarrow> (\<exists>p. at s t p \<and> own p = Some n)"

definition unshared :: "nat list \<Rightarrow> 'e machine \<Rightarrow> bool" where
  "unshared ns s \<longleftrightarrow>
     (\<forall>t n. owns s t n \<longrightarrow> n \<notin> set ns \<and> heap s n \<noteq> None)
   \<and> (\<forall>t u n. owns s t n \<and> owns s u n \<longrightarrow> t = u)
   \<and> (\<forall>t n. at s t (Put_lock n) \<or> at s t (Put_link n) \<longrightarrow> (\<exists>e. heap s n = Some (e, None)))"

definition walks :: "nat list \<Rightarrow> 'e machine \<Rightarrow> bool" where
  "walks ns s \<longleftrightarrow>
     (\<forall>t n. at s t (Take_next n) \<longrightarrow> first s = Some n)
   \<and> (\<forall>t p k. at s t (Size_walk p k) \<longrightarrow> (\<exists>ms rs. ns = ms @ rs \<and> length ms = k \<and> chain (heap s) p rs))
   \<and> (\<forall>t k. at s t (Size_unlock k) \<longrightarrow> k = length ns)"

definition last_ok :: "nat list \<Rightarrow> 'e machine \<Rightarrow> bool" where
  "last_ok ns s \<longleftrightarrow> last s = end_of ns \<or> ns = [] \<and> (\<exists>t n. at s t (Take_last n))"

definition shape :: "nat list \<Rightarrow> 'e machine \<Rightarrow> bool" where
  "shape ns s \<longleftrightarrow> chain (heap s) (first s) ns \<and> distinct ns
     \<and> linked s = map snd (taken s) @ elements (heap s) ns
     \<and> last_ok ns s \<and> unshared ns s \<and> walks ns s"

lemma owns_goto [simp]:
  "threads s' = threads s \<Longrightarrow> owns (goto t p s') u n \<longleftrightarrow>
    (if u = t then t < length (threads s) \<and> own p = Some n else owns s u n)"
  by (auto simp: owns_def)

lemma owns_at: "at s t p \<Longrightarrow> own p = Some n \<Longrightarrow> owns s t n"
  by (auto simp: owns_def)

lemma at_unique: "at s t p \<Longrightarrow> at s t q \<Longrightarrow> p = q"
  by (simp add: at_def)

lemma at_owns: "at s t p \<Longrightarrow> owns s t n \<longleftrightarrow> own p = Some n"
  by (auto simp: owns_def at_def)

lemma at_bound: "at s t p \<Longrightarrow> t < length (threads s)"
  by (simp add: at_def)

lemma unsharedD:
  assumes "unshared ns s"
  shows "owns s t n \<Longrightarrow> n \<notin> set ns" "owns s t n \<Longrightarrow> heap s n \<noteq> None"
    "owns s t n \<Longrightarrow> owns s u n \<Longrightarrow> t = u"
    "at s t (Put_lock n) \<or> at s t (Put_link n) \<Longrightarrow> \<exists>e. heap s n = Some (e, None)"
  using assms unfolding unshared_def by blast+

lemma last_ok_goto:
  assumes "last_ok ns s" "at s t p" "\<forall>n. p \<noteq> Take_last n" "last s' = last s" "threads s' = threads s"
  shows "last_ok ns (goto t p' s')"
proof (cases "last s = end_of ns")
  case True
  then show ?thesis using assms(4) by (simp add: last_ok_def)
next
  case False
  then obtain u n where u: "ns = []" "at s u (Take_last n)" using assms(1) by (auto simp: last_ok_def)
  then have "u \<noteq> t" using assms(2,3) at_unique by metis
  then show ?thesis using u assms(5) by (auto simp: last_ok_def)
qed

text \<open>A step of a thread that moves no node, among points that hold the same node.\<close>

lemma shape_quiet:
  assumes "shape ns s" "at s t p" "heap s' = heap s" "first s' = first s" "last s' = last s"
    "linked s' = linked s" "taken s' = taken s" "threads s' = threads s"
    "own p' = own p" "\<forall>n. p \<noteq> Take_last n"
    "\<forall>n. p' = Take_next n \<longrightarrow> first s = Some n"
    "\<forall>q k. p' = Size_walk q k \<longrightarrow> (\<exists>ms rs. ns = ms @ rs \<and> length ms = k \<and> chain (heap s) q rs)"
    "\<forall>k. p' = Size_unlock k \<longrightarrow> k = length ns"
    "\<forall>n. p' = Put_lock n \<or> p' = Put_link n \<longrightarrow> p = Put_lock n"
  shows "shape ns (goto t p' s')"
proof -
  have own: "owns (goto t p' s') u n = owns s u n" for u n
    using assms(2,8,9) by (simp add: at_owns at_bound)
  have priv: "unshared ns s" using assms(1) by (simp add: shape_def)
  then have "unshared ns (goto t p' s')"
    using assms(2,8,14) unfolding unshared_def own goto_fields assms(3) by (simp add: at_bound) blast
  moreover have "walks ns (goto t p' s')"
    using assms(1,2,8,11-13) unfolding shape_def walks_def goto_fields assms(3,4)
    by (simp add: at_bound)
  moreover have "last_ok ns (goto t p' s')"
    using assms(1,2,5,8,10) by (intro last_ok_goto) (simp_all add: shape_def)
  ultimately show ?thesis using assms by (simp add: shape_def)
qed

text \<open>A node outside the queue may change without a walk noticing.\<close>

lemma walks_goto:
  assumes "walks ns s" "n \<notin> set ns" "heap s' = (heap s)(n := v)" "first s' = first s" "threads s' = threads s"
    "p' = Idle \<or> p' = Put_fresh (Some n) e \<or> p' = Put_lock n"
  shows "walks ns (goto t p' s')"
  unfolding walks_def goto_fields assms(3,4)
proof (intro conjI allI impI)
  fix u m assume "at (goto t p' s') u (Take_next m)"
  then have "at s u (Take_next m)" using assms(5,6) by (auto split: if_splits)
  then show "first s = Some m" using assms(1) by (simp add: walks_def)
next
  fix u q k assume "at (goto t p' s') u (Size_walk q k)"
  then have "at s u (Size_walk q k)" using assms(5,6) by (auto split: if_splits)
  then obtain ms rs where ms: "ns = ms @ rs" "length ms = k" "chain (heap s) q rs"
    using assms(1) unfolding walks_def by blast
  moreover have "chain ((heap s)(n := v)) q rs" using ms assms(2) by (simp add: chains)
  ultimately show "\<exists>ms rs. ns = ms @ rs \<and> length ms = k \<and> chain ((heap s)(n := v)) q rs" by blast
next
  fix u k assume "at (goto t p' s') u (Size_unlock k)"
  then have "at s u (Size_unlock k)" using assms(5,6) by (auto split: if_splits)
  then show "k = length ns" using assms(1) by (simp add: walks_def)
qed

text \<open>The steps that move a node. All but the allocation and the release run under the mutex.\<close>

lemma shape_put_call:
  assumes "shape ns s" "at s t Idle" "heap s n = None"
  shows "shape ns (goto t (Put_fresh (Some n) e) (s\<lparr>heap := (heap s)(n \<mapsto> junk)\<rparr>))" (is "shape ns ?s")
proof -
  have ch: "chain (heap s) (first s) ns" and priv: "unshared ns s" and walks: "walks ns s"
    using assms(1) by (simp_all add: shape_def)
  have n: "n \<notin> set ns" using chain_allocated [OF ch] assms(3) by blast
  have own: "\<not> owns s u n" for u using unsharedD(2) [OF priv] assms(3) by blast
  have "unshared ns ?s"
    unfolding unshared_def
  proof (intro conjI allI impI)
    fix u m assume o: "owns ?s u m"
    show "m \<notin> set ns" using o n unsharedD(1) [OF priv, of u m] by (auto split: if_splits)
    show "heap ?s m \<noteq> None" using o unsharedD(2) [OF priv, of u m] by (auto split: if_splits)
  next
    fix u v m assume o: "owns ?s u m \<and> owns ?s v m"
    then show "u = v" using own unsharedD(3) [OF priv, of u m v] by (auto split: if_splits)
  next
    fix u m assume "at ?s u (Put_lock m) \<or> at ?s u (Put_link m)"
    then have u: "at s u (Put_lock m) \<or> at s u (Put_link m)" by (auto split: if_splits)
    then have "owns s u m" by (auto simp: owns_def)
    then have "m \<noteq> n" using own by blast
    then show "\<exists>e. heap ?s m = Some (e, None)" using unsharedD(4) [OF priv u] by simp
  qed
  moreover have "walks ns ?s"
    using walks n by (rule walks_goto) simp_all
  moreover have "last_ok ns ?s"
    using assms(1) by (intro last_ok_goto [OF _ assms(2)]) (simp_all add: shape_def)
  ultimately show ?thesis using assms(1) n by (simp add: shape_def chains)
qed

lemma shape_put_fill:
  assumes "shape ns s" "at s t (Put_fresh (Some n) e)"
  shows "shape ns (goto t (Put_lock n) (s\<lparr>heap := (heap s)(n \<mapsto> (e, None))\<rparr>))" (is "shape ns ?s")
proof -
  have priv: "unshared ns s" and walks: "walks ns s" using assms(1) by (simp_all add: shape_def)
  have mine: "owns s t n" using owns_at [OF assms(2)] by simp
  have n: "n \<notin> set ns" using unsharedD(1) [OF priv mine] .
  have own: "owns ?s u m = owns s u m" for u m using assms(2) by (simp add: at_owns at_bound)
  have other: "m \<noteq> n" if "owns s u m" "u \<noteq> t" for u m using unsharedD(3) [OF priv mine] that by blast
  have "unshared ns ?s"
    unfolding unshared_def own
  proof (intro conjI allI impI)
    fix u m assume o: "owns s u m"
    show "m \<notin> set ns" by (rule unsharedD(1) [OF priv o])
    show "heap ?s m \<noteq> None" using unsharedD(2) [OF priv o] by simp
  next
    fix u v m assume "owns s u m \<and> owns s v m"
    then show "u = v" using unsharedD(3) [OF priv, of u m v] by blast
  next
    fix u m assume o: "at ?s u (Put_lock m) \<or> at ?s u (Put_link m)"
    show "\<exists>e. heap ?s m = Some (e, None)"
    proof (cases "u = t")
      case True
      then show ?thesis using o by (auto split: if_splits)
    next
      case False
      then have "at s u (Put_lock m) \<or> at s u (Put_link m)" using o by (auto split: if_splits)
      then have "owns s u m" "\<exists>e. heap s m = Some (e, None)"
        using unsharedD(4) [OF priv] by (auto simp: owns_def)
      then show ?thesis using other [OF _ False] by auto
    qed
  qed
  moreover have "walks ns ?s"
    using walks n by (rule walks_goto) simp_all
  moreover have "last_ok ns ?s"
    using assms(1) by (intro last_ok_goto [OF _ assms(2)]) (simp_all add: shape_def)
  ultimately show ?thesis using assms(1) n by (simp add: shape_def chains)
qed

text \<open>Under the mutex no other thread is between \<open>Take_next\<close> and \<open>Take_last\<close>, or walks.\<close>

lemma alone:
  assumes "exclusive s" "at s t p" "in_critical p = 1" "u \<noteq> t"
  shows "\<not> at s u (Take_last n)" "\<not> at s u (Take_next n)" "\<not> at s u (Size_walk q k)" "\<not> at s u (Size_unlock k)"
  using exclusiveD [OF assms(1,2)] assms(3,4) by fastforce+

lemma shape_link:
  assumes "shape ns s" "exclusive s" "at s t (Put_link n)" "heap s n = Some (e, r)"
    and link: "link_node n (queue.truncate s) = Some q'"
    and s': "heap s' = heap q'" "first s' = first q'" "last s' = last q'"
      "linked s' = linked s @ [e]" "taken s' = taken s" "threads s' = threads s"
  shows "shape (ns @ [n]) (goto t Put_unlock s')"
proof -
  have ch: "chain (heap s) (first s) ns" and d: "distinct ns" and priv: "unshared ns s"
    using assms(1) by (simp_all add: shape_def)
  have fields: "heap (queue.truncate s) = heap s" "first (queue.truncate s) = first s"
    "last (queue.truncate s) = last s" by (simp_all add: queue.defs)
  have "\<not> at s u (Take_last m)" for u m
    using alone(1) [OF assms(2,3)] at_unique [OF assms(3)] by (cases "u = t") auto
  then have l: "last s = end_of ns" using assms(1) by (auto simp: shape_def last_ok_def)
  have own: "owns s t n" using owns_at [OF assms(3)] by simp
  then have n: "n \<notin> set ns" using priv by (simp add: unshared_def)
  have e: "heap s n = Some (e, None)" using priv assms(3,4) by (fastforce simp: unshared_def)
  from link_node_chain [of "queue.truncate s" ns n e, unfolded fields, OF ch d l n e] link
  have q': "chain (heap q') (first q') (ns @ [n])" "last q' = Some n"
    "elements (heap q') (ns @ [n]) = elements (heap s) ns @ [e]" "\<forall>m. m \<notin> set ns \<longrightarrow> heap q' m = heap s m"
    by auto
  have other: "m \<noteq> n \<and> m \<notin> set ns \<and> u \<noteq> t" if "owns s u m" "u \<noteq> t" for u m
    using that own unsharedD(1,3) [OF priv] by blast
  have "unshared (ns @ [n]) (goto t Put_unlock s')"
    unfolding unshared_def goto_fields s'(1)
  proof (intro conjI allI impI)
    fix u m assume "owns (goto t Put_unlock s') u m"
    then have "owns s u m" "u \<noteq> t" using s' by (auto split: if_splits)
    with other priv q'(4) show "m \<notin> set (ns @ [n])" "heap q' m \<noteq> None" by (auto simp: unshared_def)
  next
    fix u v m assume "owns (goto t Put_unlock s') u m \<and> owns (goto t Put_unlock s') v m"
    then have "owns s u m" "owns s v m" using s' by (auto split: if_splits)
    then show "u = v" by (rule unsharedD(3) [OF priv])
  next
    fix u m assume "at (goto t Put_unlock s') u (Put_lock m) \<or> at (goto t Put_unlock s') u (Put_link m)"
    then have u: "at s u (Put_lock m) \<or> at s u (Put_link m)" "u \<noteq> t" using s' by (auto split: if_splits)
    then have "owns s u m" by (auto simp: owns_def)
    with u other priv q'(4) show "\<exists>e. heap q' m = Some (e, None)" by (auto simp: unshared_def)
  qed
  moreover have "walks (ns @ [n]) (goto t Put_unlock s')"
    using alone(2,3,4) [OF assms(2,3)] s' unfolding walks_def by (auto split: if_splits)
  ultimately show ?thesis using q' d n s' assms(1)
    by (auto simp: shape_def last_ok_def end_of_def)
qed

lemma shape_take_next:
  assumes "shape ns s" "exclusive s" "at s t (Take_next n)" "heap s n = Some (e, nxt)"
  shows "shape (tl ns) (goto t (Take_last n) (s\<lparr>first := nxt, taken := taken s @ [(t, e)]\<rparr>))"
proof -
  have sh: "chain (heap s) (first s) ns" "distinct ns" "unshared ns s"
    "linked s = map snd (taken s) @ elements (heap s) ns" using assms(1) by (simp_all add: shape_def)
  have f: "first s = Some n" using assms(1,3) by (auto simp: shape_def walks_def)
  then obtain ms where ns: "ns = n # ms" using sh(1) by (cases ns) auto
  have ms: "chain (heap s) nxt ms" using sh(1) assms(4) by (simp add: ns)
  have "\<not> at s u (Take_last m)" for u m
    using alone(1) [OF assms(2,3)] at_unique [OF assms(3)] by (cases "u = t") auto
  then have "last s = end_of ns" using assms(1) by (auto simp: shape_def last_ok_def)
  then have "ms \<noteq> [] \<Longrightarrow> last s = end_of ms" by (simp add: ns end_of_def)
  then have "last_ok ms (goto t (Take_last n) (s\<lparr>first := nxt, taken := taken s @ [(t, e)]\<rparr>))"
    using assms(3) by (auto simp: last_ok_def at_bound)
  moreover have "unshared ms (goto t (Take_last n) (s\<lparr>first := nxt, taken := taken s @ [(t, e)]\<rparr>))"
    (is "unshared ms ?s")
    unfolding unshared_def
  proof (intro conjI allI impI)
    fix u m assume o: "owns ?s u m"
    show "m \<notin> set ms"
      using o sh(2) unsharedD(1) [OF sh(3), of u m] by (auto simp: ns split: if_splits)
    show "heap ?s m \<noteq> None"
      using o assms(4) unsharedD(2) [OF sh(3), of u m] by (auto split: if_splits)
  next
    fix u v m assume o: "owns ?s u m \<and> owns ?s v m"
    have "\<not> owns s w n" for w using unsharedD(1) [OF sh(3)] by (auto simp: ns)
    with o show "u = v" using unsharedD(3) [OF sh(3), of u m v] by (auto split: if_splits)
  next
    fix u m assume "at ?s u (Put_lock m) \<or> at ?s u (Put_link m)"
    then show "\<exists>e. heap ?s m = Some (e, None)"
      using unsharedD(4) [OF sh(3), of u m] by (auto split: if_splits)
  qed
  moreover have "walks ms (goto t (Take_last n) (s\<lparr>first := nxt, taken := taken s @ [(t, e)]\<rparr>))"
    using alone(2,3,4) [OF assms(2,3)] unfolding walks_def by (auto split: if_splits)
  ultimately show ?thesis using sh ms assms(4) by (simp add: shape_def ns elements_Cons)
qed

lemma shape_take_last:
  assumes "shape ns s" "exclusive s" "at s t (Take_last n)"
  shows "shape ns (goto t (Take_unlock n) (s\<lparr>last := (if first s = None then None else last s)\<rparr>))"
proof -
  let ?s = "goto t (Take_unlock n) (s\<lparr>last := (if first s = None then None else last s)\<rparr>)"
  have own: "owns ?s u m = owns s u m" for u m using assms(3) by (simp add: at_owns at_bound)
  have "unshared ns ?s" using assms(1,3) unfolding shape_def unshared_def own by simp
  moreover have "walks ns ?s" using assms(1) unfolding shape_def walks_def by simp
  moreover have "last_ok ns ?s"
    using assms(1) chain_first [of "heap s" "first s" ns]
    by (auto simp: shape_def last_ok_def end_of_def split: list.splits)
  ultimately show ?thesis using assms(1) by (simp add: shape_def)
qed

lemma shape_take_free:
  assumes "shape ns s" "at s t (Take_free n)"
  shows "shape ns (goto t Idle (s\<lparr>heap := (heap s)(n := None), answers := a\<rparr>))"
proof -
  let ?s = "goto t Idle (s\<lparr>heap := (heap s)(n := None), answers := a\<rparr>)"
  have priv: "unshared ns s" and walks: "walks ns s" using assms(1) by (simp_all add: shape_def)
  have own: "owns s t n" using owns_at [OF assms(2)] by simp
  then have n: "n \<notin> set ns" using priv by (simp add: unshared_def)
  have other: "m \<noteq> n" if "owns s u m" "u \<noteq> t" for u m
    using that own unsharedD(3) [OF priv] by blast
  have "unshared ns ?s"
    unfolding unshared_def
  proof (intro conjI allI impI)
    fix u m assume "owns ?s u m"
    then have "owns s u m" "u \<noteq> t" by (auto split: if_splits)
    with other priv show "m \<notin> set ns" "heap ?s m \<noteq> None" by (auto simp: unshared_def)
  next
    fix u v m assume "owns ?s u m \<and> owns ?s v m"
    then have "owns s u m" "owns s v m" by (auto split: if_splits)
    then show "u = v" by (rule unsharedD(3) [OF priv])
  next
    fix u m assume "at ?s u (Put_lock m) \<or> at ?s u (Put_link m)"
    then have u: "at s u (Put_lock m) \<or> at s u (Put_link m)" "u \<noteq> t" by (auto split: if_splits)
    then have "owns s u m" by (auto simp: owns_def)
    with u other priv show "\<exists>e. heap ?s m = Some (e, None)" by (auto simp: unshared_def)
  qed
  moreover have "walks ns ?s"
    using walks n by (rule walks_goto) simp_all
  moreover have "last_ok ns ?s"
    using assms(1) by (intro last_ok_goto [OF _ assms(2)]) (simp_all add: shape_def)
  ultimately show ?thesis using assms(1) n by (simp add: shape_def chains)
qed

subsection \<open>The invariants of the machine\<close>

lemma shape_start: "shape [] (start n)"
  by (auto simp: shape_def start_def last_ok_def end_of_def unshared_def walks_def owns_def at_def)

lemma shape_step:
  assumes "qstep counting t s s'" "shape ns s" "exclusive s"
  shows "\<exists>ms. shape ms s'"
  using assms
proof (induction rule: qstep.induct)
  case (put_call s n e junk)
  show ?case by (rule exI, rule shape_put_call) (use put_call in simp_all)
next
  case (put_call_null s e)
  show ?case by (rule exI, rule shape_quiet [of ns s t Idle]) (use put_call_null in auto)
next
  case (put_fill s n e junk)
  show ?case by (rule exI, rule shape_put_fill) (use put_fill in simp_all)
next
  case (put_link_first s n e q)
  show ?case
    by (rule exI, rule shape_link [where q' = "queue.truncate (s\<lparr>first := Some n, last := Some n\<rparr>)" and e = e])
      (use put_link_first in \<open>auto simp: link_node_def queue.defs\<close>)
next
  case (put_link_next s n l x y e q)
  show ?case
    by (rule exI, rule shape_link [where e = e
          and q' = "queue.truncate (s\<lparr>heap := (heap s)(l \<mapsto> (x, Some n)), last := Some n\<rparr>)"])
      (use put_link_next in \<open>auto simp: link_node_def queue.defs\<close>)
next
  case (take_next s n e nxt)
  show ?case by (rule exI, rule shape_take_next) (use take_next in simp_all)
next
  case (take_last s n)
  show ?case by (rule exI, rule shape_take_last) (use take_last in simp_all)
next
  case (take_free s n e q)
  show ?case by (rule exI, rule shape_take_free) (use take_free in simp_all)
next
  case (take_read s n)
  show ?case by (rule exI, rule shape_quiet [of ns s t Take_read]) (use take_read in auto)
next
  case (size_lock s)
  then have "chain (heap s) (first s) ns" by (simp add: shape_def)
  then show ?case by - (rule exI, rule shape_quiet [of ns s t Size_lock], use size_lock in auto)
next
  case (size_walk s n k x nxt)
  then obtain ms rs where ms: "ns = ms @ rs" "length ms = k" "chain (heap s) (Some n) rs"
    unfolding shape_def walks_def by blast
  then obtain rs' where rs: "rs = n # rs'" "chain (heap s) nxt rs'" using size_walk(2) by (cases rs) auto
  then have "ns = (ms @ [n]) @ rs' \<and> length (ms @ [n]) = Suc k \<and> chain (heap s) nxt rs'" using ms by simp
  then have "\<exists>ms rs. ns = ms @ rs \<and> length ms = Suc k \<and> chain (heap s) nxt rs" by blast
  then show ?case by - (rule exI, rule shape_quiet [of ns s t "Size_walk (Some n) k"], use size_walk in simp_all)
next
  case (size_end s k)
  then obtain ms rs where "ns = ms @ rs" "length ms = k" "chain (heap s) None rs"
    unfolding shape_def walks_def by blast
  then have "k = length ns" by (cases rs) auto
  then show ?case by - (rule exI, rule shape_quiet [of ns s t "Size_walk None k"], use size_end in simp_all)
next
  case (put_lock s n)
  show ?case by (rule exI, rule shape_quiet [of ns s t "Put_lock n"]) (use put_lock in auto)
next
  case (put_unlock s)
  show ?case by (rule exI, rule shape_quiet [of ns s t Put_unlock]) (use put_unlock in auto)
next
  case (put_signal s)
  show ?case by (rule exI, rule shape_quiet [of ns s t Put_signal]) (use put_signal in auto)
next
  case (take_call s)
  show ?case by (rule exI, rule shape_quiet [of ns s t Idle]) (use take_call in auto)
next
  case (take_wait s)
  show ?case by (rule exI, rule shape_quiet [of ns s t Take_wait]) (use take_wait in auto)
next
  case (take_wait_fails s)
  show ?case by (rule exI, rule shape_quiet [of ns s t Take_wait]) (use take_wait_fails in auto)
next
  case (take_wait_image s)
  show ?case by (rule exI, rule shape_quiet [of ns s t Take_wait]) (use take_wait_image in auto)
next
  case (take_lock s)
  show ?case by (rule exI, rule shape_quiet [of ns s t Take_lock]) (use take_lock in auto)
next
  case (take_read_null s)
  show ?case by (rule exI, rule shape_quiet [of ns s t Take_read]) (use take_read_null in auto)
next
  case (take_null s)
  show ?case by (rule exI, rule shape_quiet [of ns s t Take_null]) (use take_null in auto)
next
  case (take_unlock s n)
  show ?case by (rule exI, rule shape_quiet [of ns s t "Take_unlock n"]) (use take_unlock in auto)
next
  case (size_call s)
  show ?case by (rule exI, rule shape_quiet [of ns s t Idle]) (use size_call in auto)
next
  case (size_unlock s k)
  show ?case by (rule exI, rule shape_quiet [of ns s t "Size_unlock k"]) (use size_unlock in auto)
qed

lemma reachable_exclusive: "reachable counting n s \<Longrightarrow> exclusive s"
  by (induction rule: reachable.induct) (auto intro: exclusive_start exclusive_step)

lemma reachable_shape: "reachable counting n s \<Longrightarrow> \<exists>ns. shape ns s"
  by (induction rule: reachable.induct) (blast intro: shape_start shape_step reachable_exclusive)+

text \<open>
  With a counting semaphore the elements are balanced by the units and the threads that took one:
  so a thread that waited always finds an element.
\<close>

lemma balanced_start: "balanced (start n)"
  by (simp add: balanced_def start_def total_def sum_list_replicate)

lemma reading_nonempty:
  assumes "balanced s" "shape ns s" "at s t Take_read"
  shows "first s \<noteq> None"
proof -
  have "1 \<le> total take_due s" using total_ge [OF assms(3), of take_due] by simp
  then have "length (taken s) < length (linked s)" using assms(1) by (simp add: balanced_def)
  then have "ns \<noteq> []" using assms(2) by (auto simp: shape_def)
  then show ?thesis using assms(2) by (cases ns) (auto simp: shape_def)
qed

lemma balanced_step:
  assumes "qstep counting t s s'" "counting" "balanced s" "no_null s"
  shows "balanced s'"
  using assms
proof (induction rule: qstep.induct)
  case (take_null s)
  then show ?case by (simp add: no_null_def)
qed (auto simp: balanced_def at_def total_goto)

lemma no_null_step:
  assumes "qstep counting t s s'" "balanced s" "no_null s" "shape ns s"
  shows "no_null s'"
  using assms
proof (induction rule: qstep.induct)
  case (take_read_null s)
  then show ?case using reading_nonempty by blast
qed (auto simp: no_null_def split: if_splits)

lemma reachable_balanced: "reachable True n s \<Longrightarrow> balanced s \<and> no_null s"
proof (induction rule: reachable.induct)
  case reachable_start
  then show ?case by (simp add: balanced_start no_null_def) (simp add: start_def at_def)
next
  case (reachable_step s t s')
  then show ?case using reachable_shape balanced_step no_null_step by blast
qed

subsection \<open>Answers\<close>

definition mine :: "nat \<Rightarrow> (nat \<times> 'b) list \<Rightarrow> 'b list" where
  "mine t xs = map snd (filter (\<lambda>x. fst x = t) xs)"

lemma mine_append [simp]: "mine t (xs @ ys) = mine t xs @ mine t ys"
  by (simp add: mine_def)

lemma mine_Nil [simp]: "mine t [] = []"
  by (simp add: mine_def)

lemma mine_one [simp]: "mine t [(u, x)] = (if u = t then [x] else [])"
  by (simp add: mine_def)

text \<open>The element a thread took but did not answer yet.\<close>

fun carried :: "'e point \<Rightarrow> nat option" where
  "carried (Take_last n) = Some n"
| "carried (Take_unlock n) = Some n"
| "carried (Take_free n) = Some n"
| "carried p = None"

definition pending :: "'e machine \<Rightarrow> nat \<Rightarrow> 'e option list" where
  "pending s t = (if t < length (threads s) then
     (case carried (threads s ! t) of None \<Rightarrow> [] | Some n \<Rightarrow> [Some (fst (the (heap s n)))]) else [])"

definition answered :: "'e machine \<Rightarrow> bool" where
  "answered s \<longleftrightarrow> (\<forall>t. map Some (mine t (taken s))
     = filter (\<lambda>a. a \<noteq> None) (mine t (answers s)) @ pending s t)"

lemma carried_own: "carried p = Some n \<Longrightarrow> own p = Some n"
  by (cases p) auto

lemma element_stable:
  assumes "qstep counting t s s'" "shape ns s" "owns s u m" "owns s' u m" "u \<noteq> t"
  shows "fst (the (heap s' m)) = fst (the (heap s m))"
  using assms
proof (induction rule: qstep.induct)
  case (put_fill s n e junk)
  then have "owns s t n" by (simp add: at_owns)
  then have "m \<noteq> n" using put_fill unsharedD(3) by (fastforce simp: shape_def)
  then show ?case by simp
next
  case (put_call s n e junk)
  then have "heap s m \<noteq> None" using unsharedD(2) [of ns s u m] by (simp add: shape_def)
  then show ?case using put_call by auto
next
  case (take_free s n e q)
  then have "owns s t n" by (simp add: at_owns)
  moreover have "u \<noteq> t" using take_free by auto
  ultimately have "m \<noteq> n" using take_free unsharedD(3) by (fastforce simp: shape_def)
  then show ?case by simp
qed simp_all

lemma pending_at: "at s t p \<Longrightarrow> pending s t = (case carried p of None \<Rightarrow> [] | Some n \<Rightarrow> [Some (fst (the (heap s n)))])"
  by (simp add: pending_def at_def)

lemma pending_other:
  assumes "qstep counting t s s'" "shape ns s" "u < length (threads s)" "length (threads s') = length (threads s)"
    "threads s' ! u = threads s ! u" "u \<noteq> t"
  shows "pending s' u = pending s u"
proof (cases "carried (threads s ! u)")
  case None
  then show ?thesis using assms by (simp add: pending_def)
next
  case (Some n)
  then have "owns s u n" "owns s' u n" using assms by (auto simp: owns_def at_def carried_own)
  from element_stable [OF assms(1,2) this assms(6)] show ?thesis using Some assms by (simp add: pending_def)
qed

text \<open>What a step adds to the histories belongs to the thread that moves.\<close>

lemma step_thread:
  assumes "qstep counting t s s'"
  shows "t < length (threads s)" "length (threads s') = length (threads s)"
    "u \<noteq> t \<Longrightarrow> threads s' ! u = threads s ! u"
    "u \<noteq> t \<Longrightarrow> mine u (taken s') = mine u (taken s)"
    "u \<noteq> t \<Longrightarrow> mine u (answers s') = mine u (answers s)"
    "map Some (mine t (taken s)) = filter (\<lambda>a. a \<noteq> None) (mine t (answers s)) @ pending s t
      \<Longrightarrow> map Some (mine t (taken s')) = filter (\<lambda>a. a \<noteq> None) (mine t (answers s')) @ pending s' t"
  using assms by (cases rule: qstep.cases; auto simp: pending_def at_def goto_def)+

lemma answered_step:
  assumes "qstep counting t s s'" "shape ns s" "answered s"
  shows "answered s'"
proof -
  note t = step_thread [OF assms(1)]
  show ?thesis
    unfolding answered_def
  proof
    fix u
    show "map Some (mine u (taken s')) = filter (\<lambda>a. a \<noteq> None) (mine u (answers s')) @ pending s' u"
    proof (cases "u = t")
      case True
      then show ?thesis using t(6) assms(3) by (simp add: answered_def)
    next
      case False
      have "pending s' u = pending s u"
      proof (cases "u < length (threads s)")
        case True
        then show ?thesis using pending_other [OF assms(1,2)] t(2,3) False by blast
      next
        case False
        then show ?thesis using t(2) by (simp add: pending_def)
      qed
      then show ?thesis using t(4,5) [OF False] assms(3) by (simp add: answered_def)
    qed
  qed
qed

lemma reachable_answered: "reachable counting n s \<Longrightarrow> answered s"
proof (induction rule: reachable.induct)
  case reachable_start
  then show ?case by (auto simp: answered_def start_def pending_def)
next
  case (reachable_step s t s')
  then show ?case using reachable_shape answered_step by blast
qed

subsection \<open>What the machine guarantees\<close>

text \<open>
  C1: Whatever the interleaving, the queue is first in, first out: the elements linked so far are
  those taken so far, in the same order, followed by those on the list; and a thread between calls
  was answered exactly the elements it took, in order (a take whose wait failed answered \<open>NULL\<close> and took none). The list is
  sound, with no node on it twice.
\<close>
theorem tsqueue_is_fifo:
  assumes "reachable counting n s"
  shows "\<exists>ns. chain (heap s) (first s) ns \<and> distinct ns
    \<and> linked s = map snd (taken s) @ elements (heap s) ns
    \<and> (\<forall>t. at s t Idle \<longrightarrow> map Some (mine t (taken s)) = filter (\<lambda>a. a \<noteq> None) (mine t (answers s)))"
proof -
  obtain ns where "shape ns s" using reachable_shape [OF assms] ..
  moreover have "pending s t = []" if "at s t Idle" for t using pending_at [OF that] by simp
  ultimately show ?thesis using reachable_answered [OF assms] by (auto simp: shape_def answered_def)
qed

text \<open>A run of one thread that puts an element, step by step.\<close>

lemma example_put: "\<exists>s. reachable True 1 s \<and> linked s = [e] \<and> units s = 1 \<and> threads s = [Idle] \<and>
  first s = Some 5 \<and> last s = Some 5 \<and> mutex s = 1 \<and> heap s = [5 \<mapsto> (e, None)]"
proof -
  let ?s0 = "start 1 :: 'a machine"
  let ?s1 = "goto 0 (Put_fresh (Some 5) e) (?s0\<lparr>heap := (heap ?s0)(5 \<mapsto> (undefined, None))\<rparr>)"
  let ?s2 = "goto 0 (Put_lock 5) (?s1\<lparr>heap := (heap ?s1)(5 \<mapsto> (e, None))\<rparr>)"
  let ?s3 = "goto 0 (Put_link 5) (?s2\<lparr>mutex := mutex ?s2 - 1\<rparr>)"
  let ?s4 = "goto 0 Put_unlock (?s3\<lparr>first := Some 5, last := Some 5, linked := linked ?s3 @ [e]\<rparr>)"
  let ?s5 = "goto 0 Put_signal (?s4\<lparr>mutex := mutex ?s4 + 1\<rparr>)"
  let ?s6 = "goto 0 Idle (?s5\<lparr>units := units ?s5 + 1\<rparr>)"
  have 0: "reachable True 1 ?s0" by (rule reachable_start)
  have 1: "reachable True 1 ?s1"
    by (rule reachable_step [OF 0], rule qstep.put_call) (simp_all add: start_def at_def)
  have 2: "reachable True 1 ?s2"
    by (rule reachable_step [OF 1], rule qstep.put_fill) (simp_all add: start_def at_def goto_def)
  have 3: "reachable True 1 ?s3"
    by (rule reachable_step [OF 2], rule qstep.put_lock) (simp_all add: start_def at_def goto_def)
  have 4: "reachable True 1 ?s4"
    by (rule reachable_step [OF 3], rule qstep.put_link_first) (simp_all add: start_def at_def goto_def)
  have 5: "reachable True 1 ?s5"
    by (rule reachable_step [OF 4], rule qstep.put_unlock) (simp_all add: start_def at_def goto_def)
  have "reachable True 1 ?s6"
    by (rule reachable_step [OF 5], rule qstep.put_signal) (simp_all add: start_def at_def goto_def)
  moreover have "linked ?s6 = [e]" "units ?s6 = 1" "threads ?s6 = [Idle]" "first ?s6 = Some 5" "last ?s6 = Some 5"
    "mutex ?s6 = 1" "heap ?s6 = [5 \<mapsto> (e, None)]"
    by (simp_all add: start_def goto_def)
  ultimately show ?thesis by blast
qed

text \<open>A second put, up to where it links its node behind the first.\<close>

lemma example_second_put:
  "\<exists>s. reachable True 1 s \<and> at s 0 (Put_link 6) \<and> first s = Some 5 \<and> last s = Some 5 \<and> heap s = [5 \<mapsto> (e, None), 6 \<mapsto> (d, None)]"
proof -
  obtain s where s: "reachable True 1 s" "threads s = [Idle]" "first s = Some 5" "last s = Some 5" "mutex s = 1" "heap s = [5 \<mapsto> (e, None)]"
    using example_put [of e] by blast
  let ?s1 = "goto 0 (Put_fresh (Some 6) d) (s\<lparr>heap := (heap s)(6 \<mapsto> (undefined, None))\<rparr>)"
  let ?s2 = "goto 0 (Put_lock 6) (?s1\<lparr>heap := (heap ?s1)(6 \<mapsto> (d, None))\<rparr>)"
  let ?s3 = "goto 0 (Put_link 6) (?s2\<lparr>mutex := mutex ?s2 - 1\<rparr>)"
  have 1: "reachable True 1 ?s1"
    by (rule reachable_step [OF s(1)], rule qstep.put_call) (simp_all add: s at_def)
  have 2: "reachable True 1 ?s2"
    by (rule reachable_step [OF 1], rule qstep.put_fill) (simp_all add: s at_def goto_def)
  have 3: "reachable True 1 ?s3"
    by (rule reachable_step [OF 2], rule qstep.put_lock) (simp_all add: s at_def goto_def)
  have "at ?s3 0 (Put_link 6)" "first ?s3 = Some 5" "last ?s3 = Some 5" "heap ?s3 = [5 \<mapsto> (e, None), 6 \<mapsto> (d, None)]"
    using s by (simp_all add: at_def goto_def)
  then show ?thesis using 3 by blast
qed

lemma tsqueue_is_fifo_witness:
  "\<exists>s ns. reachable True 1 s \<and> linked s = [7 :: nat] \<and> chain (heap s) (first s) ns \<and> distinct ns
    \<and> linked s = map snd (taken s) @ elements (heap s) ns
    \<and> (\<forall>t. at s t Idle \<longrightarrow> map Some (mine t (taken s)) = filter (\<lambda>a. a \<noteq> None) (mine t (answers s)))"
proof -
  obtain s where s: "reachable True 1 s" "linked s = [7 :: nat]" using example_put [of 7] by blast
  from tsqueue_is_fifo [OF s(1)] s show ?thesis by blast
qed

text \<open>
  With a counting semaphore every take finds an element: no call of take ever answers NULL,
  and the elements on the list are as many as the units of the semaphore, the signals still due
  and the threads that waited but did not take yet.
\<close>
theorem tsqueue_take_finds_element:
  assumes "reachable True n s"
  shows "(t, None) \<notin> set (answers s)
    \<and> length (linked s) = length (taken s) + units s + total signal_due s + total take_due s"
proof
  show "(t, None) \<notin> set (answers s)" using assms
  proof (induction rule: reachable.induct)
    case (reachable_step s u s')
    have "no_null s" using reachable_balanced [OF reachable_step(1)] ..
    with reachable_step(2,3) show ?case by (cases rule: qstep.cases) (auto simp: no_null_def)
  qed (simp add: start_def)
  show "length (linked s) = length (taken s) + units s + total signal_due s + total take_due s"
    using reachable_balanced [OF assms] by (simp add: balanced_def)
qed

lemma tsqueue_take_finds_element_witness:
  "\<exists>s. reachable True 1 s \<and> linked s = [7 :: nat] \<and> (0, None) \<notin> set (answers s)
    \<and> length (linked s) = length (taken s) + units s + total signal_due s + total take_due s"
proof -
  obtain s where s: "reachable True 1 s" "linked s = [7 :: nat]" using example_put [of 7] by blast
  from tsqueue_take_finds_element [OF s(1)] s show ?thesis by blast
qed

text \<open>The pointers the next statement of a thread follows.\<close>

fun follows :: "'e machine \<Rightarrow> 'e point \<Rightarrow> nat option list" where
  "follows s (Put_fresh n e) = [n]"
| "follows s (Put_link n) = (if first s = None then [Some n] else [last s, Some n])"
| "follows s (Take_next n) = [Some n]"
| "follows s (Take_free n) = [Some n]"
| "follows s (Size_walk (Some n) k) = [Some n]"
| "follows s p = []"

lemma follows_allocated:
  assumes "shape ns s" "exclusive s" "at s t p" "a \<in> set (follows s p)" "\<forall>e. p \<noteq> Put_fresh None e"
  shows "\<exists>m. a = Some m \<and> heap s m \<noteq> None"
proof -
  have sh: "chain (heap s) (first s) ns" "unshared ns s" "walks ns s" "last_ok ns s"
    using assms(1) by (simp_all add: shape_def)
  have own: "own p = Some m \<Longrightarrow> heap s m \<noteq> None" for m
    using unsharedD(2) [OF sh(2) owns_at [OF assms(3)]] .
  show ?thesis
  proof (cases p)
    case (Put_fresh q e)
    then obtain n where "q = Some n" "a = Some n" using assms(4,5) by (cases q) auto
    then show ?thesis using own Put_fresh by simp
  next
    case (Put_link n)
    have "\<exists>m. last s = Some m \<and> heap s m \<noteq> None" if "first s \<noteq> None"
    proof -
      have ns: "ns \<noteq> []" using that sh(1) by (cases ns) auto
      then have "last s = Some (List.last ns)" using sh(4) by (simp add: last_ok_def end_of_def)
      moreover have "heap s (List.last ns) \<noteq> None" using ns chain_allocated [OF sh(1)] by simp
      ultimately show ?thesis by blast
    qed
    then show ?thesis using assms(4) own Put_link by (auto split: if_splits)
  next
    case (Take_next n)
    then have "first s = Some n" using sh(3) assms(3) by (simp add: walks_def)
    then have "n \<in> set ns" using sh(1) by (cases ns) auto
    then show ?thesis using chain_allocated [OF sh(1)] assms(4) Take_next by auto
  next
    case (Take_free n)
    then show ?thesis using own assms(4) by auto
  next
    case (Size_walk q k)
    then obtain n where q: "q = Some n" "a = Some n" using assms(4) by (cases q) auto
    obtain ms rs where "ns = ms @ rs" "chain (heap s) (Some n) rs"
      using sh(3) assms(3) q Size_walk unfolding walks_def by blast
    then have "n \<in> set rs" "chain (heap s) (Some n) rs" by (cases rs; auto)+
    then show ?thesis using chain_allocated q by blast
  qed (use assms(4) in auto)
qed

text \<open>
  C16: Every pointer that the next statement of a thread follows is to a node that is allocated, never \<open>NULL\<close> and never to a freed
  node: the fresh node the producer fills, the last node it links behind, the node the consumer advances over or frees, the nodes
  the count walks over; with the one exception that \<open>put\<close> writes through the answer of \<open>malloc\<close> without
  testing it, and exactly when that is \<open>NULL\<close> a thread is about to follow it.
\<close>
theorem tsqueue_no_dangling:
  assumes "reachable counting n s" "at s t p"
  shows "(\<forall>a \<in> set (follows s p). \<exists>m. a = Some m \<and> heap s m \<noteq> None) \<longleftrightarrow> (\<forall>e. p \<noteq> Put_fresh None e)"
proof
  show "\<forall>e. p \<noteq> Put_fresh None e" if "\<forall>a \<in> set (follows s p). \<exists>m. a = Some m \<and> heap s m \<noteq> None" using that by auto
  show "\<forall>a \<in> set (follows s p). \<exists>m. a = Some m \<and> heap s m \<noteq> None" if "\<forall>e. p \<noteq> Put_fresh None e"
    using reachable_shape [OF assms(1)] reachable_exclusive [OF assms(1)] assms(2) follows_allocated that by blast
qed

lemma tsqueue_no_dangling_witness:
  "\<exists>s :: nat machine. at s 0 (Put_link 6) \<and> follows s (Put_link 6) = [Some 5, Some 6] \<and> heap s 5 \<noteq> None \<and> heap s 6 \<noteq> None"
proof -
  obtain s :: "nat machine" where s: "reachable True 1 s" "at s 0 (Put_link 6)" "first s = Some 5" "last s = Some 5"
    using example_second_put [of 7 8] by blast
  have f: "follows s (Put_link 6) = [Some 5, Some 6]" using s(3,4) by simp
  then have "\<forall>a \<in> set [Some 5, Some 6]. \<exists>m. a = Some m \<and> heap s m \<noteq> None"
    using tsqueue_no_dangling [OF s(1,2)] by simp
  then have "heap s 5 \<noteq> None \<and> heap s 6 \<noteq> None" by auto
  then show ?thesis using s(2) f by blast
qed

text \<open>Without memory a put follows the null pointer.\<close>

lemma put_follows_null:
  "\<exists>s :: nat machine. reachable True 1 s \<and> at s 0 (Put_fresh None 7) \<and> follows s (Put_fresh None 7) = [None]"
proof -
  let ?s = "goto 0 (Put_fresh None 7) (start 1) :: nat machine"
  have "reachable True 1 ?s"
    by (rule reachable_step [OF reachable_start], rule qstep.put_call_null) (simp add: start_def at_def)
  moreover have "at ?s 0 (Put_fresh None 7)" by (simp add: start_def at_def goto_def)
  ultimately show ?thesis by (intro exI [of _ ?s]) simp
qed

text \<open>The thread that holds the mutex, and every thread that needs none, can go on, without its wait failing.\<close>

definition moves :: "bool \<Rightarrow> 'e machine \<Rightarrow> nat \<Rightarrow> bool" where
  "moves counting s t \<longleftrightarrow> (\<exists>s'. qstep counting t s s' \<and> failures s' = failures s)"

lemma movesI: "qstep counting t s s' \<Longrightarrow> failures s' = failures s \<Longrightarrow> moves counting s t"
  by (auto simp: moves_def)

lemma moves_unless_waiting:
  assumes "reachable counting n s" "at s t p"
    "\<not> (mutex s = 0 \<and> (p = Take_lock \<or> p = Size_lock \<or> (\<exists>m. p = Put_lock m)))"
    "\<not> (counting \<and> p = Take_wait \<and> units s = 0)" "\<forall>e. p \<noteq> Put_fresh None e"
  shows "moves counting s t"
proof -
  have acc: "\<exists>m e q. a = Some m \<and> heap s m = Some (e, q)" if "a \<in> set (follows s p)" for a
  proof -
    obtain ns where "shape ns s" using reachable_shape [OF assms(1)] ..
    from follows_allocated [OF this reachable_exclusive [OF assms(1)] assms(2) that assms(5)] show ?thesis by auto
  qed
  show ?thesis
  proof (cases p)
    case (Put_fresh q e)
    then obtain m where q: "q = Some m" using assms(5) by (cases q) auto
    then obtain d r where "heap s m = Some (d, r)" using acc [of q] Put_fresh by auto
    from movesI [OF qstep.put_fill [OF assms(2) [unfolded Put_fresh q] this]] show ?thesis by simp
  next
    case (Put_link m)
    note m = assms(2) [unfolded Put_link]
    have "Some m \<in> set (follows s p)" using Put_link by simp
    then obtain e r where e: "heap s m = Some (e, r)" using acc by fastforce
    show ?thesis
    proof (cases "first s = None")
      case True
      from movesI [OF qstep.put_link_first [OF m True e]] show ?thesis by simp
    next
      case False
      then obtain l x y where l: "last s = Some l" "heap s l = Some (x, y)" using acc [of "last s"] Put_link by auto
      from movesI [OF qstep.put_link_next [OF m False l e]] show ?thesis by simp
    qed
  next
    case Take_wait
    then show ?thesis using assms(2,4)
      by (cases counting) (auto intro: movesI [OF qstep.take_wait] movesI [OF qstep.take_wait_image])
  next
    case Take_read
    then show ?thesis using assms(2)
      by (cases "first s") (auto intro: movesI [OF qstep.take_read_null] movesI [OF qstep.take_read])
  next
    case (Take_next m)
    then obtain e r where "heap s m = Some (e, r)" using acc [of "Some m"] by auto
    from movesI [OF qstep.take_next [OF assms(2) [unfolded Take_next] this]] show ?thesis by simp
  next
    case (Take_free m)
    then obtain e r where "heap s m = Some (e, r)" using acc [of "Some m"] by auto
    from movesI [OF qstep.take_free [OF assms(2) [unfolded Take_free] this]] show ?thesis by simp
  next
    case (Size_walk q k)
    show ?thesis
    proof (cases q)
      case None
      from movesI [OF qstep.size_end [OF assms(2) [unfolded Size_walk None]]] show ?thesis by simp
    next
      case (Some m)
      then obtain e r where "heap s m = Some (e, r)" using acc [of "Some m"] Size_walk by auto
      from movesI [OF qstep.size_walk [OF assms(2) [unfolded Size_walk Some] this]] show ?thesis by simp
    qed
  next
    case Idle
    with assms(2) movesI [OF qstep.take_call] show ?thesis by simp
  next
    case (Put_lock m)
    with assms(2,3) movesI [OF qstep.put_lock] show ?thesis by simp
  next
    case Put_unlock
    with assms(2) movesI [OF qstep.put_unlock] show ?thesis by simp
  next
    case Put_signal
    with assms(2) movesI [OF qstep.put_signal] show ?thesis by simp
  next
    case Take_lock
    with assms(2,3) movesI [OF qstep.take_lock] show ?thesis by simp
  next
    case Take_null
    with assms(2) movesI [OF qstep.take_null] show ?thesis by simp
  next
    case (Take_last m)
    with assms(2) movesI [OF qstep.take_last] show ?thesis by simp
  next
    case (Take_unlock m)
    with assms(2) movesI [OF qstep.take_unlock] show ?thesis by simp
  next
    case Size_lock
    with assms(2,3) movesI [OF qstep.size_lock] show ?thesis by simp
  next
    case (Size_unlock k)
    with assms(2) movesI [OF qstep.size_unlock] show ?thesis by simp
  qed
qed

lemma holder_exists:
  assumes "exclusive s" "mutex s = 0"
  shows "\<exists>u q. at s u q \<and> in_critical q = 1"
proof -
  have "total in_critical s \<noteq> 0" using assms by (simp add: exclusive_def)
  then obtain q where "q \<in> set (threads s)" "in_critical q \<noteq> 0"
    unfolding total_def by (metis (no_types, lifting) imageE list.set_map sum_list_eq_0_iff)
  moreover have "in_critical q = 1" using \<open>in_critical q \<noteq> 0\<close> by (cases q rule: in_critical.cases) auto
  ultimately show ?thesis by (auto simp: at_def in_set_conv_nth)
qed

text \<open>
  C17: No deadlock: as long as some thread is in a call other than a take that waits for an element (and not
  stopped by the null pointer it got for a node), some thread in a call can make its next step, without any wait failing.
\<close>
theorem tsqueue_no_deadlock:
  assumes "reachable counting n s" "at s t p" "p \<noteq> Idle" "\<not> (counting \<and> p = Take_wait \<and> units s = 0)"
    "\<forall>e. p \<noteq> Put_fresh None e"
  shows "\<exists>u q. at s u q \<and> q \<noteq> Idle \<and> moves counting s u"
proof (cases "mutex s = 0 \<and> (p = Take_lock \<or> p = Size_lock \<or> (\<exists>m. p = Put_lock m))")
  case False
  then show ?thesis using moves_unless_waiting [OF assms(1,2)] assms by blast
next
  case True
  then obtain u q where u: "at s u q" "in_critical q = 1"
    using holder_exists reachable_exclusive [OF assms(1)] by blast
  then have "q \<noteq> Idle" by auto
  moreover have "moves counting s u"
    by (rule moves_unless_waiting [OF assms(1) u(1)]) (use u(2) in auto)
  ultimately show ?thesis using u by blast
qed

lemma tsqueue_no_deadlock_witness:
  "\<exists>s :: nat machine. \<exists>u q. at s u q \<and> q \<noteq> Idle \<and> moves True s u"
proof -
  obtain s where s: "reachable True 1 s" "units s = 1" "threads s = [Idle :: nat point]"
    using example_put [of "0 :: nat"] by blast
  let ?s = "goto 0 Take_wait s"
  have "reachable True 1 ?s"
    by (rule reachable_step [OF s(1)], rule qstep.take_call) (simp add: s at_def)
  moreover have "at ?s 0 Take_wait" "units ?s = 1" using s by (simp_all add: at_def goto_def)
  ultimately have "\<exists>u q. at ?s u q \<and> q \<noteq> Idle \<and> moves True ?s u"
    by (intro tsqueue_no_deadlock [of True 1 ?s 0 Take_wait]) simp_all
  then show ?thesis by blast
qed

end
