(* ===== verification/Worker.thy ===== *)
theory Worker
  imports TSQueue "HOL-Library.Multiset"
begin

text \<open>
  A worker of the foreign function interface, \<open>worker.c\<close> and \<open>workerTask.c\<close>: a thread that runs
  the tasks of its queue, where a foreign function may call back into the image and so run the
  loop again inside itself. The queue is the one of \<open>TSQueue\<close>; its locking is there.

  The state holds the fields of \<open>struct __Worker\<close> and the C stack of the worker's thread, innermost
  frame first: a run of the loop, or a foreign call a task made. \<open>libffi\<close> and the foreign functions
  are not modelled: a foreign call may call back any number of times, and returns.
\<close>

datatype task =
    CALLOUT int                     \<comment> \<open>the index of the semaphore to signal after the call\<close>
  | CALLBACK_RETURN "nat option"    \<comment> \<open>the platform semaphore of a callback from another thread, or NULL\<close>
  | WORKER_RELEASE

definition worker_task_new :: "int \<Rightarrow> task" where
  "worker_task_new semaphoreIndex = CALLOUT semaphoreIndex"

definition worker_task_new_callback :: "nat option \<Rightarrow> task" where
  "worker_task_new_callback payload = CALLBACK_RETURN payload"

definition worker_task_new_release :: task where
  "worker_task_new_release = WORKER_RELEASE"

datatype frame = Run nat | Calling int

record worker =
  hasToQuit :: bool
  nestedRuns :: nat
  isMainThread :: bool
  taskQueue :: "task queue"
  stack :: "frame list"
  released :: bool         \<comment> \<open>the queue and the worker were freed\<close>
  signalled :: "int list"  \<comment> \<open>indices signalled after callouts\<close>
  woken :: "nat list"      \<comment> \<open>semaphores of other threads signalled\<close>
  added :: "task list"
  handled :: "task list"

definition worker_newSpawning :: "bool \<Rightarrow> worker" where
  "worker_newSpawning spawn = \<lparr>hasToQuit = False, nestedRuns = 0, isMainThread = (\<not> spawn),
     taskQueue = empty_queue, stack = [], released = False, signalled = [], woken = [],
     added = [], handled = []\<rparr>"

text \<open>The payload a callback is given: NULL on the worker's own thread, a new semaphore on another.\<close>

definition worker_callback_prepare :: "bool \<Rightarrow> nat \<Rightarrow> nat option" where
  "worker_callback_prepare same_thread new_semaphore = (if same_thread then None else Some new_semaphore)"

definition worker_add_call :: "nat \<Rightarrow> task \<Rightarrow> worker \<Rightarrow> worker option" where
  "worker_add_call node t w =
     do { q \<leftarrow> threadsafe_queue_put node t (taskQueue w);
          Some (w\<lparr>taskQueue := q, added := added w @ [t]\<rparr>) }"

definition worker_release :: "nat \<Rightarrow> worker \<Rightarrow> worker option" where
  "worker_release node w = worker_add_call node worker_task_new_release w"

definition worker_dispatch_callout :: "nat \<Rightarrow> task \<Rightarrow> worker \<Rightarrow> worker option" where
  "worker_dispatch_callout node t w = worker_add_call node t w"

definition worker_callback_return :: "nat \<Rightarrow> nat option \<Rightarrow> worker \<Rightarrow> worker option" where
  "worker_callback_return node payload w = worker_add_call node (worker_task_new_callback payload) w"

text \<open>A run of the loop begins: from the thread, or from a callback on the worker's own thread.\<close>

definition begin_run :: "worker \<Rightarrow> worker" where
  "begin_run w = w\<lparr>stack := Run (nestedRuns w) # stack w, nestedRuns := nestedRuns w + 1\<rparr>"

definition worker_enter_callback :: "nat option \<Rightarrow> worker \<Rightarrow> worker" where
  "worker_enter_callback payload w = (if payload = None then begin_run w else w)"

definition worker_next_call :: "worker \<Rightarrow> (task option \<times> worker) option" where
  "worker_next_call w =
     do {
       n \<leftarrow> threadsafe_queue_size (taskQueue w);
       if hasToQuit w \<and> n = 0 then Some (None, w)
       else do {
         (t, q) \<leftarrow> threadsafe_queue_take (taskQueue w);
         Some (t, w\<lparr>taskQueue := q, handled := handled w @ (case t of None \<Rightarrow> [] | Some t \<Rightarrow> [t])\<rparr>) } }"

text \<open>The switch on the type of the task.\<close>

fun handle_task :: "task \<Rightarrow> worker \<Rightarrow> worker" where
  "handle_task WORKER_RELEASE w = (if isMainThread w then w else w\<lparr>hasToQuit := True\<rparr>)"
| "handle_task (CALLOUT i) w = w\<lparr>stack := Calling i # stack w\<rparr>"
| "handle_task (CALLBACK_RETURN (Some s)) w = w\<lparr>woken := woken w @ [s]\<rparr>"
| "handle_task (CALLBACK_RETURN None) w = w\<lparr>stack := tl (stack w)\<rparr>"

text \<open>What follows the loop once it is left: the last run frees the queue and the worker.\<close>

definition end_run :: "worker \<Rightarrow> worker" where
  "end_run w =
     (let w = w\<lparr>nestedRuns := nestedRuns w - 1\<rparr>
      in w\<lparr>stack := tl (stack w), released := (released w \<or> nestedRuns w = 0)\<rparr>)"

definition executeWorkerTask_returns :: "int \<Rightarrow> worker \<Rightarrow> worker" where
  "executeWorkerTask_returns i w = w\<lparr>stack := tl (stack w), signalled := signalled w @ [i]\<rparr>"

text \<open>
  One step of the worker's thread, or an addition by any thread to a worker that was not freed.
  Waiting for a task is the absence of a step: \<open>take\<close> finds a task whenever the semaphore has a unit.
\<close>

inductive wstep :: "worker \<Rightarrow> worker \<Rightarrow> bool" where
  add: "\<not> released w \<Longrightarrow> worker_add_call node t w = Some w' \<Longrightarrow> heap (taskQueue w) node = None \<Longrightarrow> wstep w w'"
| loop_take: "stack w = Run k # fs \<Longrightarrow> worker_next_call w = Some (Some t, w') \<Longrightarrow> wstep w (handle_task t w')"
| loop_quit: "stack w = Run k # fs \<Longrightarrow> worker_next_call w = Some (None, w') \<Longrightarrow> hasToQuit w' \<Longrightarrow> wstep w (end_run w')"
| call_returns: "stack w = Calling i # fs \<Longrightarrow> wstep w (executeWorkerTask_returns i w)"
| call_back: "stack w = Calling i # fs \<Longrightarrow> wstep w (worker_enter_callback (worker_callback_prepare True s) w)"

inductive wreach :: "bool \<Rightarrow> worker \<Rightarrow> bool" for spawn where
  wreach_start: "wreach spawn (begin_run (worker_newSpawning spawn))"
| wreach_step: "wreach spawn w \<Longrightarrow> wstep w w' \<Longrightarrow> wreach spawn w'"

inductive_cases wstepE: "wstep w w'"

subsection \<open>The invariant of a worker\<close>

lemma task_cases:
  obtains (Release) "t = WORKER_RELEASE" | (Callout) i where "t = CALLOUT i"
  | (Wake) s where "t = CALLBACK_RETURN (Some s)" | (Back) "t = CALLBACK_RETURN None"
proof (cases t)
  case (CALLBACK_RETURN x)
  then show ?thesis using that by (cases x) simp_all
qed (use that in simp_all)

fun is_run :: "frame \<Rightarrow> bool" where
  "is_run (Run k) \<longleftrightarrow> True"
| "is_run (Calling i) \<longleftrightarrow> False"

fun calls :: "frame list \<Rightarrow> int list" where
  "calls [] = []"
| "calls (Run k # fs) = calls fs"
| "calls (Calling i # fs) = i # calls fs"

fun callouts :: "task list \<Rightarrow> int list" where
  "callouts [] = []"
| "callouts (CALLOUT i # ts) = i # callouts ts"
| "callouts (t # ts) = callouts ts"

definition early_returns :: "worker \<Rightarrow> nat" where
  "early_returns w = length (filter (\<lambda>t. t = CALLBACK_RETURN None) (handled w))"

definition runs :: "worker \<Rightarrow> nat" where
  "runs w = length (filter is_run (stack w))"

definition counted :: "worker \<Rightarrow> bool" where
  "counted w \<longleftrightarrow> nestedRuns w = runs w + early_returns w
     \<and> (stack w = [] \<or> is_run (List.last (stack w)))
     \<and> (released w \<longrightarrow> stack w = [] \<and> early_returns w = 0 \<and> hasToQuit w \<and> queue_holds (taskQueue w) [])"

definition ordered :: "worker \<Rightarrow> bool" where
  "ordered w \<longleftrightarrow> (\<exists>ts. queue_holds (taskQueue w) ts \<and> added w = handled w @ ts)"

definition accounted :: "worker \<Rightarrow> bool" where
  "accounted w \<longleftrightarrow> mset (signalled w) + mset (calls (stack w)) = mset (callouts (handled w))
     \<and> (hasToQuit w \<longrightarrow> \<not> isMainThread w \<and> WORKER_RELEASE \<in> set (handled w))"

lemma callouts_append [simp]: "callouts (ts @ us) = callouts ts @ callouts us"
  by (induction ts rule: callouts.induct) simp_all

lemma worker_next_call_Some:
  assumes "worker_next_call w = Some (Some t, w')" "ordered w"
  shows "\<exists>q. w' = w\<lparr>taskQueue := q, handled := handled w @ [t]\<rparr> \<and> ordered w'"
proof -
  obtain ts where ts: "queue_holds (taskQueue w) ts" "added w = handled w @ ts"
    using assms(2) by (auto simp: ordered_def)
  have size: "threadsafe_queue_size (taskQueue w) = Some (length ts)"
    using ts(1) by (rule threadsafe_queue_size_holds)
  show ?thesis
  proof (cases ts)
    case Nil
    then have "threadsafe_queue_take (taskQueue w) = Some (None, taskQueue w)"
      using ts(1) tsq.take_none by simp
    with assms(1) size show ?thesis
      by (simp add: worker_next_call_def split: if_splits)
  next
    case (Cons u us)
    then have "queue_holds (taskQueue w) (u # us)" using ts(1) by simp
    from tsq.take_first [OF this]
    obtain q where q: "threadsafe_queue_take (taskQueue w) = Some (Some u, q)" "queue_holds q us" by blast
    then have w': "w' = w\<lparr>taskQueue := q, handled := handled w @ [t]\<rparr>" and u: "u = t"
      using assms(1) size q Cons by (auto simp: worker_next_call_def)
    have "queue_holds (taskQueue w') us \<and> added w' = handled w' @ us"
      using w' u q(2) ts(2) Cons by simp
    then show ?thesis using w' unfolding ordered_def by blast
  qed
qed

lemma worker_next_call_None:
  assumes "worker_next_call w = Some (None, w')" "ordered w" "hasToQuit w'"
  shows "w' = w \<and> queue_holds (taskQueue w) []"
proof -
  obtain ts where ts: "queue_holds (taskQueue w) ts" using assms(2) by (auto simp: ordered_def)
  have size: "threadsafe_queue_size (taskQueue w) = Some (length ts)"
    using ts by (rule threadsafe_queue_size_holds)
  show ?thesis
  proof (cases ts)
    case Nil
    then have "threadsafe_queue_take (taskQueue w) = Some (None, taskQueue w)"
      using ts tsq.take_none by simp
    then have "w' = w" using assms(1,3) size by (simp add: worker_next_call_def split: if_splits)
    with Nil ts show ?thesis by simp
  next
    case (Cons u us)
    then have "queue_holds (taskQueue w) (u # us)" using ts by simp
    from tsq.take_first [OF this]
    obtain q where "threadsafe_queue_take (taskQueue w) = Some (Some u, q)" by blast
    with assms(1) size Cons show ?thesis by (simp add: worker_next_call_def)
  qed
qed

lemma worker_add_call_ordered:
  assumes "worker_add_call n t w = Some w'" "heap (taskQueue w) n = None" "ordered w"
  shows "\<exists>q. w' = w\<lparr>taskQueue := q, added := added w @ [t]\<rparr> \<and> ordered w'"
proof -
  obtain ts where ts: "queue_holds (taskQueue w) ts" "added w = handled w @ ts"
    using assms(3) by (auto simp: ordered_def)
  obtain q where "threadsafe_queue_put n t (taskQueue w) = Some q" "queue_holds q (ts @ [t])"
    using tsq.put_appends [OF ts(1)] assms(2) by blast
  with assms(1) ts show ?thesis by (auto simp: worker_add_call_def ordered_def)
qed

lemmas worker_defs = counted_def ordered_def accounted_def early_returns_def runs_def

lemma handle_task_fields [simp]:
  "taskQueue (handle_task t w) = taskQueue w" "added (handle_task t w) = added w"
  "handled (handle_task t w) = handled w" "nestedRuns (handle_task t w) = nestedRuns w"
  "released (handle_task t w) = released w" "isMainThread (handle_task t w) = isMainThread w"
  by (cases t rule: task_cases; simp)+

lemma wstep_ordered: "wstep w w' \<Longrightarrow> ordered w \<Longrightarrow> ordered w'"
proof (induction rule: wstep.induct)
  case (add w node t w')
  then show ?case using worker_add_call_ordered by blast
next
  case (loop_take w k fs t w')
  then have "ordered w'" using worker_next_call_Some by blast
  then show ?case by (simp add: ordered_def)
next
  case (loop_quit w k fs w')
  then have "w' = w" using worker_next_call_None by blast
  with loop_quit show ?case by (simp add: ordered_def end_run_def Let_def)
qed (auto simp: ordered_def executeWorkerTask_returns_def worker_enter_callback_def begin_run_def)

lemma wstep_counted: "wstep w w' \<Longrightarrow> ordered w \<Longrightarrow> counted w \<Longrightarrow> counted w'"
proof (induction rule: wstep.induct)
  case (add w node t w')
  then obtain q where "w' = w\<lparr>taskQueue := q, added := added w @ [t]\<rparr>" using worker_add_call_ordered by blast
  with add show ?case by (auto simp: worker_defs)
next
  case (loop_take w k fs t w')
  then obtain q where w': "w' = w\<lparr>taskQueue := q, handled := handled w @ [t]\<rparr>" using worker_next_call_Some by blast
  have "\<not> released w" using loop_take by (auto simp: counted_def)
  with loop_take(1,4) show ?case unfolding w'
    by (cases t rule: task_cases) (auto simp: worker_defs split: if_splits)
next
  case (loop_quit w k fs w')
  then have w': "w' = w" "queue_holds (taskQueue w) []" "hasToQuit w" using worker_next_call_None by blast+
  have r: "\<not> released w" using loop_quit by (auto simp: counted_def)
  have "runs w = Suc (length (filter is_run fs))" using loop_quit(1) by (simp add: runs_def)
  moreover have "fs = []" if "filter is_run fs = []"
    using that loop_quit(1,5) last_in_set [of fs] by (fastforce simp: counted_def filter_empty_conv split: if_splits)
  ultimately show ?case using loop_quit(1,5) w' r
    by (auto simp: counted_def end_run_def Let_def runs_def early_returns_def split: if_splits)
next
  case (call_returns w i fs)
  then show ?case by (cases fs) (auto simp: worker_defs executeWorkerTask_returns_def)
next
  case (call_back w i fs s)
  then show ?case
    by (auto simp: worker_defs worker_enter_callback_def worker_callback_prepare_def begin_run_def)
qed

lemma wstep_accounted: "wstep w w' \<Longrightarrow> ordered w \<Longrightarrow> accounted w \<Longrightarrow> accounted w'"
proof (induction rule: wstep.induct)
  case (add w node t w')
  then obtain q where "w' = w\<lparr>taskQueue := q, added := added w @ [t]\<rparr>" using worker_add_call_ordered by blast
  with add show ?case by (simp add: accounted_def)
next
  case (loop_take w k fs t w')
  then obtain q where w': "w' = w\<lparr>taskQueue := q, handled := handled w @ [t]\<rparr>" using worker_next_call_Some by blast
  with loop_take(1,4) show ?case unfolding w'
    by (cases t rule: task_cases) (auto simp: accounted_def)
next
  case (loop_quit w k fs w')
  then have "w' = w" using worker_next_call_None by blast
  with loop_quit show ?case by (auto simp: accounted_def end_run_def Let_def)
qed (auto simp: accounted_def executeWorkerTask_returns_def worker_enter_callback_def
    worker_callback_prepare_def begin_run_def)

lemma wreach_invariant: "wreach spawn w \<Longrightarrow> ordered w \<and> counted w \<and> accounted w"
proof (induction rule: wreach.induct)
  case wreach_start
  then show ?case
    using queue_holds_empty by (auto simp: worker_defs begin_run_def worker_newSpawning_def)
next
  case (wreach_step w w')
  then show ?case using wstep_ordered wstep_counted wstep_accounted by blast
qed

lemma wreach_main: "wreach spawn w \<Longrightarrow> isMainThread w = (\<not> spawn)"
proof (induction rule: wreach.induct)
  case (wreach_step w w')
  have "isMainThread w' = isMainThread w"
    using wreach_step(2)
  proof cases
    case (add node t)
    then show ?thesis by (auto simp: worker_add_call_def Option.bind_eq_Some_conv)
  qed (auto simp: worker_next_call_def Option.bind_eq_Some_conv end_run_def Let_def executeWorkerTask_returns_def
      worker_enter_callback_def worker_callback_prepare_def begin_run_def split: if_splits)
  then show ?case using wreach_step by simp
qed (simp add: begin_run_def worker_newSpawning_def)

text \<open>
  C10: A worker handles its tasks in the order they were added, and signals each foreign call it made
  once, when the call returns. It is freed only when its thread has left every run of the loop, after
  it was asked to, with no task left and every call signalled; the main thread's worker never is.
\<close>
theorem worker_frees_when_done:
  assumes "wreach spawn w"
  shows "(\<exists>ts. added w = handled w @ ts)
    \<and> mset (signalled w) + mset (calls (stack w)) = mset (callouts (handled w))
    \<and> (released w \<longrightarrow> spawn \<and> stack w = [] \<and> WORKER_RELEASE \<in> set (handled w)
        \<and> mset (signalled w) = mset (callouts (handled w)))"
  using wreach_invariant [OF assms] wreach_main [OF assms]
  by (auto simp: ordered_def counted_def accounted_def)

text \<open>
  C38: A worker on whose thread a callback ever returned is never freed, even after its thread left
  its last run: the return leaves the loop without counting the run down.
\<close>
theorem worker_with_callback_leaks:
  assumes "wreach spawn w" "CALLBACK_RETURN None \<in> set (handled w)"
  shows "\<not> released w \<and> runs w < nestedRuns w"
proof -
  have "0 < early_returns w" using assms(2) by (auto simp: early_returns_def filter_empty_conv)
  then show ?thesis using wreach_invariant [OF assms(1)] by (auto simp: counted_def)
qed

text \<open>
  A run with both: a callout whose function calls back, the return of that callback, the release,
  and the end of the thread's run. The worker is left behind.
\<close>

lemma wreach_add:
  assumes "wreach spawn w" "\<not> released w" "heap (taskQueue w) n = None"
  shows "\<exists>w' q. worker_add_call n t w = Some w' \<and> wreach spawn w'
    \<and> w' = w\<lparr>taskQueue := q, added := added w @ [t]\<rparr>"
proof -
  have "ordered w" using wreach_invariant [OF assms(1)] by simp
  then obtain ts where "queue_holds (taskQueue w) ts" by (auto simp: ordered_def)
  from tsq.put_appends [OF this assms(3), of t]
  obtain q where "threadsafe_queue_put n t (taskQueue w) = Some q" by blast
  then have "worker_add_call n t w = Some (w\<lparr>taskQueue := q, added := added w @ [t]\<rparr>)"
    by (simp add: worker_add_call_def)
  with assms show ?thesis by (blast intro: wreach_step wstep.add)
qed

lemma wreach_take:
  assumes "wreach spawn w" "stack w = Run k # fs" "added w = handled w @ t # ts"
  shows "\<exists>w' q. wreach spawn (handle_task t w') \<and> w' = w\<lparr>taskQueue := q, handled := handled w @ [t]\<rparr>"
proof -
  have "ordered w" using wreach_invariant [OF assms(1)] by simp
  then have "queue_holds (taskQueue w) (t # ts)" using assms(3) by (auto simp: ordered_def)
  moreover from tsq.take_first [OF this]
  obtain q where "threadsafe_queue_take (taskQueue w) = Some (Some t, q)" by blast
  moreover from calculation have "threadsafe_queue_size (taskQueue w) = Some (Suc (length ts))"
    using threadsafe_queue_size_holds by fastforce
  ultimately have "worker_next_call w = Some (Some t, w\<lparr>taskQueue := q, handled := handled w @ [t]\<rparr>)"
    by (simp add: worker_next_call_def)
  with assms show ?thesis by (blast intro: wreach_step wstep.loop_take)
qed

lemma put_dom: "threadsafe_queue_put n x q = Some q' \<Longrightarrow> dom (heap q') \<subseteq> insert n (dom (heap q))"
  by (auto simp: threadsafe_queue_put_def link_node_def new_node_def Option.bind_eq_Some_conv split: if_splits)

lemma take_dom: "threadsafe_queue_take q = Some (r, q') \<Longrightarrow> dom (heap q') \<subseteq> dom (heap q)"
  by (auto simp: threadsafe_queue_take_def Option.bind_eq_Some_conv split: if_splits option.splits)

lemma next_dom: "worker_next_call w = Some (r, w') \<Longrightarrow> dom (heap (taskQueue w')) \<subseteq> dom (heap (taskQueue w))"
proof -
  assume a: "worker_next_call w = Some (r, w')"
  then have "taskQueue w' = taskQueue w \<or> (\<exists>r. threadsafe_queue_take (taskQueue w) = Some (r, taskQueue w'))"
    by (auto simp: worker_next_call_def Option.bind_eq_Some_conv split: if_splits)
  then show ?thesis using take_dom by fastforce
qed

lemma wreach_fresh:
  assumes "wreach spawn w"
  shows "\<exists>n. heap (taskQueue w) n = None"
proof -
  have "finite (dom (heap (taskQueue w)))" using assms
  proof (induction rule: wreach.induct)
    case (wreach_step w w')
    from wreach_step(2) have "\<exists>n. dom (heap (taskQueue w')) \<subseteq> insert n (dom (heap (taskQueue w)))"
    proof cases
      case (add node t)
      then obtain q where "threadsafe_queue_put node t (taskQueue w) = Some q" "taskQueue w' = q"
        by (auto simp: worker_add_call_def Option.bind_eq_Some_conv)
      then show ?thesis using put_dom by (intro exI [of _ node]) simp
    next
      case (loop_take k fs t w1)
      then show ?thesis using next_dom [OF loop_take(3)] by auto
    next
      case (loop_quit k fs w1)
      then have "taskQueue w' = taskQueue w1" by (simp add: end_run_def Let_def)
      then show ?thesis using next_dom [OF loop_quit(3)] by auto
    qed (auto simp: executeWorkerTask_returns_def worker_enter_callback_def begin_run_def)
    then obtain n where "dom (heap (taskQueue w')) \<subseteq> insert n (dom (heap (taskQueue w)))" ..
    then show ?case by (rule finite_subset) (simp add: wreach_step.IH)
  qed (simp add: begin_run_def worker_newSpawning_def empty_queue_def)
  from ex_new_if_finite [OF infinite_UNIV_nat this] obtain n where "n \<notin> dom (heap (taskQueue w))" ..
  then have "heap (taskQueue w) n = None" by (cases "heap (taskQueue w) n") auto
  then show ?thesis ..
qed

lemma example_callback:
  "\<exists>w. wreach True w \<and> CALLBACK_RETURN None \<in> set (handled w) \<and> callouts (handled w) = [3]"
proof -
  let ?w0 = "begin_run (worker_newSpawning True)"
  have 0: "wreach True ?w0" by (rule wreach_start)
  obtain n where "heap (taskQueue ?w0) n = None" using wreach_fresh [OF 0] ..
  with wreach_add [OF 0, of n "CALLOUT 3"] obtain w1 where 1: "wreach True w1" "added w1 = [CALLOUT 3]"
    "handled w1 = []" "stack w1 = [Run 0]" "\<not> released w1"
    by (auto simp: begin_run_def worker_newSpawning_def)
  obtain m where "heap (taskQueue w1) m = None" using wreach_fresh [OF 1(1)] ..
  with wreach_add [OF 1(1,5), of m "CALLBACK_RETURN None"] 1 obtain w2 where 2: "wreach True w2"
    "added w2 = [CALLOUT 3, CALLBACK_RETURN None]" "handled w2 = []" "stack w2 = [Run 0]" by auto
  from wreach_take [OF 2(1,4), of "CALLOUT 3"] 2 obtain w3 where 3: "wreach True w3"
    "added w3 = [CALLOUT 3, CALLBACK_RETURN None]" "handled w3 = [CALLOUT 3]" "stack w3 = [Calling 3, Run 0]"
    by auto
  define w4 where "w4 = worker_enter_callback (worker_callback_prepare True 0) w3"
  have 4: "wreach True w4" unfolding w4_def using 3 by (blast intro: wreach_step wstep.call_back)
  have st: "stack w4 = Run (nestedRuns w3) # [Calling 3, Run 0]" "added w4 = handled w4 @ CALLBACK_RETURN None # []"
    "handled w4 = [CALLOUT 3]"
    using 3 by (simp_all add: w4_def worker_enter_callback_def worker_callback_prepare_def begin_run_def)
  from wreach_take [OF 4 st(1,2)] st obtain w5 where "wreach True w5"
    "handled w5 = [CALLOUT 3, CALLBACK_RETURN None]" by auto
  then show ?thesis by (intro exI [of _ w5]) simp
qed

lemma worker_frees_when_done_witness:
  "\<exists>w. wreach True w \<and> callouts (handled w) = [3] \<and> (\<exists>ts. added w = handled w @ ts)
    \<and> mset (signalled w) + mset (calls (stack w)) = mset (callouts (handled w))
    \<and> (released w \<longrightarrow> True \<and> stack w = [] \<and> WORKER_RELEASE \<in> set (handled w)
        \<and> mset (signalled w) = mset (callouts (handled w)))"
proof -
  obtain w where "wreach True w" "callouts (handled w) = [3]" using example_callback by blast
  with worker_frees_when_done [of True w] show ?thesis by blast
qed

lemma worker_with_callback_leaks_witness: "\<exists>w. wreach True w \<and> \<not> released w \<and> runs w < nestedRuns w"
proof -
  obtain w where "wreach True w" "CALLBACK_RETURN None \<in> set (handled w)" using example_callback by blast
  with worker_with_callback_leaks [of True w] show ?thesis by blast
qed

end
