(* ===== verification/ExtSemaphores.thy ===== *)
theory ExtSemaphores
  imports Semaphores
begin

text \<open>
  The external semaphores, \<open>sqExternalSemaphores.c\<close>: any thread asks for a semaphore of the image
  to be signalled by its index, and the machine's thread answers the requests at its leisure. Each
  index has two 32-bit counters, the requests and the responses; two pairs of tide marks bound the
  indices with open requests, one pair in use by the requesters while the machine scans the other.

  A request holds the mutex throughout, so it is one step. The machine takes the mutex only to
  switch the tides; its scan, one test or one response at a time, runs among the requests of others.
  \<open>asked\<close> and \<open>given\<close> count, for each index, the requests made and the signals delivered.
\<close>

record request =
  requests :: "32 word"
  responses :: "32 word"

datatype vm_point = Vm_idle | Vm_scan int int

record ext_semaphores =
  signalRequests :: "request list"
  checkSignalRequests :: bool
  useTideA :: bool
  lowTideA :: int
  highTideA :: int
  lowTideB :: int
  highTideB :: int
  vm_point :: vm_point
  asked :: "nat \<Rightarrow> nat"
  given :: "nat \<Rightarrow> nat"

definition MaxTide :: int where
  "MaxTide = 2 ^ 31 - 1"

definition MinTide :: int where
  "MinTide = -1"

abbreviation numSignalRequests :: "ext_semaphores \<Rightarrow> nat" where
  "numSignalRequests s \<equiv> length (signalRequests s)"

text \<open>\<open>highBit\<close> is a function of the generated interpreter: an argument here.\<close>

definition ioSetMaxExtSemTableSize :: "(nat \<Rightarrow> nat) \<Rightarrow> nat \<Rightarrow> ext_semaphores \<Rightarrow> ext_semaphores" where
  "ioSetMaxExtSemTableSize highBit n s =
     (if numSignalRequests s < n
      then let sz = 2 ^ highBit (n - 1)
        in s\<lparr>signalRequests := take sz (signalRequests s)
              @ replicate (sz - numSignalRequests s) \<lparr>requests = 0, responses = 0\<rparr>\<rparr>
      else s)"

definition initial_tides :: ext_semaphores where
  "initial_tides = \<lparr>signalRequests = [], checkSignalRequests = False, useTideA = True,
     lowTideA = MaxTide, highTideA = MinTide, lowTideB = MaxTide, highTideB = MinTide,
     vm_point = Vm_idle, asked = (\<lambda>_. 0), given = (\<lambda>_. 0)\<rparr>"

definition ioInitExternalSemaphores :: "(nat \<Rightarrow> nat) \<Rightarrow> nat \<Rightarrow> ext_semaphores" where
  "ioInitExternalSemaphores highBit INITIAL_EXT_SEM_TABLE_SIZE =
     ioSetMaxExtSemTableSize highBit INITIAL_EXT_SEM_TABLE_SIZE initial_tides"

text \<open>The index less one is cut to an \<open>int\<close> and compared as an unsigned number.\<close>

definition signal_index :: "64 word \<Rightarrow> 32 word" where
  "signal_index index = ucast (index - 1)"

definition note_request :: "nat \<Rightarrow> ext_semaphores \<Rightarrow> ext_semaphores" where
  "note_request i s =
     (let r = signalRequests s ! i;
          s = s\<lparr>signalRequests := (signalRequests s)[i := r\<lparr>requests := requests r + 1\<rparr>],
                asked := (asked s)(i := Suc (asked s i))\<rparr>;
          s = (if useTideA s
               then s\<lparr>lowTideA := min (lowTideA s) (int i), highTideA := max (highTideA s) (int i)\<rparr>
               else s\<lparr>lowTideB := min (lowTideB s) (int i), highTideB := max (highTideB s) (int i)\<rparr>)
      in s\<lparr>checkSignalRequests := True\<rparr>)"

definition signalSemaphoreWithIndex :: "64 word \<Rightarrow> ext_semaphores \<Rightarrow> int \<times> ext_semaphores" where
  "signalSemaphoreWithIndex index s =
     (let i = unat (signal_index index)
      in if numSignalRequests s \<le> i then (0, s) else (1, note_request i s))"

text \<open>The part of \<open>doSignalExternalSemaphores\<close> under the mutex: the tides are switched.\<close>

definition switch_tides :: "int \<Rightarrow> ext_semaphores \<Rightarrow> ext_semaphores" where
  "switch_tides externalSemaphoreTableSize s =
     (if \<not> checkSignalRequests s then s
      else
        let s = s\<lparr>checkSignalRequests := False\<rparr>;
            cut = (\<lambda>high. if high \<ge> externalSemaphoreTableSize then externalSemaphoreTableSize - 1 else high)
        in if useTideA s
           then s\<lparr>lowTideB := MaxTide, highTideB := MinTide, useTideA := False,
                  vm_point := Vm_scan (lowTideA s) (cut (highTideA s))\<rparr>
           else s\<lparr>lowTideA := MaxTide, highTideA := MinTide, useTideA := True,
                  vm_point := Vm_scan (lowTideB s) (cut (highTideB s))\<rparr>)"

text \<open>One turn of the scan: a response to the index at hand, the next index, or the end.\<close>

definition scan_step :: "ext_semaphores \<Rightarrow> ext_semaphores" where
  "scan_step s =
     (case vm_point s of
        Vm_idle \<Rightarrow> s
      | Vm_scan i high \<Rightarrow>
          if i > high then s\<lparr>vm_point := Vm_idle\<rparr>
          else let r = signalRequests s ! nat i in
            if responses r \<noteq> requests r
            then s\<lparr>signalRequests := (signalRequests s)[nat i := r\<lparr>responses := responses r + 1\<rparr>],
                   given := (given s)(nat i := Suc (given s (nat i)))\<rparr>
            else s\<lparr>vm_point := Vm_scan (i + 1) high\<rparr>)"

text \<open>
  The interpreter passes the size of the image's table to each run, and the table grows: \<open>tableSize\<close> is a size
  it never falls below, every run has one of its own.
\<close>

inductive estep :: "int \<Rightarrow> ext_semaphores \<Rightarrow> ext_semaphores \<Rightarrow> bool" for tableSize where
  ask: "estep tableSize s (snd (signalSemaphoreWithIndex index s))"
| switch: "vm_point s = Vm_idle \<Longrightarrow> tableSize \<le> externalSemaphoreTableSize \<Longrightarrow>
    estep tableSize s (switch_tides externalSemaphoreTableSize s)"
| scan: "vm_point s = Vm_scan i high \<Longrightarrow> estep tableSize s (scan_step s)"

inductive ereach :: "int \<Rightarrow> ext_semaphores \<Rightarrow> ext_semaphores \<Rightarrow> bool" for tableSize s0 where
  ereach_refl: "ereach tableSize s0 s0"
| ereach_step: "ereach tableSize s0 s \<Longrightarrow> estep tableSize s s' \<Longrightarrow> ereach tableSize s0 s'"

subsection \<open>The invariant\<close>

definition open_request :: "ext_semaphores \<Rightarrow> nat \<Rightarrow> bool" where
  "open_request s i \<longleftrightarrow> i < numSignalRequests s
     \<and> requests (signalRequests s ! i) \<noteq> responses (signalRequests s ! i)"

definition low_in_use :: "ext_semaphores \<Rightarrow> int" where
  "low_in_use s = (if useTideA s then lowTideA s else lowTideB s)"

definition high_in_use :: "ext_semaphores \<Rightarrow> int" where
  "high_in_use s = (if useTideA s then highTideA s else highTideB s)"

text \<open>Every open request the image can hold is within the tides in use, or ahead of the scan.\<close>

definition noticed :: "int \<Rightarrow> ext_semaphores \<Rightarrow> bool" where
  "noticed tableSize s \<longleftrightarrow> (\<forall>i. open_request s i \<and> int i < tableSize \<longrightarrow>
     checkSignalRequests s \<and> low_in_use s \<le> int i \<and> int i \<le> high_in_use s
   \<or> (\<exists>j high. vm_point s = Vm_scan j high \<and> j \<le> int i \<and> int i \<le> high))"

text \<open>The counters are the counts, up to their width, and no signal is given that was not asked for.\<close>

definition counted :: "ext_semaphores \<Rightarrow> bool" where
  "counted s \<longleftrightarrow> (\<forall>i < numSignalRequests s.
       requests (signalRequests s ! i) = of_nat (asked s i)
     \<and> responses (signalRequests s ! i) = of_nat (given s i)
     \<and> given s i \<le> asked s i)"

definition in_table :: "ext_semaphores \<Rightarrow> bool" where
  "in_table s \<longleftrightarrow> 0 \<le> low_in_use s \<and> high_in_use s < int (numSignalRequests s)
     \<and> (\<forall>j high. vm_point s = Vm_scan j high \<longrightarrow> 0 \<le> j \<and> high < int (numSignalRequests s))"

definition well_kept :: "int \<Rightarrow> ext_semaphores \<Rightarrow> bool" where
  "well_kept tableSize s \<longleftrightarrow> noticed tableSize s \<and> counted s \<and> in_table s"

lemma note_request_table [simp]:
  "numSignalRequests (note_request i s) = numSignalRequests s"
  "vm_point (note_request i s) = vm_point s"
  "checkSignalRequests (note_request i s)"
  "useTideA (note_request i s) = useTideA s"
  "low_in_use (note_request i s) = min (low_in_use s) (int i)"
  "high_in_use (note_request i s) = max (high_in_use s) (int i)"
  "given (note_request i s) = given s"
  "asked (note_request i s) = (asked s)(i := Suc (asked s i))"
  "signalRequests (note_request i s) = (signalRequests s)[i := (signalRequests s ! i)
     \<lparr>requests := requests (signalRequests s ! i) + 1\<rparr>]"
  by (simp_all add: note_request_def Let_def low_in_use_def high_in_use_def)

lemma note_request_counted:
  assumes "counted s" "i < numSignalRequests s" shows "counted (note_request i s)"
  using assms by (auto simp: counted_def nth_list_update le_Suc_eq)

lemma note_request_in_table:
  assumes "in_table s" "i < numSignalRequests s" shows "in_table (note_request i s)"
  using assms by (auto simp: in_table_def)

lemma note_request_noticed:
  assumes "noticed tableSize s" "i < numSignalRequests s" shows "noticed tableSize (note_request i s)"
  unfolding noticed_def
proof (intro allI impI, elim conjE)
  fix k assume k: "open_request (note_request i s) k" "int k < tableSize"
  show "checkSignalRequests (note_request i s) \<and> low_in_use (note_request i s) \<le> int k \<and> int k \<le> high_in_use (note_request i s)
      \<or> (\<exists>j high. vm_point (note_request i s) = Vm_scan j high \<and> j \<le> int k \<and> int k \<le> high)"
  proof (cases "k = i")
    case True then show ?thesis by simp
  next
    case False
    then have "open_request s k" using k(1) by (simp add: open_request_def nth_list_update)
    then show ?thesis using assms(1) k(2) by (fastforce simp: noticed_def)
  qed
qed

lemma signalSemaphoreWithIndex_well_kept:
  assumes "well_kept tableSize s" shows "well_kept tableSize (snd (signalSemaphoreWithIndex index s))"
  using assms note_request_noticed note_request_counted note_request_in_table
  by (auto simp: well_kept_def signalSemaphoreWithIndex_def Let_def)

lemma switch_tides_fields [simp]:
  "signalRequests (switch_tides tableSize s) = signalRequests s"
  "asked (switch_tides tableSize s) = asked s"
  "given (switch_tides tableSize s) = given s"
  "open_request (switch_tides tableSize s) = open_request s"
  by (auto simp: switch_tides_def Let_def open_request_def)

lemma switch_tides_busy:
  assumes "checkSignalRequests s"
  shows "vm_point (switch_tides tableSize s) = Vm_scan (low_in_use s) (min (high_in_use s) (tableSize - 1))"
    and "low_in_use (switch_tides tableSize s) = MaxTide" "high_in_use (switch_tides tableSize s) = MinTide"
  using assms by (auto simp: switch_tides_def Let_def low_in_use_def high_in_use_def)

lemma switch_tides_well_kept:
  assumes "well_kept tableSize s" "vm_point s = Vm_idle" "tableSize \<le> now" shows "well_kept tableSize (switch_tides now s)"
proof (cases "checkSignalRequests s")
  case False then show ?thesis using assms by (simp add: switch_tides_def)
next
  case True
  have "noticed tableSize (switch_tides now s)"
    using assms by (fastforce simp: well_kept_def noticed_def switch_tides_busy [OF True])
  moreover have "in_table (switch_tides now s)"
    using assms by (auto simp: well_kept_def in_table_def switch_tides_busy [OF True] MaxTide_def MinTide_def)
  ultimately show ?thesis using assms(1) by (simp add: well_kept_def counted_def)
qed

lemma counted_owes:
  assumes "counted s" "i < numSignalRequests s" "responses (signalRequests s ! i) \<noteq> requests (signalRequests s ! i)"
  shows "given s i < asked s i"
  using assms by (auto simp: counted_def order_le_less)

lemma scan_step_well_kept:
  assumes "well_kept tableSize s" shows "well_kept tableSize (scan_step s)"
proof (cases "vm_point s")
  case Vm_idle then show ?thesis using assms by (simp add: scan_step_def)
next
  case (Vm_scan i high)
  have t: "noticed tableSize s" "counted s" "0 \<le> i" "high < int (numSignalRequests s)" "0 \<le> low_in_use s"
    "high_in_use s < int (numSignalRequests s)"
    using assms Vm_scan by (auto simp: well_kept_def in_table_def)
  consider (End) "high < i" | (Next) "i \<le> high" "responses (signalRequests s ! nat i) = requests (signalRequests s ! nat i)"
    | (Respond) "i \<le> high" "responses (signalRequests s ! nat i) \<noteq> requests (signalRequests s ! nat i)"
    by linarith
  then show ?thesis
  proof cases
    case End
    then have e: "scan_step s = s\<lparr>vm_point := Vm_idle\<rparr>" using Vm_scan by (simp add: scan_step_def)
    show ?thesis using assms End Vm_scan unfolding e
      by (fastforce simp: well_kept_def noticed_def counted_def in_table_def open_request_def low_in_use_def high_in_use_def)
  next
    case Next
    then have e: "scan_step s = s\<lparr>vm_point := Vm_scan (i + 1) high\<rparr>" using Vm_scan by (simp add: scan_step_def Let_def)
    have "noticed tableSize (scan_step s)" unfolding noticed_def e
    proof (intro allI impI, elim conjE)
      fix k assume "open_request (s\<lparr>vm_point := Vm_scan (i + 1) high\<rparr>) k" and k: "int k < tableSize"
      then have o: "open_request s k" by (simp add: open_request_def)
      then have "int k \<noteq> i" using Next(2) by (auto simp: open_request_def)
      then show "checkSignalRequests (s\<lparr>vm_point := Vm_scan (i + 1) high\<rparr>) \<and> low_in_use (s\<lparr>vm_point := Vm_scan (i + 1) high\<rparr>) \<le> int k
          \<and> int k \<le> high_in_use (s\<lparr>vm_point := Vm_scan (i + 1) high\<rparr>)
        \<or> (\<exists>j h. vm_point (s\<lparr>vm_point := Vm_scan (i + 1) high\<rparr>) = Vm_scan j h \<and> j \<le> int k \<and> int k \<le> h)"
        using t(1) o k Vm_scan by (auto simp: noticed_def low_in_use_def high_in_use_def)
    qed
    then show ?thesis using t unfolding e
      by (auto simp: well_kept_def counted_def in_table_def low_in_use_def high_in_use_def)
  next
    case Respond
    let ?s = "s\<lparr>signalRequests := (signalRequests s)[nat i := (signalRequests s ! nat i)\<lparr>responses := responses (signalRequests s ! nat i) + 1\<rparr>],
                   given := (given s)(nat i := Suc (given s (nat i)))\<rparr>"
    have e: "scan_step s = ?s" using Respond Vm_scan by (simp add: scan_step_def Let_def)
    have n: "nat i < numSignalRequests s" using Respond t by linarith
    have "noticed tableSize ?s" unfolding noticed_def
    proof (intro allI impI, elim conjE)
      fix k assume o: "open_request ?s k" and k: "int k < tableSize"
      have "int k = i \<or> open_request s k" using o t(3) by (auto simp: open_request_def nth_list_update split: if_splits)
      then show "checkSignalRequests ?s \<and> low_in_use ?s \<le> int k \<and> int k \<le> high_in_use ?s
        \<or> (\<exists>j h. vm_point ?s = Vm_scan j h \<and> j \<le> int k \<and> int k \<le> h)"
        using t(1) k Vm_scan Respond(1) by (auto simp: noticed_def low_in_use_def high_in_use_def)
    qed
    moreover have "counted ?s"
      using t(2) counted_owes [OF t(2) n Respond(2)] by (auto simp: counted_def nth_list_update)
    ultimately show ?thesis using t Vm_scan unfolding e
      by (auto simp: well_kept_def in_table_def low_in_use_def high_in_use_def)
  qed
qed

lemma ereach_well_kept:
  assumes "ereach tableSize s0 s" "well_kept tableSize s0" shows "well_kept tableSize s"
  using assms
proof (induction rule: ereach.induct)
  case (ereach_step s s')
  from ereach_step(2,1,3,4) show ?case
    by (cases rule: estep.cases)
      (auto intro: signalSemaphoreWithIndex_well_kept switch_tides_well_kept scan_step_well_kept)
qed simp

lemma minus_one_less_power [simp]: "-1 < (2 :: int) ^ k"
  by (rule less_le_trans [of _ 0]) simp_all

lemma ioInitExternalSemaphores_well_kept: "well_kept tableSize (ioInitExternalSemaphores highBit n)"
  by (auto simp: well_kept_def noticed_def counted_def in_table_def open_request_def ioInitExternalSemaphores_def
      ioSetMaxExtSemTableSize_def initial_tides_def low_in_use_def high_in_use_def MaxTide_def MinTide_def Let_def)

lemmas booted_well_kept = ereach_well_kept [OF _ ioInitExternalSemaphores_well_kept]

subsection \<open>The scan by itself\<close>

text \<open>The rest of \<open>doSignalExternalSemaphores\<close>, when no request comes in between, is \<open>k\<close> steps of the scan.\<close>

lemma scan_step_keeps:
  "checkSignalRequests (scan_step s) = checkSignalRequests s" "asked (scan_step s) = asked s"
  "numSignalRequests (scan_step s) = numSignalRequests s" "given s i \<le> given (scan_step s) i"
  by (auto simp: scan_step_def Let_def split: vm_point.split)

lemma scan_steps_keep:
  "checkSignalRequests ((scan_step ^^ k) s) = checkSignalRequests s" "asked ((scan_step ^^ k) s) = asked s"
  "numSignalRequests ((scan_step ^^ k) s) = numSignalRequests s" "given s i \<le> given ((scan_step ^^ k) s) i"
  by (induction k) (auto simp: scan_step_keeps intro: order_trans scan_step_keeps(4))

lemma scan_steps_well_kept: "well_kept tableSize s \<Longrightarrow> well_kept tableSize ((scan_step ^^ k) s)"
  by (induction k) (auto intro: scan_step_well_kept)

definition unanswered :: "ext_semaphores \<Rightarrow> int \<Rightarrow> nat" where
  "unanswered s i = unat (requests (signalRequests s ! nat i) - responses (signalRequests s ! nat i))"

definition scan_left :: "ext_semaphores \<Rightarrow> nat \<times> nat" where
  "scan_left s = (case vm_point s of Vm_idle \<Rightarrow> (0, 0) | Vm_scan i high \<Rightarrow> (Suc (nat (high + 1 - i)), unanswered s i))"

lemma unat_pred_less:
  assumes "(x :: 'a::len word) \<noteq> y" shows "unat (x - (y + 1)) < unat (x - y)"
proof -
  have "x - y \<noteq> 0" "x - (y + 1) = (x - y) - 1" using assms by simp_all
  then show ?thesis using measure_unat by metis
qed

lemma scan_step_less:
  assumes "well_kept tableSize s" "vm_point s \<noteq> Vm_idle"
  shows "(scan_left (scan_step s), scan_left s) \<in> less_than <*lex*> less_than"
proof (cases "vm_point s")
  case (Vm_scan i high)
  have b: "0 \<le> i" "high < int (numSignalRequests s)" using assms Vm_scan by (auto simp: well_kept_def in_table_def)
  have d: "unat (requests (signalRequests s ! nat i) - (responses (signalRequests s ! nat i) + 1))
      < unat (requests (signalRequests s ! nat i) - responses (signalRequests s ! nat i))"
    if "responses (signalRequests s ! nat i) \<noteq> requests (signalRequests s ! nat i)"
    using that by (intro unat_pred_less) simp
  have n: "nat i < numSignalRequests s" if "i \<le> high" using that b by linarith
  show ?thesis
  proof (cases "i > high")
    case True then show ?thesis using Vm_scan by (simp add: scan_step_def scan_left_def)
  next
    case False
    then show ?thesis using Vm_scan d n by (auto simp: scan_step_def scan_left_def unanswered_def Let_def)
  qed
qed (use assms in simp)

lemma scan_ends:
  "well_kept tableSize s \<Longrightarrow> \<exists>k. vm_point ((scan_step ^^ k) s) = Vm_idle"
proof (induction "scan_left s" arbitrary: s rule: wf_induct_rule [OF wf_lex_prod [OF wf_less_than wf_less_than]])
  case 1
  show ?case
  proof (cases "vm_point s = Vm_idle")
    case True then show ?thesis by (intro exI [of _ 0]) simp
  next
    case False
    then obtain k where "vm_point ((scan_step ^^ k) (scan_step s)) = Vm_idle"
      using "1.hyps" [OF scan_step_less [OF "1.prems" False] scan_step_well_kept [OF "1.prems"]] by blast
    then show ?thesis by (intro exI [of _ "Suc k"]) (simp add: funpow_swap1)
  qed
qed

lemma idle_answered:
  assumes "well_kept tableSize s" "vm_point s = Vm_idle" "\<not> checkSignalRequests s"
    "i < numSignalRequests s" "int i < tableSize" "asked s i < 2 ^ 32 + given s i"
  shows "given s i = asked s i"
proof -
  have "\<not> open_request s i" using assms(1-3,5) by (auto simp: well_kept_def noticed_def)
  then have "(of_nat (asked s i) :: 32 word) = of_nat (given s i)" "given s i \<le> asked s i"
    using assms(1,4) by (auto simp: well_kept_def counted_def open_request_def)
  then have "(of_nat (asked s i - given s i) :: 32 word) = 0" by (simp add: of_nat_diff)
  then have "2 ^ 32 dvd asked s i - given s i" by (simp add: word_of_nat_eq_0_iff)
  moreover have "asked s i - given s i < 2 ^ 32" using assms(6) by simp
  ultimately have "asked s i - given s i = 0" by (meson dvd_imp_le linorder_not_less neq0_conv)
  then show ?thesis using \<open>given s i \<le> asked s i\<close> by simp
qed

lemma switch_tides_unchecked [simp]: "\<not> checkSignalRequests (switch_tides tableSize s)"
  by (simp add: switch_tides_def Let_def)

subsection \<open>The properties\<close>

text \<open>
  C9: Whatever requests, scans and responses have run, in any interleaving, the next run of
  \<open>doSignalExternalSemaphores\<close> that no request disturbs ends and leaves no request behind: the
  semaphore of every index the image's table and the table of requests hold has then been signalled
  exactly as often as it was asked for, as long as less than \<open>2 ^ 32\<close> requests were open. The table may grow from
  run to run: \<open>tableSize\<close> is what it held in the smallest of them.
\<close>

theorem external_signals_are_delivered:
  assumes "ereach tableSize (ioInitExternalSemaphores highBit n) s" "vm_point s = Vm_idle"
    "tableSize \<le> now" "\<And>i. asked s i < 2 ^ 32 + given s i"
  shows "\<exists>k. let s' = (scan_step ^^ k) (switch_tides now s)
    in vm_point s' = Vm_idle \<and> (\<forall>i < numSignalRequests s. int i < tableSize \<longrightarrow> given s' i = asked s i)"
proof -
  have w: "well_kept tableSize (switch_tides now s)"
    by (rule switch_tides_well_kept [OF booted_well_kept [OF assms(1)] assms(2,3)])
  then obtain k where k: "vm_point ((scan_step ^^ k) (switch_tides now s)) = Vm_idle" using scan_ends by blast
  have "given ((scan_step ^^ k) (switch_tides now s)) i = asked s i"
    if "i < numSignalRequests s" "int i < tableSize" for i
  proof -
    have "asked s i < 2 ^ 32 + given ((scan_step ^^ k) (switch_tides now s)) i"
      using assms(4) [of i] scan_steps_keep(4) [where s = "switch_tides now s" and i = i and k = k] by simp
    then show ?thesis
      using idle_answered [OF scan_steps_well_kept [OF w] k _ _ that(2)] that(1) by (simp add: scan_steps_keep)
  qed
  then show ?thesis using k by (auto simp: Let_def intro: exI [of _ k])
qed

definition example_requests :: ext_semaphores where
  "example_requests = snd (signalSemaphoreWithIndex 3 (ioInitExternalSemaphores (\<lambda>_. 2) 4))"

lemma example_requests_reached: "ereach 4 (ioInitExternalSemaphores (\<lambda>_. 2) 4) example_requests"
  unfolding example_requests_def by (rule ereach_step [OF ereach_refl estep.ask])

lemmas example_requests_simps = example_requests_def signalSemaphoreWithIndex_def signal_index_def note_request_def
  ioInitExternalSemaphores_def ioSetMaxExtSemTableSize_def initial_tides_def Let_def

lemma external_signals_are_delivered_witness:
  "\<exists>k. let s' = (scan_step ^^ k) (switch_tides 4 example_requests)
    in vm_point s' = Vm_idle \<and> given s' 1 = 0 \<and> given s' 2 = 1"
proof -
  have e: "numSignalRequests example_requests = 4" "asked example_requests i = (if i = 2 then 1 else 0)"
    "vm_point example_requests = Vm_idle" "given example_requests i = 0" for i
    by (simp_all add: example_requests_simps)
  have "asked example_requests i < 2 ^ 32 + given example_requests i" for i using e by simp
  from external_signals_are_delivered [OF example_requests_reached e(3) order_refl this]
  obtain k where "vm_point ((scan_step ^^ k) (switch_tides 4 example_requests)) = Vm_idle"
    "\<forall>i < 4. given ((scan_step ^^ k) (switch_tides 4 example_requests)) i = (if i = 2 then 1 else 0)"
    using e(1,2) by (auto simp: Let_def)
  then show ?thesis by (intro exI [of _ k]) (simp add: Let_def)
qed

text \<open>
  No semaphore is signalled more often than it was asked for, and the scan never looks outside
  the table of requests, at any moment of any interleaving of requests and scans.
\<close>

theorem external_signals_were_asked_for:
  assumes "ereach tableSize (ioInitExternalSemaphores highBit n) s"
  shows "(\<forall>i < numSignalRequests s. given s i \<le> asked s i)
    \<and> (\<forall>i high. vm_point s = Vm_scan i high \<and> i \<le> high \<longrightarrow> nat i < numSignalRequests s \<and> 0 \<le> i)"
  using booted_well_kept [OF assms] by (auto simp: well_kept_def counted_def in_table_def)

lemma external_signals_were_asked_for_witness:
  "given (switch_tides 4 example_requests) 2 \<le> asked (switch_tides 4 example_requests) 2
    \<and> vm_point (switch_tides 4 example_requests) = Vm_scan 2 2"
  using external_signals_were_asked_for [OF ereach_step [OF example_requests_reached estep.switch [of _ 4 4]]]
  by (simp add: example_requests_simps switch_tides_def MaxTide_def MinTide_def)

text \<open>
  A request above the image's table drops out of the tides without a response, and the flag is
  cleared: it waits until its index is asked for again.
\<close>

lemma request_above_table_waits:
  assumes "checkSignalRequests s" "tableSize \<le> low_in_use s"
  shows "vm_point (scan_step (switch_tides tableSize s)) = Vm_idle
    \<and> signalRequests (scan_step (switch_tides tableSize s)) = signalRequests s
    \<and> \<not> checkSignalRequests (scan_step (switch_tides tableSize s))"
proof -
  have "min (high_in_use s) (tableSize - 1) < low_in_use s" using assms(2) by linarith
  then show ?thesis using assms(1) by (simp add: scan_step_def switch_tides_busy)
qed

end
