(* ===== verification/HeapMap.thy ===== *)
theory HeapMap
  imports Prelude
begin

text \<open>
  The map of the heap the checker of the collector uses, \<open>sqHeapMap.c\<close>: one bit for every word of
  the address space, in pages allocated when a bit is first written. The 64-bit build has a root of
  directories of pages, the 32-bit build a table of pages.

  Addresses, indices and bytes are machine words. \<open>error\<close> and \<open>exit\<close> end the program, and a root
  index outside the root is undefined behaviour: these are the failures of an operation.
\<close>

datatype failure = Misaligned | Outside_root | Out_of_memory

type_synonym page = "64 word \<Rightarrow> 8 word"
type_synonym directory = "64 word \<Rightarrow> page option"
type_synonym heap_map = "64 word \<Rightarrow> directory option"

definition HEAP_MAP_PAGE_SIZE :: nat where
  "HEAP_MAP_PAGE_SIZE = 1024 * 1024"

definition zero_page :: page where
  "zero_page = (\<lambda>_. 0)"

text \<open>Reading and writing the bit \<open>k\<close> of a byte.\<close>

definition byte_at :: "8 word \<Rightarrow> nat \<Rightarrow> 8 word" where
  "byte_at b k = b AND push_bit k 1"

definition byte_put :: "8 word \<Rightarrow> nat \<Rightarrow> bool \<Rightarrow> 8 word" where
  "byte_put b k v = (if v then b OR push_bit k 1 else b AND (- 1 XOR push_bit k 1))"

subsection \<open>The 64-bit build\<close>

definition NUMROOTPAGES :: "64 word" where
  "NUMROOTPAGES = 65536"

definition BITINDEX64 :: "64 word \<Rightarrow> nat" where
  "BITINDEX64 a = unat (drop_bit 3 a AND 7)"

definition BYTEINDEX64 :: "64 word \<Rightarrow> 64 word" where
  "BYTEINDEX64 a = drop_bit 6 (a AND 0x3FFFFFF)"

definition PAGEINDEX64 :: "64 word \<Rightarrow> 64 word" where
  "PAGEINDEX64 a = drop_bit 26 a AND 0x7FFFF"

definition DIRECTORYINDEX64 :: "64 word \<Rightarrow> 64 word" where
  "DIRECTORYINDEX64 a = drop_bit 45 a"

definition heapMapAtWord64 :: "heap_map \<Rightarrow> 64 word \<Rightarrow> failure + 8 word" where
  "heapMapAtWord64 mapPages address =
     (if address AND 7 \<noteq> 0 then Inl Misaligned
      else if NUMROOTPAGES \<le> DIRECTORYINDEX64 address then Inl Outside_root
      else case mapPages (DIRECTORYINDEX64 address) of
        None \<Rightarrow> Inr 0
      | Some directory \<Rightarrow> (case directory (PAGEINDEX64 address) of
          None \<Rightarrow> Inr 0
        | Some page \<Rightarrow> Inr (byte_at (page (BYTEINDEX64 address)) (BITINDEX64 address))))"

definition heapMapAtWordPut64 :: "(nat \<Rightarrow> bool) \<Rightarrow> heap_map \<Rightarrow> 64 word \<Rightarrow> bool \<Rightarrow> failure + heap_map" where
  "heapMapAtWordPut64 malloc mapPages address v =
     (if address AND 7 \<noteq> 0 then Inl Misaligned
      else if NUMROOTPAGES \<le> DIRECTORYINDEX64 address then Inl Outside_root
      else case (case mapPages (DIRECTORYINDEX64 address) of
             Some directory \<Rightarrow> Some directory
           | None \<Rightarrow> if malloc (2 ^ 19 * 8) then Some (\<lambda>_. None) else None) of
        None \<Rightarrow> Inl Out_of_memory
      | Some directory \<Rightarrow>
          (case (case directory (PAGEINDEX64 address) of
               Some page \<Rightarrow> Some page
             | None \<Rightarrow> if malloc HEAP_MAP_PAGE_SIZE then Some zero_page else None) of
            None \<Rightarrow> Inl Out_of_memory
          | Some page \<Rightarrow>
              let page = page(BYTEINDEX64 address :=
                    byte_put (page (BYTEINDEX64 address)) (BITINDEX64 address) v)
              in Inr (mapPages(DIRECTORYINDEX64 address \<mapsto> directory(PAGEINDEX64 address \<mapsto> page)))))"

text \<open>Both loops of \<open>clearHeapMap\<close> visit every index: every page there is becomes a page of zeros.\<close>

definition clearHeapMap64 :: "heap_map \<Rightarrow> heap_map" where
  "clearHeapMap64 mapPages =
     (\<lambda>i. map_option (\<lambda>directory j. map_option (\<lambda>_. zero_page) (directory j)) (mapPages i))"

subsection \<open>The 32-bit build\<close>

definition BITINDEX32 :: "32 word \<Rightarrow> nat" where
  "BITINDEX32 a = unat (drop_bit 2 a AND 7)"

definition BYTEINDEX32 :: "32 word \<Rightarrow> 32 word" where
  "BYTEINDEX32 a = drop_bit 5 (a AND 0xFFFFFF)"

definition PAGEINDEX32 :: "32 word \<Rightarrow> 32 word" where
  "PAGEINDEX32 a = drop_bit 24 a"

type_synonym page32 = "32 word \<Rightarrow> 8 word"
type_synonym heap_map32 = "32 word \<Rightarrow> page32 option"

definition zero_page32 :: page32 where
  "zero_page32 = (\<lambda>_. 0)"

definition heapMapAtWord32 :: "heap_map32 \<Rightarrow> 32 word \<Rightarrow> failure + 8 word" where
  "heapMapAtWord32 mapPages address =
     (if address AND 3 \<noteq> 0 then Inl Misaligned
      else case mapPages (PAGEINDEX32 address) of
        None \<Rightarrow> Inr 0
      | Some page \<Rightarrow> Inr (byte_at (page (BYTEINDEX32 address)) (BITINDEX32 address)))"

definition heapMapAtWordPut32 :: "(nat \<Rightarrow> bool) \<Rightarrow> heap_map32 \<Rightarrow> 32 word \<Rightarrow> bool \<Rightarrow> failure + heap_map32" where
  "heapMapAtWordPut32 malloc mapPages address v =
     (if address AND 3 \<noteq> 0 then Inl Misaligned
      else case (case mapPages (PAGEINDEX32 address) of
             Some page \<Rightarrow> Some page
           | None \<Rightarrow> if malloc HEAP_MAP_PAGE_SIZE then Some zero_page32 else None) of
        None \<Rightarrow> Inl Out_of_memory
      | Some page \<Rightarrow>
          Inr (mapPages(PAGEINDEX32 address \<mapsto>
            page(BYTEINDEX32 address := byte_put (page (BYTEINDEX32 address)) (BITINDEX32 address) v))))"

definition clearHeapMap32 :: "heap_map32 \<Rightarrow> heap_map32" where
  "clearHeapMap32 mapPages = (\<lambda>i. map_option (\<lambda>_. zero_page32) (mapPages i))"

subsection \<open>A set of addresses\<close>

text \<open>
  What the checker relies on: the map is a set of the addresses it covers, to which a write adds or
  from which it removes one address, and which a clear empties.
\<close>

locale address_set =
  fixes covered :: "'a \<Rightarrow> bool"
    and is_set :: "'m \<Rightarrow> 'a \<Rightarrow> bool"
    and put :: "'m \<Rightarrow> 'a \<Rightarrow> bool \<Rightarrow> 'm"
    and clear :: "'m \<Rightarrow> 'm"
  assumes is_set_put: "covered a \<Longrightarrow> covered b \<Longrightarrow> is_set (put m a v) b = (if b = a then v else is_set m b)"
    and is_set_clear: "covered a \<Longrightarrow> \<not> is_set (clear m) a"
begin

definition members :: "'m \<Rightarrow> 'a set" where
  "members m = {a. covered a \<and> is_set m a}"

lemma members_put: "covered a \<Longrightarrow> members (put m a v) = (if v then insert a (members m) else members m - {a})"
  by (auto simp: members_def is_set_put split: if_splits)

lemma members_clear: "members (clear m) = {}"
  by (auto simp: members_def is_set_clear)

text \<open>The scan of the checker: mark the headers, then unmark what is referenced; the rest leaks.\<close>

lemma members_put_all:
  "\<forall>a \<in> set as. covered a \<Longrightarrow>
    members (fold (\<lambda>a m. put m a v) as m) = (if v then set as \<union> members m else members m - set as)"
  by (induction as arbitrary: m) (auto simp: members_put)

lemma leaks:
  assumes "\<forall>a \<in> set headers \<union> set referenced. covered a"
  shows "members (fold (\<lambda>a m. put m a False) referenced (fold (\<lambda>a m. put m a True) headers (clear m)))
    = set headers - set referenced"
  using assms by (simp add: members_put_all members_clear)

end

subsection \<open>The indices of an address determine it\<close>

lemma byte_at_nonzero: "byte_at b k \<noteq> 0 \<longleftrightarrow> bit b k"
  using and_exp_eq_0_iff_not_bit [of b k] by (simp add: byte_at_def push_bit_eq_mult)

lemma bit_byte_put: "j < 8 \<Longrightarrow> bit (byte_put b k v) j \<longleftrightarrow> (if j = k then v else bit b j)"
  by (auto simp: byte_put_def bit_simps)

lemma index_less: "unat (x AND 7 :: 'l::len word) < 8"
proof -
  have "unat (x AND 7) \<le> unat (7 :: 'l word)" by (simp only: flip: word_le_nat_alt) (rule word_and_le1)
  also have "\<dots> \<le> 7" using mod_less_eq_dividend [of 7 "2 ^ LENGTH('l)"] by (simp add: unsigned_numeral take_bit_eq_mod)
  finally show ?thesis by simp
qed

lemma indices64_inj:
  assumes "a AND 7 = 0" "b AND 7 = 0" "BITINDEX64 a = BITINDEX64 b" "BYTEINDEX64 a = BYTEINDEX64 b"
    "PAGEINDEX64 a = PAGEINDEX64 b" "DIRECTORYINDEX64 a = DIRECTORYINDEX64 b"
  shows "a = b"
proof (rule bit_word_eqI)
  fix n assume "n < LENGTH(64)"
  have m: "mask 3 = (7 :: 64 word)" "mask 19 = (0x7FFFF :: 64 word)" "mask 26 = (0x3FFFFFF :: 64 word)"
    by (simp_all add: mask_eq_exp_minus_1)
  have "drop_bit 3 a AND 7 = drop_bit 3 b AND 7" using assms(3) unfolding BITINDEX64_def by (simp only: unsigned_word_eqI)
  then have one: "bit (drop_bit 3 a AND mask 3) (n - 3) = bit (drop_bit 3 b AND mask 3) (n - 3)" by (simp add: m)
  have zero: "bit (a AND mask 3) n = bit (b AND mask 3) n" using assms(1,2) by (simp add: m)
  have two: "bit (drop_bit 6 (a AND mask 26)) (n - 6) = bit (drop_bit 6 (b AND mask 26)) (n - 6)"
    using assms(4) by (simp add: m BYTEINDEX64_def)
  have three: "bit (drop_bit 26 a AND mask 19) (n - 26) = bit (drop_bit 26 b AND mask 19) (n - 26)"
    using assms(5) by (simp add: m PAGEINDEX64_def)
  have four: "bit (drop_bit 45 a) (n - 45) = bit (drop_bit 45 b) (n - 45)"
    using assms(6) by (simp add: DIRECTORYINDEX64_def)
  consider "n < 3" | "3 \<le> n \<and> n < 6" | "6 \<le> n \<and> n < 26" | "26 \<le> n \<and> n < 45" | "45 \<le> n" by linarith
  then show "bit a n = bit b n"
  proof cases
    case 1
    with zero show ?thesis by (simp add: bit_and_iff bit_mask_iff)
  next
    case 2
    then have "n - 3 < 3" "n - 3 < 64" "n - 3 + 3 = n" by linarith+
    with one show ?thesis by (simp add: bit_and_iff bit_mask_iff bit_drop_bit_eq)
  next
    case 3
    then have "n - 6 < 20" "n - 6 < 64" "n - 6 + 6 = n" "n < 26" by linarith+
    with two show ?thesis by (simp add: bit_and_iff bit_mask_iff bit_drop_bit_eq)
  next
    case 4
    then have "n - 26 < 19" "n - 26 < 64" "n - 26 + 26 = n" by linarith+
    with three show ?thesis by (simp add: bit_and_iff bit_mask_iff bit_drop_bit_eq)
  next
    case 5
    with four show ?thesis by (simp add: bit_drop_bit_eq)
  qed
qed

lemma indices32_inj:
  assumes "a AND 3 = 0" "b AND 3 = 0" "BITINDEX32 a = BITINDEX32 b" "BYTEINDEX32 a = BYTEINDEX32 b"
    "PAGEINDEX32 a = PAGEINDEX32 b"
  shows "a = b"
proof (rule bit_word_eqI)
  fix n assume "n < LENGTH(32)"
  have m: "mask 2 = (3 :: 32 word)" "mask 3 = (7 :: 32 word)" "mask 24 = (0xFFFFFF :: 32 word)"
    by (simp_all add: mask_eq_exp_minus_1)
  have "drop_bit 2 a AND 7 = drop_bit 2 b AND 7" using assms(3) unfolding BITINDEX32_def by (simp only: unsigned_word_eqI)
  then have one: "bit (drop_bit 2 a AND mask 3) (n - 2) = bit (drop_bit 2 b AND mask 3) (n - 2)" by (simp add: m)
  have zero: "bit (a AND mask 2) n = bit (b AND mask 2) n" using assms(1,2) by (simp add: m)
  have two: "bit (drop_bit 5 (a AND mask 24)) (n - 5) = bit (drop_bit 5 (b AND mask 24)) (n - 5)"
    using assms(4) by (simp add: m BYTEINDEX32_def)
  have three: "bit (drop_bit 24 a) (n - 24) = bit (drop_bit 24 b) (n - 24)"
    using assms(5) by (simp add: PAGEINDEX32_def)
  consider "n < 2" | "2 \<le> n \<and> n < 5" | "5 \<le> n \<and> n < 24" | "24 \<le> n" by linarith
  then show "bit a n = bit b n"
  proof cases
    case 1
    with zero show ?thesis by (simp add: bit_and_iff bit_mask_iff)
  next
    case 2
    then have "n - 2 < 3" "n - 2 < 32" "Suc (Suc (n - 2)) = n" by linarith+
    with one show ?thesis by (simp add: bit_and_iff bit_mask_iff bit_drop_bit_eq)
  next
    case 3
    then have "n - 5 < 19" "n - 5 < 32" "n - 5 + 5 = n" "n < 24" by linarith+
    with two show ?thesis by (simp add: bit_and_iff bit_mask_iff bit_drop_bit_eq)
  next
    case 4
    with three show ?thesis by (simp add: bit_drop_bit_eq)
  qed
qed

subsection \<open>Both builds are sets of addresses\<close>

definition covered64 :: "64 word \<Rightarrow> bool" where
  "covered64 a \<longleftrightarrow> a AND 7 = 0 \<and> DIRECTORYINDEX64 a < NUMROOTPAGES"

definition is_set64 :: "heap_map \<Rightarrow> 64 word \<Rightarrow> bool" where
  "is_set64 m a = (case heapMapAtWord64 m a of Inl _ \<Rightarrow> False | Inr b \<Rightarrow> b \<noteq> 0)"

definition put64 :: "heap_map \<Rightarrow> 64 word \<Rightarrow> bool \<Rightarrow> heap_map" where
  "put64 m a v = (case heapMapAtWordPut64 (\<lambda>_. True) m a v of Inl _ \<Rightarrow> m | Inr m' \<Rightarrow> m')"

definition covered32 :: "32 word \<Rightarrow> bool" where
  "covered32 a \<longleftrightarrow> a AND 3 = 0"

definition is_set32 :: "heap_map32 \<Rightarrow> 32 word \<Rightarrow> bool" where
  "is_set32 m a = (case heapMapAtWord32 m a of Inl _ \<Rightarrow> False | Inr b \<Rightarrow> b \<noteq> 0)"

definition put32 :: "heap_map32 \<Rightarrow> 32 word \<Rightarrow> bool \<Rightarrow> heap_map32" where
  "put32 m a v = (case heapMapAtWordPut32 (\<lambda>_. True) m a v of Inl _ \<Rightarrow> m | Inr m' \<Rightarrow> m')"

lemma is_set64_page:
  assumes "covered64 a"
  shows "is_set64 m a = (case m (DIRECTORYINDEX64 a) of None \<Rightarrow> False | Some d \<Rightarrow>
    (case d (PAGEINDEX64 a) of None \<Rightarrow> False | Some p \<Rightarrow> bit (p (BYTEINDEX64 a)) (BITINDEX64 a)))"
  using assms by (auto simp: is_set64_def heapMapAtWord64_def covered64_def byte_at_nonzero not_le [symmetric]
      split: option.splits)

lemma is_set32_page:
  assumes "covered32 a"
  shows "is_set32 m a = (case m (PAGEINDEX32 a) of None \<Rightarrow> False
    | Some p \<Rightarrow> bit (p (BYTEINDEX32 a)) (BITINDEX32 a))"
  using assms by (auto simp: is_set32_def heapMapAtWord32_def covered32_def byte_at_nonzero split: option.splits)

text \<open>The byte of an address, where a missing page reads as zeros.\<close>

definition byte64 :: "heap_map \<Rightarrow> 64 word \<Rightarrow> 8 word" where
  "byte64 m a = (case m (DIRECTORYINDEX64 a) of None \<Rightarrow> 0 | Some d \<Rightarrow>
     (case d (PAGEINDEX64 a) of None \<Rightarrow> 0 | Some p \<Rightarrow> p (BYTEINDEX64 a)))"

definition byte32 :: "heap_map32 \<Rightarrow> 32 word \<Rightarrow> 8 word" where
  "byte32 m a = (case m (PAGEINDEX32 a) of None \<Rightarrow> 0 | Some p \<Rightarrow> p (BYTEINDEX32 a))"

lemma is_set64_byte: "covered64 a \<Longrightarrow> is_set64 m a = bit (byte64 m a) (BITINDEX64 a)"
  by (auto simp: is_set64_page byte64_def split: option.splits)

lemma is_set32_byte: "covered32 a \<Longrightarrow> is_set32 m a = bit (byte32 m a) (BITINDEX32 a)"
  by (auto simp: is_set32_page byte32_def split: option.splits)

lemma byte64_put:
  assumes "covered64 a"
  shows "byte64 (put64 m a v) b =
    (if DIRECTORYINDEX64 b = DIRECTORYINDEX64 a \<and> PAGEINDEX64 b = PAGEINDEX64 a \<and> BYTEINDEX64 b = BYTEINDEX64 a
     then byte_put (byte64 m a) (BITINDEX64 a) v else byte64 m b)"
proof -
  define d where "d = (case m (DIRECTORYINDEX64 a) of Some d \<Rightarrow> d | None \<Rightarrow> (\<lambda>_. None))"
  define p where "p = (case d (PAGEINDEX64 a) of Some p \<Rightarrow> p | None \<Rightarrow> zero_page)"
  have put: "put64 m a v = m(DIRECTORYINDEX64 a \<mapsto>
      d(PAGEINDEX64 a \<mapsto> p(BYTEINDEX64 a := byte_put (p (BYTEINDEX64 a)) (BITINDEX64 a) v)))"
    using assms by (auto simp: put64_def heapMapAtWordPut64_def covered64_def Let_def d_def p_def
        not_le [symmetric] split: option.splits)
  have p: "p x = (case d (PAGEINDEX64 a) of None \<Rightarrow> 0 | Some p \<Rightarrow> p x)" for x
    by (simp add: p_def zero_page_def split: option.split)
  have d: "(case d y of None \<Rightarrow> 0 | Some p \<Rightarrow> p x)
    = (case m (DIRECTORYINDEX64 a) of None \<Rightarrow> 0 | Some d \<Rightarrow> (case d y of None \<Rightarrow> 0 | Some p \<Rightarrow> p x))" for x y
    by (simp add: d_def split: option.split)
  show ?thesis
  proof (cases "DIRECTORYINDEX64 b = DIRECTORYINDEX64 a")
    case False
    then show ?thesis by (simp add: byte64_def put)
  next
    case D: True
    show ?thesis
    proof (cases "PAGEINDEX64 b = PAGEINDEX64 a")
      case False
      with D show ?thesis by (simp add: byte64_def put d)
    next
      case True
      with D show ?thesis by (simp add: byte64_def put p d cong: option.case_cong)
    qed
  qed
qed

lemma byte32_put:
  assumes "covered32 a"
  shows "byte32 (put32 m a v) b =
    (if PAGEINDEX32 b = PAGEINDEX32 a \<and> BYTEINDEX32 b = BYTEINDEX32 a
     then byte_put (byte32 m a) (BITINDEX32 a) v else byte32 m b)"
proof -
  define p where "p = (case m (PAGEINDEX32 a) of Some p \<Rightarrow> p | None \<Rightarrow> zero_page32)"
  have put: "put32 m a v = m(PAGEINDEX32 a \<mapsto>
      p(BYTEINDEX32 a := byte_put (p (BYTEINDEX32 a)) (BITINDEX32 a) v))"
    using assms by (auto simp: put32_def heapMapAtWordPut32_def covered32_def p_def split: option.splits)
  have "p x = (case m (PAGEINDEX32 a) of None \<Rightarrow> 0 | Some p \<Rightarrow> p x)" for x
    by (simp add: p_def zero_page32_def split: option.split)
  then show ?thesis by (simp add: byte32_def put)
qed

lemma put64_get:
  assumes "covered64 a" "covered64 b"
  shows "is_set64 (put64 m a v) b = (if b = a then v else is_set64 m b)"
proof (cases "DIRECTORYINDEX64 b = DIRECTORYINDEX64 a \<and> PAGEINDEX64 b = PAGEINDEX64 a
    \<and> BYTEINDEX64 b = BYTEINDEX64 a")
  case False
  then have "b \<noteq> a" "byte64 (put64 m a v) b = byte64 m b" using byte64_put [OF assms(1)] by auto
  then show ?thesis by (simp add: is_set64_byte assms)
next
  case True
  then have same: "byte64 m b = byte64 m a" and put: "byte64 (put64 m a v) b = byte_put (byte64 m a) (BITINDEX64 a) v"
    using byte64_put [OF assms(1), of m v b] True by (simp_all add: byte64_def [of m] cong: option.case_cong)
  have j: "BITINDEX64 b < 8" by (simp add: BITINDEX64_def index_less)
  have inj: "b = a" if "BITINDEX64 b = BITINDEX64 a"
    using assms that True by - (rule indices64_inj, simp_all add: covered64_def)
  show ?thesis
  proof (cases "b = a")
    case True
    then show ?thesis using j assms put by (simp add: is_set64_byte bit_byte_put)
  next
    case False
    then have "BITINDEX64 b \<noteq> BITINDEX64 a" using inj by blast
    then show ?thesis using False j assms put same by (simp add: is_set64_byte bit_byte_put)
  qed
qed

lemma put32_get:
  assumes "covered32 a" "covered32 b"
  shows "is_set32 (put32 m a v) b = (if b = a then v else is_set32 m b)"
proof (cases "PAGEINDEX32 b = PAGEINDEX32 a \<and> BYTEINDEX32 b = BYTEINDEX32 a")
  case False
  then have "b \<noteq> a" "byte32 (put32 m a v) b = byte32 m b" using byte32_put [OF assms(1)] by auto
  then show ?thesis by (simp add: is_set32_byte assms)
next
  case True
  then have same: "byte32 m b = byte32 m a" and put: "byte32 (put32 m a v) b = byte_put (byte32 m a) (BITINDEX32 a) v"
    using byte32_put [OF assms(1), of m v b] True by (simp_all add: byte32_def [of m] cong: option.case_cong)
  have j: "BITINDEX32 b < 8" by (simp add: BITINDEX32_def index_less)
  have inj: "b = a" if "BITINDEX32 b = BITINDEX32 a"
    using assms that True by - (rule indices32_inj, simp_all add: covered32_def)
  show ?thesis
  proof (cases "b = a")
    case True
    then show ?thesis using j assms put by (simp add: is_set32_byte bit_byte_put)
  next
    case False
    then have "BITINDEX32 b \<noteq> BITINDEX32 a" using inj by blast
    then show ?thesis using False j assms put same by (simp add: is_set32_byte bit_byte_put)
  qed
qed

interpretation hm64: address_set covered64 is_set64 put64 clearHeapMap64
proof unfold_locales
  show "\<not> is_set64 (clearHeapMap64 m) a" if "covered64 a" for m a
    using that by (auto simp: is_set64_page clearHeapMap64_def zero_page_def split: option.splits)
qed (rule put64_get)

interpretation hm32: address_set covered32 is_set32 put32 clearHeapMap32
proof unfold_locales
  show "\<not> is_set32 (clearHeapMap32 m) a" if "covered32 a" for m a
    using that by (auto simp: is_set32_page clearHeapMap32_def zero_page32_def split: option.splits)
qed (rule put32_get)

text \<open>
  C29: Both builds of the heap map are sets of word addresses: clearing the map, marking the headers
  and unmarking what is referenced leaves marked exactly the headers that nothing references.
\<close>
theorem heap_map_finds_leaks:
  assumes "\<forall>a \<in> set headers \<union> set referenced. covered64 a"
    "\<forall>a \<in> set headers32 \<union> set referenced32. covered32 a" "covered64 b" "covered32 c"
  shows "(is_set64 (fold (\<lambda>a m. put64 m a False) referenced
      (fold (\<lambda>a m. put64 m a True) headers (clearHeapMap64 m))) b \<longleftrightarrow> b \<in> set headers - set referenced)
    \<and> (is_set32 (fold (\<lambda>a m. put32 m a False) referenced32
      (fold (\<lambda>a m. put32 m a True) headers32 (clearHeapMap32 n))) c \<longleftrightarrow> c \<in> set headers32 - set referenced32)"
  using hm64.leaks [OF assms(1), of m] hm32.leaks [OF assms(2), of n] assms(3,4)
  by (auto simp: hm64.members_def hm32.members_def)

lemma heap_map_finds_leaks_witness:
  "(is_set64 (fold (\<lambda>a m. put64 m a False) [16]
      (fold (\<lambda>a m. put64 m a True) [16, 0x4000010] (clearHeapMap64 (\<lambda>_. None)))) 0x4000010
        \<longleftrightarrow> 0x4000010 \<in> set [16, 0x4000010] - set [16 :: 64 word])
    \<and> (is_set32 (fold (\<lambda>a m. put32 m a False) []
      (fold (\<lambda>a m. put32 m a True) [4] (clearHeapMap32 (\<lambda>_. None)))) 8 \<longleftrightarrow> 8 \<in> set [4] - set ([] :: 32 word list))"
  by (rule heap_map_finds_leaks)
    (simp_all add: covered64_def covered32_def DIRECTORYINDEX64_def NUMROOTPAGES_def word_less_nat_alt unsigned_drop_bit_eq drop_bit_eq_div)

text \<open>
  The root covers the addresses below \<open>2 ^ 61\<close>; the index of a higher one lies outside it.
\<close>

lemma heap_map_root_bound:
  assumes "a AND 7 = 0" "2 ^ 61 \<le> unat a"
  shows "heapMapAtWord64 m a = Inl Outside_root"
proof -
  have "2 ^ 61 div 2 ^ 45 \<le> unat a div 2 ^ 45" using assms(2) by (rule div_le_mono)
  moreover have "unat (DIRECTORYINDEX64 a) = unat a div 2 ^ 45"
  proof -
    have "take_bit 64 (unat a) = unat a" by (rule take_bit_nat_eq_self) (use unsigned_less [of a] in simp)
    then show ?thesis unfolding DIRECTORYINDEX64_def unsigned_drop_bit_eq by (simp add: drop_bit_eq_div)
  qed
  ultimately have "NUMROOTPAGES \<le> DIRECTORYINDEX64 a" by (simp add: NUMROOTPAGES_def word_le_nat_alt)
  then show ?thesis using assms(1) by (simp add: heapMapAtWord64_def)
qed

end
