(* ===== verification/MiscPrims.thy ===== *)
theory MiscPrims
  imports Prelude
begin

text \<open>
  The primitives of \<open>MiscPrimitivePlugin.c\<close>: the run length compression of bitmaps and its inverse,
  and the loops over byte strings. An object is what the interpreter tells of it: its elements, its
  bmSize, whether it may be written. The memory is written out: \<open>None\<close> is a read or a write outside the
  object, and the theorems show where it cannot happen.
\<close>

datatype prim_error = PrimErrBadArgument | PrimErrBadIndex | PrimErrNoModification | PrimErrUnsupported | ProxyFailed

datatype 'a prim_result = PrimFail prim_error | PrimReturn 'a

text \<open>
  An object of bits, seen through an \<open>int *\<close>: its 32-bit lanes, the bytes behind the last whole one,
  and the count of its elements, of whatever width they are.
\<close>

record bits_oop =
  is_bits :: bool
  bits_immutable :: bool
  lanes :: "32 word list"
  rest_bytes :: nat
  st_size :: nat

record bytes_oop =
  is_bytes :: bool
  bytes_immutable :: bool
  contents :: "8 word list"

definition byteSizeOf :: "bits_oop \<Rightarrow> nat" where
  "byteSizeOf b = 4 * length (lanes b) + rest_bytes b"

subsection \<open>Compression\<close>

text \<open>\<open>encodeBytesOf:in:at:\<close> and \<open>encodeInt:in:at:\<close>, the bytes they write.\<close>

definition encodeBytesOf :: "nat \<Rightarrow> 8 word list" where
  "encodeBytesOf x = map (\<lambda>j. of_nat (x div 2 ^ (8 * (3 - j)))) [0, 1, 2, 3]"

definition encodeInt :: "nat \<Rightarrow> 8 word list" where
  "encodeInt x =
     (if x \<le> 223 then [of_nat x]
      else if x \<le> 7935 then [of_nat (x div 256 + 224), of_nat (x mod 256)]
      else 0xFF # encodeBytesOf x)"

fun put_bytes :: "8 word list \<Rightarrow> nat \<Rightarrow> 8 word list \<Rightarrow> 8 word list option" where
  "put_bytes ba i [] = Some ba"
| "put_bytes ba i (b # bs) = (if i < length ba then put_bytes (ba[i := b]) (i + 1) bs else None)"

function equal_run :: "32 word list \<Rightarrow> nat \<Rightarrow> nat \<Rightarrow> nat" where
  "equal_run bm bmSize j = (if j + 1 < bmSize \<and> bm ! j = bm ! (j + 1) then equal_run bm bmSize (j + 1) else j)"
  by pat_completeness auto
termination by (relation "measure (\<lambda>(bm, bmSize, j). bmSize - j)") auto

function differ_run :: "32 word list \<Rightarrow> nat \<Rightarrow> nat \<Rightarrow> nat" where
  "differ_run bm bmSize j = (if j + 1 < bmSize \<and> bm ! j \<noteq> bm ! (j + 1) then differ_run bm bmSize (j + 1) else j)"
  by pat_completeness auto
termination by (relation "measure (\<lambda>(bm, bmSize, j). bmSize - j)") auto

declare equal_run.simps [simp del] differ_run.simps [simp del]

definition eqBytes :: "32 word \<Rightarrow> bool" where
  "eqBytes w \<longleftrightarrow> drop_bit 8 w AND 0xFF = w AND 0xFF \<and> drop_bit 16 w AND 0xFF = w AND 0xFF \<and> drop_bit 24 w AND 0xFF = w AND 0xFF"

text \<open>One round of the loop: the bytes it writes, and the next \<open>k\<close>.\<close>

definition compress_round :: "32 word list \<Rightarrow> nat \<Rightarrow> nat \<Rightarrow> 8 word list \<times> nat" where
  "compress_round bm bmSize k =
     (let word = bm ! k; lowByte = ucast word; j = equal_run bm bmSize k
      in if j > k
         then (if eqBytes word then encodeInt ((j - k + 1) * 4 + 1) @ [lowByte]
               else encodeInt ((j - k + 1) * 4 + 2) @ encodeBytesOf (unat word), j + 1)
         else if eqBytes word then (encodeInt (1 * 4 + 1) @ [lowByte], k + 1)
         else let j = differ_run bm bmSize j; j = if j + 1 = bmSize then j + 1 else j
           in (encodeInt ((j - k) * 4 + 3) @ concat (map (\<lambda>m. encodeBytesOf (unat (bm ! m))) [k..<j]), j))"

lemma equal_run_bounds:
  "j < bmSize \<Longrightarrow> j \<le> equal_run bm bmSize j \<and> equal_run bm bmSize j < bmSize
     \<and> (\<forall>m. j \<le> m \<and> m \<le> equal_run bm bmSize j \<longrightarrow> bm ! m = bm ! j)
     \<and> (equal_run bm bmSize j + 1 < bmSize \<longrightarrow> bm ! equal_run bm bmSize j \<noteq> bm ! (equal_run bm bmSize j + 1))"
proof (induction bm bmSize j rule: equal_run.induct)
  case (1 bm bmSize j)
  show ?case
  proof (cases "j + 1 < bmSize \<and> bm ! j = bm ! (j + 1)")
    case True
    then have e: "equal_run bm bmSize j = equal_run bm bmSize (j + 1)" by (subst equal_run.simps) simp
    have ih: "j + 1 \<le> equal_run bm bmSize (j + 1) \<and> equal_run bm bmSize (j + 1) < bmSize
        \<and> (\<forall>m. j + 1 \<le> m \<and> m \<le> equal_run bm bmSize (j + 1) \<longrightarrow> bm ! m = bm ! (j + 1))
        \<and> (equal_run bm bmSize (j + 1) + 1 < bmSize \<longrightarrow> bm ! equal_run bm bmSize (j + 1) \<noteq> bm ! (equal_run bm bmSize (j + 1) + 1))"
      by (rule "1.IH" [OF True conjunct1 [OF True]])
    have same: "bm ! m = bm ! j" if "j \<le> m" "m \<le> equal_run bm bmSize (j + 1)" for m
    proof (cases "m = j")
      case False
      then have "bm ! m = bm ! (j + 1)" using ih that by (metis Suc_eq_plus1 Suc_leI le_neq_implies_less)
      then show ?thesis using True by metis
    qed (simp only:)
    have "j \<le> equal_run bm bmSize (j + 1)" using ih by linarith
    then show ?thesis unfolding e using ih same by blast
  next
    case False
    then have "equal_run bm bmSize j = j" by (subst equal_run.simps) (simp only: False if_False)
    then show ?thesis using False 1(2) by auto
  qed
qed

lemma differ_run_bounds: "j < bmSize \<Longrightarrow> j \<le> differ_run bm bmSize j \<and> differ_run bm bmSize j < bmSize"
proof (induction bm bmSize j rule: differ_run.induct)
  case (1 bm bmSize j)
  show ?case
  proof (cases "j + 1 < bmSize \<and> bm ! j \<noteq> bm ! (j + 1)")
    case True
    then have "differ_run bm bmSize j = differ_run bm bmSize (j + 1)" by (subst differ_run.simps) simp
    then show ?thesis using "1.IH" [OF True] True by simp
  next
    case False
    then have "differ_run bm bmSize j = j" by (subst differ_run.simps) (simp only: False if_False)
    then show ?thesis using 1(2) by simp
  qed
qed

lemma differ_run_moves: "j + 1 < bmSize \<Longrightarrow> bm ! j \<noteq> bm ! (j + 1) \<Longrightarrow> j < differ_run bm bmSize j"
  using differ_run_bounds [of "j + 1" bmSize bm] by (subst differ_run.simps) simp

lemma compress_round_next: "k < bmSize \<Longrightarrow> k < snd (compress_round bm bmSize k) \<and> snd (compress_round bm bmSize k) \<le> bmSize"
proof -
  assume k: "k < bmSize"
  define j where "j = equal_run bm bmSize k"
  define d where "d = differ_run bm bmSize j"
  have j: "k \<le> j" "j < bmSize" "j + 1 < bmSize \<Longrightarrow> bm ! j \<noteq> bm ! (j + 1)"
    using equal_run_bounds [OF k, of bm] unfolding j_def by blast+
  have d: "j \<le> d" "d < bmSize" using differ_run_bounds [OF j(2), of bm] unfolding d_def by blast+
  have d3: "j + 1 < bmSize \<Longrightarrow> j < d" using differ_run_moves [of j bmSize bm] j(3) unfolding d_def by blast
  have "snd (compress_round bm bmSize k) = (if j > k then j + 1 else if eqBytes (bm ! k) then k + 1 else if d + 1 = bmSize then d + 1 else d)"
    by (simp add: compress_round_def Let_def d_def j_def)
  then show ?thesis using j(1,2) d d3 k by (auto split: if_splits)
qed

lemma compress_round_step: "k < bmSize \<Longrightarrow> (bs, k') = compress_round bm bmSize k \<Longrightarrow> k < k'"
  using compress_round_next [of k bmSize bm] by (metis snd_conv)

function compress_loop :: "32 word list \<Rightarrow> nat \<Rightarrow> nat \<Rightarrow> nat \<Rightarrow> 8 word list \<Rightarrow> (nat \<times> 8 word list) option" where
  "compress_loop bm bmSize k i ba =
     (if k < bmSize
      then let (bs, k') = compress_round bm bmSize k
        in case put_bytes ba i bs of
             None \<Rightarrow> None
           | Some ba' \<Rightarrow> compress_loop bm bmSize k' (i + length bs) ba'
      else Some (i, ba))"
  by pat_completeness auto
termination
  by (relation "measure (\<lambda>(bm, bmSize, k, i, ba). bmSize - k)")
    (simp_all add: diff_less_mono2 compress_round_step)

declare compress_loop.simps [simp del]

definition primitiveCompressToByteArray :: "bits_oop \<Rightarrow> bytes_oop \<Rightarrow> (nat prim_result \<times> bytes_oop) option" where
  "primitiveCompressToByteArray bm ba =
     (let bmSize = st_size bm; destSize = length (contents ba)
      in if \<not> is_bits bm then Some (PrimFail ProxyFailed, ba)
         else if \<not> is_bytes ba then Some (PrimFail PrimErrBadArgument, ba)
         else if bytes_immutable ba then Some (PrimFail PrimErrNoModification, ba)
         else if destSize < bmSize * 4 + 7 + (bmSize div 0x7C0) * 3 then Some (PrimFail PrimErrUnsupported, ba)
         else if bmSize > byteSizeOf bm div 4 then Some (PrimFail PrimErrBadArgument, ba)
         else case put_bytes (contents ba) 0 (encodeInt bmSize) of
                None \<Rightarrow> None
              | Some b \<Rightarrow>
                  (case compress_loop (lanes bm) bmSize 0 (length (encodeInt bmSize)) b of
                     None \<Rightarrow> None
                   | Some (i, b) \<Rightarrow> Some (PrimReturn i, ba\<lparr>contents := b\<rparr>)))"

subsection \<open>Decompression\<close>

text \<open>The big-endian bytes of a word, from \<open>ba[i]\<close> on.\<close>

definition read_word :: "8 word list \<Rightarrow> nat \<Rightarrow> 32 word" where
  "read_word ba i = foldl (\<lambda>d j. push_bit 8 d OR ucast (ba ! (i + j))) 0 [0, 1, 2, 3]"

text \<open>The integer in front of a run; \<open>None\<close> is the failure at the end of the bytes.\<close>

definition read_int :: "8 word list \<Rightarrow> nat \<Rightarrow> (32 word \<times> nat) option" where
  "read_int ba i =
     (let anInt = ucast (ba ! i)
      in if anInt \<le> 223 then Some (anInt, i + 1)
         else if anInt \<le> 0xFE
         then if i + 1 < length ba then Some ((anInt - 224) * 256 + ucast (ba ! (i + 1)), i + 2) else None
         else if i + 1 + 4 > length ba then None
         else Some (foldl (\<lambda>d j. push_bit 8 d + ucast (ba ! (i + 1 + j))) 0 [0, 1, 2, 3], i + 5))"

text \<open>A store to \<open>bm[k]\<close>.\<close>

definition store_lane :: "32 word list \<Rightarrow> nat \<Rightarrow> 32 word \<Rightarrow> 32 word list option" where
  "store_lane bm k w = (if k < length bm then Some (bm[k := w]) else None)"

fun fill :: "nat \<Rightarrow> 32 word \<Rightarrow> nat \<Rightarrow> 32 word list \<Rightarrow> 32 word list option" where
  "fill 0 w k bm = Some bm"
| "fill (Suc n) w k bm = (case store_lane bm k w of None \<Rightarrow> None | Some bm \<Rightarrow> fill n w (k + 1) bm)"

text \<open>The loop of code 3; it fails where the bytes end, with the lanes written so far.\<close>

fun copy_words :: "nat \<Rightarrow> 8 word list \<Rightarrow> nat \<Rightarrow> nat \<Rightarrow> 32 word list \<Rightarrow> (bool \<times> nat \<times> 32 word list) option" where
  "copy_words 0 ba i k bm = Some (True, i, bm)"
| "copy_words (Suc n) ba i k bm =
     (if i + 4 > length ba then Some (False, i, bm)
      else case store_lane bm k (read_word ba i) of
             None \<Rightarrow> None
           | Some bm \<Rightarrow> copy_words n ba (i + 4) (k + 1) bm)"

datatype decompressed = Next nat nat "32 word list" | Stop "32 word list"

text \<open>The run of \<open>n\<close> lanes with its code, read from \<open>ba[i]\<close> on, and the round with the integer in front.\<close>

definition decompress_run ::
    "8 word list \<Rightarrow> nat \<Rightarrow> nat \<Rightarrow> nat \<Rightarrow> 32 word \<Rightarrow> nat \<Rightarrow> nat \<Rightarrow> 32 word list \<Rightarrow> decompressed option" where
  "decompress_run ba pastEnd nlanes n code i k bm =
     (if k + n > nlanes \<and> (code \<noteq> 0 \<or> k + n > pastEnd) then Some (Stop bm)
      else if code = 1
      then if \<not> i < length ba then Some (Stop bm)
           else let data = ucast (ba ! i); data = data OR push_bit 8 data; data = data OR push_bit 16 data
             in map_option (Next (i + 1) (k + n)) (fill n data k bm)
      else if code = 2
      then if i + 4 > length ba then Some (Stop bm)
           else map_option (Next (i + 4) (k + n)) (fill n (read_word ba i) k bm)
      else if code = 3
      then (case copy_words n ba i k bm of
              None \<Rightarrow> None
            | Some (p, i, bm) \<Rightarrow> Some (if p then Next i (k + n) bm else Stop bm))
      else Some (Next i k bm))"

definition decompress_round :: "8 word list \<Rightarrow> nat \<Rightarrow> nat \<Rightarrow> nat \<Rightarrow> nat \<Rightarrow> 32 word list \<Rightarrow> decompressed option" where
  "decompress_round ba pastEnd nlanes i k bm =
     (case read_int ba i of
        None \<Rightarrow> Some (Stop bm)
      | Some (anInt, i) \<Rightarrow> decompress_run ba pastEnd nlanes (unat (drop_bit 2 anInt)) (anInt AND 3) i k bm)"

lemma read_int_next: "read_int ba i = Some (x, i') \<Longrightarrow> i < i'"
  by (auto simp: read_int_def Let_def split: if_splits)

lemma copy_words_next: "copy_words n ba i k bm = Some (p, i', bm') \<Longrightarrow> i \<le> i'"
  by (induction n ba i k bm rule: copy_words.induct) (auto split: if_splits option.splits)

lemma decompress_run_next: "decompress_run ba pastEnd nlanes n code i k bm = Some (Next i' k' bm') \<Longrightarrow> i \<le> i'"
  by (auto simp: decompress_run_def Let_def split: option.splits if_splits dest!: copy_words_next)

lemma decompress_round_next: "decompress_round ba pastEnd nlanes i k bm = Some (Next i' k' bm') \<Longrightarrow> i < i'"
  by (auto simp: decompress_round_def split: option.splits dest!: read_int_next decompress_run_next)

function decompress_loop ::
    "8 word list \<Rightarrow> nat \<Rightarrow> nat \<Rightarrow> nat \<Rightarrow> nat \<Rightarrow> 32 word list \<Rightarrow> (bool \<times> 32 word list) option" where
  "decompress_loop ba pastEnd nlanes i k bm =
     (if i < length ba
      then case decompress_round ba pastEnd nlanes i k bm of
             None \<Rightarrow> None
           | Some (Stop bm) \<Rightarrow> Some (False, bm)
           | Some (Next i k bm) \<Rightarrow> decompress_loop ba pastEnd nlanes i k bm
      else Some (True, bm))"
  by pat_completeness auto
termination
  by (relation "measure (\<lambda>(ba, pastEnd, nlanes, i, k, bm). length ba - i)") (auto dest: decompress_round_next)

declare decompress_loop.simps [simp del]

definition primitiveDecompressFromByteArray ::
    "bits_oop \<Rightarrow> bytes_oop \<Rightarrow> int option \<Rightarrow> (unit prim_result \<times> bits_oop) option" where
  "primitiveDecompressFromByteArray bm ba index =
     (if bits_immutable bm then Some (PrimFail PrimErrNoModification, bm)
      else if \<not> is_bytes ba then Some (PrimFail PrimErrBadArgument, bm)
      else case index of
             None \<Rightarrow> Some (PrimFail ProxyFailed, bm)
           | Some index \<Rightarrow>
               if \<not> is_bits bm then Some (PrimFail ProxyFailed, bm)
               else if index < 1 then Some (PrimFail PrimErrBadIndex, bm)
               else let pastEnd = st_size bm; nlanes = min (byteSizeOf bm div 4) pastEnd
                 in case decompress_loop (contents ba) pastEnd nlanes (nat (index - 1)) 0 (lanes bm) of
                      None \<Rightarrow> None
                    | Some (True, ws) \<Rightarrow> Some (PrimReturn (), bm\<lparr>lanes := ws\<rparr>)
                    | Some (False, ws) \<Rightarrow> Some (PrimFail PrimErrBadIndex, bm\<lparr>lanes := ws\<rparr>))"

subsection \<open>Decompression stays inside\<close>

lemma fill_Some: "k + n \<le> length bm \<Longrightarrow> \<exists>bm'. fill n w k bm = Some bm' \<and> length bm' = length bm"
  by (induction n w k bm rule: fill.induct) (auto simp: store_lane_def)

lemma copy_words_Some: "k + n \<le> length bm \<Longrightarrow> \<exists>p i' bm'. copy_words n ba i k bm = Some (p, i', bm') \<and> length bm' = length bm"
  by (induction n ba i k bm rule: copy_words.induct) (auto simp: store_lane_def)

fun keeps :: "nat \<Rightarrow> decompressed option \<Rightarrow> bool" where
  "keeps n None \<longleftrightarrow> False"
| "keeps n (Some (Next i k bm)) \<longleftrightarrow> length bm = n"
| "keeps n (Some (Stop bm)) \<longleftrightarrow> length bm = n"

lemma decompress_run_keeps:
  assumes "nlanes \<le> length bm" "nlanes \<le> pastEnd"
  shows "keeps (length bm) (decompress_run ba pastEnd nlanes n code i k bm)"
proof (cases "k + n \<le> nlanes")
  case True
  then have fits: "k + n \<le> length bm" using assms by simp
  have f: "keeps (length bm) (map_option (Next i' k') (fill n w k bm))" for i' k' w
    using fill_Some [OF fits, of w] by auto
  obtain p i2 bm2 where "copy_words n ba i k bm = Some (p, i2, bm2)" "length bm2 = length bm" using copy_words_Some [OF fits] by blast
  then show ?thesis using f by (simp add: decompress_run_def Let_def)
next
  case False
  then show ?thesis using assms by (auto simp: decompress_run_def)
qed

lemma decompress_round_keeps:
  "nlanes \<le> length bm \<Longrightarrow> nlanes \<le> pastEnd \<Longrightarrow> keeps (length bm) (decompress_round ba pastEnd nlanes i k bm)"
  by (auto simp: decompress_round_def decompress_run_keeps split: option.split)

lemma decompress_loop_keeps:
  "nlanes \<le> length bm \<Longrightarrow> nlanes \<le> pastEnd \<Longrightarrow>
   \<exists>p bm'. decompress_loop ba pastEnd nlanes i k bm = Some (p, bm') \<and> length bm' = length bm"
proof (induction ba pastEnd nlanes i k bm rule: decompress_loop.induct)
  case (1 ba pastEnd nlanes i k bm)
  have keep: "keeps (length bm) (decompress_round ba pastEnd nlanes i k bm)" by (rule decompress_round_keeps [OF 1(2,3)])
  show ?case
  proof (cases "i < length ba")
    case False then show ?thesis by (subst decompress_loop.simps) auto
  next
    case True
    obtain r where r: "decompress_round ba pastEnd nlanes i k bm = Some r" using keep by (cases "decompress_round ba pastEnd nlanes i k bm") auto
    show ?thesis
    proof (cases r)
      case (Next i' k' bm')
      then have l: "length bm' = length bm" using keep r by simp
      then show ?thesis using "1.IH" [OF True r Next] 1(2,3) r Next True by (subst decompress_loop.simps) simp
    next
      case (Stop bm')
      then show ?thesis using keep r True by (subst decompress_loop.simps) auto
    qed
  qed
qed

subsection \<open>Compression fits its destination\<close>

lemma put_bytes_fits:
  "i + length bs \<le> length ba \<Longrightarrow> put_bytes ba i bs = Some (take i ba @ bs @ drop (i + length bs) ba)"
proof (induction bs arbitrary: i ba)
  case (Cons b bs)
  then have "put_bytes ba i (b # bs) = Some (take (i + 1) (ba[i := b]) @ bs @ drop (i + 1 + length bs) (ba[i := b]))" by simp
  then show ?case using Cons.prems by (simp add: take_Suc_conv_app_nth)
qed simp

text \<open>The bytes all the rounds from \<open>k\<close> on write.\<close>

function compressed :: "32 word list \<Rightarrow> nat \<Rightarrow> nat \<Rightarrow> 8 word list" where
  "compressed bm bmSize k =
     (if k < bmSize then fst (compress_round bm bmSize k) @ compressed bm bmSize (snd (compress_round bm bmSize k)) else [])"
  by pat_completeness auto
termination
  by (relation "measure (\<lambda>(bm, bmSize, k). bmSize - k)") (simp_all add: diff_less_mono2 compress_round_next)

declare compressed.simps [simp del]

lemma compress_loop_fits:
  "i + length (compressed bm bmSize k) \<le> length ba \<Longrightarrow> compress_loop bm bmSize k i ba =
     Some (i + length (compressed bm bmSize k), take i ba @ compressed bm bmSize k @ drop (i + length (compressed bm bmSize k)) ba)"
proof (induction bm bmSize k arbitrary: i ba rule: compressed.induct)
  case (1 bm bmSize k)
  show ?case
  proof (cases "k < bmSize")
    case False
    then show ?thesis by (subst compress_loop.simps, subst (1 2 3) compressed.simps) simp
  next
    case True
    obtain bs k' where r: "compress_round bm bmSize k = (bs, k')" by fastforce
    have c: "compressed bm bmSize k = bs @ compressed bm bmSize k'" using True r by (subst compressed.simps) simp
    define ba' where "ba' = take i ba @ bs @ drop (i + length bs) ba"
    have p: "put_bytes ba i bs = Some ba'" unfolding ba'_def by (rule put_bytes_fits) (use 1(2) c in simp)
    have l: "length ba' = length ba" using 1(2) c by (simp add: ba'_def)
    have "compress_loop bm bmSize k i ba = compress_loop bm bmSize k' (i + length bs) ba'"
      using True r p by (subst compress_loop.simps) simp
    also have "\<dots> = Some (i + length bs + length (compressed bm bmSize k'), take (i + length bs) ba' @ compressed bm bmSize k'
        @ drop (i + length bs + length (compressed bm bmSize k')) ba')"
      using "1.IH" [OF True, of "i + length bs" ba'] r 1(2) c l by simp
    also have "take (i + length bs) ba' = take i ba @ bs" using 1(2) c by (simp add: ba'_def)
    also have "drop (i + length bs + length (compressed bm bmSize k')) ba' = drop (i + length bs + length (compressed bm bmSize k')) ba"
    proof -
      have "i \<le> length ba" using 1(2) by simp
      then have "drop (i + length bs + m) ba' = drop (i + length bs + m) ba" for m
        by (simp add: ba'_def add.commute add.left_commute)
      then show ?thesis .
    qed
    finally show ?thesis unfolding c by (simp add: add.assoc)
  qed
qed

lemma length_encodeInt: "length (encodeInt x) = (if x \<le> 223 then 1 else if x \<le> 7935 then 2 else 5)"
  by (simp add: encodeInt_def encodeBytesOf_def)

lemma length_encodeBytesOf [simp]: "length (encodeBytesOf x) = 4"
  by (simp add: encodeBytesOf_def)

lemma length_words: "length (concat (map (\<lambda>m. encodeBytesOf (f m)) ms)) = 4 * length ms"
  by (induction ms) simp_all

lemma differ_run_stop: "j < bmSize \<Longrightarrow> differ_run bm bmSize j + 1 < bmSize \<Longrightarrow> bm ! differ_run bm bmSize j = bm ! (differ_run bm bmSize j + 1)"
proof (induction bm bmSize j rule: differ_run.induct)
  case (1 bm bmSize j)
  show ?case
  proof (cases "j + 1 < bmSize \<and> bm ! j \<noteq> bm ! (j + 1)")
    case True
    then have e: "differ_run bm bmSize j = differ_run bm bmSize (j + 1)" by (subst differ_run.simps) simp
    show ?thesis unfolding e by (rule "1.IH" [OF True conjunct1 [OF True]]) (use 1(3) e in simp)
  next
    case False
    then have e: "differ_run bm bmSize j = j" by (subst differ_run.simps) (simp only: False if_False)
    show ?thesis using False 1(3) unfolding e by blast
  qed
qed

text \<open>What a round is, on lists: a run of equal words, one word of equal bytes, or words that differ.\<close>

lemma compress_round_cases:
  assumes "k < bmSize"
  obtains (Equal) n where "n \<ge> 2" "k + n \<le> bmSize" "\<And>m. k \<le> m \<Longrightarrow> m < k + n \<Longrightarrow> bm ! m = bm ! k"
      "compress_round bm bmSize k = (if eqBytes (bm ! k) then encodeInt (n * 4 + 1) @ [ucast (bm ! k)]
         else encodeInt (n * 4 + 2) @ encodeBytesOf (unat (bm ! k)), k + n)"
  | (Bytes) "eqBytes (bm ! k)" "\<not> (k + 1 < bmSize \<and> bm ! k = bm ! (k + 1))" "compress_round bm bmSize k = (encodeInt 5 @ [ucast (bm ! k)], k + 1)"
  | (Differ) n where "n \<ge> 1" "k + n \<le> bmSize" "\<not> (k + 1 < bmSize \<and> bm ! k = bm ! (k + 1))"
      "k + n = bmSize \<or> k + n + 1 < bmSize \<and> bm ! (k + n) = bm ! (k + n + 1)"
      "compress_round bm bmSize k = (encodeInt (n * 4 + 3) @ concat (map (\<lambda>m. encodeBytesOf (unat (bm ! m))) [k..<k + n]), k + n)"
proof -
  define j where "j = equal_run bm bmSize k"
  define d where "d = differ_run bm bmSize j"
  have j: "k \<le> j" "j < bmSize" "\<And>m. k \<le> m \<Longrightarrow> m \<le> j \<Longrightarrow> bm ! m = bm ! k" "j + 1 < bmSize \<Longrightarrow> bm ! j \<noteq> bm ! (j + 1)"
    using equal_run_bounds [OF assms, of bm] unfolding j_def by blast+
  have d: "j \<le> d" "d < bmSize" using differ_run_bounds [OF j(2), of bm] unfolding d_def by blast+
  have d3: "j + 1 < bmSize \<Longrightarrow> j < d" using differ_run_moves [of j bmSize bm] j(4) unfolding d_def by blast
  have d4: "d + 1 < bmSize \<Longrightarrow> bm ! d = bm ! (d + 1)" using differ_run_stop [OF j(2)] unfolding d_def by blast
  consider (eq) "j > k" | (bytes) "j = k" "eqBytes (bm ! k)" | (diff) "j = k" "\<not> eqBytes (bm ! k)" using j(1) by linarith
  then show ?thesis
  proof cases
    case eq
    have "compress_round bm bmSize k = (if eqBytes (bm ! k) then encodeInt ((j + 1 - k) * 4 + 1) @ [ucast (bm ! k)]
        else encodeInt ((j + 1 - k) * 4 + 2) @ encodeBytesOf (unat (bm ! k)), k + (j + 1 - k))"
      using eq by (simp add: compress_round_def Let_def Suc_diff_le flip: j_def)
    moreover have "2 \<le> j + 1 - k" "k + (j + 1 - k) \<le> bmSize" using eq j(2) by simp_all
    moreover have "bm ! m = bm ! k" if "k \<le> m" "m < k + (j + 1 - k)" for m by (rule j(3)) (use that eq in simp_all)
    ultimately show ?thesis by (intro Equal [of "j + 1 - k"])
  next
    case bytes
    then have "compress_round bm bmSize k = (encodeInt 5 @ [ucast (bm ! k)], k + 1)"
      by (simp add: compress_round_def Let_def flip: j_def)
    then show ?thesis using Bytes bytes j(4) by blast
  next
    case diff
    define e where "e = (if d + 1 = bmSize then d + 1 else d)"
    have e: "k < e" "e \<le> bmSize" "e = bmSize \<or> e + 1 < bmSize \<and> bm ! e = bm ! (e + 1)"
      using d d3 d4 diff(1) j(2) unfolding e_def by (auto split: if_splits)
    have ke: "k + (e - k) = e" using e(1) by simp
    have "\<not> j > k" using diff(1) by simp
    then have "compress_round bm bmSize k = (encodeInt ((e - k) * 4 + 3) @ concat (map (\<lambda>m. encodeBytesOf (unat (bm ! m))) [k..<e]), e)"
      using diff(2) unfolding compress_round_def Let_def j_def [symmetric] d_def [symmetric] e_def [symmetric] by (simp only: if_False)
    then show ?thesis using Differ [of "e - k"] e j(4) unfolding ke diff(1) by simp
  qed
qed

text \<open>The size of the destination that the primitive asks for is what the worst bitmap needs.\<close>

lemma length_encode_len:
  "length (encodeInt (n * 4 + 1)) \<le> 5" "length (encodeInt (n * 4 + 2)) \<le> 5" "n < 56 \<Longrightarrow> length (encodeInt (n * 4 + 2)) = 1"
  "n < 56 \<Longrightarrow> length (encodeInt (n * 4 + 1)) = 1" "n < 1984 \<Longrightarrow> length (encodeInt (n * 4 + 3)) \<le> 2" "length (encodeInt (n * 4 + 3)) \<le> 5"
  by (auto simp: length_encodeInt)

lemma compressed_length:
  "k \<le> bmSize \<Longrightarrow> length (compressed bm bmSize k) + (if k + 1 < bmSize \<and> bm ! k = bm ! (k + 1) then 3 else 0)
     \<le> 4 * (bmSize - k) + 3 * ((bmSize - k) div 1984) + 2"
proof (induction bm bmSize k rule: compressed.induct)
  case (1 bm bmSize k)
  show ?case
  proof (cases "k < bmSize")
    case False
    then show ?thesis using 1(2) by (subst compressed.simps) simp
  next
    case True
    define r where "r = bmSize - k"
    obtain bs k' where rd: "compress_round bm bmSize k = (bs, k')" by fastforce
    have c: "length (compressed bm bmSize k) = length bs + length (compressed bm bmSize k')" using True rd by (subst compressed.simps) simp
    have k': "k < k'" "k' \<le> bmSize" using compress_round_next [OF True, of bm] rd by auto
    define n where "n = k' - k"
    have n: "k' = k + n" "1 \<le> n" "bmSize - k' = r - n" "n \<le> r" using k' by (auto simp: n_def r_def)
    have ih: "length (compressed bm bmSize k') + (if k' + 1 < bmSize \<and> bm ! k' = bm ! (k' + 1) then 3 else 0)
        \<le> 4 * (r - n) + 3 * ((r - n) div 1984) + 2"
      using "1.IH" [OF True] rd k' n by simp
    have ih': "length (compressed bm bmSize k') \<le> 4 * (r - n) + 3 * ((r - n) div 1984) + 2" using ih by linarith
    have rn: "4 * (r - n) + 4 * n = 4 * r" using n(4) by simp
    have dv: "(r - n) div 1984 \<le> r div 1984" by (simp add: div_le_mono)
    have dv': "(r - n) div 1984 + 1 \<le> r div 1984" if "1984 \<le> n"
    proof -
      have "(r - n) div 1984 \<le> (r - 1984) div 1984" using that by (intro div_le_mono) simp
      also have "\<dots> + 1 = r div 1984" using that n(4) by (simp add: le_div_geq)
      finally show ?thesis by simp
    qed
    have "length bs + length (compressed bm bmSize k') + (if k + 1 < bmSize \<and> bm ! k = bm ! (k + 1) then 3 else 0)
        \<le> 4 * r + 3 * (r div 1984) + 2" (is ?goal)
      using True
    proof (cases rule: compress_round_cases [of k bmSize bm])
      case (Equal m)
      have "k + m = k'" using Equal(4) rd by (metis snd_conv)
      then have m: "m = n" using n(1) by simp
      have "bs = (if eqBytes (bm ! k) then encodeInt (n * 4 + 1) @ [ucast (bm ! k)] else encodeInt (n * 4 + 2) @ encodeBytesOf (unat (bm ! k)))"
        using Equal(4) unfolding rd m by (rule conjunct1 [OF prod.inject [THEN iffD1]])
      then have "length bs \<le> length (encodeInt (n * 4 + 1)) + 1 \<or> length bs = length (encodeInt (n * 4 + 2)) + 4"
        by (cases "eqBytes (bm ! k)") simp_all
      then have "length bs + 3 \<le> 4 * n"
        using length_encode_len(1-4) [of n] Equal(1) m by (cases "n < 56") auto
      then have "length bs + length (compressed bm bmSize k') + 3 \<le> 4 * r + 3 * (r div 1984) + 2" using ih' dv rn by linarith
      then show ?goal by simp
    next
      case Bytes
      then have "length bs = 2" "n = 1" using rd n by (simp_all add: length_encodeInt)
      then have "length bs + length (compressed bm bmSize k') \<le> 4 * r + 3 * (r div 1984) + 2" using ih' dv rn by linarith
      then show ?goal unfolding if_not_P [OF Bytes(2)] by simp
    next
      case (Differ m)
      have "k + m = k'" using Differ(5) rd by (metis snd_conv)
      then have m: "m = n" using n(1) by simp
      have l: "length bs = length (encodeInt (n * 4 + 3)) + 4 * n" using Differ(5) rd by (auto simp: m length_words simp del: upt_Suc)
      have h: "length (encodeInt (n * 4 + 3)) + 3 * ((r - n) div 1984) \<le> 2 + 3 * (r div 1984)"
        using length_encode_len(5,6) [of n] dv dv' by (cases "n < 1984") auto
      have "k' = bmSize \<or> k' + 1 < bmSize \<and> bm ! k' = bm ! (k' + 1)" using Differ(4) unfolding m n(1) .
      then show ?goal
      proof
        assume e: "k' = bmSize"
        then have "compressed bm bmSize k' = []" by (subst compressed.simps) simp
        moreover have "r = n" using e n by (simp add: r_def)
        ultimately show ?goal using l h unfolding if_not_P [OF Differ(3)] by simp
      next
        assume "k' + 1 < bmSize \<and> bm ! k' = bm ! (k' + 1)"
        then have "length (compressed bm bmSize k') + 3 \<le> 4 * (r - n) + 3 * ((r - n) div 1984) + 2" using ih by simp
        then have "length bs + length (compressed bm bmSize k') \<le> 4 * r + 3 * (r div 1984) + 2" using l h rn by linarith
        then show ?goal unfolding if_not_P [OF Differ(3)] by simp
      qed
    qed
    then show ?thesis unfolding c r_def .
  qed
qed

lemma compress_fits: "length (encodeInt bmSize) + length (compressed bm bmSize 0) \<le> bmSize * 4 + 7 + (bmSize div 0x7C0) * 3"
proof -
  have "length (encodeInt bmSize) \<le> 5" by (simp add: length_encodeInt)
  moreover have "length (compressed bm bmSize 0) \<le> 4 * bmSize + 3 * (bmSize div 1984) + 2"
    using compressed_length [of 0 bmSize bm] by simp
  ultimately show ?thesis by simp
qed

subsection \<open>Decompression reads what compression wrote\<close>

lemma unat_byte_word: "unat (ucast (b :: 8 word) :: 32 word) = unat b"
  unfolding unsigned_ucast_eq by (rule take_bit_nat_eq_self) (rule less_le_trans [OF unat_lt], simp)

lemma horner_word:
  assumes "d < 256" "c < 256" "b < 256" "(a :: nat) < 256"
  shows "push_bit 8 (push_bit 8 (push_bit 8 (of_nat a) + of_nat b) + of_nat c) + of_nat d = (of_nat (((a * 256 + b) * 256 + c) * 256 + d) :: 32 word)"
  by (simp add: push_bit_eq_mult algebra_simps)

lemma or_is_plus: "push_bit 8 x OR ucast (b :: 8 word) = push_bit 8 x + (ucast b :: 32 word)"
  by (rule disjunctive_add [symmetric]) (auto simp: bit_simps dest: bit_imp_le_length)

lemma ucast_of_nat_byte: "(ucast (of_nat n :: 8 word) :: 32 word) = of_nat (n mod 256)"
proof -
  have "unat (of_nat n :: 8 word) = n mod 256" by (simp add: unat_of_nat)
  then have "unat (ucast (of_nat n :: 8 word) :: 32 word) = unat (of_nat (n mod 256) :: 32 word)"
    unfolding unat_byte_word by (simp add: unat_of_nat)
  then show ?thesis by (simp only: word_unat_eq_iff)
qed

lemma four_bytes: "x < 2 ^ 32 \<Longrightarrow> (((x div 2 ^ 24 mod 256) * 256 + x div 2 ^ 16 mod 256) * 256 + x div 2 ^ 8 mod 256) * 256 + x mod 256 = (x :: nat)"
proof -
  assume x: "x < 2 ^ 32"
  have "x = x div 256 * 256 + x mod 256" by simp
  moreover have "x div 256 = x div 256 div 256 * 256 + x div 256 mod 256" by simp
  moreover have "x div 256 div 256 = x div 256 div 256 div 256 * 256 + x div 256 div 256 mod 256" by simp
  moreover have "x div 256 div 256 div 256 mod 256 = x div 256 div 256 div 256" using x by (simp add: div_mult2_eq [symmetric])
  ultimately show ?thesis by (simp add: div_mult2_eq [symmetric])
qed

lemma read_big_endian:
  assumes "x < 2 ^ 32"
  shows "foldl (\<lambda>d j. push_bit 8 d + ucast ((pre @ encodeBytesOf x @ rest) ! (length pre + j))) (0 :: 32 word) [0, 1, 2, 3] = of_nat x"
proof -
  have at: "(pre @ encodeBytesOf x @ rest) ! (length pre + j) = encodeBytesOf x ! j" if "j < 4" for j
    using that by (simp add: nth_append)
  have e: "encodeBytesOf x ! 0 = of_nat (x div 2 ^ 24)" "encodeBytesOf x ! 1 = of_nat (x div 2 ^ 16)"
    "encodeBytesOf x ! 2 = of_nat (x div 2 ^ 8)" "encodeBytesOf x ! 3 = of_nat x"
    by (simp_all add: encodeBytesOf_def)
  show ?thesis
    using horner_word [of "x mod 256" "x div 2 ^ 8 mod 256" "x div 2 ^ 16 mod 256" "x div 2 ^ 24 mod 256"] four_bytes [OF assms]
    by (simp only: foldl.simps at e ucast_of_nat_byte) simp
qed

lemma read_word_encoded: "read_word (pre @ encodeBytesOf (unat w) @ rest) (length pre) = w"
  using read_big_endian [of "unat w" pre rest] unat_lt [of w] by (simp add: read_word_def or_is_plus)

lemma read_int_encoded:
  assumes "x < 2 ^ 32"
  shows "read_int (pre @ encodeInt x @ rest) (length pre) = Some (of_nat x, length pre + length (encodeInt x))"
proof -
  consider "x \<le> 223" | "223 < x" "x \<le> 7935" | "7935 < x" by linarith
  then show ?thesis
  proof cases
    case 1
    then have "encodeInt x = [of_nat x]" "(of_nat x :: 32 word) \<le> 223" by (simp_all add: encodeInt_def word_le_nat_alt unat_of_nat)
    then show ?thesis using 1 by (simp add: read_int_def ucast_of_nat_byte)
  next
    case 2
    define q where "q = x div 256"
    have q: "q \<le> 30" "x = 256 * q + x mod 256" using 2 by (simp_all add: q_def)
    have u: "(ucast (of_nat (q + 224) :: 8 word) :: 32 word) = of_nat (q + 224)" unfolding ucast_of_nat_byte using q by simp
    have c: "\<not> (of_nat (q + 224) :: 32 word) \<le> 223" "(of_nat (q + 224) :: 32 word) \<le> 0xFE"
      using q by (simp_all add: word_le_nat_alt unat_of_nat del: of_nat_add)
    have e: "encodeInt x = [of_nat (q + 224), of_nat (x mod 256)]" using 2 by (simp add: encodeInt_def q_def)
    have "(of_nat (q + 224) - 224) * 256 + of_nat (x mod 256) = (of_nat (256 * q + x mod 256) :: 32 word)" by simp
    then show ?thesis unfolding e read_int_def Let_def using u c q(2)
      by (simp add: nth_append ucast_of_nat_byte del: of_nat_add)
  next
    case 3
    then have e: "encodeInt x = 0xFF # encodeBytesOf x" by (simp add: encodeInt_def)
    show ?thesis
      using read_big_endian [OF assms, of "pre @ [0xFF]" rest] unfolding e read_int_def by (simp add: nth_append add.assoc)
  qed
qed

lemma run_header:
  assumes "n * 4 + c < 2 ^ 32" "c < 4"
  shows "unat (drop_bit 2 (of_nat (n * 4 + c) :: 32 word)) = n" "(of_nat (n * 4 + c) :: 32 word) AND 3 = of_nat c"
proof -
  have u: "unat (of_nat (n * 4 + c) :: 32 word) = n * 4 + c" unfolding unat_of_nat using assms(1) by (intro mod_less) simp
  show "unat (drop_bit 2 (of_nat (n * 4 + c) :: 32 word)) = n"
    unfolding unat_drop_bit_eq u using assms(2) by (simp add: drop_bit_eq_div)
  have "(3 :: 32 word) = mask 2" by (simp add: mask_eq_exp_minus_1)
  then have "(of_nat (n * 4 + c) :: 32 word) AND 3 = take_bit 2 (of_nat (n * 4 + c))" by (simp only: take_bit_eq_mask)
  moreover have "unat (take_bit 2 (of_nat (n * 4 + c) :: 32 word)) = c"
    unfolding unsigned_take_bit_eq u using assms(2) by (simp add: take_bit_eq_mod)
  moreover have "unat (of_nat c :: 32 word) = c" unfolding unat_of_nat using assms(2) by (intro mod_less) simp
  ultimately show "(of_nat (n * 4 + c) :: 32 word) AND 3 = of_nat c" by (simp only: word_unat_eq_iff)
qed

text \<open>A word of four equal bytes is spread from one of them.\<close>

lemma spread_byte:
  assumes "eqBytes w"
  defines "b \<equiv> ucast (ucast w :: 8 word) :: 32 word"
  shows "(b OR push_bit 8 b) OR push_bit 16 (b OR push_bit 8 b) = w"
proof (rule bit_eqI)
  fix i assume "possible_bit TYPE(32 word) i"
  then have i: "i < 32" by simp
  have mask8: "(0xFF :: 32 word) = mask 8" by (simp add: mask_eq_exp_minus_1)
  have same: "bit w (j + k) \<longleftrightarrow> bit w j" if "j < 8" "drop_bit k w AND 0xFF = w AND 0xFF" for j k
  proof -
    have "bit (drop_bit k w AND 0xFF) j \<longleftrightarrow> bit (w AND 0xFF) j" using that(2) by simp
    then show ?thesis using that(1) unfolding mask8 by (simp add: bit_and_iff bit_mask_iff bit_drop_bit_eq add.commute)
  qed
  have b: "bit b j \<longleftrightarrow> j < 8 \<and> bit w j" for j unfolding b_def by (auto simp: bit_simps)
  have eq: "drop_bit 8 w AND 0xFF = w AND 0xFF" "drop_bit 16 w AND 0xFF = w AND 0xFF" "drop_bit 24 w AND 0xFF = w AND 0xFF"
    using assms(1) by (simp_all add: eqBytes_def)
  have byte: "bit ((b OR push_bit 8 b) OR push_bit 16 (b OR push_bit 8 b)) i \<longleftrightarrow> bit w (i mod 8)"
  proof -
    consider "i < 8" | "8 \<le> i" "i < 16" | "16 \<le> i" "i < 24" | "24 \<le> i" by linarith
    then show ?thesis
    proof cases
      case 1 then show ?thesis by (simp add: bit_or_iff bit_push_bit_iff b)
    next
      case 2
      then have "i mod 8 = i - 8" "i - 8 < 8" by presburger+
      then show ?thesis using 2 by (simp add: bit_or_iff bit_push_bit_iff b)
    next
      case 3
      then have "i mod 8 = i - 16" "i - 16 < 8" "\<not> i - 8 < 8" by presburger+
      then show ?thesis using 3 by (simp add: bit_or_iff bit_push_bit_iff b)
    next
      case 4
      then have "i mod 8 = i - 24" "i - 24 < 8" "\<not> i - 8 < 8" "\<not> i - 16 < 8" using i by presburger+
      moreover have "i - 16 - 8 = i - 24" by simp
      ultimately show ?thesis using 4 i by (simp add: bit_or_iff bit_push_bit_iff b)
    qed
  qed
  have "bit w i \<longleftrightarrow> bit w (i mod 8)"
  proof -
    consider "i div 8 = 0" | "i div 8 = 1" | "i div 8 = 2" | "i div 8 = 3" using i by linarith
    then show ?thesis
    proof cases
      case 1 then show ?thesis by simp
    next
      case 2
      then have "i = i mod 8 + 8" by presburger
      then show ?thesis using same [OF _ eq(1), of "i mod 8"] by simp
    next
      case 3
      then have "i = i mod 8 + 16" by presburger
      then show ?thesis using same [OF _ eq(2), of "i mod 8"] by simp
    next
      case 4
      then have "i = i mod 8 + 24" by presburger
      then show ?thesis using same [OF _ eq(3), of "i mod 8"] by simp
    qed
  qed
  then show "bit ((b OR push_bit 8 b) OR push_bit 16 (b OR push_bit 8 b)) i \<longleftrightarrow> bit w i" using byte by blast
qed

lemma fill_closed: "k + n \<le> length bm \<Longrightarrow> fill n w k bm = Some (take k bm @ replicate n w @ drop (k + n) bm)"
proof (induction n w k bm rule: fill.induct)
  case (2 n w k bm)
  then have "fill n w (k + 1) (bm[k := w]) = Some (take (k + 1) (bm[k := w]) @ replicate n w @ drop (k + 1 + n) (bm[k := w]))"
    by (simp add: store_lane_def)
  then show ?case using 2(2) by (simp add: store_lane_def take_Suc_conv_app_nth)
qed simp

lemma copy_words_closed:
  "k + length ws \<le> length bm \<Longrightarrow> i = length pre \<Longrightarrow>
   copy_words (length ws) (pre @ concat (map (\<lambda>w. encodeBytesOf (unat w)) ws) @ rest) i k bm
     = Some (True, i + 4 * length ws, take k bm @ ws @ drop (k + length ws) bm)"
proof (induction ws arbitrary: pre i k bm)
  case (Cons w ws)
  let ?ba = "pre @ encodeBytesOf (unat w) @ concat (map (\<lambda>w. encodeBytesOf (unat w)) ws) @ rest"
  have r: "read_word ?ba i = w" using read_word_encoded [of pre w] Cons.prems(2) by simp
  have ih: "copy_words (length ws) ?ba (i + 4) (k + 1) (bm[k := w])
      = Some (True, i + 4 + 4 * length ws, take (k + 1) (bm[k := w]) @ ws @ drop (k + 1 + length ws) (bm[k := w]))"
    using Cons.IH [of "k + 1" "bm[k := w]" "i + 4" "pre @ encodeBytesOf (unat w)"] Cons.prems by simp
  show ?case using ih r Cons.prems by (simp add: store_lane_def take_Suc_conv_app_nth)
qed simp

text \<open>A round of compression is undone by a round of decompression.\<close>

lemma decompress_encoded:
  assumes "n * 4 + c < 2 ^ 32" "c < 4" "nlanes \<le> pastEnd"
  shows "decompress_round (pre @ encodeInt (n * 4 + c) @ rest) pastEnd nlanes (length pre) k bm
    = decompress_run (pre @ encodeInt (n * 4 + c) @ rest) pastEnd nlanes n (of_nat c) (length pre + length (encodeInt (n * 4 + c))) k bm"
  unfolding decompress_round_def read_int_encoded [OF assms(1)] option.case prod.case run_header [OF assms(1,2)] ..

lemma slice_equal:
  assumes "k + n \<le> length ws" "\<And>m. k \<le> m \<Longrightarrow> m < k + n \<Longrightarrow> ws ! m = w"
  shows "take n (drop k ws) = replicate n w"
  using assms by (intro nth_equalityI) simp_all

lemma slice_words: "k + n \<le> length ws \<Longrightarrow> map (\<lambda>m. f (ws ! m)) [k..<k + n] = map f (take n (drop k ws))"
  by (intro nth_equalityI) simp_all

definition restored :: "32 word list \<Rightarrow> nat \<Rightarrow> nat \<Rightarrow> 32 word list \<Rightarrow> 32 word list" where
  "restored ws k k' bm = take k bm @ take (k' - k) (drop k ws) @ drop k' bm"

lemma decompress_byte_run:
  assumes "n * 4 + 1 < 2 ^ 32" "nlanes \<le> pastEnd" "k + n \<le> nlanes" "nlanes \<le> length bm" "eqBytes w"
  shows "decompress_round (pre @ (encodeInt (n * 4 + 1) @ [ucast w]) @ rest) pastEnd nlanes (length pre) k bm
    = Some (Next (length pre + length (encodeInt (n * 4 + 1)) + 1) (k + n) (take k bm @ replicate n w @ drop (k + n) bm))"
proof -
  have e: "pre @ (encodeInt (n * 4 + 1) @ [ucast w]) @ rest = pre @ encodeInt (n * 4 + 1) @ (ucast w # rest)" by simp
  have at: "(pre @ encodeInt (n * 4 + 1) @ (ucast w # rest)) ! (length pre + length (encodeInt (n * 4 + 1))) = ucast w"
    by (simp add: nth_append)
  have fit: "k + n \<le> length bm" "\<not> k + n > nlanes" using assms by auto
  have r: "decompress_run (pre @ encodeInt (n * 4 + 1) @ (ucast w # rest)) pastEnd nlanes n 1 (length pre + length (encodeInt (n * 4 + 1))) k bm
      = map_option (Next (length pre + length (encodeInt (n * 4 + 1)) + 1) (k + n)) (fill n w k bm)"
    using fit(2) unfolding decompress_run_def Let_def at spread_byte [OF assms(5)] by simp
  show ?thesis
    unfolding e by (subst decompress_encoded [OF assms(1) _ assms(2)], simp, unfold of_nat_1 r fill_closed [OF fit(1)] option.map, rule refl)
qed

lemma decompress_compressed_round:
  assumes "k < bmSize" "bmSize \<le> length ws" "bmSize < 2 ^ 30" "bmSize \<le> nlanes" "nlanes \<le> pastEnd" "nlanes \<le> length bm"
    "compress_round ws bmSize k = (bs, k')"
  shows "decompress_round (pre @ bs @ rest) pastEnd nlanes (length pre) k bm = Some (Next (length pre + length bs) k' (restored ws k k' bm))"
  using assms(1)
proof (cases rule: compress_round_cases [of k bmSize ws])
  case (Equal n)
  have k': "k' = k + n" using Equal(4) assms(7) by (metis snd_conv)
  have sl: "take n (drop k ws) = replicate n (ws ! k)" by (rule slice_equal [OF _ Equal(3)]) (use Equal(2) assms(2) in simp)
  have fit: "k + n \<le> length bm" "\<not> (k + n > nlanes)" using Equal(2) assms by auto
  show ?thesis
  proof (cases "eqBytes (ws ! k)")
    case True
    have bs: "bs = encodeInt (n * 4 + 1) @ [ucast (ws ! k)]" using Equal(4) assms(7) True by simp
    have "n * 4 + 1 < 2 ^ 32" using Equal(2) assms(3) by simp
    moreover have "k + n \<le> nlanes" using fit(2) by linarith
    ultimately have d: "decompress_round (pre @ bs @ rest) pastEnd nlanes (length pre) k bm
        = Some (Next (length pre + length (encodeInt (n * 4 + 1)) + 1) (k + n) (take k bm @ replicate n (ws ! k) @ drop (k + n) bm))"
      unfolding bs by (rule decompress_byte_run [OF _ assms(5) _ assms(6) True])
    have "length bs = length (encodeInt (n * 4 + 1)) + 1" "k' - k = n" unfolding bs k' by simp_all
    then show ?thesis unfolding d restored_def k' by (simp only: sl add.assoc add_diff_cancel_left')
  next
    case False
    have bs: "bs = encodeInt (n * 4 + 2) @ encodeBytesOf (unat (ws ! k))" using Equal(4) assms(7) False by simp
    have e: "pre @ bs @ rest = pre @ encodeInt (n * 4 + 2) @ (encodeBytesOf (unat (ws ! k)) @ rest)" by (simp add: bs)
    have at: "read_word (pre @ encodeInt (n * 4 + 2) @ (encodeBytesOf (unat (ws ! k)) @ rest)) (length pre + length (encodeInt (n * 4 + 2))) = ws ! k"
      using read_word_encoded [of "pre @ encodeInt (n * 4 + 2)"] by simp
    let ?ba = "pre @ encodeInt (n * 4 + 2) @ (encodeBytesOf (unat (ws ! k)) @ rest)"
    have "decompress_run ?ba pastEnd nlanes n 2 (length pre + length (encodeInt (n * 4 + 2))) k bm
        = map_option (Next (length pre + length (encodeInt (n * 4 + 2)) + 4) (k + n)) (fill n (ws ! k) k bm)"
      using fit(2) unfolding decompress_run_def Let_def at by simp
    then have r: "decompress_run ?ba pastEnd nlanes n (of_nat 2) (length pre + length (encodeInt (n * 4 + 2))) k bm
        = Some (Next (length pre + length bs) k' (restored ws k k' bm))"
      unfolding fill_closed [OF fit(1)] bs restored_def k' add_diff_cancel_left' sl by (simp add: add.assoc)
    have "n * 4 + 2 < 2 ^ 32" using Equal(2) assms(3) by simp
    then show ?thesis unfolding e by (subst decompress_encoded [OF _ _ assms(5)]) (simp_all only: r)
  qed
next
  case Bytes
  have k': "k' = k + 1" and bs: "bs = encodeInt (1 * 4 + 1) @ [ucast (ws ! k)]" using Bytes(3) assms(7) by simp_all
  have fit: "k + 1 \<le> length bm" "\<not> (k + 1 > nlanes)" using assms by auto
  have sl: "take 1 (drop k ws) = [ws ! k]" using assms(1,2) by (simp add: take_Suc_conv_app_nth)
  have "(1 :: nat) * 4 + 1 < 2 ^ 32" by simp
  moreover have "k + 1 \<le> nlanes" using fit(2) by linarith
  ultimately have d: "decompress_round (pre @ bs @ rest) pastEnd nlanes (length pre) k bm
      = Some (Next (length pre + length (encodeInt (1 * 4 + 1)) + 1) (k + 1) (take k bm @ replicate 1 (ws ! k) @ drop (k + 1) bm))"
    unfolding bs by (rule decompress_byte_run [OF _ assms(5) _ assms(6) Bytes(1)])
  have "length bs = length (encodeInt (1 * 4 + 1)) + 1" "replicate 1 (ws ! k) = take 1 (drop k ws)" unfolding bs sl by simp_all
  then show ?thesis unfolding d restored_def k' by (simp only: add.assoc add_diff_cancel_left')
next
  case (Differ n)
  have k': "k' = k + n" using Differ(5) assms(7) by (metis snd_conv)
  have fit: "k + n \<le> length bm" "\<not> (k + n > nlanes)" "k + n \<le> length ws" using Differ(2) assms by auto
  let ?ws = "take n (drop k ws)"
  have bs: "bs = encodeInt (n * 4 + 3) @ concat (map (\<lambda>w. encodeBytesOf (unat w)) ?ws)"
    using Differ(5) assms(7) slice_words [OF fit(3), of "\<lambda>w. encodeBytesOf (unat w)"] by simp
  have l: "length ?ws = n" using fit(3) by simp
  have e: "pre @ bs @ rest = pre @ encodeInt (n * 4 + 3) @ (concat (map (\<lambda>w. encodeBytesOf (unat w)) ?ws) @ rest)" by (simp add: bs)
  have c: "copy_words n (pre @ encodeInt (n * 4 + 3) @ (concat (map (\<lambda>w. encodeBytesOf (unat w)) ?ws) @ rest)) (length pre + length (encodeInt (n * 4 + 3))) k bm
      = Some (True, length pre + length (encodeInt (n * 4 + 3)) + 4 * n, take k bm @ ?ws @ drop (k + n) bm)"
    using copy_words_closed [of k ?ws bm "length pre + length (encodeInt (n * 4 + 3))" "pre @ encodeInt (n * 4 + 3)" rest] fit(1) l by simp
  have lb: "length bs = length (encodeInt (n * 4 + 3)) + 4 * n"
    unfolding bs using length_words [of unat ?ws] l by simp
  let ?ba = "pre @ encodeInt (n * 4 + 3) @ (concat (map (\<lambda>w. encodeBytesOf (unat w)) ?ws) @ rest)"
  have r: "decompress_run ?ba pastEnd nlanes n (of_nat 3) (length pre + length (encodeInt (n * 4 + 3))) k bm
      = Some (Next (length pre + length bs) k' (restored ws k k' bm))"
    using fit(2) unfolding decompress_run_def c lb restored_def k' add_diff_cancel_left' by (simp add: add.assoc)
  have "n * 4 + 3 < 2 ^ 32" using Differ(2) assms(3) by simp
  then show ?thesis unfolding e by (subst decompress_encoded [OF _ _ assms(5)]) (simp_all only: r)
qed

lemma length_restored: "k \<le> k' \<Longrightarrow> k' \<le> length ws \<Longrightarrow> k' \<le> length bm \<Longrightarrow> length (restored ws k k' bm) = length bm"
  by (simp add: restored_def)

lemma restored_restored:
  "k \<le> k' \<Longrightarrow> k' \<le> k'' \<Longrightarrow> k'' \<le> length ws \<Longrightarrow> k'' \<le> length bm \<Longrightarrow>
   restored ws k' k'' (restored ws k k' bm) = restored ws k k'' bm"
  by (rule nth_equalityI) (auto simp: restored_def nth_append)

lemma compress_round_not_Nil: "fst (compress_round bm bmSize k) \<noteq> []"
  by (simp add: compress_round_def Let_def encodeInt_def)

lemma decompress_loop_compressed:
  "k \<le> bmSize \<Longrightarrow> bmSize \<le> length ws \<Longrightarrow> bmSize < 2 ^ 30 \<Longrightarrow> bmSize \<le> nlanes \<Longrightarrow> nlanes \<le> pastEnd \<Longrightarrow> nlanes \<le> length bm \<Longrightarrow>
   decompress_loop (pre @ compressed ws bmSize k) pastEnd nlanes (length pre) k bm = Some (True, restored ws k bmSize bm)"
proof (induction ws bmSize k arbitrary: pre bm rule: compressed.induct)
  case (1 ws bmSize k)
  show ?case
  proof (cases "k < bmSize")
    case False
    then have "k = bmSize" "compressed ws bmSize k = []" using 1(2) by (auto simp: compressed.simps)
    then show ?thesis by (subst decompress_loop.simps) (simp add: restored_def)
  next
    case True
    obtain bs k' where r: "compress_round ws bmSize k = (bs, k')" by fastforce
    have k': "k < k'" "k' \<le> bmSize" using compress_round_next [OF True, of ws] r by auto
    have c: "compressed ws bmSize k = bs @ compressed ws bmSize k'" using True r by (subst compressed.simps) simp
    have d: "decompress_round (pre @ bs @ compressed ws bmSize k') pastEnd nlanes (length pre) k bm
        = Some (Next (length pre + length bs) k' (restored ws k k' bm))"
      by (rule decompress_compressed_round [OF True 1(3-7) r])
    have "length pre < length (pre @ bs @ compressed ws bmSize k')"
    proof -
      have "bs \<noteq> []" using compress_round_not_Nil [of ws bmSize k] r by simp
      then show ?thesis by simp
    qed
    then have "decompress_loop (pre @ compressed ws bmSize k) pastEnd nlanes (length pre) k bm
        = decompress_loop ((pre @ bs) @ compressed ws bmSize k') pastEnd nlanes (length (pre @ bs)) k' (restored ws k k' bm)"
      unfolding c using d by (subst decompress_loop.simps) simp
    also have "\<dots> = Some (True, restored ws k' bmSize (restored ws k k' bm))"
      using "1.IH" [OF True, of "restored ws k k' bm" "pre @ bs"] r k' 1(3-7) by (simp add: length_restored)
    finally show ?thesis using restored_restored [of k k' bmSize ws bm] k' 1(3-7) by simp
  qed
qed

subsection \<open>The properties\<close>

text \<open>
  C30: A bitmap compressed and decompressed is itself: whatever bitmap of less than 2^30 words is
  compressed into a destination the primitive accepts, it writes only inside the destination, and
  the bytes it answers, read from behind the size in front of them, fill another bitmap of that size
  with the same words, whatever stood there.
\<close>

theorem compress_decompress:
  assumes "is_bits bm" "st_size bm = length (lanes bm)" "length (lanes bm) < 2 ^ 30"
    "is_bytes ba" "\<not> bytes_immutable ba" "st_size bm * 4 + 7 + (st_size bm div 0x7C0) * 3 \<le> length (contents ba)"
    "is_bits bm'" "\<not> bits_immutable bm'" "st_size bm' = st_size bm" "length (lanes bm') = length (lanes bm)"
  shows "\<exists>i ba'. primitiveCompressToByteArray bm ba = Some (PrimReturn i, ba')
    \<and> primitiveDecompressFromByteArray bm' (ba'\<lparr>contents := take i (contents ba')\<rparr>) (Some (int (length (encodeInt (st_size bm))) + 1))
      = Some (PrimReturn (), bm'\<lparr>lanes := lanes bm\<rparr>)"
proof -
  let ?ws = "lanes bm" and ?n = "length (lanes bm)"
  let ?h = "encodeInt ?n" and ?c = "compressed (lanes bm) (length (lanes bm)) 0"
  have fit: "length ?h + length ?c \<le> length (contents ba)" using compress_fits [of ?n ?ws] assms(2,6) by simp
  define b where "b = ?h @ drop (length ?h) (contents ba)"
  have b: "put_bytes (contents ba) 0 ?h = Some b" unfolding b_def using put_bytes_fits [of 0 ?h "contents ba"] fit by simp
  have "length b = length (contents ba)" using fit by (simp add: b_def)
  then have l: "compress_loop ?ws ?n 0 (length ?h) b = Some (length ?h + length ?c, ?h @ ?c @ drop (length ?h + length ?c) b)"
    using compress_loop_fits [of "length ?h" ?ws ?n 0 b] fit by (simp add: b_def)
  let ?out = "?h @ ?c @ drop (length ?h + length ?c) b"
  have comp: "primitiveCompressToByteArray bm ba = Some (PrimReturn (length ?h + length ?c), ba\<lparr>contents := ?out\<rparr>)"
    using assms(1-6) b l by (simp add: primitiveCompressToByteArray_def byteSizeOf_def Let_def)
  have "min (byteSizeOf bm' div 4) ?n = ?n" using assms(10) by (simp add: byteSizeOf_def)
  moreover have "decompress_loop (?h @ ?c) ?n ?n (length ?h) 0 (lanes bm') = Some (True, ?ws)"
    using decompress_loop_compressed [of 0 ?n ?ws ?n ?n "lanes bm'" ?h] assms(3,10) by (simp add: restored_def)
  ultimately have "primitiveDecompressFromByteArray bm' (ba\<lparr>contents := ?h @ ?c\<rparr>) (Some (int (length ?h) + 1))
      = Some (PrimReturn (), bm'\<lparr>lanes := ?ws\<rparr>)"
    using assms by (simp add: primitiveDecompressFromByteArray_def Let_def)
  then show ?thesis using comp assms(2) by simp
qed

lemma compress_decompress_witness:
  "\<exists>i ba'. primitiveCompressToByteArray \<lparr>is_bits = True, bits_immutable = False, lanes = [7, 7, 0x01020304, 0x05050505], rest_bytes = 0, st_size = 4\<rparr>
       \<lparr>is_bytes = True, bytes_immutable = False, contents = replicate 30 0\<rparr> = Some (PrimReturn i, ba')
    \<and> primitiveDecompressFromByteArray \<lparr>is_bits = True, bits_immutable = False, lanes = [1, 2, 3, 4], rest_bytes = 0, st_size = 4\<rparr>
       (ba'\<lparr>contents := take i (contents ba')\<rparr>) (Some 2)
      = Some (PrimReturn (), \<lparr>is_bits = True, bits_immutable = False, lanes = [7, 7, 0x01020304, 0x05050505], rest_bytes = 0, st_size = 4\<rparr>)"
  using compress_decompress [of "\<lparr>is_bits = True, bits_immutable = False, lanes = [7, 7, 0x01020304, 0x05050505], rest_bytes = 0, st_size = 4\<rparr>"
      "\<lparr>is_bytes = True, bytes_immutable = False, contents = replicate 30 0\<rparr>"
      "\<lparr>is_bits = True, bits_immutable = False, lanes = [1, 2, 3, 4], rest_bytes = 0, st_size = 4\<rparr>"]
  by (simp add: encodeInt_def)

text \<open>
  Decompression is safe on any bytes: whatever the byte array holds, from whatever index, and
  whatever the elements of the target are, it stores only inside the target and it ends, with the
  target as large as before.
\<close>

theorem decompress_stays_inside:
  assumes "rest_bytes bm < 4"
  shows "\<exists>r bm'. primitiveDecompressFromByteArray bm ba index = Some (r, bm') \<and> length (lanes bm') = length (lanes bm)
     \<and> rest_bytes bm' = rest_bytes bm \<and> st_size bm' = st_size bm"
proof (cases index)
  case None
  then show ?thesis by (simp add: primitiveDecompressFromByteArray_def)
next
  case (Some ix)
  let ?n = "min (byteSizeOf bm div 4) (st_size bm)"
  have "?n \<le> length (lanes bm)" using assms by (simp add: byteSizeOf_def)
  then obtain p ws where d: "decompress_loop (contents ba) (st_size bm) ?n (nat (ix - 1)) 0 (lanes bm) = Some (p, ws)"
    "length ws = length (lanes bm)"
    using decompress_loop_keeps [of ?n "lanes bm" "st_size bm"] by force
  show ?thesis using d Some by (cases p) (auto simp: primitiveDecompressFromByteArray_def Let_def)
qed

text \<open>Ten lanes of code 1 into a bitmap of two.\<close>

lemma decompress_stays_inside_witness:
  "\<exists>r bm'. primitiveDecompressFromByteArray \<lparr>is_bits = True, bits_immutable = False, lanes = [1, 2], rest_bytes = 3, st_size = 11\<rparr>
       \<lparr>is_bytes = True, bytes_immutable = False, contents = [41, 7]\<rparr> (Some 1) = Some (r, bm') \<and> length (lanes bm') = 2
     \<and> rest_bytes bm' = 3 \<and> st_size bm' = 11"
  using decompress_stays_inside [of "\<lparr>is_bits = True, bits_immutable = False, lanes = [1, 2], rest_bytes = 3, st_size = 11\<rparr>"]
  by (simp add: numeral_2_eq_2)

end
