(* ===== verification/DsaSha.thy ===== *)
theory DsaSha
  imports MiscPrims
begin

text \<open>
  The secure hash primitives of \<open>DSAPrims.c\<close>: \<open>primitiveExpandBlock\<close> and \<open>primitiveHashBlock\<close>, on a
  machine whose \<open>usqInt\<close> has 64 bits (the shifts and the sums run in 64 bits and are cut to 32 when they
  are stored). The theorems compare them with the compression function of FIPS 180-1.
\<close>

subsection \<open>The primitives\<close>

text \<open>What the checks look at in an argument: \<open>isWords\<close>, \<open>isOopImmutable\<close> and its elements.\<close>

record words_oop =
  is_words :: bool
  words_immutable :: bool
  elements :: "32 word list"

datatype dsa_error = BadNumArgs | BadArgument | NoModification

datatype 'a dsa_result = Fails dsa_error | Succeeds 'a

text \<open>\<open>leftRotate:by:\<close>, still in 64 bits.\<close>

definition leftRotate :: "32 word \<Rightarrow> nat \<Rightarrow> 64 word" where
  "leftRotate v n = push_bit n (ucast v) OR drop_bit (32 - n) (ucast v)"

definition read_be :: "8 word list \<Rightarrow> nat \<Rightarrow> 32 word" where
  "read_be bytes src = ucast
     (((push_bit 24 (ucast (bytes ! src)) + push_bit 16 (ucast (bytes ! (src + 1)))) + push_bit 8 (ucast (bytes ! (src + 2))))
        + ucast (bytes ! (src + 3)) :: 64 word)"

fun expand_first :: "8 word list \<Rightarrow> 32 word list \<Rightarrow> nat \<Rightarrow> nat \<Rightarrow> nat \<Rightarrow> 32 word list" where
  "expand_first bytes ws i src 0 = ws"
| "expand_first bytes ws i src (Suc left) = expand_first bytes (ws[i := read_be bytes src]) (i + 1) (src + 4) left"

fun expand_rest :: "32 word list \<Rightarrow> nat \<Rightarrow> nat \<Rightarrow> 32 word list" where
  "expand_rest ws i 0 = ws"
| "expand_rest ws i (Suc left) =
     (let v = ((ws ! (i - 3) XOR ws ! (i - 8)) XOR ws ! (i - 14)) XOR ws ! (i - 16);
          v = ucast (leftRotate v 1)
      in expand_rest (ws[i := v]) (i + 1) left)"

definition primitiveExpandBlock :: "nat \<Rightarrow> bytes_oop \<Rightarrow> words_oop \<Rightarrow> unit dsa_result \<times> words_oop" where
  "primitiveExpandBlock methodArgumentCount buf expanded =
     (if methodArgumentCount \<noteq> 2 then (Fails BadNumArgs, expanded)
      else if \<not> (is_words expanded \<and> is_bytes buf \<and> length (elements expanded) = 80 \<and> length (contents buf) = 64)
      then (Fails BadArgument, expanded)
      else if words_immutable expanded then (Fails NoModification, expanded)
      else let ws = expand_first (contents buf) (elements expanded) 0 0 16;
               ws = expand_rest ws 16 64
           in (Succeeds (), expanded\<lparr>elements := ws\<rparr>))"

type_synonym sha_state = "32 word \<times> 32 word \<times> 32 word \<times> 32 word \<times> 32 word"

text \<open>The body that the four loops share; they differ in the constant and in the function of \<open>b\<close>, \<open>c\<close>, \<open>d\<close>.\<close>

definition hash_step :: "32 word \<Rightarrow> (32 word \<Rightarrow> 32 word \<Rightarrow> 32 word \<Rightarrow> 32 word) \<Rightarrow> 32 word \<Rightarrow> sha_state \<Rightarrow> sha_state" where
  "hash_step k f w st =
     (let (a, b, c, d, e) = st;
          tmp = ucast (((ucast (k + f b c d) + leftRotate a 5) + ucast e) + ucast w);
          e = d;
          d = c;
          c = ucast (leftRotate b 30);
          b = a;
          a = tmp
      in (a, b, c, d, e))"

definition hash_rounds :: "32 word list \<Rightarrow> sha_state \<Rightarrow> sha_state" where
  "hash_rounds buf st =
     (let st = fold (hash_step 1518500249 (\<lambda>b c d. (b AND c) OR (NOT b AND d))) (take 20 buf) st;
          st = fold (hash_step 1859775393 (\<lambda>b c d. (b XOR c) XOR d)) (take 20 (drop 20 buf)) st;
          st = fold (hash_step 2400959708 (\<lambda>b c d. ((b AND c) OR (b AND d)) OR (c AND d))) (take 20 (drop 40 buf)) st
      in fold (hash_step 3395469782 (\<lambda>b c d. (b XOR c) XOR d)) (take 20 (drop 60 buf)) st)"

definition primitiveHashBlock :: "nat \<Rightarrow> words_oop \<Rightarrow> words_oop \<Rightarrow> unit dsa_result \<times> words_oop" where
  "primitiveHashBlock methodArgumentCount buf state =
     (if methodArgumentCount \<noteq> 2 then (Fails BadNumArgs, state)
      else if \<not> (is_words state \<and> is_words buf \<and> length (elements state) = 5 \<and> length (elements buf) = 80)
      then (Fails BadArgument, state)
      else if words_immutable state then (Fails NoModification, state)
      else let s = elements state;
               (a, b, c, d, e) = hash_rounds (elements buf) (s ! 0, s ! 1, s ! 2, s ! 3, s ! 4)
           in (Succeeds (), state\<lparr>elements := [s ! 0 + a, s ! 1 + b, s ! 2 + c, s ! 3 + d, s ! 4 + e]\<rparr>))"

definition primitiveHasSecureHashPrimitive :: "nat \<Rightarrow> bool dsa_result" where
  "primitiveHasSecureHashPrimitive methodArgumentCount =
     (if methodArgumentCount \<noteq> 0 then Fails BadNumArgs else Succeeds True)"

subsection \<open>FIPS 180-1\<close>

text \<open>
  The reference, from the standard: the message schedule \<open>W\<close> by recursion, the functions \<open>f\<close> and the
  constants \<open>K\<close> of a round, and the rounds from 0 to 79.
\<close>

fun fips_W :: "(nat \<Rightarrow> 32 word) \<Rightarrow> nat \<Rightarrow> 32 word" where
  "fips_W M t = (if t < 16 then M t
     else word_rotl 1 (fips_W M (t - 3) XOR fips_W M (t - 8) XOR fips_W M (t - 14) XOR fips_W M (t - 16)))"

declare fips_W.simps [simp del]

definition fips_f :: "nat \<Rightarrow> 32 word \<Rightarrow> 32 word \<Rightarrow> 32 word \<Rightarrow> 32 word" where
  "fips_f t B C D =
     (if t < 20 then (B AND C) OR (NOT B AND D)
      else if t < 40 then B XOR C XOR D
      else if t < 60 then (B AND C) OR (B AND D) OR (C AND D)
      else B XOR C XOR D)"

definition fips_K :: "nat \<Rightarrow> 32 word" where
  "fips_K t = (if t < 20 then 0x5A827999 else if t < 40 then 0x6ED9EBA1 else if t < 60 then 0x8F1BBCDC else 0xCA62C1D6)"

fun fips_rounds :: "(nat \<Rightarrow> 32 word) \<Rightarrow> nat \<Rightarrow> sha_state \<Rightarrow> sha_state" where
  "fips_rounds W 0 st = st"
| "fips_rounds W (Suc t) st =
     (case fips_rounds W t st of (A, B, C, D, E) \<Rightarrow>
        (word_rotl 5 A + fips_f t B C D + E + W t + fips_K t, A, word_rotl 30 B, C, D))"

text \<open>The word \<open>t\<close> of a block, its bytes most significant first.\<close>

definition fips_M :: "8 word list \<Rightarrow> nat \<Rightarrow> 32 word" where
  "fips_M block t = (let b = (\<lambda>i. unat (block ! (4 * t + i)))
     in of_nat (b 0 * 2 ^ 24 + b 1 * 2 ^ 16 + b 2 * 2 ^ 8 + b 3))"

definition fips_compress :: "8 word list \<Rightarrow> sha_state \<Rightarrow> sha_state" where
  "fips_compress block H =
     (case (H, fips_rounds (fips_W (fips_M block)) 80 H) of
        ((H0, H1, H2, H3, H4), (A, B, C, D, E)) \<Rightarrow> (H0 + A, H1 + B, H2 + C, H3 + D, H4 + E))"

subsection \<open>The rotations\<close>

lemma leftRotate_rotl:
  assumes "0 < n" "n < 32"
  shows "(ucast (leftRotate v n) :: 32 word) = word_rotl n v"
proof (rule bit_word_eqI)
  fix i assume "i < LENGTH(32)"
  then have i: "i < 32" by simp
  have "(i + (32 - n)) mod 32 = (if i < n then i + (32 - n) else i - n)"
  proof (cases "i < n")
    case False
    then have "i + (32 - n) = (i - n) + 32" using assms by simp
    moreover have "i - n < 32" using i by simp
    ultimately show ?thesis using False by (simp only: mod_add_self2 mod_less if_False)
  qed (use i assms in simp)
  then show "bit (ucast (leftRotate v n) :: 32 word) i \<longleftrightarrow> bit (word_rotl n v) i"
    using i assms by (auto simp: leftRotate_def bit_ucast_iff bit_or_iff bit_push_bit_iff bit_drop_bit_eq bit_word_rotl_iff
        add.commute [of i 32] dest: bit_imp_le_length)
qed

lemma ucast_add_32: "(ucast (x + y :: 64 word) :: 32 word) = ucast x + ucast y"
  by (simp add: word_unat_eq_iff unsigned_ucast_eq take_bit_eq_mod unat_word_ariths mod_mod_cancel mod_simps)

subsection \<open>The schedule\<close>

lemma ucast_push_byte: "(ucast (push_bit k (ucast (b :: 8 word)) :: 64 word) :: 32 word) = ucast b * 2 ^ k"
proof -
  have "(ucast (push_bit k (ucast b) :: 64 word) :: 32 word) = push_bit k (ucast b)"
    by (rule bit_word_eqI) (auto simp: bit_ucast_iff bit_push_bit_iff)
  then show ?thesis by (simp add: push_bit_eq_mult)
qed

lemma ucast_twice: "(ucast (ucast x :: 64 word) :: 32 word) = ucast (x :: 'a::len word)"
  by (rule bit_word_eqI) (auto simp: bit_ucast_iff)

lemma read_be_M: "read_be block (4 * t) = fips_M block t"
  by (simp add: read_be_def fips_M_def Let_def ucast_add_32 ucast_push_byte ucast_twice)

lemma expand_first_val:
  "i + left \<le> length ws \<Longrightarrow> src = 4 * i \<Longrightarrow> (\<forall>t < i. ws ! t = fips_M block t) \<Longrightarrow>
   length (expand_first block ws i src left) = length ws \<and>
   (\<forall>t < i + left. expand_first block ws i src left ! t = fips_M block t)"
proof (induction block ws i src left rule: expand_first.induct)
  case (2 bytes ws i src left)
  have "\<forall>t < i + 1. ws[i := read_be bytes src] ! t = fips_M bytes t"
    using 2(2-4) by (auto simp: nth_list_update less_Suc_eq read_be_M)
  then show ?case using 2 by simp
qed simp

lemma expand_rest_val:
  "16 \<le> i \<Longrightarrow> i + left \<le> length ws \<Longrightarrow> (\<forall>t < i. ws ! t = fips_W M t) \<Longrightarrow>
   length (expand_rest ws i left) = length ws \<and> (\<forall>t < i + left. expand_rest ws i left ! t = fips_W M t)"
proof (induction ws i left rule: expand_rest.induct)
  case (2 ws i left)
  define v where "v = ((ws ! (i - 3) XOR ws ! (i - 8)) XOR ws ! (i - 14)) XOR ws ! (i - 16)"
  have "fips_W M i = word_rotl 1 (fips_W M (i - 3) XOR fips_W M (i - 8) XOR fips_W M (i - 14) XOR fips_W M (i - 16))"
    using "2.prems"(1) by (subst fips_W.simps) simp
  also have "\<dots> = ucast (leftRotate v 1)"
    using "2.prems"(1,3) by (simp add: leftRotate_rotl v_def xor.assoc)
  finally have "\<forall>t < i + 1. ws[i := ucast (leftRotate v 1)] ! t = fips_W M t"
    using "2.prems" by (auto simp: nth_list_update less_Suc_eq)
  then show ?case
    using "2.IH" [OF v_def refl] "2.prems" by (simp add: Let_def v_def)
qed simp

lemma expanded_words:
  assumes "length ws = 80"
  shows "expand_rest (expand_first block ws 0 0 16) 16 64 = map (fips_W (fips_M block)) [0..<80]"
proof (rule nth_equalityI)
  note first = expand_first_val [of 0 16 ws 0 block]
  have "\<forall>t < 16. expand_first block ws 0 0 16 ! t = fips_W (fips_M block) t"
    using first assms by (simp add: fips_W.simps)
  then have rest: "length (expand_rest (expand_first block ws 0 0 16) 16 64) = 80"
    "\<forall>t < 80. expand_rest (expand_first block ws 0 0 16) 16 64 ! t = fips_W (fips_M block) t"
    using expand_rest_val [of 16 64 "expand_first block ws 0 0 16" "fips_M block"] first assms by auto
  show "length (expand_rest (expand_first block ws 0 0 16) 16 64) = length (map (fips_W (fips_M block)) [0..<80])"
    using rest(1) by simp
  show "expand_rest (expand_first block ws 0 0 16) 16 64 ! i = map (fips_W (fips_M block)) [0..<80] ! i"
    if "i < length (expand_rest (expand_first block ws 0 0 16) 16 64)" for i
    using that rest by simp
qed

subsection \<open>The rounds\<close>

lemma hash_step_fips:
  assumes "\<And>b c d. f b c d = fips_f t b c d" "k = fips_K t"
  shows "hash_step k f w (a, b, c, d, e) = (word_rotl 5 a + fips_f t b c d + e + w + fips_K t, a, word_rotl 30 b, c, d)"
  by (simp add: hash_step_def Let_def leftRotate_rotl ucast_add_32 ucast_twice assms add_ac)

lemma fold_fips_steps:
  assumes "\<And>t b c d. i \<le> t \<Longrightarrow> t < i + n \<Longrightarrow> f b c d = fips_f t b c d" "\<And>t. i \<le> t \<Longrightarrow> t < i + n \<Longrightarrow> k = fips_K t"
  shows "fold (hash_step k f) (map W [i..<i + n]) (fips_rounds W i st) = fips_rounds W (i + n) st"
  using assms
proof (induction n)
  case 0
  then show ?case by simp
next
  case (Suc n)
  obtain a b c d e where st: "fips_rounds W (i + n) st = (a, b, c, d, e)" by (metis prod_cases5)
  have "fold (hash_step k f) (map W [i..<i + Suc n]) (fips_rounds W i st) = hash_step k f (W (i + n)) (a, b, c, d, e)"
    using Suc st by simp
  also have "\<dots> = fips_rounds W (i + Suc n) st"
    using hash_step_fips [of f "i + n" k "W (i + n)" a b c d e] Suc.prems by (simp add: st)
  finally show ?case .
qed

lemma fold_fips:
  assumes "i \<le> j" "\<And>t b c d. i \<le> t \<Longrightarrow> t < j \<Longrightarrow> f b c d = fips_f t b c d" "\<And>t. i \<le> t \<Longrightarrow> t < j \<Longrightarrow> k = fips_K t"
  shows "fold (hash_step k f) (map W [i..<j]) (fips_rounds W i st) = fips_rounds W j st"
  using fold_fips_steps [of i "j - i" f k W st] assms by simp

lemma hash_rounds_fips: "hash_rounds (map W [0..<80]) st = fips_rounds W 80 st"
proof -
  let ?buf = "map W [0..<80]"
  have parts: "take 20 ?buf = map W [0..<20]" "take 20 (drop 20 ?buf) = map W [20..<40]"
    "take 20 (drop 40 ?buf) = map W [40..<60]" "take 20 (drop 60 ?buf) = map W [60..<80]"
    by (simp_all add: take_map drop_map del: upt_rec_numeral)
  have "fold (hash_step 1518500249 (\<lambda>b c d. (b AND c) OR (NOT b AND d))) (map W [0..<20]) (fips_rounds W 0 st)
      = fips_rounds W 20 st"
    by (rule fold_fips) (simp_all add: fips_f_def fips_K_def)
  moreover have "fold (hash_step 1859775393 (\<lambda>b c d. (b XOR c) XOR d)) (map W [20..<40]) (fips_rounds W 20 st)
      = fips_rounds W 40 st"
    by (rule fold_fips) (simp_all add: fips_f_def fips_K_def xor.assoc)
  moreover have "fold (hash_step 2400959708 (\<lambda>b c d. ((b AND c) OR (b AND d)) OR (c AND d))) (map W [40..<60]) (fips_rounds W 40 st)
      = fips_rounds W 60 st"
    by (rule fold_fips) (simp_all add: fips_f_def fips_K_def or.assoc)
  moreover have "fold (hash_step 3395469782 (\<lambda>b c d. (b XOR c) XOR d)) (map W [60..<80]) (fips_rounds W 60 st)
      = fips_rounds W 80 st"
    by (rule fold_fips) (simp_all add: fips_f_def fips_K_def xor.assoc)
  ultimately show ?thesis unfolding hash_rounds_def Let_def parts by (simp only: fips_rounds.simps(1))
qed

text \<open>
  C23: expanding a block and hashing it into a state is the compression function of FIPS 180-1: the
  new state is the one the standard defines, on every block and every state, and the words the buffer
  held before do not matter.
\<close>
theorem primitiveHashBlock_is_fips:
  assumes "is_bytes buf" "length (contents buf) = 64"
    and "is_words expanded" "length (elements expanded) = 80" "\<not> words_immutable expanded"
    and "is_words state" "elements state = [h0, h1, h2, h3, h4]" "\<not> words_immutable state"
  shows "\<exists>expanded'. primitiveExpandBlock 2 buf expanded = (Succeeds (), expanded') \<and>
    primitiveHashBlock 2 expanded' state = (Succeeds (), state\<lparr>elements :=
      (case fips_compress (contents buf) (h0, h1, h2, h3, h4) of (a, b, c, d, e) \<Rightarrow> [a, b, c, d, e])\<rparr>)"
proof -
  let ?W = "fips_W (fips_M (contents buf))"
  have "primitiveExpandBlock 2 buf expanded = (Succeeds (), expanded\<lparr>elements := map ?W [0..<80]\<rparr>)"
    using assms(1-5) by (simp add: primitiveExpandBlock_def Let_def expanded_words del: upt_rec)
  moreover have "primitiveHashBlock 2 (expanded\<lparr>elements := map ?W [0..<80]\<rparr>) state = (Succeeds (), state\<lparr>elements :=
      (case fips_compress (contents buf) (h0, h1, h2, h3, h4) of (a, b, c, d, e) \<Rightarrow> [a, b, c, d, e])\<rparr>)"
    using assms(3,6-8)
    by (simp add: primitiveHashBlock_def Let_def hash_rounds_fips fips_compress_def split: prod.splits)
  ultimately show ?thesis by blast
qed

theorem primitiveHashBlock_is_fips_witness:
  "\<exists>expanded'. primitiveExpandBlock 2 \<lparr>is_bytes = True, bytes_immutable = False, contents = [0x61, 0x62, 0x63, 0x80] @ replicate 59 0 @ [0x18]\<rparr>
        \<lparr>is_words = True, words_immutable = False, elements = replicate 80 0\<rparr> = (Succeeds (), expanded') \<and>
    primitiveHashBlock 2 expanded' \<lparr>is_words = True, words_immutable = False,
        elements = [0x67452301, 0xEFCDAB89, 0x98BADCFE, 0x10325476, 0xC3D2E1F0]\<rparr>
      = (Succeeds (), \<lparr>is_words = True, words_immutable = False, elements =
          (case fips_compress ([0x61, 0x62, 0x63, 0x80] @ replicate 59 0 @ [0x18]) (0x67452301, 0xEFCDAB89, 0x98BADCFE, 0x10325476, 0xC3D2E1F0)
           of (a, b, c, d, e) \<Rightarrow> [a, b, c, d, e])\<rparr>)"
  using primitiveHashBlock_is_fips [of "\<lparr>is_bytes = True, bytes_immutable = False,
        contents = [0x61, 0x62, 0x63, 0x80] @ replicate 59 0 @ [0x18]\<rparr>"
      "\<lparr>is_words = True, words_immutable = False, elements = replicate 80 0\<rparr>"
      "\<lparr>is_words = True, words_immutable = False, elements = [0x67452301, 0xEFCDAB89, 0x98BADCFE, 0x10325476, 0xC3D2E1F0]\<rparr>"]
  by (simp del: replicate.simps)

end
