(* ===== verification/DsaBig.thy ===== *)
theory DsaBig
  imports LimbDiv DsaSha
begin

text \<open>
  The big integer primitives of \<open>DSAPrims.c\<close> over the bytes of LargePositiveIntegers (\<open>dvs\<close> is the argument \<open>div\<close>): \<open>primitiveBigDivide\<close>
  (Knuth's algorithm with two corrections of the estimate), \<open>primitiveBigMultiply\<close> and
  \<open>primitiveHighestNonZeroDigitIndex\<close>. The arguments are different objects. The values of the \<open>sqInt\<close>
  variables stay below \<open>2 ^ 25\<close>; those that are never negative are \<open>nat\<close> here, the others \<open>int\<close>.
\<close>

subsection \<open>The primitives\<close>

text \<open>Whether the class of an argument is LargePositiveInteger, whether it is immutable, and its bytes.\<close>

record large_oop =
  is_large :: bool
  large_immutable :: bool
  bytes_of :: "8 word list"

abbreviation large :: "8 word list \<Rightarrow> large_oop" where
  "large b \<equiv> \<lparr>is_large = True, large_immutable = False, bytes_of = b\<rparr>"

text \<open>\<open>subtractDivisorMultipliedByDigit:digitShift:\<close>, the loop over the divisor.\<close>

fun subtractDivisor_loop :: "8 word list \<Rightarrow> 8 word list \<Rightarrow> nat \<Rightarrow> nat \<Rightarrow> 8 word list \<times> nat" where
  "subtractDivisor_loop (d # divisor) (r # remainder) q borrow =
     (let prod = unat d * q + borrow;
          borrow = prod div 256;
          resultDigit = int (unat r) - int (prod mod 256);
          borrow = (if resultDigit < 0 then borrow + 1 else borrow);
          resultDigit = (if resultDigit < 0 then resultDigit + 256 else resultDigit);
          (rs, b) = subtractDivisor_loop divisor remainder q borrow
      in (of_int resultDigit # rs, b))"
| "subtractDivisor_loop divisor remainder q borrow = ([], borrow)"

text \<open>
  The digit above; the answer says that the estimate was too big. \<open>w\<close> is the remainder from
  \<open>digitShift\<close> on, one digit longer than the divisor.
\<close>

definition subtractDivisor :: "8 word list \<Rightarrow> 8 word list \<Rightarrow> nat \<Rightarrow> 8 word list \<times> bool" where
  "subtractDivisor divisor w q =
     (let n = length divisor;
          (rs, borrow) = subtractDivisor_loop divisor (take n w) q 0
      in if borrow = 0 then (rs @ [w ! n], False)
         else let resultDigit = int (unat (w ! n)) - int borrow
              in if resultDigit < 0 then (rs @ [of_int (resultDigit + 256)], True)
                 else (rs @ [of_int resultDigit], False))"

text \<open>\<open>addBackDivisorDigitShift:\<close>\<close>

fun addBackDivisor_loop :: "8 word list \<Rightarrow> 8 word list \<Rightarrow> nat \<Rightarrow> 8 word list \<times> nat" where
  "addBackDivisor_loop (d # divisor) (r # remainder) carry =
     (let sum = (unat r + unat d) + carry;
          (rs, c) = addBackDivisor_loop divisor remainder (sum div 256)
      in (of_nat (sum mod 256) # rs, c))"
| "addBackDivisor_loop divisor remainder carry = ([], carry)"

definition addBackDivisor :: "8 word list \<Rightarrow> 8 word list \<Rightarrow> 8 word list" where
  "addBackDivisor divisor w =
     (let n = length divisor;
          (rs, carry) = addBackDivisor_loop divisor (take n w) 0;
          sum = unat (w ! n) + carry
      in rs @ [of_nat (sum mod 256)])"

definition bigDivide_test :: "nat \<Rightarrow> nat \<Rightarrow> nat \<Rightarrow> nat \<Rightarrow> nat \<Rightarrow> bool" where
  "bigDivide_test d1 d2 firstTwoDigits thirdDigit q \<longleftrightarrow>
     d2 * q > 256 * (firstTwoDigits - q * d1) + thirdDigit"

definition bigDivide_estimate :: "nat \<Rightarrow> nat \<Rightarrow> nat \<Rightarrow> nat \<Rightarrow> nat \<Rightarrow> nat" where
  "bigDivide_estimate d1 d2 firstDigit secondDigit thirdDigit =
     (let firstTwoDigits = 256 * firstDigit + secondDigit;
          q = (if firstDigit = d1 then 0xFF else firstTwoDigits div d1)
      in if bigDivide_test d1 d2 firstTwoDigits thirdDigit q
         then let q = q - 1
              in if bigDivide_test d1 d2 firstTwoDigits thirdDigit q then q - 1 else q
         else q)"

text \<open>One digit of the quotient, and the window of the remainder it leaves.\<close>

definition bigDivide_step :: "8 word list \<Rightarrow> 8 word list \<Rightarrow> nat \<times> 8 word list" where
  "bigDivide_step divisor w =
     (let n = length divisor;
          q = bigDivide_estimate (unat (divisor ! (n - 1))) (unat (divisor ! (n - 2)))
                (unat (w ! n)) (unat (w ! (n - 1))) (unat (w ! (n - 2)))
      in if q > 0
         then let (w', qTooBig) = subtractDivisor divisor w q
              in if qTooBig then (q - 1, addBackDivisor divisor w') else (q, w')
         else (q, w))"

text \<open>The loop over \<open>j\<close>; \<open>left\<close> digits are left, \<open>j = length divisor + left\<close> and \<open>digitShift = left - 1\<close>.\<close>

fun bigDivide_loop :: "8 word list \<Rightarrow> nat \<Rightarrow> 8 word list \<Rightarrow> 8 word list \<Rightarrow> 8 word list \<times> 8 word list" where
  "bigDivide_loop divisor 0 remainder quo = (remainder, quo)"
| "bigDivide_loop divisor (Suc digitShift) remainder quo =
     (let n = length divisor;
          (q, w) = bigDivide_step divisor (take (n + 1) (drop digitShift remainder))
      in bigDivide_loop divisor digitShift (take digitShift remainder @ w @ drop (digitShift + n + 1) remainder)
           (quo[digitShift := of_nat q]))"

definition primitiveBigDivide ::
  "nat \<Rightarrow> large_oop \<Rightarrow> large_oop \<Rightarrow> large_oop \<Rightarrow> unit dsa_result \<times> large_oop \<times> large_oop" where
  "primitiveBigDivide methodArgumentCount rem dvs quo =
     (let divisorDigitCount = length (bytes_of dvs); remainderDigitCount = length (bytes_of rem)
      in if methodArgumentCount \<noteq> 3 then (Fails BadNumArgs, rem, quo)
         else if \<not> (is_large rem \<and> is_large dvs \<and> is_large quo) then (Fails BadArgument, rem, quo)
         else if \<not> (divisorDigitCount \<ge> 2 \<and> bytes_of dvs ! (divisorDigitCount - 1) \<noteq> 0
                    \<and> length (bytes_of quo) \<ge> remainderDigitCount - divisorDigitCount)
         then (Fails BadArgument, rem, quo)
         else if large_immutable rem \<or> large_immutable quo then (Fails NoModification, rem, quo)
         else let (r, q) = bigDivide_loop (bytes_of dvs) (remainderDigitCount - divisorDigitCount) (bytes_of rem) (bytes_of quo)
              in (Succeeds (), rem\<lparr>bytes_of := r\<rparr>, quo\<lparr>bytes_of := q\<rparr>))"

text \<open>A row of the product: the digits at \<open>prod\<close> from \<open>k = i\<close> on; \<open>None\<close> is a write behind them.\<close>

fun bigMultiply_row :: "8 word list \<Rightarrow> 8 word \<Rightarrow> 8 word list \<Rightarrow> nat \<Rightarrow> 8 word list option" where
  "bigMultiply_row (d # f2) digit (p # product) carry =
     (let sum = (unat d * unat digit + unat p) + carry
      in map_option ((#) (of_nat (sum mod 256))) (bigMultiply_row f2 digit product (sum div 256)))"
| "bigMultiply_row (d # f2) digit [] carry = None"
| "bigMultiply_row [] digit (p # product) carry = Some (of_nat carry # product)"
| "bigMultiply_row [] digit [] carry = None"

fun bigMultiply_rows :: "8 word list \<Rightarrow> nat \<Rightarrow> 8 word list \<Rightarrow> 8 word list \<Rightarrow> 8 word list option" where
  "bigMultiply_rows [] i f2 product = Some product"
| "bigMultiply_rows (digit # f1) i f2 product =
     (if digit \<noteq> 0 then do {
        row \<leftarrow> bigMultiply_row f2 digit (drop i product) 0;
        bigMultiply_rows f1 (i + 1) f2 (take i product @ row)
      } else bigMultiply_rows f1 (i + 1) f2 product)"

definition primitiveBigMultiply ::
  "nat \<Rightarrow> large_oop \<Rightarrow> large_oop \<Rightarrow> large_oop \<Rightarrow> (unit dsa_result \<times> large_oop) option" where
  "primitiveBigMultiply methodArgumentCount f1 f2 product =
     (if methodArgumentCount \<noteq> 3 then Some (Fails BadNumArgs, product)
      else if \<not> (is_large product \<and> is_large f2 \<and> is_large f1) then Some (Fails BadArgument, product)
      else if length (bytes_of product) \<noteq> length (bytes_of f1) + length (bytes_of f2) then Some (Fails BadArgument, product)
      else if large_immutable product then Some (Fails NoModification, product)
      else do {
        p \<leftarrow> bigMultiply_rows (bytes_of f1) 0 (bytes_of f2) (bytes_of product);
        Some (Succeeds (), product\<lparr>bytes_of := p\<rparr>)
      })"

fun highest_loop :: "8 word list \<Rightarrow> nat \<Rightarrow> nat" where
  "highest_loop bigInt 0 = 0"
| "highest_loop bigInt (Suc i) = (if bigInt ! i = 0 then highest_loop bigInt i else i)"

definition primitiveHighestNonZeroDigitIndex :: "nat \<Rightarrow> large_oop \<Rightarrow> nat dsa_result" where
  "primitiveHighestNonZeroDigitIndex methodArgumentCount arg =
     (if methodArgumentCount \<noteq> 0 then Fails BadNumArgs
      else if \<not> is_large arg then Fails BadArgument
      else Succeeds (highest_loop (bytes_of arg) (length (bytes_of arg)) + 1))"

subsection \<open>Bytes\<close>

lemma val_8: "val (x # xs) = unat (x :: 8 word) + 2 ^ 8 * val xs"
  by simp

lemma val_append_8: "val (xs @ ys) = val xs + 2 ^ (8 * length xs) * val (ys :: 8 word list)"
  by (simp add: val_append)

lemma unat_of_nat_8: "n < 256 \<Longrightarrow> unat (of_nat n :: 8 word) = n"
  by (simp add: unat_of_nat take_bit_nat_eq_self)

lemma unat_of_int_8: "0 \<le> n \<Longrightarrow> n < 256 \<Longrightarrow> int (unat (of_int n :: 8 word)) = n"
  by (simp add: unsigned_of_int take_bit_int_eq_self)

lemma pow_8_Suc: "(2 :: nat) ^ (8 * length (x # xs)) = 2 ^ 8 * 2 ^ (8 * length xs)"
  by (simp add: power_add)

subsection \<open>One digit of the quotient\<close>

lemma borrow_step:
  "y + c = (if neg then r + 256 else r) \<Longrightarrow> y + (256 * a + c) = r + 256 * (if neg then a + 1 else a :: nat)"
  by (cases neg) simp_all

lemma subtractDivisor_loop_val:
  "subtractDivisor_loop divisor remainder q borrow = (rs, b) \<Longrightarrow> length divisor = length remainder \<Longrightarrow>
   length rs = length remainder \<and>
   val rs + q * val divisor + borrow = val remainder + 2 ^ (8 * length remainder) * b"
proof (induction divisor remainder q borrow arbitrary: rs b rule: subtractDivisor_loop.induct)
  case (1 d divisor r remainder q borrow)
  define pd where "pd = unat d * q + borrow"
  define neg where "neg = (int (unat r) - int (pd mod 256) < 0)"
  define dig where "dig = (if neg then int (unat r) - int (pd mod 256) + 256 else int (unat r) - int (pd mod 256))"
  define b1 where "b1 = (if neg then pd div 256 + 1 else pd div 256)"
  obtain rs1 where rec: "subtractDivisor_loop divisor remainder q b1 = (rs1, b)" and rs: "rs = of_int dig # rs1"
    using "1.prems"(1) unfolding subtractDivisor_loop.simps Let_def pd_def [symmetric] neg_def [symmetric] dig_def [symmetric] b1_def [symmetric]
    by (auto split: prod.splits)
  have IH: "length rs1 = length remainder" "val rs1 + q * val divisor + b1 = val remainder + 2 ^ (8 * length remainder) * b"
    using "1.IH" [OF pd_def refl refl refl refl] rec "1.prems"(2) unfolding b1_def neg_def by simp_all
  have "unat r < 256" using unat_lt [of r] by simp
  moreover have "pd mod 256 < 256" by simp
  ultimately have "0 \<le> dig \<and> dig < 256"
    using neg_def by (cases neg; unfold dig_def; simp only: if_True if_False simp_thms; linarith)
  then have range: "0 \<le> dig" "dig < 256" by blast+
  define y where "y = unat (of_int dig :: 8 word)"
  have y: "int y = dig" unfolding y_def using range by (rule unat_of_int_8)
  have "y + pd mod 256 = (if neg then unat r + 256 else unat r)"
    using y by (cases neg; unfold dig_def; simp only: if_True if_False; linarith)
  then have "y + (256 * (pd div 256) + pd mod 256) = unat r + 256 * b1"
    unfolding b1_def by (rule borrow_step)
  then have "y + pd = unat r + 256 * b1" unfolding mult_div_mod_eq .
  then have "val rs + q * val (d # divisor) + borrow = unat r + 2 ^ 8 * (val rs1 + q * val divisor + b1)"
    unfolding rs val_8 y_def [symmetric] by (simp add: pd_def algebra_simps)
  then show ?case using IH(1) unfolding IH(2) rs val_8 pow_8_Suc by (simp add: algebra_simps)
qed auto

lemma addBackDivisor_loop_val:
  "addBackDivisor_loop divisor remainder carry = (rs, c) \<Longrightarrow> length divisor = length remainder \<Longrightarrow>
   length rs = length remainder \<and>
   val rs + 2 ^ (8 * length remainder) * c = val remainder + val divisor + carry"
proof (induction divisor remainder carry arbitrary: rs c rule: addBackDivisor_loop.induct)
  case (1 d divisor r remainder carry)
  define sm where "sm = (unat r + unat d) + carry"
  obtain rs1 where rec: "addBackDivisor_loop divisor remainder (sm div 256) = (rs1, c)" and rs: "rs = of_nat (sm mod 256) # rs1"
    using "1.prems"(1) by (auto simp: Let_def sm_def split: prod.splits)
  have IH: "length rs1 = length remainder"
    "val rs1 + 2 ^ (8 * length remainder) * c = val remainder + val divisor + sm div 256"
    using "1.IH" [OF sm_def rec] "1.prems"(2) by auto
  have dig: "unat (of_nat (sm mod 256) :: 8 word) = sm mod 256" by (rule unat_of_nat_8) simp
  have "val rs + 2 ^ (8 * length (r # remainder)) * c = sm mod 256 + 2 ^ 8 * (val rs1 + 2 ^ (8 * length remainder) * c)"
    unfolding rs val_8 pow_8_Suc dig by (simp add: algebra_simps)
  also have "\<dots> = 2 ^ 8 * (val remainder + val divisor) + sm"
    unfolding IH(2) using mult_div_mod_eq [of 256 sm] by simp
  finally show ?case using IH(1) unfolding rs val_8 sm_def by simp
qed auto

text \<open>Two corrections are enough: the estimate starts at most two above the quotient of the top digits.\<close>

lemma bigDivide_estimate_val:
  fixes d1 d2 u2 u1 u0 :: nat
  assumes lt: "d2 < 256" "u1 < 256" "u0 < 256" and d1: "128 \<le> d1" and u2: "u2 \<le> d1"
  defines "V2 \<equiv> d1 * 256 + d2" and "N \<equiv> 256 * u2 + u1"
  defines "U3 \<equiv> N * 256 + u0"
  defines "q \<equiv> bigDivide_estimate d1 d2 u2 u1 u0"
  shows "u2 < d1 \<Longrightarrow> q = U3 div V2"
    and "u2 = d1 \<Longrightarrow> q \<le> 255 \<and> (q < 255 \<longrightarrow> U3 < (q + 1) * V2)"
proof -
  have V2: "0 < V2" using d1 by (simp add: V2_def)
  have split: "x * V2 = x * d1 * 256 + d2 * x" for x by (simp add: V2_def algebra_simps)
  have test: "bigDivide_test d1 d2 (256 * u2 + u1) u0 x \<longleftrightarrow> U3 < x * V2" if "x * d1 \<le> N" for x
  proof -
    have "U3 = x * d1 * 256 + (256 * (N - x * d1) + u0)"
      using that by (simp add: U3_def diff_mult_distrib2)
    then show ?thesis unfolding bigDivide_test_def split N_def [symmetric] by simp
  qed
  define q0 where "q0 = (if u2 = d1 then 255 else N div d1)"
  have q0: "q0 * d1 \<le> N" using d1 u2 by (auto simp: q0_def N_def)
  then have q1: "(q0 - 1) * d1 \<le> N" by (meson diff_le_self le_trans mult_le_mono1)
  have qv: "q = (if U3 < q0 * V2 then if U3 < (q0 - 1) * V2 then q0 - 1 - 1 else q0 - 1 else q0)"
    unfolding q_def bigDivide_estimate_def Let_def N_def [symmetric] q0_def [symmetric] test [OF q0, unfolded N_def [symmetric]]
      test [OF q1, unfolded N_def [symmetric]] ..
  show "q = U3 div V2" if "u2 < d1"
  proof -
    have q0': "q0 = N div d1" using that by (simp add: q0_def)
    have "N < 256 * d1" using that lt by (simp add: N_def)
    then have "q0 < 256" unfolding q0' by (simp add: less_mult_imp_div_less mult.commute)
    have below: "(q0 - 2) * V2 \<le> U3"
    proof -
      have "(q0 - 2) * V2 \<le> q0 * V2 - 2 * V2" by (simp add: diff_mult_distrib)
      also have "\<dots> \<le> U3"
      proof -
        have "q0 * d1 * 256 \<le> N * 256" using q0 by (rule mult_le_mono1)
        moreover have "d2 * q0 \<le> 255 * 255" using lt \<open>q0 < 256\<close> by (intro mult_le_mono) simp_all
        moreover have "2 * V2 \<ge> 256 * 256" using d1 by (simp add: V2_def)
        ultimately show ?thesis unfolding split [of q0] U3_def by simp
      qed
      finally show ?thesis .
    qed
    have above: "U3 div V2 \<le> q0"
      unfolding q0' U3_def V2_def using d1 lt by (intro mod_B_step) simp_all
    have eq: "U3 div V2 = x" if "x * V2 \<le> U3" "U3 < (x + 1) * V2" for x
      using that V2 by (intro div_nat_eqI) (simp_all add: mult.commute)
    show ?thesis
    proof (cases "U3 < q0 * V2")
      case False
      then have "q0 \<le> U3 div V2" using V2 by (simp add: less_eq_div_iff_mult_less_eq)
      then show ?thesis using above False by (simp add: qv)
    next
      case True
      then have p: "0 < q0" by (cases q0) simp_all
      show ?thesis
      proof (cases "U3 < (q0 - 1) * V2")
        case False
        then have "U3 div V2 = q0 - 1" using True p by (intro eq) simp_all
        then show ?thesis using True False by (simp add: qv)
      next
        case t: True
        then have "0 < q0 - 1" by (cases "q0 - 1") simp_all
        then have "U3 div V2 = q0 - 2" using t below by (intro eq) (simp_all add: Suc_diff_Suc numeral_2_eq_2)
        then show ?thesis using True t by (simp add: qv)
      qed
    qed
  qed
  show "q \<le> 255 \<and> (q < 255 \<longrightarrow> U3 < (q + 1) * V2)" if "u2 = d1"
    using that by (auto simp: qv q0_def)
qed

lemma bigDivide_estimate_bounds:
  fixes v w :: "8 word list"
  assumes v: "2 \<le> length v" "128 \<le> unat (v ! (length v - 1))"
    and w: "length w = length v + 1" "val (drop 1 w) < val v"
  defines "n \<equiv> length v"
  defines "q \<equiv> bigDivide_estimate (unat (v ! (n - 1))) (unat (v ! (n - 2))) (unat (w ! n)) (unat (w ! (n - 1))) (unat (w ! (n - 2)))"
  shows "val w div val v \<le> q" "q \<le> val w div val v + 1"
proof -
  define d1 where "d1 = unat (v ! (n - 1))"
  define d2 where "d2 = unat (v ! (n - 2))"
  define u2 where "u2 = unat (w ! n)"
  define u1 where "u1 = unat (w ! (n - 1))"
  define u0 where "u0 = unat (w ! (n - 2))"
  define V2 where "V2 = d1 * 256 + d2"
  define U3 where "U3 = (256 * u2 + u1) * 256 + u0"
  have lt: "d2 < 256" "u1 < 256" "u0 < 256"
    using unat_lt [of "v ! (n - 2)"] unat_lt [of "w ! (n - 1)"] unat_lt [of "w ! (n - 2)"]
    by (simp_all add: d2_def u1_def u0_def)
  have d1: "128 \<le> d1" using v(2) by (simp add: d1_def n_def)
  have norm: "normalized (v ! (n - 1))" using v(2) by (simp add: normalized_def n_def)
  have dw: "take n (drop 1 w) = drop 1 w" and tw: "take (Suc n) w = w" using w(1) by (simp_all add: n_def)
  have nw: "n < length w" using w(1) by (simp add: n_def)
  have lv: "length v = n" by (simp add: n_def)
  note knuth = knuth_estimate [of n v w, OF v(1) [folded n_def] lv norm nw, unfolded dw tw, OF w(2)]
  have V2': "V2 = unat (v ! (n - 1)) * 2 ^ LENGTH(8) + unat (v ! (n - 2))"
    and U3': "U3 = (unat (w ! n) * 2 ^ LENGTH(8) + unat (w ! (n - 1))) * 2 ^ LENGTH(8) + unat (w ! (n - 2))"
    by (simp_all add: V2_def U3_def d1_def d2_def u2_def u1_def u0_def)
  have u2: "u2 \<le> d1" using knuth(3) by (cases "w ! n < v ! (n - 1)") (auto simp: u2_def d1_def word_less_nat_alt)
  note est = bigDivide_estimate_val [OF lt d1 u2, folded V2_def U3_def]
  have q: "q = bigDivide_estimate d1 d2 u2 u1 u0" by (simp add: q_def d1_def d2_def u2_def u1_def u0_def)
  have "val w div val v \<le> q \<and> q \<le> val w div val v + 1"
  proof (cases "w ! n < v ! (n - 1)")
    case True
    then have "u2 < d1" by (simp add: u2_def d1_def word_less_nat_alt)
    then show ?thesis using est(1) knuth(2) [OF True] unfolding q V2' U3' by simp
  next
    case False
    then have e: "u2 = d1" using knuth(3) [OF False] by (simp add: u2_def d1_def)
    have k: "val w div val v \<le> 255" "255 \<le> val w div val v + 1" using knuth(3) [OF False] by simp_all
    have b: "q \<le> 255" "q < 255 \<Longrightarrow> U3 < (q + 1) * V2" using est(2) [OF e] unfolding q by simp_all
    show ?thesis
    proof (cases "q < 255")
      case True
      define P where "P = (2::nat) ^ (8 * (n - 2))"
      have V: "V2 * P \<le> val v"
        using val_top2 [of n v] v(1) by (simp add: n_def V2' P_def)
      have W: "val w < (U3 + 1) * P"
      proof -
        have "val w = val (take n w) + 2 ^ (8 * n) * unat (w ! n)"
          using val_take_Suc [OF nw] unfolding tw by simp
        moreover have "val (take n w) = (unat (w ! (n - 1)) * 256 + unat (w ! (n - 2))) * P + val (take (n - 2) w)"
          using val_top2 [of n w] v(1) w(1) by (simp add: n_def P_def)
        moreover have "(2::nat) ^ (8 * n) = 256 * 256 * P"
        proof -
          have "8 * n = 8 + 8 + 8 * (n - 2)" using v(1) by (simp add: n_def)
          then have "(2::nat) ^ (8 * n) = 2 ^ 8 * 2 ^ 8 * 2 ^ (8 * (n - 2))" by (simp only: power_add)
          then show ?thesis by (simp add: P_def)
        qed
        moreover have "val (take (n - 2) w) < P" using val_take_lt [of "n - 2" w] by (simp add: P_def)
        ultimately show ?thesis by (simp add: U3_def u2_def u1_def u0_def algebra_simps)
      qed
      also have "\<dots> \<le> (q + 1) * V2 * P" using b(2) [OF True] by (intro mult_le_mono1) simp
      also have "\<dots> \<le> (q + 1) * val v" unfolding mult.assoc using V by (rule mult_le_mono2)
      finally have "val w div val v < q + 1" by (rule less_mult_imp_div_less)
      then show ?thesis using True k by simp
    next
      case False
      then show ?thesis using b(1) k by simp
    qed
  qed
  then show "val w div val v \<le> q" "q \<le> val w div val v + 1" by simp_all
qed

lemma bigDivide_step_val:
  fixes v w :: "8 word list"
  assumes v: "2 \<le> length v" "128 \<le> unat (v ! (length v - 1))"
    and w: "length w = length v + 1" "val (drop 1 w) < val v"
  obtains w' where "bigDivide_step v w = (val w div val v, w')" "length w' = length w" "val w' = val w mod val v"
proof -
  define n where "n = length v"
  define q where "q = bigDivide_estimate (unat (v ! (n - 1))) (unat (v ! (n - 2))) (unat (w ! n)) (unat (w ! (n - 1))) (unat (w ! (n - 2)))"
  define Q where "Q = val w div val v"
  define R where "R = val w mod val v"
  define E where "E = (2::nat) ^ (8 * n)"
  have est: "Q \<le> q" "q \<le> Q + 1"
    using bigDivide_estimate_bounds [OF v w] unfolding q_def n_def Q_def by simp_all
  have V: "0 < val v" "val v < E" using w(2) val_lt [of v] by (simp_all add: E_def n_def)
  have QR: "val w = Q * val v + R" "R < val v" using V by (simp_all add: Q_def R_def)
  have w': "val w = val (take n w) + E * unat (w ! n)" "length (take n w) = n"
    using val_take_Suc [of n w] w(1) by (simp_all add: n_def E_def)
  have step: "bigDivide_step v w = (if q > 0 then let (w', b) = subtractDivisor v w q in if b then (q - 1, addBackDivisor v w') else (q, w') else (q, w))"
    unfolding bigDivide_step_def Let_def n_def [symmetric] q_def [symmetric] by simp
  show thesis
  proof (cases "q = 0")
    case True
    then have "Q = 0" using est by simp
    then have "val w = R" using QR by simp
    then show thesis using that [of w] step True \<open>Q = 0\<close> by (simp add: Q_def R_def)
  next
    case False
    obtain rs b where sub: "subtractDivisor_loop v (take n w) q 0 = (rs, b)" by fastforce
    have rs: "length rs = n" "val rs + q * val v = val (take n w) + E * b"
      using subtractDivisor_loop_val [OF sub] w'(2) by (simp_all add: n_def E_def)
    have rsE: "val rs < E" using val_lt [of rs] rs(1) by (simp add: E_def)
    have diff: "val rs + E * unat (w ! n) + q * val v = Q * val v + R + E * b"
      using rs(2) w'(1) QR(1) by simp
    show thesis
    proof (cases "b \<le> unat (w ! n)")
      case True
      define t where "t = unat (w ! n) - b"
      have t: "E * unat (w ! n) = E * t + E * b" using True by (simp add: t_def flip: distrib_left)
      have "val rs + E * t + q * val v = Q * val v + R" using diff t by linarith
      moreover have "q = Q"
      proof (rule ccontr)
        assume "q \<noteq> Q"
        then have "q = Q + 1" using est by simp
        then have "q * val v = Q * val v + val v" by simp
        then show False using \<open>val rs + E * t + q * val v = Q * val v + R\<close> QR(2) by linarith
      qed
      ultimately have eq: "val rs + E * t = R" by simp
      have it: "int (unat (w ! n)) - int b = int t" using True by (simp add: t_def)
      have "t < 256" using unat_lt [of "w ! n"] by (simp add: t_def)
      have "subtractDivisor v w q = (rs @ [of_nat t], False)"
      proof (cases "b = 0")
        case True
        then show ?thesis using sub unfolding subtractDivisor_def Let_def n_def [symmetric] by (simp add: t_def)
      next
        case False
        then show ?thesis unfolding subtractDivisor_def Let_def n_def [symmetric] sub prod.case it by simp
      qed
      moreover have "val (rs @ [of_nat t]) = R"
        using eq \<open>t < 256\<close> rs(1) by (simp add: val_append unat_of_nat_8 E_def)
      ultimately show thesis
        using that [of "rs @ [of_nat t]"] step False \<open>q = Q\<close> rs(1) w(1) by (simp add: Q_def R_def n_def)
    next
      case big: False
      have "q = Q + 1"
      proof (rule ccontr)
        assume "q \<noteq> Q + 1"
        then have "q = Q" using est by simp
        then have "val rs + E * unat (w ! n) = R + E * b" using diff by simp
        moreover have "E * unat (w ! n) + E \<le> E * b"
        proof -
          have "E * (unat (w ! n) + 1) \<le> E * b" using big by (intro mult_le_mono2) simp
          then show ?thesis by simp
        qed
        ultimately show False using rsE by linarith
      qed
      then have eq: "val rs + E * unat (w ! n) + val v = R + E * b" using diff by simp
      have b1: "b = unat (w ! n) + 1"
      proof (rule ccontr)
        assume "b \<noteq> unat (w ! n) + 1"
        then have "unat (w ! n) + 2 \<le> b" using big by simp
        then have "E * (unat (w ! n) + 2) \<le> E * b" by (rule mult_le_mono2)
        then show False using eq rsE V(2) by (simp add: distrib_left)
      qed
      have sub': "subtractDivisor v w q = (rs @ [255], True)"
        using sub b1 unfolding subtractDivisor_def Let_def n_def [symmetric] by simp
      obtain ws c where add: "addBackDivisor_loop v rs 0 = (ws, c)" by fastforce
      have ws: "length ws = n" "val ws + E * c = val rs + val v"
        using addBackDivisor_loop_val [OF add] rs(1) by (simp_all add: n_def E_def)
      have "val ws + E * c = R + E" using ws(2) eq b1 by (simp add: distrib_left)
      moreover have "val ws < E" using val_lt [of ws] ws(1) by (simp add: E_def)
      ultimately have c: "c = 1" "val ws = R"
      proof -
        have RE: "R < E" "0 < E" using QR(2) V(2) by simp_all
        have "(val ws + E * c) div E = c" "(val ws + E * c) mod E = val ws" using \<open>val ws < E\<close> by simp_all
        moreover have "(R + E) div E = 1" by (intro div_nat_eqI) (use RE in auto)
        moreover have "(R + E) mod E = R" using RE by simp
        ultimately show "c = 1" "val ws = R" using \<open>val ws + E * c = R + E\<close> by metis+
      qed
      have "addBackDivisor v (rs @ [255]) = ws @ [0]"
        using add rs(1) c(1) unfolding addBackDivisor_def Let_def n_def [symmetric] by (simp add: nth_append)
      then show thesis
        using that [of "ws @ [0]"] step False sub' \<open>q = Q + 1\<close> ws(1) c(2) w(1)
        by (simp add: Q_def R_def n_def val_append)
    qed
  qed
qed

text \<open>The loop divides.\<close>

lemma bigDivide_loop_val:
  fixes v :: "8 word list"
  assumes v: "2 \<le> length v" "128 \<le> unat (v ! (length v - 1))"
  shows "left + length v \<le> length u \<Longrightarrow> val (drop (left + length v) u) = 0 \<Longrightarrow>
    val (take (length v) (drop left u)) < val v \<Longrightarrow> left \<le> length quo \<Longrightarrow>
    \<exists>u' q'. bigDivide_loop v left u quo = (u', q' @ drop left quo) \<and> length q' = left \<and> length u' = length u \<and>
      val u = val q' * val v + val u' \<and> val u' < val v"
proof (induction left arbitrary: u quo)
  case 0
  have "val u = val (take (length v) u)" using val_take_0 [of "length v" u] 0 by simp
  then show ?case using 0 by simp
next
  case (Suc i)
  let ?n = "length v + 1"
  define w where "w = take ?n (drop i u)"
  have w: "length w = length v + 1" "val (drop 1 w) < val v"
    using Suc.prems by (simp_all add: w_def drop_take)
  obtain r where st: "bigDivide_step v w = (val w div val v, r)" "length r = length w" "val r = val w mod val v"
    by (rule bigDivide_step_val [OF v w])
  define q1 where "q1 = (of_nat (val w div val v) :: 8 word)"
  define u1 where "u1 = take i u @ r @ drop (i + ?n) u"
  have len: "length u1 = length u" using Suc.prems st(2) w(1) by (simp add: u1_def)
  have V: "0 < val v" using w(2) by simp
  have rlt: "val r < val v" using st(3) V by simp
  have q1: "unat q1 = val w div val v"
  proof -
    have "val w = unat (w ! 0) + 256 * val (drop 1 w)" using w(1) by (cases w) simp_all
    moreover have "256 * (val (drop 1 w) + 1) \<le> 256 * val v" using w(2) by (intro mult_le_mono2) simp
    ultimately have "val w < 256 * val v" using unat_lt [of "w ! 0"] by simp
    then have "val w div val v < 256" by (rule less_mult_imp_div_less)
    then show ?thesis unfolding q1_def by (rule unat_of_nat_8)
  qed
  have top: "val (drop (i + ?n) u) = 0" using Suc.prems(2) by (simp add: add.commute add.left_commute)
  have "val v < 2 ^ (8 * length v)" using val_lt [of v] by simp
  then have r0: "val (drop (length v) r) = 0" using rlt st(2) w(1) by (simp add: val_drop)
  have "val (drop (i + length v) u1) = 0"
    using Suc.prems st(2) w(1) top r0 by (simp add: u1_def val_append)
  moreover have "val (take (length v) (drop i u1)) < val v"
  proof -
    have "val (take (length v) r) = val r" using val_take_0 [of "length v" r] st(2) w(1) r0 by simp
    then show ?thesis using Suc.prems st(2) w(1) rlt by (simp add: u1_def)
  qed
  ultimately obtain q' u' where IH: "bigDivide_loop v i u1 (quo[i := q1]) = (u', q' @ drop i (quo[i := q1]))"
    "length q' = i" "length u' = length u" "val u1 = val q' * val v + val u'" "val u' < val v"
    using Suc.IH [of u1 "quo[i := q1]"] Suc.prems len by auto
  have split: "val x = val (take i x) + 2 ^ (8 * i) * val (drop i x)" if "i \<le> length x" for x :: "8 word list"
    using val_take_drop [OF that] by simp
  have "val (drop i u) = val w"
    using val_take_0 [of ?n "drop i u"] top Suc.prems(1) by (simp add: w_def add.commute)
  then have vu: "val u = val (take i u) + 2 ^ (8 * i) * (unat q1 * val v + val r)"
    using split [of u] Suc.prems(1) st(3) by (simp add: q1)
  have vu1: "val u1 = val (take i u) + 2 ^ (8 * i) * val r"
    using Suc.prems(1) top by (simp add: u1_def val_append)
  have "val u = val u1 + 2 ^ (8 * i) * (unat q1 * val v)"
    unfolding vu vu1 by (simp add: distrib_left)
  then have "val u = val (q' @ [q1]) * val v + val u'"
    unfolding IH(4) using IH(2) by (simp add: val_append distrib_right)
  moreover have "bigDivide_loop v (Suc i) u quo = (u', (q' @ [q1]) @ drop (Suc i) quo)"
  proof -
    have "drop i (quo[i := q1]) = q1 # drop (Suc i) quo"
      using Suc.prems(4) by (simp add: drop_update_swap flip: Cons_nth_drop_Suc)
    then show ?thesis
      using st(1) IH(1) by (simp add: Let_def u1_def w_def q1_def)
  qed
  ultimately show ?case using IH by (intro exI [of _ u'] exI [of _ "q' @ [q1]"]) simp
qed

subsection \<open>The product\<close>

lemma bigMultiply_row_val:
  "length f2 < length res \<Longrightarrow> carry < 256 \<Longrightarrow> res ! length f2 = 0 \<Longrightarrow>
   \<exists>r. bigMultiply_row f2 digit res carry = Some r \<and> length r = length res \<and>
     drop (length f2 + 1) r = drop (length f2 + 1) res \<and> val r = val res + val f2 * unat digit + carry"
proof (induction f2 digit res carry rule: bigMultiply_row.induct)
  case (1 d f2 digit p res carry)
  define sm where "sm = (unat d * unat digit + unat p) + carry"
  have "sm < 256 * 256"
    using fma_bound [of "unat d" 256 "unat digit" "unat p" carry] unat_lt [of d] unat_lt [of digit] unat_lt [of p] "1.prems"(2)
    by (simp add: sm_def)
  then have "sm div 256 < 256" by (simp add: less_mult_imp_div_less)
  then obtain r where r: "bigMultiply_row f2 digit res (sm div 256) = Some r" "length r = length res"
    "drop (length f2 + 1) r = drop (length f2 + 1) res" "val r = val res + val f2 * unat digit + sm div 256"
    using "1.IH" [OF sm_def] "1.prems" by auto
  have dig: "unat (of_nat (sm mod 256) :: 8 word) = sm mod 256" by (rule unat_of_nat_8) simp
  have "val (of_nat (sm mod 256) # r :: 8 word list) = sm mod 256 + 256 * (sm div 256) + 256 * (val res + val f2 * unat digit)"
    unfolding val_8 dig r(4) by simp
  also have "\<dots> = val (p # res) + val (d # f2) * unat digit + carry"
    unfolding mod_mult_div_eq val_8 by (simp add: sm_def algebra_simps)
  finally show ?case using r by (simp add: Let_def sm_def [symmetric])
next
  case (3 digit p res carry)
  then show ?case by (simp add: unat_of_nat_8)
qed auto

lemma product_row_algebra:
  fixes v b d f :: nat
  shows "v + 2 ^ (8 * i) * (b * d) + 2 ^ (8 * (i + 1)) * (f * b) = v + 2 ^ (8 * i) * ((d + 2 ^ 8 * f) * b)"
  by (simp add: algebra_simps power_add)

lemma bigMultiply_rows_val:
  "length res = i + length f1 + length f2 \<Longrightarrow> val (drop (i + length f2) res) = 0 \<Longrightarrow>
   \<exists>r. bigMultiply_rows f1 i f2 res = Some r \<and> length r = length res \<and>
     val r = val res + 2 ^ (8 * i) * (val f1 * val f2)"
proof (induction f1 i f2 res rule: bigMultiply_rows.induct)
  case (2 digit f1 i f2 res)
  have zero: "val (drop (i + 1 + length f2) res) = 0" "res ! (i + length f2) = 0"
  proof -
    have "drop (i + length f2) res = res ! (i + length f2) # drop (Suc (i + length f2)) res"
      using 2(3) by (simp add: Cons_nth_drop_Suc)
    then show "val (drop (i + 1 + length f2) res) = 0" "res ! (i + length f2) = 0"
      using 2(4) by (auto simp: unat_eq_zero)
  qed
  show ?case
  proof (cases "digit = 0")
    case True
    then obtain r where "bigMultiply_rows f1 (i + 1) f2 res = Some r" "length r = length res"
      "val r = val res + 2 ^ (8 * (i + 1)) * (val f1 * val f2)"
      using 2(2) 2(3) zero(1) by auto
    then show ?thesis using True by (simp add: power_add)
  next
    case False
    obtain row where row: "bigMultiply_row f2 digit (drop i res) 0 = Some row" "length row = length (drop i res)"
      "drop (length f2 + 1) row = drop (length f2 + 1) (drop i res)" "val row = val (drop i res) + val f2 * unat digit"
      using bigMultiply_row_val [of f2 "drop i res" 0 digit] 2(3) zero(2) by auto
    define res1 where "res1 = take i res @ row"
    have len: "length res1 = length res" using 2(3) row(2) by (simp add: res1_def)
    have "drop (i + 1 + length f2) res1 = drop (length f2 + 1) row"
      using 2(3) by (simp add: res1_def)
    then have z: "val (drop (i + 1 + length f2) res1) = 0"
      using zero(1) row(3) by (simp add: ac_simps)
    have len1: "length res1 = (i + 1) + length f1 + length f2" using len 2(3) by simp
    have "\<exists>r. bigMultiply_rows f1 (i + 1) f2 res1 = Some r \<and> length r = length res1 \<and>
        val r = val res1 + 2 ^ (8 * (i + 1)) * (val f1 * val f2)"
      using 2(1) [OF False row(1)] len1 z unfolding res1_def by blast
    then obtain r where r: "bigMultiply_rows f1 (i + 1) f2 res1 = Some r" "length r = length res"
      "val r = val res1 + 2 ^ (8 * (i + 1)) * (val f1 * val f2)"
      unfolding len by blast
    have "val res1 = val res + 2 ^ (8 * i) * (val f2 * unat digit)"
    proof -
      have "length (take i res) = i" using 2(3) by simp
      then have "val res1 = val (take i res) + 2 ^ (8 * i) * val row"
        unfolding res1_def val_append by simp
      moreover have "val res = val (take i res) + 2 ^ (8 * i) * val (drop i res)"
        using val_take_drop [of i res] 2(3) by simp
      ultimately show ?thesis unfolding row(4) distrib_left by linarith
    qed
    then have "val r = val res + 2 ^ (8 * i) * (val (digit # f1) * val f2)"
      using r(3) unfolding val_8 product_row_algebra [symmetric] by (simp only:)
    then show ?thesis using False row(1) r unfolding res1_def by simp
  qed
qed simp

lemma highest_loop_val:
  "n \<le> length b \<Longrightarrow> val (take n b) \<noteq> 0 \<Longrightarrow>
   highest_loop b n < n \<and> 2 ^ (8 * highest_loop b n) \<le> val (take n b) \<and> val (take n b) < 2 ^ (8 * (highest_loop b n + 1))"
proof (induction n)
  case (Suc i)
  have v: "val (take (Suc i) b) = val (take i b) + 2 ^ (8 * i) * unat (b ! i)"
    using val_take_Suc [of i b] Suc.prems(1) by simp
  show ?case
  proof (cases "b ! i = 0")
    case True
    then show ?thesis using Suc v by auto
  next
    case False
    then have "1 \<le> unat (b ! i)" by (simp add: Suc_le_eq unat_gt_0)
    then have "2 ^ (8 * i) * 1 \<le> 2 ^ (8 * i) * unat (b ! i)" by (rule mult_le_mono2)
    then have "2 ^ (8 * i) \<le> val (take (Suc i) b)" unfolding v by linarith
    then show ?thesis using False val_take_lt [of "Suc i" b] by simp
  qed
qed simp

subsection \<open>The primitives\<close>

lemma large_quotient:
  fixes q r v u :: nat
  shows "u = q * v + r \<Longrightarrow> r < v \<Longrightarrow> q = u div v \<and> r = u mod v"
  by simp

text \<open>
  C25: \<open>primitiveBigDivide\<close> divides: for arguments it accepts (LargeIntegers, the remainder and the quotient writable,
  a divisor of two digits or more, a quotient with room for the digits by which the remainder is longer) that also have
  what it does not check (the top bit of the divisor set, the topmost digits of the remainder, as many as the
  divisor has, below the divisor, and a quotient of zeros) it leaves exactly the quotient and the remainder; no digit
  is estimated wrong after its two corrections and the add back. Without the first or the second of the
  unchecked it can leave something else, the lemmas \<open>primitiveBigDivide_not_normalised\<close> and
  \<open>primitiveBigDivide_top_not_below\<close>.
\<close>
theorem primitiveBigDivide_divides:
  assumes "is_large rem" "is_large dvs" "is_large quo" "\<not> large_immutable rem" "\<not> large_immutable quo"
    and "2 \<le> length (bytes_of dvs)" "128 \<le> unat (bytes_of dvs ! (length (bytes_of dvs) - 1))"
    and "length (bytes_of rem) - length (bytes_of dvs) \<le> length (bytes_of quo)" "val (bytes_of quo) = 0"
    and "val (drop (length (bytes_of rem) - length (bytes_of dvs)) (bytes_of rem)) < val (bytes_of dvs)"
  shows "\<exists>r q. primitiveBigDivide 3 rem dvs quo = (Succeeds (), rem\<lparr>bytes_of := r\<rparr>, quo\<lparr>bytes_of := q\<rparr>) \<and>
    length r = length (bytes_of rem) \<and> length q = length (bytes_of quo) \<and>
    val q = val (bytes_of rem) div val (bytes_of dvs) \<and> val r = val (bytes_of rem) mod val (bytes_of dvs)"
proof -
  let ?u = "bytes_of rem" and ?v = "bytes_of dvs" and ?q = "bytes_of quo"
  define left where "left = length ?u - length ?v"
  have nz: "?v ! (length ?v - 1) \<noteq> 0" using assms(7) by auto
  have prim: "primitiveBigDivide 3 rem dvs quo = (case bigDivide_loop ?v left ?u ?q of
      (r, q) \<Rightarrow> (Succeeds (), rem\<lparr>bytes_of := r\<rparr>, quo\<lparr>bytes_of := q\<rparr>))"
    using assms nz by (simp add: primitiveBigDivide_def Let_def left_def)
  have "\<exists>r q'. bigDivide_loop ?v left ?u ?q = (r, q' @ drop left ?q) \<and> length q' = left \<and> length r = length ?u \<and>
      val ?u = val q' * val ?v + val r \<and> val r < val ?v"
  proof (cases "length ?v \<le> length ?u")
    case True
    then show ?thesis
      using bigDivide_loop_val [OF assms(6,7), of left ?u ?q] assms(8,10) by (simp add: left_def)
  next
    case False
    then show ?thesis using assms(10) by (auto simp: left_def)
  qed
  then obtain r q' where lp: "bigDivide_loop ?v left ?u ?q = (r, q' @ drop left ?q)" "length q' = left" "length r = length ?u"
    "val ?u = val q' * val ?v + val r" "val r < val ?v" by blast
  have "val (drop left ?q) = 0"
    using val_take_drop [of left ?q] assms(8,9) by (simp add: left_def)
  then have "val (q' @ drop left ?q) = val q'" by (simp add: val_append)
  moreover have "length (q' @ drop left ?q) = length ?q" using lp(2) assms(8) by (simp add: left_def)
  moreover have "primitiveBigDivide 3 rem dvs quo
      = (Succeeds (), rem\<lparr>bytes_of := r\<rparr>, quo\<lparr>bytes_of := q' @ drop left ?q\<rparr>)"
    unfolding prim lp(1) prod.case ..
  ultimately show ?thesis using lp(3) large_quotient [OF lp(4,5)] by metis
qed

theorem primitiveBigDivide_divides_witness:
  "let rem = \<lparr>is_large = True, large_immutable = False, bytes_of = [7, 200, 13, 255, 3]\<rparr>;
       dvs = \<lparr>is_large = True, large_immutable = False, bytes_of = [9, 77, 200]\<rparr>;
       quo = \<lparr>is_large = True, large_immutable = False, bytes_of = [0, 0, 0]\<rparr>
   in \<exists>r q. primitiveBigDivide 3 rem dvs quo = (Succeeds (), rem\<lparr>bytes_of := r\<rparr>, quo\<lparr>bytes_of := q\<rparr>) \<and>
     length r = length (bytes_of rem) \<and> length q = length (bytes_of quo) \<and>
     val q = val (bytes_of rem) div val (bytes_of dvs) \<and> val r = val (bytes_of rem) mod val (bytes_of dvs)"
  proof -
  let ?rem = "\<lparr>is_large = True, large_immutable = False, bytes_of = [7, 200, 13, 255, 3]\<rparr>"
  let ?dvs = "\<lparr>is_large = True, large_immutable = False, bytes_of = [9, 77, 200]\<rparr>"
  let ?quo = "\<lparr>is_large = True, large_immutable = False, bytes_of = [0, 0, 0]\<rparr>"
  have len: "length (bytes_of ?dvs) - 1 = 2" by simp
  have top: "bytes_of ?dvs ! (length (bytes_of ?dvs) - 1) = 200" unfolding len by simp
  have left: "length (bytes_of ?rem) - length (bytes_of ?dvs) = 2" by simp
  have high: "drop (length (bytes_of ?rem) - length (bytes_of ?dvs)) (bytes_of ?rem) = [13, 255, 3]" unfolding left by simp
  have "val [13, 255, 3 :: 8 word] < val [9, 77, 200 :: 8 word]" by (simp add: val_8)
  then have below: "val (drop (length (bytes_of ?rem) - length (bytes_of ?dvs)) (bytes_of ?rem)) < val (bytes_of ?dvs)"
    unfolding high by simp
  show ?thesis unfolding Let_def
    by (rule primitiveBigDivide_divides [of ?rem ?dvs ?quo, OF _ _ _ _ _ _ _ _ _ below])
      (simp_all only: top, simp_all)
qed

text \<open>
  The top bit of the divisor is needed, and is not checked: 65536 divided by 511 leaves the quotient
  digit 252, where the quotient is 128.
\<close>

lemma not_normalised_step: "bigDivide_step [255, 1] [0, 0, 1] = (252, [252, 8, 255])"
proof -
  have e: "bigDivide_estimate 1 255 1 0 0 = 253"
    by (simp add: bigDivide_estimate_def bigDivide_test_def)
  have s: "subtractDivisor [255, 1] [0, 0, 1] 253 = ([253, 6, 255], True)"
    by (simp add: subtractDivisor_def)
  have a: "addBackDivisor [255, 1] [253, 6, 255] = [252, 8, 255]"
    by (simp add: addBackDivisor_def)
  show ?thesis using e s a by (simp add: bigDivide_step_def)
qed

lemma primitiveBigDivide_not_normalised:
  "primitiveBigDivide 3 (large [0, 0, 1]) (large [255, 1]) (large [0])
     = (Succeeds (), large [252, 8, 255], large [252])"
  "val [0, 0, 1 :: 8 word] div val [255, 1 :: 8 word] = 128"
proof -
  have "bigDivide_loop [255, 1] (3 - 2) [0, 0, 1] [0] = ([252, 8, 255], [252])"
    using not_normalised_step by simp
  then show "primitiveBigDivide 3 (large [0, 0, 1]) (large [255, 1]) (large [0])
     = (Succeeds (), large [252, 8, 255], large [252])"
    by (simp add: primitiveBigDivide_def)
  show "val [0, 0, 1 :: 8 word] div val [255, 1 :: 8 word] = 128" by (simp add: val_8)
qed

text \<open>Nor are the top digits of the remainder: 16711680 divided by 32768 leaves 254 of the quotient 510.\<close>

lemma primitiveBigDivide_top_not_below:
  "primitiveBigDivide 3 (large [0, 0, 255]) (large [0, 128]) (large [0])
     = (Succeeds (), large [0, 0, 0], large [254])"
  "val [0, 0, 255 :: 8 word] div val [0, 128 :: 8 word] = 510"
proof -
  have e: "bigDivide_estimate 128 0 255 0 0 = 510"
    by (simp add: bigDivide_estimate_def bigDivide_test_def)
  have s: "subtractDivisor [0, 128] [0, 0, 255] 510 = ([0, 0, 0], False)"
    by (simp add: subtractDivisor_def)
  have "bigDivide_step [0, 128] [0, 0, 255] = (510, [0, 0, 0])"
    using e s by (simp add: bigDivide_step_def)
  then have "bigDivide_loop [0, 128] (3 - 2) [0, 0, 255] [0] = ([0, 0, 0], [254])" by simp
  then show "primitiveBigDivide 3 (large [0, 0, 255]) (large [0, 128]) (large [0])
     = (Succeeds (), large [0, 0, 0], large [254])"
    by (simp add: primitiveBigDivide_def)
  show "val [0, 0, 255 :: 8 word] div val [0, 128 :: 8 word] = 510" by (simp add: val_8)
qed

text \<open>The product, into digits that start as zeros, and the index of the top digit.\<close>

lemma primitiveBigMultiply_multiplies:
  assumes "is_large f1" "is_large f2" "is_large res" "\<not> large_immutable res" "val (bytes_of res) = 0"
    and "length (bytes_of res) = length (bytes_of f1) + length (bytes_of f2)"
  shows "\<exists>p. primitiveBigMultiply 3 f1 f2 res = Some (Succeeds (), res\<lparr>bytes_of := p\<rparr>) \<and>
    length p = length (bytes_of res) \<and> val p = val (bytes_of f1) * val (bytes_of f2)"
proof -
  have "val (drop (length (bytes_of f2)) (bytes_of res)) = 0"
    using val_take_drop [of "length (bytes_of f2)" "bytes_of res"] assms(5,6) by simp
  then show ?thesis
    using bigMultiply_rows_val [of "bytes_of res" 0 "bytes_of f1" "bytes_of f2"] assms
    by (auto simp: primitiveBigMultiply_def)
qed

lemma primitiveHighestNonZeroDigitIndex_val:
  assumes "is_large a"
  shows "val (bytes_of a) \<noteq> 0 \<Longrightarrow> \<exists>i. primitiveHighestNonZeroDigitIndex 0 a = Succeeds (i + 1) \<and>
      i < length (bytes_of a) \<and> 2 ^ (8 * i) \<le> val (bytes_of a) \<and> val (bytes_of a) < 2 ^ (8 * (i + 1))"
    and "val (bytes_of a) = 0 \<Longrightarrow> primitiveHighestNonZeroDigitIndex 0 a = Succeeds 1"
proof -
  show "\<exists>i. primitiveHighestNonZeroDigitIndex 0 a = Succeeds (i + 1) \<and>
      i < length (bytes_of a) \<and> 2 ^ (8 * i) \<le> val (bytes_of a) \<and> val (bytes_of a) < 2 ^ (8 * (i + 1))"
    if "val (bytes_of a) \<noteq> 0"
    using highest_loop_val [of "length (bytes_of a)" "bytes_of a"] that assms
    by (auto simp: primitiveHighestNonZeroDigitIndex_def)
  have "highest_loop b n = 0" if "n \<le> length b" "val b = 0" for b :: "8 word list" and n
    using that by (induction n) (auto simp: val_eq_0_iff)
  then show "primitiveHighestNonZeroDigitIndex 0 a = Succeeds 1" if "val (bytes_of a) = 0"
    using that assms by (simp add: primitiveHighestNonZeroDigitIndex_def)
qed

end
