(* ===== verification/JsonScan.thy ===== *)
theory JsonScan
  imports Prelude
begin

text \<open>
  Where a JSON value ends, \<open>sjText.c\<close> of the SimdJSONPlugin: white space, strings, and the scanner
  that finds the end of a value without parsing it. A source is a vector of units, bytes or 32-bit
  words; the C functions are written once for both widths, and so is the model, over the words of
  any width. An index is a unit index.
\<close>

abbreviation DQUOTE :: "32 word" where "DQUOTE \<equiv> 34"
abbreviation COMMA :: "32 word" where "COMMA \<equiv> 44"
abbreviation COLON :: "32 word" where "COLON \<equiv> 58"
abbreviation OPEN_BRACKET :: "32 word" where "OPEN_BRACKET \<equiv> 91"
abbreviation BACKSLASH :: "32 word" where "BACKSLASH \<equiv> 92"
abbreviation CLOSE_BRACKET :: "32 word" where "CLOSE_BRACKET \<equiv> 93"
abbreviation OPEN_BRACE :: "32 word" where "OPEN_BRACE \<equiv> 123"
abbreviation CLOSE_BRACE :: "32 word" where "CLOSE_BRACE \<equiv> 125"

definition isWhite :: "32 word \<Rightarrow> bool" where
  "isWhite c \<longleftrightarrow> c = 32 \<or> c = 9 \<or> c = 10 \<or> c = 13 \<or> c = 12"

definition unitAt :: "'w::len word list \<Rightarrow> nat \<Rightarrow> 32 word" where
  "unitAt src i = ucast (src ! i)"

function skipWhite :: "'w::len word list \<Rightarrow> nat \<Rightarrow> nat \<Rightarrow> nat" where
  "skipWhite src start stop =
     (if start < stop \<and> isWhite (unitAt src start) then skipWhite src (start + 1) stop else start)"
  by pat_completeness auto
termination by (relation "measure (\<lambda>(src, start, stop). stop - start)") auto

fun trimWhite :: "'w::len word list \<Rightarrow> nat \<Rightarrow> nat \<Rightarrow> nat" where
  "trimWhite src start stop =
     (if stop > start \<and> isWhite (unitAt src (stop - 1)) then trimWhite src start (stop - 1) else stop)"

function stringEnd_loop :: "'w::len word list \<Rightarrow> nat \<Rightarrow> nat \<Rightarrow> nat" where
  "stringEnd_loop src i stop =
     (if i < stop
      then let c = unitAt src i
        in if c = DQUOTE then i + 1
           else stringEnd_loop src (i + (if c = BACKSLASH then 2 else 1)) stop
      else stop)"
  by pat_completeness auto
termination by (relation "measure (\<lambda>(src, i, stop). stop - i)") auto

definition stringEnd :: "'w::len word list \<Rightarrow> nat \<Rightarrow> nat \<Rightarrow> nat" where
  "stringEnd src start stop = stringEnd_loop src (start + 1) stop"

declare skipWhite.simps [simp del] trimWhite.simps [simp del] stringEnd_loop.simps [simp del]

lemma stringEnd_loop_bounds:
  "i \<le> stop \<Longrightarrow> i \<le> stringEnd_loop src i stop \<and> stringEnd_loop src i stop \<le> stop"
proof (induction src i stop rule: stringEnd_loop.induct)
  case (1 src i stop)
  show ?case
  proof (cases "i < stop \<and> unitAt src i \<noteq> DQUOTE")
    case True
    define j where "j = i + (if unitAt src i = BACKSLASH then 2 else 1)"
    have e: "stringEnd_loop src i stop = stringEnd_loop src j stop"
      using True by (subst stringEnd_loop.simps) (simp add: Let_def j_def)
    show ?thesis
    proof (cases "j \<le> stop")
      case False then show ?thesis unfolding e using 1(2) by (simp add: stringEnd_loop.simps [of src j])
    next
      case le: True
      then have "j \<le> stringEnd_loop src j stop \<and> stringEnd_loop src j stop \<le> stop"
        using "1.IH" [OF _ refl] True by (simp add: j_def)
      then show ?thesis unfolding e j_def by simp
    qed
  next
    case False then show ?thesis using 1(2) by (subst (1 2) stringEnd_loop.simps) auto
  qed
qed

lemma stringEnd_bounds: "i < stop \<Longrightarrow> i < stringEnd src i stop \<and> stringEnd src i stop \<le> stop"
  using stringEnd_loop_bounds [of "i + 1" stop src] by (simp add: stringEnd_def)

text \<open>The loop over a container; the depth is an \<open>int\<close>, for the test follows the decrement.\<close>

function containerEnd_loop :: "'w::len word list \<Rightarrow> nat \<Rightarrow> int \<Rightarrow> nat \<Rightarrow> nat" where
  "containerEnd_loop src i depth stop =
     (if i < stop
      then let c = unitAt src i
        in if c = DQUOTE then containerEnd_loop src (stringEnd src i stop) depth stop
           else if c = OPEN_BRACE \<or> c = OPEN_BRACKET then containerEnd_loop src (i + 1) (depth + 1) stop
           else if c = CLOSE_BRACE \<or> c = CLOSE_BRACKET
             then if depth - 1 = 0 then i + 1 else containerEnd_loop src (i + 1) (depth - 1) stop
           else containerEnd_loop src (i + 1) depth stop
      else stop)"
  by pat_completeness auto
termination
  by (relation "measure (\<lambda>(src, i, depth, stop). stop - i)") (auto simp: stringEnd_bounds diff_less_mono2)

definition ends_scalar :: "32 word \<Rightarrow> bool" where
  "ends_scalar c \<longleftrightarrow> isWhite c \<or> c = COMMA \<or> c = COLON \<or> c = CLOSE_BRACKET \<or> c = CLOSE_BRACE
     \<or> c = OPEN_BRACKET \<or> c = OPEN_BRACE \<or> c = DQUOTE"

function scalarEnd_loop :: "'w::len word list \<Rightarrow> nat \<Rightarrow> nat \<Rightarrow> nat" where
  "scalarEnd_loop src i stop =
     (if i < stop \<and> \<not> ends_scalar (unitAt src i) then scalarEnd_loop src (i + 1) stop else i)"
  by pat_completeness auto
termination by (relation "measure (\<lambda>(src, i, stop). stop - i)") auto

definition valueEnd :: "'w::len word list \<Rightarrow> nat \<Rightarrow> nat \<Rightarrow> nat" where
  "valueEnd src start stop =
     (let c = unitAt src start
      in if c = OPEN_BRACE \<or> c = OPEN_BRACKET then containerEnd_loop src start 0 stop
         else if c = DQUOTE then stringEnd src start stop
         else scalarEnd_loop src (start + 1) stop)"

declare containerEnd_loop.simps [simp del] scalarEnd_loop.simps [simp del]

text \<open>The public functions choose the width; a source of bytes is read as bytes.\<close>

datatype source = Bytes "8 word list" | Words "32 word list"

fun sj_skip_ws :: "source \<Rightarrow> nat \<Rightarrow> nat \<Rightarrow> nat" where
  "sj_skip_ws (Bytes src) start stop = skipWhite src start stop"
| "sj_skip_ws (Words src) start stop = skipWhite src start stop"

fun sj_trim_ws :: "source \<Rightarrow> nat \<Rightarrow> nat \<Rightarrow> nat" where
  "sj_trim_ws (Bytes src) start stop = trimWhite src start stop"
| "sj_trim_ws (Words src) start stop = trimWhite src start stop"

fun sj_value_end :: "source \<Rightarrow> nat \<Rightarrow> nat \<Rightarrow> nat" where
  "sj_value_end (Bytes src) start stop = valueEnd src start stop"
| "sj_value_end (Words src) start stop = valueEnd src start stop"

text \<open>A source with its encoding.\<close>

datatype encoded = SJ_ENC_UTF8 "8 word list" | SJ_ENC_LATIN1 "8 word list" | SJ_ENC_UTF32 "32 word list"

fun sj_is_bom :: "encoded \<Rightarrow> nat \<Rightarrow> nat \<Rightarrow> bool" where
  "sj_is_bom (SJ_ENC_UTF8 s) at stop \<longleftrightarrow>
     at + 3 \<le> stop \<and> s ! at = 0xEF \<and> s ! (at + 1) = 0xBB \<and> s ! (at + 2) = 0xBF"
| "sj_is_bom (SJ_ENC_UTF32 w) at stop \<longleftrightarrow> at < stop \<and> w ! at = 0xFEFF"
| "sj_is_bom (SJ_ENC_LATIN1 s) at stop \<longleftrightarrow> False"

subsection \<open>White space\<close>

lemma skipWhite_spec:
  assumes "start \<le> stop"
  shows "start \<le> skipWhite src start stop \<and> skipWhite src start stop \<le> stop
    \<and> (\<forall>i. start \<le> i \<and> i < skipWhite src start stop \<longrightarrow> isWhite (unitAt src i))
    \<and> (skipWhite src start stop < stop \<longrightarrow> \<not> isWhite (unitAt src (skipWhite src start stop)))"
  using assms
proof (induction src start stop rule: skipWhite.induct)
  case (1 src start stop)
  show ?case
  proof (cases "start < stop \<and> isWhite (unitAt src start)")
    case True
    then have e: "skipWhite src start stop = skipWhite src (start + 1) stop" by (subst skipWhite.simps) simp
    have le: "start + 1 \<le> stop" using True by simp
    define r where "r = skipWhite src (start + 1) stop"
    have r: "start + 1 \<le> r" "r \<le> stop" "\<And>i. start + 1 \<le> i \<Longrightarrow> i < r \<Longrightarrow> isWhite (unitAt src i)"
      "r < stop \<Longrightarrow> \<not> isWhite (unitAt src r)"
      using "1.IH" [OF True le] unfolding r_def by blast+
    have "isWhite (unitAt src i)" if "start \<le> i" "i < r" for i
      using r(3) [of i] True that by (cases "i = start") auto
    then show ?thesis unfolding e r_def [symmetric] using r by auto
  next
    case False then show ?thesis using 1(2) by (auto simp: skipWhite.simps [of src start])
  qed
qed

lemma trimWhite_spec:
  assumes "start \<le> stop"
  shows "start \<le> trimWhite src start stop \<and> trimWhite src start stop \<le> stop
    \<and> (\<forall>i. trimWhite src start stop \<le> i \<and> i < stop \<longrightarrow> isWhite (unitAt src i))
    \<and> (start < trimWhite src start stop \<longrightarrow> \<not> isWhite (unitAt src (trimWhite src start stop - 1)))"
  using assms
proof (induction src start stop rule: trimWhite.induct)
  case (1 src start stop)
  show ?case
  proof (cases "stop > start \<and> isWhite (unitAt src (stop - 1))")
    case True
    then have e: "trimWhite src start stop = trimWhite src start (stop - 1)" by (subst trimWhite.simps) simp
    have le: "start \<le> stop - 1" using True by linarith
    define r where "r = trimWhite src start (stop - 1)"
    have r: "start \<le> r" "r \<le> stop - 1" "\<And>i. r \<le> i \<Longrightarrow> i < stop - 1 \<Longrightarrow> isWhite (unitAt src i)"
      "start < r \<Longrightarrow> \<not> isWhite (unitAt src (r - 1))"
      using "1.IH" [OF True le] unfolding r_def by blast+
    have "isWhite (unitAt src i)" if "r \<le> i" "i < stop" for i
      using r(3) [of i] True that by (cases "i = stop - 1") auto
    moreover have "r \<le> stop" using r(2) by linarith
    ultimately show ?thesis unfolding e r_def [symmetric] using r(1,4) by blast
  next
    case False then show ?thesis using 1(2) by (auto simp: trimWhite.simps [of src start stop])
  qed
qed

subsection \<open>The syntax of JSON\<close>

text \<open>
  JSON texts as vectors of units, with the white space of the scanner. A scalar is any run of units
  that does not end one: the numbers and the three literals are such runs. Strings hold any unit, a
  backslash and the unit after it stand together. The arrays and objects here include all of JSON's.
\<close>

inductive string_body :: "'w::len word list \<Rightarrow> bool" where
  body_empty: "string_body []"
| body_plain: "ucast c \<noteq> DQUOTE \<Longrightarrow> ucast c \<noteq> BACKSLASH \<Longrightarrow> string_body cs \<Longrightarrow> string_body (c # cs)"
| body_escape: "ucast b = BACKSLASH \<Longrightarrow> string_body cs \<Longrightarrow> string_body (b # c # cs)"

definition is_unit :: "32 word \<Rightarrow> 'w::len word \<Rightarrow> bool" where
  "is_unit c u \<longleftrightarrow> ucast u = c"

definition whites :: "'w::len word list \<Rightarrow> bool" where
  "whites cs \<longleftrightarrow> (\<forall>c \<in> set cs. isWhite (ucast c))"

inductive json_string :: "'w::len word list \<Rightarrow> bool" where
  "is_unit DQUOTE p \<Longrightarrow> string_body cs \<Longrightarrow> is_unit DQUOTE q \<Longrightarrow> json_string (p # cs @ [q])"

inductive json_scalar :: "'w::len word list \<Rightarrow> bool" where
  "cs \<noteq> [] \<Longrightarrow> (\<forall>c \<in> set cs. \<not> ends_scalar (ucast c)) \<Longrightarrow> json_scalar cs"

inductive json :: "'w::len word list \<Rightarrow> bool"
  and json_items :: "'w word list \<Rightarrow> bool"
  and json_members :: "'w word list \<Rightarrow> bool" where
  "json_scalar cs \<Longrightarrow> json cs"
| "json_string cs \<Longrightarrow> json cs"
| "is_unit OPEN_BRACKET p \<Longrightarrow> whites ws \<Longrightarrow> is_unit CLOSE_BRACKET q \<Longrightarrow> json (p # ws @ [q])"
| "is_unit OPEN_BRACKET p \<Longrightarrow> json_items xs \<Longrightarrow> is_unit CLOSE_BRACKET q \<Longrightarrow> json (p # xs @ [q])"
| "is_unit OPEN_BRACE p \<Longrightarrow> whites ws \<Longrightarrow> is_unit CLOSE_BRACE q \<Longrightarrow> json (p # ws @ [q])"
| "is_unit OPEN_BRACE p \<Longrightarrow> json_members xs \<Longrightarrow> is_unit CLOSE_BRACE q \<Longrightarrow> json (p # xs @ [q])"
| "whites w1 \<Longrightarrow> json v \<Longrightarrow> whites w2 \<Longrightarrow> json_items (w1 @ v @ w2)"
| "whites w1 \<Longrightarrow> json v \<Longrightarrow> whites w2 \<Longrightarrow> is_unit COMMA m \<Longrightarrow> json_items xs \<Longrightarrow> json_items (w1 @ v @ w2 @ m # xs)"
| "whites w1 \<Longrightarrow> json_string k \<Longrightarrow> whites w2 \<Longrightarrow> is_unit COLON d \<Longrightarrow> whites w3 \<Longrightarrow> json v \<Longrightarrow> whites w4 \<Longrightarrow>
     json_members (w1 @ k @ w2 @ d # w3 @ v @ w4)"
| "whites w1 \<Longrightarrow> json_string k \<Longrightarrow> whites w2 \<Longrightarrow> is_unit COLON d \<Longrightarrow> whites w3 \<Longrightarrow> json v \<Longrightarrow> whites w4 \<Longrightarrow>
     is_unit COMMA m \<Longrightarrow> json_members xs \<Longrightarrow> json_members (w1 @ k @ w2 @ d # w3 @ v @ w4 @ m # xs)"

subsection \<open>The scanner on a piece of text\<close>

text \<open>\<open>src\<close> holds \<open>cs\<close> at \<open>i\<close>, below \<open>stop\<close>.\<close>

definition holds_at :: "'w::len word list \<Rightarrow> nat \<Rightarrow> nat \<Rightarrow> 'w word list \<Rightarrow> bool" where
  "holds_at src i stop cs \<longleftrightarrow> i + length cs \<le> stop \<and> (\<forall>k < length cs. src ! (i + k) = cs ! k)"

lemma holds_at_Nil [simp]: "holds_at src i stop [] \<longleftrightarrow> i \<le> stop"
  by (simp add: holds_at_def)

lemma holds_at_Cons [simp]:
  "holds_at src i stop (c # cs) \<longleftrightarrow> i < stop \<and> src ! i = c \<and> holds_at src (i + 1) stop cs"
  by (auto simp: holds_at_def All_less_Suc2 Suc_le_eq)

lemma holds_at_le: "holds_at src i stop cs \<Longrightarrow> i \<le> stop"
  by (simp add: holds_at_def)

lemma holds_at_append [simp]:
  "holds_at src i stop (cs @ ds) \<longleftrightarrow> holds_at src i stop cs \<and> holds_at src (i + length cs) stop ds"
  by (induction cs arbitrary: i) (auto dest: holds_at_le)

lemma stringEnd_loop_body:
  "string_body cs \<Longrightarrow> holds_at src i stop (cs @ [q]) \<Longrightarrow> is_unit DQUOTE q \<Longrightarrow>
   stringEnd_loop src i stop = i + length cs + 1"
proof (induction cs arbitrary: i rule: string_body.induct)
  case body_empty then show ?case by (subst stringEnd_loop.simps) (simp add: unitAt_def is_unit_def)
next
  case (body_plain c cs)
  then show ?case by (subst stringEnd_loop.simps) (simp add: unitAt_def)
next
  case (body_escape b cs c)
  then show ?case by (subst stringEnd_loop.simps) (simp add: unitAt_def)
qed

lemma stringEnd_string:
  assumes "json_string cs" "holds_at src i stop cs"
  shows "stringEnd src i stop = i + length cs"
  using assms(1) by cases (use assms(2) in \<open>simp add: stringEnd_def stringEnd_loop_body\<close>)

lemma scalarEnd_loop_run:
  "\<forall>c \<in> set cs. \<not> ends_scalar (ucast c) \<Longrightarrow> holds_at src i stop cs \<Longrightarrow>
   scalarEnd_loop src i stop = scalarEnd_loop src (i + length cs) stop"
proof (induction cs arbitrary: i)
  case (Cons c cs)
  then have "scalarEnd_loop src i stop = scalarEnd_loop src (i + 1) stop"
    by (subst scalarEnd_loop.simps) (simp add: unitAt_def)
  also have "\<dots> = scalarEnd_loop src (i + 1 + length cs) stop" using Cons by simp
  finally show ?case by simp
qed simp

text \<open>The container loop passes over a piece \<open>cs\<close> at depth \<open>d\<close> and stands behind it, at the same depth.\<close>

definition passes :: "'w::len word list \<Rightarrow> bool" where
  "passes cs \<longleftrightarrow> (\<forall>src i d stop. 0 < d \<longrightarrow> holds_at src i stop cs \<longrightarrow>
     containerEnd_loop src i d stop = containerEnd_loop src (i + length cs) d stop)"

lemma passes_append: "passes cs \<Longrightarrow> passes ds \<Longrightarrow> passes (cs @ ds)"
  by (simp add: passes_def add.assoc)

lemma passes_unit:
  assumes "ucast c \<noteq> DQUOTE" "ucast c \<noteq> OPEN_BRACE" "ucast c \<noteq> OPEN_BRACKET" "ucast c \<noteq> CLOSE_BRACE" "ucast c \<noteq> CLOSE_BRACKET"
  shows "passes [c]"
  using assms by (auto simp: passes_def unitAt_def containerEnd_loop.simps [of _ _ _ stop for stop])

lemma passes_Cons: "passes [c] \<Longrightarrow> passes cs \<Longrightarrow> passes (c # cs)"
  using passes_append [of "[c]" cs] by simp

lemma passes_run: "(\<And>c. c \<in> set cs \<Longrightarrow> passes [c]) \<Longrightarrow> passes cs"
  by (induction cs) (auto simp: passes_Cons intro: passes_Cons, simp add: passes_def)

lemma passes_whites: "whites cs \<Longrightarrow> passes cs"
  by (rule passes_run, rule passes_unit) (auto simp: whites_def isWhite_def)

lemma passes_scalar: "json_scalar cs \<Longrightarrow> passes cs"
  by (rule passes_run, rule passes_unit) (auto simp: ends_scalar_def elim!: json_scalar.cases)

lemma passes_string: "json_string (cs :: 'a::len word list) \<Longrightarrow> passes cs"
  unfolding passes_def
proof (intro allI impI)
  fix src :: "'a word list" and i :: nat and d :: int and stop :: nat assume s: "json_string cs" "holds_at src i stop cs"
  then have "i < stop" "unitAt src i = DQUOTE" by (auto simp: unitAt_def is_unit_def elim!: json_string.cases)
  then show "containerEnd_loop src i d stop = containerEnd_loop src (i + length cs) d stop"
    by (subst containerEnd_loop.simps) (simp add: stringEnd_string [OF s])
qed

definition opens :: "32 word \<Rightarrow> bool" where
  "opens c \<longleftrightarrow> c = OPEN_BRACE \<or> c = OPEN_BRACKET"

definition closes :: "32 word \<Rightarrow> bool" where
  "closes c \<longleftrightarrow> c = CLOSE_BRACE \<or> c = CLOSE_BRACKET"

lemma passes_container:
  fixes p q :: "'a::len word"
  assumes "opens (ucast p)" "passes cs" "closes (ucast q)" shows "passes (p # cs @ [q])"
  unfolding passes_def
proof (intro allI impI)
  fix src :: "'a word list" and i :: nat and d :: int and stop :: nat assume d: "0 < d" and h: "holds_at src i stop (p # cs @ [q])"
  have "containerEnd_loop src i d stop = containerEnd_loop src (i + 1) (d + 1) stop"
    using h assms(1) by (subst containerEnd_loop.simps) (auto simp: unitAt_def opens_def)
  also have "\<dots> = containerEnd_loop src (i + 1 + length cs) (d + 1) stop"
    using h d assms(2) by (simp add: passes_def)
  also have "\<dots> = containerEnd_loop src (i + 1 + length cs + 1) d stop"
    using h d assms(3) by (subst containerEnd_loop.simps) (auto simp: unitAt_def closes_def)
  finally show "containerEnd_loop src i d stop = containerEnd_loop src (i + length (p # cs @ [q])) d stop" by simp
qed

lemma is_unit_simps [simp]:
  "is_unit OPEN_BRACKET p \<Longrightarrow> opens (ucast p)" "is_unit OPEN_BRACE p \<Longrightarrow> opens (ucast p)"
  "is_unit CLOSE_BRACKET q \<Longrightarrow> closes (ucast q)" "is_unit CLOSE_BRACE q \<Longrightarrow> closes (ucast q)"
  "is_unit COMMA m \<Longrightarrow> passes [m]" "is_unit COLON m \<Longrightarrow> passes [m]"
  by (auto simp: is_unit_def opens_def closes_def intro: passes_unit)

lemmas passes_intros = passes_container passes_whites passes_string passes_scalar passes_append passes_Cons

lemma json_passes:
  "json cs \<Longrightarrow> passes cs" "json_items cs \<Longrightarrow> passes cs" "json_members cs \<Longrightarrow> passes cs"
  by (induction cs and cs and cs rule: json_json_items_json_members.inducts)
    (simp_all add: passes_intros)

subsection \<open>The end of a value\<close>

lemma valueEnd_container:
  assumes "opens (ucast p)" "passes cs" "closes (ucast q)" "holds_at src start stop (p # cs @ [q])"
  shows "valueEnd src start stop = start + length (p # cs @ [q])"
proof -
  have "valueEnd src start stop = containerEnd_loop src start 0 stop"
    using assms(1,4) by (auto simp: valueEnd_def unitAt_def opens_def)
  also have "\<dots> = containerEnd_loop src (start + 1) 1 stop"
    using assms(1,4) by (subst containerEnd_loop.simps) (auto simp: unitAt_def opens_def)
  also have "\<dots> = containerEnd_loop src (start + 1 + length cs) 1 stop"
    using assms(2,4) by (simp add: passes_def)
  also have "\<dots> = start + 1 + length cs + 1"
    using assms(3,4) by (subst containerEnd_loop.simps) (auto simp: unitAt_def closes_def)
  finally show ?thesis by simp
qed

lemma valueEnd_scalar:
  assumes "json_scalar v" "holds_at src start stop v"
    "start + length v = stop \<or> ends_scalar (unitAt src (start + length v))"
  shows "valueEnd src start stop = start + length v"
proof -
  obtain c cs where v: "v = c # cs" "\<forall>x \<in> set (c # cs). \<not> ends_scalar (ucast x)"
    using assms(1) by (metis json_scalar.cases list.exhaust)
  then have c: "unitAt src start = ucast c" "\<not> ends_scalar (ucast c)" using assms(2) by (auto simp: unitAt_def)
  have "valueEnd src start stop = scalarEnd_loop src (start + 1) stop"
    using c by (auto simp: valueEnd_def ends_scalar_def Let_def)
  also have "\<dots> = scalarEnd_loop src (start + 1 + length cs) stop"
    by (rule scalarEnd_loop_run) (use v assms(2) in auto)
  also have "\<dots> = start + 1 + length cs"
    using assms(3) v by (subst scalarEnd_loop.simps) auto
  finally show ?thesis using v by simp
qed

lemma valueEnd_string:
  assumes "json_string v" "holds_at src start stop v"
  shows "valueEnd src start stop = start + length v"
proof -
  have "unitAt src start = DQUOTE" using assms by (auto simp: unitAt_def is_unit_def elim!: json_string.cases)
  then show ?thesis using stringEnd_string [OF assms] by (simp add: valueEnd_def)
qed

text \<open>
  C11: The scanner finds the end of every JSON value: where the text holds a value of JSON's grammar,
  of any depth, with brackets and quotes in its strings escaped or not, the answer is the index
  behind it; a scalar must be followed by the end or by a unit that ends it, as every JSON text does.
\<close>

theorem valueEnd_of_json:
  assumes "json v" "holds_at src start stop v"
    "json_scalar v \<Longrightarrow> start + length v = stop \<or> ends_scalar (unitAt src (start + length v))"
  shows "valueEnd src start stop = start + length v"
  using assms(1)
proof cases
  case 1 then show ?thesis using valueEnd_scalar [OF _ assms(2)] assms(3) by blast
next
  case 2 then show ?thesis using valueEnd_string [OF _ assms(2)] by blast
next
  case (3 p ws q) then show ?thesis using valueEnd_container [of p ws q] passes_whites [OF 3(3)] assms(2) by (simp del: holds_at_Cons)
next
  case (4 p xs q) then show ?thesis using valueEnd_container [of p xs q] json_passes(2) [OF 4(3)] assms(2) by (simp del: holds_at_Cons)
next
  case (5 p ws q) then show ?thesis using valueEnd_container [of p ws q] passes_whites [OF 5(3)] assms(2) by (simp del: holds_at_Cons)
next
  case (6 p xs q) then show ?thesis using valueEnd_container [of p xs q] json_passes(3) [OF 6(3)] assms(2) by (simp del: holds_at_Cons)
qed

text \<open>The text \<open>{"a]":[1,2]} \<close> in bytes.\<close>

abbreviation example_object :: "8 word list" where
  "example_object \<equiv> [123, 34, 97, 93, 34, 58, 91, 49, 44, 50, 93, 125]"

lemma example_object_json: "json example_object"
proof -
  have u: "is_unit OPEN_BRACE (123 :: 8 word)" "is_unit CLOSE_BRACE (125 :: 8 word)" "is_unit OPEN_BRACKET (91 :: 8 word)"
    "is_unit CLOSE_BRACKET (93 :: 8 word)" "is_unit COMMA (44 :: 8 word)" "is_unit COLON (58 :: 8 word)" "is_unit DQUOTE (34 :: 8 word)"
    by (simp_all add: is_unit_def)
  have n: "whites ([] :: 8 word list)" by (simp add: whites_def)
  have d: "json [49 :: 8 word]" "json [50 :: 8 word]"
    by (simp_all add: json_scalar.simps ends_scalar_def isWhite_def json_json_items_json_members.intros(1))
  have "json_items [50 :: 8 word]" using json_json_items_json_members.intros(7) [OF n d(2) n] by simp
  then have "json_items [49, 44, 50 :: 8 word]"
    using json_json_items_json_members.intros(8) [OF n d(1) n u(5)] by simp
  then have a: "json [91, 49, 44, 50, 93 :: 8 word]"
    using json_json_items_json_members.intros(4) [OF u(3) _ u(4)] by fastforce
  have "string_body [97, 93 :: 8 word]" by (intro string_body.intros) simp_all
  then have "json_string [34, 97, 93, 34 :: 8 word]" using json_string.intros [OF u(7) _ u(7)] by fastforce
  then have "json_members [34, 97, 93, 34, 58, 91, 49, 44, 50, 93 :: 8 word]"
    using json_json_items_json_members.intros(9) [OF n _ n u(6) n a n] by fastforce
  then show ?thesis using json_json_items_json_members.intros(6) [OF u(1) _ u(2)] by fastforce
qed

lemma valueEnd_of_json_witness: "valueEnd (example_object @ [32, 44, 125]) 0 15 = 12"
  using valueEnd_of_json [OF example_object_json, of "example_object @ [32, 44, 125]" 0 15]
  by (simp add: unitAt_def isWhite_def ends_scalar_def)

lemma containerEnd_bounds:
  "i < stop \<Longrightarrow> i < containerEnd_loop src i depth stop \<and> containerEnd_loop src i depth stop \<le> stop"
proof (induction src i depth stop rule: containerEnd_loop.induct)
  case (1 src i depth stop)
  have s: "i < stringEnd src i stop" "stringEnd src i stop \<le> stop" using stringEnd_bounds [OF 1(5)] by auto
  have e: "containerEnd_loop src stop d stop = stop" for d by (subst containerEnd_loop.simps) simp
  have step: "i < containerEnd_loop src j d stop \<and> containerEnd_loop src j d stop \<le> stop"
    if "i < j" "j \<le> stop" "j < stop \<Longrightarrow> j < containerEnd_loop src j d stop \<and> containerEnd_loop src j d stop \<le> stop" for j d
    using that e by (cases "j < stop") auto
  let ?c = "unitAt src i"
  consider (Quote) "?c = DQUOTE" | (Open) "opens ?c" | (Last) "closes ?c" "depth = 1" | (Close) "closes ?c" "depth \<noteq> 1"
    | (Other) "?c \<noteq> DQUOTE" "\<not> opens ?c" "\<not> closes ?c" by blast
  then show ?case
  proof cases
    case Quote
    then have "containerEnd_loop src i depth stop = containerEnd_loop src (stringEnd src i stop) depth stop"
      using 1(5) by (subst containerEnd_loop.simps) simp
    then show ?thesis using step [OF s "1.IH"(1) [OF 1(5) refl Quote]] by simp
  next
    case Open
    then have "?c \<noteq> DQUOTE" by (auto simp: opens_def)
    moreover from Open this have "containerEnd_loop src i depth stop = containerEnd_loop src (i + 1) (depth + 1) stop"
      using 1(5) by (subst containerEnd_loop.simps) (auto simp: opens_def)
    ultimately show ?thesis using step [of "i + 1" "depth + 1"] "1.IH"(2) [OF 1(5) refl] Open 1(5) by (simp add: opens_def)
  next
    case Last
    then have "containerEnd_loop src i depth stop = i + 1"
      using 1(5) by (subst containerEnd_loop.simps) (auto simp: closes_def)
    then show ?thesis using 1(5) by simp
  next
    case Close
    then have n: "?c \<noteq> DQUOTE" "\<not> (?c = OPEN_BRACE \<or> ?c = OPEN_BRACKET)" by (auto simp: closes_def)
    from Close have e: "containerEnd_loop src i depth stop = containerEnd_loop src (i + 1) (depth - 1) stop"
      using 1(5) by (subst containerEnd_loop.simps) (auto simp: closes_def)
    show ?thesis unfolding e
      using step [of "i + 1" "depth - 1"] "1.IH"(3) [OF 1(5) refl n] Close 1(5) by (simp add: closes_def)
  next
    case Other
    then have e: "containerEnd_loop src i depth stop = containerEnd_loop src (i + 1) depth stop"
      using 1(5) by (subst containerEnd_loop.simps) (auto simp: closes_def opens_def)
    show ?thesis unfolding e
      using step [of "i + 1" depth] "1.IH"(4) [OF 1(5) refl] Other 1(5) by (simp add: closes_def opens_def)
  qed
qed

lemma scalarEnd_bounds:
  "i \<le> stop \<Longrightarrow> i \<le> scalarEnd_loop src i stop \<and> scalarEnd_loop src i stop \<le> stop"
proof (induction src i stop rule: scalarEnd_loop.induct)
  case (1 src i stop)
  show ?case
  proof (cases "i < stop \<and> \<not> ends_scalar (unitAt src i)")
    case True
    then have "scalarEnd_loop src i stop = scalarEnd_loop src (i + 1) stop" by (subst scalarEnd_loop.simps) simp
    then show ?thesis using "1.IH" True by simp
  next
    case False then show ?thesis using 1(2) by (auto simp: scalarEnd_loop.simps [of src i])
  qed
qed

text \<open>
  The end of a value is behind its first unit and not behind the end of the text, whatever the
  text holds: the callers that go on from there always advance and stay inside.
\<close>

theorem valueEnd_in_text:
  assumes "start < stop"
  shows "start < valueEnd src start stop \<and> valueEnd src start stop \<le> stop"
  using stringEnd_bounds [OF assms, of src] containerEnd_bounds [OF assms, of src 0]
    scalarEnd_bounds [of "start + 1" stop src] assms
  by (simp add: valueEnd_def Let_def)

lemma valueEnd_in_text_witness:
  "0 < valueEnd [123, 91, 125 :: 32 word] 0 3 \<and> valueEnd [123, 91, 125 :: 32 word] 0 3 \<le> 3"
  using valueEnd_in_text [of 0 3] by simp

end
