(* ===== verification/ByteWords.thy ===== *)
theory ByteWords
  imports Prelude
begin

text \<open>
  Eight bytes in a machine word, the loops of \<open>sjText.c\<close> that look at eight or sixteen bytes at once:
  \<open>bytesEqual\<close>, \<open>numberBytes\<close>, the test for a zero byte and the count of the first bytes of runs. A
  word is read as the list of its bytes, the byte at the lowest address (the least significant one)
  first, as \<open>memcpy\<close> fills it on the little-endian machines these paths are compiled for.
\<close>

fun pack :: "8 word list \<Rightarrow> 64 word" where
  "pack [] = 0"
| "pack (b # bs) = ucast b + 256 * pack bs"

definition ONES :: "64 word" where "ONES = 0x0101010101010101"
definition HIGHS :: "64 word" where "HIGHS = 0x8080808080808080"

definition bytesEqual :: "64 word \<Rightarrow> 8 word \<Rightarrow> 64 word" where
  "bytesEqual w c = (let x = w XOR (ONES * ucast c) in NOT ((x + NOT HIGHS) OR x) AND HIGHS)"

definition numberBytes :: "64 word \<Rightarrow> 64 word" where
  "numberBytes w = (w + ONES * (0x80 - 0x2D)) AND NOT (w + ONES * (0x80 - 0x39 - 1)) AND HIGHS"

text \<open>The test of the sixteen byte loop: zero bytes of \<open>x\<close>.\<close>

definition zeroTest :: "64 word \<Rightarrow> 64 word" where
  "zeroTest x = (x - ONES) AND NOT x"

definition zeroBytes :: "64 word \<Rightarrow> 64 word" where
  "zeroBytes x = zeroTest x AND HIGHS"

text \<open>The first byte of each run as a 1: \<open>(run & ~(run << 8 | before)) >> 7\<close>.\<close>

definition firstBytes :: "64 word \<Rightarrow> 64 word \<Rightarrow> 64 word" where
  "firstBytes run before = drop_bit 7 (run AND NOT (push_bit 8 run OR before))"

subsection \<open>Bytes and bits of a word\<close>

lemma bit_byte: "bit (ucast (b :: 8 word) :: 64 word) k \<longleftrightarrow> k < 8 \<and> bit b k"
  by (auto simp: bit_simps dest: bit_imp_le_length)

lemma pack_Cons_or: "pack (b # bs) = ucast b OR push_bit 8 (pack bs)"
proof -
  have "ucast b + push_bit 8 (pack bs) = ucast b OR push_bit 8 (pack bs)"
    by (rule disjunctive_add) (auto simp: bit_byte bit_push_bit_iff)
  then show ?thesis by (simp add: push_bit_eq_mult mult.commute)
qed

lemma bit_pack:
  "length bs \<le> 8 \<Longrightarrow> bit (pack bs) k \<longleftrightarrow> k div 8 < length bs \<and> bit (bs ! (k div 8)) (k mod 8)"
proof (induction bs arbitrary: k)
  case (Cons b bs)
  have e: "bit (pack (b # bs)) k \<longleftrightarrow> (k < 8 \<and> bit b k) \<or> (8 \<le> k \<and> bit (pack bs) (k - 8) \<and> k < 64)"
    unfolding pack_Cons_or by (auto simp: bit_or_iff bit_push_bit_iff bit_byte)
  show ?case
  proof (cases "k < 8")
    case True then show ?thesis unfolding e by simp
  next
    case False
    define j where "j = k - 8"
    have k: "k = j + 8" using False by (simp add: j_def)
    have "bit (pack (b # bs)) k \<longleftrightarrow> bit (pack bs) j \<and> j < 56" using e unfolding k by auto
    also have "\<dots> \<longleftrightarrow> j div 8 < length bs \<and> bit (bs ! (j div 8)) (j mod 8)"
    proof -
      have "j < 56" if "j div 8 < length bs" using that Cons.prems by simp
      moreover have "bit (pack bs) j \<longleftrightarrow> j div 8 < length bs \<and> bit (bs ! (j div 8)) (j mod 8)"
        using Cons.IH [of j] Cons.prems by simp
      ultimately show ?thesis by blast
    qed
    moreover have "k div 8 = Suc (j div 8)" "k mod 8 = j mod 8" using k by simp_all
    ultimately show ?thesis by simp
  qed
qed simp

lemma pack_append: "pack (as @ bs) = pack as + 2 ^ (8 * length as) * pack bs"
  by (induction as) (simp_all add: algebra_simps power_add)

lemma low_bit: "k < m \<Longrightarrow> bit (a + 2 ^ m * z) k \<longleftrightarrow> bit (a :: 64 word) k"
proof -
  assume k: "k < m"
  have "bit (uint a + 2 ^ m * uint z) k \<longleftrightarrow> bit (uint a) k"
  proof -
    have "take_bit m (uint a + 2 ^ m * uint z) = take_bit m (uint a)" by (simp add: take_bit_eq_mod)
    then show ?thesis using k by (metis bit_take_bit_iff)
  qed
  moreover have "a + 2 ^ m * z = word_of_int (uint a + 2 ^ m * uint z)" by simp
  ultimately show ?thesis by (simp only: bit_word_of_int_iff) (auto simp: bit_uint_iff dest: bit_imp_le_length)
qed

text \<open>The bit on top of byte \<open>f\<close> of a sum that is known up to there.\<close>

lemma top_bit_pack:
  assumes "length ys = Suc f" "f < 8"
  shows "bit (pack ys + 2 ^ (8 * Suc f) * z) (8 * f + 7) \<longleftrightarrow> bit (ys ! f) 7"
proof -
  have "bit (pack ys + 2 ^ (8 * Suc f) * z) (8 * f + 7) \<longleftrightarrow> bit (pack ys) (8 * f + 7)"
    by (rule low_bit) simp
  then show ?thesis using assms by (simp add: bit_pack)
qed

lemma bit_0x80: "bit (0x80 :: 8 word) j \<longleftrightarrow> j = 7" "bit (0x80 :: 64 word) j \<longleftrightarrow> j = 7" "bit (0x80 :: int) j \<longleftrightarrow> j = 7"
  using bit_exp_iff [of 7 j, where 'a = "8 word"] bit_exp_iff [of 7 j, where 'a = "64 word"] bit_exp_iff [of 7 j, where 'a = int]
  by auto

lemma bit_HIGHS: "bit HIGHS k \<longleftrightarrow> k < 64 \<and> k mod 8 = 7"
proof -
  have h: "HIGHS = pack (replicate 8 0x80)" by code_simp
  have "bit HIGHS k \<longleftrightarrow> k div 8 < 8 \<and> k mod 8 = 7"
    unfolding h by (subst bit_pack) (auto simp only: length_replicate nth_replicate bit_0x80)
  then show ?thesis by auto
qed

lemma replicate_8: "replicate 8 c = [c, c, c, c, c, c, c, c]"
  by (simp add: numeral_eq_Suc)

lemma ONES_times: "ONES * ucast c = pack (replicate 8 c)"
  by (simp add: ONES_def replicate_8)

subsection \<open>The tests and the byte they find\<close>

lemma ucast_byte_add:
  "unat (a :: 8 word) + unat b < 256 \<Longrightarrow> (ucast (a + b) :: 64 word) = ucast a + ucast b"
proof -
  assume "unat a + unat b < 256"
  then have "unat (a + b) = unat a + unat b" by (simp add: unat_word_ariths)
  then have "(of_nat (unat (a + b)) :: 64 word) = of_nat (unat a) + of_nat (unat b)" by simp
  then show ?thesis by simp
qed

lemma pack_add:
  "\<forall>x \<in> set xs. unat x + unat c < 256 \<Longrightarrow> pack xs + pack (replicate (length xs) c) = pack (map (\<lambda>x. x + c) xs)"
proof (induction xs)
  case (Cons x xs)
  then have "256 * (pack xs + pack (replicate (length xs) c)) = 256 * pack (map (\<lambda>x. x + c) xs)" by simp
  then show ?case using Cons.prems by (simp add: ucast_byte_add distrib_left)
qed simp

lemma split_byte: "f < length xs \<Longrightarrow> pack xs = pack (take f xs) + 2 ^ (8 * f) * ucast (xs ! f) + 2 ^ (8 * Suc f) * pack (drop (Suc f) xs)"
  by (subst id_take_nth_drop, assumption, subst pack_append) (simp add: algebra_simps power_add)

lemma split_ones:
  assumes "f < n" shows "pack (replicate n c) = pack (replicate f c) + 2 ^ (8 * f) * ucast c + 2 ^ (8 * Suc f) * pack (replicate (n - Suc f) c)"
  using split_byte [of f "replicate n c"] assms by simp

text \<open>The lowest byte of \<open>xs\<close> that is 0 is marked, if the bytes below it are ASCII.\<close>

lemma marks_lowest_zero:
  assumes "f < length xs" "length xs = 8" "xs ! f = 0" "\<forall>x \<in> set (take f xs). unat x < 128"
  shows "NOT ((pack xs + NOT HIGHS) OR pack xs) AND HIGHS \<noteq> 0"
proof -
  have h: "NOT HIGHS = pack (replicate 8 127)" by (simp add: HIGHS_def replicate_8)
  let ?ys = "map (\<lambda>x. x + 127) (take f xs) @ [127]"
  have x: "pack xs = pack (take f xs) + 2 ^ (8 * Suc f) * pack (drop (Suc f) xs)"
    using split_byte [OF assms(1)] assms(3) by simp
  have c: "pack (replicate 8 127) = pack (replicate f 127) + 2 ^ (8 * f) * ucast (127 :: 8 word) + 2 ^ (8 * Suc f) * pack (replicate (8 - Suc f) 127)"
    by (rule split_ones) (use assms in simp)
  have "\<forall>x \<in> set (take f xs). unat x + unat (127 :: 8 word) < 256" using assms(4) by auto
  then have "pack (take f xs) + pack (replicate f 127) = pack (map (\<lambda>x. x + 127) (take f xs))"
    using pack_add [of "take f xs" 127] assms(1,2) by simp
  then have y: "pack ?ys = pack (take f xs) + pack (replicate f 127) + 2 ^ (8 * f) * ucast (127 :: 8 word)"
    using assms(1) by (simp add: pack_append min_def)
  have "pack xs + NOT HIGHS = pack ?ys + 2 ^ (8 * Suc f) * (pack (drop (Suc f) xs) + pack (replicate (8 - Suc f) 127))"
    unfolding h x c y distrib_left by (simp only: ac_simps)
  then have "bit (pack xs + NOT HIGHS) (8 * f + 7) \<longleftrightarrow> bit (?ys ! f) 7"
    using top_bit_pack [of ?ys f] assms(1,2) by (simp add: min_def)
  also have "\<dots> \<longleftrightarrow> False" using assms(1,2) by (simp add: nth_append min_def)
  finally have "\<not> bit (pack xs + NOT HIGHS) (8 * f + 7)" by simp
  moreover have "\<not> bit (pack xs) (8 * f + 7)" using assms by (simp add: bit_pack)
  ultimately have "bit (NOT ((pack xs + NOT HIGHS) OR pack xs) AND HIGHS) (8 * f + 7)"
    using assms(1,2) by (simp add: bit_simps bit_HIGHS)
  then show ?thesis by auto
qed

text \<open>The test of the sixteen byte loop marks the lowest zero, whatever the bytes are.\<close>

lemma zeroBytes_lowest:
  assumes "f < length xs" "length xs = 8" "xs ! f = 0" "\<forall>x \<in> set (take f xs). x \<noteq> 0"
  shows "zeroBytes (pack xs) \<noteq> 0"
proof -
  have h: "ONES = pack (replicate 8 1)" by (simp add: ONES_def replicate_8)
  let ?ys = "map (\<lambda>x. x - 1) (take f xs) @ [255]"
  have "unat (x - 1) + unat (1 :: 8 word) < 256" if "x \<noteq> 0" for x :: "8 word"
    using that unat_lt [of x] by (simp add: unat_sub word_le_nat_alt Suc_le_eq unat_gt_0)
  then have a: "pack (map (\<lambda>x. x - 1) (take f xs)) + pack (replicate f 1) = pack (take f xs)"
    using pack_add [of "map (\<lambda>x. x - 1) (take f xs)" 1] assms by (simp add: min_def comp_def)
  have x: "pack xs = pack (take f xs) + 2 ^ (8 * Suc f) * pack (drop (Suc f) xs)"
    using split_byte [OF assms(1)] assms(3) by simp
  have c: "pack (replicate 8 1) = pack (replicate f 1) + 2 ^ (8 * f) * ucast (1 :: 8 word) + 2 ^ (8 * Suc f) * pack (replicate (8 - Suc f) 1)"
    by (rule split_ones) (use assms in simp)
  have y: "pack ?ys = pack (map (\<lambda>x. x - 1) (take f xs)) + 2 ^ (8 * f) * 255"
    using assms(1) by (simp add: pack_append min_def)
  have ring: "(m + r + q * d) - (r + p + q * e) = m + p * 255 + q * (d - e - 1)" if "q = 256 * p" for m r q d p e :: "64 word"
    unfolding that by (simp add: algebra_simps)
  have "2 ^ (8 * Suc f) = (256 :: 64 word) * 2 ^ (8 * f)" by (simp add: power_add)
  from ring [OF this] have "pack xs - ONES = pack ?ys + 2 ^ (8 * Suc f) * (pack (drop (Suc f) xs) - pack (replicate (8 - Suc f) 1) - 1)"
    unfolding h x c y a [symmetric] by simp
  then have "bit (pack xs - ONES) (8 * f + 7) \<longleftrightarrow> bit (?ys ! f) 7"
    using top_bit_pack [of ?ys f] assms(1,2) by (simp add: min_def)
  also have "\<dots> \<longleftrightarrow> True" using assms(1,2) by (simp add: nth_append min_def)
  finally have "bit (pack xs - ONES) (8 * f + 7)" by simp
  moreover have "\<not> bit (pack xs) (8 * f + 7)" using assms by (simp add: bit_pack)
  ultimately have "bit (zeroBytes (pack xs)) (8 * f + 7)"
    using assms(1,2) by (simp add: bit_simps bit_HIGHS zeroBytes_def zeroTest_def)
  then show ?thesis by auto
qed

lemma pack_map2:
  assumes "length xs = 8" "length ys = 8"
  shows "pack xs XOR pack ys = pack (map2 (XOR) xs ys)" "pack xs OR pack ys = pack (map2 (OR) xs ys)"
    "pack xs AND NOT (pack ys) = pack (map2 (\<lambda>x y. x AND NOT y) xs ys)"
  by (rule bit_eqI; use assms in \<open>auto simp: bit_pack bit_simps\<close>)+

text \<open>ASCII bytes, and the bytes from \<open>-\<close> to \<open>9\<close>.\<close>

definition ascii :: "8 word \<Rightarrow> bool" where
  "ascii b \<longleftrightarrow> unat b < 128"

definition in_run :: "8 word \<Rightarrow> bool" where
  "in_run c \<longleftrightarrow> c - 0x2D \<le> 0x39 - 0x2D"

lemma bit_7: "bit (b :: 8 word) 7 \<longleftrightarrow> 128 \<le> unat b"
proof -
  have "bit b 7 \<longleftrightarrow> bit (unat b) 7" by (simp add: bit_unsigned_iff)
  also have "\<dots> \<longleftrightarrow> odd (unat b div 128)" by (simp add: bit_iff_odd)
  also have "\<dots> \<longleftrightarrow> 128 \<le> unat b"
  proof -
    have "unat b div 128 = (if 128 \<le> unat b then 1 else 0)" using unat_lt [of b] by auto
    then show ?thesis by simp
  qed
  finally show ?thesis .
qed

lemma in_run_unat: "in_run b \<longleftrightarrow> 45 \<le> unat b \<and> unat b \<le> 57"
proof (cases "45 \<le> unat b")
  case True
  then have "unat (b - 45) = unat b - 45" by (simp add: unat_sub word_le_nat_alt)
  then show ?thesis using True by (auto simp: in_run_def word_le_nat_alt)
next
  case False
  then have "unat (b - 45) = unat b + 256 - 45" by (simp add: unat_sub_if_size word_size word_le_nat_alt)
  then show ?thesis using False by (simp add: in_run_def word_le_nat_alt)
qed

lemma least_index:
  assumes "\<exists>x \<in> set xs. P x" obtains f where "f < length xs" "P (xs ! f)" "\<forall>x \<in> set (take f xs). \<not> P x"
proof -
  obtain i where i: "i < length xs" "P (xs ! i)" using assms by (metis in_set_conv_nth)
  define f where "f = (LEAST i. P (xs ! i))"
  have "f \<le> i" unfolding f_def using i(2) by (rule Least_le)
  moreover have "P (xs ! f)" unfolding f_def using i(2) by (rule LeastI)
  moreover have "\<forall>x \<in> set (take f xs). \<not> P x"
  proof
    fix x assume "x \<in> set (take f xs)"
    then obtain k where "k < f" "x = xs ! k" by (auto simp: in_set_conv_nth)
    then show "\<not> P x" using not_less_Least [of k "\<lambda>i. P (xs ! i)"] unfolding f_def by simp
  qed
  ultimately show ?thesis using that [of f] i(1) by simp
qed

lemma xor_ONES: "length bs = 8 \<Longrightarrow> pack bs XOR (ONES * ucast c) = pack (map (\<lambda>b. b XOR c) bs)"
  and or_ONES: "length bs = 8 \<Longrightarrow> pack bs OR (ONES * ucast c) = pack (map (\<lambda>b. b OR c) bs)"
  by (simp_all add: ONES_times pack_map2 zip_replicate2 comp_def)

text \<open>The two tests see the byte they look for.\<close>

lemma zeroBytes_sees:
  assumes "length bs = 8" "c \<in> set bs"
  shows "zeroBytes (pack bs XOR (ONES * ucast c)) \<noteq> 0"
proof -
  let ?xs = "map (\<lambda>b. b XOR c) bs"
  have "c XOR c \<in> set ?xs" using assms(2) by (simp only: set_map) (rule imageI)
  then have "\<exists>x \<in> set ?xs. x = 0" by auto
  then obtain f where "f < length ?xs" "?xs ! f = 0" "\<forall>x \<in> set (take f ?xs). x \<noteq> 0" by (rule least_index)
  then show ?thesis using zeroBytes_lowest [of f ?xs] assms(1) by (simp add: xor_ONES)
qed

lemma bytesEqual_sees:
  assumes "length bs = 8" "f < 8" "bs ! f = c" "ascii c" "\<forall>b \<in> set (take f bs). ascii b"
  shows "bytesEqual (pack bs) c \<noteq> 0"
proof -
  let ?xs = "map (\<lambda>b. b XOR c) bs"
  have "unat (b XOR c) < 128" if "ascii b" for b
    using bit_7 [of "b XOR c"] bit_7 [of b] bit_7 [of c] that assms(4) by (simp add: ascii_def bit_xor_iff)
  then have "\<forall>x \<in> set (take f ?xs). unat x < 128" using assms(5) by (auto simp: take_map)
  then show ?thesis using marks_lowest_zero [of f ?xs] assms(1-3) by (simp add: bytesEqual_def Let_def xor_ONES)
qed

text \<open>\<open>numberBytes\<close> marks the bytes of runs, in ASCII.\<close>

lemma numberBytes_pack:
  assumes "length bs = 8" "\<forall>b \<in> set bs. ascii b"
  shows "numberBytes (pack bs) = pack (map (\<lambda>b. if in_run b then 0x80 else 0) bs)"
proof (rule bit_eqI)
  fix k
  have plus: "pack bs + ONES * ucast c = pack (map (\<lambda>b. b + c) bs)" if "unat c \<le> 128" for c
    using pack_add [of bs c] assms that by (fastforce simp: ONES_times ascii_def)
  have c: "ONES * (0x80 - 0x2D) = ONES * ucast (0x53 :: 8 word)" "ONES * (0x80 - 0x39 - 1) = ONES * ucast (0x46 :: 8 word)" by simp_all
  have top: "bit (b + 0x53) 7 \<and> \<not> bit (b + 0x46) 7 \<longleftrightarrow> in_run b" if "ascii b" for b
  proof -
    have "unat (b + 0x53) = unat b + 0x53" "unat (b + 0x46) = unat b + 0x46"
      using that by (simp_all add: ascii_def unat_word_ariths)
    then show ?thesis unfolding bit_7 in_run_unat by auto
  qed
  have "numberBytes (pack bs) = pack (map (\<lambda>b. b + 0x53) bs) AND NOT (pack (map (\<lambda>b. b + 0x46) bs)) AND HIGHS"
    using plus [of "0x53"] plus [of "0x46"] unfolding numberBytes_def c by simp
  then show "bit (numberBytes (pack bs)) k \<longleftrightarrow> bit (pack (map (\<lambda>b. if in_run b then 0x80 else 0) bs)) k"
    using assms top [of "bs ! (k div 8)"]
    by (cases "k mod 8 = 7") (auto simp: bit_and_iff bit_not_iff bit_pack bit_HIGHS bit_0x80)
qed

subsection \<open>Counting the first bytes of runs\<close>

definition marks :: "bool list \<Rightarrow> 64 word" where
  "marks ps = pack (map (\<lambda>p. if p then 0x80 else 0) ps)"

definition ones :: "bool list \<Rightarrow> 64 word" where
  "ones ps = pack (map of_bool ps)"

text \<open>The runs of a vector of bytes that begin in it: \<open>p\<close> tells whether a run leads into it.\<close>

fun run_starts :: "bool \<Rightarrow> bool list \<Rightarrow> bool list" where
  "run_starts p [] = []"
| "run_starts p (q # qs) = (q \<and> \<not> p) # run_starts q qs"

lemma length_run_starts [simp]: "length (run_starts p qs) = length qs"
  by (induction p qs rule: run_starts.induct) simp_all

lemma nth_run_starts: "j < length qs \<Longrightarrow> run_starts p qs ! j \<longleftrightarrow> qs ! j \<and> \<not> (p # qs) ! j"
  by (induction p qs arbitrary: j rule: run_starts.induct) (auto simp: less_Suc_eq_0_disj)

lemma bit_marks: "length ps = 8 \<Longrightarrow> bit (marks ps) k \<longleftrightarrow> k < 64 \<and> k mod 8 = 7 \<and> ps ! (k div 8)"
proof -
  assume l: "length ps = 8"
  then show ?thesis by (auto simp: marks_def bit_pack bit_0x80 split: if_splits)
qed

lemma bit_ones: "length ps = 8 \<Longrightarrow> bit (ones ps) k \<longleftrightarrow> k < 64 \<and> k mod 8 = 0 \<and> ps ! (k div 8)"
  by (cases "k mod 8 = 0") (auto simp: ones_def bit_pack bit_1_iff of_bool_def split: if_splits)

lemma marks_last: "length ps = 8 \<Longrightarrow> drop_bit 56 (marks ps) = (if ps ! 7 then 0x80 else 0)"
proof (rule bit_eqI)
  fix k assume l: "length ps = 8"
  have "bit (drop_bit 56 (marks ps)) k \<longleftrightarrow> k = 7 \<and> ps ! 7"
  proof (cases "k < 8")
    case True
    then have "(k + 56) mod 8 = k" "(k + 56) div 8 = 7" "k + 56 < 64" by presburger+
    then show ?thesis using l by (simp add: bit_drop_bit_eq bit_marks add.commute)
  next
    case False
    then have "\<not> k + 56 < 64" by simp
    then show ?thesis using l False by (simp add: bit_drop_bit_eq bit_marks add.commute)
  qed
  then show "bit (drop_bit 56 (marks ps)) k \<longleftrightarrow> bit (if ps ! 7 then 0x80 else 0 :: 64 word) k" by (auto simp: bit_0x80)
qed

lemma firstBytes_marks:
  assumes "length ps = 8"
  shows "firstBytes (marks ps) (if p then 0x80 else 0) = ones (run_starts p ps)"
proof (rule bit_eqI)
  fix k assume "possible_bit TYPE(64 word) k"
  then have k: "k < 64" by simp
  have m: "(k + 7) mod 8 = 7 \<longleftrightarrow> k mod 8 = 0" by presburger
  have d: "(k + 7) div 8 = k div 8" "k + 7 < 64" if "k mod 8 = 0" using that k by presburger+
  have e: "8 \<le> k + 7 \<and> bit (marks ps) (k + 7 - 8) \<or> bit (if p then 0x80 else 0 :: 64 word) (k + 7) \<longleftrightarrow> (p # ps) ! (k div 8)"
    if "k mod 8 = 0"
  proof (cases "k div 8")
    case 0
    then have "k = 0" using that by presburger
    then show ?thesis by (simp add: bit_0x80)
  next
    case (Suc j)
    have k8: "k = 8 * j + 8" using div_mult_mod_eq [of k 8] that Suc by simp
    then have "8 \<le> k" "k + 7 - 8 = 8 * j + 7" by simp_all
    moreover have "(8 * j + 7) div 8 = j" "(8 * j + 7) mod 8 = 7" by presburger+
    moreover from \<open>8 \<le> k\<close> have "\<not> bit (if p then 0x80 else 0 :: 64 word) (k + 7)" by (simp add: bit_0x80)
    ultimately show ?thesis using Suc k k8 unfolding bit_marks [OF assms] by auto
  qed
  let ?prev = "8 \<le> k + 7 \<and> bit (marks ps) (k + 7 - 8) \<or> bit (if p then 0x80 else 0 :: 64 word) (k + 7)"
  have f: "bit (firstBytes (marks ps) (if p then 0x80 else 0)) k \<longleftrightarrow> k + 7 < 64 \<and> bit (marks ps) (k + 7) \<and> \<not> ?prev"
    unfolding firstBytes_def bit_drop_bit_eq bit_and_iff bit_not_iff bit_or_iff bit_push_bit_iff comp_def add.commute [of 7 k]
    by auto
  have "bit (firstBytes (marks ps) (if p then 0x80 else 0)) k \<longleftrightarrow> k mod 8 = 0 \<and> ps ! (k div 8) \<and> \<not> (p # ps) ! (k div 8)"
  proof (cases "k mod 8 = 0")
    case True
    have "bit (marks ps) (k + 7) \<longleftrightarrow> ps ! (k div 8)" using bit_marks [OF assms, of "k + 7"] m True d [OF True] by simp
    then show ?thesis unfolding f e [OF True] using True d(2) [OF True] by blast
  next
    case False
    then have "\<not> bit (marks ps) (k + 7)" using bit_marks [OF assms, of "k + 7"] m by simp
    then show ?thesis unfolding f using False by blast
  qed
  then show "bit (firstBytes (marks ps) (if p then 0x80 else 0)) k \<longleftrightarrow> bit (ones (run_starts p ps)) k"
    using k assms by (simp add: bit_ones nth_run_starts)
qed

text \<open>The sum of eight bytes, if it fits a byte, by one multiplication.\<close>

lemma unat_pack: "length bs \<le> 8 \<Longrightarrow> unat (pack bs) = val bs"
proof (induction bs)
  case (Cons b bs)
  have "val (b # bs) < 2 ^ 64"
    using val_lt [of "b # bs"] Cons.prems power_increasing [of "8 * length (b # bs)" 64 "2 :: nat"] by simp
  then have "unat b + 256 * unat (pack bs) < 2 ^ 64" using Cons by simp
  moreover have "unat (ucast b :: 64 word) = unat b" 
    unfolding unsigned_ucast_eq by (rule take_bit_nat_eq_self, rule less_le_trans [OF unat_lt]) simp
  ultimately show ?case using Cons by (simp add: unat_word_ariths)
qed simp

lemma ones_sum:
  assumes "length xs = 8" "length ys = 8"
  shows "drop_bit 56 ((ones xs + ones ys) * ONES) = of_nat (count_list xs True + count_list ys True)"
proof -
  have eight: "\<exists>a b c d e f g h. zs = [a, b, c, d, e, f, g, h]" if "length zs = 8" for zs :: "bool list"
    using that by (simp add: numeral_eq_Suc length_Suc_conv) blast
  obtain a b c d e f g h where xs: "xs = [a, b, c, d, e, f, g, h]" using eight [OF assms(1)] by blast
  obtain a' b' c' d' e' f' g' h' where ys: "ys = [a', b', c', d', e', f', g', h']" using eight [OF assms(2)] by blast
  have v: "unat (ones [a, b, c, d, e, f, g, h]) = of_bool a + 256 * (of_bool b + 256 * (of_bool c + 256 * (of_bool d
      + 256 * (of_bool e + 256 * (of_bool f + 256 * (of_bool g + 256 * of_bool h))))))" for a b c d e f g h
    unfolding ones_def by (subst unat_pack) simp_all
  define n1 n2 n3 n4 n5 n6 n7 n8 :: nat where n: "n1 = of_bool a + of_bool a'" "n2 = of_bool b + of_bool b'"
    "n3 = of_bool c + of_bool c'" "n4 = of_bool d + of_bool d'" "n5 = of_bool e + of_bool e'"
    "n6 = of_bool f + of_bool f'" "n7 = of_bool g + of_bool g'" "n8 = of_bool h + of_bool h'"
  have le: "n1 \<le> 2" "n2 \<le> 2" "n3 \<le> 2" "n4 \<le> 2" "n5 \<le> 2" "n6 \<le> 2" "n7 \<le> 2" "n8 \<le> 2" unfolding n by simp_all
  let ?S = "n1 + n2 + n3 + n4 + n5 + n6 + n7 + n8"
  let ?w = "n1 + 256 * (n2 + 256 * (n3 + 256 * (n4 + 256 * (n5 + 256 * (n6 + 256 * (n7 + 256 * n8))))))"
  have "unat (ones xs) + unat (ones ys) = ?w" unfolding xs ys v n by simp
  moreover have "?w < 2 ^ 64" using le by simp
  ultimately have "unat (ones xs + ones ys) = ?w" by (simp add: unat_word_ariths)
  moreover obtain low high where "?w * 0x0101010101010101 = low + 2 ^ 56 * ?S + 2 ^ 64 * high" "low < 2 ^ 56"
  proof -
    let ?low = "n1 + 256 * (n1 + n2 + 256 * (n1 + n2 + n3 + 256 * (n1 + n2 + n3 + n4 + 256 * (n1 + n2 + n3 + n4 + n5
        + 256 * (n1 + n2 + n3 + n4 + n5 + n6 + 256 * (n1 + n2 + n3 + n4 + n5 + n6 + n7))))))"
    let ?high = "n2 + n3 + n4 + n5 + n6 + n7 + n8 + 256 * (n3 + n4 + n5 + n6 + n7 + n8 + 256 * (n4 + n5 + n6 + n7 + n8
        + 256 * (n5 + n6 + n7 + n8 + 256 * (n6 + n7 + n8 + 256 * (n7 + n8 + 256 * n8)))))"
    have "?w * 0x0101010101010101 = ?low + 2 ^ 56 * ?S + 2 ^ 64 * ?high" by simp
    moreover have "?low < 2 ^ 56" using le by simp
    ultimately show ?thesis using that by blast
  qed
  moreover have "unat ((ones xs + ones ys) * ONES) = unat (ones xs + ones ys) * unat ONES mod 2 ^ 64" by (simp only: unat_word_ariths) simp
  moreover have "unat ONES = 0x0101010101010101" by (simp add: ONES_def)
  ultimately have m: "unat ((ones xs + ones ys) * ONES) = (low + 2 ^ 56 * ?S + 2 ^ 64 * high) mod 2 ^ 64"
    by (simp only:)
  have "low + 2 ^ 56 * ?S < 2 ^ 64" using \<open>low < 2 ^ 56\<close> le by simp
  then have "unat ((ones xs + ones ys) * ONES) = low + 2 ^ 56 * ?S" using m by simp
  then have "unat (drop_bit 56 ((ones xs + ones ys) * ONES)) = ?S"
    unfolding unat_drop_bit_eq using \<open>low < 2 ^ 56\<close> by (simp add: drop_bit_eq_div)
  moreover have "count_list xs True + count_list ys True = ?S" unfolding xs ys n by simp
  moreover have "unat (of_nat ?S :: 64 word) = ?S" unfolding unat_of_nat using le by (intro mod_less) simp
  ultimately show ?thesis by (simp add: word_unat_eq_iff)
qed

end
