(* ===== verification/JsonUtf8.thy ===== *)
theory JsonUtf8
  imports JsonScan ByteWords
begin

text \<open>
  Characters and their UTF-8, \<open>sjText.c\<close>: the bytes of a code point, the length and the transcoding
  of a source, and the way back from UTF-8 to Latin-1 and to code points. The fast paths look at 8
  or 16 bytes, or at 8 code points, at a time, as the code does.
\<close>

definition utf8Size :: "32 word \<Rightarrow> nat" where
  "utf8Size cp = (if cp < 0x80 then 1 else if cp < 0x800 then 2 else if cp < 0x10000 then 3
     else if cp \<le> 0x10FFFF then 4 else 1)"

text \<open>A destination is the bytes written so far.\<close>

definition utf8Put :: "8 word list \<Rightarrow> 32 word \<Rightarrow> 8 word list" where
  "utf8Put d cp =
     (if cp < 0x80 then d @ [ucast cp]
      else if cp < 0x800 then
        d @ [ucast (0xC0 OR drop_bit 6 cp), ucast (0x80 OR (cp AND 0x3F))]
      else if cp < 0x10000 then
        d @ [ucast (0xE0 OR drop_bit 12 cp), ucast (0x80 OR (drop_bit 6 cp AND 0x3F)),
             ucast (0x80 OR (cp AND 0x3F))]
      else if cp \<le> 0x10FFFF then
        d @ [ucast (0xF0 OR drop_bit 18 cp), ucast (0x80 OR (drop_bit 12 cp AND 0x3F)),
             ucast (0x80 OR (drop_bit 6 cp AND 0x3F)), ucast (0x80 OR (cp AND 0x3F))]
      else d @ [0xFF])"

text \<open>The 8 bytes at \<open>i\<close> as a little-endian word, what \<open>memcpy\<close> into a \<open>uint64_t\<close> reads.\<close>

primrec load_le :: "nat \<Rightarrow> 8 word list \<Rightarrow> nat \<Rightarrow> 64 word" where
  "load_le 0 s i = 0"
| "load_le (Suc k) s i = push_bit 8 (load_le k s (i + 1)) OR ucast (s ! i)"

definition popcount :: "64 word \<Rightarrow> nat" where
  "popcount x = length (filter (bit x) [0..<64])"

definition ascii8 :: "32 word list \<Rightarrow> nat \<Rightarrow> nat \<Rightarrow> bool" where
  "ascii8 w i to \<longleftrightarrow> i + 8 \<le> to
     \<and> (w ! i OR w ! (i + 1) OR w ! (i + 2) OR w ! (i + 3) OR w ! (i + 4) OR w ! (i + 5)
          OR w ! (i + 6) OR w ! (i + 7)) < 0x80"

function latin1_length_loop :: "8 word list \<Rightarrow> nat \<Rightarrow> nat \<Rightarrow> nat \<Rightarrow> nat" where
  "latin1_length_loop s i to n =
     (if i + 8 \<le> to then latin1_length_loop s (i + 8) to (n + popcount (load_le 8 s i AND HIGHS))
      else if i < to then latin1_length_loop s (i + 1) to (n + unat (drop_bit 7 (s ! i)))
      else n)"
  by pat_completeness auto
termination by (relation "measure (\<lambda>(s, i, to, n). to - i)") auto

function utf32_length_loop :: "32 word list \<Rightarrow> nat \<Rightarrow> nat \<Rightarrow> nat \<Rightarrow> nat" where
  "utf32_length_loop w i to n =
     (if i < to
      then if ascii8 w i to then utf32_length_loop w (i + 8) to (n + 8)
        else utf32_length_loop w (i + 1) to (n + utf8Size (w ! i))
      else n)"
  by pat_completeness auto
termination by (relation "measure (\<lambda>(w, i, to, n). to - i)") auto

fun sj_utf8_length :: "encoded \<Rightarrow> nat \<Rightarrow> nat \<Rightarrow> nat" where
  "sj_utf8_length (SJ_ENC_LATIN1 s) start to = latin1_length_loop s start to (to - start)"
| "sj_utf8_length (SJ_ENC_UTF32 w) start to = utf32_length_loop w start to 0"
| "sj_utf8_length (SJ_ENC_UTF8 s) start to = to - start"

function latin1_transcode_loop :: "8 word list \<Rightarrow> nat \<Rightarrow> nat \<Rightarrow> 8 word list \<Rightarrow> 8 word list" where
  "latin1_transcode_loop s i to dst =
     (if i < to
      then if i + 16 \<le> to \<and> (load_le 8 s i OR load_le 8 s (i + 8)) AND HIGHS = 0
        then latin1_transcode_loop s (i + 16) to (dst @ take 16 (drop i s))
        else latin1_transcode_loop s (i + 1) to (utf8Put dst (ucast (s ! i)))
      else dst)"
  by pat_completeness auto
termination by (relation "measure (\<lambda>(s, i, to, dst). to - i)") auto

function utf32_transcode_loop :: "32 word list \<Rightarrow> nat \<Rightarrow> nat \<Rightarrow> 8 word list \<Rightarrow> 8 word list" where
  "utf32_transcode_loop w i to dst =
     (if i < to
      then if ascii8 w i to
        then utf32_transcode_loop w (i + 8) to (dst @ map (\<lambda>k. ucast (w ! (i + k))) [0..<8])
        else utf32_transcode_loop w (i + 1) to (utf8Put dst (w ! i))
      else dst)"
  by pat_completeness auto
termination by (relation "measure (\<lambda>(w, i, to, dst). to - i)") auto

fun sj_transcode :: "encoded \<Rightarrow> nat \<Rightarrow> nat \<Rightarrow> 8 word list" where
  "sj_transcode (SJ_ENC_LATIN1 s) start to = latin1_transcode_loop s start to []"
| "sj_transcode (SJ_ENC_UTF32 w) start to = utf32_transcode_loop w start to []"
| "sj_transcode (SJ_ENC_UTF8 s) start to = take (to - start) (drop start s)"

text \<open>The code point of the sequence at \<open>i\<close> and the index behind it.\<close>

definition utf8Next :: "8 word list \<Rightarrow> nat \<Rightarrow> nat \<Rightarrow> 32 word \<times> nat" where
  "utf8Next s n i =
     (let c = ucast (s ! i) :: 32 word;
          k = (if c < 0x80 then 1 else if c < 0xE0 then 2 else if c < 0xF0 then 3 else 4 :: nat);
          b = (\<lambda>j. ucast (s ! (i + j)) AND 0x3F :: 32 word)
      in if i + k > n then (0, n)
         else (if k = 1 then c
               else if k = 2 then push_bit 6 (c AND 0x1F) OR b 1
               else if k = 3 then push_bit 12 (c AND 0x0F) OR push_bit 6 (b 1) OR b 2
               else push_bit 18 (c AND 0x07) OR push_bit 12 (b 1) OR push_bit 6 (b 2) OR b 3,
               i + k))"

definition next_char :: "8 word list \<Rightarrow> nat \<Rightarrow> nat \<Rightarrow> 32 word \<times> nat" where
  "next_char u n i = (if u ! i < 0x80 then (ucast (u ! i), i + 1) else utf8Next u n i)"

lemma next_char_advances: "i < n \<Longrightarrow> i < snd (next_char u n i)"
  by (simp add: next_char_def utf8Next_def Let_def)

function utf8_scan_loop :: "8 word list \<Rightarrow> nat \<Rightarrow> nat \<Rightarrow> nat \<Rightarrow> 32 word \<Rightarrow> nat \<times> 32 word" where
  "utf8_scan_loop u n i count m =
     (if i < n
      then let (c, j) = next_char u n i in utf8_scan_loop u n j (count + 1) (if c > m then c else m)
      else (count, m))"
  by pat_completeness auto
termination
  by (relation "measure (\<lambda>(u, n, i, count, m). n - i)") (auto, metis next_char_advances diff_less_mono2 snd_conv)

definition sj_utf8_scan :: "8 word list \<Rightarrow> nat \<Rightarrow> nat \<times> 32 word" where
  "sj_utf8_scan s n = utf8_scan_loop s n 0 0 0"

function utf8_decode_loop :: "8 word list \<Rightarrow> nat \<Rightarrow> nat \<Rightarrow> 'w::len word list \<Rightarrow> 'w word list" where
  "utf8_decode_loop u n i dst =
     (if i < n then let (c, j) = next_char u n i in utf8_decode_loop u n j (dst @ [ucast c]) else dst)"
  by pat_completeness auto
termination
  by (relation "measure (\<lambda>(u, n, i, dst). n - i)") (auto, metis next_char_advances diff_less_mono2 snd_conv)

definition sj_utf8_to_latin1 :: "8 word list \<Rightarrow> nat \<Rightarrow> 8 word list" where
  "sj_utf8_to_latin1 s n = utf8_decode_loop s n 0 []"

definition sj_utf8_to_utf32 :: "8 word list \<Rightarrow> nat \<Rightarrow> 32 word list" where
  "sj_utf8_to_utf32 s n = utf8_decode_loop s n 0 []"

definition sj_utf8_chars :: "8 word list \<Rightarrow> nat \<Rightarrow> nat" where
  "sj_utf8_chars s n = length (filter (\<lambda>i. s ! i AND 0xC0 \<noteq> 0x80) [0..<n])"

declare latin1_length_loop.simps [simp del] utf32_length_loop.simps [simp del] latin1_transcode_loop.simps [simp del]
  utf32_transcode_loop.simps [simp del] utf8_scan_loop.simps [simp del] utf8_decode_loop.simps [simp del]

subsection \<open>Eight bytes at a time\<close>

lemma bit_load_le:
  "bit (load_le k s i) n \<longleftrightarrow> n < 64 \<and> n < 8 * k \<and> bit (s ! (i + n div 8)) (n mod 8)"
proof (induction k arbitrary: i n)
  case (Suc k)
  have lt: "bit (s ! j) m \<Longrightarrow> m < 8" for j m using bit_imp_le_length [of "s ! j" m] by simp
  show ?case
  proof (cases "n < 8")
    case True then show ?thesis by (auto simp: bit_simps)
  next
    case False
    then have "n div 8 = Suc ((n - 8) div 8)" "n mod 8 = (n - 8) mod 8"
      by (simp_all add: le_div_geq le_mod_geq)
    then show ?thesis using False Suc.IH lt by (auto simp: bit_simps)
  qed
qed simp

lemma high_bit: "bit (b :: 8 word) 7 \<longleftrightarrow> \<not> b < 0x80"
proof -
  have "bit b 7 = odd (unat b div 128)" using bit_unsigned_iff [of b 7, where ?'a = nat] by (simp add: bit_iff_odd)
  moreover have "unat b < 256" using unsigned_less [of b] by simp
  then have "unat b div 128 = (if unat b < 128 then 0 else 1)" by auto
  ultimately show ?thesis by (simp add: word_less_nat_alt)
qed

lemma load_HIGHS: "n < 64 \<Longrightarrow> bit (load_le 8 s i AND HIGHS) n \<longleftrightarrow> n mod 8 = 7 \<and> \<not> s ! (i + n div 8) < 0x80"
  by (auto simp: bit_and_iff bit_load_le bit_HIGHS high_bit)

lemma load_ascii: "load_le 8 s i AND HIGHS = 0 \<longleftrightarrow> (\<forall>k < 8. s ! (i + k) < 0x80)"
proof
  assume z: "load_le 8 s i AND HIGHS = 0"
  show "\<forall>k < 8. s ! (i + k) < 0x80"
  proof (intro allI impI)
    fix k :: nat assume "k < 8"
    then show "s ! (i + k) < 0x80" using load_HIGHS [of "8 * k + 7" s i] unfolding z by simp
  qed
next
  assume a: "\<forall>k < 8. s ! (i + k) < 0x80"
  show "load_le 8 s i AND HIGHS = 0"
    by (rule bit_word_eqI) (use a load_HIGHS [of _ s i] in \<open>auto simp: less_mult_imp_div_less\<close>)
qed

lemma upto_8: "[0..<8] = [0, 1, 2, 3, 4, 5, 6, 7 :: nat]"
  by code_simp

lemma load_popcount:
  "popcount (load_le 8 s i AND HIGHS) = length (filter (\<lambda>k. \<not> s ! (i + k) < 0x80) [0..<8])"
proof -
  have "filter (bit (load_le 8 s i AND HIGHS)) [0..<64]
      = filter (\<lambda>n. n mod 8 = 7 \<and> \<not> s ! (i + n div 8) < 0x80) [0..<64]"
    by (rule filter_cong) (auto simp: load_HIGHS)
  moreover have "[0..<64] = concat (map (\<lambda>k. map (\<lambda>j. 8 * k + j) [0..<8]) [0..<8])" by code_simp
  moreover have "filter (\<lambda>n. n mod 8 = 7 \<and> \<not> s ! (i + n div 8) < 0x80) (concat (map (\<lambda>k. map (\<lambda>j. 8 * k + j) [0..<8]) [0..<8]))
      = concat (map (\<lambda>k. if s ! (i + k) < 0x80 then [] else [8 * k + 7]) [0..<8])"
    by (simp add: upto_8 filter_concat)
  ultimately have "popcount (load_le 8 s i AND HIGHS)
      = length (concat (map (\<lambda>k. if s ! (i + k) < 0x80 then [] else [8 * k + 7]) [0..<8]))"
    by (simp add: popcount_def)
  moreover have "length (concat (map (\<lambda>k. if P k then [] else [8 * k + 7]) ks)) = length (filter (\<lambda>k. \<not> P k) ks)"
    for P and ks :: "nat list"
    by (induction ks) auto
  ultimately show ?thesis by simp
qed

lemma word_less_power_iff:
  "k < LENGTH('w) \<Longrightarrow> (x :: 'w::len word) < 2 ^ k \<longleftrightarrow> drop_bit k x = 0"
proof -
  assume "k < LENGTH('w)"
  then have "unat (2 ^ k :: 'w word) = 2 ^ k" using unat_of_nat [of "2 ^ k", where 'a = 'w] by (simp add: power_strict_increasing)
  then have "x < 2 ^ k \<longleftrightarrow> unat x < 2 ^ k" by (simp add: word_less_nat_alt)
  also have "\<dots> \<longleftrightarrow> unat (drop_bit k x) = 0"
    unfolding unat_drop_bit_eq by (simp add: drop_bit_eq_div div_eq_0_iff)
  finally show ?thesis by (simp add: unat_eq_zero)
qed

lemma or_ascii: "(x OR y :: 32 word) < 0x80 \<longleftrightarrow> x < 0x80 \<and> y < 0x80"
  using word_less_power_iff [of 7 x] word_less_power_iff [of 7 y] word_less_power_iff [of 7 "x OR y"]
  by (simp add: drop_bit_or) (metis or.right_neutral or_eq_0_iff)

lemma All_less_8: "(\<forall>k < 8. P k) \<longleftrightarrow> P 0 \<and> P 1 \<and> P 2 \<and> P 3 \<and> P 4 \<and> P 5 \<and> P 6 \<and> P (7 :: nat)"
  by (auto simp: numeral_eq_Suc All_less_Suc)

lemma ascii8_iff: "ascii8 w i to \<longleftrightarrow> i + 8 \<le> to \<and> (\<forall>k < 8. w ! (i + k) < 0x80)"
  by (simp add: ascii8_def All_less_8 or_ascii conj_assoc)

subsection \<open>The fast paths are the plain encoding\<close>

definition utf8 :: "32 word \<Rightarrow> 8 word list" where
  "utf8 cp = utf8Put [] cp"

lemma utf8Put_append: "utf8Put d cp = d @ utf8 cp"
  by (simp add: utf8Put_def utf8_def)

lemma length_utf8 [simp]: "length (utf8 cp) = utf8Size cp"
  by (simp add: utf8Put_def utf8_def utf8Size_def)

lemma utf8_ascii: "cp < 0x80 \<Longrightarrow> utf8 cp = [ucast cp]"
  by (simp add: utf8Put_def utf8_def)

lemma concat_ascii:
  "(\<And>k. k \<in> set ks \<Longrightarrow> f k < 0x80) \<Longrightarrow> concat (map (\<lambda>k. utf8 (f k)) ks) = map (\<lambda>k. ucast (f k)) ks"
  by (induction ks) (simp_all add: utf8_ascii)

lemma unat_ucast_byte [simp]: "unat (ucast (b :: 8 word) :: 32 word) = unat b"
proof -
  have "take_bit 32 (unat b) = unat b" by (rule take_bit_nat_eq_self, rule less_le_trans [OF unat_lt]) simp
  then show ?thesis by (simp add: unsigned_ucast_eq)
qed

lemma ucast_byte_back [simp]: "ucast (ucast (b :: 8 word) :: 32 word) = b"
  by (rule bit_word_eqI) (simp add: bit_simps)

lemma ucast_ascii [simp]: "(ucast (b :: 8 word) :: 32 word) < 0x80 \<longleftrightarrow> b < 0x80"
  by (simp only: word_less_nat_alt unat_ucast_byte) simp

lemma upt_split: "i + k \<le> to \<Longrightarrow> [i..<to] = map (\<lambda>j. i + j) [0..<k] @ [i + k..<to]"
  using upt_add_eq_append [of i "i + k" "to - (i + k)"] by (simp add: map_add_upt add.commute)

lemma utf32_transcode_loop_eq:
  "i \<le> to \<Longrightarrow> utf32_transcode_loop w i to dst = dst @ concat (map (\<lambda>k. utf8 (w ! k)) [i..<to])"
proof (induction w i to dst rule: utf32_transcode_loop.induct)
  case (1 w i to dst)
  consider (End) "i = to" | (Eight) "i < to" "ascii8 w i to" | (One) "i < to" "\<not> ascii8 w i to"
    using 1(3) by linarith
  then show ?case
  proof cases
    case End then show ?thesis by (subst utf32_transcode_loop.simps) simp
  next
    case Eight
    then have a: "i + 8 \<le> to" "\<forall>k < 8. w ! (i + k) < 0x80" by (auto simp: ascii8_iff)
    have "concat (map (\<lambda>k. utf8 (w ! k)) (map (\<lambda>j. i + j) [0..<8])) = map (\<lambda>k. ucast (w ! (i + k))) [0..<8]"
      unfolding map_map o_def using a(2) by (subst concat_ascii) auto
    then show ?thesis using Eight "1.IH"(1) [OF Eight a(1)] upt_split [OF a(1)]
      by (subst utf32_transcode_loop.simps) simp
  next
    case One
    then have "i + 1 \<le> to" by simp
    then show ?thesis using One "1.IH"(2) [OF One] by (subst utf32_transcode_loop.simps) (simp add: utf8Put_append upt_conv_Cons)
  qed
qed

lemma latin1_transcode_loop_eq:
  "i \<le> to \<Longrightarrow> to \<le> length s \<Longrightarrow>
   latin1_transcode_loop s i to dst = dst @ concat (map (\<lambda>k. utf8 (ucast (s ! k))) [i..<to])"
proof (induction s i to dst rule: latin1_transcode_loop.induct)
  case (1 s i to dst)
  let ?t = "i + 16 \<le> to \<and> (load_le 8 s i OR load_le 8 s (i + 8)) AND HIGHS = 0"
  consider (End) "i = to" | (Sixteen) "i < to" ?t | (One) "i < to" "\<not> ?t" using 1(3) by linarith
  then show ?case
  proof cases
    case End then show ?thesis by (subst latin1_transcode_loop.simps) simp
  next
    case Sixteen
    then have a: "i + 16 \<le> to" "\<forall>k < 8. s ! (i + k) < 0x80" "\<forall>k < 8. s ! (i + 8 + k) < 0x80"
      by (auto simp: bit.conj_disj_distrib2 load_ascii or_eq_0_iff)
    have lt: "s ! (i + k) < 0x80" if "k < 16" for k
      using a(2) [rule_format, of k] a(3) [rule_format, of "k - 8"] that by (cases "k < 8") auto
    have "concat (map (\<lambda>k. utf8 (ucast (s ! k))) (map (\<lambda>j. i + j) [0..<16])) = map (\<lambda>j. s ! (i + j)) [0..<16]"
      unfolding map_map o_def using lt by (subst concat_ascii) auto
    also have "\<dots> = take 16 (drop i s)"
      using a(1) 1(4) by (intro nth_equalityI) auto
    finally have c: "concat (map (\<lambda>k. utf8 (ucast (s ! k))) (map (\<lambda>j. i + j) [0..<16])) = take 16 (drop i s)" .
    have "latin1_transcode_loop s i to dst = latin1_transcode_loop s (i + 16) to (dst @ take 16 (drop i s))"
      using Sixteen by (subst latin1_transcode_loop.simps) simp
    also have "\<dots> = (dst @ take 16 (drop i s)) @ concat (map (\<lambda>k. utf8 (ucast (s ! k))) [i + 16..<to])"
      by (rule "1.IH"(1) [OF Sixteen a(1) 1(4)])
    finally show ?thesis unfolding upt_split [OF a(1)] map_append concat_append c append_assoc .
  next
    case One
    then have "i + 1 \<le> to" by simp
    then have "latin1_transcode_loop s (i + 1) to (dst @ utf8 (ucast (s ! i)))
        = (dst @ utf8 (ucast (s ! i))) @ concat (map (\<lambda>k. utf8 (ucast (s ! k))) [i + 1..<to])"
      using "1.IH"(2) [OF One _ 1(4)] by (simp only: utf8Put_append)
    moreover have "latin1_transcode_loop s i to dst = latin1_transcode_loop s (i + 1) to (dst @ utf8 (ucast (s ! i)))"
      using One by (subst latin1_transcode_loop.simps) (auto simp: utf8Put_append)
    moreover have "[i..<to] = i # [i + 1..<to]" using One(1) by (simp add: upt_rec)
    ultimately show ?thesis by (simp only: list.map concat.simps append_assoc)
  qed
qed

lemma utf32_length_loop_eq:
  "i \<le> to \<Longrightarrow> utf32_length_loop w i to n = n + (\<Sum>k \<leftarrow> [i..<to]. utf8Size (w ! k))"
proof (induction w i to n rule: utf32_length_loop.induct)
  case (1 w i to n)
  consider (End) "i = to" | (Eight) "i < to" "ascii8 w i to" | (One) "i < to" "\<not> ascii8 w i to"
    using 1(3) by linarith
  then show ?case
  proof cases
    case End then show ?thesis by (subst utf32_length_loop.simps) simp
  next
    case Eight
    then have a: "i + 8 \<le> to" "\<forall>k < 8. w ! (i + k) < 0x80" by (auto simp: ascii8_iff)
    have "(\<Sum>k \<leftarrow> map (\<lambda>j. i + j) [0..<8]. utf8Size (w ! k)) = 8"
      using a(2) by (simp add: utf8Size_def All_less_8 upto_8)
    then show ?thesis using Eight "1.IH"(1) [OF Eight a(1)] upt_split [OF a(1)]
      by (subst utf32_length_loop.simps) simp
  next
    case One
    then have "i + 1 \<le> to" by simp
    then show ?thesis using One "1.IH"(2) [OF One] by (subst utf32_length_loop.simps) (simp add: upt_conv_Cons)
  qed
qed

lemma utf8Size_byte: "utf8Size (ucast (b :: 8 word)) = 1 + (if b < 0x80 then 0 else 1)"
proof -
  have "(ucast b :: 32 word) < 0x800" using unat_lt [of b] by (simp only: word_less_nat_alt unat_ucast_byte) simp
  then show ?thesis by (simp add: utf8Size_def)
qed

lemma shifted_high_bit: "unat (drop_bit 7 (b :: 8 word)) = (if b < 0x80 then 0 else 1)"
proof -
  have "unat b div 128 = (if unat b < 128 then 0 else 1)" using unat_lt [of b] by auto
  then show ?thesis unfolding unat_drop_bit_eq by (simp add: drop_bit_eq_div word_less_nat_alt)
qed

lemma latin1_length_loop_eq:
  "i \<le> to \<Longrightarrow> latin1_length_loop s i to n + (to - i) = n + (\<Sum>k \<leftarrow> [i..<to]. utf8Size (ucast (s ! k)))"
proof (induction s i to n rule: latin1_length_loop.induct)
  case (1 s i to n)
  consider (End) "i = to" | (Eight) "i + 8 \<le> to" | (One) "i < to" "\<not> i + 8 \<le> to"
    using 1(3) by linarith
  then show ?case
  proof cases
    case End then show ?thesis by (subst latin1_length_loop.simps) simp
  next
    case Eight
    have "(\<Sum>k \<leftarrow> map (\<lambda>j. i + j) [0..<8]. utf8Size (ucast (s ! k))) = 8 + popcount (load_le 8 s i AND HIGHS)"
      by (simp add: utf8Size_byte load_popcount upto_8)
    then show ?thesis using Eight "1.IH"(1) [OF Eight Eight] upt_split [OF Eight]
      by (subst latin1_length_loop.simps) simp
  next
    case One
    then have "i + 1 \<le> to" by simp
    then show ?thesis using One "1.IH"(2) [OF One(2,1)]
      by (subst latin1_length_loop.simps) (auto simp: upt_conv_Cons utf8Size_byte shifted_high_bit)
  qed
qed

text \<open>The code points of a source that is not UTF-8 already.\<close>

fun code_points :: "encoded \<Rightarrow> nat \<Rightarrow> nat \<Rightarrow> 32 word list" where
  "code_points (SJ_ENC_LATIN1 s) start to = map (\<lambda>k. ucast (s ! k)) [start..<to]"
| "code_points (SJ_ENC_UTF32 w) start to = map (\<lambda>k. w ! k) [start..<to]"
| "code_points (SJ_ENC_UTF8 s) start to = []"

fun units_of :: "encoded \<Rightarrow> nat" where
  "units_of (SJ_ENC_LATIN1 s) = length s"
| "units_of (SJ_ENC_UTF32 w) = length w"
| "units_of (SJ_ENC_UTF8 s) = length s"

fun is_utf8 :: "encoded \<Rightarrow> bool" where
  "is_utf8 (SJ_ENC_UTF8 s) = True"
| "is_utf8 _ = False"

lemma sj_transcode_eq:
  assumes "start \<le> to" "to \<le> units_of src" "\<not> is_utf8 src"
  shows "sj_transcode src start to = concat (map utf8 (code_points src start to))"
  using assms by (cases src) (simp_all add: latin1_transcode_loop_eq utf32_transcode_loop_eq o_def)

lemma length_concat_utf8: "length (concat (map (\<lambda>k. utf8 (f k)) ks)) = (\<Sum>k \<leftarrow> ks. utf8Size (f k))"
  by (induction ks) simp_all

text \<open>
  Transcoding fills its destination exactly: it writes as many bytes as \<open>sj_utf8_length\<close>
  counted, for each encoding, though the one counts high bits eight bytes at a time and the other
  copies runs of sixteen.
\<close>

theorem sj_transcode_fills:
  assumes "start \<le> to" "to \<le> units_of src"
  shows "length (sj_transcode src start to) = sj_utf8_length src start to"
proof (cases src)
  case (SJ_ENC_LATIN1 s)
  moreover have "latin1_length_loop s start to (to - start) = (\<Sum>k \<leftarrow> [start..<to]. utf8Size (ucast (s ! k)))"
    using latin1_length_loop_eq [OF assms(1), of s "to - start"] by linarith
  ultimately show ?thesis using assms sj_transcode_eq [OF assms] by (simp add: length_concat_utf8 o_def)
next
  case (SJ_ENC_UTF32 w)
  then show ?thesis using assms sj_transcode_eq [OF assms] utf32_length_loop_eq [OF assms(1), of w 0]
    by (simp add: length_concat_utf8 o_def)
qed (use assms in simp)

lemma sj_transcode_fills_witness:
  "length (sj_transcode (SJ_ENC_UTF32 [0x20AC, 0x41]) 0 2) = sj_utf8_length (SJ_ENC_UTF32 [0x20AC, 0x41]) 0 2"
  by (rule sj_transcode_fills) simp_all

subsection \<open>Back from UTF-8\<close>

lemma bits_32_eqI:
  fixes x y :: "32 word"
  assumes "\<And>n. n < 32 \<Longrightarrow> bit x n \<longleftrightarrow> bit y n" shows "x = y"
  by (rule bit_word_eqI) (use assms in simp)

lemma small_bits: "(x :: 32 word) < 2 ^ k \<Longrightarrow> k < 32 \<Longrightarrow> k \<le> n \<Longrightarrow> \<not> bit x n"
proof -
  assume "x < 2 ^ k" "k < 32" "k \<le> n"
  then have "drop_bit k x = 0" using word_less_power_iff [of k x] by simp
  then have "\<not> bit (drop_bit k x) (n - k)" by simp
  then show ?thesis using \<open>k \<le> n\<close> by (simp add: bit_drop_bit_eq)
qed

text \<open>The bytes of a code point, as sums: a lead byte and six bits at a time.\<close>

lemma mask_or_add:
  fixes x :: "32 word"
  assumes "x < 2 ^ k" "k < 32" "take_bit k a = 0" shows "a OR x = a + x"
proof -
  have "\<not> bit a n \<or> \<not> bit x n" for n
  proof (cases "n < k")
    case True then show ?thesis using assms(3) by (metis bit_0_eq bit_take_bit_iff bot_apply bot_bool_def)
  next
    case False then show ?thesis using small_bits [OF assms(1,2)] by simp
  qed
  then show ?thesis by (simp add: disjunctive_add)
qed

lemma take_bit_byte: "k \<le> 8 \<Longrightarrow> take_bit k (ucast (ucast (y :: 32 word) :: 8 word) :: 32 word) = take_bit k y"
  by (rule bit_word_eqI) (auto simp: bit_simps)

lemma mask_6: "x AND 0x3F = take_bit 6 (x :: 32 word)"
  by (simp add: take_bit_eq_mask mask_eq_exp_minus_1)

lemma continuation: "(ucast (ucast (0x80 OR take_bit 6 x :: 32 word) :: 8 word) :: 32 word) AND 0x3F = take_bit 6 x"
  unfolding mask_6 by (simp add: take_bit_byte take_bit_or)

lemma lead:
  fixes x :: "32 word"
  assumes "x < 2 ^ k" "k < 8" "take_bit k a = 0" "unat a + 2 ^ k \<le> 256"
  shows "unat (ucast (ucast (a OR x) :: 8 word) :: 32 word) = unat a + unat x"
    and "take_bit k (ucast (ucast (a OR x) :: 8 word) :: 32 word) = x"
proof -
  have p: "unat (2 ^ k :: 32 word) = 2 ^ k"
  proof -
    have "(2 :: nat) ^ k \<le> 2 ^ 7" using assms(2) by (intro power_increasing) auto
    then show ?thesis using unat_of_nat [of "2 ^ k", where 'a = 32] by simp
  qed
  have x: "unat x < 2 ^ k" using assms(1) p by (simp add: word_less_nat_alt)
  have "unat (a OR x) = unat a + unat x"
    using mask_or_add [OF assms(1) _ assms(3)] assms x by (simp add: unat_word_ariths)
  then have u: "unat (a OR x) < 256" "unat (a OR x) = unat a + unat x" using assms x by simp_all
  have "unat (ucast (ucast (a OR x) :: 8 word) :: 32 word) = unat (a OR x) mod 256"
    unfolding unat_ucast_byte unsigned_ucast_eq [where 'a = nat] by (simp add: take_bit_eq_mod)
  then show "unat (ucast (ucast (a OR x) :: 8 word) :: 32 word) = unat a + unat x" using u by simp
  have "take_bit k x = x" using assms(1,2) by (simp add: take_bit_eq_self_iff_drop_bit_eq_0 flip: word_less_power_iff)
  then show "take_bit k (ucast (ucast (a OR x) :: 8 word) :: 32 word) = x"
    using assms(2,3) by (simp add: take_bit_byte take_bit_or)
qed

lemma unat_lead: "unat (ucast (b :: 8 word) :: 32 word) = unat a + unat x \<Longrightarrow> unat b = unat a + unat x"
  by simp

lemma join_2: "push_bit 6 (drop_bit 6 cp) OR take_bit 6 cp = (cp :: 32 word)"
  by (rule bit_word_eqI) (auto simp: bit_simps)

lemma join_3: "push_bit 12 (drop_bit 12 cp) OR push_bit 6 (take_bit 6 (drop_bit 6 cp)) OR take_bit 6 cp = (cp :: 32 word)"
proof (rule bits_32_eqI)
  fix n :: nat assume "n < 32"
  consider "n < 6" | "6 \<le> n" "n < 12" | "12 \<le> n" by linarith
  then show "bit (push_bit 12 (drop_bit 12 cp) OR push_bit 6 (take_bit 6 (drop_bit 6 cp)) OR take_bit 6 cp) n = bit cp n"
    using \<open>n < 32\<close> by cases (auto simp: bit_simps)
qed

lemma join_4: "push_bit 18 (drop_bit 18 cp) OR push_bit 12 (take_bit 6 (drop_bit 12 cp))
    OR push_bit 6 (take_bit 6 (drop_bit 6 cp)) OR take_bit 6 cp = (cp :: 32 word)"
proof (rule bits_32_eqI)
  fix n :: nat assume "n < 32"
  consider "n < 6" | "6 \<le> n" "n < 12" | "12 \<le> n" "n < 18" | "18 \<le> n" by linarith
  then show "bit (push_bit 18 (drop_bit 18 cp) OR push_bit 12 (take_bit 6 (drop_bit 12 cp))
      OR push_bit 6 (take_bit 6 (drop_bit 6 cp)) OR take_bit 6 cp) n = bit cp n"
    using \<open>n < 32\<close> by cases (auto simp: bit_simps)
qed

lemma drop_less: "(cp :: 32 word) < 2 ^ (j + k) \<Longrightarrow> j + k < 32 \<Longrightarrow> drop_bit j cp < 2 ^ k"
  using word_less_power_iff [of "j + k" cp] word_less_power_iff [of k "drop_bit j cp"] by (simp add: add.commute)

lemma next_char_utf8:
  assumes "cp \<le> 0x10FFFF" "holds_at u i n (utf8 cp)"
  shows "next_char u n i = (cp, i + utf8Size cp)"
proof -
  consider (One) "cp < 0x80" | (Two) "\<not> cp < 0x80" "cp < 0x800" | (Three) "\<not> cp < 0x800" "cp < 0x10000"
    | (Four) "\<not> cp < 0x10000" by blast
  then show ?thesis
  proof cases
    case One
    have u: "u ! i = ucast cp" using assms(2) One by (simp add: utf8_ascii)
    have cp: "ucast (ucast cp :: 8 word) = cp"
    proof (rule bits_32_eqI)
      fix k :: nat assume "k < 32"
      show "bit (ucast (ucast cp :: 8 word) :: 32 word) k = bit cp k"
        using small_bits [of cp 7 k] One \<open>k < 32\<close> by (cases "k < 8") (auto simp: bit_simps)
    qed
    then show ?thesis using One u ucast_ascii [of "ucast cp"] by (simp add: next_char_def utf8Size_def del: ucast_ascii)
  next
    case Two
    have "drop_bit 6 cp < 2 ^ 5" using Two(2) by (intro drop_less) simp_all
    then have x: "unat (drop_bit 6 cp) < 32" by (simp add: word_less_nat_alt)
    note l = lead [OF \<open>drop_bit 6 cp < 2 ^ 5\<close>, of "0xC0"]
    have u: "u ! i = ucast (0xC0 OR drop_bit 6 cp)" "u ! (i + 1) = ucast (0x80 OR take_bit 6 cp)" "i + 2 \<le> n"
      using assms(2) Two by (auto simp: utf8_def utf8Put_def mask_6)
    define c :: "32 word" where "c = ucast (u ! i)"
    have c: "unat c = 0xC0 + unat (drop_bit 6 cp)" "c AND 0x1F = drop_bit 6 cp"
      using l unfolding c_def u(1) by (simp_all add: take_bit_eq_mask mask_eq_exp_minus_1)
    have b: "ucast (u ! (i + 1)) AND 0x3F = take_bit 6 cp" unfolding u(2) by (rule continuation)
    have cl: "\<not> c < 0x80" "c < 0xE0" using c(1) x by (simp_all add: word_less_nat_alt)
    then have "\<not> u ! i < 0x80" unfolding c_def by simp
    then show ?thesis using cl b c(2) u(3) Two join_2 [of cp]
      by (simp add: next_char_def utf8Next_def utf8Size_def Let_def c_def)
  next
    case Three
    have "drop_bit 12 cp < 2 ^ 4" using Three(2) by (intro drop_less) simp_all
    then have x: "unat (drop_bit 12 cp) < 16" by (simp add: word_less_nat_alt)
    note l = lead [OF \<open>drop_bit 12 cp < 2 ^ 4\<close>, of "0xE0"]
    have s: "\<not> cp < 0x80" using Three(1) by (simp add: word_less_nat_alt)
    have u: "u ! i = ucast (0xE0 OR drop_bit 12 cp)" "u ! (i + 1) = ucast (0x80 OR take_bit 6 (drop_bit 6 cp))"
      "u ! (i + 2) = ucast (0x80 OR take_bit 6 cp)" "i + 3 \<le> n"
      using assms(2) Three s by (auto simp: utf8_def utf8Put_def mask_6)
    define c :: "32 word" where "c = ucast (u ! i)"
    have c: "unat c = 0xE0 + unat (drop_bit 12 cp)" "c AND 0x0F = drop_bit 12 cp"
      using l unfolding c_def u(1) by (simp_all add: take_bit_eq_mask mask_eq_exp_minus_1)
    have b: "ucast (u ! (i + 1)) AND 0x3F = take_bit 6 (drop_bit 6 cp)" "ucast (u ! (i + 2)) AND 0x3F = take_bit 6 cp"
      unfolding u(2,3) by (rule continuation)+
    have cl: "\<not> c < 0x80" "\<not> c < 0xE0" "c < 0xF0" using c(1) x by (simp_all add: word_less_nat_alt)
    then have "\<not> u ! i < 0x80" unfolding c_def by simp
    then show ?thesis using cl b c(2) u(4) Three s join_3 [of cp]
      by (simp add: next_char_def utf8Next_def utf8Size_def Let_def c_def)
  next
    case Four
    have "cp < 2 ^ (18 + 3)" using assms(1) by (simp add: word_less_nat_alt word_le_nat_alt)
    then have "drop_bit 18 cp < 2 ^ 3" by (intro drop_less) simp_all
    then have x: "unat (drop_bit 18 cp) < 8" by (simp add: word_less_nat_alt)
    note l = lead [OF \<open>drop_bit 18 cp < 2 ^ 3\<close>, of "0xF0"]
    have s: "\<not> cp < 0x80" "\<not> cp < 0x800" using Four(1) by (simp_all add: word_less_nat_alt)
    have u: "u ! i = ucast (0xF0 OR drop_bit 18 cp)" "u ! (i + 1) = ucast (0x80 OR take_bit 6 (drop_bit 12 cp))"
      "u ! (i + 2) = ucast (0x80 OR take_bit 6 (drop_bit 6 cp))" "u ! (i + 3) = ucast (0x80 OR take_bit 6 cp)" "i + 4 \<le> n"
      using assms Four s by (auto simp: utf8_def utf8Put_def mask_6 numeral_3_eq_3)
    define c :: "32 word" where "c = ucast (u ! i)"
    have c: "unat c = 0xF0 + unat (drop_bit 18 cp)" "c AND 0x07 = drop_bit 18 cp"
      using l unfolding c_def u(1) by (simp_all add: take_bit_eq_mask mask_eq_exp_minus_1)
    have b: "ucast (u ! (i + 1)) AND 0x3F = take_bit 6 (drop_bit 12 cp)" "ucast (u ! (i + 2)) AND 0x3F = take_bit 6 (drop_bit 6 cp)"
      "ucast (u ! (i + 3)) AND 0x3F = take_bit 6 cp"
      unfolding u(2,3,4) by (rule continuation)+
    have cl: "\<not> c < 0x80" "\<not> c < 0xE0" "\<not> c < 0xF0" using c(1) x by (simp_all add: word_less_nat_alt)
    then have "\<not> u ! i < 0x80" unfolding c_def by simp
    then show ?thesis using cl b c(2) u(5) Four s assms(1) join_4 [of cp]
      by (simp add: next_char_def utf8Next_def utf8Size_def Let_def c_def)
  qed
qed

lemma map_ucast_same [simp]: "map ucast (cps :: 32 word list) = cps"
  by (rule map_idI) (rule bit_word_eqI, simp add: bit_simps)

text \<open>The loops on the UTF-8 of a list of code points.\<close>

lemma utf8Size_pos: "0 < utf8Size cp"
  by (simp add: utf8Size_def)

lemma utf8_decode_loop_eq:
  "\<forall>cp \<in> set cps. cp \<le> 0x10FFFF \<Longrightarrow> holds_at u i n (concat (map utf8 cps)) \<Longrightarrow>
   i + length (concat (map utf8 cps)) = n \<Longrightarrow> utf8_decode_loop u n i dst = dst @ map ucast cps"
proof (induction cps arbitrary: i dst)
  case Nil then show ?case by (subst utf8_decode_loop.simps) simp
next
  case (Cons cp cps)
  have n: "next_char u n i = (cp, i + utf8Size cp)" using Cons.prems by (intro next_char_utf8) auto
  have "i < n" using Cons.prems(3) utf8Size_pos [of cp] by simp
  then have "utf8_decode_loop u n i dst = utf8_decode_loop u n (i + utf8Size cp) (dst @ [ucast cp])"
    by (subst utf8_decode_loop.simps) (simp add: n)
  then show ?case using Cons.IH [of "i + utf8Size cp" "dst @ [ucast cp]"] Cons.prems by simp
qed

lemma utf8_scan_loop_eq:
  "\<forall>cp \<in> set cps. cp \<le> 0x10FFFF \<Longrightarrow> holds_at u i n (concat (map utf8 cps)) \<Longrightarrow>
   i + length (concat (map utf8 cps)) = n \<Longrightarrow>
   utf8_scan_loop u n i count m = (count + length cps, fold max cps m)"
proof (induction cps arbitrary: i count m)
  case Nil then show ?case by (subst utf8_scan_loop.simps) simp
next
  case (Cons cp cps)
  have n: "next_char u n i = (cp, i + utf8Size cp)" using Cons.prems by (intro next_char_utf8) auto
  have "i < n" using Cons.prems(3) utf8Size_pos [of cp] by simp
  then have "utf8_scan_loop u n i count m = utf8_scan_loop u n (i + utf8Size cp) (count + 1) (max cp m)"
    by (subst utf8_scan_loop.simps) (auto simp: n max_def)
  then show ?case using Cons.IH [of "i + utf8Size cp" "count + 1" "max cp m"] Cons.prems by simp
qed

lemma holds_at_self: "holds_at cs 0 (length cs) cs"
  by (simp add: holds_at_def)

text \<open>A character has one byte that does not continue another.\<close>

lemma continues_iff: "(b :: 8 word) AND 0xC0 = 0x80 \<longleftrightarrow> 128 \<le> unat b \<and> unat b < 192"
proof -
  have "\<forall>n \<in> set [0..<256]. (of_nat n :: 8 word) AND 0xC0 = 0x80 \<longleftrightarrow> 128 \<le> n \<and> n < 192" by code_simp
  moreover have "unat b \<in> set [0..<256]" using unat_lt [of b] by simp
  moreover have "of_nat (unat b) = b" by simp
  ultimately show ?thesis by metis
qed

lemma unat_marked:
  fixes x :: "32 word"
  assumes "x < 2 ^ k" "k < 8" "take_bit k a = 0" "unat a + 2 ^ k \<le> 256"
  shows "unat (ucast (a OR x) :: 8 word) = unat a + unat x"
  using lead(1) [OF assms] by simp

lemma continues_continuation: "(ucast (0x80 OR take_bit 6 (x :: 32 word)) :: 8 word) AND 0xC0 = 0x80"
proof -
  have "take_bit 6 x < 2 ^ 6" using word_less_power_iff [of 6 "take_bit 6 x"] by (simp add: drop_bit_take_bit)
  then show ?thesis using unat_marked [of "take_bit 6 x" 6 "0x80"] unfolding continues_iff
    by (simp add: word_less_nat_alt)
qed

lemma leads_not_continuation:
  fixes x :: "32 word"
  assumes "x < 2 ^ k" "k < 8" "take_bit k a = 0" "unat a + 2 ^ k \<le> 256" "192 \<le> unat a"
  shows "(ucast (a OR x) :: 8 word) AND 0xC0 \<noteq> 0x80"
  using unat_marked [OF assms(1-4)] assms(5) unfolding continues_iff by simp

lemma utf8_continuation_count:
  assumes "cp \<le> 0x10FFFF"
  shows "length (filter (\<lambda>b. b AND 0xC0 \<noteq> 0x80) (utf8 cp)) = 1"
proof -
  consider (One) "cp < 0x80" | (Two) "\<not> cp < 0x80" "cp < 0x800" | (Three) "\<not> cp < 0x80" "\<not> cp < 0x800" "cp < 0x10000"
    | (Four) "\<not> cp < 0x80" "\<not> cp < 0x800" "\<not> cp < 0x10000" by blast
  then show ?thesis
  proof cases
    case One
    then have "unat cp < 128" by (simp add: word_less_nat_alt)
    then have "unat (ucast cp :: 8 word) < 128" unfolding unsigned_ucast_eq by (simp add: take_bit_eq_mod)
    then have "(ucast cp :: 8 word) AND 0xC0 \<noteq> 0x80" unfolding continues_iff by simp
    then show ?thesis using One by (simp add: utf8_ascii)
  next
    case Two
    have "drop_bit 6 cp < 2 ^ 5" using Two by (intro drop_less) simp_all
    then show ?thesis using Two leads_not_continuation [of "drop_bit 6 cp" 5 "0xC0"]
      by (simp add: utf8_def utf8Put_def mask_6 continues_continuation)
  next
    case Three
    have "drop_bit 12 cp < 2 ^ 4" using Three by (intro drop_less) simp_all
    then show ?thesis using Three leads_not_continuation [of "drop_bit 12 cp" 4 "0xE0"]
      by (simp add: utf8_def utf8Put_def mask_6 continues_continuation)
  next
    case Four
    have "cp < 2 ^ (18 + 3)" using assms by (simp add: word_less_nat_alt word_le_nat_alt)
    then have "drop_bit 18 cp < 2 ^ 3" by (intro drop_less) simp_all
    then show ?thesis using Four assms leads_not_continuation [of "drop_bit 18 cp" 3 "0xF0"]
      by (simp add: utf8_def utf8Put_def mask_6 continues_continuation)
  qed
qed

lemma count_characters:
  "\<forall>cp \<in> set cps. cp \<le> 0x10FFFF \<Longrightarrow>
   length (filter (\<lambda>b. b AND 0xC0 \<noteq> 0x80) (concat (map utf8 cps))) = length cps"
  by (induction cps) (simp_all add: utf8_continuation_count)

lemma sj_utf8_chars_eq: "sj_utf8_chars s (length s) = length (filter (\<lambda>b. b AND 0xC0 \<noteq> 0x80) s)"
proof -
  have "filter (\<lambda>b. b AND 0xC0 \<noteq> 0x80) s = map (\<lambda>i. s ! i) (filter (\<lambda>i. s ! i AND 0xC0 \<noteq> 0x80) [0..<length s])"
    by (metis (no_types, lifting) filter_cong filter_map map_nth o_apply)
  then show ?thesis by (simp add: sj_utf8_chars_def)
qed

lemma code_points_bound: "\<not> is_utf8 src \<Longrightarrow> (\<And>w. src \<noteq> SJ_ENC_UTF32 w) \<Longrightarrow> \<forall>cp \<in> set (code_points src start to). cp \<le> 0x10FFFF"
proof (cases src)
  case (SJ_ENC_LATIN1 s)
  have "(ucast (b :: 8 word) :: 32 word) \<le> 0x10FFFF" for b
    using unat_lt [of b] by (simp only: word_le_nat_alt unat_ucast_byte) simp
  then show ?thesis using SJ_ENC_LATIN1 by auto
qed auto

text \<open>
  C31: Round trip: the UTF-8 of any source of code points up to U+10FFFF, surrogates included, is read
  back as those code points; the scan counts them and finds the largest, and \<open>sj_utf8_chars\<close>
  counts them too.
\<close>

theorem sj_transcode_reads_back:
  assumes "start \<le> to" "to \<le> units_of src" "\<not> is_utf8 src"
    "\<forall>cp \<in> set (code_points src start to). cp \<le> 0x10FFFF"
  shows "let u = sj_transcode src start to; cps = code_points src start to
    in sj_utf8_to_utf32 u (length u) = cps
      \<and> sj_utf8_scan u (length u) = (length cps, fold max cps 0)
      \<and> sj_utf8_chars u (length u) = length cps"
  using utf8_decode_loop_eq [OF assms(4) holds_at_self, of "[] :: 32 word list"]
    utf8_scan_loop_eq [OF assms(4) holds_at_self, of 0 0] count_characters [OF assms(4)]
  by (simp add: sj_transcode_eq [OF assms(1-3)] sj_utf8_to_utf32_def sj_utf8_scan_def sj_utf8_chars_eq Let_def)

lemma sj_transcode_reads_back_witness:
  "let u = sj_transcode (SJ_ENC_UTF32 [0x1F600, 0x41]) 0 2
    in sj_utf8_to_utf32 u (length u) = [0x1F600, 0x41] \<and> sj_utf8_chars u (length u) = 2"
  using sj_transcode_reads_back [of 0 2 "SJ_ENC_UTF32 [0x1F600, 0x41]"] by (simp add: Let_def upt_rec)

text \<open>
  Round trip of Latin-1: a byte string transcoded to UTF-8 and back is the byte string.
\<close>

theorem sj_transcode_latin1_reads_back:
  "sj_utf8_to_latin1 (sj_transcode (SJ_ENC_LATIN1 s) 0 (length s))
     (length (sj_transcode (SJ_ENC_LATIN1 s) 0 (length s))) = s"
proof -
  let ?src = "SJ_ENC_LATIN1 s"
  have b: "\<forall>cp \<in> set (code_points ?src 0 (length s)). cp \<le> 0x10FFFF" by (rule code_points_bound) simp_all
  have "map ucast (code_points ?src 0 (length s)) = s" by (simp add: o_def map_nth)
  then show ?thesis
    using utf8_decode_loop_eq [OF b holds_at_self, of "[] :: 8 word list"] sj_transcode_eq [of 0 "length s" ?src]
    by (simp add: sj_utf8_to_latin1_def del: code_points.simps)
qed

text \<open>A code point above U+10FFFF is written as the byte FF, which is read back as another.\<close>

lemma beyond_unicode: "sj_transcode (SJ_ENC_UTF32 [0x110000]) 0 1 = [0xFF]"
  by (simp add: utf32_transcode_loop_eq utf8_def utf8Put_def)

end
