(* ===== verification/JsonOut.thy ===== *)
theory JsonOut
  imports JsonUtf8
begin

text \<open>
  Writing JSON, \<open>sjText.c\<close>: a buffer that grows, integers of any size in decimal, and strings with
  their escapes. The buffer is its bytes so far with its capacity; \<open>alloc n\<close> says whether an
  allocation of \<open>n\<close> bytes succeeds. The appenders answer 0, -1 when memory or the size ends, and
  \<open>sj_out_string\<close> -2 for a code point that is none.
\<close>

record sj_out =
  written :: "8 word list"
  cap :: nat

definition SIZE_MAX :: nat where
  "SIZE_MAX = 2 ^ 64 - 1"

definition sj_out_free :: "sj_out \<Rightarrow> sj_out" where
  "sj_out_free o1 = o1\<lparr>written := [], cap := 0\<rparr>"

function grown_cap :: "nat \<Rightarrow> nat \<Rightarrow> nat \<Rightarrow> nat" where
  "grown_cap c n need = (if 0 < c \<and> c - n < need then grown_cap (c * 2) n need else c)"
  by pat_completeness auto
termination by (relation "measure (\<lambda>(c, n, need). n + need - c)") auto

declare grown_cap.simps [simp del]

definition sj_out_reserve :: "(nat \<Rightarrow> bool) \<Rightarrow> nat \<Rightarrow> sj_out \<Rightarrow> int \<times> sj_out" where
  "sj_out_reserve alloc need o1 =
     (if need \<le> cap o1 - length (written o1) then (0, o1)
      else if need > SIZE_MAX div 2 - length (written o1) then (-1, o1)
      else let c = grown_cap (if cap o1 \<noteq> 0 then cap o1 else 4096) (length (written o1)) need
        in if alloc c then (0, o1\<lparr>cap := c\<rparr>) else (-1, o1))"

definition sj_out_bytes :: "(nat \<Rightarrow> bool) \<Rightarrow> 8 word list \<Rightarrow> sj_out \<Rightarrow> int \<times> sj_out" where
  "sj_out_bytes alloc s o1 =
     (let (r, o1) = sj_out_reserve alloc (length s) o1
      in if r \<noteq> 0 then (-1, o1) else (0, o1\<lparr>written := written o1 @ s\<rparr>))"

definition sj_out_char :: "(nat \<Rightarrow> bool) \<Rightarrow> 8 word \<Rightarrow> sj_out \<Rightarrow> int \<times> sj_out" where
  "sj_out_char alloc c o1 =
     (let (r, o1) = (if length (written o1) = cap o1 then sj_out_reserve alloc 1 o1 else (0, o1))
      in if r \<noteq> 0 then (-1, o1) else (0, o1\<lparr>written := written o1 @ [c]\<rparr>))"

text \<open>The digits of \<open>outUInt64\<close>, written from the end of its buffer.\<close>

function digits_loop :: "nat \<Rightarrow> 8 word list \<Rightarrow> 8 word list" where
  "digits_loop v ds =
     (let ds = of_nat (48 + v mod 10) # ds in if v div 10 \<noteq> 0 then digits_loop (v div 10) ds else ds)"
  by pat_completeness auto
termination by (relation "measure fst") auto

declare digits_loop.simps [simp del]

definition outUInt64 :: "(nat \<Rightarrow> bool) \<Rightarrow> 64 word \<Rightarrow> bool \<Rightarrow> sj_out \<Rightarrow> int \<times> sj_out" where
  "outUInt64 alloc v negative o1 =
     sj_out_bytes alloc ((if negative then [45] else []) @ digits_loop (unat v) []) o1"

definition sj_out_int64 :: "(nat \<Rightarrow> bool) \<Rightarrow> 64 word \<Rightarrow> sj_out \<Rightarrow> int \<times> sj_out" where
  "sj_out_int64 alloc v o1 =
     (if sint v < 0 then outUInt64 alloc (0 - v) True o1 else outUInt64 alloc v False o1)"

text \<open>One pass of the division by \<open>10 ^ 9\<close>, from the most significant limb.\<close>

primrec div_limbs :: "32 word list \<Rightarrow> 64 word \<Rightarrow> 32 word list \<Rightarrow> 32 word list \<times> 64 word" where
  "div_limbs [] rem q = (q, rem)"
| "div_limbs (l # ls) rem q =
     (let cur = push_bit 32 rem OR ucast l
      in div_limbs ls (cur mod 1000000000) (ucast (cur div 1000000000) # q))"

text \<open>The limbs least significant first, without the zero limbs at the end.\<close>

definition strip_limbs :: "'w::len word list \<Rightarrow> 'w word list" where
  "strip_limbs ls = rev (dropWhile (\<lambda>l. l = 0) (rev ls))"

definition div_pass :: "32 word list \<Rightarrow> 32 word list \<times> 64 word" where
  "div_pass limbs = div_limbs (rev limbs) 0 []"

definition limbs_of :: "8 word list \<Rightarrow> 32 word list" where
  "limbs_of le = fold (\<lambda>i ls. ls[i div 4 := ls ! (i div 4) OR push_bit (8 * (i mod 4)) (ucast (le ! i))])
     [0..<length le] (replicate ((length le + 3) div 4) 0)"

subsection \<open>The division by \<open>10 ^ 9\<close>\<close>

lemma unat_cur:
  assumes "unat rem < 1000000000"
  shows "unat (push_bit 32 (rem :: 64 word) OR ucast (l :: 32 word)) = unat rem * 2 ^ 32 + unat l"
proof -
  have l: "unat (ucast l :: 64 word) = unat l"
  proof -
    have "take_bit 64 (unat l) = unat l" by (rule take_bit_nat_eq_self, rule less_le_trans [OF unat_lt]) simp
    then show ?thesis by (simp add: unsigned_ucast_eq)
  qed
  have "\<not> bit (push_bit 32 rem) n \<or> \<not> bit (ucast l :: 64 word) n" for n
    using bit_imp_le_length [of l n] by (auto simp: bit_simps)
  then have "push_bit 32 rem OR ucast l = push_bit 32 rem + ucast l" by (simp add: disjunctive_add)
  moreover have "unat (push_bit 32 rem) = unat rem * 2 ^ 32"
  proof -
    have "unat rem * 2 ^ 32 < 2 ^ 64" using assms by simp
    then show ?thesis unfolding unsigned_push_bit_eq by (simp add: push_bit_eq_mult take_bit_nat_eq_self)
  qed
  moreover have "unat rem * 2 ^ 32 + unat l < 2 ^ 64" using assms unat_lt [of l] by simp
  ultimately show ?thesis using l by (simp add: unat_word_ariths)
qed

lemma div_mod_plus: "(r :: nat) < d \<Longrightarrow> (q * d + r) div d = q" "r < d \<Longrightarrow> (q * d + r) mod d = r"
  by simp_all

lemma div_limbs_divides:
  "unat rem < 1000000000 \<Longrightarrow> \<exists>qs r. div_limbs ls rem q = (qs @ q, r) \<and> length qs = length ls \<and> unat r < 1000000000
    \<and> unat rem * 2 ^ (32 * length ls) + val (rev ls) = val qs * 1000000000 + unat r"
proof (induction ls arbitrary: rem q)
  case (Cons l ls)
  define c where "c = push_bit 32 rem OR (ucast l :: 64 word)"
  have c: "unat c = unat rem * 2 ^ 32 + unat l" using unat_cur [OF Cons.prems] by (simp add: c_def)
  have m: "unat (c mod 1000000000) = unat c mod 1000000000" by (simp add: unat_mod_distrib)
  have d: "unat (ucast (c div 1000000000) :: 32 word) = unat c div 1000000000"
  proof -
    have "unat c < 1000000000 * 2 ^ 32" using c Cons.prems unat_lt [of l] by simp
    then have "unat c div 1000000000 < 2 ^ 32" by (simp add: div_less_iff_less_mult)
    then show ?thesis unfolding unsigned_ucast_eq by (simp add: unat_div_distrib take_bit_nat_eq_self)
  qed
  have "unat (c mod 1000000000) < 1000000000" by (simp add: m)
  from Cons.IH [OF this, of "ucast (c div 1000000000) # q"] obtain qs r where
    r: "div_limbs ls (c mod 1000000000) (ucast (c div 1000000000) # q) = (qs @ ucast (c div 1000000000) # q, r)"
      "length qs = length ls" "unat r < 1000000000"
      "unat c mod 1000000000 * 2 ^ (32 * length ls) + val (rev ls) = val qs * 1000000000 + unat r"
    unfolding m by blast
  have pw: "(2 :: nat) ^ (32 * length (l # ls)) = 2 ^ 32 * 2 ^ (32 * length ls)"
    using power_add [of "2 :: nat" 32 "32 * length ls"] by simp
  have vl: "val (rev (l # ls)) = val (rev ls) + 2 ^ (32 * length ls) * unat l" by (simp add: val_append)
  have "unat rem * 2 ^ (32 * length (l # ls)) + val (rev (l # ls)) = unat c * 2 ^ (32 * length ls) + val (rev ls)"
    unfolding pw vl c by (simp only: algebra_simps)
  also have "unat c = unat c div 1000000000 * 1000000000 + unat c mod 1000000000" by simp
  finally have "unat rem * 2 ^ (32 * length (l # ls)) + val (rev (l # ls))
      = unat c div 1000000000 * 2 ^ (32 * length ls) * 1000000000 + (unat c mod 1000000000 * 2 ^ (32 * length ls) + val (rev ls))"
    by (simp only: algebra_simps)
  moreover have "val (qs @ [ucast (c div 1000000000)]) = val qs + 2 ^ (32 * length ls) * (unat c div 1000000000)"
    by (simp add: val_append d r(2))
  then have "unat c div 1000000000 * 2 ^ (32 * length ls) * 1000000000 + (unat c mod 1000000000 * 2 ^ (32 * length ls) + val (rev ls))
      = val (qs @ [ucast (c div 1000000000)]) * 1000000000 + unat r"
    unfolding r(4) by (simp only: algebra_simps)
  ultimately have v: "unat rem * 2 ^ (32 * length (l # ls)) + val (rev (l # ls))
      = val (qs @ [ucast (c div 1000000000)]) * 1000000000 + unat r" by (simp only:)
  have "div_limbs (l # ls) rem q = ((qs @ [ucast (c div 1000000000)]) @ q, r)"
    using r(1) by (simp add: c_def Let_def)
  moreover have "length (qs @ [ucast (c div 1000000000)]) = length (l # ls)" using r(2) by simp
  ultimately show ?case using v r(3) by blast
qed simp

lemma div_pass_divides:
  obtains q r where "div_pass limbs = (q, r)" "length q = length limbs"
    "val q = val limbs div 1000000000" "unat r = val limbs mod 1000000000"
proof -
  obtain q r where r: "div_limbs (rev limbs) 0 [] = (q, r)" "length q = length limbs" "unat r < 1000000000"
      "val limbs = val q * 1000000000 + unat r"
  proof -
    have "unat (0 :: 64 word) < 1000000000" by simp
    from div_limbs_divides [OF this, of "rev limbs" "[]"] show thesis
      by (elim exE conjE, intro that) (simp_all only: append_Nil2 length_rev rev_rev_ident unat_0 mult_0 add_0_left)
  qed
  note e = div_mod_plus [OF r(3), of "val q"]
  show ?thesis
  proof (rule that [OF _ r(2)])
    show "div_pass limbs = (q, r)" by (simp only: div_pass_def r(1))
    show "val q = val limbs div 1000000000" "unat r = val limbs mod 1000000000" unfolding r(4) e by (rule refl)+
  qed
qed

lemma strip_limbs_zeros: "\<exists>n. ls = strip_limbs ls @ replicate n 0"
proof -
  define z d where "z = takeWhile (\<lambda>l. l = 0) (rev ls)" and "d = dropWhile (\<lambda>l. l = 0) (rev ls)"
  have "rev ls = z @ d" by (simp add: z_def d_def)
  then have "ls = rev d @ rev z" by (metis rev_append rev_rev_ident)
  moreover have "\<forall>x \<in> set (rev z). x = 0" by (auto simp: z_def dest: set_takeWhileD)
  then have "rev z = replicate (length z) 0" using replicate_length_same [of "rev z" 0] by simp
  ultimately have "ls = strip_limbs ls @ replicate (length z) 0" by (simp add: strip_limbs_def d_def)
  then show ?thesis ..
qed

lemma strip_limbs_val [simp]: "val (strip_limbs ls) = val ls" and strip_limbs_length: "length (strip_limbs ls) \<le> length ls"
proof -
  obtain n where n: "ls = strip_limbs ls @ replicate n 0" using strip_limbs_zeros by blast
  show "val (strip_limbs ls) = val ls" using arg_cong [OF n, of val] by (simp add: val_append)
  show "length (strip_limbs ls) \<le> length ls" using arg_cong [OF n, of length] by simp
qed

lemma strip_limbs_0: "val ls = 0 \<Longrightarrow> strip_limbs ls = []"
  by (simp add: strip_limbs_def val_eq_0_iff)

text \<open>The chunks of nine digits, least significant first.\<close>

function chunks_loop :: "32 word list \<Rightarrow> 32 word list \<Rightarrow> 32 word list" where
  "chunks_loop limbs chunks =
     (if limbs = [] then chunks
      else let (q, r) = div_pass limbs in chunks_loop (strip_limbs q) (chunks @ [ucast r]))"
  by pat_completeness auto
termination
proof (relation "measure (\<lambda>(limbs, chunks). val limbs + length limbs)", simp)
  fix limbs chunks :: "32 word list" and x q and r :: "64 word"
  assume h: "limbs \<noteq> []" "x = div_pass limbs" "(q, r) = x"
  then have q: "length q = length limbs" "val q = val limbs div 1000000000"
    using div_pass_divides [of limbs] by (metis prod.inject)+
  have "val q + length (strip_limbs q) < val limbs + length limbs"
  proof (cases "val limbs = 0")
    case True then show ?thesis using q h(1) strip_limbs_0 [of q] by simp
  next
    case False
    then have "val q < val limbs" using q(2) by simp
    then show ?thesis using q(1) strip_limbs_length [of q] by linarith
  qed
  then show "((strip_limbs q, chunks @ [ucast r]), limbs, chunks) \<in> measure (\<lambda>(limbs, chunks). val limbs + length limbs)"
    by simp
qed

declare chunks_loop.simps [simp del]

primrec pad_digits :: "nat \<Rightarrow> nat \<Rightarrow> 8 word list \<Rightarrow> 8 word list" where
  "pad_digits 0 c ds = ds"
| "pad_digits (Suc k) c ds = pad_digits k (c div 10) (of_nat (48 + c mod 10) # ds)"

primrec out_chunks :: "(nat \<Rightarrow> bool) \<Rightarrow> 32 word list \<Rightarrow> int \<times> sj_out \<Rightarrow> int \<times> sj_out" where
  "out_chunks alloc [] ro = ro"
| "out_chunks alloc (c # cs) ro =
     (if fst ro \<noteq> 0 then ro else out_chunks alloc cs (sj_out_bytes alloc (pad_digits 9 (unat c) []) (snd ro)))"

definition sj_out_magnitude :: "(nat \<Rightarrow> bool) \<Rightarrow> 8 word list \<Rightarrow> bool \<Rightarrow> sj_out \<Rightarrow> int \<times> sj_out" where
  "sj_out_magnitude alloc le negative o1 =
     (let le = strip_limbs le; n = length le
      in if n \<le> 8
         then let small = fold (\<lambda>b s. push_bit 8 s OR ucast b) (rev le) 0
           in outUInt64 alloc small (negative \<and> small \<noteq> 0) o1
         else
           let nlimbs = (n + 3) div 4
           in if \<not> alloc (4 * nlimbs) \<or> \<not> alloc (4 * (nlimbs * 10 div 9 + 2)) then (-1, o1)
              else
                let chunks = chunks_loop (limbs_of le) [];
                    (r, o1) = (if negative then sj_out_char alloc 45 o1 else (0, o1));
                    (r, o1) = (if r = 0 then outUInt64 alloc (ucast (last chunks)) False o1 else (r, o1))
                in out_chunks alloc (rev (butlast chunks)) (r, o1))"

subsection \<open>Decimal numerals\<close>

definition dec :: "nat \<Rightarrow> 8 word list" where
  "dec v = digits_loop v []"

lemma digits_loop_step:
  "digits_loop v ds = (if v < 10 then of_nat (48 + v mod 10) # ds else digits_loop (v div 10) (of_nat (48 + v mod 10) # ds))"
  by (subst digits_loop.simps) (auto simp: Let_def div_eq_0_iff simp del: of_nat_add)

lemma digits_loop_append: "digits_loop v (ds @ es) = digits_loop v ds @ es"
proof (induction v ds rule: digits_loop.induct)
  case (1 v ds)
  show ?case
  proof (cases "v < 10")
    case True then show ?thesis by (subst (1 2) digits_loop_step) (simp del: of_nat_add)
  next
    case False
    then have "v div 10 \<noteq> 0" by (simp add: div_eq_0_iff)
    then have "digits_loop (v div 10) ((of_nat (48 + v mod 10) # ds) @ es) = digits_loop (v div 10) (of_nat (48 + v mod 10) # ds) @ es"
      by (rule 1 [OF refl])
    then show ?thesis using False by (subst (1 2) digits_loop_step) (simp del: of_nat_add)
  qed
qed

lemma digits_loop_dec: "digits_loop v ds = dec v @ ds"
  using digits_loop_append [of v "[]" ds] by (simp add: dec_def)

lemma dec_rec: "dec v = (if v < 10 then [of_nat (48 + v)] else dec (v div 10) @ [of_nat (48 + v mod 10)])"
  unfolding dec_def using digits_loop_append [of "v div 10" "[]" "[of_nat (48 + v mod 10)]"]
  by (subst digits_loop_step) (simp del: of_nat_add)

lemma pad_digits_append: "pad_digits k c ds = pad_digits k c [] @ ds"
proof (induction k arbitrary: c ds)
  case (Suc k)
  show ?case
    using Suc.IH [of "c div 10" "of_nat (48 + c mod 10) # ds"] Suc.IH [of "c div 10" "[of_nat (48 + c mod 10)]"]
    by (simp del: of_nat_add)
qed simp

lemma dec_pad: "0 < a \<Longrightarrow> c < 10 ^ k \<Longrightarrow> dec (a * 10 ^ k + c) = dec a @ pad_digits k c []"
proof (induction k arbitrary: c)
  case (Suc k)
  have e: "a * 10 ^ Suc k + c = 10 * (a * 10 ^ k) + c" by simp
  have d: "(10 * (a * 10 ^ k) + c) div 10 = a * 10 ^ k + c div 10" "(10 * (a * 10 ^ k) + c) mod 10 = c mod 10"
    by simp_all
  have "1 \<le> a * 10 ^ k" using Suc.prems(1) by simp
  then have "\<not> 10 * (a * 10 ^ k) + c < 10" by linarith
  then have "dec (a * 10 ^ Suc k + c) = dec (a * 10 ^ k + c div 10) @ [of_nat (48 + c mod 10)]"
    unfolding e by (subst dec_rec) (simp only: d if_False)
  also have "dec (a * 10 ^ k + c div 10) = dec a @ pad_digits k (c div 10) []"
  proof (rule Suc.IH [OF Suc.prems(1)])
    show "c div 10 < 10 ^ k" using Suc.prems(2) by (simp add: div_less_iff_less_mult mult.commute)
  qed
  finally show ?case using pad_digits_append [of k "c div 10" "[of_nat (48 + c mod 10)]"] by (simp del: of_nat_add)
qed simp

text \<open>A numeral of the buffer of \<open>outUInt64\<close> fits its 21 bytes, with its sign.\<close>

lemma length_dec: "v < 10 ^ k \<Longrightarrow> 0 < k \<Longrightarrow> length (dec v) \<le> k"
proof (induction k arbitrary: v)
  case (Suc k)
  show ?case
  proof (cases "v < 10")
    case True then show ?thesis by (subst dec_rec) simp
  next
    case False
    then have "0 < k" using Suc.prems(1) by (cases k) auto
    moreover have "v div 10 < 10 ^ k" using Suc.prems(1) by (simp add: div_less_iff_less_mult mult.commute)
    ultimately have "length (dec (v div 10)) \<le> k" by (intro Suc.IH)
    then show ?thesis using False by (subst dec_rec) simp
  qed
qed simp

text \<open>Reading a numeral back.\<close>

definition numeral_value :: "8 word list \<Rightarrow> nat" where
  "numeral_value ds = foldl (\<lambda>v d. 10 * v + (unat d - 48)) 0 ds"

lemma unat_digit: "d < 10 \<Longrightarrow> unat (of_nat (48 + d) :: 8 word) = 48 + d"
  by (simp add: unat_of_nat del: of_nat_add)

lemma numeral_value_dec [simp]: "numeral_value (dec v) = v"
proof (induction v rule: less_induct)
  case (less v)
  show ?case
  proof (cases "v < 10")
    case True then show ?thesis by (subst dec_rec) (simp add: numeral_value_def unat_digit del: of_nat_add)
  next
    case False
    then have "numeral_value (dec (v div 10)) = v div 10" by (intro less) simp
    then show ?thesis using False
      by (subst dec_rec) (simp add: numeral_value_def unat_digit del: of_nat_add)
  qed
qed

definition billion :: nat where
  "billion = 1000000000"

lemma billion: "billion = 10 ^ 9" "0 < billion"
  by (simp_all add: billion_def)

primrec chunk_value :: "32 word list \<Rightarrow> nat" where
  "chunk_value [] = 0"
| "chunk_value (c # cs) = chunk_value cs * billion + unat c"

lemma chunk_value_pos: "cs \<noteq> [] \<Longrightarrow> last cs \<noteq> 0 \<Longrightarrow> 0 < chunk_value cs"
  by (induction cs) (auto simp: billion unat_gt_0 split: if_splits)

lemma dec_chunks:
  "cs \<noteq> [] \<Longrightarrow> last cs \<noteq> 0 \<Longrightarrow> \<forall>c \<in> set cs. unat c < billion \<Longrightarrow>
   dec (chunk_value cs) = dec (unat (last cs)) @ concat (map (\<lambda>c. pad_digits 9 (unat c) []) (rev (butlast cs)))"
proof (induction cs)
  case (Cons c cs)
  show ?case
  proof (cases "cs = []")
    case False
    then have "0 < chunk_value cs" using Cons.prems by (intro chunk_value_pos) auto
    then have "dec (chunk_value cs * billion + unat c) = dec (chunk_value cs) @ pad_digits 9 (unat c) []"
      using Cons.prems(3) unfolding billion by (intro dec_pad) auto
    then show ?thesis using False Cons.IH Cons.prems by (simp del: pad_digits.simps)
  qed simp
qed simp

subsection \<open>Large integers\<close>

lemma val_at:
  fixes ls :: "'w::len word list"
  assumes "j < length ls"
  shows "val (ls[j := y]) = val (take j ls) + 2 ^ (LENGTH('w) * j) * (unat y + 2 ^ LENGTH('w) * val (drop (Suc j) ls))"
    and "val ls = val (take j ls) + 2 ^ (LENGTH('w) * j) * (unat (ls ! j) + 2 ^ LENGTH('w) * val (drop (Suc j) ls))"
proof -
  have "ls[j := y] = take j ls @ y # drop (Suc j) ls" for y using assms by (simp add: upd_conv_take_nth_drop)
  then have "val (ls[j := y]) = val (take j ls) + 2 ^ (LENGTH('w) * j) * (unat y + 2 ^ LENGTH('w) * val (drop (Suc j) ls))" for y
    using assms by (simp add: val_append min_def)
  from this [of y] this [of "ls ! j"]
  show "val (ls[j := y]) = val (take j ls) + 2 ^ (LENGTH('w) * j) * (unat y + 2 ^ LENGTH('w) * val (drop (Suc j) ls))"
    and "val ls = val (take j ls) + 2 ^ (LENGTH('w) * j) * (unat (ls ! j) + 2 ^ LENGTH('w) * val (drop (Suc j) ls))"
    by simp_all
qed

lemma limb_le_val:
  fixes ls :: "'w::len word list"
  assumes "j < length ls" shows "2 ^ (LENGTH('w) * j) * unat (ls ! j) \<le> val ls"
proof -
  have "2 ^ (LENGTH('w) * j) * unat (ls ! j)
      \<le> val (take j ls) + 2 ^ (LENGTH('w) * j) * (unat (ls ! j) + 2 ^ LENGTH('w) * val (drop (Suc j) ls))"
    by (simp add: distrib_left)
  also have "\<dots> = val ls" by (rule val_at(2) [OF assms, symmetric])
  finally show ?thesis .
qed

lemma or_byte:
  fixes x :: "32 word" and b :: "8 word"
  assumes "unat x < 2 ^ m" "m \<le> 24"
  shows "unat (x OR push_bit m (ucast b)) = unat x + unat b * 2 ^ m"
proof -
  have p: "(2 :: nat) ^ m \<le> 2 ^ 24" using assms(2) by (intro power_increasing) auto
  have "unat (2 ^ m :: 32 word) = 2 ^ m" using unat_of_nat [of "2 ^ m", where 'a = 32] p by simp
  then have "x < 2 ^ m" using assms(1) by (simp add: word_less_nat_alt)
  then have "\<not> bit x n \<or> \<not> bit (push_bit m (ucast b) :: 32 word) n" for n
    using small_bits [of x m n] assms(2) by (cases "n < m") (auto simp: bit_simps)
  then have "x OR push_bit m (ucast b) = x + push_bit m (ucast b)" by (simp add: disjunctive_add)
  moreover have "unat (push_bit m (ucast b) :: 32 word) = unat b * 2 ^ m"
  proof -
    have "unat b * 2 ^ m < 256 * 2 ^ m" using unat_lt [of b] by simp
    also have "(256 :: nat) * 2 ^ m \<le> 256 * 2 ^ 24" using p by simp
    finally have "take_bit 32 (unat b * 2 ^ m) = unat b * 2 ^ m" by (intro take_bit_nat_eq_self) simp
    then show ?thesis unfolding unsigned_push_bit_eq unat_ucast_byte by (simp add: push_bit_eq_mult)
  qed
  moreover have "unat x + unat b * 2 ^ m < 2 ^ 32"
  proof -
    have "unat x + unat b * 2 ^ m < 2 ^ m + 255 * 2 ^ m"
      using assms(1) unat_lt [of b] by (intro add_less_le_mono mult_le_mono1) auto
    also have "\<dots> = 256 * 2 ^ m" by simp
    also have "\<dots> \<le> 256 * 2 ^ 24" using p by simp
    finally show ?thesis by simp
  qed
  ultimately show ?thesis by (simp add: unat_word_ariths)
qed

lemma val_limbs_of: "val (limbs_of le) = val le"
proof -
  let ?N = "(length le + 3) div 4"
  let ?f = "\<lambda>i ls. ls[i div 4 := ls ! (i div 4) OR push_bit (8 * (i mod 4)) (ucast (le ! i))] :: 32 word list"
  have "length (fold ?f [0..<k] (replicate ?N 0)) = ?N \<and> val (fold ?f [0..<k] (replicate ?N 0)) = val (take k le)"
    if "k \<le> length le" for k using that
  proof (induction k)
    case (Suc k)
    define ls where "ls = fold ?f [0..<k] (replicate ?N (0 :: 32 word))"
    define j m where "j = k div 4" and "m = 8 * (k mod 4)"
    have ls: "length ls = ?N" "val ls = val (take k le)" using Suc by (auto simp: ls_def)
    have j: "j < length ls" using Suc.prems unfolding ls(1) j_def by linarith
    have k: "8 * k = 32 * j + m" unfolding j_def m_def by presburger
    have m: "m \<le> 24" unfolding m_def by presburger
    have "val (take k le) < 2 ^ (8 * length (take k le))" using val_lt [of "take k le"] by simp
    then have "val ls < 2 ^ (8 * k)" using ls(2) Suc.prems by simp
    moreover have "2 ^ (32 * j) * unat (ls ! j) \<le> val ls" using limb_le_val [OF j] by simp
    ultimately have "2 ^ (32 * j) * unat (ls ! j) < 2 ^ (32 * j) * 2 ^ m" unfolding k power_add by linarith
    then have x: "unat (ls ! j) < 2 ^ m" by simp
    have "val (?f k ls) = val ls + 2 ^ (32 * j) * (unat (le ! k) * 2 ^ m)"
    proof -
      have "val (?f k ls) = val (take j ls) + 2 ^ (32 * j) * (unat (ls ! j) + unat (le ! k) * 2 ^ m + 2 ^ 32 * val (drop (Suc j) ls))"
        using val_at(1) [OF j, of "ls ! j OR push_bit m (ucast (le ! k))"] or_byte [OF x m, of "le ! k"] by (simp add: j_def m_def)
      also have "\<dots> = val (take j ls) + 2 ^ (32 * j) * (unat (ls ! j) + 2 ^ 32 * val (drop (Suc j) ls)) + 2 ^ (32 * j) * (unat (le ! k) * 2 ^ m)"
        by (simp only: distrib_left ac_simps)
      also have "val (take j ls) + 2 ^ (32 * j) * (unat (ls ! j) + 2 ^ 32 * val (drop (Suc j) ls)) = val ls"
        using val_at(2) [OF j] by simp
      finally show ?thesis .
    qed
    also have "\<dots> = val (take k le) + 2 ^ (8 * k) * unat (le ! k)" unfolding ls(2) k power_add by (simp only: ac_simps)
    also have "\<dots> = val (take (Suc k) le)" using Suc.prems by (simp add: take_Suc_conv_app_nth val_append)
    finally show ?case using ls(1) by (simp add: ls_def [symmetric])
  qed simp
  from this [of "length le"] show ?thesis by (simp add: limbs_of_def)
qed

lemma length_limbs_of: "length (limbs_of le) = (length le + 3) div 4"
proof -
  have "length (fold (\<lambda>i ls. ls[i div 4 := ls ! (i div 4) OR push_bit (8 * (i mod 4)) (ucast (le ! i))]) is (xs :: 32 word list)) = length xs"
    for "is" xs by (induction "is" arbitrary: xs) simp_all
  then show ?thesis by (simp add: limbs_of_def)
qed

text \<open>No zero limb at the end.\<close>

definition stripped :: "'w::len word list \<Rightarrow> bool" where
  "stripped ls \<longleftrightarrow> ls = [] \<or> last ls \<noteq> 0"

lemma stripped_strip [simp]: "stripped (strip_limbs ls)"
proof (cases "dropWhile (\<lambda>l. l = 0) (rev ls) = []")
  case False
  then have "hd (dropWhile (\<lambda>l. l = 0) (rev ls)) \<noteq> 0" by (rule hd_dropWhile)
  then show ?thesis using False by (simp add: stripped_def strip_limbs_def last_rev)
qed (simp add: stripped_def strip_limbs_def)

lemma stripped_val: "stripped ls \<Longrightarrow> ls \<noteq> [] \<Longrightarrow> 0 < val ls"
  by (auto simp: stripped_def zero_less_iff_neq_zero val_eq_0_iff)

lemma chunks_loop_chunks:
  "stripped limbs \<Longrightarrow> \<exists>cs. chunks_loop limbs chunks = chunks @ cs \<and> (\<forall>c \<in> set cs. unat c < billion)
     \<and> chunk_value cs = val limbs \<and> (limbs \<noteq> [] \<longrightarrow> cs \<noteq> [] \<and> last cs \<noteq> 0)"
proof (induction limbs chunks rule: chunks_loop.induct)
  case (1 limbs chunks)
  show ?case
  proof (cases "limbs = []")
    case True then show ?thesis by (subst chunks_loop.simps) simp
  next
    case False
    obtain q r where q: "div_pass limbs = (q, r)" "val q = val limbs div 1000000000" "unat r = val limbs mod 1000000000"
      using div_pass_divides by blast
    have q': "val q = val limbs div billion" "unat r = val limbs mod billion" using q by (simp_all only: billion_def)
    have r: "unat (ucast r :: 32 word) = unat r"
    proof -
      have "unat r < billion" using q'(2) billion(2) by simp
      then have "unat r < 2 ^ 32" by (simp add: billion_def)
      then show ?thesis unfolding unsigned_ucast_eq by (simp add: take_bit_nat_eq_self)
    qed
    obtain cs where cs: "chunks_loop (strip_limbs q) (chunks @ [ucast r]) = (chunks @ [ucast r]) @ cs"
        "\<forall>c \<in> set cs. unat c < billion" "chunk_value cs = val q" "strip_limbs q \<noteq> [] \<longrightarrow> cs \<noteq> [] \<and> last cs \<noteq> 0"
      using "1.IH" [OF False refl q(1) [symmetric]] by auto
    have e: "chunks_loop limbs chunks = chunks @ (ucast r # cs)"
      using False q(1) cs(1) by (subst chunks_loop.simps) simp
    have v: "chunk_value (ucast r # cs) = val limbs" using cs(3) r q' by simp
    have "last (ucast r # cs) \<noteq> 0"
    proof (cases "cs = []")
      case True
      then have "unat r = val limbs" using v r by simp
      then show ?thesis using True r stripped_val [OF 1(2) False] by (metis last_ConsL less_numeral_extra(3) unat_0)
    next
      case cs2: False
      then have "strip_limbs q \<noteq> []" using cs(3) chunks_loop.simps [of "[]" "chunks @ [ucast r]"] cs(1) by auto
      then show ?thesis using cs(4) by simp
    qed
    moreover have "unat (ucast r :: 32 word) < billion" unfolding r q'(2) using billion(2) by simp
    ultimately show ?thesis using e v cs(2) by (intro exI [of _ "ucast r # cs"]) auto
  qed
qed

lemma stripped_val_ge:
  fixes ls :: "'w::len word list"
  assumes "stripped ls" "ls \<noteq> []" shows "2 ^ (LENGTH('w) * (length ls - 1)) \<le> val ls"
proof -
  have "last ls = ls ! (length ls - 1)" using assms(2) by (rule last_conv_nth)
  then have "1 \<le> unat (ls ! (length ls - 1))" using assms by (simp add: stripped_def unat_gt_0 Suc_le_eq)
  then have "2 ^ (LENGTH('w) * (length ls - 1)) * 1 \<le> 2 ^ (LENGTH('w) * (length ls - 1)) * unat (ls ! (length ls - 1))"
    by (rule mult_le_mono2)
  also have "\<dots> \<le> val ls" using assms(2) by (intro limb_le_val) simp
  finally show ?thesis by simp
qed

lemma stripped_iff_val_ge:
  fixes ls :: "'w::len word list"
  assumes "2 ^ (LENGTH('w) * (length ls - 1)) \<le> val ls" shows "stripped ls"
proof (rule ccontr)
  assume n: "\<not> stripped ls"
  then have e: "ls = butlast ls @ [0]" by (metis append_butlast_last_id stripped_def)
  have "val ls = val (butlast ls)" using arg_cong [OF e, of val] by (simp add: val_append)
  also have "\<dots> < 2 ^ (LENGTH('w) * length (butlast ls))" by (rule val_lt)
  finally show False using assms by simp
qed

lemma stripped_limbs_of:
  assumes "stripped le" shows "stripped (limbs_of le)"
proof (cases "le = []")
  case False
  let ?N = "(length le + 3) div 4"
  have "4 * ?N \<le> length le + 3" by (rule times_div_less_eq_dividend)
  then have "32 * (?N - 1) \<le> 8 * (length le - 1)" by linarith
  then have "(2 :: nat) ^ (32 * (?N - 1)) \<le> 2 ^ (8 * (length le - 1))" by (intro power_increasing) auto
  also have "\<dots> \<le> val le" using stripped_val_ge [OF assms False] by simp
  finally show ?thesis by (intro stripped_iff_val_ge) (simp add: val_limbs_of length_limbs_of)
qed (simp add: stripped_def limbs_of_def)

lemma chunk_value_ge: "cs \<noteq> [] \<Longrightarrow> last cs \<noteq> 0 \<Longrightarrow> billion ^ (length cs - 1) \<le> chunk_value cs"
proof (induction cs)
  case (Cons c cs)
  show ?case
  proof (cases "cs = []")
    case True then show ?thesis using Cons.prems(2) by (simp add: unat_gt_0 Suc_le_eq)
  next
    case False
    then have "billion ^ (length cs - 1) * billion \<le> chunk_value cs * billion" using Cons by (intro mult_le_mono1) auto
    moreover have "billion ^ (length (c # cs) - 1) = billion ^ (length cs - 1) * billion"
      using False by (cases cs) simp_all
    ultimately show ?thesis using billion(2) by (simp add: trans_le_add1)
  qed
qed simp

lemma power_less_power: "(b :: nat) ^ m < b ^ n \<Longrightarrow> 1 < b \<Longrightarrow> m < n"
  by simp

text \<open>The chunks fit the buffer allocated for them.\<close>

lemma chunks_fit:
  assumes "stripped limbs"
  shows "length (chunks_loop limbs []) \<le> length limbs * 10 div 9 + 2"
proof (cases "limbs = []")
  case False
  obtain cs where cs: "chunks_loop limbs [] = cs" "chunk_value cs = val limbs" "cs \<noteq> []" "last cs \<noteq> 0"
    using chunks_loop_chunks [OF assms, of "[]"] False by auto
  have "10 ^ (9 * (length cs - 1)) = billion ^ (length cs - 1)" by (simp only: billion power_mult)
  also have "\<dots> \<le> val limbs" using chunk_value_ge [OF cs(3,4)] cs(2) by simp
  also have "\<dots> < 2 ^ (32 * length limbs)" using val_lt [of limbs] by simp
  also have "\<dots> = (2 ^ 32) ^ length limbs" by (simp only: power_mult)
  also have "\<dots> \<le> (10 ^ 10) ^ length limbs" by (rule power_mono) simp_all
  also have "\<dots> = 10 ^ (10 * length limbs)" by (simp only: power_mult)
  finally have "9 * (length cs - 1) < 10 * length limbs" by (rule power_less_power) simp
  then show ?thesis unfolding cs(1) by linarith
qed (simp add: chunks_loop.simps)

subsection \<open>Appending\<close>

definition out_ok :: "sj_out \<Rightarrow> bool" where
  "out_ok o1 \<longleftrightarrow> length (written o1) \<le> cap o1"

text \<open>\<open>ro\<close> is an outcome of appending \<open>bs\<close>: done, or out of memory or size with nothing overwritten.\<close>

definition appends :: "(nat \<Rightarrow> bool) \<Rightarrow> sj_out \<Rightarrow> 8 word list \<Rightarrow> int \<times> sj_out \<Rightarrow> bool" where
  "appends alloc o1 bs ro \<longleftrightarrow> out_ok (snd ro)
     \<and> (fst ro = 0 \<and> written (snd ro) = written o1 @ bs
      \<or> fst ro = -1 \<and> (\<exists>t. written (snd ro) = written o1 @ t)
        \<and> ((\<exists>n. \<not> alloc n) \<or> SIZE_MAX div 2 < length (written o1) + length bs))"

lemma grown_cap_ge: "0 < c \<Longrightarrow> need \<le> grown_cap c n need - n \<and> c \<le> grown_cap c n need"
proof (induction c n need rule: grown_cap.induct)
  case (1 c n need)
  show ?case
  proof (cases "c - n < need")
    case True
    then have "grown_cap c n need = grown_cap (c * 2) n need" using 1(2) by (subst grown_cap.simps) simp
    then show ?thesis using 1 True by simp
  next
    case False
    then have "grown_cap c n need = c" by (subst grown_cap.simps) simp
    then show ?thesis using False by simp
  qed
qed

text \<open>The capacity never overflows: it stays below twice what is needed.\<close>

lemma grown_cap_lt: "n \<le> c \<Longrightarrow> c < n + need \<Longrightarrow> grown_cap c n need < 2 * (n + need)"
proof (induction c n need rule: grown_cap.induct)
  case (1 c n need)
  show ?case
  proof (cases "0 < c \<and> c - n < need")
    case step: True
    then have e: "grown_cap c n need = grown_cap (c * 2) n need" by (subst grown_cap.simps) simp
    show ?thesis
    proof (cases "c * 2 < n + need")
      case True
      then show ?thesis unfolding e using "1.IH" [OF step] 1(2) by simp
    next
      case False
      then have "grown_cap (c * 2) n need = c * 2" by (subst grown_cap.simps) auto
      then show ?thesis unfolding e using 1(3) by simp
    qed
  next
    case False
    then have "grown_cap c n need = c" by (subst grown_cap.simps) auto
    then show ?thesis using 1(3) by simp
  qed
qed

lemma sj_out_reserve_cases:
  assumes "out_ok o1"
  obtains (Holds) o2 where "sj_out_reserve alloc need o1 = (0, o2)" "written o2 = written o1" "length (written o1) + need \<le> cap o2"
  | (Fails) "sj_out_reserve alloc need o1 = (-1, o1)" "(\<exists>n. \<not> alloc n) \<or> SIZE_MAX div 2 < length (written o1) + need"
proof (cases "need \<le> cap o1 - length (written o1)")
  case True
  then show ?thesis using Holds [of o1] assms by (simp add: sj_out_reserve_def out_ok_def)
next
  case False
  define c where "c = grown_cap (if cap o1 \<noteq> 0 then cap o1 else 4096) (length (written o1)) need"
  have "need \<le> c - length (written o1)" "0 < need" using grown_cap_ge False unfolding c_def by auto
  then have c: "length (written o1) + need \<le> c" by linarith
  show ?thesis
  proof (cases "need > SIZE_MAX div 2 - length (written o1)")
    case True
    then have "SIZE_MAX div 2 < length (written o1) + need" by linarith
    then show ?thesis using True False Fails by (simp add: sj_out_reserve_def)
  next
    case le: False
    have "sj_out_reserve alloc need o1 = (if alloc c then (0, o1\<lparr>cap := c\<rparr>) else (-1, o1))"
      using le False by (simp add: sj_out_reserve_def Let_def c_def)
    then show ?thesis using Holds [of "o1\<lparr>cap := c\<rparr>"] Fails c by (cases "alloc c") auto
  qed
qed

lemma sj_out_bytes_appends: "out_ok o1 \<Longrightarrow> appends alloc o1 bs (sj_out_bytes alloc bs o1)"
  by (cases rule: sj_out_reserve_cases [of o1 alloc "length bs", case_names A Holds Fails])
    (auto simp: sj_out_bytes_def appends_def out_ok_def)

lemma sj_out_char_appends:
  assumes "out_ok o1" shows "appends alloc o1 [c] (sj_out_char alloc c o1)"
proof (cases "length (written o1) = cap o1")
  case True
  then show ?thesis using assms
    by (cases rule: sj_out_reserve_cases [OF assms, of alloc 1, case_names Holds Fails])
      (auto simp: sj_out_char_def appends_def out_ok_def)
qed (use assms in \<open>simp add: sj_out_char_def appends_def out_ok_def\<close>)

lemma appends_ok: "appends alloc o1 bs (r, o2) \<Longrightarrow> out_ok o2"
  by (simp add: appends_def)

lemma appends_Nil: "out_ok o1 \<Longrightarrow> appends alloc o1 [] (0, o1)"
  by (simp add: appends_def)

lemma appends_then:
  assumes "appends alloc o1 bs (0, o2)" "appends alloc o2 cs ro" shows "appends alloc o1 (bs @ cs) ro"
  using assms by (auto simp: appends_def)

lemma appends_failed:
  assumes "appends alloc o1 bs (r, o2)" "r \<noteq> 0" shows "appends alloc o1 (bs @ cs) (r, o2)"
  using assms by (auto simp: appends_def)

lemma outUInt64_appends:
  "out_ok o1 \<Longrightarrow> appends alloc o1 ((if negative then [45] else []) @ dec (unat v)) (outUInt64 alloc v negative o1)"
  unfolding outUInt64_def dec_def by (rule sj_out_bytes_appends)

lemma out_chunks_appends:
  "appends alloc o1 bs ro \<Longrightarrow> appends alloc o1 (bs @ concat (map (\<lambda>c. pad_digits 9 (unat c) []) cs)) (out_chunks alloc cs ro)"
proof (induction cs arbitrary: bs ro)
  case (Cons c cs)
  obtain r o2 where ro: "ro = (r, o2)" by (cases ro)
  show ?case
  proof (cases "r = 0")
    case False then show ?thesis using Cons.prems ro appends_failed by (simp del: pad_digits.simps)
  next
    case True
    have "out_ok o2" using Cons.prems ro appends_ok by blast
    from appends_then [OF _ sj_out_bytes_appends [OF this]] Cons.prems ro True
    have "appends alloc o1 (bs @ pad_digits 9 (unat c) []) (sj_out_bytes alloc (pad_digits 9 (unat c) []) o2)" by simp
    from Cons.IH [OF this] show ?thesis using ro True by (simp del: pad_digits.simps)
  qed
qed simp

subsection \<open>Integers in decimal\<close>

lemma unat_shift_byte:
  assumes "unat s < 2 ^ 56"
  shows "unat (push_bit 8 (s :: 64 word) OR ucast (b :: 8 word)) = unat s * 256 + unat b"
proof -
  have b: "unat (ucast b :: 64 word) = unat b"
  proof -
    have "take_bit 64 (unat b) = unat b" by (rule take_bit_nat_eq_self, rule less_le_trans [OF unat_lt]) simp
    then show ?thesis by (simp add: unsigned_ucast_eq)
  qed
  have "\<not> bit (push_bit 8 s) n \<or> \<not> bit (ucast b :: 64 word) n" for n
    using bit_imp_le_length [of b n] by (auto simp: bit_simps)
  then have "push_bit 8 s OR ucast b = push_bit 8 s + ucast b" by (simp add: disjunctive_add)
  moreover have "unat (push_bit 8 s) = unat s * 256"
  proof -
    have "take_bit 64 (unat s * 256) = unat s * 256" by (rule take_bit_nat_eq_self) (use assms in simp)
    then show ?thesis unfolding unsigned_push_bit_eq by (simp add: push_bit_eq_mult)
  qed
  moreover have "unat s * 256 + unat b < 2 ^ 64" using assms unat_lt [of b] by simp
  ultimately show ?thesis using b by (simp add: unat_word_ariths)
qed

lemma small_value:
  "length le \<le> 8 \<Longrightarrow> unat (foldr (\<lambda>b s. push_bit 8 s OR ucast b) le (0 :: 64 word)) = val (le :: 8 word list)"
proof (induction le)
  case (Cons b le)
  let ?s = "foldr (\<lambda>b s. push_bit 8 s OR ucast b) le (0 :: 64 word)"
  have s: "unat ?s = val le" using Cons by simp
  have "val le < 2 ^ (8 * length le)" using val_lt [of le] by simp
  also have "(2 :: nat) ^ (8 * length le) \<le> 2 ^ 56" using Cons.prems by (intro power_increasing) auto
  finally have "unat ?s < 2 ^ 56" unfolding s .
  then have e: "unat (push_bit 8 ?s OR ucast b) = unat ?s * 256 + unat b" by (rule unat_shift_byte)
  show ?case unfolding foldr.simps(2) comp_apply e s val.simps by simp
qed simp

lemma magnitude_small:
  assumes "out_ok o1" "length (strip_limbs le) \<le> 8"
  shows "appends alloc o1 ((if negative \<and> val le \<noteq> 0 then [45] else []) @ dec (val le)) (sj_out_magnitude alloc le negative o1)"
proof -
  let ?v = "foldr (\<lambda>b s. push_bit 8 s OR ucast b) (strip_limbs le) (0 :: 64 word)"
  have v: "unat ?v = val le" using small_value [OF assms(2)] by simp
  have "sj_out_magnitude alloc le negative o1 = outUInt64 alloc ?v (negative \<and> ?v \<noteq> 0) o1"
    using assms(2) unfolding sj_out_magnitude_def Let_def foldr_conv_fold by simp
  moreover have "?v = 0 \<longleftrightarrow> val le = 0" unfolding v [symmetric] unat_eq_zero ..
  ultimately show ?thesis using outUInt64_appends [OF assms(1), of alloc "negative \<and> ?v \<noteq> 0" ?v] v by simp
qed

lemma magnitude_large:
  assumes "out_ok o1" "\<not> length (strip_limbs le) \<le> 8"
  shows "appends alloc o1 ((if negative then [45] else []) @ dec (val le)) (sj_out_magnitude alloc le negative o1)"
proof -
  let ?le = "strip_limbs le" and ?sign = "if negative then [45] else [] :: 8 word list"
  let ?n = "(length ?le + 3) div 4"
  show ?thesis
  proof (cases "alloc (4 * ?n) \<and> alloc (4 * (?n * 10 div 9 + 2))")
    case False
    then have "sj_out_magnitude alloc le negative o1 = (-1, o1)" using assms(2) by (simp add: sj_out_magnitude_def Let_def)
    then show ?thesis using False assms(1) by (auto simp: appends_def)
  next
    case True
    define chunks where "chunks = chunks_loop (limbs_of ?le) []"
    have "limbs_of ?le \<noteq> []"
    proof -
      have "length (limbs_of ?le) \<noteq> 0" using assms(2) unfolding length_limbs_of by linarith
      then show ?thesis by auto
    qed
    then have c: "\<forall>c \<in> set chunks. unat c < billion" "chunk_value chunks = val le" "chunks \<noteq> []" "last chunks \<noteq> 0"
      using chunks_loop_chunks [OF stripped_limbs_of [OF stripped_strip], of le "[]"] by (auto simp: chunks_def val_limbs_of)
    obtain r1 o2 where 1: "(if negative then sj_out_char alloc 45 o1 else (0, o1)) = (r1, o2)" by fastforce
    have a1: "appends alloc o1 ?sign (r1, o2)"
      using 1 sj_out_char_appends [OF assms(1), of alloc 45] appends_Nil [OF assms(1)] by (cases negative) auto
    obtain r2 o3 where 2: "(if r1 = 0 then outUInt64 alloc (ucast (last chunks)) False o2 else (r1, o2)) = (r2, o3)" by fastforce
    have u: "unat (ucast (last chunks) :: 64 word) = unat (last chunks)"
    proof -
      have "take_bit 64 (unat (last chunks)) = unat (last chunks)" by (rule take_bit_nat_eq_self, rule less_le_trans [OF unat_lt]) simp
      then show ?thesis by (simp add: unsigned_ucast_eq)
    qed
    have a2: "appends alloc o1 (?sign @ dec (unat (last chunks))) (r2, o3)"
    proof (cases "r1 = 0")
      case True
      have "appends alloc o1 ?sign (0, o2)" using a1 True by simp
      from appends_then [OF this outUInt64_appends [OF appends_ok [OF a1], of alloc False "ucast (last chunks)"]]
      show ?thesis using 2 True u by simp
    next
      case False then show ?thesis using 2 appends_failed [OF a1] by auto
    qed
    have "sj_out_magnitude alloc le negative o1 = out_chunks alloc (rev (butlast chunks)) (r2, o3)"
      using assms(2) True 1 2 by (auto simp: sj_out_magnitude_def Let_def chunks_def split: if_splits)
    moreover have "(?sign @ dec (unat (last chunks))) @ concat (map (\<lambda>c. pad_digits 9 (unat c) []) (rev (butlast chunks)))
        = ?sign @ dec (val le)"
      using dec_chunks [OF c(3,4,1)] c(2) by simp
    ultimately show ?thesis using out_chunks_appends [OF a2, of "rev (butlast chunks)"] by simp
  qed
qed

text \<open>
  A large integer of any size, given by the bytes of its magnitude, is written as the decimal
  numeral of its value, which reads back as it, with a sign if it is negative and not zero; or memory
  runs out. The division by \<open>10 ^ 9\<close>, limb by limb, and the chunks of nine digits lose nothing.
\<close>

theorem sj_out_magnitude_writes_decimal:
  assumes "out_ok o1"
  shows "\<exists>numeral. numeral_value numeral = val le
    \<and> appends alloc o1 ((if negative \<and> val le \<noteq> 0 then [45] else []) @ numeral) (sj_out_magnitude alloc le negative o1)"
proof (intro exI conjI)
  show "numeral_value (dec (val le)) = val le" by simp
  show "appends alloc o1 ((if negative \<and> val le \<noteq> 0 then [45] else []) @ dec (val le)) (sj_out_magnitude alloc le negative o1)"
  proof (cases "length (strip_limbs le) \<le> 8")
    case True then show ?thesis by (rule magnitude_small [OF assms])
  next
    case False
    then have "strip_limbs le \<noteq> []" by auto
    then have "val le \<noteq> 0" using stripped_val [OF stripped_strip, of le] by simp
    then show ?thesis using magnitude_large [OF assms False] by simp
  qed
qed

abbreviation empty_out :: sj_out where
  "empty_out \<equiv> \<lparr>written = [], cap = 0\<rparr>"

lemma sj_out_magnitude_writes_decimal_witness:
  "\<exists>numeral. numeral_value numeral = 2 ^ 72 \<and> written (snd (sj_out_magnitude (\<lambda>_. True) [0, 0, 0, 0, 0, 0, 0, 0, 0, 1] True empty_out)) = 45 # numeral
     \<or> SIZE_MAX div 2 < 1 + length numeral"
  using sj_out_magnitude_writes_decimal [of empty_out "[0, 0, 0, 0, 0, 0, 0, 0, 0, 1]" "\<lambda>_. True" True]
  by (auto simp: out_ok_def appends_def)

text \<open>A 64-bit integer, whose smallest value has no negation.\<close>

lemma sj_out_int64_writes:
  assumes "out_ok o1"
  shows "appends alloc o1 ((if sint v < 0 then [45] else []) @ dec (nat \<bar>sint v\<bar>)) (sj_out_int64 alloc v o1)"
proof (cases "sint v < 0")
  case True
  have "- (2 ^ 63) \<le> sint v" using sint_greater_eq [of v] by simp
  then have "uint v = sint v + 2 ^ 64"
    using True uint_sint [of v] mod_pos_pos_trivial [of "sint v + 2 ^ 64" "2 ^ 64 :: int"] by (simp add: take_bit_eq_mod)
  then have "uint (- v) = - sint v"
    using True \<open>- (2 ^ 63) \<le> sint v\<close> mod_pos_pos_trivial [of "- sint v" "2 ^ 64 :: int"]
    by (simp add: uint_word_ariths zmod_zminus1_eq_if mod_pos_pos_trivial)
  then have "unat (0 - v) = nat \<bar>sint v\<bar>" using True by (simp add: unat_eq_nat_uint)
  then show ?thesis using True outUInt64_appends [OF assms, of alloc True "0 - v"] by (simp add: sj_out_int64_def)
next
  case False
  have "sint v < 2 ^ 63" using sint_less [of v] by simp
  then have "uint v = sint v" using False uint_sint [of v] by (simp add: take_bit_int_eq_self)
  then have "unat v = nat \<bar>sint v\<bar>" using False by (simp add: unat_eq_nat_uint)
  then show ?thesis using False outUInt64_appends [OF assms, of alloc False v] by (simp add: sj_out_int64_def)
qed

end
