(* ===== verification/JsonString.thy ===== *)
theory JsonString
  imports JsonOut
begin

text \<open>
  Strings as JSON texts, the rest of the writer of \<open>sjText.c\<close>: escapes, surrogate pairs where only
  ASCII may go out, runs of plain characters at once. A reader of JSON strings says what the text
  means.
\<close>

definition hex :: "8 word list" where
  "hex = [48, 49, 50, 51, 52, 53, 54, 55, 56, 57, 65, 66, 67, 68, 69, 70]"

definition outEscape :: "(nat \<Rightarrow> bool) \<Rightarrow> 32 word \<Rightarrow> sj_out \<Rightarrow> int \<times> sj_out" where
  "outEscape alloc c o1 =
     (if c = 34 then sj_out_bytes alloc [92, 34] o1
      else if c = 92 then sj_out_bytes alloc [92, 92] o1
      else if c = 8 then sj_out_bytes alloc [92, 98] o1
      else if c = 12 then sj_out_bytes alloc [92, 102] o1
      else if c = 10 then sj_out_bytes alloc [92, 110] o1
      else if c = 13 then sj_out_bytes alloc [92, 114] o1
      else if c = 9 then sj_out_bytes alloc [92, 116] o1
      else sj_out_bytes alloc
        [92, 117, hex ! unat (drop_bit 12 c AND 15), hex ! unat (drop_bit 8 c AND 15),
         hex ! unat (drop_bit 4 c AND 15), hex ! unat (c AND 15)] o1)"

definition outUtf8 :: "(nat \<Rightarrow> bool) \<Rightarrow> 32 word \<Rightarrow> sj_out \<Rightarrow> int \<times> sj_out" where
  "outUtf8 alloc c o1 =
     (if c < 0x80 then sj_out_char alloc (ucast c) o1
      else if c < 0x800 then
        sj_out_bytes alloc [ucast (0xC0 OR drop_bit 6 c), ucast (0x80 OR (c AND 0x3F))] o1
      else if c < 0x10000 then
        sj_out_bytes alloc [ucast (0xE0 OR drop_bit 12 c), ucast (0x80 OR (drop_bit 6 c AND 0x3F)),
          ucast (0x80 OR (c AND 0x3F))] o1
      else
        sj_out_bytes alloc [ucast (0xF0 OR drop_bit 18 c), ucast (0x80 OR (drop_bit 12 c AND 0x3F)),
          ucast (0x80 OR (drop_bit 6 c AND 0x3F)), ucast (0x80 OR (c AND 0x3F))] o1)"

definition plainByte :: "bool \<Rightarrow> 8 word \<Rightarrow> bool" where
  "plainByte asciiOnly c \<longleftrightarrow> c \<ge> 32 \<and> c \<noteq> 34 \<and> c \<noteq> 92 \<and> c < (if asciiOnly then 127 else 128)"

text \<open>What the loop does with a character that is not part of a run.\<close>

definition out_unit :: "(nat \<Rightarrow> bool) \<Rightarrow> bool \<Rightarrow> 32 word \<Rightarrow> sj_out \<Rightarrow> int \<times> sj_out" where
  "out_unit alloc asciiOnly c o1 =
     (if c < 32 \<or> c = 34 \<or> c = 92 \<or> asciiOnly \<and> c > 126 \<and> c \<le> 0xFFFF then
        let (r, o1) = outEscape alloc c o1 in if r \<noteq> 0 then (-1, o1) else (0, o1)
      else if c > 0x10FFFF then (-2, o1)
      else if asciiOnly \<and> c > 0xFFFF then
        let d = c - 0x10000;
            (r, o1) = outEscape alloc (0xD800 + drop_bit 10 d) o1
        in if r \<noteq> 0 then (-1, o1)
           else let (r, o1) = outEscape alloc (0xDC00 + (d AND 0x3FF)) o1 in if r \<noteq> 0 then (-1, o1) else (0, o1)
      else let (r, o1) = outUtf8 alloc c o1 in if r \<noteq> 0 then (-1, o1) else (0, o1))"

function latin1_string_loop :: "(nat \<Rightarrow> bool) \<Rightarrow> bool \<Rightarrow> 8 word list \<Rightarrow> sj_out \<Rightarrow> int \<times> sj_out" where
  "latin1_string_loop alloc asciiOnly s o1 =
     (if s = [] then (0, o1)
      else
        let run = takeWhile (plainByte asciiOnly) s;
            (r, o1) = (if run \<noteq> [] then sj_out_bytes alloc run o1 else (0, o1))
        in if r \<noteq> 0 then (-1, o1)
           else (case dropWhile (plainByte asciiOnly) s of
               [] \<Rightarrow> (0, o1)
             | c # s \<Rightarrow>
                 let (r, o1) = out_unit alloc asciiOnly (ucast c) o1
                 in if r \<noteq> 0 then (r, o1) else latin1_string_loop alloc asciiOnly s o1))"
  by pat_completeness auto
termination
proof (relation "measure (\<lambda>(alloc, asciiOnly, s, o1). length s)", simp)
  fix asciiOnly c and s t :: "8 word list"
  assume "dropWhile (plainByte asciiOnly) s = c # t"
  then have "length (c # t) \<le> length s" by (metis length_dropWhile_le)
  then show "((alloc :: nat \<Rightarrow> bool, asciiOnly, t, o1 :: sj_out), alloc', asciiOnly, s, o2 :: sj_out)
      \<in> measure (\<lambda>(alloc, asciiOnly, s, o1). length s)" for alloc alloc' o1 o2 by simp
qed

fun utf32_string_loop :: "(nat \<Rightarrow> bool) \<Rightarrow> bool \<Rightarrow> 32 word list \<Rightarrow> sj_out \<Rightarrow> int \<times> sj_out" where
  "utf32_string_loop alloc asciiOnly [] o1 = (0, o1)"
| "utf32_string_loop alloc asciiOnly (c # w) o1 =
     (let (r, o1) = out_unit alloc asciiOnly c o1
      in if r \<noteq> 0 then (r, o1) else utf32_string_loop alloc asciiOnly w o1)"

declare latin1_string_loop.simps [simp del]

text \<open>A source of bytes is in Latin-1 here.\<close>

fun units :: "source \<Rightarrow> nat" where
  "units (Bytes s) = length s"
| "units (Words w) = length w"

definition sj_out_string :: "(nat \<Rightarrow> bool) \<Rightarrow> source \<Rightarrow> bool \<Rightarrow> sj_out \<Rightarrow> int \<times> sj_out" where
  "sj_out_string alloc src asciiOnly o1 =
     (let (r, o1) = sj_out_reserve alloc (units src + 2) o1
      in if r \<noteq> 0 then (-1, o1)
         else let (r, o1) = sj_out_char alloc 34 o1
           in if r \<noteq> 0 then (-1, o1)
              else let (r, o1) =
                  (case src of
                     Bytes s \<Rightarrow> latin1_string_loop alloc asciiOnly s o1
                   | Words w \<Rightarrow> utf32_string_loop alloc asciiOnly w o1)
                in if r \<noteq> 0 then (r, o1) else sj_out_char alloc 34 o1)"

subsection \<open>The text of a character\<close>

definition hex4_text :: "32 word \<Rightarrow> 8 word list" where
  "hex4_text c = [hex ! unat (drop_bit 12 c AND 15), hex ! unat (drop_bit 8 c AND 15),
     hex ! unat (drop_bit 4 c AND 15), hex ! unat (c AND 15)]"

definition escape_text :: "32 word \<Rightarrow> 8 word list" where
  "escape_text c =
     (if c = 34 then [92, 34] else if c = 92 then [92, 92] else if c = 8 then [92, 98]
      else if c = 12 then [92, 102] else if c = 10 then [92, 110] else if c = 13 then [92, 114]
      else if c = 9 then [92, 116] else [92, 117] @ hex4_text c)"

definition char_text :: "bool \<Rightarrow> 32 word \<Rightarrow> 8 word list" where
  "char_text asciiOnly c =
     (if c < 32 \<or> c = 34 \<or> c = 92 \<or> asciiOnly \<and> c > 126 \<and> c \<le> 0xFFFF then escape_text c
      else if asciiOnly \<and> c > 0xFFFF
        then escape_text (0xD800 + drop_bit 10 (c - 0x10000)) @ escape_text (0xDC00 + (c - 0x10000 AND 0x3FF))
      else utf8 c)"

lemma outEscape_appends: "out_ok o1 \<Longrightarrow> appends alloc o1 (escape_text c) (outEscape alloc c o1)"
  by (simp add: outEscape_def escape_text_def hex4_text_def sj_out_bytes_appends)

lemma outUtf8_appends: "out_ok o1 \<Longrightarrow> c \<le> 0x10FFFF \<Longrightarrow> appends alloc o1 (utf8 c) (outUtf8 alloc c o1)"
  by (simp add: outUtf8_def utf8_def utf8Put_def sj_out_bytes_appends sj_out_char_appends)

lemma appends_result: "appends alloc o1 bs (r, o2) \<Longrightarrow> r \<noteq> 0 \<Longrightarrow> r = -1"
  by (simp add: appends_def)

lemma out_unit_appends:
  assumes "out_ok o1" "c \<le> 0x10FFFF"
  shows "appends alloc o1 (char_text asciiOnly c) (out_unit alloc asciiOnly c o1)"
proof -
  let ?esc = "c < 32 \<or> c = 34 \<or> c = 92 \<or> asciiOnly \<and> c > 126 \<and> c \<le> 0xFFFF"
  consider (Escape) "?esc" | (Pair) "\<not> ?esc" "asciiOnly" "c > 0xFFFF" | (Plain) "\<not> ?esc" "\<not> (asciiOnly \<and> c > 0xFFFF)" by blast
  then show ?thesis
  proof cases
    case Escape
    obtain r o2 where r: "outEscape alloc c o1 = (r, o2)" by fastforce
    then have "out_unit alloc asciiOnly c o1 = (if r \<noteq> 0 then (-1, o2) else (0, o2))" using Escape by (simp add: out_unit_def)
    then show ?thesis using outEscape_appends [OF assms(1), of alloc c] r Escape appends_result by (auto simp: char_text_def)
  next
    case Plain
    obtain r o2 where r: "outUtf8 alloc c o1 = (r, o2)" by fastforce
    then have "out_unit alloc asciiOnly c o1 = (if r \<noteq> 0 then (-1, o2) else (0, o2))"
      using Plain assms(2) by (auto simp: out_unit_def)
    then show ?thesis using outUtf8_appends [OF assms, of alloc] r Plain appends_result by (auto simp: char_text_def)
  next
    case Pair
    let ?d = "c - 0x10000"
    let ?e1 = "0xD800 + drop_bit 10 ?d" and ?e2 = "0xDC00 + (?d AND 0x3FF)"
    obtain r o2 where r: "outEscape alloc ?e1 o1 = (r, o2)" by fastforce
    obtain r' o3 where r': "outEscape alloc ?e2 o2 = (r', o3)" by fastforce
    have e: "out_unit alloc asciiOnly c o1 = (if r \<noteq> 0 then (-1, o2) else if r' \<noteq> 0 then (-1, o3) else (0, o3))"
      using Pair assms(2) r r' by (auto simp: out_unit_def Let_def)
    have t: "char_text asciiOnly c = escape_text ?e1 @ escape_text ?e2" using Pair by (auto simp: char_text_def)
    have a: "appends alloc o1 (escape_text ?e1) (r, o2)" using outEscape_appends [OF assms(1), of alloc ?e1] r by simp
    show ?thesis
    proof (cases "r = 0")
      case False then show ?thesis unfolding e t using appends_failed [OF a] appends_result [OF a] by simp
    next
      case True
      have "appends alloc o2 (escape_text ?e2) (r', o3)" using outEscape_appends [OF appends_ok [OF a], of alloc ?e2] r' by simp
      then have "appends alloc o1 (escape_text ?e1 @ escape_text ?e2) (r', o3)" using appends_then a True by blast
      then show ?thesis unfolding e t using True appends_result by auto
    qed
  qed
qed

lemma utf32_string_loop_appends:
  "out_ok o1 \<Longrightarrow> \<forall>c \<in> set w. c \<le> 0x10FFFF \<Longrightarrow>
   appends alloc o1 (concat (map (char_text asciiOnly) w)) (utf32_string_loop alloc asciiOnly w o1)"
proof (induction w arbitrary: o1)
  case (Cons c w)
  obtain r o2 where r: "out_unit alloc asciiOnly c o1 = (r, o2)" by fastforce
  have a: "appends alloc o1 (char_text asciiOnly c) (r, o2)" using out_unit_appends [OF Cons.prems(1)] Cons.prems(2) r by (metis list.set_intros(1))
  show ?case
  proof (cases "r = 0")
    case False then show ?thesis using r appends_failed [OF a] by simp
  next
    case True
    have "appends alloc o2 (concat (map (char_text asciiOnly) w)) (utf32_string_loop alloc asciiOnly w o2)"
      using Cons.IH [OF appends_ok [OF a]] Cons.prems(2) by simp
    then show ?thesis using r True appends_then a by auto
  qed
qed (simp add: appends_Nil)

lemma byte_le_unicode: "(ucast (b :: 8 word) :: 32 word) \<le> 0x10FFFF"
  using unat_lt [of b] by (simp only: word_le_nat_alt unat_ucast_byte) simp

lemma ucast_byte_eq [simp]: "(ucast (b :: 8 word) :: 32 word) = 34 \<longleftrightarrow> b = 34" "(ucast b :: 32 word) = 92 \<longleftrightarrow> b = 92"
  by (simp_all add: word_unat_eq_iff)

lemma plain_char_text:
  assumes "plainByte asciiOnly b" shows "char_text asciiOnly (ucast b) = [b]"
proof -
  let ?c = "ucast b :: 32 word"
  have u: "unat ?c = unat b" by (rule unat_ucast_byte)
  have "\<not> ?c < 32" using assms u by (simp add: plainByte_def word_less_nat_alt word_le_nat_alt)
  moreover have "?c < 0x80" using assms by (simp add: plainByte_def word_less_nat_alt word_le_nat_alt u split: if_splits)
  moreover have "\<not> (asciiOnly \<and> ?c > 126)" using assms by (auto simp: plainByte_def word_less_nat_alt u)
  moreover have "\<not> ?c > 0xFFFF" using unat_lt [of b] by (simp add: word_less_nat_alt u)
  ultimately show ?thesis using assms by (auto simp: char_text_def utf8_ascii plainByte_def)
qed

lemma latin1_string_loop_appends:
  "out_ok o1 \<Longrightarrow> appends alloc o1 (concat (map (\<lambda>b. char_text asciiOnly (ucast b)) s)) (latin1_string_loop alloc asciiOnly s o1)"
proof (induction "length s" arbitrary: s o1 rule: less_induct)
  case less
  let ?text = "\<lambda>s. concat (map (\<lambda>b. char_text asciiOnly (ucast b)) s)"
  let ?run = "takeWhile (plainByte asciiOnly) s" and ?rest = "dropWhile (plainByte asciiOnly) s"
  have run: "?text ?run = ?run"
  proof -
    have "\<forall>b \<in> set ?run. plainByte asciiOnly b" by (auto dest: set_takeWhileD)
    then have "?text xs = xs" if "set xs \<subseteq> set ?run" for xs using that by (induction xs) (simp_all add: plain_char_text)
    then show ?thesis by simp
  qed
  have split: "?text s = ?run @ ?text ?rest"
    using run by (metis concat_append map_append takeWhile_dropWhile_id)
  show ?case
  proof (cases "s = []")
    case True then show ?thesis using less.prems by (subst latin1_string_loop.simps) (simp add: appends_Nil)
  next
    case False
    obtain r o2 where r: "(if ?run \<noteq> [] then sj_out_bytes alloc ?run o1 else (0, o1)) = (r, o2)" by fastforce
    have a: "appends alloc o1 ?run (r, o2)"
      using r sj_out_bytes_appends [OF less.prems, of alloc ?run] appends_Nil [OF less.prems] by (cases "?run = []") auto
    have e: "latin1_string_loop alloc asciiOnly s o1 =
       (if r \<noteq> 0 then (-1, o2)
        else (case ?rest of [] \<Rightarrow> (0, o2)
          | c # s \<Rightarrow> let (r, o1) = out_unit alloc asciiOnly (ucast c) o2
              in if r \<noteq> 0 then (r, o1) else latin1_string_loop alloc asciiOnly s o1))"
      using False r by (subst latin1_string_loop.simps) (simp add: Let_def)
    show ?thesis
    proof (cases "r = 0")
      case False
      then show ?thesis unfolding e split using appends_failed [OF a] appends_result [OF a] by simp
    next
      case r0: True
      show ?thesis
      proof (cases ?rest)
        case Nil show ?thesis unfolding e split Nil using a r0 by simp
      next
        case (Cons c t)
        obtain q o3 where q: "out_unit alloc asciiOnly (ucast c) o2 = (q, o3)" by fastforce
        have "appends alloc o2 (char_text asciiOnly (ucast c)) (q, o3)"
          using out_unit_appends [OF appends_ok [OF a] byte_le_unicode, of alloc asciiOnly c] q by simp
        then have b: "appends alloc o1 (?run @ char_text asciiOnly (ucast c)) (q, o3)" using appends_then a r0 by blast
        have l: "length t < length s" using Cons length_dropWhile_le [of "plainByte asciiOnly" s] by simp
        show ?thesis
        proof (cases "q = 0")
          case False
          then show ?thesis unfolding e split Cons using r0 q appends_failed [OF b, of "?text t"] by simp
        next
          case True
          have "appends alloc o3 (?text t) (latin1_string_loop alloc asciiOnly t o3)" by (rule less.hyps [OF l appends_ok [OF b]])
          then have "appends alloc o1 ((?run @ char_text asciiOnly (ucast c)) @ ?text t) (latin1_string_loop alloc asciiOnly t o3)"
            using appends_then b True by blast
          then show ?thesis unfolding e split Cons using r0 q True by simp
        qed
      qed
    qed
  qed
qed

text \<open>The characters of a source.\<close>

fun characters :: "source \<Rightarrow> 32 word list" where
  "characters (Bytes s) = map ucast s"
| "characters (Words w) = w"

definition string_text :: "bool \<Rightarrow> 32 word list \<Rightarrow> 8 word list" where
  "string_text asciiOnly cs = [34] @ concat (map (char_text asciiOnly) cs) @ [34]"

lemma char_text_nonempty: "1 \<le> length (char_text asciiOnly c)"
proof -
  have "utf8 c \<noteq> []" using utf8Size_pos [of c] by (metis length_utf8 list.size(3) less_numeral_extra(3))
  then show ?thesis by (auto simp: char_text_def escape_text_def Suc_le_eq)
qed

lemma length_string_text: "length cs + 2 \<le> length (string_text asciiOnly cs)"
proof -
  have "length cs \<le> length (concat (map (char_text asciiOnly) cs))"
  proof (induction cs)
    case (Cons c cs) then show ?case using char_text_nonempty [of asciiOnly c] by simp
  qed simp
  then show ?thesis by (simp add: string_text_def)
qed

lemma sj_out_string_appends:
  assumes "out_ok o1" "\<forall>c \<in> set (characters src). c \<le> 0x10FFFF"
  shows "appends alloc o1 (string_text asciiOnly (characters src)) (sj_out_string alloc src asciiOnly o1)"
proof (cases rule: sj_out_reserve_cases [OF assms(1), of alloc "units src + 2", case_names Holds Fails])
  case Fails
  have u: "units src = length (characters src)" by (cases src) simp_all
  have "sj_out_string alloc src asciiOnly o1 = (-1, o1)" using Fails(1) by (simp add: sj_out_string_def)
  then show ?thesis using Fails(2) assms(1) length_string_text [of "characters src" asciiOnly] unfolding u by (auto simp: appends_def)
next
  case (Holds o2)
  have ok: "out_ok o2" using Holds by (simp add: out_ok_def)
  let ?body = "concat (map (char_text asciiOnly) (characters src))"
  obtain r o3 where r: "sj_out_char alloc 34 o2 = (r, o3)" by fastforce
  let ?loop = "\<lambda>o3. case src of Bytes s \<Rightarrow> latin1_string_loop alloc asciiOnly s o3 | Words w \<Rightarrow> utf32_string_loop alloc asciiOnly w o3"
  obtain q o4 where q: "?loop o3 = (q, o4)" by fastforce
  have e: "sj_out_string alloc src asciiOnly o1 =
      (if r \<noteq> 0 then (-1, o3) else if q \<noteq> 0 then (q, o4) else sj_out_char alloc 34 o4)"
    using Holds(1) r q by (simp add: sj_out_string_def)
  have w: "appends alloc o2 bs ro \<Longrightarrow> appends alloc o1 bs ro" for bs ro using Holds(2) by (simp add: appends_def)
  have a: "appends alloc o2 [34] (r, o3)" using sj_out_char_appends [OF ok, of alloc 34] r by simp
  show ?thesis
  proof (cases "r = 0")
    case False
    then show ?thesis unfolding e string_text_def using w [OF appends_failed [OF a]] appends_result [OF a] by simp
  next
    case r0: True
    have "appends alloc o3 ?body (q, o4)"
    proof (cases src)
      case (Bytes s)
      then show ?thesis using latin1_string_loop_appends [OF appends_ok [OF a], of alloc asciiOnly s] q by (simp add: o_def)
    next
      case (Words w)
      then show ?thesis using utf32_string_loop_appends [OF appends_ok [OF a], of w alloc asciiOnly] assms(2) q by simp
    qed
    then have b: "appends alloc o2 ([34] @ ?body) (q, o4)" using appends_then a r0 by blast
    show ?thesis
    proof (cases "q = 0")
      case False
      then show ?thesis unfolding e string_text_def using w [OF appends_failed [OF b, of "[34]"]] r0 by simp
    next
      case True
      have "appends alloc o2 (([34] @ ?body) @ [34]) (sj_out_char alloc 34 o4)"
        using appends_then [OF _ sj_out_char_appends [OF appends_ok [OF b]]] b True by blast
      then show ?thesis unfolding e string_text_def using w r0 True by simp
    qed
  qed
qed

subsection \<open>Reading a JSON string\<close>

definition hexval :: "8 word \<Rightarrow> 32 word option" where
  "hexval d =
     (if 48 \<le> d \<and> d \<le> 57 then Some (ucast (d - 48))
      else if 65 \<le> d \<and> d \<le> 70 then Some (ucast (d - 55))
      else if 97 \<le> d \<and> d \<le> 102 then Some (ucast (d - 87)) else None)"

fun hex4 :: "8 word list \<Rightarrow> (32 word \<times> 8 word list) option" where
  "hex4 (a # b # c # d # bs) =
     do { a \<leftarrow> hexval a; b \<leftarrow> hexval b; c \<leftarrow> hexval c; d \<leftarrow> hexval d;
          Some (push_bit 12 a OR push_bit 8 b OR push_bit 4 c OR d, bs) }"
| "hex4 _ = None"

definition short_escape :: "8 word \<Rightarrow> 32 word option" where
  "short_escape e = map_of [(34, 34), (92, 92), (47, 47), (98, 8), (102, 12), (110, 10), (114, 13), (116, 9)] e"

abbreviation high_surrogate :: "32 word \<Rightarrow> bool" where
  "high_surrogate u \<equiv> 0xD800 \<le> u \<and> u < 0xDC00"

abbreviation low_surrogate :: "32 word \<Rightarrow> bool" where
  "low_surrogate u \<equiv> 0xDC00 \<le> u \<and> u < 0xE000"

text \<open>One character of the body of a string, and the rest: RFC 8259, section 7.\<close>

definition read_unicode :: "8 word list \<Rightarrow> (32 word \<times> 8 word list) option" where
  "read_unicode bs =
     do { (u, bs) \<leftarrow> hex4 bs;
          if high_surrogate u
          then (case bs of
              b # e # bs' \<Rightarrow>
                if b = 92 \<and> e = 117
                then do { (l, bs'') \<leftarrow> hex4 bs';
                          if low_surrogate l then Some (0x10000 + push_bit 10 (u - 0xD800) + (l - 0xDC00), bs'')
                          else Some (u, bs) }
                else Some (u, bs)
            | _ \<Rightarrow> Some (u, bs))
          else Some (u, bs) }"

definition read_char :: "8 word list \<Rightarrow> (32 word \<times> 8 word list) option" where
  "read_char bs =
     (case bs of
        [] \<Rightarrow> None
      | b # bs' \<Rightarrow>
          if b = 92
          then (case bs' of
              [] \<Rightarrow> None
            | e # bs'' \<Rightarrow> if e = 117 then read_unicode bs'' else map_option (\<lambda>c. (c, bs'')) (short_escape e))
          else if b < 32 \<or> b = 34 then None
          else let (c, j) = next_char bs (length bs) 0 in Some (c, drop j bs))"

lemma hex4_length: "hex4 bs = Some (u, bs') \<Longrightarrow> length bs' < length bs"
  by (cases bs rule: hex4.cases) (auto split: Option.bind_splits)

lemma read_unicode_length: "read_unicode bs = Some (c, bs') \<Longrightarrow> length bs' < length bs"
  by (auto simp: read_unicode_def split: Option.bind_splits if_splits list.splits dest!: hex4_length)

lemma read_char_length: "read_char bs = Some (c, bs') \<Longrightarrow> length bs' < length bs"
proof (cases bs)
  case (Cons b t)
  assume r: "read_char bs = Some (c, bs')"
  show ?thesis
  proof (cases "b = 92")
    case True
    then show ?thesis using r Cons by (auto simp: read_char_def split: list.splits if_splits dest!: read_unicode_length)
  next
    case False
    then have "bs' = drop (snd (next_char bs (length bs) 0)) bs" using r Cons by (auto simp: read_char_def split: if_splits prod.splits)
    then show ?thesis using next_char_advances [of 0 "length bs" bs] Cons by simp
  qed
qed (simp add: read_char_def)

text \<open>The characters of a string's body.\<close>

function read_body :: "8 word list \<Rightarrow> 32 word list option" where
  "read_body bs =
     (if bs = [] then Some []
      else case read_char bs of None \<Rightarrow> None | Some (c, bs') \<Rightarrow> map_option (\<lambda>cs. c # cs) (read_body bs'))"
  by pat_completeness auto
termination by (relation "measure length") (auto dest!: read_char_length)

declare read_body.simps [simp del]

definition read_string :: "8 word list \<Rightarrow> 32 word list option" where
  "read_string bs = (if length bs \<ge> 2 \<and> hd bs = 34 \<and> last bs = 34 then read_body (butlast (tl bs)) else None)"

subsection \<open>Each character reads back\<close>

lemma hexval_digit: "x < 16 \<Longrightarrow> hexval (hex ! unat (x :: 32 word)) = Some x"
proof -
  have "\<forall>n \<in> set [0..<16]. hexval (hex ! n) = Some (of_nat n)" by code_simp
  moreover assume "x < 16"
  then have "unat x \<in> set [0..<16]" by (simp add: word_less_nat_alt)
  moreover have "of_nat (unat x) = x" by simp
  ultimately show ?thesis by metis
qed

lemma and_15: "(x :: 32 word) AND 15 < 16" "x AND 15 = take_bit 4 x"
proof -
  show e: "x AND 15 = take_bit 4 x" by (simp add: take_bit_eq_mask mask_eq_exp_minus_1)
  have "take_bit 4 x < 2 ^ 4" using word_less_power_iff [of 4 "take_bit 4 x"] by (simp add: drop_bit_take_bit)
  then show "x AND 15 < 16" unfolding e by simp
qed

lemma join_nibbles:
  assumes "(c :: 32 word) < 0x10000"
  shows "push_bit 12 (drop_bit 12 c AND 15) OR push_bit 8 (drop_bit 8 c AND 15) OR push_bit 4 (drop_bit 4 c AND 15) OR (c AND 15) = c"
proof (rule bits_32_eqI)
  fix n :: nat assume "n < 32"
  consider "n < 4" | "4 \<le> n" "n < 8" | "8 \<le> n" "n < 12" | "12 \<le> n" "n < 16" | "16 \<le> n" by linarith
  then show "bit (push_bit 12 (drop_bit 12 c AND 15) OR push_bit 8 (drop_bit 8 c AND 15) OR push_bit 4 (drop_bit 4 c AND 15) OR (c AND 15)) n
      = bit c n"
    unfolding and_15(2) using \<open>n < 32\<close> small_bits [of c 16 n] assms by cases (auto simp: bit_simps)
qed

lemma hex4_hex4_text: "c < 0x10000 \<Longrightarrow> hex4 (hex4_text c @ bs) = Some (c, bs)"
  by (simp only: hex4_text_def append_Cons append_Nil hex4.simps hexval_digit [OF and_15(1)] Option.bind.bind_lunit join_nibbles)

lemma read_unicode_plain: "c < 0x10000 \<Longrightarrow> \<not> high_surrogate c \<Longrightarrow> read_unicode (hex4_text c @ bs) = Some (c, bs)"
  by (auto simp: read_unicode_def hex4_hex4_text)

lemma read_escape_text:
  assumes "c < 0x10000" "\<not> high_surrogate c" shows "read_char (escape_text c @ bs) = Some (c, bs)"
  using assms by (simp add: escape_text_def read_char_def short_escape_def read_unicode_plain)

lemma read_surrogate_pair:
  assumes "c > 0xFFFF" "c \<le> 0x10FFFF"
  shows "read_char (escape_text (0xD800 + drop_bit 10 (c - 0x10000)) @ escape_text (0xDC00 + (c - 0x10000 AND 0x3FF)) @ bs) = Some (c, bs)"
proof -
  define d where "d = c - 0x10000"
  have "unat d = unat c - 0x10000" using assms(1) unfolding d_def by (simp add: unat_sub word_less_nat_alt word_le_nat_alt)
  then have "unat d < 2 ^ 20" using assms(2) by (simp add: word_le_nat_alt)
  then have d: "d < 2 ^ 20" by (simp add: word_less_nat_alt)
  have "drop_bit 10 d < 2 ^ 10" by (rule drop_less) (use d in simp_all)
  then have h: "unat (drop_bit 10 d) < 0x400" by (simp add: word_less_nat_alt)
  have t: "d AND 0x3FF = take_bit 10 d" by (simp add: take_bit_eq_mask mask_eq_exp_minus_1)
  have "take_bit 10 d < 2 ^ 10" using word_less_power_iff [of 10 "take_bit 10 d"] by (simp add: drop_bit_take_bit)
  then have l: "unat (take_bit 10 d) < 0x400" by (simp add: word_less_nat_alt)
  define e1 e2 where "e1 = 0xD800 + drop_bit 10 d" and "e2 = 0xDC00 + take_bit 10 d"
  have u: "unat e1 = 0xD800 + unat (drop_bit 10 d)" "unat e2 = 0xDC00 + unat (take_bit 10 d)"
    using h l by (simp_all only: e1_def e2_def unat_word_ariths) simp_all
  have e1: "high_surrogate e1" "e1 < 0x10000" and e2: "low_surrogate e2" "e2 < 0x10000"
    using u h l by (simp_all add: word_less_nat_alt word_le_nat_alt)
  have n: "escape_text e = [92, 117] @ hex4_text e" if "0xD800 \<le> e" for e
    using that by (auto simp: escape_text_def)
  have "0x10000 + push_bit 10 (e1 - 0xD800) + (e2 - 0xDC00) = 0x10000 + (push_bit 10 (drop_bit 10 d) + take_bit 10 d)"
    by (simp add: e1_def e2_def)
  also have "\<dots> = c" by (simp only: bits_ident) (simp add: d_def)
  finally have c: "0x10000 + push_bit 10 (e1 - 0xD800) + (e2 - 0xDC00) = c" .
  have "0xD800 \<le> e2" using u(2) by (simp add: word_le_nat_alt)
  then have "read_char (escape_text e1 @ escape_text e2 @ bs) = Some (c, bs)"
    using e1 e2 c by (simp add: n read_char_def read_unicode_def hex4_hex4_text)
  then show ?thesis by (simp only: e1_def e2_def d_def t [unfolded d_def])
qed

lemma utf8_high_bytes:
  assumes "\<not> cp < 0x80" shows "\<forall>b \<in> set (utf8 cp). 128 \<le> unat b"
proof -
  have c: "128 \<le> unat (ucast (0x80 OR take_bit 6 (x :: 32 word)) :: 8 word)" for x
    using continues_continuation [of x] unfolding continues_iff by simp
  consider (Two) "cp < 0x800" | (Three) "\<not> cp < 0x800" "cp < 0x10000"
    | (Four) "\<not> cp < 0x800" "\<not> cp < 0x10000" "cp \<le> 0x10FFFF" | (Beyond) "\<not> cp \<le> 0x10FFFF" by (metis linorder_not_less)
  then show ?thesis
  proof cases
    case Two
    have "drop_bit 6 cp < 2 ^ 5" using Two by (intro drop_less) simp_all
    then show ?thesis using Two assms unat_marked [of "drop_bit 6 cp" 5 "0xC0"] c by (simp add: utf8_def utf8Put_def mask_6)
  next
    case Three
    have "drop_bit 12 cp < 2 ^ 4" using Three by (intro drop_less) simp_all
    then show ?thesis using Three assms unat_marked [of "drop_bit 12 cp" 4 "0xE0"] c by (simp add: utf8_def utf8Put_def mask_6)
  next
    case Four
    have "cp < 2 ^ (18 + 3)" using Four(3) by (simp add: word_less_nat_alt word_le_nat_alt)
    then have "drop_bit 18 cp < 2 ^ 3" by (intro drop_less) simp_all
    then show ?thesis using Four assms unat_marked [of "drop_bit 18 cp" 3 "0xF0"] c by (simp add: utf8_def utf8Put_def mask_6)
  next
    case Beyond
    then have "\<not> cp < 0x800" "\<not> cp < 0x10000" by (simp_all add: word_less_nat_alt word_le_nat_alt)
    then show ?thesis using Beyond assms by (simp add: utf8_def utf8Put_def)
  qed
qed

text \<open>The bytes of an unescaped character: neither a quote nor a backslash nor a control character.\<close>

lemma utf8_plain_bytes:
  assumes "\<not> cp < 32" "cp \<noteq> 34" "cp \<noteq> 92"
  shows "\<forall>b \<in> set (utf8 cp). \<not> b < 32 \<and> b \<noteq> 34 \<and> b \<noteq> 92"
proof (cases "cp < 0x80")
  case True
  have u: "unat (ucast cp :: 8 word) = unat cp"
  proof -
    have "take_bit 8 (unat cp) = unat cp" by (rule take_bit_nat_eq_self) (use True in \<open>simp add: word_less_nat_alt\<close>)
    then show ?thesis by (simp add: unsigned_ucast_eq)
  qed
  then show ?thesis using True assms by (auto simp: utf8_ascii word_less_nat_alt word_unat_eq_iff)
next
  case False
  then show ?thesis using utf8_high_bytes [OF False] by (fastforce simp: word_less_nat_alt)
qed

lemma read_utf8:
  assumes "\<not> c < 32" "c \<noteq> 34" "c \<noteq> 92" "c \<le> 0x10FFFF"
  shows "read_char (utf8 c @ bs) = Some (c, bs)"
proof -
  have h: "holds_at (utf8 c @ bs) 0 (length (utf8 c @ bs)) (utf8 c)" by (simp add: holds_at_def nth_append)
  obtain b t where b: "utf8 c = b # t" using utf8Size_pos [of c] by (metis length_greater_0_conv length_utf8 list.exhaust)
  have "\<not> b < 32" "b \<noteq> 34" "b \<noteq> 92" using utf8_plain_bytes [OF assms(1-3)] b by auto
  then have "read_char (utf8 c @ bs) = (let (d, j) = next_char (utf8 c @ bs) (length (utf8 c @ bs)) 0 in Some (d, drop j (utf8 c @ bs)))"
    unfolding read_char_def b by simp
  also have "\<dots> = Some (c, drop (utf8Size c) (utf8 c @ bs))" using next_char_utf8 [OF assms(4) h] by simp
  finally show ?thesis by simp
qed

lemma read_char_text:
  assumes "c \<le> 0x10FFFF" "asciiOnly \<longrightarrow> \<not> high_surrogate c"
  shows "read_char (char_text asciiOnly c @ bs) = Some (c, bs)"
proof -
  let ?esc = "c < 32 \<or> c = 34 \<or> c = 92 \<or> asciiOnly \<and> c > 126 \<and> c \<le> 0xFFFF"
  consider (Escape) "?esc" | (Pair) "\<not> ?esc" "asciiOnly" "c > 0xFFFF" | (Plain) "\<not> ?esc" "\<not> (asciiOnly \<and> c > 0xFFFF)" by blast
  then show ?thesis
  proof cases
    case Escape
    then have "c < 0x10000 \<and> \<not> high_surrogate c" using assms(2) by (auto simp: word_less_nat_alt word_le_nat_alt)
    then show ?thesis using Escape read_escape_text [of c bs] by (simp add: char_text_def)
  next
    case Pair then show ?thesis using read_surrogate_pair [OF Pair(3) assms(1), of bs] by (auto simp: char_text_def)
  next
    case Plain then show ?thesis using read_utf8 [OF _ _ _ assms(1), of bs] by (auto simp: char_text_def)
  qed
qed

lemma read_body_texts:
  "\<forall>c \<in> set cs. c \<le> 0x10FFFF \<and> (asciiOnly \<longrightarrow> \<not> high_surrogate c) \<Longrightarrow>
   read_body (concat (map (char_text asciiOnly) cs)) = Some cs"
proof (induction cs)
  case Nil show ?case by (subst read_body.simps) simp
next
  case (Cons c cs)
  have "char_text asciiOnly c \<noteq> []" using char_text_nonempty [of asciiOnly c] by auto
  then show ?case using Cons by (subst read_body.simps) (simp add: read_char_text)
qed

lemma read_string_text:
  "\<forall>c \<in> set cs. c \<le> 0x10FFFF \<and> (asciiOnly \<longrightarrow> \<not> high_surrogate c) \<Longrightarrow> read_string (string_text asciiOnly cs) = Some cs"
  using read_body_texts [of cs asciiOnly] by (simp add: read_string_def string_text_def butlast_append)

subsection \<open>The properties\<close>

text \<open>
  C8: Round trip: the text of a string, of any characters up to U+10FFFF, reads back as exactly
  those characters, whatever was escaped, paired or copied; with \<open>asciiOnly\<close> the high surrogates,
  no characters themselves, are left out. Or memory runs out, with the buffer before intact.
\<close>

theorem sj_out_string_reads_back:
  assumes "out_ok o1" "\<forall>c \<in> set (characters src). c \<le> 0x10FFFF \<and> (asciiOnly \<longrightarrow> \<not> high_surrogate c)"
  shows "\<exists>t. read_string t = Some (characters src) \<and> appends alloc o1 t (sj_out_string alloc src asciiOnly o1)"
  using sj_out_string_appends [OF assms(1)] read_string_text [OF assms(2)] assms(2) by blast

lemma sj_out_string_reads_back_witness:
  "\<exists>t. read_string t = Some [0x22, 0x1F600] \<and> appends (\<lambda>_. True) empty_out t (sj_out_string (\<lambda>_. True) (Words [0x22, 0x1F600]) True empty_out)"
  using sj_out_string_reads_back [of empty_out "Words [0x22, 0x1F600]" True "\<lambda>_. True"] by (simp add: out_ok_def)

lemma string_body_append: "string_body xs \<Longrightarrow> string_body ys \<Longrightarrow> string_body (xs @ ys)"
  by (induction xs rule: string_body.induct) (auto intro: string_body.intros)

lemma string_body_plain:
  "\<forall>b \<in> set bs. b \<noteq> 34 \<and> b \<noteq> 92 \<Longrightarrow> string_body (bs :: 8 word list)"
  by (induction bs) (auto intro: string_body.intros)

lemma hex_plain: "\<forall>b \<in> set (hex4_text c). b \<noteq> 34 \<and> b \<noteq> 92"
proof -
  have "\<forall>n \<in> set [0..<16]. hex ! n \<noteq> 34 \<and> hex ! n \<noteq> 92" by code_simp
  moreover have "unat (x AND 15) \<in> set [0..<16]" for x :: "32 word" using and_15(1) [of x] by (simp add: word_less_nat_alt)
  ultimately show ?thesis unfolding hex4_text_def by (metis (no_types, lifting) empty_iff empty_set set_ConsD)
qed

lemma string_body_escape: "string_body (escape_text c)"
  using string_body_plain [OF hex_plain, of c] string_body.body_plain [of 117]
  by (auto simp: escape_text_def intro!: string_body.body_escape string_body.body_empty)

lemma string_body_char_text: "string_body (char_text asciiOnly c)"
proof -
  have "string_body (utf8 c)" if "\<not> c < 32" "c \<noteq> 34" "c \<noteq> 92"
    using utf8_plain_bytes [OF that] by (intro string_body_plain) auto
  then show ?thesis unfolding char_text_def by (simp add: string_body_escape string_body_append)
qed

text \<open>
  The writer's strings are what the scanner takes for a string: wherever such a text stands, the
  scanner finds its closing quote, whatever quotes and backslashes the string holds.
\<close>

theorem valueEnd_of_written_string:
  assumes "src = before @ string_text asciiOnly cs @ after"
  shows "valueEnd src (length before) (length src) = length before + length (string_text asciiOnly cs)"
proof (rule valueEnd_string)
  have "string_body (concat (map (char_text asciiOnly) cs))"
    by (induction cs) (auto intro: string_body.body_empty string_body_append string_body_char_text)
  then show "json_string (string_text asciiOnly cs)"
    using json_string.intros [of "34 :: 8 word" _ "34 :: 8 word"] by (simp add: string_text_def is_unit_def)
  show "holds_at src (length before) (length src) (string_text asciiOnly cs)"
    by (simp add: assms holds_at_def nth_append)
qed

lemma valueEnd_of_written_string_witness:
  "valueEnd ([91] @ string_text False [34, 92] @ [93]) (length [91 :: 8 word]) (length ([91] @ string_text False [34, 92] @ [93 :: 8 word]))
    = length [91 :: 8 word] + length (string_text False [34, 92])"
  by (rule valueEnd_of_written_string [OF refl])

end
