(* ===== verification/JsonKeySet.thy ===== *)
theory JsonKeySet
  imports Prelude
begin

text \<open>
  The key set of \<open>sjText.c\<close>: keys are copied into one area of bytes, entries are numbered from 1 in
  first-seen order, and an open addressed table of entry numbers finds them by their FNV-1a hash. A
  key is the vector of its bytes. \<open>alloc n\<close> says whether an allocation of \<open>n\<close> bytes succeeds; loops
  that end only because the table has a free slot are partial functions, \<open>None\<close> for a loop that
  never ends. Sizes are natural numbers, the numbers in the table 32-bit words.
\<close>

record sj_key =
  hash :: "64 word"
  offset :: nat
  key_length :: nat

record sj_keyset =
  table :: "32 word list"
  tableSize :: nat
  count :: nat
  keys :: "sj_key list"
  keysCap :: nat
  bytes :: "8 word list"
  bytesUsed :: nat
  bytesCap :: nat

definition keyHash :: "8 word list \<Rightarrow> 64 word" where
  "keyHash s = fold (\<lambda>c h. (h XOR ucast c) * 0x100000001B3) s 0xCBF29CE484222325"

function doubled :: "nat \<Rightarrow> nat \<Rightarrow> nat" where
  "doubled sz need = (if 0 < sz \<and> sz < need then doubled (2 * sz) need else sz)"
  by pat_completeness auto
termination by (relation "measure (\<lambda>(sz, need). need - sz)") auto

declare doubled.simps [simp del]

definition sj_keyset_new :: "(nat \<Rightarrow> bool) \<Rightarrow> nat \<Rightarrow> sj_keyset option" where
  "sj_keyset_new alloc hint =
     (if \<not> alloc 64 then None
      else let sz = doubled 16 (2 * hint)
        in if \<not> alloc (4 * sz) then None
           else Some \<lparr>table = replicate sz 0, tableSize = sz, count = 0, keys = [], keysCap = 0,
                  bytes = [], bytesUsed = 0, bytesCap = 0\<rparr>)"

partial_function (option) free_slot :: "32 word list \<Rightarrow> nat \<Rightarrow> nat \<Rightarrow> nat option" where
  "free_slot tbl sz j =
     (if tbl ! j = 0 then Some j else free_slot tbl sz ((j + 1) AND (sz - 1)))"

primrec place_keys :: "sj_key list \<Rightarrow> nat \<Rightarrow> nat list \<Rightarrow> 32 word list \<Rightarrow> 32 word list option" where
  "place_keys ks sz [] tbl = Some tbl"
| "place_keys ks sz (i # is) tbl =
     do { j \<leftarrow> free_slot tbl sz (unat (hash (ks ! i)) AND (sz - 1));
          place_keys ks sz is (tbl[j := of_nat (i + 1)]) }"

definition keysetGrow :: "(nat \<Rightarrow> bool) \<Rightarrow> sj_keyset \<Rightarrow> (bool \<times> sj_keyset) option" where
  "keysetGrow alloc k =
     (let sz = 2 * tableSize k
      in if \<not> alloc (4 * sz) then Some (False, k)
         else do { tbl \<leftarrow> place_keys (keys k) sz [0..<count k] (replicate sz 0);
                   Some (True, k\<lparr>table := tbl, tableSize := sz\<rparr>) })"

definition key_bytes :: "sj_keyset \<Rightarrow> sj_key \<Rightarrow> 8 word list" where
  "key_bytes k key = take (key_length key) (drop (offset key) (bytes k))"

definition is_key :: "sj_keyset \<Rightarrow> 64 word \<Rightarrow> 8 word list \<Rightarrow> sj_key \<Rightarrow> bool" where
  "is_key k h s key \<longleftrightarrow> hash key = h \<and> key_length key = length s \<and> (length s = 0 \<or> key_bytes k key = s)"

text \<open>The search: the entry of the key, or the slot where it ends.\<close>

partial_function (option) probe :: "sj_keyset \<Rightarrow> 64 word \<Rightarrow> 8 word list \<Rightarrow> nat \<Rightarrow> (32 word + nat) option" where
  "probe k h s i =
     (if table k ! i = 0 then Some (Inr i)
      else if is_key k h s (keys k ! (unat (table k ! i) - 1)) then Some (Inl (table k ! i))
      else probe k h s ((i + 1) AND (tableSize k - 1)))"

definition reserve_keys :: "(nat \<Rightarrow> bool) \<Rightarrow> sj_keyset \<Rightarrow> bool \<times> sj_keyset" where
  "reserve_keys alloc k =
     (if count k = keysCap k
      then let cap = (if keysCap k \<noteq> 0 then 2 * keysCap k else 16)
        in if alloc (24 * cap) then (True, k\<lparr>keysCap := cap\<rparr>) else (False, k)
      else (True, k))"

definition reserve_bytes :: "(nat \<Rightarrow> bool) \<Rightarrow> nat \<Rightarrow> sj_keyset \<Rightarrow> bool \<times> sj_keyset" where
  "reserve_bytes alloc n k =
     (if bytesUsed k + n > bytesCap k
      then let cap = doubled (if bytesCap k \<noteq> 0 then 2 * bytesCap k else 256) (bytesUsed k + n)
        in if alloc cap then (True, k\<lparr>bytesCap := cap\<rparr>) else (False, k)
      else (True, k))"

definition add_key :: "64 word \<Rightarrow> 8 word list \<Rightarrow> nat \<Rightarrow> sj_keyset \<Rightarrow> sj_keyset" where
  "add_key h s i k =
     k\<lparr>bytes := bytes k @ s,
       keys := keys k @ [\<lparr>hash = h, offset = bytesUsed k, key_length = length s\<rparr>],
       bytesUsed := bytesUsed k + length s,
       count := count k + 1,
       table := (table k)[i := of_nat (count k + 1)]\<rparr>"

text \<open>The index of a key or -1, what it stores in \<open>isNew\<close>, and the key set it leaves.\<close>

definition sj_keyset_index ::
    "(nat \<Rightarrow> bool) \<Rightarrow> sj_keyset \<Rightarrow> 8 word list \<Rightarrow> (int \<times> bool option \<times> sj_keyset) option" where
  "sj_keyset_index alloc k s =
     (let h = keyHash s
      in do {
        found \<leftarrow> probe k h s (unat h AND (tableSize k - 1));
        case found of
          Inl e \<Rightarrow> Some (uint e, Some False, k)
        | Inr i \<Rightarrow>
            let (ok, k) = reserve_keys alloc k
            in if \<not> ok then Some (-1, None, k)
               else let (ok, k) = reserve_bytes alloc (length s) k
                 in if \<not> ok then Some (-1, None, k)
                    else if 2 * (count k + 1) > tableSize k
                    then do {
                      (ok, k) \<leftarrow> keysetGrow alloc k;
                      if \<not> ok then Some (-1, None, k)
                      else do {
                        i \<leftarrow> free_slot (table k) (tableSize k) (unat h AND (tableSize k - 1));
                        Some (int (count k + 1), Some True, add_key h s i k) } }
                    else Some (int (count k + 1), Some True, add_key h s i k) })"

subsection \<open>Probing\<close>

text \<open>The slot \<open>d\<close> steps behind that of a hash.\<close>

definition slot :: "nat \<Rightarrow> 64 word \<Rightarrow> nat \<Rightarrow> nat" where
  "slot sz h d = (unat h + d) mod sz"

definition power_of_2 :: "nat \<Rightarrow> bool" where
  "power_of_2 sz \<longleftrightarrow> (\<exists>p. sz = 2 ^ p)"

lemma and_size: "power_of_2 sz \<Longrightarrow> (n :: nat) AND (sz - Suc 0) = n mod sz"
proof -
  assume "power_of_2 sz"
  then obtain p where sz: "sz = 2 ^ p" by (auto simp: power_of_2_def)
  have "sz - Suc 0 = mask p" by (simp add: sz mask_eq_exp_minus_1)
  then show ?thesis by (simp add: sz take_bit_eq_mod flip: take_bit_eq_mask)
qed

lemma slot_0: "power_of_2 sz \<Longrightarrow> unat h AND (sz - 1) = slot sz h 0"
  by (simp add: and_size slot_def)

lemma slot_Suc: "power_of_2 sz \<Longrightarrow> (slot sz h d + 1) AND (sz - 1) = slot sz h (Suc d)"
  by (simp add: and_size slot_def mod_Suc_eq)

lemma slot_less: "power_of_2 sz \<Longrightarrow> slot sz h d < sz"
  by (auto simp: slot_def power_of_2_def)

lemma slot_reaches: "power_of_2 sz \<Longrightarrow> j < sz \<Longrightarrow> \<exists>d < sz. slot sz h d = j"
proof -
  assume "power_of_2 sz" and j: "j < sz"
  then have "0 < sz" by simp
  have r: "unat h mod sz < sz" using \<open>0 < sz\<close> by simp
  have "slot sz h ((j + (sz - unat h mod sz)) mod sz) = (unat h mod sz + (j + (sz - unat h mod sz))) mod sz"
    by (simp add: slot_def mod_add_left_eq mod_add_right_eq)
  also have "unat h mod sz + (j + (sz - unat h mod sz)) = j + sz" using r by simp
  finally show ?thesis using j \<open>0 < sz\<close> by (intro exI [of _ "(j + (sz - unat h mod sz)) mod sz"]) simp
qed

lemma free_slot_skips:
  assumes "power_of_2 sz" "\<forall>d < n. tbl ! slot sz h d \<noteq> 0"
  shows "m \<le> n \<Longrightarrow> free_slot tbl sz (slot sz h 0) = free_slot tbl sz (slot sz h m)"
proof (induction m)
  case (Suc m)
  then have "tbl ! slot sz h m \<noteq> 0" using assms(2) by simp
  then have "free_slot tbl sz (slot sz h m) = free_slot tbl sz (slot sz h (Suc m))"
    by (subst free_slot.simps) (simp add: slot_Suc [OF assms(1)] del: One_nat_def add_Suc_right add_0_right)
  then show ?case using Suc by simp
qed simp

text \<open>The search stops at the first slot that is free, or whose entry is the key.\<close>

lemma free_slot_finds:
  assumes "power_of_2 sz" "\<forall>d < n. tbl ! slot sz h d \<noteq> 0" "tbl ! slot sz h n = 0"
  shows "free_slot tbl sz (unat h AND (sz - 1)) = Some (slot sz h n)"
  using free_slot_skips [OF assms(1,2) order.refl] assms(3)
  by (simp add: slot_0 [OF assms(1), simplified] free_slot.simps [of tbl sz "slot sz h n"])

definition stops :: "sj_keyset \<Rightarrow> 64 word \<Rightarrow> 8 word list \<Rightarrow> nat \<Rightarrow> bool" where
  "stops k h s j \<longleftrightarrow> table k ! j = 0 \<or> is_key k h s (keys k ! (unat (table k ! j) - 1))"

lemma probe_skips:
  assumes "power_of_2 (tableSize k)" "\<forall>d < n. \<not> stops k h s (slot (tableSize k) h d)"
  shows "m \<le> n \<Longrightarrow> probe k h s (slot (tableSize k) h 0) = probe k h s (slot (tableSize k) h m)"
proof (induction m)
  case (Suc m)
  then have "\<not> stops k h s (slot (tableSize k) h m)" using assms(2) by simp
  then have "probe k h s (slot (tableSize k) h m) = probe k h s (slot (tableSize k) h (Suc m))"
    using slot_Suc [OF assms(1), of h m] by (subst probe.simps) (simp add: stops_def)
  then show ?case using Suc by simp
qed simp

lemma probe_stops:
  assumes "power_of_2 (tableSize k)" "stops k h s (slot (tableSize k) h n)"
    "\<forall>d < n. \<not> stops k h s (slot (tableSize k) h d)"
  shows "probe k h s (unat h AND (tableSize k - 1)) =
    (if table k ! slot (tableSize k) h n = 0 then Some (Inr (slot (tableSize k) h n))
     else Some (Inl (table k ! slot (tableSize k) h n)))"
  using probe_skips [OF assms(1,3) order.refl] assms(2)
  by (auto simp: slot_0 [OF assms(1), simplified] probe.simps [of k h s "slot (tableSize k) h n"] stops_def)

subsection \<open>The table\<close>

text \<open>Entry \<open>i + 1\<close> is reached from the slot of its hash over slots in use.\<close>

definition reaches :: "32 word list \<Rightarrow> nat \<Rightarrow> 64 word \<Rightarrow> nat \<Rightarrow> bool" where
  "reaches tbl sz h i \<longleftrightarrow>
     (\<exists>n. tbl ! slot sz h n = of_nat (i + 1) \<and> (\<forall>d < n. tbl ! slot sz h d \<noteq> 0))"

definition placed :: "32 word list \<Rightarrow> nat \<Rightarrow> 64 word list \<Rightarrow> bool" where
  "placed tbl sz hs \<longleftrightarrow> power_of_2 sz \<and> length tbl = sz
     \<and> length (filter (\<lambda>e. e \<noteq> 0) tbl) = length hs
     \<and> (\<forall>e \<in> set tbl. unat e \<le> length hs)
     \<and> (\<forall>i < length hs. reaches tbl sz (hs ! i) i)"

lemma placed_empty: "power_of_2 sz \<Longrightarrow> placed (replicate sz 0) sz []"
  by (simp add: placed_def)

lemma placed_free:
  assumes "placed tbl sz hs" "length hs < sz"
  shows "\<exists>n. tbl ! slot sz h n = 0 \<and> (\<forall>d < n. tbl ! slot sz h d \<noteq> 0)"
proof -
  have "\<exists>j < sz. tbl ! j = 0"
  proof (rule ccontr)
    assume "\<not> ?thesis"
    then have "\<forall>e \<in> set tbl. e \<noteq> 0" using assms(1) by (auto simp: placed_def in_set_conv_nth)
    then have "filter (\<lambda>e. e \<noteq> 0) tbl = tbl" by (simp add: filter_id_conv)
    then show False using assms by (simp add: placed_def)
  qed
  then obtain d where "tbl ! slot sz h d = 0" using slot_reaches [of sz] assms(1) by (metis placed_def)
  then show ?thesis using exists_least_iff [where P = "\<lambda>n. tbl ! slot sz h n = 0"] by auto
qed

lemma used_update:
  assumes "j < length tbl" "tbl ! j = 0" "e \<noteq> 0"
  shows "length (filter (\<lambda>e. e \<noteq> 0) (tbl[j := e])) = length (filter (\<lambda>e. e \<noteq> 0) tbl) + 1"
proof -
  have "tbl = take j tbl @ 0 # drop (Suc j) tbl" using assms(1,2) by (metis id_take_nth_drop)
  then have "filter (\<lambda>e. e \<noteq> 0) tbl = filter (\<lambda>e. e \<noteq> 0) (take j tbl) @ filter (\<lambda>e. e \<noteq> 0) (drop (Suc j) tbl)"
    by (metis (mono_tags, lifting) filter.simps(2) filter_append)
  then show ?thesis using assms by (simp add: upd_conv_take_nth_drop)
qed

lemma placed_add:
  assumes "placed tbl sz hs" "length hs + 1 < 2 ^ 32" "tbl ! slot sz h n = 0" "\<forall>d < n. tbl ! slot sz h d \<noteq> 0"
  shows "placed (tbl[slot sz h n := of_nat (length hs + 1)]) sz (hs @ [h])"
proof -
  let ?j = "slot sz h n" and ?e = "of_nat (length hs + 1) :: 32 word"
  have p: "power_of_2 sz" "length tbl = sz" using assms(1) by (auto simp: placed_def)
  have j: "?j < length tbl" using slot_less [OF p(1)] p(2) by simp
  have u: "unat ?e = length hs + 1" using assms(2) by (simp add: unat_of_nat del: of_nat_add of_nat_Suc)
  then have e: "?e \<noteq> 0" by (metis add_is_0 one_neq_zero unat_0)
  have keep: "(tbl[?j := ?e]) ! i \<noteq> 0" if "tbl ! i \<noteq> 0" for i
    using that e j by (cases "i = ?j") auto
  have "reaches (tbl[?j := ?e]) sz ((hs @ [h]) ! i) i" if i: "i < length hs + 1" for i
  proof (cases "i < length hs")
    case True
    then obtain m where m: "tbl ! slot sz (hs ! i) m = of_nat (i + 1)" "\<forall>d < m. tbl ! slot sz (hs ! i) d \<noteq> 0"
      using assms(1) by (auto simp: placed_def reaches_def)
    have "unat (of_nat (i + 1) :: 32 word) = i + 1"
      using True assms(2) by (simp add: unat_of_nat del: of_nat_add of_nat_Suc)
    then have "of_nat (i + 1) \<noteq> (0 :: 32 word)" by (metis add_is_0 one_neq_zero unat_0)
    then have "slot sz (hs ! i) m \<noteq> ?j" using m(1) assms(3) by metis
    then show ?thesis using True m keep unfolding reaches_def
      by (intro exI [of _ m]) (simp add: nth_append)
  next
    case False
    then have "i = length hs" using i by simp
    then show ?thesis using j assms(4) keep unfolding reaches_def
      by (intro exI [of _ n]) (simp del: of_nat_add of_nat_Suc)
  qed
  moreover have "\<forall>x \<in> set (tbl[?j := ?e]). unat x \<le> length (hs @ [h])"
    using assms(1) u set_update_subset_insert [of tbl ?j ?e]
    by (fastforce simp: placed_def simp del: of_nat_add of_nat_Suc)
  ultimately show ?thesis using p used_update [OF j assms(3) e] assms(1)
    by (simp add: placed_def del: of_nat_add of_nat_Suc)
qed

subsection \<open>The key set\<close>

definition names :: "sj_keyset \<Rightarrow> 8 word list list" where
  "names k = map (key_bytes k) (keys k)"

definition keyset_ok :: "sj_keyset \<Rightarrow> bool" where
  "keyset_ok k \<longleftrightarrow> placed (table k) (tableSize k) (map hash (keys k))
     \<and> count k = length (keys k) \<and> count k \<le> keysCap k
     \<and> bytesUsed k = length (bytes k) \<and> bytesUsed k \<le> bytesCap k
     \<and> 2 * count k \<le> tableSize k
     \<and> (\<forall>key \<in> set (keys k). offset key + key_length key \<le> bytesUsed k \<and> hash key = keyHash (key_bytes k key))
     \<and> distinct (names k)"

lemma doubled_power_of_2: "power_of_2 n \<Longrightarrow> power_of_2 (doubled n need)"
proof (induction n need rule: doubled.induct)
  case (1 n need)
  have "power_of_2 (2 * n)" using 1(2) by (auto simp: power_of_2_def intro: exI [of _ "Suc _"])
  then show ?case using 1 by (subst doubled.simps) simp
qed

lemma doubled_ge: "0 < n \<Longrightarrow> need \<le> doubled n need \<and> n \<le> doubled n need"
proof (induction n need rule: doubled.induct)
  case (1 n need)
  show ?case
  proof (cases "n < need")
    case True
    then have "doubled n need = doubled (2 * n) need" using 1(2) by (subst doubled.simps) simp
    then show ?thesis using 1 True by simp
  next
    case False then show ?thesis by (subst (1 2) doubled.simps) simp
  qed
qed

lemma sj_keyset_new_ok: "sj_keyset_new alloc hint = Some k \<Longrightarrow> keyset_ok k \<and> names k = []"
proof -
  assume "sj_keyset_new alloc hint = Some k"
  moreover have "power_of_2 16" by (simp add: power_of_2_def) (rule exI [of _ 4], simp)
  ultimately show ?thesis using placed_empty [OF doubled_power_of_2, of 16 "2 * hint"]
    by (auto simp: sj_keyset_new_def keyset_ok_def names_def Let_def split: if_splits)
qed

lemma place_keys_placed:
  assumes "power_of_2 sz" "length ks < sz" "length ks < 2 ^ 32"
  shows "i + n = length ks \<Longrightarrow> placed tbl sz (map hash (take i ks)) \<Longrightarrow>
    \<exists>tbl'. place_keys ks sz [i..<length ks] tbl = Some tbl' \<and> placed tbl' sz (map hash ks)"
proof (induction n arbitrary: i tbl)
  case (Suc n)
  then have i: "i < length ks" by simp
  let ?hs = "map hash (take i ks)" and ?h = "hash (ks ! i)"
  have l: "length ?hs = i" using i by simp
  obtain d where d: "tbl ! slot sz ?h d = 0" "\<forall>d' < d. tbl ! slot sz ?h d' \<noteq> 0"
    using placed_free [OF Suc.prems(2), of ?h] l i assms(2) by auto
  have "placed (tbl[slot sz ?h d := of_nat (i + 1)]) sz (?hs @ [?h])"
    using placed_add [OF Suc.prems(2) _ d] l i assms(3) by simp
  moreover have "?hs @ [?h] = map hash (take (Suc i) ks)" using i by (simp add: take_Suc_conv_app_nth)
  ultimately have "\<exists>tbl'. place_keys ks sz [Suc i..<length ks] (tbl[slot sz ?h d := of_nat (i + 1)]) = Some tbl'
      \<and> placed tbl' sz (map hash ks)"
    using Suc.prems(1) by (intro Suc.IH) (simp_all del: of_nat_add of_nat_Suc)
  then show ?case using i free_slot_finds [OF assms(1) d(2,1)] by (simp add: upt_conv_Cons)
qed (simp add: assms)

lemma keysetGrow_ok:
  assumes "keyset_ok k" "count k < 2 ^ 32"
  obtains (Fails) "keysetGrow alloc k = Some (False, k)" "\<not> alloc (4 * (2 * tableSize k))"
  | (Grows) tbl where "keysetGrow alloc k = Some (True, k\<lparr>table := tbl, tableSize := 2 * tableSize k\<rparr>)"
      "placed tbl (2 * tableSize k) (map hash (keys k))"
proof -
  have p: "power_of_2 (2 * tableSize k)"
    using assms(1) by (auto simp: keyset_ok_def placed_def power_of_2_def intro: exI [of _ "Suc _"])
  have "0 < tableSize k" using assms(1) by (auto simp: keyset_ok_def placed_def power_of_2_def)
  then have "length (keys k) < 2 * tableSize k" using assms(1) by (auto simp: keyset_ok_def)
  moreover have "length (keys k) < 2 ^ 32" "count k = length (keys k)" using assms by (auto simp: keyset_ok_def)
  ultimately obtain tbl where "place_keys (keys k) (2 * tableSize k) [0..<count k] (replicate (2 * tableSize k) 0) = Some tbl"
      "placed tbl (2 * tableSize k) (map hash (keys k))"
    using place_keys_placed [OF p, of "keys k" 0 "length (keys k)"] placed_empty [OF p] by auto
  then show ?thesis using Fails Grows by (cases "alloc (4 * (2 * tableSize k))") (auto simp: keysetGrow_def Let_def)
qed

text \<open>The search answers the entry of a key, and for a key that is not there the free slot.\<close>

lemma is_key_iff:
  assumes "keyset_ok k" "key \<in> set (keys k)" "h = keyHash s"
  shows "is_key k h s key \<longleftrightarrow> key_bytes k key = s"
proof
  have b: "length (key_bytes k key) = key_length key" using assms(1,2) by (auto simp: keyset_ok_def key_bytes_def)
  assume "is_key k h s key"
  then show "key_bytes k key = s" using b by (auto simp: is_key_def)
next
  assume "key_bytes k key = s"
  moreover have "length (key_bytes k key) = key_length key" using assms(1,2) by (auto simp: keyset_ok_def key_bytes_def)
  ultimately show "is_key k h s key" using assms by (auto simp: keyset_ok_def is_key_def)
qed

lemma entry_key:
  assumes "keyset_ok k" "j < tableSize k" "table k ! j \<noteq> 0"
  shows "keys k ! (unat (table k ! j) - 1) \<in> set (keys k)"
proof -
  have "table k ! j \<in> set (table k)" using assms by (simp add: keyset_ok_def placed_def)
  then have "unat (table k ! j) \<le> length (keys k)" using assms(1) by (auto simp: keyset_ok_def placed_def)
  moreover have "unat (table k ! j) \<noteq> 0" using assms(3) by (simp add: unat_eq_zero)
  ultimately show ?thesis by simp
qed

lemma probe_known:
  assumes "keyset_ok k" "i < count k" "names k ! i = s" "count k < 2 ^ 32"
  shows "probe k (keyHash s) s (unat (keyHash s) AND (tableSize k - 1)) = Some (Inl (of_nat (i + 1)))"
proof -
  let ?h = "keyHash s" and ?sz = "tableSize k"
  have n: "length (keys k) = count k" "power_of_2 ?sz" using assms(1) by (auto simp: keyset_ok_def placed_def)
  have key: "key_bytes k (keys k ! i) = s" "hash (keys k ! i) = ?h"
    using assms n by (auto simp: names_def keyset_ok_def)
  have "reaches (table k) ?sz (hash (keys k ! i)) i"
    using assms(1,2) n(1) by (auto simp: keyset_ok_def placed_def)
  then obtain m where m: "table k ! slot ?sz ?h m = of_nat (i + 1)" "\<forall>d < m. table k ! slot ?sz ?h d \<noteq> 0"
    unfolding key(2) reaches_def by blast
  have u: "unat (of_nat (i + 1) :: 32 word) = i + 1" using assms(2,4) by (simp add: unat_of_nat del: of_nat_add of_nat_Suc)
  have "is_key k ?h s (keys k ! i)" using is_key_iff [OF assms(1) _ refl] key(1) assms(2) n(1) by simp
  then have "stops k ?h s (slot ?sz ?h m)" unfolding stops_def m(1) u by simp
  then obtain d where d: "stops k ?h s (slot ?sz ?h d)" "\<forall>d' < d. \<not> stops k ?h s (slot ?sz ?h d')"
    using exists_least_iff [where P = "\<lambda>d. stops k ?h s (slot ?sz ?h d)"] by auto
  have "d \<le> m" using d(2) \<open>stops k ?h s (slot ?sz ?h m)\<close> by (meson linorder_not_less)
  have nz: "table k ! slot ?sz ?h d \<noteq> 0"
  proof (cases "d = m")
    case True then show ?thesis using m(1) u by (metis add_is_0 one_neq_zero unat_0)
  qed (use m(2) \<open>d \<le> m\<close> in simp)
  let ?e = "table k ! slot ?sz ?h d"
  have e: "keys k ! (unat ?e - 1) \<in> set (keys k)" using entry_key [OF assms(1) slot_less [OF n(2)] nz] .
  then have "key_bytes k (keys k ! (unat ?e - 1)) = s" using d(1) nz is_key_iff [OF assms(1) e refl] by (simp add: stops_def)
  moreover have "unat ?e - 1 < count k"
  proof -
    have "?e \<in> set (table k)" using assms(1) slot_less [OF n(2)] by (simp add: keyset_ok_def placed_def)
    then have "unat ?e \<le> count k" using assms(1) n(1) by (auto simp: keyset_ok_def placed_def)
    then show ?thesis using assms(2) by linarith
  qed
  ultimately have "unat ?e - 1 = i"
    using assms(1-3) n(1) unfolding keyset_ok_def names_def by (metis length_map nth_eq_iff_index_eq nth_map)
  moreover have "unat ?e \<noteq> 0" using nz by (simp add: unat_eq_zero)
  ultimately have "unat ?e = i + 1" by simp
  then have "?e = of_nat (i + 1)" using u by (metis word_unat_eq_iff)
  then show ?thesis using probe_stops [OF n(2) d] nz by simp
qed

lemma probe_unknown:
  assumes "keyset_ok k" "s \<notin> set (names k)"
  obtains n where "probe k (keyHash s) s (unat (keyHash s) AND (tableSize k - 1)) = Some (Inr (slot (tableSize k) (keyHash s) n))"
    "table k ! slot (tableSize k) (keyHash s) n = 0" "\<forall>d < n. table k ! slot (tableSize k) (keyHash s) d \<noteq> 0"
proof -
  let ?h = "keyHash s" and ?sz = "tableSize k"
  have p: "power_of_2 ?sz" using assms(1) by (auto simp: keyset_ok_def placed_def)
  have "0 < ?sz" using p by (auto simp: power_of_2_def)
  then have "length (map hash (keys k)) < ?sz" using assms(1) by (auto simp: keyset_ok_def)
  then obtain n where n: "table k ! slot ?sz ?h n = 0" "\<forall>d < n. table k ! slot ?sz ?h d \<noteq> 0"
    using placed_free assms(1) by (metis keyset_ok_def)
  have "\<not> stops k ?h s (slot ?sz ?h d)" if "d < n" for d
  proof
    assume s: "stops k ?h s (slot ?sz ?h d)"
    have e: "keys k ! (unat (table k ! slot ?sz ?h d) - 1) \<in> set (keys k)"
      using entry_key [OF assms(1) slot_less [OF p]] n(2) that by blast
    then have "key_bytes k (keys k ! (unat (table k ! slot ?sz ?h d) - 1)) = s"
      using s n(2) that is_key_iff [OF assms(1) e refl] by (simp add: stops_def)
    then show False using assms(2) e by (force simp: names_def)
  qed
  then show ?thesis using that [OF _ n] probe_stops [OF p, of ?h s n] n(1) by (simp add: stops_def)
qed

subsection \<open>What the index of a key promises\<close>

lemma reserve_keys_cases:
  assumes "keyset_ok k"
  obtains (Fails) "reserve_keys alloc k = (False, k)" "\<exists>n. \<not> alloc n"
  | (Holds) cap where "reserve_keys alloc k = (True, k\<lparr>keysCap := cap\<rparr>)" "count k < cap"
proof (cases "count k = keysCap k")
  case True
  let ?cap = "if keysCap k \<noteq> 0 then 2 * keysCap k else 16"
  have "count k < ?cap" using True by simp
  then show ?thesis using True Fails Holds [of ?cap] by (cases "alloc (24 * ?cap)") (auto simp: reserve_keys_def Let_def)
next
  case False
  then have "count k < keysCap k" using assms by (simp add: keyset_ok_def)
  then show ?thesis using False Holds [of "keysCap k"] by (simp add: reserve_keys_def)
qed

lemma reserve_bytes_cases:
  obtains (Fails) "reserve_bytes alloc n k = (False, k)" "\<exists>n. \<not> alloc n"
  | (Holds) cap where "reserve_bytes alloc n k = (True, k\<lparr>bytesCap := cap\<rparr>)" "bytesUsed k + n \<le> cap" "bytesCap k \<le> cap"
proof (cases "bytesUsed k + n > bytesCap k")
  case True
  define start where "start = (if bytesCap k \<noteq> 0 then 2 * bytesCap k else 256)"
  define cap where "cap = doubled start (bytesUsed k + n)"
  have "0 < start" "bytesCap k \<le> start" by (auto simp: start_def)
  then have c: "bytesUsed k + n \<le> cap" "bytesCap k \<le> cap"
    using doubled_ge [of start "bytesUsed k + n"] by (auto simp: cap_def)
  have "reserve_bytes alloc n k = (if alloc cap then (True, k\<lparr>bytesCap := cap\<rparr>) else (False, k))"
    using True by (simp add: reserve_bytes_def Let_def start_def cap_def)
  then show ?thesis using c Fails Holds by (cases "alloc cap") auto
next
  case False
  then show ?thesis using Holds [of "bytesCap k"] by (simp add: reserve_bytes_def)
qed

lemma add_key_ok:
  assumes "keyset_ok k" "s \<notin> set (names k)" "count k + 1 < 2 ^ 32" "count k < keysCap k"
    "bytesUsed k + length s \<le> bytesCap k" "2 * (count k + 1) \<le> tableSize k"
    "table k ! slot (tableSize k) (keyHash s) n = 0" "\<forall>d < n. table k ! slot (tableSize k) (keyHash s) d \<noteq> 0"
  shows "keyset_ok (add_key (keyHash s) s (slot (tableSize k) (keyHash s) n) k)
    \<and> names (add_key (keyHash s) s (slot (tableSize k) (keyHash s) n) k) = names k @ [s]"
proof -
  let ?k = "add_key (keyHash s) s (slot (tableSize k) (keyHash s) n) k"
  have c: "count k = length (keys k)" "bytesUsed k = length (bytes k)" using assms(1) by (auto simp: keyset_ok_def)
  have old: "key_bytes ?k key = key_bytes k key" if "key \<in> set (keys k)" for key
    using assms(1) that c by (auto simp: keyset_ok_def key_bytes_def add_key_def)
  have new: "key_bytes ?k \<lparr>hash = keyHash s, offset = bytesUsed k, key_length = length s\<rparr> = s"
    using c by (simp add: key_bytes_def add_key_def)
  have n: "names ?k = names k @ [s]" using old new by (simp add: names_def) (simp add: add_key_def names_def old new)
  have "placed (table ?k) (tableSize k) (map hash (keys k) @ [keyHash s])"
    using placed_add [of "table k" "tableSize k" "map hash (keys k)" "keyHash s" n] assms c
    by (simp add: add_key_def keyset_ok_def)
  then have "placed (table ?k) (tableSize ?k) (map hash (keys ?k))" by (simp add: add_key_def)
  moreover have "offset key + key_length key \<le> bytesUsed ?k \<and> hash key = keyHash (key_bytes ?k key)" if "key \<in> set (keys ?k)" for key
  proof (cases "key \<in> set (keys k)")
    case True then show ?thesis using old assms(1) by (auto simp: keyset_ok_def add_key_def)
  next
    case False then show ?thesis using that new by (auto simp: add_key_def)
  qed
  ultimately have "keyset_ok ?k" using assms(1-6) n c unfolding keyset_ok_def by (auto simp: add_key_def)
  then show ?thesis using n by simp
qed

lemma key_bytes_update [simp]:
  "key_bytes (k\<lparr>keysCap := c\<rparr>) = key_bytes k" "key_bytes (k\<lparr>bytesCap := b\<rparr>) = key_bytes k"
  "key_bytes (k\<lparr>table := tbl\<rparr>) = key_bytes k" "key_bytes (k\<lparr>tableSize := sz\<rparr>) = key_bytes k"
  by (simp_all add: fun_eq_iff key_bytes_def)

lemma keyset_ok_caps:
  assumes "keyset_ok k" "count k \<le> c" "bytesCap k \<le> b"
  shows "keyset_ok (k\<lparr>keysCap := c, bytesCap := b\<rparr>)" "names (k\<lparr>keysCap := c, bytesCap := b\<rparr>) = names k"
  using assms by (auto simp: keyset_ok_def names_def)

lemma keyset_ok_grown:
  assumes "keyset_ok k" "placed tbl (2 * tableSize k) (map hash (keys k))"
  shows "keyset_ok (k\<lparr>table := tbl, tableSize := 2 * tableSize k\<rparr>)" "names (k\<lparr>table := tbl, tableSize := 2 * tableSize k\<rparr>) = names k"
  using assms by (auto simp: keyset_ok_def names_def)

definition index_outcome :: "(nat \<Rightarrow> bool) \<Rightarrow> sj_keyset \<Rightarrow> 8 word list \<Rightarrow> int \<times> bool option \<times> sj_keyset \<Rightarrow> bool" where
  "index_outcome alloc k s r \<longleftrightarrow>
     (case r of (i, isNew, k') \<Rightarrow> keyset_ok k'
       \<and> (if s \<in> set (names k) then isNew = Some False \<and> k' = k \<and> 0 < i \<and> i \<le> int (length (names k)) \<and> names k ! (nat i - 1) = s
          else i = -1 \<and> isNew = None \<and> names k' = names k \<and> (\<exists>n. \<not> alloc n)
            \<or> isNew = Some True \<and> names k' = names k @ [s] \<and> i = int (length (names k'))))"

lemma index_outcome_fails: "s \<notin> set (names k) \<Longrightarrow> keyset_ok k' \<Longrightarrow> names k' = names k \<Longrightarrow> \<not> alloc n \<Longrightarrow>
    index_outcome alloc k s (-1, None, k')"
  by (auto simp: index_outcome_def)

lemma length_names [simp]: "length (names k) = length (keys k)"
  by (simp add: names_def)

lemma add_key_outcome:
  assumes "keyset_ok k" "s \<notin> set (names k)" "count k + 1 < 2 ^ 32" "count k < keysCap k"
    "bytesUsed k + length s \<le> bytesCap k" "2 * (count k + 1) \<le> tableSize k" "names k0 = names k"
    "table k ! slot (tableSize k) (keyHash s) n = 0" "\<forall>d < n. table k ! slot (tableSize k) (keyHash s) d \<noteq> 0"
  shows "index_outcome alloc k0 s (int (count k + 1), Some True, add_key (keyHash s) s (slot (tableSize k) (keyHash s) n) k)"
proof -
  have "count k = length (names k)" using assms(1) by (simp add: keyset_ok_def)
  then show ?thesis using add_key_ok [OF assms(1-6,8,9)] assms(2,7)
    by (simp add: index_outcome_def del: length_names)
qed

lemma sj_keyset_index_new:
  assumes "keyset_ok k" "count k + 1 < 2 ^ 32" "s \<notin> set (names k)"
  shows "\<exists>r. sj_keyset_index alloc k s = Some r \<and> index_outcome alloc k s r"
proof -
  let ?h = "keyHash s"
  obtain n where n: "probe k ?h s (unat ?h AND (tableSize k - 1)) = Some (Inr (slot (tableSize k) ?h n))"
    "table k ! slot (tableSize k) ?h n = 0" "\<forall>d < n. table k ! slot (tableSize k) ?h d \<noteq> 0"
    using probe_unknown [OF assms(1,3)] .
  show ?thesis
  proof (cases rule: reserve_keys_cases [OF assms(1), where alloc = alloc, case_names Fails Holds])
    case Fails
    then show ?thesis using n(1) index_outcome_fails [OF assms(3,1) refl] by (auto simp: sj_keyset_index_def Let_def)
  next
    case (Holds c)
    define k1 where "k1 = k\<lparr>keysCap := c\<rparr>"
    have k1: "keyset_ok k1" "names k1 = names k" using keyset_ok_caps [OF assms(1), of c "bytesCap k"] Holds(2) by (simp_all add: k1_def)
    show ?thesis
    proof (cases rule: reserve_bytes_cases [where alloc = alloc and n = "length s" and k = k1, case_names Fails2 Holds2])
      case Fails2
      then show ?thesis using n(1) Holds(1) index_outcome_fails [OF assms(3) k1]
        by (auto simp: sj_keyset_index_def Let_def k1_def)
    next
      case (Holds2 b)
      define k2 where "k2 = k1\<lparr>bytesCap := b\<rparr>"
      have k2: "keyset_ok k2" "names k2 = names k" "count k2 = count k" "tableSize k2 = tableSize k" "table k2 = table k"
        "count k2 < keysCap k2" "bytesUsed k2 + length s \<le> bytesCap k2"
        using keyset_ok_caps [OF assms(1), of c b] Holds(2) Holds2 by (simp_all add: k1_def k2_def)
      have e: "sj_keyset_index alloc k s =
          (if 2 * (count k2 + 1) > tableSize k2
           then do { (ok, k') \<leftarrow> keysetGrow alloc k2;
                     if \<not> ok then Some (-1, None, k')
                     else do { i \<leftarrow> free_slot (table k') (tableSize k') (unat ?h AND (tableSize k' - 1));
                               Some (int (count k' + 1), Some True, add_key ?h s i k') } }
           else Some (int (count k2 + 1), Some True, add_key ?h s (slot (tableSize k) ?h n) k2))"
        using n(1) Holds(1) Holds2(1) by (simp add: sj_keyset_index_def Let_def k1_def k2_def)
      show ?thesis
      proof (cases "2 * (count k2 + 1) > tableSize k2")
        case False
        have t: "table k2 ! slot (tableSize k2) ?h n = 0" "\<forall>d < n. table k2 ! slot (tableSize k2) ?h d \<noteq> 0"
          unfolding k2(4,5) by (rule n(2,3))+
        have "index_outcome alloc k s (int (count k2 + 1), Some True, add_key ?h s (slot (tableSize k2) ?h n) k2)"
          by (rule add_key_outcome [OF k2(1) _ _ k2(6,7) _ _ t]) (use False assms(2,3) k2(2,3) in simp_all)
        then show ?thesis unfolding e k2(4) using False by (simp add: k2(4))
      next
        case True
        have c: "count k2 < 2 ^ 32" using assms(2) k2(3) by simp
        show ?thesis
        proof (cases rule: keysetGrow_ok [OF k2(1) c, where alloc = alloc, case_names Fails3 Grows])
          case Fails3
          then show ?thesis unfolding e using True index_outcome_fails [OF assms(3) k2(1,2)] by auto
        next
          case (Grows tbl)
          define k3 where "k3 = k2\<lparr>table := tbl, tableSize := 2 * tableSize k2\<rparr>"
          have k3: "keyset_ok k3" "names k3 = names k2" using keyset_ok_grown [OF k2(1) Grows(2)] by (simp_all add: k3_def)
          have p: "power_of_2 (tableSize k2)" using k2(1) by (auto simp: keyset_ok_def placed_def)
          then have "0 < tableSize k2" by (auto simp: power_of_2_def)
          have s3: "2 * (count k3 + 1) \<le> tableSize k3" "count k3 < tableSize k3"
          proof -
            have "2 * count k2 \<le> tableSize k2" using k2(1) by (simp add: keyset_ok_def)
            then have "count k2 + 1 \<le> tableSize k2" using \<open>0 < tableSize k2\<close> by presburger
            then show "2 * (count k3 + 1) \<le> tableSize k3" "count k3 < tableSize k3"
              using \<open>0 < tableSize k2\<close> by (simp_all add: k3_def)
          qed
          have q: "placed (table k3) (tableSize k3) (map hash (keys k3))" "length (map hash (keys k3)) < tableSize k3"
            using k3(1) s3(2) by (auto simp: keyset_ok_def)
          obtain m where m: "table k3 ! slot (tableSize k3) ?h m = 0" "\<forall>d < m. table k3 ! slot (tableSize k3) ?h d \<noteq> 0"
            using placed_free [OF q] by blast
          have "free_slot (table k3) (tableSize k3) (unat ?h AND (tableSize k3 - 1)) = Some (slot (tableSize k3) ?h m)"
            using free_slot_finds [OF _ m(2,1)] q(1) by (simp add: placed_def)
          then have "sj_keyset_index alloc k s = Some (int (count k3 + 1), Some True, add_key ?h s (slot (tableSize k3) ?h m) k3)"
            unfolding e using True Grows(1) by (simp add: k3_def)
          moreover have "index_outcome alloc k s (int (count k3 + 1), Some True, add_key ?h s (slot (tableSize k3) ?h m) k3)"
            by (rule add_key_outcome [OF k3(1) _ _ _ _ s3(1) _ m]) (use k3 k2 assms in \<open>simp_all add: k3_def\<close>)
          ultimately show ?thesis by blast
        qed
      qed
    qed
  qed
qed

lemma sj_keyset_index_old:
  assumes "keyset_ok k" "count k < 2 ^ 32" "s \<in> set (names k)"
  shows "\<exists>r. sj_keyset_index alloc k s = Some r \<and> index_outcome alloc k s r"
proof -
  obtain i where i: "i < count k" "names k ! i = s" using assms(1,3) by (auto simp: in_set_conv_nth keyset_ok_def)
  have "uint (of_nat (i + 1) :: 32 word) = int i + 1"
    using i(1) assms(2) by (simp add: uint_nat unat_of_nat del: of_nat_add of_nat_Suc)
  then have "sj_keyset_index alloc k s = Some (int i + 1, Some False, k)"
    using probe_known [OF assms(1) i assms(2)] by (simp add: sj_keyset_index_def Let_def)
  moreover have "i < length (names k)" using i(1) assms(1) by (simp add: keyset_ok_def)
  ultimately show ?thesis using i(2) assms by (simp add: index_outcome_def nat_add_distrib del: length_names)
qed

text \<open>
  C19: A key set is a list of distinct keys. The index of a key it holds is the key's position, from
  1, and nothing changes; of another key, the position at the end where it now stands; -1 only when
  an allocation failed, and then the keys are the ones before. Every search and every move of the
  entries to a larger table ends.
\<close>

theorem sj_keyset_index_numbers:
  assumes "keyset_ok k" "count k + 1 < 2 ^ 32"
  shows "\<exists>r. sj_keyset_index alloc k s = Some r \<and> index_outcome alloc k s r"
proof (cases "s \<in> set (names k)")
  case True then show ?thesis using sj_keyset_index_old [OF assms(1) _ True] assms(2) by simp
next
  case False then show ?thesis by (rule sj_keyset_index_new [OF assms])
qed

definition some_keyset :: sj_keyset where
  "some_keyset = \<lparr>table = replicate 16 0, tableSize = 16, count = 0, keys = [], keysCap = 0,
     bytes = [], bytesUsed = 0, bytesCap = 0\<rparr>"

lemma some_keyset_new: "sj_keyset_new (\<lambda>_. True) 5 = Some some_keyset"
  by (simp add: sj_keyset_new_def some_keyset_def doubled.simps Let_def)

lemma sj_keyset_index_numbers_witness:
  "\<exists>k'. sj_keyset_index (\<lambda>_. True) some_keyset [97, 98] = Some (1, Some True, k') \<and> names k' = [[97, 98]]"
proof -
  have "keyset_ok some_keyset" "names some_keyset = []" using sj_keyset_new_ok [OF some_keyset_new] by auto
  moreover have "count some_keyset + 1 < 2 ^ 32" by (simp add: some_keyset_def)
  ultimately show ?thesis
    using sj_keyset_index_numbers [of some_keyset "\<lambda>_. True" "[97, 98]"] by (auto simp: index_outcome_def simp del: length_names)
qed

subsection \<open>Interning a document's keys\<close>

text \<open>
  The interface the engine uses: a key in, a number out; the same number for the same key, as long
  as nothing fails.
\<close>

locale interner =
  fixes ok :: "'k \<Rightarrow> bool" and known :: "'k \<Rightarrow> 'a list" and intern :: "'a \<Rightarrow> 'k \<Rightarrow> (nat \<times> 'k) option"
  assumes known_distinct: "ok k \<Longrightarrow> distinct (known k)"
    and intern_old: "ok k \<Longrightarrow> a \<in> set (known k) \<Longrightarrow> intern a k = Some (i, k') \<Longrightarrow>
      k' = k \<and> 0 < i \<and> i \<le> length (known k) \<and> known k ! (i - 1) = a"
    and intern_new: "ok k \<Longrightarrow> a \<notin> set (known k) \<Longrightarrow> intern a k = Some (i, k') \<Longrightarrow>
      ok k' \<and> known k' = known k @ [a] \<and> i = length (known k')"
begin

fun intern_all :: "'a list \<Rightarrow> 'k \<Rightarrow> (nat list \<times> 'k) option" where
  "intern_all [] k = Some ([], k)"
| "intern_all (a # as) k =
     do { (i, k) \<leftarrow> intern a k; (is, k) \<leftarrow> intern_all as k; Some (i # is, k) }"

lemma intern_step:
  assumes "ok k" "intern a k = Some (i, k')"
  shows "ok k' \<and> (\<exists>new. known k' = known k @ new) \<and> 0 < i \<and> i \<le> length (known k') \<and> known k' ! (i - 1) = a"
proof (cases "a \<in> set (known k)")
  case True then show ?thesis using intern_old [OF assms(1) True assms(2)] assms(1) by auto
next
  case False then show ?thesis using intern_new [OF assms(1) False assms(2)] by auto
qed

lemma intern_all_numbers:
  "ok k \<Longrightarrow> intern_all as k = Some (is, k') \<Longrightarrow>
   ok k' \<and> (\<exists>new. known k' = known k @ new)
     \<and> list_all2 (\<lambda>a i. 0 < i \<and> i \<le> length (known k') \<and> known k' ! (i - 1) = a) as is"
proof (induction as arbitrary: k "is")
  case (Cons a as)
  obtain i k1 js where s: "intern a k = Some (i, k1)" "intern_all as k1 = Some (js, k')" "is = i # js"
    using Cons.prems(2) by (auto split: Option.bind_splits)
  have i: "ok k1" "0 < i" "i \<le> length (known k1)" "known k1 ! (i - 1) = a" "\<exists>new. known k1 = known k @ new"
    using intern_step [OF Cons.prems(1) s(1)] by auto
  obtain new where n: "known k' = known k1 @ new" using Cons.IH [OF i(1) s(2)] by blast
  then have "known k' ! (i - 1) = a" "i \<le> length (known k')" using i(2,3,4) by (auto simp: nth_append)
  then show ?case using Cons.IH [OF i(1) s(2)] s(3) i(2,5) n by auto
qed simp

lemma equal_numbers:
  assumes "ok k" "intern_all as k = Some (is, k')" "x < length as" "y < length as"
  shows "is ! x = is ! y \<longleftrightarrow> as ! x = as ! y"
proof -
  let ?r = "\<lambda>a i. 0 < i \<and> i \<le> length (known k') \<and> known k' ! (i - 1) = a"
  have l: "list_all2 ?r as is" and ok: "ok k'" using intern_all_numbers [OF assms(1,2)] by auto
  have x: "?r (as ! x) (is ! x)" and y: "?r (as ! y) (is ! y)" using list_all2_nthD [OF l] assms(3,4) by auto
  have "is ! x - 1 = is ! y - 1" if "as ! x = as ! y"
  proof -
    have "is ! x - 1 < length (known k')" "is ! y - 1 < length (known k')" using x y by linarith+
    then show ?thesis using x y that known_distinct [OF ok] by (metis nth_eq_iff_index_eq)
  qed
  moreover have "is ! x = is ! y" if "is ! x - 1 = is ! y - 1" using that x y by linarith
  ultimately show ?thesis using x y by auto
qed

end

text \<open>The key set, of less than \<open>2 ^ 32\<close> keys; a failed allocation ends the document.\<close>

definition keyset_intern :: "(nat \<Rightarrow> bool) \<Rightarrow> 8 word list \<Rightarrow> sj_keyset \<Rightarrow> (nat \<times> sj_keyset) option" where
  "keyset_intern alloc s k =
     (if count k + 1 < 2 ^ 32
      then do { (i, isNew, k') \<leftarrow> sj_keyset_index alloc k s; if i = -1 then None else Some (nat i, k') }
      else None)"

lemma keyset_intern_outcome:
  assumes "keyset_ok k" "keyset_intern alloc s k = Some (i, k')"
  shows "if s \<in> set (names k) then k' = k \<and> 0 < i \<and> i \<le> length (names k) \<and> names k ! (i - 1) = s
    else keyset_ok k' \<and> names k' = names k @ [s] \<and> i = length (names k')"
proof -
  have c: "count k + 1 < 2 ^ 32" using assms(2) by (auto simp: keyset_intern_def split: if_splits)
  obtain r where r: "sj_keyset_index alloc k s = Some r" "index_outcome alloc k s r"
    using sj_keyset_index_old [OF assms(1)] sj_keyset_index_new [OF assms(1) c] c by fastforce
  obtain j isNew k1 where j: "r = (j, isNew, k1)" by (cases r)
  have "j \<noteq> -1" "i = nat j" "k' = k1" using assms(2) c r(1) j by (auto simp: keyset_intern_def split: if_splits)
  then show ?thesis using r(2) j by (auto simp: index_outcome_def simp del: length_names)
qed

interpretation keyset: interner keyset_ok names "keyset_intern alloc" for alloc
proof
  fix k assume "keyset_ok k"
  then show "distinct (names k)" by (simp add: keyset_ok_def)
next
  fix k s i k' assume "keyset_ok k" "s \<in> set (names k)" "keyset_intern alloc s k = Some (i, k')"
  then show "k' = k \<and> 0 < i \<and> i \<le> length (names k) \<and> names k ! (i - 1) = s"
    using keyset_intern_outcome [of k alloc s i k'] by simp
next
  fix k s i k' assume "keyset_ok k" "s \<notin> set (names k)" "keyset_intern alloc s k = Some (i, k')"
  then show "keyset_ok k' \<and> names k' = names k @ [s] \<and> i = length (names k')"
    using keyset_intern_outcome [of k alloc s i k'] by (simp del: length_names)
qed

text \<open>
  Over a whole document two keys get the same number exactly when they have the same bytes,
  whatever their hashes, through every growth of the table.
\<close>

theorem keyset_numbers_are_keys:
  assumes "sj_keyset_new alloc hint = Some k" "keyset.intern_all alloc ss k = Some (is, k')"
    "x < length ss" "y < length ss"
  shows "is ! x = is ! y \<longleftrightarrow> ss ! x = ss ! y"
  using sj_keyset_new_ok [OF assms(1)] keyset.equal_numbers [OF _ assms(2-4)] by blast

lemma keyset_numbers_are_keys_witness:
  "\<exists>is k'. keyset.intern_all (\<lambda>_. True) [[97], [98]] some_keyset = Some (is, k') \<and> is ! 0 \<noteq> is ! 1"
proof -
  let ?a = "\<lambda>_ :: nat. True"
  have k: "keyset_ok some_keyset" "names some_keyset = []" using sj_keyset_new_ok [OF some_keyset_new] by auto
  have "\<exists>i k1. keyset_intern ?a s k = Some (i, k1) \<and> keyset_ok k1 \<and> count k1 \<le> count k + 1"
    if h: "keyset_ok k" "count k + 1 < 2 ^ 32" for s k
  proof -
    obtain r where "sj_keyset_index ?a k s = Some r" "index_outcome ?a k s r"
      using sj_keyset_index_old [OF h(1)] sj_keyset_index_new [OF h] h(2) by fastforce
    moreover have "count k = length (names k)" if "keyset_ok k" for k using that by (simp add: keyset_ok_def)
    ultimately show ?thesis using h
      by (cases r) (auto simp: keyset_intern_def index_outcome_def simp del: length_names split: if_splits)
  qed
  from this [OF k(1), of "[97]"] obtain i k1 where 1: "keyset_intern ?a [97] some_keyset = Some (i, k1)" "keyset_ok k1" "count k1 \<le> 1"
    by (auto simp: some_keyset_def)
  have "keyset_ok k \<Longrightarrow> count k + 1 < 2 ^ 32 \<Longrightarrow> \<exists>i k1. keyset_intern ?a [98] k = Some (i, k1)" for k
    using sj_keyset_index_old [of k "[98]" ?a] sj_keyset_index_new [of k "[98]" ?a]
    by (fastforce simp: keyset_intern_def index_outcome_def split: if_splits)
  with 1 obtain j k2 where 2: "keyset_intern ?a [98] k1 = Some (j, k2)" by fastforce
  have e: "keyset.intern_all ?a [[97], [98]] some_keyset = Some ([i, j], k2)" using 1(1) 2 by simp
  then show ?thesis using keyset_numbers_are_keys [OF some_keyset_new e, of 0 1] by auto
qed

end
