(* ===== verification/JsonSizes.thy ===== *)
theory JsonSizes
  imports Prelude Complex_Main
begin

text \<open>
  Sizes and floats of \<open>sjText.c\<close>: the bytes of Spur objects, the capacity of a dictionary, the range
  of an immediate float, and the exact test for the midpoint between two digit strings. Sizes are
  words of 64 bits, whose sums and products wrap; a double is the word of its representation.
\<close>

definition sj_is_small_float :: "64 word \<Rightarrow> bool" where
  "sj_is_small_float raw =
     (let exponent = drop_bit 52 raw AND 0x7FF
      in if exponent > 896 then exponent \<le> 0xFF + 896
         else if raw AND (push_bit 52 1 - 1) = 0 then exponent = 0 else exponent = 896)"

definition sj_spur_pointers :: "64 word \<Rightarrow> 64 word" where
  "sj_spur_pointers slots = 8 + (if slots \<ge> 255 then 8 else 0) + 8 * (if slots \<noteq> 0 then slots else 1)"

definition sj_spur_bytes :: "64 word \<Rightarrow> 64 word" where
  "sj_spur_bytes nbytes = sj_spur_pointers ((nbytes + 7) div 8)"

definition sj_spur_words32 :: "64 word \<Rightarrow> 64 word" where
  "sj_spur_words32 nwords = sj_spur_pointers ((nwords + 1) div 2)"

definition sj_bound :: "64 word \<Rightarrow> 64 word" where
  "sj_bound utf8Bytes = 32 * utf8Bytes + 4096"

subsection \<open>The capacity of a dictionary\<close>

text \<open>
  The inner loop: the first odd \<open>d\<close> from 3 that divides \<open>n\<close> or whose square, which may wrap, exceeds it. Both
  loops may run forever as far as the code goes; that they end is part of the theorem below.
\<close>

partial_function (option) odd_divisor :: "64 word \<Rightarrow> 64 word \<Rightarrow> 64 word option" where
  "odd_divisor n d = (if d * d \<le> n \<and> n mod d \<noteq> 0 then odd_divisor n (d + 2) else Some d)"

partial_function (option) capacity_loop :: "64 word \<Rightarrow> 64 word option" where
  "capacity_loop n = do {
     d \<leftarrow> odd_divisor n 3;
     if d * d > n then Some n else capacity_loop (n + 2)
   }"

definition sj_dict_capacity :: "64 word \<Rightarrow> 64 word option" where
  "sj_dict_capacity npairs =
     (let n = (npairs + 1) * 4 div 3 in if n \<le> 5 then Some 5 else capacity_loop (n OR 1))"

text \<open>The inner loop on natural numbers, to compare with.\<close>

function first_divisor :: "nat \<Rightarrow> nat \<Rightarrow> nat" where
  "first_divisor n d = (if d * d \<le> n \<and> n mod d \<noteq> 0 then first_divisor n (d + 2) else d)"
  by pat_completeness auto
termination
proof (relation "measure (\<lambda>(n, d). n + 1 - d)", simp)
  fix n d :: nat assume "d * d \<le> n \<and> n mod d \<noteq> 0"
  moreover have "d \<le> d * d" by (cases d) auto
  ultimately have "d \<le> n" by linarith
  then show "((n, d + 2), n, d) \<in> measure (\<lambda>(n, d). n + 1 - d)" by auto
qed

declare first_divisor.simps [simp del]

definition is_prime :: "nat \<Rightarrow> bool" where
  "is_prime p \<longleftrightarrow> 1 < p \<and> (\<forall>d. d dvd p \<longrightarrow> d = 1 \<or> d = p)"

lemma first_divisor_spec:
  "odd d \<Longrightarrow> \<forall>e. odd e \<and> 1 < e \<and> e < d \<longrightarrow> \<not> e dvd n \<Longrightarrow>
   odd (first_divisor n d) \<and> d \<le> first_divisor n d
     \<and> (\<forall>e. odd e \<and> 1 < e \<and> e < first_divisor n d \<longrightarrow> \<not> e dvd n)
     \<and> (first_divisor n d * first_divisor n d > n \<or> first_divisor n d dvd n)"
proof (induction n d rule: first_divisor.induct)
  case (1 n d)
  show ?case
  proof (cases "d * d \<le> n \<and> n mod d \<noteq> 0")
    case True
    then have e: "first_divisor n d = first_divisor n (d + 2)" by (subst first_divisor.simps) simp
    have "\<not> e dvd n" if "odd e" "1 < e" "e < d + 2" for e
    proof (cases "e < d")
      case True then show ?thesis using that 1(3) by simp
    next
      case False
      then have "e = d" using that 1(2) by (metis add_2_eq_Suc' less_SucE linorder_neqE_nat even_Suc)
      then show ?thesis using True by (simp add: dvd_eq_mod_eq_0)
    qed
    then show ?thesis unfolding e using "1.IH" [OF True] 1(2) by fastforce
  next
    case False
    then have e: "first_divisor n d = d" by (subst first_divisor.simps) auto
    show ?thesis unfolding e using 1(2,3) False by (auto simp: dvd_eq_mod_eq_0)
  qed
qed

text \<open>The test of the outer loop is primality.\<close>

lemma first_divisor_prime:
  assumes "odd n" "3 < n" shows "first_divisor n 3 * first_divisor n 3 > n \<longleftrightarrow> is_prime n"
proof -
  let ?d = "first_divisor n 3"
  have "\<forall>e. odd e \<and> 1 < e \<and> e < 3 \<longrightarrow> \<not> e dvd n"
  proof (intro allI impI)
    fix e :: nat assume "odd e \<and> 1 < e \<and> e < 3"
    moreover from this have "e = 2" by linarith
    then have "even e" by simp
    ultimately show "\<not> e dvd n" by blast
  qed
  from first_divisor_spec [OF _ this] have d: "odd ?d" "3 \<le> ?d" "\<And>e. odd e \<Longrightarrow> 1 < e \<Longrightarrow> e < ?d \<Longrightarrow> \<not> e dvd n"
    "?d * ?d > n \<or> ?d dvd n" by auto
  show ?thesis
  proof
    assume g: "?d * ?d > n"
    show "is_prime n" unfolding is_prime_def
    proof (intro conjI allI impI)
      show "1 < n" using assms(2) by simp
      fix e assume e: "e dvd n"
      then obtain f where f: "n = e * f" by (rule dvdE)
      have o: "odd e" "odd f" using assms(1) f by auto
      show "e = 1 \<or> e = n"
      proof (rule ccontr)
        assume "\<not> (e = 1 \<or> e = n)"
        then have "1 < e" "1 < f" using f assms(2) by (auto simp: nat_neq_iff intro: ccontr)
        then have "?d \<le> e" "?d \<le> f" using d(3) o e f by (meson dvd_triv_right linorder_not_less)+
        then have "?d * ?d \<le> n" unfolding f by (rule mult_le_mono)
        then show False using g by simp
      qed
    qed
  next
    assume p: "is_prime n"
    show "?d * ?d > n"
    proof (rule ccontr)
      assume n: "\<not> ?d * ?d > n"
      then have "?d = 1 \<or> ?d = n" using d(4) p by (auto simp: is_prime_def)
      then have "n * n \<le> n" using d(2) n by auto
      then show False using assms(2) by (cases n) auto
    qed
  qed
qed

lemma smallest_factor:
  assumes "1 < m" obtains p where "is_prime p" "p dvd m"
proof -
  obtain p where p: "1 < p \<and> p dvd m" "\<forall>q < p. \<not> (1 < q \<and> q dvd m)"
    using assms exists_least_iff [of "\<lambda>p. 1 < p \<and> p dvd m"] by auto
  have "d = 1 \<or> d = p" if "d dvd p" for d
  proof (rule ccontr)
    assume "\<not> (d = 1 \<or> d = p)"
    then have "1 < d" "d < p" using that p(1) by (metis One_nat_def Suc_lessI dvd_0_left_iff gr0I less_nat_zero_code)
        (meson \<open>\<not> (d = 1 \<or> d = p)\<close> dvd_imp_le le_neq_implies_less less_trans p(1) that zero_less_one)
    then show False using p that dvd_trans by blast
  qed
  then show ?thesis using that p(1) by (auto simp: is_prime_def)
qed

lemma prime_odd: "is_prime p \<Longrightarrow> 2 < p \<Longrightarrow> odd p"
  by (auto simp: is_prime_def)

text \<open>
  A prime to search up to: the Mersenne number \<open>2 ^ 31 - 1\<close>. Its prime factors are of the form \<open>62 k + 1\<close>, by
  Fermat's little theorem to the base 2, so few are to be tried.
\<close>

lemma prime_coprime: "is_prime p \<Longrightarrow> 0 < k \<Longrightarrow> k < p \<Longrightarrow> coprime p k"
proof -
  assume p: "is_prime p" "0 < k" "k < p"
  have "gcd p k = 1 \<or> gcd p k = p" using p(1) by (simp add: is_prime_def)
  moreover have "gcd p k \<noteq> p" using p(2,3) by (metis gcd_dvd2 nat_dvd_not_less)
  ultimately show "coprime p k" by (simp add: coprime_iff_gcd_eq_1)
qed

lemma prime_dvd_choose:
  assumes "is_prime p" "0 < k" "k < p"
  shows "p dvd p choose k"
proof -
  have "k * (p choose k) = p * ((p - 1) choose (k - 1))"
    using times_binomial_minus1_eq [OF assms(2), of p] .
  then have "p dvd k * (p choose k)" by simp
  then show ?thesis using prime_coprime [OF assms] coprime_dvd_mult_right_iff by blast
qed

lemma fermat_two: "is_prime p \<Longrightarrow> p dvd 2 ^ p - 2"
proof -
  assume p: "is_prime p"
  then have "1 < p" by (simp add: is_prime_def)
  have "(2 :: nat) ^ p = (\<Sum>k \<le> p. p choose k)" by (rule choose_row_sum [symmetric])
  also have "\<dots> = (\<Sum>k \<in> {0, p} \<union> {0<..<p}. p choose k)" by (rule sum.cong) auto
  also have "\<dots> = 2 + (\<Sum>k \<in> {0<..<p}. p choose k)" using \<open>1 < p\<close> by (subst sum.union_disjoint) auto
  finally have "2 ^ p - 2 = (\<Sum>k \<in> {0<..<p}. p choose k)" by simp
  moreover have "p dvd (\<Sum>k \<in> {0<..<p}. p choose k)" using prime_dvd_choose [OF p] by (intro dvd_sum) auto
  ultimately show ?thesis by simp
qed

lemma mersenne_factor:
  assumes q: "is_prime q" "q dvd 2 ^ 31 - 1"
  shows "31 dvd q - 1" "odd q"
proof -
  show o: "odd q"
  proof
    assume "even q"
    then have "(2 :: nat) dvd 2 ^ 31 - 1" using q(2) by (rule dvd_trans)
    then show False by simp
  qed
  have "1 < q" using q(1) by (simp add: is_prime_def)
  then have "2 ^ q - 2 = 2 * (2 ^ (q - 1) - 1 :: nat)" by (cases q) (auto simp: right_diff_distrib')
  then have "q dvd 2 * (2 ^ (q - 1) - 1)" using fermat_two [OF q(1)] by metis
  moreover have "coprime q 2" using o by (simp add: coprime_right_2_iff_odd)
  ultimately have f: "q dvd 2 ^ (q - 1) - 1" using coprime_dvd_mult_right_iff by blast
  have one: "2 ^ (a * b) mod q = 1" if "q dvd 2 ^ a - 1" for a b
  proof -
    have "(2 :: nat) ^ a mod q = 1 mod q"
      using that by (intro mod_eq_dvd_iff_nat [THEN iffD2]) simp_all
    then have "(2 ^ a) ^ b mod q = 1 ^ b mod q" by (metis power_mod)
    then show ?thesis using \<open>1 < q\<close> by (simp add: power_mult)
  qed
  show "31 dvd q - 1"
  proof (rule ccontr)
    assume n: "\<not> 31 dvd q - 1"
    have "d = 1 \<or> d = 31" if "d dvd 31" for d :: nat
    proof -
      have "list_all (\<lambda>d. (31 :: int) mod d \<noteq> 0) [2..30]" by code_simp
      then have "int d \<notin> set [2..30]" using that by (auto simp: list_all_iff simp flip: dvd_eq_mod_eq_0)
      moreover have "d \<le> 31" using that by (rule dvd_imp_le) simp
      moreover have "d \<noteq> 0" using that by (metis dvd_0_left zero_neq_numeral)
      ultimately show ?thesis unfolding set_upto atLeastAtMost_iff by linarith
    qed
    then have "gcd 31 (q - 1) = 1" using n by (metis gcd_dvd1 gcd_dvd2)
    then obtain x y where xy: "31 * x = (q - 1) * y + 1" using bezout_nat [of 31 "q - 1"] by auto
    have "(2 :: nat) ^ (31 * x) mod q = 1" by (rule one) (use q(2) in simp)
    moreover have "(2 :: nat) ^ ((q - 1) * y) mod q = 1" by (rule one [OF f])
    then have "2 ^ ((q - 1) * y + 1) mod q = 2 mod q" by (metis mod_mult_right_eq mult.right_neutral power_add power_one_right mult.commute)
    ultimately have "2 mod q = 1" unfolding xy by simp
    then show False using \<open>1 < q\<close> o by (cases "q = 2") (auto simp: mod_less)
  qed
qed

lemma no_small_factor: "list_all (\<lambda>k. (2147483647 :: int) mod (62 * k + 1) \<noteq> 0) [1..747]"
  by code_simp

lemma mersenne_prime: "is_prime 2147483647"
proof (rule ccontr)
  assume "\<not> is_prime 2147483647"
  then obtain d :: nat where d: "d dvd 2147483647" "d \<noteq> 1" "d \<noteq> 2147483647" by (auto simp: is_prime_def)
  then obtain e where e: "2147483647 = d * e" by (elim dvdE)
  define f where "f = min d e"
  have f: "f dvd 2147483647" "1 < f" "f * f \<le> 2147483647"
  proof -
    show "f dvd 2147483647" unfolding e by (simp add: f_def min_def)
    have "d \<noteq> 0" "e \<noteq> 0" "e \<noteq> 1" using e d by (auto intro: gr0I)
    then show "1 < f" using d(2) by (auto simp: f_def)
    show "f * f \<le> 2147483647" unfolding e by (rule mult_le_mono) (simp_all add: f_def)
  qed
  obtain q where q: "is_prime q" "q dvd f" by (rule smallest_factor [OF f(2)])
  have dvd: "q dvd 2147483647" using q(2) f(1) by (rule dvd_trans)
  then have ff: "31 dvd q - 1" "odd q" using mersenne_factor [OF q(1)] by simp_all
  then obtain j where j: "q - 1 = 31 * j" by (elim dvdE)
  have "even (q - 1)" using ff(2) by simp
  then have "even j" unfolding j by simp
  then have "62 dvd q - 1" unfolding j by (elim evenE) simp
  then obtain k where "q - 1 = 62 * k" by (elim dvdE)
  moreover have "1 < q" using q(1) by (simp add: is_prime_def)
  ultimately have k: "q = 62 * k + 1" by linarith
  have "q \<le> f" using q(2) f(2) by (intro dvd_imp_le) simp_all
  have "\<not> 46341 \<le> f" using mult_le_mono [of 46341 f 46341 f] f(3) by auto
  then have "k < 748" "1 \<le> k" using \<open>q \<le> f\<close> k q(1) by (auto simp: is_prime_def intro: gr0I)
  then have "int k \<in> set [1..747]" by simp
  with no_small_factor [unfolded list_all_iff] have "2147483647 mod (62 * int k + 1) \<noteq> 0" by (rule bspec)
  then have "\<not> 62 * int k + 1 dvd 2147483647" unfolding dvd_eq_mod_eq_0 .
  moreover have "int q dvd int 2147483647" using dvd by (simp only: int_dvd_int_iff)
  ultimately show False by (simp add: k add.commute)
qed

text \<open>Below \<open>2 ^ 62\<close> no square wraps, and the loop on words is the one on natural numbers.\<close>

lemma odd_divisor_nat:
  assumes "n < 2 ^ 62" "d < 2 ^ 31 + 2"
  shows "odd_divisor (of_nat n) (of_nat d) = Some (of_nat (first_divisor n d)) \<and> first_divisor n d < 2 ^ 31 + 2"
  using assms
proof (induction n d rule: first_divisor.induct)
  case (1 n d)
  have "d * d \<le> (2 ^ 31 + 1) * (2 ^ 31 + 1)" using 1(3) by (intro mult_le_mono) simp_all
  then have u: "unat (of_nat n :: 64 word) = n" "unat (of_nat d :: 64 word) = d" "unat (of_nat d * of_nat d :: 64 word) = d * d"
    using 1(2,3) by (simp_all add: unat_word_ariths unat_of_nat)
  have test: "of_nat d * of_nat d \<le> (of_nat n :: 64 word) \<and> of_nat n mod of_nat d \<noteq> (0 :: 64 word) \<longleftrightarrow> d * d \<le> n \<and> n mod d \<noteq> 0"
    by (simp add: word_le_nat_alt u word_unat_eq_iff [of _ 0] unat_mod)
  show ?case
  proof (cases "d * d \<le> n \<and> n mod d \<noteq> 0")
    case True
    have "d < 2 ^ 31"
    proof (rule ccontr)
      assume "\<not> d < 2 ^ 31"
      then have "2 ^ 31 * 2 ^ 31 \<le> d * d" by (intro mult_le_mono) simp_all
      then show False using True 1(2) by simp
    qed
    then have "odd_divisor (of_nat n) (of_nat (d + 2)) = Some (of_nat (first_divisor n (d + 2))) \<and> first_divisor n (d + 2) < 2 ^ 31 + 2"
      using 1(2) by (intro "1.IH" [OF True]) simp_all
    then show ?thesis
      unfolding odd_divisor.simps [of "of_nat n" "of_nat d"] first_divisor.simps [of n d] test if_P [OF True] by (simp add: add.commute)
  next
    case False
    then show ?thesis
      using 1(3) unfolding odd_divisor.simps [of "of_nat n" "of_nat d"] first_divisor.simps [of n d] test if_not_P [OF False] by simp
  qed
qed

text \<open>The outer loop ends at the first prime.\<close>

lemma capacity_step:
  assumes "odd n" "3 < n" "n < 2 ^ 62"
  shows "capacity_loop (of_nat n) = (if is_prime n then Some (of_nat n) else capacity_loop (of_nat (n + 2)))"
proof -
  define d where "d = first_divisor n 3"
  have d: "odd_divisor (of_nat n) 3 = Some (of_nat d)" "d < 2 ^ 31 + 2"
    using odd_divisor_nat [OF assms(3), of 3] by (simp_all add: d_def)
  then have "d * d \<le> (2 ^ 31 + 1) * (2 ^ 31 + 1)" by (intro mult_le_mono) simp_all
  then have "of_nat n < (of_nat d * of_nat d :: 64 word) \<longleftrightarrow> n < d * d"
    using assms(3) d(2) by (simp add: word_less_nat_alt unat_word_ariths unat_of_nat)
  also have "\<dots> \<longleftrightarrow> is_prime n" unfolding d_def by (rule first_divisor_prime [OF assms(1,2)])
  finally show ?thesis using d(1) by (subst capacity_loop.simps) (simp add: add.commute)
qed

lemma capacity_loop_prime:
  assumes "odd n" "3 < n" "n \<le> 2147483647"
  shows "\<exists>p. capacity_loop (of_nat n) = Some (of_nat p) \<and> is_prime p \<and> n \<le> p \<and> p \<le> 2147483647 \<and>
    (\<forall>q. is_prime q \<and> n \<le> q \<longrightarrow> p \<le> q)"
  using assms
proof (induction "2147483647 - n" arbitrary: n rule: less_induct)
  case less
  show ?case
  proof (cases "is_prime n")
    case True
    then show ?thesis using capacity_step [of n] less(2-4) by auto
  next
    case False
    then have "n \<noteq> 2147483647" using mersenne_prime by auto
    then have n: "odd (n + 2)" "3 < n + 2" "n + 2 \<le> 2147483647" "2147483647 - (n + 2) < 2147483647 - n"
      using less(2-4) by (auto elim!: oddE)
    obtain p where p: "capacity_loop (of_nat (n + 2)) = Some (of_nat p)" "is_prime p" "n + 2 \<le> p" "p \<le> 2147483647"
      "\<forall>q. is_prime q \<and> n + 2 \<le> q \<longrightarrow> p \<le> q"
      using less(1) [OF n(4,1-3)] by blast
    have "p \<le> q" if q: "is_prime q" "n \<le> q" for q
    proof -
      have "odd q" using prime_odd [OF q(1)] q(2) less(3) by simp
      moreover have "q \<noteq> n" using q(1) False by blast
      ultimately have "n + 2 \<le> q" using q(2) less(2) by (auto elim!: oddE)
      then show ?thesis using p(5) q(1) by blast
    qed
    then show ?thesis using p(1-4) False capacity_step [of n] less(2-4) by auto
  qed
qed

text \<open>
  C40: The capacity of a dictionary is the smallest prime that is at least 5 and four thirds of the
  pairs and one, and both loops of the search end, for up to 1610612733 pairs: a document of more than 8 GB,
  at the five characters a pair takes. No sum, product or square wraps there.
\<close>

theorem sj_dict_capacity_is_prime:
  assumes "npairs < 3 * 2 ^ 29 - 2"
  shows "\<exists>p. sj_dict_capacity (of_nat npairs) = Some (of_nat p) \<and> p < 2 ^ 31 \<and> is_prime p \<and> max 5 ((npairs + 1) * 4 div 3) \<le> p
    \<and> (\<forall>q. is_prime q \<and> max 5 ((npairs + 1) * 4 div 3) \<le> q \<longrightarrow> p \<le> q)"
proof -
  define n where "n = (npairs + 1) * 4 div 3"
  have n: "n \<le> 2147483646" using assms by (simp add: n_def)
  have "unat ((of_nat npairs + 1) * 4 div 3 :: 64 word) = n"
    using assms by (simp add: unat_div unat_word_ariths unat_of_nat n_def)
  moreover have n_word: "unat (of_nat n :: 64 word) = n" using n by (simp add: unat_of_nat)
  ultimately have w: "(of_nat npairs + 1) * 4 div 3 = (of_nat n :: 64 word)" by (simp add: word_unat_eq_iff)
  have small: "of_nat n \<le> (5 :: 64 word) \<longleftrightarrow> n \<le> 5" using n by (simp add: word_le_nat_alt unat_of_nat)
  have odd_n: "of_nat n OR 1 = (of_nat (n OR 1) :: 64 word)" using of_nat_or_eq [of n 1, where 'a = "64 word"] by simp
  show ?thesis
  proof (cases "n \<le> 5")
    case True
    have "d = 1 \<or> d = 5" if "d dvd 5" for d :: nat
    proof -
      have "d \<le> 5" using that by (simp add: dvd_imp_le)
      then have "d = 0 \<or> d = 1 \<or> d = 2 \<or> d = 3 \<or> d = 4 \<or> d = 5" by linarith
      then show ?thesis using that by auto
    qed
    then have "is_prime 5" by (simp add: is_prime_def)
    then show ?thesis using True small unfolding sj_dict_capacity_def w n_def [symmetric] by (intro exI [of _ 5]) (simp add: Let_def)
  next
    case False
    have o: "n OR 1 = (if even n then n + 1 else n)" unfolding or_one_eq by auto
    then have m: "odd (n OR 1)" "3 < n OR 1" "n \<le> n OR 1" "n OR 1 \<le> 2147483647" using False n by (auto split: if_splits)
    obtain p where p: "capacity_loop (of_nat (n OR 1)) = Some (of_nat p)" "is_prime p" "n OR 1 \<le> p" "p \<le> 2147483647"
      "\<forall>q. is_prime q \<and> n OR 1 \<le> q \<longrightarrow> p \<le> q"
      using capacity_loop_prime [OF m(1,2,4)] by blast
    have "p \<le> q" if "is_prime q" "n \<le> q" for q
    proof -
      have "odd q" using prime_odd [OF that(1)] that(2) False by simp
      then have "n OR 1 \<le> q" using that(2) o by (metis Suc_eq_plus1 Suc_leI le_neq_implies_less)
      then show ?thesis using p(5) that(1) by blast
    qed
    moreover have "sj_dict_capacity (of_nat npairs) = Some (of_nat p)"
      unfolding sj_dict_capacity_def w Let_def odd_n using p(1) False small by simp
    ultimately show ?thesis using p(2-4) m(3) False unfolding n_def [symmetric] by (intro exI [of _ p]) auto
  qed
qed

lemma sj_dict_capacity_is_prime_witness:
  "\<exists>p. sj_dict_capacity 4 = Some (of_nat p) \<and> is_prime p \<and> 6 \<le> p \<and> p \<le> 7"
proof -
  have "is_prime 7"
    unfolding is_prime_def
  proof (intro conjI allI impI)
    fix d :: nat assume d: "d dvd 7"
    then have "d \<le> 7" by (simp add: dvd_imp_le)
    then have "d = 0 \<or> d = 1 \<or> d = 2 \<or> d = 3 \<or> d = 4 \<or> d = 5 \<or> d = 6 \<or> d = 7" by linarith
    then show "d = 1 \<or> d = 7" using d by auto
  qed simp
  then show ?thesis using sj_dict_capacity_is_prime [of 4] by auto
qed

text \<open>Beyond that the sizes wrap: of a table of \<open>2 ^ 62\<close> pairs less one the capacity would be 5.\<close>

lemma sj_dict_capacity_wraps: "sj_dict_capacity (2 ^ 62 - 1) = Some 5"
  by (simp add: sj_dict_capacity_def)

subsection \<open>The midpoint between two digit strings\<close>

definition decode_double :: "64 word \<Rightarrow> 64 word \<times> int" where
  "decode_double bits =
     (let m = bits AND 0xFFFFFFFFFFFFF;
          q = drop_bit 52 bits AND 0x7FF
      in if q \<noteq> 0 then (m OR push_bit 52 1, uint q - 1075) else (m, -1074))"

function strip_twos :: "64 word \<Rightarrow> int \<Rightarrow> 64 word \<times> int" where
  "strip_twos m q = (if m \<noteq> 0 \<and> m AND 1 = 0 then strip_twos (drop_bit 1 m) (q + 1) else (m, q))"
  by pat_completeness auto
termination
proof (relation "measure (\<lambda>(m, q). unat m)", simp)
  fix m :: "64 word" and q :: int assume "m \<noteq> 0 \<and> m AND 1 = 0"
  then have "0 < unat m" by (simp add: unat_gt_0)
  then have "unat m div 2 < unat m" by simp
  moreover have "unat (drop_bit 1 m) = unat m div 2" unfolding unat_drop_bit_eq by (simp add: drop_bit_eq_div)
  ultimately show "((drop_bit 1 m, q + 1), m, q) \<in> measure (\<lambda>(m, q). unat m)" by (simp del: drop_bit_eq_div)
qed

declare strip_twos.simps [simp del]

definition UINT64_MAX :: "64 word" where
  "UINT64_MAX = 0xFFFFFFFFFFFFFFFF"

primrec times_5 :: "nat \<Rightarrow> 64 word \<Rightarrow> 64 word option" where
  "times_5 0 x = Some x"
| "times_5 (Suc n) x = (if x > UINT64_MAX div 5 then None else times_5 n (x * 5))"

definition isMidpoint :: "64 word \<Rightarrow> 64 word \<Rightarrow> int \<Rightarrow> bool" where
  "isMidpoint v five t =
     (let (m, q) = decode_double v
      in if m = 0 then False
         else let (m, q) = strip_twos m q
           in if q \<noteq> t then False
              else case times_5 (nat \<bar>t\<bar>) (if t \<ge> 0 then five else m) of
                None \<Rightarrow> False
              | Some x \<Rightarrow> if t \<ge> 0 then x = m else x = five)"

lemma strip_twos_spec:
  "m \<noteq> 0 \<Longrightarrow> \<exists>k. unat m = unat (fst (strip_twos m q)) * 2 ^ k \<and> snd (strip_twos m q) = q + int k
     \<and> odd (unat (fst (strip_twos m q)))"
proof (induction m q rule: strip_twos.induct)
  case (1 m q)
  have "unat (m AND 1) = unat m mod 2" unfolding and_one_eq by (simp add: unat_mod_distrib)
  then have parity: "m AND 1 = 0 \<longleftrightarrow> even (unat m)" by (simp only: even_iff_mod_2_eq_zero flip: unat_eq_zero)
  show ?case
  proof (cases "m AND 1 = 0")
    case True
    then have e: "strip_twos m q = strip_twos (drop_bit 1 m) (q + 1)" using 1(2) by (subst strip_twos.simps) simp
    have h: "unat (drop_bit 1 m) = unat m div 2" unfolding unat_drop_bit_eq by (simp add: drop_bit_eq_div)
    have "0 < unat m" using 1(2) by (simp add: unat_gt_0)
    then have "unat m div 2 \<noteq> 0" using True parity by (auto elim: evenE)
    then have "drop_bit 1 m \<noteq> 0" using h by (metis unat_0)
    then obtain k where k: "unat m div 2 = unat (fst (strip_twos m q)) * 2 ^ k" "snd (strip_twos m q) = q + 1 + int k"
        "odd (unat (fst (strip_twos m q)))"
      using "1.IH" 1(2) True unfolding h e by blast
    have "unat m = 2 * (unat m div 2)" using True parity by simp
    then show ?thesis using k by (intro exI [of _ "Suc k"]) simp
  next
    case False
    then have "strip_twos m q = (m, q)" by (subst strip_twos.simps) simp
    then show ?thesis using False parity by (intro exI [of _ 0]) simp
  qed
qed

lemma times_5_spec:
  "case times_5 n x of None \<Rightarrow> 2 ^ 64 \<le> unat x * 5 ^ n | Some y \<Rightarrow> unat y = unat x * 5 ^ n"
proof (induction n arbitrary: x)
  case (Suc n)
  have u: "unat (UINT64_MAX div 5) = 3689348814741910323" by (simp add: UINT64_MAX_def unat_div_distrib)
  show ?case
  proof (cases "x > UINT64_MAX div 5")
    case True
    then have "3689348814741910324 \<le> unat x" using u by (simp add: word_less_nat_alt)
    then have "2 ^ 64 \<le> unat x * 5" by simp
    also have "\<dots> \<le> unat x * 5 * 5 ^ n" by simp
    finally show ?thesis using True by (simp add: mult.assoc)
  next
    case False
    then have "unat x \<le> 3689348814741910323" using u by (simp add: word_less_nat_alt)
    then have "unat (x * 5) = unat x * 5" by (simp add: unat_word_ariths)
    then show ?thesis using Suc.IH [of "x * 5"] False by (cases "times_5 n (x * 5)") (auto simp: ac_simps)
  qed
qed simp

lemma odd_times_power:
  fixes a b :: nat and i j :: int
  assumes "odd a" "odd b" "(of_nat a :: rat) * 2 powi i = of_nat b * 2 powi j"
  shows "i = j \<and> a = b"
proof -
  have half: "i = j \<and> a = b" if "odd a" "odd b" "(of_nat a :: rat) * 2 powi i = of_nat b * 2 powi j" "i \<le> j" for a b i j
  proof -
    have "(2 :: rat) powi j = 2 powi (j - i) * 2 powi i" by (simp flip: power_int_add)
    then have "(of_nat a :: rat) = of_nat b * 2 powi (j - i)" using that(3) by simp
    also have "\<dots> = of_nat (b * 2 ^ nat (j - i))" using that(4) by (simp add: power_int_def)
    finally have e: "a = b * 2 ^ nat (j - i)" by (simp only: of_nat_eq_iff)
    then have "nat (j - i) = 0" using that(1) by (cases "nat (j - i)") auto
    then show ?thesis using e that(4) by simp
  qed
  show ?thesis using half [OF assms] half [OF assms(2,1) assms(3) [symmetric]] by (cases "i \<le> j") auto
qed

text \<open>The magnitude of a finite double.\<close>

definition magnitude :: "64 word \<Rightarrow> rat" where
  "magnitude v = of_nat (unat (fst (decode_double v))) * 2 powi snd (decode_double v)"

text \<open>
  C39: The test for a midpoint is exact: it holds just when the double's magnitude is the odd number
  times the power of ten, though it only compares powers of 2 and odd parts, in 64 bits, and gives
  up on any product that would not fit.
\<close>

theorem isMidpoint_exact:
  assumes "odd (unat five)"
  shows "isMidpoint v five t \<longleftrightarrow> magnitude v = of_nat (unat five) * 10 powi t"
proof -
  obtain m q where mq: "decode_double v = (m, q)" by fastforce
  have f0: "0 < unat five" using assms by (cases "unat five") auto
  have v: "magnitude v = of_nat (unat m) * 2 powi q" by (simp add: magnitude_def mq)
  show ?thesis
  proof (cases "m = 0")
    case True
    moreover have "(of_nat (unat five) :: rat) * 10 powi t \<noteq> 0" using f0 by (metis mult_eq_0_iff of_nat_eq_0_iff less_numeral_extra(3) power_int_not_zero zero_neq_numeral)
    ultimately show ?thesis using v mq by (simp add: isMidpoint_def)
  next
    case False
    obtain m' q' where s: "strip_twos m q = (m', q')" by fastforce
    obtain k where k: "unat m = unat m' * 2 ^ k" "q' = q + int k" "odd (unat m')"
      using strip_twos_spec [OF False, of q] s by auto
    have v': "magnitude v = of_nat (unat m') * 2 powi q'"
      unfolding v k(1,2) by (simp add: power_int_add ac_simps)
    have ten: "(10 :: rat) powi t = 2 powi t * 5 powi t" using power_int_mult_distrib [of "2 :: rat" 5 t] by simp
    have m64: "unat m' < 2 ^ 64" "unat five < 2 ^ 64" using unat_lt [of m'] unat_lt [of five] by simp_all
    show ?thesis
    proof (cases "t \<ge> 0")
      case True
      then have five: "(5 :: rat) powi t = of_nat (5 ^ nat t)" by (simp add: power_int_def)
      have "magnitude v = of_nat (unat five) * 10 powi t
          \<longleftrightarrow> (of_nat (unat m') :: rat) * 2 powi q' = of_nat (unat five * 5 ^ nat t) * 2 powi t"
        unfolding v' ten five by (simp add: ac_simps)
      also have "\<dots> \<longleftrightarrow> q' = t \<and> unat m' = unat five * 5 ^ nat t"
      proof -
        have "odd (unat five * 5 ^ nat t)" using assms by simp
        from odd_times_power [OF k(3) this, of q' t] show ?thesis by metis
      qed
      also have "\<dots> \<longleftrightarrow> isMidpoint v five t"
        using times_5_spec [where n = "nat t" and x = five] True mq s False m64
        by (auto simp: isMidpoint_def word_unat_eq_iff split: option.splits)
      finally show ?thesis ..
    next
      case neg: False
      then have five: "(5 :: rat) powi t * of_nat (5 ^ nat (- t)) = 1"
        by (simp add: power_int_def flip: power_mult_distrib)
      have "magnitude v = of_nat (unat five) * 10 powi t
          \<longleftrightarrow> magnitude v * of_nat (5 ^ nat (- t)) = of_nat (unat five) * 10 powi t * of_nat (5 ^ nat (- t))"
        by simp
      also have "of_nat (unat five) * 10 powi t * of_nat (5 ^ nat (- t)) = (of_nat (unat five) :: rat) * 2 powi t"
        unfolding ten using five by (simp add: mult.assoc)
      also have "magnitude v * of_nat (5 ^ nat (- t)) = of_nat (unat m' * 5 ^ nat (- t)) * 2 powi q'"
        unfolding v' by (simp add: ac_simps)
      also have "of_nat (unat m' * 5 ^ nat (- t)) * 2 powi q' = (of_nat (unat five) :: rat) * 2 powi t
          \<longleftrightarrow> q' = t \<and> unat m' * 5 ^ nat (- t) = unat five"
      proof -
        have "odd (unat m' * 5 ^ nat (- t))" using k(3) by simp
        from odd_times_power [OF this assms, of q' t] show ?thesis by metis
      qed
      also have "\<dots> \<longleftrightarrow> isMidpoint v five t"
        using times_5_spec [where n = "nat (- t)" and x = m'] neg mq s False m64
        by (auto simp: isMidpoint_def word_unat_eq_iff abs_if split: option.splits)
      finally show ?thesis ..
    qed
  qed
qed

text \<open>The double \<open>2.5\<close>, between the digits 2 and 3.\<close>

lemma isMidpoint_exact_witness:
  "isMidpoint 0x4004000000000000 25 (-1) \<longleftrightarrow> magnitude 0x4004000000000000 = of_nat (unat (25 :: 64 word)) * 10 powi (-1)"
  by (rule isMidpoint_exact) simp

lemma two_and_a_half: "isMidpoint 0x4004000000000000 25 (-1)"
  by code_simp

end
