(* ===== verification/JsonTokens.thy ===== *)
theory JsonTokens
  imports ByteWords JsonScan
begin

text \<open>
  The numbers of a JSON text, \<open>sjText.c\<close>: \<open>sj_exponent_gate\<close> tells whether a text may hold a number
  with an exponent, and \<open>sj_number_tokens\<close> counts the numbers, sixteen and eight bytes at a time where
  there are neither quotes nor an \<open>e\<close>, and lists those with an exponent. The memory is the list \<open>s\<close> of
  the bytes that may be read, the text its first \<open>n\<close> bytes: a read behind the memory is the value
  \<open>None\<close>. The \<open>realloc\<close> of a number of bytes succeeds as \<open>alloc\<close> tells.
\<close>

type_synonym bytes = "8 word list"

definition isDigit :: "8 word \<Rightarrow> bool" where
  "isDigit c \<longleftrightarrow> 0x30 \<le> c \<and> c \<le> 0x39"

definition inNumber :: "8 word \<Rightarrow> bool" where
  "inNumber c \<longleftrightarrow> in_run c \<or> c = 0x2B \<or> c OR 0x20 = 0x65"

text \<open>\<open>memchr(s + i, c, n - i)\<close>, as an index of \<open>s\<close>.\<close>

definition memchr :: "bytes \<Rightarrow> nat \<Rightarrow> nat \<Rightarrow> 8 word \<Rightarrow> nat option" where
  "memchr s i n c = List.find (\<lambda>j. s ! j = c) [i..<n]"

subsection \<open>The gate\<close>

lemma memchr_Some: "memchr s i n c = Some q \<Longrightarrow> i \<le> q \<and> q < n \<and> s ! q = c \<and> (\<forall>j. i \<le> j \<and> j < q \<longrightarrow> s ! j \<noteq> c)"
proof -
  assume "memchr s i n c = Some q"
  then obtain k where k: "k < length [i..<n]" "s ! ([i..<n] ! k) = c" "q = [i..<n] ! k" "\<forall>j < k. s ! ([i..<n] ! j) \<noteq> c"
    unfolding memchr_def find_Some_iff by blast
  then have q: "q = i + k" "q < n" by simp_all
  have "s ! j \<noteq> c" if "i \<le> j" "j < q" for j
    using k(4) that q by (auto dest!: spec [of _ "j - i"])
  then show ?thesis using k(2,3) q by auto
qed

lemma memchr_None: "memchr s i n c = None \<Longrightarrow> i \<le> j \<Longrightarrow> j < n \<Longrightarrow> s ! j \<noteq> c"
  by (auto simp: memchr_def find_None_iff)

function gate_letter :: "bytes \<Rightarrow> nat \<Rightarrow> nat \<Rightarrow> 8 word \<Rightarrow> bool" where
  "gate_letter s p n c =
     (if p < n
      then case memchr s p n c of
             None \<Rightarrow> False
           | Some i \<Rightarrow>
               if i > 0 \<and> isDigit (s ! (i - 1)) \<and> i + 1 < n
                  \<and> (isDigit (s ! (i + 1)) \<or> s ! (i + 1) = 0x2B \<or> s ! (i + 1) = 0x2D)
               then True else gate_letter s (i + 1) n c
      else False)"
  by pat_completeness auto
termination
  by (relation "measure (\<lambda>(s, p, n, c). n - p)") (auto dest!: memchr_Some)

definition sj_exponent_gate :: "bytes \<Rightarrow> nat \<Rightarrow> bool" where
  "sj_exponent_gate s n \<longleftrightarrow> gate_letter s 0 n 0x65 \<or> gate_letter s 0 n 0x45"

subsection \<open>The scan\<close>

record sj_token =
  tok_ordinal :: "32 word"
  tok_offset :: "32 word"
  tok_length :: "32 word"

record scan =
  pos :: nat
  ordinal :: "64 word"
  before :: "64 word"
  tokens :: "sj_token list"
  tokens_cap :: nat

definition addToken :: "(nat \<Rightarrow> bool) \<Rightarrow> 64 word \<Rightarrow> nat \<Rightarrow> nat \<Rightarrow> scan \<Rightarrow> scan option" where
  "addToken alloc ord start stop st =
     (let newCap = if tokens_cap st \<noteq> 0 then 2 * tokens_cap st else 64;
          t = \<lparr>tok_ordinal = ucast ord, tok_offset = of_nat start, tok_length = of_nat (stop - start)\<rparr>
      in if length (tokens st) = tokens_cap st
         then if alloc (newCap * 12) then Some (st\<lparr>tokens := tokens st @ [t], tokens_cap := newCap\<rparr>) else None
         else Some (st\<lparr>tokens := tokens st @ [t]\<rparr>))"

text \<open>\<open>memcpy(&w, s + i, 8)\<close>\<close>

definition load8 :: "bytes \<Rightarrow> nat \<Rightarrow> 64 word" where
  "load8 s i = pack (take 8 (drop i s))"

text \<open>The loop over sixteen bytes at a time.\<close>

definition runs16_round :: "bytes \<Rightarrow> nat \<Rightarrow> scan \<Rightarrow> scan option" where
  "runs16_round s n st =
     (if pos st + 16 \<le> n
      then let w = load8 s (pos st); w2 = load8 s (pos st + 8);
               x = w XOR (ONES * ucast (0x22 :: 8 word)); y = (w OR ONES * 0x20) XOR (ONES * ucast (0x65 :: 8 word));
               x2 = w2 XOR (ONES * ucast (0x22 :: 8 word)); y2 = (w2 OR ONES * 0x20) XOR (ONES * ucast (0x65 :: 8 word))
           in if (zeroTest x OR zeroTest y OR zeroTest x2 OR zeroTest y2) AND HIGHS \<noteq> 0 then None
              else let run = numberBytes w; run2 = numberBytes w2
                   in Some (st\<lparr>ordinal := ordinal st + drop_bit 56 ((firstBytes run (before st) + firstBytes run2 (drop_bit 56 run)) * ONES),
                               before := drop_bit 56 run2, pos := pos st + 16\<rparr>)
      else None)"

lemma runs16_round_pos: "runs16_round s n st = Some st' \<Longrightarrow> pos st' = pos st + 16 \<and> pos st' \<le> n"
  by (auto simp: runs16_round_def Let_def split: if_splits)

function runs16 :: "bytes \<Rightarrow> nat \<Rightarrow> scan \<Rightarrow> scan" where
  "runs16 s n st = (case runs16_round s n st of None \<Rightarrow> st | Some st' \<Rightarrow> runs16 s n st')"
  by pat_completeness auto
termination by (relation "measure (\<lambda>(s, n, st). n - pos st)") (auto dest!: runs16_round_pos)

text \<open>The path for eight bytes, if it is taken.\<close>

definition runs8 :: "bytes \<Rightarrow> nat \<Rightarrow> scan \<Rightarrow> scan option" where
  "runs8 s n st =
     (if pos st + 8 \<le> n
      then let w = load8 s (pos st)
        in if (bytesEqual w 0x22 OR bytesEqual (w OR ONES * 0x20) 0x65) = 0
           then let run = numberBytes w
                in Some (st\<lparr>ordinal := ordinal st + drop_bit 56 (firstBytes run (before st) * ONES),
                            before := drop_bit 56 run, pos := pos st + 8\<rparr>)
           else None
      else None)"

text \<open>The bytes read one by one.\<close>

fun backslashes :: "bytes \<Rightarrow> nat \<Rightarrow> nat" where
  "backslashes s 0 = 0"
| "backslashes s (Suc k) = (if s ! k = 0x5C then Suc (backslashes s k) else 0)"

function string_close :: "bytes \<Rightarrow> nat \<Rightarrow> nat \<Rightarrow> nat option" where
  "string_close s n i =
     (case memchr s (i + 1) n 0x22 of
        None \<Rightarrow> None
      | Some q \<Rightarrow> if odd (backslashes s q) then string_close s n q else Some q)"
  by pat_completeness auto
termination by (relation "measure (\<lambda>(s, n, i). n - i)") (auto dest!: memchr_Some)

fun number_start :: "bytes \<Rightarrow> nat \<Rightarrow> nat" where
  "number_start s 0 = 0"
| "number_start s (Suc k) = (if inNumber (s ! k) then number_start s k else Suc k)"

function number_stop :: "bytes \<Rightarrow> nat \<Rightarrow> nat \<Rightarrow> nat" where
  "number_stop s i n = (if i < n \<and> inNumber (s ! i) then number_stop s (i + 1) n else i)"
  by pat_completeness auto
termination by (relation "measure (\<lambda>(s, i, n). n - i)") auto

datatype outcome = Go scan | Return int scan

definition one_byte :: "(nat \<Rightarrow> bool) \<Rightarrow> bytes \<Rightarrow> nat \<Rightarrow> scan \<Rightarrow> outcome option" where
  "one_byte alloc s n st =
     (let i = pos st
      in if i \<ge> length s then None
         else let c = s ! i
           in if c = 0x22
              then if i \<ge> n then None
                   else case string_close s n i of
                          None \<Rightarrow> Some (Return (sint (ordinal st)) st)
                        | Some q \<Rightarrow> Some (Go (st\<lparr>pos := q + 1, before := 0\<rparr>))
              else if c OR 0x20 = 0x65 \<and> i > 0 \<and> isDigit (s ! (i - 1))
              then let start = number_start s i; stop = number_stop s (i + 1) n
                in case addToken alloc (ordinal st - 1) start stop st of
                     None \<Rightarrow> Some (Return (-1) st)
                   | Some st' \<Rightarrow> Some (Go (st'\<lparr>pos := stop, before := 0x80\<rparr>))
              else let run = if in_run c then 0x80 else 0
                in Some (Go (st\<lparr>ordinal := ordinal st + of_bool (run \<noteq> 0 \<and> before st = 0), before := run, pos := i + 1\<rparr>)))"

definition scan_step :: "(nat \<Rightarrow> bool) \<Rightarrow> bytes \<Rightarrow> nat \<Rightarrow> scan \<Rightarrow> outcome option" where
  "scan_step alloc s n st =
     (let st = runs16 s n st
      in case runs8 s n st of Some st' \<Rightarrow> Some (Go st') | None \<Rightarrow> one_byte alloc s n st)"

declare runs16.simps [simp del] string_close.simps [simp del] number_stop.simps [simp del] gate_letter.simps [simp del]

lemma number_stop_le: "i \<le> number_stop s i n"
proof (induction s i n rule: number_stop.induct)
  case (1 s i n)
  then show ?case by (cases "i < n \<and> inNumber (s ! i)") (auto simp: number_stop.simps [of s i])
qed

lemma string_close_less: "string_close s n i = Some q \<Longrightarrow> i < q"
proof (induction s n i rule: string_close.induct)
  case (1 s n i)
  obtain m where m: "memchr s (i + 1) n 0x22 = Some m" using 1(2) by (subst (asm) string_close.simps) (auto split: option.splits)
  show ?case
  proof (cases "odd (backslashes s m)")
    case True
    then have "string_close s n m = Some q" using 1(2) m by (subst (asm) string_close.simps) simp
    then show ?thesis using "1.IH" [OF m True] memchr_Some [OF m] by simp
  next
    case False
    then have "q = m" using 1(2) m by (subst (asm) string_close.simps) simp
    then show ?thesis using memchr_Some [OF m] by simp
  qed
qed

lemma addToken_fields: "addToken alloc ord start stop st = Some st' \<Longrightarrow> ordinal st' = ordinal st \<and> pos st' = pos st"
  by (auto simp: addToken_def Let_def split: if_splits)

lemma one_byte_advances: "one_byte alloc s n st = Some (Go st') \<Longrightarrow> pos st < pos st'"
  using number_stop_le [of "pos st + 1" s n]
  by (auto simp: one_byte_def Let_def split: if_splits option.splits dest: string_close_less)

lemma runs16_pos: "pos st \<le> pos (runs16 s n st)"
proof (induction s n st rule: runs16.induct)
  case (1 s n st)
  show ?case
  proof (cases "runs16_round s n st")
    case None then show ?thesis by (subst runs16.simps) simp
  next
    case (Some st')
    then have "runs16 s n st = runs16 s n st'" by (subst runs16.simps) simp
    then show ?thesis using "1.IH" [OF Some] runs16_round_pos [OF Some] by simp
  qed
qed

lemma scan_step_advances: "scan_step alloc s n st = Some (Go st') \<Longrightarrow> pos st < pos st'"
  using runs16_pos [of st s n] one_byte_advances [of alloc s n "runs16 s n st" st']
  by (auto simp: scan_step_def runs8_def Let_def split: option.splits if_splits)

text \<open>The loop, with a step: the whole one, or the bytes alone, as it is compiled for other machines.\<close>

function scan_loop :: "(nat \<Rightarrow> bool) \<Rightarrow> bytes \<Rightarrow> nat \<Rightarrow> scan \<Rightarrow> (int \<times> scan) option" where
  "scan_loop alloc s n st =
     (if pos st < n
      then case scan_step alloc s n st of
             None \<Rightarrow> None
           | Some (Return r st') \<Rightarrow> Some (r, st')
           | Some (Go st') \<Rightarrow> scan_loop alloc s n st'
      else Some (sint (ordinal st), st))"
  by pat_completeness auto
termination
  by (relation "measure (\<lambda>(alloc, s, n, st). n - pos st)") (auto dest: scan_step_advances)

definition sj_number_tokens :: "(nat \<Rightarrow> bool) \<Rightarrow> bytes \<Rightarrow> nat \<Rightarrow> nat \<Rightarrow> (int \<times> scan) option" where
  "sj_number_tokens alloc s n cap =
     scan_loop alloc s n \<lparr>pos = 0, ordinal = 0, before = 0, tokens = [], tokens_cap = cap\<rparr>"

text \<open>The loop of the machines with the other byte order: every byte is read alone.\<close>

function byte_loop :: "(nat \<Rightarrow> bool) \<Rightarrow> bytes \<Rightarrow> nat \<Rightarrow> scan \<Rightarrow> (int \<times> scan) option" where
  "byte_loop alloc s n st =
     (if pos st < n
      then case one_byte alloc s n st of
             None \<Rightarrow> None
           | Some (Return r st') \<Rightarrow> Some (r, st')
           | Some (Go st') \<Rightarrow> byte_loop alloc s n st'
      else Some (sint (ordinal st), st))"
  by pat_completeness auto
termination
  by (relation "measure (\<lambda>(alloc, s, n, st). n - pos st)") (auto dest: one_byte_advances)

declare scan_loop.simps [simp del] byte_loop.simps [simp del]

subsection \<open>The bytes read at once are the bytes read one by one\<close>

definition mark :: "bool \<Rightarrow> 64 word" where
  "mark p = (if p then 0x80 else 0)"

fun feed :: "scan \<Rightarrow> bytes \<Rightarrow> scan" where
  "feed st [] = st"
| "feed st (b # bs) =
     feed (st\<lparr>ordinal := ordinal st + of_bool (in_run b \<and> before st = 0), before := mark (in_run b), pos := pos st + 1\<rparr>) bs"

lemma feed_append: "feed st (as @ bs) = feed (feed st as) bs"
  by (induction st as rule: feed.induct) simp_all

lemma feed_closed:
  "before st = mark p \<Longrightarrow> feed st bs = st\<lparr>ordinal := ordinal st + of_nat (count_list (run_starts p (map in_run bs)) True),
     before := mark (last (p # map in_run bs)), pos := pos st + length bs\<rparr>"
proof (induction bs arbitrary: st p)
  case (Cons b bs)
  have z: "before st = 0 \<longleftrightarrow> \<not> p" using Cons.prems by (simp add: mark_def)
  show ?case by (simp add: Cons.IH [where p = "in_run b"] z add.assoc)
qed simp

lemma pos_feed [simp]: "pos (feed st bs) = pos st + length bs"
  by (induction st bs rule: feed.induct) simp_all

lemma before_feed: "before st \<in> range mark \<Longrightarrow> before (feed st bs) \<in> range mark"
  by (induction st bs rule: feed.induct) simp_all

definition quiet :: "8 word \<Rightarrow> bool" where
  "quiet b \<longleftrightarrow> b \<noteq> 0x22 \<and> b OR 0x20 \<noteq> 0x65"

lemma numberBytes_marks: "length bs = 8 \<Longrightarrow> \<forall>b \<in> set bs. ascii b \<Longrightarrow> numberBytes (pack bs) = marks (map in_run bs)"
  by (simp add: numberBytes_pack marks_def comp_def)

lemma firstBytes_8:
  assumes "length bs = 8" "\<forall>b \<in> set bs. ascii b"
  shows "firstBytes (numberBytes (pack bs)) (mark p) = ones (run_starts p (map in_run bs))"
    "drop_bit 56 (numberBytes (pack bs)) = mark (last (p # map in_run bs))"
  using assms firstBytes_marks [of "map in_run bs" p] marks_last [of "map in_run bs"]
  by (simp_all add: numberBytes_marks mark_def last_map last_conv_nth) (auto simp: last_conv_nth)

lemma ones_none: "ones (replicate 8 False) = 0"
  by (simp add: ones_def replicate_8)

lemma run_starts_append: "run_starts p (as @ bs) = run_starts p as @ run_starts (last (p # as)) bs"
  by (induction p as rule: run_starts.induct) simp_all

lemma add_rounds:
  assumes "length as = 8" "length bs = 8" "\<forall>b \<in> set (as @ bs). ascii b" "before st = mark p"
  shows "st\<lparr>ordinal := ordinal st + drop_bit 56 ((firstBytes (numberBytes (pack as)) (before st)
             + firstBytes (numberBytes (pack bs)) (drop_bit 56 (numberBytes (pack as)))) * ONES),
           before := drop_bit 56 (numberBytes (pack bs)), pos := pos st + 16\<rparr> = feed st (as @ bs)"
proof -
  have a: "\<forall>b \<in> set as. ascii b" "\<forall>b \<in> set bs. ascii b" using assms(3) by auto
  let ?q = "last (p # map in_run as)"
  show ?thesis
    unfolding assms(4) firstBytes_8 [OF assms(1) a(1), where p = p] firstBytes_8(1) [OF assms(2) a(2), where p = ?q]
      firstBytes_8(2) [OF assms(2) a(2), where p = ?q]
    using assms(1,2) by (simp add: ones_sum feed_closed [OF assms(4)] run_starts_append)
qed

lemma add_round:
  assumes "length bs = 8" "\<forall>b \<in> set bs. ascii b" "before st = mark p"
  shows "st\<lparr>ordinal := ordinal st + drop_bit 56 (firstBytes (numberBytes (pack bs)) (before st) * ONES),
           before := drop_bit 56 (numberBytes (pack bs)), pos := pos st + 8\<rparr> = feed st bs"
  using ones_sum [of "run_starts p (map in_run bs)" "replicate 8 False"] assms(1)
  unfolding assms(3) firstBytes_8 [OF assms(1,2), where p = p]
  by (simp add: feed_closed [OF assms(3)] ones_none count_list_0_iff)

lemma load8_length: "i + 8 \<le> length s \<Longrightarrow> length (take 8 (drop i s)) = 8"
  by simp

lemma lower_e: "ONES * 0x20 = ONES * ucast (0x20 :: 8 word)"
  by simp

lemma zero_tests:
  assumes "i + 8 \<le> length s" "zeroBytes (load8 s i XOR (ONES * ucast (0x22 :: 8 word))) = 0"
    "zeroBytes ((load8 s i OR ONES * 0x20) XOR (ONES * ucast (0x65 :: 8 word))) = 0"
  shows "\<forall>b \<in> set (take 8 (drop i s)). quiet b"
proof -
  let ?bs = "take 8 (drop i s)"
  have l: "length ?bs = 8" using assms(1) by simp
  have "0x22 \<notin> set ?bs" using zeroBytes_sees [OF l, of "0x22"] assms(2) unfolding load8_def by blast
  moreover have "0x65 \<notin> set (map (\<lambda>b. b OR 0x20) ?bs)"
    using zeroBytes_sees [of "map (\<lambda>b. b OR 0x20) ?bs" "0x65"] l assms(3) unfolding load8_def lower_e or_ONES [OF l] by force
  ultimately show ?thesis by (force simp: quiet_def)
qed

text \<open>The text between the strings is ASCII, from an index on.\<close>

definition unquoted :: "bytes \<Rightarrow> nat \<Rightarrow> nat \<Rightarrow> bool" where
  "unquoted s i k \<longleftrightarrow> (\<forall>j. i \<le> j \<and> j < k \<longrightarrow> ascii (s ! j) \<and> s ! j \<noteq> 0x22)"

inductive clean :: "bytes \<Rightarrow> nat \<Rightarrow> nat \<Rightarrow> bool" for s n where
  clean_end: "unquoted s i n \<Longrightarrow> clean s n i"
| clean_string: "i \<le> q \<Longrightarrow> q < n \<Longrightarrow> unquoted s i q \<Longrightarrow> s ! q = 0x22 \<Longrightarrow> string_close s n q = Some e \<Longrightarrow>
     clean s n (e + 1) \<Longrightarrow> clean s n i"

lemma unquoted_from: "unquoted s i k \<Longrightarrow> i \<le> j \<Longrightarrow> unquoted s j k"
  by (simp add: unquoted_def)

lemma clean_unquoted:
  assumes "clean s n i" "k \<le> n" "\<forall>j. i \<le> j \<and> j < k \<longrightarrow> s ! j \<noteq> 0x22"
  shows "unquoted s i k"
  using assms(1)
proof cases
  case clean_end then show ?thesis using assms(2) by (auto simp: unquoted_def)
next
  case (clean_string q e)
  then have "k \<le> q" using assms(3) by (metis not_le)
  then show ?thesis using clean_string by (auto simp: unquoted_def)
qed

lemma clean_from:
  assumes "clean s n i" "i \<le> k" "k \<le> n" "\<forall>j. i \<le> j \<and> j < k \<longrightarrow> s ! j \<noteq> 0x22"
  shows "clean s n k"
  using assms(1)
proof cases
  case clean_end then show ?thesis using assms(2) by (metis unquoted_from clean.clean_end)
next
  case (clean_string q e)
  then have "k \<le> q" using assms(4) by (metis not_le)
  then show ?thesis using clean_string clean.clean_string [OF _ _ unquoted_from] assms(2) by blast
qed

lemma clean_behind: "n \<le> i \<Longrightarrow> clean s n i"
  by (rule clean_end) (auto simp: unquoted_def)

lemma clean_quote:
  assumes "clean s n i" "i < n" "s ! i = 0x22"
  obtains e where "string_close s n i = Some e" "clean s n (e + 1)"
  using assms(1)
proof cases
  case clean_end then show ?thesis using assms(2,3) by (auto simp: unquoted_def)
next
  case (clean_string q e)
  then have "q = i" using assms(3) by (cases "q = i") (auto simp: unquoted_def)
  then show ?thesis using clean_string that by blast
qed

lemma unquoted_join: "unquoted s i k \<Longrightarrow> unquoted s k m \<Longrightarrow> unquoted s i m"
  unfolding unquoted_def by (meson not_le)

lemma clean_prepend:
  assumes "clean s n k" "i \<le> k" "unquoted s i k"
  shows "clean s n i"
  using assms(1)
proof cases
  case clean_end then show ?thesis using clean.clean_end unquoted_join [OF assms(3)] by blast
next
  case (clean_string q e)
  then show ?thesis using clean.clean_string unquoted_join [OF assms(3)] assms(2) by (meson le_trans)
qed

text \<open>A round of sixteen bytes, or of eight, is as many single bytes.\<close>

lemma slice_unquoted: "unquoted s i (i + k) \<Longrightarrow> \<forall>b \<in> set (take k (drop i s)). ascii b"
  by (auto simp: unquoted_def in_set_conv_nth)

lemma runs16_round_feed:
  assumes "runs16_round s n st = Some st'" "n \<le> length s" "clean s n (pos st)" "before st \<in> range mark"
  shows "st' = feed st (take 16 (drop (pos st) s)) \<and> (\<forall>b \<in> set (take 16 (drop (pos st) s)). quiet b)"
proof -
  let ?i = "pos st"
  let ?as = "take 8 (drop ?i s)" and ?bs = "take 8 (drop (?i + 8) s)"
  have i: "?i + 16 \<le> n" "?i + 8 \<le> length s" "?i + 8 + 8 \<le> length s"
    using assms(1,2) by (auto simp: runs16_round_def split: if_splits)
  have app: "take 16 (drop ?i s) = ?as @ ?bs"
    using take_add [of 8 8 "drop ?i s"] by (simp add: add.commute)
  define x y x2 y2 where d: "x = load8 s ?i XOR (ONES * ucast (0x22 :: 8 word))" "y = (load8 s ?i OR ONES * 0x20) XOR (ONES * ucast (0x65 :: 8 word))"
    "x2 = load8 s (?i + 8) XOR (ONES * ucast (0x22 :: 8 word))" "y2 = (load8 s (?i + 8) OR ONES * 0x20) XOR (ONES * ucast (0x65 :: 8 word))"
  have t: "(zeroTest x OR zeroTest y OR zeroTest x2 OR zeroTest y2) AND HIGHS = 0"
    and st': "st' = st\<lparr>ordinal := ordinal st + drop_bit 56 ((firstBytes (numberBytes (load8 s ?i)) (before st)
             + firstBytes (numberBytes (load8 s (?i + 8))) (drop_bit 56 (numberBytes (load8 s ?i)))) * ONES),
           before := drop_bit 56 (numberBytes (load8 s (?i + 8))), pos := ?i + 16\<rparr>"
    using assms(1) i(1) unfolding runs16_round_def Let_def d by (auto split: if_splits)
  have "zeroBytes x = 0" "zeroBytes y = 0" "zeroBytes x2 = 0" "zeroBytes y2 = 0"
    using t unfolding zeroBytes_def bit.conj_disj_distrib2 or_eq_0_iff by auto
  then have q: "\<forall>b \<in> set (?as @ ?bs). quiet b"
    using zero_tests [OF i(2)] zero_tests [OF i(3)] unfolding d by auto
  have "s ! j \<noteq> 0x22" if "?i \<le> j" "j < ?i + 16" for j
  proof -
    have "(take 16 (drop ?i s)) ! (j - ?i) = s ! j" "j - ?i < length (take 16 (drop ?i s))" using that i by simp_all
    then have "quiet (s ! j)" using q unfolding app [symmetric] by (metis nth_mem)
    then show ?thesis by (simp add: quiet_def)
  qed
  then have "unquoted s ?i (?i + 16)" using clean_unquoted [OF assms(3) i(1)] by blast
  then have "\<forall>b \<in> set (?as @ ?bs). ascii b" using slice_unquoted [of s ?i 16] unfolding app by blast
  then have "st' = feed st (?as @ ?bs)"
    using add_rounds [of ?as ?bs st] assms(4) i unfolding st' load8_def by force
  then show ?thesis using q unfolding app by blast
qed

lemma first_noisy:
  assumes "clean s n i" "i + 8 \<le> n" "n \<le> length s"
    "(bytesEqual (load8 s i) 0x22 OR bytesEqual (load8 s i OR ONES * 0x20) 0x65) = 0"
  shows "\<forall>b \<in> set (take 8 (drop i s)). quiet b"
proof (rule ccontr)
  let ?bs = "take 8 (drop i s)"
  have l: "length ?bs = 8" using assms by simp
  assume "\<not> ?thesis"
  then have "\<exists>b \<in> set ?bs. \<not> quiet b" by blast
  then obtain f where f: "f < length ?bs" "\<not> quiet (?bs ! f)" "\<forall>b \<in> set (take f ?bs). \<not> \<not> quiet b" by (rule least_index)
  then have f8: "f < 8" using l by simp
  have q: "quiet (s ! j)" if "i \<le> j" "j < i + f" for j
  proof -
    have "take f ?bs ! (j - i) = s ! j" "j - i < length (take f ?bs)" using that f8 assms(2,3) by auto
    then show ?thesis using f(3) by (metis nth_mem)
  qed
  then have "unquoted s i (i + f)" using clean_unquoted [OF assms(1), of "i + f"] assms(2) f8 by (auto simp: quiet_def)
  then have a: "\<forall>b \<in> set (take f ?bs). ascii b"
    using slice_unquoted [of s i f] f8 by (simp add: min_def)
  have e: "bytesEqual (load8 s i) 0x22 = 0" "bytesEqual (load8 s i OR ONES * 0x20) 0x65 = 0"
    using assms(4) by (simp_all add: or_eq_0_iff)
  show False
  proof (cases "?bs ! f = 0x22")
    case True
    then show ?thesis using bytesEqual_sees [OF l f8 True _ a] e(1) by (simp add: load8_def ascii_def)
  next
    case False
    then have b: "?bs ! f OR 0x20 = 0x65" using f(2) by (simp add: quiet_def)
    let ?xs = "map (\<lambda>b. b OR 0x20) ?bs"
    have "ascii (b OR 0x20)" if "ascii b" for b
      using that bit_7 [of b] bit_7 [of "b OR 0x20"] bit_7 [of "0x20"] by (simp add: ascii_def bit_or_iff)
    then have "\<forall>b \<in> set (take f ?xs). ascii b" using a by (auto simp: take_map)
    moreover have "?xs ! f = 0x65" using b f(1) by simp
    ultimately have "bytesEqual (pack ?xs) 0x65 \<noteq> 0"
      using bytesEqual_sees [of ?xs f "0x65"] l f8 by (simp add: ascii_def)
    then show ?thesis using e(2) unfolding load8_def lower_e or_ONES [OF l] by simp
  qed
qed

lemma runs8_feed:
  assumes "runs8 s n st = Some st'" "n \<le> length s" "clean s n (pos st)" "before st \<in> range mark"
  shows "pos st + 8 \<le> n \<and> st' = feed st (take 8 (drop (pos st) s)) \<and> (\<forall>b \<in> set (take 8 (drop (pos st) s)). quiet b)"
proof -
  let ?i = "pos st" and ?bs = "take 8 (drop (pos st) s)"
  have i: "?i + 8 \<le> n" and t: "(bytesEqual (load8 s ?i) 0x22 OR bytesEqual (load8 s ?i OR ONES * 0x20) 0x65) = 0"
    and st': "st' = st\<lparr>ordinal := ordinal st + drop_bit 56 (firstBytes (numberBytes (load8 s ?i)) (before st) * ONES),
       before := drop_bit 56 (numberBytes (load8 s ?i)), pos := ?i + 8\<rparr>"
    using assms(1) by (auto simp: runs8_def Let_def split: if_splits)
  have q: "\<forall>b \<in> set ?bs. quiet b" by (rule first_noisy [OF assms(3) i assms(2) t])
  have "s ! j \<noteq> 0x22" if "?i \<le> j" "j < ?i + 8" for j
  proof -
    have "?bs ! (j - ?i) = s ! j" "j - ?i < length ?bs" using that i assms(2) by simp_all
    then have "quiet (s ! j)" using q by (metis nth_mem)
    then show ?thesis by (simp add: quiet_def)
  qed
  then have "unquoted s ?i (?i + 8)" using clean_unquoted [OF assms(3) i] by blast
  then have "\<forall>b \<in> set ?bs. ascii b" by (rule slice_unquoted)
  then have "st' = feed st ?bs" using add_round [of ?bs st] assms(2,4) i unfolding st' load8_def by force
  then show ?thesis using q i by blast
qed

text \<open>The bytes read one by one, where they are plain.\<close>

definition plain :: "bytes \<Rightarrow> nat \<Rightarrow> bool" where
  "plain s i \<longleftrightarrow> s ! i \<noteq> 0x22 \<and> \<not> (s ! i OR 0x20 = 0x65 \<and> i > 0 \<and> isDigit (s ! (i - 1)))"

lemma one_byte_plain:
  "pos st < length s \<Longrightarrow> plain s (pos st) \<Longrightarrow> one_byte alloc s n st = Some (Go (feed st [s ! pos st]))"
  by (auto simp: one_byte_def plain_def Let_def mark_def)

lemma byte_loop_feed:
  "pos st + k \<le> n \<Longrightarrow> n \<le> length s \<Longrightarrow> (\<And>j. pos st \<le> j \<Longrightarrow> j < pos st + k \<Longrightarrow> plain s j) \<Longrightarrow>
   byte_loop alloc s n st = byte_loop alloc s n (feed st (take k (drop (pos st) s)))"
proof (induction k arbitrary: st)
  case (Suc k)
  have i: "pos st < n" "pos st < length s" using Suc.prems by auto
  have "byte_loop alloc s n st = byte_loop alloc s n (feed st [s ! pos st])"
    using i one_byte_plain [OF i(2) Suc.prems(3)] by (subst byte_loop.simps) simp
  also have "\<dots> = byte_loop alloc s n (feed (feed st [s ! pos st]) (take k (drop (pos (feed st [s ! pos st])) s)))"
    using Suc.prems by (intro Suc.IH) auto
  also have "feed (feed st [s ! pos st]) (take k (drop (pos (feed st [s ! pos st])) s)) = feed st (take (Suc k) (drop (pos st) s))"
    using i by (simp add: Cons_nth_drop_Suc [symmetric])
  finally show ?case .
qed simp

lemma quiet_plain: "quiet (s ! i) \<Longrightarrow> plain s i"
  by (simp add: quiet_def plain_def)

lemma byte_loop_quiet:
  assumes "pos st + k \<le> n" "n \<le> length s" "\<forall>b \<in> set (take k (drop (pos st) s)). quiet b"
  shows "byte_loop alloc s n st = byte_loop alloc s n (feed st (take k (drop (pos st) s)))"
proof (rule byte_loop_feed [OF assms(1,2)])
  fix j assume j: "pos st \<le> j" "j < pos st + k"
  have "take k (drop (pos st) s) ! (j - pos st) = s ! j" "j - pos st < length (take k (drop (pos st) s))"
    using j assms(1,2) by simp_all
  then show "plain s j" using assms(3) by (metis nth_mem quiet_plain)
qed

lemma clean_feed:
  assumes "clean s n (pos st)" "pos st + k \<le> n" "n \<le> length s" "\<forall>b \<in> set (take k (drop (pos st) s)). quiet b"
  shows "clean s n (pos (feed st (take k (drop (pos st) s))))"
proof -
  have "s ! j \<noteq> 0x22" if "pos st \<le> j" "j < pos st + k" for j
  proof -
    have "take k (drop (pos st) s) ! (j - pos st) = s ! j" "j - pos st < length (take k (drop (pos st) s))"
      using that assms(2,3) by simp_all
    then show ?thesis using assms(4) by (metis nth_mem quiet_def)
  qed
  then show ?thesis using clean_from [OF assms(1), of "pos st + k"] assms(2,3) by simp
qed

lemma runs16_rounds:
  "n \<le> length s \<Longrightarrow> clean s n (pos st) \<Longrightarrow> before st \<in> range mark \<Longrightarrow> pos st \<le> n \<Longrightarrow>
   byte_loop alloc s n st = byte_loop alloc s n (runs16 s n st) \<and> clean s n (pos (runs16 s n st))
     \<and> before (runs16 s n st) \<in> range mark \<and> pos (runs16 s n st) \<le> n"
proof (induction s n st rule: runs16.induct)
  case (1 s n st)
  show ?case
  proof (cases "runs16_round s n st")
    case None then show ?thesis using 1(3-5) by (subst (1 2 3 4) runs16.simps) simp
  next
    case (Some st')
    have f: "st' = feed st (take 16 (drop (pos st) s))" "\<forall>b \<in> set (take 16 (drop (pos st) s)). quiet b" "pos st + 16 \<le> n"
      using runs16_round_feed [OF Some 1(2-4)] runs16_round_pos [OF Some] by auto
    have "byte_loop alloc s n st' = byte_loop alloc s n (runs16 s n st') \<and> clean s n (pos (runs16 s n st'))
        \<and> before (runs16 s n st') \<in> range mark \<and> pos (runs16 s n st') \<le> n"
      by (rule "1.IH" [OF Some])
        (use f clean_feed [OF 1(3) f(3) 1(2) f(2)] before_feed [OF 1(4)] 1(2) in auto)
    moreover have "byte_loop alloc s n st = byte_loop alloc s n st'"
      unfolding f(1) by (rule byte_loop_quiet [OF f(3) 1(2) f(2)])
    moreover have "runs16 s n st = runs16 s n st'" using Some by (subst runs16.simps) simp
    ultimately show ?thesis by simp
  qed
qed

lemma number_stop_unquoted: "\<lbrakk>i \<le> j; j < number_stop s i n\<rbrakk> \<Longrightarrow> s ! j \<noteq> 0x22"
proof (induction s i n rule: number_stop.induct)
  case (1 s i n)
  then have i: "i < n" "inNumber (s ! i)" by (auto simp: number_stop.simps [of s i] split: if_splits)
  have "\<not> inNumber 0x22" by (simp add: inNumber_def in_run_unat)
  then have "j = i \<Longrightarrow> s ! j \<noteq> 0x22" using i(2) by metis
  moreover have "i + 1 \<le> j \<Longrightarrow> s ! j \<noteq> 0x22"
    using 1 i by (auto simp: number_stop.simps [of s i])
  ultimately show ?case using 1(2) by linarith
qed

lemma number_stop_bound: "i \<le> n \<Longrightarrow> number_stop s i n \<le> n"
proof (induction s i n rule: number_stop.induct)
  case (1 s i n)
  then show ?case by (cases "i < n \<and> inNumber (s ! i)") (auto simp: number_stop.simps [of s i])
qed

lemma one_byte_clean:
  assumes "one_byte alloc s n st = Some (Go st')" "clean s n (pos st)" "pos st < n"
  shows "clean s n (pos st') \<and> before st' \<in> range mark"
proof -
  let ?i = "pos st"
  have m: "0x80 \<in> range mark" "0 \<in> range mark" by (auto simp: mark_def)
  consider (Quote) "s ! ?i = 0x22" | (Exponent) "s ! ?i \<noteq> 0x22" "s ! ?i OR 0x20 = 0x65 \<and> ?i > 0 \<and> isDigit (s ! (?i - 1))"
    | (Plain) "plain s ?i" unfolding plain_def by blast
  then show ?thesis
  proof cases
    case Quote
    obtain e where "string_close s n ?i = Some e" "clean s n (e + 1)" using clean_quote [OF assms(2,3) Quote] .
    then show ?thesis using assms(1,3) Quote m by (auto simp: one_byte_def Let_def split: if_splits)
  next
    case Exponent
    then obtain st1 where st1: "addToken alloc (ordinal st - 1) (number_start s ?i) (number_stop s (?i + 1) n) st = Some st1"
        "st' = st1\<lparr>pos := number_stop s (?i + 1) n, before := 0x80\<rparr>"
      using assms(1) by (auto simp: one_byte_def Let_def split: if_splits option.splits)
    have "s ! j \<noteq> 0x22" if "?i \<le> j" "j < number_stop s (?i + 1) n" for j
      using number_stop_unquoted [of "?i + 1" j s n] that Exponent(1) by (cases "j = ?i") auto
    then have "clean s n (number_stop s (?i + 1) n)"
      using clean_from [OF assms(2)] number_stop_le [of "?i + 1" s n] number_stop_bound [of "?i + 1" n s] assms(3) by simp
    then show ?thesis using st1 m by simp
  next
    case Plain
    have "?i < length s" using assms(1) by (auto simp: one_byte_def Let_def split: if_splits)
    then have "st' = feed st [s ! ?i]" using one_byte_plain [OF _ Plain, of alloc n] assms(1) by simp
    moreover have "clean s n (?i + 1)" using clean_from [OF assms(2), of "?i + 1"] assms(3) Plain by (auto simp: plain_def le_Suc_eq less_Suc_eq_le dest: antisym)
    ultimately show ?thesis by simp
  qed
qed

text \<open>
  The fast paths change nothing: on a text whose bytes outside the strings are ASCII, followed by a
  blank, the answer and the tokens are those of the machines that read every byte alone.
\<close>

definition view :: "int \<times> scan \<Rightarrow> int \<times> sj_token list \<times> nat" where
  "view = (\<lambda>(r, st). (r, tokens st, tokens_cap st))"

lemma scan_loop_reads_bytes:
  "n < length s \<Longrightarrow> s ! n = 0x20 \<Longrightarrow> clean s n (pos st) \<Longrightarrow> before st \<in> range mark \<Longrightarrow>
   map_option view (scan_loop alloc s n st) = map_option view (byte_loop alloc s n st)"
proof (induction alloc s n st rule: scan_loop.induct)
  case (1 alloc s n st)
  show ?case
  proof (cases "pos st < n")
    case False
    then show ?thesis by (simp add: scan_loop.simps [of _ _ _ st] byte_loop.simps [of _ _ _ st])
  next
    case True
    define st1 where "st1 = runs16 s n st"
    have st1: "byte_loop alloc s n st = byte_loop alloc s n st1" "clean s n (pos st1)" "before st1 \<in> range mark" "pos st1 \<le> n"
      using runs16_rounds [of n s st alloc] 1 True unfolding st1_def by auto
    have loop: "scan_loop alloc s n st = (case scan_step alloc s n st of None \<Rightarrow> None | Some (Return r st') \<Rightarrow> Some (r, st')
        | Some (Go st') \<Rightarrow> scan_loop alloc s n st')"
      using True by (subst scan_loop.simps) simp
    show ?thesis
    proof (cases "runs8 s n st1")
      case (Some st2)
      then have step: "scan_step alloc s n st = Some (Go st2)" by (simp add: scan_step_def st1_def)
      have f: "pos st1 + 8 \<le> n" "st2 = feed st1 (take 8 (drop (pos st1) s))" "\<forall>b \<in> set (take 8 (drop (pos st1) s)). quiet b"
        using runs8_feed [OF Some _ st1(2,3)] 1(2) by auto
      have "byte_loop alloc s n st1 = byte_loop alloc s n st2"
        unfolding f(2) by (rule byte_loop_quiet [OF f(1) _ f(3)]) (use 1(2) in simp)
      moreover have "map_option view (scan_loop alloc s n st2) = map_option view (byte_loop alloc s n st2)"
        by (rule "1.IH" [OF True step refl])
          (use f clean_feed [OF st1(2) f(1) _ f(3)] before_feed [OF st1(3)] 1(2,3) in auto)
      ultimately show ?thesis unfolding loop step st1(1) by simp
    next
      case None
      then have step: "scan_step alloc s n st = one_byte alloc s n st1" by (simp add: scan_step_def st1_def)
      show ?thesis
      proof (cases "pos st1 < n")
        case False
        then have i: "pos st1 = n" using st1(4) by simp
        have "plain s n" using 1(3) by (simp add: plain_def)
        then have "scan_step alloc s n st = Some (Go (feed st1 [0x20]))"
          unfolding step using one_byte_plain [of st1 s alloc n] 1(2,3) i by simp
        moreover have "scan_loop alloc s n (feed st1 [0x20]) = Some (sint (ordinal (feed st1 [0x20])), feed st1 [0x20])"
          using i by (subst scan_loop.simps) simp
        ultimately have "scan_loop alloc s n st = Some (sint (ordinal (feed st1 [0x20])), feed st1 [0x20])"
          unfolding loop by simp
        moreover have "byte_loop alloc s n st1 = Some (sint (ordinal st1), st1)" using i by (subst byte_loop.simps) simp
        ultimately show ?thesis unfolding st1(1) by (simp add: view_def in_run_unat)
      next
        case lt: True
        have b: "byte_loop alloc s n st1 = (case one_byte alloc s n st1 of None \<Rightarrow> None | Some (Return r st') \<Rightarrow> Some (r, st')
            | Some (Go st') \<Rightarrow> byte_loop alloc s n st')"
          using lt by (subst byte_loop.simps) simp
        show ?thesis
        proof (cases "one_byte alloc s n st1")
          case None then show ?thesis unfolding loop step st1(1) b by simp
        next
          case (Some out)
          show ?thesis
          proof (cases out)
            case (Return r st') then show ?thesis unfolding loop step st1(1) b Some by simp
          next
            case (Go st')
            then have o: "one_byte alloc s n st1 = Some (Go st')" using Some by simp
            have "map_option view (scan_loop alloc s n st') = map_option view (byte_loop alloc s n st')"
              using "1.IH" [OF True step [unfolded o] refl] one_byte_clean [OF o st1(2) lt] 1(2,3) by simp
            then show ?thesis unfolding loop step st1(1) b o by simp
          qed
        qed
      qed
    qed
  qed
qed

end
