(* ===== verification/JsonNumbers.thy ===== *)
theory JsonNumbers
  imports JsonTokens
begin

text \<open>
  The numbers a JSON text has, by its grammar, and that \<open>sj_number_tokens\<close> and \<open>sj_exponent_gate\<close> of
  \<open>sjText.c\<close> find them. A text is a sequence of lexemes: numbers, literals, strings, and single bytes,
  the white space and the punctuation.
\<close>

datatype lexeme = Num bytes bytes | Lit bytes | Str bytes | Sep "8 word"

fun text_of :: "lexeme \<Rightarrow> bytes" where
  "text_of (Num m x) = m @ x"
| "text_of (Lit cs) = cs"
| "text_of (Str cs) = 0x22 # cs @ [0x22]"
| "text_of (Sep c) = [c]"

definition text_all :: "lexeme list \<Rightarrow> bytes" where
  "text_all ls = concat (map text_of ls)"

lemma text_all_simps [simp]: "text_all [] = []" "text_all (l # ls) = text_of l @ text_all ls"
  by (simp_all add: text_all_def)

subsection \<open>The grammar\<close>

definition digits :: "bytes \<Rightarrow> bool" where
  "digits ds \<longleftrightarrow> ds \<noteq> [] \<and> (\<forall>d \<in> set ds. isDigit d)"

text \<open>A sign, digits and a fraction; and the exponent.\<close>

definition is_mantissa :: "bytes \<Rightarrow> bool" where
  "is_mantissa m \<longleftrightarrow> (\<exists>sg ds fr. m = sg @ ds @ fr \<and> (sg = [] \<or> sg = [0x2D]) \<and> digits ds
     \<and> (fr = [] \<or> (\<exists>fs. fr = 0x2E # fs \<and> digits fs)))"

definition is_exponent :: "bytes \<Rightarrow> bool" where
  "is_exponent x \<longleftrightarrow> (\<exists>e sg ds. x = e # sg @ ds \<and> (e = 0x65 \<or> e = 0x45) \<and> (sg = [] \<or> sg = [0x2B] \<or> sg = [0x2D]) \<and> digits ds)"

fun is_lexeme :: "lexeme \<Rightarrow> bool" where
  "is_lexeme (Num m x) \<longleftrightarrow> is_mantissa m \<and> (x = [] \<or> is_exponent x)"
| "is_lexeme (Lit cs) \<longleftrightarrow> cs = [0x74, 0x72, 0x75, 0x65] \<or> cs = [0x66, 0x61, 0x6C, 0x73, 0x65] \<or> cs = [0x6E, 0x75, 0x6C, 0x6C]"
| "is_lexeme (Str cs) \<longleftrightarrow> string_body cs"
| "is_lexeme (Sep c) \<longleftrightarrow> c \<in> {0x20, 0x09, 0x0A, 0x0D, 0x2C, 0x3A, 0x5B, 0x5D, 0x7B, 0x7D}"

definition blanks :: "lexeme list \<Rightarrow> bool" where
  "blanks ls \<longleftrightarrow> (\<forall>l \<in> set ls. l \<in> {Sep 0x20, Sep 0x09, Sep 0x0A, Sep 0x0D})"

inductive jvalue :: "lexeme list \<Rightarrow> bool" and jitems :: "lexeme list \<Rightarrow> bool" and jmembers :: "lexeme list \<Rightarrow> bool" where
  jnumber: "is_lexeme (Num m x) \<Longrightarrow> jvalue [Num m x]"
| jliteral: "is_lexeme (Lit cs) \<Longrightarrow> jvalue [Lit cs]"
| jstring: "is_lexeme (Str cs) \<Longrightarrow> jvalue [Str cs]"
| jarray0: "blanks ws \<Longrightarrow> jvalue (Sep 0x5B # ws @ [Sep 0x5D])"
| jarray: "jitems xs \<Longrightarrow> jvalue (Sep 0x5B # xs @ [Sep 0x5D])"
| jobject0: "blanks ws \<Longrightarrow> jvalue (Sep 0x7B # ws @ [Sep 0x7D])"
| jobject: "jmembers xs \<Longrightarrow> jvalue (Sep 0x7B # xs @ [Sep 0x7D])"
| jitem: "blanks w1 \<Longrightarrow> jvalue v \<Longrightarrow> blanks w2 \<Longrightarrow> jitems (w1 @ v @ w2)"
| jitem_more: "blanks w1 \<Longrightarrow> jvalue v \<Longrightarrow> blanks w2 \<Longrightarrow> jitems xs \<Longrightarrow> jitems (w1 @ v @ w2 @ Sep 0x2C # xs)"
| jmember: "blanks w1 \<Longrightarrow> is_lexeme (Str k) \<Longrightarrow> blanks w2 \<Longrightarrow> blanks w3 \<Longrightarrow> jvalue v \<Longrightarrow> blanks w4 \<Longrightarrow>
     jmembers (w1 @ Str k # w2 @ Sep 0x3A # w3 @ v @ w4)"
| jmember_more: "blanks w1 \<Longrightarrow> is_lexeme (Str k) \<Longrightarrow> blanks w2 \<Longrightarrow> blanks w3 \<Longrightarrow> jvalue v \<Longrightarrow> blanks w4 \<Longrightarrow> jmembers xs \<Longrightarrow>
     jmembers (w1 @ Str k # w2 @ Sep 0x3A # w3 @ v @ w4 @ Sep 0x2C # xs)"

definition json_text :: "lexeme list \<Rightarrow> bool" where
  "json_text ls \<longleftrightarrow> (\<exists>w1 v w2. ls = w1 @ v @ w2 \<and> blanks w1 \<and> jvalue v \<and> blanks w2)"

text \<open>No two of the lexemes without delimiters stand side by side.\<close>

fun atom :: "lexeme \<Rightarrow> bool" where
  "atom (Num m x) \<longleftrightarrow> True"
| "atom (Lit cs) \<longleftrightarrow> True"
| "atom l \<longleftrightarrow> False"

fun separated :: "lexeme list \<Rightarrow> bool" where
  "separated (a # b # ls) \<longleftrightarrow> \<not> (atom a \<and> atom b) \<and> separated (b # ls)"
| "separated ls \<longleftrightarrow> True"

lemma separated_Cons: "separated (l # ls) \<longleftrightarrow> separated ls \<and> \<not> (atom l \<and> ls \<noteq> [] \<and> atom (hd ls))"
  by (cases ls) auto

lemma separated_at: "\<not> atom l \<Longrightarrow> separated (xs @ l # ys) \<longleftrightarrow> separated xs \<and> separated ys"
  by (induction xs) (auto simp: separated_Cons hd_append)

lemma blanks_Cons: "blanks (l # ls) \<Longrightarrow> \<not> atom l \<and> is_lexeme l \<and> blanks ls"
  by (auto simp: blanks_def)

lemma separated_blanks: "blanks ws \<Longrightarrow> separated (ws @ ls) \<longleftrightarrow> separated ls"
  by (induction ws) (auto simp: separated_Cons dest!: blanks_Cons)

lemma separated_blanks': "blanks ws \<Longrightarrow> separated (ls @ ws) \<longleftrightarrow> separated ls"
proof (induction ws arbitrary: ls)
  case (Cons w ws)
  then show ?case using separated_at [of w ls ws] separated_blanks [of ws "[]"] by (auto dest!: blanks_Cons)
qed simp

definition lexed :: "lexeme list \<Rightarrow> bool" where
  "lexed ls \<longleftrightarrow> separated ls \<and> (\<forall>l \<in> set ls. is_lexeme l)"

lemma blanks_lexemes: "blanks ws \<Longrightarrow> \<forall>l \<in> set ws. is_lexeme l"
  by (auto simp: blanks_def)

lemma lexed_at: "\<not> atom l \<Longrightarrow> lexed (xs @ l # ys) \<longleftrightarrow> lexed xs \<and> is_lexeme l \<and> lexed ys"
  by (auto simp: lexed_def separated_at)

lemma lexed_blanks: "blanks ws \<Longrightarrow> lexed (ws @ ls) \<longleftrightarrow> lexed ls" "blanks ws \<Longrightarrow> lexed (ls @ ws) \<longleftrightarrow> lexed ls" "blanks ws \<Longrightarrow> lexed ws"
  using blanks_lexemes [of ws] separated_blanks [of ws "[]"] by (auto simp: lexed_def separated_blanks separated_blanks')

lemma lexed_Nil [simp]: "lexed []" by (simp add: lexed_def)

lemma json_lexed: "jvalue ls \<Longrightarrow> lexed ls" "jitems ls \<Longrightarrow> lexed ls" "jmembers ls \<Longrightarrow> lexed ls"
proof (induction ls and ls and ls rule: jvalue_jitems_jmembers.inducts)
  case (jarray0 ws)
  then show ?case using lexed_at [of "Sep 0x5B" "[]"] lexed_at [of "Sep 0x5D" ws "[]"] by (simp add: lexed_blanks)
next
  case (jarray xs)
  then show ?case using lexed_at [of "Sep 0x5B" "[]"] lexed_at [of "Sep 0x5D" xs "[]"] by simp
next
  case (jobject0 ws)
  then show ?case using lexed_at [of "Sep 0x7B" "[]"] lexed_at [of "Sep 0x7D" ws "[]"] by (simp add: lexed_blanks)
next
  case (jobject xs)
  then show ?case using lexed_at [of "Sep 0x7B" "[]"] lexed_at [of "Sep 0x7D" xs "[]"] by simp
next
  case (jitem w1 v w2)
  then show ?case by (simp add: lexed_blanks)
next
  case (jitem_more w1 v w2 xs)
  then show ?case using lexed_at [of "Sep 0x2C" "v @ w2" xs] by (simp add: lexed_blanks)
next
  case (jmember w1 k w2 w3 v w4)
  then show ?case using lexed_at [of "Str k" "[]"] lexed_at [of "Sep 0x3A" w2 "w3 @ v @ w4"] by (simp add: lexed_blanks)
next
  case (jmember_more w1 k w2 w3 v w4 xs)
  then show ?case
    using lexed_at [of "Str k" "[]"] lexed_at [of "Sep 0x3A" w2 "w3 @ v @ w4 @ Sep 0x2C # xs"] lexed_at [of "Sep 0x2C" "v @ w4" xs]
    by (simp add: lexed_blanks)
qed (simp_all add: lexed_def)

lemma text_lexed: "json_text ls \<Longrightarrow> lexed ls"
  by (auto simp: json_text_def lexed_blanks json_lexed)

subsection \<open>What is to be found\<close>

fun numbers :: "lexeme list \<Rightarrow> nat" where
  "numbers [] = 0"
| "numbers (Num m x # ls) = numbers ls + 1"
| "numbers (_ # ls) = numbers ls"

text \<open>The numbers with an exponent: how many numbers are in front, the offset and the length.\<close>

fun exponent_tokens :: "nat \<Rightarrow> nat \<Rightarrow> lexeme list \<Rightarrow> (nat \<times> nat \<times> nat) list" where
  "exponent_tokens k i [] = []"
| "exponent_tokens k i (Num m x # ls) =
     (if x = [] then [] else [(k, i, length (m @ x))]) @ exponent_tokens (k + 1) (i + length (m @ x)) ls"
| "exponent_tokens k i (l # ls) = exponent_tokens k (i + length (text_of l)) ls"

definition token_of :: "nat \<times> nat \<times> nat \<Rightarrow> sj_token" where
  "token_of = (\<lambda>(k, i, l). \<lparr>tok_ordinal = of_nat k, tok_offset = of_nat i, tok_length = of_nat l\<rparr>)"

subsection \<open>The bytes of the lexemes\<close>

lemma and_power: "b AND 2 ^ n = (if bit b n then 2 ^ n else (0 :: 'a::len word))"
  by (rule bit_eqI) (auto simp: bit_and_iff bit_exp_iff)

lemma e_cases: "b OR 0x20 = (0x65 :: 8 word) \<longleftrightarrow> b = 0x45 \<or> b = 0x65"
proof
  assume e: "b OR 0x20 = 0x65"
  have "(b OR 0x20) AND NOT 0x20 = b AND NOT 0x20" by (rule bit_eqI) (auto simp: bit_simps)
  then have low: "b AND NOT 0x20 = 0x45" unfolding e by simp
  have "(b AND NOT 0x20) OR (b AND 0x20) = b" by (rule bit_eqI) (auto simp: bit_simps)
  moreover have "b AND 0x20 = 0 \<or> b AND 0x20 = 0x20" using and_power [of b 5] by (auto split: if_splits)
  ultimately show "b = 0x45 \<or> b = 0x65" unfolding low by auto
qed auto

lemma in_run_quiet: "in_run b \<Longrightarrow> quiet b"
  by (auto simp: quiet_def e_cases in_run_unat)

lemma isDigit_in_run: "isDigit b \<Longrightarrow> in_run b"
  by (simp add: isDigit_def in_run_unat word_le_nat_alt)

lemma mantissa_bytes:
  assumes "is_mantissa m" shows "m \<noteq> []" "\<forall>b \<in> set m. in_run b" "isDigit (last m)"
proof -
  obtain sg ds fr where m: "m = sg @ ds @ fr" "sg = [] \<or> sg = [0x2D]" "digits ds" "fr = [] \<or> (\<exists>fs. fr = 0x2E # fs \<and> digits fs)"
    using assms by (auto simp: is_mantissa_def)
  have "in_run 0x2D" "in_run 0x2E" by (simp_all add: in_run_unat)
  then show "\<forall>b \<in> set m. in_run b" using m by (auto simp: digits_def isDigit_in_run)
  show "m \<noteq> []" using m by (auto simp: digits_def)
  show "isDigit (last m)" using m by (auto simp: digits_def)
qed

lemma exponent_bytes:
  assumes "is_exponent x" obtains e y where "x = e # y" "e = 0x65 \<or> e = 0x45" "\<forall>b \<in> set y. inNumber b"
proof -
  obtain e sg ds where x: "x = e # sg @ ds" "e = 0x65 \<or> e = 0x45" "sg = [] \<or> sg = [0x2B] \<or> sg = [0x2D]" "digits ds"
    using assms by (auto simp: is_exponent_def)
  have "inNumber 0x2B" "inNumber 0x2D" by (simp_all add: inNumber_def in_run_unat)
  then have "\<forall>b \<in> set (sg @ ds). inNumber b" using x by (auto simp: digits_def inNumber_def isDigit_in_run)
  then show ?thesis using that x by blast
qed

lemma sep_bytes:
  assumes "is_lexeme (Sep c)" shows "ascii c" "quiet c" "\<not> inNumber c" "\<not> in_run c"
  using assms by (auto simp: ascii_def quiet_def inNumber_def in_run_unat)

text \<open>A literal: its bytes are plain, for its \<open>e\<close> follows a letter.\<close>

lemma literal_bytes:
  assumes "is_lexeme (Lit cs)" "j < length cs"
  shows "ascii (cs ! j)" "cs ! j \<noteq> 0x22" "\<not> in_run (cs ! j)" "\<not> isDigit (cs ! j)" "j = 0 \<longrightarrow> quiet (cs ! j)"
proof -
  have "j = 0 \<or> j = 1 \<or> j = 2 \<or> j = 3 \<or> j = 4" using assms by auto
  then show "ascii (cs ! j)" "cs ! j \<noteq> 0x22" "\<not> in_run (cs ! j)" "\<not> isDigit (cs ! j)" "j = 0 \<longrightarrow> quiet (cs ! j)"
    using assms by (auto simp: ascii_def quiet_def in_run_unat isDigit_def)
qed

subsection \<open>The scan of the lexemes\<close>

lemma in_text:
  assumes "s = pre @ cs @ rest" "length pre \<le> j" "j < length pre + length cs" shows "s ! j = cs ! (j - length pre)"
proof -
  have "j - length pre < length cs" using assms(2,3) by linarith
  then show ?thesis using assms by (simp add: nth_append)
qed

lemma slice_text: "take (length cs) (drop (length pre) (pre @ cs @ rest)) = cs"
  by simp

text \<open>A string closes at the quote that is not escaped.\<close>

definition trailing :: "bytes \<Rightarrow> nat" where
  "trailing xs = backslashes xs (length xs)"

lemma backslashes_append: "k \<le> length xs \<Longrightarrow> backslashes (xs @ ys) k = backslashes xs k"
  by (induction k) (auto simp: nth_append)

lemma trailing_snoc: "trailing (xs @ [c]) = (if c = 0x5C then Suc (trailing xs) else 0)"
  by (simp add: trailing_def backslashes_append nth_append)

lemma backslashes_trailing: "backslashes (xs @ ys) (length xs) = trailing xs"
  by (simp add: trailing_def backslashes_append)

lemma ucast_8: "ucast (b :: 8 word) = (0x5C :: 32 word) \<Longrightarrow> b = 0x5C"
proof -
  assume "ucast b = (0x5C :: 32 word)"
  then have "unat (ucast b :: 32 word) = 0x5C" by simp
  then have "take_bit 32 (unat b) = 0x5C" by (simp add: unsigned_ucast_eq)
  moreover have "unat b < 2 ^ 32" by (rule less_le_trans [OF unat_lt]) simp
  ultimately show ?thesis by (simp add: take_bit_nat_eq_self word_unat_eq_iff)
qed

lemma string_body_trailing:
  "string_body cs \<Longrightarrow> even (trailing p) \<Longrightarrow>
   even (trailing (p @ cs)) \<and> (\<forall>j < length cs. cs ! j = 0x22 \<longrightarrow> odd (trailing (p @ take j cs)))"
proof (induction cs arbitrary: p rule: string_body.induct)
  case (body_plain c cs)
  have "c \<noteq> 0x5C" "c \<noteq> 0x22" using body_plain(1,2) by auto
  then show ?case using body_plain.IH [of "p @ [c]"] by (auto simp: trailing_snoc nth_Cons' take_Cons' less_Suc_eq_0_disj)
next
  case (body_escape b cs c)
  have b: "b = 0x5C" using body_escape(1) by (rule ucast_8)
  have e: "even (trailing (p @ [b, c]))" "odd (trailing (p @ [b]))"
    using trailing_snoc [of "p @ [b]" c] body_escape(4) b by (auto simp: trailing_snoc)
  show ?case
  proof (intro conjI allI impI)
    show "even (trailing (p @ b # c # cs))" using body_escape.IH [OF e(1)] by simp
    fix j assume j: "j < length (b # c # cs)" "(b # c # cs) ! j = 0x22"
    consider "j = 0" | "j = 1" | i where "j = Suc (Suc i)" by (metis One_nat_def not0_implies_Suc)
    then show "odd (trailing (p @ take j (b # c # cs)))"
    proof cases
      case 1 then show ?thesis using j b by simp
    next
      case 2 then show ?thesis using e(2) by simp
    next
      case 3 then show ?thesis using body_escape.IH [OF e(1)] j by simp
    qed
  qed
qed simp

lemma string_close_body:
  assumes "string_body cs" "s = pre @ 0x22 # cs @ 0x22 # rest" "n \<le> length s" "length pre + length cs + 1 < n"
    "length pre \<le> i" "i \<le> length pre + length cs"
  shows "string_close s n i = Some (length pre + length cs + 1)"
  using assms(5,6)
proof (induction "length pre + length cs - i" arbitrary: i rule: less_induct)
  case less
  let ?e = "length pre + length cs + 1"
  have s: "s = (pre @ [0x22]) @ cs @ 0x22 # rest" using assms(2) by simp
  have end_quote: "s ! ?e = 0x22" unfolding s by (simp add: nth_append)
  obtain q where q: "memchr s (i + 1) n 0x22 = Some q"
    using end_quote memchr_None [of s "i + 1" n "0x22" ?e] assms(4) less(3) by (cases "memchr s (i + 1) n 0x22") auto
  then have qs: "i + 1 \<le> q" "q < n" "s ! q = 0x22" "\<And>j. i + 1 \<le> j \<Longrightarrow> j < q \<Longrightarrow> s ! j \<noteq> 0x22" using memchr_Some by blast+
  have "q \<le> ?e" using qs(4) [of ?e] end_quote less(3) by (cases "q \<le> ?e") auto
  have t: "trailing (pre @ [0x22]) = 0" by (simp add: trailing_snoc)
  define j where "j = q - (length pre + 1)"
  have j: "q = length (pre @ [0x22]) + j" "j \<le> length cs" using qs(1) less(2) \<open>q \<le> ?e\<close> by (auto simp: j_def)
  have "s = (pre @ [0x22] @ take j cs) @ drop j cs @ 0x22 # rest" unfolding s by simp
  then have "backslashes s q = trailing (pre @ [0x22] @ take j cs)"
    using backslashes_trailing [of "pre @ [0x22] @ take j cs" "drop j cs @ 0x22 # rest"] j by simp
  then have b: "backslashes s q = trailing ((pre @ [0x22]) @ take j cs)" by simp
  have body: "even (trailing ((pre @ [0x22]) @ cs))" "\<And>j. j < length cs \<Longrightarrow> cs ! j = 0x22 \<Longrightarrow> odd (trailing ((pre @ [0x22]) @ take j cs))"
    using string_body_trailing [OF assms(1), of "pre @ [0x22]"] unfolding t by auto
  show ?case
  proof (cases "j = length cs")
    case True
    then have "\<not> odd (backslashes s q)" "q = ?e" using body(1) b j by auto
    then show ?thesis using q by (subst string_close.simps) simp
  next
    case False
    then have jl: "j < length cs" using j by simp
    then have "cs ! j = 0x22" using qs(3) unfolding s j(1) by (simp add: nth_append)
    then have "odd (backslashes s q)" using body(2) [OF jl] b by simp
    moreover have "string_close s n q = Some ?e" using less(1) [of q] qs(1) less(2,3) j jl by simp
    ultimately show ?thesis using q by (subst string_close.simps) simp
  qed
qed

text \<open>The text outside the strings is ASCII, and its strings close.\<close>

lemma unquoted_text:
  assumes "s = pre @ cs @ rest" "\<And>b. b \<in> set cs \<Longrightarrow> ascii b \<and> b \<noteq> 0x22"
  shows "unquoted s (length pre) (length (pre @ cs))"
  unfolding unquoted_def
proof (intro allI impI)
  fix j assume j: "length pre \<le> j \<and> j < length (pre @ cs)"
  then have "s ! j = cs ! (j - length pre)" "j - length pre < length cs" using in_text [OF assms(1)] by auto
  then show "ascii (s ! j) \<and> s ! j \<noteq> 0x22" using assms(2) nth_mem by metis
qed

lemma clean_lexemes:
  "\<forall>l \<in> set ls. is_lexeme l \<Longrightarrow> s = pre @ text_all ls @ rest \<Longrightarrow> n = length pre + length (text_all ls) \<Longrightarrow> clean s n (length pre)"
proof (induction ls arbitrary: pre)
  case Nil then show ?case by (simp add: clean_behind)
next
  case (Cons l ls)
  let ?k = "length (pre @ text_of l)"
  have rest: "clean s n ?k" using Cons.IH [of "pre @ text_of l"] Cons.prems by simp
  have l: "is_lexeme l" using Cons.prems by simp
  have s: "s = pre @ text_of l @ (text_all ls @ rest)" "?k \<le> n" using Cons.prems by auto
  show ?case
  proof (cases l)
    case (Str cs)
    have b: "string_body cs" using l Str by simp
    have "string_close s n (length pre) = Some (length pre + length cs + 1)"
      by (rule string_close_body [OF b, where rest = "text_all ls @ rest"]) (use Cons.prems Str in auto)
    moreover have "s ! length pre = 0x22" unfolding s(1) Str by (simp add: nth_append)
    moreover have "unquoted s (length pre) (length pre)" by (auto simp: unquoted_def)
    moreover have "clean s n (length pre + length cs + 1 + 1)" "length pre < n" using rest Cons.prems Str by simp_all
    ultimately show ?thesis using clean_string [of "length pre" "length pre" n s "length pre + length cs + 1"] by simp
  next
    case (Num m x)
    have b: "ascii b \<and> b \<noteq> 0x22" if "b \<in> set (m @ x)" for b
    proof -
      have "\<forall>b \<in> set x. inNumber b"
      proof (cases "x = []")
        case False
        then obtain e y where "x = e # y" "e = 0x65 \<or> e = 0x45" "\<forall>b \<in> set y. inNumber b"
          using exponent_bytes [of x] l Num by auto
        then show ?thesis by (auto simp: inNumber_def)
      qed simp
      moreover have "\<forall>b \<in> set m. inNumber b" using mantissa_bytes(2) [of m] l Num by (auto simp: inNumber_def)
      ultimately have "inNumber b" using that by auto
      then show ?thesis by (auto simp: inNumber_def in_run_unat ascii_def e_cases)
    qed
    have "unquoted s (length pre) ?k" by (rule unquoted_text [OF s(1)]) (use b Num in simp)
    then show ?thesis using clean_prepend [OF rest] by simp
  next
    case (Lit cs)
    have "unquoted s (length pre) ?k"
      by (rule unquoted_text [OF s(1)]) (use literal_bytes(1,2) [of cs] l Lit in \<open>auto simp: in_set_conv_nth\<close>)
    then show ?thesis using clean_prepend [OF rest] by simp
  next
    case (Sep c)
    have "unquoted s (length pre) ?k"
      by (rule unquoted_text [OF s(1)]) (use sep_bytes(1,2) [of c] l Sep in \<open>auto simp: quiet_def\<close>)
    then show ?thesis using clean_prepend [OF rest] by simp
  qed
qed

lemma count_run: "\<forall>b \<in> set bs. in_run b \<Longrightarrow> count_list (run_starts True (map in_run bs)) True = 0"
  by (induction bs) auto

lemma count_no_run: "\<forall>b \<in> set bs. \<not> in_run b \<Longrightarrow> count_list (run_starts p (map in_run bs)) True = 0"
  by (induction bs arbitrary: p) auto

lemma byte_loop_text:
  assumes "s = pre @ cs @ rest" "pos st = length pre" "length (pre @ cs) \<le> n" "n \<le> length s"
    "\<And>j. j < length cs \<Longrightarrow> plain s (length pre + j)"
  shows "byte_loop alloc s n st = byte_loop alloc s n (feed st cs)"
proof -
  have "byte_loop alloc s n st = byte_loop alloc s n (feed st (take (length cs) (drop (pos st) s)))"
  proof (rule byte_loop_feed)
    fix j assume "pos st \<le> j" "j < pos st + length cs"
    then show "plain s j" using assms(5) [of "j - length pre"] assms(2) by simp
  qed (use assms in simp_all)
  then show ?thesis using assms(1,2) by simp
qed

text \<open>The number around an exponent.\<close>

lemma number_start_text:
  assumes "\<forall>b \<in> set m. inNumber b" "pre = [] \<or> \<not> inNumber (last pre)"
  shows "number_start (pre @ m @ rest) (length pre + length m) = length pre"
  using assms(1)
proof (induction m arbitrary: rest rule: rev_induct)
  case Nil
  show ?case
  proof (cases pre rule: rev_cases)
    case (snoc ys y) then show ?thesis using assms(2) by (simp add: nth_append)
  qed simp
next
  case (snoc b m)
  then show ?case using snoc.IH [of "b # rest"] by (simp add: nth_append)
qed

lemma number_stop_text:
  "\<forall>b \<in> set x. inNumber b \<Longrightarrow> i = length pre \<Longrightarrow> i + length x \<le> n \<Longrightarrow>
   i + length x = n \<or> (rest \<noteq> [] \<and> \<not> inNumber (hd rest)) \<Longrightarrow> number_stop (pre @ x @ rest) i n = i + length x"
proof (induction x arbitrary: pre i)
  case Nil
  then show ?case by (subst number_stop.simps) (auto simp: nth_append hd_conv_nth)
next
  case (Cons b x)
  have "number_stop ((pre @ [b]) @ x @ rest) (i + 1) n = i + 1 + length x"
    by (rule Cons.IH) (use Cons.prems in auto)
  then show ?case using Cons.prems by (subst number_stop.simps) (simp add: nth_append)
qed

text \<open>What the loop has to answer, from a state in front of lexemes, with \<open>k\<close> numbers behind it.\<close>

definition finds :: "(nat \<Rightarrow> bool) \<Rightarrow> nat \<Rightarrow> nat \<Rightarrow> lexeme list \<Rightarrow> sj_token list \<Rightarrow> (int \<times> scan) option \<Rightarrow> bool" where
  "finds alloc k i ls ts out \<longleftrightarrow>
     (\<exists>r st. out = Some (r, st) \<and> ((r = -1 \<and> (\<exists>b. \<not> alloc b))
        \<or> (r = sint (of_nat (k + numbers ls) :: 64 word) \<and> tokens st = ts @ map token_of (exponent_tokens k i ls))))"

lemma tokens_feed [simp]: "tokens (feed st bs) = tokens st" "tokens_cap (feed st bs) = tokens_cap st"
  by (induction st bs rule: feed.induct) simp_all

lemma addToken_cases:
  obtains (Full) "addToken alloc ord start stop st = None" "\<exists>b. \<not> alloc b"
  | (Added) st' where "addToken alloc ord start stop st = Some st'" "ordinal st' = ordinal st"
      "tokens st' = tokens st @ [\<lparr>tok_ordinal = ucast ord, tok_offset = of_nat start, tok_length = of_nat (stop - start)\<rparr>]"
proof (cases "addToken alloc ord start stop st")
  case None
  then have "\<exists>b. \<not> alloc b" by (auto simp: addToken_def Let_def split: if_splits)
  then show ?thesis using None Full by blast
next
  case (Some st')
  then show ?thesis using Added [of st'] by (auto simp: addToken_def Let_def split: if_splits)
qed

lemma ucast_of_nat_32: "(ucast (of_nat k :: 64 word) :: 32 word) = of_nat k"
  by (rule bit_word_eqI) (simp add: bit_simps)

text \<open>What stands in front of a lexeme: no run leads into a number or a literal.\<close>

definition fresh :: "bytes \<Rightarrow> scan \<Rightarrow> lexeme list \<Rightarrow> bool" where
  "fresh pre st ls \<longleftrightarrow> (ls \<noteq> [] \<and> atom (hd ls) \<longrightarrow> before st = 0 \<and> (pre = [] \<or> \<not> inNumber (last pre) \<and> \<not> isDigit (last pre)))"

lemma isDigit_inNumber: "isDigit b \<Longrightarrow> inNumber b"
  by (simp add: inNumber_def isDigit_in_run)

lemma first_byte_after_number:
  assumes "lexed (Num m x # ls)"
  shows "text_all ls = [] \<or> \<not> inNumber (hd (text_all ls))"
proof (cases ls)
  case (Cons l ls')
  then have "\<not> atom l" "is_lexeme l" using assms by (auto simp: lexed_def)
  moreover have "\<not> inNumber 0x22" by (simp add: inNumber_def in_run_unat)
  ultimately show ?thesis using Cons sep_bytes(3) by (cases l) auto
qed simp

lemma byte_loop_number:
  assumes "is_lexeme (Num m x)" "s = pre @ (m @ x) @ rest" "pos st = length pre" "length (pre @ m @ x) \<le> n" "n \<le> length s"
    "ordinal st = of_nat k" "before st = 0" "pre = [] \<or> \<not> inNumber (last pre)"
    "length (pre @ m @ x) = n \<or> rest \<noteq> [] \<and> \<not> inNumber (hd rest)"
  obtains (Done) st' where "byte_loop alloc s n st = byte_loop alloc s n st'" "pos st' = length (pre @ m @ x)"
      "ordinal st' = of_nat (k + 1)" "before st' \<in> range mark"
      "tokens st' = tokens st @ (if x = [] then [] else [token_of (k, length pre, length (m @ x))])"
  | (Out) st' where "byte_loop alloc s n st = Some (-1, st')" "\<exists>b. \<not> alloc b"
proof -
  have m: "m \<noteq> []" "\<forall>b \<in> set m. in_run b" "isDigit (last m)" using mantissa_bytes [of m] assms(1) by simp_all
  then obtain b bs where mb: "m = b # bs" by (cases m) auto
  define st1 where "st1 = feed st m"
  have st1: "byte_loop alloc s n st = byte_loop alloc s n st1"
    unfolding st1_def
  proof (rule byte_loop_text [where rest = "x @ rest"])
    fix j assume "j < length m"
    then have "s ! (length pre + j) = m ! j" using assms(2) by (simp add: nth_append)
    then show "plain s (length pre + j)" using m(2) \<open>j < length m\<close> by (intro quiet_plain) (simp add: in_run_quiet)
  qed (use assms in simp_all)
  have p1: "pos st1 = length pre + length m" unfolding st1_def using assms(3) by simp
  have "count_list (run_starts False (map in_run m)) True = 1" using m(2) count_run [of bs] by (simp add: mb)
  moreover have "feed st m = st\<lparr>ordinal := ordinal st + of_nat (count_list (run_starts False (map in_run m)) True),
      before := mark (last (False # map in_run m)), pos := pos st + length m\<rparr>"
    by (rule feed_closed) (simp add: assms(7) mark_def)
  ultimately have o1: "ordinal st1 = of_nat (k + 1)" "before st1 \<in> range mark" "tokens st1 = tokens st"
    unfolding st1_def using assms(6) by simp_all
  show ?thesis
  proof (cases "x = []")
    case True then show ?thesis using Done [of st1] st1 p1 o1 by simp
  next
    case False
    then obtain e y where x: "x = e # y" "e = 0x65 \<or> e = 0x45" "\<forall>b \<in> set y. inNumber b"
      using exponent_bytes [of x] assms(1) by auto
    have s: "s = pre @ m @ e # y @ rest" using assms(2) x by simp
    have at: "s ! pos st1 = e" unfolding p1 s by (simp add: nth_append)
    have bf: "s ! (pos st1 - 1) = last m" 
    proof -
      have "(pre @ m) ! (length (pre @ m) - 1) = last (pre @ m)" using m(1) by (simp only: last_conv_nth append_is_Nil_conv simp_thms)
      moreover have "length (pre @ m) - 1 < length (pre @ m)" using m(1) by simp
      ultimately have "((pre @ m) @ e # y @ rest) ! (length (pre @ m) - 1) = last (pre @ m)" by (simp only: nth_append if_True)
      then show ?thesis using m(1) unfolding p1 s by simp
    qed
    have start: "number_start s (pos st1) = length pre"
      unfolding p1 s by (rule number_start_text [OF _ assms(8)]) (use m(2) in \<open>simp add: inNumber_def\<close>)
    have stop: "number_stop s (pos st1 + 1) n = pos st1 + 1 + length y"
      using number_stop_text [OF x(3), of "pos st1 + 1" "pre @ m @ [e]" n rest] assms(2,4,9) x p1 by (simp add: add.assoc)
    have run: "pos st1 < length s" "pos st1 < n" "pos st1 > 0" using assms(4,5) x p1 m(1) by auto
    have o: "ordinal st1 - 1 = of_nat k" using o1(1) by simp
    have e22: "e \<noteq> 0x22" "e OR 0x20 = 0x65" using x(2) by (auto simp: e_cases)
    have one: "one_byte alloc s n st1 = (case addToken alloc (of_nat k) (length pre) (pos st1 + 1 + length y) st1 of
        None \<Rightarrow> Some (Return (-1) st1) | Some st' \<Rightarrow> Some (Go (st'\<lparr>pos := pos st1 + 1 + length y, before := 0x80\<rparr>)))"
      using run e22 m(3) bf at start stop o by (simp add: one_byte_def Let_def cong: option.case_cong)
    show ?thesis
    proof (cases rule: addToken_cases [of alloc "of_nat k" "length pre" "pos st1 + 1 + length y" st1])
      case Full
      then have "byte_loop alloc s n st1 = Some (-1, st1)" using one run by (subst byte_loop.simps) simp
      then show ?thesis using Out Full st1 by simp
    next
      case (Added st2)
      define st3 where "st3 = st2\<lparr>pos := pos st1 + 1 + length y, before := 0x80\<rparr>"
      have l: "pos st1 + 1 + length y - length pre = length (m @ x)" unfolding p1 x(1) by simp
      have "byte_loop alloc s n st1 = byte_loop alloc s n st3" using one run Added(1) by (subst byte_loop.simps) (simp add: st3_def)
      moreover have "tokens st3 = tokens st @ [token_of (k, length pre, length (m @ x))]"
        using Added(3) o1(3) unfolding l st3_def by (simp add: token_of_def ucast_of_nat_32)
      moreover have "before st3 = mark True" by (simp add: st3_def mark_def)
      moreover have "pos st3 = length (pre @ m @ x)" "ordinal st3 = of_nat (k + 1)"
        using Added(2) o1(1) p1 x(1) unfolding st3_def by simp_all
      ultimately show ?thesis using Done [of st3] st1 False by simp
    qed
  qed
qed

lemma finds_step:
  "byte_loop alloc s n st = byte_loop alloc s n st' \<Longrightarrow> finds alloc k' i' ls (tokens st') (byte_loop alloc s n st') \<Longrightarrow>
   k + numbers (l # ls) = k' + numbers ls \<Longrightarrow>
   tokens st @ map token_of (exponent_tokens k i (l # ls)) = tokens st' @ map token_of (exponent_tokens k' i' ls) \<Longrightarrow>
   finds alloc k i (l # ls) (tokens st) (byte_loop alloc s n st)"
  unfolding finds_def by metis

lemma byte_loop_lexemes:
  "lexed ls \<Longrightarrow> s = pre @ text_all ls @ rest \<Longrightarrow> n = length pre + length (text_all ls) \<Longrightarrow> pos st = length pre \<Longrightarrow>
   ordinal st = of_nat k \<Longrightarrow> before st \<in> range mark \<Longrightarrow> fresh pre st ls \<Longrightarrow>
   finds alloc k (length pre) ls (tokens st) (byte_loop alloc s n st)"
proof (induction ls arbitrary: pre st k)
  case Nil
  then show ?case by (subst byte_loop.simps) (simp add: finds_def)
next
  case (Cons l ls)
  have l: "is_lexeme l" "lexed ls" "atom l \<Longrightarrow> ls \<noteq> [] \<Longrightarrow> \<not> atom (hd ls)"
    using Cons.prems(1) by (auto simp: lexed_def separated_Cons)
  have s: "s = pre @ text_of l @ (text_all ls @ rest)" "s = (pre @ text_of l) @ text_all ls @ rest"
    "n = length (pre @ text_of l) + length (text_all ls)" "length (pre @ text_of l) \<le> n" "n \<le> length s"
    using Cons.prems by simp_all
  have IH: "finds alloc k' (length (pre @ text_of l)) ls (tokens st') (byte_loop alloc s n st')"
    if "pos st' = length (pre @ text_of l)" "ordinal st' = of_nat k'" "before st' \<in> range mark" "fresh (pre @ text_of l) st' ls" for st' k'
    by (rule Cons.IH [OF l(2) s(2,3) that])
  show ?case
  proof (cases l)
    case (Sep c)
    have c: "quiet c" "\<not> inNumber c" "\<not> in_run c" using sep_bytes [of c] l Sep by simp_all
    have b: "byte_loop alloc s n st = byte_loop alloc s n (feed st [c])"
      using byte_loop_text [OF s(1) Cons.prems(4) s(4,5)] c(1) Sep s(1) by (simp add: quiet_plain nth_append)
    show ?thesis
      unfolding Sep by (rule finds_step [OF b [unfolded Sep] IH [unfolded Sep]])
        (use c Cons.prems(4,5) Sep isDigit_inNumber in \<open>auto simp: fresh_def mark_def\<close>)
  next
    case (Lit cs)
    have c: "\<not> in_run (cs ! j)" "cs ! j \<noteq> 0x22" "\<not> isDigit (cs ! j)" "j = 0 \<Longrightarrow> quiet (cs ! j)" if "j < length cs" for j
      using literal_bytes [of cs j] l Lit that by auto
    have "cs \<noteq> []" using l Lit by auto
    have b: "byte_loop alloc s n st = byte_loop alloc s n (feed st cs)"
    proof (rule byte_loop_text [where rest = "text_all ls @ rest"])
      fix j assume j: "j < length cs"
      have at: "s ! (length pre + i) = cs ! i" if "i < length cs" for i using that s(1) Lit by (simp add: nth_append)
      show "plain s (length pre + j)"
      proof (cases "j = 0")
        case True then show ?thesis using at [of 0] c(4) j by (intro quiet_plain) simp
      next
        case False
        then have "s ! (length pre + j - 1) = cs ! (j - 1)" using at [of "j - 1"] j by simp
        then show ?thesis using at [OF j] c(2) [OF j] c(3) [of "j - 1"] j by (simp add: plain_def)
      qed
    qed (use s Lit Cons.prems in simp_all)
    obtain p where p: "before st = mark p" using Cons.prems(6) by blast
    have f: "feed st cs = st\<lparr>before := mark False, pos := pos st + length cs\<rparr>"
    proof -
      have "\<forall>b \<in> set cs. \<not> in_run b" using c(1) by (metis in_set_conv_nth)
      then have "count_list (run_starts p (map in_run cs)) True = 0" "last (p # map in_run cs) = False"
        using \<open>cs \<noteq> []\<close> by (simp_all add: count_no_run last_map)
      then show ?thesis using feed_closed [OF p, of cs] by simp
    qed
    show ?thesis
      unfolding Lit by (rule finds_step [OF b IH [unfolded Lit]])
        (use f Cons.prems(4,5) l(3) Lit in \<open>auto simp: fresh_def\<close>)
  next
    case (Str cs)
    have close: "string_close s n (length pre) = Some (length pre + length cs + 1)"
      using string_close_body [of cs s pre "text_all ls @ rest" n "length pre"] l s Str by simp
    have i: "pos st < length s" "pos st < n" "s ! pos st = 0x22" using s Str Cons.prems(4) by (simp_all add: nth_append)
    define st' where "st' = st\<lparr>pos := length pre + length cs + 2, before := 0\<rparr>"
    have "one_byte alloc s n st = Some (Go st')" using i close Cons.prems(4) by (simp add: one_byte_def Let_def st'_def)
    then have b: "byte_loop alloc s n st = byte_loop alloc s n st'" using i by (subst byte_loop.simps) simp
    have "\<not> inNumber 0x22" "\<not> isDigit 0x22" by (simp_all add: inNumber_def in_run_unat isDigit_def)
    then show ?thesis
      unfolding Str by (intro finds_step [OF b IH [unfolded Str]])
        (use Cons.prems(5) Str in \<open>auto simp: fresh_def st'_def mark_def\<close>)
  next
    case (Num m x)
    have f: "before st = 0" "pre = [] \<or> \<not> inNumber (last pre)" using Cons.prems(7) Num by (auto simp: fresh_def)
    have nx: "length (pre @ m @ x) = n \<or> text_all ls @ rest \<noteq> [] \<and> \<not> inNumber (hd (text_all ls @ rest))"
      using first_byte_after_number [of m x ls] Cons.prems(1,3) Num by (cases "text_all ls") auto
    show ?thesis
    proof (rule byte_loop_number [of m x s pre "text_all ls @ rest" st n k alloc])
      fix st' assume st': "byte_loop alloc s n st = byte_loop alloc s n st'" "pos st' = length (pre @ m @ x)"
        "ordinal st' = of_nat (k + 1)" "before st' \<in> range mark"
        "tokens st' = tokens st @ (if x = [] then [] else [token_of (k, length pre, length (m @ x))])"
      show ?thesis
        unfolding Num by (rule finds_step [OF st'(1) IH [unfolded Num]]) (use st' l(3) Num in \<open>auto simp: fresh_def\<close>)
    next
      fix st' assume "byte_loop alloc s n st = Some (-1, st')" "\<exists>b. \<not> alloc b"
      then show ?thesis by (simp add: finds_def)
    qed (use l Num s f nx Cons.prems in simp_all)
  qed
qed

subsection \<open>The properties\<close>

lemma numbers_le: "lexed ls \<Longrightarrow> numbers ls \<le> length (text_all ls)"
proof (induction ls)
  case (Cons l ls)
  then have "numbers ls \<le> length (text_all ls)" "is_lexeme l" by (auto simp: lexed_def separated_Cons)
  moreover have "1 \<le> length m" if "is_mantissa m" for m using mantissa_bytes(1) [OF that] by (cases m) auto
  ultimately show ?case by (cases l) (auto simp: add.assoc [symmetric] intro!: add_mono, fastforce+)
qed simp

lemma sint_of_nat_64: "n < 2 ^ 63 \<Longrightarrow> sint (of_nat n :: 64 word) = int n"
  by (simp add: sint_uint signed_take_bit_int_eq_self take_bit_int_eq_self unsigned_of_nat take_bit_nat_eq_self)

text \<open>
  C18: On every JSON text the scan that reads sixteen and eight bytes at a time answers the count of
  its numbers and collects exactly those with an exponent, in their order, each with the count of the
  numbers in front of it, its offset and its length; or, if a \<open>realloc\<close> fails, it answers -1. The text
  has less than 2^32 bytes, and a blank that may be read stands behind it.
\<close>

theorem sj_number_tokens_finds_numbers:
  assumes "json_text ls" "length (text_all ls) < 2 ^ 32"
  shows "\<exists>r st. sj_number_tokens alloc (text_all ls @ 0x20 # rest) (length (text_all ls)) cap = Some (r, st)
    \<and> ((r = -1 \<and> (\<exists>b. \<not> alloc b)) \<or> (r = int (numbers ls) \<and> tokens st = map token_of (exponent_tokens 0 0 ls)))"
proof -
  let ?s = "text_all ls @ 0x20 # rest" and ?n = "length (text_all ls)"
  define st where "st = \<lparr>pos = 0, ordinal = 0, before = 0, tokens = [], tokens_cap = cap\<rparr>"
  have ls: "lexed ls" using text_lexed [OF assms(1)] .
  have m: "before st \<in> range mark" by (auto simp: st_def mark_def)
  have "clean ?s ?n (length ([] :: bytes))" by (rule clean_lexemes [where rest = "0x20 # rest"]) (use ls in \<open>simp_all add: lexed_def\<close>)
  then have v: "map_option view (scan_loop alloc ?s ?n st) = map_option view (byte_loop alloc ?s ?n st)"
    by (intro scan_loop_reads_bytes [OF _ _ _ m]) (simp_all add: st_def)
  have "finds alloc 0 (length ([] :: bytes)) ls (tokens st) (byte_loop alloc ?s ?n st)"
    by (rule byte_loop_lexemes [OF ls, where rest = "0x20 # rest"]) (use m in \<open>simp_all add: st_def fresh_def\<close>)
  then obtain r st1 where b: "byte_loop alloc ?s ?n st = Some (r, st1)"
    and r: "(r = -1 \<and> (\<exists>b. \<not> alloc b)) \<or> (r = sint (of_nat (numbers ls) :: 64 word) \<and> tokens st1 = map token_of (exponent_tokens 0 0 ls))"
    by (auto simp: finds_def st_def)
  obtain st2 where "scan_loop alloc ?s ?n st = Some (r, st2)" "tokens st2 = tokens st1"
    using v unfolding b by (auto simp: view_def)
  moreover have "numbers ls < 2 ^ 63" using numbers_le [OF ls] assms(2) by simp
  then have "sint (of_nat (numbers ls) :: 64 word) = int (numbers ls)" by (rule sint_of_nat_64)
  ultimately show ?thesis using r by (auto simp: sj_number_tokens_def st_def)
qed

text \<open>The text \<open>[1,"a\"2",-3.5e+7]\<close>, with 64 tokens allocated.\<close>

abbreviation example_numbers :: "lexeme list" where
  "example_numbers \<equiv> [Sep 0x5B, Num [0x31] [], Sep 0x2C, Str [0x61, 0x5C, 0x22, 0x32], Sep 0x2C,
     Num [0x2D, 0x33, 0x2E, 0x35] [0x65, 0x2B, 0x37], Sep 0x5D]"

lemma example_numbers_json: "json_text example_numbers"
proof -
  have d: "digits [0x31]" "digits [0x33]" "digits [0x35]" "digits [0x37]" by (simp_all add: digits_def isDigit_def)
  have "is_mantissa [0x31]" unfolding is_mantissa_def
    by (rule exI [of _ "[]"], rule exI [of _ "[0x31]"], rule exI [of _ "[]"]) (simp add: d)
  moreover have "is_mantissa [0x2D, 0x33, 0x2E, 0x35]" unfolding is_mantissa_def
    by (rule exI [of _ "[0x2D]"], rule exI [of _ "[0x33]"], rule exI [of _ "[0x2E, 0x35]"]) (simp add: d)
  moreover have "is_exponent [0x65, 0x2B, 0x37]" unfolding is_exponent_def
    by (rule exI [of _ "0x65"], rule exI [of _ "[0x2B]"], rule exI [of _ "[0x37]"]) (simp add: d)
  ultimately have n: "jvalue [Num [0x31] []]" "jvalue [Num [0x2D, 0x33, 0x2E, 0x35] [0x65, 0x2B, 0x37]]"
    by (simp_all add: jnumber)
  have "string_body [0x61, 0x5C, 0x22, 0x32 :: 8 word]" by (intro string_body.intros) simp_all
  then have s: "jvalue [Str [0x61, 0x5C, 0x22, 0x32]]" by (simp add: jstring)
  have b: "blanks []" by (simp add: blanks_def)
  have "jitems [Num [0x2D, 0x33, 0x2E, 0x35] [0x65, 0x2B, 0x37]]" using jitem [OF b n(2) b] by simp
  then have "jitems [Str [0x61, 0x5C, 0x22, 0x32], Sep 0x2C, Num [0x2D, 0x33, 0x2E, 0x35] [0x65, 0x2B, 0x37]]"
    using jitem_more [OF b s b] by simp
  then have "jitems [Num [0x31] [], Sep 0x2C, Str [0x61, 0x5C, 0x22, 0x32], Sep 0x2C, Num [0x2D, 0x33, 0x2E, 0x35] [0x65, 0x2B, 0x37]]"
    using jitem_more [OF b n(1) b] by simp
  then have "jvalue example_numbers" using jarray by fastforce
  then show ?thesis unfolding json_text_def using b by (metis append_Nil append_Nil2)
qed

lemma sj_number_tokens_finds_numbers_witness:
  "\<exists>st. sj_number_tokens (\<lambda>b. True) (text_all example_numbers @ [0x20]) (length (text_all example_numbers)) 64 = Some (2, st)
    \<and> tokens st = [\<lparr>tok_ordinal = 1, tok_offset = 10, tok_length = 7\<rparr>]"
  using sj_number_tokens_finds_numbers [OF example_numbers_json, where alloc = "\<lambda>b. True" and rest = "[]" and cap = 64]
  by (simp add: token_of_def)

text \<open>
  The memory must go on behind the text: a text of 16 bytes in one run, with nothing behind it, is
  read one byte too far.
\<close>

lemma sj_number_tokens_reads_behind: "sj_number_tokens (\<lambda>b. True) (replicate 16 0x31) 16 64 = None"
  by code_simp

subsection \<open>The gate\<close>

text \<open>What the header says of the gate.\<close>

definition gate_at :: "bytes \<Rightarrow> nat \<Rightarrow> nat \<Rightarrow> bool" where
  "gate_at s n i \<longleftrightarrow> i > 0 \<and> isDigit (s ! (i - 1)) \<and> i + 1 < n \<and> (isDigit (s ! (i + 1)) \<or> s ! (i + 1) = 0x2B \<or> s ! (i + 1) = 0x2D)"

lemma gate_letter_iff: "gate_letter s p n c \<longleftrightarrow> (\<exists>i. p \<le> i \<and> i < n \<and> s ! i = c \<and> gate_at s n i)"
proof (induction s p n c rule: gate_letter.induct)
  case (1 s p n c)
  show ?case
  proof (cases "memchr s p n c")
    case None
    then have "\<not> (\<exists>i. p \<le> i \<and> i < n \<and> s ! i = c)" using memchr_None by blast
    then show ?thesis using None by (subst gate_letter.simps) auto
  next
    case (Some q)
    have q: "p \<le> q" "q < n" "s ! q = c" "\<And>j. p \<le> j \<Longrightarrow> j < q \<Longrightarrow> s ! j \<noteq> c" using memchr_Some [OF Some] by blast+
    show ?thesis
    proof (cases "gate_at s n q")
      case True
      moreover have "gate_letter s p n c" using True Some q by (subst gate_letter.simps) (auto simp: gate_at_def)
      ultimately show ?thesis using q by blast
    next
      case False
      have e: "gate_letter s p n c = gate_letter s (q + 1) n c"
        using False Some q(1,2) by (subst gate_letter.simps) (auto simp: gate_at_def)
      have "gate_letter s (q + 1) n c \<longleftrightarrow> (\<exists>i. q + 1 \<le> i \<and> i < n \<and> s ! i = c \<and> gate_at s n i)"
        by (rule "1.IH" [OF _ Some]) (use False q in \<open>auto simp: gate_at_def\<close>)
      also have "\<dots> \<longleftrightarrow> (\<exists>i. p \<le> i \<and> i < n \<and> s ! i = c \<and> gate_at s n i)"
      proof -
        have "q + 1 \<le> i \<longleftrightarrow> p \<le> i" if "s ! i = c" "gate_at s n i" for i
        proof -
          have "i \<noteq> q" using that(2) False by blast
          moreover have "\<not> (p \<le> i \<and> i < q)" using q(4) that(1) by blast
          ultimately show ?thesis using q(1) by linarith
        qed
        then show ?thesis by blast
      qed
      finally show ?thesis unfolding e .
    qed
  qed
qed

lemma sj_exponent_gate_iff:
  "sj_exponent_gate s n \<longleftrightarrow> (\<exists>i < n. (s ! i = 0x65 \<or> s ! i = 0x45) \<and> gate_at s n i)"
  by (auto simp: sj_exponent_gate_def gate_letter_iff)

lemma number_passes_gate:
  assumes "is_lexeme (Num m x)" "x \<noteq> []" "s = pre @ (m @ x) @ rest"
  shows "sj_exponent_gate s (length (pre @ m @ x) + k)"
proof -
  let ?i = "length pre + length m"
  obtain e sg ds where x: "x = e # sg @ ds" "e = 0x65 \<or> e = 0x45" "sg = [] \<or> sg = [0x2B] \<or> sg = [0x2D]" "digits ds"
    using assms(1,2) by (auto simp: is_exponent_def)
  have m: "m \<noteq> []" "isDigit (last m)" using mantissa_bytes [of m] assms(1) by simp_all
  have s: "s = (pre @ m) @ e # sg @ ds @ rest" using assms(3) x(1) by simp
  have at: "s ! ?i = e" unfolding s by (simp add: nth_append)
  have "s ! (?i - 1) = last m"
  proof -
    have "(pre @ m) ! (length (pre @ m) - 1) = last (pre @ m)" using m(1) by (simp only: last_conv_nth append_is_Nil_conv simp_thms)
    moreover have "length (pre @ m) - 1 < length (pre @ m)" using m(1) by simp
    ultimately have "((pre @ m) @ e # sg @ ds @ rest) ! (length (pre @ m) - 1) = last (pre @ m)" by (simp only: nth_append if_True)
    then show ?thesis using m(1) unfolding s by simp
  qed
  moreover obtain d ds' where ds: "ds = d # ds'" "isDigit d" using x(4) by (cases ds) (auto simp: digits_def)
  have "s ! (?i + 1) = hd (sg @ ds)" unfolding s by (subst nth_append) (use x(3) ds in auto)
  then have "isDigit (s ! (?i + 1)) \<or> s ! (?i + 1) = 0x2B \<or> s ! (?i + 1) = 0x2D" using x(3) ds by auto
  moreover have "?i + 1 < length (pre @ m @ x) + k" using x(1) ds by simp
  ultimately have "gate_at s (length (pre @ m @ x) + k) ?i" using m by (simp add: gate_at_def)
  then show ?thesis unfolding sj_exponent_gate_iff using at x by (intro exI [of _ ?i]) auto
qed

lemma exponent_passes_gate:
  "\<forall>l \<in> set ls. is_lexeme l \<Longrightarrow> s = pre @ text_all ls @ rest \<Longrightarrow> exponent_tokens k i ls \<noteq> [] \<Longrightarrow>
   sj_exponent_gate s (length pre + length (text_all ls))"
proof (induction ls arbitrary: pre k i)
  case (Cons l ls)
  have next_gate: "sj_exponent_gate s (length pre + length (text_all (l # ls)))" if "exponent_tokens k' i' ls \<noteq> []" for k' i'
    using Cons.IH [of "pre @ text_of l" k' i'] that Cons.prems by (simp add: add.assoc)
  show ?case
  proof (cases l)
    case (Num m x)
    show ?thesis
    proof (cases "x = []")
      case False
      then show ?thesis
        using number_passes_gate [of m x s pre "text_all ls @ rest" "length (text_all ls)"] Cons.prems Num by (simp add: add.assoc)
    qed (use next_gate Cons.prems(3) Num in simp)
  qed (use next_gate Cons.prems(3) in auto)
qed simp

text \<open>
  The gate misses no exponent: where it answers 0 on a JSON text, the text has no number with an
  exponent, so the caller may leave the scan out.
\<close>

theorem sj_exponent_gate_misses_none:
  assumes "json_text ls" "\<not> sj_exponent_gate (text_all ls @ rest) (length (text_all ls))"
  shows "exponent_tokens 0 0 ls = []"
  using exponent_passes_gate [of ls "text_all ls @ rest" "[]" rest 0 0] text_lexed [OF assms(1)] assms(2)
  by (auto simp: lexed_def)

text \<open>The text \<open>"5e"\<close>.\<close>

lemma sj_exponent_gate_misses_none_witness: "exponent_tokens 0 0 [Str [0x35, 0x65]] = []"
proof (rule sj_exponent_gate_misses_none [where rest = "[]"])
  have "string_body [0x35, 0x65 :: 8 word]" by (intro string_body.intros) simp_all
  then have "jvalue [Str [0x35, 0x65]]" by (simp add: jstring)
  moreover have "blanks []" by (simp add: blanks_def)
  ultimately show "json_text [Str [0x35, 0x65]]" unfolding json_text_def by (metis append_Nil append_Nil2)
  show "\<not> sj_exponent_gate (text_all [Str [0x35, 0x65]] @ []) (length (text_all [Str [0x35, 0x65]]))" by code_simp
qed

end
