(* ===== verification/MiscStrings.thy ===== *)
theory MiscStrings
  imports MiscPrims
begin

text \<open>
  The primitives of \<open>MiscPrimitivePlugin.c\<close> over byte strings: comparison in an order, the searches,
  the hash, the translation with a table and the widening of signed samples. An index that is not a
  small integer is \<open>None\<close>; the tables are read only after their size was checked.
\<close>

type_synonym bytestring = "8 word list"

definition entry :: "bytestring \<Rightarrow> 8 word \<Rightarrow> 8 word" where
  "entry table c = table ! unat c"

subsection \<open>Comparison\<close>

function compare_loop :: "bytestring \<Rightarrow> bytestring \<Rightarrow> bytestring \<Rightarrow> nat \<Rightarrow> int" where
  "compare_loop order string1 string2 i =
     (let len1 = length string1; len2 = length string2
      in if i < (if len1 < len2 then len1 else len2)
         then let c1 = entry order (string1 ! i); c2 = entry order (string2 ! i)
           in if c1 = c2 then compare_loop order string1 string2 (i + 1) else if c1 < c2 then 1 else 3
         else if len1 = len2 then 2 else if len1 < len2 then 1 else 3)"
  by pat_completeness auto
termination by (relation "measure (\<lambda>(order, string1, string2, i). length string1 - i)") (auto split: if_splits)

definition primitiveCompareString :: "bytes_oop \<Rightarrow> bytes_oop \<Rightarrow> bytes_oop \<Rightarrow> int prim_result" where
  "primitiveCompareString string1 string2 order =
     (if \<not> (is_bytes order \<and> is_bytes string2 \<and> is_bytes string1) then PrimFail PrimErrBadArgument
      else if length (contents order) < 256 then PrimFail PrimErrBadArgument
      else PrimReturn (compare_loop (contents order) (contents string1) (contents string2) 0))"

subsection \<open>Searches\<close>

function skip_excluded :: "bytestring \<Rightarrow> bytestring \<Rightarrow> nat \<Rightarrow> nat" where
  "skip_excluded inclusionMap aString i =
     (if i < length aString \<and> entry inclusionMap (aString ! i) = 0 then skip_excluded inclusionMap aString (i + 1) else i)"
  by pat_completeness auto
termination by (relation "measure (\<lambda>(m, s, i). length s - i)") auto

definition primitiveFindFirstInString :: "bytes_oop \<Rightarrow> bytes_oop \<Rightarrow> int option \<Rightarrow> int prim_result" where
  "primitiveFindFirstInString aString inclusionMap start =
     (if \<not> is_bytes aString then PrimFail PrimErrBadArgument
      else if \<not> is_bytes inclusionMap then PrimFail PrimErrBadArgument
      else case start of
             None \<Rightarrow> PrimFail PrimErrBadArgument
           | Some start \<Rightarrow>
               let i = start - 1
               in if i < 0 then PrimFail PrimErrBadIndex
                  else if length (contents inclusionMap) \<noteq> 256 then PrimReturn 0
                  else let i = skip_excluded (contents inclusionMap) (contents aString) (nat i)
                    in PrimReturn (if i \<ge> length (contents aString) then 0 else int i + 1))"

text \<open>The inner loop of the search: it compares from \<open>index\<close> on, up to the last byte of the key.\<close>

function matches_from :: "bytestring \<Rightarrow> bytestring \<Rightarrow> bytestring \<Rightarrow> nat \<Rightarrow> nat \<Rightarrow> nat \<Rightarrow> bool" where
  "matches_from matchTable body key startIndex keySize index =
     (if entry matchTable (body ! (startIndex + index)) = entry matchTable (key ! index)
      then if index = keySize then True
           else if index < keySize then matches_from matchTable body key startIndex keySize (index + 1) else False
      else False)"
  by pat_completeness auto
termination by (relation "measure (\<lambda>(t, b, k, s, n, i). n - i)") auto

function search_loop :: "bytestring \<Rightarrow> bytestring \<Rightarrow> bytestring \<Rightarrow> nat \<Rightarrow> int \<Rightarrow> nat \<Rightarrow> int" where
  "search_loop matchTable body key keySize limit startIndex =
     (if int startIndex \<le> limit
      then if matches_from matchTable body key startIndex keySize 0 then int startIndex + 1
           else search_loop matchTable body key keySize limit (startIndex + 1)
      else 0)"
  by pat_completeness auto
termination by (relation "measure (\<lambda>(t, b, k, n, l, i). nat (l + 1 - int i))") auto

definition primitiveFindSubstring :: "bytes_oop \<Rightarrow> bytes_oop \<Rightarrow> int option \<Rightarrow> bytes_oop \<Rightarrow> int prim_result" where
  "primitiveFindSubstring key body start matchTable =
     (if \<not> is_bytes key then PrimFail PrimErrBadArgument
      else if \<not> is_bytes body then PrimFail PrimErrBadArgument
      else case start of
             None \<Rightarrow> PrimFail PrimErrBadArgument
           | Some start \<Rightarrow>
               if \<not> is_bytes matchTable then PrimFail PrimErrBadArgument
               else if length (contents matchTable) < 256 then PrimFail PrimErrBadArgument
               else let keySize = length (contents key)
                 in if keySize > 0
                    then let keySize = keySize - 1; start = if start - 1 < 0 then 0 else start - 1
                      in PrimReturn (search_loop (contents matchTable) (contents body) (contents key) keySize
                           (int (length (contents body)) - 1 - int keySize) (nat start))
                    else PrimReturn 0)"

function index_loop :: "bytestring \<Rightarrow> int \<Rightarrow> nat \<Rightarrow> int" where
  "index_loop aString anInteger p =
     (if p < length aString
      then if int (unat (aString ! p)) = anInteger then int p + 1 else index_loop aString anInteger (p + 1)
      else 0)"
  by pat_completeness auto
termination by (relation "measure (\<lambda>(s, c, p). length s - p)") auto

definition primitiveIndexOfAsciiInString :: "int option \<Rightarrow> bytes_oop \<Rightarrow> int option \<Rightarrow> int prim_result" where
  "primitiveIndexOfAsciiInString anInteger aString start =
     (case anInteger of
        None \<Rightarrow> PrimFail PrimErrBadArgument
      | Some anInteger \<Rightarrow>
          if \<not> is_bytes aString then PrimFail PrimErrBadArgument
          else case start of
                 None \<Rightarrow> PrimFail PrimErrBadArgument
               | Some start \<Rightarrow>
                   if \<not> start \<ge> 1 then PrimFail PrimErrBadIndex
                   else PrimReturn (index_loop (contents aString) anInteger (nat (start - 1))))"

subsection \<open>The hash, the translation and the samples\<close>

definition primitiveStringHash :: "bytes_oop \<Rightarrow> int option \<Rightarrow> 32 word prim_result" where
  "primitiveStringHash aByteArray speciesHash =
     (case speciesHash of
        None \<Rightarrow> PrimFail PrimErrBadArgument
      | Some speciesHash \<Rightarrow>
          if \<not> is_bytes aByteArray then PrimFail PrimErrBadArgument
          else PrimReturn (foldl (\<lambda>hash b. (hash + ucast b) * 1664525) (word_of_int speciesHash) (contents aByteArray) AND 0xFFFFFFF))"

function translate_loop :: "bytestring \<Rightarrow> int \<Rightarrow> nat \<Rightarrow> bytestring \<Rightarrow> bytestring" where
  "translate_loop table stop i aString =
     (if int i < stop then translate_loop table stop (i + 1) (aString[i := entry table (aString ! i)]) else aString)"
  by pat_completeness auto
termination by (relation "measure (\<lambda>(t, stop, i, s). nat (stop - int i))") auto

definition primitiveTranslateStringWithTable ::
    "bytes_oop \<Rightarrow> int option \<Rightarrow> int option \<Rightarrow> bytes_oop \<Rightarrow> unit prim_result \<times> bytes_oop" where
  "primitiveTranslateStringWithTable aString start stop table =
     (if \<not> is_bytes aString then (PrimFail PrimErrBadArgument, aString)
      else if bytes_immutable aString then (PrimFail PrimErrNoModification, aString)
      else case start of
             None \<Rightarrow> (PrimFail PrimErrBadArgument, aString)
           | Some start \<Rightarrow>
               (case stop of
                  None \<Rightarrow> (PrimFail PrimErrBadArgument, aString)
                | Some stop \<Rightarrow>
                    if \<not> is_bytes table then (PrimFail PrimErrBadArgument, aString)
                    else if \<not> (start \<ge> 1 \<and> stop \<le> int (length (contents aString))) then (PrimFail PrimErrBadIndex, aString)
                    else if length (contents table) < 256 then (PrimFail PrimErrBadArgument, aString)
                    else (PrimReturn (), aString\<lparr>contents := translate_loop (contents table) stop (nat (start - 1)) (contents aString)\<rparr>)))"

definition widen_sample :: "8 word \<Rightarrow> 16 word" where
  "widen_sample s = (if s > 0x7F then ucast (push_bit 8 (word_of_int (uint s - 256) :: 64 word)) else ucast (push_bit 8 (ucast s :: 64 word)))"

text \<open>The sound buffer as its 16-bit elements, and the odd byte behind them.\<close>

definition primitiveConvert8BitSigned :: "bytes_oop \<Rightarrow> bool \<Rightarrow> bool \<Rightarrow> 16 word list \<Rightarrow> nat \<Rightarrow> unit prim_result \<times> 16 word list" where
  "primitiveConvert8BitSigned byteArray is_words immutable soundBuffer oddBytes =
     (if \<not> is_bytes byteArray then (PrimFail PrimErrBadArgument, soundBuffer)
      else if \<not> is_words then (PrimFail PrimErrBadArgument, soundBuffer)
      else if immutable then (PrimFail PrimErrNoModification, soundBuffer)
      else if 2 * length soundBuffer + oddBytes < 2 * length (contents byteArray) then (PrimFail PrimErrBadArgument, soundBuffer)
      else (PrimReturn (), foldl (\<lambda>b i. b[i := widen_sample (contents byteArray ! i)]) soundBuffer [0..<length (contents byteArray)]))"

declare compare_loop.simps [simp del] skip_excluded.simps [simp del] matches_from.simps [simp del] search_loop.simps [simp del]
  index_loop.simps [simp del] translate_loop.simps [simp del]

subsection \<open>What they compute\<close>

lemma all_from:
  "(i :: nat) < n \<Longrightarrow> (\<forall>j. i \<le> j \<and> j < n \<longrightarrow> P j) \<longleftrightarrow> P i \<and> (\<forall>j. i + 1 \<le> j \<and> j < n \<longrightarrow> P j)"
  "i \<le> n \<Longrightarrow> (\<forall>j. i \<le> j \<and> j \<le> n \<longrightarrow> P j) \<longleftrightarrow> P i \<and> (\<forall>j. i + 1 \<le> j \<and> j \<le> n \<longrightarrow> P j)"
  by (metis Suc_eq_plus1 Suc_leI le_less order_refl Suc_leD)+

text \<open>The comparison is the one of the translated strings, and turns around with its arguments.\<close>

lemma compare_loop_equal: "compare_loop order s t i = 2 \<longleftrightarrow> length s = length t \<and> (\<forall>j. i \<le> j \<and> j < length s \<longrightarrow> entry order (s ! j) = entry order (t ! j))"
proof (induction order s t i rule: compare_loop.induct)
  case (1 order s t i)
  show ?case
  proof (cases "i < length s \<and> i < length t")
    case True
    show ?thesis
    proof (cases "entry order (s ! i) = entry order (t ! i)")
      case eq: True
      have "compare_loop order s t i = compare_loop order s t (i + 1)" using True eq by (subst compare_loop.simps) (simp add: Let_def)
      then show ?thesis
        using "1.IH" [OF refl refl _ refl refl eq] True eq all_from(1) [of i "length s" "\<lambda>j. entry order (s ! j) = entry order (t ! j)"]
        by auto
    next
      case False then show ?thesis using True by (subst compare_loop.simps) (auto simp: Let_def)
    qed
  next
    case False then show ?thesis by (subst compare_loop.simps) (auto simp: Let_def)
  qed
qed

lemma compare_loop_flip: "compare_loop order t s i = 4 - compare_loop order s t i"
proof (induction order s t i rule: compare_loop.induct)
  case (1 order s t i)
  show ?case
  proof (cases "i < length s \<and> i < length t \<and> entry order (s ! i) = entry order (t ! i)")
    case True
    then have "compare_loop order s t i = compare_loop order s t (i + 1)" "compare_loop order t s i = compare_loop order t s (i + 1)"
      by (subst compare_loop.simps, simp add: Let_def)+
    then show ?thesis using "1.IH" [OF refl refl _ refl refl] True by auto
  next
    case False then show ?thesis by (subst (1 2) compare_loop.simps) (auto simp: Let_def)
  qed
qed

lemma translate_loop_closed:
  "stop \<le> int (length s) \<Longrightarrow> translate_loop table stop i s
     = take i s @ map (entry table) (take (nat stop - i) (drop i s)) @ drop (max i (nat stop)) s"
proof (induction table stop i s rule: translate_loop.induct)
  case (1 table stop i s)
  show ?case
  proof (cases "int i < stop")
    case True
    then have i: "i < length s" "nat stop - i = Suc (nat stop - (i + 1))" "i < nat stop" using 1(2) by auto
    have "translate_loop table stop i s = translate_loop table stop (i + 1) (s[i := entry table (s ! i)])"
      using True by (subst translate_loop.simps) simp
    also have "\<dots> = take (i + 1) (s[i := entry table (s ! i)]) @ map (entry table) (take (nat stop - (i + 1)) (drop (i + 1) s)) @ drop (nat stop) s"
      using "1.IH" [OF True] 1(2) i by (simp add: max_def)
    also have "\<dots> = take i s @ map (entry table) (take (nat stop - i) (drop i s)) @ drop (max i (nat stop)) s"
      using i by (simp add: take_Suc_conv_app_nth Cons_nth_drop_Suc [symmetric] max_def)
    finally show ?thesis .
  next
    case False
    then have "nat stop \<le> i" by linarith
    then show ?thesis using False by (subst translate_loop.simps) (simp add: max_def)
  qed
qed

text \<open>The search answers the first place where the whole key matches.\<close>

lemma matches_from_iff:
  "index \<le> keySize \<Longrightarrow> matches_from t body key s keySize index \<longleftrightarrow> (\<forall>j. index \<le> j \<and> j \<le> keySize \<longrightarrow> entry t (body ! (s + j)) = entry t (key ! j))"
proof (induction t body key s keySize index rule: matches_from.induct)
  case (1 t body key s keySize index)
  show ?case
  proof (cases "index < keySize \<and> entry t (body ! (s + index)) = entry t (key ! index)")
    case True
    then have "matches_from t body key s keySize index = matches_from t body key s keySize (index + 1)" by (subst matches_from.simps) simp
    then show ?thesis
      using "1.IH" True all_from(2) [of index keySize "\<lambda>j. entry t (body ! (s + j)) = entry t (key ! j)"] by auto
  next
    case False then show ?thesis using 1(2) by (subst matches_from.simps) auto
  qed
qed

definition occurs_at :: "bytestring \<Rightarrow> bytestring \<Rightarrow> bytestring \<Rightarrow> nat \<Rightarrow> bool" where
  "occurs_at t body key p \<longleftrightarrow> p + length key \<le> length body \<and> (\<forall>j < length key. entry t (body ! (p + j)) = entry t (key ! j))"

lemma search_loop_first:
  assumes "key \<noteq> []"
  shows "(search_loop t body key (length key - 1) (int (length body) - 1 - int (length key - 1)) i = 0 \<and> (\<forall>p \<ge> i. \<not> occurs_at t body key p))
    \<or> (\<exists>p \<ge> i. search_loop t body key (length key - 1) (int (length body) - 1 - int (length key - 1)) i = int p + 1
         \<and> occurs_at t body key p \<and> (\<forall>q. i \<le> q \<and> q < p \<longrightarrow> \<not> occurs_at t body key q))"
proof (induction "nat (int (length body) - int i)" arbitrary: i rule: less_induct)
  case less
  let ?l = "int (length body) - 1 - int (length key - 1)"
  have len: "0 < length key" using assms by simp
  show ?case
  proof (cases "int i \<le> ?l")
    case False
    then have "\<not> occurs_at t body key p" if "i \<le> p" for p using that len by (auto simp: occurs_at_def)
    then show ?thesis using False by (subst (1) search_loop.simps) auto
  next
    case True
    then have fits: "i + length key \<le> length body" using len by linarith
    have m: "matches_from t body key i (length key - 1) 0 \<longleftrightarrow> occurs_at t body key i"
    proof -
      have "j \<le> length key - 1 \<longleftrightarrow> j < length key" for j using len by linarith
      then show ?thesis using fits assms matches_from_iff [of 0 "length key - 1" t body key i] by (simp add: occurs_at_def)
    qed
    show ?thesis
    proof (cases "occurs_at t body key i")
      case occ: True
      then have "search_loop t body key (length key - 1) ?l i = int i + 1" using True m by (subst search_loop.simps) simp
      then show ?thesis using occ by (intro disjI2 exI [of _ i]) auto
    next
      case no: False
      have e: "search_loop t body key (length key - 1) ?l i = search_loop t body key (length key - 1) ?l (i + 1)"
        using True no m by (subst search_loop.simps) simp
      have "nat (int (length body) - int (i + 1)) < nat (int (length body) - int i)" using fits len by linarith
      from less [OF this] show ?thesis
      proof
        assume a: "search_loop t body key (length key - 1) ?l (i + 1) = 0 \<and> (\<forall>p \<ge> i + 1. \<not> occurs_at t body key p)"
        have "\<not> occurs_at t body key p" if "p \<ge> i" for p using a no that by (cases "p = i") auto
        then show ?thesis using a e by auto
      next
        assume "\<exists>p \<ge> i + 1. search_loop t body key (length key - 1) ?l (i + 1) = int p + 1 \<and> occurs_at t body key p
            \<and> (\<forall>q. i + 1 \<le> q \<and> q < p \<longrightarrow> \<not> occurs_at t body key q)"
        then obtain p where p: "i + 1 \<le> p" "search_loop t body key (length key - 1) ?l (i + 1) = int p + 1" "occurs_at t body key p"
          "\<And>q. i + 1 \<le> q \<Longrightarrow> q < p \<Longrightarrow> \<not> occurs_at t body key q" by blast
        have "\<not> occurs_at t body key q" if "i \<le> q" "q < p" for q using p(4) no that by (cases "q = i") auto
        then show ?thesis using p e by (intro disjI2 exI [of _ p]) auto
      qed
    qed
  qed
qed

end
